(* ===== verification/Xv6_Prelude.thy ===== *)
theory Xv6_Prelude
  imports Main "HOL-Library.Word"
begin

text \<open>
  Prelude of the development: the names of the machine integers, the result type of a kernel
  routine, the little-endian view of integers in byte arrays, and the generic lemmas about lists,
  words and loops that the component theories share.
\<close>

unbundle bit_operations_syntax

section \<open>Machine types\<close>

text \<open>The C types of \<open>types.h\<close>; a C \<open>int\<close> is a 32-bit word read with \<open>sint\<close>.\<close>

type_synonym u8 = "8 word"
type_synonym u16 = "16 word"
type_synonym u32 = "32 word"
type_synonym i32 = "32 word"
type_synonym bytes = "u8 list"

named_theorems kdefs \<open>definitions of kernel routines that are unfolded together\<close>
named_theorems frame \<open>fields that an operation leaves alone\<close>

section \<open>Results of kernel routines\<close>

text \<open>
  A routine of the kernel either returns, or stops the flow of control for good: it calls
  \<open>panic\<close>, it spins or sleeps in a place from which the sequential run of the calling process
  cannot continue, or it does something the C standard leaves undefined.
\<close>

datatype stop =
    Panic string
  | Spins string
  | Sleeps string
  | Fault string

text \<open>Sequencing: the rest of the routine runs only when the first part returns.\<close>

fun bindE :: "stop + 'a \<Rightarrow> ('a \<Rightarrow> stop + 'b) \<Rightarrow> stop + 'b" where
  "bindE (Inl e) f = Inl e"
| "bindE (Inr x) f = f x"

lemma bindE_Inr_iff: "bindE m f = Inr y \<longleftrightarrow> (\<exists>x. m = Inr x \<and> f x = Inr y)"
  by (cases m) auto

lemma bindE_Inl_iff: "bindE m f = Inl e \<longleftrightarrow> m = Inl e \<or> (\<exists>x. m = Inr x \<and> f x = Inl e)"
  by (cases m) auto

lemma bindE_InrE:
  assumes "bindE m f = Inr y"
  obtains x where "m = Inr x" and "f x = Inr y"
  using assms by (auto simp: bindE_Inr_iff)

lemma bindE_assoc: "bindE (bindE m f) g = bindE m (\<lambda>x. bindE (f x) g)"
  by (cases m) auto

lemma bindE_return [simp]: "bindE m Inr = m"
  by (cases m) auto

lemma bindE_cong [fundef_cong]:
  "m = m' \<Longrightarrow> (\<And>x. m' = Inr x \<Longrightarrow> f x = f' x) \<Longrightarrow> bindE m f = bindE m' f'"
  by (cases m') auto

text \<open>\<open>if(!c) panic(msg);\<close>\<close>

definition panic_unless :: "string \<Rightarrow> bool \<Rightarrow> stop + unit" where
  "panic_unless msg c = (if c then Inr () else Inl (Panic msg))"

lemma panic_unless_simps [simp]:
  "panic_unless msg True = Inr ()"
  "panic_unless msg False = Inl (Panic msg)"
  "panic_unless msg c = Inr u \<longleftrightarrow> c"
  by (auto simp: panic_unless_def)

text \<open>A bounded loop \<open>for(x in xs) body\<close> whose body may stop.\<close>

fun forE :: "('x \<Rightarrow> 's \<Rightarrow> stop + 's) \<Rightarrow> 'x list \<Rightarrow> 's \<Rightarrow> stop + 's" where
  "forE f [] s = Inr s"
| "forE f (x # xs) s = bindE (f x s) (forE f xs)"

lemma forE_append: "forE f (xs @ ys) s = bindE (forE f xs s) (forE f ys)"
proof (induction xs arbitrary: s)
  case (Cons x xs)
  then have "(\<lambda>u. forE f (xs @ ys) u) = (\<lambda>u. bindE (forE f xs u) (forE f ys))"
    by (rule ext)
  then show ?case by (simp add: bindE_assoc)
qed simp

lemma forE_inv:
  assumes "\<And>x s s'. x \<in> set xs \<Longrightarrow> P s \<Longrightarrow> f x s = Inr s' \<Longrightarrow> P s'"
    and "P s" and "forE f xs s = Inr s'"
  shows "P s'"
  using assms
proof (induction xs arbitrary: s)
  case (Cons x xs)
  from Cons.prems(3) obtain t where t: "f x s = Inr t" "forE f xs t = Inr s'"
    by (auto simp: bindE_Inr_iff)
  have "P t" using Cons.prems(1) [OF _ Cons.prems(2) t(1)] by simp
  moreover have "\<And>y u u'. y \<in> set xs \<Longrightarrow> P u \<Longrightarrow> f y u = Inr u' \<Longrightarrow> P u'"
    using Cons.prems(1) by (metis list.set_intros(2))
  ultimately show ?case using Cons.IH t(2) by blast
qed simp

lemma forE_frame:
  assumes "\<And>x s s'. x \<in> set xs \<Longrightarrow> f x s = Inr s' \<Longrightarrow> g s' = g s"
    and "forE f xs s = Inr s'"
  shows "g s' = g s"
  using forE_inv [where P = "\<lambda>t. g t = g s", OF _ refl assms(2)] assms(1) by metis

lemma forE_cong [fundef_cong]:
  assumes "xs = ys" and "s = t" and "\<And>x u. x \<in> set ys \<Longrightarrow> f x u = g x u"
  shows "forE f xs s = forE g ys t"
proof -
  have "forE f zs u = forE g zs u" if "set zs \<subseteq> set ys" for zs u
    using that assms(3) by (induction zs arbitrary: u) (auto intro!: bindE_cong)
  then show ?thesis using assms(1,2) by simp
qed

text \<open>
  Postconditions of the runs that return. The rules in \<open>wpI\<close> follow the shape of a routine; each
  component adds one rule per operation.
\<close>

definition wp :: "stop + 'a \<Rightarrow> ('a \<Rightarrow> bool) \<Rightarrow> bool" where
  "wp m Q \<longleftrightarrow> (\<forall>x. m = Inr x \<longrightarrow> Q x)"

named_theorems wpI \<open>introduction rules for wp\<close>

lemma wp_Inr [simp]: "wp (Inr x) Q = Q x"
  by (simp add: wp_def)

lemma wp_Inl [simp]: "wp (Inl e) Q"
  by (simp add: wp_def)

lemma wp_bind [wpI]: "wp m (\<lambda>x. wp (f x) Q) \<Longrightarrow> wp (bindE m f) Q"
  by (cases m) simp_all

lemma wp_if [wpI]: "(c \<Longrightarrow> wp a Q) \<Longrightarrow> (\<not> c \<Longrightarrow> wp b Q) \<Longrightarrow> wp (if c then a else b) Q"
  by simp

lemma wp_option [wpI]:
  "(x = None \<Longrightarrow> wp a Q) \<Longrightarrow> (\<And>y. x = Some y \<Longrightarrow> wp (f y) Q) \<Longrightarrow>
   wp (case x of None \<Rightarrow> a | Some y \<Rightarrow> f y) Q"
  by (cases x) simp_all

lemma wp_nat [wpI]:
  "(n = 0 \<Longrightarrow> wp a Q) \<Longrightarrow> (\<And>k. n = Suc k \<Longrightarrow> wp (f k) Q) \<Longrightarrow>
   wp (case n of 0 \<Rightarrow> a | Suc k \<Rightarrow> f k) Q"
  by (cases n) simp_all

lemma wpD: "wp m Q \<Longrightarrow> m = Inr x \<Longrightarrow> Q x"
  by (simp add: wp_def)

lemma wp_forE:
  assumes "I s" and "\<And>x u. x \<in> set xs \<Longrightarrow> I u \<Longrightarrow> wp (f x u) I" and "\<And>t. I t \<Longrightarrow> Q t"
  shows "wp (forE f xs s) Q"
  unfolding wp_def using forE_inv [where P = I and xs = xs and f = f] assms wpD by metis

lemma length_remove1_Suc: "x \<in> set xs \<Longrightarrow> length xs = Suc (length (remove1 x xs))"
  by (induction xs) auto

section \<open>Words\<close>

lemma unat_of_nat32: "n < 4294967296 \<Longrightarrow> unat (of_nat n :: u32) = n"
  by (simp add: unat_of_nat take_bit_eq_mod)

lemma unat_lt32 [simp]: "unat (x :: u32) < 4294967296"
proof -
  have "unat x < 2 ^ LENGTH(32)" by (rule unsigned_less)
  then show ?thesis by simp
qed

lemma of_nat_inj32:
  "m < 4294967296 \<Longrightarrow> n < 4294967296 \<Longrightarrow> (of_nat m :: u32) = of_nat n \<longleftrightarrow> m = n"
  by (metis unat_of_nat32)

lemma unat_add32:
  "unat (a :: u32) + unat b < 4294967296 \<Longrightarrow> unat (a + b) = unat a + unat b"
  by (simp add: unat_word_ariths)

lemma unat_add_of_nat32:
  "unat (a :: u32) + n < 4294967296 \<Longrightarrow> unat (a + of_nat n) = unat a + n"
  by (simp add: unat_word_ariths unat_of_nat32)

lemma unat_sub32: "(b :: u32) \<le> a \<Longrightarrow> unat (a - b) = unat a - unat b"
  by (simp add: unat_sub)

text \<open>A word whose width is a multiple of \<open>k\<close> bits reduces mod \<open>2^k\<close> as its number does.\<close>

lemma unat_mod_pow2:
  "unat ((x :: u32) mod 2 ^ k) = unat x mod 2 ^ k" if "k < 32"
  by (simp add: unsigned_take_bit_eq flip: take_bit_eq_mod)

lemma neq_by_unat: "unat a \<noteq> unat b \<Longrightarrow> a \<noteq> b"
  by auto

lemma of_nat_unat_self: "of_nat (unat w) = w"
  by simp

lemma ucast8_inj [simp]: "(ucast (a :: u8) :: u32) = ucast b \<longleftrightarrow> a = b"
proof
  assume "(ucast a :: u32) = ucast b"
  then have "bit (ucast a :: u32) n = bit (ucast b :: u32) n" for n by simp
  then show "a = b" by (intro bit_word_eqI) (force simp: bit_simps)
qed simp

lemma ucast8_eq_0 [simp]: "(ucast (a :: u8) :: u32) = 0 \<longleftrightarrow> a = 0"
  using ucast8_inj [of a 0] by simp

lemma div_eq_aligned:
  fixes x v k :: nat
  assumes "v mod k = 0" and "0 < k"
  shows "x div k = v div k \<longleftrightarrow> v \<le> x \<and> x < v + k"
proof -
  from assms(1) obtain q where v: "v = k * q" by auto
  have "x div k = q \<longleftrightarrow> q \<le> x div k \<and> x div k < Suc q" by auto
  also have "\<dots> \<longleftrightarrow> q * k \<le> x \<and> x < Suc q * k"
    using assms(2) by (simp add: less_eq_div_iff_mult_less_eq div_less_iff_less_mult)
  finally show ?thesis using assms(2) by (simp add: v algebra_simps)
qed

text \<open>Clearing the low \<open>k\<close> bits, as the page-rounding macros do.\<close>

lemma and_not_mask_eq: "w AND NOT (mask k) = push_bit k (drop_bit k w)" for w :: u32
  by (rule bit_word_eqI) (auto simp: bit_simps)

lemma and_not_mask_sub: "w AND NOT (mask k) = w - take_bit k w" for w :: u32
  using bits_ident [of k w] by (simp add: and_not_mask_eq eq_diff_eq)

lemma unat_and_not_mask: "unat (w AND NOT (mask k)) = unat w - unat w mod 2 ^ k" for w :: u32
proof -
  have t: "unat (take_bit k w) = unat w mod 2 ^ k"
    by (simp add: unsigned_take_bit_eq flip: take_bit_eq_mod)
  then have "take_bit k w \<le> w" by (simp add: word_le_nat_alt)
  then show ?thesis unfolding and_not_mask_sub by (simp add: unat_sub32 t)
qed

section \<open>Integers in byte arrays\<close>

text \<open>
  The \<open>i\<close>-th byte of a word, lowest first, and the word of four (two) bytes: the x86 byte order
  in which the kernel overlays structures on disk blocks and pages.
\<close>

definition byte_of :: "nat \<Rightarrow> 'a::len word \<Rightarrow> u8" where
  "byte_of i w = ucast (drop_bit (8 * i) w)"

definition le32 :: "u8 \<Rightarrow> u8 \<Rightarrow> u8 \<Rightarrow> u8 \<Rightarrow> u32" where
  "le32 b0 b1 b2 b3 =
     ucast b0 OR push_bit 8 (ucast b1) OR push_bit 16 (ucast b2) OR push_bit 24 (ucast b3)"

definition le16 :: "u8 \<Rightarrow> u8 \<Rightarrow> u16" where
  "le16 b0 b1 = ucast b0 OR push_bit 8 (ucast b1)"

lemma le32_byte_of [simp]:
  "le32 (byte_of 0 w) (byte_of (Suc 0) w) (byte_of 2 w) (byte_of 3 w) = w"
proof (rule bit_word_eqI)
  fix n assume "n < LENGTH(32)"
  then show "bit (le32 (byte_of 0 w) (byte_of (Suc 0) w) (byte_of 2 w) (byte_of 3 w)) n = bit w n"
    by (cases "n < 24"; cases "n < 16") (auto simp: le32_def byte_of_def bit_simps)
qed

lemma le16_byte_of [simp]: "le16 (byte_of 0 w) (byte_of (Suc 0) w) = w"
  by (rule bit_word_eqI) (auto simp: le16_def byte_of_def bit_simps)

section \<open>Views of byte arrays and C strings\<close>

text \<open>
  A routine that only reads through a \<open>char*\<close> is given the view \<open>\<lambda>i. *(p+i)\<close> of the object.
  A pointer into the flat memory and a byte array both have such a view; the C string of a view
  is what stands before its first NUL, looked for in the first \<open>n\<close> bytes.
\<close>

type_synonym memory = "u32 \<Rightarrow> u8"
type_synonym view = "nat \<Rightarrow> u8"

definition at :: "memory \<Rightarrow> u32 \<Rightarrow> view" where
  "at m a = (\<lambda>i. m (a + of_nat i))"

definition arr :: "bytes \<Rightarrow> view" where
  "arr bs = (\<lambda>i. if i < length bs then bs ! i else 0)"

definition cstr :: "view \<Rightarrow> nat \<Rightarrow> bytes" where
  "cstr p n = takeWhile (\<lambda>c. c \<noteq> 0) (map p [0..<n])"

lemma map_upt_Suc_view: "map p [0..<Suc n] = p 0 # map (\<lambda>i. p (Suc i)) [0..<n]"
  by (rule map_upt_Suc)

lemma cstr_0 [simp]: "cstr p 0 = []"
  by (simp add: cstr_def)

lemma cstr_Suc:
  "cstr p (Suc n) = (if p 0 = 0 then [] else p 0 # cstr (\<lambda>i. p (Suc i)) n)"
  by (simp add: cstr_def map_upt_Suc_view del: upt_Suc)

lemma length_cstr: "length (cstr p n) \<le> n"
  unfolding cstr_def by (rule order_trans [OF length_takeWhile_le]) simp

lemma cstr_nth: "i < length (cstr p n) \<Longrightarrow> cstr p n ! i = p i \<and> p i \<noteq> 0"
proof -
  assume i: "i < length (cstr p n)"
  have "cstr p n ! i = map p [0..<n] ! i"
    using i unfolding cstr_def by (rule takeWhile_nth)
  moreover have "cstr p n ! i \<in> set (cstr p n)" using i by simp
  then have "cstr p n ! i \<noteq> 0" unfolding cstr_def by (auto dest: set_takeWhileD)
  moreover have "i < n" using i length_cstr [of p n] by simp
  ultimately show ?thesis by simp
qed

lemma cstr_stop: "length (cstr p n) < n \<Longrightarrow> p (length (cstr p n)) = 0"
  by (induction n arbitrary: p) (auto simp: cstr_Suc split: if_splits)

lemma arr_Cons_0 [simp]: "arr (x # xs) 0 = x"
  by (simp add: arr_def)

lemma arr_Cons_Suc [simp]: "arr (x # xs) (Suc i) = arr xs i"
  by (simp add: arr_def)

lemma arr_nth: "i < length bs \<Longrightarrow> arr bs i = bs ! i"
  by (simp add: arr_def)

lemma cstr_nonzero: "0 \<notin> set (cstr p n)"
  by (auto simp: cstr_def dest: set_takeWhileD)

lemma cstr_arr_terminated:
  "0 \<notin> set xs \<Longrightarrow> length xs < m \<Longrightarrow> cstr (arr (xs @ 0 # ys)) m = xs"
proof (induction xs arbitrary: m)
  case Nil
  then show ?case by (cases m) (simp_all add: cstr_Suc)
next
  case (Cons x xs)
  then show ?case by (cases m) (auto simp: cstr_Suc)
qed

end
