(* ===== verification/Xv6_String.thy ===== *)
theory Xv6_String
  imports Xv6_Prelude
begin

text \<open>
  The memory and string routines of \<open>string.c\<close> (and of its twins in \<open>ulib.c\<close>). Routines that
  write through a pointer into overlapping objects, \<open>memset\<close> and \<open>memmove\<close>, run on the flat
  32-bit memory, with the wrap-around of pointer arithmetic; routines that fill a separate
  buffer take that buffer as a list and the source as a view.
\<close>

section \<open>memset\<close>

text \<open>\<open>rep stosb\<close> and \<open>rep stosl\<close> of \<open>x86.h\<close>.\<close>

fun stosb :: "u32 \<Rightarrow> u8 \<Rightarrow> nat \<Rightarrow> memory \<Rightarrow> memory" where
  "stosb a d 0 m = m"
| "stosb a d (Suc n) m = stosb (a + 1) d n (m(a := d))"

definition st32 :: "u32 \<Rightarrow> u32 \<Rightarrow> memory \<Rightarrow> memory" where
  "st32 a w m = m(a := byte_of 0 w, a + 1 := byte_of 1 w, a + 2 := byte_of 2 w, a + 3 := byte_of 3 w)"

definition ld32 :: "u32 \<Rightarrow> memory \<Rightarrow> u32" where
  "ld32 a m = le32 (m a) (m (a + 1)) (m (a + 2)) (m (a + 3))"

fun stosl :: "u32 \<Rightarrow> u32 \<Rightarrow> nat \<Rightarrow> memory \<Rightarrow> memory" where
  "stosl a w 0 m = m"
| "stosl a w (Suc n) m = stosl (a + 4) w n (st32 a w m)"

definition memset :: "u32 \<Rightarrow> i32 \<Rightarrow> u32 \<Rightarrow> memory \<Rightarrow> memory" where
  "memset dst c n m =
     (if dst mod 4 = 0 \<and> n mod 4 = 0
      then let c = c AND 0xFF
           in stosl dst (push_bit 24 c OR push_bit 16 c OR push_bit 8 c OR c) (unat (n div 4)) m
      else stosb dst (ucast c) (unat n) m)"

lemma word_neq_add_small:
  "a + 1 \<noteq> (a :: u32)" "a + 2 \<noteq> a" "a + 3 \<noteq> a"
  by (simp_all)

lemma ld32_st32 [simp]: "ld32 a (st32 a w m) = w"
  by (simp add: ld32_def st32_def numeral_2_eq_2 [symmetric])

text \<open>The bytes from \<open>a\<close> on, \<open>n\<close> of them, where addresses wrap.\<close>

definition in_range :: "u32 \<Rightarrow> nat \<Rightarrow> u32 \<Rightarrow> bool" where
  "in_range a n x = (unat (x - a) < n)"

lemma unat_minus_1_cases:
  "unat (y - 1) = (if y = 0 then 4294967295 else unat y - 1)" for y :: u32
proof (cases "y = 0")
  case True
  then show ?thesis by (simp add: unsigned_minus_1_eq_mask mask_eq_exp_minus_1)
qed (simp add: unat_minus_one)

lemma in_range_Suc:
  assumes "n < 4294967296"
  shows "in_range a (Suc n) x \<longleftrightarrow> x = a \<or> in_range (a + 1) n x"
proof -
  have e: "x - (a + 1) = (x - a) - 1" by simp
  have "unat (x - a) = 0 \<longleftrightarrow> x = a" by (simp add: unat_eq_0)
  then show ?thesis
    using assms unfolding in_range_def e unat_minus_1_cases
    by auto
qed

lemma in_range_0 [simp]: "\<not> in_range a 0 x"
  by (simp add: in_range_def)

lemma stosb_fill:
  "n \<le> 4294967296 \<Longrightarrow> stosb a d n m = (\<lambda>x. if in_range a n x then d else m x)"
proof (induction n arbitrary: a m)
  case (Suc n)
  then show ?case by (auto simp: in_range_Suc fun_eq_iff)
qed (simp add: fun_eq_iff)

lemma stosl_stosb:
  assumes "\<And>i. i < 4 \<Longrightarrow> byte_of i w = d"
  shows "stosl a w n m = stosb a d (4 * n) m"
proof (induction n arbitrary: a m)
  case (Suc n)
  have "st32 a w m = m(a := d, a + 1 := d, a + 2 := d, a + 3 := d)"
    using assms by (simp add: st32_def)
  moreover have "4 * Suc n = Suc (Suc (Suc (Suc (4 * n))))" by simp
  moreover have "a + 1 + 1 = a + 2" "a + 2 + 1 = a + 3" "a + 3 + 1 = a + 4" by simp_all
  ultimately show ?case
    using Suc by (simp only: stosl.simps stosb.simps)
qed simp

lemma memset_word_bytes:
  fixes c :: u32
  defines "d \<equiv> c AND 0xFF"
  assumes "i < 4"
  shows "byte_of i (push_bit 24 d OR push_bit 16 d OR push_bit 8 d OR d) = ucast c"
proof (rule bit_word_eqI)
  fix n assume n: "n < LENGTH(8)"
  have d: "bit d k = (k < 8 \<and> bit c k)" for k
  proof -
    have "d = take_bit 8 c"
      unfolding d_def by (simp add: take_bit_eq_mask mask_numeral)
    then show ?thesis by (simp add: bit_take_bit_iff)
  qed
  from n have n8: "n < 8" by simp
  consider "i = 0" | "i = 1" | "i = 2" | "i = 3" using assms by linarith
  then show "bit (byte_of i (push_bit 24 d OR push_bit 16 d OR push_bit 8 d OR d)) n
      = bit (ucast c :: u8) n"
    by cases (use n8 in \<open>auto simp: byte_of_def bit_simps d\<close>)
qed

lemma memset_stosb: "memset dst c n m = stosb dst (ucast c) (unat n) m"
proof (cases "dst mod 4 = 0 \<and> n mod 4 = 0")
  case True
  have "unat n mod 4 = unat (n mod 4)" by (simp add: unat_mod)
  then have "unat n mod 4 = 0" using True by simp
  then have "4 * unat (n div 4) = unat n"
    by (simp add: unat_div mult.commute dvd_eq_mod_eq_0)
  then show ?thesis
    using True stosl_stosb [OF memset_word_bytes, where a = dst and n = "unat (n div 4)"]
    by (simp add: memset_def Let_def)
qed (auto simp: memset_def)

text \<open>\<open>memset\<close> writes the low byte of \<open>c\<close> to exactly the \<open>n\<close> addresses from \<open>dst\<close> on, whether it takes the word-sized or the byte-sized store instruction.\<close>

theorem memset_fill:
  "memset dst c n m = (\<lambda>x. if in_range dst (unat n) x then ucast c else m x)"
  unfolding memset_stosb using stosb_fill [of "unat n"] unat_lt32 [of n]
  by (simp add: less_imp_le)

section \<open>memmove\<close>

fun copy_fwd :: "u32 \<Rightarrow> u32 \<Rightarrow> nat \<Rightarrow> memory \<Rightarrow> memory" where
  "copy_fwd d s 0 m = m"
| "copy_fwd d s (Suc n) m = copy_fwd (d + 1) (s + 1) n (m(d := m s))"

fun copy_bwd :: "u32 \<Rightarrow> u32 \<Rightarrow> nat \<Rightarrow> memory \<Rightarrow> memory" where
  "copy_bwd d s 0 m = m"
| "copy_bwd d s (Suc n) m = copy_bwd (d - 1) (s - 1) n (m(d - 1 := m (s - 1)))"

definition memmove :: "u32 \<Rightarrow> u32 \<Rightarrow> u32 \<Rightarrow> memory \<Rightarrow> memory" where
  "memmove dst src n m =
     (if src < dst \<and> src + n > dst
      then copy_bwd (dst + n) (src + n) (unat n) m
      else copy_fwd dst src (unat n) m)"

definition memcpy :: "u32 \<Rightarrow> u32 \<Rightarrow> u32 \<Rightarrow> memory \<Rightarrow> memory" where
  "memcpy dst src n m = memmove dst src n m"

text \<open>What a copy means: the destination range holds the source range as it was before.\<close>

definition copied :: "u32 \<Rightarrow> u32 \<Rightarrow> nat \<Rightarrow> memory \<Rightarrow> memory" where
  "copied d s n m = (\<lambda>x. if in_range d n x then m (s + (x - d)) else m x)"

lemma in_range_nowrap:
  assumes "unat a + n < 4294967296"
  shows "in_range a n x \<longleftrightarrow> unat a \<le> unat x \<and> unat x < unat a + n"
proof (cases "a \<le> x")
  case True
  then show ?thesis by (auto simp: in_range_def unat_sub32 word_le_nat_alt)
next
  case False
  then have lt: "unat x < unat a" by (simp add: word_le_nat_alt)
  have "unat (x - a) = 4294967296 + unat x - unat a"
    using lt unat_sub_if' [of x a] by simp
  with assms lt show ?thesis by (simp add: in_range_def)
qed

lemma copy_fwd_copied:
  assumes "unat s + n < 4294967296" and "unat d + n < 4294967296"
    and "unat d \<le> unat s \<or> unat s + n \<le> unat d"
  shows "copy_fwd d s n m = copied d s n m"
  using assms
proof (induction n arbitrary: d s m)
  case (Suc n)
  have d1: "unat (d + 1) = unat d + 1" and s1: "unat (s + 1) = unat s + 1"
    using Suc.prems unat_add_of_nat32 [of d 1] unat_add_of_nat32 [of s 1] by simp_all
  have "copy_fwd d s (Suc n) m = copied (d + 1) (s + 1) n (m(d := m s))"
    by (subst copy_fwd.simps, rule Suc.IH) (use Suc.prems in \<open>auto simp: d1 s1\<close>)
  also have "\<dots> = copied d s (Suc n) m"
  proof (rule ext)
    fix x
    have shift: "s + 1 + (x - (d + 1)) = s + (x - d)" by simp
    have nd: "\<not> in_range (d + 1) n d"
      using Suc.prems by (subst in_range_nowrap) (auto simp: d1)
    have "s + (x - d) \<noteq> d" if "in_range (d + 1) n x"
    proof -
      have x: "unat d < unat x" "unat x < unat d + Suc n"
        using that Suc.prems by (subst (asm) in_range_nowrap; simp add: d1)+
      then have "unat (x - d) = unat x - unat d" by (simp add: unat_sub32 word_le_nat_alt)
      then have "unat (s + (x - d)) = unat s + (unat x - unat d)"
        using x Suc.prems by (subst unat_add32) auto
      then show ?thesis using x Suc.prems by (intro neq_by_unat) auto
    qed
    then show "copied (d + 1) (s + 1) n (m(d := m s)) x = copied d s (Suc n) m x"
      using nd Suc.prems unfolding copied_def shift by (auto simp: in_range_Suc)
  qed
  finally show ?case .
qed (simp add: copied_def)

lemma in_range_Suc_right:
  assumes "n < 4294967296"
  shows "in_range a (Suc n) x \<longleftrightarrow> in_range a n x \<or> x = a + of_nat n"
proof -
  have "unat (x - a) = n \<longleftrightarrow> x = a + of_nat n"
    using assms by (metis add_diff_cancel_left' diff_add_cancel add.commute unat_of_nat32 of_nat_unat_self)
  then show ?thesis by (auto simp: in_range_def)
qed

lemma copy_bwd_copied:
  assumes "unat s + n < 4294967296" and "unat d + n < 4294967296" and "unat s \<le> unat d"
  shows "copy_bwd (d + of_nat n) (s + of_nat n) n m = copied d s n m"
  using assms(1,2)
proof (induction n arbitrary: m)
  case (Suc n)
  have n: "n < 4294967296" and ds: "unat (d + of_nat n) = unat d + n" "unat (s + of_nat n) = unat s + n"
    using Suc.prems by (simp_all add: unat_add_of_nat32)
  have "copy_bwd (d + of_nat (Suc n)) (s + of_nat (Suc n)) (Suc n) m
      = copied d s n (m(d + of_nat n := m (s + of_nat n)))"
  proof -
    have "d + of_nat (Suc n) - 1 = d + of_nat n" "s + of_nat (Suc n) - 1 = s + of_nat n"
      by simp_all
    then show ?thesis using Suc.prems by (simp only: copy_bwd.simps) (simp add: Suc.IH fun_upd_def)
  qed
  also have "\<dots> = copied d s (Suc n) m"
  proof (rule ext)
    fix x
    have "s + (x - d) \<noteq> d + of_nat n" if "in_range d n x"
    proof -
      have x: "unat d \<le> unat x" "unat x < unat d + n"
        using that Suc.prems by (subst (asm) in_range_nowrap; simp)+
      then have "unat (x - d) = unat x - unat d" by (simp add: unat_sub32 word_le_nat_alt)
      then have "unat (s + (x - d)) = unat s + (unat x - unat d)"
        using x Suc.prems by (subst unat_add32) auto
      then show ?thesis using x assms(3) ds(1) by (intro neq_by_unat) auto
    qed
    moreover have "\<not> in_range d n (d + of_nat n)"
      using n by (simp add: in_range_def unat_of_nat32)
    ultimately show "copied d s n (m(d + of_nat n := m (s + of_nat n))) x = copied d s (Suc n) m x"
      using n by (auto simp: copied_def in_range_Suc_right)
  qed
  finally show ?case .
qed (simp add: copied_def)

text \<open>\<open>memmove\<close> copies the source as it was before the call, however the two ranges overlap, and touches nothing outside the destination, when neither range runs past the end of the address space.\<close>

theorem memmove_copied:
  assumes "unat src + unat n < 4294967296" and "unat dst + unat n < 4294967296"
  shows "memmove dst src n m = copied dst src (unat n) m"
proof (cases "src < dst \<and> src + n > dst")
  case True
  then have "unat src \<le> unat dst" by (simp add: word_less_nat_alt)
  with True show ?thesis
    using copy_bwd_copied [OF assms, of m] by (simp add: memmove_def)
next
  case False
  have "unat (src + n) = unat src + unat n" using assms by (simp add: unat_add32)
  with False have "unat dst \<le> unat src \<or> unat src + unat n \<le> unat dst"
    by (auto simp: word_less_nat_alt)
  with False show ?thesis
    using copy_fwd_copied [OF assms, of m] by (auto simp: memmove_def)
qed

lemma memmove_copied_witness:
  "memmove 0x1002 0x1000 4 (\<lambda>a. ucast a) = copied 0x1002 0x1000 4 (\<lambda>a. ucast a)
   \<and> copied 0x1002 0x1000 4 (\<lambda>a. ucast a) 0x1004 = 2"
  using memmove_copied [of "0x1000" 4 "0x1002" "\<lambda>a. ucast a"]
  by (simp add: copied_def in_range_def)

section \<open>Comparison\<close>

text \<open>\<open>memcmp(v1, v2, n)\<close>, the two objects given as views.\<close>

fun memcmp :: "view \<Rightarrow> view \<Rightarrow> nat \<Rightarrow> i32" where
  "memcmp p q 0 = 0"
| "memcmp p q (Suc n) =
     (if p 0 \<noteq> q 0 then ucast (p 0) - ucast (q 0)
      else memcmp (\<lambda>i. p (Suc i)) (\<lambda>i. q (Suc i)) n)"

fun strncmp :: "view \<Rightarrow> view \<Rightarrow> nat \<Rightarrow> i32" where
  "strncmp p q 0 = 0"
| "strncmp p q (Suc n) =
     (if p 0 \<noteq> 0 \<and> p 0 = q 0
      then strncmp (\<lambda>i. p (Suc i)) (\<lambda>i. q (Suc i)) n
      else ucast (p 0) - ucast (q 0))"

lemma memcmp_eq_0: "memcmp p q n = 0 \<longleftrightarrow> (\<forall>i<n. p i = q i)"
  by (induction p q n rule: memcmp.induct) (auto simp: All_less_Suc2)

text \<open>\<open>strncmp(p, q, n)\<close> is 0 exactly when the two C strings, cut at \<open>n\<close> characters, are the same: the test \<open>namecmp\<close> uses on directory entries.\<close>

theorem strncmp_eq_0: "strncmp p q n = 0 \<longleftrightarrow> cstr p n = cstr q n"
  by (induction p q n rule: strncmp.induct) (auto simp: cstr_Suc)

section \<open>Copying strings\<close>

text \<open>
  \<open>strncpy(s, t, n)\<close> into the buffer \<open>s\<close>: the first loop copies up to and including the NUL,
  the second pads with zeros. \<open>n\<close> is the C \<open>int\<close>; both loops test \<open>n-- > 0\<close>.
\<close>

fun str_pad :: "bytes \<Rightarrow> nat \<Rightarrow> nat \<Rightarrow> bytes" where
  "str_pad s i 0 = s"
| "str_pad s i (Suc n) = str_pad (s[i := 0]) (Suc i) n"

fun str_copy :: "bytes \<Rightarrow> nat \<Rightarrow> view \<Rightarrow> nat \<Rightarrow> bytes" where
  "str_copy s i t 0 = s"
| "str_copy s i t (Suc n) =
     (let s = s[i := t 0]
      in if t 0 \<noteq> 0 then str_copy s (Suc i) (\<lambda>j. t (Suc j)) n else str_pad s (Suc i) n)"

definition strncpy :: "bytes \<Rightarrow> view \<Rightarrow> int \<Rightarrow> bytes" where
  "strncpy s t n = str_copy s 0 t (nat n)"

text \<open>
  \<open>safestrcpy(s, t, n)\<close>: at most \<open>n - 1\<close> characters, then always a NUL.
\<close>

fun safe_copy :: "bytes \<Rightarrow> nat \<Rightarrow> view \<Rightarrow> nat \<Rightarrow> bytes" where
  "safe_copy s i t 0 = s[i := 0]"
| "safe_copy s i t (Suc n) =
     (let s = s[i := t 0]
      in if t 0 \<noteq> 0 then safe_copy s (Suc i) (\<lambda>j. t (Suc j)) n else s[Suc i := 0])"

definition safestrcpy :: "bytes \<Rightarrow> view \<Rightarrow> int \<Rightarrow> bytes" where
  "safestrcpy s t n = (if n \<le> 0 then s else safe_copy s 0 t (nat (n - 1)))"

lemma length_str_pad [simp]: "length (str_pad s i n) = length s"
  by (induction s i n rule: str_pad.induct) auto

lemma take_Suc_update: "i < length s \<Longrightarrow> take (Suc i) (s[i := x]) = take i s @ [x]"
  by (simp add: take_Suc_conv_app_nth)

lemma drop_update_below: "i < k \<Longrightarrow> drop k (s[i := x]) = drop k s"
  by (simp add: drop_update_cancel)

lemma str_pad_eq:
  "i + n \<le> length s \<Longrightarrow> str_pad s i n = take i s @ replicate n 0 @ drop (i + n) s"
proof (induction s i n rule: str_pad.induct)
  case (2 s i n)
  then show ?case by (simp add: take_Suc_update drop_update_below)
qed simp

lemma str_copy_eq:
  "i + n \<le> length s \<Longrightarrow>
   str_copy s i t n = take i s @ cstr t n @ replicate (n - length (cstr t n)) 0 @ drop (i + n) s"
proof (induction s i t n rule: str_copy.induct)
  case (2 s i t n)
  then show ?case
    by (simp add: Let_def cstr_Suc take_Suc_update drop_update_below str_pad_eq)
qed simp

text \<open>\<open>strncpy\<close> leaves in the buffer the C string of the source, cut at \<open>n\<close>, zero-padded to \<open>n\<close> bytes, and nothing else changed: a name of exactly \<open>n\<close> characters has no NUL.\<close>

theorem strncpy_eq:
  assumes "0 \<le> n" and "nat n \<le> length s"
  shows "strncpy s t n
       = cstr t (nat n) @ replicate (nat n - length (cstr t (nat n))) 0 @ drop (nat n) s"
  using assms by (simp add: strncpy_def str_copy_eq)

lemma strncpy_eq_witness:
  "strncpy [9, 9, 9, 9, 9] (arr [97, 98, 0]) 4 = [97, 98, 0, 0, 9]"
proof -
  have "cstr (arr [97, 98, 0]) 4 = [97, 98 :: u8]" by code_simp
  then show ?thesis
    using strncpy_eq [of 4 "[9, 9, 9, 9, 9]" "arr [97, 98, 0]"] by (simp add: numeral_2_eq_2)
qed

lemma safe_copy_eq:
  "i + n < length s \<Longrightarrow>
   \<exists>u. safe_copy s i t n = take i s @ cstr t n @ [0] @ u @ drop (i + Suc n) s
     \<and> length (cstr t n @ [0] @ u) = Suc n"
proof (induction s i t n rule: safe_copy.induct)
  case (1 s i t)
  then show ?case
    by (intro exI [of _ "[]"]) (simp add: upd_conv_take_nth_drop)
next
  case (2 s i t n)
  show ?case
  proof (cases "t 0 = 0")
    case True
    from 2(2) have "i < length s" "Suc i < length s" "Suc i + n < length s" by simp_all
    then have "safe_copy s i t (Suc n) = take i s @ 0 # 0 # drop (Suc (Suc i)) s"
      using True by (simp add: Let_def upd_conv_take_nth_drop take_Suc_conv_app_nth drop_update_below)
    moreover have "drop (Suc (Suc i)) s = take n (drop (Suc (Suc i)) s) @ drop (i + Suc (Suc n)) s"
      by (metis add_Suc_right add_Suc add.commute append_take_drop_id drop_drop)
    ultimately show ?thesis using True 2(2)
      by (intro exI [of _ "0 # take n (drop (Suc (Suc i)) s)"]) (simp add: cstr_Suc)
  next
    case False
    let ?s = "s[i := t 0]"
    from 2 False obtain u where
      "safe_copy ?s (Suc i) (\<lambda>j. t (Suc j)) n
        = take (Suc i) ?s @ cstr (\<lambda>j. t (Suc j)) n @ [0] @ u @ drop (Suc i + Suc n) ?s"
      "length (cstr (\<lambda>j. t (Suc j)) n @ [0] @ u) = Suc n"
      by (auto simp: Let_def)
    then show ?thesis using False 2(2)
      by (intro exI [of _ u]) (simp add: Let_def cstr_Suc take_Suc_update drop_update_below)
  qed
qed

text \<open>\<open>safestrcpy\<close> always leaves a NUL-terminated string within the first \<open>n\<close> bytes of the buffer: the source's C string cut at \<open>n - 1\<close> characters. Bytes from \<open>n\<close> on are untouched.\<close>

theorem safestrcpy_terminates_string:
  assumes "0 < n" and "nat n \<le> length s"
  shows "take (Suc (length (cstr t (nat (n - 1))))) (safestrcpy s t n) = cstr t (nat (n - 1)) @ [0]
    \<and> cstr (arr (safestrcpy s t n)) (nat n) = cstr t (nat (n - 1))
    \<and> drop (nat n) (safestrcpy s t n) = drop (nat n) s"
proof -
  define k where "k = nat (n - 1)"
  have k: "nat n = Suc k" using assms by (simp add: k_def)
  obtain u where r: "safestrcpy s t n = cstr t k @ 0 # u @ drop (Suc k) s"
    and len: "length (cstr t k) + Suc (length u) = Suc k"
    using safe_copy_eq [of 0 k s t] assms k by (auto simp: safestrcpy_def k_def)
  have "cstr (arr (safestrcpy s t n)) (Suc k) = cstr t k"
    unfolding r using len by (intro cstr_arr_terminated cstr_nonzero) simp
  moreover have "drop (Suc k) (safestrcpy s t n) = drop (Suc k) s"
  proof -
    have "safestrcpy s t n = (cstr t k @ 0 # u) @ drop (Suc k) s" using r by simp
    moreover have "length (cstr t k @ 0 # u) = Suc k" using len by simp
    ultimately show ?thesis by (metis append_eq_conv_conj)
  qed
  ultimately show ?thesis unfolding k k_def [symmetric] by (simp add: r)
qed

lemma safestrcpy_terminates_string_witness:
  "safestrcpy [9, 9, 9, 9] (arr [97, 98, 99, 100, 0]) 3 = [97, 98, 0, 9]
   \<and> cstr (arr (safestrcpy [9, 9, 9, 9] (arr [97, 98, 99, 100, 0]) 3)) 3 = [97, 98]"
proof -
  have e: "cstr (arr [97, 98, 99, 100, 0]) (nat (3 - 1)) = [97, 98 :: u8]" by code_simp
  have c: "safestrcpy [9, 9, 9, 9] (arr [97, 98, 99, 100, 0]) 3 = [97, 98, 0, 9]" by code_simp
  show ?thesis
    using safestrcpy_terminates_string [of 3 "[9, 9, 9, 9]" "arr [97, 98, 99, 100, 0]"] c e by simp
qed

section \<open>Length\<close>

text \<open>\<open>strlen\<close> walks until the first NUL; a view without one makes it run on for ever.\<close>

partial_function (option) strlen_from :: "view \<Rightarrow> nat \<Rightarrow> nat option" where
  "strlen_from s n = (if s n = 0 then Some n else strlen_from s (Suc n))"

definition strlen :: "view \<Rightarrow> nat option" where
  "strlen s = strlen_from s 0"

lemma strlen_from_Some:
  assumes "\<And>i. k \<le> i \<Longrightarrow> i < k + n \<Longrightarrow> s i \<noteq> 0" and "s (k + n) = 0"
  shows "strlen_from s k = Some (k + n)"
  using assms
proof (induction n arbitrary: k)
  case 0
  then show ?case by (simp add: strlen_from.simps)
next
  case (Suc n)
  have "s k \<noteq> 0" using Suc.prems(1) [of k] by simp
  moreover have "strlen_from s (Suc k) = Some (Suc k + n)"
    using Suc.prems by (intro Suc.IH) auto
  ultimately show ?case by (subst strlen_from.simps) simp
qed

text \<open>\<open>strlen\<close> returns on every view that has a NUL in its first \<open>Suc n\<close> bytes, and returns the length of the C string.\<close>

theorem strlen_cstr:
  assumes "i \<le> n" and "s i = 0"
  shows "strlen s = Some (length (cstr s (Suc n)))"
proof -
  have "length (cstr s (Suc n)) \<noteq> Suc n"
    using assms cstr_nth [of i s "Suc n"] by (auto simp: less_Suc_eq_le)
  then have "length (cstr s (Suc n)) < Suc n"
    using length_cstr [of s "Suc n"] by linarith
  from cstr_stop [OF this] show ?thesis
    unfolding strlen_def using strlen_from_Some [of 0 "length (cstr s (Suc n))" s] cstr_nth [of _ s "Suc n"]
    by auto
qed

lemma strlen_cstr_witness: "strlen (arr [104, 105, 0]) = Some 2"
proof -
  have "cstr (arr [104, 105, 0]) (Suc 2) = [104, 105 :: u8]" by code_simp
  moreover have "arr [104, 105, 0] 2 = (0 :: u8)" by (simp add: arr_def)
  ultimately show ?thesis using strlen_cstr [of 2 2 "arr [104, 105, 0]"] by simp
qed

end
