(* ===== verification/Xv6_Spinlock.thy ===== *)
theory Xv6_Spinlock
  imports Xv6_Prelude
begin

text \<open>
  Spin locks (\<open>spinlock.c\<close>). The first part runs the routines of the file on the state of
  several processors: the lock words, and for each processor its interrupt flag, its \<open>pushcli\<close>
  depth and the flag saved by the outermost \<open>pushcli\<close>. The second part interleaves the
  processors at the granularity of single instructions on the lock word and proves mutual
  exclusion. The third part is the view the other theories use: the locks held by the running
  processor, with the panics of \<open>acquire\<close> and \<open>release\<close>.
\<close>

section \<open>The locks of the kernel\<close>

text \<open>One name per \<open>struct spinlock\<close> object; \<open>L_buf i\<close> and \<open>L_inode i\<close> are the inner locks of
  the sleep locks of buffer \<open>i\<close> and inode \<open>i\<close>, \<open>L_pipe a\<close> the lock of the pipe at page \<open>a\<close>.\<close>

datatype lock = L_ptable | L_kmem | L_bcache | L_buf nat | L_ide | L_log | L_icache
  | L_inode nat | L_ftable | L_pipe u32 | L_tick | L_cons

section \<open>The routines on the processors' state\<close>

record cpu =
  ifl :: bool
  ncli :: int
  intena :: bool

record spinlock =
  locked :: u32
  lcpu :: "nat option"

record smp =
  cpus :: "nat \<Rightarrow> cpu"
  slock :: "lock \<Rightarrow> spinlock"

definition upd_cpu :: "nat \<Rightarrow> (cpu \<Rightarrow> cpu) \<Rightarrow> 'a smp_scheme \<Rightarrow> 'a smp_scheme" where
  "upd_cpu c f s = s\<lparr>cpus := (cpus s)(c := f (cpus s c))\<rparr>"

definition initlock :: "lock \<Rightarrow> 'a smp_scheme \<Rightarrow> 'a smp_scheme" where
  "initlock l s = s\<lparr>slock := (slock s)(l := \<lparr>locked = 0, lcpu = None\<rparr>)\<rparr>"

definition pushcli :: "nat \<Rightarrow> 'a smp_scheme \<Rightarrow> 'a smp_scheme" where
  "pushcli c s =
     (let eflags = ifl (cpus s c);
          s = upd_cpu c (\<lambda>p. p\<lparr>ifl := False\<rparr>) s;
          s = (if ncli (cpus s c) = 0 then upd_cpu c (\<lambda>p. p\<lparr>intena := eflags\<rparr>) s else s)
      in upd_cpu c (\<lambda>p. p\<lparr>ncli := ncli p + 1\<rparr>) s)"

definition popcli :: "nat \<Rightarrow> 'a smp_scheme \<Rightarrow> stop + 'a smp_scheme" where
  "popcli c s =
     (if ifl (cpus s c) then Inl (Panic ''popcli - interruptible'')
      else let s = upd_cpu c (\<lambda>p. p\<lparr>ncli := ncli p - 1\<rparr>) s
           in if ncli (cpus s c) < 0 then Inl (Panic ''popcli'')
              else if ncli (cpus s c) = 0 \<and> intena (cpus s c)
                   then Inr (upd_cpu c (\<lambda>p. p\<lparr>ifl := True\<rparr>) s)
                   else Inr s)"

text \<open>The body of \<open>holding\<close>, and \<open>holding\<close> between its \<open>pushcli\<close> and \<open>popcli\<close>.\<close>

definition owns :: "nat \<Rightarrow> lock \<Rightarrow> 'a smp_scheme \<Rightarrow> bool" where
  "owns c l s = (locked (slock s l) \<noteq> 0 \<and> lcpu (slock s l) = Some c)"

definition smp_holding :: "nat \<Rightarrow> lock \<Rightarrow> 'a smp_scheme \<Rightarrow> stop + (bool \<times> 'a smp_scheme)" where
  "smp_holding c l s =
     (let s = pushcli c s; r = owns c l s in bindE (popcli c s) (\<lambda>s. Inr (r, s)))"

text \<open>One \<open>xchg(&lk->locked, 1)\<close>: the old value of the lock word, which becomes 1.\<close>

definition xchg :: "lock \<Rightarrow> 'a smp_scheme \<Rightarrow> u32 \<times> 'a smp_scheme" where
  "xchg l s = (locked (slock s l), s\<lparr>slock := (slock s)(l := (slock s l)\<lparr>locked := 1\<rparr>)\<rparr>)"

text \<open>
  \<open>acquire\<close> run by one processor while the others stand still: a lock word that another
  processor has set makes it spin.
\<close>

definition smp_acquire :: "nat \<Rightarrow> lock \<Rightarrow> 'a smp_scheme \<Rightarrow> stop + 'a smp_scheme" where
  "smp_acquire c l s =
     bindE (smp_holding c l (pushcli c s)) (\<lambda>(r, s).
       if r then Inl (Panic ''acquire'')
       else case xchg l s of (old, s) \<Rightarrow>
              if old \<noteq> 0 then Inl (Spins ''acquire'')
              else Inr (s\<lparr>slock := (slock s)(l := (slock s l)\<lparr>lcpu := Some c\<rparr>)\<rparr>))"

definition smp_release :: "nat \<Rightarrow> lock \<Rightarrow> 'a smp_scheme \<Rightarrow> stop + 'a smp_scheme" where
  "smp_release c l s =
     bindE (smp_holding c l s) (\<lambda>(r, s).
       if \<not> r then Inl (Panic ''release'')
       else popcli c (s\<lparr>slock := (slock s)(l := \<lparr>locked = 0, lcpu = None\<rparr>)\<rparr>))"

lemmas cli_defs = pushcli_def popcli_def upd_cpu_def Let_def

lemma ifl_update_idem [simp]: "\<not> ifl p \<Longrightarrow> p\<lparr>ifl := False\<rparr> = p"
  by (cases p) simp

text \<open>\<open>pushcli\<close> then \<open>popcli\<close> inside another \<open>pushcli\<close> changes nothing: the pairs nest.\<close>

lemma popcli_pushcli_nested:
  assumes "0 < ncli (cpus s c)" and "\<not> ifl (cpus s c)"
  shows "popcli c (pushcli c s) = Inr s"
  using assms by (simp add: cli_defs)

lemma smp_holding_nested:
  assumes "0 < ncli (cpus s c)" and "\<not> ifl (cpus s c)"
  shows "smp_holding c l s = Inr (owns c l s, s)"
proof -
  have "owns c l (pushcli c s) = owns c l s"
    by (simp add: owns_def cli_defs)
  then show ?thesis
    using assms by (simp add: smp_holding_def Let_def popcli_pushcli_nested)
qed

lemma pushcli_sel:
  "ncli (cpus (pushcli c s) d) = (if d = c then ncli (cpus s c) + 1 else ncli (cpus s d))"
  "ifl (cpus (pushcli c s) d) = (if d = c then False else ifl (cpus s d))"
  "slock (pushcli c s) = slock s"
  by (simp_all add: cli_defs)

lemma popcli_Inr:
  assumes "popcli c s = Inr s'"
  shows "ncli (cpus s' d) = (if d = c then ncli (cpus s c) - 1 else ncli (cpus s d))"
    and "ifl (cpus s' d) = (if d = c then ncli (cpus s c) = 1 \<and> intena (cpus s c) else ifl (cpus s d))"
    and "slock s' = slock s"
  using assms by (auto simp: cli_defs split: if_splits)

text \<open>The outermost pair restores the interrupt flag it found.\<close>

lemma pushcli_popcli_outermost:
  assumes "ncli (cpus s c) = 0"
  shows "\<exists>s'. popcli c (pushcli c s) = Inr s' \<and> ifl (cpus s' c) = ifl (cpus s c)
    \<and> ncli (cpus s' c) = 0 \<and> slock s' = slock s"
  using assms by (simp add: cli_defs)

section \<open>Processors interleaved\<close>

text \<open>
  What a processor is doing with a lock: spinning on its word, having won it with \<open>xchg\<close> but not
  yet recorded itself, having cleared \<open>lk->cpu\<close> but not yet the word, or about to \<open>popcli\<close>.
  \<open>holds\<close> lists the locks whose \<open>acquire\<close> has returned and whose \<open>release\<close> has not begun.
\<close>

datatype pc = Run | Spin lock | Claim lock | Unlock lock | Pop

record sys = smp +
  pcs :: "nat \<Rightarrow> pc"
  holds :: "nat \<Rightarrow> lock list"

definition goto :: "nat \<Rightarrow> pc \<Rightarrow> sys \<Rightarrow> sys" where
  "goto c q s = s\<lparr>pcs := (pcs s)(c := q)\<rparr>"

inductive lk_step :: "sys \<Rightarrow> sys \<Rightarrow> bool" where
  acquire_enter:
    "pcs s c = Run \<Longrightarrow> smp_holding c l (pushcli c s) = Inr (False, s') \<Longrightarrow> lk_step s (goto c (Spin l) s')"
| acquire_spin:
    "pcs s c = Spin l \<Longrightarrow> xchg l s = (old, s') \<Longrightarrow> old \<noteq> 0 \<Longrightarrow> lk_step s s'"
| acquire_win:
    "pcs s c = Spin l \<Longrightarrow> xchg l s = (0, s') \<Longrightarrow> lk_step s (goto c (Claim l) s')"
| acquire_record:
    "pcs s c = Claim l \<Longrightarrow>
     lk_step s (goto c Run (s\<lparr>slock := (slock s)(l := (slock s l)\<lparr>lcpu := Some c\<rparr>),
                               holds := (holds s)(c := l # holds s c)\<rparr>))"
| release_enter:
    "pcs s c = Run \<Longrightarrow> smp_holding c l s = Inr (True, s') \<Longrightarrow>
     lk_step s (goto c (Unlock l) (s'\<lparr>slock := (slock s')(l := (slock s' l)\<lparr>lcpu := None\<rparr>),
                                       holds := (holds s')(c := remove1 l (holds s' c))\<rparr>))"
| release_store:
    "pcs s c = Unlock l \<Longrightarrow>
     lk_step s (goto c Pop (s\<lparr>slock := (slock s)(l := (slock s l)\<lparr>locked := 0\<rparr>)\<rparr>))"
| release_pop:
    "pcs s c = Pop \<Longrightarrow> popcli c s = Inr s' \<Longrightarrow> lk_step s (goto c Run s')"
| set_interrupts:
    "pcs s c = Run \<Longrightarrow> ncli (cpus s c) = 0 \<Longrightarrow> lk_step s (upd_cpu c (\<lambda>p. p\<lparr>ifl := b\<rparr>) s)"

definition boot :: sys where
  "boot = \<lparr>cpus = (\<lambda>c. \<lparr>ifl = False, ncli = 0, intena = False\<rparr>),
           slock = (\<lambda>l. \<lparr>locked = 0, lcpu = None\<rparr>), pcs = (\<lambda>c. Run), holds = (\<lambda>c. [])\<rparr>"

inductive lk_reach :: "sys \<Rightarrow> bool" where
  lk_boot: "lk_reach boot"
| lk_next: "lk_reach s \<Longrightarrow> lk_step s s' \<Longrightarrow> lk_reach s'"

text \<open>Processor \<open>c\<close> has the word of \<open>l\<close>: from the winning \<open>xchg\<close> to the releasing store.\<close>

definition has :: "sys \<Rightarrow> nat \<Rightarrow> lock \<Rightarrow> bool" where
  "has s c l = (l \<in> set (holds s c) \<or> pcs s c = Claim l \<or> pcs s c = Unlock l)"

definition lk_inv :: "sys \<Rightarrow> bool" where
  "lk_inv s \<longleftrightarrow>
     (\<forall>l. locked (slock s l) \<noteq> 0 \<longleftrightarrow> (\<exists>c. has s c l))
   \<and> (\<forall>l c d. has s c l \<longrightarrow> has s d l \<longrightarrow> c = d)
   \<and> (\<forall>c l. l \<in> set (holds s c) \<longleftrightarrow> lcpu (slock s l) = Some c)
   \<and> (\<forall>c. distinct (holds s c))
   \<and> (\<forall>c l. pcs s c = Claim l \<or> pcs s c = Unlock l \<longrightarrow> l \<notin> set (holds s c))
   \<and> (\<forall>c. ncli (cpus s c) = int (length (holds s c)) + (if pcs s c = Run then 0 else 1))
   \<and> (\<forall>c. 0 < ncli (cpus s c) \<longrightarrow> \<not> ifl (cpus s c))"

lemma lk_inv_boot: "lk_inv boot"
  by (simp add: lk_inv_def boot_def has_def)

lemma pushcli_ghost [simp]: "pcs (pushcli c s) = pcs s" "holds (pushcli c s) = holds s"
  by (simp_all add: cli_defs)

lemma popcli_ghost:
  "popcli c s = Inr s' \<Longrightarrow> pcs s' = pcs s \<and> holds s' = holds s"
  by (auto simp: cli_defs split: if_splits)

lemma upd_cpu_sel [simp]:
  "cpus (upd_cpu c f s) = (cpus s)(c := f (cpus s c))" "slock (upd_cpu c f s) = slock s"
  "pcs (upd_cpu c f t) = pcs t" "holds (upd_cpu c f t) = holds t"
  by (simp_all add: upd_cpu_def)

lemma lk_invD:
  assumes "lk_inv s"
  shows "locked (slock s l) \<noteq> 0 \<longleftrightarrow> (\<exists>c. has s c l)"
    and "has s c l \<Longrightarrow> has s d l \<Longrightarrow> c = d"
    and "l \<in> set (holds s c) \<longleftrightarrow> lcpu (slock s l) = Some c"
    and "distinct (holds s c)"
    and "pcs s c = Claim l \<or> pcs s c = Unlock l \<Longrightarrow> l \<notin> set (holds s c)"
    and "ncli (cpus s c) = int (length (holds s c)) + (if pcs s c = Run then 0 else 1)"
    and "0 < ncli (cpus s c) \<Longrightarrow> \<not> ifl (cpus s c)"
  using assms unfolding lk_inv_def by blast+

lemma lk_inv_owns: "lk_inv s \<Longrightarrow> owns c l s \<longleftrightarrow> l \<in> set (holds s c)"
  using lk_invD(1) [of s l] lk_invD(3) [of s l c] by (auto simp: owns_def has_def)

lemma lk_inv_acquire_enter:
  assumes inv: "lk_inv s" and pc: "pcs s c = Run"
    and h: "smp_holding c l (pushcli c s) = Inr (False, s')"
  shows "lk_inv (goto c (Spin l) s')"
proof -
  have n: "ncli (cpus s c) = int (length (holds s c))"
    using lk_invD(6) [OF inv, of c] pc by simp
  have s': "s' = pushcli c s"
    using h n by (simp add: smp_holding_nested pushcli_sel)
  have has: "has (goto c (Spin l) s') d k \<longleftrightarrow> has s d k" for d k
    using pc by (auto simp: has_def goto_def s')
  show ?thesis
    unfolding lk_inv_def has
    using lk_invD [OF inv] pc
    by (auto simp: goto_def s' pushcli_sel has_def split: if_splits)
qed

lemma lk_inv_acquire_win:
  assumes inv: "lk_inv s" and pc: "pcs s c = Spin l" and x: "xchg l s = (0, s')"
  shows "lk_inv (goto c (Claim l) s')"
proof -
  have free: "locked (slock s l) = 0" and s': "s' = s\<lparr>slock := (slock s)(l := (slock s l)\<lparr>locked := 1\<rparr>)\<rparr>"
    using x by (auto simp: xchg_def)
  have none: "\<not> has s d l" for d using lk_invD(1) [OF inv, of l] free by auto
  have nl: "lcpu (slock s l) = None"
    using none lk_invD(3) [OF inv, of l] by (cases "lcpu (slock s l)") (auto simp: has_def)
  have has: "has (goto c (Claim l) s') d k \<longleftrightarrow> has s d k \<or> d = c \<and> k = l" for d k
    using pc by (auto simp: has_def goto_def s')
  show ?thesis
    unfolding lk_inv_def has
    using lk_invD [OF inv] pc none nl
    by (auto simp: goto_def s' split: if_splits)
qed

lemma lk_inv_acquire_spin:
  assumes inv: "lk_inv s" and pc: "pcs s c = Spin l" and x: "xchg l s = (old, s')" and "old \<noteq> 0"
  shows "lk_inv s'"
proof -
  have s': "s' = s\<lparr>slock := (slock s)(l := (slock s l)\<lparr>locked := 1\<rparr>)\<rparr>"
    and set: "locked (slock s l) \<noteq> 0"
    using x \<open>old \<noteq> 0\<close> by (auto simp: xchg_def)
  have has: "has s' d k \<longleftrightarrow> has s d k" for d k
    by (auto simp: has_def s')
  show ?thesis
    unfolding lk_inv_def has
    using lk_invD [OF inv] set by (auto simp: s' split: if_splits)
qed

lemma lk_inv_acquire_record:
  assumes inv: "lk_inv s" and pc: "pcs s c = Claim l"
  shows "lk_inv (goto c Run (s\<lparr>slock := (slock s)(l := (slock s l)\<lparr>lcpu := Some c\<rparr>),
                               holds := (holds s)(c := l # holds s c)\<rparr>))" (is "lk_inv ?t")
proof -
  have mine: "has s d l \<longleftrightarrow> d = c" for d
    using lk_invD(2) [OF inv] pc by (auto simp: has_def)
  have has: "has ?t d k \<longleftrightarrow> has s d k" for d k
    using pc by (auto simp: has_def goto_def)
  have fresh: "l \<notin> set (holds s d)" for d
    using mine [of d] lk_invD(5) [OF inv, of c l] pc by (auto simp: has_def)
  have only: "pcs s d \<noteq> Claim l \<and> pcs s d \<noteq> Unlock l" if "d \<noteq> c" for d
    using mine [of d] that by (auto simp: has_def)
  show ?thesis
    unfolding lk_inv_def has
    using lk_invD [OF inv] pc fresh only by (auto simp: goto_def split: if_splits)
qed

lemma lk_inv_release_enter:
  assumes inv: "lk_inv s" and pc: "pcs s c = Run" and h: "smp_holding c l s = Inr (True, s')"
  shows "lk_inv (goto c (Unlock l) (s'\<lparr>slock := (slock s')(l := (slock s' l)\<lparr>lcpu := None\<rparr>),
                                       holds := (holds s')(c := remove1 l (holds s' c))\<rparr>))" (is "lk_inv ?t")
proof -
  have "owns c l s"
    using h by (auto simp: smp_holding_def Let_def bindE_Inr_iff owns_def pushcli_sel)
  then have l: "l \<in> set (holds s c)" using inv by (simp add: lk_inv_owns)
  then have n: "0 < ncli (cpus s c)" using lk_invD(6) [OF inv, of c] by (cases "holds s c") auto
  then have s': "s' = s" using h lk_invD(7) [OF inv] by (simp add: smp_holding_nested)
  have rem: "set (remove1 l (holds s c)) = set (holds s c) - {l}"
    using lk_invD(4) [OF inv] by (rule set_remove1_eq)
  have has: "has ?t d k \<longleftrightarrow> has s d k" for d k
    using pc l rem by (auto simp: has_def goto_def s')
  have only: "l \<notin> set (holds s d)" if "d \<noteq> c" for d
    using lk_invD(2) [OF inv, of c l d] l that by (auto simp: has_def)
  have len: "length (holds s c) = Suc (length (remove1 l (holds s c)))"
    using l by (rule length_remove1_Suc)
  show ?thesis
    unfolding lk_inv_def has
  proof (intro conjI allI impI)
    show "locked (slock ?t k) \<noteq> 0 \<longleftrightarrow> (\<exists>d. has s d k)" for k
      using lk_invD(1) [OF inv, of k] by (auto simp: goto_def s')
    show "has s d k \<Longrightarrow> has s e k \<Longrightarrow> d = e" for k d e
      by (rule lk_invD(2) [OF inv])
    show "k \<in> set (holds ?t d) \<longleftrightarrow> lcpu (slock ?t k) = Some d" for d k
      using lk_invD(3) [OF inv, of k d] rem only [of d] by (auto simp: goto_def s')
    show "distinct (holds ?t d)" for d
      using lk_invD(4) [OF inv] by (simp add: goto_def s' distinct_remove1)
    show "pcs ?t d = Claim k \<or> pcs ?t d = Unlock k \<Longrightarrow> k \<notin> set (holds ?t d)" for d k
      using lk_invD(5) [OF inv, of d k] rem by (auto simp: goto_def s' split: if_splits)
    show "ncli (cpus ?t d) = int (length (holds ?t d)) + (if pcs ?t d = Run then 0 else 1)" for d
      using lk_invD(6) [OF inv, of d] len pc by (auto simp: goto_def s')
    show "0 < ncli (cpus ?t d) \<Longrightarrow> \<not> ifl (cpus ?t d)" for d
      using lk_invD(7) [OF inv, of d] by (simp add: goto_def s')
  qed
qed

lemma lk_inv_release_store:
  assumes inv: "lk_inv s" and pc: "pcs s c = Unlock l"
  shows "lk_inv (goto c Pop (s\<lparr>slock := (slock s)(l := (slock s l)\<lparr>locked := 0\<rparr>)\<rparr>))" (is "lk_inv ?t")
proof -
  have mine: "has s d l \<longleftrightarrow> d = c" for d
    using lk_invD(2) [OF inv] pc by (auto simp: has_def)
  have fresh: "l \<notin> set (holds s c)"
    using lk_invD(5) [OF inv] pc by blast
  have has: "has ?t d k \<longleftrightarrow> has s d k \<and> k \<noteq> l" for d k
    using pc mine [of d] fresh by (auto simp: has_def goto_def)
  show ?thesis
    unfolding lk_inv_def has
    using lk_invD [OF inv] pc by (auto simp: goto_def split: if_splits)
qed

lemma lk_inv_release_pop:
  assumes inv: "lk_inv s" and pc: "pcs s c = Pop" and p: "popcli c s = Inr s'"
  shows "lk_inv (goto c Run s')"
proof -
  note s' = popcli_Inr [OF p] popcli_ghost [OF p]
  have has: "has (goto c Run s') d k \<longleftrightarrow> has s d k" for d k
    using pc s' by (auto simp: has_def goto_def)
  show ?thesis
    unfolding lk_inv_def has
    using lk_invD [OF inv] pc s' by (auto simp: goto_def split: if_splits)
qed

lemma lk_inv_set_interrupts:
  assumes inv: "lk_inv s" and "pcs s c = Run" and "ncli (cpus s c) = 0"
  shows "lk_inv (upd_cpu c (\<lambda>p. p\<lparr>ifl := b\<rparr>) s)"
proof -
  have has: "has (upd_cpu c f s) d k \<longleftrightarrow> has s d k" for d k f
    by (simp add: has_def)
  show ?thesis
    unfolding lk_inv_def has using lk_invD [OF inv] assms(3) by (auto split: if_splits)
qed

lemma lk_step_inv: "lk_step s s' \<Longrightarrow> lk_inv s \<Longrightarrow> lk_inv s'"
  by (induction rule: lk_step.induct)
    (blast intro: lk_inv_acquire_enter lk_inv_acquire_spin lk_inv_acquire_win lk_inv_acquire_record
      lk_inv_release_enter lk_inv_release_store lk_inv_release_pop lk_inv_set_interrupts)+

lemma lk_reach_inv: "lk_reach s \<Longrightarrow> lk_inv s"
  by (induction rule: lk_reach.induct) (blast intro: lk_inv_boot lk_step_inv)+

text \<open>C15. In every reachable state of the interleaved processors a spin lock is held by at most one of them, and a processor that holds a lock runs with interrupts off.\<close>

theorem spinlock_mutual_exclusion:
  assumes "lk_reach s" and "l \<in> set (holds s c)"
  shows "(\<forall>d. l \<in> set (holds s d) \<longrightarrow> d = c) \<and> \<not> ifl (cpus s c)"
proof -
  have inv: "lk_inv s" using assms(1) by (rule lk_reach_inv)
  have "0 < ncli (cpus s c)"
    using lk_invD(6) [OF inv, of c] assms(2) by (cases "holds s c") auto
  then show ?thesis
    using lk_invD(2) [OF inv, of _ l c] lk_invD(7) [OF inv, of c] assms(2) by (auto simp: has_def)
qed

lemma boot_acquire:
  "\<exists>s. lk_reach s \<and> holds s 0 = [l]"
proof -
  let ?s1 = "goto 0 (Spin l) (pushcli 0 boot)"
  let ?s2 = "goto 0 (Claim l) (snd (xchg l ?s1))"
  let ?s3 = "goto 0 Run (?s2\<lparr>slock := (slock ?s2)(l := (slock ?s2 l)\<lparr>lcpu := Some 0\<rparr>),
                            holds := (holds ?s2)(0 := l # holds ?s2 0)\<rparr>)"
  have "smp_holding 0 l (pushcli 0 boot) = Inr (False, pushcli 0 boot)"
    by (simp add: smp_holding_nested pushcli_sel boot_def owns_def)
  then have "lk_step boot ?s1"
    by (intro lk_step.acquire_enter) (simp_all add: boot_def)
  moreover have "lk_step ?s1 ?s2"
    by (rule lk_step.acquire_win)
      (simp_all add: goto_def xchg_def pushcli_sel boot_def)
  moreover have "lk_step ?s2 ?s3"
    by (rule lk_step.acquire_record) (simp add: goto_def)
  ultimately have "lk_reach ?s3" by (blast intro: lk_reach.intros)
  moreover have "holds ?s3 0 = [l]" by (simp add: goto_def xchg_def boot_def)
  ultimately show ?thesis by blast
qed

lemma spinlock_mutual_exclusion_witness:
  "\<exists>s. lk_reach s \<and> L_kmem \<in> set (holds s 0) \<and> (\<forall>d. L_kmem \<in> set (holds s d) \<longrightarrow> d = 0)
     \<and> \<not> ifl (cpus s 0)"
proof -
  obtain s where s: "lk_reach s" "holds s 0 = [L_kmem]" using boot_acquire by blast
  then have "L_kmem \<in> set (holds s 0)" by simp
  with spinlock_mutual_exclusion [OF s(1) this] s(1) show ?thesis by blast
qed

section \<open>The locks held by the running processor\<close>

text \<open>
  The sequential theories keep only the list of locks the running processor holds, the latest
  first. \<open>acquire\<close> panics on a lock the processor holds already and otherwise gets it: an
  \<open>acquire\<close> that waits for another processor is over when the model continues.
\<close>

record lk_state =
  held :: "lock list"

definition acquire :: "lock \<Rightarrow> 'a lk_state_scheme \<Rightarrow> stop + 'a lk_state_scheme" where
  "acquire l s = (if l \<in> set (held s) then Inl (Panic ''acquire'') else Inr (s\<lparr>held := l # held s\<rparr>))"

definition release :: "lock \<Rightarrow> 'a lk_state_scheme \<Rightarrow> stop + 'a lk_state_scheme" where
  "release l s = (if l \<notin> set (held s) then Inl (Panic ''release'') else Inr (s\<lparr>held := remove1 l (held s)\<rparr>))"

definition holding :: "lock \<Rightarrow> 'a lk_state_scheme \<Rightarrow> bool" where
  "holding l s = (l \<in> set (held s))"

text \<open>A critical section: every path of the body ends in the \<open>release\<close>.\<close>

definition with_lock ::
  "lock \<Rightarrow> ('a lk_state_scheme \<Rightarrow> stop + ('r \<times> 'a lk_state_scheme)) \<Rightarrow>
   'a lk_state_scheme \<Rightarrow> stop + ('r \<times> 'a lk_state_scheme)" where
  "with_lock l body s =
     bindE (acquire l s) (\<lambda>s. bindE (body s) (\<lambda>(r, s). bindE (release l s) (\<lambda>s. Inr (r, s))))"

text \<open>The list of held locks is the abstraction of one processor's share of the lock words.\<close>

definition lk_rel :: "nat \<Rightarrow> 'a smp_scheme \<Rightarrow> lock list \<Rightarrow> bool" where
  "lk_rel c s h \<longleftrightarrow> (\<forall>l. l \<in> set h \<longleftrightarrow> owns c l s) \<and> distinct h
     \<and> ncli (cpus s c) = int (length h) \<and> (h \<noteq> [] \<longrightarrow> \<not> ifl (cpus s c))"

lemma smp_holding_pushcli:
  "lk_rel c s h \<Longrightarrow> smp_holding c l (pushcli c s) = Inr (l \<in> set h, pushcli c s)"
  by (simp add: smp_holding_nested pushcli_sel lk_rel_def owns_def)

lemma smp_holding_false:
  assumes "lk_rel c s h" and "l \<notin> set h"
  obtains s' where "smp_holding c l s = Inr (False, s')"
proof -
  have no: "\<not> owns c l (pushcli c s)"
    using assms by (auto simp: lk_rel_def owns_def pushcli_sel)
  have "\<exists>s'. popcli c (pushcli c s) = Inr s'"
  proof (cases "h = []")
    case True
    then show ?thesis using assms pushcli_popcli_outermost [of s c] by (auto simp: lk_rel_def)
  next
    case False
    then show ?thesis using assms by (simp add: lk_rel_def popcli_pushcli_nested)
  qed
  then show thesis using that no by (auto simp: smp_holding_def Let_def)
qed

lemma smp_acquire_refines:
  assumes rel: "lk_rel c s h" and free: "l \<notin> set h \<longrightarrow> locked (slock s l) = 0"
  shows "if l \<in> set h then smp_acquire c l s = Inl (Panic ''acquire'')
         else \<exists>s'. smp_acquire c l s = Inr s' \<and> lk_rel c s' (l # h)"
proof (cases "l \<in> set h")
  case True
  then show ?thesis using smp_holding_pushcli [OF rel] by (simp add: smp_acquire_def)
next
  case False
  let ?s = "pushcli c s"
  let ?t = "?s\<lparr>slock := (slock ?s)(l := \<lparr>locked = 1, lcpu = Some c\<rparr>)\<rparr>"
  have eq: "r\<lparr>locked := 1, lcpu := Some c\<rparr> = \<lparr>locked = 1, lcpu = Some c\<rparr>" for r :: spinlock
    by (cases r) simp
  have "smp_acquire c l s = Inr ?t"
    using smp_holding_pushcli [OF rel] False free
    by (simp add: smp_acquire_def xchg_def pushcli_sel eq)
  moreover have "lk_rel c ?t (l # h)"
    using rel False by (auto simp: lk_rel_def owns_def pushcli_sel)
  ultimately show ?thesis using False by simp
qed

lemma smp_release_refines:
  assumes rel: "lk_rel c s h"
  shows "if l \<in> set h then \<exists>s'. smp_release c l s = Inr s' \<and> lk_rel c s' (remove1 l h)
         else smp_release c l s = Inl (Panic ''release'')"
proof (cases "l \<in> set h")
  case True
  let ?t = "s\<lparr>slock := (slock s)(l := \<lparr>locked = 0, lcpu = None\<rparr>)\<rparr>"
  from True rel have n: "0 < ncli (cpus s c)" "\<not> ifl (cpus s c)" "owns c l s"
    by (cases h; auto simp: lk_rel_def)+
  then have "smp_release c l s = popcli c ?t"
    by (simp add: smp_release_def smp_holding_nested)
  moreover obtain s' where s': "popcli c ?t = Inr s'"
    using n by (fastforce simp: cli_defs)
  moreover have "lk_rel c s' (remove1 l h)"
  proof -
    note p = popcli_Inr [OF s']
    have len: "int (length h) = int (length (remove1 l h)) + 1"
      using length_remove1_Suc [OF True] by simp
    have mem: "set (remove1 l h) = set h - {l}"
      using rel by (simp add: lk_rel_def set_remove1_eq)
    have "k \<in> set (remove1 l h) \<longleftrightarrow> owns c k s'" for k
      using rel p(3) unfolding mem by (auto simp: lk_rel_def owns_def)
    moreover have "remove1 l h \<noteq> [] \<longrightarrow> \<not> ifl (cpus s' c)"
      using rel p(2) [of c] len n by (auto simp: lk_rel_def)
    ultimately show ?thesis using rel p(1) [of c] len by (auto simp: lk_rel_def distinct_remove1)
  qed
  ultimately show ?thesis using True by simp
next
  case False
  obtain s' where "smp_holding c l s = Inr (False, s')"
    using smp_holding_false [OF rel False] .
  with False show ?thesis by (simp add: smp_release_def)
qed

text \<open>C30. The routines of \<open>spinlock.c\<close> refine the list of held locks: on a processor whose held locks are \<open>h\<close>, \<open>acquire\<close> of a free lock and \<open>release\<close> of a held one return with the list updated, and both panic exactly when the list model does.\<close>

theorem spinlock_refines_held:
  assumes "lk_rel c s h" and "l \<notin> set h \<longrightarrow> locked (slock s l) = 0"
  shows "(case acquire l \<lparr>held = h\<rparr> of
            Inl e \<Rightarrow> smp_acquire c l s = Inl e
          | Inr t \<Rightarrow> \<exists>s'. smp_acquire c l s = Inr s' \<and> lk_rel c s' (held t))
       \<and> (case release l \<lparr>held = h\<rparr> of
            Inl e \<Rightarrow> smp_release c l s = Inl e
          | Inr t \<Rightarrow> \<exists>s'. smp_release c l s = Inr s' \<and> lk_rel c s' (held t))"
proof -
  show ?thesis
  proof (cases "l \<in> set h")
    case True
    then show ?thesis
      using smp_acquire_refines [OF assms] smp_release_refines [OF assms(1), of l]
      by (simp add: acquire_def release_def)
  next
    case False
    then show ?thesis
      using smp_acquire_refines [OF assms] smp_release_refines [OF assms(1), of l]
      by (simp add: acquire_def release_def)
  qed
qed

lemma lk_rel_start: "lk_rel 0 boot []"
  by (simp add: lk_rel_def boot_def owns_def)

lemma spinlock_refines_held_witness:
  "\<exists>s'. smp_acquire 0 L_kmem boot = Inr s' \<and> lk_rel 0 s' [L_kmem]"
  using spinlock_refines_held [OF lk_rel_start, of L_kmem]
  by (simp add: acquire_def boot_def)

section \<open>Critical sections\<close>

text \<open>
  The contract of a lock, and what its clients prove once: a bracketed body that leaves the lock
  list as it found it leaves the caller's lock list as it found it, and it runs iff the lock was
  free.
\<close>

locale mutex =
  fixes acq rel :: "'s \<Rightarrow> stop + 's" and locks :: "'s \<Rightarrow> lock list" and me :: lock
  assumes acq_free: "me \<notin> set (locks s) \<Longrightarrow> \<exists>t. acq s = Inr t \<and> locks t = me # locks s"
    and acq_held: "me \<in> set (locks s) \<Longrightarrow> acq s = Inl (Panic ''acquire'')"
    and rel_held: "locks s = me # ls \<Longrightarrow> \<exists>t. rel s = Inr t \<and> locks t = ls"
begin

lemma acq_Inr: "acq s = Inr t \<Longrightarrow> me \<notin> set (locks s) \<and> locks t = me # locks s"
  using acq_free [of s] acq_held [of s] by fastforce

lemma bracket_locks:
  assumes "acq s = Inr s1" and "body s1 = Inr (r, s2)" and "locks s2 = locks s1"
  shows "\<exists>t. rel s2 = Inr t \<and> locks t = locks s"
  using acq_Inr [OF assms(1)] rel_held [of s2 "locks s"] assms(3) by simp

end

interpretation klock: mutex "acquire l" "release l" held l for l
  by unfold_locales (auto simp: acquire_def release_def)

lemma acquire_ok: "l \<notin> set (held s) \<Longrightarrow> acquire l s = Inr (s\<lparr>held := l # held s\<rparr>)"
  by (simp add: acquire_def)

lemma release_ok: "held s = l # ls \<Longrightarrow> release l s = Inr (s\<lparr>held := ls\<rparr>)"
  by (simp add: release_def)

lemma with_lock_ok:
  assumes "l \<notin> set (held s)" and "body (s\<lparr>held := l # held s\<rparr>) = Inr (r, t)" and "held t = l # held s"
  shows "with_lock l body s = Inr (r, t\<lparr>held := held s\<rparr>)"
  using assms by (simp add: with_lock_def acquire_ok release_ok)

lemma with_lock_held:
  assumes "with_lock l body s = Inr (r, t)"
    and "\<And>u v x. body u = Inr (x, v) \<Longrightarrow> held v = held u"
  shows "held t = held s"
proof -
  from assms(1) obtain s1 s2 where s: "acquire l s = Inr s1" "body s1 = Inr (r, s2)" "release l s2 = Inr t"
    by (auto simp: with_lock_def bindE_Inr_iff)
  from klock.bracket_locks [where body = body, OF s(1,2)] assms(2) [OF s(2)] s(3) show ?thesis by auto
qed

end
