(* ===== verification/Xv6_Kalloc.thy ===== *)
theory Xv6_Kalloc
  imports Xv6_String Xv6_Spinlock
begin

text \<open>
  The physical page allocator (\<open>kalloc.c\<close>): free pages are chained through their own first
  word, so the free list lives in the memory that is being allocated. The list of free pages is
  recovered by a representation relation, and the allocator is shown to be a stack of pages.
\<close>

section \<open>Memory layout (\<open>mmu.h\<close>, \<open>memlayout.h\<close>)\<close>

abbreviation PGSIZE :: u32 where "PGSIZE \<equiv> 4096"
abbreviation EXTMEM :: u32 where "EXTMEM \<equiv> 0x100000"
abbreviation PHYSTOP :: u32 where "PHYSTOP \<equiv> 0xE000000"
abbreviation DEVSPACE :: u32 where "DEVSPACE \<equiv> 0xFE000000"
abbreviation KERNBASE :: u32 where "KERNBASE \<equiv> 0x80000000"

definition V2P :: "u32 \<Rightarrow> u32" where "V2P a = a - KERNBASE"
definition P2V :: "u32 \<Rightarrow> u32" where "P2V a = a + KERNBASE"

definition PGROUNDUP :: "u32 \<Rightarrow> u32" where "PGROUNDUP sz = (sz + PGSIZE - 1) AND NOT (PGSIZE - 1)"
definition PGROUNDDOWN :: "u32 \<Rightarrow> u32" where "PGROUNDDOWN a = a AND NOT (PGSIZE - 1)"

section \<open>State and operations\<close>

text \<open>\<open>kend\<close> is the linker's symbol \<open>end\<close>, the first address after the kernel image.\<close>

record kmem_state = lk_state +
  mem :: memory
  freelist :: u32
  use_lock :: bool
  kend :: u32

definition lock_if :: "bool \<Rightarrow> lock \<Rightarrow> 'a lk_state_scheme \<Rightarrow> stop + 'a lk_state_scheme" where
  "lock_if b l s = (if b then acquire l s else Inr s)"

definition unlock_if :: "bool \<Rightarrow> lock \<Rightarrow> 'a lk_state_scheme \<Rightarrow> stop + 'a lk_state_scheme" where
  "unlock_if b l s = (if b then release l s else Inr s)"

definition kfree :: "u32 \<Rightarrow> 'a kmem_state_scheme \<Rightarrow> stop + 'a kmem_state_scheme" where
  "kfree v s =
     (if v mod PGSIZE \<noteq> 0 \<or> v < kend s \<or> V2P v \<ge> PHYSTOP then Inl (Panic ''kfree'')
      else
        let s = s\<lparr>mem := memset v 1 PGSIZE (mem s)\<rparr> in
        bindE (lock_if (use_lock s) L_kmem s) (\<lambda>s.
        let s = s\<lparr>mem := st32 v (freelist s) (mem s), freelist := v\<rparr> in
        unlock_if (use_lock s) L_kmem s))"

definition kalloc :: "'a kmem_state_scheme \<Rightarrow> stop + (u32 \<times> 'a kmem_state_scheme)" where
  "kalloc s =
     bindE (lock_if (use_lock s) L_kmem s) (\<lambda>s.
     let r = freelist s;
         s = (if r \<noteq> 0 then s\<lparr>freelist := ld32 r (mem s)\<rparr> else s) in
     bindE (unlock_if (use_lock s) L_kmem s) (\<lambda>s. Inr (r, s)))"

text \<open>
  The loop of \<open>freerange\<close>. It can only go on from \<open>p\<close> when \<open>kfree(p)\<close> returned, that is, below
  the end of physical memory, so it stops.
\<close>

lemma kfree_guard:
  "kfree v s = Inr t \<Longrightarrow> v mod PGSIZE = 0 \<and> kend s \<le> v \<and> V2P v < PHYSTOP"
  by (auto simp: kfree_def split: if_splits)

lemma V2P_bound:
  assumes "V2P v < PHYSTOP"
  shows "unat (v + PGSIZE) = unat v + 4096" and "KERNBASE \<le> v" and "v < 0x8E000000"
proof -
  have "unat (v - 0x80000000) < 0xE000000"
    using assms by (simp add: V2P_def word_less_nat_alt)
  moreover have "unat (v - 0x80000000)
      = (if 0x80000000 \<le> unat v then unat v - 0x80000000 else unat v + 0x80000000)"
    by (simp add: unat_sub_if' word_le_nat_alt)
  moreover have "unat v < 4294967296" by simp
  ultimately have b: "0x80000000 \<le> unat v" "unat v < 0x8E000000" by (auto split: if_splits)
  then show "unat (v + PGSIZE) = unat v + 4096" by (subst unat_add32) auto
  show "KERNBASE \<le> v" "v < 0x8E000000" using b by (simp_all add: word_le_nat_alt word_less_nat_alt)
qed

function free_loop :: "u32 \<Rightarrow> u32 \<Rightarrow> 'a kmem_state_scheme \<Rightarrow> stop + 'a kmem_state_scheme" where
  "free_loop p vend s =
     (if p + PGSIZE \<le> vend then bindE (kfree p s) (free_loop (p + PGSIZE) vend) else Inr s)"
  by pat_completeness auto
termination
proof (relation "measure (\<lambda>(p, vend, s). 4294967296 - unat p)")
  fix p vend :: u32 and s x :: "'a kmem_state_scheme"
  assume "kfree p s = Inr x"
  then have "unat (p + PGSIZE) = unat p + 4096"
    using kfree_guard V2P_bound(1) by blast
  then show "((p + PGSIZE, vend, x), p, vend, s) \<in> measure (\<lambda>(p, vend, s). 4294967296 - unat p)"
    using unat_lt32 [of p] by (simp add: diff_less_mono2 del: unat_lt32)
qed simp

declare free_loop.simps [simp del]

definition freerange :: "u32 \<Rightarrow> u32 \<Rightarrow> 'a kmem_state_scheme \<Rightarrow> stop + 'a kmem_state_scheme" where
  "freerange vstart vend s = free_loop (PGROUNDUP vstart) vend s"

definition kinit1 :: "u32 \<Rightarrow> u32 \<Rightarrow> 'a kmem_state_scheme \<Rightarrow> stop + 'a kmem_state_scheme" where
  "kinit1 vstart vend s = freerange vstart vend (s\<lparr>use_lock := False\<rparr>)"

definition kinit2 :: "u32 \<Rightarrow> u32 \<Rightarrow> 'a kmem_state_scheme \<Rightarrow> stop + 'a kmem_state_scheme" where
  "kinit2 vstart vend s =
     bindE (freerange vstart vend s) (\<lambda>s. Inr (s\<lparr>use_lock := True\<rparr>))"

section \<open>The free list as a list of pages\<close>

fun flist :: "memory \<Rightarrow> u32 \<Rightarrow> u32 list \<Rightarrow> bool" where
  "flist m p [] \<longleftrightarrow> p = 0"
| "flist m p (v # vs) \<longleftrightarrow> p = v \<and> flist m (ld32 v m) vs"

definition aligned :: "u32 \<Rightarrow> bool" where
  "aligned v \<longleftrightarrow> v mod PGSIZE = 0"

text \<open>A page \<open>kfree\<close> accepts.\<close>

definition page_ok :: "u32 \<Rightarrow> u32 \<Rightarrow> bool" where
  "page_ok k v \<longleftrightarrow> aligned v \<and> k \<le> v \<and> V2P v < PHYSTOP"

definition kmem_rep :: "'a kmem_state_scheme \<Rightarrow> u32 list \<Rightarrow> bool" where
  "kmem_rep s vs \<longleftrightarrow> flist (mem s) (freelist s) vs \<and> distinct vs
     \<and> (\<forall>v \<in> set vs. page_ok (kend s) v) \<and> L_kmem \<notin> set (held s)"

lemma aligned_unat: "aligned w \<longleftrightarrow> unat w mod 4096 = 0"
proof -
  have "unat (w mod PGSIZE) = unat w mod 4096" by (simp add: unat_mod)
  then show ?thesis unfolding aligned_def by (metis unat_eq_0)
qed

lemma aligned_page:
  assumes "aligned w"
  shows "unat w mod 4096 = 0" and "unat w + 4096 \<le> 4294967296"
proof -
  show m: "unat w mod 4096 = 0" using assms by (simp add: aligned_unat)
  then obtain q where q: "unat w = 4096 * q" by auto
  have "unat w < 4294967296" by simp
  then have "q < 1048576" unfolding q by simp
  then show "unat w + 4096 \<le> 4294967296" unfolding q by simp
qed

lemma aligned_gap:
  assumes "aligned p" and "aligned q" and "unat p < unat q"
  shows "unat p + 4096 \<le> unat q"
proof -
  obtain a b where "unat p = 4096 * a" "unat q = 4096 * b"
    using assms(1,2) by (auto simp: aligned_unat elim!: dvdE)
  with assms(3) show ?thesis by simp
qed

lemma aligned_gap':
  assumes "aligned p" and "aligned q" and "unat p < unat q + 4096"
  shows "unat p \<le> unat q"
  using aligned_gap [OF assms(2,1)] assms(3) by linarith

lemma aligned_page_offset:
  assumes "aligned w" and "n < 4096"
  shows "unat (w + of_nat n) = unat w + n"
  using aligned_page [OF assms(1)] assms(2) by (intro unat_add_of_nat32) linarith

lemma in_page_iff:
  assumes "aligned v"
  shows "in_range v 4096 x \<longleftrightarrow> unat x div 4096 = unat v div 4096"
proof -
  note m = aligned_page [OF assms]
  have iff: "unat x div 4096 = unat v div 4096 \<longleftrightarrow> unat v \<le> unat x \<and> unat x < unat v + 4096"
    using m(1) by (rule div_eq_aligned) simp
  show ?thesis
  proof (cases "v \<le> x")
    case True
    then have "unat (x - v) = unat x - unat v" "unat v \<le> unat x"
      by (simp_all add: unat_sub32 word_le_nat_alt)
    then show ?thesis unfolding in_range_def iff by linarith
  next
    case False
    then have l: "unat x < unat v" by (simp add: word_le_nat_alt)
    then have "unat (x - v) = 4294967296 + unat x - unat v"
      using unat_sub_if' [of x v] by simp
    then show ?thesis using l m unfolding in_range_def iff by linarith
  qed
qed

lemma pages_disjoint:
  assumes "aligned v" and "aligned w" and "v \<noteq> w" and "n < 4096"
  shows "\<not> in_range v 4096 (w + of_nat n)"
proof
  assume "in_range v 4096 (w + of_nat n)"
  then have "(unat w + n) div 4096 = unat v div 4096"
    using assms by (simp only: in_page_iff aligned_page_offset)
  moreover have "(unat w + n) div 4096 = unat w div 4096"
    using aligned_page(1) [OF assms(2)] assms(4) by (simp add: div_eq_aligned)
  ultimately have "unat v = unat w"
    using aligned_page(1) [OF assms(1)] aligned_page(1) [OF assms(2)]
    by (metis div_mult_mod_eq)
  then show False using assms(3) by (metis of_nat_unat_self)
qed

lemma mask12: "PGSIZE - 1 = mask 12"
  by (simp add: mask_numeral)

lemma unat_PGROUNDDOWN: "unat (PGROUNDDOWN a) = unat a - unat a mod 4096"
  using unat_and_not_mask [of a 12] unfolding PGROUNDDOWN_def mask12 by simp

lemma PGROUNDDOWN_aligned: "aligned (PGROUNDDOWN a)"
  by (simp add: aligned_unat unat_PGROUNDDOWN)

lemma PGROUNDUP_down: "PGROUNDUP sz = PGROUNDDOWN (sz + (PGSIZE - 1))"
  by (simp add: PGROUNDUP_def PGROUNDDOWN_def add.commute)

lemma PGROUNDUP_aligned: "aligned (PGROUNDUP a)"
  unfolding PGROUNDUP_down by (rule PGROUNDDOWN_aligned)

lemma unat_PGROUNDUP:
  assumes "unat a \<le> 4294963200"
  shows "unat a \<le> unat (PGROUNDUP a) \<and> unat (PGROUNDUP a) < unat a + 4096"
proof -
  have "unat (a + (PGSIZE - 1)) = unat a + 4095"
    using assms by (subst unat_add32) auto
  moreover have "(unat a + 4095) mod 4096 < 4096" by simp
  ultimately show ?thesis unfolding PGROUNDUP_down unat_PGROUNDDOWN by simp linarith
qed

lemma ld32_frame:
  "(\<And>i. i < 4 \<Longrightarrow> m' (a + of_nat i) = m (a + of_nat i)) \<Longrightarrow> ld32 a m' = ld32 a m"
proof -
  assume h: "\<And>i. i < 4 \<Longrightarrow> m' (a + of_nat i) = m (a + of_nat i)"
  show ?thesis using h [of 0] h [of 1] h [of 2] h [of 3] by (simp add: ld32_def)
qed

lemma flist_frame:
  "(\<And>v i. v \<in> set vs \<Longrightarrow> i < 4 \<Longrightarrow> m' (v + of_nat i) = m (v + of_nat i)) \<Longrightarrow>
   flist m' p vs = flist m p vs"
proof (induction vs arbitrary: p)
  case (Cons v vs)
  have "ld32 v m' = ld32 v m" using Cons.prems by (intro ld32_frame) simp
  moreover have "flist m' (ld32 v m) vs = flist m (ld32 v m) vs"
    using Cons.prems by (intro Cons.IH) simp
  ultimately show ?case by simp
qed simp

lemma st32_outside:
  assumes "aligned v" and "\<not> in_range v 4096 x"
  shows "st32 v w m x = m x"
proof -
  have "in_range v 4096 (v + of_nat i)" if "i < 4096" for i
    using that by (simp add: in_range_def unat_of_nat32)
  from this [of 0] this [of 1] this [of 2] this [of 3] assms(2) show ?thesis
    by (auto simp: st32_def)
qed

section \<open>What the operations do\<close>

lemma kfree_eq:
  assumes "page_ok (kend s) v" and "L_kmem \<notin> set (held s)"
  shows "kfree v s =
    Inr (s\<lparr>mem := st32 v (freelist s) (memset v 1 PGSIZE (mem s)), freelist := v\<rparr>)"
  using assms unfolding page_ok_def aligned_def
  by (simp add: kfree_def lock_if_def unlock_if_def Let_def acquire_ok release_ok not_less not_le)

lemma kalloc_eq:
  assumes "L_kmem \<notin> set (held s)"
  shows "kalloc s =
    Inr (freelist s, if freelist s \<noteq> 0 then s\<lparr>freelist := ld32 (freelist s) (mem s)\<rparr> else s)"
  using assms
  by (auto simp: kalloc_def lock_if_def unlock_if_def Let_def acquire_ok release_ok)

lemma page_ok_nonzero: "page_ok k v \<Longrightarrow> v \<noteq> 0"
  using V2P_bound(2) [of v] by (auto simp: page_ok_def)

lemma kfree_mem_outside:
  assumes "page_ok (kend s) v" and "L_kmem \<notin> set (held s)" and "kfree v s = Inr t"
    and "\<not> in_range v 4096 x"
  shows "mem t x = mem s x"
proof -
  have "mem t = st32 v (freelist s) (memset v 1 PGSIZE (mem s))"
    using kfree_eq [OF assms(1,2)] assms(3) by auto
  moreover have "aligned v" using assms(1) by (simp add: page_ok_def)
  ultimately show ?thesis
    using assms(4) by (simp add: st32_outside [OF _ assms(4)] memset_fill)
qed

text \<open>C26. Freeing a page that is not free pushes it on the free list, changes no byte outside the page, and returns with the lock released.\<close>

theorem kfree_pushes:
  assumes "kmem_rep s vs" and "page_ok (kend s) v" and "v \<notin> set vs"
  shows "\<exists>t. kfree v s = Inr t \<and> kmem_rep t (v # vs) \<and> held t = held s \<and> kend t = kend s
    \<and> (\<forall>x. \<not> in_range v 4096 x \<longrightarrow> mem t x = mem s x)"
proof -
  have free: "L_kmem \<notin> set (held s)" using assms(1) by (simp add: kmem_rep_def)
  let ?m = "st32 v (freelist s) (memset v 1 PGSIZE (mem s))"
  let ?t = "s\<lparr>mem := ?m, freelist := v\<rparr>"
  have eq: "kfree v s = Inr ?t" using kfree_eq [OF assms(2) free] .
  have out: "?m x = mem s x" if "\<not> in_range v 4096 x" for x
    using kfree_mem_outside [OF assms(2) free eq that] by simp
  have "flist ?m (freelist s) vs = flist (mem s) (freelist s) vs"
  proof (rule flist_frame)
    fix w and i :: nat
    assume w: "w \<in> set vs" and i: "i < 4"
    then have "\<not> in_range v 4096 (w + of_nat i)"
      using assms by (intro pages_disjoint) (auto simp: kmem_rep_def page_ok_def)
    then show "?m (w + of_nat i) = mem s (w + of_nat i)" by (rule out)
  qed
  then have "kmem_rep ?t (v # vs)" using assms by (auto simp: kmem_rep_def)
  with eq out show ?thesis by (intro exI [of _ ?t]) auto
qed

text \<open>\<open>kalloc\<close> pops the free list: it returns the page freed last, which leaves the list, or 0 and no change exactly when no page is free; memory and locks stay as they were.\<close>

theorem kalloc_pops:
  assumes "kmem_rep s vs"
  shows "\<exists>t. kalloc s = Inr (case vs of [] \<Rightarrow> 0 | v # _ \<Rightarrow> v, t) \<and> kmem_rep t (tl vs)
    \<and> mem t = mem s \<and> held t = held s \<and> kend t = kend s \<and> (vs = [] \<longrightarrow> t = s)"
proof (cases vs)
  case Nil
  then show ?thesis using assms by (simp add: kalloc_eq kmem_rep_def)
next
  case (Cons v ws)
  then have "freelist s = v" "v \<noteq> 0" "L_kmem \<notin> set (held s)"
    using assms page_ok_nonzero by (auto simp: kmem_rep_def)
  then show ?thesis using assms Cons by (simp add: kalloc_eq kmem_rep_def)
qed

section \<open>The allocator as an interface\<close>

text \<open>
  What the rest of the kernel relies on: a state represents a list of free pages, \<open>alloc\<close> takes
  the first and \<open>free\<close> puts one back. The client lemmas: \<open>n\<close> allocations in a row give \<open>n\<close> different
  pages, and a page just freed is the next one allocated.
\<close>

locale page_allocator =
  fixes alloc :: "'s \<Rightarrow> stop + (u32 \<times> 's)" and free :: "u32 \<Rightarrow> 's \<Rightarrow> stop + 's"
    and rep :: "'s \<Rightarrow> u32 list \<Rightarrow> bool" and good :: "'s \<Rightarrow> u32 \<Rightarrow> bool"
  assumes alloc_rep: "rep s vs \<Longrightarrow> \<exists>t. alloc s = Inr (case vs of [] \<Rightarrow> 0 | v # _ \<Rightarrow> v, t) \<and> rep t (tl vs)
      \<and> good t = good s"
    and free_rep: "rep s vs \<Longrightarrow> good s v \<Longrightarrow> v \<notin> set vs \<Longrightarrow> \<exists>t. free v s = Inr t \<and> rep t (v # vs)
      \<and> good t = good s"
    and rep_distinct: "rep s vs \<Longrightarrow> distinct vs"
    and rep_good: "rep s vs \<Longrightarrow> v \<in> set vs \<Longrightarrow> good s v \<and> v \<noteq> 0"
begin

fun allocs :: "nat \<Rightarrow> 's \<Rightarrow> stop + (u32 list \<times> 's)" where
  "allocs 0 s = Inr ([], s)"
| "allocs (Suc n) s = bindE (alloc s) (\<lambda>(p, s). bindE (allocs n s) (\<lambda>(ps, s). Inr (p # ps, s)))"

lemma allocs_rep:
  "rep s vs \<Longrightarrow> n \<le> length vs \<Longrightarrow> \<exists>t. allocs n s = Inr (take n vs, t) \<and> rep t (drop n vs)"
proof (induction n arbitrary: s vs)
  case (Suc n)
  then obtain v ws where vs: "vs = v # ws" by (cases vs) auto
  obtain t where t: "alloc s = Inr (v, t)" "rep t ws"
    using alloc_rep [OF Suc.prems(1)] by (auto simp: vs)
  obtain u where "allocs n t = Inr (take n ws, u)" "rep u (drop n ws)"
    using Suc.IH [OF t(2)] Suc.prems(2) by (auto simp: vs)
  with t show ?case by (simp add: vs)
qed simp

lemma allocs_distinct:
  assumes "rep s vs" and "n \<le> length vs" and "allocs n s = Inr (ps, t)"
  shows "distinct ps \<and> length ps = n \<and> 0 \<notin> set ps \<and> set ps \<inter> set (drop n vs) = {}"
proof -
  have ps: "ps = take n vs" using allocs_rep [OF assms(1,2)] assms(3) by auto
  have "distinct (take n vs @ drop n vs)" using rep_distinct [OF assms(1)] by simp
  then have "distinct (take n vs)" "set (take n vs) \<inter> set (drop n vs) = {}"
    unfolding distinct_append by blast+
  moreover have "0 \<notin> set (take n vs)"
    using rep_good [OF assms(1), of 0] by (auto dest: in_set_takeD)
  ultimately show ?thesis using assms(2) by (simp add: ps)
qed

lemma free_alloc:
  assumes "rep s vs" and "good s v" and "v \<notin> set vs" and "free v s = Inr t"
  shows "\<exists>u. alloc t = Inr (v, u) \<and> rep u vs"
  using free_rep [OF assms(1-3)] alloc_rep [of t "v # vs"] assms(4) by auto

end

interpretation kmem: page_allocator kalloc kfree kmem_rep "\<lambda>s. page_ok (kend s)"
proof (unfold_locales, goal_cases)
  case (1 s vs)
  then show ?case using kalloc_pops by metis
next
  case (2 s vs v)
  then show ?case using kfree_pushes by metis
next
  case (3 s vs)
  then show ?case by (simp add: kmem_rep_def)
next
  case (4 s vs v)
  then show ?case using page_ok_nonzero by (auto simp: kmem_rep_def)
qed

section \<open>Initialisation\<close>

text \<open>The pages that lie wholly between two addresses.\<close>

definition pages_between :: "u32 \<Rightarrow> u32 \<Rightarrow> u32 set" where
  "pages_between a b = {p. aligned p \<and> unat a \<le> unat p \<and> unat p + 4096 \<le> unat b}"

lemma pages_between_step:
  assumes "aligned p" and "unat p + 4096 \<le> unat b"
  shows "pages_between p b = insert p (pages_between (p + PGSIZE) b)"
proof -
  have n: "unat (p + PGSIZE) = unat p + 4096"
    using assms(2) unat_lt32 [of b] by (subst unat_add32) (auto simp del: unat_lt32)
  have "q = p \<or> unat p + 4096 \<le> unat q" if q: "aligned q" "unat p \<le> unat q" for q
    using aligned_gap [OF assms(1) q(1)] q(2) by (metis le_neq_implies_less of_nat_unat_self)
  then show ?thesis using assms n by (auto simp: pages_between_def)
qed

lemma free_loop_frees:
  assumes "aligned p" and "KERNBASE \<le> p" and "kend s \<le> p" and "vend \<le> 0x8E000000"
    and "unat p \<le> 0x8E001000" and "kmem_rep s vs" and "set vs \<inter> pages_between p vend = {}"
  shows "\<exists>t ps. free_loop p vend s = Inr t \<and> kmem_rep t (ps @ vs) \<and> set ps = pages_between p vend
    \<and> held t = held s \<and> kend t = kend s"
  using assms
proof (induction p vend s arbitrary: vs rule: free_loop.induct)
  case (1 p vend s)
  have vend: "unat vend \<le> 0x8E000000" using 1(5) by (simp add: word_le_nat_alt)
  have pn: "unat (p + PGSIZE) = unat p + 4096"
    using 1(6) by (subst unat_add32) auto
  show ?case
  proof (cases "p + PGSIZE \<le> vend")
    case False
    then have "pages_between p vend = {}" using pn by (auto simp: pages_between_def word_le_nat_alt)
    with False 1 show ?thesis by (intro exI [of _ s] exI [of _ "[]"]) (simp add: free_loop.simps [of p])
  next
    case True
    then have le: "unat p + 4096 \<le> unat vend" using pn by (simp add: word_le_nat_alt)
    note step = pages_between_step [OF 1(2) le]
    have "V2P p < PHYSTOP"
      using le vend 1(3) by (simp add: V2P_def word_less_nat_alt word_le_nat_alt unat_sub_if')
    then have ok: "page_ok (kend s) p" using 1 by (simp add: page_ok_def)
    obtain u where u: "kfree p s = Inr u" "kmem_rep u (p # vs)" "held u = held s" "kend u = kend s"
      using kfree_pushes [OF 1(7) ok] 1(8) step by blast
    have al: "aligned (p + PGSIZE)"
      using aligned_page(1) [OF 1(2)] by (simp only: aligned_unat pn) simp
    have notin: "p \<notin> pages_between (p + PGSIZE) vend" using pn by (simp add: pages_between_def)
    have "\<exists>t ps. free_loop (p + PGSIZE) vend u = Inr t \<and> kmem_rep t (ps @ p # vs)
        \<and> set ps = pages_between (p + PGSIZE) vend \<and> held t = held u \<and> kend t = kend u"
    proof (rule 1(1) [OF True u(1) al _ _ 1(5) _ u(2)])
      show "KERNBASE \<le> p + PGSIZE" "kend u \<le> p + PGSIZE"
        using 1(3,4) pn u(4) by (simp_all add: word_le_nat_alt)
      show "unat (p + PGSIZE) \<le> 0x8E001000" using le vend pn by simp
      show "set (p # vs) \<inter> pages_between (p + PGSIZE) vend = {}"
        using 1(8) step notin by auto
    qed
    then obtain t ps where t: "free_loop (p + PGSIZE) vend u = Inr t" "kmem_rep t (ps @ p # vs)"
      "set ps = pages_between (p + PGSIZE) vend" "held t = held u" "kend t = kend u" by blast
    then show ?thesis using True u step
      by (intro exI [of _ t] exI [of _ "ps @ [p]"]) (simp add: free_loop.simps [of p])
  qed
qed

text \<open>\<open>freerange\<close>, and so \<open>kinit1\<close> and \<open>kinit2\<close>, puts exactly the whole pages between its two addresses on the free list, each once, when the range lies between the end of the kernel and the top of physical memory.\<close>

theorem freerange_frees:
  assumes "kmem_rep s vs" and "KERNBASE \<le> vstart" and "kend s \<le> vstart"
    and "vstart \<le> vend" and "vend \<le> 0x8E000000" and "set vs \<inter> pages_between vstart vend = {}"
  shows "\<exists>t ps. freerange vstart vend s = Inr t \<and> kmem_rep t (ps @ vs)
    \<and> set ps = pages_between vstart vend \<and> held t = held s"
proof -
  let ?p = "PGROUNDUP vstart"
  have v: "unat vstart \<le> 0x8E000000" using assms by (auto simp: word_le_nat_alt)
  then have p: "unat vstart \<le> unat ?p" "unat ?p < unat vstart + 4096"
    using unat_PGROUNDUP [of vstart] by simp_all
  have "unat ?p \<le> unat q" if q: "aligned q" "unat vstart \<le> unat q" for q
    using p q by (intro aligned_gap') (auto simp: PGROUNDUP_aligned)
  then have same: "pages_between ?p vend = pages_between vstart vend"
    using p by (fastforce simp: pages_between_def)
  have "\<exists>t ps. free_loop ?p vend s = Inr t \<and> kmem_rep t (ps @ vs) \<and> set ps = pages_between ?p vend
      \<and> held t = held s \<and> kend t = kend s"
    using assms p v by (intro free_loop_frees) (auto simp: PGROUNDUP_aligned same word_le_nat_alt)
  then show ?thesis by (auto simp: freerange_def same)
qed

section \<open>A small machine for the witnesses\<close>

definition kmem0 :: "kmem_state" where
  "kmem0 = \<lparr>held = [], mem = (\<lambda>_. 0), freelist = 0, use_lock = True, kend = 0x80100000\<rparr>"

lemma kmem0_rep: "kmem_rep kmem0 []"
  by (simp add: kmem_rep_def kmem0_def)

lemma kmem0_page: "page_ok (kend kmem0) 0x80100000"
  by (simp add: page_ok_def aligned_unat kmem0_def V2P_def)

lemma kfree_pushes_witness:
  "\<exists>t. kfree 0x80100000 kmem0 = Inr t \<and> kmem_rep t [0x80100000]"
  using kfree_pushes [OF kmem0_rep kmem0_page] by auto

lemma kalloc_pops_witness:
  "\<exists>(s :: kmem_state) t. kmem_rep s [0x80100000] \<and> kalloc s = Inr (0x80100000, t) \<and> kmem_rep t []"
proof -
  obtain s :: kmem_state where s: "kmem_rep s [0x80100000]"
    using kmem.free_rep [OF kmem0_rep kmem0_page] by auto
  from kalloc_pops [OF s] s show ?thesis by auto
qed

lemma freerange_frees_witness:
  "\<exists>t ps. freerange 0x80100001 0x80103000 kmem0 = Inr t \<and> kmem_rep t ps
     \<and> set ps = pages_between 0x80100001 0x80103000"
  using freerange_frees [OF kmem0_rep, of "0x80100001" "0x80103000"]
  by (auto simp: kmem0_def)

end
