(* ===== verification/Xv6_Vm.thy ===== *)
theory Xv6_Vm
  imports Xv6_Kalloc
begin

text \<open>
  Page tables (\<open>vm.c\<close>). A page directory and its page tables are pages of the physical memory of
  \<open>Xv6_Kalloc\<close>, read and written as arrays of 32-bit entries at their kernel addresses, exactly
  as the code does through \<open>P2V\<close>.
\<close>

section \<open>Entries and indices (\<open>mmu.h\<close>)\<close>

abbreviation (input) PTE_P :: u32 where "PTE_P \<equiv> 1"
abbreviation (input) PTE_W :: u32 where "PTE_W \<equiv> 2"
abbreviation (input) PTE_U :: u32 where "PTE_U \<equiv> 4"

definition PDX :: "u32 \<Rightarrow> u32" where "PDX va = drop_bit 22 va AND 0x3FF"
definition PTX :: "u32 \<Rightarrow> u32" where "PTX va = drop_bit 12 va AND 0x3FF"
definition PGADDR :: "u32 \<Rightarrow> u32 \<Rightarrow> u32 \<Rightarrow> u32" where
  "PGADDR d t off = push_bit 22 d OR push_bit 12 t OR off"
definition PTE_ADDR :: "u32 \<Rightarrow> u32" where "PTE_ADDR pte = pte AND NOT 0xFFF"
definition PTE_FLAGS :: "u32 \<Rightarrow> u32" where "PTE_FLAGS pte = pte AND 0xFFF"

section \<open>State\<close>

text \<open>\<open>kdata\<close> is the linker's symbol \<open>data\<close>; \<open>cr3\<close> the page-table register.\<close>

record vm_state = kmem_state +
  kpgdir :: u32
  kdata :: u32
  cr3 :: u32

section \<open>Walking and mapping\<close>

definition walkpgdir :: "u32 \<Rightarrow> u32 \<Rightarrow> bool \<Rightarrow> 'a kmem_state_scheme \<Rightarrow> stop + (u32 \<times> 'a kmem_state_scheme)" where
  "walkpgdir pgdir va alloc s =
     (let pde = pgdir + 4 * PDX va in
      if ld32 pde (mem s) AND PTE_P \<noteq> 0
      then Inr (P2V (PTE_ADDR (ld32 pde (mem s))) + 4 * PTX va, s)
      else if \<not> alloc then Inr (0, s)
      else bindE (kalloc s) (\<lambda>(pgtab, s).
        if pgtab = 0 then Inr (0, s)
        else
          let s = s\<lparr>mem := memset pgtab 0 PGSIZE (mem s)\<rparr>;
              s = s\<lparr>mem := st32 pde (V2P pgtab OR PTE_P OR PTE_W OR PTE_U) (mem s)\<rparr>
          in Inr (pgtab + 4 * PTX va, s)))"

text \<open>
  The loop of \<open>mappages\<close>, with \<open>n\<close> the number of pages still to follow \<open>a\<close>: the code compares
  \<open>a\<close> with \<open>last\<close>, both page-aligned, and steps by a page. The result is the C return value,
  0 or -1.
\<close>

fun mappages_loop ::
  "u32 \<Rightarrow> u32 \<Rightarrow> nat \<Rightarrow> u32 \<Rightarrow> u32 \<Rightarrow> 'a kmem_state_scheme \<Rightarrow> stop + (i32 \<times> 'a kmem_state_scheme)" where
  "mappages_loop pgdir a n pa perm s =
     bindE (walkpgdir pgdir a True s) (\<lambda>(pte, s).
       if pte = 0 then Inr (- 1, s)
       else if ld32 pte (mem s) AND PTE_P \<noteq> 0 then Inl (Panic ''remap'')
       else
         let s = s\<lparr>mem := st32 pte (pa OR perm OR PTE_P) (mem s)\<rparr>
         in case n of 0 \<Rightarrow> Inr (0, s)
            | Suc n \<Rightarrow> mappages_loop pgdir (a + PGSIZE) n (pa + PGSIZE) perm s)"

declare mappages_loop.simps [simp del]

definition mappages ::
  "u32 \<Rightarrow> u32 \<Rightarrow> u32 \<Rightarrow> u32 \<Rightarrow> u32 \<Rightarrow> 'a kmem_state_scheme \<Rightarrow> stop + (i32 \<times> 'a kmem_state_scheme)" where
  "mappages pgdir va sz pa perm s =
     (let a = PGROUNDDOWN va; last = PGROUNDDOWN (va + sz - 1)
      in mappages_loop pgdir a (unat ((last - a) div PGSIZE)) pa perm s)"

section \<open>Tearing down\<close>

text \<open>
  The loop of \<open>deallocuvm\<close>. Where the next address wraps past the top of the address space the
  code's loop would start over for ever.
\<close>

definition dealloc_next :: "u32 \<Rightarrow> u32 \<Rightarrow> u32" where
  "dealloc_next pte a = (if pte = 0 then PGADDR (PDX a + 1) 0 0 - PGSIZE else a) + PGSIZE"

function dealloc_loop :: "u32 \<Rightarrow> u32 \<Rightarrow> u32 \<Rightarrow> 'a kmem_state_scheme \<Rightarrow> stop + 'a kmem_state_scheme" where
  "dealloc_loop pgdir a oldsz s =
     (if a < oldsz then
        bindE (walkpgdir pgdir a False s) (\<lambda>(pte, s).
        bindE (if pte = 0 then Inr s
               else if ld32 pte (mem s) AND PTE_P \<noteq> 0 then
                 let pa = PTE_ADDR (ld32 pte (mem s)) in
                 if pa = 0 then Inl (Panic ''kfree'')
                 else bindE (kfree (P2V pa) s) (\<lambda>s. Inr (s\<lparr>mem := st32 pte 0 (mem s)\<rparr>))
               else Inr s) (\<lambda>s.
        if dealloc_next pte a \<le> a then Inl (Spins ''deallocuvm'')
        else dealloc_loop pgdir (dealloc_next pte a) oldsz s))
      else Inr s)"
  by pat_completeness auto
termination
  by (relation "measure (\<lambda>(pgdir, a, oldsz, s). 4294967296 - unat a)")
    (auto simp: not_le word_less_nat_alt intro!: diff_less_mono2)

declare dealloc_loop.simps [simp del]

definition deallocuvm :: "u32 \<Rightarrow> u32 \<Rightarrow> u32 \<Rightarrow> 'a kmem_state_scheme \<Rightarrow> stop + (u32 \<times> 'a kmem_state_scheme)" where
  "deallocuvm pgdir oldsz newsz s =
     (if newsz \<ge> oldsz then Inr (oldsz, s)
      else bindE (dealloc_loop pgdir (PGROUNDUP newsz) oldsz s) (\<lambda>s. Inr (newsz, s)))"

definition free_pde :: "u32 \<Rightarrow> nat \<Rightarrow> 'a kmem_state_scheme \<Rightarrow> stop + 'a kmem_state_scheme" where
  "free_pde pgdir i s =
     (let pde = ld32 (pgdir + 4 * of_nat i) (mem s) in
      if pde AND PTE_P \<noteq> 0 then kfree (P2V (PTE_ADDR pde)) s else Inr s)"

definition freevm :: "u32 \<Rightarrow> 'a kmem_state_scheme \<Rightarrow> stop + 'a kmem_state_scheme" where
  "freevm pgdir s =
     (if pgdir = 0 then Inl (Panic ''freevm: no pgdir'')
      else bindE (deallocuvm pgdir KERNBASE 0 s) (\<lambda>(_, s).
           bindE (forE (free_pde pgdir) [0..<1024] s) (\<lambda>s.
           kfree pgdir s)))"

section \<open>The kernel part of a page table\<close>

record kmap_entry =
  virt :: u32
  phys_start :: u32
  phys_end :: u32
  kperm :: u32

definition kmap :: "u32 \<Rightarrow> kmap_entry list" where
  "kmap data =
    [\<lparr>virt = KERNBASE, phys_start = 0, phys_end = EXTMEM, kperm = PTE_W\<rparr>,
     \<lparr>virt = KERNBASE + EXTMEM, phys_start = V2P (KERNBASE + EXTMEM), phys_end = V2P data, kperm = 0\<rparr>,
     \<lparr>virt = data, phys_start = V2P data, phys_end = PHYSTOP, kperm = PTE_W\<rparr>,
     \<lparr>virt = DEVSPACE, phys_start = DEVSPACE, phys_end = 0, kperm = PTE_W\<rparr>]"

fun map_entries :: "u32 \<Rightarrow> kmap_entry list \<Rightarrow> 'a kmem_state_scheme \<Rightarrow> stop + (u32 \<times> 'a kmem_state_scheme)" where
  "map_entries pgdir [] s = Inr (pgdir, s)"
| "map_entries pgdir (k # ks) s =
     bindE (mappages pgdir (virt k) (phys_end k - phys_start k) (phys_start k) (kperm k) s) (\<lambda>(r, s).
       if sint r < 0 then bindE (freevm pgdir s) (\<lambda>s. Inr (0, s))
       else map_entries pgdir ks s)"

definition setupkvm :: "'a vm_state_scheme \<Rightarrow> stop + (u32 \<times> 'a vm_state_scheme)" where
  "setupkvm s =
     bindE (kalloc s) (\<lambda>(pgdir, s).
       if pgdir = 0 then Inr (0, s)
       else
         let s = s\<lparr>mem := memset pgdir 0 PGSIZE (mem s)\<rparr> in
         if P2V PHYSTOP > DEVSPACE then Inl (Panic ''PHYSTOP too high'')
         else map_entries pgdir (kmap (kdata s)) s)"

definition switchkvm :: "'a vm_state_scheme \<Rightarrow> 'a vm_state_scheme" where
  "switchkvm s = s\<lparr>cr3 := V2P (kpgdir s)\<rparr>"

definition kvmalloc :: "'a vm_state_scheme \<Rightarrow> stop + 'a vm_state_scheme" where
  "kvmalloc s = bindE (setupkvm s) (\<lambda>(p, s). Inr (switchkvm (s\<lparr>kpgdir := p\<rparr>)))"

section \<open>User memory\<close>

text \<open>The bytes of the initial program are given as a list; \<open>store_bytes\<close> is \<open>memmove\<close> from a
  separate buffer.\<close>

fun store_bytes :: "u32 \<Rightarrow> bytes \<Rightarrow> memory \<Rightarrow> memory" where
  "store_bytes a [] m = m"
| "store_bytes a (b # bs) m = store_bytes (a + 1) bs (m(a := b))"

definition inituvm :: "u32 \<Rightarrow> bytes \<Rightarrow> u32 \<Rightarrow> 'a kmem_state_scheme \<Rightarrow> stop + 'a kmem_state_scheme" where
  "inituvm pgdir init sz s =
     (if sz \<ge> PGSIZE then Inl (Panic ''inituvm: more than a page'')
      else bindE (kalloc s) (\<lambda>(page, s).
        let s = s\<lparr>mem := memset page 0 PGSIZE (mem s)\<rparr> in
        bindE (mappages pgdir 0 PGSIZE (V2P page) (PTE_W OR PTE_U) s) (\<lambda>(_, s).
        Inr (s\<lparr>mem := store_bytes page (take (unat sz) init) (mem s)\<rparr>))))"

text \<open>
  The values of the loop variable of \<open>for(i = a; i < b; i += PGSIZE)\<close>; the loops of the file stay
  below \<open>KERNBASE\<close>, so the variable never wraps.
\<close>

definition page_steps :: "u32 \<Rightarrow> u32 \<Rightarrow> u32 list" where
  "page_steps a b =
     map (\<lambda>i. a + of_nat (4096 * i)) [0..<(if a < b then (unat b - unat a + 4095) div 4096 else 0)]"

fun alloc_loop :: "u32 \<Rightarrow> u32 \<Rightarrow> u32 \<Rightarrow> u32 list \<Rightarrow> 'a kmem_state_scheme \<Rightarrow> stop + (u32 \<times> 'a kmem_state_scheme)" where
  "alloc_loop pgdir oldsz newsz [] s = Inr (newsz, s)"
| "alloc_loop pgdir oldsz newsz (a # as) s =
     bindE (kalloc s) (\<lambda>(page, s).
       if page = 0 then bindE (deallocuvm pgdir newsz oldsz s) (\<lambda>(_, s). Inr (0, s))
       else
         let s = s\<lparr>mem := memset page 0 PGSIZE (mem s)\<rparr> in
         bindE (mappages pgdir a PGSIZE (V2P page) (PTE_W OR PTE_U) s) (\<lambda>(r, s).
           if sint r < 0 then
             bindE (deallocuvm pgdir newsz oldsz s) (\<lambda>(_, s).
             bindE (kfree page s) (\<lambda>s. Inr (0, s)))
           else alloc_loop pgdir oldsz newsz as s))"

definition allocuvm :: "u32 \<Rightarrow> u32 \<Rightarrow> u32 \<Rightarrow> 'a kmem_state_scheme \<Rightarrow> stop + (u32 \<times> 'a kmem_state_scheme)" where
  "allocuvm pgdir oldsz newsz s =
     (if newsz \<ge> KERNBASE then Inr (0, s)
      else if newsz < oldsz then Inr (oldsz, s)
      else alloc_loop pgdir oldsz newsz (page_steps (PGROUNDUP oldsz) newsz) s)"

definition clearpteu :: "u32 \<Rightarrow> u32 \<Rightarrow> 'a kmem_state_scheme \<Rightarrow> stop + 'a kmem_state_scheme" where
  "clearpteu pgdir uva s =
     bindE (walkpgdir pgdir uva False s) (\<lambda>(pte, s).
       if pte = 0 then Inl (Panic ''clearpteu'')
       else Inr (s\<lparr>mem := st32 pte (ld32 pte (mem s) AND NOT PTE_U) (mem s)\<rparr>))"

fun copy_loop :: "u32 \<Rightarrow> u32 \<Rightarrow> u32 list \<Rightarrow> 'a kmem_state_scheme \<Rightarrow> stop + (u32 \<times> 'a kmem_state_scheme)" where
  "copy_loop pgdir d [] s = Inr (d, s)"
| "copy_loop pgdir d (i # is) s =
     bindE (walkpgdir pgdir i False s) (\<lambda>(pte, s).
       if pte = 0 then Inl (Panic ''copyuvm: pte should exist'')
       else if ld32 pte (mem s) AND PTE_P = 0 then Inl (Panic ''copyuvm: page not present'')
       else
         let pa = PTE_ADDR (ld32 pte (mem s)); flags = PTE_FLAGS (ld32 pte (mem s)) in
         bindE (kalloc s) (\<lambda>(page, s).
           if page = 0 then bindE (freevm d s) (\<lambda>s. Inr (0, s))
           else
             let s = s\<lparr>mem := memmove page (P2V pa) PGSIZE (mem s)\<rparr> in
             bindE (mappages d i PGSIZE (V2P page) flags s) (\<lambda>(r, s).
               if sint r < 0 then bindE (kfree page s) (\<lambda>s. bindE (freevm d s) (\<lambda>s. Inr (0, s)))
               else copy_loop pgdir d is s)))"

definition copyuvm :: "u32 \<Rightarrow> u32 \<Rightarrow> 'a vm_state_scheme \<Rightarrow> stop + (u32 \<times> 'a vm_state_scheme)" where
  "copyuvm pgdir sz s =
     bindE (setupkvm s) (\<lambda>(d, s).
       if d = 0 then Inr (0, s) else copy_loop pgdir d (page_steps 0 sz) s)"

text \<open>\<open>copyuvm_clone\<close>, left in the file by the authors of the thread calls: the copy shares the
  pages of the original.\<close>

fun share_loop :: "u32 \<Rightarrow> u32 \<Rightarrow> u32 list \<Rightarrow> 'a kmem_state_scheme \<Rightarrow> stop + (u32 \<times> 'a kmem_state_scheme)" where
  "share_loop pgdir d [] s = Inr (d, s)"
| "share_loop pgdir d (i # is) s =
     bindE (walkpgdir pgdir i False s) (\<lambda>(pte, s).
       if pte = 0 then Inl (Panic ''copyuvm_clone: pte should exist'')
       else if ld32 pte (mem s) AND PTE_P = 0 then Inl (Panic ''copyuvm_clone: page not present'')
       else
         let pa = PTE_ADDR (ld32 pte (mem s)); flags = PTE_FLAGS (ld32 pte (mem s)) in
         bindE (mappages d i PGSIZE pa flags s) (\<lambda>(r, s).
           if sint r < 0 then bindE (freevm d s) (\<lambda>s. Inr (0, s))
           else share_loop pgdir d is s))"

definition copyuvm_clone :: "u32 \<Rightarrow> u32 \<Rightarrow> 'a vm_state_scheme \<Rightarrow> stop + (u32 \<times> 'a vm_state_scheme)" where
  "copyuvm_clone pgdir sz s =
     bindE (setupkvm s) (\<lambda>(d, s).
       if d = 0 then Inr (0, s) else share_loop pgdir d (page_steps 0 sz) s)"

text \<open>
  \<open>uva2ka\<close> reads through the entry \<open>walkpgdir\<close> returned without testing it for null.
\<close>

definition uva2ka :: "u32 \<Rightarrow> u32 \<Rightarrow> 'a kmem_state_scheme \<Rightarrow> stop + u32" where
  "uva2ka pgdir uva s =
     bindE (walkpgdir pgdir uva False s) (\<lambda>(pte, s).
       if pte = 0 then Inl (Fault ''uva2ka: null pte'')
       else if ld32 pte (mem s) AND PTE_P = 0 then Inr 0
       else if ld32 pte (mem s) AND PTE_U = 0 then Inr 0
       else Inr (P2V (PTE_ADDR (ld32 pte (mem s)))))"

text \<open>
  \<open>copyout\<close>, with the source bytes as a list (so \<open>len\<close> is its length): one page of the destination
  per round. The result is the C return value.
\<close>

function copyout :: "u32 \<Rightarrow> u32 \<Rightarrow> bytes \<Rightarrow> 'a kmem_state_scheme \<Rightarrow> stop + (i32 \<times> 'a kmem_state_scheme)" where
  "copyout pgdir va buf s =
     (if buf = [] then Inr (0, s)
      else
        let va0 = PGROUNDDOWN va in
        bindE (uva2ka pgdir va0 s) (\<lambda>pa0.
          if pa0 = 0 then Inr (- 1, s)
          else
            let n = min (unat (PGSIZE - (va - va0))) (length buf) in
            copyout pgdir (va0 + PGSIZE) (drop n buf)
              (s\<lparr>mem := store_bytes (pa0 + (va - va0)) (take n buf) (mem s)\<rparr>)))"
  by pat_completeness auto

lemma page_left: "0 < unat (PGSIZE - (va - PGROUNDDOWN va))"
proof -
  have "unat (PGROUNDDOWN va) \<le> unat va" by (simp add: unat_PGROUNDDOWN)
  then have "unat (va - PGROUNDDOWN va) = unat va mod 4096"
    by (simp add: unat_sub32 word_le_nat_alt unat_PGROUNDDOWN)
  then have "unat (va - PGROUNDDOWN va) < 4096" by simp
  then have "va - PGROUNDDOWN va < PGSIZE" by (simp add: word_less_nat_alt)
  then show ?thesis by (simp add: unat_gt_0)
qed

termination copyout
  by (relation "measure (\<lambda>(pgdir, va, buf, s). length buf)") (use page_left in \<open>auto simp: min_def\<close>)

declare copyout.simps [simp del]

end
