(* ===== verification/Xv6_PageTable.thy ===== *)
theory Xv6_PageTable
  imports Xv6_Vm
begin

text \<open>
  What a page table means: the entry that a page directory gives for each page of the virtual
  address space, the ownership of the pages that make up the table, and the effect of walking,
  mapping and copying out on both.
\<close>

section \<open>Entries by page number\<close>

lemma unat_PDX: "unat (PDX va) = unat va div 4194304"
proof -
  have m: "(0x3FF :: u32) = mask 10" by (simp add: mask_numeral)
  have "unat (PDX va) = (unat va div 4194304) mod 1024"
    unfolding PDX_def m take_bit_eq_mask [symmetric]
    by (simp add: unsigned_take_bit_eq unsigned_drop_bit_eq take_bit_eq_mod drop_bit_eq_div
        unat_mod unat_div)
  moreover have "unat va div 4194304 < 1024"
    using unat_lt32 [of va] by (simp add: div_less_iff_less_mult del: unat_lt32)
  ultimately show ?thesis by simp
qed

lemma unat_PTX: "unat (PTX va) = (unat va div 4096) mod 1024"
proof -
  have m: "(0x3FF :: u32) = mask 10" by (simp add: mask_numeral)
  show ?thesis
    unfolding PTX_def m take_bit_eq_mask [symmetric]
    by (simp add: unsigned_take_bit_eq unsigned_drop_bit_eq take_bit_eq_mod drop_bit_eq_div
        unat_mod unat_div)
qed

definition slot :: "u32 \<Rightarrow> nat \<Rightarrow> u32" where
  "slot t j = t + of_nat (4 * j)"

lemma slot_PDX: "pgdir + 4 * PDX va = slot pgdir (unat va div 4096 div 1024)"
proof -
  have "unat va div 4096 div 1024 = unat (PDX va)"
    by (simp add: unat_PDX div_mult2_eq [symmetric])
  then show ?thesis by (simp add: slot_def)
qed

lemma slot_PTX: "t + 4 * PTX va = slot t (unat va div 4096 mod 1024)"
  by (simp add: slot_def flip: unat_PTX)

text \<open>The table page behind directory entry \<open>i\<close>, and the entry of page number \<open>p\<close>
  (0, not present, where there is no table).\<close>

definition tab :: "memory \<Rightarrow> u32 \<Rightarrow> nat \<Rightarrow> u32 option" where
  "tab m pgdir i =
     (let e = ld32 (slot pgdir i) m in if e AND PTE_P \<noteq> 0 then Some (P2V (PTE_ADDR e)) else None)"

definition pte_of :: "memory \<Rightarrow> u32 \<Rightarrow> nat \<Rightarrow> u32" where
  "pte_of m pgdir p =
     (case tab m pgdir (p div 1024) of None \<Rightarrow> 0 | Some t \<Rightarrow> ld32 (slot t (p mod 1024)) m)"

definition vpage :: "u32 \<Rightarrow> nat" where
  "vpage va = unat va div 4096"

lemma vpage_bound: "vpage va < 1048576" "vpage va div 1024 < 1024" "vpage va mod 1024 < 1024"
proof -
  show "vpage va < 1048576"
    using unat_lt32 [of va] by (simp add: vpage_def div_less_iff_less_mult del: unat_lt32)
  then show "vpage va div 1024 < 1024" by (simp add: div_less_iff_less_mult)
qed simp

section \<open>Memory of tables\<close>

lemma slot_byte: "slot t j + of_nat b = t + of_nat (4 * j + b)"
  by (simp add: slot_def)

lemma slot_unat:
  assumes "aligned t" and "j < 1024" and "b < 4"
  shows "unat (slot t j + of_nat b) = unat t + 4 * j + b"
  unfolding slot_byte using assms(2,3) by (subst aligned_page_offset [OF assms(1)]) simp_all

lemma slot_in_page:
  assumes "aligned t" and "j < 1024" and "b < 4"
  shows "in_range t 4096 (slot t j + of_nat b)"
  unfolding slot_byte
  using assms(2,3) by (simp add: in_range_def unat_of_nat32 del: of_nat_add of_nat_mult)

lemma slot_outside_page:
  assumes "aligned t" and "aligned v" and "t \<noteq> v" and "j < 1024" and "b < 4"
  shows "\<not> in_range v 4096 (slot t j + of_nat b)"
  unfolding slot_byte using assms by (intro pages_disjoint) simp_all

lemma ld32_st32_slot:
  assumes "aligned t" and "aligned u" and "i < 1024" and "j < 1024"
  shows "ld32 (slot u j) (st32 (slot t i) w m) = (if t = u \<and> i = j then w else ld32 (slot u j) m)"
proof (cases "t = u \<and> i = j")
  case False
  have "slot u j + of_nat b \<noteq> slot t i + of_nat c" if bc: "b < 4" "c < 4" for b c
  proof (cases "t = u")
    case True
    then have "i \<noteq> j" using False by simp
    then have "4 * j + b \<noteq> 4 * i + c" using bc by presburger
    then show ?thesis
      using slot_unat [OF assms(2,4) bc(1)] slot_unat [OF assms(1,3) bc(2)] True by (intro neq_by_unat) simp
  next
    case False
    then show ?thesis
      using slot_in_page [OF assms(1,3) bc(2)] slot_outside_page [OF assms(2,1) _ assms(4) bc(1)] by auto
  qed
  note d = this
  have "st32 (slot t i) w m (slot u j + of_nat b) = m (slot u j + of_nat b)" if "b < 4" for b
    using d [OF that, of 0] d [OF that, of 1] d [OF that, of 2] d [OF that, of 3]
    by (simp add: st32_def)
  then have "ld32 (slot u j) (st32 (slot t i) w m) = ld32 (slot u j) m" by (rule ld32_frame)
  with False show ?thesis by auto
qed auto

lemma ld32_slot_frame:
  assumes "aligned u" and "j < 1024" and "\<And>x. in_range u 4096 x \<Longrightarrow> m' x = m x"
  shows "ld32 (slot u j) m' = ld32 (slot u j) m"
  using slot_in_page [OF assms(1,2)] assms(3) by (intro ld32_frame) blast

section \<open>A well-formed page directory\<close>

text \<open>The directory and its tables are allocated pages, all different; the allocator is sound.\<close>

definition pt_ok :: "'a kmem_state_scheme \<Rightarrow> u32 list \<Rightarrow> u32 \<Rightarrow> bool" where
  "pt_ok s vs pgdir \<longleftrightarrow> kmem_rep s vs \<and> page_ok (kend s) pgdir \<and> pgdir \<notin> set vs
     \<and> (\<forall>i < 1024. \<forall>t. tab (mem s) pgdir i = Some t \<longrightarrow>
          page_ok (kend s) t \<and> t \<notin> set vs \<and> t \<noteq> pgdir)
     \<and> (\<forall>i < 1024. \<forall>j < 1024. \<forall>t. tab (mem s) pgdir i = Some t \<longrightarrow> tab (mem s) pgdir j = Some t \<longrightarrow> i = j)"

lemma pt_okD:
  assumes "pt_ok s vs pgdir"
  shows "kmem_rep s vs" and "page_ok (kend s) pgdir" and "pgdir \<notin> set vs" and "aligned pgdir"
  using assms by (auto simp: pt_ok_def page_ok_def)

lemma pt_ok_tab:
  assumes "pt_ok s vs pgdir" and "i < 1024" and "tab (mem s) pgdir i = Some t"
  shows "page_ok (kend s) t" and "t \<notin> set vs" and "t \<noteq> pgdir" and "aligned t"
  using assms by (auto simp: pt_ok_def page_ok_def)

lemma pt_ok_tab_inj:
  assumes "pt_ok s vs pgdir" and "i < 1024" and "j < 1024"
    and "tab (mem s) pgdir i = Some t" and "tab (mem s) pgdir j = Some t"
  shows "i = j"
  using assms by (auto simp: pt_ok_def)

lemma aligned_V2P:
  assumes "aligned v"
  shows "aligned (V2P v)"
proof -
  have "unat (v - 0x80000000)
      = (if 0x80000000 \<le> unat v then unat v - 0x80000000 else unat v + 0x80000000)"
    by (simp add: unat_sub_if' word_le_nat_alt)
  moreover have "unat v mod 4096 = 0" using assms by (simp add: aligned_unat)
  moreover have "(x - 4096 * 524288) mod 4096 = x mod 4096" if "4096 * 524288 \<le> x" for x :: nat
    using that by (metis le_add_diff_inverse mod_mult_self2 add.commute)
  moreover have "(x + 4096 * 524288) mod 4096 = x mod 4096" for x :: nat
    by (rule mod_mult_self2)
  ultimately show ?thesis unfolding aligned_unat V2P_def by simp
qed

lemma P2V_V2P [simp]: "P2V (V2P v) = v" "V2P (P2V v) = v"
  by (simp_all add: P2V_def V2P_def)

lemma PTE_ADDR_or:
  assumes "aligned x" and "f AND NOT 0xFFF = 0"
  shows "PTE_ADDR (x OR f) = x"
proof -
  have t: "take_bit 12 x = 0" using assms(1) by (simp add: aligned_def take_bit_eq_mod)
  have m: "(0xFFF :: u32) = mask 12" by (simp add: mask_numeral)
  have x: "x AND NOT 0xFFF = x" unfolding m and_not_mask_sub t by simp
  show ?thesis using assms(2) x unfolding PTE_ADDR_def bit.conj_disj_distrib2 by (simp only: or.right_neutral)
qed

lemma present_bit:
  assumes "bit x 0"
  shows "x AND PTE_P \<noteq> 0"
proof -
  have "bit (x AND PTE_P) 0" using assms unfolding bit_and_iff by simp
  then show ?thesis by auto
qed

lemma present_or: "(x OR y OR PTE_P) AND PTE_P \<noteq> 0"
  by (rule present_bit) (simp add: bit_or_iff)

lemma pde_word:
  assumes "aligned v"
  shows "PTE_ADDR (V2P v OR 7) = V2P v" and "(V2P v OR 7) AND PTE_P \<noteq> 0"
proof -
  show "PTE_ADDR (V2P v OR 7) = V2P v" by (rule PTE_ADDR_or [OF aligned_V2P [OF assms]]) simp
  show "(V2P v OR 7) AND PTE_P \<noteq> 0" by (rule present_bit) (simp add: bit_or_iff)
qed

section \<open>Walking\<close>

lemma walk_present:
  assumes "tab (mem s) pgdir (vpage va div 1024) = Some t"
  shows "walkpgdir pgdir va alloc s = Inr (slot t (vpage va mod 1024), s)"
  using assms unfolding tab_def vpage_def
  by (simp add: walkpgdir_def Let_def slot_PDX slot_PTX split: if_splits)

lemma walk_absent:
  assumes "tab (mem s) pgdir (vpage va div 1024) = None"
  shows "walkpgdir pgdir va False s = Inr (0, s)"
  using assms unfolding tab_def vpage_def
  by (simp add: walkpgdir_def Let_def slot_PDX split: if_splits)

text \<open>A store into one page leaves the entries of every other page alone.\<close>

lemma tab_frame:
  assumes "aligned pgdir" and "i < 1024" and "\<And>x. in_range pgdir 4096 x \<Longrightarrow> m' x = m x"
  shows "tab m' pgdir i = tab m pgdir i"
  using ld32_slot_frame [OF assms] by (simp add: tab_def)

lemma page_store_frame:
  assumes "aligned t" and "aligned u" and "t \<noteq> u" and "in_range u 4096 x"
    and "\<And>y. \<not> in_range t 4096 y \<Longrightarrow> m' y = m y"
  shows "m' x = m x"
proof -
  have "\<not> in_range t 4096 x"
    using assms(1-4) by (metis aligned_unat in_page_iff div_mult_mod_eq add_0_right word_unat_eq_iff)
  then show ?thesis by (rule assms(5))
qed

lemma kmem_rep_frame:
  assumes "kmem_rep s vs" and "aligned t" and "t \<notin> set vs"
    and "\<And>y. \<not> in_range t 4096 y \<Longrightarrow> m' y = mem s y"
  shows "kmem_rep (s\<lparr>mem := m'\<rparr>) vs"
proof -
  have "flist m' (freelist s) vs = flist (mem s) (freelist s) vs"
  proof (rule flist_frame)
    fix v and i :: nat assume v: "v \<in> set vs" and i: "i < 4"
    have "\<not> in_range t 4096 (v + of_nat i)"
      using assms(1-3) v i by (intro pages_disjoint) (auto simp: kmem_rep_def page_ok_def)
    then show "m' (v + of_nat i) = mem s (v + of_nat i)" by (rule assms(4))
  qed
  with assms(1) show ?thesis by (simp add: kmem_rep_def)
qed

lemma st32_slot_outside:
  assumes "aligned t" and "j < 1024" and "\<not> in_range t 4096 x"
  shows "st32 (slot t j) w m x = m x"
  using slot_in_page [OF assms(1,2), of 0] slot_in_page [OF assms(1,2), of 1]
    slot_in_page [OF assms(1,2), of 2] slot_in_page [OF assms(1,2), of 3] assms(3)
  by (auto simp: st32_def)

lemma ld32_zeroed:
  assumes "aligned v" and "j < 1024"
  shows "ld32 (slot v j) (memset v 0 PGSIZE m) = 0"
  using slot_in_page [OF assms, of 0] slot_in_page [OF assms, of 1]
    slot_in_page [OF assms, of 2] slot_in_page [OF assms, of 3]
  by (simp add: ld32_def memset_fill le32_def)

text \<open>A missing table is allocated, zeroed and entered in the directory.\<close>

lemma walk_alloc:
  assumes ok: "pt_ok s (v # ws) pgdir" and no: "tab (mem s) pgdir (vpage va div 1024) = None"
  shows "\<exists>t. walkpgdir pgdir va True s = Inr (slot v (vpage va mod 1024), t) \<and> pt_ok t ws pgdir
    \<and> kend t = kend s \<and> held t = held s
    \<and> tab (mem t) pgdir (vpage va div 1024) = Some v
    \<and> (\<forall>p < 1048576. pte_of (mem t) pgdir p = pte_of (mem s) pgdir p)"
proof -
  let ?d = "vpage va div 1024"
  note d = vpage_bound [of va]
  obtain u where u: "kalloc s = Inr (v, u)" "kmem_rep u ws" "mem u = mem s" "held u = held s"
    "kend u = kend s"
    using kmem.alloc_rep [OF pt_okD(1) [OF ok]] kalloc_pops [OF pt_okD(1) [OF ok]] by auto
  have al: "aligned pgdir" "aligned v" "v \<noteq> pgdir" and v: "v \<noteq> 0" "page_ok (kend s) v" "v \<notin> set ws"
    using pt_okD [OF ok] page_ok_nonzero by (auto simp: kmem_rep_def page_ok_def)
  let ?m1 = "memset v 0 PGSIZE (mem s)"
  let ?m2 = "st32 (slot pgdir ?d) (V2P v OR 7) ?m1"
  have m1: "?m1 x = mem s x" if "\<not> in_range v 4096 x" for x using that by (simp add: memset_fill)
  have m2: "?m2 x = ?m1 x" if "\<not> in_range pgdir 4096 x" for x
    using st32_slot_outside [OF al(1) d(2) that] .
  have dir: "ld32 (slot pgdir j) ?m1 = ld32 (slot pgdir j) (mem s)" if "j < 1024" for j
    using page_store_frame [OF al(2,1,3) _ m1] that al(1) by (intro ld32_slot_frame) auto
  have tab2: "tab ?m2 pgdir j = (if j = ?d then Some v else tab (mem s) pgdir j)" if "j < 1024" for j
    using that d(2) al
    by (simp add: tab_def ld32_st32_slot dir pde_word Let_def)
  have zero: "ld32 (slot v j) ?m2 = 0" if "j < 1024" for j
    using that d(2) al by (simp add: ld32_st32_slot ld32_zeroed)
  have other: "ld32 (slot t j) ?m2 = ld32 (slot t j) (mem s)"
    if "aligned t" "t \<noteq> pgdir" "t \<noteq> v" "j < 1024" for t j
    using that d(2) al page_store_frame [OF al(2) that(1) that(3) [symmetric] _ m1]
    by (simp add: ld32_st32_slot) (intro ld32_slot_frame, auto)
  let ?t = "u\<lparr>mem := ?m2\<rparr>"
  have pte: "pte_of ?m2 pgdir p = pte_of (mem s) pgdir p" if p: "p < 1048576" for p
  proof -
    have b: "p div 1024 < 1024" using p by (simp add: div_less_iff_less_mult)
    show ?thesis
    proof (cases "tab (mem s) pgdir (p div 1024)")
      case None
      then show ?thesis using no by (simp add: pte_of_def tab2 [OF b] zero)
    next
      case (Some t)
      with no have "p div 1024 \<noteq> ?d" by auto
      moreover have "aligned t" "t \<noteq> pgdir" "t \<noteq> v" using pt_ok_tab [OF ok b Some] by auto
      ultimately show ?thesis using Some by (simp add: pte_of_def tab2 [OF b] other)
    qed
  qed
  have rep: "kmem_rep ?t ws"
  proof -
    have 1: "kmem_rep (u\<lparr>mem := ?m1\<rparr>) ws"
      using u m1 v al by (intro kmem_rep_frame [where t = v]) auto
    have "kmem_rep (u\<lparr>mem := ?m1, mem := ?m2\<rparr>) ws"
      by (rule kmem_rep_frame [OF 1 al(1)]) (use m2 pt_okD(3) [OF ok] in auto)
    then show ?thesis by simp
  qed
  have "pt_ok ?t ws pgdir"
    unfolding pt_ok_def using rep pt_okD [OF ok] pt_ok_tab [OF ok] pt_ok_tab_inj [OF ok] v al
    by (auto simp: tab2 u split: if_splits)
  moreover have "walkpgdir pgdir va True s = Inr (slot v (vpage va mod 1024), ?t)"
    using no u v unfolding tab_def vpage_def
    by (simp add: walkpgdir_def Let_def slot_PDX slot_PTX split: if_splits)
  ultimately show ?thesis using u pte tab2 [OF d(2)] by (intro exI [of _ ?t]) simp
qed

section \<open>Mapping\<close>

text \<open>Writing one entry of a table changes that page's entry and no other.\<close>

lemma set_pte:
  assumes ok: "pt_ok s vs pgdir" and t: "tab (mem s) pgdir (p div 1024) = Some t" and p: "p < 1048576"
    and m'_def: "m' = st32 (slot t (p mod 1024)) w (mem s)"
  shows "pt_ok (s\<lparr>mem := m'\<rparr>) vs pgdir"
    and "q < 1048576 \<Longrightarrow> pte_of m' pgdir q = (if q = p then w else pte_of (mem s) pgdir q)"
proof -
  have d: "p div 1024 < 1024" using p by (simp add: div_less_iff_less_mult)
  note t' = pt_ok_tab [OF ok d t]
  have al: "aligned pgdir" using pt_okD [OF ok] by simp
  have out: "m' x = mem s x" if "\<not> in_range t 4096 x" for x
    unfolding m'_def using t' that by (intro st32_slot_outside) auto
  have tab': "tab m' pgdir i = tab (mem s) pgdir i" if "i < 1024" for i
    using page_store_frame [OF t'(4) al t'(3) _ out] that al by (intro tab_frame) auto
  have "kmem_rep (s\<lparr>mem := m'\<rparr>) vs"
    using pt_okD(1) [OF ok] t' out by (intro kmem_rep_frame) auto
  then show "pt_ok (s\<lparr>mem := m'\<rparr>) vs pgdir"
    using ok by (simp add: pt_ok_def tab')
  assume q: "q < 1048576"
  then have dq: "q div 1024 < 1024" by (simp add: div_less_iff_less_mult)
  show "pte_of m' pgdir q = (if q = p then w else pte_of (mem s) pgdir q)"
  proof (cases "tab (mem s) pgdir (q div 1024)")
    case None
    then show ?thesis using t by (auto simp: pte_of_def tab' [OF dq])
  next
    case (Some u)
    have "aligned u" using pt_ok_tab [OF ok dq Some] by simp
    moreover have "q = p \<longleftrightarrow> t = u \<and> p mod 1024 = q mod 1024"
      using pt_ok_tab_inj [OF ok d dq t] Some t by (metis div_mult_mod_eq option.inject)
    moreover have "pte_of m' pgdir q = ld32 (slot u (q mod 1024)) m'"
      using Some by (simp add: pte_of_def tab' [OF dq])
    ultimately show ?thesis using Some t'(4)
      by (simp add: pte_of_def m'_def ld32_st32_slot)
  qed
qed

text \<open>\<open>walkpgdir(\<dots>, 1)\<close> in one statement.\<close>

lemma walk_ok:
  assumes ok: "pt_ok s vs pgdir"
  obtains (full) "vs = []" and "walkpgdir pgdir va True s = Inr (0, s)"
  | (entry) u ws t where "walkpgdir pgdir va True s = Inr (slot u (vpage va mod 1024), t)"
      and "pt_ok t ws pgdir" and "kend t = kend s" and "held t = held s" and "length vs \<le> Suc (length ws)"
      and "tab (mem t) pgdir (vpage va div 1024) = Some u"
      and "\<And>p. p < 1048576 \<Longrightarrow> pte_of (mem t) pgdir p = pte_of (mem s) pgdir p"
proof (cases "tab (mem s) pgdir (vpage va div 1024)")
  case None
  show thesis
  proof (cases vs)
    case Nil
    have "kalloc s = Inr (0, s)" using kalloc_pops [OF pt_okD(1) [OF ok]] Nil by auto
    then have "walkpgdir pgdir va True s = Inr (0, s)"
      using None unfolding tab_def vpage_def
      by (simp add: walkpgdir_def Let_def slot_PDX split: if_splits)
    then show thesis using full Nil by simp
  next
    case (Cons v ws)
    then show thesis using walk_alloc [OF ok [unfolded Cons] None] entry [of v _ ws] by auto
  qed
next
  case (Some u)
  then show thesis using walk_present [OF Some] ok entry [of u s vs] by simp
qed

lemma slot_nonzero: "page_ok k u \<Longrightarrow> j < 1024 \<Longrightarrow> slot u j \<noteq> 0"
proof -
  assume u: "page_ok k u" and j: "j < 1024"
  then have "unat (slot u j + of_nat 0) = unat u + 4 * j + 0"
    by (intro slot_unat) (auto simp: page_ok_def)
  moreover have "unat u \<noteq> 0" using page_ok_nonzero [OF u] by (simp add: unat_eq_0)
  ultimately show ?thesis by auto
qed

lemma vpage_add: "vpage va < 1048575 \<Longrightarrow> vpage (va + PGSIZE) = Suc (vpage va)"
proof -
  assume "vpage va < 1048575"
  then have "unat va < 4294963200" by (simp add: vpage_def div_less_iff_less_mult)
  then have "unat (va + PGSIZE) = unat va + 4096" by (subst unat_add32) auto
  then show ?thesis by (simp add: vpage_def)
qed

text \<open>The entry \<open>mappages\<close> installs for the \<open>i\<close>-th page.\<close>

definition map_pte :: "u32 \<Rightarrow> u32 \<Rightarrow> nat \<Rightarrow> u32" where
  "map_pte pa perm i = (pa + of_nat (4096 * i)) OR perm OR PTE_P"

lemma map_pte_0: "map_pte pa perm 0 = pa OR perm OR PTE_P"
  by (simp add: map_pte_def)

lemma map_pte_Suc: "map_pte (pa + PGSIZE) perm i = map_pte pa perm (Suc i)"
  by (simp add: map_pte_def algebra_simps)

definition mapped_range :: "memory \<Rightarrow> memory \<Rightarrow> u32 \<Rightarrow> nat \<Rightarrow> nat \<Rightarrow> u32 \<Rightarrow> u32 \<Rightarrow> bool" where
  "mapped_range m m' pgdir p k pa perm \<longleftrightarrow>
     (\<forall>q < 1048576. pte_of m' pgdir q =
        (if p \<le> q \<and> q < p + k then map_pte pa perm (q - p) else pte_of m pgdir q))"

lemma mapped_range_Suc:
  assumes "mapped_range m1 m2 pgdir (Suc p) k (pa + PGSIZE) perm"
    and "\<And>q. q < 1048576 \<Longrightarrow> pte_of m1 pgdir q = (if q = p then map_pte pa perm 0 else pte_of m pgdir q)"
  shows "mapped_range m m2 pgdir p (Suc k) pa perm"
proof -
  have "pte_of m2 pgdir q = (if p \<le> q \<and> q < p + Suc k then map_pte pa perm (q - p) else pte_of m pgdir q)"
    if q: "q < 1048576" for q
  proof (cases "Suc p \<le> q")
    case True
    then have "Suc (q - Suc p) = q - p" by simp
    then show ?thesis
      using assms(1) assms(2) [OF q] q True by (simp add: mapped_range_def map_pte_Suc)
  next
    case False
    then have "p \<le> q \<longleftrightarrow> q = p" by auto
    then show ?thesis
      using assms(1) assms(2) [OF q] q False by (simp add: mapped_range_def)
  qed
  then show ?thesis by (simp add: mapped_range_def)
qed

text \<open>One round of the loop: it fails without effect, or installs one entry.\<close>

lemma mappages_step:
  assumes ok: "pt_ok s vs pgdir" and va: "vpage a < 1048576"
    and new: "pte_of (mem s) pgdir (vpage a) AND PTE_P = 0"
  obtains (full) "vs = []" and "\<And>n. mappages_loop pgdir a n pa perm s = Inr (- 1, s)"
  | (entry) t ws where "\<And>n. mappages_loop pgdir a n pa perm s =
        (case n of 0 \<Rightarrow> Inr (0, t) | Suc n \<Rightarrow> mappages_loop pgdir (a + PGSIZE) n (pa + PGSIZE) perm t)"
      and "pt_ok t ws pgdir" and "kend t = kend s" and "held t = held s" and "length vs \<le> Suc (length ws)"
      and "\<And>q. q < 1048576 \<Longrightarrow>
            pte_of (mem t) pgdir q = (if q = vpage a then map_pte pa perm 0 else pte_of (mem s) pgdir q)"
  using ok
proof (cases rule: walk_ok [where va = a, consumes 1, case_names full entry])
  case full
  then show thesis using that(1) by (simp add: mappages_loop.simps)
next
  case (entry u ws t)
  note d = vpage_bound [of a]
  let ?m = "st32 (slot u (vpage a mod 1024)) (pa OR perm OR PTE_P) (mem t)"
  have pte: "ld32 (slot u (vpage a mod 1024)) (mem t) AND PTE_P = 0"
    using new entry(7) [OF va] entry(6) by (simp add: pte_of_def)
  have nz: "slot u (vpage a mod 1024) \<noteq> 0"
    using slot_nonzero pt_ok_tab(1) [OF entry(2) d(2) entry(6)] d(3) by blast
  show thesis
  proof (rule that(2) [of "t\<lparr>mem := ?m\<rparr>" ws])
    show "mappages_loop pgdir a n pa perm s =
        (case n of 0 \<Rightarrow> Inr (0, t\<lparr>mem := ?m\<rparr>)
         | Suc n \<Rightarrow> mappages_loop pgdir (a + PGSIZE) n (pa + PGSIZE) perm (t\<lparr>mem := ?m\<rparr>))" for n
      using entry(1) pte nz by (simp add: mappages_loop.simps [of pgdir a] Let_def)
    show "pt_ok (t\<lparr>mem := ?m\<rparr>) ws pgdir" by (rule set_pte(1) [OF entry(2,6) va refl])
    show "pte_of (mem (t\<lparr>mem := ?m\<rparr>)) pgdir q
        = (if q = vpage a then map_pte pa perm 0 else pte_of (mem s) pgdir q)" if "q < 1048576" for q
      using set_pte(2) [OF entry(2,6) va refl that] entry(7) [OF that] by (simp add: map_pte_0)
  qed (use entry in auto)
qed

lemma mappages_loop_ok:
  assumes "pt_ok s vs pgdir" and "vpage a + n < 1048576"
    and "\<And>q. vpage a \<le> q \<Longrightarrow> q \<le> vpage a + n \<Longrightarrow> pte_of (mem s) pgdir q AND PTE_P = 0"
  shows "\<exists>r t ws. mappages_loop pgdir a n pa perm s = Inr (r, t) \<and> pt_ok t ws pgdir
    \<and> kend t = kend s \<and> held t = held s
    \<and> (r = 0 \<and> mapped_range (mem s) (mem t) pgdir (vpage a) (Suc n) pa perm
       \<or> r = - 1 \<and> length vs \<le> n \<and> ws = []
         \<and> (\<exists>k \<le> n. mapped_range (mem s) (mem t) pgdir (vpage a) k pa perm))"
  using assms
proof (induction n arbitrary: s vs a pa)
  case 0
  have new: "pte_of (mem s) pgdir (vpage a) AND PTE_P = 0" using 0(3) [of "vpage a"] by simp
  from 0(1) vpage_bound(1) new show ?case
  proof (cases rule: mappages_step [where pa = pa and perm = perm, consumes 3, case_names full entry])
    case full
    with 0 show ?thesis by (auto simp: mapped_range_def)
  next
    case (entry t ws)
    then have "mapped_range (mem s) (mem t) pgdir (vpage a) (Suc 0) pa perm"
      by (auto simp: mapped_range_def)
    with entry show ?thesis by auto
  qed
next
  case (Suc n)
  have new: "pte_of (mem s) pgdir (vpage a) AND PTE_P = 0" using Suc(4) [of "vpage a"] by simp
  from Suc(2) vpage_bound(1) new show ?case
  proof (cases rule: mappages_step [where pa = pa and perm = perm, consumes 3, case_names full entry])
    case full
    with Suc show ?thesis by (auto simp: mapped_range_def)
  next
    case (entry t ws)
    have va: "vpage (a + PGSIZE) = Suc (vpage a)" using Suc(3) by (intro vpage_add) simp
    have "\<exists>r u ws'. mappages_loop pgdir (a + PGSIZE) n (pa + PGSIZE) perm t = Inr (r, u) \<and> pt_ok u ws' pgdir
      \<and> kend u = kend t \<and> held u = held t
      \<and> (r = 0 \<and> mapped_range (mem t) (mem u) pgdir (Suc (vpage a)) (Suc n) (pa + PGSIZE) perm
       \<or> r = - 1 \<and> length ws \<le> n \<and> ws' = []
         \<and> (\<exists>k \<le> n. mapped_range (mem t) (mem u) pgdir (Suc (vpage a)) k (pa + PGSIZE) perm))"
      using Suc.IH [OF entry(2), of "a + PGSIZE"] Suc.prems(2,3) entry(6) by (simp add: va)
    then obtain r u ws' where u: "mappages_loop pgdir (a + PGSIZE) n (pa + PGSIZE) perm t = Inr (r, u)"
      "pt_ok u ws' pgdir" "kend u = kend t" "held u = held t"
      and r: "r = 0 \<and> mapped_range (mem t) (mem u) pgdir (Suc (vpage a)) (Suc n) (pa + PGSIZE) perm
       \<or> r = - 1 \<and> length ws \<le> n \<and> ws' = []
         \<and> (\<exists>k \<le> n. mapped_range (mem t) (mem u) pgdir (Suc (vpage a)) k (pa + PGSIZE) perm)" by blast
    note ext = mapped_range_Suc [OF _ entry(6)]
    have "r = 0 \<and> mapped_range (mem s) (mem u) pgdir (vpage a) (Suc (Suc n)) pa perm
       \<or> r = - 1 \<and> length vs \<le> Suc n \<and> ws' = []
         \<and> (\<exists>k \<le> Suc n. mapped_range (mem s) (mem u) pgdir (vpage a) k pa perm)"
      using r entry(5) ext by (meson Suc_le_mono le_trans)
    with u entry(1-4) show ?thesis by auto
  qed
qed

lemma vpage_rounddown: "vpage (PGROUNDDOWN va) = vpage va"
  by (simp add: vpage_def unat_PGROUNDDOWN minus_mod_eq_mult_div)

lemma unat_page_gap:
  assumes "vpage a \<le> vpage b"
  shows "unat ((PGROUNDDOWN b - PGROUNDDOWN a) div PGSIZE) = vpage b - vpage a"
proof -
  have e: "unat (PGROUNDDOWN x) = 4096 * vpage x" for x
    by (simp add: unat_PGROUNDDOWN vpage_def minus_mod_eq_mult_div)
  have "PGROUNDDOWN a \<le> PGROUNDDOWN b" using assms by (simp add: word_le_nat_alt e)
  then have "unat (PGROUNDDOWN b - PGROUNDDOWN a) = 4096 * (vpage b - vpage a)"
    by (simp add: unat_sub32 e diff_mult_distrib2)
  then show ?thesis by (simp add: unat_div)
qed

text \<open>C21. \<open>mappages\<close> on a fresh range installs, for exactly the pages that meet \<open>va .. va+sz-1\<close>, the entries \<open>pa\<close>, \<open>pa+PGSIZE\<close>, \<dots> with the given permissions, leaves every other entry alone and keeps the table well formed; it fails only after using up every free page, and then has mapped a prefix of the range.\<close>

theorem mappages_maps:
  assumes "pt_ok s vs pgdir" and "0 < sz" and "unat va + unat sz \<le> 4294967296"
    and "\<And>q. vpage va \<le> q \<Longrightarrow> q \<le> vpage (va + sz - 1) \<Longrightarrow> pte_of (mem s) pgdir q AND PTE_P = 0"
  shows "\<exists>r t ws. mappages pgdir va sz pa perm s = Inr (r, t) \<and> pt_ok t ws pgdir
    \<and> kend t = kend s \<and> held t = held s
    \<and> (r = 0 \<and> mapped_range (mem s) (mem t) pgdir (vpage va) (Suc (vpage (va + sz - 1)) - vpage va) pa perm
       \<or> r = - 1 \<and> length vs \<le> vpage (va + sz - 1) - vpage va \<and> ws = []
         \<and> (\<exists>k \<le> vpage (va + sz - 1) - vpage va. mapped_range (mem s) (mem t) pgdir (vpage va) k pa perm))"
proof -
  have z: "0 < unat sz" using assms(2) by (simp add: word_less_nat_alt)
  have "va + sz - 1 = va + (sz - 1)" by simp
  moreover have "unat (sz - 1) = unat sz - 1" using z by (simp add: unat_sub32 word_le_nat_alt)
  ultimately have "unat (va + sz - 1) = unat va + (unat sz - 1)"
    using assms(3) z by (simp only:) (subst unat_add32, auto)
  then have le: "vpage va \<le> vpage (va + sz - 1)" by (simp add: vpage_def div_le_mono)
  then have n: "unat ((PGROUNDDOWN (va + sz - 1) - PGROUNDDOWN va) div PGSIZE) = vpage (va + sz - 1) - vpage va"
    by (rule unat_page_gap)
  show ?thesis
    unfolding mappages_def Let_def n
    using mappages_loop_ok [OF assms(1), of "PGROUNDDOWN va" "vpage (va + sz - 1) - vpage va" pa perm]
      assms(4) le vpage_bound(1) [of "va + sz - 1"]
    by (simp add: vpage_rounddown Suc_diff_le)
qed

text \<open>A machine with one free page and an empty page directory.\<close>

lemma pt0:
  obtains s :: kmem_state where "pt_ok s [0x80101000] 0x80100000"
    and "\<And>q. q < 1048576 \<Longrightarrow> pte_of (mem s) 0x80100000 q = 0" and "\<And>i. i < 1024 \<Longrightarrow> tab (mem s) 0x80100000 i = None"
proof -
  have ok: "page_ok (kend kmem0) 0x80101000" and al: "aligned 0x80101000" "aligned 0x80100000"
    by (simp_all add: page_ok_def aligned_unat kmem0_def V2P_def)
  obtain s :: kmem_state where s: "kmem_rep s [0x80101000]" "kend s = kend kmem0"
    "\<And>x. \<not> in_range 0x80101000 4096 x \<Longrightarrow> mem s x = mem kmem0 x"
    using kfree_pushes [OF kmem0_rep ok] by auto
  have "mem s x = mem kmem0 x" if "in_range 0x80100000 4096 x" for x
    using page_store_frame [OF al _ that s(3)] by simp
  then have "ld32 (slot 0x80100000 i) (mem s) = ld32 (slot 0x80100000 i) (mem kmem0)" if "i < 1024" for i
    using that al(2) by (intro ld32_slot_frame) auto
  then have tab: "tab (mem s) 0x80100000 i = None" if "i < 1024" for i
    using that by (simp add: tab_def kmem0_def ld32_def le32_def)
  moreover have "pte_of (mem s) 0x80100000 q = 0" if "q < 1048576" for q
    using tab [of "q div 1024"] that by (simp add: pte_of_def div_less_iff_less_mult)
  moreover have "pt_ok s [0x80101000] 0x80100000"
    using s kmem0_page by (simp add: pt_ok_def tab)
  ultimately show thesis using that by blast
qed

lemma mappages_maps_witness:
  "\<exists>(s :: kmem_state) t ws. mappages 0x80100000 0x1234 16 0x5000 PTE_U s = Inr (0, t) \<and> pt_ok t ws 0x80100000
     \<and> pte_of (mem t) 0x80100000 1 = 0x5005"
proof -
  obtain s :: kmem_state where s: "pt_ok s [0x80101000] 0x80100000"
    "\<And>q. q < 1048576 \<Longrightarrow> pte_of (mem s) 0x80100000 q = 0" by (rule pt0) blast
  have v: "vpage 0x1234 = 1" "vpage (0x1234 + 16 - 1) = 1" by (simp_all add: vpage_def)
  then have v': "vpage 0x1234 = 1" "vpage 0x1243 = 1" by simp_all
  obtain t ws where "mappages 0x80100000 0x1234 16 0x5000 PTE_U s = Inr (0, t)" "pt_ok t ws 0x80100000"
    "mapped_range (mem s) (mem t) 0x80100000 1 1 0x5000 PTE_U"
    using mappages_maps [OF s(1), where sz = 16 and va = "0x1234" and pa = "0x5000" and perm = 4] s(2) by (auto simp: v')
  moreover have "pte_of (mem t) 0x80100000 1 = 0x5005"
    using calculation(3) by (simp add: mapped_range_def map_pte_def)
  ultimately show ?thesis by blast
qed

section \<open>Copying out to user memory\<close>

lemma uva2ka_eq:
  assumes "pt_ok s vs pgdir"
  shows "uva2ka pgdir va s =
    (if tab (mem s) pgdir (vpage va div 1024) = None then Inl (Fault ''uva2ka: null pte'')
     else let e = pte_of (mem s) pgdir (vpage va) in
          Inr (if e AND PTE_P \<noteq> 0 \<and> e AND PTE_U \<noteq> 0 then P2V (PTE_ADDR e) else 0))"
proof (cases "tab (mem s) pgdir (vpage va div 1024)")
  case None
  then show ?thesis by (simp add: uva2ka_def walk_absent)
next
  case (Some t)
  note d = vpage_bound [of va]
  have "slot t (vpage va mod 1024) \<noteq> 0"
    using slot_nonzero [OF pt_ok_tab(1) [OF assms d(2) Some] d(3)] .
  then show ?thesis using Some by (simp add: uva2ka_def walk_present pte_of_def Let_def)
qed

text \<open>C39. \<open>copyout\<close> refuses, with -1 and no store, a destination whose first page is absent or closed to the user, but only when the page directory has a table there: where it has none, \<open>uva2ka\<close> dereferences the null entry \<open>walkpgdir\<close> returned.\<close>

theorem copyout_refuses:
  assumes "pt_ok s vs pgdir" and "buf \<noteq> []"
    and "let e = pte_of (mem s) pgdir (vpage va) in e AND PTE_P = 0 \<or> e AND PTE_U = 0"
  shows "copyout pgdir va buf s =
    (if tab (mem s) pgdir (vpage va div 1024) = None then Inl (Fault ''uva2ka: null pte'') else Inr (- 1, s))"
  using assms by (auto simp: copyout.simps [of pgdir va buf] uva2ka_eq vpage_rounddown Let_def)

lemma copyout_refuses_witness:
  "\<exists>s :: kmem_state. copyout 0x80100000 0x400000 [1, 2, 3, 4] s = Inl (Fault ''uva2ka: null pte'')"
proof -
  obtain s :: kmem_state where s: "pt_ok s [0x80101000] 0x80100000"
    "\<And>q. q < 1048576 \<Longrightarrow> pte_of (mem s) 0x80100000 q = 0" "\<And>i. i < 1024 \<Longrightarrow> tab (mem s) 0x80100000 i = None"
    by (rule pt0) blast
  then show ?thesis
    using copyout_refuses [OF s(1), where buf = "[1, 2, 3, 4]" and va = "0x400000"] vpage_bound [of "0x400000"] by auto
qed

end
