(* ===== verification/Xv6_VmFrame.thy ===== *)
theory Xv6_VmFrame
  imports Xv6_PageTable
begin

text \<open>
  What the memory routines leave alone: whatever they do to the memory, the free list and the
  list of held locks, every other field of a kernel state is as it was.
\<close>

definition only_memory :: "'a kmem_state_scheme \<Rightarrow> 'a kmem_state_scheme \<Rightarrow> bool" where
  "only_memory s t \<longleftrightarrow> kmem_state.more t = kmem_state.more s \<and> use_lock t = use_lock s \<and> kend t = kend s"

lemma only_memory_refl [simp]: "only_memory s s"
  by (simp add: only_memory_def)

lemma only_memory_trans: "only_memory s t \<Longrightarrow> only_memory t u \<Longrightarrow> only_memory s u"
  by (simp add: only_memory_def)

lemma only_memory_upd [simp]:
  "only_memory s (t\<lparr>mem := m\<rparr>) = only_memory s t"
  "only_memory s (t\<lparr>freelist := f\<rparr>) = only_memory s t"
  "only_memory s (t\<lparr>held := h\<rparr>) = only_memory s t"
  "only_memory (s\<lparr>mem := m\<rparr>) t = only_memory s t"
  "only_memory (s\<lparr>freelist := f\<rparr>) t = only_memory s t"
  "only_memory (s\<lparr>held := h\<rparr>) t = only_memory s t"
  by (simp_all add: only_memory_def)

text \<open>One rule per routine: started in a state that agrees with \<open>z\<close>, it returns in such a state.\<close>

lemma lock_if_wp [wpI]:
  "only_memory z s \<Longrightarrow> (\<And>t. only_memory z t \<Longrightarrow> Q t) \<Longrightarrow> wp (lock_if b l s) Q"
  by (auto simp: lock_if_def acquire_def)

lemma unlock_if_wp [wpI]:
  "only_memory z s \<Longrightarrow> (\<And>t. only_memory z t \<Longrightarrow> Q t) \<Longrightarrow> wp (unlock_if b l s) Q"
  by (auto simp: unlock_if_def release_def)

lemma kfree_wp [wpI]:
  "only_memory z s \<Longrightarrow> (\<And>t. only_memory z t \<Longrightarrow> Q t) \<Longrightarrow> wp (kfree v s) Q"
  unfolding kfree_def Let_def by (auto intro!: wpI)

lemma kalloc_wp [wpI]:
  "only_memory z s \<Longrightarrow> (\<And>r t. only_memory z t \<Longrightarrow> Q (r, t)) \<Longrightarrow> wp (kalloc s) Q"
  unfolding kalloc_def Let_def by (auto intro!: wpI)

lemma walkpgdir_wp [wpI]:
  "only_memory z s \<Longrightarrow> (\<And>r t. only_memory z t \<Longrightarrow> Q (r, t)) \<Longrightarrow> wp (walkpgdir pg va b s) Q"
  unfolding walkpgdir_def Let_def by (auto intro!: wpI)

lemma mappages_loop_wp [wpI]:
  "only_memory z s \<Longrightarrow> (\<And>r t. only_memory z t \<Longrightarrow> Q (r, t)) \<Longrightarrow> wp (mappages_loop pg a n pa perm s) Q"
proof (induction n arbitrary: a pa s)
  case 0
  show ?case using 0 by (subst mappages_loop.simps) (auto simp: Let_def intro!: wpI)
next
  case (Suc n)
  show ?case using Suc.prems by (subst mappages_loop.simps) (auto simp: Let_def intro!: wpI Suc.IH)
qed

lemma mappages_wp [wpI]:
  "only_memory z s \<Longrightarrow> (\<And>r t. only_memory z t \<Longrightarrow> Q (r, t)) \<Longrightarrow> wp (mappages pg va n pa perm s) Q"
  unfolding mappages_def Let_def by (auto intro!: wpI)

lemma dealloc_loop_wp [wpI]:
  "only_memory z s \<Longrightarrow> (\<And>t. only_memory z t \<Longrightarrow> Q t) \<Longrightarrow> wp (dealloc_loop pg a n s) Q"
proof (induction "4294967296 - unat a" arbitrary: a s rule: less_induct)
  case less
  have IH: "only_memory z u \<Longrightarrow> wp (dealloc_loop pg (dealloc_next p a) n u) Q"
    if "\<not> dealloc_next p a \<le> a" for p u
    using that less unat_lt32 [of "dealloc_next p a"] by (auto simp: word_le_nat_alt simp del: unat_lt32)
  show ?case using less.prems
    by (subst dealloc_loop.simps) (auto simp: Let_def intro!: wpI IH)
qed

lemma deallocuvm_wp [wpI]:
  "only_memory z s \<Longrightarrow> (\<And>r t. only_memory z t \<Longrightarrow> Q (r, t)) \<Longrightarrow> wp (deallocuvm pg a b s) Q"
  unfolding deallocuvm_def by (auto intro!: wpI)

lemma free_pde_wp [wpI]:
  "only_memory z s \<Longrightarrow> (\<And>t. only_memory z t \<Longrightarrow> Q t) \<Longrightarrow> wp (free_pde pg i s) Q"
  unfolding free_pde_def Let_def by (auto intro!: wpI)

lemma freevm_wp [wpI]:
  "only_memory z s \<Longrightarrow> (\<And>t. only_memory z t \<Longrightarrow> Q t) \<Longrightarrow> wp (freevm pg s) Q"
  unfolding freevm_def
  by (auto simp del: upt_Suc intro!: wpI wp_forE [where I = "only_memory z"])

lemma map_entries_wp [wpI]:
  "only_memory z s \<Longrightarrow> (\<And>r t. only_memory z t \<Longrightarrow> Q (r, t)) \<Longrightarrow> wp (map_entries pg ks s) Q"
  by (induction ks arbitrary: s) (auto intro!: wpI)

lemma setupkvm_wp [wpI]:
  "only_memory z s \<Longrightarrow> (\<And>r t. only_memory z t \<Longrightarrow> Q (r, t)) \<Longrightarrow> wp (setupkvm s) Q"
  unfolding setupkvm_def Let_def by (auto intro!: wpI)

lemma inituvm_wp [wpI]:
  "only_memory z s \<Longrightarrow> (\<And>t. only_memory z t \<Longrightarrow> Q t) \<Longrightarrow> wp (inituvm pg bs n s) Q"
  unfolding inituvm_def Let_def by (auto intro!: wpI)

lemma alloc_loop_wp [wpI]:
  "only_memory z s \<Longrightarrow> (\<And>r t. only_memory z t \<Longrightarrow> Q (r, t)) \<Longrightarrow> wp (alloc_loop pg old new as s) Q"
  by (induction as arbitrary: s) (auto simp: Let_def intro!: wpI)

lemma allocuvm_wp [wpI]:
  "only_memory z s \<Longrightarrow> (\<And>r t. only_memory z t \<Longrightarrow> Q (r, t)) \<Longrightarrow> wp (allocuvm pg old new s) Q"
  unfolding allocuvm_def by (auto intro!: wpI)

lemma copy_loop_wp [wpI]:
  "only_memory z s \<Longrightarrow> (\<And>r t. only_memory z t \<Longrightarrow> Q (r, t)) \<Longrightarrow> wp (copy_loop pg d as s) Q"
  by (induction as arbitrary: s) (auto simp: Let_def intro!: wpI)

lemma copyuvm_wp [wpI]:
  "only_memory z s \<Longrightarrow> (\<And>r t. only_memory z t \<Longrightarrow> Q (r, t)) \<Longrightarrow> wp (copyuvm pg n s) Q"
  unfolding copyuvm_def by (auto intro!: wpI)

lemma uva2ka_wp [wpI]: "(\<And>r. Q r) \<Longrightarrow> wp (uva2ka pg va s) Q"
  by (simp add: wp_def)

lemma copyout_wp [wpI]:
  "only_memory z s \<Longrightarrow> (\<And>r t. only_memory z t \<Longrightarrow> Q (r, t)) \<Longrightarrow> wp (copyout pg va buf s) Q"
proof (induction "length buf" arbitrary: va buf s rule: less_induct)
  case less
  let ?n = "min (unat (PGSIZE - (va - PGROUNDDOWN va))) (length buf)"
  have "wp (copyout pg (PGROUNDDOWN va + PGSIZE) (drop ?n buf) u) Q" if "buf \<noteq> []" "only_memory z u" for u
    using that less.prems page_left [of va] by (intro less.hyps) (auto simp: min_def)
  then show ?case using less.prems
    by (subst copyout.simps) (auto simp: Let_def intro!: wpI)
qed

end
