(* ===== verification/Xv6_Proc.thy ===== *)
theory Xv6_Proc
  imports Xv6_VmFrame
begin

text \<open>
  The process table (\<open>proc.c\<close>, \<open>proc.h\<close>): slots, states, sleeping and waking, the scheduler, and
  the calls that work on the table alone, the thread calls \<open>join\<close> and \<open>tkill\<close> among them.
  A \<open>struct proc*\<close> is the index of a slot, or \<open>None\<close> for the null pointer.
\<close>

section \<open>Data\<close>

datatype procstate = UNUSED | EMBRYO | SLEEPING | RUNNABLE | RUNNING | ZOMBIE

text \<open>The addresses the kernel sleeps on.\<close>

datatype chan =
    ChProc nat
  | ChLog
  | ChBuf nat
  | ChSleeplock lock
  | ChPipeR u32
  | ChPipeW u32
  | ChTicks
  | ChInput

record trapframe =
  tf_edi :: u32   tf_esi :: u32   tf_ebp :: u32   tf_oesp :: u32
  tf_ebx :: u32   tf_edx :: u32   tf_ecx :: u32   tf_eax :: u32
  tf_gs :: u16    tf_fs :: u16    tf_es :: u16    tf_ds :: u16
  tf_trapno :: u32
  tf_err :: u32   tf_eip :: u32   tf_cs :: u16    tf_eflags :: u32
  tf_esp :: u32   tf_ss :: u16

text \<open>
  The trap frame is kept as a record beside the slot (in C it lies at the top of the kernel
  stack); the saved context is memory at the address \<open>ctx\<close>. Open files and the current directory
  are indices into the file table and the inode cache.
\<close>

record proc =
  sz :: u32
  pgdir :: u32
  kstack :: u32
  state :: procstate
  pid :: i32
  parent :: "nat option"
  tf :: trapframe
  ctx :: u32
  chan :: "chan option"
  killed :: i32
  ofile :: "nat option list"
  cwd :: "nat option"
  pname :: bytes
  isthread :: i32
  ustack :: i32
  tid :: i32
  threadparent :: "nat option"
  ofileshare :: "nat option list"
  cwdshare :: "nat option list"
  joinproc :: "nat option"
  clone_files :: i32
  clone_fs :: i32
  clone_parent :: i32
  clone_vm :: i32
  clone_thread :: i32

abbreviation NPROC :: nat where "NPROC \<equiv> 64"
abbreviation NOFILE :: nat where "NOFILE \<equiv> 16"
abbreviation (input) KSTACKSIZE :: u32 where "KSTACKSIZE \<equiv> 4096"

text \<open>
  \<open>curproc\<close> is the \<open>proc\<close> field of the running processor, \<open>esp0\<close> the kernel stack in its task
  state; \<open>ktrapret\<close>, \<open>kforkret\<close> and \<open>kinitcode\<close> are the linker's symbols.
\<close>

record proc_state = vm_state +
  procs :: "proc list"
  nextpid :: i32
  curproc :: "nat option"
  initproc :: "nat option"
  esp0 :: u32
  ticks :: u32
  ktrapret :: u32
  kforkret :: u32
  kinitcode :: bytes

definition upd_proc :: "nat \<Rightarrow> (proc \<Rightarrow> proc) \<Rightarrow> 'a proc_state_scheme \<Rightarrow> 'a proc_state_scheme" where
  "upd_proc i f s = s\<lparr>procs := (procs s)[i := f (procs s ! i)]\<rparr>"

text \<open>\<open>myproc()\<close>, where the code goes on to read through the pointer.\<close>

definition myproc :: "'a proc_state_scheme \<Rightarrow> stop + nat" where
  "myproc s = (case curproc s of None \<Rightarrow> Inl (Fault ''null proc'') | Some me \<Rightarrow> Inr me)"

text \<open>What a call that may give up the processor comes back with.\<close>

datatype 'r run = Done 'r | Asleep

section \<open>Switching\<close>

definition switchuvm :: "nat option \<Rightarrow> 'a proc_state_scheme \<Rightarrow> stop + 'a proc_state_scheme" where
  "switchuvm p s =
     (case p of None \<Rightarrow> Inl (Panic ''switchuvm: no process'')
      | Some i \<Rightarrow>
          let q = procs s ! i in
          if kstack q = 0 then Inl (Panic ''switchuvm: no kstack'')
          else if pgdir q = 0 then Inl (Panic ''switchuvm: no pgdir'')
          else Inr (s\<lparr>esp0 := kstack q + KSTACKSIZE, cr3 := V2P (pgdir q)\<rparr>))"

text \<open>
  \<open>sched\<close> up to the switch to the scheduler. \<open>ncli\<close> counts the spin locks held; interrupts are
  off while it is positive.
\<close>

definition sched :: "'a proc_state_scheme \<Rightarrow> stop + 'a proc_state_scheme" where
  "sched s =
     bindE (myproc s) (\<lambda>me.
       if \<not> holding L_ptable s then Inl (Panic ''sched ptable.lock'')
       else if length (held s) \<noteq> 1 then Inl (Panic ''sched locks'')
       else if state (procs s ! me) = RUNNING then Inl (Panic ''sched running'')
       else Inr s)"

text \<open>The body of the scheduler's loop for slot \<open>i\<close>, before and after \<open>swtch\<close>.\<close>

definition scheduler_enter :: "nat \<Rightarrow> 'a proc_state_scheme \<Rightarrow> stop + 'a proc_state_scheme" where
  "scheduler_enter i s =
     (let s = s\<lparr>curproc := Some i\<rparr> in
      bindE (switchuvm (Some i) s) (\<lambda>s. Inr (upd_proc i (state_update (\<lambda>_. RUNNING)) s)))"

definition scheduler_leave :: "'a proc_state_scheme \<Rightarrow> 'a proc_state_scheme" where
  "scheduler_leave s = (switchkvm s)\<lparr>curproc := None\<rparr>"

text \<open>
  One pass over the table, with \<open>body i\<close> what process \<open>i\<close> does between the two switches.
\<close>

fun scheduler_pass :: "(nat \<Rightarrow> 'a proc_state_scheme \<Rightarrow> stop + 'a proc_state_scheme) \<Rightarrow> nat list \<Rightarrow>
    'a proc_state_scheme \<Rightarrow> stop + 'a proc_state_scheme" where
  "scheduler_pass body [] s = Inr s"
| "scheduler_pass body (i # is) s =
     (if state (procs s ! i) \<noteq> RUNNABLE then scheduler_pass body is s
      else bindE (scheduler_enter i s) (\<lambda>s.
           bindE (body i s) (\<lambda>s.
           scheduler_pass body is (scheduler_leave s))))"

definition scheduler_round :: "(nat \<Rightarrow> 'a proc_state_scheme \<Rightarrow> stop + 'a proc_state_scheme) \<Rightarrow>
    'a proc_state_scheme \<Rightarrow> stop + 'a proc_state_scheme" where
  "scheduler_round body s =
     bindE (acquire L_ptable s) (\<lambda>s.
     bindE (scheduler_pass body [0..<NPROC] s) (\<lambda>s.
     release L_ptable s))"

definition yield_enter :: "'a proc_state_scheme \<Rightarrow> stop + 'a proc_state_scheme" where
  "yield_enter s =
     bindE (acquire L_ptable s) (\<lambda>s.
     bindE (myproc s) (\<lambda>me.
     sched (upd_proc me (state_update (\<lambda>_. RUNNABLE)) s)))"

definition yield_leave :: "'a proc_state_scheme \<Rightarrow> stop + 'a proc_state_scheme" where
  "yield_leave s = release L_ptable s"

section \<open>Sleeping and waking\<close>

definition sleep_enter :: "chan \<Rightarrow> lock \<Rightarrow> 'a proc_state_scheme \<Rightarrow> stop + 'a proc_state_scheme" where
  "sleep_enter ch lk s =
     (case curproc s of None \<Rightarrow> Inl (Panic ''sleep'')
      | Some me \<Rightarrow>
          bindE (if lk \<noteq> L_ptable then bindE (acquire L_ptable s) (release lk) else Inr s) (\<lambda>s.
          sched (upd_proc me (\<lambda>p. p\<lparr>chan := Some ch, state := SLEEPING\<rparr>) s)))"

definition sleep_leave :: "lock \<Rightarrow> 'a proc_state_scheme \<Rightarrow> stop + 'a proc_state_scheme" where
  "sleep_leave lk s =
     bindE (myproc s) (\<lambda>me.
       let s = upd_proc me (chan_update (\<lambda>_. None)) s in
       if lk \<noteq> L_ptable then bindE (release L_ptable s) (acquire lk) else Inr s)"

text \<open>With nothing but \<open>lk\<close> held, the caller ends up asleep on the channel, the table locked.\<close>

lemma sleep_enter_eq:
  assumes "curproc s = Some me" and "me < length (procs s)" and "held s = [lk]"
  shows "sleep_enter ch lk s = Inr (s\<lparr>held := [L_ptable],
    procs := (procs s)[me := (procs s ! me)\<lparr>chan := Some ch, state := SLEEPING\<rparr>]\<rparr>)"
  using assms
  by (simp add: sleep_enter_def acquire_def release_def sched_def myproc_def holding_def upd_proc_def)

definition wake :: "chan \<Rightarrow> proc \<Rightarrow> proc" where
  "wake ch p = (if state p = SLEEPING \<and> chan p = Some ch then p\<lparr>state := RUNNABLE\<rparr> else p)"

definition wakeup1 :: "chan \<Rightarrow> 'a proc_state_scheme \<Rightarrow> 'a proc_state_scheme" where
  "wakeup1 ch s = s\<lparr>procs := map (wake ch) (procs s)\<rparr>"

definition wakeup :: "chan \<Rightarrow> 'a proc_state_scheme \<Rightarrow> stop + 'a proc_state_scheme" where
  "wakeup ch s = bindE (acquire L_ptable s) (\<lambda>s. release L_ptable (wakeup1 ch s))"

section \<open>Allocating a slot\<close>

fun find_slot :: "('p \<Rightarrow> bool) \<Rightarrow> 'p list \<Rightarrow> nat option" where
  "find_slot P [] = None"
| "find_slot P (p # ps) = (if P p then Some 0 else map_option Suc (find_slot P ps))"

definition allocproc :: "'a proc_state_scheme \<Rightarrow> stop + (nat option \<times> 'a proc_state_scheme)" where
  "allocproc s =
     bindE (acquire L_ptable s) (\<lambda>s.
     case find_slot (\<lambda>p. state p = UNUSED) (procs s) of
       None \<Rightarrow> bindE (release L_ptable s) (\<lambda>s. Inr (None, s))
     | Some i \<Rightarrow>
         let s = upd_proc i (\<lambda>p. p\<lparr>state := EMBRYO, pid := nextpid s\<rparr>) s;
             s = s\<lparr>nextpid := nextpid s + 1\<rparr> in
         bindE (release L_ptable s) (\<lambda>s.
         bindE (kalloc s) (\<lambda>(ks, s).
           let s = upd_proc i (kstack_update (\<lambda>_. ks)) s in
           if ks = 0 then Inr (None, upd_proc i (state_update (\<lambda>_. UNUSED)) s)
           else
             let sp = ks + KSTACKSIZE - 76;
                 sp = sp - 4;
                 s = s\<lparr>mem := st32 sp (ktrapret s) (mem s)\<rparr>;
                 sp = sp - 20;
                 s = s\<lparr>mem := st32 (sp + 16) (kforkret s) (memset sp 0 20 (mem s))\<rparr>
             in Inr (Some i, upd_proc i (ctx_update (\<lambda>_. sp)) s))))"

definition growproc :: "i32 \<Rightarrow> 'a proc_state_scheme \<Rightarrow> stop + (i32 \<times> 'a proc_state_scheme)" where
  "growproc n s =
     bindE (myproc s) (\<lambda>me.
       let p = procs s ! me in
       bindE (if sint n > 0 then allocuvm (pgdir p) (sz p) (sz p + n) s
              else if sint n < 0 then deallocuvm (pgdir p) (sz p) (sz p + n) s
              else Inr (sz p, s)) (\<lambda>(r, s).
         if n \<noteq> 0 \<and> r = 0 then Inr (- 1, s)
         else bindE (switchuvm (Some me) (upd_proc me (sz_update (\<lambda>_. r)) s)) (\<lambda>s. Inr (0, s))))"

section \<open>Waiting for children and threads\<close>

text \<open>
  The scan of \<open>wait\<close> over the slots: the pid it reaped, if any, and whether there are children.
\<close>

definition reap_child :: "nat \<Rightarrow> 'a proc_state_scheme \<Rightarrow> stop + 'a proc_state_scheme" where
  "reap_child i s =
     bindE (kfree (kstack (procs s ! i)) s) (\<lambda>s.
     let s = upd_proc i (kstack_update (\<lambda>_. 0)) s in
     bindE (freevm (pgdir (procs s ! i)) s) (\<lambda>s.
     Inr (upd_proc i (\<lambda>p. p\<lparr>pid := 0, parent := None, pname := (pname p)[0 := 0], killed := 0,
       isthread := 0, tid := 0, ustack := 0, state := UNUSED\<rparr>) s)))"

fun wait_scan :: "nat \<Rightarrow> nat list \<Rightarrow> bool \<Rightarrow> 'a proc_state_scheme \<Rightarrow>
    stop + ((i32 option \<times> bool) \<times> 'a proc_state_scheme)" where
  "wait_scan me [] kids s = Inr ((None, kids), s)"
| "wait_scan me (i # is) kids s =
     (let p = procs s ! i; c = procs s ! me in
      if parent p \<noteq> Some me then wait_scan me is kids s
      else if isthread p = 1 then wait_scan me is kids s
      else if isthread c = 1 \<and> pid (procs s ! the (parent p)) \<noteq> pid c then wait_scan me is kids s
      else if state p = ZOMBIE then
        bindE (reap_child i s) (\<lambda>s. Inr ((Some (pid p), True), s))
      else wait_scan me is True s)"

text \<open>One round of the loop of \<open>wait\<close>, entered with the table locked.\<close>

definition wait_round :: "'a proc_state_scheme \<Rightarrow> stop + (i32 run \<times> 'a proc_state_scheme)" where
  "wait_round s =
     bindE (myproc s) (\<lambda>me.
     bindE (wait_scan me [0..<NPROC] False s) (\<lambda>((r, kids), s).
       case r of Some q \<Rightarrow> bindE (release L_ptable s) (\<lambda>s. Inr (Done q, s))
       | None \<Rightarrow>
           if \<not> kids \<or> killed (procs s ! me) \<noteq> 0
           then bindE (release L_ptable s) (\<lambda>s. Inr (Done (- 1), s))
           else bindE (sleep_enter (ChProc me) L_ptable s) (\<lambda>s. Inr (Asleep, s))))"

definition wait :: "'a proc_state_scheme \<Rightarrow> stop + (i32 run \<times> 'a proc_state_scheme)" where
  "wait s = bindE (acquire L_ptable s) wait_round"

definition wait_resume :: "'a proc_state_scheme \<Rightarrow> stop + (i32 run \<times> 'a proc_state_scheme)" where
  "wait_resume s = bindE (sleep_leave L_ptable s) wait_round"

text \<open>
  \<open>join\<close>. Its local \<open>found\<close> is only assigned when the caller is a thread; its value before that
  is indeterminate in C, so it is an argument here.
\<close>

definition reap_thread :: "nat \<Rightarrow> 'a proc_state_scheme \<Rightarrow> stop + 'a proc_state_scheme" where
  "reap_thread i s =
     bindE (kfree (kstack (procs s ! i)) s) (\<lambda>s.
     let s = upd_proc i (kstack_update (\<lambda>_. 0)) s in
     bindE (if clone_vm (procs s ! i) = 0 then freevm (pgdir (procs s ! i)) s else Inr s) (\<lambda>s.
     Inr (upd_proc i (\<lambda>p. p\<lparr>pid := 0, parent := None, pname := (pname p)[0 := 0], killed := 0,
       state := UNUSED\<rparr>) s)))"

fun join_scan :: "nat \<Rightarrow> i32 \<Rightarrow> nat list \<Rightarrow> bool \<Rightarrow> nat option \<Rightarrow> 'a proc_state_scheme \<Rightarrow>
    stop + ((i32 option \<times> bool \<times> nat option) \<times> 'a proc_state_scheme)" where
  "join_scan me t [] kids found s = Inr ((None, kids, found), s)"
| "join_scan me t (i # is) kids found s =
     (let p = procs s ! i; c = procs s ! me in
      if tid p \<noteq> t \<or> isthread p = 0 then join_scan me t is kids found s
      else if isthread c = 1 \<and> pid p \<noteq> pid c \<and> parent p \<noteq> Some me \<and> threadparent p \<noteq> Some me
      then Inr ((Some (- 1), kids, Some i), s)
      else if isthread c \<noteq> 1 \<and> parent p \<noteq> Some me then Inr ((Some (- 1), kids, found), s)
      else
        let found = (if isthread c = 1 then Some i else found) in
        if state p = ZOMBIE then bindE (reap_thread i s) (\<lambda>s. Inr ((Some (tid p), True, found), s))
        else join_scan me t is True found s)"

definition join_round :: "i32 \<Rightarrow> nat option \<Rightarrow> 'a proc_state_scheme \<Rightarrow>
    stop + ((i32 run \<times> nat option) \<times> 'a proc_state_scheme)" where
  "join_round t found s =
     bindE (myproc s) (\<lambda>me.
     bindE (join_scan me t [0..<NPROC] False found s) (\<lambda>((r, kids, found), s).
       case r of Some q \<Rightarrow> bindE (release L_ptable s) (\<lambda>s. Inr ((Done q, found), s))
       | None \<Rightarrow>
           if \<not> kids \<or> killed (procs s ! me) \<noteq> 0
           then bindE (release L_ptable s) (\<lambda>s. Inr ((Done (- 1), found), s))
           else
             let s = upd_proc me (joinproc_update (\<lambda>_. found)) s in
             bindE (sleep_enter (ChProc me) L_ptable s) (\<lambda>s. Inr ((Asleep, found), s))))"

definition join :: "i32 \<Rightarrow> nat option \<Rightarrow> 'a proc_state_scheme \<Rightarrow>
    stop + ((i32 run \<times> nat option) \<times> 'a proc_state_scheme)" where
  "join t found s = bindE (acquire L_ptable s) (join_round t found)"

definition join_resume :: "i32 \<Rightarrow> nat option \<Rightarrow> 'a proc_state_scheme \<Rightarrow>
    stop + ((i32 run \<times> nat option) \<times> 'a proc_state_scheme)" where
  "join_resume t found s = bindE (sleep_leave L_ptable s) (join_round t found)"

section \<open>Killing\<close>

definition mark_killed :: "proc \<Rightarrow> proc" where
  "mark_killed p = p\<lparr>killed := 1, state := (if state p = SLEEPING then RUNNABLE else state p)\<rparr>"

definition tkill :: "i32 \<Rightarrow> 'a proc_state_scheme \<Rightarrow> stop + (i32 \<times> 'a proc_state_scheme)" where
  "tkill t s =
     bindE (acquire L_ptable s) (\<lambda>s.
     case find_slot (\<lambda>p. tid p = t \<and> isthread p = 1) (procs s) of
       Some i \<Rightarrow> bindE (release L_ptable (upd_proc i mark_killed s)) (\<lambda>s. Inr (0, s))
     | None \<Rightarrow> bindE (release L_ptable s) (\<lambda>s. Inr (- 1, s)))"

text \<open>The inner loop of \<open>kill\<close> and of \<open>exit\<close> over the threads of a process.\<close>

definition kill_threads :: "nat \<Rightarrow> 'a proc_state_scheme \<Rightarrow> 'a proc_state_scheme" where
  "kill_threads i s =
     s\<lparr>procs := map (\<lambda>q. if isthread q = 1 \<and> parent q = Some i then mark_killed q else q) (procs s)\<rparr>"

definition kill :: "i32 \<Rightarrow> 'a proc_state_scheme \<Rightarrow> stop + (i32 \<times> 'a proc_state_scheme)" where
  "kill t s =
     bindE (acquire L_ptable s) (\<lambda>s.
     case find_slot (\<lambda>p. pid p = t) (procs s) of
       Some i \<Rightarrow>
         let s = upd_proc i (killed_update (\<lambda>_. 1)) s;
             s = (if isthread (procs s ! i) = 0 then kill_threads i s else s);
             s = upd_proc i (\<lambda>p. if state p = SLEEPING then p\<lparr>state := RUNNABLE\<rparr> else p) s
         in bindE (release L_ptable s) (\<lambda>s. Inr (0, s))
     | None \<Rightarrow> bindE (release L_ptable s) (\<lambda>s. Inr (- 1, s)))"

end
