(* ===== verification/Xv6_ProcSpec.thy ===== *)
theory Xv6_ProcSpec
  imports Xv6_Proc
begin

text \<open>
  What the calls on the process table do: waiting, joining and killing as searches of the table,
  allocation of a slot, and the order in which the scheduler runs processes.
\<close>

section \<open>Searching the table\<close>

lemma find_slot_Some:
  "find_slot P ps = Some i \<longleftrightarrow> i < length ps \<and> P (ps ! i) \<and> (\<forall>j < i. \<not> P (ps ! j))"
proof (induction ps arbitrary: i)
  case (Cons p ps)
  show ?case
  proof (cases "P p")
    case True
    then show ?thesis by (cases i) auto
  next
    case False
    then show ?thesis
    proof (cases i)
      case (Suc k)
      have "(\<forall>j < Suc k. \<not> P ((p # ps) ! j)) \<longleftrightarrow> (\<forall>j < k. \<not> P (ps ! j))"
        using False by (auto simp: less_Suc_eq_0_disj)
      then show ?thesis using Suc False Cons.IH by auto
    qed auto
  qed
qed simp

lemma find_slot_None: "find_slot P ps = None \<longleftrightarrow> (\<forall>i < length ps. \<not> P (ps ! i))"
  by (induction ps) (auto simp: nth_Cons split: nat.splits)

lemma find_slot_length: "find_slot P ps = Some i \<Longrightarrow> i < length ps"
  by (simp add: find_slot_Some)

text \<open>The same search, over the slots from \<open>k\<close> on, as the scans of the code make it.\<close>

lemma find_slot_drop:
  assumes "k < length ps"
  shows "map_option (\<lambda>i. i + k) (find_slot P (drop k ps)) =
    (if P (ps ! k) then Some k else map_option (\<lambda>i. i + Suc k) (find_slot P (drop (Suc k) ps)))"
  using assms by (auto simp: Cons_nth_drop_Suc [symmetric] option.map_comp comp_def)

lemma upd_proc_simps [simp]:
  "procs (upd_proc i f s) = (procs s)[i := f (procs s ! i)]"
  "held (upd_proc i f s) = held s" "curproc (upd_proc i f s) = curproc s"
  "mem (upd_proc i f s) = mem s" "freelist (upd_proc i f s) = freelist s"
  "kend (upd_proc i f s) = kend s" "nextpid (upd_proc i f s) = nextpid s"
  by (simp_all add: upd_proc_def)

section \<open>Waiting\<close>

text \<open>The children \<open>wait\<close> looks at: processes, not threads, whose parent is the caller.\<close>

definition child :: "nat \<Rightarrow> proc \<Rightarrow> bool" where
  "child me p \<longleftrightarrow> parent p = Some me \<and> isthread p \<noteq> 1"

definition zombie_child :: "nat \<Rightarrow> proc \<Rightarrow> bool" where
  "zombie_child me p \<longleftrightarrow> child me p \<and> state p = ZOMBIE"

lemma wait_scan_eq:
  assumes "length (procs s) = n" and "k \<le> n"
  shows "wait_scan me [k..<n] kids s =
    (case map_option (\<lambda>i. i + k) (find_slot (zombie_child me) (drop k (procs s))) of
       None \<Rightarrow> Inr ((None, kids \<or> (\<exists>i < n. k \<le> i \<and> child me (procs s ! i))), s)
     | Some i \<Rightarrow> bindE (reap_child i s) (\<lambda>t. Inr ((Some (pid (procs s ! i)), True), t)))"
  using assms(2)
proof (induction "n - k" arbitrary: k kids)
  case 0
  then show ?case using assms(1) by auto
next
  case (Suc m)
  then have k: "k < n" by simp
  have cut: "k \<le> i \<longleftrightarrow> i = k \<or> Suc k \<le> i" for i by auto
  have step: "(\<exists>i < n. k \<le> i \<and> child me (procs s ! i)) \<longleftrightarrow>
      child me (procs s ! k) \<or> (\<exists>i < n. Suc k \<le> i \<and> child me (procs s ! i))"
    using k by (auto simp: cut)
  have rest: "wait_scan me [Suc k..<n] kids' s =
    (case map_option (\<lambda>i. i + Suc k) (find_slot (zombie_child me) (drop (Suc k) (procs s))) of
       None \<Rightarrow> Inr ((None, kids' \<or> (\<exists>i < n. Suc k \<le> i \<and> child me (procs s ! i))), s)
     | Some i \<Rightarrow> bindE (reap_child i s) (\<lambda>t. Inr ((Some (pid (procs s ! i)), True), t)))" for kids'
    using Suc by (intro Suc.hyps) simp_all
  have one: "wait_scan me (k # [Suc k..<n]) kids s =
    (if zombie_child me (procs s ! k)
     then bindE (reap_child k s) (\<lambda>t. Inr ((Some (pid (procs s ! k)), True), t))
     else wait_scan me [Suc k..<n] (kids \<or> child me (procs s ! k)) s)"
    by (auto simp: Let_def child_def zombie_child_def)
  show ?case
    unfolding upt_conv_Cons [OF k] find_slot_drop [OF k [folded assms(1)]] step one rest
    by (cases "zombie_child me (procs s ! k)") (simp_all only: if_True if_False option.case disj_assoc)
qed

text \<open>C22. \<open>wait\<close> reaps the first slot that is a zombie child process of the caller and returns its pid; with no such slot it returns -1 at once when the caller has no child process or has been killed, and otherwise goes to sleep on its own slot with the table still locked, so that no exit can come between its scan and its sleep.\<close>

theorem wait_spec:
  assumes "length (procs s) = NPROC" and "curproc s = Some me" and "me < NPROC" and "held s = []"
  shows "wait s =
    (case find_slot (zombie_child me) (procs s) of
       Some i \<Rightarrow> bindE (reap_child i (s\<lparr>held := [L_ptable]\<rparr>)) (\<lambda>t.
                  bindE (release L_ptable t) (\<lambda>t. Inr (Done (pid (procs s ! i)), t)))
     | None \<Rightarrow>
         if (\<forall>i < NPROC. \<not> child me (procs s ! i)) \<or> killed (procs s ! me) \<noteq> 0 then Inr (Done (- 1), s)
         else Inr (Asleep, s\<lparr>held := [L_ptable],
           procs := (procs s)[me := (procs s ! me)\<lparr>chan := Some (ChProc me), state := SLEEPING\<rparr>]\<rparr>))"
proof -
  let ?s = "s\<lparr>held := [L_ptable]\<rparr>"
  have acq: "acquire L_ptable s = Inr ?s" using assms(4) by (simp add: acquire_ok)
  have id: "(\<lambda>i. i + (0::nat)) = id" by auto
  have same: "?s\<lparr>held := []\<rparr> = s" using assms(4) by simp
  show ?thesis
    using wait_scan_eq [of ?s NPROC 0 me False] assms same
    by (auto simp: wait_def acq wait_round_def myproc_def id option.map_id release_ok sleep_enter_def
        sched_def holding_def upd_proc_def bindE_assoc bindE_Inr_iff split: option.splits intro!: bindE_cong)
qed

text \<open>A slot that never held a process, and a small table for the witnesses.\<close>

definition tf0 :: trapframe where
  "tf0 = \<lparr>tf_edi = 0, tf_esi = 0, tf_ebp = 0, tf_oesp = 0, tf_ebx = 0, tf_edx = 0, tf_ecx = 0, tf_eax = 0,
    tf_gs = 0, tf_fs = 0, tf_es = 0, tf_ds = 0, tf_trapno = 0, tf_err = 0, tf_eip = 0, tf_cs = 0,
    tf_eflags = 0, tf_esp = 0, tf_ss = 0\<rparr>"

definition proc0 :: proc where
  "proc0 = \<lparr>sz = 0, pgdir = 0, kstack = 0, state = UNUSED, pid = 0, parent = None, tf = tf0, ctx = 0,
    chan = None, killed = 0, ofile = replicate NOFILE None, cwd = None, pname = replicate 16 0,
    isthread = 0, ustack = 0, tid = 0, threadparent = None, ofileshare = replicate NPROC None,
    cwdshare = replicate NPROC None, joinproc = None, clone_files = 0, clone_fs = 0, clone_parent = 0,
    clone_vm = 0, clone_thread = 0\<rparr>"

definition machine0 :: "proc list \<Rightarrow> nat option \<Rightarrow> proc_state" where
  "machine0 ps me =
    \<lparr>held = [], mem = (\<lambda>_. 0), freelist = 0, use_lock = True, kend = 0x80100000,
     kpgdir = 0, kdata = 0x80108000, cr3 = 0,
     procs = ps @ replicate (NPROC - length ps) proc0, nextpid = 10, curproc = me, initproc = Some 0,
     esp0 = 0, ticks = 0, ktrapret = 0, kforkret = 0, kinitcode = []\<rparr>"

lemma machine0_sel [simp]:
  "held (machine0 ps me) = []" "curproc (machine0 ps me) = me"
  "procs (machine0 ps me) = ps @ replicate (NPROC - length ps) proc0"
  by (simp_all add: machine0_def)

text \<open>The parent of a sleeping child and of a zombie thread sleeps: threads are not waited for.\<close>

lemma wait_spec_witness:
  "\<exists>t. wait (machine0 [proc0\<lparr>state := RUNNING, pid := 1\<rparr>,
      proc0\<lparr>state := ZOMBIE, pid := 1, tid := 2, isthread := 1, parent := Some 0\<rparr>,
      proc0\<lparr>state := SLEEPING, pid := 3, parent := Some 0\<rparr>] (Some 0)) = Inr (Asleep, t)
    \<and> state (procs t ! 0) = SLEEPING"
proof -
  let ?s = "machine0 [proc0\<lparr>state := RUNNING, pid := 1\<rparr>,
      proc0\<lparr>state := ZOMBIE, pid := 1, tid := 2, isthread := 1, parent := Some 0\<rparr>,
      proc0\<lparr>state := SLEEPING, pid := 3, parent := Some 0\<rparr>] (Some 0)"
  define u where "u = ?s"
  have free: "find_slot (zombie_child 0) (replicate n proc0) = None" for n
    by (induction n) (simp_all add: zombie_child_def child_def proc0_def)
  then have u: "find_slot (zombie_child 0) (procs u) = None" "length (procs u) = NPROC" "held u = []"
    "curproc u = Some 0" "child 0 (procs u ! 2)" "killed (procs u ! 0) = 0"
    unfolding u_def by (simp_all add: zombie_child_def child_def proc0_def)
  then have "\<not> ((\<forall>i < NPROC. \<not> child 0 (procs u ! i)) \<or> killed (procs u ! 0) \<noteq> 0)" by fastforce
  then have "wait u = Inr (Asleep, u\<lparr>held := [L_ptable],
      procs := (procs u)[0 := (procs u ! 0)\<lparr>chan := Some (ChProc 0), state := SLEEPING\<rparr>]\<rparr>)"
    using wait_spec [OF u(2,4) _ u(3)] u(1) by simp
  then show ?thesis using u(2) unfolding u_def [symmetric] by simp
qed

section \<open>Killing\<close>

text \<open>\<open>kill(pid)\<close> acts on the first slot with that pid only: it is marked killed and no longer sleeps, its threads likewise when it is a process, and every other slot is untouched; it returns -1 and changes nothing exactly when no slot has the pid.\<close>

theorem kill_spec:
  assumes "L_ptable \<notin> set (held s)"
  shows "\<exists>r t. kill q s = Inr (r, t) \<and> held t = held s \<and> length (procs t) = length (procs s)
    \<and> (case find_slot (\<lambda>p. pid p = q) (procs s) of
         None \<Rightarrow> r = - 1 \<and> t = s
       | Some i \<Rightarrow> r = 0 \<and> killed (procs t ! i) = 1 \<and> state (procs t ! i) \<noteq> SLEEPING
           \<and> (\<forall>j < length (procs s). j \<noteq> i \<longrightarrow> procs t ! j =
                (if isthread (procs s ! i) = 0 \<and> isthread (procs s ! j) = 1 \<and> parent (procs s ! j) = Some i
                 then mark_killed (procs s ! j) else procs s ! j)))"
proof (cases "find_slot (\<lambda>p. pid p = q) (procs s)")
  case None
  then show ?thesis using assms by (simp add: kill_def acquire_ok release_ok)
next
  case (Some i)
  then have i: "i < length (procs s)" by (simp add: find_slot_Some)
  then show ?thesis using assms Some
    by (auto simp: kill_def acquire_ok release_ok Let_def kill_threads_def mark_killed_def
        upd_proc_def nth_list_update)
qed

lemma kill_spec_witness:
  "\<exists>r t. kill 2 (machine0 [proc0\<lparr>state := SLEEPING, pid := 2\<rparr>,
      proc0\<lparr>state := SLEEPING, pid := 2, tid := 3, isthread := 1, parent := Some 0\<rparr>] None) = Inr (r, t)
    \<and> r = 0 \<and> killed (procs t ! 1) = 1 \<and> state (procs t ! 1) = RUNNABLE"
proof -
  let ?s = "machine0 [proc0\<lparr>state := SLEEPING, pid := 2\<rparr>,
      proc0\<lparr>state := SLEEPING, pid := 2, tid := 3, isthread := 1, parent := Some 0\<rparr>] None"
  obtain r t where k: "kill 2 ?s = Inr (r, t)" "r = 0"
    "\<forall>j < 64. j \<noteq> 0 \<longrightarrow> procs t ! j =
       (if isthread (procs ?s ! 0) = 0 \<and> isthread (procs ?s ! j) = 1 \<and> parent (procs ?s ! j) = Some 0
        then mark_killed (procs ?s ! j) else procs ?s ! j)"
    using kill_spec [of ?s 2] by auto
  then have "procs t ! 1 = mark_killed (procs ?s ! 1)" by (simp add: proc0_def)
  then show ?thesis using k by (simp add: mark_killed_def proc0_def)
qed

section \<open>Joining\<close>

lemma only_memory_proc_fields:
  assumes "only_memory z t"
  shows "procs t = procs z" and "nextpid t = nextpid z" and "curproc t = curproc z"
    and "initproc t = initproc z"
  using assms by (cases z; cases t; simp add: only_memory_def)+

text \<open>
  Reaping a thread touches only its slot, and leaves the thread id and the thread flag in it.
\<close>

lemma reap_thread_slot:
  assumes "reap_thread i s = Inr t" and "i < length (procs s)"
  shows "procs t = (procs s)[i := (procs s ! i)\<lparr>kstack := 0, pid := 0, parent := None,
    pname := (pname (procs s ! i))[0 := 0], killed := 0, state := UNUSED\<rparr>]"
proof -
  have "wp (reap_thread i s) (\<lambda>t. procs t = (procs s)[i := (procs s ! i)\<lparr>kstack := 0, pid := 0,
      parent := None, pname := (pname (procs s ! i))[0 := 0], killed := 0, state := UNUSED\<rparr>])"
    unfolding reap_thread_def Let_def using assms(2)
    by (auto dest!: only_memory_proc_fields(1)
        intro!: wp_bind wp_if kfree_wp [OF only_memory_refl] freevm_wp [OF only_memory_refl])
  then show ?thesis using assms(1) by (rule wpD)
qed

lemma join_scan_reaps:
  assumes "join_scan me t is kids g s = Inr ((Some r, k, f), u)" and "r \<noteq> - 1"
  shows "r = t \<and> (\<exists>i \<in> set is. tid (procs s ! i) = t \<and> isthread (procs s ! i) \<noteq> 0
    \<and> state (procs s ! i) = ZOMBIE \<and> reap_thread i s = Inr u)"
  using assms
  by (induction "is" arbitrary: kids g)
    (auto simp: Let_def bindE_Inr_iff split: if_splits)

text \<open>A new process keeps the \<open>killed\<close> field of the slot it is given.\<close>

lemma allocproc_killed:
  assumes "allocproc s = Inr (Some i, t)"
  shows "killed (procs t ! i) = killed (procs s ! i)"
proof -
  have "wp (allocproc s) (\<lambda>(r, t). \<forall>i. r = Some i \<longrightarrow> killed (procs t ! i) = killed (procs s ! i))"
    unfolding allocproc_def Let_def acquire_def release_def
    by (auto simp: nth_list_update dest!: only_memory_proc_fields(1) find_slot_length
        intro!: wp_bind wp_if wp_option kalloc_wp [OF only_memory_refl])
  then show ?thesis using assms by (auto dest: wpD)
qed

text \<open>C37. \<open>join\<close> leaves the thread id and the thread flag in the slot it frees, so \<open>tkill\<close> of a thread that was already joined succeeds and marks the free slot killed; the next process given the slot is born killed, since \<open>allocproc\<close> does not clear the mark.\<close>

theorem tkill_after_join:
  assumes "join t g s = Inr ((Done r, f), u)" and "r \<noteq> - 1" and "length (procs s) = NPROC"
    and "\<And>i. i < NPROC \<Longrightarrow> isthread (procs s ! i) \<in> {0, 1}"
    and "\<And>i j. i < NPROC \<Longrightarrow> j < NPROC \<Longrightarrow> tid (procs s ! i) = t \<Longrightarrow> tid (procs s ! j) = t \<Longrightarrow>
      isthread (procs s ! i) = 1 \<Longrightarrow> isthread (procs s ! j) = 1 \<Longrightarrow> i = j"
    and "L_ptable \<notin> set (held u)"
  shows "r = t \<and> (\<exists>i < NPROC. state (procs u ! i) = UNUSED \<and>
    (\<exists>v. tkill t u = Inr (0, v) \<and> state (procs v ! i) = UNUSED \<and> killed (procs v ! i) = 1
      \<and> (\<forall>w. allocproc v = Inr (Some i, w) \<longrightarrow> killed (procs w ! i) = 1)))"
proof -
  obtain me s1 s2 k f' where s1: "acquire L_ptable s = Inr s1" and scan:
    "join_scan me t [0..<NPROC] False g s1 = Inr ((Some r, k, f'), s2)" and u: "release L_ptable s2 = Inr u"
    using assms(1,2)
    by (auto simp: join_def join_round_def bindE_Inr_iff Let_def split: option.splits if_splits)
  have p1: "procs s1 = procs s" using s1 by (auto simp: acquire_def split: if_splits)
  have p2: "procs u = procs s2" using u by (auto simp: release_def split: if_splits)
  from join_scan_reaps [OF scan assms(2)] obtain i where i: "r = t" "i < NPROC"
    "tid (procs s ! i) = t" "isthread (procs s ! i) \<noteq> 0" "reap_thread i s1 = Inr s2"
    by (auto simp: p1)
  have is1: "isthread (procs s ! i) = 1" using assms(4) [OF i(2)] i(4) by auto
  have pu: "procs u = (procs s)[i := (procs s ! i)\<lparr>kstack := 0, pid := 0, parent := None,
      pname := (pname (procs s ! i))[0 := 0], killed := 0, state := UNUSED\<rparr>]"
    using reap_thread_slot [OF i(5)] i(2) assms(3) by (simp add: p1 p2)
  have same: "tid (procs u ! j) = tid (procs s ! j) \<and> isthread (procs u ! j) = isthread (procs s ! j)" if "j < NPROC" for j
    using that assms(3) i(2) by (simp add: pu nth_list_update)
  have "\<not> (tid (procs u ! j) = t \<and> isthread (procs u ! j) = 1)" if "j < i" for j
    using that same [of j] assms(5) [of j i] i is1 by auto
  then have "find_slot (\<lambda>p. tid p = t \<and> isthread p = 1) (procs u) = Some i"
    using same [OF i(2)] i is1 assms(3) unfolding find_slot_Some by (simp add: pu)
  then have "tkill t u = Inr (0, upd_proc i mark_killed u)"
    using assms(6) by (simp add: tkill_def acquire_ok release_ok upd_proc_def)
  moreover have "state (procs u ! i) = UNUSED" using i(2) assms(3) by (simp add: pu)
  ultimately show ?thesis
    using i assms(3) allocproc_killed [of "upd_proc i mark_killed u" i]
    by (auto simp: mark_killed_def pu intro!: exI [of _ i])
qed

text \<open>Process 1 has a dead thread with the id 2, which shares its memory.\<close>

lemma tkill_after_join_witness:
  "\<exists>u v. join 2 None (machine0 [proc0\<lparr>state := RUNNING, pid := 1\<rparr>,
      proc0\<lparr>state := ZOMBIE, kstack := 0x80100000, pid := 1, tid := 2, isthread := 1,
        parent := Some 0, clone_vm := 1\<rparr>] (Some 0)) = Inr ((Done 2, None), u)
    \<and> tkill 2 u = Inr (0, v)"
proof -
  let ?z = "proc0\<lparr>state := ZOMBIE, kstack := 0x80100000, pid := 1, tid := 2, isthread := 1,
        parent := Some 0, clone_vm := 1\<rparr>"
  define s where "s = machine0 [proc0\<lparr>state := RUNNING, pid := 1\<rparr>, ?z] (Some 0)"
  have p: "procs s ! 0 = proc0\<lparr>state := RUNNING, pid := 1\<rparr>" "procs s ! 1 = ?z"
    "length (procs s) = NPROC" "held s = []" "curproc s = Some 0"
    by (simp_all add: s_def)
  have q: "procs s ! i = proc0" if "2 \<le> i" "i < 64" for i
    using that by (cases i; cases "i - 1") (auto simp: s_def nth_append)
  obtain x where x: "kfree 0x80100000 (s\<lparr>held := [L_ptable]\<rparr>) = Inr x" "held x = [L_ptable]"
    using kfree_eq [of "s\<lparr>held := [L_ptable]\<rparr>" "0x80100000"]
    by (simp add: page_ok_def aligned_unat V2P_def s_def machine0_def)
  obtain y where y: "reap_thread 1 (s\<lparr>held := [L_ptable]\<rparr>) = Inr y" "held y = [L_ptable]"
    using x only_memory_proc_fields(1) [of "s\<lparr>held := [L_ptable]\<rparr>" x] p
      wpD [OF kfree_wp [OF only_memory_refl, where Q = "only_memory (s\<lparr>held := [L_ptable]\<rparr>)"] x(1)]
    by (simp add: reap_thread_def Let_def proc0_def)
  have up: "[0..<NPROC] = 0 # 1 # [2..<NPROC]" by (simp add: upt_conv_Cons)
  have j: "join 2 None s = Inr ((Done 2, None), y\<lparr>held := []\<rparr>)"
    unfolding join_def join_round_def up
    using y p by (simp add: acquire_ok release_ok myproc_def Let_def proc0_def)
  have "\<exists>v. tkill 2 (y\<lparr>held := []\<rparr>) = Inr (0, v)"
  proof (rule tkill_after_join [OF j, THEN conjunct2, THEN exE])
    show "length (procs s) = NPROC" by (rule p)
    show "isthread (procs s ! i) \<in> {0, 1}" if "i < NPROC" for i
      using that p q [of i] by (cases "i = 0"; cases "i = 1") (auto simp: proc0_def)
    show "i = j" if "i < NPROC" "j < NPROC" "tid (procs s ! i) = 2" "tid (procs s ! j) = 2" for i j
      using that p q [of i] q [of j] by (cases "i = 0"; cases "i = 1"; cases "j = 0"; cases "j = 1") (auto simp: proc0_def)
  qed auto
  with j show ?thesis unfolding s_def by blast
qed

section \<open>Allocating a slot\<close>

lemma in_range_part:
  assumes "in_range (v + of_nat k) n x" and "k + n \<le> 4096"
  shows "in_range v 4096 x"
proof -
  have "x - v = (x - (v + of_nat k)) + of_nat k" by simp
  moreover have "unat ((x - (v + of_nat k)) + of_nat k) = unat (x - (v + of_nat k)) + k"
    using assms by (intro unat_add_of_nat32) (simp add: in_range_def)
  ultimately show ?thesis using assms by (simp add: in_range_def)
qed

text \<open>The frame \<open>allocproc\<close> builds at the top of a fresh kernel stack.\<close>

definition first_frame :: "u32 \<Rightarrow> u32 \<Rightarrow> u32 \<Rightarrow> memory \<Rightarrow> memory" where
  "first_frame v tr fr m = st32 (slot v 1003) fr (memset (v + of_nat 3996) 0 20 (st32 (slot v 1004) tr m))"

lemma first_frame_outside:
  assumes "aligned v" and "\<not> in_range v 4096 x"
  shows "first_frame v tr fr m x = m x"
  using assms in_range_part [of v 3996 20 x]
  by (auto simp: first_frame_def st32_slot_outside memset_fill)

lemma first_frame_words:
  assumes "aligned v"
  shows "ld32 (slot v 1003) (first_frame v tr fr m) = fr"
    and "ld32 (slot v 1004) (first_frame v tr fr m) = tr"
proof -
  show "ld32 (slot v 1003) (first_frame v tr fr m) = fr"
    using assms by (simp add: first_frame_def ld32_st32_slot)
  have out: "\<not> in_range (v + of_nat 3996) 20 (slot v 1004 + of_nat b)" if "b < 4" for b
  proof -
    have "slot v 1004 + of_nat b - (v + of_nat 3996) = of_nat (20 + b)"
      by (simp add: slot_def)
    then show ?thesis using that by (simp add: in_range_def unat_of_nat32 del: of_nat_add)
  qed
  have "ld32 (slot v 1004) (memset (v + of_nat 3996) 0 20 (st32 (slot v 1004) tr m)) = tr"
    (is "ld32 _ ?m = _")
  proof -
    have "ld32 (slot v 1004) ?m = ld32 (slot v 1004) (st32 (slot v 1004) tr m)"
      using out by (intro ld32_frame) (simp add: memset_fill)
    then show ?thesis using assms by (simp add: ld32_st32_slot)
  qed
  then show "ld32 (slot v 1004) (first_frame v tr fr m) = tr"
    using assms by (simp add: first_frame_def ld32_st32_slot)
qed

lemma allocproc_run:
  assumes "kmem_rep s vs" and "L_ptable \<notin> set (held s)"
  shows "\<exists>r t. allocproc s = Inr (r, t) \<and> held t = held s \<and> length (procs t) = length (procs s) \<and>
    (case find_slot (\<lambda>p. state p = UNUSED) (procs s) of
       None \<Rightarrow> r = None \<and> t = s
     | Some i \<Rightarrow> nextpid t = nextpid s + 1 \<and> kmem_rep t (tl vs) \<and>
         (\<forall>j. j \<noteq> i \<longrightarrow> procs t ! j = procs s ! j) \<and>
         (case vs of
            [] \<Rightarrow> r = None \<and> procs t ! i = (procs s ! i)\<lparr>pid := nextpid s, kstack := 0\<rparr>
          | v # _ \<Rightarrow> r = Some i
              \<and> procs t ! i = (procs s ! i)\<lparr>state := EMBRYO, pid := nextpid s, kstack := v, ctx := v + 3996\<rparr>
              \<and> ld32 (v + 3996 + 16) (mem t) = kforkret s \<and> ld32 (v + 3996 + 20) (mem t) = ktrapret s))"
proof (cases "find_slot (\<lambda>p. state p = UNUSED) (procs s)")
  case None
  then show ?thesis using assms by (simp add: allocproc_def acquire_ok release_ok)
next
  case (Some i)
  then have i: "i < length (procs s)" "state (procs s ! i) = UNUSED" by (auto simp: find_slot_Some)
  define s1 where "s1 = (upd_proc i (\<lambda>p. p\<lparr>state := EMBRYO, pid := nextpid s\<rparr>) s)\<lparr>nextpid := nextpid s + 1\<rparr>"
  have rep1: "kmem_rep s1 vs" using assms(1) by (simp add: s1_def kmem_rep_def)
  then have free: "L_kmem \<notin> set (held s1)" by (simp add: kmem_rep_def)
  obtain s2 where s2: "kalloc s1 = Inr (case vs of [] \<Rightarrow> 0 | v # _ \<Rightarrow> v, s2)" "kmem_rep s2 (tl vs)"
    "mem s2 = mem s1" "held s2 = held s1" "kend s2 = kend s1" "vs = [] \<longrightarrow> s2 = s1"
    using kalloc_eq [OF free] rep1 page_ok_nonzero
    by (cases vs) (auto simp: kmem_rep_def)
  have p2: "procs s2 = procs s1" "nextpid s2 = nextpid s1" "ktrapret s2 = ktrapret s" "kforkret s2 = kforkret s"
    using s2(1) kalloc_eq [OF free] by (auto simp: s1_def upd_proc_def split: if_splits)
  have run: "allocproc s = bindE (kalloc s1) (\<lambda>(ks, s).
       let s = upd_proc i (kstack_update (\<lambda>_. ks)) s in
       if ks = 0 then Inr (None, upd_proc i (state_update (\<lambda>_. UNUSED)) s)
       else
         let sp = ks + KSTACKSIZE - 76; sp = sp - 4; s = s\<lparr>mem := st32 sp (ktrapret s) (mem s)\<rparr>;
             sp = sp - 20; s = s\<lparr>mem := st32 (sp + 16) (kforkret s) (memset sp 0 20 (mem s))\<rparr>
         in Inr (Some i, upd_proc i (ctx_update (\<lambda>_. sp)) s))"
    using Some assms(2)
    by (simp add: allocproc_def acquire_ok release_ok s1_def Let_def upd_proc_def)
  show ?thesis
  proof (cases vs)
    case Nil
    let ?t = "upd_proc i (state_update (\<lambda>_. UNUSED)) (upd_proc i (kstack_update (\<lambda>_. 0)) s2)"
    have "allocproc s = Inr (None, ?t)" using Nil s2(1) by (simp add: run Let_def)
    moreover have "kmem_rep ?t []" using s2(2) Nil by (simp add: kmem_rep_def)
    ultimately show ?thesis using Some i Nil s2 p2
      by (intro exI [of _ None] exI [of _ ?t]) (simp add: s1_def)
  next
    case (Cons v ws)
    then have v: "aligned v" "v \<noteq> 0" "v \<notin> set ws"
      using rep1 page_ok_nonzero by (auto simp: kmem_rep_def page_ok_def)
    have sl: "v + KSTACKSIZE - 76 - 4 = slot v 1004" "slot v 1004 - 20 = v + of_nat 3996"
      "slot v 1004 - 20 + 16 = slot v 1003" "v + 3996 + 16 = slot v 1003" "v + 3996 + 20 = slot v 1004"
      by (simp_all add: slot_def)
    let ?m = "first_frame v (ktrapret s) (kforkret s) (mem s2)"
    let ?t = "upd_proc i (ctx_update (\<lambda>_. v + 3996)) ((upd_proc i (kstack_update (\<lambda>_. v)) s2)\<lparr>mem := ?m\<rparr>)"
    have "allocproc s = Inr (Some i, ?t)"
      using Cons s2(1) v(2) sl p2
      by (simp add: run Let_def first_frame_def upd_proc_def add.commute [of 3996 v])
    moreover have "kmem_rep (s2\<lparr>mem := ?m\<rparr>) ws"
      using s2(2) Cons v first_frame_outside [OF v(1)] by (intro kmem_rep_frame) auto
    then have "kmem_rep ?t ws" by (simp add: kmem_rep_def)
    ultimately show ?thesis using Some i Cons s2 p2 first_frame_words [OF v(1)]
      by (intro exI [of _ "Some i"] exI [of _ ?t]) (simp add: s1_def sl)
  qed
qed

text \<open>The pids given so far are below the next one.\<close>

definition pids_below :: "'a proc_state_scheme \<Rightarrow> bool" where
  "pids_below s \<longleftrightarrow> (\<forall>p\<in>set (procs s). sint (pid p) < sint (nextpid s))"

lemma next_pid_fresh:
  assumes "pids_below s" and "nextpid s \<noteq> 0x7FFFFFFF" and "nextpid t = nextpid s + 1" and "length (procs t) = length (procs s)"
    and "\<And>j. j \<noteq> i \<Longrightarrow> procs t ! j = procs s ! j" and "pid (procs t ! i) = nextpid s"
  shows "(\<forall>j < length (procs s). pid (procs s ! j) \<noteq> nextpid s) \<and> pids_below t"
proof -
  have "sint (nextpid s) \<noteq> sint (0x7FFFFFFF :: i32)" using assms(2) signed_word_eqI by blast
  then have "sint (nextpid s) < 0x7FFFFFFF" using sint_lt [of "nextpid s"] by simp
  moreover have "- (2 ^ 31) \<le> sint (nextpid s)" using sint_ge [of "nextpid s"] by simp
  ultimately have "sint (nextpid s + 1) = sint (nextpid s) + 1"
    unfolding sint_word_ariths by (simp add: signed_take_bit_int_eq_self)
  then have up: "sint (nextpid t) = sint (nextpid s) + 1" by (simp add: assms(3))
  have below: "sint (pid (procs s ! j)) < sint (nextpid s)" if "j < length (procs s)" for j
    using assms(1) that by (simp add: pids_below_def)
  have "sint (pid (procs t ! j)) < sint (nextpid t)" if "j < length (procs t)" for j
    using below [of j] that assms(4-6) up by (cases "j = i") auto
  then have "pids_below t" by (auto simp: pids_below_def in_set_conv_nth)
  moreover have "pid (procs s ! j) \<noteq> nextpid s" if "j < length (procs s)" for j using below [OF that] by force
  ultimately show ?thesis by simp
qed

text \<open>
  C27. \<open>allocproc\<close> finds the first unused slot. It gives it the next pid, which no slot has as long as the pids given
  are below the next one, and a free page as kernel stack on which its first switch enters \<open>forkret\<close> and then
  \<open>trapret\<close>; no other slot is touched. Without a slot it returns null and changes nothing; without a page it returns
  null, the slot stays unused, and the pid is spent: it is left in the slot, and the next one is counted up.
\<close>

theorem allocproc_spec:
  assumes "kmem_rep s vs" and "L_ptable \<notin> set (held s)"
  shows "\<exists>r t. allocproc s = Inr (r, t) \<and> held t = held s \<and> length (procs t) = length (procs s) \<and>
    (case find_slot (\<lambda>p. state p = UNUSED) (procs s) of
       None \<Rightarrow> r = None \<and> t = s
     | Some i \<Rightarrow> nextpid t = nextpid s + 1 \<and> kmem_rep t (tl vs) \<and>
         (\<forall>j. j \<noteq> i \<longrightarrow> procs t ! j = procs s ! j) \<and>
         (pids_below s \<and> nextpid s \<noteq> 0x7FFFFFFF \<longrightarrow>
            (\<forall>j < length (procs s). pid (procs s ! j) \<noteq> nextpid s) \<and> pids_below t) \<and>
         (case vs of
            [] \<Rightarrow> r = None \<and> procs t ! i = (procs s ! i)\<lparr>pid := nextpid s, kstack := 0\<rparr>
          | v # _ \<Rightarrow> r = Some i
              \<and> procs t ! i = (procs s ! i)\<lparr>state := EMBRYO, pid := nextpid s, kstack := v, ctx := v + 3996\<rparr>
              \<and> ld32 (v + 3996 + 16) (mem t) = kforkret s \<and> ld32 (v + 3996 + 20) (mem t) = ktrapret s))"
proof -
  obtain r t where t: "allocproc s = Inr (r, t)" "held t = held s" "length (procs t) = length (procs s)"
    and c: "case find_slot (\<lambda>p. state p = UNUSED) (procs s) of
       None \<Rightarrow> r = None \<and> t = s
     | Some i \<Rightarrow> nextpid t = nextpid s + 1 \<and> kmem_rep t (tl vs) \<and>
         (\<forall>j. j \<noteq> i \<longrightarrow> procs t ! j = procs s ! j) \<and>
         (case vs of
            [] \<Rightarrow> r = None \<and> procs t ! i = (procs s ! i)\<lparr>pid := nextpid s, kstack := 0\<rparr>
          | v # _ \<Rightarrow> r = Some i
              \<and> procs t ! i = (procs s ! i)\<lparr>state := EMBRYO, pid := nextpid s, kstack := v, ctx := v + 3996\<rparr>
              \<and> ld32 (v + 3996 + 16) (mem t) = kforkret s \<and> ld32 (v + 3996 + 20) (mem t) = ktrapret s)"
    using allocproc_run [OF assms] by blast
  have "pids_below s \<and> nextpid s \<noteq> 0x7FFFFFFF \<longrightarrow>
      (\<forall>j < length (procs s). pid (procs s ! j) \<noteq> nextpid s) \<and> pids_below t"
    if "find_slot (\<lambda>p. state p = UNUSED) (procs s) = Some i" for i
    using next_pid_fresh [of s t i] t(3) c that by (auto split: list.splits)
  then show ?thesis using t c by (intro exI [of _ r] exI [of _ t]) (auto split: option.splits)
qed

text \<open>A machine with one free page: the second slot gets it.\<close>

lemma allocproc_spec_witness:
  "\<exists>t. allocproc ((machine0 [proc0\<lparr>state := RUNNING, pid := 9\<rparr>] (Some 0))\<lparr>freelist := 0x80200000\<rparr>) = Inr (Some 1, t)
     \<and> pid (procs t ! 1) = 10 \<and> kstack (procs t ! 1) = 0x80200000 \<and> nextpid t = 11 \<and> pids_below t"
proof -
  let ?s = "(machine0 [proc0\<lparr>state := RUNNING, pid := 9\<rparr>] (Some 0))\<lparr>freelist := 0x80200000\<rparr>"
  have "page_ok 0x80100000 0x80200000" by (simp add: page_ok_def aligned_unat V2P_def)
  then have "kmem_rep ?s [0x80200000]"
    by (simp add: kmem_rep_def machine0_def ld32_def le32_def)
  moreover have "find_slot (\<lambda>p. state p = UNUSED) (procs ?s) = Some 1"
    unfolding find_slot_Some by (simp add: nth_append proc0_def)
  moreover have "pids_below ?s" by (auto simp: pids_below_def machine0_def proc0_def)
  ultimately show ?thesis
    using allocproc_spec [of ?s "[0x80200000]"] by (auto simp: machine0_def)
qed

end
