(* ===== verification/Xv6_Wakeup.thy ===== *)
theory Xv6_Wakeup
  imports Xv6_Proc
begin

text \<open>
  The protocol of \<open>sleep\<close> and \<open>wakeup\<close> (\<open>proc.c\<close>) among any number of processes, at the
  granularity of its lock operations: processes that wait for a condition under a lock \<open>lk\<close>,
  processes that establish it under \<open>lk\<close> and call \<open>wakeup\<close>, in any interleaving.
\<close>

section \<open>The machine\<close>

text \<open>
  Program counters. Waiting: before \<open>acquire(lk)\<close>; at the test of the condition; in \<open>sleep\<close> before
  \<open>acquire(&ptable.lock)\<close>, before \<open>release(lk)\<close>, before the state change and the switch; switched
  out; running again, with the table locked for it by the scheduler; before the second
  \<open>acquire(lk)\<close>; past the wait with \<open>lk\<close>. Waking: before \<open>acquire(lk)\<close>; before the assignment;
  in \<open>wakeup\<close> before \<open>acquire(&ptable.lock)\<close>, before \<open>wakeup1\<close>, before \<open>release(&ptable.lock)\<close>;
  before \<open>release(lk)\<close>. \<open>Idle\<close> is outside both.
\<close>

datatype wpc =
    Idle
  | WaitLock | WaitTest | SleepTable | SleepRelease | SleepSwitch | SwitchedOut | Resumed | Relock | WaitDone
  | SetLock | SetCond | WakeTable | WakeScan | WakeRelease | SetRelease

record wmachine =
  wpc_of :: "nat \<Rightarrow> wpc"
  lk_owner :: "nat option"
  pt_owner :: "nat option"
  cond :: bool
  sleeping :: "nat \<Rightarrow> bool"

definition goto :: "nat \<Rightarrow> wpc \<Rightarrow> wmachine \<Rightarrow> wmachine" where
  "goto i c m = m\<lparr>wpc_of := (wpc_of m)(i := c)\<rparr>"

text \<open>\<open>sleeping i\<close> is \<open>p->state == SLEEPING && p->chan == chan\<close> for the channel of the condition.\<close>

inductive wstep :: "wmachine \<Rightarrow> wmachine \<Rightarrow> bool" where
  start_wait: "wpc_of m i = Idle \<Longrightarrow> wstep m (goto i WaitLock m)"
| start_set: "wpc_of m i = Idle \<Longrightarrow> wstep m (goto i SetLock m)"
| wait_lock: "wpc_of m i = WaitLock \<Longrightarrow> lk_owner m = None \<Longrightarrow>
    wstep m (goto i WaitTest (m\<lparr>lk_owner := Some i\<rparr>))"
| test_true: "wpc_of m i = WaitTest \<Longrightarrow> cond m \<Longrightarrow> wstep m (goto i WaitDone m)"
| test_false: "wpc_of m i = WaitTest \<Longrightarrow> \<not> cond m \<Longrightarrow> wstep m (goto i SleepTable m)"
| sleep_table: "wpc_of m i = SleepTable \<Longrightarrow> pt_owner m = None \<Longrightarrow>
    wstep m (goto i SleepRelease (m\<lparr>pt_owner := Some i\<rparr>))"
| sleep_release: "wpc_of m i = SleepRelease \<Longrightarrow> wstep m (goto i SleepSwitch (m\<lparr>lk_owner := None\<rparr>))"
| sleep_switch: "wpc_of m i = SleepSwitch \<Longrightarrow>
    wstep m (goto i SwitchedOut (m\<lparr>sleeping := (sleeping m)(i := True), pt_owner := None\<rparr>))"
| resume: "wpc_of m i = SwitchedOut \<Longrightarrow> \<not> sleeping m i \<Longrightarrow> pt_owner m = None \<Longrightarrow>
    wstep m (goto i Resumed (m\<lparr>pt_owner := Some i\<rparr>))"
| unlock_table: "wpc_of m i = Resumed \<Longrightarrow> wstep m (goto i Relock (m\<lparr>pt_owner := None\<rparr>))"
| relock: "wpc_of m i = Relock \<Longrightarrow> lk_owner m = None \<Longrightarrow>
    wstep m (goto i WaitTest (m\<lparr>lk_owner := Some i\<rparr>))"
| consume: "wpc_of m i = WaitDone \<Longrightarrow> wstep m (goto i Idle (m\<lparr>cond := False, lk_owner := None\<rparr>))"
| set_lock: "wpc_of m i = SetLock \<Longrightarrow> lk_owner m = None \<Longrightarrow>
    wstep m (goto i SetCond (m\<lparr>lk_owner := Some i\<rparr>))"
| set_cond: "wpc_of m i = SetCond \<Longrightarrow> wstep m (goto i WakeTable (m\<lparr>cond := True\<rparr>))"
| wake_table: "wpc_of m i = WakeTable \<Longrightarrow> pt_owner m = None \<Longrightarrow>
    wstep m (goto i WakeScan (m\<lparr>pt_owner := Some i\<rparr>))"
| wake_scan: "wpc_of m i = WakeScan \<Longrightarrow> wstep m (goto i WakeRelease (m\<lparr>sleeping := (\<lambda>_. False)\<rparr>))"
| wake_release: "wpc_of m i = WakeRelease \<Longrightarrow> wstep m (goto i SetRelease (m\<lparr>pt_owner := None\<rparr>))"
| set_release: "wpc_of m i = SetRelease \<Longrightarrow> wstep m (goto i Idle (m\<lparr>lk_owner := None\<rparr>))"

inductive wreach :: "wmachine \<Rightarrow> bool" where
  init: "wreach \<lparr>wpc_of = (\<lambda>_. Idle), lk_owner = None, pt_owner = None, cond = False, sleeping = (\<lambda>_. False)\<rparr>"
| step: "wreach m \<Longrightarrow> wstep m n \<Longrightarrow> wreach n"

section \<open>The invariant\<close>

definition holds_lk :: "wpc \<Rightarrow> bool" where
  "holds_lk c \<longleftrightarrow> c \<in> {WaitTest, SleepTable, SleepRelease, WaitDone, SetCond, WakeTable, WakeScan,
     WakeRelease, SetRelease}"

definition holds_pt :: "wpc \<Rightarrow> bool" where
  "holds_pt c \<longleftrightarrow> c \<in> {SleepRelease, SleepSwitch, Resumed, WakeScan, WakeRelease}"

text \<open>
  Each lock has the owner its users think it has. A process on its way to sleep under \<open>lk\<close> saw the
  condition false, and it still is; one that has let go of \<open>lk\<close>, or sleeps, has the condition
  false or a wakeup on its way that has not scanned the table yet.
\<close>

definition waking :: "wmachine \<Rightarrow> bool" where
  "waking m \<longleftrightarrow> (case lk_owner m of None \<Rightarrow> False | Some k \<Rightarrow> wpc_of m k = WakeTable \<or> wpc_of m k = WakeScan)"

definition pinv :: "wmachine \<Rightarrow> nat \<Rightarrow> bool" where
  "pinv m j \<longleftrightarrow>
     (holds_lk (wpc_of m j) \<longleftrightarrow> lk_owner m = Some j)
   \<and> (holds_pt (wpc_of m j) \<longleftrightarrow> pt_owner m = Some j)
   \<and> (sleeping m j \<longrightarrow> wpc_of m j = SwitchedOut)
   \<and> (wpc_of m j = SleepTable \<or> wpc_of m j = SleepRelease \<longrightarrow> \<not> cond m)
   \<and> (wpc_of m j = WaitDone \<longrightarrow> cond m)
   \<and> (wpc_of m j = SleepSwitch \<or> sleeping m j \<longrightarrow> \<not> cond m \<or> waking m)"

lemmas pinv_defs = pinv_def waking_def holds_lk_def holds_pt_def goto_def

text \<open>A step of \<open>i\<close> keeps the invariant of \<open>i\<close> itself and of any other process.\<close>

lemma pinv_step:
  assumes "wstep m n" and "\<And>k. pinv m k"
  shows "pinv n j"
  using assms(1)
proof cases
  case (start_wait i)
  then show ?thesis using assms(2) [of i] assms(2) [of j]
    by (cases "j = i") (auto simp: pinv_defs split: option.splits)
next
  case (start_set i)
  then show ?thesis using assms(2) [of i] assms(2) [of j]
    by (cases "j = i") (auto simp: pinv_defs split: option.splits)
next
  case (wait_lock i)
  then show ?thesis using assms(2) [of i] assms(2) [of j]
    by (cases "j = i") (auto simp: pinv_defs split: option.splits)
next
  case (test_true i)
  then show ?thesis using assms(2) [of i] assms(2) [of j]
    by (cases "j = i") (auto simp: pinv_defs split: option.splits)
next
  case (test_false i)
  then show ?thesis using assms(2) [of i] assms(2) [of j]
    by (cases "j = i") (auto simp: pinv_defs split: option.splits)
next
  case (sleep_table i)
  then show ?thesis using assms(2) [of i] assms(2) [of j]
    by (cases "j = i") (auto simp: pinv_defs split: option.splits)
next
  case (sleep_release i)
  then show ?thesis using assms(2) [of i] assms(2) [of j]
    by (cases "j = i") (auto simp: pinv_defs split: option.splits)
next
  case (sleep_switch i)
  then show ?thesis using assms(2) [of i] assms(2) [of j]
    by (cases "j = i") (auto simp: pinv_defs split: option.splits)
next
  case (resume i)
  then show ?thesis using assms(2) [of i] assms(2) [of j]
    by (cases "j = i") (auto simp: pinv_defs split: option.splits)
next
  case (unlock_table i)
  then show ?thesis using assms(2) [of i] assms(2) [of j]
    by (cases "j = i") (auto simp: pinv_defs split: option.splits)
next
  case (relock i)
  then show ?thesis using assms(2) [of i] assms(2) [of j]
    by (cases "j = i") (auto simp: pinv_defs split: option.splits)
next
  case (consume i)
  then show ?thesis using assms(2) [of i] assms(2) [of j]
    by (cases "j = i") (auto simp: pinv_defs split: option.splits)
next
  case (set_lock i)
  then show ?thesis using assms(2) [of i] assms(2) [of j]
    by (cases "j = i") (auto simp: pinv_defs split: option.splits)
next
  case (set_cond i)
  then show ?thesis using assms(2) [of i] assms(2) [of j]
    by (cases "j = i") (auto simp: pinv_defs split: option.splits)
next
  case (wake_table i)
  then show ?thesis using assms(2) [of i] assms(2) [of j]
    by (cases "j = i") (auto simp: pinv_defs split: option.splits)
next
  case (wake_scan i)
  then show ?thesis using assms(2) [of i] assms(2) [of j]
    by (cases "j = i") (auto simp: pinv_defs split: option.splits)
next
  case (wake_release i)
  then show ?thesis using assms(2) [of i] assms(2) [of j]
    by (cases "j = i") (auto simp: pinv_defs split: option.splits)
next
  case (set_release i)
  then show ?thesis using assms(2) [of i] assms(2) [of j]
    by (cases "j = i") (auto simp: pinv_defs split: option.splits)
qed

lemma winv: "wreach m \<Longrightarrow> pinv m j"
proof (induction arbitrary: j rule: wreach.induct)
  case init
  show ?case by (simp add: pinv_defs)
next
  case (step m n)
  then show ?case using pinv_step by blast
qed

text \<open>C2. No wakeup is lost: in every reachable state of any number of waiting and waking processes, a process that sleeps while the condition holds still has a wakeup coming, from a process that set the condition, holds the lock, and has not scanned the table yet.\<close>

theorem no_lost_wakeup:
  assumes "wreach m" and "sleeping m j" and "cond m"
  shows "\<exists>k. k \<noteq> j \<and> lk_owner m = Some k \<and> (wpc_of m k = WakeTable \<or> wpc_of m k = WakeScan)"
  using winv [OF assms(1), of j] assms(2,3)
  by (auto simp: pinv_def waking_def split: option.splits)

definition wstate :: "(nat \<Rightarrow> wpc) \<Rightarrow> nat option \<Rightarrow> nat option \<Rightarrow> bool \<Rightarrow> (nat \<Rightarrow> bool) \<Rightarrow> wmachine" where
  "wstate f lk pt c sl = \<lparr>wpc_of = f, lk_owner = lk, pt_owner = pt, cond = c, sleeping = sl\<rparr>"

lemma wstate_upd [simp]:
  "goto i p (wstate f lk pt c sl) = wstate (f(i := p)) lk pt c sl"
  "wpc_of (wstate f lk pt c sl) = f" "lk_owner (wstate f lk pt c sl) = lk"
  "pt_owner (wstate f lk pt c sl) = pt" "cond (wstate f lk pt c sl) = c" "sleeping (wstate f lk pt c sl) = sl"
  "(wstate f lk pt c sl)\<lparr>lk_owner := lk'\<rparr> = wstate f lk' pt c sl"
  "(wstate f lk pt c sl)\<lparr>pt_owner := pt'\<rparr> = wstate f lk pt' c sl"
  "(wstate f lk pt c sl)\<lparr>cond := c'\<rparr> = wstate f lk pt c' sl"
  "(wstate f lk pt c sl)\<lparr>sleeping := sl'\<rparr> = wstate f lk pt c sl'"
  by (simp_all add: wstate_def goto_def)

text \<open>Process 0 has gone to sleep, process 1 has just set the condition.\<close>

lemma no_lost_wakeup_witness:
  "\<exists>m. wreach m \<and> sleeping m 0 \<and> cond m \<and> (\<exists>k. k \<noteq> 0 \<and> lk_owner m = Some k)"
proof -
  have r0: "wreach (wstate (\<lambda>_. Idle) None None False (\<lambda>_. False))"
    using wreach.init by (simp add: wstate_def)
  have r1: "wreach (wstate ((\<lambda>_. Idle)(0 := WaitLock)) None None False (\<lambda>_. False))"
    using wreach.step [OF r0 wstep.start_wait [of _ 0]] by simp
  have r2: "wreach (wstate (((\<lambda>_. Idle)(0 := WaitLock))(0 := WaitTest)) (Some 0) None False (\<lambda>_. False))"
    using wreach.step [OF r1 wstep.wait_lock [of _ 0]] by simp
  have r3: "wreach (wstate ((((\<lambda>_. Idle)(0 := WaitLock))(0 := WaitTest))(0 := SleepTable)) (Some 0) None False (\<lambda>_. False))"
    using wreach.step [OF r2 wstep.test_false [of _ 0]] by simp
  have r4: "wreach (wstate (((((\<lambda>_. Idle)(0 := WaitLock))(0 := WaitTest))(0 := SleepTable))(0 := SleepRelease)) (Some 0) (Some 0) False (\<lambda>_. False))"
    using wreach.step [OF r3 wstep.sleep_table [of _ 0]] by simp
  have r5: "wreach (wstate ((((((\<lambda>_. Idle)(0 := WaitLock))(0 := WaitTest))(0 := SleepTable))(0 := SleepRelease))(0 := SleepSwitch)) None (Some 0) False (\<lambda>_. False))"
    using wreach.step [OF r4 wstep.sleep_release [of _ 0]] by simp
  have r6: "wreach (wstate (((((((\<lambda>_. Idle)(0 := WaitLock))(0 := WaitTest))(0 := SleepTable))(0 := SleepRelease))(0 := SleepSwitch))(0 := SwitchedOut)) None None False ((\<lambda>_. False)(0 := True)))"
    using wreach.step [OF r5 wstep.sleep_switch [of _ 0]] by simp
  have r7: "wreach (wstate ((((((((\<lambda>_. Idle)(0 := WaitLock))(0 := WaitTest))(0 := SleepTable))(0 := SleepRelease))(0 := SleepSwitch))(0 := SwitchedOut))(1 := SetLock)) None None False ((\<lambda>_. False)(0 := True)))"
    using wreach.step [OF r6 wstep.start_set [of _ 1]] by simp
  have r8: "wreach (wstate (((((((((\<lambda>_. Idle)(0 := WaitLock))(0 := WaitTest))(0 := SleepTable))(0 := SleepRelease))(0 := SleepSwitch))(0 := SwitchedOut))(1 := SetLock))(1 := SetCond)) (Some 1) None False ((\<lambda>_. False)(0 := True)))"
    using wreach.step [OF r7 wstep.set_lock [of _ 1]] by simp
  have r9: "wreach (wstate ((((((((((\<lambda>_. Idle)(0 := WaitLock))(0 := WaitTest))(0 := SleepTable))(0 := SleepRelease))(0 := SleepSwitch))(0 := SwitchedOut))(1 := SetLock))(1 := SetCond))(1 := WakeTable)) (Some 1) None True ((\<lambda>_. False)(0 := True)))"
    using wreach.step [OF r8 wstep.set_cond [of _ 1]] by simp
  show ?thesis using no_lost_wakeup [OF r9, of 0] r9 by fastforce
qed

end
