(* ===== verification/Xv6_Bio.thy ===== *)
theory Xv6_Bio
  imports Xv6_Proc
begin

text \<open>
  Sleep locks (\<open>sleeplock.c\<close>), the disk driver (\<open>ide.c\<close>) and the buffer cache (\<open>bio.c\<close>). The
  buffers are the entries 0 to 29 of a list; entry 30 is \<open>bcache.head\<close>, so the ring of \<open>prev\<close> and
  \<open>next\<close> pointers is a ring of indices.
\<close>

section \<open>Sleep locks\<close>

record sleeplock =
  slocked :: bool
  spid :: i32

definition initsleeplock :: sleeplock where
  "initsleeplock = \<lparr>slocked = False, spid = 0\<rparr>"

text \<open>
  The spin lock inside a sleep lock is named by \<open>l\<close>. Where the code would sleep until another
  process lets go of the lock, the sequential run of this process ends.
\<close>

definition acquiresleep :: "lock \<Rightarrow> sleeplock \<Rightarrow> 'a proc_state_scheme \<Rightarrow> stop + (sleeplock \<times> 'a proc_state_scheme)" where
  "acquiresleep l lk s =
     bindE (acquire l s) (\<lambda>s.
       if slocked lk then Inl (Sleeps ''acquiresleep'')
       else bindE (myproc s) (\<lambda>me.
         let lk = \<lparr>slocked = True, spid = pid (procs s ! me)\<rparr> in
         bindE (release l s) (\<lambda>s. Inr (lk, s))))"

definition releasesleep :: "lock \<Rightarrow> sleeplock \<Rightarrow> 'a proc_state_scheme \<Rightarrow> stop + (sleeplock \<times> 'a proc_state_scheme)" where
  "releasesleep l lk s =
     bindE (acquire l s) (\<lambda>s.
       let lk = \<lparr>slocked = False, spid = 0\<rparr> in
       bindE (wakeup (ChSleeplock l) s) (\<lambda>s.
       bindE (release l s) (\<lambda>s. Inr (lk, s))))"

definition holdingsleep :: "lock \<Rightarrow> sleeplock \<Rightarrow> 'a proc_state_scheme \<Rightarrow> stop + (bool \<times> 'a proc_state_scheme)" where
  "holdingsleep l lk s =
     bindE (acquire l s) (\<lambda>s.
     bindE (myproc s) (\<lambda>me.
       let r = slocked lk \<and> spid lk = pid (procs s ! me) in
       bindE (release l s) (\<lambda>s. Inr (r, s))))"

section \<open>State\<close>

abbreviation NBUF :: nat where "NBUF \<equiv> 30"
abbreviation BHEAD :: nat where "BHEAD \<equiv> 30"
abbreviation BSIZE :: nat where "BSIZE \<equiv> 512"
abbreviation (input) FSSIZE :: u32 where "FSSIZE \<equiv> 1000"

text \<open>The two bits of \<open>flags\<close> that the code uses are \<open>bvalid\<close> and \<open>bdirty\<close>.\<close>

record buf =
  bvalid :: bool
  bdirty :: bool
  bdev :: u32
  blockno :: u32
  block :: sleeplock
  brefcnt :: nat
  bprev :: nat
  bnext :: nat
  qnext :: "nat option"
  bdata :: bytes

text \<open>
  \<open>disk d n\<close> is sector \<open>n\<close> of drive \<open>d\<close>; \<open>idecmd\<close> the command the controller is working on, with
  the data of a write; \<open>ideerr\<close> whether it reports an error at the end of it; \<open>dwrites\<close> the history
  of the sectors written.
\<close>

datatype idecmd = ReadSector u32 u32 | WriteSector u32 u32 bytes

record bio_state = proc_state +
  disk :: "u32 \<Rightarrow> u32 \<Rightarrow> bytes"
  ide_active :: "idecmd option"
  ideerr :: bool
  dwrites :: "(u32 \<times> u32 \<times> bytes) list"
  idequeue :: "nat option"
  havedisk1 :: bool
  bufs :: "buf list"

definition upd_buf :: "nat \<Rightarrow> (buf \<Rightarrow> buf) \<Rightarrow> 'a bio_state_scheme \<Rightarrow> 'a bio_state_scheme" where
  "upd_buf b f s = s\<lparr>bufs := (bufs s)[b := f (bufs s ! b)]\<rparr>"

section \<open>The disk driver\<close>

text \<open>\<open>idestart\<close> with one sector per block; \<open>idewait(0)\<close> only waits for the drive.\<close>

definition idestart :: "nat option \<Rightarrow> 'a bio_state_scheme \<Rightarrow> stop + 'a bio_state_scheme" where
  "idestart q s =
     (case q of None \<Rightarrow> Inl (Panic ''idestart'')
      | Some b \<Rightarrow>
          let x = bufs s ! b in
          if blockno x \<ge> FSSIZE then Inl (Panic ''incorrect blockno'')
          else if bdirty x then Inr (s\<lparr>ide_active := Some (WriteSector (bdev x AND 1) (blockno x) (bdata x))\<rparr>)
          else Inr (s\<lparr>ide_active := Some (ReadSector (bdev x AND 1) (blockno x))\<rparr>))"

text \<open>The controller ends its command and raises the interrupt; a write is on the disk by then.\<close>

definition ide_complete :: "'a bio_state_scheme \<Rightarrow> 'a bio_state_scheme" where
  "ide_complete s =
     (case ide_active s of
        Some (WriteSector d n x) \<Rightarrow>
          s\<lparr>disk := (disk s)(d := (disk s d)(n := x)), dwrites := dwrites s @ [(d, n, x)]\<rparr>
      | _ \<Rightarrow> s)"

text \<open>What \<open>insl\<close> reads from the data port after a command.\<close>

definition ide_data :: "'a bio_state_scheme \<Rightarrow> bytes" where
  "ide_data s =
     (case ide_active s of Some (ReadSector d n) \<Rightarrow> disk s d n
      | Some (WriteSector d n x) \<Rightarrow> x | None \<Rightarrow> [])"

definition ideintr :: "'a bio_state_scheme \<Rightarrow> stop + 'a bio_state_scheme" where
  "ideintr s =
     bindE (acquire L_ide s) (\<lambda>s.
       case idequeue s of None \<Rightarrow> release L_ide s
       | Some b \<Rightarrow>
           let s = s\<lparr>idequeue := qnext (bufs s ! b)\<rparr>;
               s = (if \<not> bdirty (bufs s ! b) \<and> \<not> ideerr s
                    then upd_buf b (bdata_update (\<lambda>_. ide_data s)) s else s);
               s = upd_buf b (\<lambda>x. x\<lparr>bvalid := True, bdirty := False\<rparr>) s
           in bindE (wakeup (ChBuf b) s) (\<lambda>s.
              bindE (if idequeue s \<noteq> None then idestart (idequeue s) s else Inr s) (\<lambda>s.
              release L_ide s)))"

text \<open>
  The end of the queue of requests, found through \<open>qnext\<close>; \<open>n\<close> bounds the walk, and a queue of
  more than all buffers would be a cycle.
\<close>

fun ide_last :: "nat \<Rightarrow> nat \<Rightarrow> buf list \<Rightarrow> stop + nat" where
  "ide_last 0 b bs = Inl (Spins ''idequeue'')"
| "ide_last (Suc n) b bs = (case qnext (bs ! b) of None \<Rightarrow> Inr b | Some c \<Rightarrow> ide_last n c bs)"

text \<open>
  The loop of \<open>iderw\<close>: asleep on the buffer, with \<open>idelock\<close> released, the process gets the
  processor back after the interrupt handler has run.
\<close>

fun ide_await :: "nat \<Rightarrow> nat \<Rightarrow> 'a bio_state_scheme \<Rightarrow> stop + 'a bio_state_scheme" where
  "ide_await n b s =
     (if bvalid (bufs s ! b) \<and> \<not> bdirty (bufs s ! b) then Inr s
      else case n of 0 \<Rightarrow> Inl (Sleeps ''iderw'')
        | Suc n \<Rightarrow> bindE (release L_ide s) (\<lambda>s.
                   bindE (ideintr (ide_complete s)) (\<lambda>s.
                   bindE (acquire L_ide s) (ide_await n b))))"

declare ide_await.simps [simp del]

definition iderw :: "nat \<Rightarrow> 'a bio_state_scheme \<Rightarrow> stop + 'a bio_state_scheme" where
  "iderw b s =
     bindE (holdingsleep (L_buf b) (block (bufs s ! b)) s) (\<lambda>(h, s).
       if \<not> h then Inl (Panic ''iderw: buf not locked'')
       else if bvalid (bufs s ! b) \<and> \<not> bdirty (bufs s ! b) then Inl (Panic ''iderw: nothing to do'')
       else if bdev (bufs s ! b) \<noteq> 0 \<and> \<not> havedisk1 s then Inl (Panic ''iderw: ide disk 1 not present'')
       else
         bindE (acquire L_ide s) (\<lambda>s.
         let s = upd_buf b (qnext_update (\<lambda>_. None)) s in
         bindE (case idequeue s of None \<Rightarrow> Inr (s\<lparr>idequeue := Some b\<rparr>)
                | Some q \<Rightarrow> bindE (ide_last (Suc NBUF) q (bufs s)) (\<lambda>t.
                            Inr (upd_buf t (qnext_update (\<lambda>_. Some b)) s))) (\<lambda>s.
         bindE (if idequeue s = Some b then idestart (Some b) s else Inr s) (\<lambda>s.
         bindE (ide_await (Suc NBUF) b s) (\<lambda>s.
         release L_ide s)))))"

section \<open>The buffer cache\<close>

text \<open>\<open>binit\<close>: each buffer in turn is put in front of the ring.\<close>

definition ring_front :: "nat \<Rightarrow> buf list \<Rightarrow> buf list" where
  "ring_front b bs =
     (let bs = bs[b := (bs ! b)\<lparr>bnext := bnext (bs ! BHEAD), bprev := BHEAD\<rparr>];
          h = bnext (bs ! BHEAD);
          bs = bs[h := (bs ! h)\<lparr>bprev := b\<rparr>]
      in bs[BHEAD := (bs ! BHEAD)\<lparr>bnext := b\<rparr>])"

definition ring_remove :: "nat \<Rightarrow> buf list \<Rightarrow> buf list" where
  "ring_remove b bs =
     (let n = bnext (bs ! b); bs = bs[n := (bs ! n)\<lparr>bprev := bprev (bs ! b)\<rparr>];
          p = bprev (bs ! b)
      in bs[p := (bs ! p)\<lparr>bnext := bnext (bs ! b)\<rparr>])"

definition binit :: "'a bio_state_scheme \<Rightarrow> 'a bio_state_scheme" where
  "binit s =
     (let bs = (bufs s)[BHEAD := (bufs s ! BHEAD)\<lparr>bprev := BHEAD, bnext := BHEAD\<rparr>]
      in s\<lparr>bufs := foldl (\<lambda>bs b. ring_front b (bs[b := (bs ! b)\<lparr>block := initsleeplock\<rparr>])) bs [0..<NBUF]\<rparr>)"

text \<open>
  A walk round the ring from \<open>b\<close> to the head along \<open>nx\<close>, to the first buffer with \<open>P\<close>; a walk of
  more than all buffers would be a broken ring.
\<close>

fun ring_find :: "(buf \<Rightarrow> nat) \<Rightarrow> (buf \<Rightarrow> bool) \<Rightarrow> nat \<Rightarrow> nat \<Rightarrow> buf list \<Rightarrow> stop + nat option" where
  "ring_find nx P 0 b bs = Inl (Spins ''bcache'')"
| "ring_find nx P (Suc n) b bs =
     (if b = BHEAD then Inr None else if P (bs ! b) then Inr (Some b) else ring_find nx P n (nx (bs ! b)) bs)"

definition lock_buf :: "nat \<Rightarrow> 'a bio_state_scheme \<Rightarrow> stop + 'a bio_state_scheme" where
  "lock_buf b s =
     bindE (acquiresleep (L_buf b) (block (bufs s ! b)) s) (\<lambda>(lk, s).
     Inr (upd_buf b (block_update (\<lambda>_. lk)) s))"

definition bget :: "u32 \<Rightarrow> u32 \<Rightarrow> 'a bio_state_scheme \<Rightarrow> stop + (nat \<times> 'a bio_state_scheme)" where
  "bget dev bno s =
     bindE (acquire L_bcache s) (\<lambda>s.
     bindE (ring_find bnext (\<lambda>x. bdev x = dev \<and> blockno x = bno) (Suc NBUF) (bnext (bufs s ! BHEAD)) (bufs s)) (\<lambda>hit.
       case hit of
         Some b \<Rightarrow>
           bindE (release L_bcache (upd_buf b (\<lambda>x. x\<lparr>brefcnt := brefcnt x + 1\<rparr>) s)) (\<lambda>s.
           bindE (lock_buf b s) (\<lambda>s. Inr (b, s)))
       | None \<Rightarrow>
           bindE (ring_find bprev (\<lambda>x. brefcnt x = 0 \<and> \<not> bdirty x) (Suc NBUF) (bprev (bufs s ! BHEAD)) (bufs s)) (\<lambda>free.
             case free of
               Some b \<Rightarrow>
                 bindE (release L_bcache (upd_buf b (\<lambda>x. x\<lparr>bdev := dev, blockno := bno,
                   bvalid := False, bdirty := False, brefcnt := 1\<rparr>) s)) (\<lambda>s.
                 bindE (lock_buf b s) (\<lambda>s. Inr (b, s)))
             | None \<Rightarrow> Inl (Panic ''bget: no buffers''))))"

definition bread :: "u32 \<Rightarrow> u32 \<Rightarrow> 'a bio_state_scheme \<Rightarrow> stop + (nat \<times> 'a bio_state_scheme)" where
  "bread dev bno s =
     bindE (bget dev bno s) (\<lambda>(b, s).
       if \<not> bvalid (bufs s ! b) then bindE (iderw b s) (\<lambda>s. Inr (b, s)) else Inr (b, s))"

definition bwrite :: "nat \<Rightarrow> 'a bio_state_scheme \<Rightarrow> stop + 'a bio_state_scheme" where
  "bwrite b s =
     bindE (holdingsleep (L_buf b) (block (bufs s ! b)) s) (\<lambda>(h, s).
       if \<not> h then Inl (Panic ''bwrite'')
       else iderw b (upd_buf b (bdirty_update (\<lambda>_. True)) s))"

definition brelse :: "nat \<Rightarrow> 'a bio_state_scheme \<Rightarrow> stop + 'a bio_state_scheme" where
  "brelse b s =
     bindE (holdingsleep (L_buf b) (block (bufs s ! b)) s) (\<lambda>(h, s).
       if \<not> h then Inl (Panic ''brelse'')
       else
         bindE (releasesleep (L_buf b) (block (bufs s ! b)) s) (\<lambda>(lk, s).
         let s = upd_buf b (block_update (\<lambda>_. lk)) s in
         bindE (acquire L_bcache s) (\<lambda>s.
         let s = upd_buf b (\<lambda>x. x\<lparr>brefcnt := brefcnt x - 1\<rparr>) s;
             s = (if brefcnt (bufs s ! b) = 0
                  then s\<lparr>bufs := ring_front b (ring_remove b (bufs s))\<rparr> else s)
         in release L_bcache s)))"

end
