(* ===== verification/Xv6_Log.thy ===== *)
theory Xv6_Log
  imports Xv6_Bio
begin

text \<open>
  The write-ahead log (\<open>log.c\<close>): file-system calls bracket their updates with \<open>begin_op\<close> and
  \<open>end_op\<close>, and the last call to end writes all updated blocks to the log, commits them with one
  write of the header, and installs them.
\<close>

section \<open>Integers in a block\<close>

definition get32 :: "bytes \<Rightarrow> nat \<Rightarrow> u32" where
  "get32 bs i = le32 (bs ! i) (bs ! (i + 1)) (bs ! (i + 2)) (bs ! (i + 3))"

definition put32 :: "nat \<Rightarrow> u32 \<Rightarrow> bytes \<Rightarrow> bytes" where
  "put32 i w bs = bs[i := byte_of 0 w, i + 1 := byte_of 1 w, i + 2 := byte_of 2 w, i + 3 := byte_of 3 w]"

definition get16 :: "bytes \<Rightarrow> nat \<Rightarrow> u16" where
  "get16 bs i = le16 (bs ! i) (bs ! (i + 1))"

definition put16 :: "nat \<Rightarrow> u16 \<Rightarrow> bytes \<Rightarrow> bytes" where
  "put16 i w bs = bs[i := byte_of 0 w, i + 1 := byte_of 1 w]"

section \<open>State\<close>

abbreviation MAXOPBLOCKS :: nat where "MAXOPBLOCKS \<equiv> 10"
abbreviation LOGSIZE :: nat where "LOGSIZE \<equiv> 30"

text \<open>
  \<open>lh\<close> holds the first \<open>n\<close> entries of the in-memory header's array; the code reads no others.
\<close>

record log_state = bio_state +
  logstart :: u32
  logsize :: int
  outstanding :: int
  committing :: bool
  logdev :: u32
  lh :: "u32 list"

text \<open>\<open>struct superblock\<close> as block 1 of the disk holds it.\<close>

record superblock =
  sb_size :: u32
  sb_nblocks :: u32
  sb_ninodes :: u32
  sb_nlog :: u32
  sb_logstart :: u32
  sb_inodestart :: u32
  sb_bmapstart :: u32

definition sb_of :: "bytes \<Rightarrow> superblock" where
  "sb_of d = \<lparr>sb_size = get32 d 0, sb_nblocks = get32 d 4, sb_ninodes = get32 d 8, sb_nlog = get32 d 12,
     sb_logstart = get32 d 16, sb_inodestart = get32 d 20, sb_bmapstart = get32 d 24\<rparr>"

definition readsb :: "u32 \<Rightarrow> 'a bio_state_scheme \<Rightarrow> stop + (superblock \<times> 'a bio_state_scheme)" where
  "readsb dev s =
     bindE (bread dev 1 s) (\<lambda>(b, s).
     let sb = sb_of (bdata (bufs s ! b)) in
     bindE (brelse b s) (\<lambda>s. Inr (sb, s)))"

section \<open>The header on the disk\<close>

definition head_of :: "bytes \<Rightarrow> stop + u32 list" where
  "head_of d =
     (let n = sint (get32 d 0) in
      if n > int LOGSIZE then Inl (Fault ''log header'')
      else Inr (map (\<lambda>i. get32 d (4 + 4 * i)) [0..<nat n]))"

definition put_head :: "u32 list \<Rightarrow> bytes \<Rightarrow> bytes" where
  "put_head l d =
     foldl (\<lambda>d i. put32 (4 + 4 * i) (l ! i) d) (put32 0 (of_nat (length l)) d) [0..<length l]"

definition read_head :: "'a log_state_scheme \<Rightarrow> stop + 'a log_state_scheme" where
  "read_head s =
     bindE (bread (logdev s) (logstart s) s) (\<lambda>(b, s).
     bindE (head_of (bdata (bufs s ! b))) (\<lambda>l.
     brelse b (s\<lparr>lh := l\<rparr>)))"

definition write_head :: "'a log_state_scheme \<Rightarrow> stop + 'a log_state_scheme" where
  "write_head s =
     bindE (bread (logdev s) (logstart s) s) (\<lambda>(b, s).
     bindE (bwrite b (upd_buf b (bdata_update (put_head (lh s))) s)) (\<lambda>s.
     brelse b s))"

section \<open>Copying to and from the log\<close>

definition install_one :: "nat \<Rightarrow> 'a log_state_scheme \<Rightarrow> stop + 'a log_state_scheme" where
  "install_one tail s =
     bindE (bread (logdev s) (logstart s + of_nat tail + 1) s) (\<lambda>(lb, s).
     bindE (bread (logdev s) (lh s ! tail) s) (\<lambda>(db, s).
     let s = upd_buf db (bdata_update (\<lambda>_. bdata (bufs s ! lb))) s in
     bindE (bwrite db s) (\<lambda>s.
     bindE (brelse lb s) (brelse db))))"

definition install_trans :: "'a log_state_scheme \<Rightarrow> stop + 'a log_state_scheme" where
  "install_trans s = forE install_one [0..<length (lh s)] s"

definition log_one :: "nat \<Rightarrow> 'a log_state_scheme \<Rightarrow> stop + 'a log_state_scheme" where
  "log_one tail s =
     bindE (bread (logdev s) (logstart s + of_nat tail + 1) s) (\<lambda>(to, s).
     bindE (bread (logdev s) (lh s ! tail) s) (\<lambda>(from, s).
     let s = upd_buf to (bdata_update (\<lambda>_. bdata (bufs s ! from))) s in
     bindE (bwrite to s) (\<lambda>s.
     bindE (brelse from s) (brelse to))))"

definition write_log :: "'a log_state_scheme \<Rightarrow> stop + 'a log_state_scheme" where
  "write_log s = forE log_one [0..<length (lh s)] s"

definition recover_from_log :: "'a log_state_scheme \<Rightarrow> stop + 'a log_state_scheme" where
  "recover_from_log s =
     bindE (read_head s) (\<lambda>s.
     bindE (install_trans s) (\<lambda>s.
     write_head (s\<lparr>lh := []\<rparr>)))"

definition initlog :: "u32 \<Rightarrow> 'a log_state_scheme \<Rightarrow> stop + 'a log_state_scheme" where
  "initlog dev s =
     bindE (readsb dev s) (\<lambda>(sb, s).
     recover_from_log (s\<lparr>logstart := sb_logstart sb, logsize := sint (sb_nlog sb), logdev := dev\<rparr>))"

definition commit :: "'a log_state_scheme \<Rightarrow> stop + 'a log_state_scheme" where
  "commit s =
     (if lh s \<noteq> [] then
        bindE (write_log s) (\<lambda>s.
        bindE (write_head s) (\<lambda>s.
        bindE (install_trans s) (\<lambda>s.
        write_head (s\<lparr>lh := []\<rparr>))))
      else Inr s)"

section \<open>Transactions\<close>

definition begin_op :: "'a log_state_scheme \<Rightarrow> stop + 'a log_state_scheme" where
  "begin_op s =
     bindE (acquire L_log s) (\<lambda>s.
       if committing s then Inl (Sleeps ''begin_op'')
       else if int (length (lh s)) + (outstanding s + 1) * int MAXOPBLOCKS > int LOGSIZE
       then Inl (Sleeps ''begin_op'')
       else release L_log (s\<lparr>outstanding := outstanding s + 1\<rparr>))"

definition end_op :: "'a log_state_scheme \<Rightarrow> stop + 'a log_state_scheme" where
  "end_op s =
     bindE (acquire L_log s) (\<lambda>s.
     let s = s\<lparr>outstanding := outstanding s - 1\<rparr> in
       if committing s then Inl (Panic ''log.committing'')
       else if outstanding s = 0 then
         bindE (release L_log (s\<lparr>committing := True\<rparr>)) (\<lambda>s.
         bindE (commit s) (\<lambda>s.
         bindE (acquire L_log s) (\<lambda>s.
         bindE (wakeup ChLog (s\<lparr>committing := False\<rparr>)) (\<lambda>s.
         release L_log s))))
       else bindE (wakeup ChLog s) (\<lambda>s. release L_log s))"

text \<open>The list after \<open>log_write\<close> of block \<open>n\<close>: a block already in the log is absorbed.\<close>

definition absorb :: "u32 \<Rightarrow> u32 list \<Rightarrow> u32 list" where
  "absorb n l = (if n \<in> set l then l else l @ [n])"

definition log_write :: "nat \<Rightarrow> 'a log_state_scheme \<Rightarrow> stop + 'a log_state_scheme" where
  "log_write b s =
     (if length (lh s) \<ge> LOGSIZE \<or> int (length (lh s)) \<ge> logsize s - 1
      then Inl (Panic ''too big a transaction'')
      else if outstanding s < 1 then Inl (Panic ''log_write outside of trans'')
      else
        bindE (acquire L_log s) (\<lambda>s.
        let s = s\<lparr>lh := absorb (blockno (bufs s ! b)) (lh s)\<rparr> in
        release L_log (upd_buf b (bdirty_update (\<lambda>_. True)) s)))"

end
