(* ===== verification/Xv6_Fs.thy ===== *)
theory Xv6_Fs
  imports Xv6_Log
begin

text \<open>
  The file system (\<open>fs.c\<close>): block and inode allocation, the inode cache, file contents, directories
  and path names. An \<open>inode*\<close> is the index of an entry of the inode cache.
\<close>

section \<open>State\<close>

abbreviation NINODE :: nat where "NINODE \<equiv> 50"
abbreviation NDIRECT :: nat where "NDIRECT \<equiv> 12"
abbreviation NINDIRECT :: nat where "NINDIRECT \<equiv> 128"
abbreviation (input) MAXFILE :: u32 where "MAXFILE \<equiv> 140"
abbreviation (input) IPB :: u32 where "IPB \<equiv> 8"
abbreviation (input) BPB :: u32 where "BPB \<equiv> 4096"
abbreviation DIRSIZ :: nat where "DIRSIZ \<equiv> 14"
abbreviation (input) ROOTDEV :: u32 where "ROOTDEV \<equiv> 1"
abbreviation (input) ROOTINO :: u32 where "ROOTINO \<equiv> 1"
abbreviation (input) T_DIR :: u16 where "T_DIR \<equiv> 1"
abbreviation (input) T_FILE :: u16 where "T_FILE \<equiv> 2"
abbreviation (input) T_DEV :: u16 where "T_DEV \<equiv> 3"

record dinode =
  d_type :: u16
  d_major :: u16
  d_minor :: u16
  d_nlink :: u16
  d_size :: u32
  d_addrs :: "u32 list"

record inode =
  idev :: u32
  inum :: u32
  iref :: int
  ilk :: sleeplock
  ivalid :: bool
  itype :: u16
  imajor :: u16
  iminor :: u16
  inlink :: u16
  isize :: u32
  iaddrs :: "u32 list"

record fs_state = log_state +
  sb :: superblock
  inodes :: "inode list"

definition upd_inode :: "nat \<Rightarrow> (inode \<Rightarrow> inode) \<Rightarrow> 'a fs_state_scheme \<Rightarrow> 'a fs_state_scheme" where
  "upd_inode i f s = s\<lparr>inodes := (inodes s)[i := f (inodes s ! i)]\<rparr>"

text \<open>The fields of \<open>struct dinode\<close> at offset \<open>o\<close> of a block.\<close>

definition get_dinode :: "bytes \<Rightarrow> nat \<Rightarrow> dinode" where
  "get_dinode d off =
     \<lparr>d_type = get16 d off, d_major = get16 d (off + 2), d_minor = get16 d (off + 4),
      d_nlink = get16 d (off + 6), d_size = get32 d (off + 8),
      d_addrs = map (\<lambda>k. get32 d (off + 12 + 4 * k)) [0..<13]\<rparr>"

definition put_dinode :: "nat \<Rightarrow> dinode \<Rightarrow> bytes \<Rightarrow> bytes" where
  "put_dinode off x d =
     foldl (\<lambda>d k. put32 (off + 12 + 4 * k) (d_addrs x ! k) d)
       (put32 (off + 8) (d_size x)
         (put16 (off + 6) (d_nlink x)
           (put16 (off + 4) (d_minor x)
             (put16 (off + 2) (d_major x)
               (put16 off (d_type x) d))))) [0..<13]"

definition IBLOCK :: "u32 \<Rightarrow> superblock \<Rightarrow> u32" where
  "IBLOCK i q = i div IPB + sb_inodestart q"

definition BBLOCK :: "u32 \<Rightarrow> superblock \<Rightarrow> u32" where
  "BBLOCK b q = b div BPB + sb_bmapstart q"

definition dinode_off :: "u32 \<Rightarrow> nat" where
  "dinode_off i = 64 * unat (i mod IPB)"

section \<open>Blocks\<close>

definition bzero :: "u32 \<Rightarrow> u32 \<Rightarrow> 'a fs_state_scheme \<Rightarrow> stop + 'a fs_state_scheme" where
  "bzero dev bno s =
     bindE (bread dev bno s) (\<lambda>(b, s).
     bindE (log_write b (upd_buf b (bdata_update (\<lambda>_. replicate BSIZE 0)) s)) (\<lambda>s.
     brelse b s))"

definition bit_set :: "bytes \<Rightarrow> nat \<Rightarrow> bool" where
  "bit_set d bi \<longleftrightarrow> d ! (bi div 8) AND push_bit (bi mod 8) 1 \<noteq> 0"

text \<open>The inner loop of \<open>balloc\<close>: the first clear bit among the first \<open>n\<close> from \<open>bi\<close> on.\<close>

fun free_bit :: "bytes \<Rightarrow> nat \<Rightarrow> nat \<Rightarrow> nat option" where
  "free_bit d bi 0 = None"
| "free_bit d bi (Suc n) = (if \<not> bit_set d bi then Some bi else free_bit d (Suc bi) n)"

definition mark_bit :: "nat \<Rightarrow> bytes \<Rightarrow> bytes" where
  "mark_bit bi d = d[bi div 8 := d ! (bi div 8) OR push_bit (bi mod 8) 1]"

definition clear_bit :: "nat \<Rightarrow> bytes \<Rightarrow> bytes" where
  "clear_bit bi d = d[bi div 8 := d ! (bi div 8) AND NOT (push_bit (bi mod 8) 1)]"

lemma length_mark_bit [simp]: "length (mark_bit i d) = length d"
  by (simp add: mark_bit_def)

lemma bit_set_bit: "bit_set d k \<longleftrightarrow> bit (d ! (k div 8)) (k mod 8)"
proof -
  let ?p = "push_bit (k mod 8) 1 :: u8"
  have "d ! (k div 8) AND ?p = (if bit (d ! (k div 8)) (k mod 8) then ?p else 0)"
    by (intro bit_word_eqI) (auto simp: bit_simps)
  moreover have "bit ?p (k mod 8)" by (simp add: bit_simps)
  then have "?p \<noteq> 0" by (metis bit_0_eq bot_apply bot_bool_def)
  ultimately show ?thesis by (simp only: bit_set_def split: if_split) simp
qed

lemma bit_set_mark_bit:
  assumes "i div 8 < length d"
  shows "bit_set (mark_bit i d) j \<longleftrightarrow> i = j \<or> bit_set d j"
proof -
  have "j div 8 = i div 8 \<Longrightarrow> i mod 8 = j mod 8 \<longleftrightarrow> i = j" by (metis div_mult_mod_eq)
  then show ?thesis
    using assms by (cases "j div 8 = i div 8") (auto simp: bit_set_bit mark_bit_def bit_simps)
qed

fun balloc_scan :: "u32 \<Rightarrow> nat list \<Rightarrow> 'a fs_state_scheme \<Rightarrow> stop + (u32 \<times> 'a fs_state_scheme)" where
  "balloc_scan dev [] s = Inl (Panic ''balloc: out of blocks'')"
| "balloc_scan dev (b # bs) s =
     bindE (bread dev (BBLOCK (of_nat b) (sb s)) s) (\<lambda>(bp, s).
       case free_bit (bdata (bufs s ! bp)) 0 (min 4096 (unat (sb_size (sb s)) - b)) of
         Some bi \<Rightarrow>
           bindE (log_write bp (upd_buf bp (bdata_update (mark_bit bi)) s)) (\<lambda>s.
           bindE (brelse bp s) (\<lambda>s.
           bindE (bzero dev (of_nat (b + bi)) s) (\<lambda>s.
           Inr (of_nat (b + bi), s))))
       | None \<Rightarrow> bindE (brelse bp s) (balloc_scan dev bs))"

definition balloc :: "u32 \<Rightarrow> 'a fs_state_scheme \<Rightarrow> stop + (u32 \<times> 'a fs_state_scheme)" where
  "balloc dev s =
     balloc_scan dev (map (\<lambda>k. 4096 * k) [0..<(unat (sb_size (sb s)) + 4095) div 4096]) s"

definition bfree :: "u32 \<Rightarrow> u32 \<Rightarrow> 'a fs_state_scheme \<Rightarrow> stop + 'a fs_state_scheme" where
  "bfree dev b s =
     bindE (bread dev (BBLOCK b (sb s)) s) (\<lambda>(bp, s).
     let bi = unat (b mod BPB) in
       if \<not> bit_set (bdata (bufs s ! bp)) bi then Inl (Panic ''freeing free block'')
       else
         bindE (log_write bp (upd_buf bp (bdata_update (clear_bit bi)) s)) (\<lambda>s.
         brelse bp s))"

section \<open>The inode cache\<close>

definition iinit :: "u32 \<Rightarrow> 'a fs_state_scheme \<Rightarrow> stop + 'a fs_state_scheme" where
  "iinit dev s =
     (let s = s\<lparr>inodes := map (ilk_update (\<lambda>_. initsleeplock)) (inodes s)\<rparr> in
      bindE (readsb dev s) (\<lambda>(x, s). Inr (s\<lparr>sb := x\<rparr>)))"

definition iget :: "u32 \<Rightarrow> u32 \<Rightarrow> 'a fs_state_scheme \<Rightarrow> stop + (nat \<times> 'a fs_state_scheme)" where
  "iget dev n s =
     bindE (acquire L_icache s) (\<lambda>s.
       case find_slot (\<lambda>ip. iref ip > 0 \<and> idev ip = dev \<and> inum ip = n) (inodes s) of
         Some i \<Rightarrow>
           bindE (release L_icache (upd_inode i (\<lambda>ip. ip\<lparr>iref := iref ip + 1\<rparr>) s)) (\<lambda>s. Inr (i, s))
       | None \<Rightarrow>
           (case find_slot (\<lambda>ip. iref ip = 0) (inodes s) of
              None \<Rightarrow> Inl (Panic ''iget: no inodes'')
            | Some i \<Rightarrow>
                bindE (release L_icache (upd_inode i (\<lambda>ip. ip\<lparr>idev := dev, inum := n, iref := 1,
                  ivalid := False\<rparr>) s)) (\<lambda>s. Inr (i, s))))"

fun ialloc_scan :: "u32 \<Rightarrow> u16 \<Rightarrow> nat list \<Rightarrow> 'a fs_state_scheme \<Rightarrow> stop + (nat \<times> 'a fs_state_scheme)" where
  "ialloc_scan dev ty [] s = Inl (Panic ''ialloc: no inodes'')"
| "ialloc_scan dev ty (n # ns) s =
     bindE (bread dev (IBLOCK (of_nat n) (sb s)) s) (\<lambda>(bp, s).
     let off = dinode_off (of_nat n) in
       if get16 (bdata (bufs s ! bp)) off = 0 then
         bindE (log_write bp (upd_buf bp (bdata_update
           (put_dinode off \<lparr>d_type = ty, d_major = 0, d_minor = 0, d_nlink = 0, d_size = 0,
              d_addrs = replicate 13 0\<rparr>)) s)) (\<lambda>s.
         bindE (brelse bp s) (iget dev (of_nat n)))
       else bindE (brelse bp s) (ialloc_scan dev ty ns))"

definition ialloc :: "u32 \<Rightarrow> u16 \<Rightarrow> 'a fs_state_scheme \<Rightarrow> stop + (nat \<times> 'a fs_state_scheme)" where
  "ialloc dev ty s = ialloc_scan dev ty [1..<unat (sb_ninodes (sb s))] s"

definition iupdate :: "nat \<Rightarrow> 'a fs_state_scheme \<Rightarrow> stop + 'a fs_state_scheme" where
  "iupdate i s =
     bindE (bread (idev (inodes s ! i)) (IBLOCK (inum (inodes s ! i)) (sb s)) s) (\<lambda>(bp, s).
     let ip = inodes s ! i;
         x = \<lparr>d_type = itype ip, d_major = imajor ip, d_minor = iminor ip, d_nlink = inlink ip,
              d_size = isize ip, d_addrs = iaddrs ip\<rparr> in
     bindE (log_write bp (upd_buf bp (bdata_update (put_dinode (dinode_off (inum ip)) x)) s)) (\<lambda>s.
     brelse bp s))"

definition idup :: "nat option \<Rightarrow> 'a fs_state_scheme \<Rightarrow> stop + (nat option \<times> 'a fs_state_scheme)" where
  "idup q s =
     (case q of None \<Rightarrow> Inl (Fault ''idup'')
      | Some i \<Rightarrow>
          bindE (acquire L_icache s) (\<lambda>s.
          bindE (release L_icache (upd_inode i (\<lambda>ip. ip\<lparr>iref := iref ip + 1\<rparr>) s)) (\<lambda>s. Inr (Some i, s))))"

text \<open>The sleep lock of entry \<open>i\<close>.\<close>

definition lock_inode :: "nat \<Rightarrow> 'a fs_state_scheme \<Rightarrow> stop + 'a fs_state_scheme" where
  "lock_inode i s =
     bindE (acquiresleep (L_inode i) (ilk (inodes s ! i)) s) (\<lambda>(lk, s).
     Inr (upd_inode i (ilk_update (\<lambda>_. lk)) s))"

definition unlock_inode :: "nat \<Rightarrow> 'a fs_state_scheme \<Rightarrow> stop + 'a fs_state_scheme" where
  "unlock_inode i s =
     bindE (releasesleep (L_inode i) (ilk (inodes s ! i)) s) (\<lambda>(lk, s).
     Inr (upd_inode i (ilk_update (\<lambda>_. lk)) s))"

text \<open>The code's test for a null pointer is made where the pointer can be null.\<close>

definition ilock :: "nat \<Rightarrow> 'a fs_state_scheme \<Rightarrow> stop + 'a fs_state_scheme" where
  "ilock i s =
     (if iref (inodes s ! i) < 1 then Inl (Panic ''ilock'')
      else bindE (lock_inode i s) (\<lambda>s.
        if ivalid (inodes s ! i) then Inr s
        else
          bindE (bread (idev (inodes s ! i)) (IBLOCK (inum (inodes s ! i)) (sb s)) s) (\<lambda>(bp, s).
          let x = get_dinode (bdata (bufs s ! bp)) (dinode_off (inum (inodes s ! i)));
              s = upd_inode i (\<lambda>ip. ip\<lparr>itype := d_type x, imajor := d_major x, iminor := d_minor x,
                    inlink := d_nlink x, isize := d_size x, iaddrs := d_addrs x\<rparr>) s in
          bindE (brelse bp s) (\<lambda>s.
          let s = upd_inode i (ivalid_update (\<lambda>_. True)) s in
            if itype (inodes s ! i) = 0 then Inl (Panic ''ilock: no type'') else Inr s))))"

definition iunlock :: "nat \<Rightarrow> 'a fs_state_scheme \<Rightarrow> stop + 'a fs_state_scheme" where
  "iunlock i s =
     bindE (holdingsleep (L_inode i) (ilk (inodes s ! i)) s) (\<lambda>(h, s).
       if \<not> h \<or> iref (inodes s ! i) < 1 then Inl (Panic ''iunlock'') else unlock_inode i s)"

section \<open>File contents\<close>

definition bmap :: "nat \<Rightarrow> u32 \<Rightarrow> 'a fs_state_scheme \<Rightarrow> stop + (u32 \<times> 'a fs_state_scheme)" where
  "bmap i bn s =
     (if unat bn < NDIRECT then
        let a = iaddrs (inodes s ! i) ! unat bn in
        if a = 0 then
          bindE (balloc (idev (inodes s ! i)) s) (\<lambda>(a, s).
          Inr (a, upd_inode i (iaddrs_update (\<lambda>xs. xs[unat bn := a])) s))
        else Inr (a, s)
      else if unat bn - NDIRECT < NINDIRECT then
        let k = unat bn - NDIRECT in
        bindE (let a = iaddrs (inodes s ! i) ! NDIRECT in
               if a = 0 then
                 bindE (balloc (idev (inodes s ! i)) s) (\<lambda>(a, s).
                 Inr (a, upd_inode i (iaddrs_update (\<lambda>xs. xs[NDIRECT := a])) s))
               else Inr (a, s)) (\<lambda>(a, s).
        bindE (bread (idev (inodes s ! i)) a s) (\<lambda>(bp, s).
        bindE (let a = get32 (bdata (bufs s ! bp)) (4 * k) in
               if a = 0 then
                 bindE (balloc (idev (inodes s ! i)) s) (\<lambda>(a, s).
                 bindE (log_write bp (upd_buf bp (bdata_update (put32 (4 * k) a)) s)) (\<lambda>s.
                 Inr (a, s)))
               else Inr (a, s)) (\<lambda>(a, s).
        bindE (brelse bp s) (\<lambda>s. Inr (a, s)))))
      else Inl (Panic ''bmap: out of range''))"

definition trunc_direct :: "nat \<Rightarrow> nat \<Rightarrow> 'a fs_state_scheme \<Rightarrow> stop + 'a fs_state_scheme" where
  "trunc_direct i k s =
     (let a = iaddrs (inodes s ! i) ! k in
      if a \<noteq> 0 then
        bindE (bfree (idev (inodes s ! i)) a s) (\<lambda>s.
        Inr (upd_inode i (iaddrs_update (\<lambda>xs. xs[k := 0])) s))
      else Inr s)"

definition trunc_entry :: "u32 \<Rightarrow> nat \<Rightarrow> nat \<Rightarrow> 'a fs_state_scheme \<Rightarrow> stop + 'a fs_state_scheme" where
  "trunc_entry dev bp j s =
     (let a = get32 (bdata (bufs s ! bp)) (4 * j) in if a \<noteq> 0 then bfree dev a s else Inr s)"

definition itrunc :: "nat \<Rightarrow> 'a fs_state_scheme \<Rightarrow> stop + 'a fs_state_scheme" where
  "itrunc i s =
     bindE (forE (trunc_direct i) [0..<NDIRECT] s) (\<lambda>s.
     bindE (let a = iaddrs (inodes s ! i) ! NDIRECT in
            if a \<noteq> 0 then
              bindE (bread (idev (inodes s ! i)) a s) (\<lambda>(bp, s).
              bindE (forE (trunc_entry (idev (inodes s ! i)) bp) [0..<NINDIRECT] s) (\<lambda>s.
              bindE (brelse bp s) (\<lambda>s.
              bindE (bfree (idev (inodes s ! i)) a s) (\<lambda>s.
              Inr (upd_inode i (iaddrs_update (\<lambda>xs. xs[NDIRECT := 0])) s)))))
            else Inr s) (\<lambda>s.
     iupdate i (upd_inode i (isize_update (\<lambda>_. 0)) s)))"

definition iput :: "nat \<Rightarrow> 'a fs_state_scheme \<Rightarrow> stop + 'a fs_state_scheme" where
  "iput i s =
     bindE (lock_inode i s) (\<lambda>s.
     bindE (if ivalid (inodes s ! i) \<and> inlink (inodes s ! i) = 0 then
              bindE (acquire L_icache s) (\<lambda>s.
              let r = iref (inodes s ! i) in
              bindE (release L_icache s) (\<lambda>s.
                if r = 1 then
                  bindE (itrunc i s) (\<lambda>s.
                  bindE (iupdate i (upd_inode i (itype_update (\<lambda>_. 0)) s)) (\<lambda>s.
                  Inr (upd_inode i (ivalid_update (\<lambda>_. False)) s)))
                else Inr s))
            else Inr s) (\<lambda>s.
     bindE (unlock_inode i s) (\<lambda>s.
     bindE (acquire L_icache s) (\<lambda>s.
     release L_icache (upd_inode i (\<lambda>ip. ip\<lparr>iref := iref ip - 1\<rparr>) s)))))"

definition iunlockput :: "nat \<Rightarrow> 'a fs_state_scheme \<Rightarrow> stop + 'a fs_state_scheme" where
  "iunlockput i s = bindE (iunlock i s) (iput i)"

record stat =
  st_type :: u16
  st_dev :: i32
  st_ino :: u32
  st_nlink :: u16
  st_size :: u32

definition stati :: "nat \<Rightarrow> 'a fs_state_scheme \<Rightarrow> stat" where
  "stati i s =
     (let ip = inodes s ! i in
      \<lparr>st_type = itype ip, st_dev = idev ip, st_ino = inum ip, st_nlink = inlink ip, st_size = isize ip\<rparr>)"

text \<open>
  The device functions of a major number: reading up to \<open>n\<close> bytes through an inode, with the C
  result and the bytes read, and writing bytes through an inode. They are an argument of the
  routines that can meet a device.
\<close>

type_synonym 's devsw =
  "u16 \<Rightarrow> ((nat \<Rightarrow> u32 \<Rightarrow> 's \<Rightarrow> stop + ((i32 \<times> bytes) \<times> 's))
          \<times> (nat \<Rightarrow> bytes \<Rightarrow> 's \<Rightarrow> stop + (i32 \<times> 's))) option"

function read_blocks :: "nat \<Rightarrow> u32 \<Rightarrow> nat \<Rightarrow> 'a fs_state_scheme \<Rightarrow> stop + (bytes \<times> 'a fs_state_scheme)" where
  "read_blocks i off n s =
     (if n = 0 then Inr ([], s)
      else
        bindE (bmap i (off div 512) s) (\<lambda>(a, s).
        bindE (bread (idev (inodes s ! i)) a s) (\<lambda>(bp, s).
        let o' = unat off mod BSIZE; m = min n (BSIZE - o');
            d = take m (drop o' (bdata (bufs s ! bp))) in
        bindE (brelse bp s) (\<lambda>s.
        bindE (read_blocks i (off + of_nat m) (n - m) s) (\<lambda>(r, s). Inr (d @ r, s))))))"
  by pat_completeness auto
termination by (relation "measure (\<lambda>(i, off, n, s). n)") (auto simp: Let_def)

declare read_blocks.simps [simp del]

definition readi :: "'a fs_state_scheme devsw \<Rightarrow> nat \<Rightarrow> u32 \<Rightarrow> u32 \<Rightarrow> 'a fs_state_scheme \<Rightarrow>
    stop + ((i32 \<times> bytes) \<times> 'a fs_state_scheme)" where
  "readi dv i off n s =
     (let ip = inodes s ! i in
      if itype ip = T_DEV then
        (if sint (imajor ip) < 0 \<or> sint (imajor ip) \<ge> 10 then Inr ((- 1, []), s)
         else case dv (imajor ip) of None \<Rightarrow> Inr ((- 1, []), s) | Some (rd, wr) \<Rightarrow> rd i n s)
      else if off > isize ip \<or> off + n < off then Inr ((- 1, []), s)
      else
        let n = (if off + n > isize ip then isize ip - off else n) in
        bindE (read_blocks i off (unat n) s) (\<lambda>(d, s). Inr ((n, d), s)))"

definition overwrite :: "nat \<Rightarrow> bytes \<Rightarrow> bytes \<Rightarrow> bytes" where
  "overwrite k x d = take k d @ x @ drop (k + length x) d"

function write_blocks :: "nat \<Rightarrow> bytes \<Rightarrow> u32 \<Rightarrow> 'a fs_state_scheme \<Rightarrow> stop + (u32 \<times> 'a fs_state_scheme)" where
  "write_blocks i src off s =
     (if src = [] then Inr (off, s)
      else
        bindE (bmap i (off div 512) s) (\<lambda>(a, s).
        bindE (bread (idev (inodes s ! i)) a s) (\<lambda>(bp, s).
        let o' = unat off mod BSIZE; m = min (length src) (BSIZE - o') in
        bindE (log_write bp (upd_buf bp (bdata_update (overwrite o' (take m src))) s)) (\<lambda>s.
        bindE (brelse bp s) (\<lambda>s.
        write_blocks i (drop m src) (off + of_nat m) s)))))"
  by pat_completeness auto
termination by (relation "measure (\<lambda>(i, src, off, s). length src)") (auto simp: Let_def min_def)

declare write_blocks.simps [simp del]

text \<open>The bytes to be written are a list; \<open>n\<close> is its length.\<close>

definition writei :: "'a fs_state_scheme devsw \<Rightarrow> nat \<Rightarrow> bytes \<Rightarrow> u32 \<Rightarrow> 'a fs_state_scheme \<Rightarrow>
    stop + (i32 \<times> 'a fs_state_scheme)" where
  "writei dv i src off s =
     (let ip = inodes s ! i; n = of_nat (length src) in
      if itype ip = T_DEV then
        (if sint (imajor ip) < 0 \<or> sint (imajor ip) \<ge> 10 then Inr (- 1, s)
         else case dv (imajor ip) of None \<Rightarrow> Inr (- 1, s) | Some (rd, wr) \<Rightarrow> wr i src s)
      else if off > isize ip \<or> off + n < off then Inr (- 1, s)
      else if off + n > MAXFILE * 512 then Inr (- 1, s)
      else
        bindE (write_blocks i src off s) (\<lambda>(off, s).
        bindE (if n > 0 \<and> off > isize (inodes s ! i)
               then iupdate i (upd_inode i (isize_update (\<lambda>_. off)) s) else Inr s) (\<lambda>s.
        Inr (n, s))))"

section \<open>Directories\<close>

definition namecmp :: "bytes \<Rightarrow> bytes \<Rightarrow> i32" where
  "namecmp x y = strncmp (arr x) (arr y) DIRSIZ"

text \<open>\<open>struct dirent\<close>: a 16-bit inode number and 14 characters.\<close>

definition de_inum :: "bytes \<Rightarrow> u16" where "de_inum d = get16 d 0"
definition de_name :: "bytes \<Rightarrow> bytes" where "de_name d = take DIRSIZ (drop 2 d)"

fun dir_scan :: "nat \<Rightarrow> bytes \<Rightarrow> nat list \<Rightarrow> 'a fs_state_scheme \<Rightarrow>
    stop + ((nat \<times> u32) option \<times> 'a fs_state_scheme)" where
  "dir_scan i nm [] s = Inr (None, s)"
| "dir_scan i nm (off # offs) s =
     bindE (readi (\<lambda>_. None) i (of_nat off) 16 s) (\<lambda>((r, de), s).
       if r \<noteq> 16 then Inl (Panic ''dirlookup read'')
       else if de_inum de = 0 then dir_scan i nm offs s
       else if namecmp nm (de_name de) = 0 then
         bindE (iget (idev (inodes s ! i)) (ucast (de_inum de)) s) (\<lambda>(j, s).
         Inr (Some (j, of_nat off), s))
       else dir_scan i nm offs s)"

definition dir_offs :: "nat \<Rightarrow> nat list" where
  "dir_offs n = map (\<lambda>k. 16 * k) [0..<(n + 15) div 16]"

text \<open>The result pairs the inode with the offset stored through \<open>poff\<close>.\<close>

definition dirlookup :: "nat \<Rightarrow> bytes \<Rightarrow> 'a fs_state_scheme \<Rightarrow>
    stop + ((nat \<times> u32) option \<times> 'a fs_state_scheme)" where
  "dirlookup i nm s =
     (if itype (inodes s ! i) \<noteq> T_DIR then Inl (Panic ''dirlookup not DIR'')
      else dir_scan i nm (dir_offs (unat (isize (inodes s ! i)))) s)"

text \<open>The second loop of \<open>dirlink\<close>: the offset of the first free entry and the last entry read.\<close>

fun dir_free :: "nat \<Rightarrow> bytes \<Rightarrow> nat \<Rightarrow> nat list \<Rightarrow> 'a fs_state_scheme \<Rightarrow>
    stop + ((nat \<times> bytes) \<times> 'a fs_state_scheme)" where
  "dir_free i de0 end [] s = Inr ((end, de0), s)"
| "dir_free i de0 end (off # offs) s =
     bindE (readi (\<lambda>_. None) i (of_nat off) 16 s) (\<lambda>((r, de), s).
       if r \<noteq> 16 then Inl (Panic ''dirlink read'')
       else if de_inum de = 0 then Inr ((off, de), s)
       else dir_free i de end offs s)"

definition dirlink :: "nat \<Rightarrow> bytes \<Rightarrow> u32 \<Rightarrow> 'a fs_state_scheme \<Rightarrow> stop + (i32 \<times> 'a fs_state_scheme)" where
  "dirlink i nm n s =
     bindE (dirlookup i nm s) (\<lambda>(r, s).
       case r of Some (j, _) \<Rightarrow> bindE (iput j s) (\<lambda>s. Inr (- 1, s))
       | None \<Rightarrow>
           let offs = dir_offs (unat (isize (inodes s ! i))) in
           bindE (dir_free i (replicate 16 0) (16 * length offs) offs s) (\<lambda>((off, de), s).
           let de = put16 0 (ucast n) (take 2 de @ strncpy (de_name de) (arr nm) (int DIRSIZ)) in
           bindE (writei (\<lambda>_. None) i de (of_nat off) s) (\<lambda>(r, s).
             if r \<noteq> 16 then Inl (Panic ''dirlink'') else Inr (0, s))))"

section \<open>Paths\<close>

text \<open>
  A path is the list of its characters before the NUL; \<open>name\<close> is the 14-byte buffer of the caller.
\<close>

abbreviation (input) slash :: u8 where "slash \<equiv> 47"

definition skipelem :: "bytes \<Rightarrow> bytes \<Rightarrow> (bytes \<times> bytes) option" where
  "skipelem path nm =
     (let path = dropWhile (\<lambda>c. c = slash) path in
      if path = [] then None
      else
        let e = takeWhile (\<lambda>c. c \<noteq> slash) path;
            path = dropWhile (\<lambda>c. c \<noteq> slash) path;
            nm = (if length e \<ge> DIRSIZ then take DIRSIZ e else e @ 0 # drop (length e + 1) nm)
        in Some (dropWhile (\<lambda>c. c = slash) path, nm))"

lemma length_dropWhile_less: "xs \<noteq> [] \<Longrightarrow> P (hd xs) \<Longrightarrow> length (dropWhile P xs) < length xs"
  by (cases xs) (auto simp: less_Suc_eq_le length_dropWhile_le)

lemma skipelem_shorter:
  assumes "skipelem path nm = Some (rest, nm')"
  shows "length rest < length path"
proof -
  let ?p = "dropWhile (\<lambda>c. c = slash) path"
  have ne: "?p \<noteq> []" and rest: "rest = dropWhile (\<lambda>c. c = slash) (dropWhile (\<lambda>c. c \<noteq> slash) ?p)"
    using assms by (auto simp: skipelem_def Let_def split: if_splits)
  have "hd ?p \<noteq> slash" using hd_dropWhile [OF ne] by simp
  then have "length (dropWhile (\<lambda>c. c \<noteq> slash) ?p) < length ?p"
    using ne by (intro length_dropWhile_less) simp_all
  moreover have "length rest \<le> length (dropWhile (\<lambda>c. c \<noteq> slash) ?p)"
    unfolding rest by (rule length_dropWhile_le)
  moreover have "length ?p \<le> length path" by (rule length_dropWhile_le)
  ultimately show ?thesis by linarith
qed

function namex_loop :: "nat \<Rightarrow> bytes \<Rightarrow> bool \<Rightarrow> bytes \<Rightarrow> 'a fs_state_scheme \<Rightarrow>
    stop + ((nat option \<times> bytes) \<times> 'a fs_state_scheme)" where
  "namex_loop i path par nm s =
     (case skipelem path nm of
        None \<Rightarrow>
          if par then bindE (iput i s) (\<lambda>s. Inr ((None, nm), s)) else Inr ((Some i, nm), s)
      | Some (path, nm) \<Rightarrow>
          bindE (ilock i s) (\<lambda>s.
            if itype (inodes s ! i) \<noteq> T_DIR then bindE (iunlockput i s) (\<lambda>s. Inr ((None, nm), s))
            else if par \<and> path = [] then bindE (iunlock i s) (\<lambda>s. Inr ((Some i, nm), s))
            else
              bindE (dirlookup i nm s) (\<lambda>(r, s).
                case r of
                  None \<Rightarrow> bindE (iunlockput i s) (\<lambda>s. Inr ((None, nm), s))
                | Some (j, _) \<Rightarrow> bindE (iunlockput i s) (namex_loop j path par nm))))"
  by pat_completeness auto
termination
  by (relation "measure (\<lambda>(i, path, par, nm, s). length path)") (auto dest: skipelem_shorter)

declare namex_loop.simps [simp del]

definition namex :: "bytes \<Rightarrow> bool \<Rightarrow> bytes \<Rightarrow> 'a fs_state_scheme \<Rightarrow>
    stop + ((nat option \<times> bytes) \<times> 'a fs_state_scheme)" where
  "namex path par nm s =
     bindE (if path \<noteq> [] \<and> hd path = slash then iget ROOTDEV ROOTINO s
            else bindE (myproc s) (\<lambda>me.
                 bindE (idup (cwd (procs s ! me)) s) (\<lambda>(q, s). Inr (the q, s)))) (\<lambda>(i, s).
     namex_loop i path par nm s)"

definition namei :: "bytes \<Rightarrow> 'a fs_state_scheme \<Rightarrow> stop + (nat option \<times> 'a fs_state_scheme)" where
  "namei path s =
     bindE (namex path False (replicate DIRSIZ 0) s) (\<lambda>((r, _), s). Inr (r, s))"

definition nameiparent :: "bytes \<Rightarrow> bytes \<Rightarrow> 'a fs_state_scheme \<Rightarrow>
    stop + ((nat option \<times> bytes) \<times> 'a fs_state_scheme)" where
  "nameiparent path nm s = namex path True nm s"

definition getcwdinum :: "'a fs_state_scheme \<Rightarrow> stop + u32" where
  "getcwdinum s =
     bindE (myproc s) (\<lambda>me.
       case cwd (procs s ! me) of None \<Rightarrow> Inl (Fault ''getcwdinum'') | Some i \<Rightarrow> Inr (inum (inodes s ! i)))"

end
