(* ===== verification/Xv6_File.thy ===== *)
theory Xv6_File
  imports Xv6_Fs
begin

text \<open>
  Open files (\<open>file.c\<close>) and pipes (\<open>pipe.c\<close>). A \<open>file*\<close> is an index of the file table; a \<open>pipe*\<close> is
  the address of the page that holds the pipe, whose fields are kept beside the memory.
\<close>

section \<open>State\<close>

abbreviation NFILE :: nat where "NFILE \<equiv> 100"
abbreviation PIPESIZE :: nat where "PIPESIZE \<equiv> 512"

datatype fdtype = FD_NONE | FD_PIPE | FD_INODE

record kfile =
  ftype :: fdtype
  fref :: int
  readable :: bool
  writable :: bool
  fpipe :: u32
  fip :: nat
  foff :: u32

record pipe =
  pdata :: bytes
  nread :: u32
  nwrite :: u32
  readopen :: bool
  writeopen :: bool

record file_state = fs_state +
  files :: "kfile list"
  pipes :: "u32 \<Rightarrow> pipe"

definition upd_file :: "nat \<Rightarrow> (kfile \<Rightarrow> kfile) \<Rightarrow> 'a file_state_scheme \<Rightarrow> 'a file_state_scheme" where
  "upd_file f g s = s\<lparr>files := (files s)[f := g (files s ! f)]\<rparr>"

definition upd_pipe :: "u32 \<Rightarrow> (pipe \<Rightarrow> pipe) \<Rightarrow> 'a file_state_scheme \<Rightarrow> 'a file_state_scheme" where
  "upd_pipe p g s = s\<lparr>pipes := (pipes s)(p := g (pipes s p))\<rparr>"

section \<open>The file table\<close>

definition filealloc :: "'a file_state_scheme \<Rightarrow> stop + (nat option \<times> 'a file_state_scheme)" where
  "filealloc s =
     bindE (acquire L_ftable s) (\<lambda>s.
       case find_slot (\<lambda>f. fref f = 0) (files s) of
         Some f \<Rightarrow> bindE (release L_ftable (upd_file f (fref_update (\<lambda>_. 1)) s)) (\<lambda>s. Inr (Some f, s))
       | None \<Rightarrow> bindE (release L_ftable s) (\<lambda>s. Inr (None, s)))"

definition filedup :: "nat \<Rightarrow> 'a file_state_scheme \<Rightarrow> stop + 'a file_state_scheme" where
  "filedup f s =
     bindE (acquire L_ftable s) (\<lambda>s.
       if fref (files s ! f) < 1 then Inl (Panic ''filedup'')
       else release L_ftable (upd_file f (\<lambda>x. x\<lparr>fref := fref x + 1\<rparr>) s))"

section \<open>Pipes\<close>

definition pipeclose :: "u32 \<Rightarrow> bool \<Rightarrow> 'a file_state_scheme \<Rightarrow> stop + 'a file_state_scheme" where
  "pipeclose p wr s =
     bindE (acquire (L_pipe p) s) (\<lambda>s.
     bindE (if wr then wakeup (ChPipeR p) (upd_pipe p (writeopen_update (\<lambda>_. False)) s)
            else wakeup (ChPipeW p) (upd_pipe p (readopen_update (\<lambda>_. False)) s)) (\<lambda>s.
     if \<not> readopen (pipes s p) \<and> \<not> writeopen (pipes s p)
     then bindE (release (L_pipe p) s) (kfree p)
     else release (L_pipe p) s))"

text \<open>
  The loop of \<open>pipewrite\<close> on the bytes still to be written, entered with the pipe locked. When it
  sleeps it comes back with those bytes, from which \<open>pipewrite_resume\<close> goes on.
\<close>

fun pipewrite_loop :: "u32 \<Rightarrow> i32 \<Rightarrow> bytes \<Rightarrow> 'a file_state_scheme \<Rightarrow>
    stop + ((i32 run \<times> bytes) \<times> 'a file_state_scheme)" where
  "pipewrite_loop p n [] s =
     bindE (wakeup (ChPipeR p) s) (\<lambda>s.
     bindE (release (L_pipe p) s) (\<lambda>s. Inr ((Done n, []), s)))"
| "pipewrite_loop p n (b # bs) s =
     (let x = pipes s p in
      if nwrite x = nread x + 512 then
        bindE (myproc s) (\<lambda>me.
          if \<not> readopen x \<or> killed (procs s ! me) \<noteq> 0
          then bindE (release (L_pipe p) s) (\<lambda>s. Inr ((Done (- 1), []), s))
          else
            bindE (wakeup (ChPipeR p) s) (\<lambda>s.
            bindE (sleep_enter (ChPipeW p) (L_pipe p) s) (\<lambda>s. Inr ((Asleep, b # bs), s))))
      else
        pipewrite_loop p n bs (upd_pipe p (\<lambda>x. x\<lparr>pdata := (pdata x)[unat (nwrite x) mod PIPESIZE := b],
          nwrite := nwrite x + 1\<rparr>) s))"

definition pipewrite :: "u32 \<Rightarrow> bytes \<Rightarrow> 'a file_state_scheme \<Rightarrow>
    stop + ((i32 run \<times> bytes) \<times> 'a file_state_scheme)" where
  "pipewrite p bs s = bindE (acquire (L_pipe p) s) (pipewrite_loop p (of_nat (length bs)) bs)"

definition pipewrite_resume :: "u32 \<Rightarrow> i32 \<Rightarrow> bytes \<Rightarrow> 'a file_state_scheme \<Rightarrow>
    stop + ((i32 run \<times> bytes) \<times> 'a file_state_scheme)" where
  "pipewrite_resume p n bs s = bindE (sleep_leave (L_pipe p) s) (pipewrite_loop p n bs)"

text \<open>The copying loop of \<open>piperead\<close>: at most \<open>n\<close> bytes, while there are any.\<close>

fun pipe_take :: "nat \<Rightarrow> pipe \<Rightarrow> bytes \<times> pipe" where
  "pipe_take 0 x = ([], x)"
| "pipe_take (Suc n) x =
     (if nread x = nwrite x then ([], x)
      else
        let (bs, y) = pipe_take n (x\<lparr>nread := nread x + 1\<rparr>)
        in (pdata x ! (unat (nread x) mod PIPESIZE) # bs, y))"

definition piperead_locked :: "u32 \<Rightarrow> int \<Rightarrow> 'a file_state_scheme \<Rightarrow>
    stop + ((i32 run \<times> bytes) \<times> 'a file_state_scheme)" where
  "piperead_locked p n s =
     (let x = pipes s p in
      if nread x = nwrite x \<and> writeopen x then
        bindE (myproc s) (\<lambda>me.
          if killed (procs s ! me) \<noteq> 0
          then bindE (release (L_pipe p) s) (\<lambda>s. Inr ((Done (- 1), []), s))
          else bindE (sleep_enter (ChPipeR p) (L_pipe p) s) (\<lambda>s. Inr ((Asleep, []), s)))
      else
        let (bs, y) = pipe_take (nat n) x in
        bindE (wakeup (ChPipeW p) (upd_pipe p (\<lambda>_. y) s)) (\<lambda>s.
        bindE (release (L_pipe p) s) (\<lambda>s. Inr ((Done (of_nat (length bs)), bs), s))))"

definition piperead :: "u32 \<Rightarrow> int \<Rightarrow> 'a file_state_scheme \<Rightarrow>
    stop + ((i32 run \<times> bytes) \<times> 'a file_state_scheme)" where
  "piperead p n s = bindE (acquire (L_pipe p) s) (piperead_locked p n)"

definition piperead_resume :: "u32 \<Rightarrow> int \<Rightarrow> 'a file_state_scheme \<Rightarrow>
    stop + ((i32 run \<times> bytes) \<times> 'a file_state_scheme)" where
  "piperead_resume p n s = bindE (sleep_leave (L_pipe p) s) (piperead_locked p n)"

section \<open>Closing, reading and writing files\<close>

definition fileclose :: "nat \<Rightarrow> 'a file_state_scheme \<Rightarrow> stop + 'a file_state_scheme" where
  "fileclose f s =
     bindE (acquire L_ftable s) (\<lambda>s.
       if fref (files s ! f) < 1 then Inl (Panic ''fileclose'')
       else
         let s = upd_file f (\<lambda>x. x\<lparr>fref := fref x - 1\<rparr>) s in
         if fref (files s ! f) > 0 then release L_ftable s
         else
           let ff = files s ! f; s = upd_file f (\<lambda>x. x\<lparr>fref := 0, ftype := FD_NONE\<rparr>) s in
           bindE (release L_ftable s) (\<lambda>s.
             case ftype ff of
               FD_PIPE \<Rightarrow> pipeclose (fpipe ff) (writable ff) s
             | FD_INODE \<Rightarrow> bindE (begin_op s) (\<lambda>s. bindE (iput (fip ff) s) end_op)
             | FD_NONE \<Rightarrow> Inr s))"

definition pipealloc :: "'a file_state_scheme \<Rightarrow> stop + ((i32 \<times> nat \<times> nat) \<times> 'a file_state_scheme)" where
  "pipealloc s =
     bindE (filealloc s) (\<lambda>(f0, s).
     case f0 of None \<Rightarrow> Inr ((- 1, 0, 0), s)
     | Some f0 \<Rightarrow>
       bindE (filealloc s) (\<lambda>(f1, s).
       case f1 of None \<Rightarrow> bindE (fileclose f0 s) (\<lambda>s. Inr ((- 1, 0, 0), s))
       | Some f1 \<Rightarrow>
         bindE (kalloc s) (\<lambda>(p, s).
           if p = 0 then
             bindE (fileclose f0 s) (\<lambda>s. bindE (fileclose f1 s) (\<lambda>s. Inr ((- 1, 0, 0), s)))
           else
             let s = upd_pipe p (\<lambda>x. x\<lparr>readopen := True, writeopen := True, nwrite := 0, nread := 0\<rparr>) s;
                 s = upd_file f0 (\<lambda>x. x\<lparr>ftype := FD_PIPE, readable := True, writable := False, fpipe := p\<rparr>) s;
                 s = upd_file f1 (\<lambda>x. x\<lparr>ftype := FD_PIPE, readable := False, writable := True, fpipe := p\<rparr>) s
             in Inr ((0, f0, f1), s))))"

definition filestat :: "nat \<Rightarrow> 'a file_state_scheme \<Rightarrow> stop + (stat option \<times> 'a file_state_scheme)" where
  "filestat f s =
     (let x = files s ! f in
      if ftype x = FD_INODE then
        bindE (ilock (fip x) s) (\<lambda>s.
        let st = stati (fip x) s in
        bindE (iunlock (fip x) s) (\<lambda>s. Inr (Some st, s)))
      else Inr (None, s))"

text \<open>A pipe can put the caller to sleep; a file cannot.\<close>

definition fileread :: "'a file_state_scheme devsw \<Rightarrow> nat \<Rightarrow> i32 \<Rightarrow> 'a file_state_scheme \<Rightarrow>
    stop + ((i32 run \<times> bytes) \<times> 'a file_state_scheme)" where
  "fileread dv f n s =
     (let x = files s ! f in
      if \<not> readable x then Inr ((Done (- 1), []), s)
      else case ftype x of
        FD_PIPE \<Rightarrow> piperead (fpipe x) (sint n) s
      | FD_INODE \<Rightarrow>
          bindE (ilock (fip x) s) (\<lambda>s.
          bindE (readi dv (fip x) (foff (files s ! f)) n s) (\<lambda>((r, d), s).
          let s = (if sint r > 0 then upd_file f (\<lambda>x. x\<lparr>foff := foff x + r\<rparr>) s else s) in
          bindE (iunlock (fip x) s) (\<lambda>s. Inr ((Done r, d), s))))
      | FD_NONE \<Rightarrow> Inl (Panic ''fileread''))"

text \<open>
  The loop of \<open>filewrite\<close> on an inode: transactions of at most \<open>((MAXOPBLOCKS-1-1-2)/2)*512 = 1536\<close>
  bytes. The result is whether all bytes went out.
\<close>

function filewrite_loop :: "'a file_state_scheme devsw \<Rightarrow> nat \<Rightarrow> bytes \<Rightarrow> 'a file_state_scheme \<Rightarrow>
    stop + (bool \<times> 'a file_state_scheme)" where
  "filewrite_loop dv f bs s =
     (if bs = [] then Inr (True, s)
      else
        let n1 = min (length bs) 1536; ip = fip (files s ! f) in
        bindE (begin_op s) (\<lambda>s.
        bindE (ilock ip s) (\<lambda>s.
        bindE (writei dv ip (take n1 bs) (foff (files s ! f)) s) (\<lambda>(r, s).
        let s = (if sint r > 0 then upd_file f (\<lambda>x. x\<lparr>foff := foff x + r\<rparr>) s else s) in
        bindE (iunlock ip s) (\<lambda>s.
        bindE (end_op s) (\<lambda>s.
          if sint r < 0 then Inr (False, s)
          else if r \<noteq> of_nat n1 then Inl (Panic ''short filewrite'')
          else filewrite_loop dv f (drop n1 bs) s))))))"
  by pat_completeness auto
termination by (relation "measure (\<lambda>(dv, f, bs, s). length bs)") (auto simp: Let_def min_def)

declare filewrite_loop.simps [simp del]

definition filewrite :: "'a file_state_scheme devsw \<Rightarrow> nat \<Rightarrow> bytes \<Rightarrow> 'a file_state_scheme \<Rightarrow>
    stop + ((i32 run \<times> bytes) \<times> 'a file_state_scheme)" where
  "filewrite dv f bs s =
     (let x = files s ! f in
      if \<not> writable x then Inr ((Done (- 1), []), s)
      else case ftype x of
        FD_PIPE \<Rightarrow> pipewrite (fpipe x) bs s
      | FD_INODE \<Rightarrow>
          bindE (filewrite_loop dv f bs s) (\<lambda>(ok, s).
          Inr ((Done (if ok then of_nat (length bs) else - 1), []), s))
      | FD_NONE \<Rightarrow> Inl (Panic ''filewrite''))"

end
