(* ===== verification/Xv6_PipeSpec.thy ===== *)
theory Xv6_PipeSpec
  imports Xv6_File Xv6_ProcSpec
begin

text \<open>
  The pipe as a queue of bytes: the two 32-bit counters run freely and wrap, and the ring of 512
  bytes holds the bytes between them, oldest first.
\<close>

section \<open>The queue in the ring\<close>

definition pipe_cell :: "pipe \<Rightarrow> nat \<Rightarrow> nat" where
  "pipe_cell x k = unat (nread x + of_nat k) mod PIPESIZE"

definition pipe_queue :: "pipe \<Rightarrow> bytes" where
  "pipe_queue x = map (\<lambda>k. pdata x ! pipe_cell x k) [0..<unat (nwrite x - nread x)]"

definition pipe_ok :: "pipe \<Rightarrow> bool" where
  "pipe_ok x \<longleftrightarrow> length (pdata x) = PIPESIZE \<and> unat (nwrite x - nread x) \<le> PIPESIZE"

definition pipe_put :: "u8 \<Rightarrow> pipe \<Rightarrow> pipe" where
  "pipe_put b x = x\<lparr>pdata := (pdata x)[unat (nwrite x) mod PIPESIZE := b], nwrite := nwrite x + 1\<rparr>"

lemma pipe_put_sel [simp]:
  "nread (pipe_put b x) = nread x" "nwrite (pipe_put b x) = nwrite x + 1"
  by (simp_all add: pipe_put_def)

definition pipe_get :: "pipe \<Rightarrow> u8 \<times> pipe" where
  "pipe_get x = (pdata x ! (unat (nread x) mod PIPESIZE), x\<lparr>nread := nread x + 1\<rparr>)"

lemma length_pipe_queue: "length (pipe_queue x) = unat (nwrite x - nread x)"
  by (simp add: pipe_queue_def)

text \<open>The ring size divides the range of the counters, so a wrapped counter finds its cell.\<close>

lemma unat_add_mod_512: "unat (a + of_nat k :: u32) mod 512 = (unat a + k) mod 512"
proof -
  have "unat (a + of_nat k :: u32) = (unat a + k) mod 4294967296"
    by (simp add: unat_word_ariths unat_of_nat mod_add_right_eq)
  moreover have "(unat a + k) mod 4294967296 mod 512 = (unat a + k) mod 512"
    by (rule mod_mod_cancel) simp
  ultimately show ?thesis by simp
qed

lemma pipe_cell_eq: "pipe_cell x k = (unat (nread x) + k) mod 512"
  by (simp add: pipe_cell_def unat_add_mod_512)

lemma mod_shift_inj:
  fixes a j k :: nat
  assumes "j < 512" and "k < 512" and "(a + j) mod 512 = (a + k) mod 512"
  shows "j = k"
proof -
  have le: "i = l" if "i \<le> l" "l < 512" "(a + l) mod 512 = (a + i) mod 512" for i l :: nat
  proof -
    have "512 dvd (a + l) - (a + i)" using that by (simp add: mod_eq_dvd_iff_nat)
    then show ?thesis using that by (auto dest: dvd_imp_le)
  qed
  show ?thesis
  proof (cases "j \<le> k")
    case True
    then show ?thesis using le [of j k] assms by simp
  next
    case False
    then show ?thesis using le [of k j] assms by simp
  qed
qed

lemma pipe_cell_inj:
  assumes "j < 512" and "k < 512" and "pipe_cell x j = pipe_cell x k"
  shows "j = k"
  using mod_shift_inj [OF assms(1,2), of "unat (nread x)"] assms(3) by (simp add: pipe_cell_eq)

lemma nwrite_cell: "unat (nwrite x) mod 512 = pipe_cell x (unat (nwrite x - nread x))"
  by (simp add: pipe_cell_def)

lemma full_iff: "nwrite x = nread x + 512 \<longleftrightarrow> length (pipe_queue x) = 512"
proof -
  have "nwrite x = nread x + 512 \<longleftrightarrow> nwrite x - nread x = 512" by (metis add.commute diff_add_cancel add_diff_cancel_left')
  also have "\<dots> \<longleftrightarrow> unat (nwrite x - nread x) = unat (512 :: u32)" by (simp only: word_unat_eq_iff)
  finally show ?thesis by (simp add: length_pipe_queue)
qed

lemma empty_iff: "nread x = nwrite x \<longleftrightarrow> pipe_queue x = []"
proof -
  have "pipe_queue x = [] \<longleftrightarrow> unat (nwrite x - nread x) = 0"
    using length_pipe_queue [of x] by (metis length_0_conv)
  then show ?thesis by (auto simp: unat_eq_0)
qed

text \<open>A store into the cell after the last byte appends; a step of \<open>nread\<close> drops the first byte.\<close>

lemma unat_Suc_diff:
  fixes a b :: u32
  assumes "unat (a - b) \<le> 512"
  shows "unat (a + 1 - b) = Suc (unat (a - b))"
proof -
  have "unat ((a - b) + of_nat 1) = unat (a - b) + 1" using assms by (intro unat_add_of_nat32) simp
  then show ?thesis by (simp add: algebra_simps)
qed

lemma pipe_put_queue:
  assumes "pipe_ok x" and "length (pipe_queue x) < 512"
  shows "pipe_ok (pipe_put b x)" and "pipe_queue (pipe_put b x) = pipe_queue x @ [b]"
proof -
  let ?n = "unat (nwrite x - nread x)"
  have n: "?n < 512" "length (pdata x) = 512" using assms by (simp_all add: pipe_ok_def length_pipe_queue)
  have up: "unat (nwrite x + 1 - nread x) = Suc ?n" using n by (intro unat_Suc_diff) simp
  then show "pipe_ok (pipe_put b x)" using n by (simp add: pipe_ok_def pipe_put_def)
  have cell: "pipe_cell (pipe_put b x) k = pipe_cell x k" for k
    by (simp add: pipe_cell_def)
  have old: "pdata (pipe_put b x) ! pipe_cell x k = pdata x ! pipe_cell x k" if "k < ?n" for k
  proof -
    have "pipe_cell x k \<noteq> pipe_cell x ?n" using pipe_cell_inj [of k ?n x] that n by auto
    then show ?thesis by (simp add: pipe_put_def nwrite_cell)
  qed
  have new: "pdata (pipe_put b x) ! pipe_cell x ?n = b"
    using n by (simp add: pipe_put_def nwrite_cell pipe_cell_eq)
  have "pipe_queue (pipe_put b x) = map (\<lambda>k. pdata (pipe_put b x) ! pipe_cell x k) [0..<Suc ?n]"
    by (simp add: pipe_queue_def cell up del: upt_Suc)
  then show "pipe_queue (pipe_put b x) = pipe_queue x @ [b]"
    using old new by (simp add: pipe_queue_def)
qed

lemma pipe_get_queue:
  assumes "pipe_ok x" and "pipe_queue x \<noteq> []" and "pipe_get x = (b, y)"
  shows "pipe_ok y" and "pipe_queue x = b # pipe_queue y"
proof -
  let ?n = "unat (nwrite x - nread x)"
  have y: "y = x\<lparr>nread := nread x + 1\<rparr>" "b = pdata x ! (unat (nread x) mod 512)"
    using assms(3) by (auto simp: pipe_get_def)
  have "0 < length (pipe_queue x)" using assms(2) by simp
  then have n: "0 < ?n" "?n \<le> 512" "length (pdata x) = 512"
    using assms(1) by (simp_all only: length_pipe_queue pipe_ok_def)
  have dn: "unat (nwrite x - (nread x + 1)) = ?n - 1"
  proof -
    have "nwrite x - (nread x + 1) = (nwrite x - nread x) - 1" by (simp add: algebra_simps)
    moreover have "1 \<le> nwrite x - nread x" using n by (simp add: word_le_nat_alt)
    ultimately show ?thesis using unat_sub32 [of 1 "nwrite x - nread x"] by (simp only: unat_1 refl)
  qed
  then show "pipe_ok y" using n by (simp add: pipe_ok_def y)
  have "pipe_cell y k = pipe_cell x (Suc k)" for k
    by (simp add: pipe_cell_def y algebra_simps)
  then have "pipe_queue y = map (\<lambda>k. pdata x ! pipe_cell x (Suc k)) [0..<?n - 1]"
    by (simp add: pipe_queue_def y dn)
  moreover have "[0..<?n] = 0 # map Suc [0..<?n - 1]"
    using n by (metis Suc_diff_1 map_Suc_upt upt_conv_Cons)
  ultimately show "pipe_queue x = b # pipe_queue y"
    by (simp add: pipe_queue_def y pipe_cell_def comp_def)
qed

section \<open>A bounded queue as an interface\<close>

text \<open>
  What the readers and writers of a pipe rely on: a representation of a list of at most \<open>cap\<close>
  items, to which \<open>put\<close> appends and from which \<open>get\<close> takes the first.
\<close>

locale bounded_queue =
  fixes put :: "'x \<Rightarrow> 'q \<Rightarrow> 'q" and get :: "'q \<Rightarrow> 'x \<times> 'q" and items :: "'q \<Rightarrow> 'x list"
    and ok :: "'q \<Rightarrow> bool" and cap :: nat
  assumes put_items: "ok q \<Longrightarrow> length (items q) < cap \<Longrightarrow> ok (put x q) \<and> items (put x q) = items q @ [x]"
    and get_items: "ok q \<Longrightarrow> items q \<noteq> [] \<Longrightarrow> get q = (x, r) \<Longrightarrow> ok r \<and> items q = x # items r"
begin

lemma fold_put:
  "ok q \<Longrightarrow> length (items q) + length xs \<le> cap \<Longrightarrow>
   ok (fold put xs q) \<and> items (fold put xs q) = items q @ xs"
proof (induction xs arbitrary: q)
  case (Cons x xs)
  then have "ok (put x q)" "items (put x q) = items q @ [x]" using put_items by simp_all
  then show ?case using Cons by simp
qed simp

primrec gets :: "nat \<Rightarrow> 'q \<Rightarrow> 'x list \<times> 'q" where
  "gets 0 q = ([], q)"
| "gets (Suc n) q = (if items q = [] then ([], q) else
     let (x, r) = get q; (xs, s) = gets n r in (x # xs, s))"

lemma gets_items:
  "ok q \<Longrightarrow> gets n q = (xs, r) \<Longrightarrow> ok r \<and> xs = take n (items q) \<and> items r = drop n (items q)"
proof (induction n arbitrary: q xs)
  case (Suc n)
  show ?case
  proof (cases "items q = []")
    case False
    obtain x r1 where g: "get q = (x, r1)" by fastforce
    obtain ys s1 where h: "gets n r1 = (ys, s1)" by fastforce
    have "ok r1" "items q = x # items r1" using get_items [OF Suc.prems(1) False g] by simp_all
    then show ?thesis using Suc.prems(2) Suc.IH [of r1 ys] False g h by auto
  next
    case True
    then show ?thesis using Suc.prems by auto
  qed
qed simp

text \<open>What goes in comes out, in order: \<open>n\<close> items put in and taken again from an empty queue.\<close>

lemma fifo:
  assumes "ok q" and "items q = []" and "length xs \<le> cap"
  shows "fst (gets (length xs) (fold put xs q)) = xs"
  using fold_put [OF assms(1), of xs] gets_items [of "fold put xs q" "length xs"] assms(2,3)
  by (metis append_Nil list.size(3) prod.collapse take_all_iff add_0 order_refl)

end

interpretation pipeq: bounded_queue pipe_put pipe_get pipe_queue pipe_ok PIPESIZE
  using pipe_put_queue pipe_get_queue by unfold_locales (auto simp del: length_greater_0_conv)

lemma pipe_take_gets: "pipe_take n x = pipeq.gets n x"
  by (induction n arbitrary: x) (auto simp: empty_iff pipe_get_def split: prod.splits)

section \<open>Reading and writing\<close>

text \<open>The witnesses run on a machine with the pipe at one page and a single running process.\<close>

definition machine_pipe :: "u32 \<Rightarrow> pipe \<Rightarrow> file_state" where
  "machine_pipe p x =
    \<lparr>held = [], mem = (\<lambda>_. 0), freelist = 0, use_lock = True, kend = 0x80100000,
     kpgdir = 0, kdata = 0x80108000, cr3 = 0,
     procs = [proc0\<lparr>state := RUNNING, pid := 1\<rparr>], nextpid = 10, curproc = Some 0, initproc = Some 0,
     esp0 = 0, ticks = 0, ktrapret = 0, kforkret = 0, kinitcode = [],
     disk = (\<lambda>_ _. []), ide_active = None, ideerr = False, dwrites = [], idequeue = None,
     havedisk1 = False, bufs = [],
     logstart = 2, logsize = 30, outstanding = 0, committing = False, logdev = 1, lh = [],
     sb = sb_of (replicate 512 0), inodes = [], files = [],
     pipes = (\<lambda>q. if q = p then x else \<lparr>pdata = [], nread = 0, nwrite = 0, readopen = False, writeopen = False\<rparr>)\<rparr>"

lemma machine_pipe_sel [simp]:
  "held (machine_pipe p x) = []" "pipes (machine_pipe p x) p = x" "curproc (machine_pipe p x) = Some 0"
  "procs (machine_pipe p x) = [proc0\<lparr>state := RUNNING, pid := 1\<rparr>]"
  by (simp_all add: machine_pipe_def)

text \<open>A pipe whose counters are about to wrap, with \<open>n\<close> equal bytes in it.\<close>

definition wrapping_pipe :: "u32 \<Rightarrow> pipe" where
  "wrapping_pipe n = \<lparr>pdata = replicate PIPESIZE 7, nread = 0xFFFFFFFF, nwrite = n - 1,
     readopen = True, writeopen = True\<rparr>"

lemma wrapping_pipe_queue:
  assumes "n \<le> 512"
  shows "pipe_ok (wrapping_pipe n)" and "pipe_queue (wrapping_pipe n) = replicate (unat n) 7"
proof -
  have n: "unat n \<le> 512" using assms by (simp add: word_le_nat_alt)
  have "(4294967296 :: u32) = 0" by simp
  then have d: "nwrite (wrapping_pipe n) - nread (wrapping_pipe n) = n" by (simp add: wrapping_pipe_def)
  show "pipe_ok (wrapping_pipe n)" using n unfolding pipe_ok_def d by (simp add: wrapping_pipe_def)
  show "pipe_queue (wrapping_pipe n) = replicate (unat n) 7"
    unfolding pipe_queue_def d
    by (rule nth_equalityI) (simp_all add: wrapping_pipe_def pipe_cell_eq)
qed

text \<open>C23. \<open>piperead\<close> of a pipe that holds bytes returns the first \<open>n\<close> of them, in the order they were written, and leaves the rest, however far the counters have wrapped; it wakes the writers and lets go of the lock.\<close>

theorem piperead_takes:
  assumes "pipe_ok (pipes s p)" and "pipe_queue (pipes s p) \<noteq> []" and "0 \<le> n"
    and "L_pipe p \<notin> set (held s)" and "L_ptable \<notin> set (held s)"
  shows "\<exists>t. piperead p n s = Inr ((Done (of_nat (min (nat n) (length (pipe_queue (pipes s p))))),
      take (nat n) (pipe_queue (pipes s p))), t)
    \<and> pipe_ok (pipes t p) \<and> pipe_queue (pipes t p) = drop (nat n) (pipe_queue (pipes s p))
    \<and> (\<forall>q. q \<noteq> p \<longrightarrow> pipes t q = pipes s q)
    \<and> procs t = map (wake (ChPipeW p)) (procs s) \<and> held t = held s"
proof -
  obtain bs y where b: "pipe_take (nat n) (pipes s p) = (bs, y)" by fastforce
  then have "pipe_ok y" "bs = take (nat n) (pipe_queue (pipes s p))"
    "pipe_queue y = drop (nat n) (pipe_queue (pipes s p))"
    using pipeq.gets_items [OF assms(1)] by (simp_all add: pipe_take_gets)
  then show ?thesis using assms b
    by (auto simp: piperead_def acquire_ok piperead_locked_def empty_iff Let_def upd_pipe_def
        wakeup_def wakeup1_def release_ok min.commute)
qed

lemma piperead_takes_witness:
  "\<exists>t. piperead 0x80200000 2 (machine_pipe 0x80200000 (wrapping_pipe 3)) = Inr ((Done 2, [7, 7]), t)
    \<and> pipe_queue (pipes t 0x80200000) = [7]"
proof -
  have "replicate 3 (7 :: u8) = [7, 7, 7]" by (simp add: numeral_3_eq_3)
  then have q: "pipe_queue (wrapping_pipe 3) = [7, 7, 7]" using wrapping_pipe_queue(2) [of 3] by simp
  then show ?thesis
    using piperead_takes [of "machine_pipe 0x80200000 (wrapping_pipe 3)" "0x80200000" 2] wrapping_pipe_queue(1) [of 3]
    by auto
qed

text \<open>What one call of the writing loop has put in, when it returns and when it goes to sleep.\<close>

lemma pipewrite_loop_put:
  assumes "pipe_ok (pipes s p)" and "length (pipe_queue (pipes s p)) + length bs \<le> 512"
    and "held s = L_pipe p # ls" and "L_ptable \<notin> set (held s)"
  shows "\<exists>t. pipewrite_loop p n bs s = Inr ((Done n, []), t) \<and> pipes t = (pipes s)(p := fold pipe_put bs (pipes s p))
    \<and> procs t = map (wake (ChPipeR p)) (procs s) \<and> held t = ls"
  using assms
proof (induction bs arbitrary: s)
  case Nil
  then show ?case by (auto simp: wakeup_def wakeup1_def acquire_ok release_ok)
next
  case (Cons b bs)
  let ?u = "upd_pipe p (pipe_put b) s"
  have u: "pipes ?u = (pipes s)(p := pipe_put b (pipes s p))" "held ?u = held s" "procs ?u = procs s"
    by (simp_all add: upd_pipe_def)
  have eq: "pipe_put b = (\<lambda>x. x\<lparr>pdata := (pdata x)[unat (nwrite x) mod PIPESIZE := b], nwrite := nwrite x + 1\<rparr>)"
    by (simp add: fun_eq_iff pipe_put_def)
  have "nwrite (pipes s p) \<noteq> nread (pipes s p) + 512" using Cons.prems(2) by (simp add: full_iff)
  then have "pipewrite_loop p n (b # bs) s = pipewrite_loop p n bs ?u"
    by (simp add: eq upd_pipe_def Let_def)
  moreover have "pipe_ok (pipes ?u p)" "length (pipe_queue (pipes ?u p)) + length bs \<le> 512"
    using pipe_put_queue [OF Cons.prems(1), of b] Cons.prems(2) by (simp_all add: u)
  moreover have "(pipes ?u)(p := fold pipe_put bs (pipes ?u p)) = (pipes s)(p := fold pipe_put (b # bs) (pipes s p))"
    by (simp add: u)
  ultimately show ?case
    using Cons.IH [of ?u, OF _ _ trans [OF u(2) Cons.prems(3)]] Cons.prems(4) by (simp only: u not_False_eq_True)
qed

text \<open>\<open>pipewrite\<close> of bytes for which there is room appends them all to the queue, in order, wakes the readers and returns their number.\<close>

theorem pipewrite_appends:
  assumes "pipe_ok (pipes s p)" and "length (pipe_queue (pipes s p)) + length bs \<le> PIPESIZE"
    and "L_pipe p \<notin> set (held s)" and "L_ptable \<notin> set (held s)"
  shows "\<exists>t. pipewrite p bs s = Inr ((Done (of_nat (length bs)), []), t)
    \<and> pipe_ok (pipes t p) \<and> pipe_queue (pipes t p) = pipe_queue (pipes s p) @ bs
    \<and> procs t = map (wake (ChPipeR p)) (procs s) \<and> held t = held s"
proof -
  let ?s = "s\<lparr>held := L_pipe p # held s\<rparr>"
  obtain t where t: "pipewrite_loop p (of_nat (length bs)) bs ?s = Inr ((Done (of_nat (length bs)), []), t)"
    "pipes t = (pipes s)(p := fold pipe_put bs (pipes s p))" "procs t = map (wake (ChPipeR p)) (procs s)"
    "held t = held s"
    using pipewrite_loop_put [of ?s p bs "held s" "of_nat (length bs)"] assms by auto
  then show ?thesis
    using pipeq.fold_put [OF assms(1,2)] assms(3) by (simp add: pipewrite_def acquire_ok)
qed

lemma pipewrite_appends_witness:
  "\<exists>t. pipewrite 0x80200000 [1, 2] (machine_pipe 0x80200000 (wrapping_pipe 1)) = Inr ((Done 2, []), t)
    \<and> pipe_queue (pipes t 0x80200000) = [7, 1, 2]"
proof -
  have q: "pipe_queue (wrapping_pipe 1) = [7]" by (simp add: wrapping_pipe_queue)
  then show ?thesis
    using pipewrite_appends [of "machine_pipe 0x80200000 (wrapping_pipe 1)" "0x80200000" "[1, 2]"]
      wrapping_pipe_queue(1) [of 1]
    by auto
qed

text \<open>\<open>pipewrite\<close> that finds the pipe filling up puts in as many bytes as fit, wakes the readers and goes to sleep on the pipe with the rest still to write; nothing is lost or reordered.\<close>

theorem pipewrite_full_sleeps:
  assumes "pipe_ok (pipes s p)" and "PIPESIZE < length (pipe_queue (pipes s p)) + length bs"
    and "readopen (pipes s p)" and "curproc s = Some me" and "me < length (procs s)"
    and "killed (procs s ! me) = 0" and "held s = []"
  shows "\<exists>rest t. pipewrite p bs s = Inr ((Asleep, rest), t) \<and> pipe_ok (pipes t p)
    \<and> pipe_queue (pipes t p) @ rest = pipe_queue (pipes s p) @ bs \<and> length (pipe_queue (pipes t p)) = PIPESIZE
    \<and> state (procs t ! me) = SLEEPING \<and> chan (procs t ! me) = Some (ChPipeW p) \<and> held t = [L_ptable]"
proof -
  have loop: "\<exists>rest t. pipewrite_loop p n bs s = Inr ((Asleep, rest), t) \<and> pipe_ok (pipes t p)
    \<and> pipe_queue (pipes t p) @ rest = pipe_queue (pipes s p) @ bs \<and> length (pipe_queue (pipes t p)) = PIPESIZE
    \<and> state (procs t ! me) = SLEEPING \<and> chan (procs t ! me) = Some (ChPipeW p) \<and> held t = [L_ptable]"
    if "pipe_ok (pipes s p)" "PIPESIZE < length (pipe_queue (pipes s p)) + length bs" "readopen (pipes s p)"
      "curproc s = Some me" "me < length (procs s)" "killed (procs s ! me) = 0" "held s = [L_pipe p]"
    for n bs and s :: "'a file_state_scheme"
    using that
  proof (induction bs arbitrary: s)
    case (Cons b bs)
    show ?case
    proof (cases "length (pipe_queue (pipes s p)) = 512")
      case True
      then have "nwrite (pipes s p) = nread (pipes s p) + 512" by (simp add: full_iff)
      then show ?thesis using Cons.prems True
        by (simp add: myproc_def wakeup_def wakeup1_def acquire_ok release_ok sleep_enter_eq wake_def)
    next
      case False
      let ?u = "upd_pipe p (pipe_put b) s"
      have u: "pipes ?u = (pipes s)(p := pipe_put b (pipes s p))" "held ?u = held s" "procs ?u = procs s"
        "curproc ?u = curproc s" by (simp_all add: upd_pipe_def)
      have eq: "pipe_put b = (\<lambda>x. x\<lparr>pdata := (pdata x)[unat (nwrite x) mod PIPESIZE := b], nwrite := nwrite x + 1\<rparr>)"
        by (simp add: fun_eq_iff pipe_put_def)
      have "length (pipe_queue (pipes s p)) < 512"
        using False Cons.prems(1) by (simp add: pipe_ok_def length_pipe_queue)
      then have q: "pipe_ok (pipes ?u p)" "pipe_queue (pipes ?u p) = pipe_queue (pipes s p) @ [b]"
        using pipe_put_queue [OF Cons.prems(1), of b] by (simp_all add: u)
      have "pipewrite_loop p n (b # bs) s = pipewrite_loop p n bs ?u"
        using False by (simp add: eq upd_pipe_def Let_def full_iff)
      then show ?thesis using Cons.IH [of ?u] Cons.prems q u
        by (simp add: pipe_put_def del: pipewrite_loop.simps)
    qed
  qed (simp add: pipe_ok_def length_pipe_queue)
  show ?thesis
    using loop [of "s\<lparr>held := [L_pipe p]\<rparr>" bs "of_nat (length bs)"] assms
    by (simp add: pipewrite_def acquire_ok)
qed

lemma pipewrite_full_sleeps_witness:
  "\<exists>rest t. pipewrite 0x80200000 [1, 2] (machine_pipe 0x80200000 (wrapping_pipe 512)) = Inr ((Asleep, rest), t)
    \<and> pipe_queue (pipes t 0x80200000) @ rest = replicate 512 7 @ [1, 2] \<and> state (procs t ! 0) = SLEEPING"
proof -
  have q: "pipe_queue (wrapping_pipe 512) = replicate 512 7" by (simp add: wrapping_pipe_queue)
  have r: "readopen (wrapping_pipe 512)" by (simp add: wrapping_pipe_def)
  have k: "killed (proc0\<lparr>state := RUNNING, pid := 1\<rparr>) = 0" by (simp add: proc0_def)
  show ?thesis
    using pipewrite_full_sleeps [of "machine_pipe 0x80200000 (wrapping_pipe 512)" "0x80200000" "[1, 2]" 0]
      wrapping_pipe_queue(1) [of 512] q r k
    by auto
qed

end
