(* ===== verification/Xv6_BioSpec.thy ===== *)
theory Xv6_BioSpec
  imports Xv6_Bio Xv6_ProcSpec
begin

text \<open>
  The buffer cache as a cache: the ring as a list in order of use, the contents of a block as its
  holder sees them, and what \<open>bread\<close>, \<open>bwrite\<close> and \<open>brelse\<close> do to the two.
\<close>

section \<open>The ring as a list\<close>

fun chain :: "buf list \<Rightarrow> nat list \<Rightarrow> bool" where
  "chain bs (x # y # zs) \<longleftrightarrow> bnext (bs ! x) = y \<and> bprev (bs ! y) = x \<and> chain bs (y # zs)"
| "chain bs _ \<longleftrightarrow> True"

definition ring_ok :: "buf list \<Rightarrow> nat list \<Rightarrow> bool" where
  "ring_ok bs r \<longleftrightarrow> length bs = 31 \<and> distinct r \<and> set r = {..<NBUF} \<and> chain bs (BHEAD # r @ [BHEAD])"

lemma chain_cong:
  "(\<forall>x \<in> set (butlast l). bnext (cs ! x) = bnext (bs ! x)) \<Longrightarrow>
   (\<forall>x \<in> set (tl l). bprev (cs ! x) = bprev (bs ! x)) \<Longrightarrow> chain cs l = chain bs l"
  by (induction bs l rule: chain.induct) auto

lemma chain_append: "chain bs (xs @ y # zs) \<longleftrightarrow> chain bs (xs @ [y]) \<and> chain bs (y # zs)"
proof (induction xs)
  case (Cons x xs)
  then show ?case by (cases xs) auto
qed simp

lemma chain_snoc:
  "chain bs (a # l @ [x]) \<longleftrightarrow>
     chain bs (a # l) \<and> bnext (bs ! last (a # l)) = x \<and> bprev (bs ! x) = last (a # l)"
  by (induction l arbitrary: a) auto

lemma ring_ok_D:
  assumes "ring_ok bs r"
  shows "length bs = 31" and "distinct r" and "set r = {..<NBUF}" and "chain bs (BHEAD # r @ [BHEAD])"
    and "BHEAD \<notin> set r" and "length r = 30"
proof -
  show a: "length bs = 31" "distinct r" "set r = {..<NBUF}" "chain bs (BHEAD # r @ [BHEAD])"
    using assms by (auto simp: ring_ok_def)
  then show "BHEAD \<notin> set r" by simp
  show "length r = 30" using a(2,3) distinct_card [of r] by simp
qed

text \<open>Forward, a search visits the ring from the front; backward, from the end.\<close>

lemma ring_find_next:
  assumes "chain bs (l @ [BHEAD])" and "BHEAD \<notin> set l" and "length l < n"
  shows "ring_find bnext P n (hd (l @ [BHEAD])) bs = Inr (find (\<lambda>b. P (bs ! b)) l)"
  using assms
proof (induction l arbitrary: n)
  case Nil
  then show ?case by (cases n) simp_all
next
  case (Cons x l)
  then obtain m where "n = Suc m" by (cases n) auto
  with Cons show ?case by (cases l) simp_all
qed

lemma ring_find_prev:
  assumes "chain bs (BHEAD # l)" and "BHEAD \<notin> set l" and "length l < n"
  shows "ring_find bprev P n (last (BHEAD # l)) bs = Inr (find (\<lambda>b. P (bs ! b)) (rev l))"
  using assms
proof (induction l arbitrary: n rule: rev_induct)
  case Nil
  then show ?case by (cases n) simp_all
next
  case (snoc x l)
  obtain m where n: "n = Suc m" using snoc.prems(3) by (cases n) auto
  have c: "chain bs (BHEAD # l)" "bprev (bs ! x) = last (BHEAD # l)"
    using snoc.prems(1) by (simp_all only: chain_snoc)
  show ?case using snoc c n by simp
qed

lemma ring_find_front:
  assumes "ring_ok bs r"
  shows "ring_find bnext P (Suc NBUF) (bnext (bs ! BHEAD)) bs = Inr (find (\<lambda>b. P (bs ! b)) r)"
proof -
  have c: "chain bs (r @ [BHEAD])" "bnext (bs ! BHEAD) = hd (r @ [BHEAD])"
    using ring_ok_D(4) [OF assms] by (cases r; simp)+
  show ?thesis unfolding c(2)
    by (rule ring_find_next [OF c(1)]) (use ring_ok_D [OF assms] in simp_all)
qed

lemma ring_find_back:
  assumes "ring_ok bs r"
  shows "ring_find bprev P (Suc NBUF) (bprev (bs ! BHEAD)) bs = Inr (find (\<lambda>b. P (bs ! b)) (rev r))"
proof -
  have c: "chain bs (BHEAD # r)" "bprev (bs ! BHEAD) = last (BHEAD # r)"
    using ring_ok_D(4) [OF assms] by (simp_all only: chain_snoc)
  show ?thesis unfolding c(2)
    by (rule ring_find_prev [OF c(1)]) (use ring_ok_D [OF assms] in simp_all)
qed

text \<open>Relinking leaves every other field of every buffer alone.\<close>

lemma link_upd_nth:
  "bvalid (bs[j := (bs ! j)\<lparr>bnext := x\<rparr>] ! i) = bvalid (bs ! i)"
  "bdirty (bs[j := (bs ! j)\<lparr>bnext := x\<rparr>] ! i) = bdirty (bs ! i)"
  "bdev (bs[j := (bs ! j)\<lparr>bnext := x\<rparr>] ! i) = bdev (bs ! i)"
  "blockno (bs[j := (bs ! j)\<lparr>bnext := x\<rparr>] ! i) = blockno (bs ! i)"
  "block (bs[j := (bs ! j)\<lparr>bnext := x\<rparr>] ! i) = block (bs ! i)"
  "brefcnt (bs[j := (bs ! j)\<lparr>bnext := x\<rparr>] ! i) = brefcnt (bs ! i)"
  "bdata (bs[j := (bs ! j)\<lparr>bnext := x\<rparr>] ! i) = bdata (bs ! i)"
  by (cases "i = j \<and> j < length bs"; auto simp: nth_list_update list_update_beyond)+


lemma link_upd_prev_nth:
  "bvalid (bs[j := (bs ! j)\<lparr>bprev := x\<rparr>] ! i) = bvalid (bs ! i)"
  "bdirty (bs[j := (bs ! j)\<lparr>bprev := x\<rparr>] ! i) = bdirty (bs ! i)"
  "bdev (bs[j := (bs ! j)\<lparr>bprev := x\<rparr>] ! i) = bdev (bs ! i)"
  "blockno (bs[j := (bs ! j)\<lparr>bprev := x\<rparr>] ! i) = blockno (bs ! i)"
  "block (bs[j := (bs ! j)\<lparr>bprev := x\<rparr>] ! i) = block (bs ! i)"
  "brefcnt (bs[j := (bs ! j)\<lparr>bprev := x\<rparr>] ! i) = brefcnt (bs ! i)"
  "bdata (bs[j := (bs ! j)\<lparr>bprev := x\<rparr>] ! i) = bdata (bs ! i)"
  by (cases "i = j \<and> j < length bs"; auto simp: nth_list_update list_update_beyond)+

lemma link_upd_both_nth:
  "bvalid (bs[j := (bs ! j)\<lparr>bnext := y, bprev := x\<rparr>] ! i) = bvalid (bs ! i)"
  "bdirty (bs[j := (bs ! j)\<lparr>bnext := y, bprev := x\<rparr>] ! i) = bdirty (bs ! i)"
  "bdev (bs[j := (bs ! j)\<lparr>bnext := y, bprev := x\<rparr>] ! i) = bdev (bs ! i)"
  "blockno (bs[j := (bs ! j)\<lparr>bnext := y, bprev := x\<rparr>] ! i) = blockno (bs ! i)"
  "block (bs[j := (bs ! j)\<lparr>bnext := y, bprev := x\<rparr>] ! i) = block (bs ! i)"
  "brefcnt (bs[j := (bs ! j)\<lparr>bnext := y, bprev := x\<rparr>] ! i) = brefcnt (bs ! i)"
  "bdata (bs[j := (bs ! j)\<lparr>bnext := y, bprev := x\<rparr>] ! i) = bdata (bs ! i)"
  by (cases "i = j \<and> j < length bs"; auto simp: nth_list_update list_update_beyond)+

definition ring_touch :: "nat \<Rightarrow> buf list \<Rightarrow> buf list" where
  "ring_touch b bs = ring_front b (ring_remove b bs)"

lemma ring_touch_nth [simp]:
  "bvalid (ring_touch b bs ! i) = bvalid (bs ! i)" "bdirty (ring_touch b bs ! i) = bdirty (bs ! i)"
  "bdev (ring_touch b bs ! i) = bdev (bs ! i)" "blockno (ring_touch b bs ! i) = blockno (bs ! i)"
  "block (ring_touch b bs ! i) = block (bs ! i)" "brefcnt (ring_touch b bs ! i) = brefcnt (bs ! i)"
  "bdata (ring_touch b bs ! i) = bdata (bs ! i)"
  by (simp_all add: ring_touch_def ring_front_def ring_remove_def Let_def link_upd_nth link_upd_prev_nth
      link_upd_both_nth)

lemma length_ring_touch [simp]: "length (ring_touch b bs) = length bs"
  by (simp add: ring_touch_def ring_front_def ring_remove_def Let_def)

lemma chain_join:
  "l2 \<noteq> [] \<Longrightarrow> chain bs (a # l @ l2) \<longleftrightarrow>
     chain bs (a # l) \<and> bnext (bs ! last (a # l)) = hd l2 \<and> bprev (bs ! hd l2) = last (a # l) \<and> chain bs l2"
proof (induction l arbitrary: a)
  case Nil
  then show ?case by (cases l2) auto
qed auto

text \<open>Taking a buffer out of the ring and putting it in front, as \<open>brelse\<close> does.\<close>

lemma ring_remove_chain:
  assumes "chain bs (BHEAD # xs @ b # ys @ [BHEAD])" and "distinct (BHEAD # xs @ b # ys)"
    and "set (xs @ b # ys) \<subseteq> {..<NBUF}" and "length bs = 31"
  shows "chain (ring_remove b bs) (BHEAD # (xs @ ys) @ [BHEAD])"
proof -
  define p n where pn: "p = last (BHEAD # xs)" "n = hd (ys @ [BHEAD])"
  have c: "chain bs (BHEAD # xs)" "bprev (bs ! b) = p" "bnext (bs ! b) = n" "chain bs (ys @ [BHEAD])"
    using assms(1) chain_join [of "b # ys @ [BHEAD]" bs BHEAD xs] chain_join [of "ys @ [BHEAD]" bs b "[]"]
    by (simp_all add: pn)
  have pin: "p \<in> set (BHEAD # xs)" unfolding pn by (rule last_in_set) simp
  have nin: "n \<in> set (ys @ [BHEAD])" unfolding pn by (rule hd_in_set) simp
  have lt: "p < 31" "n < 31" "b \<noteq> n" "b \<noteq> p" using pin nin assms(2,3) by auto
  let ?cs = "ring_remove b bs"
  have cs: "bnext (?cs ! x) = (if x = p then n else bnext (bs ! x))"
    "bprev (?cs ! x) = (if x = n then p else bprev (bs ! x))" for x
    using lt assms(4) by (auto simp: ring_remove_def Let_def c nth_list_update)
  have "p \<notin> set (butlast (BHEAD # xs))"
    using assms(2) unfolding pn by (cases xs rule: rev_cases) (auto simp: butlast_append)
  moreover have "n \<notin> set xs" "p \<notin> set ys" using pin nin assms(2,3) by auto
  moreover have "n \<notin> set (tl (ys @ [BHEAD]))" using assms(2) unfolding pn by (cases ys) auto
  ultimately have "chain ?cs (BHEAD # xs) = chain bs (BHEAD # xs)" "chain ?cs (ys @ [BHEAD]) = chain bs (ys @ [BHEAD])"
    by (intro chain_cong; auto simp: cs)+
  then show ?thesis
    using c chain_join [of "ys @ [BHEAD]" ?cs BHEAD xs] by (simp add: cs pn del: last.simps)
qed

lemma ring_front_chain:
  assumes "chain bs (BHEAD # q @ [BHEAD])" and "distinct (BHEAD # b # q)"
    and "set (b # q) \<subseteq> {..<NBUF}" and "length bs = 31"
  shows "chain (ring_front b bs) (BHEAD # b # q @ [BHEAD])"
proof -
  define h where h: "h = hd (q @ [BHEAD])"
  have c: "bnext (bs ! BHEAD) = h" "chain bs (q @ [BHEAD])"
    using assms(1) chain_join [of "q @ [BHEAD]" bs BHEAD "[]"] by (simp_all add: h)
  have hin: "h \<in> set (q @ [BHEAD])" unfolding h by (rule hd_in_set) simp
  have lt: "h < 31" "b < 31" "b \<noteq> h" "b \<noteq> BHEAD" using hin assms(2,3) by auto
  let ?cs = "ring_front b bs"
  have cs: "bnext (?cs ! x) = (if x = BHEAD then b else if x = b then h else bnext (bs ! x))"
    "bprev (?cs ! x) = (if x = h then b else if x = b then BHEAD else bprev (bs ! x))" for x
    using lt assms(4) by (auto simp: ring_front_def Let_def c nth_list_update)
  have "h \<notin> set (tl (q @ [BHEAD]))" using assms(2) unfolding h by (cases q) auto
  moreover have "b \<notin> set (tl (q @ [BHEAD]))" using lt assms(2) by (cases q) auto
  ultimately have "chain ?cs (q @ [BHEAD]) = chain bs (q @ [BHEAD])"
    using assms(2) by (intro chain_cong) (auto simp: cs)
  then show ?thesis
    using c lt chain_join [of "q @ [BHEAD]" ?cs b "[]"] by (simp add: cs h)
qed

lemma ring_touch_ok:
  assumes "ring_ok bs r" and "b < NBUF"
  shows "ring_ok (ring_touch b bs) (b # remove1 b r)"
proof -
  have "b \<in> set r" using assms by (simp add: ring_ok_def)
  then obtain xs ys where r: "r = xs @ b # ys" "b \<notin> set xs" by (metis split_list_first)
  have d: "distinct (BHEAD # xs @ b # ys)" "set (xs @ b # ys) = {..<NBUF}" "length bs = 31"
    "chain bs (BHEAD # xs @ b # ys @ [BHEAD])"
    using ring_ok_D [OF assms(1)] by (auto simp: r)
  have q: "remove1 b r = xs @ ys" using r d by (simp add: remove1_append)
  have "chain (ring_remove b bs) (BHEAD # (xs @ ys) @ [BHEAD])"
    by (rule ring_remove_chain [OF d(4,1) equalityD1 [OF d(2)] d(3)])
  then have "chain (ring_touch b bs) (BHEAD # b # (xs @ ys) @ [BHEAD])"
    unfolding ring_touch_def using d by (intro ring_front_chain) (auto simp: ring_remove_def Let_def)
  then show ?thesis using d unfolding ring_ok_def q by auto
qed


section \<open>The state of the cache between operations\<close>

text \<open>
  \<open>H\<close> is the set of buffers that the running process has taken and not yet released; every other
  buffer is free. Only blocks of the file-system disk are considered, device 1.
\<close>

abbreviation ROOTDEV :: u32 where "ROOTDEV \<equiv> 1"

definition holder :: "'a proc_state_scheme \<Rightarrow> i32" where
  "holder s = pid (procs s ! the (curproc s))"

definition buf_ok :: "nat set \<Rightarrow> 'a bio_state_scheme \<Rightarrow> nat \<Rightarrow> bool" where
  "buf_ok H s b \<longleftrightarrow>
     (let x = bufs s ! b in
       (if b \<in> H then block x = \<lparr>slocked = True, spid = holder s\<rparr> \<and> brefcnt x = 1
        else \<not> slocked (block x) \<and> brefcnt x = 0 \<and>
             (bdev x = ROOTDEV \<and> bvalid x \<and> \<not> bdirty x \<longrightarrow> bdata x = disk s ROOTDEV (blockno x))) \<and>
       (bdirty x \<longrightarrow> bvalid x \<and> bdev x = ROOTDEV))"

definition one_copy :: "buf list \<Rightarrow> bool" where
  "one_copy bs \<longleftrightarrow> (\<forall>b < NBUF. \<forall>c < NBUF. bdev (bs ! b) = ROOTDEV \<and> bdev (bs ! c) = ROOTDEV \<and>
     blockno (bs ! b) = blockno (bs ! c) \<longrightarrow> b = c)"

definition env_ok :: "'a bio_state_scheme \<Rightarrow> bool" where
  "env_ok s \<longleftrightarrow> held s = [] \<and> (\<exists>me. curproc s = Some me \<and> me < length (procs s)) \<and> idequeue s = None
     \<and> \<not> ideerr s \<and> havedisk1 s"

definition cinv :: "nat set \<Rightarrow> 'a bio_state_scheme \<Rightarrow> bool" where
  "cinv H s \<longleftrightarrow> env_ok s \<and> H \<subseteq> {..<NBUF} \<and> (\<exists>r. ring_ok (bufs s) r) \<and> one_copy (bufs s)
     \<and> (\<forall>b < NBUF. buf_ok H s b)"

text \<open>The contents of block \<open>n\<close> as the file system sees it, and whether it is still to be written.\<close>

definition cached :: "'a bio_state_scheme \<Rightarrow> u32 \<Rightarrow> nat option" where
  "cached s n = find (\<lambda>b. bdev (bufs s ! b) = ROOTDEV \<and> blockno (bufs s ! b) = n) [0..<NBUF]"

definition cdata :: "'a bio_state_scheme \<Rightarrow> u32 \<Rightarrow> bytes" where
  "cdata s n = (case cached s n of
     Some b \<Rightarrow> if bvalid (bufs s ! b) then bdata (bufs s ! b) else disk s ROOTDEV n
   | None \<Rightarrow> disk s ROOTDEV n)"

definition cdirty :: "'a bio_state_scheme \<Rightarrow> u32 \<Rightarrow> bool" where
  "cdirty s n = (case cached s n of Some b \<Rightarrow> bdirty (bufs s ! b) | None \<Rightarrow> False)"

text \<open>What no operation on a buffer changes.\<close>

definition env_same :: "'a bio_state_scheme \<Rightarrow> 'a bio_state_scheme \<Rightarrow> bool" where
  "env_same s t \<longleftrightarrow> held t = held s \<and> curproc t = curproc s \<and> map pid (procs t) = map pid (procs s)
     \<and> idequeue t = idequeue s \<and> ideerr t = ideerr s \<and> havedisk1 t = havedisk1 s
     \<and> bio_state.more t = bio_state.more s"

lemma env_same_refl [simp]: "env_same s s"
  by (simp add: env_same_def)

lemma env_same_trans: "env_same s t \<Longrightarrow> env_same t u \<Longrightarrow> env_same s u"
  by (simp add: env_same_def)

lemma env_same_upd_buf [simp]: "env_same s (upd_buf b f t) = env_same s t" "env_same (upd_buf b f s) t = env_same s t"
  by (simp_all add: env_same_def upd_buf_def)

lemma env_same_env_ok:
  assumes "env_same s t"
  shows "env_ok t \<longleftrightarrow> env_ok s"
proof -
  have "length (map pid (procs t)) = length (map pid (procs s))" using assms by (simp only: env_same_def)
  then have "length (procs t) = length (procs s)" by simp
  then show ?thesis using assms by (simp add: env_same_def env_ok_def)
qed

lemma env_same_holder:
  assumes "env_same s t" and "env_ok s"
  shows "holder t = holder s"
proof -
  obtain me where me: "curproc s = Some me" "me < length (procs s)" using assms(2) by (auto simp: env_ok_def)
  have "length (map pid (procs t)) = length (map pid (procs s))" using assms(1) by (simp only: env_same_def)
  moreover have "map pid (procs t) ! me = map pid (procs s) ! me" using assms(1) by (simp only: env_same_def)
  ultimately show ?thesis using me assms(1) by (simp add: holder_def env_same_def)
qed

lemma pid_wake [simp]: "pid (wake ch p) = pid p"
  by (simp add: wake_def)

lemma map_pid_wake [simp]: "map pid (map (wake ch) ps) = map pid ps" "map (pid \<circ> wake ch) ps = map pid ps"
  by simp_all

text \<open>With one copy of each block, a buffer that has the block is the one that is found.\<close>

lemma cached_Some:
  assumes "one_copy (bufs s)"
  shows "cached s n = Some b \<longleftrightarrow> b < NBUF \<and> bdev (bufs s ! b) = ROOTDEV \<and> blockno (bufs s ! b) = n"
proof -
  let ?P = "\<lambda>b. bdev (bufs s ! b) = ROOTDEV \<and> blockno (bufs s ! b) = n"
  have f: "(\<exists>c. find ?P [0..<NBUF] = Some c) \<longleftrightarrow> (\<exists>c < NBUF. ?P c)"
    by (auto simp: find_None_iff simp flip: not_None_eq)
  show ?thesis (is "?l \<longleftrightarrow> ?r")
  proof
    assume ?l
    then show ?r unfolding cached_def by (auto simp: find_Some_iff)
  next
    assume b: ?r
    then obtain c where c: "find ?P [0..<NBUF] = Some c" using f by blast
    then have "c < NBUF" "?P c" by (auto simp: find_Some_iff)
    then have "c = b" using assms b unfolding one_copy_def by blast
    then show ?l using c by (simp add: cached_def)
  qed
qed

lemma cached_None: "cached s n = None \<longleftrightarrow> (\<forall>b < NBUF. \<not> (bdev (bufs s ! b) = ROOTDEV \<and> blockno (bufs s ! b) = n))"
  by (auto simp: cached_def find_None_iff)


lemma ring_ok_upd:
  assumes "ring_ok bs r" and "bnext y = bnext (bs ! b)" and "bprev y = bprev (bs ! b)"
  shows "ring_ok (bs[b := y]) r"
proof -
  have "bnext (bs[b := y] ! x) = bnext (bs ! x) \<and> bprev (bs[b := y] ! x) = bprev (bs ! x)" for x
    using assms(2,3) by (cases "x = b \<and> b < length bs") (auto simp: nth_list_update list_update_beyond)
  then have "chain (bs[b := y]) l = chain bs l" for l by (intro chain_cong) simp_all
  then show ?thesis using assms(1) by (simp add: ring_ok_def)
qed

section \<open>The operations one by one\<close>

lemma env_ok_simps:
  assumes "env_ok s"
  shows "acquiresleep (L_buf b) lk s = (if slocked lk then Inl (Sleeps ''acquiresleep'') else Inr (\<lparr>slocked = True, spid = holder s\<rparr>, s))"
    and "holdingsleep (L_buf b) lk s = Inr (slocked lk \<and> spid lk = holder s, s)"
    and "releasesleep (L_buf b) lk s = Inr (initsleeplock, s\<lparr>procs := map (wake (ChSleeplock (L_buf b))) (procs s)\<rparr>)"
  using assms
  by (auto simp: env_ok_def acquiresleep_def holdingsleep_def releasesleep_def acquire_def release_def
      myproc_def holder_def wakeup_def wakeup1_def initsleeplock_def)

lemma iderw_done:
  assumes "env_ok s" and "block x = \<lparr>slocked = True, spid = holder s\<rparr>" and "bdirty x \<or> \<not> bvalid x"
    and "blockno x < FSSIZE" and "b < length (bufs s)" and "x = bufs s ! b"
  shows "\<exists>t. iderw b s = Inr t \<and> env_same s t
    \<and> bufs t = (bufs s)[b := x\<lparr>qnext := None,
        bdata := if bdirty x then bdata x else disk s (bdev x AND 1) (blockno x), bvalid := True, bdirty := False\<rparr>]
    \<and> disk t = (if bdirty x then (disk s)(bdev x AND 1 := (disk s (bdev x AND 1))(blockno x := bdata x)) else disk s)
    \<and> dwrites t = dwrites s @ (if bdirty x then [(bdev x AND 1, blockno x, bdata x)] else [])"
proof -
  have e: "held s = []" "idequeue s = None" "\<not> ideerr s" "havedisk1 s" using assms(1) by (simp_all add: env_ok_def)
  have n: "\<not> FSSIZE \<le> blockno x" using assms(4) by simp
  show ?thesis
  proof (cases "bdirty x")
    case True
    then show ?thesis
      using e n assms
      by (simp add: iderw_def env_ok_simps acquire_def release_def upd_buf_def idestart_def ide_await.simps
          ideintr_def ide_complete_def ide_data_def wakeup_def wakeup1_def Let_def env_same_def list_update_overwrite)
  next
    case False
    then show ?thesis
      using e n assms
      by (simp add: iderw_def env_ok_simps acquire_def release_def upd_buf_def idestart_def ide_await.simps
          ideintr_def ide_complete_def ide_data_def wakeup_def wakeup1_def Let_def env_same_def list_update_overwrite)
  qed
qed


lemma find_SomeD: "find P xs = Some b \<Longrightarrow> b \<in> set xs \<and> P b"
  by (induction xs) (auto split: if_splits)

lemma find_only:
  assumes "b \<in> set xs" and "P b" and "\<forall>c \<in> set xs. P c \<longrightarrow> c = b"
  shows "find P xs = Some b"
proof (cases "find P xs")
  case None
  then show ?thesis using assms(1,2) by (auto simp: find_None_iff)
next
  case (Some c)
  then have "c \<in> set xs" "P c" by (auto dest: find_SomeD)
  then show ?thesis using Some assms(3) by simp
qed

lemma lock_buf_free:
  assumes "env_ok s" and "\<not> slocked (block (bufs s ! b))"
  shows "lock_buf b s = Inr (upd_buf b (block_update (\<lambda>_. \<lparr>slocked = True, spid = holder s\<rparr>)) s)"
  using assms by (simp add: lock_buf_def env_ok_simps)

lemma env_ok_upd_buf [simp]: "env_ok (upd_buf b f s) = env_ok s" "holder (upd_buf b f s) = holder s"
  by (simp_all add: env_ok_def upd_buf_def holder_def)

text \<open>\<open>bget\<close> on a block that is in the cache, and on one that is not.\<close>

lemma bget_hit:
  assumes "cinv H s" and "cached s n = Some b" and "b \<notin> H"
  shows "bget ROOTDEV n s = Inr (b, upd_buf b (\<lambda>x. x\<lparr>brefcnt := 1,
    block := \<lparr>slocked = True, spid = holder s\<rparr>\<rparr>) s)"
proof -
  obtain r where r: "ring_ok (bufs s) r" using assms(1) by (auto simp: cinv_def)
  have one: "one_copy (bufs s)" and e: "env_ok s" using assms(1) by (auto simp: cinv_def)
  have b: "b < NBUF" "bdev (bufs s ! b) = ROOTDEV" "blockno (bufs s ! b) = n"
    using assms(2) one by (auto simp: cached_Some)
  have find: "find (\<lambda>b. bdev (bufs s ! b) = ROOTDEV \<and> blockno (bufs s ! b) = n) r = Some b"
    using b one ring_ok_D(3) [OF r] unfolding one_copy_def by (intro find_only) auto
  have free: "\<not> slocked (block (bufs s ! b))" "brefcnt (bufs s ! b) = 0" "b < length (bufs s)"
    using assms(1,3) b ring_ok_D(1) [OF r] by (auto simp: cinv_def buf_ok_def Let_def)
  have h: "held s = []" using e by (simp add: env_ok_def)
  let ?s = "s\<lparr>held := [L_bcache]\<rparr>"
  have "ring_find bnext (\<lambda>x. bdev x = ROOTDEV \<and> blockno x = n) (Suc NBUF) (bnext (bufs s ! BHEAD)) (bufs s) = Inr (Some b)"
    using ring_find_front [OF r] find by simp
  then show ?thesis using h e free
    by (simp add: bget_def acquire_def release_def upd_buf_def lock_buf_free [unfolded upd_buf_def]
        list_update_overwrite env_ok_def holder_def)
qed


lemma bget_miss:
  assumes "cinv H s" and "cached s n = None" and "\<exists>b < NBUF. b \<notin> H \<and> \<not> bdirty (bufs s ! b)"
    and r: "ring_ok (bufs s) r"
  shows "\<exists>b < NBUF. find (\<lambda>b. brefcnt (bufs s ! b) = 0 \<and> \<not> bdirty (bufs s ! b)) (rev r) = Some b
    \<and> b \<notin> H \<and> \<not> bdirty (bufs s ! b) \<and> bget ROOTDEV n s = Inr (b, upd_buf b (\<lambda>x. x\<lparr>
    bdev := ROOTDEV, blockno := n, bvalid := False, bdirty := False, brefcnt := 1,
    block := \<lparr>slocked = True, spid = holder s\<rparr>\<rparr>) s)"
proof -
  have e: "env_ok s" "held s = []" using assms(1) by (auto simp: cinv_def env_ok_def)
  have ok: "\<forall>b < NBUF. buf_ok H s b" using assms(1) by (simp add: cinv_def)
  have set: "set r = {..<NBUF}" by (rule ring_ok_D(3) [OF r])
  let ?P = "\<lambda>b. brefcnt (bufs s ! b) = 0 \<and> \<not> bdirty (bufs s ! b)"
  have "\<exists>b \<in> set (rev r). ?P b" using assms(3) ok set by (force simp: buf_ok_def Let_def)
  then obtain b where find: "find ?P (rev r) = Some b"
    by (cases "find ?P (rev r)") (auto simp: find_None_iff)
  then have "b \<in> set (rev r)" "?P b" by (auto dest: find_SomeD)
  then have n: "b < NBUF" "?P b" using set by auto
  then have "buf_ok H s b" using ok by blast
  then have b: "b < NBUF" "b \<notin> H" "\<not> bdirty (bufs s ! b)" "\<not> slocked (block (bufs s ! b))" "b < length (bufs s)"
    using n ring_ok_D(1) [OF r] by (auto simp: buf_ok_def Let_def split: if_splits)
  have "find (\<lambda>b. bdev (bufs s ! b) = ROOTDEV \<and> blockno (bufs s ! b) = n) r = None"
    using assms(2) set unfolding cached_None find_None_iff by auto
  then have w: "ring_find bnext (\<lambda>x. bdev x = ROOTDEV \<and> blockno x = n) (Suc NBUF) (bnext (bufs s ! BHEAD)) (bufs s) = Inr None"
    "ring_find bprev (\<lambda>x. brefcnt x = 0 \<and> \<not> bdirty x) (Suc NBUF) (bprev (bufs s ! BHEAD)) (bufs s) = Inr (Some b)"
    using ring_find_front [OF r] ring_find_back [OF r] find by simp_all
  have "bget ROOTDEV n s = Inr (b, upd_buf b (\<lambda>x. x\<lparr>
    bdev := ROOTDEV, blockno := n, bvalid := False, bdirty := False, brefcnt := 1,
    block := \<lparr>slocked = True, spid = holder s\<rparr>\<rparr>) s)"
    using w e b by (simp add: bget_def acquire_def release_def upd_buf_def lock_buf_free [unfolded upd_buf_def]
        list_update_overwrite env_ok_def holder_def)
  then show ?thesis using b find by blast
qed

lemma one_copy_upd:
  assumes "one_copy bs" and "length bs = 31" and "b < NBUF"
    and "\<forall>c < NBUF. bdev (bs ! c) = ROOTDEV \<and> blockno (bs ! c) = blockno y \<longrightarrow> c = b"
  shows "one_copy (bs[b := y])"
  unfolding one_copy_def
proof (intro allI impI)
  fix c d assume cd: "c < NBUF" "d < NBUF"
    "bdev (bs[b := y] ! c) = ROOTDEV \<and> bdev (bs[b := y] ! d) = ROOTDEV \<and> blockno (bs[b := y] ! c) = blockno (bs[b := y] ! d)"
  consider "c = b" "d = b" | "c = b" "d \<noteq> b" | "c \<noteq> b" "d = b" | "c \<noteq> b" "d \<noteq> b" by blast
  then show "c = d"
  proof cases
    case 2
    then have "bdev (bs ! d) = ROOTDEV" "blockno (bs ! d) = blockno y" using cd assms(2,3) by auto
    then show ?thesis using 2 cd(2) assms(4) by blast
  next
    case 3
    then have "bdev (bs ! c) = ROOTDEV" "blockno (bs ! c) = blockno y" using cd assms(2,3) by auto
    then show ?thesis using 3 cd(1) assms(4) by blast
  next
    case 4
    then have "bdev (bs ! c) = ROOTDEV \<and> bdev (bs ! d) = ROOTDEV \<and> blockno (bs ! c) = blockno (bs ! d)" using cd by auto
    then show ?thesis using cd(1,2) assms(1) unfolding one_copy_def by blast
  qed simp
qed

text \<open>What a buffer is replaced by, seen from the blocks.\<close>

lemma cached_upd:
  assumes "bufs t = (bufs s)[b := y]" and "one_copy (bufs s)" and "one_copy (bufs t)" and "length (bufs s) = 31"
    and "b < NBUF" and "bdev y = ROOTDEV"
  shows "cached t m = (if m = blockno y then Some b else if cached s m = Some b then None else cached s m)"
proof (cases "m = blockno y")
  case True
  then show ?thesis using assms cached_Some [OF assms(3)] by simp
next
  case False
  show ?thesis
  proof (cases "cached s m = Some b")
    case True
    then have "\<forall>c < NBUF. c \<noteq> b \<longrightarrow> \<not> (bdev (bufs s ! c) = ROOTDEV \<and> blockno (bufs s ! c) = m)"
      using assms(2) cached_Some [OF assms(2)] by (metis option.inject)
    then have "cached t m = None" using False assms by (auto simp: cached_None nth_list_update)
    then show ?thesis using True False by simp
  next
    case o: False
    have "cached t m = Some c \<longleftrightarrow> cached s m = Some c" for c
      unfolding cached_Some [OF assms(2)] cached_Some [OF assms(3)]
      using o False assms cached_Some [OF assms(2), of m b] by (auto simp: nth_list_update)
    then have "cached t m = cached s m" by (metis option.exhaust)
    then show ?thesis using o False by simp
  qed
qed


lemma buf_ok_same:
  assumes "buf_ok H s c" and "bufs t ! c = bufs s ! c" and "holder t = holder s"
    and "disk t ROOTDEV (blockno (bufs s ! c)) = disk s ROOTDEV (blockno (bufs s ! c))"
    and "c \<in> K \<longleftrightarrow> c \<in> H"
  shows "buf_ok K t c"
  using assms by (simp add: buf_ok_def Let_def)

lemma take_buf:
  assumes "cinv H s" and "b < NBUF" and "b \<notin> H" and "env_same s t" and "bufs t = (bufs s)[b := y]"
    and "disk t = disk s" and "bnext y = bnext (bufs s ! b)" and "bprev y = bprev (bufs s ! b)"
    and "block y = \<lparr>slocked = True, spid = holder s\<rparr>" and "brefcnt y = 1" and "bdev y = ROOTDEV"
    and "bvalid y" and "bdata y = cdata s (blockno y)" and "bdirty y = cdirty s (blockno y)"
    and "cached s (blockno y) = Some b \<or> cached s (blockno y) = None \<and> \<not> bdirty (bufs s ! b)"
  shows "cinv (insert b H) t" and "cached t (blockno y) = Some b"
    and "cdata t m = cdata s m" and "cdirty t m = cdirty s m"
proof -
  obtain r where r: "ring_ok (bufs s) r" using assms(1) by (auto simp: cinv_def)
  have e: "env_ok s" "one_copy (bufs s)" "H \<subseteq> {..<NBUF}" using assms(1) by (auto simp: cinv_def)
  have ok: "buf_ok H s c" if "c < NBUF" for c using assms(1) that by (simp add: cinv_def)
  have len: "length (bufs s) = 31" by (rule ring_ok_D(1) [OF r])
  have only: "\<forall>c < NBUF. bdev (bufs s ! c) = ROOTDEV \<and> blockno (bufs s ! c) = blockno y \<longrightarrow> c = b"
    using assms(15) e(2) cached_Some [OF e(2), of "blockno y"] cached_None [of s "blockno y"] by (metis option.inject)
  have one: "one_copy (bufs t)" unfolding assms(5) by (rule one_copy_upd [OF e(2) len assms(2) only])
  have yb: "bufs t ! b = y" using assms(2,5) len by simp
  have other: "bufs t ! c = bufs s ! c" if "c \<noteq> b" for c using that assms(5) by simp
  have hold: "holder t = holder s" by (rule env_same_holder [OF assms(4) e(1)])
  have "buf_ok (insert b H) t c" if c: "c < NBUF" for c
  proof (cases "c = b")
    case True
    then show ?thesis using yb assms(9-12) hold by (simp add: buf_ok_def Let_def)
  next
    case False
    show ?thesis by (rule buf_ok_same [OF ok [OF c] other [OF False] hold]) (simp_all add: assms(6) False)
  qed
  moreover have "ring_ok (bufs t) r" unfolding assms(5) by (rule ring_ok_upd [OF r assms(7,8)])
  ultimately show "cinv (insert b H) t"
    using e one assms(2) env_same_env_ok [OF assms(4)] by (auto simp: cinv_def)
  have ct: "cached t m = (if m = blockno y then Some b else if cached s m = Some b then None else cached s m)" for m
    by (rule cached_upd [OF assms(5) e(2) one len assms(2,11)])
  then show "cached t (blockno y) = Some b" by simp
  have evicted: "cdata s m = disk s ROOTDEV m \<and> \<not> cdirty s m" if "cached s m = Some b" "m \<noteq> blockno y" for m
  proof -
    have "cached s (blockno y) \<noteq> Some b" using that cached_Some [OF e(2)] by metis
    then have "\<not> bdirty (bufs s ! b)" using assms(15) by blast
    moreover have "bdev (bufs s ! b) = ROOTDEV" "blockno (bufs s ! b) = m"
      using that cached_Some [OF e(2), of m b] by auto
    ultimately show ?thesis
      using that ok [OF assms(2)] assms(3) by (simp add: cdata_def cdirty_def buf_ok_def Let_def)
  qed
  have cs: "bufs t ! c = bufs s ! c" if "cached s m = Some c" "cached s m \<noteq> Some b" for m c
    using that other by auto
  show "cdata t m = cdata s m"
  proof (cases "m = blockno y")
    case True
    then show ?thesis using ct [of m] yb assms(12,13) by (simp add: cdata_def [of t])
  next
    case False
    then show ?thesis using ct [of m] evicted [of m] cs [of m] assms(6)
      by (auto simp: cdata_def split: option.split)
  qed
  show "cdirty t m = cdirty s m"
  proof (cases "m = blockno y")
    case True
    then show ?thesis using ct [of m] yb assms(14) by (simp add: cdirty_def [of t])
  next
    case False
    then show ?thesis using ct [of m] evicted [of m] cs [of m]
      by (auto simp: cdirty_def split: option.split)
  qed
qed


section \<open>Reading, writing and releasing a block\<close>

lemma upd_buf_sel [simp]:
  "bufs (upd_buf b f s) = (bufs s)[b := f (bufs s ! b)]" "disk (upd_buf b f s) = disk s"
  "dwrites (upd_buf b f s) = dwrites s"
  by (simp_all add: upd_buf_def)

text \<open>\<open>bread\<close> of a block that is free, with a buffer to spare if it is not cached, returns a locked buffer with the block's current contents: those of the cached copy, written back or not, else those of the disk. It may reuse only a buffer that is free and clean, so no other block changes its contents and no pending write is lost.\<close>

lemma bread_ok:
  assumes "cinv H s" and "n < FSSIZE" and "\<forall>h \<in> H. cached s n \<noteq> Some h"
    and "cached s n \<noteq> None \<or> (\<exists>b < NBUF. b \<notin> H \<and> \<not> bdirty (bufs s ! b))"
  shows "\<exists>b t. bread ROOTDEV n s = Inr (b, t) \<and> b < NBUF \<and> b \<notin> H \<and> cinv (insert b H) t
    \<and> bdev (bufs t ! b) = ROOTDEV \<and> blockno (bufs t ! b) = n \<and> bvalid (bufs t ! b)
    \<and> bdata (bufs t ! b) = cdata s n \<and> bdirty (bufs t ! b) = cdirty s n
    \<and> (\<forall>h \<in> H. bufs t ! h = bufs s ! h) \<and> cdata t = cdata s \<and> cdirty t = cdirty s
    \<and> disk t = disk s \<and> dwrites t = dwrites s \<and> env_same s t"
proof -
  have e: "env_ok s" "one_copy (bufs s)" using assms(1) by (auto simp: cinv_def)
  have len: "length (bufs s) = 31" using assms(1) by (auto simp: cinv_def dest: ring_ok_D(1))
  obtain r where rr: "ring_ok (bufs s) r" using assms(1) by (auto simp: cinv_def)
  obtain b x where b: "b < NBUF" "b \<notin> H" "bget ROOTDEV n s = Inr (b, upd_buf b (\<lambda>_. x) s)"
    "cached s n = Some b \<or> cached s n = None \<and> \<not> bdirty (bufs s ! b)"
    and x: "bnext x = bnext (bufs s ! b)" "bprev x = bprev (bufs s ! b)"
    "block x = \<lparr>slocked = True, spid = holder s\<rparr>" "brefcnt x = 1" "bdev x = ROOTDEV" "blockno x = n"
    "bvalid x \<longrightarrow> bdata x = cdata s n" "bdirty x = cdirty s n" "bdirty x \<longrightarrow> bvalid x"
    "\<not> bvalid x \<longrightarrow> disk s ROOTDEV n = cdata s n"
  proof (cases "cached s n")
    case (Some b)
    have b: "b < NBUF" "bdev (bufs s ! b) = ROOTDEV" "blockno (bufs s ! b) = n" "b \<notin> H"
      using Some cached_Some [OF e(2), of n b] assms(3) by auto
    have "buf_ok H s b" using assms(1) b(1) by (simp add: cinv_def)
    then show thesis
      using bget_hit [OF assms(1) Some b(4)] b Some
      by (intro that [of b "(bufs s ! b)\<lparr>brefcnt := 1, block := \<lparr>slocked = True, spid = holder s\<rparr>\<rparr>"])
        (simp_all add: cdata_def cdirty_def upd_buf_def buf_ok_def Let_def)
  next
    case None
    then obtain b where b: "b < NBUF" "b \<notin> H" "\<not> bdirty (bufs s ! b)" and g: "bget ROOTDEV n s = Inr (b, upd_buf b (\<lambda>x. x\<lparr>
      bdev := ROOTDEV, blockno := n, bvalid := False, bdirty := False, brefcnt := 1,
      block := \<lparr>slocked = True, spid = holder s\<rparr>\<rparr>) s)"
      using bget_miss [OF assms(1) None _ rr] assms(4) None by blast
    then show thesis
      using None by (intro that [of b "(bufs s ! b)\<lparr>bdev := ROOTDEV, blockno := n, bvalid := False, bdirty := False,
        brefcnt := 1, block := \<lparr>slocked = True, spid = holder s\<rparr>\<rparr>"]) (simp_all add: cdata_def cdirty_def upd_buf_def)
  qed
  let ?s = "upd_buf b (\<lambda>_. x) s"
  have at: "bufs ?s ! b = x" using b len by simp
  obtain t y where t: "bread ROOTDEV n s = Inr (b, t)" "env_same s t" "bufs t = (bufs s)[b := y]" "disk t = disk s"
    "dwrites t = dwrites s"
    and y: "bnext y = bnext x" "bprev y = bprev x" "block y = block x" "brefcnt y = 1" "bdev y = ROOTDEV"
    "blockno y = n" "bvalid y" "bdata y = cdata s n" "bdirty y = cdirty s n"
  proof (cases "bvalid x")
    case True
    then show thesis using b x at by (intro that [of ?s x]) (simp_all add: bread_def)
  next
    case False
    then have nd: "\<not> bdirty x" using x by blast
    obtain t where t: "iderw b ?s = Inr t" "env_same ?s t"
      "bufs t = (bufs ?s)[b := x\<lparr>qnext := None, bdata := disk s ROOTDEV n, bvalid := True, bdirty := False\<rparr>]"
      "disk t = disk ?s" "dwrites t = dwrites ?s"
      using iderw_done [of ?s x b] e len b x nd False assms(2) at by auto
    then show thesis using b x at nd False
      by (intro that [of t "x\<lparr>qnext := None, bdata := disk s ROOTDEV n, bvalid := True, bdirty := False\<rparr>"])
        (simp_all add: bread_def list_update_overwrite)
  qed
  have link: "bnext y = bnext (bufs s ! b)" "bprev y = bprev (bufs s ! b)" using x y by simp_all
  note k = take_buf [OF assms(1) b(1,2) t(2,3,4) link]
  have "cinv (insert b H) t" "cdata t m = cdata s m" "cdirty t m = cdirty s m" for m
    using k x y b(4) by simp_all
  moreover have "bufs t ! b = y" using t(3) len b(1) by simp
  moreover have "\<forall>h \<in> H. bufs t ! h = bufs s ! h" using t(3) b(2) by (metis nth_list_update_neq)
  ultimately show ?thesis using t(1,2,4,5) y b(1,2) by (intro exI [of _ b] exI [of _ t]) (simp add: fun_eq_iff)
qed


text \<open>What the holder of a buffer sees in it.\<close>

definition seen :: "buf \<Rightarrow> bool \<times> bool \<times> u32 \<times> u32 \<times> bytes" where
  "seen x = (bvalid x, bdirty x, bdev x, blockno x, bdata x)"

lemma replace_buf:
  assumes "cinv H s" and "b \<in> H" and "env_same s t" and "bufs t = (bufs s)[b := y]"
    and "bnext y = bnext (bufs s ! b)" and "bprev y = bprev (bufs s ! b)"
    and "block y = block (bufs s ! b)" and "brefcnt y = brefcnt (bufs s ! b)"
    and "bdev (bufs s ! b) = ROOTDEV" and "bdev y = ROOTDEV" and "blockno y = n" and "blockno (bufs s ! b) = n"
    and "bvalid y" and "\<forall>m. m \<noteq> n \<longrightarrow> disk t ROOTDEV m = disk s ROOTDEV m"
  shows "cinv H t" and "cdata t = (cdata s)(n := bdata y)" and "cdirty t = (cdirty s)(n := bdirty y)"
    and "cached t = cached s" and "bufs t ! b = y"
proof -
  obtain r where r: "ring_ok (bufs s) r" using assms(1) by (auto simp: cinv_def)
  have e: "env_ok s" "one_copy (bufs s)" "H \<subseteq> {..<NBUF}" using assms(1) by (auto simp: cinv_def)
  have ok: "buf_ok H s c" if "c < NBUF" for c using assms(1) that by (simp add: cinv_def)
  have len: "length (bufs s) = 31" by (rule ring_ok_D(1) [OF r])
  have b: "b < NBUF" using assms(2) e(3) by auto
  have cb: "cached s n = Some b" using b assms(9,12) by (simp add: cached_Some [OF e(2)])
  have only: "\<forall>c < NBUF. bdev (bufs s ! c) = ROOTDEV \<and> blockno (bufs s ! c) = blockno y \<longrightarrow> c = b"
    using cb cached_Some [OF e(2), of n] assms(11) by (metis option.inject)
  have one: "one_copy (bufs t)" unfolding assms(4) by (rule one_copy_upd [OF e(2) len b only])
  show yb: "bufs t ! b = y" using b assms(4) len by simp
  have other: "bufs t ! c = bufs s ! c" if "c \<noteq> b" for c using that assms(4) by simp
  have hold: "holder t = holder s" by (rule env_same_holder [OF assms(3) e(1)])
  have "buf_ok H t c" if c: "c < NBUF" for c
  proof (cases "c = b")
    case True
    then show ?thesis using yb assms(2,7,8,10,13) hold ok [OF b] by (simp add: buf_ok_def Let_def)
  next
    case False
    show ?thesis
    proof (cases "bdev (bufs s ! c) = ROOTDEV")
      case True
      then have "blockno (bufs s ! c) \<noteq> blockno y" using only c False by blast
      then have "blockno (bufs s ! c) \<noteq> n" by (simp only: assms(11) not_False_eq_True)
      then have d: "disk t ROOTDEV (blockno (bufs s ! c)) = disk s ROOTDEV (blockno (bufs s ! c))"
        using assms(14) by blast
      show ?thesis by (rule buf_ok_same [OF ok [OF c] other [OF False] hold d refl])
    next
      case dev: False
      then show ?thesis using ok [OF c] other [OF False] hold by (simp add: buf_ok_def Let_def)
    qed
  qed
  moreover have "ring_ok (bufs t) r" unfolding assms(4) by (rule ring_ok_upd [OF r assms(5,6)])
  ultimately show "cinv H t"
    unfolding cinv_def using e(1,3) one env_same_env_ok [OF assms(3)] by (intro conjI) blast+
  have ct: "cached t m = cached s m" for m
    using cached_upd [OF assms(4) e(2) one len b assms(10), of m] cb assms(11)
      cached_Some [OF e(2), of m b] assms(12) by (auto split: if_splits)
  then show "cached t = cached s" by (simp add: fun_eq_iff)
  have ne: "cached s m \<noteq> Some b" if "m \<noteq> n" for m
    using that cached_Some [OF e(2), of m b] assms(12) by auto
  show "cdata t = (cdata s)(n := bdata y)"
  proof (rule ext)
    fix m show "cdata t m = ((cdata s)(n := bdata y)) m"
    proof (cases "m = n")
      case True
      then show ?thesis using cb yb assms(13) by (simp add: cdata_def ct)
    next
      case False
      then show ?thesis using ne [OF False] other assms(14) by (auto simp: cdata_def ct split: option.split)
    qed
  qed
  show "cdirty t = (cdirty s)(n := bdirty y)"
  proof (rule ext)
    fix m show "cdirty t m = ((cdirty s)(n := bdirty y)) m"
    proof (cases "m = n")
      case True
      then show ?thesis using cb yb by (simp add: cdirty_def ct)
    next
      case False
      then show ?thesis using ne [OF False] other by (auto simp: cdirty_def ct split: option.split)
    qed
  qed
qed

lemma cinv_held:
  assumes "cinv H s" and "b \<in> H"
  shows "env_ok s" and "b < NBUF" and "b < length (bufs s)" and "block (bufs s ! b) = \<lparr>slocked = True, spid = holder s\<rparr>"
    and "brefcnt (bufs s ! b) = 1"
proof -
  show "env_ok s" "b < NBUF" using assms by (auto simp: cinv_def)
  moreover have "length (bufs s) = 31" using assms by (auto simp: cinv_def dest: ring_ok_D(1))
  ultimately show "b < length (bufs s)" by simp
  have "buf_ok H s b" using assms by (auto simp: cinv_def)
  then show "block (bufs s ! b) = \<lparr>slocked = True, spid = holder s\<rparr>" "brefcnt (bufs s ! b) = 1"
    using assms(2) by (simp_all add: buf_ok_def Let_def)
qed

text \<open>\<open>bwrite\<close> of a locked buffer puts its contents on the disk as the next sector written, and leaves the buffer clean and locked, and every other block as it was.\<close>

lemma bwrite_ok:
  assumes "cinv H s" and "b \<in> H" and "bdev (bufs s ! b) = ROOTDEV" and "blockno (bufs s ! b) = n" and "n < FSSIZE"
    and "bvalid (bufs s ! b)"
  shows "\<exists>t. bwrite b s = Inr t \<and> cinv H t \<and> disk t = (disk s)(ROOTDEV := (disk s ROOTDEV)(n := bdata (bufs s ! b)))
    \<and> dwrites t = dwrites s @ [(ROOTDEV, n, bdata (bufs s ! b))]
    \<and> bufs t ! b = (bufs s ! b)\<lparr>qnext := None, bdirty := False\<rparr> \<and> (\<forall>h. h \<noteq> b \<longrightarrow> bufs t ! h = bufs s ! h)
    \<and> cdata t = (cdata s)(n := bdata (bufs s ! b)) \<and> cdirty t = (cdirty s)(n := False) \<and> cached t = cached s \<and> env_same s t"
proof -
  note h = cinv_held [OF assms(1,2)]
  let ?s = "upd_buf b (bdirty_update (\<lambda>_. True)) s"
  let ?x = "(bufs s ! b)\<lparr>bdirty := True\<rparr>"
  let ?y = "(bufs s ! b)\<lparr>qnext := None, bdirty := False\<rparr>"
  have at: "?x = bufs ?s ! b" using h by simp
  have pre: "env_ok ?s" "block ?x = \<lparr>slocked = True, spid = holder ?s\<rparr>" "bdirty ?x \<or> \<not> bvalid ?x"
    "blockno ?x < FSSIZE" "b < length (bufs ?s)" using h assms(4,5) by simp_all
  obtain t where t: "iderw b ?s = Inr t" "env_same ?s t"
    "bufs t = (bufs ?s)[b := ?x\<lparr>qnext := None, bdata := bdata ?x, bvalid := True, bdirty := False\<rparr>]"
    "disk t = (disk s)(ROOTDEV := (disk s ROOTDEV)(n := bdata (bufs s ! b)))"
    "dwrites t = dwrites s @ [(ROOTDEV, n, bdata (bufs s ! b))]"
    using iderw_done [OF pre at] assms(3,4) by (auto simp del: env_same_upd_buf)
  have w: "bwrite b s = Inr t" using t h by (simp add: bwrite_def env_ok_simps)
  have bt: "bufs t = (bufs s)[b := ?y]"
  proof -
    have "?x\<lparr>qnext := None, bdata := bdata ?x, bvalid := True, bdirty := False\<rparr> = ?y"
      by (rule buf.equality) (simp_all add: assms(6))
    then show ?thesis using t(3) by (simp add: list_update_overwrite)
  qed
  have e: "env_same s t" using t(2) by simp
  have d: "\<forall>m. m \<noteq> n \<longrightarrow> disk t ROOTDEV m = disk s ROOTDEV m" by (simp add: t(4))
  note r = replace_buf [OF assms(1,2) e bt _ _ _ _ assms(3) _ _ assms(4) _ d]
  have "bufs t ! h = bufs s ! h" if "h \<noteq> b" for h using bt that by simp
  then show ?thesis using r w t(4,5) assms(3,4,6) e by simp
qed


lemma seenD:
  assumes "seen x = seen y"
  shows "bvalid x = bvalid y" and "bdirty x = bdirty y" and "bdev x = bdev y" and "blockno x = blockno y"
    and "bdata x = bdata y"
  using assms by (simp_all add: seen_def)

lemma seen_blocks:
  assumes "\<And>c. seen (bufs t ! c) = seen (bufs s ! c)" and "disk t = disk s"
  shows "cached t = cached s" and "cdata t = cdata s" and "cdirty t = cdirty s"
proof -
  note d = seenD [OF assms(1)]
  show c: "cached t = cached s" by (simp add: fun_eq_iff cached_def d)
  show "cdata t = cdata s" "cdirty t = cdirty s"
    by (simp_all add: fun_eq_iff cdata_def cdirty_def c d assms(2) split: option.split)
qed

text \<open>\<open>brelse\<close> frees the buffer and makes it the most recently used in the ring, so that \<open>bget\<close>, which reuses buffers from the other end, takes the one released longest ago; the invariant of the cache holds again and no block changes its contents.\<close>

lemma brelse_ok:
  assumes "cinv H s" and "b \<in> H" and "ring_ok (bufs s) r"
    and "bdev (bufs s ! b) = ROOTDEV \<and> bvalid (bufs s ! b) \<and> \<not> bdirty (bufs s ! b) \<longrightarrow>
      bdata (bufs s ! b) = disk s ROOTDEV (blockno (bufs s ! b))"
  shows "\<exists>t. brelse b s = Inr t \<and> cinv (H - {b}) t \<and> ring_ok (bufs t) (b # remove1 b r)
    \<and> (\<forall>c. seen (bufs t ! c) = seen (bufs s ! c)) \<and> cdata t = cdata s \<and> cdirty t = cdirty s \<and> cached t = cached s
    \<and> disk t = disk s \<and> dwrites t = dwrites s \<and> env_same s t"
proof -
  note h = cinv_held [OF assms(1,2)]
  let ?x = "(bufs s ! b)\<lparr>block := initsleeplock, brefcnt := 0\<rparr>"
  let ?bs = "(bufs s)[b := ?x]"
  let ?t = "s\<lparr>procs := map (wake (ChSleeplock (L_buf b))) (procs s), bufs := ring_touch b ?bs\<rparr>"
  have held: "held s = []" using h(1) by (simp add: env_ok_def)
  have run: "brelse b s = Inr ?t"
    using h held by (simp add: brelse_def env_ok_simps acquire_def release_def upd_buf_def ring_touch_def
        list_update_overwrite Let_def)
  have same: "env_same s ?t" by (simp add: env_same_def)
  have ring: "ring_ok (ring_touch b ?bs) (b # remove1 b r)"
    using ring_touch_ok [OF ring_ok_upd [OF assms(3)] h(2)] by simp
  have seen: "seen (bufs ?t ! c) = seen (bufs s ! c)" for c
    by (cases "c = b") (use h(3) in \<open>simp_all add: seen_def\<close>)
  note d = seenD [OF seen]
  have "one_copy (bufs ?t)" using assms(1) unfolding cinv_def one_copy_def d(3,4) by blast
  moreover have "buf_ok (H - {b}) ?t c" if c: "c < NBUF" for c
  proof (cases "c = b")
    case True
    have "buf_ok H s b" using assms(1) h(2) by (simp add: cinv_def)
    then show ?thesis using True h(3) assms(2,4) by (simp add: buf_ok_def Let_def initsleeplock_def)
  next
    case False
    have "buf_ok H s c" using assms(1) c by (simp add: cinv_def)
    moreover have "holder ?t = holder s" by (rule env_same_holder [OF same h(1)])
    ultimately show ?thesis using False by (simp add: buf_ok_def Let_def)
  qed
  moreover have "env_ok ?t" using h(1) env_same_env_ok [OF same] by blast
  ultimately have "cinv (H - {b}) ?t" using assms(1) ring unfolding cinv_def by auto
  moreover note seen_blocks [of ?t s, OF seen]
  ultimately show ?thesis using run ring seen same by (intro exI [of _ ?t]) (simp del: ring_touch_nth)
qed


section \<open>The cache after boot\<close>

lemma ring_front_nth:
  "bdirty (ring_front b bs ! i) = bdirty (bs ! i)" "bdev (ring_front b bs ! i) = bdev (bs ! i)"
  "block (ring_front b bs ! i) = block (bs ! i)" "brefcnt (ring_front b bs ! i) = brefcnt (bs ! i)"
  by (simp_all add: ring_front_def Let_def link_upd_nth link_upd_prev_nth link_upd_both_nth)

lemma length_ring_front [simp]: "length (ring_front b bs) = length bs"
  by (simp add: ring_front_def Let_def)

lemma binit_loop:
  assumes "length bs = 31" and "bnext (bs ! BHEAD) = BHEAD" and "bprev (bs ! BHEAD) = BHEAD" and "k \<le> NBUF"
    and "cs = foldl (\<lambda>bs b. ring_front b (bs[b := (bs ! b)\<lparr>block := initsleeplock\<rparr>])) bs [0..<k]"
  shows "length cs = 31 \<and> chain cs (BHEAD # rev [0..<k] @ [BHEAD]) \<and> (\<forall>i < k. block (cs ! i) = initsleeplock)
    \<and> (\<forall>i. bdirty (cs ! i) = bdirty (bs ! i) \<and> bdev (cs ! i) = bdev (bs ! i) \<and> brefcnt (cs ! i) = brefcnt (bs ! i))"
  using assms(4,5)
proof (induction k arbitrary: cs)
  case 0
  then show ?case using assms(1-3) by simp
next
  case (Suc k)
  let ?f = "\<lambda>bs b. ring_front b (bs[b := (bs ! b)\<lparr>block := initsleeplock\<rparr>])"
  define ds where "ds = foldl ?f bs [0..<k]"
  let ?es = "ds[k := (ds ! k)\<lparr>block := initsleeplock\<rparr>]"
  have cs: "cs = ring_front k ?es" using Suc.prems(2) by (simp add: ds_def)
  have k: "k < 31" "k < NBUF" using Suc.prems(1) by simp_all
  have IH: "length ds = 31" "chain ds (BHEAD # rev [0..<k] @ [BHEAD])" "\<forall>i < k. block (ds ! i) = initsleeplock"
    "\<forall>i. bdirty (ds ! i) = bdirty (bs ! i) \<and> bdev (ds ! i) = bdev (bs ! i) \<and> brefcnt (ds ! i) = brefcnt (bs ! i)"
    using Suc.IH [of ds] k(2) ds_def by auto
  have nth: "?es ! i = (if i = k then (ds ! k)\<lparr>block := initsleeplock\<rparr> else ds ! i)" for i
    using IH(1) k by simp
  have "chain ?es (BHEAD # rev [0..<k] @ [BHEAD])"
    using IH(2) by (subst chain_cong [of _ ?es ds]) (auto simp: nth)
  then have "chain cs (BHEAD # k # rev [0..<k] @ [BHEAD])"
    unfolding cs by (rule ring_front_chain) (use k IH(1) in auto)
  moreover have "rev [0..<Suc k] = k # rev [0..<k]" by simp
  moreover have "\<forall>i < Suc k. block (cs ! i) = initsleeplock"
    using IH(3) by (auto simp: cs ring_front_nth nth)
  moreover have "\<forall>i. bdirty (cs ! i) = bdirty (bs ! i) \<and> bdev (cs ! i) = bdev (bs ! i) \<and> brefcnt (cs ! i) = brefcnt (bs ! i)"
    using IH(4) by (auto simp: cs ring_front_nth nth)
  ultimately show ?case using IH(1) by (simp add: cs)
qed

text \<open>\<open>binit\<close> on the zeroed array of buffers makes a cache with every buffer free and none in use.\<close>

lemma binit_cinv:
  assumes "env_ok s" and "length (bufs s) = 31"
    and "\<forall>b < NBUF. bdev (bufs s ! b) = 0 \<and> brefcnt (bufs s ! b) = 0 \<and> \<not> bdirty (bufs s ! b)"
  shows "cinv {} (binit s)" and "ring_ok (bufs (binit s)) (rev [0..<NBUF])" and "cached (binit s) n = None"
proof -
  let ?bs = "(bufs s)[BHEAD := (bufs s ! BHEAD)\<lparr>bprev := BHEAD, bnext := BHEAD\<rparr>]"
  have nth: "?bs ! i = (if i = BHEAD then (bufs s ! BHEAD)\<lparr>bprev := BHEAD, bnext := BHEAD\<rparr> else bufs s ! i)" for i
    using assms(2) by simp
  have l: "length (bufs (binit s)) = 31 \<and> chain (bufs (binit s)) (BHEAD # rev [0..<NBUF] @ [BHEAD])
    \<and> (\<forall>i < NBUF. block (bufs (binit s) ! i) = initsleeplock)
    \<and> (\<forall>i. bdirty (bufs (binit s) ! i) = bdirty (?bs ! i) \<and> bdev (bufs (binit s) ! i) = bdev (?bs ! i)
        \<and> brefcnt (bufs (binit s) ! i) = brefcnt (?bs ! i))"
    by (rule binit_loop [where bs = ?bs]) (simp_all add: binit_def Let_def nth assms(2) del: upt_Suc upt_rec_numeral)
  then show ring: "ring_ok (bufs (binit s)) (rev [0..<NBUF])"
    by (auto simp: ring_ok_def simp del: upt_rec_numeral)
  have b: "bdev (bufs (binit s) ! b) = 0 \<and> brefcnt (bufs (binit s) ! b) = 0 \<and> \<not> bdirty (bufs (binit s) ! b)
    \<and> block (bufs (binit s) ! b) = initsleeplock" if "b < NBUF" for b
    using l assms(3) that by (auto simp: nth)
  then show "cached (binit s) n = None" by (simp add: cached_None)
  have "env_ok (binit s)" using assms(1) by (simp add: env_ok_def binit_def Let_def)
  moreover have "one_copy (bufs (binit s))" using b by (simp add: one_copy_def)
  moreover have "buf_ok {} (binit s) c" if "c < NBUF" for c
    using b [OF that] by (simp add: buf_ok_def Let_def initsleeplock_def)
  ultimately show "cinv {} (binit s)" using ring by (auto simp: cinv_def)
qed


text \<open>A machine after \<open>binit\<close>, with disk 1 given, for the witnesses.\<close>

definition zero_buf :: buf where
  "zero_buf = \<lparr>bvalid = False, bdirty = False, bdev = 0, blockno = 0, block = \<lparr>slocked = False, spid = 0\<rparr>,
     brefcnt = 0, bprev = 0, bnext = 0, qnext = None, bdata = replicate BSIZE 0\<rparr>"

definition boot_bio :: "(u32 \<Rightarrow> bytes) \<Rightarrow> 'a \<Rightarrow> 'a bio_state_scheme" where
  "boot_bio d m = binit
    \<lparr>held = [], mem = (\<lambda>_. 0), freelist = 0, use_lock = True, kend = 0x80100000,
     kpgdir = 0, kdata = 0x80108000, cr3 = 0,
     procs = [proc0\<lparr>state := RUNNING, pid := 1\<rparr>], nextpid = 10, curproc = Some 0, initproc = Some 0,
     esp0 = 0, ticks = 0, ktrapret = 0, kforkret = 0, kinitcode = [],
     disk = (\<lambda>_. d), ide_active = None, ideerr = False, dwrites = [], idequeue = None,
     havedisk1 = True, bufs = replicate 31 zero_buf, \<dots> = m\<rparr>"

lemma boot_bio:
  "cinv {} (boot_bio d m)" "ring_ok (bufs (boot_bio d m)) (rev [0..<NBUF])" "cached (boot_bio d m) n = None"
  "cdata (boot_bio d m) = d" "cdirty (boot_bio d m) = (\<lambda>_. False)" "disk (boot_bio d m) = (\<lambda>_. d)"
  "dwrites (boot_bio d m) = []" "bio_state.more (boot_bio d m) = m"
proof -
  let ?s = "\<lparr>held = [], mem = (\<lambda>_. 0), freelist = 0, use_lock = True, kend = 0x80100000,
     kpgdir = 0, kdata = 0x80108000, cr3 = 0,
     procs = [proc0\<lparr>state := RUNNING, pid := 1\<rparr>], nextpid = 10, curproc = Some 0, initproc = Some 0,
     esp0 = 0, ticks = 0, ktrapret = 0, kforkret = 0, kinitcode = [],
     disk = (\<lambda>_. d), ide_active = None, ideerr = False, dwrites = [], idequeue = None,
     havedisk1 = True, bufs = replicate 31 zero_buf, \<dots> = m\<rparr>"
  have "env_ok ?s" "length (bufs ?s) = 31"
    "\<forall>b < NBUF. bdev (bufs ?s ! b) = 0 \<and> brefcnt (bufs ?s ! b) = 0 \<and> \<not> bdirty (bufs ?s ! b)"
    by (simp_all add: env_ok_def zero_buf_def)
  note i = binit_cinv [OF this]
  show c: "cinv {} (boot_bio d m)" "ring_ok (bufs (boot_bio d m)) (rev [0..<NBUF])" "cached (boot_bio d m) n = None" for n
    unfolding boot_bio_def by (rule i)+
  show dk: "disk (boot_bio d m) = (\<lambda>_. d)" "dwrites (boot_bio d m) = []" "bio_state.more (boot_bio d m) = m"
    by (simp_all add: boot_bio_def binit_def Let_def)
  show "cdata (boot_bio d m) = d" "cdirty (boot_bio d m) = (\<lambda>_. False)"
    by (simp_all add: fun_eq_iff cdata_def cdirty_def c(3) dk)
qed

text \<open>A dirty buffer is the cached copy of its block.\<close>

lemma dirty_cached:
  assumes "cinv H s" and "b < NBUF" and "bdirty (bufs s ! b)"
  shows "cached s (blockno (bufs s ! b)) = Some b" and "cdirty s (blockno (bufs s ! b))"
proof -
  have "buf_ok H s b" "one_copy (bufs s)" using assms(1,2) by (auto simp: cinv_def)
  then show c: "cached s (blockno (bufs s ! b)) = Some b"
    using assms(2,3) by (simp add: cached_Some buf_ok_def Let_def)
  then show "cdirty s (blockno (bufs s ! b))" using assms(3) by (simp add: cdirty_def)
qed

text \<open>As long as fewer blocks are dirty than there are buffers, one can be reused.\<close>

lemma clean_buf:
  assumes "cinv H s" and "\<forall>n. cdirty s n \<longrightarrow> n \<in> set ns" and "length ns + card H < NBUF"
  shows "\<exists>b < NBUF. b \<notin> H \<and> \<not> bdirty (bufs s ! b)"
proof (rule ccontr)
  assume "\<not> ?thesis"
  then have all: "bdirty (bufs s ! b)" if "b \<in> {..<NBUF} - H" for b using that by blast
  let ?f = "\<lambda>b. blockno (bufs s ! b)"
  have H: "finite H" "H \<subseteq> {..<NBUF}" using assms(1) finite_subset by (auto simp: cinv_def)
  have "inj_on ?f ({..<NBUF} - H)"
  proof (rule inj_onI)
    fix b c assume bc: "b \<in> {..<NBUF} - H" "c \<in> {..<NBUF} - H" "?f b = ?f c"
    have "cached s (?f b) = Some b" "cached s (?f c) = Some c"
      using dirty_cached(1) [OF assms(1), of b] dirty_cached(1) [OF assms(1), of c] all [OF bc(1)] all [OF bc(2)] bc(1,2)
      by blast+
    then show "b = c" using bc(3) by (metis option.inject)
  qed
  moreover have "?f ` ({..<NBUF} - H) \<subseteq> set ns"
    using dirty_cached(2) [OF assms(1)] all assms(2) by auto
  ultimately have "card ({..<NBUF} - H) \<le> card (set ns)" by (metis card_image card_mono List.finite_set)
  then have "NBUF - card H \<le> length ns"
    using H card_length [of ns] by (simp add: card_Diff_subset)
  then show False using assms(3) by simp
qed


section \<open>Which buffer is reused\<close>

lemma find_rev_last: "find P (rev xs) = Some b \<Longrightarrow> b = last (filter P xs)"
proof (induction xs rule: rev_induct)
  case (snoc x xs)
  then show ?case by (cases "P x") simp_all
qed simp

text \<open>C20. \<open>bread\<close> of a block that is not cached evicts the least recently used of the buffers that are free and clean: the last such one of the ring, which \<open>brelse\<close> keeps in order of use. It reads the block from the disk, and no block changes its contents.\<close>

theorem bread_evicts_oldest:
  assumes "cinv H s" and "ring_ok (bufs s) r" and "n < FSSIZE" and "cached s n = None"
    and "filter (\<lambda>b. b \<notin> H \<and> \<not> bdirty (bufs s ! b)) r \<noteq> []"
  shows "\<exists>t. bread ROOTDEV n s = Inr (last (filter (\<lambda>b. b \<notin> H \<and> \<not> bdirty (bufs s ! b)) r), t)
    \<and> cinv (insert (last (filter (\<lambda>b. b \<notin> H \<and> \<not> bdirty (bufs s ! b)) r)) H) t
    \<and> bdata (bufs t ! last (filter (\<lambda>b. b \<notin> H \<and> \<not> bdirty (bufs s ! b)) r)) = disk s ROOTDEV n
    \<and> cdata t = cdata s \<and> cdirty t = cdirty s"
proof -
  let ?P = "\<lambda>b. brefcnt (bufs s ! b) = 0 \<and> \<not> bdirty (bufs s ! b)"
  note set = ring_ok_D(3) [OF assms(2)]
  have ok: "buf_ok H s b" if "b \<in> set r" for b using assms(1) that set by (simp add: cinv_def)
  have P: "filter ?P r = filter (\<lambda>b. b \<notin> H \<and> \<not> bdirty (bufs s ! b)) r"
    using ok by (intro filter_cong) (auto simp: buf_ok_def Let_def split: if_splits)
  obtain c where "c \<in> set r" "c \<notin> H" "\<not> bdirty (bufs s ! c)" using assms(5) by (auto simp: filter_empty_conv)
  then have free: "\<exists>b < NBUF. b \<notin> H \<and> \<not> bdirty (bufs s ! b)" using set by auto
  obtain b where b: "find ?P (rev r) = Some b" and g: "\<exists>u. bget ROOTDEV n s = Inr (b, u)"
    using bget_miss [OF assms(1,4) free assms(2)] by blast
  obtain c t where c: "bread ROOTDEV n s = Inr (c, t)" "cinv (insert c H) t" "bdata (bufs t ! c) = cdata s n"
    "cdata t = cdata s" "cdirty t = cdirty s"
    using bread_ok [OF assms(1,3)] assms(4) free by auto
  have "c = b" using c(1) g by (auto simp: bread_def bindE_Inr_iff split: if_splits)
  moreover have "b = last (filter (\<lambda>b. b \<notin> H \<and> \<not> bdirty (bufs s ! b)) r)" using find_rev_last [OF b] P by simp
  moreover have "cdata s n = disk s ROOTDEV n" using assms(4) by (simp add: cdata_def)
  ultimately show ?thesis using c by simp
qed

lemma bread_evicts_oldest_witness:
  "\<exists>t. bread ROOTDEV 5 (boot_bio (\<lambda>n. [ucast n]) ()) = Inr (0, t) \<and> bdata (bufs t ! 0) = [5]"
proof -
  let ?s = "boot_bio (\<lambda>n. [ucast n]) ()"
  have clean: "\<not> bdirty (bufs ?s ! b)" if "b < NBUF" for b
    using dirty_cached(2) [OF boot_bio(1) that] by (auto simp: boot_bio(5))
  have f: "filter (\<lambda>b. b \<notin> {} \<and> \<not> bdirty (bufs ?s ! b)) (rev [0..<NBUF]) = rev [0..<NBUF]"
    using clean by (intro filter_True) auto
  have "last (rev [0..<NBUF]) = 0" by (simp add: last_rev del: upt_rec_numeral)
  moreover have "rev [0..<NBUF] \<noteq> []" by simp
  ultimately show ?thesis
    using bread_evicts_oldest [OF boot_bio(1,2), of 5 "\<lambda>n. [ucast n]" "()"] unfolding f
    by (auto simp: boot_bio(3,6))
qed

end
