(* ===== verification/Xv6_LogSpec.thy ===== *)
theory Xv6_LogSpec
  imports Xv6_Log Xv6_BioSpec
begin

text \<open>
  The write-ahead log: the header on the disk, what \<open>commit\<close> and \<open>recover_from_log\<close> write and in
  which order, and why a crash between any two sectors leaves either all or none of a transaction.
\<close>

section \<open>The header\<close>

lemma length_put32 [simp]: "length (put32 i w d) = length d"
  by (simp add: put32_def)

lemma get32_put32 [simp]:
  "i + 3 < length d \<Longrightarrow> get32 (put32 i w d) i = w"
  by (simp add: get32_def put32_def nth_list_update)

lemma get32_put32_other:
  "i + 4 \<le> j \<or> j + 4 \<le> i \<Longrightarrow> get32 (put32 i w d) j = get32 d j"
  by (auto simp: get32_def put32_def nth_list_update)

lemma put_head_loop:
  assumes "k \<le> length l" and "4 + 4 * length l \<le> length d"
    and "e = foldl (\<lambda>d i. put32 (4 + 4 * i) (l ! i) d) (put32 0 w d) [0..<k]"
  shows "length e = length d \<and> get32 e 0 = w \<and> (\<forall>i < k. get32 e (4 + 4 * i) = l ! i)"
  using assms(1,3)
proof (induction k arbitrary: e)
  case 0
  then show ?case using assms(2) by simp
next
  case (Suc k)
  define c where "c = foldl (\<lambda>d i. put32 (4 + 4 * i) (l ! i) d) (put32 0 w d) [0..<k]"
  have e: "e = put32 (4 + 4 * k) (l ! k) c" using Suc.prems(2) by (simp add: c_def)
  have IH: "length c = length d" "get32 c 0 = w" "\<forall>i < k. get32 c (4 + 4 * i) = l ! i"
    using Suc.IH [of c] Suc.prems(1) c_def by auto
  have "get32 e (4 + 4 * i) = l ! i" if "i < Suc k" for i
  proof (cases "i = k")
    case True
    then show ?thesis using Suc.prems(1) assms(2) IH(1) by (simp add: e)
  next
    case False
    then show ?thesis using that IH(3) by (simp add: e get32_put32_other)
  qed
  moreover have "get32 e 0 = w" using IH(2) by (simp add: e get32_put32_other)
  ultimately show ?case using IH(1) by (simp add: e)
qed

lemma sint_small: "n < 2147483648 \<Longrightarrow> sint (of_nat n :: u32) = int n"
  by (simp add: signed_of_nat signed_take_bit_int_eq_self)

lemma head_of_put_head:
  assumes "length l \<le> LOGSIZE" and "length d = BSIZE"
  shows "head_of (put_head l d) = Inr l"
proof -
  have p: "length (put_head l d) = length d \<and> get32 (put_head l d) 0 = of_nat (length l)
    \<and> (\<forall>i < length l. get32 (put_head l d) (4 + 4 * i) = l ! i)"
    by (rule put_head_loop [where l = l and k = "length l"]) (use assms in \<open>simp_all add: put_head_def\<close>)
  have n: "sint (of_nat (length l) :: u32) = int (length l)" using assms(1) by (simp add: sint_small)
  have "map (\<lambda>i. get32 (put_head l d) (4 + 4 * i)) [0..<length l] = l"
    using p by (intro nth_equalityI) auto
  then show ?thesis using p n assms(1) by (simp add: head_of_def Let_def)
qed

lemma length_put_head: "4 + 4 * length l \<le> length d \<Longrightarrow> length (put_head l d) = length d"
  using put_head_loop [where l = l and k = "length l" and d = d] by (simp add: put_head_def)

section \<open>Runs of block writes\<close>

definition put_all :: "(u32 \<times> bytes) list \<Rightarrow> (u32 \<Rightarrow> bytes) \<Rightarrow> u32 \<Rightarrow> bytes" where
  "put_all ws f = fold (\<lambda>(n, x) f. f(n := x)) ws f"

lemma put_all_simps [simp]:
  "put_all [] f = f" "put_all ((n, x) # ws) f = put_all ws (f(n := x))"
  "put_all (ws @ vs) f = put_all vs (put_all ws f)"
  by (simp_all add: put_all_def)

lemma put_all_other: "n \<notin> fst ` set ws \<Longrightarrow> put_all ws f n = f n"
  by (induction ws arbitrary: f) auto

lemma put_all_in:
  "distinct (map fst ws) \<Longrightarrow> (n, x) \<in> set ws \<Longrightarrow> put_all ws f n = x"
proof (induction ws arbitrary: f)
  case (Cons w ws)
  then show ?case by (cases w) (force simp: put_all_other)
qed simp

text \<open>
  \<open>wrote ws s t\<close>: from a cache with every buffer free to such a cache, the blocks \<open>ws\<close> have been
  written in that order and nothing else has changed.
\<close>

definition wrote :: "(u32 \<times> bytes) list \<Rightarrow> 'a bio_state_scheme \<Rightarrow> 'a bio_state_scheme \<Rightarrow> bool" where
  "wrote ws s t \<longleftrightarrow> cinv {} t \<and> env_same s t \<and> dwrites t = dwrites s @ map (\<lambda>(n, x). (ROOTDEV, n, x)) ws
     \<and> disk t ROOTDEV = put_all ws (disk s ROOTDEV) \<and> cdata t = put_all ws (cdata s)
     \<and> cdirty t = (\<lambda>n. cdirty s n \<and> n \<notin> fst ` set ws)"

lemma wrote_refl: "cinv {} s \<Longrightarrow> wrote [] s s"
  by (simp add: wrote_def)

lemma wrote_trans: "wrote ws s t \<Longrightarrow> wrote vs t u \<Longrightarrow> wrote (ws @ vs) s u"
  by (auto simp: wrote_def image_Un intro: env_same_trans)

lemma wrote_cinv: "wrote ws s t \<Longrightarrow> cinv {} t"
  by (simp add: wrote_def)

lemma more_log_fields:
  fixes s t :: "'a log_state_scheme"
  assumes "bio_state.more t = bio_state.more s"
  shows "logdev t = logdev s" and "logstart t = logstart s" and "lh t = lh s" and "logsize t = logsize s"
    and "outstanding t = outstanding s" and "committing t = committing s"
  using assms by (cases s; cases t; simp)+

lemma env_same_log_fields:
  fixes s t :: "'a log_state_scheme"
  assumes "env_same s t"
  shows "logdev t = logdev s" and "logstart t = logstart s" and "lh t = lh s" and "logsize t = logsize s"
    and "outstanding t = outstanding s" and "committing t = committing s"
proof -
  have "bio_state.more t = bio_state.more s" using assms by (simp add: env_same_def)
  note m = more_log_fields [OF this]
  show "logdev t = logdev s" "logstart t = logstart s" "lh t = lh s" "logsize t = logsize s"
    "outstanding t = outstanding s" "committing t = committing s" by (rule m)+
qed

lemma wrote_env: "wrote ws s t \<Longrightarrow> env_same s t"
  by (simp add: wrote_def)

lemmas wrote_sel = env_same_log_fields [OF wrote_env]

lemma clean_disk:
  assumes "cinv H s" and "\<not> cdirty s n" and "\<forall>h \<in> H. cached s n \<noteq> Some h"
  shows "disk s ROOTDEV n = cdata s n"
proof (cases "cached s n")
  case (Some b)
  have "one_copy (bufs s)" using assms(1) by (simp add: cinv_def)
  then have b: "b < NBUF" "bdev (bufs s ! b) = ROOTDEV" "blockno (bufs s ! b) = n" "b \<notin> H"
    using Some cached_Some assms(3) by blast+
  then have "buf_ok H s b" using assms(1) by (simp add: cinv_def)
  then show ?thesis using Some b assms(2) by (simp add: cdata_def cdirty_def buf_ok_def Let_def)
qed (simp add: cdata_def)


section \<open>Copying one block to another\<close>

lemma bread_bread:
  assumes "cinv {} s" and "m < FSSIZE" and "n < FSSIZE" and "m \<noteq> n"
    and "\<forall>n. cdirty s n \<longrightarrow> n \<in> set ns" and "length ns < NBUF" and "cdirty s n \<or> length ns + 1 < NBUF"
  shows "\<exists>b c u v. bread ROOTDEV m s = Inr (b, u) \<and> bread ROOTDEV n u = Inr (c, v) \<and> b \<noteq> c \<and> cinv {b, c} v
    \<and> seen (bufs v ! b) = (True, cdirty s m, ROOTDEV, m, cdata s m)
    \<and> seen (bufs v ! c) = (True, cdirty s n, ROOTDEV, n, cdata s n)
    \<and> cdata v = cdata s \<and> cdirty v = cdirty s \<and> disk v = disk s \<and> dwrites v = dwrites s
    \<and> env_same s u \<and> env_same s v"
proof -
  have "\<exists>b < NBUF. b \<notin> {} \<and> \<not> bdirty (bufs s ! b)" by (rule clean_buf [OF assms(1,5)]) (simp add: assms(6))
  then obtain b u where u: "bread ROOTDEV m s = Inr (b, u)" "b < NBUF" "cinv {b} u"
    "bdev (bufs u ! b) = ROOTDEV" "blockno (bufs u ! b) = m" "bvalid (bufs u ! b)"
    "bdata (bufs u ! b) = cdata s m" "bdirty (bufs u ! b) = cdirty s m"
    "cdata u = cdata s" "cdirty u = cdirty s" "disk u = disk s" "dwrites u = dwrites s" "env_same s u"
    using bread_ok [OF assms(1,2)] by auto
  have "one_copy (bufs u)" using u(3) by (simp add: cinv_def)
  then have nb: "\<forall>h \<in> {b}. cached u n \<noteq> Some h" using cached_Some u(5) assms(4) by blast
  have "cached u n \<noteq> None \<or> (\<exists>c < NBUF. c \<notin> {b} \<and> \<not> bdirty (bufs u ! c))"
  proof (cases "cdirty s n")
    case True
    then have "cdirty u n" by (simp add: u)
    then show ?thesis by (auto simp: cdirty_def split: option.splits)
  next
    case False
    have "\<exists>c < NBUF. c \<notin> {b} \<and> \<not> bdirty (bufs u ! c)"
      by (rule clean_buf [OF u(3)]) (use assms(5,7) False u(10) in auto)
    then show ?thesis by blast
  qed
  then obtain c v where v: "bread ROOTDEV n u = Inr (c, v)" "c \<notin> {b}" "cinv (insert c {b}) v"
    "bdev (bufs v ! c) = ROOTDEV" "blockno (bufs v ! c) = n" "bvalid (bufs v ! c)"
    "bdata (bufs v ! c) = cdata u n" "bdirty (bufs v ! c) = cdirty u n" "\<forall>h \<in> {b}. bufs v ! h = bufs u ! h"
    "cdata v = cdata u" "cdirty v = cdirty u" "disk v = disk u" "dwrites v = dwrites u" "env_same u v"
    using bread_ok [OF u(3) assms(3) nb] by blast
  have "cinv {b, c} v" using v(3) by (simp add: insert_commute)
  moreover have "seen (bufs v ! b) = (True, cdirty s m, ROOTDEV, m, cdata s m)"
    using v(9) u by (simp add: seen_def)
  moreover have "seen (bufs v ! c) = (True, cdirty s n, ROOTDEV, n, cdata s n)"
    using v u by (simp add: seen_def)
  moreover have "env_same s v" by (rule env_same_trans [OF u(13) v(14)])
  ultimately show ?thesis
    using u(1,9-13) v(1,2,10-13) by (intro exI [of _ b] exI [of _ c] exI [of _ u] exI [of _ v]) simp
qed

lemma copy_block:
  assumes "cinv {b, c} v" and "b \<noteq> c" and "seen (bufs v ! b) = (True, db, ROOTDEV, m, D)"
    and "seen (bufs v ! c) = (True, dc, ROOTDEV, n, E)" and "m \<noteq> n" and "n < FSSIZE"
    and "db \<or> D = disk v ROOTDEV m" and "x = b \<and> y = c \<or> x = c \<and> y = b"
  shows "\<exists>t. bindE (bwrite c (upd_buf c (bdata_update (\<lambda>_. bdata (bufs v ! b))) v)) (\<lambda>s. bindE (brelse x s) (brelse y)) = Inr t
    \<and> wrote [(n, D)] v t"
proof -
  have vb: "bvalid (bufs v ! b)" "bdirty (bufs v ! b) = db" "bdev (bufs v ! b) = ROOTDEV" "blockno (bufs v ! b) = m"
    "bdata (bufs v ! b) = D" and vc: "bvalid (bufs v ! c)" "bdev (bufs v ! c) = ROOTDEV" "blockno (bufs v ! c) = n"
    using assms(3,4) by (simp_all add: seen_def)
  let ?u = "upd_buf c (bdata_update (\<lambda>_. bdata (bufs v ! b))) v"
  let ?y = "(bufs v ! c)\<lparr>bdata := D\<rparr>"
  have cH: "c \<in> {b, c}" by simp
  have len: "c < length (bufs v)" "b < length (bufs v)" using cinv_held(3) [OF assms(1)] by simp_all
  have bu: "bufs ?u = (bufs v)[c := ?y]" by (simp add: vb)
  note u = replace_buf [OF assms(1) cH _ bu, of n]
  have u: "cinv {b, c} ?u" "cdata ?u = (cdata v)(n := D)" "cdirty ?u = (cdirty v)(n := bdirty (bufs v ! c))" "bufs ?u ! c = ?y"
    using u vc by simp_all
  have ub: "bufs ?u ! b = bufs v ! b" using bu assms(2) by simp
  obtain w where w: "bwrite c ?u = Inr w" "cinv {b, c} w" "disk w = (disk v)(ROOTDEV := (disk v ROOTDEV)(n := D))"
    "dwrites w = dwrites v @ [(ROOTDEV, n, D)]" "bufs w ! c = ?y\<lparr>qnext := None, bdirty := False\<rparr>"
    "\<forall>h. h \<noteq> c \<longrightarrow> bufs w ! h = bufs ?u ! h" "cdata w = (cdata ?u)(n := D)" "cdirty w = (cdirty ?u)(n := False)"
    "env_same ?u w"
    using bwrite_ok [OF u(1) cH, of n] u(4) vc assms(6) by auto
  have wb: "bufs w ! b = bufs v ! b" using w(6) assms(2) ub by simp
  have coh: "bdirty (bufs w ! h) \<or> bdata (bufs w ! h) = disk w ROOTDEV (blockno (bufs w ! h))" if "h \<in> {b, c}" for h
    using that w(3,5) wb vb vc assms(5,7) by auto
  have xy: "x \<in> {b, c}" "y \<in> {b, c} - {x}" "{b, c} - {x} - {y} = {}" using assms(2,8) by auto
  obtain r where "ring_ok (bufs w) r" using w(2) by (auto simp: cinv_def)
  then obtain p where p: "brelse x w = Inr p" "cinv ({b, c} - {x}) p" "ring_ok (bufs p) (x # remove1 x r)"
    "\<forall>h. seen (bufs p ! h) = seen (bufs w ! h)" "cdata p = cdata w" "cdirty p = cdirty w" "disk p = disk w"
    "dwrites p = dwrites w" "env_same w p"
    using brelse_ok [OF w(2) xy(1)] coh [OF xy(1)] by blast
  have "bdirty (bufs p ! y) \<or> bdata (bufs p ! y) = disk p ROOTDEV (blockno (bufs p ! y))"
    using coh [of y] xy(2) seenD [OF p(4) [rule_format, of y]] p(7) by simp
  then obtain t where t: "brelse y p = Inr t" "cinv ({b, c} - {x} - {y}) t" "cdata t = cdata p" "cdirty t = cdirty p"
    "disk t = disk p" "dwrites t = dwrites p" "env_same p t"
    using brelse_ok [OF p(2) xy(2) p(3)] by blast
  have "env_same v t"
    using w(9) p(9) t(7) by (auto intro: env_same_trans)
  moreover have "(cdirty v)(n := False) = (\<lambda>k. cdirty v k \<and> k \<noteq> n)" by (simp add: fun_eq_iff)
  ultimately have "wrote [(n, D)] v t"
    using t w p u xy(3) by (auto simp: wrote_def)
  then show ?thesis using w(1) p(1) t(1) by simp
qed


section \<open>One pass over the log\<close>

text \<open>
  \<open>log_area ls\<close> is the header's block and the 29 blocks after it, \<open>LOGSIZE\<close> in all, as \<open>mkfs\<close> lays them out; \<open>log_ready\<close> what holds of the
  in-memory log whenever it is written or installed.
\<close>

definition logblk :: "u32 \<Rightarrow> nat \<Rightarrow> u32" where
  "logblk ls i = ls + of_nat i + 1"

definition log_area :: "u32 \<Rightarrow> u32 set" where
  "log_area ls = {n. unat ls \<le> unat n \<and> unat n < unat ls + LOGSIZE}"

definition log_ready :: "'a log_state_scheme \<Rightarrow> bool" where
  "log_ready s \<longleftrightarrow> cinv {} s \<and> logdev s = ROOTDEV \<and> unat (logstart s) + LOGSIZE < 1000 \<and> distinct (lh s)
     \<and> length (lh s) < LOGSIZE \<and> (\<forall>n \<in> set (lh s). n < FSSIZE \<and> n \<notin> log_area (logstart s))
     \<and> (\<forall>n. cdirty s n \<longrightarrow> n \<in> set (lh s))"

lemma unat_logblk:
  assumes "unat ls + LOGSIZE < 1000" and "i < LOGSIZE"
  shows "unat (logblk ls i) = unat ls + i + 1"
proof -
  have "unat (ls + of_nat (i + 1)) = unat ls + (i + 1)" using assms by (intro unat_add_of_nat32) simp
  then show ?thesis by (simp add: logblk_def algebra_simps)
qed

lemma logblk:
  assumes "unat ls + LOGSIZE < 1000" and "Suc i < LOGSIZE"
  shows "logblk ls i < FSSIZE" and "logblk ls i \<in> log_area ls" and "logblk ls i \<noteq> ls"
    and "ls < FSSIZE" and "ls \<in> log_area ls"
proof -
  have "i < LOGSIZE" using assms(2) by simp
  note u = unat_logblk [OF assms(1) this]
  show "logblk ls i < FSSIZE" "ls < FSSIZE" using u assms by (simp_all add: word_less_nat_alt)
  show "logblk ls i \<in> log_area ls" "ls \<in> log_area ls" using u assms by (simp_all add: log_area_def)
  show "logblk ls i \<noteq> ls" using u by (intro neq_by_unat) simp
qed

lemma logblk_inj:
  assumes "unat ls + LOGSIZE < 1000" and "i < LOGSIZE" and "j < LOGSIZE" and "logblk ls i = logblk ls j"
  shows "i = j"
  using unat_logblk [OF assms(1,2)] unat_logblk [OF assms(1,3)] unfolding assms(4) by linarith

lemma log_ready_D:
  assumes "log_ready s"
  shows "cinv {} s" and "logdev s = ROOTDEV" and "unat (logstart s) + LOGSIZE < 1000" and "distinct (lh s)"
    and "length (lh s) < LOGSIZE" and "\<forall>n. cdirty s n \<longrightarrow> n \<in> set (lh s)"
    and "i < length (lh s) \<Longrightarrow> lh s ! i < FSSIZE \<and> lh s ! i \<notin> log_area (logstart s)"
  using assms by (simp_all add: log_ready_def)

lemma wrote_ready:
  assumes "log_ready s" and "wrote ws s t"
  shows "log_ready t"
proof -
  have "cinv {} t" "\<forall>n. cdirty t n \<longrightarrow> cdirty s n" using assms(2) by (simp_all add: wrote_def)
  moreover have "\<forall>n. cdirty s n \<longrightarrow> n \<in> set (lh s)" using assms(1) by (simp add: log_ready_def)
  ultimately show ?thesis using assms(1) by (simp add: log_ready_def wrote_sel [OF assms(2)])
qed

lemma log_one_ok:
  assumes "log_ready s" and "i < length (lh s)" and "cdirty s (lh s ! i)"
  shows "\<exists>t. log_one i s = Inr t \<and> wrote [(logblk (logstart s) i, cdata s (lh s ! i))] s t"
proof -
  note r = log_ready_D [OF assms(1)]
  have i: "Suc i < LOGSIZE" using r(5) assms(2) by simp
  note lb = logblk [OF r(3) i]
  note ni = r(7) [OF assms(2)]
  have neq: "logblk (logstart s) i \<noteq> lh s ! i" using lb(2) ni by auto
  obtain b c u v where v: "bread ROOTDEV (logblk (logstart s) i) s = Inr (b, u)"
    "bread ROOTDEV (lh s ! i) u = Inr (c, v)" "b \<noteq> c" "cinv {b, c} v"
    "seen (bufs v ! b) = (True, cdirty s (logblk (logstart s) i), ROOTDEV, logblk (logstart s) i, cdata s (logblk (logstart s) i))"
    "seen (bufs v ! c) = (True, True, ROOTDEV, lh s ! i, cdata s (lh s ! i))"
    "cdata v = cdata s" "cdirty v = cdirty s" "disk v = disk s" "dwrites v = dwrites s" "env_same s u" "env_same s v"
    using bread_bread [OF r(1) lb(1) conjunct1 [OF ni] neq r(6)] r(5) assms(3) by auto
  have cb: "cinv {c, b} v" using v(4) by (simp add: insert_commute)
  obtain t where t: "bindE (bwrite b (upd_buf b (bdata_update (\<lambda>_. bdata (bufs v ! c))) v)) (\<lambda>s. bindE (brelse c s) (brelse b)) = Inr t"
    "wrote [(logblk (logstart s) i, cdata s (lh s ! i))] v t"
    using copy_block [OF cb v(3) [symmetric] v(6,5) neq [symmetric] lb(1)] by blast
  have "log_one i s = Inr t" using v(1,2) t(1) r(2) by (simp add: log_one_def logblk_def env_same_log_fields [OF v(11)])
  moreover have "wrote [(logblk (logstart s) i, cdata s (lh s ! i))] s t"
    using t(2) v(7-10,12) by (auto simp: wrote_def intro: env_same_trans)
  ultimately show ?thesis by blast
qed

lemma install_one_ok:
  assumes "log_ready s" and "i < length (lh s)" and "cdirty s (lh s ! i) \<or> (\<forall>n. \<not> cdirty s n)"
  shows "\<exists>t. install_one i s = Inr t \<and> wrote [(lh s ! i, cdata s (logblk (logstart s) i))] s t"
proof -
  note r = log_ready_D [OF assms(1)]
  have i: "Suc i < LOGSIZE" using r(5) assms(2) by simp
  note lb = logblk [OF r(3) i]
  note ni = r(7) [OF assms(2)]
  have neq: "logblk (logstart s) i \<noteq> lh s ! i" using lb(2) ni by auto
  define ns where "ns = (if cdirty s (lh s ! i) then lh s else [])"
  have ns: "\<forall>n. cdirty s n \<longrightarrow> n \<in> set ns" "length ns < NBUF" "cdirty s (lh s ! i) \<or> length ns + 1 < NBUF"
    using assms(3) r(5,6) by (auto simp: ns_def)
  have clean: "\<not> cdirty s (logblk (logstart s) i)"
    using assms(1) lb(2) unfolding log_ready_def by blast
  obtain b c u v where v: "bread ROOTDEV (logblk (logstart s) i) s = Inr (b, u)"
    "bread ROOTDEV (lh s ! i) u = Inr (c, v)" "b \<noteq> c" "cinv {b, c} v"
    "seen (bufs v ! b) = (True, False, ROOTDEV, logblk (logstart s) i, cdata s (logblk (logstart s) i))"
    "seen (bufs v ! c) = (True, cdirty s (lh s ! i), ROOTDEV, lh s ! i, cdata s (lh s ! i))"
    "cdata v = cdata s" "cdirty v = cdirty s" "disk v = disk s" "dwrites v = dwrites s" "env_same s u" "env_same s v"
    using bread_bread [OF r(1) lb(1) conjunct1 [OF ni] neq ns] clean by auto
  have coh: "False \<or> cdata s (logblk (logstart s) i) = disk v ROOTDEV (logblk (logstart s) i)"
    using clean_disk [OF r(1) clean] v(9) by simp
  obtain t where t: "bindE (bwrite c (upd_buf c (bdata_update (\<lambda>_. bdata (bufs v ! b))) v)) (\<lambda>s. bindE (brelse b s) (brelse c)) = Inr t"
    "wrote [(lh s ! i, cdata s (logblk (logstart s) i))] v t"
    using copy_block [OF v(4,3,5,6) neq conjunct1 [OF ni] coh] by blast
  have "install_one i s = Inr t" using v(1,2) t(1) r(2) by (simp add: install_one_def logblk_def env_same_log_fields [OF v(11)])
  moreover have "wrote [(lh s ! i, cdata s (logblk (logstart s) i))] s t"
    using t(2) v(7-10,12) by (auto simp: wrote_def intro: env_same_trans)
  ultimately show ?thesis by blast
qed


lemma update_block:
  assumes "cinv {} s" and "n < FSSIZE" and "\<forall>n. cdirty s n \<longrightarrow> n \<in> set ns" and "length ns < NBUF"
  shows "\<exists>b u v t. bread ROOTDEV n s = Inr (b, u) \<and> bwrite b (upd_buf b (bdata_update g) u) = Inr v
    \<and> brelse b v = Inr t \<and> wrote [(n, g (cdata s n))] s t \<and> env_same s u"
proof -
  have "\<exists>b < NBUF. b \<notin> {} \<and> \<not> bdirty (bufs s ! b)" by (rule clean_buf [OF assms(1,3)]) (simp add: assms(4))
  then obtain b u where u: "bread ROOTDEV n s = Inr (b, u)" "cinv {b} u"
    "bdev (bufs u ! b) = ROOTDEV" "blockno (bufs u ! b) = n" "bvalid (bufs u ! b)"
    "bdata (bufs u ! b) = cdata s n" "cdata u = cdata s" "cdirty u = cdirty s" "disk u = disk s"
    "dwrites u = dwrites s" "env_same s u"
    using bread_ok [OF assms(1,2)] by auto
  let ?w = "upd_buf b (bdata_update g) u"
  let ?y = "(bufs u ! b)\<lparr>bdata := g (cdata s n)\<rparr>"
  have "bdata_update g (bufs u ! b) = ?y" by (rule buf.equality) (simp_all add: u(6))
  then have bw: "bufs ?w = (bufs u)[b := ?y]" by simp
  have inb: "b \<in> {b}" by simp
  have w: "cinv {b} ?w" "cdata ?w = (cdata s)(n := g (cdata s n))" "cdirty ?w = (cdirty s)(n := bdirty (bufs u ! b))"
    "bufs ?w ! b = ?y"
    using replace_buf [OF u(2) inb _ bw, of n] u by simp_all
  have wb: "bdev (bufs ?w ! b) = ROOTDEV" "blockno (bufs ?w ! b) = n" "bvalid (bufs ?w ! b)"
    unfolding w(4) using u by simp_all
  obtain v where v: "bwrite b ?w = Inr v" "cinv {b} v" "disk v = (disk s)(ROOTDEV := (disk s ROOTDEV)(n := g (cdata s n)))"
    "dwrites v = dwrites s @ [(ROOTDEV, n, g (cdata s n))]" "bufs v ! b = ?y\<lparr>qnext := None, bdirty := False\<rparr>"
    "cdata v = (cdata ?w)(n := g (cdata s n))" "cdirty v = (cdirty ?w)(n := False)" "env_same ?w v"
    using bwrite_ok [OF w(1) inb wb(1,2) assms(2) wb(3)] unfolding w(4) by (auto simp: u(9,10))
  obtain r where "ring_ok (bufs v) r" using v(2) by (auto simp: cinv_def)
  then obtain t where t: "brelse b v = Inr t" "cinv ({b} - {b}) t" "cdata t = cdata v" "cdirty t = cdirty v"
    "disk t = disk v" "dwrites t = dwrites v" "env_same v t"
    using brelse_ok [OF v(2) inb] v(3,5) u(4) by auto
  have "env_same s t" using u(11) v(8) t(7) by (auto intro: env_same_trans)
  moreover have "((cdirty s)(n := c))(n := False) = (\<lambda>k. cdirty s k \<and> k \<noteq> n)" for c by (simp add: fun_eq_iff)
  ultimately have "wrote [(n, g (cdata s n))] s t" using t v w by (simp add: wrote_def)
  then show ?thesis using u(1,11) v(1) t(1) by blast
qed

lemma write_head_ok:
  assumes "log_ready s"
  shows "\<exists>t. write_head s = Inr t \<and> wrote [(logstart s, put_head (lh s) (cdata s (logstart s)))] s t"
proof -
  note r = log_ready_D [OF assms]
  have ls: "logstart s < FSSIZE" using r(3) by (simp add: word_less_nat_alt)
  obtain b u v t where t: "bread ROOTDEV (logstart s) s = Inr (b, u)"
    "bwrite b (upd_buf b (bdata_update (put_head (lh s))) u) = Inr v" "brelse b v = Inr t"
    "wrote [(logstart s, put_head (lh s) (cdata s (logstart s)))] s t" "env_same s u"
    using update_block [OF r(1) ls r(6), of "put_head (lh s)"] r(5) by auto
  then show ?thesis using r(2) env_same_log_fields(3) [OF t(5)] by (auto simp: write_head_def)
qed

lemma forE_wrote:
  assumes "cinv {} s"
    and "\<And>i t. i < k \<Longrightarrow> wrote (map f [0..<i]) s t \<Longrightarrow> \<exists>u. body i t = Inr u \<and> wrote [f i] t u"
  shows "\<exists>t. forE body [0..<k] s = Inr t \<and> wrote (map f [0..<k]) s t"
  using assms(2)
proof (induction k)
  case 0
  then show ?case using wrote_refl [OF assms(1)] by simp
next
  case (Suc k)
  then obtain t where t: "forE body [0..<k] s = Inr t" "wrote (map f [0..<k]) s t" by fastforce
  then obtain u where u: "body k t = Inr u" "wrote [f k] t u" using Suc.prems [of k] by auto
  show ?case using t u wrote_trans [OF t(2) u(2)] by (simp add: forE_append)
qed

text \<open>\<open>write_log\<close> copies the updated blocks from the cache to the log, and \<open>install_trans\<close> from there to their homes.\<close>

definition log_blocks :: "'a log_state_scheme \<Rightarrow> (u32 \<times> bytes) list" where
  "log_blocks s = map (\<lambda>i. (logblk (logstart s) i, cdata s (lh s ! i))) [0..<length (lh s)]"

definition home_blocks :: "'a log_state_scheme \<Rightarrow> (u32 \<times> bytes) list" where
  "home_blocks s = map (\<lambda>i. (lh s ! i, cdata s (logblk (logstart s) i))) [0..<length (lh s)]"

lemma write_log_ok:
  assumes "log_ready s" and "\<forall>n \<in> set (lh s). cdirty s n"
  shows "\<exists>t. write_log s = Inr t \<and> wrote (log_blocks s) s t"
  unfolding write_log_def log_blocks_def
proof (rule forE_wrote)
  note r = log_ready_D [OF assms(1)]
  show "cinv {} s" by (rule r(1))
  fix i t assume i: "i < length (lh s)" and t: "wrote (map (\<lambda>i. (logblk (logstart s) i, cdata s (lh s ! i))) [0..<i]) s t"
  note sel = wrote_sel [OF t]
  have "lh s ! i \<notin> log_area (logstart s)" using r(7) [OF i] by simp
  then have no: "lh s ! i \<notin> fst ` set (map (\<lambda>i. (logblk (logstart s) i, cdata s (lh s ! i))) [0..<i])"
    using logblk(2) [OF r(3)] r(5) i by fastforce
  then have "cdata t (lh s ! i) = cdata s (lh s ! i)" "cdirty t (lh s ! i)"
    using t assms(2) i by (simp_all add: wrote_def put_all_other)
  then show "\<exists>u. log_one i t = Inr u \<and> wrote [(logblk (logstart s) i, cdata s (lh s ! i))] t u"
    using log_one_ok [OF wrote_ready [OF assms(1) t], of i] i sel by simp
qed

lemma install_trans_ok:
  assumes "log_ready s" and "(\<forall>n \<in> set (lh s). cdirty s n) \<or> (\<forall>n. \<not> cdirty s n)"
  shows "\<exists>t. install_trans s = Inr t \<and> wrote (home_blocks s) s t"
  unfolding install_trans_def home_blocks_def
proof (rule forE_wrote)
  note r = log_ready_D [OF assms(1)]
  show "cinv {} s" by (rule r(1))
  fix i t assume i: "i < length (lh s)" and t: "wrote (map (\<lambda>i. (lh s ! i, cdata s (logblk (logstart s) i))) [0..<i]) s t"
  note sel = wrote_sel [OF t]
  have homes: "fst ` set (map (\<lambda>i. (lh s ! i, cdata s (logblk (logstart s) i))) [0..<i]) = (!) (lh s) ` {..<i}"
    by (simp add: image_image atLeast0LessThan)
  have no: "logblk (logstart s) i \<notin> (!) (lh s) ` {..<i}"
  proof -
    have "logblk (logstart s) i \<in> log_area (logstart s)" using logblk(2) [OF r(3)] r(5) i by simp
    moreover have "lh s ! j \<notin> log_area (logstart s)" if "j < i" for j using r(7) that i by simp
    ultimately show ?thesis by fastforce
  qed
  have "lh s ! i \<notin> (!) (lh s) ` {..<i}" using r(4) i by (auto simp: nth_eq_iff_index_eq)
  then have "cdata t (logblk (logstart s) i) = cdata s (logblk (logstart s) i)"
    "cdirty t (lh s ! i) \<or> (\<forall>n. \<not> cdirty t n)"
    using t assms(2) i no homes by (auto simp: wrote_def put_all_other)
  then show "\<exists>u. install_one i t = Inr u \<and> wrote [(lh s ! i, cdata s (logblk (logstart s) i))] t u"
    using install_one_ok [OF wrote_ready [OF assms(1) t], of i] i sel by simp
qed


section \<open>Commit and recovery\<close>

lemma lh_upd_view [simp]:
  "cinv H (s\<lparr>lh := l\<rparr>) = cinv H s" "cdata (s\<lparr>lh := l\<rparr>) = cdata s" "cdirty (s\<lparr>lh := l\<rparr>) = cdirty s"
  by (simp_all add: fun_eq_iff cinv_def env_ok_def buf_ok_def holder_def cdata_def cdirty_def cached_def
      split: option.split)

lemma wrote_lh:
  assumes "wrote ws s t"
  shows "wrote ws (s\<lparr>lh := l\<rparr>) (t\<lparr>lh := l\<rparr>)"
proof -
  have "bio_state.more t = bio_state.more s" using assms by (simp add: wrote_def env_same_def)
  then have "bio_state.more (t\<lparr>lh := l\<rparr>) = bio_state.more (s\<lparr>lh := l\<rparr>)" by (cases s; cases t; simp)
  then show ?thesis using assms by (simp add: wrote_def env_same_def)
qed

text \<open>The writes of a commit: the log, the header, the homes, and the empty header.\<close>

definition new_blocks :: "'a log_state_scheme \<Rightarrow> (u32 \<times> bytes) list" where
  "new_blocks s = map (\<lambda>i. (lh s ! i, cdata s (lh s ! i))) [0..<length (lh s)]"

definition commit_writes :: "'a log_state_scheme \<Rightarrow> (u32 \<times> bytes) list" where
  "commit_writes s = log_blocks s @ [(logstart s, put_head (lh s) (cdata s (logstart s)))] @ new_blocks s
     @ [(logstart s, put_head [] (put_head (lh s) (cdata s (logstart s))))]"

lemma fst_log_blocks:
  assumes "log_ready s"
  shows "n \<in> fst ` set (log_blocks s) \<Longrightarrow> n \<in> log_area (logstart s) \<and> n \<noteq> logstart s"
    and "distinct (map fst (log_blocks s))"
proof -
  note r = log_ready_D [OF assms]
  show "n \<in> log_area (logstart s) \<and> n \<noteq> logstart s" if "n \<in> fst ` set (log_blocks s)"
    using that logblk(2,3) [OF r(3)] r(5) by (auto simp: log_blocks_def)
  have "inj_on (logblk (logstart s)) {0..<length (lh s)}"
    using logblk_inj [OF r(3)] r(5) by (intro inj_onI) auto
  then show "distinct (map fst (log_blocks s))" by (simp add: log_blocks_def comp_def distinct_map)
qed

lemma fst_new_blocks:
  shows "fst ` set (new_blocks s) = set (lh s)" and "distinct (lh s) \<Longrightarrow> distinct (map fst (new_blocks s))"
proof -
  have m: "map fst (new_blocks s) = lh s" by (simp add: new_blocks_def comp_def map_nth)
  show "fst ` set (new_blocks s) = set (lh s)" using m by (metis set_map)
  show "distinct (lh s) \<Longrightarrow> distinct (map fst (new_blocks s))" by (simp add: m)
qed

lemma put_new_blocks:
  assumes "distinct (lh s)" and "n \<notin> set (lh s) \<Longrightarrow> f n = cdata s n"
  shows "put_all (new_blocks s) f n = cdata s n"
proof (cases "n \<in> set (lh s)")
  case True
  then have "(n, cdata s n) \<in> set (new_blocks s)" by (auto simp: new_blocks_def in_set_conv_nth)
  then show ?thesis by (rule put_all_in [OF fst_new_blocks(2) [OF assms(1)]])
next
  case False
  then show ?thesis using assms(2) by (simp add: put_all_other fst_new_blocks)
qed

lemma put_log_blocks:
  assumes "log_ready s" and "i < length (lh s)"
  shows "put_all (log_blocks s) f (logblk (logstart s) i) = cdata s (lh s ! i)"
  using assms(2) by (intro put_all_in [OF fst_log_blocks(2) [OF assms(1)]]) (auto simp: log_blocks_def)

lemma commit_ok:
  assumes "log_ready s" and "\<forall>n \<in> set (lh s). cdirty s n" and "lh s \<noteq> []"
  shows "\<exists>t. commit s = Inr t \<and> wrote (commit_writes s) (s\<lparr>lh := []\<rparr>) t"
proof -
  note r = log_ready_D [OF assms(1)]
  let ?ls = "logstart s" and ?h = "cdata s (logstart s)"
  let ?A = "log_blocks s" and ?H = "(logstart s, put_head (lh s) (cdata s (logstart s)))"
  obtain t1 where t1: "write_log s = Inr t1" "wrote ?A s t1" using write_log_ok [OF assms(1,2)] by blast
  note r1 = wrote_ready [OF assms(1) t1(2)] and s1 = wrote_sel [OF t1(2)]
  have "?ls \<notin> fst ` set ?A" using fst_log_blocks(1) [OF assms(1)] by blast
  then have "cdata t1 ?ls = ?h" using t1(2) by (simp add: wrote_def put_all_other)
  then obtain t2 where t2: "write_head t1 = Inr t2" "wrote [?H] t1 t2" using write_head_ok [OF r1] s1 by auto
  note w2 = wrote_trans [OF t1(2) t2(2)]
  note r2 = wrote_ready [OF assms(1) w2] and s2 = wrote_sel [OF w2]
  have d2: "cdata t2 = put_all (?A @ [?H]) (cdata s)" "cdirty t2 = (\<lambda>n. cdirty s n \<and> n \<notin> fst ` set (?A @ [?H]))"
    using w2 by (simp_all add: wrote_def)
  have "home_blocks t2 = new_blocks s"
  proof -
    have "cdata t2 (logblk ?ls i) = cdata s (lh s ! i)" if "i < length (lh s)" for i
      using put_log_blocks [OF assms(1) that] logblk(3) [OF r(3), of i] r(5) that by (simp add: d2)
    then show ?thesis by (simp add: home_blocks_def new_blocks_def s2)
  qed
  moreover have "\<forall>n \<in> set (lh t2). cdirty t2 n"
  proof
    fix n assume n: "n \<in> set (lh t2)"
    then have "n \<notin> log_area ?ls" using assms(1) by (simp add: log_ready_def s2)
    moreover have "?ls \<in> log_area ?ls" using logblk(5) [OF r(3), of 0] by simp
    ultimately have "n \<notin> fst ` set (?A @ [?H])" using fst_log_blocks(1) [OF assms(1), of n] by auto
    then show "cdirty t2 n" using n assms(2) by (simp add: d2 s2)
  qed
  ultimately obtain t3 where t3: "install_trans t2 = Inr t3" "wrote (new_blocks s) t2 t3"
    using install_trans_ok [OF r2] by auto
  note w3 = wrote_trans [OF w2 t3(2)]
  note r3 = wrote_ready [OF assms(1) w3] and s3 = wrote_sel [OF w3]
  have clean: "\<not> cdirty t3 n" for n
    using w3 r(6) by (auto simp: wrote_def fst_new_blocks image_Un)
  then have r4: "log_ready (t3\<lparr>lh := []\<rparr>)" using r3 by (simp add: log_ready_def)
  have "?ls \<notin> fst ` set (new_blocks s)"
    using assms(1) logblk(5) [OF r(3), of 0] by (auto simp: fst_new_blocks log_ready_def)
  then have "cdata t3 ?ls = put_head (lh s) ?h"
    using w3 by (simp add: wrote_def put_all_other)
  then obtain t where t: "write_head (t3\<lparr>lh := []\<rparr>) = Inr t"
    "wrote [(?ls, put_head [] (put_head (lh s) ?h))] (t3\<lparr>lh := []\<rparr>) t"
    using write_head_ok [OF r4] s3 by auto
  have "wrote (commit_writes s) (s\<lparr>lh := []\<rparr>) t"
    using wrote_trans [OF wrote_lh [OF w3, of "[]"] t(2)] by (simp add: commit_writes_def)
  moreover have "commit s = Inr t" using assms(3) t1(1) t2(1) t3(1) t(1) by (simp add: commit_def)
  ultimately show ?thesis by blast
qed


text \<open>
  Recovery after a boot: the cache holds nothing that is not on the disk. What the header on the
  disk names is installed, and the header is emptied.
\<close>

definition booted :: "u32 \<Rightarrow> (u32 \<Rightarrow> bytes) \<Rightarrow> 'a log_state_scheme \<Rightarrow> bool" where
  "booted ls d u \<longleftrightarrow> cinv {} u \<and> (\<forall>n. \<not> cdirty u n) \<and> disk u ROOTDEV = d \<and> logdev u = ROOTDEV \<and> logstart u = ls"

lemma recover_ok:
  assumes "booted ls d u" and "head_of (d ls) = Inr l" and "log_ready (u\<lparr>lh := l\<rparr>)"
  shows "\<exists>t. recover_from_log u = Inr t \<and>
    wrote (home_blocks (u\<lparr>lh := l\<rparr>) @ [(ls, put_head [] (d ls))]) (u\<lparr>lh := []\<rparr>) t"
proof -
  let ?u = "u\<lparr>lh := l\<rparr>"
  have u: "cinv {} u" "\<forall>n. \<not> cdirty u n" "disk u ROOTDEV = d" "logdev u = ROOTDEV" "logstart u = ls"
    using assms(1) by (simp_all add: booted_def)
  have view: "cdata u n = d n" for n using clean_disk [OF u(1)] u(2,3) by auto
  note r = log_ready_D [OF assms(3)]
  have ls: "ls < FSSIZE" using r(3) u(5) by (simp add: word_less_nat_alt)
  have "\<exists>b < NBUF. b \<notin> {} \<and> \<not> bdirty (bufs u ! b)" by (rule clean_buf [OF u(1), of "[]"]) (use u(2) in auto)
  then obtain b v where v: "bread ROOTDEV ls u = Inr (b, v)" "cinv {b} v" "bdev (bufs v ! b) = ROOTDEV"
    "blockno (bufs v ! b) = ls" "bdata (bufs v ! b) = d ls" "cdata v = cdata u" "cdirty v = cdirty u" "disk v = disk u"
    "dwrites v = dwrites u" "env_same u v"
    using bread_ok [OF u(1) ls] view by auto
  let ?v = "v\<lparr>lh := l\<rparr>"
  obtain rr where rr: "ring_ok (bufs v) rr" using v(2) by (auto simp: cinv_def)
  obtain w where w: "brelse b ?v = Inr w" "cinv ({b} - {b}) w" "cdata w = cdata ?v" "cdirty w = cdirty ?v"
    "disk w = disk ?v" "dwrites w = dwrites ?v" "env_same ?v w"
    using brelse_ok [of "{b}" ?v b rr] v(2,4,5,8) u(3) rr by auto
  have "bio_state.more v = bio_state.more u" using v(10) by (simp add: env_same_def)
  then have m: "bio_state.more ?v = bio_state.more ?u" by (cases v; cases u; simp)
  have e: "env_same ?u w" using w(7) v(10) m by (simp add: env_same_def)
  have w1: "wrote [] ?u w" using w v e by (simp add: wrote_def)
  have rh: "read_head u = Inr w"
    using v(1,5) w(1) u(4,5) assms(2) by (simp add: read_head_def)
  note rw = wrote_ready [OF assms(3) w1] and sw = wrote_sel [OF w1]
  obtain x where x: "install_trans w = Inr x" "wrote (home_blocks w) w x"
    using install_trans_ok [OF rw] w(4) v(7) u(2) by auto
  have hw: "home_blocks w = home_blocks ?u" using sw w(3) v(6) by (simp add: home_blocks_def)
  note wx = wrote_trans [OF w1 x(2)]
  note rx = wrote_ready [OF assms(3) wx] and sx = wrote_sel [OF wx]
  have "\<not> cdirty x n" for n using wx u(2) by (simp add: wrote_def)
  then have "log_ready (x\<lparr>lh := []\<rparr>)" using rx by (simp add: log_ready_def)
  then obtain t where t: "write_head (x\<lparr>lh := []\<rparr>) = Inr t"
    "wrote [(ls, put_head [] (cdata x ls))] (x\<lparr>lh := []\<rparr>) t"
    using write_head_ok [of "x\<lparr>lh := []\<rparr>"] sx u(5) by auto
  have "ls \<notin> set l" using r(3) assms(3) logblk(5) [of ls 0] u(5) by (auto simp: log_ready_def)
  then have "ls \<notin> fst ` set (home_blocks ?u)" by (auto simp: home_blocks_def)
  then have "cdata x ls = d ls" using wx hw view by (simp add: wrote_def put_all_other)
  then have "wrote (home_blocks ?u @ [(ls, put_head [] (d ls))]) (u\<lparr>lh := []\<rparr>) t"
    using wrote_trans [OF wrote_lh [OF wx, of "[]"] t(2)] hw by simp
  moreover have "recover_from_log u = Inr t" using rh x(1) t(1) by (simp add: recover_from_log_def)
  ultimately show ?thesis by blast
qed


section \<open>Crashes\<close>

text \<open>The disk as it is when the power fails after the first \<open>j\<close> writes of the commit.\<close>

definition crash_disk :: "nat \<Rightarrow> 'a log_state_scheme \<Rightarrow> u32 \<Rightarrow> bytes" where
  "crash_disk j s = put_all (take j (commit_writes s)) (disk s ROOTDEV)"

lemma length_commit_writes: "length (commit_writes s) = 2 * length (lh s) + 2"
  by (simp add: commit_writes_def log_blocks_def new_blocks_def)

lemma area_log_blocks:
  assumes "log_ready s" and "n \<notin> log_area (logstart s)"
  shows "n \<notin> fst ` set (take j (log_blocks s))" and "n \<noteq> logstart s"
proof -
  show "n \<notin> fst ` set (take j (log_blocks s))"
    using fst_log_blocks(1) [OF assms(1), of n] assms(2) by (auto dest: in_set_takeD)
  show "n \<noteq> logstart s" using assms(2) logblk(5) [OF log_ready_D(3) [OF assms(1)], of 0] by auto
qed

text \<open>Up to the write of the header nothing but log blocks has changed.\<close>

lemma crash_before:
  assumes "log_ready s" and "j \<le> length (lh s)"
  shows "crash_disk j s (logstart s) = disk s ROOTDEV (logstart s)"
    and "n \<notin> log_area (logstart s) \<Longrightarrow> crash_disk j s n = disk s ROOTDEV n"
proof -
  have d: "crash_disk j s = put_all (take j (log_blocks s)) (disk s ROOTDEV)"
    using assms(2) by (simp add: crash_disk_def commit_writes_def log_blocks_def)
  have "logstart s \<notin> fst ` set (take j (log_blocks s))"
    using fst_log_blocks(1) [OF assms(1), of "logstart s"] by (auto dest: in_set_takeD)
  then show "crash_disk j s (logstart s) = disk s ROOTDEV (logstart s)" by (simp add: d put_all_other)
  show "crash_disk j s n = disk s ROOTDEV n" if "n \<notin> log_area (logstart s)"
    using area_log_blocks(1) [OF assms(1) that] by (simp add: d put_all_other)
qed

text \<open>From then on the log holds every new block, until the header is emptied again.\<close>

lemma crash_after:
  assumes "log_ready s" and "length (lh s) < j" and "j < 2 * length (lh s) + 2"
  shows "crash_disk j s (logstart s) = put_head (lh s) (cdata s (logstart s))"
    and "i < length (lh s) \<Longrightarrow> crash_disk j s (logblk (logstart s) i) = cdata s (lh s ! i)"
    and "n \<notin> log_area (logstart s) \<Longrightarrow> n \<notin> set (lh s) \<Longrightarrow> crash_disk j s n = disk s ROOTDEV n"
proof -
  note r = log_ready_D [OF assms(1)]
  define i where "i = j - length (lh s) - 1"
  let ?H = "(logstart s, put_head (lh s) (cdata s (logstart s)))"
  have "take j (commit_writes s) = log_blocks s @ ?H # take i (new_blocks s)"
    using assms(2,3) by (auto simp: commit_writes_def log_blocks_def new_blocks_def i_def take_Cons' diff_diff_left)
  then have d: "crash_disk j s = put_all (take i (new_blocks s)) ((put_all (log_blocks s) (disk s ROOTDEV))
      (logstart s := put_head (lh s) (cdata s (logstart s))))"
    by (simp add: crash_disk_def)
  have no: "n \<notin> fst ` set (take i (new_blocks s))" if "n \<notin> set (lh s)" for n
    using that fst_new_blocks(1) [of s] by (auto dest: in_set_takeD)
  have area: "n \<notin> set (lh s)" if "n \<in> log_area (logstart s)" for n
    using that assms(1) by (auto simp: log_ready_def)
  have "logstart s \<in> log_area (logstart s)" using logblk(5) [OF r(3), of 0] by simp
  then show "crash_disk j s (logstart s) = put_head (lh s) (cdata s (logstart s))"
    using no [OF area] by (simp add: d put_all_other)
  show "crash_disk j s (logblk (logstart s) i) = cdata s (lh s ! i)" if "i < length (lh s)" for i
  proof -
    have i: "Suc i < LOGSIZE" using that r(5) by simp
    show ?thesis using no [OF area [OF logblk(2) [OF r(3) i]]] logblk(3) [OF r(3) i] put_log_blocks [OF assms(1) that]
      by (simp add: d put_all_other)
  qed
  show "crash_disk j s n = disk s ROOTDEV n" if "n \<notin> log_area (logstart s)" "n \<notin> set (lh s)"
    using no [OF that(2)] area_log_blocks(1) [OF assms(1) that(1), of "length (log_blocks s)"] area_log_blocks(2) [OF assms(1) that(1)]
    by (simp add: d put_all_other)
qed

lemma crash_done:
  assumes "log_ready s" and "j = 2 * length (lh s) + 2"
  shows "crash_disk j s (logstart s) = put_head [] (put_head (lh s) (cdata s (logstart s)))"
    and "n \<notin> log_area (logstart s) \<Longrightarrow> crash_disk j s n = cdata s n"
proof -
  note r = log_ready_D [OF assms(1)]
  have d: "crash_disk j s = put_all (commit_writes s) (disk s ROOTDEV)"
    using length_commit_writes [of s] assms(2) by (simp add: crash_disk_def)
  show "crash_disk j s (logstart s) = put_head [] (put_head (lh s) (cdata s (logstart s)))"
    by (simp add: d commit_writes_def)
  assume n: "n \<notin> log_area (logstart s)"
  have "disk s ROOTDEV n = cdata s n" if "n \<notin> set (lh s)" using clean_disk [OF r(1)] r(6) that by auto
  then show "crash_disk j s n = cdata s n"
    using area_log_blocks(1) [OF assms(1) n, of "length (log_blocks s)"] area_log_blocks(2) [OF assms(1) n] r(4)
    by (simp add: d commit_writes_def put_all_other put_new_blocks)
qed

lemma booted_ready:
  assumes "booted (logstart s) d u" and "log_ready s" and "l = lh s \<or> l = []"
  shows "log_ready (u\<lparr>lh := l\<rparr>)"
  using assms by (auto simp: booted_def log_ready_def)

lemma put_nil_len: "length d = BSIZE \<Longrightarrow> head_of (put_head [] d) = Inr []"
  by (rule head_of_put_head) simp_all

lemma header_block:
  assumes "log_ready s" and "length (disk s ROOTDEV (logstart s)) = BSIZE"
  shows "length (put_head (lh s) (cdata s (logstart s))) = BSIZE"
    and "length (cdata s (logstart s)) = BSIZE"
proof -
  note r = log_ready_D [OF assms(1)]
  have "\<not> cdirty s (logstart s)"
    using r(6) assms(1) logblk(5) [OF r(3), of 0] by (auto simp: log_ready_def)
  then have h: "cdata s (logstart s) = disk s ROOTDEV (logstart s)" using clean_disk [OF r(1)] by simp
  then show "length (put_head (lh s) (cdata s (logstart s))) = BSIZE" "length (cdata s (logstart s)) = BSIZE"
    using r(5) assms(2) by (simp_all add: length_put_head)
qed

lemma commit_result:
  assumes "log_ready s" and "\<forall>n \<in> set (lh s). cdirty s n" and "lh s \<noteq> []"
  shows "\<exists>t. commit s = Inr t \<and> lh t = [] \<and> (\<forall>n. \<not> cdirty t n)
      \<and> dwrites t = dwrites s @ map (\<lambda>(n, x). (ROOTDEV, n, x)) (commit_writes s)
      \<and> (\<forall>n. n \<notin> log_area (logstart s) \<longrightarrow> disk t ROOTDEV n = cdata s n)"
proof -
  obtain t where t: "commit s = Inr t" "wrote (commit_writes s) (s\<lparr>lh := []\<rparr>) t"
    using commit_ok [OF assms] by blast
  have dk: "disk t ROOTDEV = crash_disk (length (commit_writes s)) s"
    using t(2) by (simp add: wrote_def crash_disk_def)
  have "lh t = []" using wrote_sel(3) [OF t(2)] by simp
  moreover have "\<not> cdirty t n" for n
    using t(2) log_ready_D(6) [OF assms(1)] fst_new_blocks(1) [of s] by (auto simp: wrote_def commit_writes_def image_Un)
  ultimately show ?thesis
    using t dk crash_done(2) [OF assms(1) length_commit_writes] by (auto simp: wrote_def)
qed

lemma recover_empty:
  assumes "log_ready s" and "booted (logstart s) d u" and "head_of (d (logstart s)) = Inr []"
    and "length (d (logstart s)) = BSIZE"
  shows "\<exists>v. recover_from_log u = Inr v \<and> head_of (disk v ROOTDEV (logstart s)) = Inr [] \<and>
    (\<forall>n. n \<notin> log_area (logstart s) \<longrightarrow> disk v ROOTDEV n = d n)"
proof -
  obtain v where v: "recover_from_log u = Inr v"
    "wrote (home_blocks (u\<lparr>lh := []\<rparr>) @ [(logstart s, put_head [] (d (logstart s)))]) (u\<lparr>lh := []\<rparr>) v"
    using recover_ok [OF assms(2,3) booted_ready [OF assms(2,1)]] by blast
  have "disk v ROOTDEV = d(logstart s := put_head [] (d (logstart s)))"
    using v(2) assms(2) by (simp add: wrote_def booted_def home_blocks_def)
  then show ?thesis using v(1) put_nil_len [OF assms(4)] area_log_blocks(2) [OF assms(1)] by auto
qed

lemma recover_full:
  assumes "log_ready s" and "booted (logstart s) d u" and "length (disk s ROOTDEV (logstart s)) = BSIZE"
    and "d (logstart s) = put_head (lh s) (cdata s (logstart s))"
    and "\<And>i. i < length (lh s) \<Longrightarrow> d (logblk (logstart s) i) = cdata s (lh s ! i)"
    and "\<And>n. n \<notin> log_area (logstart s) \<Longrightarrow> n \<notin> set (lh s) \<Longrightarrow> d n = disk s ROOTDEV n"
  shows "\<exists>v. recover_from_log u = Inr v \<and> head_of (disk v ROOTDEV (logstart s)) = Inr [] \<and>
    (\<forall>n. n \<notin> log_area (logstart s) \<longrightarrow> disk v ROOTDEV n = cdata s n)"
proof -
  note r = log_ready_D [OF assms(1)] and len = header_block [OF assms(1,3)]
  have hd: "head_of (d (logstart s)) = Inr (lh s)"
    using head_of_put_head [OF _ len(2), of "lh s"] r(5) assms(4) by simp
  obtain v where v: "recover_from_log u = Inr v"
    "wrote (home_blocks (u\<lparr>lh := lh s\<rparr>) @ [(logstart s, put_head [] (d (logstart s)))]) (u\<lparr>lh := []\<rparr>) v"
    using recover_ok [OF assms(2) hd booted_ready [OF assms(2,1)]] by blast
  have u: "cinv {} u" "\<forall>n. \<not> cdirty u n" "disk u ROOTDEV = d" "logstart u = logstart s"
    using assms(2) by (simp_all add: booted_def)
  have "cdata u n = d n" for n using clean_disk [OF u(1)] u(2,3) by auto
  then have "home_blocks (u\<lparr>lh := lh s\<rparr>) = new_blocks s"
    using assms(5) u(4) by (simp add: home_blocks_def new_blocks_def)
  then have dv: "disk v ROOTDEV = (put_all (new_blocks s) d)(logstart s := put_head [] (d (logstart s)))"
    using v(2) u(3) by (simp add: wrote_def)
  have "put_all (new_blocks s) d n = cdata s n" if "n \<notin> log_area (logstart s)" for n
  proof (rule put_new_blocks [OF r(4)])
    assume n: "n \<notin> set (lh s)"
    then have "\<not> cdirty s n" using r(6) by blast
    then show "d n = cdata s n" using assms(6) [OF that n] clean_disk [OF r(1)] by simp
  qed
  then show ?thesis
    using v(1) dv put_nil_len len(1) assms(4) area_log_blocks(2) [OF assms(1)] by auto
qed

lemma crash_recovers:
  assumes "log_ready s" and "length (disk s ROOTDEV (logstart s)) = BSIZE"
    and "head_of (disk s ROOTDEV (logstart s)) = Inr []"
    and "j \<le> length (commit_writes s)" and "booted (logstart s) (crash_disk j s) u"
  shows "\<exists>v. recover_from_log u = Inr v \<and> head_of (disk v ROOTDEV (logstart s)) = Inr [] \<and>
    (\<forall>n. n \<notin> log_area (logstart s) \<longrightarrow>
      disk v ROOTDEV n = (if j \<le> length (lh s) then disk s ROOTDEV n else cdata s n))"
proof -
  note len = header_block [OF assms(1,2)]
  consider "j \<le> length (lh s)" | "length (lh s) < j" "j < 2 * length (lh s) + 2" | "j = 2 * length (lh s) + 2"
    using assms(4) length_commit_writes [of s] by linarith
  then show ?thesis
  proof cases
    case 1
    note c = crash_before [OF assms(1) 1]
    have "head_of (crash_disk j s (logstart s)) = Inr []" "length (crash_disk j s (logstart s)) = BSIZE"
      using c(1) assms(2,3) by simp_all
    then show ?thesis using recover_empty [OF assms(1,5)] c(2) 1 by auto
  next
    case 2
    note c = crash_after [OF assms(1) 2]
    show ?thesis using recover_full [OF assms(1,5,2) c] 2 by auto
  next
    case 3
    note c = crash_done [OF assms(1) 3]
    have "head_of (crash_disk j s (logstart s)) = Inr []" "length (crash_disk j s (logstart s)) = BSIZE"
      using c(1) put_nil_len [OF len(1)] len(1) by (simp_all add: length_put_head)
    then show ?thesis using recover_empty [OF assms(1,5)] c(2) 3 by auto
  qed
qed

section \<open>Transactions\<close>

text \<open>
  The way every routine of the file system changes a block: \<open>bread\<close>, change the data, \<open>log_write\<close>,
  \<open>brelse\<close>. Nothing reaches the disk; the block is entered in the log and its buffer pinned.
\<close>

definition log_update :: "u32 \<times> (bytes \<Rightarrow> bytes) \<Rightarrow> 'a log_state_scheme \<Rightarrow> stop + 'a log_state_scheme" where
  "log_update = (\<lambda>(n, g) s. bindE (bread ROOTDEV n s) (\<lambda>(b, s).
     bindE (log_write b (upd_buf b (bdata_update g) s)) (brelse b)))"

lemma distinct_absorb: "distinct l \<Longrightarrow> distinct (absorb n l)"
  by (simp add: absorb_def)

lemma set_absorb [simp]: "set (absorb n l) = insert n (set l)"
  by (auto simp: absorb_def)

lemma length_absorb: "length (absorb n l) \<le> Suc (length l)"
  by (simp add: absorb_def)

text \<open>What holds between the updates of a transaction.\<close>

definition in_txn :: "'a log_state_scheme \<Rightarrow> bool" where
  "in_txn s \<longleftrightarrow> log_ready s \<and> (\<forall>n. cdirty s n = (n \<in> set (lh s))) \<and> 1 \<le> outstanding s \<and> \<not> committing s"

lemma log_update_ok:
  assumes "in_txn s" and "n < FSSIZE" and "n \<notin> log_area (logstart s)" and "Suc (length (lh s)) < LOGSIZE"
    and "int (length (lh s)) < logsize s - 1"
  shows "\<exists>t. log_update (n, g) s = Inr t \<and> in_txn t \<and> lh t = absorb n (lh s)
    \<and> cdata t = (cdata s)(n := g (cdata s n)) \<and> disk t = disk s \<and> dwrites t = dwrites s
    \<and> logstart t = logstart s \<and> logsize t = logsize s \<and> outstanding t = outstanding s"
proof -
  have lr: "log_ready s" and dirty: "\<forall>n. cdirty s n \<longrightarrow> n \<in> set (lh s)" and out: "1 \<le> outstanding s" "\<not> committing s"
    using assms(1) by (simp_all add: in_txn_def)
  note r = log_ready_D [OF lr]
  have "\<exists>b < NBUF. b \<notin> {} \<and> \<not> bdirty (bufs s ! b)" by (rule clean_buf [OF r(1) dirty]) (use r(5) in simp)
  then obtain b u where u: "bread ROOTDEV n s = Inr (b, u)" "cinv {b} u"
    "bdev (bufs u ! b) = ROOTDEV" "blockno (bufs u ! b) = n" "bvalid (bufs u ! b)"
    "bdata (bufs u ! b) = cdata s n" "cdata u = cdata s" "cdirty u = cdirty s" "disk u = disk s"
    "dwrites u = dwrites s" "env_same s u"
    using bread_ok [OF r(1) assms(2)] by auto
  note su = env_same_log_fields [OF u(11)]
  let ?y = "(bufs u ! b)\<lparr>bdata := g (cdata s n), bdirty := True\<rparr>"
  define w where "w = u\<lparr>bufs := (bufs u)[b := ?y]\<rparr>"
  have inb: "b \<in> {b}" by simp
  have eu: "env_same u w" by (simp add: env_same_def w_def)
  have bw: "bufs w = (bufs u)[b := ?y]" by (simp add: w_def)
  have w: "cinv {b} w" "cdata w = (cdata s)(n := g (cdata s n))" "cdirty w = (cdirty s)(n := True)" "bufs w ! b = ?y"
    using replace_buf [OF u(2) inb eu bw, of n] u by (simp_all add: w_def)
  let ?w = "w\<lparr>lh := absorb n (lh s)\<rparr>"
  have b: "b < length (bufs u)" "held u = []" using cinv_held [OF u(2) inb] by (simp_all add: env_ok_def)
  have "bdirty_update (\<lambda>_. True) (bdata_update g (bufs u ! b)) = ?y"
    by (rule buf.equality) (simp_all add: u(6))
  then have lw: "log_write b (upd_buf b (bdata_update g) u) = Inr ?w"
    using b su u(4) out assms(4,5)
    by (simp add: log_write_def acquire_def release_def upd_buf_def w_def list_update_overwrite)
  obtain rr where rr: "ring_ok (bufs ?w) rr" using w(1) by (auto simp: cinv_def)
  obtain t where t: "brelse b ?w = Inr t" "cinv ({b} - {b}) t" "cdata t = cdata ?w" "cdirty t = cdirty ?w"
    "disk t = disk ?w" "dwrites t = dwrites ?w" "env_same ?w t"
    using brelse_ok [of "{b}" ?w b rr] w(1,4) rr by auto
  have st: "lh t = absorb n (lh s)" "logsize t = logsize s" "outstanding t = outstanding s" "logdev t = logdev s"
    "logstart t = logstart s" "committing t = committing s"
    using env_same_log_fields [OF t(7)] env_same_log_fields [OF eu] su by simp_all
  have "log_update (n, g) s = Inr t" using u(1) lw t(1) by (simp add: log_update_def)
  moreover have "log_ready t"
  proof -
    have len: "length (absorb n (lh s)) < LOGSIZE" using length_absorb [of n "lh s"] assms(4) by linarith
    have "\<forall>m \<in> set (lh s). m < FSSIZE \<and> m \<notin> log_area (logstart s)" using lr by (simp add: log_ready_def)
    then have home: "\<forall>m \<in> set (absorb n (lh s)). m < FSSIZE \<and> m \<notin> log_area (logstart s)" using assms(2,3) by simp
    have "\<forall>m. cdirty t m \<longrightarrow> m \<in> set (absorb n (lh s))" using t(4) w(3) dirty by simp
    moreover have "cinv {} t" using t(2) by simp
    ultimately show ?thesis
      using len home r(2,3) distinct_absorb [OF r(4)] unfolding log_ready_def st by (intro conjI) blast+
  qed
  moreover have "in_txn t" using calculation(2) t(4) w(3) st assms(1) by (simp add: in_txn_def)
  ultimately show ?thesis using t w u st by (intro exI [of _ t]) (simp add: w_def)
qed


definition apply_updates :: "(u32 \<times> (bytes \<Rightarrow> bytes)) list \<Rightarrow> (u32 \<Rightarrow> bytes) \<Rightarrow> u32 \<Rightarrow> bytes" where
  "apply_updates us f = fold (\<lambda>(n, g) f. f(n := g (f n))) us f"

lemma log_updates_ok:
  assumes "in_txn s" and "\<forall>(n, g) \<in> set us. n < FSSIZE \<and> n \<notin> log_area (logstart s)"
    and "length (lh s) + length us < LOGSIZE" and "int (length (lh s) + length us) \<le> logsize s - 1"
  shows "\<exists>t. forE log_update us s = Inr t \<and> in_txn t \<and> cdata t = apply_updates us (cdata s)
    \<and> disk t = disk s \<and> dwrites t = dwrites s \<and> logstart t = logstart s \<and> outstanding t = outstanding s"
  using assms
proof (induction us arbitrary: s)
  case Nil
  then show ?case by (simp add: apply_updates_def)
next
  case (Cons x us)
  obtain n g where x: "x = (n, g)" by fastforce
  obtain u where u: "log_update (n, g) s = Inr u" "in_txn u" "lh u = absorb n (lh s)"
    "cdata u = (cdata s)(n := g (cdata s n))" "disk u = disk s" "dwrites u = dwrites s"
    "logstart u = logstart s" "logsize u = logsize s" "outstanding u = outstanding s"
    using log_update_ok [OF Cons.prems(1), of n g] Cons.prems(2-4) x by auto
  have "length (lh u) + length us < LOGSIZE" "int (length (lh u) + length us) \<le> logsize u - 1"
    using Cons.prems(3,4) length_absorb [of n "lh s"] u(3,8) by auto
  then obtain t where "forE log_update us u = Inr t" "in_txn t" "cdata t = apply_updates us (cdata u)"
    "disk t = disk u" "dwrites t = dwrites u" "logstart t = logstart u" "outstanding t = outstanding u"
    using Cons.IH [OF u(2)] Cons.prems(2) u(7) by auto
  then show ?case using u x by (auto simp: apply_updates_def)
qed

text \<open>\<open>idle\<close>: no call is in the file system and the log is empty.\<close>

definition idle :: "'a log_state_scheme \<Rightarrow> bool" where
  "idle s \<longleftrightarrow> log_ready s \<and> lh s = [] \<and> outstanding s = 0 \<and> \<not> committing s"

lemma begin_op_idle:
  assumes "idle s"
  shows "begin_op s = Inr (s\<lparr>outstanding := 1\<rparr>)" and "in_txn (s\<lparr>outstanding := 1\<rparr>)"
proof -
  have h: "held s = []" using assms by (simp add: idle_def log_ready_def cinv_def env_ok_def)
  show "begin_op s = Inr (s\<lparr>outstanding := 1\<rparr>)"
    using assms h by (simp add: begin_op_def idle_def acquire_def release_def)
  have "cinv {} (s\<lparr>outstanding := 1\<rparr>) = cinv {} s" "cdirty (s\<lparr>outstanding := 1\<rparr>) = cdirty s"
    by (simp_all add: fun_eq_iff cinv_def env_ok_def buf_ok_def holder_def cdirty_def cached_def split: option.split)
  then show "in_txn (s\<lparr>outstanding := 1\<rparr>)" using assms by (auto simp: idle_def in_txn_def log_ready_def)
qed

lemma log_fields_view:
  "cinv H (s\<lparr>outstanding := k, committing := c\<rparr>) = cinv H s"
  "cdata (s\<lparr>outstanding := k, committing := c\<rparr>) = cdata s"
  "cdirty (s\<lparr>outstanding := k, committing := c\<rparr>) = cdirty s"
  by (simp_all add: fun_eq_iff cinv_def env_ok_def buf_ok_def holder_def cdata_def cdirty_def cached_def
      split: option.split)


text \<open>The call that ends the last transaction commits.\<close>

lemma end_op_last:
  assumes "in_txn s" and "outstanding s = 1" and "commit (s\<lparr>outstanding := 0, committing := True\<rparr>) = Inr t"
    and "env_same (s\<lparr>outstanding := 0, committing := True, lh := l\<rparr>) t"
  shows "end_op s = Inr (t\<lparr>committing := False, procs := map (wake ChLog) (procs t)\<rparr>)"
proof -
  have h: "held s = []" "\<not> committing s" using assms(1) by (simp_all add: in_txn_def log_ready_def cinv_def env_ok_def)
  have "held t = []" using assms(4) h by (simp add: env_same_def)
  moreover have e: "s\<lparr>outstanding := 0, committing := True, held := []\<rparr> = s\<lparr>outstanding := 0, committing := True\<rparr>"
    using h by (cases s) simp
  have "commit (s\<lparr>outstanding := 0, committing := True, held := []\<rparr>) = Inr t"
    unfolding e by (rule assms(3))
  ultimately show ?thesis using assms(2) h
    by (simp add: end_op_def acquire_def release_def wakeup_def wakeup1_def Let_def)
qed

lemma wake_view:
  "cinv H (t\<lparr>procs := map (wake ch) (procs t)\<rparr>) = cinv H t"
  "cdata (t\<lparr>procs := map (wake ch) (procs t)\<rparr>) = cdata t"
  "cdirty (t\<lparr>procs := map (wake ch) (procs t)\<rparr>) = cdirty t"
proof -
  have e: "env_same t (t\<lparr>procs := map (wake ch) (procs t)\<rparr>)" by (simp add: env_same_def)
  have h: "holder (t\<lparr>procs := map (wake ch) (procs t)\<rparr>) = holder t" if "env_ok t"
    by (rule env_same_holder [OF e that])
  show "cinv H (t\<lparr>procs := map (wake ch) (procs t)\<rparr>) = cinv H t"
    using env_same_env_ok [OF e] h by (auto simp: cinv_def buf_ok_def)
qed (simp_all add: fun_eq_iff cdata_def cdirty_def cached_def split: option.split)

definition transaction :: "(u32 \<times> (bytes \<Rightarrow> bytes)) list \<Rightarrow> 'a log_state_scheme \<Rightarrow> stop + 'a log_state_scheme" where
  "transaction us s = bindE (begin_op s) (\<lambda>s. bindE (forE log_update us s) end_op)"

lemma idle_view:
  assumes "idle s"
  shows "cdata s = disk s ROOTDEV" and "\<not> cdirty s n"
proof -
  have c: "cinv {} s" "\<forall>n. \<not> cdirty s n" using assms by (auto simp: idle_def log_ready_def)
  then show "cdata s = disk s ROOTDEV" using clean_disk [OF c(1)] by (simp add: fun_eq_iff)
  show "\<not> cdirty s n" using c(2) by blast
qed

lemma transaction_runs:
  fixes s :: "'a log_state_scheme"
  assumes "idle s" and "\<forall>(n, g) \<in> set us. n < FSSIZE \<and> n \<notin> log_area (logstart s)"
    and "length us \<le> MAXOPBLOCKS" and "int MAXOPBLOCKS < logsize s"
  shows "\<exists>(u :: 'a log_state_scheme) t. log_ready u \<and> (\<forall>n \<in> set (lh u). cdirty u n) \<and> logstart u = logstart s \<and> disk u = disk s
    \<and> cdata u = apply_updates us (disk s ROOTDEV) \<and> transaction us s = Inr t \<and> idle t
    \<and> dwrites t = dwrites s @ map (\<lambda>(n, x). (ROOTDEV, n, x)) (if lh u = [] then [] else commit_writes u)
    \<and> (\<forall>n. n \<notin> log_area (logstart s) \<longrightarrow> disk t ROOTDEV n = cdata u n)"
proof -
  let ?s = "s\<lparr>outstanding := 1\<rparr>"
  have len: "length (lh ?s) + length us < LOGSIZE" "int (length (lh ?s) + length us) \<le> logsize ?s - 1"
    using assms(1,3,4) by (simp_all add: idle_def)
  have ups: "\<forall>(n, g) \<in> set us. n < FSSIZE \<and> n \<notin> log_area (logstart ?s)" using assms(2) by simp
  obtain v where v: "forE log_update us ?s = Inr v" "in_txn v" "cdata v = apply_updates us (cdata ?s)"
    "disk v = disk ?s" "dwrites v = dwrites ?s" "logstart v = logstart ?s" "outstanding v = outstanding ?s"
    using log_updates_ok [OF begin_op_idle(2) [OF assms(1)] ups len] by blast
  let ?u = "v\<lparr>outstanding := 0, committing := True\<rparr>"
  have "cdata ?s = cdata s" by (simp add: fun_eq_iff cdata_def cached_def split: option.split)
  then have cs: "cdata ?s = disk s ROOTDEV" using idle_view(1) [OF assms(1)] by simp
  have ready: "log_ready ?u" using v(2) by (simp add: in_txn_def log_ready_def log_fields_view)
  have dirty: "\<forall>n \<in> set (lh ?u). cdirty ?u n" using v(2) by (simp add: in_txn_def log_fields_view)
  obtain t where t: "commit ?u = Inr t" "wrote (if lh ?u = [] then [] else commit_writes ?u) (?u\<lparr>lh := []\<rparr>) t"
  proof (cases "lh ?u = []")
    case True
    then have e: "?u\<lparr>lh := []\<rparr> = ?u" by simp
    have "wrote [] (?u\<lparr>lh := []\<rparr>) ?u" unfolding e by (rule wrote_refl [OF log_ready_D(1) [OF ready]])
    then show thesis using that [of ?u] True by (simp add: commit_def)
  next
    case False
    then show thesis using that commit_ok [OF ready dirty] by auto
  qed
  note st = wrote_sel [OF t(2)]
  let ?t = "t\<lparr>committing := False, procs := map (wake ChLog) (procs t)\<rparr>"
  have run: "transaction us s = Inr ?t"
    using begin_op_idle(1) [OF assms(1)] v(1) v(7) end_op_last [OF v(2) _ t(1) wrote_env [OF t(2)]]
    by (simp add: transaction_def)
  have clean: "\<not> cdirty t n" for n
  proof (cases "lh ?u = []")
    case True
    then show ?thesis using t(2) v(2) by (simp add: wrote_def in_txn_def log_fields_view)
  next
    case False
    then show ?thesis using t(2) v(2) fst_new_blocks(1) [of ?u]
      by (auto simp: wrote_def in_txn_def log_fields_view commit_writes_def image_Un)
  qed
  have view: "cinv {} ?t = cinv {} t" "cdirty ?t = cdirty t"
  proof -
    have "cinv {} (t\<lparr>committing := False\<rparr>) = cinv {} t" "cdirty (t\<lparr>committing := False\<rparr>) = cdirty t"
      by (simp_all add: fun_eq_iff cinv_def env_ok_def buf_ok_def holder_def cdirty_def cached_def split: option.split)
    then show "cinv {} ?t = cinv {} t" "cdirty ?t = cdirty t"
      using wake_view [where t = "t\<lparr>committing := False\<rparr>" and ch = ChLog] by simp_all
  qed
  have "idle ?t" using view clean st wrote_cinv [OF t(2)] ready v(2)
    by (simp add: idle_def log_ready_def)
  moreover have "disk t ROOTDEV n = cdata ?u n" if "n \<notin> log_area (logstart s)" for n
  proof (cases "lh ?u = []")
    case True
    then have "\<not> cdirty ?u n" using v(2) by (simp add: in_txn_def log_fields_view)
    then show ?thesis using t(2) True clean_disk [OF log_ready_D(1) [OF ready]] by (simp add: wrote_def)
  next
    case False
    then have "disk t ROOTDEV = crash_disk (length (commit_writes ?u)) ?u"
      using t(2) by (simp add: wrote_def crash_disk_def)
    then show ?thesis using crash_done(2) [OF ready length_commit_writes] that v(6) by simp
  qed
  ultimately show ?thesis
    using ready dirty run t(2) v(3-6) cs
    by (intro exI [of _ ?u] exI [of _ ?t]) (simp add: wrote_def log_fields_view)
qed


text \<open>C1. File-system calls are atomic: a call that changes at most \<open>MAXOPBLOCKS\<close> blocks between \<open>begin_op\<close> and \<open>end_op\<close>, on its own, runs to the end and leaves the changes on the disk; and if the machine stops after any number \<open>j\<close> of the sector writes it makes, recovery after the next boot succeeds and finds, outside the log, the disk of before the call when \<open>j\<close> is at most some \<open>k\<close>, and the disk with all the changes when it is more.\<close>

theorem transaction_atomic:
  fixes s :: "'a log_state_scheme"
  assumes "idle s" and "\<forall>(n, g) \<in> set us. n < FSSIZE \<and> n \<notin> log_area (logstart s)"
    and "length us \<le> MAXOPBLOCKS" and "int MAXOPBLOCKS < logsize s"
    and "length (disk s ROOTDEV (logstart s)) = BSIZE" and "head_of (disk s ROOTDEV (logstart s)) = Inr []"
  shows "\<exists>t ws k. transaction us s = Inr t \<and> idle t
    \<and> dwrites t = dwrites s @ map (\<lambda>(n, x). (ROOTDEV, n, x)) ws
    \<and> (\<forall>n. n \<notin> log_area (logstart s) \<longrightarrow> disk t ROOTDEV n = apply_updates us (disk s ROOTDEV) n)
    \<and> (\<forall>j \<le> length ws. \<forall>u :: 'a log_state_scheme. booted (logstart s) (put_all (take j ws) (disk s ROOTDEV)) u \<longrightarrow>
        (\<exists>v. recover_from_log u = Inr v \<and> (\<forall>n. n \<notin> log_area (logstart s) \<longrightarrow>
          disk v ROOTDEV n = (if j \<le> k then disk s ROOTDEV else apply_updates us (disk s ROOTDEV)) n)))"
proof -
  obtain c :: "'a log_state_scheme" and t where c: "log_ready c" "logstart c = logstart s" "disk c = disk s"
    "cdata c = apply_updates us (disk s ROOTDEV)" and t: "transaction us s = Inr t" "idle t"
    "dwrites t = dwrites s @ map (\<lambda>(n, x). (ROOTDEV, n, x)) (if lh c = [] then [] else commit_writes c)"
    "\<forall>n. n \<notin> log_area (logstart s) \<longrightarrow> disk t ROOTDEV n = cdata c n"
    using transaction_runs [OF assms(1-4)] by blast
  define ws where "ws = (if lh c = [] then [] else commit_writes c)"
  have rec: "\<exists>v. recover_from_log u = Inr v \<and> (\<forall>n. n \<notin> log_area (logstart s) \<longrightarrow>
      disk v ROOTDEV n = (if j \<le> length (lh c) then disk s ROOTDEV else apply_updates us (disk s ROOTDEV)) n)"
    if j: "j \<le> length ws" and u: "booted (logstart s) (put_all (take j ws) (disk s ROOTDEV)) u"
    for j and u :: "'a log_state_scheme"
  proof (cases "lh c = []")
    case True
    then have "put_all (take j ws) (disk s ROOTDEV) = crash_disk 0 c" "j = 0"
      using j by (simp_all add: ws_def crash_disk_def c(3))
    then show ?thesis using crash_recovers [OF c(1), of 0 u] u assms(5,6) c(2,3) by auto
  next
    case False
    then have "put_all (take j ws) (disk s ROOTDEV) = crash_disk j c"
      by (simp add: ws_def crash_disk_def c(3))
    then show ?thesis using crash_recovers [OF c(1), of j u] u j False assms(5,6) c(2-4) by (auto simp: ws_def)
  qed
  show ?thesis
    using t c(4) rec by (intro exI [of _ t] exI [of _ ws] exI [of _ "length (lh c)"]) (simp add: ws_def)
qed


text \<open>A machine with an empty log in blocks 2 to 31 of a zeroed disk.\<close>

definition boot_log :: log_state where
  "boot_log = boot_bio (\<lambda>_. replicate BSIZE 0) (log_state.fields 2 30 0 False 1 [])"

lemma boot_log_sel:
  "logstart boot_log = 2" "logsize boot_log = 30" "outstanding boot_log = 0" "\<not> committing boot_log"
  "logdev boot_log = ROOTDEV" "lh boot_log = []"
proof -
  define x :: log_state where "x = \<lparr>held = [], mem = (\<lambda>_. 0), freelist = 0, use_lock = True, kend = 0,
     kpgdir = 0, kdata = 0, cr3 = 0, procs = [], nextpid = 0, curproc = None, initproc = None,
     esp0 = 0, ticks = 0, ktrapret = 0, kforkret = 0, kinitcode = [],
     disk = (\<lambda>_ _. []), ide_active = None, ideerr = False, dwrites = [], idequeue = None,
     havedisk1 = True, bufs = [], logstart = 2, logsize = 30, outstanding = 0, committing = False, logdev = 1, lh = []\<rparr>"
  have "bio_state.more boot_log = bio_state.more x" by (simp add: boot_log_def boot_bio(8) x_def log_state.defs)
  note m = more_log_fields [OF this]
  show "logstart boot_log = 2" "logsize boot_log = 30" "outstanding boot_log = 0" "\<not> committing boot_log"
    "logdev boot_log = ROOTDEV" "lh boot_log = []" by (simp_all add: m x_def)
qed

lemma boot_log_idle:
  "idle boot_log" "disk boot_log = (\<lambda>_ _. replicate BSIZE 0)" "dwrites boot_log = []"
  "booted 2 (\<lambda>_. replicate BSIZE 0) boot_log"
proof -
  have b: "cinv {} boot_log" "cdirty boot_log = (\<lambda>_. False)" "disk boot_log = (\<lambda>_ _. replicate BSIZE 0)"
    "dwrites boot_log = []" by (simp_all only: boot_log_def boot_bio)
  then show "disk boot_log = (\<lambda>_ _. replicate BSIZE 0)" "dwrites boot_log = []" by simp_all
  show "idle boot_log" using b by (simp add: idle_def log_ready_def boot_log_sel)
  show "booted 2 (\<lambda>_. replicate BSIZE 0) boot_log" using b by (simp add: booted_def boot_log_sel)
qed

lemma head_of_zero: "head_of (replicate BSIZE 0) = Inr []"
  by (simp add: head_of_def get32_def le32_def)

lemma transaction_atomic_witness:
  "\<exists>t. transaction [(40, \<lambda>_. [1]), (41, \<lambda>_. [2]), (40, \<lambda>d. d @ [3])] boot_log = Inr t
    \<and> disk t ROOTDEV 40 = [1, 3] \<and> disk t ROOTDEV 41 = [2]"
proof -
  have "\<forall>(n, g) \<in> set [(40, \<lambda>_. [1]), (41, \<lambda>_. [2]), (40, \<lambda>d. d @ [3 :: u8])].
    n < FSSIZE \<and> n \<notin> log_area (logstart boot_log)"
    by (simp add: boot_log_sel log_area_def)
  from transaction_atomic [OF boot_log_idle(1) this] obtain t where
    "transaction [(40, \<lambda>_. [1]), (41, \<lambda>_. [2]), (40, \<lambda>d. d @ [3])] boot_log = Inr t"
    "\<forall>n. n \<notin> log_area 2 \<longrightarrow> disk t ROOTDEV n =
      apply_updates [(40, \<lambda>_. [1]), (41, \<lambda>_. [2]), (40, \<lambda>d. d @ [3])] (\<lambda>_. replicate BSIZE 0) n"
    by (auto simp: boot_log_sel boot_log_idle(2) head_of_zero)
  moreover have "40 \<notin> log_area 2" "41 \<notin> log_area 2" by (simp_all add: log_area_def)
  ultimately show ?thesis by (simp add: apply_updates_def)
qed

end
