(* ===== verification/Xv6_LogSpace.thy ===== *)
theory Xv6_LogSpace
  imports Xv6_LogSpec
begin

text \<open>
  The space in the log: \<open>begin_op\<close> lets a call start only when the log has room for all the blocks
  that it and the calls under way may still write.
\<close>

section \<open>What the buffer routines leave alone\<close>

definition only_bio :: "'a bio_state_scheme \<Rightarrow> 'a bio_state_scheme \<Rightarrow> bool" where
  "only_bio s t \<longleftrightarrow> bio_state.more t = bio_state.more s"

lemma only_bio_refl [simp]: "only_bio s s"
  by (simp add: only_bio_def)

lemma only_bio_upd [simp]:
  "only_bio z (t\<lparr>held := h\<rparr>) = only_bio z t" "only_bio z (t\<lparr>procs := p\<rparr>) = only_bio z t"
  "only_bio z (t\<lparr>bufs := bs\<rparr>) = only_bio z t" "only_bio z (t\<lparr>idequeue := q\<rparr>) = only_bio z t"
  "only_bio z (t\<lparr>ide_active := c\<rparr>) = only_bio z t" "only_bio z (t\<lparr>disk := d, dwrites := w\<rparr>) = only_bio z t"
  "only_bio z (upd_buf b f t) = only_bio z t"
  by (simp_all add: only_bio_def upd_buf_def)

lemma acquire_bio [wpI]: "only_bio z s \<Longrightarrow> (\<And>t. only_bio z t \<Longrightarrow> Q t) \<Longrightarrow> wp (acquire l s) Q"
  by (auto simp: acquire_def)

lemma release_bio [wpI]: "only_bio z s \<Longrightarrow> (\<And>t. only_bio z t \<Longrightarrow> Q t) \<Longrightarrow> wp (release l s) Q"
  by (auto simp: release_def)

lemma myproc_bio [wpI]: "(\<And>me. Q me) \<Longrightarrow> wp (myproc s) Q"
  by (simp add: wp_def)

lemma wakeup_bio [wpI]: "only_bio z s \<Longrightarrow> (\<And>t. only_bio z t \<Longrightarrow> Q t) \<Longrightarrow> wp (wakeup ch s) Q"
  unfolding wakeup_def wakeup1_def by (auto intro!: wpI)

lemma sleeplock_bio [wpI]:
  "only_bio z s \<Longrightarrow> (\<And>r t. only_bio z t \<Longrightarrow> Q (r, t)) \<Longrightarrow> wp (acquiresleep l lk s) Q"
  "only_bio z s \<Longrightarrow> (\<And>r t. only_bio z t \<Longrightarrow> Q (r, t)) \<Longrightarrow> wp (releasesleep l lk s) Q"
  "only_bio z s \<Longrightarrow> (\<And>r t. only_bio z t \<Longrightarrow> Q' (r, t)) \<Longrightarrow> wp (holdingsleep l lk s) Q'"
  unfolding acquiresleep_def releasesleep_def holdingsleep_def Let_def by (auto intro!: wpI)

lemma idestart_bio [wpI]: "only_bio z s \<Longrightarrow> (\<And>t. only_bio z t \<Longrightarrow> Q t) \<Longrightarrow> wp (idestart q s) Q"
  unfolding idestart_def Let_def by (auto intro!: wpI)

lemma ide_complete_bio [simp]: "only_bio z (ide_complete s) = only_bio z s"
  by (simp add: ide_complete_def split: option.split idecmd.split)

lemma ideintr_bio [wpI]: "only_bio z s \<Longrightarrow> (\<And>t. only_bio z t \<Longrightarrow> Q t) \<Longrightarrow> wp (ideintr s) Q"
  unfolding ideintr_def Let_def by (auto intro!: wpI)

lemma ide_await_bio [wpI]: "only_bio z s \<Longrightarrow> (\<And>t. only_bio z t \<Longrightarrow> Q t) \<Longrightarrow> wp (ide_await n b s) Q"
  by (induction n arbitrary: s; subst ide_await.simps) (auto intro!: wpI)

lemma wp_pure [wpI]: "(\<And>r. Q r) \<Longrightarrow> wp (ide_last n b bs) Q" "(\<And>r. Q' r) \<Longrightarrow> wp (ring_find nx P n b bs) Q'"
  by (simp_all add: wp_def)

lemma iderw_bio [wpI]: "only_bio z s \<Longrightarrow> (\<And>t. only_bio z t \<Longrightarrow> Q t) \<Longrightarrow> wp (iderw b s) Q"
  unfolding iderw_def Let_def by (auto intro!: wpI)

lemma lock_buf_bio [wpI]: "only_bio z s \<Longrightarrow> (\<And>t. only_bio z t \<Longrightarrow> Q t) \<Longrightarrow> wp (lock_buf b s) Q"
  unfolding lock_buf_def by (auto intro!: wpI)

lemma bget_bio [wpI]: "only_bio z s \<Longrightarrow> (\<And>r t. only_bio z t \<Longrightarrow> Q (r, t)) \<Longrightarrow> wp (bget d n s) Q"
  unfolding bget_def by (auto intro!: wpI)

lemma bread_bio [wpI]: "only_bio z s \<Longrightarrow> (\<And>r t. only_bio z t \<Longrightarrow> Q (r, t)) \<Longrightarrow> wp (bread d n s) Q"
  unfolding bread_def by (auto intro!: wpI)

lemma bwrite_bio [wpI]: "only_bio z s \<Longrightarrow> (\<And>t. only_bio z t \<Longrightarrow> Q t) \<Longrightarrow> wp (bwrite b s) Q"
  unfolding bwrite_def by (auto intro!: wpI)

lemma brelse_bio [wpI]: "only_bio z s \<Longrightarrow> (\<And>t. only_bio z t \<Longrightarrow> Q t) \<Longrightarrow> wp (brelse b s) Q"
  unfolding brelse_def Let_def by (auto intro!: wpI)

lemma copy_loops_bio [wpI]:
  "only_bio z s \<Longrightarrow> (\<And>t. only_bio z t \<Longrightarrow> Q t) \<Longrightarrow> wp (write_log s) Q"
  "only_bio z s \<Longrightarrow> (\<And>t. only_bio z t \<Longrightarrow> Q t) \<Longrightarrow> wp (install_trans s) Q"
  unfolding write_log_def install_trans_def log_one_def install_one_def Let_def
  by (auto intro!: wpI wp_forE [where I = "only_bio z"])

lemma write_head_bio [wpI]: "only_bio z s \<Longrightarrow> (\<And>t. only_bio z t \<Longrightarrow> Q t) \<Longrightarrow> wp (write_head s) Q"
  unfolding write_head_def by (auto intro!: wpI)


lemma only_bio_trans: "only_bio s t \<Longrightarrow> only_bio t u \<Longrightarrow> only_bio s u"
  by (simp add: only_bio_def)

lemmas only_bio_fields = more_log_fields [OF only_bio_def [THEN iffD1]]

lemma write_head_only: "write_head s = Inr t \<Longrightarrow> only_bio s t"
  by (rule wpD [OF write_head_bio [OF only_bio_refl]])

lemma write_log_only: "write_log s = Inr t \<Longrightarrow> only_bio s t"
  by (rule wpD [OF copy_loops_bio(1) [OF only_bio_refl]])

lemma install_trans_only: "install_trans s = Inr t \<Longrightarrow> only_bio s t"
  by (rule wpD [OF copy_loops_bio(2) [OF only_bio_refl]])

lemma acquire_only: "acquire l s = Inr t \<Longrightarrow> only_bio s t"
  by (rule wpD [OF acquire_bio [OF only_bio_refl]])

lemma release_only: "release l s = Inr t \<Longrightarrow> only_bio s t"
  by (rule wpD [OF release_bio [OF only_bio_refl]])

lemma wakeup_only: "wakeup ch s = Inr t \<Longrightarrow> only_bio s t"
  by (rule wpD [OF wakeup_bio [OF only_bio_refl]])

lemmas log_only = write_head_only write_log_only install_trans_only acquire_only release_only wakeup_only

text \<open>Whatever it does to the disk, a commit ends with an empty log.\<close>

lemma commit_fields:
  assumes "commit s = Inr t"
  shows "lh t = []" and "outstanding t = outstanding s" and "logsize t = logsize s"
proof -
  have "lh t = [] \<and> outstanding t = outstanding s \<and> logsize t = logsize s"
  proof (cases "lh s = []")
    case True
    then show ?thesis using assms by (simp add: commit_def)
  next
    case False
    then obtain u v w where "write_log s = Inr u" "write_head u = Inr v" "install_trans v = Inr w"
      "write_head (w\<lparr>lh := []\<rparr>) = Inr t"
      using assms by (auto simp: commit_def bindE_Inr_iff)
    then have o: "only_bio s w" "only_bio (w\<lparr>lh := []\<rparr>) t" by (blast intro: only_bio_trans log_only)+
    show ?thesis using only_bio_fields [OF o(1)] only_bio_fields [OF o(2)] by simp
  qed
  then show "lh t = []" "outstanding t = outstanding s" "logsize t = logsize s" by auto
qed

lemma begin_op_fields:
  assumes "begin_op s = Inr t"
  shows "lh t = lh s" and "outstanding t = outstanding s + 1" and "committing t = committing s"
    and "logsize t = logsize s" and "\<not> committing s"
    and "int (length (lh s)) + (outstanding s + 1) * int MAXOPBLOCKS \<le> int LOGSIZE"
proof -
  obtain u where u: "acquire L_log s = Inr u" "\<not> committing u"
    "int (length (lh u)) + (outstanding u + 1) * int MAXOPBLOCKS \<le> int LOGSIZE"
    "release L_log (u\<lparr>outstanding := outstanding u + 1\<rparr>) = Inr t"
    using assms by (auto simp: begin_op_def bindE_Inr_iff split: if_splits)
  note f = only_bio_fields [OF acquire_only [OF u(1)]] and g = only_bio_fields [OF release_only [OF u(4)]]
  show "lh t = lh s" "outstanding t = outstanding s + 1" "committing t = committing s"
    "logsize t = logsize s" "\<not> committing s"
    "int (length (lh s)) + (outstanding s + 1) * int MAXOPBLOCKS \<le> int LOGSIZE"
    using f g u(2,3) by simp_all
qed

lemma end_op_fields:
  assumes "end_op s = Inr t"
  shows "\<not> committing s" and "\<not> committing t" and "outstanding t = outstanding s - 1" and "logsize t = logsize s"
    and "lh t = (if outstanding s = 1 then [] else lh s)"
proof -
  obtain u where u: "acquire L_log s = Inr u" using assms by (auto simp: end_op_def bindE_Inr_iff)
  note f = only_bio_fields [OF acquire_only [OF u]]
  have nc: "\<not> committing u" using assms u by (auto simp: end_op_def Let_def split: if_splits)
  have "\<not> committing t \<and> outstanding t = outstanding s - 1 \<and> logsize t = logsize s \<and>
    lh t = (if outstanding s = 1 then [] else lh s)"
  proof (cases "outstanding s = 1")
    case True
    then obtain v w x y where "release L_log (u\<lparr>outstanding := outstanding u - 1, committing := True\<rparr>) = Inr v"
      "commit v = Inr w" "acquire L_log w = Inr x" "wakeup ChLog (x\<lparr>committing := False\<rparr>) = Inr y" "release L_log y = Inr t"
      using assms u nc f by (auto simp: end_op_def Let_def bindE_Inr_iff)
    then have o: "only_bio (u\<lparr>outstanding := outstanding u - 1, committing := True\<rparr>) v" "commit v = Inr w" "only_bio w x"
      "only_bio (x\<lparr>committing := False\<rparr>) t" by (blast intro: only_bio_trans log_only)+
    show ?thesis
      using True f only_bio_fields [OF o(1)] commit_fields [OF o(2)] only_bio_fields [OF o(3)] only_bio_fields [OF o(4)]
      by simp
  next
    case False
    then obtain v where "wakeup ChLog (u\<lparr>outstanding := outstanding u - 1\<rparr>) = Inr v" "release L_log v = Inr t"
      using assms u nc f by (auto simp: end_op_def Let_def bindE_Inr_iff)
    then have o: "only_bio (u\<lparr>outstanding := outstanding u - 1\<rparr>) t" by (blast intro: only_bio_trans log_only)
    show ?thesis using False f nc only_bio_fields [OF o] by simp
  qed
  then show "\<not> committing s" "\<not> committing t" "outstanding t = outstanding s - 1" "logsize t = logsize s"
    "lh t = (if outstanding s = 1 then [] else lh s)" using nc f by auto
qed

lemma log_write_fields:
  assumes "log_write b s = Inr t"
  shows "lh t = absorb (blockno (bufs s ! b)) (lh s)" and "outstanding t = outstanding s"
    and "committing t = committing s" and "logsize t = logsize s"
proof -
  obtain u where u: "acquire L_log s = Inr u"
    "release L_log (upd_buf b (bdirty_update (\<lambda>_. True)) (u\<lparr>lh := absorb (blockno (bufs u ! b)) (lh u)\<rparr>)) = Inr t"
    using assms by (auto simp: log_write_def Let_def bindE_Inr_iff split: if_splits)
  have "bufs u = bufs s" using u(1) by (auto simp: acquire_def split: if_splits)
  then show "lh t = absorb (blockno (bufs s ! b)) (lh s)" "outstanding t = outstanding s"
    "committing t = committing s" "logsize t = logsize s"
    using only_bio_fields [OF acquire_only [OF u(1)]] only_bio_fields [OF release_only [OF u(2)]]
    by (simp_all add: upd_buf_def)
qed

section \<open>Calls that share the log\<close>

text \<open>
  The calls under way, each with the number of \<open>log_write\<close>s it has done, at most \<open>MAXOPBLOCKS\<close>,
  beside the kernel state. Between the calls into the log anything may happen outside it.
\<close>

inductive txstep :: "nat list \<times> 'a log_state_scheme \<Rightarrow> nat list \<times> 'a log_state_scheme \<Rightarrow> bool" where
  tx_begin: "begin_op s = Inr t \<Longrightarrow> txstep (qs, s) (qs @ [0], t)"
| tx_write: "i < length qs \<Longrightarrow> qs ! i < MAXOPBLOCKS \<Longrightarrow> log_write b s = Inr t \<Longrightarrow>
    txstep (qs, s) (qs[i := Suc (qs ! i)], t)"
| tx_end: "i < length qs \<Longrightarrow> end_op s = Inr t \<Longrightarrow> txstep (qs, s) (take i qs @ drop (Suc i) qs, t)"
| tx_other: "only_bio s t \<Longrightarrow> txstep (qs, s) (qs, t)"

definition quiet :: "'a log_state_scheme \<Rightarrow> bool" where
  "quiet s \<longleftrightarrow> lh s = [] \<and> outstanding s = 0 \<and> \<not> committing s"

definition room :: "nat list \<times> 'a log_state_scheme \<Rightarrow> bool" where
  "room = (\<lambda>(qs, s). outstanding s = int (length qs) \<and> \<not> committing s \<and> (\<forall>q \<in> set qs. q \<le> MAXOPBLOCKS)
     \<and> length (lh s) + sum_list (map (\<lambda>q. MAXOPBLOCKS - q) qs) \<le> LOGSIZE)"

lemma split_nth: "i < length xs \<Longrightarrow> xs = take i xs @ xs ! i # drop (Suc i) xs"
  by (simp add: id_take_nth_drop)

lemma room_step:
  assumes "txstep c d" and "room c"
  shows "room d \<and> logsize (snd d) = logsize (snd c)"
  using assms
proof (induction rule: txstep.induct)
  case (tx_begin s t qs)
  have "sum_list (map (\<lambda>q. MAXOPBLOCKS - q) qs) \<le> MAXOPBLOCKS * length qs"
    by (induction qs) auto
  then show ?case using begin_op_fields [OF tx_begin(1)] tx_begin(2) by (auto simp: room_def)
next
  case (tx_write i qs b s t)
  let ?f = "\<lambda>q :: nat. MAXOPBLOCKS - q"
  have qs: "qs = take i qs @ qs ! i # drop (Suc i) qs" by (rule split_nth [OF tx_write(1)])
  have "sum_list (map ?f qs) = sum_list (map ?f (take i qs)) + ?f (qs ! i) + sum_list (map ?f (drop (Suc i) qs))"
    by (subst qs) simp
  moreover have "sum_list (map ?f (qs[i := Suc (qs ! i)])) =
      sum_list (map ?f (take i qs)) + ?f (Suc (qs ! i)) + sum_list (map ?f (drop (Suc i) qs))"
    using tx_write(1) by (simp add: upd_conv_take_nth_drop)
  moreover have "set (qs[i := Suc (qs ! i)]) \<subseteq> insert (Suc (qs ! i)) (set qs)" by (rule set_update_subset_insert)
  ultimately show ?case
    using log_write_fields [OF tx_write(3)] tx_write(2,4) length_absorb [of "blockno (bufs s ! b)" "lh s"]
    by (auto simp: room_def)
next
  case (tx_end i qs s t)
  let ?f = "\<lambda>q :: nat. MAXOPBLOCKS - q" and ?rs = "take i qs @ drop (Suc i) qs"
  have qs: "qs = take i qs @ qs ! i # drop (Suc i) qs" by (rule split_nth [OF tx_end(1)])
  have "length qs = Suc (length ?rs)" using tx_end(1) by simp
  moreover have "sum_list (map ?f ?rs) \<le> sum_list (map ?f qs)" by (subst (2) qs) simp
  moreover have "set ?rs \<subseteq> set qs" using set_take_subset set_drop_subset by fastforce
  moreover note f = end_op_fields [OF tx_end(2)]
  ultimately show ?case using tx_end(3) by (auto simp: room_def simp del: set_append)
next
  case (tx_other s t qs)
  show ?case using only_bio_fields [OF tx_other(1)] tx_other(2) by (simp add: room_def)
qed

lemma room_reach:
  assumes "txstep\<^sup>*\<^sup>* ([], s) c" and "quiet s"
  shows "room c \<and> logsize (snd c) = logsize s"
  using assms(1)
proof (induction rule: rtranclp_induct)
  case base
  then show ?case using assms(2) by (simp add: room_def quiet_def)
next
  case (step c d)
  then show ?case using room_step [OF step(2)] by simp
qed

text \<open>C4. However calls interleave, one that has not used up its \<open>MAXOPBLOCKS\<close> writes finds room in the log and \<open>log_write\<close> does not panic, provided the log on the disk has \<open>LOGSIZE\<close> blocks besides its header.\<close>

theorem log_write_has_room:
  assumes "txstep\<^sup>*\<^sup>* ([], s0) (qs, s)" and "quiet s0" and "int LOGSIZE < logsize s0"
    and "i < length qs" and "qs ! i < MAXOPBLOCKS" and "L_log \<notin> set (held s)"
  shows "\<exists>t. log_write b s = Inr t \<and> lh t = absorb (blockno (bufs s ! b)) (lh s) \<and> held t = held s"
proof -
  have r: "room (qs, s)" "logsize s = logsize s0" using room_reach [OF assms(1,2)] by simp_all
  let ?f = "\<lambda>q :: nat. MAXOPBLOCKS - q"
  have "?f (qs ! i) \<in> set (map ?f qs)" using assms(4) by simp
  then have "?f (qs ! i) \<le> sum_list (map ?f qs)" by (intro member_le_sum_list) simp_all
  then have "length (lh s) < LOGSIZE" "1 \<le> outstanding s" using r(1) assms(4,5) by (auto simp: room_def)
  then show ?thesis using assms(3,6) r(2)
    by (simp add: log_write_def acquire_ok release_ok upd_buf_def)
qed


text \<open>
  The machine of the witness: an empty log of \<open>n\<close> blocks with its header, and 31 different blocks
  in the buffers. In \<open>written k s\<close> three calls have done \<open>k\<close> writes in all, ten each in turn.
\<close>

definition full_machine :: "int \<Rightarrow> log_state" where
  "full_machine n = boot_log\<lparr>bufs := map (\<lambda>i. zero_buf\<lparr>blockno := 100 + of_nat i\<rparr>) [0..<31], logsize := n\<rparr>"

definition quotas :: "nat \<Rightarrow> nat list" where
  "quotas k = [min 10 k, min 10 (k - 10), k - 20]"

definition written :: "nat \<Rightarrow> int \<Rightarrow> log_state \<Rightarrow> bool" where
  "written k n s \<longleftrightarrow> lh s = map (\<lambda>i. 100 + of_nat i) [0..<k] \<and> (\<forall>i < 31. blockno (bufs s ! i) = 100 + of_nat i)
     \<and> length (bufs s) = 31 \<and> held s = [] \<and> logsize s = n \<and> outstanding s = 3 \<and> \<not> committing s"

lemma full_machine_quiet: "quiet (full_machine n)" "logsize (full_machine n) = n"
  by (simp_all add: full_machine_def quiet_def boot_log_sel)

lemma full_machine_starts:
  "\<exists>s. txstep\<^sup>*\<^sup>* ([], full_machine n) (quotas 0, s) \<and> written 0 n s"
proof -
  let ?m = "\<lambda>k. full_machine n\<lparr>outstanding := k\<rparr>"
  have h: "held boot_log = []"
    using boot_log_idle(1) by (simp add: idle_def log_ready_def cinv_def env_ok_def)
  have b: "begin_op (?m k) = Inr (?m (k + 1))" if "k \<le> 2" for k
    using that h by (simp add: begin_op_def acquire_def release_def full_machine_def boot_log_sel)
  have "full_machine n = ?m 0" by (simp add: full_machine_def boot_log_sel(3) [symmetric])
  then have s1: "txstep ([], full_machine n) ([0], ?m 1)" using tx_begin [OF b [of 0], of "[]"] by simp
  have s2: "txstep ([0], ?m 1) ([0, 0], ?m 2)" using tx_begin [OF b [of 1], of "[0]"] by simp
  have s3: "txstep ([0, 0], ?m 2) ([0, 0, 0], ?m 3)" using tx_begin [OF b [of 2], of "[0, 0]"] by simp
  have "txstep\<^sup>*\<^sup>* ([], full_machine n) ([0, 0, 0], ?m 3)"
    by (rule rtranclp.rtrancl_into_rtrancl [OF rtranclp.rtrancl_into_rtrancl [OF r_into_rtranclp [of txstep, OF s1] s2] s3])
  moreover have "written 0 n (?m 3)"
  proof -
    define bs where "bs = map (\<lambda>i. zero_buf\<lparr>blockno := 100 + of_nat i\<rparr>) [0..<31]"
    have "length bs = 31" unfolding bs_def by (simp only: length_map length_upt)
    moreover have "blockno (bs ! i) = 100 + of_nat i" if "i < 31" for i
      unfolding bs_def using that by (simp only: nth_map length_upt nth_upt add_0 diff_zero) simp
    ultimately show ?thesis
      using h unfolding full_machine_def bs_def [symmetric] by (simp add: written_def boot_log_sel)
  qed
  ultimately show ?thesis by (auto simp: quotas_def)
qed

lemma written_step:
  assumes "written k n s" and "k < 30" and "int k < n - 1"
  shows "\<exists>t. txstep (quotas k, s) (quotas (Suc k), t) \<and> written (Suc k) n t"
proof -
  have w: "lh s = map (\<lambda>i. 100 + of_nat i) [0..<k]" "\<forall>i < 31. blockno (bufs s ! i) = 100 + of_nat i"
    "length (bufs s) = 31" "held s = []" "logsize s = n" "outstanding s = 3" "\<not> committing s"
    using assms(1) by (simp_all add: written_def)
  have "100 + of_nat i \<noteq> (100 + of_nat k :: u32)" if "i < k" for i
    using that assms(2) of_nat_inj32 [of i k] by auto
  then have "(100 + of_nat k :: u32) \<notin> (\<lambda>i. 100 + of_nat i) ` {0..<k}"
    by (metis (no_types, lifting) atLeastLessThan_iff imageE)
  then have new: "absorb (blockno (bufs s ! k)) (lh s) = map (\<lambda>i. 100 + of_nat i) [0..<Suc k]"
    using w(1,2) assms(2) by (simp add: absorb_def)
  let ?t = "upd_buf k (bdirty_update (\<lambda>_. True)) (s\<lparr>lh := absorb (blockno (bufs s ! k)) (lh s)\<rparr>)"
  have lw: "log_write k s = Inr ?t"
    using w assms(2,3) by (simp add: log_write_def acquire_def release_def upd_buf_def)
  have "txstep (quotas k, s) ((quotas k)[k div 10 := Suc (quotas k ! (k div 10))], ?t)"
  proof (rule tx_write [OF _ _ lw])
    show "k div 10 < length (quotas k)" using assms(2) by (simp add: quotas_def)
    consider "k < 10" | "10 \<le> k" "k < 20" | "20 \<le> k" "k < 30" using assms(2) by linarith
    then show "quotas k ! (k div 10) < MAXOPBLOCKS"
    proof cases
      case 2
      then have "k div 10 = 1" by simp
      then show ?thesis using 2 by (simp add: quotas_def)
    next
      case 3
      then have "k div 10 = 2" by simp
      then show ?thesis using 3 by (simp add: quotas_def)
    qed (simp add: quotas_def)
  qed
  moreover have "(quotas k)[k div 10 := Suc (quotas k ! (k div 10))] = quotas (Suc k)"
  proof -
    consider "k < 10" | "10 \<le> k" "k < 20" | "20 \<le> k" "k < 30" using assms(2) by linarith
    then show ?thesis
    proof cases
      case 2
      then have "k div 10 = 1" by simp
      then show ?thesis using 2 by (simp add: quotas_def)
    next
      case 3
      then have "k div 10 = 2" by simp
      then show ?thesis using 3 by (simp add: quotas_def numeral_2_eq_2)
    qed (simp add: quotas_def)
  qed
  moreover have "blockno ((bufs s)[k := (bufs s ! k)\<lparr>bdirty := True\<rparr>] ! i) = blockno (bufs s ! i)" for i
    by (cases "i = k \<and> k < length (bufs s)") (auto simp: nth_list_update list_update_beyond)
  then have "written (Suc k) n ?t"
    using w new by (simp add: written_def upd_buf_def)
  ultimately show ?thesis by (intro exI [of _ ?t]) simp
qed

lemma full_machine_writes:
  assumes "k \<le> 30" and "int k < n"
  shows "\<exists>s. txstep\<^sup>*\<^sup>* ([], full_machine n) (quotas k, s) \<and> written k n s"
  using assms
proof (induction k)
  case 0
  show ?case by (rule full_machine_starts)
next
  case (Suc k)
  then obtain s where s: "txstep\<^sup>*\<^sup>* ([], full_machine n) (quotas k, s)" "written k n s" by auto
  then obtain t where "txstep (quotas k, s) (quotas (Suc k), t)" "written (Suc k) n t"
    using written_step [OF s(2)] Suc.prems by auto
  then show ?case using rtranclp.rtrancl_into_rtrancl [OF s(1)] by blast
qed

lemma log_write_has_room_witness:
  "\<exists>s t. txstep\<^sup>*\<^sup>* ([], full_machine 31) ([10, 10, 9], s) \<and> log_write 30 s = Inr t \<and> length (lh t) = 30"
proof -
  obtain s where s: "txstep\<^sup>*\<^sup>* ([], full_machine 31) (quotas 29, s)" "written 29 31 s"
    using full_machine_writes [of 29 31] by auto
  have q: "quotas 29 = [10, 10, 9]" by (simp add: quotas_def)
  have w: "lh s = map (\<lambda>i. 100 + of_nat i) [0..<29]" "blockno (bufs s ! 30) = 130" "held s = []"
    using s(2) by (simp_all add: written_def del: upt_rec_numeral)
  obtain t where t: "log_write 30 s = Inr t" "lh t = absorb (blockno (bufs s ! 30)) (lh s)"
    using log_write_has_room [OF s(1) full_machine_quiet(1), of 2 30] w by (auto simp: full_machine_quiet q)
  have "(130 :: u32) \<noteq> 100 + of_nat i" if "i < 29" for i
    using that of_nat_inj32 [of 30 i] by auto
  then have "length (lh t) = 30" unfolding t(2) w(1,2) absorb_def by auto
  then show ?thesis using s(1) t(1) q by auto
qed

text \<open>C38. The file system that \<open>mkfs\<close> makes counts the header among the \<open>LOGSIZE\<close> blocks of the log, so the last of the writes that \<open>begin_op\<close> has reserved room for stops the kernel: three calls may start, and with 29 different blocks written the third, with one of its ten writes left, panics.\<close>

theorem log_write_out_of_room:
  "\<exists>s. quiet (full_machine (int LOGSIZE)) \<and> txstep\<^sup>*\<^sup>* ([], full_machine (int LOGSIZE)) ([10, 10, 9], s)
    \<and> log_write 29 s = Inl (Panic ''too big a transaction'')"
proof -
  obtain s where s: "txstep\<^sup>*\<^sup>* ([], full_machine (int LOGSIZE)) (quotas 29, s)" "written 29 (int LOGSIZE) s"
    using full_machine_writes [of 29 "int LOGSIZE"] by auto
  have "quotas 29 = [10, 10, 9]" by (simp add: quotas_def)
  moreover have "log_write 29 s = Inl (Panic ''too big a transaction'')"
    using s(2) by (simp add: log_write_def written_def)
  ultimately show ?thesis using s(1) full_machine_quiet(1) by (intro exI [of _ s]) simp
qed

end
