(* ===== verification/Xv6_FsSpec.thy ===== *)
theory Xv6_FsSpec
  imports Xv6_Fs Xv6_LogSpace
begin

text \<open>
  The layout of inodes on the disk, and path names: \<open>skipelem\<close> cuts a path into its elements, and
  \<open>namex\<close> looks up one after the other.
\<close>

section \<open>Inodes in their block\<close>

lemma length_put16 [simp]: "length (put16 i w d) = length d"
  by (simp add: put16_def)

lemma get16_put16 [simp]: "i + 1 < length d \<Longrightarrow> get16 (put16 i w d) i = w"
  by (simp add: get16_def put16_def)

lemma get_put_apart:
  "i + 2 \<le> j \<or> j + 2 \<le> i \<Longrightarrow> get16 (put16 i v d) j = get16 d j"
  "i + 2 \<le> j \<or> j + 4 \<le> i \<Longrightarrow> get32 (put16 i v d) j = get32 d j"
  "i + 4 \<le> j \<or> j + 2 \<le> i \<Longrightarrow> get16 (put32 i w d) j = get16 d j"
  "i + 4 \<le> j \<or> j + 4 \<le> i \<Longrightarrow> get32 (put32 i w d) j = get32 d j"
  by (auto simp: get16_def get32_def put16_def put32_def nth_list_update)

text \<open>The loop that stores the block addresses.\<close>

lemma put_addrs:
  assumes "off + 12 + 4 * n \<le> length d" and "n \<le> length xs"
    and "e = foldl (\<lambda>d k. put32 (off + 12 + 4 * k) (xs ! k) d) d [0..<n]"
  shows "length e = length d \<and> (\<forall>k < n. get32 e (off + 12 + 4 * k) = xs ! k)
    \<and> (\<forall>j. j + 2 \<le> off + 12 \<or> off + 12 + 4 * n \<le> j \<longrightarrow> get16 e j = get16 d j)
    \<and> (\<forall>j. j + 4 \<le> off + 12 \<or> off + 12 + 4 * n \<le> j \<longrightarrow> get32 e j = get32 d j)"
  using assms
proof (induction n arbitrary: e)
  case (Suc n)
  define c where "c = foldl (\<lambda>d k. put32 (off + 12 + 4 * k) (xs ! k) d) d [0..<n]"
  have e: "e = put32 (off + 12 + 4 * n) (xs ! n) c" using Suc.prems(3) by (simp add: c_def)
  have IH: "length c = length d" "\<forall>k < n. get32 c (off + 12 + 4 * k) = xs ! k"
    "\<forall>j. j + 2 \<le> off + 12 \<or> off + 12 + 4 * n \<le> j \<longrightarrow> get16 c j = get16 d j"
    "\<forall>j. j + 4 \<le> off + 12 \<or> off + 12 + 4 * n \<le> j \<longrightarrow> get32 c j = get32 d j"
    using Suc.IH [of c] Suc.prems(1,2) c_def by auto
  have "get32 e (off + 12 + 4 * k) = xs ! k" if "k < Suc n" for k
  proof (cases "k = n")
    case True
    then show ?thesis using Suc.prems(1) IH(1) by (simp add: e)
  next
    case False
    then show ?thesis using that IH(2) by (simp add: e get_put_apart)
  qed
  then show ?case using IH by (auto simp: e get_put_apart)
qed simp

lemma put_dinode_fields:
  assumes "off + 64 \<le> length d" and "length (d_addrs x) = 13"
  shows "get_dinode (put_dinode off x d) off = x" and "length (put_dinode off x d) = length d"
    and "j + 64 \<le> off \<or> off + 64 \<le> j \<Longrightarrow> get_dinode (put_dinode off x d) j = get_dinode d j"
proof -
  define c where "c = put32 (off + 8) (d_size x) (put16 (off + 6) (d_nlink x)
    (put16 (off + 4) (d_minor x) (put16 (off + 2) (d_major x) (put16 off (d_type x) d))))"
  define e where "e = foldl (\<lambda>d k. put32 (off + 12 + 4 * k) (d_addrs x ! k) d) c [0..<13]"
  have pd: "put_dinode off x d = e" by (simp add: put_dinode_def c_def e_def del: upt_rec_numeral)
  have len: "length c = length d" by (simp add: c_def)
  have e: "length e = length c \<and> (\<forall>k < 13. get32 e (off + 12 + 4 * k) = d_addrs x ! k)
    \<and> (\<forall>j. j + 2 \<le> off + 12 \<or> off + 12 + 4 * 13 \<le> j \<longrightarrow> get16 e j = get16 c j)
    \<and> (\<forall>j. j + 4 \<le> off + 12 \<or> off + 12 + 4 * 13 \<le> j \<longrightarrow> get32 e j = get32 c j)"
    by (rule put_addrs) (use assms len e_def in simp_all)
  then show "length (put_dinode off x d) = length d" by (simp add: pd len)
  have "map (\<lambda>k. get32 e (off + 12 + 4 * k)) [0..<13] = d_addrs x"
    using e assms(2) by (intro nth_equalityI) (auto simp del: upt_rec_numeral)
  then show "get_dinode (put_dinode off x d) off = x"
    using e assms(1) unfolding pd get_dinode_def
    by (intro dinode.equality) (simp_all add: c_def get_put_apart del: upt_rec_numeral)
  assume j: "j + 64 \<le> off \<or> off + 64 \<le> j"
  have "map (\<lambda>k. get32 e (j + 12 + 4 * k)) [0..<13] = map (\<lambda>k. get32 d (j + 12 + 4 * k)) [0..<13]"
    using e j by (intro map_cong) (auto simp: c_def get_put_apart simp del: upt_rec_numeral)
  then show "get_dinode (put_dinode off x d) j = get_dinode d j"
    using e j unfolding pd get_dinode_def
    by (intro dinode.equality) (auto simp: c_def get_put_apart simp del: upt_rec_numeral)
qed

lemma dinode_off_fits: "dinode_off i + 64 \<le> BSIZE"
proof -
  have "unat (i mod 2 ^ 3 :: u32) = unat i mod 2 ^ 3" by (rule unat_mod_pow2) simp
  then have "unat (i mod 8 :: u32) < 8" by simp
  then show ?thesis by (simp add: dinode_off_def)
qed

lemma dinode_apart:
  assumes "length d = BSIZE" and "length (d_addrs x) = 13"
  shows "get_dinode (put_dinode (dinode_off i) x d) (dinode_off i) = x"
    and "j mod IPB \<noteq> i mod IPB \<Longrightarrow> get_dinode (put_dinode (dinode_off i) x d) (dinode_off j) = get_dinode d (dinode_off j)"
proof -
  have fit: "dinode_off i + 64 \<le> length d" using dinode_off_fits [of i] assms(1) by simp
  show "get_dinode (put_dinode (dinode_off i) x d) (dinode_off i) = x"
    by (rule put_dinode_fields(1) [OF fit assms(2)])
  assume "j mod IPB \<noteq> i mod IPB"
  then have "unat (j mod IPB) \<noteq> unat (i mod IPB)" by (metis word_unat_eq_iff)
  then have "dinode_off j + 64 \<le> dinode_off i \<or> dinode_off i + 64 \<le> dinode_off j"
    unfolding dinode_off_def by linarith
  then show "get_dinode (put_dinode (dinode_off i) x d) (dinode_off j) = get_dinode d (dinode_off j)"
    by (rule put_dinode_fields(3) [OF fit assms(2)])
qed

section \<open>Writing an inode back and reading it again\<close>

lemma more_fs_fields:
  fixes s t :: "'a fs_state_scheme"
  assumes "log_state.more t = log_state.more s"
  shows "inodes t = inodes s" and "sb t = sb s"
  using assms by (cases s; cases t; simp)+

lemma only_bio_log_more:
  fixes s t :: "'a log_state_scheme"
  shows "only_bio s t \<Longrightarrow> log_state.more t = log_state.more s"
  by (cases s; cases t) (simp add: only_bio_def)

lemma bread_only: "bread d n s = Inr (b, u) \<Longrightarrow> only_bio s u"
  using wpD [OF bread_bio [OF only_bio_refl, where Q = "\<lambda>(b, u). only_bio s u"]] by auto

lemma brelse_only: "brelse b s = Inr t \<Longrightarrow> only_bio s t"
  by (rule wpD [OF brelse_bio [OF only_bio_refl]])

lemma log_write_more:
  assumes "log_write b s = Inr t"
  shows "log_state.more t = log_state.more s"
proof -
  obtain u where u: "acquire L_log s = Inr u"
    "release L_log (upd_buf b (bdirty_update (\<lambda>_. True)) (u\<lparr>lh := absorb (blockno (bufs u ! b)) (lh u)\<rparr>)) = Inr t"
    using assms by (auto simp: log_write_def Let_def bindE_Inr_iff split: if_splits)
  show ?thesis
    using only_bio_log_more [OF acquire_only [OF u(1)]] only_bio_log_more [OF release_only [OF u(2)]]
    by (simp add: upd_buf_def)
qed

lemma log_update_more:
  assumes "log_update (n, g) s = Inr t"
  shows "log_state.more t = log_state.more s"
proof -
  obtain b u v where r: "bread 1 n s = Inr (b, u)" "log_write b (upd_buf b (bdata_update g) u) = Inr v"
    "brelse b v = Inr t" using assms by (auto simp: log_update_def bindE_Inr_iff)
  show ?thesis
    using only_bio_log_more [OF bread_only [OF r(1)]] log_write_more [OF r(2)] only_bio_log_more [OF brelse_only [OF r(3)]]
    by (simp add: upd_buf_def)
qed

text \<open>The inode as \<open>struct dinode\<close> keeps it.\<close>

definition dinode_of :: "inode \<Rightarrow> dinode" where
  "dinode_of ip = \<lparr>d_type = itype ip, d_major = imajor ip, d_minor = iminor ip, d_nlink = inlink ip,
     d_size = isize ip, d_addrs = iaddrs ip\<rparr>"

lemma iupdate_eq:
  assumes "idev (inodes s ! i) = 1"
  shows "iupdate i s = log_update (IBLOCK (inum (inodes s ! i)) (sb s),
    put_dinode (dinode_off (inum (inodes s ! i))) (dinode_of (inodes s ! i))) s"
proof (cases "bread 1 (IBLOCK (inum (inodes s ! i)) (sb s)) s")
  case (Inr r)
  obtain b u where r: "r = (b, u)" by fastforce
  have "log_state.more u = log_state.more s" using only_bio_log_more [OF bread_only] Inr r by blast
  note m = more_fs_fields [OF this]
  show ?thesis using Inr r assms by (simp add: iupdate_def log_update_def m dinode_of_def Let_def)
qed (use assms in \<open>simp add: iupdate_def log_update_def\<close>)

lemma acquiresleep_free:
  assumes "env_ok s" and "\<not> slocked lk" and "l \<noteq> L_ptable"
  shows "acquiresleep l lk s = Inr (\<lparr>slocked = True, spid = holder s\<rparr>, s)"
  using assms by (auto simp: env_ok_def acquiresleep_def acquire_def release_def myproc_def holder_def)

text \<open>Taking the lock of an inode and filling it in does not touch the buffers.\<close>

lemma upd_inode_view [simp]:
  "cinv H (upd_inode i f s) = cinv H s" "cdata (upd_inode i f s) = cdata s" "cdirty (upd_inode i f s) = cdirty s"
  "env_ok (upd_inode i f s) = env_ok s" "sb (upd_inode i f s) = sb s"
  "inodes (upd_inode i f s) = (inodes s)[i := f (inodes s ! i)]" "disk (upd_inode i f s) = disk s"
  "bufs (upd_inode i f s) = bufs s"
  by (simp_all add: upd_inode_def fun_eq_iff cinv_def env_ok_def buf_ok_def holder_def cdata_def cdirty_def cached_def
      split: option.split)


text \<open>The block of an inode as the code computes it, inside the disk and outside the log.\<close>

definition inode_block_ok :: "u32 \<Rightarrow> 'a fs_state_scheme \<Rightarrow> bool" where
  "inode_block_ok n s \<longleftrightarrow> IBLOCK n (sb s) < 1000 \<and> IBLOCK n (sb s) \<notin> log_area (logstart s)
     \<and> length (cdata s (IBLOCK n (sb s))) = BSIZE"

lemma iupdate_stores:
  assumes "in_txn s" and "idev (inodes s ! i) = 1" and "inode_block_ok (inum (inodes s ! i)) s"
    and "length (iaddrs (inodes s ! i)) = 13" and "Suc (length (lh s)) < LOGSIZE" and "int (length (lh s)) < logsize s - 1"
  shows "\<exists>t. iupdate i s = Inr t \<and> in_txn t \<and> inodes t = inodes s \<and> sb t = sb s
    \<and> cdata t = (cdata s)(IBLOCK (inum (inodes s ! i)) (sb s) :=
        put_dinode (dinode_off (inum (inodes s ! i))) (dinode_of (inodes s ! i)) (cdata s (IBLOCK (inum (inodes s ! i)) (sb s))))
    \<and> disk t = disk s \<and> dwrites t = dwrites s"
proof -
  let ?n = "IBLOCK (inum (inodes s ! i)) (sb s)"
  obtain t where t: "log_update (?n, put_dinode (dinode_off (inum (inodes s ! i))) (dinode_of (inodes s ! i))) s = Inr t"
    "in_txn t" "cdata t = (cdata s)(?n := put_dinode (dinode_off (inum (inodes s ! i))) (dinode_of (inodes s ! i)) (cdata s ?n))"
    "disk t = disk s" "dwrites t = dwrites s"
    using log_update_ok [OF assms(1), of ?n] assms(3,5,6) by (auto simp: inode_block_ok_def)
  then show ?thesis using iupdate_eq [OF assms(2)] more_fs_fields [OF log_update_more [OF t(1)]] by auto
qed

lemma ilock_reads:
  assumes "cinv {} s" and "\<forall>n. cdirty s n \<longrightarrow> n \<in> set ns" and "length ns < NBUF" and "j < length (inodes s)"
    and "idev (inodes s ! j) = 1" and "1 \<le> iref (inodes s ! j)" and "\<not> slocked (ilk (inodes s ! j))"
    and "\<not> ivalid (inodes s ! j)" and "IBLOCK (inum (inodes s ! j)) (sb s) < 1000"
    and "x = get_dinode (cdata s (IBLOCK (inum (inodes s ! j)) (sb s))) (dinode_off (inum (inodes s ! j)))"
    and "d_type x \<noteq> 0"
  shows "\<exists>t. ilock j s = Inr t \<and> dinode_of (inodes t ! j) = x \<and> ivalid (inodes t ! j) \<and> slocked (ilk (inodes t ! j))
    \<and> cinv {} t \<and> cdata t = cdata s"
proof -
  let ?n = "IBLOCK (inum (inodes s ! j)) (sb s)"
  have e: "env_ok s" using assms(1) by (simp add: cinv_def)
  let ?u = "upd_inode j (ilk_update (\<lambda>_. \<lparr>slocked = True, spid = holder s\<rparr>)) s"
  have lk: "lock_inode j s = Inr ?u" using acquiresleep_free [OF e assms(7)] by (simp add: lock_inode_def)
  have cu: "cinv {} ?u" using assms(1) by simp
  have "\<exists>b < NBUF. b \<notin> {} \<and> \<not> bdirty (bufs ?u ! b)" by (rule clean_buf [OF cu, of ns]) (use assms(2,3) in auto)
  then obtain b v where v: "bread 1 ?n ?u = Inr (b, v)" "cinv {b} v" "blockno (bufs v ! b) = ?n"
    "bdata (bufs v ! b) = cdata s ?n" "bdirty (bufs v ! b) = cdirty s ?n" "cdata v = cdata s" "disk v = disk s"
    "bvalid (bufs v ! b)"
    using bread_ok [OF cu assms(9)] by auto
  have mv: "log_state.more v = log_state.more ?u" by (rule only_bio_log_more [OF bread_only [OF v(1)]])
  note iv = more_fs_fields [OF mv]
  let ?f = "\<lambda>ip. ip\<lparr>itype := d_type x, imajor := d_major x, iminor := d_minor x,
                    inlink := d_nlink x, isize := d_size x, iaddrs := d_addrs x\<rparr>"
  let ?w = "upd_inode j ?f v"
  have cw: "cinv {b} ?w" using v(2) by simp
  have "\<not> cdirty s ?n \<Longrightarrow> cdata s ?n = disk s 1 ?n" using clean_disk [OF assms(1)] by simp
  then have coh: "\<not> bdirty (bufs ?w ! b) \<longrightarrow> bdata (bufs ?w ! b) = disk ?w 1 (blockno (bufs ?w ! b))"
    using v(3-5,7) by simp
  obtain r where "ring_ok (bufs ?w) r" using cw by (auto simp: cinv_def)
  then obtain y where y: "brelse b ?w = Inr y" "cinv ({b} - {b}) y" "cdata y = cdata ?w"
    using brelse_ok [OF cw, of b r] coh by auto
  have iy: "inodes y = inodes ?w"
    by (rule more_fs_fields(1) [OF only_bio_log_more [OF brelse_only [OF y(1)]]])
  let ?t = "upd_inode j (ivalid_update (\<lambda>_. True)) y"
  have "inodes ?t ! j = (inodes s ! j)\<lparr>ilk := \<lparr>slocked = True, spid = holder s\<rparr>, itype := d_type x, imajor := d_major x,
      iminor := d_minor x, inlink := d_nlink x, isize := d_size x, iaddrs := d_addrs x, ivalid := True\<rparr>"
    using assms(4) by (simp add: iy iv)
  moreover have "ilock j s = Inr ?t"
    using lk v(1,4) y(1) assms(4-6,8,10,11) by (simp add: ilock_def iv iy Let_def)
  ultimately show ?thesis using y(2,3) v(6) by (intro exI [of _ ?t]) (simp add: dinode_of_def)
qed


text \<open>C29. What \<open>iupdate\<close> writes for an inode, inside a transaction, is what \<open>ilock\<close> reads for it through another entry of the inode cache: every field comes back, and the other inodes of the block are as they were. Until the commit nothing reaches the disk.\<close>

theorem iupdate_ilock:
  assumes "in_txn s" and "Suc (length (lh s)) < LOGSIZE" and "int (length (lh s)) < logsize s - 1"
    and "idev (inodes s ! i) = 1" and "inode_block_ok (inum (inodes s ! i)) s" and "length (iaddrs (inodes s ! i)) = 13"
    and "j < length (inodes s)" and "idev (inodes s ! j) = 1" and "inum (inodes s ! j) = inum (inodes s ! i)"
    and "1 \<le> iref (inodes s ! j)" and "\<not> slocked (ilk (inodes s ! j))" and "\<not> ivalid (inodes s ! j)"
    and "itype (inodes s ! i) \<noteq> 0"
  shows "\<exists>t u. iupdate i s = Inr t \<and> ilock j t = Inr u \<and> dinode_of (inodes u ! j) = dinode_of (inodes s ! i)
    \<and> ivalid (inodes u ! j) \<and> disk t = disk s
    \<and> (\<forall>n. IBLOCK n (sb s) = IBLOCK (inum (inodes s ! i)) (sb s) \<and> n mod IPB \<noteq> inum (inodes s ! i) mod IPB \<longrightarrow>
        get_dinode (cdata u (IBLOCK n (sb s))) (dinode_off n) = get_dinode (cdata s (IBLOCK n (sb s))) (dinode_off n))"
proof -
  let ?n = "IBLOCK (inum (inodes s ! i)) (sb s)" and ?x = "dinode_of (inodes s ! i)"
  let ?off = "dinode_off (inum (inodes s ! i))"
  obtain t where t: "iupdate i s = Inr t" "in_txn t" "inodes t = inodes s" "sb t = sb s"
    "cdata t = (cdata s)(?n := put_dinode ?off ?x (cdata s ?n))" "disk t = disk s"
    using iupdate_stores [OF assms(1,4,5,6,2,3)] by blast
  have len: "length (cdata s ?n) = BSIZE" "?n < 1000" using assms(5) by (simp_all add: inode_block_ok_def)
  have x: "length (d_addrs ?x) = 13" "d_type ?x \<noteq> 0" using assms(6,13) by (simp_all add: dinode_of_def)
  note ap = dinode_apart [OF len(1) x(1)]
  have lr: "log_ready t" using t(2) by (simp add: in_txn_def)
  note r = log_ready_D [OF lr]
  obtain u where u: "ilock j t = Inr u" "dinode_of (inodes u ! j) = ?x" "ivalid (inodes u ! j)" "cdata u = cdata t"
    using ilock_reads [OF r(1,6), of j ?x] r(5) assms(7-12) len(2) x(2) ap(1) by (auto simp: t(3-5))
  have "get_dinode (cdata u (IBLOCK n (sb s))) (dinode_off n) = get_dinode (cdata s (IBLOCK n (sb s))) (dinode_off n)"
    if "IBLOCK n (sb s) = ?n" "n mod IPB \<noteq> inum (inodes s ! i) mod IPB" for n
    using ap(2) [OF that(2)] that(1) by (simp add: u(4) t(5))
  then show ?thesis using t(1,6) u(1-3) by blast
qed


text \<open>A machine for the witness: in a transaction, with a file's inode in entry 0 and room in entry 1.\<close>

definition inode0 :: inode where
  "inode0 = \<lparr>idev = 1, inum = 7, iref = 1, ilk = initsleeplock, ivalid = False, itype = 2, imajor = 0, iminor = 0,
     inlink = 1, isize = 700, iaddrs = 59 # replicate 12 0\<rparr>"

definition fs_fields :: fs_state where
  "fs_fields = \<lparr>held = [], mem = (\<lambda>_. 0), freelist = 0, use_lock = True, kend = 0,
     kpgdir = 0, kdata = 0, cr3 = 0, procs = [], nextpid = 0, curproc = None, initproc = None,
     esp0 = 0, ticks = 0, ktrapret = 0, kforkret = 0, kinitcode = [],
     disk = (\<lambda>_ _. []), ide_active = None, ideerr = False, dwrites = [], idequeue = None,
     havedisk1 = True, bufs = [], logstart = 2, logsize = 30, outstanding = 1, committing = False, logdev = 1, lh = [],
     sb = \<lparr>sb_size = 1000, sb_nblocks = 941, sb_ninodes = 200, sb_nlog = 30, sb_logstart = 2, sb_inodestart = 32,
       sb_bmapstart = 58\<rparr>,
     inodes = [inode0, inode0\<lparr>itype := 0, isize := 0\<rparr>]\<rparr>"

definition boot_fs :: fs_state where
  "boot_fs = boot_bio (\<lambda>_. replicate BSIZE 0) (bio_state.more fs_fields)"

lemma boot_fs_sel:
  "logstart boot_fs = 2" "logsize boot_fs = 30" "outstanding boot_fs = 1" "\<not> committing boot_fs"
  "logdev boot_fs = 1" "lh boot_fs = []" "inodes boot_fs = inodes fs_fields" "sb boot_fs = sb fs_fields"
proof -
  have m: "bio_state.more boot_fs = bio_state.more fs_fields" by (simp add: boot_fs_def boot_bio(8))
  then have "only_bio fs_fields boot_fs" by (simp add: only_bio_def)
  note f = more_fs_fields [OF only_bio_log_more [OF this]]
  show "logstart boot_fs = 2" "logsize boot_fs = 30" "outstanding boot_fs = 1" "\<not> committing boot_fs"
    "logdev boot_fs = 1" "lh boot_fs = []" "inodes boot_fs = inodes fs_fields" "sb boot_fs = sb fs_fields"
    using more_log_fields [OF m] f by (simp_all add: fs_fields_def)
qed

lemma boot_fs_txn: "in_txn boot_fs" "cdata boot_fs n = replicate BSIZE 0"
proof -
  have b: "cinv {} boot_fs" "cdirty boot_fs = (\<lambda>_. False)" by (simp_all only: boot_fs_def boot_bio)
  then show "in_txn boot_fs" by (simp add: in_txn_def log_ready_def boot_fs_sel)
  show "cdata boot_fs n = replicate BSIZE 0" by (simp only: boot_fs_def boot_bio)
qed

lemma iupdate_ilock_witness:
  "\<exists>t u. iupdate 0 boot_fs = Inr t \<and> ilock 1 t = Inr u \<and> isize (inodes u ! 1) = 700 \<and> hd (iaddrs (inodes u ! 1)) = 59"
proof -
  have i: "inodes boot_fs = [inode0, inode0\<lparr>itype := 0, isize := 0\<rparr>]" by (simp add: boot_fs_sel fs_fields_def)
  have "IBLOCK 7 (sb boot_fs) = 32" by (simp add: IBLOCK_def boot_fs_sel fs_fields_def)
  then have "inode_block_ok 7 boot_fs"
    by (simp add: inode_block_ok_def log_area_def boot_fs_sel boot_fs_txn(2))
  then obtain t u where "iupdate 0 boot_fs = Inr t" "ilock 1 t = Inr u" "dinode_of (inodes u ! 1) = dinode_of inode0"
    using iupdate_ilock [OF boot_fs_txn(1), of 0 1] by (auto simp: boot_fs_sel(2,6) i inode0_def initsleeplock_def)
  then show ?thesis by (auto simp: dinode_of_def inode0_def)
qed


section \<open>Path names\<close>

text \<open>The elements of a path: what stands between slashes, the empty pieces left out.\<close>

fun split_on :: "'c \<Rightarrow> 'c list \<Rightarrow> 'c list list" where
  "split_on c [] = [[]]"
| "split_on c (x # xs) =
     (if x = c then [] # split_on c xs
      else case split_on c xs of [] \<Rightarrow> [[x]] | y # ys \<Rightarrow> (x # y) # ys)"

definition elems :: "bytes \<Rightarrow> bytes list" where
  "elems p = filter (\<lambda>e. e \<noteq> []) (split_on slash p)"

text \<open>What the caller's buffer holds after an element has been copied to it.\<close>

definition put_name :: "bytes \<Rightarrow> bytes \<Rightarrow> bytes" where
  "put_name e nm = (if length e \<ge> DIRSIZ then take DIRSIZ e else e @ 0 # drop (length e + 1) nm)"

lemma split_on_span:
  "split_on c xs = takeWhile (\<lambda>x. x \<noteq> c) xs #
     (case dropWhile (\<lambda>x. x \<noteq> c) xs of [] \<Rightarrow> [] | _ # ys \<Rightarrow> split_on c ys)"
  by (induction xs) auto

lemma elems_Nil [simp]: "elems [] = []"
  by (simp add: elems_def)

lemma elems_slash [simp]: "elems (slash # p) = elems p"
  by (simp add: elems_def)

lemma elems_drop: "elems (dropWhile (\<lambda>c. c = slash) p) = elems p"
  by (induction p) auto

lemma elems_word:
  assumes "p \<noteq> []" and "hd p \<noteq> slash"
  shows "elems p = takeWhile (\<lambda>c. c \<noteq> slash) p # elems (dropWhile (\<lambda>c. c \<noteq> slash) p)"
proof -
  have ne: "takeWhile (\<lambda>c. c \<noteq> slash) p \<noteq> []" using assms by (cases p) auto
  have rest: "elems (dropWhile (\<lambda>c. c \<noteq> slash) p) =
      filter (\<lambda>e. e \<noteq> []) (case dropWhile (\<lambda>c. c \<noteq> slash) p of [] \<Rightarrow> [] | _ # ys \<Rightarrow> split_on slash ys)"
  proof (cases "dropWhile (\<lambda>c. c \<noteq> slash) p")
    case (Cons y ys)
    then have "y = slash" using hd_dropWhile [of "\<lambda>c. c \<noteq> slash" p] by simp
    then show ?thesis by (simp only: Cons) (simp add: elems_def)
  next
    case Nil
    show ?thesis by (simp only: Nil) simp
  qed
  show ?thesis unfolding rest using ne by (simp add: elems_def split_on_span [of slash p])
qed

lemma skipelem_None: "skipelem p nm = None \<longleftrightarrow> elems p = []"
proof (cases "dropWhile (\<lambda>c. c = slash) p = []")
  case True
  then have "elems p = []" using elems_drop [of p] by (simp del: dropWhile_eq_Nil_conv)
  then show ?thesis using True by (simp add: skipelem_def Let_def del: dropWhile_eq_Nil_conv)
next
  case False
  then have "hd (dropWhile (\<lambda>c. c = slash) p) \<noteq> slash" by (rule hd_dropWhile)
  then show ?thesis using False elems_word [OF False] elems_drop [of p] by (simp add: skipelem_def Let_def)
qed

lemma skipelem_Some:
  assumes "skipelem p nm = Some (rest, nm')"
  shows "\<exists>e. elems p = e # elems rest \<and> nm' = put_name e nm" and "rest = [] \<longleftrightarrow> elems rest = []"
proof -
  let ?p = "dropWhile (\<lambda>c. c = slash) p"
  have ne: "?p \<noteq> []" using assms unfolding skipelem_def Let_def by (metis option.distinct(1))
  then have hd: "hd ?p \<noteq> slash" by (rule hd_dropWhile)
  have r: "rest = dropWhile (\<lambda>c. c = slash) (dropWhile (\<lambda>c. c \<noteq> slash) ?p)"
    "nm' = put_name (takeWhile (\<lambda>c. c \<noteq> slash) ?p) nm"
    using assms ne by (auto simp: skipelem_def Let_def put_name_def simp del: dropWhile_eq_Nil_conv)
  show "\<exists>e. elems p = e # elems rest \<and> nm' = put_name e nm"
    using elems_word [OF ne hd] elems_drop [of p] elems_drop [of "dropWhile (\<lambda>c. c \<noteq> slash) ?p"] r by simp
  show "rest = [] \<longleftrightarrow> elems rest = []"
  proof (cases "rest = []")
    case False
    then have "hd rest \<noteq> slash" unfolding r(1) by (rule hd_dropWhile)
    then show ?thesis using elems_word [OF False] False by simp
  qed simp
qed

text \<open>The walk that a list of elements describes, from the inode \<open>i\<close>.\<close>

fun walk :: "nat \<Rightarrow> bytes list \<Rightarrow> bool \<Rightarrow> bytes \<Rightarrow> 'a fs_state_scheme \<Rightarrow>
    stop + ((nat option \<times> bytes) \<times> 'a fs_state_scheme)" where
  "walk i [] par nm s =
     (if par then bindE (iput i s) (\<lambda>s. Inr ((None, nm), s)) else Inr ((Some i, nm), s))"
| "walk i (e # es) par nm s =
     (let nm = put_name e nm in
      bindE (ilock i s) (\<lambda>s.
        if itype (inodes s ! i) \<noteq> 1 then bindE (iunlockput i s) (\<lambda>s. Inr ((None, nm), s))
        else if par \<and> es = [] then bindE (iunlock i s) (\<lambda>s. Inr ((Some i, nm), s))
        else
          bindE (dirlookup i nm s) (\<lambda>(r, s).
            case r of None \<Rightarrow> bindE (iunlockput i s) (\<lambda>s. Inr ((None, nm), s))
            | Some (j, _) \<Rightarrow> bindE (iunlockput i s) (walk j es par nm))))"

lemma namex_loop_walks:
  fixes s :: "'a fs_state_scheme"
  shows "namex_loop i p par nm s = walk i (elems p) par nm s"
proof (induction "length p" arbitrary: i p nm s rule: less_induct)
  case less
  show ?case
  proof (cases "skipelem p nm")
    case None
    then have "elems p = []" by (simp add: skipelem_None)
    then show ?thesis using None by (subst namex_loop.simps) simp
  next
    case (Some x)
    then obtain rest nm' where x: "skipelem p nm = Some (rest, nm')" by (cases x) auto
    obtain e where e: "elems p = e # elems rest" "nm' = put_name e nm" using skipelem_Some(1) [OF x] by blast
    have rest: "rest = [] \<longleftrightarrow> elems rest = []" by (rule skipelem_Some(2) [OF x])
    have "namex_loop j rest par nm' u = walk j (elems rest) par nm' u" for j and u :: "'a fs_state_scheme"
      by (rule less [OF skipelem_shorter [OF x]])
    then have h: "(\<lambda>u :: 'a fs_state_scheme. namex_loop j rest par nm' u) = walk j (elems rest) par nm'" for j
      by (rule ext)
    show ?thesis
      by (subst namex_loop.simps) (simp add: x e(1) rest [symmetric] e(2) [symmetric] Let_def h cong: if_cong option.case_cong)
  qed
qed

text \<open>C17. Resolving a path is the walk along its elements, from the root when it starts with a slash and from the current directory otherwise; so repeated and trailing slashes do not matter, and only the first 14 bytes of an element are looked up.\<close>

theorem namex_walks_elements:
  "namex p par nm s =
     bindE (if p \<noteq> [] \<and> hd p = slash then iget 1 1 s
            else bindE (myproc s) (\<lambda>me. bindE (idup (cwd (procs s ! me)) s) (\<lambda>(q, s). Inr (the q, s))))
       (\<lambda>(i, s). walk i (elems p) par nm s)"
  by (simp add: namex_def namex_loop_walks)

text \<open>The examples in the comment on \<open>skipelem\<close>.\<close>

lemma skipelem_examples:
  "map_option fst (skipelem (map of_nat [97, 47, 98, 98, 47, 99]) nm) = Some (map of_nat [98, 98, 47, 99])"
  "map_option fst (skipelem (map of_nat [47, 47, 47, 97, 47, 47, 98, 98]) nm) = Some (map of_nat [98, 98])"
  "map_option fst (skipelem (map of_nat [97]) nm) = Some []"
  "skipelem [] nm = None" "skipelem (map of_nat [47, 47, 47, 47]) nm = None"
  by (simp_all add: skipelem_def Let_def)

end
