(* ===== verification/Xv6_FileSpec.thy ===== *)
theory Xv6_FileSpec
  imports Xv6_FsSpec
begin

text \<open>
  The contents of files: what \<open>readi\<close> and \<open>writei\<close> do through \<open>bmap\<close>, \<open>balloc\<close>, the buffer cache and the
  log, in terms of the list of the bytes of a file. A write may find its blocks, allocate them, or allocate
  the indirect block first.
\<close>

section \<open>One block inside a transaction\<close>

text \<open>
  \<open>cache_ok H s\<close>: the running process holds the buffers \<open>H\<close>, and the blocks that differ from the disk are
  those in the log. \<open>txn H s\<close>: moreover a transaction is open.
\<close>

definition cache_ok :: "nat set \<Rightarrow> 'a log_state_scheme \<Rightarrow> bool" where
  "cache_ok H s \<longleftrightarrow> cinv H s \<and> finite H \<and> (\<forall>h\<in>H. bdev (bufs s ! h) = ROOTDEV \<and> bvalid (bufs s ! h))
     \<and> (\<forall>n. \<not> cdirty s n \<longrightarrow> cdata s n = disk s ROOTDEV n) \<and> (\<forall>n. cdirty s n = (n \<in> set (lh s)))
     \<and> logdev s = ROOTDEV \<and> unat (logstart s) + LOGSIZE < 1000 \<and> distinct (lh s) \<and> length (lh s) < LOGSIZE
     \<and> (\<forall>n \<in> set (lh s). n < 1000 \<and> n \<notin> log_area (logstart s))"

definition txn :: "nat set \<Rightarrow> 'a log_state_scheme \<Rightarrow> bool" where
  "txn H s \<longleftrightarrow> cache_ok H s \<and> 1 \<le> outstanding s \<and> \<not> committing s"

lemma txn_cache: "txn H s \<Longrightarrow> cache_ok H s"
  by (simp add: txn_def)

lemma in_txn_txn: "in_txn s \<longleftrightarrow> txn {} s"
proof -
  have "cdata s n = disk s ROOTDEV n" if "cinv {} s" "\<not> cdirty s n" for n
    using clean_disk [OF that] by simp
  then show ?thesis by (auto simp: in_txn_def txn_def cache_ok_def log_ready_def)
qed

lemma cache_held:
  assumes "cache_ok H s" and "h \<in> H"
  shows "cached s (blockno (bufs s ! h)) = Some h" "bdata (bufs s ! h) = cdata s (blockno (bufs s ! h))"
    "bdirty (bufs s ! h) = cdirty s (blockno (bufs s ! h))"
proof -
  have h: "cinv H s" "bdev (bufs s ! h) = ROOTDEV" "bvalid (bufs s ! h)" using assms by (auto simp: cache_ok_def)
  then have "one_copy (bufs s)" "h < NBUF" using assms(2) by (auto simp: cinv_def)
  then show c: "cached s (blockno (bufs s ! h)) = Some h" using h(2) by (simp add: cached_Some)
  show "bdata (bufs s ! h) = cdata s (blockno (bufs s ! h))" "bdirty (bufs s ! h) = cdirty s (blockno (bufs s ! h))"
    using c h(3) by (simp_all add: cdata_def cdirty_def)
qed

text \<open>What the routines of this theory leave alone.\<close>

definition keeps :: "'a fs_state_scheme \<Rightarrow> 'a fs_state_scheme \<Rightarrow> bool" where
  "keeps s t \<longleftrightarrow> logstart t = logstart s \<and> logsize t = logsize s \<and> disk t = disk s \<and> dwrites t = dwrites s
     \<and> sb t = sb s \<and> length (inodes t) = length (inodes s) \<and> outstanding t = outstanding s \<and> committing t = committing s"

lemma keeps_refl [simp]: "keeps s s"
  by (simp add: keeps_def)

lemma keeps_txn: "txn H s \<Longrightarrow> keeps s t \<Longrightarrow> cache_ok K t \<Longrightarrow> txn K t"
  by (simp add: keeps_def txn_def)

lemma keeps_trans: "keeps s t \<Longrightarrow> keeps t u \<Longrightarrow> keeps s u"
  by (simp add: keeps_def)

lemma upd_inode_log [simp]:
  "lh (upd_inode i f s) = lh s" "logstart (upd_inode i f s) = logstart s" "logsize (upd_inode i f s) = logsize s"
  "logdev (upd_inode i f s) = logdev s" "outstanding (upd_inode i f s) = outstanding s"
  "committing (upd_inode i f s) = committing s" "dwrites (upd_inode i f s) = dwrites s"
  by (simp_all add: upd_inode_def)

lemma upd_inode_txn [simp]:
  "cache_ok H (upd_inode i f s) = cache_ok H s" "txn H (upd_inode i f s) = txn H s" "keeps s (upd_inode i f t) = keeps s t"
  by (simp_all add: txn_def cache_ok_def keeps_def)

lemma cache_bread:
  assumes "cache_ok H s" and "n < 1000" and "\<forall>h\<in>H. blockno (bufs s ! h) \<noteq> n" and "length (lh s) + card H < NBUF"
  shows "\<exists>b t. bread ROOTDEV n s = Inr (b, t) \<and> b \<notin> H \<and> cache_ok (insert b H) t \<and> blockno (bufs t ! b) = n
    \<and> bdata (bufs t ! b) = cdata s n \<and> (\<forall>h\<in>H. bufs t ! h = bufs s ! h) \<and> cdata t = cdata s \<and> lh t = lh s
    \<and> inodes t = inodes s \<and> keeps s t"
proof -
  have s: "cinv H s" "\<forall>n. cdirty s n \<longrightarrow> n \<in> set (lh s)" using assms(1) by (simp_all add: cache_ok_def)
  have apart: "\<forall>h\<in>H. cached s n \<noteq> Some h"
  proof
    fix h assume h: "h \<in> H"
    show "cached s n \<noteq> Some h"
    proof
      assume c: "cached s n = Some h"
      have "one_copy (bufs s)" using s(1) by (simp add: cinv_def)
      then show False using c assms(3) h by (simp add: cached_Some)
    qed
  qed
  obtain b t where t: "bread ROOTDEV n s = Inr (b, t)" "b \<notin> H" "cinv (insert b H) t"
    "bdev (bufs t ! b) = ROOTDEV" "blockno (bufs t ! b) = n" "bvalid (bufs t ! b)"
    "bdata (bufs t ! b) = cdata s n" "\<forall>h \<in> H. bufs t ! h = bufs s ! h" "cdata t = cdata s" "cdirty t = cdirty s"
    "disk t = disk s" "dwrites t = dwrites s" "env_same s t"
    using bread_ok [OF s(1) assms(2) apart] clean_buf [OF s(1,2) assms(4)] by blast
  note l = env_same_log_fields [OF t(13)]
  have m: "inodes t = inodes s" "sb t = sb s"
    using more_fs_fields [OF only_bio_log_more [OF bread_only [OF t(1)]]] by simp_all
  have "cache_ok (insert b H) t"
    using assms(1) t l by (simp add: cache_ok_def)
  then show ?thesis using t l m by (intro exI [of _ b] exI [of _ t]) (simp add: keeps_def)
qed

lemma cache_brelse:
  assumes "cache_ok H s" and "b \<in> H"
  shows "\<exists>t. brelse b s = Inr t \<and> cache_ok (H - {b}) t \<and> cdata t = cdata s \<and> lh t = lh s
    \<and> (\<forall>h. blockno (bufs t ! h) = blockno (bufs s ! h)) \<and> (\<forall>h. bdata (bufs t ! h) = bdata (bufs s ! h))
    \<and> inodes t = inodes s \<and> keeps s t"
proof -
  have c: "cinv H s" using assms(1) by (simp add: cache_ok_def)
  then obtain r where r: "ring_ok (bufs s) r" by (auto simp: cinv_def)
  have coh: "bdev (bufs s ! b) = ROOTDEV \<and> bvalid (bufs s ! b) \<and> \<not> bdirty (bufs s ! b) \<longrightarrow>
      bdata (bufs s ! b) = disk s ROOTDEV (blockno (bufs s ! b))"
    using cache_held [OF assms] assms(1) by (simp add: cache_ok_def)
  obtain t where t: "brelse b s = Inr t" "cinv (H - {b}) t" "\<forall>c. seen (bufs t ! c) = seen (bufs s ! c)"
    "cdata t = cdata s" "cdirty t = cdirty s" "disk t = disk s" "dwrites t = dwrites s" "env_same s t"
    using brelse_ok [OF c assms(2) r coh] by blast
  note l = env_same_log_fields [OF t(8)]
  have m: "inodes t = inodes s" "sb t = sb s"
    using more_fs_fields [OF only_bio_log_more [OF brelse_only [OF t(1)]]] by simp_all
  have sn: "bdev (bufs t ! k) = bdev (bufs s ! k)" "bvalid (bufs t ! k) = bvalid (bufs s ! k)"
    "blockno (bufs t ! k) = blockno (bufs s ! k)" "bdata (bufs t ! k) = bdata (bufs s ! k)" for k
    using t(3) by (auto dest!: spec [of _ k] simp: seen_def)
  have "cache_ok (H - {b}) t" using assms(1) t l sn by (simp add: cache_ok_def)
  then show ?thesis using t l m sn by (intro exI [of _ t]) (simp add: keeps_def)
qed

lemma txn_log_write:
  assumes "txn H s" and "b \<in> H" and "blockno (bufs s ! b) < 1000" and "blockno (bufs s ! b) \<notin> log_area (logstart s)"
    and "Suc (length (lh s)) < LOGSIZE" and "int (length (lh s)) < logsize s - 1"
  shows "\<exists>t. log_write b (upd_buf b (bdata_update g) s) = Inr t \<and> txn H t
    \<and> cdata t = (cdata s)(blockno (bufs s ! b) := g (bdata (bufs s ! b))) \<and> lh t = absorb (blockno (bufs s ! b)) (lh s)
    \<and> (\<forall>h. blockno (bufs t ! h) = blockno (bufs s ! h)) \<and> (\<forall>h. h \<noteq> b \<longrightarrow> bufs t ! h = bufs s ! h)
    \<and> inodes t = inodes s \<and> keeps s t"
proof -
  let ?n = "blockno (bufs s ! b)"
  have c: "cinv H s" using assms(1) by (simp add: txn_def cache_ok_def)
  note h = cinv_held [OF c assms(2)]
  have hb: "bdev (bufs s ! b) = ROOTDEV" "bvalid (bufs s ! b)" using assms(1,2) by (auto simp: txn_def cache_ok_def)
  obtain x where x: "x = g (bdata (bufs s ! b))" by blast
  let ?y = "(bufs s ! b)\<lparr>bdata := x, bdirty := True\<rparr>"
  define w where "w = s\<lparr>bufs := (bufs s)[b := ?y]\<rparr>"
  have eu: "env_same s w" by (simp add: env_same_def w_def)
  have bw: "bufs w = (bufs s)[b := ?y]" by (simp add: w_def)
  have w: "cinv H w" "cdata w = (cdata s)(?n := x)" "cdirty w = (cdirty s)(?n := True)" "bufs w ! b = ?y"
    using replace_buf [OF c assms(2) eu bw, of ?n] hb by (simp_all add: w_def)
  let ?t = "w\<lparr>lh := absorb ?n (lh s)\<rparr>"
  have held: "held s = []" using h(1) by (simp add: env_ok_def)
  have y: "bdirty_update (\<lambda>_. True) (bdata_update g (bufs s ! b)) = ?y" by (rule buf.equality) (simp_all add: x)
  have out: "\<not> outstanding s < 1" using assms(1) by (simp add: txn_def)
  have log_room: "\<not> LOGSIZE \<le> length (lh s)" "\<not> logsize s - 1 \<le> int (length (lh s))" using assms(5,6) by auto
  have lw: "log_write b (upd_buf b (bdata_update g) s) = Inr ?t"
    using h(3) held out log_room y
    by (simp add: log_write_def acquire_def release_def upd_buf_def w_def list_update_overwrite)
  have len: "length (absorb ?n (lh s)) < LOGSIZE" using length_absorb [of ?n "lh s"] assms(5) by linarith
  have other: "bufs w ! k = bufs s ! k" if "k \<noteq> b" for k using that by (simp add: w_def)
  have hw: "bdev (bufs w ! k) = ROOTDEV \<and> bvalid (bufs w ! k)" if "k \<in> H" for k
    using that assms(1) w(4) hb other [of k] by (cases "k = b") (auto simp: txn_def cache_ok_def)
  have sel: "disk w = disk s" "logdev w = logdev s" "logstart w = logstart s" "outstanding w = outstanding s"
    "committing w = committing s" by (simp_all add: w_def)
  have "txn H ?t"
    using assms(1,3,4) w(1-3) len hw distinct_absorb [of "lh s" ?n] unfolding txn_def cache_ok_def by (auto simp: sel)
  moreover have "blockno (bufs w ! k) = blockno (bufs s ! k)" for k using other w(4) by (cases "k = b") auto
  ultimately show ?thesis
    using lw w(2) other x by (intro exI [of _ ?t]) (simp add: keeps_def w_def)
qed

text \<open>A block read, and a block changed, with the buffer given back.\<close>

lemma cache_read:
  assumes "cache_ok H s" and "n < 1000" and "\<forall>h\<in>H. blockno (bufs s ! h) \<noteq> n" and "length (lh s) + card H < NBUF"
  shows "\<exists>b u t. bread ROOTDEV n s = Inr (b, u) \<and> brelse b u = Inr t \<and> bdata (bufs u ! b) = cdata s n
    \<and> inodes u = inodes s \<and> sb u = sb s \<and> cache_ok H t \<and> cdata t = cdata s \<and> lh t = lh s
    \<and> (\<forall>h\<in>H. blockno (bufs t ! h) = blockno (bufs s ! h) \<and> bdata (bufs t ! h) = bdata (bufs s ! h))
    \<and> inodes t = inodes s \<and> keeps s t"
proof -
  obtain b u where u: "bread ROOTDEV n s = Inr (b, u)" "b \<notin> H" "cache_ok (insert b H) u" "bdata (bufs u ! b) = cdata s n"
    "\<forall>h\<in>H. bufs u ! h = bufs s ! h" "cdata u = cdata s" "lh u = lh s" "inodes u = inodes s" "keeps s u"
    using cache_bread [OF assms] by blast
  obtain t where t: "brelse b u = Inr t" "cache_ok (insert b H - {b}) t" "cdata t = cdata u" "lh t = lh u"
    "\<forall>h. blockno (bufs t ! h) = blockno (bufs u ! h)" "\<forall>h. bdata (bufs t ! h) = bdata (bufs u ! h)"
    "inodes t = inodes u" "keeps u t"
    using cache_brelse [OF u(3)] by blast
  have "insert b H - {b} = H" using u(2) by auto
  moreover have "sb u = sb s" using u(9) by (simp add: keeps_def)
  ultimately show ?thesis using u t keeps_trans [OF u(9) t(8)] by (intro exI [of _ b] exI [of _ u] exI [of _ t]) simp
qed

text \<open>The same inside a transaction.\<close>

lemma txn_bread:
  assumes "txn H s" and "n < 1000" and "\<forall>h\<in>H. blockno (bufs s ! h) \<noteq> n" and "length (lh s) + card H < NBUF"
  shows "\<exists>b t. bread ROOTDEV n s = Inr (b, t) \<and> b \<notin> H \<and> txn (insert b H) t \<and> blockno (bufs t ! b) = n
    \<and> bdata (bufs t ! b) = cdata s n \<and> (\<forall>h\<in>H. bufs t ! h = bufs s ! h) \<and> cdata t = cdata s \<and> lh t = lh s
    \<and> inodes t = inodes s \<and> keeps s t"
  using cache_bread [OF txn_cache [OF assms(1)] assms(2-)] keeps_txn [OF assms(1)] by blast

lemma txn_brelse:
  assumes "txn H s" and "b \<in> H"
  shows "\<exists>t. brelse b s = Inr t \<and> txn (H - {b}) t \<and> cdata t = cdata s \<and> lh t = lh s
    \<and> (\<forall>h. blockno (bufs t ! h) = blockno (bufs s ! h)) \<and> (\<forall>h. bdata (bufs t ! h) = bdata (bufs s ! h))
    \<and> inodes t = inodes s \<and> keeps s t"
  using cache_brelse [OF txn_cache [OF assms(1)] assms(2)] keeps_txn [OF assms(1)] by blast

lemma txn_read:
  assumes "txn H s" and "n < 1000" and "\<forall>h\<in>H. blockno (bufs s ! h) \<noteq> n" and "length (lh s) + card H < NBUF"
  shows "\<exists>b u t. bread ROOTDEV n s = Inr (b, u) \<and> brelse b u = Inr t \<and> bdata (bufs u ! b) = cdata s n
    \<and> inodes u = inodes s \<and> sb u = sb s \<and> txn H t \<and> cdata t = cdata s \<and> lh t = lh s
    \<and> (\<forall>h\<in>H. blockno (bufs t ! h) = blockno (bufs s ! h) \<and> bdata (bufs t ! h) = bdata (bufs s ! h))
    \<and> inodes t = inodes s \<and> keeps s t"
  using cache_read [OF txn_cache [OF assms(1)] assms(2-)] keeps_txn [OF assms(1)] by blast

definition log_room :: "nat \<Rightarrow> 'a log_state_scheme \<Rightarrow> bool" where
  "log_room k s \<longleftrightarrow> length (lh s) + k < LOGSIZE \<and> int (length (lh s) + k) < logsize s"

lemma txn_write:
  assumes "txn (insert b H) u" and "b \<notin> H" and "blockno (bufs u ! b) = n" and "bdata (bufs u ! b) = d"
    and "n < 1000" and "n \<notin> log_area (logstart u)" and "log_room 1 u"
  shows "\<exists>v t. log_write b (upd_buf b (bdata_update g) u) = Inr v \<and> brelse b v = Inr t \<and> txn H t
    \<and> inodes v = inodes u \<and> sb v = sb u
    \<and> cdata t = (cdata u)(n := g d) \<and> lh t = absorb n (lh u)
    \<and> (\<forall>h\<in>H. blockno (bufs t ! h) = blockno (bufs u ! h) \<and> bdata (bufs t ! h) = bdata (bufs u ! h))
    \<and> inodes t = inodes u \<and> keeps u t"
proof -
  have r: "Suc (length (lh u)) < LOGSIZE" "int (length (lh u)) < logsize u - 1" using assms(7) by (auto simp: log_room_def)
  obtain v where v: "log_write b (upd_buf b (bdata_update g) u) = Inr v" "txn (insert b H) v"
    "cdata v = (cdata u)(n := g d)" "lh v = absorb n (lh u)"
    "\<forall>h. blockno (bufs v ! h) = blockno (bufs u ! h)" "\<forall>h. h \<noteq> b \<longrightarrow> bufs v ! h = bufs u ! h"
    "inodes v = inodes u" "keeps u v"
    using txn_log_write [OF assms(1) insertI1 _ _ r, of g] assms(3-6) by auto
  obtain t where t: "brelse b v = Inr t" "txn (insert b H - {b}) t" "cdata t = cdata v" "lh t = lh v"
    "\<forall>h. blockno (bufs t ! h) = blockno (bufs v ! h)" "\<forall>h. bdata (bufs t ! h) = bdata (bufs v ! h)"
    "inodes t = inodes v" "keeps v t"
    using txn_brelse [OF v(2) insertI1] by blast
  have "insert b H - {b} = H" using assms(2) by auto
  moreover have "sb v = sb u" using v(8) by (simp add: keeps_def)
  moreover have "bufs v ! h = bufs u ! h" if "h \<in> H" for h using that assms(2) v(6) by metis
  ultimately show ?thesis
    using v t keeps_trans [OF v(8) t(8)] by (intro exI [of _ v] exI [of _ t]) simp
qed

lemma txn_update:
  assumes "txn H s" and "n < 1000" and "\<forall>h\<in>H. blockno (bufs s ! h) \<noteq> n" and "card H \<le> 1"
    and "n \<notin> log_area (logstart s)" and "log_room 1 s"
  shows "\<exists>b u v t. bread ROOTDEV n s = Inr (b, u) \<and> log_write b (upd_buf b (bdata_update g) u) = Inr v \<and> brelse b v = Inr t
    \<and> bdata (bufs u ! b) = cdata s n \<and> inodes u = inodes s \<and> sb u = sb s \<and> inodes v = inodes s \<and> sb v = sb s
    \<and> txn H t \<and> cdata t = (cdata s)(n := g (cdata s n)) \<and> lh t = absorb n (lh s)
    \<and> (\<forall>h\<in>H. blockno (bufs t ! h) = blockno (bufs s ! h) \<and> bdata (bufs t ! h) = bdata (bufs s ! h))
    \<and> inodes t = inodes s \<and> keeps s t"
proof -
  have few: "length (lh s) + card H < NBUF" using assms(4,6) by (auto simp: log_room_def)
  obtain b u where u: "bread ROOTDEV n s = Inr (b, u)" "b \<notin> H" "txn (insert b H) u" "blockno (bufs u ! b) = n"
    "bdata (bufs u ! b) = cdata s n"
    "\<forall>h\<in>H. bufs u ! h = bufs s ! h" "cdata u = cdata s" "lh u = lh s" "inodes u = inodes s" "keeps s u"
    using txn_bread [OF assms(1-3) few] by blast
  have k: "logstart u = logstart s" "logsize u = logsize s" "sb u = sb s" using u(10) by (simp_all add: keeps_def)
  have r: "log_room 1 u" using assms(6) k u(8) by (simp add: log_room_def)
  obtain v t where t: "log_write b (upd_buf b (bdata_update g) u) = Inr v" "brelse b v = Inr t" "txn H t"
    "inodes v = inodes u" "sb v = sb u"
    "cdata t = (cdata u)(n := g (cdata s n))" "lh t = absorb n (lh u)"
    "\<forall>h\<in>H. blockno (bufs t ! h) = blockno (bufs u ! h) \<and> bdata (bufs t ! h) = bdata (bufs u ! h)"
    "inodes t = inodes u" "keeps u t"
    using txn_write [OF u(3,2,4,5) assms(2) _ r, of g] assms(5) k(1) by auto
  show ?thesis
    using u t k keeps_trans [OF u(10) t(10)]
    by (intro exI [of _ b] exI [of _ u] exI [of _ v] exI [of _ t]) simp
qed

section \<open>Allocating a block\<close>

abbreviation bitmap_block :: "'a fs_state_scheme \<Rightarrow> u32" where
  "bitmap_block s \<equiv> sb_bmapstart (sb s)"

definition is_free :: "'a fs_state_scheme \<Rightarrow> u32 \<Rightarrow> bool" where
  "is_free s a \<longleftrightarrow> unat a < unat (sb_size (sb s)) \<and> \<not> bit_set (cdata s (bitmap_block s)) (unat a)"

lemma free_bit_Some: "free_bit d bi n = Some b \<Longrightarrow> bi \<le> b \<and> b < bi + n \<and> \<not> bit_set d b"
  by (induction d bi n rule: free_bit.induct) (auto split: if_splits)

lemma free_bit_exists: "bi \<le> b \<Longrightarrow> b < bi + n \<Longrightarrow> \<not> bit_set d b \<Longrightarrow> \<exists>c. free_bit d bi n = Some c"
proof (induction d bi n rule: free_bit.induct)
  case (2 d bi n)
  then show ?case by (cases "b = bi") auto
qed simp

lemma bzero_update:
  assumes "txn H s" and "n < 1000" and "\<forall>h\<in>H. blockno (bufs s ! h) \<noteq> n" and "card H \<le> 1"
    and "n \<notin> log_area (logstart s)" and "log_room 1 s"
  shows "\<exists>t. bzero ROOTDEV n s = Inr t \<and> txn H t \<and> cdata t = (cdata s)(n := replicate BSIZE 0) \<and> lh t = absorb n (lh s)
    \<and> (\<forall>h\<in>H. blockno (bufs t ! h) = blockno (bufs s ! h) \<and> bdata (bufs t ! h) = bdata (bufs s ! h))
    \<and> inodes t = inodes s \<and> keeps s t"
  using txn_update [OF assms, of "\<lambda>_. replicate BSIZE 0"] by (auto simp: bzero_def)

lemma balloc_takes:
  assumes s: "txn H s" "card H \<le> 1" "\<forall>h\<in>H. blockno (bufs s ! h) \<noteq> bitmap_block s \<and> \<not> is_free s (blockno (bufs s ! h))"
    and bm: "bitmap_block s < 1000" "bitmap_block s \<notin> log_area (logstart s)" "unat (sb_size (sb s)) \<le> 1000"
    and free: "is_free s a" "\<forall>a. is_free s a \<longrightarrow> a \<notin> log_area (logstart s)"
    and log_room: "log_room (1 + (if bitmap_block s \<in> set (lh s) then 0 else 1)) s"
  shows "\<exists>c t. balloc ROOTDEV s = Inr (c, t) \<and> is_free s c \<and> txn H t
    \<and> cdata t = (cdata s)(bitmap_block s := mark_bit (unat c) (cdata s (bitmap_block s)), c := replicate BSIZE 0)
    \<and> lh t = absorb c (absorb (bitmap_block s) (lh s))
    \<and> (\<forall>h\<in>H. blockno (bufs t ! h) = blockno (bufs s ! h) \<and> bdata (bufs t ! h) = bdata (bufs s ! h))
    \<and> inodes t = inodes s \<and> keeps s t"
proof -
  let ?sz = "unat (sb_size (sb s))" and ?bm = "bitmap_block s"
  have sz: "0 < ?sz" using free(1) by (auto simp: is_free_def)
  have one: "map (\<lambda>k. 4096 * k) [0..<(?sz + 4095) div 4096] = [0]"
  proof -
    have "(?sz + 4095) div 4096 = 1" using sz bm(3) by auto
    then show ?thesis by simp
  qed
  obtain bi where bi: "free_bit (cdata s ?bm) 0 (min 4096 ?sz) = Some bi"
    using free_bit_exists [of 0 "unat a" "min 4096 ?sz" "cdata s ?bm"] free(1) bm(3) by (auto simp: is_free_def)
  let ?c = "of_nat bi :: u32"
  have b: "bi < ?sz" "\<not> bit_set (cdata s ?bm) bi" using free_bit_Some [OF bi] by auto
  then have uc: "unat ?c = bi" using bm(3) by (simp add: unat_of_nat)
  then have fc: "is_free s ?c" using b by (simp add: is_free_def)
  have c: "?c < 1000" using uc b(1) bm(3) by (simp add: word_less_nat_alt)
  have r1: "log_room 1 s" using log_room by (auto simp: log_room_def)
  obtain p u v w where u: "bread ROOTDEV ?bm s = Inr (p, u)" "log_write p (upd_buf p (bdata_update (mark_bit bi)) u) = Inr v"
    "brelse p v = Inr w" "bdata (bufs u ! p) = cdata s ?bm" "sb u = sb s" "txn H w"
    "cdata w = (cdata s)(?bm := mark_bit bi (cdata s ?bm))" "lh w = absorb ?bm (lh s)"
    "\<forall>h\<in>H. blockno (bufs w ! h) = blockno (bufs s ! h) \<and> bdata (bufs w ! h) = bdata (bufs s ! h)"
    "inodes w = inodes s" "keeps s w"
    using txn_update [OF s(1) bm(1) _ s(2) bm(2) r1, of "mark_bit bi"] s(3) by blast
  have k: "logstart w = logstart s" "logsize w = logsize s" using u(11) by (simp_all add: keeps_def)
  have r2: "log_room 1 w" using log_room k u(8) by (auto simp: log_room_def absorb_def split: if_splits)
  have apart: "\<forall>h\<in>H. blockno (bufs w ! h) \<noteq> ?c" using s(3) u(9) fc by auto
  have out: "?c \<notin> log_area (logstart w)" using free(2) fc k(1) by simp
  obtain t where t: "bzero ROOTDEV ?c w = Inr t" "txn H t" "cdata t = (cdata w)(?c := replicate BSIZE 0)"
    "lh t = absorb ?c (lh w)"
    "\<forall>h\<in>H. blockno (bufs t ! h) = blockno (bufs w ! h) \<and> bdata (bufs t ! h) = bdata (bufs w ! h)"
    "inodes t = inodes w" "keeps w t"
    using bzero_update [OF u(6) c apart s(2) out r2] by blast
  have "balloc ROOTDEV s = Inr (?c, t)"
    using u(1-5) bi t(1) by (simp add: balloc_def one BBLOCK_def)
  then show ?thesis
    using fc uc t u keeps_trans [OF u(11) t(7)] by (intro exI [of _ ?c] exI [of _ t]) simp
qed

section \<open>The blocks of a file\<close>

definition fblock :: "(u32 \<Rightarrow> bytes) \<Rightarrow> u32 list \<Rightarrow> nat \<Rightarrow> u32" where
  "fblock d as k =
     (if k < NDIRECT then as ! k
      else if as ! NDIRECT = 0 then 0 else get32 (d (as ! NDIRECT)) (4 * (k - NDIRECT)))"

abbreviation indirect :: "'a fs_state_scheme \<Rightarrow> nat \<Rightarrow> u32" where
  "indirect s i \<equiv> iaddrs (inodes s ! i) ! NDIRECT"

abbreviation inode_home :: "'a fs_state_scheme \<Rightarrow> nat \<Rightarrow> u32" where
  "inode_home s i \<equiv> IBLOCK (inum (inodes s ! i)) (sb s)"

text \<open>The block with the \<open>k\<close>-th 512 bytes of the file in entry \<open>i\<close>, 0 for none.\<close>

definition block_of :: "'a fs_state_scheme \<Rightarrow> nat \<Rightarrow> nat \<Rightarrow> u32" where
  "block_of s i k = fblock (cdata s) (iaddrs (inodes s ! i)) k"

definition has_block :: "'a fs_state_scheme \<Rightarrow> nat \<Rightarrow> u32 \<Rightarrow> bool" where
  "has_block s i a \<longleftrightarrow> a \<noteq> 0 \<and> (a = indirect s i \<or> (\<exists>k < 140. a = block_of s i k))"

text \<open>A block that may hold the contents of a file, outside the log, the bitmap and the inode's own block.\<close>

definition data_block :: "'a fs_state_scheme \<Rightarrow> nat \<Rightarrow> u32 \<Rightarrow> bool" where
  "data_block s i a \<longleftrightarrow> a < 1000 \<and> a \<noteq> 0 \<and> a \<notin> log_area (logstart s) \<and> a \<noteq> bitmap_block s \<and> a \<noteq> inode_home s i
     \<and> length (cdata s a) = BSIZE"

text \<open>
  The file system around the inode in entry \<open>i\<close>: the bitmap and the block of the inode are where they
  should be, and whatever the bitmap has as free may become a block of the file.
\<close>

definition layout :: "'a fs_state_scheme \<Rightarrow> nat \<Rightarrow> bool" where
  "layout s i \<longleftrightarrow> unat (sb_size (sb s)) \<le> 1000 \<and> bitmap_block s < 1000 \<and> bitmap_block s \<notin> log_area (logstart s)
     \<and> length (cdata s (bitmap_block s)) = BSIZE \<and> inode_block_ok (inum (inodes s ! i)) s
     \<and> inode_home s i \<noteq> bitmap_block s \<and> i < length (inodes s) \<and> idev (inodes s ! i) = ROOTDEV
     \<and> length (iaddrs (inodes s ! i)) = 13 \<and> (\<forall>a. is_free s a \<longrightarrow> data_block s i a)"

text \<open>The blocks of the file are in use, apart from each other and from its indirect block.\<close>

definition blocks_ok :: "'a fs_state_scheme \<Rightarrow> nat \<Rightarrow> bool" where
  "blocks_ok s i \<longleftrightarrow> (\<forall>a. has_block s i a \<longrightarrow> data_block s i a \<and> \<not> is_free s a)
     \<and> (\<forall>k < 140. \<forall>k' < 140. block_of s i k \<noteq> 0 \<and> block_of s i k = block_of s i k' \<longrightarrow> k = k')
     \<and> (\<forall>k < 140. block_of s i k \<noteq> 0 \<longrightarrow> block_of s i k \<noteq> indirect s i)"

lemma same_view:
  assumes "cdata t = cdata s" and "inodes t = inodes s" and "keeps s t"
  shows "layout t i = layout s i" "blocks_ok t i = blocks_ok s i" "block_of t i = block_of s i" "is_free t = is_free s"
proof -
  have k: "logstart t = logstart s" "sb t = sb s" using assms(3) by (simp_all add: keeps_def)
  note d = assms(1,2) k
  show f: "is_free t = is_free s" and b: "block_of t i = block_of s i" by (simp_all add: is_free_def block_of_def fun_eq_iff d)
  have db: "data_block t i a = data_block s i a" for a by (simp add: data_block_def d)
  show "layout t i = layout s i" by (simp add: layout_def inode_block_ok_def d f db)
  show "blocks_ok t i = blocks_ok s i" by (simp add: blocks_ok_def has_block_def d f db b)
qed

text \<open>After \<open>balloc\<close> the block is in use and belongs to nobody.\<close>

definition fresh :: "'a fs_state_scheme \<Rightarrow> nat \<Rightarrow> u32 \<Rightarrow> bool" where
  "fresh s i c \<longleftrightarrow> data_block s i c \<and> \<not> is_free s c \<and> \<not> has_block s i c \<and> cdata s c = replicate BSIZE 0"

lemma alloc_view:
  assumes s: "layout s i" "blocks_ok s i" and c: "is_free s c"
    and d: "cdata t = (cdata s)(bitmap_block s := mark_bit (unat c) (cdata s (bitmap_block s)), c := replicate BSIZE 0)"
    and t: "inodes t = inodes s" "keeps s t"
  shows "layout t i" "blocks_ok t i" "block_of t i = block_of s i" "fresh t i c"
    "is_free t x \<longleftrightarrow> is_free s x \<and> x \<noteq> c"
proof -
  let ?bm = "bitmap_block s"
  have k: "logstart t = logstart s" "sb t = sb s" using t(2) by (simp_all add: keeps_def)
  have cd: "data_block s i c" using s(1) c by (simp add: layout_def)
  then have cb: "c \<noteq> ?bm" "c < 1000" by (simp_all add: data_block_def)
  have bm: "cdata t ?bm = mark_bit (unat c) (cdata s ?bm)" using d cb(1) by simp
  have other: "cdata t x = cdata s x" if "x \<noteq> ?bm" "x \<noteq> c" for x using d that by simp
  have "unat c div 8 < length (cdata s ?bm)" using s(1) cb(2) by (simp add: layout_def word_less_nat_alt)
  note mark = bit_set_mark_bit [OF this]
  show f: "is_free t x \<longleftrightarrow> is_free s x \<and> x \<noteq> c" for x
  proof -
    have "unat c = unat x \<longleftrightarrow> x = c" using word_unat_eq_iff [of x c] by auto
    then show ?thesis by (auto simp: is_free_def k bm mark)
  qed
  have db: "data_block t i a" if "data_block s i a" for a
    using that d cb(1) by (auto simp: data_block_def k t(1))
  have lay: "\<not> is_free s a \<and> a \<noteq> ?bm" if "has_block s i a" for a
    using that s(2) by (auto simp: blocks_ok_def data_block_def)
  have ind: "cdata t (indirect s i) = cdata s (indirect s i)" if "indirect s i \<noteq> 0"
  proof -
    have "has_block s i (indirect s i)" using that by (simp add: has_block_def)
    then show ?thesis using lay c by (intro other) auto
  qed
  show b: "block_of t i = block_of s i"
    using ind by (auto simp: block_of_def fblock_def fun_eq_iff t(1))
  have own: "has_block t i = has_block s i" by (simp add: has_block_def fun_eq_iff b t(1))
  have ib: "inode_home s i \<noteq> c" "inode_home s i \<noteq> ?bm" using s(1) cd by (auto simp: layout_def data_block_def)
  show "layout t i"
    using s(1) f db bm other [OF ib(2,1)] by (simp add: layout_def inode_block_ok_def k t(1))
  show "blocks_ok t i"
    using s(2) f db own b unfolding blocks_ok_def by (auto simp: t(1))
  show "fresh t i c" using db [OF cd] f own lay c d by (auto simp: fresh_def)
qed

lemma attach_view:
  assumes s: "layout s i" "blocks_ok s i" and c: "fresh s i c"
    and t: "keeps s t" "is_free t = is_free s" "\<forall>a. data_block s i a \<longrightarrow> data_block t i a" "layout t i"
    and b: "\<forall>k' < 140. block_of t i k' = (if k' = k then c else block_of s i k')" "indirect t i = indirect s i"
  shows "blocks_ok t i"
proof -
  have own: "has_block s i a \<or> a = c" if "has_block t i a" for a
    using that b by (auto simp: has_block_def split: if_splits)
  have new: "c \<noteq> block_of s i k'" if "k' < 140" for k'
    using c that by (auto simp: fresh_def has_block_def data_block_def)
  have ci: "c \<noteq> indirect s i" using c by (auto simp: fresh_def has_block_def data_block_def)
  have "data_block t i a \<and> \<not> is_free t a" if "has_block t i a" for a
    using own [OF that] s(2) c t(2,3) by (auto simp: blocks_ok_def fresh_def)
  moreover have "k1 = k2" if "k1 < 140" "k2 < 140" "block_of t i k1 \<noteq> 0" "block_of t i k1 = block_of t i k2" for k1 k2
    using that b(1) new [OF that(1)] new [OF that(2)] s(2) by (auto simp: blocks_ok_def split: if_splits)
  moreover have "block_of t i k1 \<noteq> indirect t i" if "k1 < 140" "block_of t i k1 \<noteq> 0" for k1
    using that b ci s(2) by (auto simp: blocks_ok_def split: if_splits)
  ultimately show ?thesis unfolding blocks_ok_def by blast
qed

text \<open>
  The entries that the log has or may still get for the bitmap and for the indirect block of the file, and the
  blocks that are free.
\<close>

definition log_need :: "'a fs_state_scheme \<Rightarrow> nat \<Rightarrow> nat" where
  "log_need s i = length (lh s) + (if bitmap_block s \<in> set (lh s) then 0 else 1)
     + (if indirect s i \<noteq> 0 \<and> indirect s i \<in> set (lh s) then 0 else 1)"

definition free_blocks :: "'a fs_state_scheme \<Rightarrow> nat" where
  "free_blocks s = card {a. is_free s a}"

definition log_fits :: "nat \<Rightarrow> 'a fs_state_scheme \<Rightarrow> bool" where
  "log_fits n s \<longleftrightarrow> n + 1 < LOGSIZE \<and> int n + 1 < logsize s"

definition same_inode :: "nat \<Rightarrow> 'a fs_state_scheme \<Rightarrow> 'a fs_state_scheme \<Rightarrow> bool" where
  "same_inode i s t \<longleftrightarrow> (\<exists>as. inodes t = (inodes s)[i := (inodes s ! i)\<lparr>iaddrs := as\<rparr>])"

text \<open>What \<open>bmap\<close> comes back with for block \<open>k\<close> of the file: the block \<open>a\<close>.\<close>

definition mapped :: "nat \<Rightarrow> nat \<Rightarrow> u32 \<Rightarrow> 'a fs_state_scheme \<Rightarrow> 'a fs_state_scheme \<Rightarrow> bool" where
  "mapped i k a s t \<longleftrightarrow> txn {} t \<and> layout t i \<and> blocks_ok t i \<and> keeps s t \<and> same_inode i s t \<and> a \<noteq> 0
     \<and> (\<forall>k' < 140. block_of t i k' = (if k' = k then a else block_of s i k'))
     \<and> (block_of s i k \<noteq> 0 \<longrightarrow> cdata t = cdata s \<and> inodes t = inodes s \<and> lh t = lh s)
     \<and> (block_of s i k = 0 \<longrightarrow> is_free s a \<and> cdata t a = replicate BSIZE 0)
     \<and> (\<forall>x. \<not> is_free s x \<and> x \<noteq> bitmap_block s \<and> (x \<noteq> indirect s i \<or> x = 0) \<longrightarrow> cdata t x = cdata s x)
     \<and> (\<forall>x. is_free t x \<longrightarrow> is_free s x) \<and> (\<forall>x. has_block t i x \<longrightarrow> has_block s i x \<or> is_free s x)
     \<and> (indirect s i \<noteq> 0 \<longrightarrow> indirect t i = indirect s i)
     \<and> log_need t i + (if a \<in> set (lh t) then 0 else 1) \<le> log_need s i + 1
     \<and> (block_of s i k = 0 \<longrightarrow> free_blocks s + (if indirect t i = 0 then 1 else 0) \<le> free_blocks t + 1 + (if indirect s i = 0 then 1 else 0))"

lemma log_fits_room: "log_fits n s \<Longrightarrow> length (lh t) \<le> n \<Longrightarrow> logsize t = logsize s \<Longrightarrow> log_room 1 t"
  by (simp add: log_fits_def log_room_def)

lemma log_need_le: "length (lh s) \<le> log_need s i"
  by (simp add: log_need_def)

lemma same_inode_refl [simp]: "same_inode i s s"
  unfolding same_inode_def by (rule exI [of _ "iaddrs (inodes s ! i)"]) simp

lemma free_blocks_minus:
  assumes "\<And>x. is_free t x \<longleftrightarrow> is_free s x \<and> x \<noteq> c" and "is_free s c"
  shows "free_blocks s = free_blocks t + 1"
proof -
  have "{a. is_free s a} = insert c {a. is_free t a}" using assms by auto
  moreover have "c \<notin> {a. is_free t a}" using assms(1) by simp
  ultimately show ?thesis unfolding free_blocks_def by (simp add: finite_code)
qed

lemma mapped_refl:
  assumes "txn {} s" and "layout s i" and "blocks_ok s i" and "block_of s i k = a" and "a \<noteq> 0"
  shows "mapped i k a s s"
  using assms by (auto simp: mapped_def)

lemma balloc_view:
  assumes s: "txn H s" "card H \<le> 1" "\<forall>h\<in>H. has_block s i (blockno (bufs s ! h))"
    and l: "layout s i" "blocks_ok s i" and free: "is_free s a"
    and log_room: "log_fits (log_need s i + 1) s"
  shows "\<exists>c t. balloc ROOTDEV s = Inr (c, t) \<and> is_free s c \<and> txn H t \<and> layout t i \<and> blocks_ok t i \<and> block_of t i = block_of s i
    \<and> fresh t i c \<and> (\<forall>x. is_free t x \<longleftrightarrow> is_free s x \<and> x \<noteq> c) \<and> lh t = absorb c (absorb (bitmap_block s) (lh s))
    \<and> (\<forall>x. x \<noteq> c \<and> x \<noteq> bitmap_block s \<longrightarrow> cdata t x = cdata s x)
    \<and> (\<forall>h\<in>H. blockno (bufs t ! h) = blockno (bufs s ! h) \<and> bdata (bufs t ! h) = bdata (bufs s ! h))
    \<and> inodes t = inodes s \<and> keeps s t \<and> log_need t i \<le> log_need s i + 1 \<and> c \<in> set (lh t)"
proof -
  have held: "\<forall>h\<in>H. blockno (bufs s ! h) \<noteq> bitmap_block s \<and> \<not> is_free s (blockno (bufs s ! h))"
    using s(3) l(2) by (auto simp: blocks_ok_def data_block_def)
  have bm: "bitmap_block s < 1000" "bitmap_block s \<notin> log_area (logstart s)" "unat (sb_size (sb s)) \<le> 1000"
    and dat: "\<forall>a. is_free s a \<longrightarrow> a \<notin> log_area (logstart s)"
    using l(1) by (auto simp: layout_def data_block_def)
  have r: "log_room (1 + (if bitmap_block s \<in> set (lh s) then 0 else 1)) s"
    using log_room by (auto simp: log_fits_def log_room_def log_need_def)
  obtain c t where t: "balloc ROOTDEV s = Inr (c, t)" "is_free s c" "txn H t"
    "cdata t = (cdata s)(bitmap_block s := mark_bit (unat c) (cdata s (bitmap_block s)), c := replicate BSIZE 0)"
    "lh t = absorb c (absorb (bitmap_block s) (lh s))"
    "\<forall>h\<in>H. blockno (bufs t ! h) = blockno (bufs s ! h) \<and> bdata (bufs t ! h) = bdata (bufs s ! h)"
    "inodes t = inodes s" "keeps s t"
    using balloc_takes [OF s(1,2) held bm free dat r] by blast
  note v = alloc_view [OF l t(2,4,7,8)]
  have k: "sb t = sb s" using t(8) by (simp add: keeps_def)
  have need: "log_need t i \<le> log_need s i + 1"
    by (simp add: log_need_def k t(5,7)) (auto simp: absorb_def)
  have other: "\<forall>x. x \<noteq> c \<and> x \<noteq> bitmap_block s \<longrightarrow> cdata t x = cdata s x" by (simp add: t(4))
  show ?thesis
    using t(1-3,5-8) v need other by (intro exI [of _ c] exI [of _ t] conjI) (simp_all add: t(5))
qed

text \<open>The three places where a new block is entered.\<close>

lemma get32_zero: "4 * j + 4 \<le> BSIZE \<Longrightarrow> get32 (replicate BSIZE 0) (4 * j) = 0"
  by (simp add: get32_def le32_def)

lemma upd_addrs_view:
  assumes "i < length (inodes s)" and t: "t = upd_inode i (iaddrs_update (\<lambda>xs. xs[j := c])) s"
  shows "is_free t = is_free s" "data_block t i = data_block s i" "layout t i = layout s i" "keeps s t" "cdata t = cdata s"
    "iaddrs (inodes t ! i) = (iaddrs (inodes s ! i))[j := c]" "same_inode i s t" "lh t = lh s" "txn H t = txn H s"
    "sb t = sb s" "inode_home t i = inode_home s i"
proof -
  show f: "is_free t = is_free s" by (simp add: t is_free_def fun_eq_iff)
  show d: "data_block t i = data_block s i" using assms(1) by (simp add: t data_block_def fun_eq_iff)
  show "layout t i = layout s i" unfolding layout_def f d using assms(1) by (simp add: t inode_block_ok_def)
  show "iaddrs (inodes t ! i) = (iaddrs (inodes s ! i))[j := c]" using assms(1) by (simp add: t)
  show "same_inode i s t" unfolding same_inode_def t
    by (rule exI [of _ "(iaddrs (inodes s ! i))[j := c]"], cases "inodes s ! i") simp
  show "inode_home t i = inode_home s i" using assms(1) by (simp add: t)
qed (simp_all add: t)

lemma attach_direct:
  assumes s: "layout s i" "blocks_ok s i" "fresh s i c" and j: "j < NDIRECT"
    and t: "t = upd_inode i (iaddrs_update (\<lambda>xs. xs[j := c])) s"
  shows "blocks_ok t i" "\<forall>k' < 140. block_of t i k' = (if k' = j then c else block_of s i k')" "indirect t i = indirect s i"
proof -
  have i: "i < length (inodes s)" "length (iaddrs (inodes s ! i)) = 13" using s(1) by (simp_all add: layout_def)
  note v = upd_addrs_view [OF i(1) t]
  show b: "\<forall>k' < 140. block_of t i k' = (if k' = j then c else block_of s i k')" "indirect t i = indirect s i"
    using i(2) j by (auto simp: block_of_def fblock_def v(5,6))
  show "blocks_ok t i" using attach_view [OF s v(4,1) _ _ b] v(2,3) s(1) by simp
qed

lemma attach_indirect:
  assumes s: "layout s i" "blocks_ok s i" "fresh s i c" and ind: "indirect s i = 0"
    and t: "t = upd_inode i (iaddrs_update (\<lambda>xs. xs[NDIRECT := c])) s"
  shows "blocks_ok t i" "\<forall>k' < 140. block_of t i k' = block_of s i k'" "indirect t i = c"
proof -
  have i: "i < length (inodes s)" "length (iaddrs (inodes s ! i)) = 13" using s(1) by (simp_all add: layout_def)
  note v = upd_addrs_view [OF i(1) t]
  have z: "cdata s c = replicate BSIZE 0" using s(3) by (simp add: fresh_def)
  show b: "\<forall>k' < 140. block_of t i k' = block_of s i k'" and t12: "indirect t i = c"
    using i(2) ind z get32_zero by (auto simp: block_of_def fblock_def v(5,6))
  have own: "has_block s i a \<or> a = c" if "has_block t i a" for a
    using that b t12 by (auto simp: has_block_def)
  have new: "block_of s i k' \<noteq> c" if "k' < 140" for k'
    using s(3) that by (auto simp: fresh_def has_block_def data_block_def)
  show "blocks_ok t i"
    unfolding blocks_ok_def v(1,2) using s(2,3) own b t12 new by (auto simp: blocks_ok_def fresh_def)
qed

lemma attach_entry:
  assumes s: "layout s i" "blocks_ok s i" "fresh s i c" and ind: "indirect s i \<noteq> 0" and j: "j < NINDIRECT"
    and t: "cdata t = (cdata s)(indirect s i := put32 (4 * j) c (cdata s (indirect s i)))" "inodes t = inodes s" "keeps s t"
  shows "blocks_ok t i" "\<forall>k' < 140. block_of t i k' = (if k' = NDIRECT + j then c else block_of s i k')" "layout t i"
    "is_free t = is_free s"
proof -
  have k: "logstart t = logstart s" "sb t = sb s" using t(3) by (simp_all add: keeps_def)
  have own: "has_block s i (indirect s i)" using ind by (simp add: has_block_def)
  then have id: "data_block s i (indirect s i)" "\<not> is_free s (indirect s i)" using s(2) by (auto simp: blocks_ok_def)
  then have ne: "indirect s i \<noteq> bitmap_block s" "indirect s i \<noteq> inode_home s i" and len: "length (cdata s (indirect s i)) = BSIZE"
    by (simp_all add: data_block_def)
  have bm: "cdata t (bitmap_block s) = cdata s (bitmap_block s)" "cdata t (inode_home s i) = cdata s (inode_home s i)"
    using t(1) ne by simp_all
  show f: "is_free t = is_free s" by (simp add: is_free_def fun_eq_iff k bm)
  have d: "data_block t i a = data_block s i a" for a using len by (simp add: data_block_def t k)
  show lay: "layout t i" using s(1) by (simp add: layout_def inode_block_ok_def t(2) k bm d f)
  have entry: "get32 (put32 (4 * j) c (cdata s (indirect s i))) (4 * m) =
      (if m = j then c else get32 (cdata s (indirect s i)) (4 * m))" if "m < 128" for m
  proof (cases "m = j")
    case False
    then have "4 * j + 4 \<le> 4 * m \<or> 4 * m + 4 \<le> 4 * j" by linarith
    then show ?thesis using False by (simp add: get32_put32_other)
  qed (use j len in simp)
  show b: "\<forall>k' < 140. block_of t i k' = (if k' = NDIRECT + j then c else block_of s i k')"
    using ind by (auto simp: block_of_def fblock_def t(1,2) entry)
  show "blocks_ok t i" using attach_view [OF s t(3) f _ lay b] d t(2) by simp
qed

section \<open>bmap\<close>

lemma same_inode_trans: "same_inode i s t \<Longrightarrow> same_inode i t u \<Longrightarrow> i < length (inodes s) \<Longrightarrow> same_inode i s u"
  unfolding same_inode_def by (elim exE) (simp add: list_update_overwrite, blast)

lemma free_blocks_pos: "0 < free_blocks s \<Longrightarrow> \<exists>a. is_free s a"
  unfolding free_blocks_def by (metis (mono_tags, lifting) Collect_empty_eq card.empty less_irrefl)

lemma layoutD:
  assumes "layout s i"
  shows "idev (inodes s ! i) = ROOTDEV" "i < length (inodes s)" "length (iaddrs (inodes s ! i)) = 13"
  using assms by (simp_all add: layout_def)

lemma has_block_from:
  assumes "\<forall>k < 140. block_of t i k = block_of s i k \<or> is_free s (block_of t i k)"
    and "indirect t i = indirect s i \<or> is_free s (indirect t i)" and "has_block t i x"
  shows "has_block s i x \<or> is_free s x"
  using assms by (auto simp: has_block_def)

lemma bmap_direct:
  assumes s: "txn {} s" "layout s i" "blocks_ok s i" and k: "k < NDIRECT" "unat bn = k"
    and free: "block_of s i k = 0 \<Longrightarrow> 0 < free_blocks s" and log_room: "log_fits (log_need s i + 1) s"
  shows "\<exists>a t. bmap i bn s = Inr (a, t) \<and> mapped i k a s t"
proof (cases "block_of s i k = 0")
  case False
  then have "bmap i bn s = Inr (block_of s i k, s)"
    using k by (simp add: bmap_def block_of_def fblock_def)
  then show ?thesis using mapped_refl [OF s refl False] by blast
next
  case True
  then obtain x where x: "is_free s x" using free free_blocks_pos by blast
  obtain c u where u: "balloc ROOTDEV s = Inr (c, u)" "is_free s c" "txn {} u" "layout u i" "blocks_ok u i"
    "block_of u i = block_of s i" "fresh u i c" "\<forall>x. is_free u x \<longleftrightarrow> is_free s x \<and> x \<noteq> c"
    "lh u = absorb c (absorb (bitmap_block s) (lh s))"
    "\<forall>x. x \<noteq> c \<and> x \<noteq> bitmap_block s \<longrightarrow> cdata u x = cdata s x" "inodes u = inodes s" "keeps s u"
    "log_need u i \<le> log_need s i + 1" "c \<in> set (lh u)"
    using balloc_view [OF s(1) _ _ s(2,3) x log_room] by auto
  define t where "t = upd_inode i (iaddrs_update (\<lambda>xs. xs[k := c])) u"
  note v = upd_addrs_view [OF layoutD(2) [OF u(4)] t_def]
  note a = attach_direct [OF u(4,5,7) k(1) t_def]
  have b: "bmap i bn s = Inr (c, t)"
    using True k u(1) layoutD(1) [OF s(2)] by (simp add: bmap_def block_of_def fblock_def t_def)
  have c: "c \<noteq> 0" "cdata u c = replicate BSIZE 0" using u(7) by (auto simp: fresh_def data_block_def)
  have "same_inode i s u" unfolding same_inode_def u(11) by (rule exI [of _ "iaddrs (inodes s ! i)"]) simp
  then have same: "same_inode i s t" by (rule same_inode_trans [OF _ v(7) layoutD(2) [OF s(2)]])
  have fr: "free_blocks s = free_blocks t + 1" by (rule free_blocks_minus [OF _ u(2)]) (simp add: v(1) u(8))
  have need: "log_need t i \<le> log_need s i + 1" using u(13) by (simp add: log_need_def v(8,10) a(3))
  have ind: "indirect t i = indirect s i" by (simp add: a(3) u(11))
  have keeps: "keeps s t" using keeps_trans [OF u(12) v(4)] .
  have own: "has_block s i x \<or> is_free s x" if "has_block t i x" for x
    by (rule has_block_from [OF _ _ that]) (use a(2) u(2,6) ind in auto)
  have frame: "cdata u x = cdata s x" if "\<not> is_free s x" "x \<noteq> bitmap_block s" for x
  proof -
    have "x \<noteq> c" using that(1) u(2) by blast
    then show ?thesis using that(2) u(10) by simp
  qed
  have "mapped i k c s t"
    unfolding mapped_def
    using own u(3,4) a(1,2) keeps same c True u(2,6,8,14) frame fr need ind by (auto simp: v(1,3,5,8,9))
  then show ?thesis using b by blast
qed

text \<open>The part of \<open>bmap\<close> behind a block of numbers that is there.\<close>

definition entry_block :: "nat \<Rightarrow> nat \<Rightarrow> 'a fs_state_scheme \<Rightarrow> stop + (u32 \<times> 'a fs_state_scheme)" where
  "entry_block i j s =
     bindE (bread ROOTDEV (indirect s i) s) (\<lambda>(bp, s).
          bindE (let a = get32 (bdata (bufs s ! bp)) (4 * j) in
                 if a = 0 then
                   bindE (balloc (idev (inodes s ! i)) s) (\<lambda>(a, s).
                   bindE (log_write bp (upd_buf bp (bdata_update (put32 (4 * j) a)) s)) (\<lambda>s.
                   Inr (a, s)))
                 else Inr (a, s)) (\<lambda>(a, s).
          bindE (brelse bp s) (\<lambda>s. Inr (a, s))))"

lemma bmap_entry:
  assumes s: "txn {} s" "layout s i" "blocks_ok s i" and k: "k = NDIRECT + j" "j < NINDIRECT" and ind: "indirect s i \<noteq> 0"
    and free: "block_of s i k = 0 \<Longrightarrow> 0 < free_blocks s" and log_room: "log_fits (log_need s i + 1) s"
  shows "\<exists>a t. entry_block i j s = Inr (a, t) \<and> mapped i k a s t"
proof -
  let ?ind = "indirect s i"
  have own: "has_block s i ?ind" using ind by (simp add: has_block_def)
  then have dat: "data_block s i ?ind" "\<not> is_free s ?ind" using s(3) by (auto simp: blocks_ok_def)
  have e: "block_of s i k = get32 (cdata s ?ind) (4 * j)" using k ind by (simp add: block_of_def fblock_def)
  have n: "?ind < 1000" "?ind \<notin> log_area (logstart s)" using dat(1) by (simp_all add: data_block_def)
  have few: "length (lh s) + card ({} :: nat set) < NBUF"
    using log_room log_need_le [of s i] by (simp add: log_fits_def)
  show ?thesis
  proof (cases "block_of s i k = 0")
    case False
    obtain p u t where u: "bread ROOTDEV ?ind s = Inr (p, u)" "brelse p u = Inr t" "bdata (bufs u ! p) = cdata s ?ind"
      "txn {} t" "cdata t = cdata s" "lh t = lh s" "inodes t = inodes s" "keeps s t"
      using txn_read [OF s(1) n(1) _ few] by auto
    note v = same_view [OF u(5,7,8)]
    have "sb t = sb s" using u(8) by (simp add: keeps_def)
    then have need: "log_need t i = log_need s i" by (simp add: log_need_def u(6,7))
    have "same_inode i s t" unfolding same_inode_def u(7) by (rule exI [of _ "iaddrs (inodes s ! i)"]) simp
    moreover have "has_block t i = has_block s i" by (simp add: has_block_def fun_eq_iff v u(7))
    ultimately have "mapped i k (block_of s i k) s t"
      using u s(2,3) v False need by (auto simp: mapped_def free_blocks_def)
    then show ?thesis using u(1-3) e False by (intro exI [of _ "block_of s i k"] exI [of _ t]) (simp add: entry_block_def)
  next
    case True
    obtain p u where u: "bread ROOTDEV ?ind s = Inr (p, u)" "txn {p} u" "blockno (bufs u ! p) = ?ind"
      "bdata (bufs u ! p) = cdata s ?ind" "cdata u = cdata s" "lh u = lh s" "inodes u = inodes s" "keeps s u"
      using txn_bread [OF s(1) n(1) _ few] by auto
    note v = same_view [OF u(5,7,8)]
    have ku: "sb u = sb s" "logsize u = logsize s" "logstart u = logstart s" using u(8) by (simp_all add: keeps_def)
    have need: "log_need u i = log_need s i" by (simp add: log_need_def u(6,7) ku)
    obtain x where x: "is_free u x" using True free free_blocks_pos v(4) by metis
    have room_u: "log_fits (log_need u i + 1) u" using log_room by (simp add: need log_fits_def ku)
    have own_u: "\<forall>h\<in>{p}. has_block u i (blockno (bufs u ! h))" using ind by (simp add: has_block_def u(3,7))
    obtain c w where w: "balloc ROOTDEV u = Inr (c, w)" "is_free u c" "txn {p} w" "layout w i" "blocks_ok w i"
      "block_of w i = block_of u i" "fresh w i c" "\<forall>x. is_free w x \<longleftrightarrow> is_free u x \<and> x \<noteq> c"
      "lh w = absorb c (absorb (bitmap_block u) (lh u))"
      "\<forall>x. x \<noteq> c \<and> x \<noteq> bitmap_block u \<longrightarrow> cdata w x = cdata u x"
      "\<forall>h\<in>{p}. blockno (bufs w ! h) = blockno (bufs u ! h) \<and> bdata (bufs w ! h) = bdata (bufs u ! h)"
      "inodes w = inodes u" "keeps u w" "log_need w i \<le> log_need u i + 1" "c \<in> set (lh w)"
      using balloc_view [OF u(2) _ own_u _ _ x room_u] s(2,3) v(1,2) by auto
    have kw: "sb w = sb s" "logsize w = logsize s" "logstart w = logstart s" using w(13) ku by (simp_all add: keeps_def)
    have pw: "blockno (bufs w ! p) = ?ind" "bdata (bufs w ! p) = cdata s ?ind" using w(11) u(3,4) by simp_all
    have cw: "cdata w ?ind = cdata s ?ind"
      using w(2,10) dat v(4) by (auto simp: u(5) ku data_block_def)
    have "log_fits (log_need s i + 1) w" using log_room by (simp add: log_fits_def kw)
    then have rw: "log_room 1 w"
      using log_fits_room [of "log_need s i + 1" w w] log_need_le [of w i] w(14) need by linarith
    have nw: "?ind \<notin> log_area (logstart w)" using n(2) kw by simp
    obtain y t where t: "log_write p (upd_buf p (bdata_update (put32 (4 * j) c)) w) = Inr y" "brelse p y = Inr t" "txn {} t"
      "cdata t = (cdata w)(?ind := put32 (4 * j) c (cdata s ?ind))" "lh t = absorb ?ind (lh w)" "inodes t = inodes w" "keeps w t"
      using txn_write [OF w(3) _ pw n(1) nw rw, of "put32 (4 * j) c"] by auto
    have iw: "indirect w i = ?ind" by (simp add: w(12) u(7))
    have ct: "cdata t = (cdata w)(indirect w i := put32 (4 * j) c (cdata w (indirect w i)))" by (simp add: t(4) iw cw)
    note a = attach_entry [OF w(4,5,7) _ k(2) ct t(6,7)]
    have kt: "keeps s t" using keeps_trans [OF u(8) keeps_trans [OF w(13) t(7)]] .
    then have "sb t = sb s" by (simp add: keeps_def)
    have need_t: "log_need t i \<le> log_need s i + 1"
      using ind by (simp add: log_need_def t(5,6) w(9,12) u(6,7) ku \<open>sb t = sb s\<close>) (auto simp: absorb_def)
    have it: "inodes t = inodes s" by (simp add: t(6) w(12) u(7))
    have same: "same_inode i s t" unfolding same_inode_def it by (rule exI [of _ "iaddrs (inodes s ! i)"]) simp
    have c: "c \<noteq> 0" "cdata w c = replicate BSIZE 0" "is_free s c" "c \<noteq> ?ind"
      using w(2,7) dat(2) v(4) by (auto simp: fresh_def data_block_def)
    have fr: "free_blocks s = free_blocks t + 1"
      using a(4) w(8) v(4) ind iw by (intro free_blocks_minus [OF _ c(3)]) auto
    have frame: "cdata w x = cdata s x" if "\<not> is_free s x" "x \<noteq> bitmap_block s" for x
    proof -
      have "x \<noteq> c" using that(1) c(3) by blast
      then show ?thesis using that(2) w(10) by (simp add: u(5) ku)
    qed
    have own: "has_block s i x \<or> is_free s x" if "has_block t i x" for x
      by (rule has_block_from [OF _ _ that]) (use a(2) w(6) v(3) c(3) it iw ind in auto)
    have "mapped i k c s t"
      unfolding mapped_def
      using own t(3) a ind iw kt same c True w(6,8) frame v(3,4) k fr need_t
      by (auto simp: it t(4,5) w(9) u(5,6) ku)
    moreover have "bdata (bufs u ! p) = cdata s ?ind" "idev (inodes u ! i) = ROOTDEV"
      using u(4,7) layoutD(1) [OF s(2)] by simp_all
    ultimately show ?thesis
      using u(1) w(1) t(1,2) e True by (intro exI [of _ c] exI [of _ t]) (simp add: entry_block_def)
  qed
qed

text \<open>
  \<open>bmap\<close> finds or makes block \<open>k\<close>; if it has to make it, a new block is taken, and one more for the indirect
  block if that is missing as well. Nothing else of the file changes.
\<close>

lemma bmap_ok:
  assumes s: "txn {} s" "layout s i" "blocks_ok s i" and k: "k < 140" "unat bn = k"
    and free: "block_of s i k = 0 \<Longrightarrow> 1 + (if indirect s i = 0 then 1 else 0) \<le> free_blocks s"
    and log_room: "log_fits (log_need s i + 1) s"
  shows "\<exists>a t. bmap i bn s = Inr (a, t) \<and> mapped i k a s t"
proof (cases "k < NDIRECT")
  case True
  show ?thesis by (rule bmap_direct [OF s True k(2) _ log_room]) (use free in auto)
next
  case False
  define j where "j = k - NDIRECT"
  have j: "k = NDIRECT + j" "j < NINDIRECT" using False k(1) by (simp_all add: j_def)
  have idx: "\<not> unat bn < NDIRECT" "unat bn - NDIRECT < NINDIRECT" "unat bn - NDIRECT = j" using j k(2) by auto
  show ?thesis
  proof (cases "indirect s i = 0")
    case False
    have "bmap i bn s = entry_block i j s"
      using False idx layoutD(1) [OF s(2)] by (simp add: bmap_def entry_block_def)
    then show ?thesis using bmap_entry [OF s j False _ log_room] free False by fastforce
  next
    case ind: True
    have z: "block_of s i k = 0" using False ind by (simp add: block_of_def fblock_def)
    then have two: "2 \<le> free_blocks s" using free ind by simp
    then obtain x where x: "is_free s x" using free_blocks_pos [of s] by auto
    obtain c u where u: "balloc ROOTDEV s = Inr (c, u)" "is_free s c" "txn {} u" "layout u i" "blocks_ok u i"
      "block_of u i = block_of s i" "fresh u i c" "\<forall>x. is_free u x \<longleftrightarrow> is_free s x \<and> x \<noteq> c"
      "lh u = absorb c (absorb (bitmap_block s) (lh s))"
      "\<forall>x. x \<noteq> c \<and> x \<noteq> bitmap_block s \<longrightarrow> cdata u x = cdata s x" "inodes u = inodes s" "keeps s u"
      "log_need u i \<le> log_need s i + 1" "c \<in> set (lh u)"
      using balloc_view [OF s(1) _ _ s(2,3) x log_room] by auto
    have iu: "indirect u i = 0" by (simp add: u(11) ind)
    define v where "v = upd_inode i (iaddrs_update (\<lambda>xs. xs[NDIRECT := c])) u"
    note v = upd_addrs_view [OF layoutD(2) [OF u(4)] v_def]
    note a = attach_indirect [OF u(4,5,7) iu v_def]
    have ku: "sb u = sb s" "logsize u = logsize s" using u(12) by (simp_all add: keeps_def)
    have kv: "sb v = sb s" "logsize v = logsize s" using v(4) ku by (simp_all add: keeps_def)
    have c: "c \<noteq> 0" using u(7) by (simp add: fresh_def data_block_def)
    have sv: "txn {} v" "layout v i" using u(3,4) v(3,9) by simp_all
    have need: "log_need v i \<le> log_need s i"
      using c u(14) by (simp add: log_need_def v(8) kv a(3) ind) (auto simp: u(9) absorb_def)
    have fr: "free_blocks s = free_blocks v + 1" by (rule free_blocks_minus [OF _ u(2)]) (simp add: v(1) u(8))
    have iv: "indirect v i \<noteq> 0" using a(3) c by simp
    have room_v: "log_fits (log_need v i + 1) v" using log_room need by (simp add: log_fits_def kv)
    have fv: "0 < free_blocks v" using fr two by simp
    have dev: "idev (inodes u ! i) = ROOTDEV" "idev (inodes s ! i) = ROOTDEV" "idev (inodes v ! i) = ROOTDEV"
      using layoutD(1) u(4) s(2) sv(2) by blast+
    have run: "bmap i bn s = entry_block i j v"
      using ind idx dev u(1) a(3) by (simp add: bmap_def entry_block_def flip: v_def)
    obtain b t where t: "bmap i bn s = Inr (b, t)" "mapped i k b v t"
      using bmap_entry [OF sv a(1) j iv _ room_v] fv run by auto
    have zv: "block_of v i k = 0" using a(2) k(1) u(6) z by simp
    note m = t(2) [unfolded mapped_def]
    have it: "indirect t i = c" using m iv a(3) by simp
    have free_v: "is_free v y \<longleftrightarrow> is_free s y \<and> y \<noteq> c" for y by (simp add: v(1) u(8))
    have "same_inode i s u" unfolding same_inode_def u(11) by (rule exI [of _ "iaddrs (inodes s ! i)"]) simp
    then have same: "same_inode i s t"
      using same_inode_trans v(7) m layoutD(2) [OF s(2)] layoutD(2) [OF u(4)] by metis
    have keeps: "keeps s t" using keeps_trans [OF u(12) keeps_trans [OF v(4)]] m by blast
    have frame: "cdata t y = cdata s y" if "\<not> is_free s y" "y \<noteq> bitmap_block s" for y
    proof -
      have "y \<noteq> c" using that(1) u(2) by blast
      then have "cdata v y = cdata s y" using that(2) u(10) by (simp add: v(5))
      moreover have "cdata t y = cdata v y" using m that \<open>y \<noteq> c\<close> free_v a(3) kv(1) by simp
      ultimately show ?thesis by simp
    qed
    have own: "has_block s i y \<or> is_free s y" if "has_block t i y" for y
    proof (rule has_block_from [OF _ _ that])
      show "\<forall>k < 140. block_of t i k = block_of s i k \<or> is_free s (block_of t i k)"
        using m a(2) u(6) zv free_v by auto
      show "indirect t i = indirect s i \<or> is_free s (indirect t i)" using it u(2) by simp
    qed
    have "mapped i k b s t"
      unfolding mapped_def
      using own m same keeps frame z zv a(2) u(6) free_v ind need fr it c k(1) iv by auto
    then show ?thesis using t(1) by blast
  qed
qed

section \<open>Writing\<close>

definition file_byte :: "'a fs_state_scheme \<Rightarrow> nat \<Rightarrow> nat \<Rightarrow> u8" where
  "file_byte s i p = cdata s (block_of s i (p div BSIZE)) ! (p mod BSIZE)"

text \<open>The contents of one block of the file replaced.\<close>

lemma update_block_view:
  assumes s: "layout s i" "blocks_ok s i" and k: "k < 140" "a = block_of s i k" "a \<noteq> 0" and d: "length d = BSIZE"
    and t: "cdata t = (cdata s)(a := d)" "inodes t = inodes s" "keeps s t"
  shows "layout t i" "blocks_ok t i" "is_free t = is_free s" "\<And>k'. block_of t i k' = block_of s i k'"
proof -
  have g: "logstart t = logstart s" "sb t = sb s" using t(3) by (simp_all add: keeps_def)
  have "has_block s i a" using k by (auto simp: has_block_def)
  then have a: "data_block s i a" "a \<noteq> indirect s i" using s(2) k by (auto simp: blocks_ok_def)
  then have ne: "a \<noteq> bitmap_block s" "a \<noteq> inode_home s i" by (simp_all add: data_block_def)
  show f: "is_free t = is_free s" using ne by (simp add: is_free_def fun_eq_iff g t(1))
  show b: "block_of t i k' = block_of s i k'" for k' using a(2) by (simp add: block_of_def fblock_def t(1,2))
  have db: "data_block t i x = data_block s i x" for x using d a(1) by (simp add: data_block_def g t(1,2))
  show "layout t i" using s(1) ne by (simp add: layout_def inode_block_ok_def g t(1,2) f db)
  show "blocks_ok t i" using s(2) unfolding blocks_ok_def has_block_def t(2) f db b .
qed

text \<open>The bytes \<open>src\<close> have been written to the file from \<open>off\<close> on, and nothing else has changed.\<close>

definition wrote_at :: "nat \<Rightarrow> nat \<Rightarrow> bytes \<Rightarrow> 'a fs_state_scheme \<Rightarrow> 'a fs_state_scheme \<Rightarrow> bool" where
  "wrote_at i off src s t \<longleftrightarrow> txn {} t \<and> layout t i \<and> blocks_ok t i \<and> keeps s t \<and> same_inode i s t
     \<and> (\<forall>k < 140. block_of s i k \<noteq> 0 \<longrightarrow> block_of t i k = block_of s i k)
     \<and> (\<forall>p. off \<le> p \<and> p < off + length src \<longrightarrow> block_of t i (p div BSIZE) \<noteq> 0 \<and> file_byte t i p = src ! (p - off))
     \<and> (\<forall>p < 140 * BSIZE. block_of s i (p div BSIZE) \<noteq> 0 \<and> (p < off \<or> off + length src \<le> p) \<longrightarrow>
          file_byte t i p = file_byte s i p)
     \<and> (\<forall>x. \<not> is_free s x \<and> \<not> has_block s i x \<and> x \<noteq> bitmap_block s \<longrightarrow> cdata t x = cdata s x)
     \<and> (\<forall>x. is_free t x \<longrightarrow> is_free s x) \<and> (\<forall>x. has_block t i x \<longrightarrow> has_block s i x \<or> is_free s x)"

lemma wrote_at_refl: "txn {} s \<Longrightarrow> layout s i \<Longrightarrow> blocks_ok s i \<Longrightarrow> wrote_at i off [] s s"
  by (auto simp: wrote_at_def)

lemma wrote_at_append:
  assumes st: "wrote_at i off x s t" and tu: "wrote_at i (off + length x) y t u"
    and n: "off + length x + length y \<le> 140 * BSIZE" and i: "i < length (inodes s)"
  shows "wrote_at i off (x @ y) s u"
proof -
  note a = st [unfolded wrote_at_def] and b = tu [unfolded wrote_at_def]
  have idx: "p div BSIZE < 140" if "p < 140 * BSIZE" for p using that by auto
  have kb: "bitmap_block t = bitmap_block s" using a by (simp add: keeps_def)
  have k: "keeps s t" "same_inode i s t" "keeps t u" "same_inode i t u" using a b by simp_all
  have "keeps s u" "same_inode i s u"
    by (rule keeps_trans [OF k(1,3)], rule same_inode_trans [OF k(2,4) i])
  moreover have "block_of u i k = block_of s i k" if "k < 140" "block_of s i k \<noteq> 0" for k
    using a b that by metis
  moreover have "block_of u i (p div BSIZE) \<noteq> 0 \<and> file_byte u i p = (x @ y) ! (p - off)"
    if "off \<le> p" "p < off + length (x @ y)" for p
  proof (cases "p < off + length x")
    case True
    then have t: "block_of t i (p div BSIZE) \<noteq> 0" "file_byte t i p = x ! (p - off)" using a that(1) by blast+
    have "p < 140 * BSIZE" using True n by linarith
    then have "file_byte u i p = file_byte t i p" "block_of u i (p div BSIZE) = block_of t i (p div BSIZE)"
      using b t(1) True idx by blast+
    moreover have "p - off < length x" using True that(1) by linarith
    ultimately show ?thesis using t by (simp add: nth_append)
  next
    case False
    then have "block_of u i (p div BSIZE) \<noteq> 0 \<and> file_byte u i p = y ! (p - (off + length x))"
      using b that by simp
    moreover obtain q where "p = off + length x + q" using False le_Suc_ex [of "off + length x" p] by auto
    then have "(x @ y) ! (p - off) = y ! (p - (off + length x))" by (simp add: add.assoc)
    ultimately show ?thesis by simp
  qed
  moreover have "file_byte u i p = file_byte s i p"
    if "p < 140 * BSIZE" "block_of s i (p div BSIZE) \<noteq> 0" "p < off \<or> off + length (x @ y) \<le> p" for p
  proof -
    have "file_byte t i p = file_byte s i p" "block_of t i (p div BSIZE) = block_of s i (p div BSIZE)"
      using a that idx by auto
    moreover have "file_byte u i p = file_byte t i p" using b that calculation(2) by auto
    ultimately show ?thesis by simp
  qed
  moreover have "cdata u z = cdata s z" if "\<not> is_free s z" "\<not> has_block s i z" "z \<noteq> bitmap_block s" for z
  proof -
    have "cdata t z = cdata s z" "\<not> is_free t z" "\<not> has_block t i z" using a that by blast+
    then show ?thesis using b that(3) kb by simp
  qed
  moreover have "is_free u z \<longrightarrow> is_free s z" "has_block u i z \<longrightarrow> has_block s i z \<or> is_free s z" for z
    using a b by blast+
  moreover have "txn {} u" "layout u i" "blocks_ok u i" using b by simp_all
  ultimately show ?thesis unfolding wrote_at_def by (intro conjI allI impI) simp_all
qed

lemma overwrite_length: "k + length x \<le> length d \<Longrightarrow> length (overwrite k x d) = length d"
  by (simp add: overwrite_def)

lemma overwrite_nth:
  assumes "k \<le> length d" and "p < length d \<or> p < k + length x"
  shows "overwrite k x d ! p = (if k \<le> p \<and> p < k + length x then x ! (p - k) else d ! p)"
  using assms by (auto simp: overwrite_def nth_append min_def)

definition grew :: "nat \<Rightarrow> nat \<Rightarrow> 'a fs_state_scheme \<Rightarrow> 'a fs_state_scheme \<Rightarrow> bool" where
  "grew i k s t \<longleftrightarrow>
     (if block_of s i k = 0 then free_blocks s + (if indirect t i = 0 then 1 else 0) \<le> free_blocks t + 1 + (if indirect s i = 0 then 1 else 0)
      else free_blocks t = free_blocks s \<and> indirect t i = indirect s i)"

lemma write_chunk:
  assumes s: "txn {} s" "layout s i" "blocks_ok s i" and off: "unat off div BSIZE < 140"
    and x: "x \<noteq> []" "unat off mod BSIZE + length x \<le> BSIZE"
    and free: "block_of s i (unat off div BSIZE) = 0 \<Longrightarrow> 1 + (if indirect s i = 0 then 1 else 0) \<le> free_blocks s"
    and log_room: "log_fits (log_need s i + 1) s"
  shows "\<exists>a u b v w t. bmap i (off div 512) s = Inr (a, u) \<and> idev (inodes u ! i) = ROOTDEV \<and> bread ROOTDEV a u = Inr (b, v)
    \<and> log_write b (upd_buf b (bdata_update (overwrite (unat off mod BSIZE) x)) v) = Inr w \<and> brelse b w = Inr t
    \<and> wrote_at i (unat off) x s t \<and> log_need t i \<le> log_need s i + 1 \<and> grew i (unat off div BSIZE) s t"
proof -
  let ?k = "unat off div BSIZE" and ?o = "unat off mod BSIZE"
  have k: "unat (off div 512) = ?k" by (simp add: unat_div_distrib)
  obtain a u where u: "bmap i (off div 512) s = Inr (a, u)" "mapped i ?k a s u"
    using bmap_ok [OF s off k free log_room] by blast
  note m = u(2) [unfolded mapped_def]
  have mu: "txn {} u" "layout u i" "blocks_ok u i" "keeps s u" "same_inode i s u" "a \<noteq> 0" using m by simp_all
  have ku: "logsize u = logsize s" "logstart u = logstart s" "sb u = sb s" using mu(4) by (simp_all add: keeps_def)
  have bk: "block_of u i ?k = a" using m off by simp
  have "has_block u i a" using mu(6) bk off by (auto simp: has_block_def)
  then have a: "data_block u i a" "a \<noteq> indirect u i" using mu(3,6) bk off by (auto simp: blocks_ok_def)
  then have n: "a < 1000" "a \<notin> log_area (logstart u)" "length (cdata u a) = BSIZE" by (simp_all add: data_block_def)
  have "log_need u i \<le> log_need s i + 1" using m by linarith
  then have r: "log_room 1 u" using log_fits_room [OF log_room _ ku(1)] log_need_le [of u i] by simp
  obtain b v w t where t: "bread ROOTDEV a u = Inr (b, v)" "log_write b (upd_buf b (bdata_update (overwrite ?o x)) v) = Inr w"
    "brelse b w = Inr t" "txn {} t" "cdata t = (cdata u)(a := overwrite ?o x (cdata u a))" "lh t = absorb a (lh u)"
    "inodes t = inodes u" "keeps u t"
    using txn_update [of "{}" u a "overwrite ?o x"] mu(1) n r by auto
  have lo: "length (overwrite ?o x (cdata u a)) = BSIZE" using x(2) n(3) by (simp add: overwrite_length)
  note az = mu(6,2,3)
  note v = update_block_view [OF az(2,3) off bk [symmetric] az(1) lo t(5,7,8)]
  have kt: "sb t = sb s" "keeps s t" using t(8) ku keeps_trans [OF mu(4) t(8)] by (simp_all add: keeps_def)
  have need: "log_need t i \<le> log_need s i + 1"
  proof -
    have "log_need t i \<le> log_need u i + (if a \<in> set (lh u) then 0 else 1)"
      by (simp add: log_need_def t(6,7) kt ku) (auto simp: absorb_def)
    then show ?thesis using m by linarith
  qed
  have grew: "grew i ?k s t"
  proof (cases "block_of s i ?k = 0")
    case True
    then show ?thesis using m v(3) by (simp add: grew_def free_blocks_def t(7))
  next
    case False
    then have e: "cdata u = cdata s" "inodes u = inodes s" using m by simp_all
    then show ?thesis using False v(3) same_view(4) [OF e mu(4)] by (simp add: grew_def free_blocks_def t(7))
  qed
  have same: "same_inode i s t" using mu(5) unfolding same_inode_def t(7) .
  have at: "file_byte t i p = (if unat off \<le> p \<and> p < unat off + length x then x ! (p - unat off) else file_byte u i p)"
    if "p div BSIZE = ?k" for p
  proof -
    have p: "p = ?k * BSIZE + p mod BSIZE" "unat off = ?k * BSIZE + ?o" using that by (metis div_mult_mod_eq, simp)
    have "p mod BSIZE < BSIZE" "?o < BSIZE" by simp_all
    then have "overwrite ?o x (cdata u a) ! (p mod BSIZE) =
        (if ?o \<le> p mod BSIZE \<and> p mod BSIZE < ?o + length x then x ! (p mod BSIZE - ?o) else cdata u a ! (p mod BSIZE))"
      using n(3) by (intro overwrite_nth) simp_all
    moreover have "?o \<le> p mod BSIZE \<longleftrightarrow> unat off \<le> p" "p mod BSIZE < ?o + length x \<longleftrightarrow> p < unat off + length x"
      "p mod BSIZE - ?o = p - unat off" using p by linarith+
    ultimately show ?thesis using that bk by (simp add: file_byte_def v(4) t(5))
  qed
  have elsewhere: "file_byte t i p = file_byte s i p" if "p < 140 * BSIZE" "p div BSIZE \<noteq> ?k" "block_of s i (p div BSIZE) \<noteq> 0" for p
  proof -
    let ?c = "block_of s i (p div BSIZE)"
    have p: "p div BSIZE < 140" using that(1) by auto
    then have c: "block_of u i (p div BSIZE) = ?c" using m that(2) by simp
    have "has_block s i ?c" using p that(3) by (auto simp: has_block_def)
    then have "\<not> is_free s ?c" "?c \<noteq> bitmap_block s" "?c \<noteq> indirect s i"
      using s(3) p that(3) by (auto simp: blocks_ok_def data_block_def)
    then have "cdata u ?c = cdata s ?c" using m by blast
    moreover have "?c \<noteq> a" using az(3) p off that(2,3) bk c unfolding blocks_ok_def by metis
    ultimately show ?thesis by (simp add: file_byte_def v(4) c t(5))
  qed
  have inside: "p div BSIZE = ?k" if "unat off \<le> p" "p < unat off + length x" for p
  proof -
    have "?k * BSIZE + ?o = unat off" by simp
    then have "?k * BSIZE \<le> p" "p < ?k * BSIZE + BSIZE" using that x(2) by linarith+
    then show ?thesis by (metis add.commute div_nat_eqI mult.commute mult_Suc)
  qed
  have others: "cdata t y = cdata s y" if "\<not> is_free s y" "\<not> has_block s i y" "y \<noteq> bitmap_block s" for y
  proof -
    have "y \<noteq> a"
    proof
      assume y: "y = a"
      then have "block_of s i ?k \<noteq> 0" using that(1) m by auto
      then have "block_of s i ?k = a" using m bk by (simp add: block_of_def)
      then show False using that(2) y az(1) off by (auto simp: has_block_def)
    qed
    moreover have "y \<noteq> indirect s i \<or> y = 0" using that(2) by (auto simp: has_block_def)
    then have "cdata u y = cdata s y" using m that(1,3) by blast
    ultimately show ?thesis by (simp add: t(5))
  qed
  have "wrote_at i (unat off) x s t"
    unfolding wrote_at_def
  proof (intro conjI allI impI)
    fix p assume p: "unat off \<le> p \<and> p < unat off + length x"
    then have "p div BSIZE = ?k" using inside by blast
    then show "block_of t i (p div BSIZE) \<noteq> 0" "file_byte t i p = x ! (p - unat off)"
      using at p bk az(1) by (simp_all add: v(4))
  next
    fix p assume p: "p < 140 * BSIZE" "block_of s i (p div BSIZE) \<noteq> 0 \<and> (p < unat off \<or> unat off + length x \<le> p)"
    show "file_byte t i p = file_byte s i p"
    proof (cases "p div BSIZE = ?k")
      case True
      then have "cdata u = cdata s" "inodes u = inodes s" using m p(2) by simp_all
      then have "file_byte u i p = file_byte s i p" by (simp add: file_byte_def block_of_def)
      then show ?thesis using at [OF True] p(2) by auto
    qed (use elsewhere p in blast)
  next
    fix y assume "has_block t i y"
    then have "has_block u i y" by (simp add: has_block_def v(4) t(7))
    then show "has_block s i y \<or> is_free s y" using m by blast
  next
    fix k' assume k': "k' < 140" "block_of s i k' \<noteq> 0"
    show "block_of t i k' = block_of s i k'"
    proof (cases "k' = ?k")
      case True
      then have "cdata u = cdata s" "inodes u = inodes s" using m k'(2) by simp_all
      then have "block_of u i k' = block_of s i k'" by (simp add: block_of_def)
      then show ?thesis by (simp add: v(4))
    next
      case False
      then show ?thesis using m k'(1) by (simp add: v(4))
    qed
  next
    fix y assume "is_free t y"
    then show "is_free s y" using m v(3) by simp
  qed (use t(4) v same others kt in auto)
  then show ?thesis
    using u(1) t(1-3) need grew layoutD(1) [OF az(2)] by blast
qed

text \<open>The number of blocks a write of \<open>n\<close> bytes touches.\<close>

definition spans :: "nat \<Rightarrow> nat \<Rightarrow> nat" where
  "spans off n = (if n = 0 then 0 else (off mod BSIZE + n + 511) div BSIZE)"

lemma spans_step:
  assumes "0 < n" and "m = min n (BSIZE - off mod BSIZE)"
  shows "spans off n = Suc (spans (off + m) (n - m))"
proof (cases "n \<le> BSIZE - off mod BSIZE")
  case True
  then have m: "m = n" using assms(2) by simp
  have "off mod BSIZE < BSIZE" by simp
  then have "BSIZE \<le> off mod BSIZE + n + 511" "off mod BSIZE + n + 511 < 1024"
    using True assms(1) by linarith+
  then have "(off mod BSIZE + n + 511) div BSIZE = 1" by (intro div_nat_eqI) simp_all
  then show ?thesis using assms(1) m by (simp add: spans_def)
next
  case False
  then have m: "m = BSIZE - off mod BSIZE" "m < n" using assms(2) by simp_all
  have o: "off mod BSIZE < BSIZE" by simp
  have "off = BSIZE * (off div BSIZE) + off mod BSIZE" by simp
  then have "off + m = BSIZE * (off div BSIZE) + (off mod BSIZE + m)" by (metis add.assoc)
  also have "off mod BSIZE + m = BSIZE" using m(1) o by simp
  finally have z: "(off + m) mod BSIZE = 0" by simp
  have e: "off mod BSIZE + n + 511 = BSIZE + (n - m + 511)" using m o by linarith
  have "spans off n = (BSIZE + (n - m + 511)) div BSIZE" using assms(1) unfolding spans_def e by simp
  also have "\<dots> = Suc ((n - m + 511) div BSIZE)" by (subst div_add_self1) simp_all
  also have "(n - m + 511) div BSIZE = spans (off + m) (n - m)" using m(2) unfolding spans_def z by simp
  finally show ?thesis .
qed

text \<open>Either the blocks are there, or there are enough free ones.\<close>

definition supplied :: "'a fs_state_scheme \<Rightarrow> nat \<Rightarrow> nat \<Rightarrow> nat \<Rightarrow> bool" where
  "supplied s i off n \<longleftrightarrow> (\<forall>p. off \<le> p \<and> p < off + n \<longrightarrow> block_of s i (p div BSIZE) \<noteq> 0)
     \<or> spans off n + (if indirect s i = 0 then 1 else 0) \<le> free_blocks s"

lemma supplied_first:
  assumes "supplied s i off n" and "0 < n" and "block_of s i (off div BSIZE) = 0"
  shows "1 + (if indirect s i = 0 then 1 else 0) \<le> free_blocks s"
  using assms spans_step [OF assms(2) refl, of off] by (auto simp: supplied_def)

lemma supplied_step:
  assumes "supplied s i off n" and n: "0 < n" and m: "m = min n (BSIZE - off mod BSIZE)"
    and w: "wrote_at i off x s t" "length x = m" and g: "grew i (off div BSIZE) s t" and lim: "off + n \<le> 140 * BSIZE"
  shows "supplied t i (off + m) (n - m)"
proof -
  note sp = spans_step [OF n m]
  show ?thesis
  proof (cases "\<forall>p. off \<le> p \<and> p < off + n \<longrightarrow> block_of s i (p div BSIZE) \<noteq> 0")
    case True
    have "block_of t i (p div BSIZE) \<noteq> 0" if "off + m \<le> p" "p < off + m + (n - m)" for p
    proof -
      have "m \<le> n" using m by simp
      then have "off \<le> p" "p < off + n" "p div BSIZE < 140" using that lim by auto
      then have "block_of s i (p div BSIZE) \<noteq> 0" "p div BSIZE < 140" using True by auto
      then show ?thesis using w(1) by (auto simp: wrote_at_def)
    qed
    then show ?thesis by (auto simp: supplied_def)
  next
    case False
    then have e: "spans off n + (if indirect s i = 0 then 1 else 0) \<le> free_blocks s"
      using assms(1) by (auto simp: supplied_def)
    then show ?thesis using g sp by (auto simp: supplied_def grew_def split: if_splits)
  qed
qed

lemma write_blocks_ok:
  assumes "txn {} s" and "layout s i" and "blocks_ok s i" and "unat off + length src \<le> 140 * BSIZE"
    and "supplied s i (unat off) (length src)" and "log_fits (log_need s i + spans (unat off) (length src)) s"
  shows "\<exists>t. write_blocks i src off s = Inr (off + of_nat (length src), t) \<and> wrote_at i (unat off) src s t
    \<and> log_need t i \<le> log_need s i + spans (unat off) (length src)"
  using assms
proof (induction "length src" arbitrary: src off s rule: less_induct)
  case less
  show ?case
  proof (cases "src = []")
    case True
    then show ?thesis using wrote_at_refl less.prems(1-3) by (simp add: write_blocks.simps spans_def) blast
  next
    case False
    let ?o = "unat off mod BSIZE"
    define m where m: "m = min (length src) (BSIZE - ?o)"
    have n: "0 < length src" using False by simp
    have o: "?o < BSIZE" by simp
    have m1: "0 < m" "m \<le> length src" using m n o by linarith+
    let ?x = "take m src" and ?y = "drop m src" and ?off = "off + of_nat m"
    have x: "?x \<noteq> []" "length ?x = m" "?o + length ?x \<le> BSIZE" using m1 m n o by auto
    have "unat off < 140 * BSIZE" using less.prems(4) n by linarith
    then have k: "unat off div BSIZE < 140" by auto
    have uo: "unat ?off = unat off + m"
      using less.prems(4) m1(2) by (intro unat_add_of_nat32) simp
    note sp = spans_step [OF n m]
    have log_room: "log_fits (log_need s i + 1) s" using less.prems(6) sp by (auto simp: log_fits_def)
    obtain a u b v w t where c: "bmap i (off div 512) s = Inr (a, u)" "idev (inodes u ! i) = ROOTDEV"
      "bread ROOTDEV a u = Inr (b, v)" "log_write b (upd_buf b (bdata_update (overwrite ?o ?x)) v) = Inr w" "brelse b w = Inr t"
      "wrote_at i (unat off) ?x s t" "log_need t i \<le> log_need s i + 1" "grew i (unat off div BSIZE) s t"
      using write_chunk [OF less.prems(1-3) k x(1,3) supplied_first [OF less.prems(5) n] log_room] by blast
    have ct: "txn {} t" "layout t i" "blocks_ok t i" "keeps s t" using c(6) by (simp_all add: wrote_at_def)
    have y: "unat ?off + length ?y \<le> 140 * BSIZE" "length ?y < length src" using uo less.prems(4) m1 by auto
    have sup: "supplied t i (unat ?off) (length ?y)"
      using supplied_step [OF less.prems(5) n m c(6) x(2) c(8) less.prems(4)] by (simp add: uo)
    have sp2: "spans (unat off) (length src) = Suc (spans (unat ?off) (length ?y))" using sp by (simp add: uo)
    have fit: "log_fits (log_need t i + spans (unat ?off) (length ?y)) t"
      using less.prems(6) c(7) ct(4) sp2 by (auto simp: log_fits_def keeps_def)
    obtain z where z: "write_blocks i ?y ?off t = Inr (?off + of_nat (length ?y), z)" "wrote_at i (unat ?off) ?y t z"
      "log_need z i \<le> log_need t i + spans (unat ?off) (length ?y)"
      using less.hyps [OF y(2) ct(1-3) y(1) sup fit] by blast
    have "write_blocks i src off s = Inr (?off + of_nat (length ?y), z)"
      using False c(1-5) z(1) by (subst write_blocks.simps) (simp add: Let_def flip: m)
    moreover have "?off + of_nat (length ?y) = off + of_nat (length src)"
      using m1(2) by (simp add: of_nat_diff)
    moreover have "wrote_at i (unat off) src s z"
      using wrote_at_append [OF c(6) _ _ layoutD(2) [OF less.prems(2)], of ?y z] z(2) less.prems(4) x(2) m1(2)
      by (simp add: uo)
    ultimately show ?thesis using z(3) c(7) sp2 by (intro exI [of _ z]) simp
  qed
qed

section \<open>Reading\<close>

text \<open>Reading needs no transaction, only the cache and the log in order.\<close>

lemma bmap_finds:
  assumes s: "cache_ok {} s" "layout s i" "blocks_ok s i" and k: "k < 140" "unat bn = k" "block_of s i k \<noteq> 0"
  shows "\<exists>t. bmap i bn s = Inr (block_of s i k, t) \<and> cache_ok {} t \<and> cdata t = cdata s \<and> inodes t = inodes s \<and> keeps s t"
proof (cases "k < NDIRECT")
  case True
  then have "bmap i bn s = Inr (block_of s i k, s)"
    using k by (simp add: bmap_def block_of_def fblock_def)
  then show ?thesis using s(1) by auto
next
  case False
  let ?ind = "indirect s i"
  have e: "?ind \<noteq> 0" "block_of s i k = get32 (cdata s ?ind) (4 * (k - NDIRECT))"
    using False k(3) by (auto simp: block_of_def fblock_def split: if_splits)
  have "has_block s i ?ind" using e(1) by (simp add: has_block_def)
  then have n: "?ind < 1000" using s(3) by (auto simp: blocks_ok_def data_block_def)
  have few: "length (lh s) + card ({} :: nat set) < NBUF" using s(1) by (simp add: cache_ok_def)
  obtain p u t where u: "bread ROOTDEV ?ind s = Inr (p, u)" "brelse p u = Inr t" "bdata (bufs u ! p) = cdata s ?ind"
    "cache_ok {} t" "cdata t = cdata s" "inodes t = inodes s" "keeps s t"
    using cache_read [OF s(1) n _ few] by auto
  have "bmap i bn s = Inr (block_of s i k, t)"
    using False k e u(1-3) layoutD(1) [OF s(2)] by (simp add: bmap_def)
  then show ?thesis using u by blast
qed

lemma same_block:
  fixes x q :: nat
  assumes "x mod BSIZE + q < BSIZE"
  shows "(x + q) div BSIZE = x div BSIZE" "(x + q) mod BSIZE = x mod BSIZE + q"
proof -
  have "(x + q) mod BSIZE = (x mod BSIZE + q) mod BSIZE" by (rule mod_add_left_eq [symmetric])
  then show "(x + q) mod BSIZE = x mod BSIZE + q" using assms by simp
  have "q div BSIZE = 0" "q mod BSIZE = q" using assms by simp_all
  then show "(x + q) div BSIZE = x div BSIZE" using assms unfolding div_add1_eq [of x q] by simp
qed

lemma read_blocks_ok:
  assumes "cache_ok {} s" and "layout s i" and "blocks_ok s i" and "unat off + n \<le> 140 * BSIZE"
    and "\<forall>p. unat off \<le> p \<and> p < unat off + n \<longrightarrow> block_of s i (p div BSIZE) \<noteq> 0"
  shows "\<exists>t. read_blocks i off n s = Inr (map (file_byte s i) [unat off..<unat off + n], t) \<and> cache_ok {} t
    \<and> cdata t = cdata s \<and> inodes t = inodes s \<and> keeps s t"
  using assms
proof (induction n arbitrary: off s rule: less_induct)
  case (less n)
  show ?case
  proof (cases "n = 0")
    case True
    then show ?thesis using less.prems(1) by (simp add: read_blocks.simps)
  next
    case False
    let ?k = "unat off div BSIZE" and ?o = "unat off mod BSIZE"
    define m where m: "m = min n (BSIZE - ?o)"
    have o: "?o < BSIZE" by simp
    have m1: "0 < m" "m \<le> n" "?o + m \<le> BSIZE" using m False o by linarith+
    have "unat off < 140 * BSIZE" using less.prems(4) False by linarith
    then have k: "?k < 140" by auto
    have kn: "unat (off div 512) = ?k" by (simp add: unat_div_distrib)
    have nz: "block_of s i ?k \<noteq> 0" using less.prems(5) False by auto
    obtain u where u: "bmap i (off div 512) s = Inr (block_of s i ?k, u)" "cache_ok {} u" "cdata u = cdata s"
      "inodes u = inodes s" "keeps s u"
      using bmap_finds [OF less.prems(1-3) k kn nz] by blast
    let ?a = "block_of s i ?k"
    have "has_block s i ?a" using nz k by (auto simp: has_block_def)
    then have a: "?a < 1000" "length (cdata s ?a) = BSIZE" using less.prems(3) by (auto simp: blocks_ok_def data_block_def)
    have few: "length (lh u) + card ({} :: nat set) < NBUF" using u(2) by (simp add: cache_ok_def)
    obtain b v t where t: "bread ROOTDEV ?a u = Inr (b, v)" "brelse b v = Inr t" "bdata (bufs v ! b) = cdata u ?a"
      "cache_ok {} t" "cdata t = cdata u" "inodes t = inodes u" "keeps u t"
      using cache_read [OF u(2) a(1) _ few] by auto
    have st: "cdata t = cdata s" "inodes t = inodes s" "keeps s t"
      using t(5-7) u(3-5) keeps_trans [OF u(5) t(7)] by simp_all
    note v = same_view [OF st]
    let ?off = "off + of_nat m"
    have uo: "unat ?off = unat off + m" using less.prems(4) m1(2) by (intro unat_add_of_nat32) simp
    have fb: "file_byte t i = file_byte s i" by (simp add: fun_eq_iff file_byte_def v(3) st(1))
    obtain z where z: "read_blocks i ?off (n - m) t = Inr (map (file_byte s i) [unat off + m..<unat off + n], z)"
      "cache_ok {} z" "cdata z = cdata t" "inodes z = inodes t" "keeps t z"
      using less.IH [of "n - m" t ?off] m1 t(4) v less.prems(2-5) uo fb by auto
    have piece: "take m (drop ?o (cdata s ?a)) = map (file_byte s i) [unat off..<unat off + m]"
    proof (rule nth_equalityI)
      show "length (take m (drop ?o (cdata s ?a))) = length (map (file_byte s i) [unat off..<unat off + m])"
        using m1(3) a(2) by simp
      fix q assume "q < length (take m (drop ?o (cdata s ?a)))"
      then have q: "q < m" by simp
      have "(unat off + q) div BSIZE = ?k" "(unat off + q) mod BSIZE = ?o + q"
        using q m1(3) by (simp_all add: same_block)
      then show "take m (drop ?o (cdata s ?a)) ! q = map (file_byte s i) [unat off..<unat off + m] ! q"
        using q m1(3) a(2) by (simp add: file_byte_def)
    qed
    have "[unat off..<unat off + m] @ [unat off + m..<unat off + n] = [unat off..<unat off + n]"
      using m1(2) upt_add_eq_append [of "unat off" "unat off + m" "n - m"] by simp
    then have all: "map (file_byte s i) [unat off..<unat off + m] @ map (file_byte s i) [unat off + m..<unat off + n] =
        map (file_byte s i) [unat off..<unat off + n]" by (simp flip: map_append)
    have dev: "idev (inodes u ! i) = ROOTDEV" using layoutD(1) [OF less.prems(2)] u(4) by simp
    have "read_blocks i off n s = Inr (map (file_byte s i) [unat off..<unat off + n], z)"
      using False u(1) dev t(1-3) z(1) piece u(3)
      by (subst read_blocks.simps) (simp add: Let_def all flip: m)
    then show ?thesis using z st keeps_trans [OF st(3) z(5)] by (intro exI [of _ z]) simp
  qed
qed

section \<open>Files as lists of bytes\<close>

text \<open>The inode in entry \<open>i\<close> is that of a file with the bytes \<open>f\<close>.\<close>

definition file_is :: "'a fs_state_scheme \<Rightarrow> nat \<Rightarrow> bytes \<Rightarrow> bool" where
  "file_is s i f \<longleftrightarrow> layout s i \<and> blocks_ok s i \<and> itype (inodes s ! i) \<noteq> 3 \<and> unat (isize (inodes s ! i)) = length f
     \<and> length f \<le> 140 * BSIZE \<and> (\<forall>p < length f. block_of s i (p div BSIZE) \<noteq> 0 \<and> file_byte s i p = f ! p)"

lemma readi_reads:
  assumes "cache_ok {} s" and f: "file_is s i f" and off: "unat off \<le> length f" "unat off + unat n < 2 ^ 32"
  shows "\<exists>t. readi dv i off n s = Inr ((of_nat (min (unat n) (length f - unat off)), take (unat n) (drop (unat off) f)), t)
    \<and> cache_ok {} t \<and> cdata t = cdata s \<and> inodes t = inodes s \<and> keeps s t"
proof -
  let ?sz = "isize (inodes s ! i)"
  have u: "unat (off + n) = unat off + unat n" by (rule unat_add32) (use off(2) in simp)
  have sz: "unat ?sz = length f" using f by (simp add: file_is_def)
  define m where "m = (if off + n > ?sz then ?sz - off else n)"
  have m: "unat m = min (unat n) (length f - unat off)"
    using off(1) u sz by (auto simp: m_def word_less_nat_alt unat_sub_if' min_def)
  have lim: "unat off + unat m \<le> length f" using m off(1) by linarith
  have "\<forall>p. unat off \<le> p \<and> p < unat off + unat m \<longrightarrow> block_of s i (p div BSIZE) \<noteq> 0"
    using f lim by (auto simp: file_is_def)
  then obtain t where t: "read_blocks i off (unat m) s = Inr (map (file_byte s i) [unat off..<unat off + unat m], t)"
    "cache_ok {} t" "cdata t = cdata s" "inodes t = inodes s" "keeps s t"
    using read_blocks_ok [OF assms(1), of i off "unat m"] f lim by (auto simp: file_is_def)
  have "map (file_byte s i) [unat off..<unat off + unat m] = take (unat m) (drop (unat off) f)"
    using f lim by (intro nth_equalityI) (auto simp: file_is_def)
  also have "\<dots> = take (unat n) (drop (unat off) f)" by (simp add: m min_def)
  finally have d: "map (file_byte s i) [unat off..<unat off + unat m] = take (unat n) (drop (unat off) f)" .
  have c: "\<not> off > ?sz" "\<not> off + n < off" using off(1) sz u by (simp_all add: word_less_nat_alt)
  have "of_nat (min (unat n) (length f - unat off)) = m" unfolding m [symmetric] by simp
  then have "readi dv i off n s = Inr ((of_nat (min (unat n) (length f - unat off)), take (unat n) (drop (unat off) f)), t)"
    using f c t(1) d by (simp add: readi_def file_is_def Let_def flip: m_def)
  then show ?thesis using t by blast
qed

lemma length_foldl_put32: "length (foldl (\<lambda>d k. put32 (g k) (h k) d) d ks) = length d"
  by (induction ks arbitrary: d) simp_all

lemma length_put_dinode: "length (put_dinode k x d) = length d"
  by (simp add: put_dinode_def length_foldl_put32)

lemma update_inode_view:
  assumes s: "layout s i" "blocks_ok s i" and d: "length d = BSIZE"
    and t: "cdata t = (cdata s)(inode_home s i := d)" "inodes t = inodes s" "keeps s t"
  shows "layout t i" "blocks_ok t i" "block_of t i = block_of s i" "\<And>x. has_block s i x \<Longrightarrow> cdata t x = cdata s x"
    "is_free t = is_free s"
proof -
  let ?ib = "inode_home s i"
  have g: "logstart t = logstart s" "sb t = sb s" using t(3) by (simp_all add: keeps_def)
  have ne: "?ib \<noteq> bitmap_block s" using s(1) by (simp add: layout_def)
  show f: "is_free t = is_free s" using ne by (simp add: is_free_def fun_eq_iff g t(1))
  show own: "cdata t x = cdata s x" if "has_block s i x" for x
    using that s(2) by (auto simp: blocks_ok_def data_block_def t(1))
  have "indirect s i \<noteq> 0 \<Longrightarrow> has_block s i (indirect s i)" by (simp add: has_block_def)
  then show b: "block_of t i = block_of s i" using own by (auto simp: block_of_def fblock_def t(2) fun_eq_iff)
  have db: "data_block t i x = data_block s i x" for x using d by (auto simp: data_block_def g t(1,2))
  show "layout t i" using s(1) ne d by (simp add: layout_def inode_block_ok_def g t(1,2) f db)
  show "blocks_ok t i" using s(2) unfolding blocks_ok_def has_block_def t(2) f db b .
qed

lemma resize_view:
  assumes "i < length (inodes s)" and t: "t = upd_inode i (isize_update (\<lambda>_. z)) s"
  shows "layout t i = layout s i" "blocks_ok t i = blocks_ok s i" "block_of t i = block_of s i" "is_free t = is_free s"
    "has_block t i = has_block s i" "cdata t = cdata s" "inode_home t i = inode_home s i" "keeps s t" "txn H t = txn H s"
proof -
  show f: "is_free t = is_free s" by (simp add: t is_free_def fun_eq_iff)
  have d: "data_block t i = data_block s i" using assms(1) by (simp add: t data_block_def fun_eq_iff)
  show "layout t i = layout s i" unfolding layout_def f d using assms(1) by (simp add: t inode_block_ok_def)
  show b: "block_of t i = block_of s i" using assms(1) by (simp add: t block_of_def fun_eq_iff)
  show h: "has_block t i = has_block s i" unfolding has_block_def fun_eq_iff b using assms(1) by (simp add: t)
  show "blocks_ok t i = blocks_ok s i" unfolding blocks_ok_def f d b h using assms(1) by (simp add: t)
  show "inode_home t i = inode_home s i" using assms(1) by (simp add: t)
qed (simp_all add: t)

lemma same_inode_fields:
  assumes "same_inode i s t" and "i < length (inodes s)"
  shows "inum (inodes t ! i) = inum (inodes s ! i)" "isize (inodes t ! i) = isize (inodes s ! i)"
    "itype (inodes t ! i) = itype (inodes s ! i)" "j \<noteq> i \<Longrightarrow> inodes t ! j = inodes s ! j"
  using assms by (auto simp: same_inode_def)

text \<open>After the blocks are written the file has its new bytes, once its size is the larger one.\<close>

lemma wrote_file:
  assumes f: "file_is s i f" and w: "wrote_at i k src s t" and k: "k \<le> length f" "k + length src \<le> 140 * BSIZE"
    and p: "p < length (overwrite k src f)"
  shows "block_of t i (p div BSIZE) \<noteq> 0" "file_byte t i p = overwrite k src f ! p"
proof -
  have len: "length (overwrite k src f) = max (length f) (k + length src)" using k(1) by (simp add: overwrite_def)
  note a = w [unfolded wrote_at_def]
  have nth: "overwrite k src f ! p = (if k \<le> p \<and> p < k + length src then src ! (p - k) else f ! p)"
    using p len by (intro overwrite_nth [OF k(1)]) auto
  have "block_of t i (p div BSIZE) \<noteq> 0 \<and> file_byte t i p = overwrite k src f ! p"
  proof (cases "k \<le> p \<and> p < k + length src")
    case True
    then show ?thesis using a nth by simp
  next
    case False
    have "p < length f \<or> p < k + length src" using p len by auto
    then have q: "p < length f" "p < k \<or> k + length src \<le> p" using False k(1) by linarith+
    then have q140: "p < 140 * BSIZE" "block_of s i (p div BSIZE) \<noteq> 0" "file_byte s i p = f ! p"
      using f by (auto simp: file_is_def)
    then have "p div BSIZE < 140" by auto
    then have "block_of t i (p div BSIZE) = block_of s i (p div BSIZE)" "file_byte t i p = file_byte s i p"
      using a q140 q(2) by blast+
    moreover have "overwrite k src f ! p = f ! p" by (subst nth, rule if_not_P, rule False)
    ultimately show ?thesis using q140 by simp
  qed
  then show "block_of t i (p div BSIZE) \<noteq> 0" "file_byte t i p = overwrite k src f ! p" by simp_all
qed

lemma file_isI:
  assumes "layout t i" and "blocks_ok t i" and "itype (inodes t ! i) \<noteq> 3" and "unat (isize (inodes t ! i)) = length g"
    and "length g \<le> 140 * BSIZE" and "\<And>p. p < length g \<Longrightarrow> block_of t i (p div BSIZE) \<noteq> 0 \<and> file_byte t i p = g ! p"
  shows "file_is t i g"
  using assms by (simp add: file_is_def)

text \<open>The inode with its new size goes to its block in the log.\<close>

definition inode_stored :: "nat \<Rightarrow> 'a fs_state_scheme \<Rightarrow> bool" where
  "inode_stored i t \<longleftrightarrow> get_dinode (cdata t (inode_home t i)) (dinode_off (inum (inodes t ! i))) = dinode_of (inodes t ! i)"

lemma iupdate_size:
  assumes t: "txn {} t" "layout t i" "blocks_ok t i" and r: "log_room 1 t"
    and u: "u = upd_inode i (isize_update (\<lambda>_. z)) t"
  shows "\<exists>v. iupdate i u = Inr v \<and> txn {} v \<and> layout v i \<and> blocks_ok v i \<and> block_of v i = block_of t i
    \<and> (\<forall>p < 140 * BSIZE. block_of t i (p div BSIZE) \<noteq> 0 \<longrightarrow> file_byte v i p = file_byte t i p)
    \<and> inodes v = inodes u \<and> keeps t v \<and> inode_stored i v
    \<and> (\<forall>x. x \<noteq> inode_home t i \<longrightarrow> cdata v x = cdata t x)
    \<and> (\<forall>n. IBLOCK n (sb t) = inode_home t i \<and> n mod IPB \<noteq> inum (inodes t ! i) mod IPB \<longrightarrow>
        get_dinode (cdata v (IBLOCK n (sb t))) (dinode_off n) = get_dinode (cdata t (IBLOCK n (sb t))) (dinode_off n))"
proof -
  let ?n = "inode_home t i" and ?x = "dinode_of (inodes u ! i)" and ?o = "dinode_off (inum (inodes t ! i))"
  have i: "i < length (inodes t)" "idev (inodes t ! i) = ROOTDEV" "length (iaddrs (inodes t ! i)) = 13"
    and ib: "inode_block_ok (inum (inodes t ! i)) t" using t(2) by (simp_all add: layout_def)
  then have n: "?n < 1000" "?n \<notin> log_area (logstart t)" "length (cdata t ?n) = BSIZE" by (simp_all add: inode_block_ok_def)
  note v0 = resize_view [OF i(1) u]
  have ui: "inodes u ! i = (inodes t ! i)\<lparr>isize := z\<rparr>" using i(1) by (simp add: u)
  have su: "sb u = sb t" "lh u = lh t" "logstart u = logstart t" "logsize u = logsize t" by (simp_all add: u)
  have ru: "log_room 1 u" "?n \<notin> log_area (logstart u)" "txn {} u" using r n(2) t(1) v0(9) su by (simp_all add: log_room_def)
  obtain b w x v where v: "bread ROOTDEV ?n u = Inr (b, w)" "log_write b (upd_buf b (bdata_update (put_dinode ?o ?x)) w) = Inr x"
    "brelse b x = Inr v" "txn {} v" "cdata v = (cdata u)(?n := put_dinode ?o ?x (cdata u ?n))" "inodes v = inodes u" "keeps u v"
    using txn_update [of "{}" u ?n "put_dinode ?o ?x"] ru n(1) by auto
  have run: "iupdate i u = Inr v"
    using iupdate_eq [of u i] v(1-3) i(2) by (simp add: ui su log_update_def)
  have cu: "cdata u = cdata t" and lay: "layout u i" "blocks_ok u i" using v0 t(2,3) by simp_all
  have len: "length (put_dinode ?o ?x (cdata u ?n)) = BSIZE" using n(3) by (simp add: length_put_dinode cu)
  have cv: "cdata v = (cdata u)(inode_home u i := put_dinode ?o ?x (cdata u ?n))" using v(5) by (simp only: v0(7))
  note y = update_inode_view [OF lay len cv v(6,7)]
  have bv: "block_of v i = block_of t i" using y(3) v0(3) by simp
  have "file_byte v i p = file_byte t i p" if "p < 140 * BSIZE" "block_of t i (p div BSIZE) \<noteq> 0" for p
  proof -
    have "p div BSIZE < 140" using that(1) by auto
    then have "has_block u i (block_of t i (p div BSIZE))" using that(2) v0(3) by (auto simp: has_block_def)
    then show ?thesis using y(4) bv cu by (simp add: file_byte_def)
  qed
  moreover have sv: "sb v = sb t" using v(7) su by (simp add: keeps_def)
  have x13: "length (d_addrs ?x) = 13" using i(3) ui by (simp add: dinode_of_def)
  note ap = dinode_apart [OF n(3) x13]
  moreover have "inode_stored i v" using ap(1) by (simp add: inode_stored_def v(5,6) ui sv cu)
  moreover have "get_dinode (cdata v (IBLOCK q (sb t))) (dinode_off q) = get_dinode (cdata t (IBLOCK q (sb t))) (dinode_off q)"
    if "IBLOCK q (sb t) = ?n" "q mod IPB \<noteq> inum (inodes t ! i) mod IPB" for q
    using ap(2) [OF that(2)] that(1) by (simp add: v(5) cu)
  moreover have "keeps t v" by (rule keeps_trans [OF v0(8) v(7)])
  moreover have "cdata v x = cdata t x" if "x \<noteq> ?n" for x using that by (simp add: v(5) cu)
  ultimately show ?thesis using run v(4,6) y(1,2) bv by blast
qed

text \<open>The end of \<open>writei\<close>: the blocks are written, the size follows when the file has grown.\<close>

lemma writei_end:
  assumes f: "file_is s i f" and k: "unat off \<le> length f" and max: "unat off + length src \<le> 140 * BSIZE"
    and t: "write_blocks i src off s = Inr (off + of_nat (length src), t)" "wrote_at i (unat off) src s t" and log_room: "log_room 1 t"
  shows "\<exists>v. writei dv i src off s = Inr (of_nat (length src), v) \<and> txn {} v \<and> keeps s v
    \<and> (length f < unat off + length src \<longrightarrow> inode_stored i v) \<and> (\<forall>j. j \<noteq> i \<longrightarrow> inodes v ! j = inodes t ! j)
    \<and> (\<forall>x. x \<noteq> inode_home s i \<longrightarrow> cdata v x = cdata t x)
    \<and> (\<forall>q. IBLOCK q (sb s) = inode_home s i \<and> q mod IPB \<noteq> inum (inodes s ! i) mod IPB \<longrightarrow>
        get_dinode (cdata v (IBLOCK q (sb s))) (dinode_off q) = get_dinode (cdata t (IBLOCK q (sb s))) (dinode_off q))
    \<and> file_is v i (overwrite (unat off) src f)"
proof -
  let ?k = "unat off" and ?g = "overwrite (unat off) src f"
  have s: "layout s i" "itype (inodes s ! i) \<noteq> 3" "unat (isize (inodes s ! i)) = length f" "length f \<le> 140 * BSIZE"
    using f by (simp_all add: file_is_def)
  have i: "i < length (inodes s)" using s(1) by (rule layoutD)
  have len: "length ?g = max (length f) (?k + length src)" using k by (simp add: overwrite_def)
  have lim: "length ?g \<le> 140 * BSIZE" using len s(4) max by simp
  have w: "txn {} t" "layout t i" "blocks_ok t i" "keeps s t" "same_inode i s t" using t(2) by (simp_all add: wrote_at_def)
  note ip = same_inode_fields [OF w(5) i]
  have sbt: "sb t = sb s" using w(4) by (simp_all add: keeps_def)
  have il: "i < length (inodes t)" using w(2) by (rule layoutD)
  note byte = wrote_file [OF f t(2) k max]
  have ibt: "inode_home t i = inode_home s i" by (simp add: ip(1) sbt)
  have uo: "unat (off + of_nat (length src)) = ?k + length src" using max by (intro unat_add_of_nat32) simp
  have c: "\<not> off > isize (inodes s ! i)" "\<not> off + of_nat (length src) < off" "\<not> off + of_nat (length src) > MAXFILE * 512"
    using k s(3) max uo by (simp_all add: word_less_nat_alt)
  have big: "of_nat (length src) > (0 :: u32) \<and> off + of_nat (length src) > isize (inodes t ! i) \<longleftrightarrow>
      length f < ?k + length src"
    using k s(3) ip(2) max by (auto simp: word_less_nat_alt uo unat_of_nat32)
  show ?thesis
  proof (cases "length f < ?k + length src")
    case False
    have g: "length ?g = length f" using len False by simp
    have "file_is t i ?g" by (rule file_isI) (use w(2,3) s(2,3) ip(2,3) g lim byte in simp_all)
    moreover have "writei dv i src off s = Inr (of_nat (length src), t)"
      using s(2) c t(1) big False by (auto simp: writei_def Let_def)
    ultimately show ?thesis using w(1,4) False by blast
  next
    case True
    let ?u = "upd_inode i (isize_update (\<lambda>_. off + of_nat (length src))) t"
    obtain v where v: "iupdate i ?u = Inr v" "txn {} v" "layout v i" "blocks_ok v i" "block_of v i = block_of t i"
      "\<forall>p < 140 * BSIZE. block_of t i (p div BSIZE) \<noteq> 0 \<longrightarrow> file_byte v i p = file_byte t i p"
      "inodes v = inodes ?u" "keeps t v" "inode_stored i v" "\<forall>x. x \<noteq> inode_home t i \<longrightarrow> cdata v x = cdata t x"
      "\<forall>q. IBLOCK q (sb t) = inode_home t i \<and> q mod IPB \<noteq> inum (inodes t ! i) mod IPB \<longrightarrow>
        get_dinode (cdata v (IBLOCK q (sb t))) (dinode_off q) = get_dinode (cdata t (IBLOCK q (sb t))) (dinode_off q)"
      using iupdate_size [OF w(1-3) log_room refl] by blast
    have g: "length ?g = ?k + length src" using len True by simp
    have iv: "isize (inodes v ! i) = off + of_nat (length src)" "itype (inodes v ! i) = itype (inodes s ! i)"
      using il ip(3) by (simp_all add: v(7))
    have "file_is v i ?g"
    proof (rule file_isI)
      fix p assume p: "p < length ?g"
      then have "p < 140 * BSIZE" using lim by simp
      then show "block_of v i (p div BSIZE) \<noteq> 0 \<and> file_byte v i p = ?g ! p" using byte [OF p] v(5,6) by simp
    qed (use v(3,4) iv s(2) g uo lim in simp_all)
    moreover have "writei dv i src off s = Inr (of_nat (length src), v)"
      using s(2) c t(1) big True v(1) by (simp add: writei_def Let_def)
    moreover have "inodes v ! j = inodes t ! j" if "j \<noteq> i" for j using that by (simp add: v(7))
    moreover have "\<forall>x. x \<noteq> inode_home s i \<longrightarrow> cdata v x = cdata t x" using v(10) ibt by simp
    moreover have "\<forall>q. IBLOCK q (sb s) = inode_home s i \<and> q mod IPB \<noteq> inum (inodes s ! i) mod IPB \<longrightarrow>
        get_dinode (cdata v (IBLOCK q (sb s))) (dinode_off q) = get_dinode (cdata t (IBLOCK q (sb s))) (dinode_off q)"
      using v(11) ip(1) by (simp add: sbt)
    ultimately show ?thesis using v(2,9) keeps_trans [OF w(4) v(8)] by blast
  qed
qed

text \<open>
  C6. Inside a transaction, a file with the bytes \<open>f\<close>: writing \<open>src\<close> at an offset within it (or at its end) makes it
  the file with \<open>src\<close> in that place, longer if \<open>src\<close> passes its end. The file stays within 140 blocks, the blocks it needs are there or
  free, and the log has room for them with one entry each for the bitmap and the indirect block. Nothing but free
  blocks, blocks of the file, the bitmap and the block of the inode changes, and in that block no other inode; the block of the inode gets the new size;
  \<open>readi\<close> then gives any part of the new contents.
\<close>

theorem writei_overwrites:
  assumes "in_txn s" and f: "file_is s i f"
    and k: "unat off \<le> length f" "unat off + length src \<le> 140 * BSIZE"
    and sup: "supplied s i (unat off) (length src)" and fit: "log_fits (log_need s i + spans (unat off) (length src)) s"
  shows "\<exists>t. writei dv i src off s = Inr (of_nat (length src), t) \<and> in_txn t
    \<and> file_is t i (overwrite (unat off) src f) \<and> disk t = disk s
    \<and> (length f < unat off + length src \<longrightarrow> inode_stored i t)
    \<and> (\<forall>j. j \<noteq> i \<longrightarrow> inodes t ! j = inodes s ! j)
    \<and> (\<forall>x. \<not> is_free s x \<and> \<not> has_block s i x \<and> x \<noteq> bitmap_block s \<and> x \<noteq> inode_home s i \<longrightarrow> cdata t x = cdata s x)
    \<and> (\<forall>q. IBLOCK q (sb s) = inode_home s i \<and> q mod IPB \<noteq> inum (inodes s ! i) mod IPB \<longrightarrow>
        get_dinode (cdata t (IBLOCK q (sb s))) (dinode_off q) = get_dinode (cdata s (IBLOCK q (sb s))) (dinode_off q))
    \<and> (\<forall>off' n. unat off' \<le> length (overwrite (unat off) src f) \<and> unat off' + unat n < 2 ^ 32 \<longrightarrow>
        (\<exists>u. readi dv i off' n t = Inr ((of_nat (min (unat n) (length (overwrite (unat off) src f) - unat off')),
          take (unat n) (drop (unat off') (overwrite (unat off) src f))), u)))"
proof -
  let ?k = "unat off" and ?g = "overwrite (unat off) src f"
  have s: "txn {} s" "layout s i" "blocks_ok s i" "itype (inodes s ! i) \<noteq> 3" "unat (isize (inodes s ! i)) = length f"
    "length f \<le> 140 * BSIZE" using assms(1) f by (simp_all add: in_txn_txn file_is_def)
  have max: "?k + length src \<le> 140 * BSIZE" using k(2) by simp
  have i: "i < length (inodes s)" using s(2) by (rule layoutD)
  obtain t where t: "write_blocks i src off s = Inr (off + of_nat (length src), t)" "wrote_at i ?k src s t"
    "log_need t i \<le> log_need s i + spans ?k (length src)"
    using write_blocks_ok [OF s(1-3) max sup fit] by blast
  have w: "txn {} t" "layout t i" "blocks_ok t i" "keeps s t" "same_inode i s t" using t(2) by (simp_all add: wrote_at_def)
  note ip = same_inode_fields [OF w(5) i]
  have sbt: "sb t = sb s" "logsize t = logsize s" "disk t = disk s" using w(4) by (simp_all add: keeps_def)
  have log_room: "log_room 1 t"
    by (rule log_fits_room [OF fit _ sbt(2)]) (rule le_trans [OF log_need_le t(3)])
  have other: "cdata t x = cdata s x" if "\<not> is_free s x" "\<not> has_block s i x" "x \<noteq> bitmap_block s" for x
    using t(2) that by (simp add: wrote_at_def)
  have "data_block s i x" if "is_free s x \<or> has_block s i x" for x
    using that s(2,3) by (auto simp: layout_def blocks_ok_def)
  then have "\<not> is_free s (inode_home s i)" "\<not> has_block s i (inode_home s i)" by (auto simp: data_block_def)
  then have own: "cdata t (inode_home s i) = cdata s (inode_home s i)"
    using s(2) by (intro other) (simp_all add: layout_def)
  obtain v where v: "writei dv i src off s = Inr (of_nat (length src), v)" "txn {} v" "keeps s v"
    "length f < ?k + length src \<longrightarrow> inode_stored i v" "\<forall>j. j \<noteq> i \<longrightarrow> inodes v ! j = inodes t ! j"
    "\<forall>x. x \<noteq> inode_home s i \<longrightarrow> cdata v x = cdata t x"
    "\<forall>q. IBLOCK q (sb s) = inode_home s i \<and> q mod IPB \<noteq> inum (inodes s ! i) mod IPB \<longrightarrow>
        get_dinode (cdata v (IBLOCK q (sb s))) (dinode_off q) = get_dinode (cdata t (IBLOCK q (sb s))) (dinode_off q)"
    "file_is v i ?g" using writei_end [OF f k(1) max t(1,2) log_room] by blast
  have rd: "\<exists>u. readi dv i off' n v = Inr ((of_nat (min (unat n) (length ?g - unat off')), take (unat n) (drop (unat off') ?g)), u)"
    if "unat off' \<le> length ?g" "unat off' + unat n < 2 ^ 32" for off' n
    using readi_reads [OF txn_cache [OF v(2)] v(8) that] by blast
  have dk: "disk v = disk s" using v(3) by (simp add: keeps_def)
  have fr: "cdata v x = cdata s x" if "\<not> is_free s x" "\<not> has_block s i x" "x \<noteq> bitmap_block s" "x \<noteq> inode_home s i" for x
    using other [OF that(1-3)] v(6) that(4) by simp
  have di: "get_dinode (cdata v (IBLOCK q (sb s))) (dinode_off q) = get_dinode (cdata s (IBLOCK q (sb s))) (dinode_off q)"
    if "IBLOCK q (sb s) = inode_home s i" "q mod IPB \<noteq> inum (inodes s ! i) mod IPB" for q
    using v(7) that own by metis
  show ?thesis
    unfolding in_txn_txn
    by (rule exI [of _ v], intro conjI allI impI) (use v(1,2,4,5,8) dk ip(4) rd fr di in simp_all)
qed

text \<open>A machine for the witness: blocks 60 to 63 are free, and entry 0 is a file of 500 bytes in block 59.\<close>

definition some_bitmap :: bytes where
  "some_bitmap = (replicate BSIZE 0xFF)[7 := 0x0F]"

definition file_fs :: fs_state where
  "file_fs = boot_bio (\<lambda>n. if n = 58 then some_bitmap else replicate BSIZE 0)
     (bio_state.more (fs_fields\<lparr>inodes := [inode0\<lparr>isize := 500\<rparr>]\<rparr>))"

lemma bit_some_bitmap:
  assumes "k < 4096"
  shows "bit_set some_bitmap k \<longleftrightarrow> \<not> (60 \<le> k \<and> k < 64)"
proof -
  have k: "k div 8 < 512" "k mod 8 < 8" using assms by auto
  have "bit (0xFF :: u8) j" if "j < 8" for j :: nat
  proof -
    have m: "(0xFF :: u8) = mask 8" by (simp add: mask_eq_exp_minus_1)
    show ?thesis unfolding m bit_mask_iff using that by simp
  qed
  moreover have "bit (0x0F :: u8) j \<longleftrightarrow> j < 4" if "j < 8" for j :: nat
  proof -
    have m: "(0x0F :: u8) = mask 4" by (simp add: mask_eq_exp_minus_1)
    show ?thesis unfolding m bit_mask_iff using that by simp
  qed
  ultimately have "bit_set some_bitmap k \<longleftrightarrow> k div 8 \<noteq> 7 \<or> k mod 8 < 4"
    using k by (simp add: bit_set_bit some_bitmap_def nth_list_update)
  also have "\<dots> \<longleftrightarrow> \<not> (60 \<le> k \<and> k < 64)" by presburger
  finally show ?thesis .
qed

lemma file_fs_sel:
  "logstart file_fs = 2" "logsize file_fs = 30" "outstanding file_fs = 1" "\<not> committing file_fs"
  "logdev file_fs = 1" "lh file_fs = []" "inodes file_fs = [inode0\<lparr>isize := 500\<rparr>]" "sb file_fs = sb fs_fields"
proof -
  have m: "bio_state.more file_fs = bio_state.more (fs_fields\<lparr>inodes := [inode0\<lparr>isize := 500\<rparr>]\<rparr>)"
    by (simp add: file_fs_def boot_bio(8))
  then have "only_bio (fs_fields\<lparr>inodes := [inode0\<lparr>isize := 500\<rparr>]\<rparr>) file_fs" by (simp add: only_bio_def)
  note f = more_fs_fields [OF only_bio_log_more [OF this]]
  show "logstart file_fs = 2" "logsize file_fs = 30" "outstanding file_fs = 1" "\<not> committing file_fs"
    "logdev file_fs = 1" "lh file_fs = []" "inodes file_fs = [inode0\<lparr>isize := 500\<rparr>]" "sb file_fs = sb fs_fields"
    using more_log_fields [OF m] f by (simp_all add: fs_fields_def)
qed

lemma file_fs_data: "cdata file_fs = (\<lambda>n. if n = 58 then some_bitmap else replicate BSIZE 0)"
  by (simp only: file_fs_def boot_bio)

lemma file_fs_txn: "in_txn file_fs"
proof -
  have "cinv {} file_fs" "cdirty file_fs = (\<lambda>_. False)" by (simp_all only: file_fs_def boot_bio)
  then show ?thesis by (simp add: in_txn_def log_ready_def file_fs_sel)
qed

lemma file_fs_free: "is_free file_fs a \<longleftrightarrow> 60 \<le> unat a \<and> unat a < 64"
proof (cases "unat a < 1000")
  case True
  then show ?thesis using bit_some_bitmap [of "unat a"]
    by (simp add: is_free_def file_fs_data file_fs_sel fs_fields_def BBLOCK_def)
qed (simp add: is_free_def file_fs_sel fs_fields_def)

lemma file_fs_block: "block_of file_fs 0 k = (if k = 0 then 59 else 0)" if "k < 140"
  using that by (auto simp: block_of_def fblock_def file_fs_sel inode0_def nth_Cons')

lemma file_fs_file: "file_is file_fs 0 (replicate 500 0)"
proof -
  have ib: "inode_home file_fs 0 = 32" "bitmap_block file_fs = 58" "IBLOCK 7 (sb file_fs) = 32"
    by (simp_all add: IBLOCK_def BBLOCK_def file_fs_sel fs_fields_def inode0_def)
  have has: "has_block file_fs 0 a \<longleftrightarrow> a = 59" for a
    by (auto simp: has_block_def file_fs_block file_fs_sel inode0_def split: if_splits intro: exI [of _ "0 :: nat"])
  have "data_block file_fs 0 a" if "59 \<le> unat a" "unat a < 64" for a
    using that unfolding data_block_def ib
    by (auto simp: file_fs_sel(1) file_fs_data log_area_def word_less_nat_alt word_le_nat_alt)
  moreover have "inode_block_ok 7 file_fs"
    by (simp add: inode_block_ok_def ib file_fs_data file_fs_sel(1) log_area_def)
  moreover have "length some_bitmap = BSIZE" by (simp add: some_bitmap_def)
  ultimately have "layout file_fs 0" "blocks_ok file_fs 0"
    unfolding layout_def blocks_ok_def ib has
    by (auto simp: file_fs_free file_fs_block file_fs_data file_fs_sel(1,7) log_area_def inode0_def)
       (simp_all add: file_fs_sel fs_fields_def)
  then show ?thesis
    by (intro file_isI) (auto simp: file_fs_sel inode0_def file_fs_block file_byte_def file_fs_data)
qed

lemma writei_overwrites_witness:
  "\<exists>t u. writei (\<lambda>_. None) 0 (replicate 600 7) 500 file_fs = Inr (600, t) \<and> isize (inodes t ! 0) = 1100
    \<and> readi (\<lambda>_. None) 0 490 20 t = Inr ((20, replicate 10 0 @ replicate 10 7), u)"
proof -
  have "{60, 61, 62, 63} \<subseteq> {a. is_free file_fs a}" by (simp add: file_fs_free)
  then have "4 \<le> free_blocks file_fs"
    unfolding free_blocks_def using card_mono [of "{a. is_free file_fs a}" "{60, 61, 62, 63 :: u32}"] by simp
  then have sup: "supplied file_fs 0 (unat (500 :: u32)) (length (replicate 600 (7 :: u8)))"
    by (simp add: supplied_def spans_def file_fs_sel inode0_def)
  have fit: "log_fits (log_need file_fs 0 + spans (unat (500 :: u32)) (length (replicate 600 (7 :: u8)))) file_fs"
    by (simp add: log_fits_def log_need_def spans_def file_fs_sel)
  let ?g = "overwrite (unat (500 :: u32)) (replicate 600 7) (replicate 500 (0 :: u8))"
  obtain t where t: "writei (\<lambda>_. None) 0 (replicate 600 7) 500 file_fs = Inr (of_nat (length (replicate 600 (7 :: u8))), t)"
    "file_is t 0 ?g"
    "\<forall>off' n. unat off' \<le> length ?g \<and> unat off' + unat n < 2 ^ 32 \<longrightarrow>
        (\<exists>u. readi (\<lambda>_. None) 0 off' n t = Inr ((of_nat (min (unat n) (length ?g - unat off')), take (unat n) (drop (unat off') ?g)), u))"
    using writei_overwrites [OF file_fs_txn file_fs_file _ _ sup fit, of "\<lambda>_. None"] by auto
  have g: "?g = replicate 500 0 @ replicate 600 7" by (simp add: overwrite_def)
  obtain u where "readi (\<lambda>_. None) 0 490 20 t = Inr ((20, replicate 10 0 @ replicate 10 7), u)"
    using t(3) [rule_format, of 490 20] unfolding g by auto
  moreover have "isize (inodes t ! 0) = 1100"
    using t(2) unfolding g by (simp add: file_is_def word_unat_eq_iff)
  ultimately show ?thesis using t(1) by auto
qed

end
