(* ===== verification/Xv6_Grep.thy ===== *)
theory Xv6_Grep
  imports Xv6_Prelude
begin

text \<open>
  The user program \<open>grep.c\<close>: the matcher for \<open>^ . * $\<close> and the loop that feeds it the lines of a
  file through a buffer of 1024 bytes. C strings are the lists of their characters before the NUL.
\<close>

section \<open>The matcher\<close>

abbreviation (input) c_star :: u8 where "c_star \<equiv> 42"
abbreviation (input) c_dot :: u8 where "c_dot \<equiv> 46"
abbreviation (input) c_dollar :: u8 where "c_dollar \<equiv> 36"
abbreviation (input) c_caret :: u8 where "c_caret \<equiv> 94"
abbreviation (input) c_nl :: u8 where "c_nl \<equiv> 10"

function matchhere :: "bytes \<Rightarrow> bytes \<Rightarrow> bool" and matchstar :: "u8 \<Rightarrow> bytes \<Rightarrow> bytes \<Rightarrow> bool" where
  "matchhere re text =
     (case re of [] \<Rightarrow> True
      | c # rest \<Rightarrow>
          if rest \<noteq> [] \<and> hd rest = c_star then matchstar c (tl rest) text
          else if c = c_dollar \<and> rest = [] then text = []
          else case text of [] \<Rightarrow> False | x # xs \<Rightarrow> (c = c_dot \<or> c = x) \<and> matchhere rest xs)"
| "matchstar c re text =
     (matchhere re text \<or>
      (case text of [] \<Rightarrow> False | x # xs \<Rightarrow> (x = c \<or> c = c_dot) \<and> matchstar c re xs))"
  by pat_completeness auto
termination
  by (relation "measures [\<lambda>a. case a of Inl (re, t) \<Rightarrow> length re | Inr (c, re, t) \<Rightarrow> length re,
      \<lambda>a. case a of Inl (re, t) \<Rightarrow> length t | Inr (c, re, t) \<Rightarrow> length t,
      \<lambda>a. case a of Inl _ \<Rightarrow> 0 | Inr _ \<Rightarrow> 1]") auto

declare matchhere.simps [simp del] matchstar.simps [simp del]

fun match_any :: "bytes \<Rightarrow> bytes \<Rightarrow> bool" where
  "match_any re text = (matchhere re text \<or> (case text of [] \<Rightarrow> False | x # xs \<Rightarrow> match_any re xs))"

declare match_any.simps [simp del]

definition match :: "bytes \<Rightarrow> bytes \<Rightarrow> bool" where
  "match re text = (if re \<noteq> [] \<and> hd re = c_caret then matchhere (tl re) text else match_any re text)"

section \<open>Lines\<close>

text \<open>
  One pass over the bytes in the buffer: each complete line that matches its written with its
  newline. \<open>strchr\<close> also stops at a NUL. The result is the output and the bytes after the last line.
\<close>

function grep_scan :: "bytes \<Rightarrow> bytes \<Rightarrow> bytes \<times> bytes" where
  "grep_scan pat p =
     (let l = takeWhile (\<lambda>c. c \<noteq> c_nl \<and> c \<noteq> 0) p; r = drop (length l) p in
      if r = [] \<or> hd r = 0 then ([], p)
      else
        let (out, rest) = grep_scan pat (tl r)
        in ((if match pat l then l @ [c_nl] else []) @ out, rest))"
  by pat_completeness auto
termination
proof (relation "measure (\<lambda>(pat, p). length p)")
  fix pat p l r :: bytes
  assume "l = takeWhile (\<lambda>c. c \<noteq> c_nl \<and> c \<noteq> 0) p" "r = drop (length l) p" "\<not> (r = [] \<or> hd r = 0)"
  then show "((pat, tl r), (pat, p)) \<in> measure (\<lambda>(pat, p). length p)" by (cases r) auto
qed simp

declare grep_scan.simps [simp del]

text \<open>
  What a descriptor has to read comes in pieces: a file is one piece, a line typed at the console or what a
  pipe holds at the moment is a piece. \<open>read\<close> takes from the first piece as much as is asked for, and never from
  two pieces; with no piece, or an empty one, it returns 0.
\<close>

fun read_piece :: "nat \<Rightarrow> bytes list \<Rightarrow> bytes \<times> bytes list" where
  "read_piece n [] = ([], [])"
| "read_piece n (c # cs) = (take n c, if length c \<le> n then cs else drop n c # cs)"

lemma read_piece_concat: "read_piece n cs = (d, ds) \<Longrightarrow> concat cs = d @ concat ds"
  by (cases cs) (auto split: if_splits)

text \<open>The loop of \<open>grep\<close>: \<open>kept\<close> is what the buffer holds from the reads before.\<close>

function grep :: "bytes \<Rightarrow> bytes \<Rightarrow> bytes list \<Rightarrow> bytes" where
  "grep pat kept pieces =
     (let (d, pieces) = read_piece (1023 - length kept) pieces in
      if d = [] then []
      else
        let buf = kept @ d; (out, rest) = grep_scan pat buf
        in out @ grep pat (if length rest = length buf then [] else rest) pieces)"
  by pat_completeness auto
termination
proof (relation "measure (\<lambda>(pat, kept, pieces). length (concat pieces))")
  fix pat kept pieces x d ds buf y out rest
  assume "x = read_piece (1023 - length kept) pieces" "(d, ds) = x" "d \<noteq> []"
  then have "concat pieces = d @ concat ds" by (simp add: read_piece_concat)
  then show "((pat, if length rest = length buf then [] else rest, ds), (pat, kept, pieces))
      \<in> measure (\<lambda>(pat, kept, pieces). length (concat pieces))"
    using \<open>d \<noteq> []\<close> by simp
qed simp

declare grep.simps [simp del]

section \<open>What a pattern means\<close>

text \<open>A pattern as a list of items, and the texts it matches, with what comes after.\<close>

datatype item = One u8 | Many u8 | End

fun items :: "bytes \<Rightarrow> item list" where
  "items [] = []"
| "items [c] = (if c = c_dollar then [End] else [One c])"
| "items (c # d # re) = (if d = c_star then Many c # items re else One c # items (d # re))"

definition fits :: "u8 \<Rightarrow> u8 \<Rightarrow> bool" where
  "fits c x \<longleftrightarrow> c = c_dot \<or> c = x"

inductive matches :: "item list \<Rightarrow> bytes \<Rightarrow> bytes \<Rightarrow> bool" where
  m_nil: "matches [] [] v"
| m_one: "fits c x \<Longrightarrow> matches its u v \<Longrightarrow> matches (One c # its) (x # u) v"
| m_many: "\<forall>x \<in> set xs. fits c x \<Longrightarrow> matches its u v \<Longrightarrow> matches (Many c # its) (xs @ u) v"
| m_end: "matches [End] [] []"

inductive_cases matches_nilE: "matches [] u v"
inductive_cases matches_oneE: "matches (One c # its) u v"
inductive_cases matches_manyE: "matches (Many c # its) u v"
inductive_cases matches_endE: "matches [End] u v"

abbreviation matches_prefix :: "item list \<Rightarrow> bytes \<Rightarrow> bool" where
  "matches_prefix its t \<equiv> \<exists>u v. t = u @ v \<and> matches its u v"

lemma prefix_nil: "matches_prefix [] t"
  by (auto intro: m_nil)

lemma prefix_one: "matches_prefix (One c # its) t \<longleftrightarrow> (\<exists>x xs. t = x # xs \<and> fits c x \<and> matches_prefix its xs)"
proof
  assume "matches_prefix (One c # its) t"
  then obtain u v where "t = u @ v" "matches (One c # its) u v" by blast
  then show "\<exists>x xs. t = x # xs \<and> fits c x \<and> matches_prefix its xs"
    by (elim matches_oneE) (metis append_Cons)
next
  assume "\<exists>x xs. t = x # xs \<and> fits c x \<and> matches_prefix its xs"
  then obtain x u v where "t = (x # u) @ v" "fits c x" "matches its u v" by auto
  then show "matches_prefix (One c # its) t" using m_one by blast
qed

lemma prefix_end: "matches_prefix [End] t \<longleftrightarrow> t = []"
  by (auto elim!: matches_endE intro: m_end)

lemma prefix_many:
  "matches_prefix (Many c # its) t \<longleftrightarrow>
     matches_prefix its t \<or> (\<exists>x xs. t = x # xs \<and> fits c x \<and> matches_prefix (Many c # its) xs)"
proof
  assume "matches_prefix (Many c # its) t"
  then obtain xs u v where t: "t = (xs @ u) @ v" "\<forall>x \<in> set xs. fits c x" "matches its u v"
    by (auto elim!: matches_manyE)
  show "matches_prefix its t \<or> (\<exists>x xs. t = x # xs \<and> fits c x \<and> matches_prefix (Many c # its) xs)"
  proof (cases xs)
    case Nil
    then show ?thesis using t by auto
  next
    case (Cons x ys)
    then have "matches (Many c # its) (ys @ u) v" using t by (intro m_many) auto
    then show ?thesis using t Cons by auto
  qed
next
  assume "matches_prefix its t \<or> (\<exists>x xs. t = x # xs \<and> fits c x \<and> matches_prefix (Many c # its) xs)"
  then show "matches_prefix (Many c # its) t"
  proof
    assume "matches_prefix its t"
    then show ?thesis using m_many [of "[]" c its] by auto
  next
    assume "\<exists>x xs. t = x # xs \<and> fits c x \<and> matches_prefix (Many c # its) xs"
    then obtain x xs ys u v where t: "t = x # (ys @ u) @ v" "fits c x" "\<forall>y \<in> set ys. fits c y" "matches its u v"
      by (auto elim!: matches_manyE)
    then have "matches (Many c # its) ((x # ys) @ u) v" by (intro m_many) auto
    then show ?thesis using t(1) by (intro exI [of _ "(x # ys) @ u"] exI [of _ v]) simp
  qed
qed

lemma matchhere_iff: "matchhere re t \<longleftrightarrow> matches_prefix (items re) t"
  and matchstar_iff: "matchstar c re t \<longleftrightarrow> matches_prefix (Many c # items re) t"
proof (induction re t and c re t rule: matchhere_matchstar.induct)
  case (1 re t)
  show ?case
  proof (cases re)
    case (Cons c rest)
    show ?thesis
    proof (cases "rest \<noteq> [] \<and> hd rest = c_star")
      case True
      then obtain re2 where "rest = c_star # re2" by (cases rest) auto
      then show ?thesis using 1(1) [OF Cons True] Cons by (subst matchhere.simps) simp
    next
      case False
      have it: "items re = (if c = c_dollar \<and> rest = [] then [End] else One c # items rest)"
        using False Cons by (cases rest) auto
      show ?thesis
      proof (cases "c = c_dollar \<and> rest = []")
        case True
        then show ?thesis using Cons it prefix_end [where t = t] by (subst matchhere.simps) simp
      next
        case nd: False
        then show ?thesis
          using Cons False it 1(2) [OF Cons False nd] prefix_one [where c = c and its = "items rest" and t = t]
          by (subst matchhere.simps; cases t) (auto simp: fits_def)
      qed
    qed
  qed (simp add: matchhere.simps prefix_nil)
next
  case (2 c re t)
  then show ?case using prefix_many [where c = c and its = "items re" and t = t]
    by (subst matchstar.simps) (auto simp: fits_def split: list.splits)
qed

lemma match_any_iff: "match_any re t \<longleftrightarrow> (\<exists>p u v. t = p @ u @ v \<and> matches (items re) u v)"
proof (induction t)
  case Nil
  then show ?case by (subst match_any.simps) (simp add: matchhere_iff)
next
  case (Cons x t)
  have "(\<exists>p u v. x # t = p @ u @ v \<and> matches (items re) u v) \<longleftrightarrow>
      matches_prefix (items re) (x # t) \<or> (\<exists>p u v. t = p @ u @ v \<and> matches (items re) u v)"
  proof
    assume "\<exists>p u v. x # t = p @ u @ v \<and> matches (items re) u v"
    then obtain p u v where p: "x # t = p @ u @ v" "matches (items re) u v" by blast
    then show "matches_prefix (items re) (x # t) \<or> (\<exists>p u v. t = p @ u @ v \<and> matches (items re) u v)"
      by (cases p) auto
  next
    assume "matches_prefix (items re) (x # t) \<or> (\<exists>p u v. t = p @ u @ v \<and> matches (items re) u v)"
    then show "\<exists>p u v. x # t = p @ u @ v \<and> matches (items re) u v"
      by (metis append_Cons append_Nil)
  qed
  then show ?case using Cons by (subst match_any.simps) (simp add: matchhere_iff)
qed


text \<open>C24. The matcher decides what a pattern means: each character matches itself, a dot any character, a star any number of what stands before it, a dollar at the end of the pattern the end of the text; the match may start anywhere unless the pattern starts with a caret.\<close>

theorem match_iff:
  "match re t \<longleftrightarrow>
     (if re \<noteq> [] \<and> hd re = c_caret then \<exists>u v. t = u @ v \<and> matches (items (tl re)) u v
      else \<exists>p u v. t = p @ u @ v \<and> matches (items re) u v)"
  by (simp add: match_def matchhere_iff match_any_iff)

section \<open>Printing the lines that match\<close>

definition unlines :: "bytes list \<Rightarrow> bytes" where
  "unlines ls = concat (map (\<lambda>l. l @ [c_nl]) ls)"

lemma unlines_simps [simp]: "unlines [] = []" "unlines (l # ls) = l @ c_nl # unlines ls"
  by (simp_all add: unlines_def)

definition text_line :: "bytes \<Rightarrow> bool" where
  "text_line l \<longleftrightarrow> c_nl \<notin> set l \<and> 0 \<notin> set l"

lemma grep_scan_lines:
  assumes "\<forall>l \<in> set ls. text_line l" and "text_line r"
  shows "grep_scan pat (unlines ls @ r) = (unlines (filter (match pat) ls), r)"
  using assms(1)
proof (induction ls)
  case Nil
  have w: "takeWhile (\<lambda>c. c \<noteq> c_nl \<and> c \<noteq> 0) r = r"
    using assms(2) by (auto simp: text_line_def takeWhile_eq_all_conv)
  show ?case by (subst grep_scan.simps) (simp add: w Let_def)
next
  case (Cons l ls)
  have "\<forall>x \<in> set l. x \<noteq> c_nl \<and> x \<noteq> 0" using Cons.prems by (auto simp: text_line_def)
  then have l: "takeWhile (\<lambda>c. c \<noteq> c_nl \<and> c \<noteq> 0) (l @ c_nl # unlines ls @ r) = l"
    by (simp add: takeWhile_append2)
  show ?case using Cons by (subst grep_scan.simps) (simp add: l Let_def)
qed

text \<open>The first \<open>k\<close> bytes of a text are whole lines and the beginning of the next.\<close>

lemma take_unlines:
  assumes "\<forall>l \<in> set ls. text_line l" and "text_line r"
  shows "\<exists>as bs q. ls = as @ bs \<and> take k (unlines ls @ r) = unlines as @ q \<and> text_line q
    \<and> q @ drop k (unlines ls @ r) = unlines bs @ r"
  using assms(1)
proof (induction ls arbitrary: k)
  case Nil
  have "text_line (take k r)" using assms(2) by (auto simp: text_line_def dest: in_set_takeD)
  then show ?case by (intro exI [of _ "[]"] exI [of _ "take k r"]) simp
next
  case (Cons l ls)
  show ?case
  proof (cases "k \<le> length l")
    case True
    have "text_line (take k l)" using Cons.prems by (auto simp: text_line_def dest: in_set_takeD)
    moreover have "take k l @ drop k l = l" by simp
    ultimately show ?thesis using True
      by (intro exI [of _ "[]"] exI [of _ "l # ls"] exI [of _ "take k l"])
        (simp flip: append_assoc)
  next
    case False
    then obtain j where k: "k = length l + Suc j" by (metis add_Suc_right less_imp_Suc_add not_le)
    obtain as bs q where "ls = as @ bs" "take j (unlines ls @ r) = unlines as @ q" "text_line q"
      "q @ drop j (unlines ls @ r) = unlines bs @ r"
      using Cons.IH [of j] Cons.prems by auto
    then show ?thesis using k by (intro exI [of _ "l # as"] exI [of _ bs] exI [of _ q]) simp
  qed
qed

lemma unlines_text_line: "text_line (unlines ls @ r) \<Longrightarrow> ls = []"
  by (cases ls) (auto simp: text_line_def)

text \<open>The pieces of a text: none is empty, and only the last may end within a line.\<close>

definition whole_lines :: "bytes list \<Rightarrow> bool" where
  "whole_lines pieces \<longleftrightarrow> [] \<notin> set pieces \<and> (\<forall>c \<in> set (butlast pieces). last c = c_nl)"

lemma whole_lines_read:
  assumes "whole_lines (c # cs)"
  shows "c \<noteq> []" "cs \<noteq> [] \<Longrightarrow> last c = c_nl" "whole_lines cs" "n < length c \<Longrightarrow> whole_lines (drop n c # cs)"
  using assms by (auto simp: whole_lines_def last_drop split: if_splits)

text \<open>A read that leaves the buffer without a newline has come to the end of the last line.\<close>

lemma no_newline:
  assumes "whole_lines (c # cs)" and "kept @ c @ concat cs = unlines ls @ r" and "\<forall>l \<in> set ls. length l < 1023"
    and "n = 1023 - length kept" and "length kept < 1023" and nl: "c_nl \<notin> set (kept @ take n c)"
  shows "ls = []"
proof (rule ccontr)
  assume "ls \<noteq> []"
  then obtain l ms where l: "ls = l # ms" by (cases ls) auto
  then have len: "length l < 1023" using assms(3) by simp
  have "kept @ c @ concat cs = l @ c_nl # unlines ms @ r" using assms(2) l by simp
  moreover have "kept @ take n c = take (length kept + min n (length c)) (kept @ c @ concat cs)" by (simp add: min_def)
  ultimately have "kept @ take n c = take (length kept + min n (length c)) (l @ c_nl # unlines ms @ r)" by simp
  then have "length kept + min n (length c) \<le> length l"
    using nl by (auto simp: take_Cons' split: if_splits)
  then have c: "length c < n" using len assms(4,5) by (simp add: min_def split: if_splits)
  have "cs \<noteq> []"
  proof
    assume "cs = []"
    then have "length (kept @ c) = length (l @ c_nl # unlines ms @ r)" using assms(2) l by simp
    then show False using \<open>length kept + min n (length c) \<le> length l\<close> c by simp
  qed
  then have "c_nl \<in> set c" using whole_lines_read(1,2) [OF assms(1)] last_in_set by metis
  then show False using nl c by simp
qed

lemma grep_lines:
  assumes "whole_lines pieces" and "kept @ concat pieces = unlines ls @ r"
    and "\<forall>l \<in> set ls. text_line l \<and> length l < 1023" and "text_line r" and "text_line kept" and "length kept < 1023"
  shows "grep pat kept pieces = unlines (filter (match pat) ls)"
  using assms
proof (induction "length (concat pieces)" arbitrary: kept pieces ls r rule: less_induct)
  case less
  show ?case
  proof (cases pieces)
    case Nil
    then have "ls = []" using less.prems(2,5) unlines_text_line [of ls r] by simp
    then show ?thesis using Nil by (subst grep.simps) simp
  next
    case (Cons c cs)
    define n where "n = 1023 - length kept"
    define rest where "rest = (if length c \<le> n then cs else drop n c # cs)"
    let ?buf = "kept @ take n c" and ?k = "length (kept @ take n c)"
    note w = whole_lines_read [OF less.prems(1) [unfolded Cons]]
    have n: "0 < n" "take n c \<noteq> []" using less.prems(6) w(1) by (simp_all add: n_def)
    have wr: "whole_lines rest" using w(3,4) by (simp add: rest_def)
    have lines: "\<forall>l \<in> set ls. text_line l" using less.prems(3) by blast
    have "take n c @ concat rest = c @ concat cs" by (simp add: rest_def flip: append_assoc)
    then have all: "?buf @ concat rest = unlines ls @ r" using less.prems(2) by (simp add: Cons)
    then have buf: "?buf = take ?k (unlines ls @ r)" "concat rest = drop ?k (unlines ls @ r)"
      by (metis append_eq_conv_conj)+
    obtain as bs q where s: "ls = as @ bs" "take ?k (unlines ls @ r) = unlines as @ q" "text_line q"
      "q @ drop ?k (unlines ls @ r) = unlines bs @ r"
      using take_unlines [OF lines less.prems(4)] by blast
    have b: "?buf = unlines as @ q" by (rule trans [OF buf(1) s(2)])
    have scan: "grep_scan pat ?buf = (unlines (filter (match pat) as), q)"
      unfolding b by (rule grep_scan_lines) (use lines s(1,3) in auto)
    have step: "grep pat kept pieces = unlines (filter (match pat) as) @ grep pat (if length q = ?k then [] else q) rest"
      using scan n(2) by (subst grep.simps) (simp add: Cons rest_def n_def [symmetric] Let_def)
    have "concat pieces = take n c @ concat rest" by (simp add: Cons rest_def)
    then have short: "length (concat rest) < length (concat pieces)" using n(2) by simp
    show ?thesis
    proof (cases "as = []")
      case True
      then have q: "q = ?buf" using b by simp
      have ls: "ls = []"
        by (rule no_newline [of c cs kept ls r n])
          (use less.prems Cons q s(3) in \<open>auto simp: n_def text_line_def\<close>)
      then have "text_line (concat rest)" using all less.prems(4) ls by (auto simp: text_line_def)
      then have "grep pat [] rest = unlines (filter (match pat) [])"
        using less.hyps [OF short wr, of "[]" "[]" "concat rest"] by (simp add: text_line_def)
      then show ?thesis using step q True ls by simp
    next
      case False
      then have "length q < ?k" unfolding b by (cases as) auto
      moreover have "?k \<le> 1023" using less.prems(6) by (simp add: n_def)
      moreover have "q @ concat rest = unlines bs @ r" using s(4) buf(2) by simp
      ultimately show ?thesis
        using step less.hyps [OF short wr, of q bs r] less.prems(3,4) s(1,3) by (simp add: unlines_def)
    qed
  qed
qed

text \<open>
  A piece that ends within a line: when the buffer holds no newline after a read, \<open>if(p == buf) m = 0\<close> throws it away.
  A line that comes in two pieces is only matched from the second piece on.
\<close>

lemma grep_drops_line:
  assumes "text_line (kept @ c)" and "c \<noteq> []" and "length (kept @ c) < 1024"
  shows "grep pat kept (c # cs) = grep pat [] cs"
proof -
  have "grep_scan pat (unlines [] @ kept @ c) = (unlines (filter (match pat) []), kept @ c)"
    by (rule grep_scan_lines) (use assms(1) in simp_all)
  moreover have "length c \<le> 1023 - length kept" using assms(3) by simp
  ultimately show ?thesis using assms(2) by (subst grep.simps) simp
qed

lemma grep_loses_partial_line:
  "grep [97, 98] [] [[97, 98, 10]] = [97, 98, 10]" "grep [97, 98] [] [[97], [98, 10]] = []"
proof -
  have "whole_lines [[97, 98, 10]]" "whole_lines [[98, 10]]" by (simp_all add: whole_lines_def)
  note g = grep_lines [OF this(1), of "[]" "[[97, 98]]" "[]" "[97, 98]"] grep_lines [OF this(2), of "[]" "[[98]]" "[]" "[97, 98]"]
  have "match [97, 98] [97, 98]" "\<not> match [97, 98] [98]" by (simp_all add: match_def matchhere.simps match_any.simps)
  then show "grep [97, 98] [] [[97, 98, 10]] = [97, 98, 10]" "grep [97, 98] [] [[97], [98, 10]] = []"
    using g by (simp_all add: text_line_def grep_drops_line)
qed



end
