(* ===== verification/Xv6_Ulib.thy ===== *)
theory Xv6_Ulib
  imports Xv6_String
begin

text \<open>
  The library of the user programs: the string routines of \<open>ulib.c\<close> and the formatted output of
  \<open>printf.c\<close>. A routine that only reads a string is given the characters before its NUL; the output
  of \<open>putc\<close> is the list of the bytes it writes.
\<close>

section \<open>Strings and memory (ulib.c)\<close>

text \<open>\<open>strcpy\<close> copies bytes up to and with the NUL; without one it does not stop.\<close>

partial_function (option) strcpy_loop :: "u32 \<Rightarrow> u32 \<Rightarrow> memory \<Rightarrow> memory option" where
  "strcpy_loop s t m =
     (let m' = m(s := m t) in if m' s \<noteq> 0 then strcpy_loop (s + 1) (t + 1) m' else Some m')"

definition strcpy :: "u32 \<Rightarrow> u32 \<Rightarrow> memory \<Rightarrow> memory option" where
  "strcpy s t m = strcpy_loop s t m"

fun strcmp :: "bytes \<Rightarrow> bytes \<Rightarrow> i32" where
  "strcmp (x # p) (y # q) = (if x = y then strcmp p q else ucast x - ucast y)"
| "strcmp (x # p) [] = ucast x"
| "strcmp [] (y # q) = - ucast y"
| "strcmp [] [] = 0"

definition memset_u :: "u32 \<Rightarrow> i32 \<Rightarrow> u32 \<Rightarrow> memory \<Rightarrow> memory" where
  "memset_u dst c n m = stosb dst (ucast c) (unat n) m"

text \<open>\<open>strchr\<close>: the place of the first \<open>c\<close>; the NUL itself is not found.\<close>

fun strchr :: "bytes \<Rightarrow> u8 \<Rightarrow> nat option" where
  "strchr [] c = None"
| "strchr (x # s) c = (if x = c then Some 0 else map_option Suc (strchr s c))"

text \<open>
  \<open>gets\<close> from an input that \<open>read(0, &c, 1)\<close> takes byte by byte, \<open>room\<close> being how often \<open>i+1 < max\<close>
  still holds (\<open>lim\<close> is its parameter \<open>max\<close>): the contents of the buffer before the NUL, and the input left.
\<close>

fun gets_loop :: "nat \<Rightarrow> bytes \<Rightarrow> bytes \<times> bytes" where
  "gets_loop 0 inp = ([], inp)"
| "gets_loop (Suc room) [] = ([], [])"
| "gets_loop (Suc room) (c # inp) =
     (if c = 10 \<or> c = 13 then ([c], inp)
      else let (buf, rest) = gets_loop room inp in (c # buf, rest))"

definition gets :: "int \<Rightarrow> bytes \<Rightarrow> bytes \<times> bytes" where
  "gets lim inp = (let (buf, rest) = gets_loop (nat (lim - 1)) inp in (buf @ [0], rest))"

text \<open>\<open>atoi\<close> with the wrap-around of the 32-bit registers it runs in.\<close>

fun atoi_loop :: "i32 \<Rightarrow> bytes \<Rightarrow> i32" where
  "atoi_loop n [] = n"
| "atoi_loop n (c # s) = (if 48 \<le> c \<and> c \<le> 57 then atoi_loop (n * 10 + ucast c - 48) s else n)"

definition atoi :: "bytes \<Rightarrow> i32" where
  "atoi s = atoi_loop 0 s"

text \<open>This \<open>memmove\<close> always copies upwards.\<close>

definition memmove_u :: "u32 \<Rightarrow> u32 \<Rightarrow> i32 \<Rightarrow> memory \<Rightarrow> memory" where
  "memmove_u vdst vsrc n m = copy_fwd vdst vsrc (nat (sint n)) m"

section \<open>Formatted output (printf.c)\<close>

definition digits_u :: "nat \<Rightarrow> u8" where
  "digits_u d = (if d < 10 then of_nat (48 + d) else of_nat (55 + d))"

function digit_loop_u :: "nat \<Rightarrow> nat \<Rightarrow> bytes" where
  "digit_loop_u base x =
     digits_u (x mod base) # (if base < 2 \<or> x div base = 0 then [] else digit_loop_u base (x div base))"
  by pat_completeness auto
termination by (relation "measure (\<lambda>(base, x). x)") (auto simp: div_greater_zero_iff not_less)

declare digit_loop_u.simps [simp del]

definition printint_u :: "i32 \<Rightarrow> nat \<Rightarrow> bool \<Rightarrow> bytes" where
  "printint_u xx base sg =
     (let neg = sg \<and> sint xx < 0; x = (if neg then - xx else xx); buf = digit_loop_u base (unat x)
      in rev (if neg then buf @ [45] else buf))"

text \<open>
  An argument on the stack, and the C string an \<open>s\<close> argument points to, \<open>None\<close> for a null pointer;
  reading an argument that was not passed is undefined.
\<close>

datatype uarg = UInt u32 | UStr "bytes option"

text \<open>The loop over the format; \<open>pct\<close> holds when the last character was a \<open>%\<close> not yet used.\<close>

fun printf_loop :: "bool \<Rightarrow> bytes \<Rightarrow> uarg list \<Rightarrow> stop + bytes" where
  "printf_loop pct [] as = Inr []"
| "printf_loop pct (c # fmt) as =
     (if \<not> pct then
        if c = 37 then printf_loop True fmt as
        else bindE (printf_loop False fmt as) (\<lambda>r. Inr (c # r))
      else if c = 100 then
        (case as of UInt w # as \<Rightarrow> bindE (printf_loop False fmt as) (\<lambda>r. Inr (printint_u w 10 True @ r))
         | _ \<Rightarrow> Inl (Fault ''printf argument''))
      else if c = 120 \<or> c = 112 then
        (case as of UInt w # as \<Rightarrow> bindE (printf_loop False fmt as) (\<lambda>r. Inr (printint_u w 16 False @ r))
         | _ \<Rightarrow> Inl (Fault ''printf argument''))
      else if c = 115 then
        (case as of
           UStr None # as \<Rightarrow> bindE (printf_loop False fmt as) (\<lambda>r. Inr ([40, 110, 117, 108, 108, 41] @ r))
         | UStr (Some x) # as \<Rightarrow> bindE (printf_loop False fmt as) (\<lambda>r. Inr (x @ r))
         | _ \<Rightarrow> Inl (Fault ''printf argument''))
      else if c = 99 then
        (case as of UInt w # as \<Rightarrow> bindE (printf_loop False fmt as) (\<lambda>r. Inr (ucast w # r))
         | _ \<Rightarrow> Inl (Fault ''printf argument''))
      else if c = 37 then bindE (printf_loop False fmt as) (\<lambda>r. Inr (c # r))
      else bindE (printf_loop False fmt as) (\<lambda>r. Inr (37 # c # r)))"

definition printf :: "bytes \<Rightarrow> uarg list \<Rightarrow> stop + bytes" where
  "printf fmt as = printf_loop False fmt as"

section \<open>Facts about the strings\<close>

lemma strchr_None [simp]: "strchr s c = None \<longleftrightarrow> c \<notin> set s"
  by (induction s) auto

lemma strchr_Some: "strchr s c = Some i \<Longrightarrow> i < length s \<and> s ! i = c \<and> c \<notin> set (take i s)"
  by (induction s arbitrary: i) (auto split: if_splits)

text \<open>\<open>gets\<close> hands out what it reads: nothing is lost between calls.\<close>

lemma gets_loop_split: "gets_loop n inp = (buf, rest) \<Longrightarrow> buf @ rest = inp \<and> length buf \<le> n"
proof (induction n inp arbitrary: buf rule: gets_loop.induct)
  case (3 room c inp)
  then show ?case by (auto split: if_splits prod.splits)
qed auto

section \<open>Printing and reading numbers\<close>

lemma word_eq_if_digit: "d < 10 \<Longrightarrow> 48 \<le> digits_u d \<and> digits_u d \<le> 57 \<and> (ucast (digits_u d) :: i32) - 48 = of_nat d"
proof -
  assume "d < 10"
  then have "d \<in> {0, 1, 2, 3, 4, 5, 6, 7, 8, 9}" by auto
  then show ?thesis by (elim insertE) (simp_all add: digits_u_def)
qed

lemma atoi_loop_digit:
  "d < 10 \<Longrightarrow> atoi_loop n (digits_u d # s) = atoi_loop (n * 10 + of_nat d) s"
  using word_eq_if_digit [of d] by (simp add: add_diff_eq [symmetric])

lemma atoi_loop_append:
  "(\<And>c. c \<in> set s \<Longrightarrow> 48 \<le> c \<and> c \<le> 57) \<Longrightarrow> atoi_loop n (s @ t) = atoi_loop (atoi_loop n s) t"
  by (induction s arbitrary: n) auto

lemma digit_loop_u_digits: "c \<in> set (digit_loop_u 10 x) \<Longrightarrow> 48 \<le> c \<and> c \<le> 57"
proof (induction x rule: less_induct)
  case (less x)
  have "c = digits_u (x mod 10) \<or> x div 10 \<noteq> 0 \<and> c \<in> set (digit_loop_u 10 (x div 10))"
    using less.prems by (auto simp: digit_loop_u.simps [of 10 x] split: if_splits)
  then show ?case
  proof
    assume "c = digits_u (x mod 10)"
    then show ?thesis using word_eq_if_digit [of "x mod 10"] by simp
  next
    assume "x div 10 \<noteq> 0 \<and> c \<in> set (digit_loop_u 10 (x div 10))"
    then show ?thesis using less.IH [of "x div 10"] by (cases x) auto
  qed
qed

lemma atoi_loop_digits: "atoi_loop 0 (rev (digit_loop_u 10 x)) = of_nat x"
proof (induction x rule: less_induct)
  case (less x)
  show ?case
  proof (cases "x div 10 = 0")
    case True
    then show ?thesis
      using atoi_loop_digit [of x 0 "[]"] by (subst digit_loop_u.simps) (simp add: div_eq_0_iff)
  next
    case False
    then have "atoi_loop 0 (rev (digit_loop_u 10 x))
      = atoi_loop (atoi_loop 0 (rev (digit_loop_u 10 (x div 10)))) [digits_u (x mod 10)]"
      using digit_loop_u_digits [of _ "x div 10"]
        atoi_loop_append [of "rev (digit_loop_u 10 (x div 10))" 0 "[digits_u (x mod 10)]"]
      by (subst digit_loop_u.simps) (simp del: atoi_loop.simps(2))
    also have "\<dots> = of_nat (x div 10) * 10 + of_nat (x mod 10)"
      using less False atoi_loop_digit [of "x mod 10" _ "[]"] by simp
    also have "\<dots> = of_nat (x div 10 * 10 + x mod 10)"
      by (simp only: of_nat_add of_nat_mult of_nat_numeral)
    finally show ?thesis by (simp only: div_mult_mod_eq)
  qed
qed

text \<open>
  \<open>atoi\<close> reads back the number that \<open>printf\<close> prints with \<open>%d\<close>, for every \<open>int\<close> that is not negative;
  it does not know a sign, and gives 0 for what is printed for the others.
\<close>

theorem atoi_printint: "atoi (printint_u xx 10 True) = (if sint xx < 0 then 0 else xx)"
  by (simp add: atoi_def printint_u_def Let_def atoi_loop_digits)

end
