(* ===== verification/Xv6_Sh.thy ===== *)
theory Xv6_Sh
  imports Xv6_Ulib
begin

text \<open>
  The shell \<open>sh.c\<close>: the parser of command lines, the termination of the words in the line buffer,
  and \<open>runcmd\<close> as the system calls it makes. A line is the list \<open>t\<close> of its characters before the NUL,
  a \<open>char*\<close> into it is a position, and \<open>es\<close> is \<open>length t\<close>.
\<close>

section \<open>Commands\<close>

text \<open>
  The tagged structures for commands. A string is a pair of pointers (\<open>argv\<close> with \<open>eargv\<close>, \<open>file\<close>
  with \<open>efile\<close>) while the line is parsed, and the characters themselves for \<open>runcmd\<close>.
\<close>

datatype 'p cmd =
    EXEC "'p list"
  | REDIR "'p cmd" 'p (rmode: i32) (rfd: nat)
  | PIPE "'p cmd" "'p cmd"
  | LIST "'p cmd" "'p cmd"
  | BACK "'p cmd"

type_synonym tok = "nat \<times> nat"

abbreviation MAXARGS :: nat where "MAXARGS \<equiv> 10"
abbreviation sh_RDONLY :: i32 where "sh_RDONLY \<equiv> 0"
abbreviation sh_WRONLY_CREATE :: i32 where "sh_WRONLY_CREATE \<equiv> 0x201"

definition whitespace :: bytes where "whitespace = [32, 9, 13, 10, 11]"
definition symbols :: bytes where "symbols = [60, 124, 62, 38, 59, 40, 41]"

definition is_ws :: "u8 \<Rightarrow> bool" where "is_ws c = (strchr whitespace c \<noteq> None)"
definition is_sym :: "u8 \<Rightarrow> bool" where "is_sym c = (strchr symbols c \<noteq> None)"
definition wchar :: "u8 \<Rightarrow> bool" where "wchar c = (\<not> is_ws c \<and> \<not> is_sym c)"

section \<open>Tokens\<close>

text \<open>\<open>while(s < es && \<dots>) s++;\<close>\<close>

function skip_while :: "(u8 \<Rightarrow> bool) \<Rightarrow> bytes \<Rightarrow> nat \<Rightarrow> nat" where
  "skip_while P t s = (if s < length t \<and> P (t ! s) then skip_while P t (Suc s) else s)"
  by pat_completeness auto
termination by (relation "measure (\<lambda>(P, t, s). length t - s)") auto

declare skip_while.simps [simp del]

text \<open>The result is the token, its first character, the character after it, and the new \<open>*ps\<close>.\<close>

definition gettoken :: "bytes \<Rightarrow> nat \<Rightarrow> u8 \<times> nat \<times> nat \<times> nat" where
  "gettoken t s =
     (let q = skip_while is_ws t s; c = arr t q;
          (ret, eq) =
            (if c = 0 then (c, q)
             else if c = 124 \<or> c = 40 \<or> c = 41 \<or> c = 59 \<or> c = 38 \<or> c = 60 then (c, q + 1)
             else if c = 62 then (if arr t (q + 1) = 62 then (43, q + 2) else (c, q + 1))
             else (97, skip_while wchar t q))
      in (ret, q, eq, skip_while is_ws t eq))"

definition peek :: "bytes \<Rightarrow> nat \<Rightarrow> bytes \<Rightarrow> nat \<times> bool" where
  "peek t s toks =
     (let s = skip_while is_ws t s in (s, arr t s \<noteq> 0 \<and> strchr toks (arr t s) \<noteq> None))"

lemma skip_while_ge: "s \<le> skip_while P t s"
proof (induction P t s rule: skip_while.induct)
  case (1 P t s)
  then show ?case by (subst skip_while.simps) auto
qed

lemma skip_while_le: "s \<le> length t \<Longrightarrow> skip_while P t s \<le> length t"
proof (induction P t s rule: skip_while.induct)
  case (1 P t s)
  then show ?case by (subst skip_while.simps) auto
qed

lemma skip_while_stop: "skip_while P t s < length t \<Longrightarrow> \<not> P (t ! skip_while P t s)"
proof (induction P t s rule: skip_while.induct)
  case (1 P t s)
  then show ?case by (metis skip_while.simps)
qed

lemma skip_while_all: "s \<le> i \<Longrightarrow> i < skip_while P t s \<Longrightarrow> P (t ! i)"
proof (induction P t s rule: skip_while.induct)
  case (1 P t s)
  then show ?case by (metis Suc_leI le_less_linear le_antisym nat_less_le skip_while.simps)
qed

lemma arr_nonzero: "arr t i \<noteq> 0 \<Longrightarrow> i < length t \<and> arr t i = t ! i"
  by (auto simp: arr_def split: if_splits)

lemma is_ws_iff: "is_ws c \<longleftrightarrow> c \<in> {32, 9, 13, 10, 11}"
  by (simp add: is_ws_def whitespace_def)

lemma is_sym_iff: "is_sym c \<longleftrightarrow> c \<in> {60, 124, 62, 38, 59, 40, 41}"
  by (simp add: is_sym_def symbols_def)

lemma gettoken_shape:
  assumes "gettoken t s = (ret, q, eq, s')"
  shows "q = skip_while is_ws t s" and "s' = skip_while is_ws t eq"
    and "ret = 0 \<longleftrightarrow> arr t q = 0" and "ret = 0 \<Longrightarrow> eq = q"
    and "ret \<noteq> 0 \<Longrightarrow> q < eq \<and> eq \<le> length t"
    and "ret = 97 \<Longrightarrow> eq = skip_while wchar t q \<and> q < length t"
proof -
  let ?q = "skip_while is_ws t s"
  show "q = ?q" "s' = skip_while is_ws t eq" using assms by (auto simp: gettoken_def Let_def split: prod.splits)
  have word: "?q < skip_while wchar t ?q \<and> skip_while wchar t ?q \<le> length t"
    if "arr t ?q \<noteq> 0" and "\<not> is_sym (arr t ?q)"
  proof -
    have l: "?q < length t" "arr t ?q = t ! ?q" using arr_nonzero [OF that(1)] by auto
    then have "wchar (t ! ?q)" using skip_while_stop [OF l(1)] that(2) by (simp add: wchar_def)
    then have "skip_while wchar t ?q = skip_while wchar t (Suc ?q)"
      using l(1) by (subst skip_while.simps) simp
    then show ?thesis
      using skip_while_ge [of "Suc ?q" wchar t] skip_while_le [of "Suc ?q" t wchar] l(1) by linarith
  qed
  show "ret = 0 \<longleftrightarrow> arr t q = 0"
    using assms by (auto simp: gettoken_def Let_def split: if_splits)
  show "eq = q" if "ret = 0"
    using assms that by (auto simp: gettoken_def Let_def split: if_splits)
  show "q < eq \<and> eq \<le> length t" if "ret \<noteq> 0"
    using assms that word arr_nonzero [of t ?q] arr_nonzero [of t "Suc ?q"]
    by (auto simp: gettoken_def Let_def is_sym_iff split: if_splits)
  show "eq = skip_while wchar t q \<and> q < length t" if "ret = 97"
    using assms that arr_nonzero [of t ?q] by (auto simp: gettoken_def Let_def split: if_splits)
qed

lemma gettoken_gt: "gettoken t s = (ret, q, eq, s') \<Longrightarrow> ret \<noteq> 0 \<Longrightarrow> s < s'"
  using gettoken_shape [of t s ret q eq s'] skip_while_ge [of s is_ws t] skip_while_ge [of eq is_ws t]
  by auto

lemma gettoken_ge: "gettoken t s = (ret, q, eq, s') \<Longrightarrow> s \<le> s'"
  using gettoken_shape [of t s ret q eq s'] gettoken_gt [of t s ret q eq s']
    skip_while_ge [of s is_ws t] skip_while_ge [of eq is_ws t]
  by (cases "ret = 0") auto

lemma gettoken_le: "gettoken t s = (ret, q, eq, s') \<Longrightarrow> s \<le> length t \<Longrightarrow> s' \<le> length t"
  using gettoken_shape [of t s ret q eq s'] skip_while_le [of s t is_ws] skip_while_le [of eq t is_ws]
  by (cases "ret = 0") auto

lemma skip_while_idem [simp]: "skip_while P t (skip_while P t s) = skip_while P t s"
  by (subst skip_while.simps) (use skip_while_stop [of P t s] in auto)

lemma peek_shape:
  assumes "peek t s toks = (s', b)"
  shows "s' = skip_while is_ws t s" and "s \<le> s'" and "s \<le> length t \<Longrightarrow> s' \<le> length t"
    and "b \<longleftrightarrow> arr t s' \<noteq> 0 \<and> arr t s' \<in> set toks"
  using assms skip_while_ge [of s is_ws t] skip_while_le [of s t is_ws]
  by (auto simp: peek_def Let_def)

text \<open>After a successful \<open>peek\<close> the token that follows takes at least a character.\<close>

lemma peek_gettoken_gt:
  assumes "peek t s toks = (s', True)" and "gettoken t s' = (ret, q, eq, s'')"
  shows "s < s''"
proof -
  have "ret \<noteq> 0"
    using gettoken_shape(1,3) [OF assms(2)] peek_shape(1,4) [OF assms(1)] by auto
  then show ?thesis using gettoken_gt [OF assms(2)] peek_shape(2) [OF assms(1)] by simp
qed

lemma back_advances:
  assumes "(s1, True) = peek t s toks" and "(tok, q, eq, s2) = gettoken t s1"
  shows "length t - s2 < length t - s"
  using peek_gettoken_gt [OF assms(1) [symmetric] assms(2) [symmetric]]
    peek_shape(2,4) [OF assms(1) [symmetric]] arr_nonzero [of t s1] by auto

lemma redir_advances:
  assumes "(s1, True) = peek t s toks" and "(tok, q0, eq0, s2) = gettoken t s1"
    and "(ret, q, eq, s3) = gettoken t s2"
  shows "length t - s3 < length t - s"
  using back_advances [OF assms(1,2)] gettoken_ge [OF assms(3) [symmetric]] by linarith

section \<open>The parser\<close>

text \<open>The \<open>execcmd\<close> inside the redirections wrapped around it gets its next argument.\<close>

fun add_arg :: "'p \<Rightarrow> 'p cmd \<Rightarrow> 'p cmd" where
  "add_arg a (EXEC as) = EXEC (as @ [a])"
| "add_arg a (REDIR c f m fd) = REDIR (add_arg a c) f m fd"
| "add_arg a c = c"

text \<open>\<open>panic\<close> of the shell prints the message and exits; the parser does not go on after it.\<close>

function parseredirs :: "bytes \<Rightarrow> tok cmd \<Rightarrow> nat \<Rightarrow> stop + tok cmd \<times> nat" where
  "parseredirs t cmd s =
     (let (s1, more) = peek t s [60, 62] in
      if \<not> more then Inr (cmd, s1)
      else
        let (tok, q0, eq0, s2) = gettoken t s1; (ret, q, eq, s3) = gettoken t s2 in
        if ret \<noteq> 97 then Inl (Panic ''missing file for redirection'')
        else
          parseredirs t
            (if tok = 60 then REDIR cmd (q, eq) sh_RDONLY 0
             else if tok = 62 then REDIR cmd (q, eq) sh_WRONLY_CREATE 1
             else if tok = 43 then REDIR cmd (q, eq) sh_WRONLY_CREATE 1
             else cmd) s3)"
  by pat_completeness auto
termination by (relation "measure (\<lambda>(t, cmd, s). length t - s)") (auto intro: redir_advances)

declare parseredirs.simps [simp del]

function parse_args :: "bytes \<Rightarrow> nat \<Rightarrow> tok cmd \<Rightarrow> nat \<Rightarrow> stop + tok cmd \<times> nat" where
  "parse_args t argc ret s =
     (let (s1, stop) = peek t s [124, 41, 38, 59] in
      if stop then Inr (ret, s1)
      else
        let (tok, q, eq, s2) = gettoken t s1 in
        if tok = 0 then Inr (ret, s2)
        else if tok \<noteq> 97 then Inl (Panic ''syntax'')
        else if argc + 1 \<ge> MAXARGS then Inl (Panic ''too many args'')
        else bindE (parseredirs t (add_arg (q, eq) ret) s2) (\<lambda>(ret, s). parse_args t (argc + 1) ret s))"
  by pat_completeness auto
termination by (relation "measure (\<lambda>(t, argc, ret, s). MAXARGS - argc)") auto

declare parse_args.simps [simp del]

function parse_backs :: "bytes \<Rightarrow> tok cmd \<Rightarrow> nat \<Rightarrow> tok cmd \<times> nat" where
  "parse_backs t cmd s =
     (let (s1, more) = peek t s [38] in
      if \<not> more then (cmd, s1)
      else let (tok, q, eq, s2) = gettoken t s1 in parse_backs t (BACK cmd) s2)"
  by pat_completeness auto
termination by (relation "measure (\<lambda>(t, cmd, s). length t - s)") (auto intro: back_advances)

declare parse_backs.simps [simp del]

text \<open>
  The recursive descent. \<open>n\<close> bounds the depth of the recursion; \<open>parsecmd\<close> starts it with a bound
  that is never met (\<open>parsecmd_returns\<close>).
\<close>

function parseline :: "nat \<Rightarrow> bytes \<Rightarrow> nat \<Rightarrow> stop + tok cmd \<times> nat"
  and parsepipe :: "nat \<Rightarrow> bytes \<Rightarrow> nat \<Rightarrow> stop + tok cmd \<times> nat"
  and parseblock :: "nat \<Rightarrow> bytes \<Rightarrow> nat \<Rightarrow> stop + tok cmd \<times> nat"
  and parseexec :: "nat \<Rightarrow> bytes \<Rightarrow> nat \<Rightarrow> stop + tok cmd \<times> nat" where
  "parseline 0 t s = Inl (Spins ''parseline'')"
| "parseline (Suc n) t s =
     bindE (parsepipe n t s) (\<lambda>(cmd, s).
       let (cmd, s) = parse_backs t cmd s; (s, semi) = peek t s [59] in
       if semi then
         let (tok, q, eq, s) = gettoken t s
         in bindE (parseline n t s) (\<lambda>(right, s). Inr (LIST cmd right, s))
       else Inr (cmd, s))"
| "parsepipe 0 t s = Inl (Spins ''parsepipe'')"
| "parsepipe (Suc n) t s =
     bindE (parseexec n t s) (\<lambda>(cmd, s).
       let (s, bar) = peek t s [124] in
       if bar then
         let (tok, q, eq, s) = gettoken t s
         in bindE (parsepipe n t s) (\<lambda>(right, s). Inr (PIPE cmd right, s))
       else Inr (cmd, s))"
| "parseblock 0 t s = Inl (Spins ''parseblock'')"
| "parseblock (Suc n) t s =
     (let (s, open) = peek t s [40] in
      if \<not> open then Inl (Panic ''parseblock'')
      else
        let (tok, q, eq, s) = gettoken t s in
        bindE (parseline n t s) (\<lambda>(cmd, s).
          let (s, close) = peek t s [41] in
          if \<not> close then Inl (Panic ''syntax - missing )'')
          else let (tok, q, eq, s) = gettoken t s in parseredirs t cmd s))"
| "parseexec 0 t s = Inl (Spins ''parseexec'')"
| "parseexec (Suc n) t s =
     (let (s, open) = peek t s [40] in
      if open then parseblock n t s
      else bindE (parseredirs t (EXEC []) s) (\<lambda>(ret, s). parse_args t 0 ret s))"
  by pat_completeness auto
termination
  by (relation "measure (\<lambda>a. case a of Inl (Inl (n, t, s)) \<Rightarrow> n | Inl (Inr (n, t, s)) \<Rightarrow> n
      | Inr (Inl (n, t, s)) \<Rightarrow> n | Inr (Inr (n, t, s)) \<Rightarrow> n)") auto

text \<open>\<open>nulterminate\<close> writes a NUL after every word of the command, in the line buffer.\<close>

fun nulterminate :: "tok cmd \<Rightarrow> bytes \<Rightarrow> bytes" where
  "nulterminate (EXEC as) buf = fold (\<lambda>(q, eq) b. b[eq := 0]) as buf"
| "nulterminate (REDIR c f m fd) buf = (nulterminate c buf)[snd f := 0]"
| "nulterminate (PIPE l r) buf = nulterminate r (nulterminate l buf)"
| "nulterminate (LIST l r) buf = nulterminate r (nulterminate l buf)"
| "nulterminate (BACK c) buf = nulterminate c buf"

definition parsecmd :: "bytes \<Rightarrow> stop + tok cmd \<times> bytes" where
  "parsecmd t =
     bindE (parseline (4 * length t + 4) t 0) (\<lambda>(cmd, s).
       let (s, b) = peek t s [] in
       if s \<noteq> length t then Inl (Panic ''syntax'')
       else Inr (cmd, nulterminate cmd (t @ [0])))"

text \<open>The C string that a pointer into the terminated buffer points to.\<close>

definition word_at :: "bytes \<Rightarrow> tok \<Rightarrow> bytes" where
  "word_at buf a = takeWhile (\<lambda>c. c \<noteq> 0) (drop (fst a) buf)"

section \<open>The parser returns, with well-formed words\<close>

text \<open>The pointers around a word: only word characters between them, none after.\<close>

definition tok_ok :: "bytes \<Rightarrow> tok \<Rightarrow> bool" where
  "tok_ok t a \<longleftrightarrow> fst a < snd a \<and> snd a \<le> length t \<and> (\<forall>i. fst a \<le> i \<longrightarrow> i < snd a \<longrightarrow> wchar (t ! i))
     \<and> (snd a < length t \<longrightarrow> \<not> wchar (t ! snd a))"

lemma gettoken_tok_ok: "gettoken t s = (97, q, eq, s') \<Longrightarrow> tok_ok t (q, eq)"
  using gettoken_shape [of t s 97 q eq s'] skip_while_stop [of wchar t q] skip_while_all [of q _ wchar t]
  by (auto simp: tok_ok_def)

definition post :: "bytes \<Rightarrow> nat \<Rightarrow> stop + tok cmd \<times> nat \<Rightarrow> bool" where
  "post t s r \<longleftrightarrow> (case r of Inl e \<Rightarrow> \<exists>m. e = Panic m
     | Inr (c, s') \<Rightarrow> s \<le> s' \<and> s' \<le> length t \<and> (\<forall>a \<in> set_cmd c. tok_ok t a))"

lemma post_simps [simp]:
  "post t s (Inl (Panic m))"
  "post t s (Inr (c, s')) \<longleftrightarrow> s \<le> s' \<and> s' \<le> length t \<and> (\<forall>a \<in> set_cmd c. tok_ok t a)"
  by (simp_all add: post_def)

lemma post_mono: "post t s r \<Longrightarrow> s0 \<le> s \<Longrightarrow> post t s0 r"
  by (auto simp: post_def split: sum.splits)

lemma post_bind:
  assumes "post t s m"
    and "\<And>c s'. m = Inr (c, s') \<Longrightarrow> s \<le> s' \<Longrightarrow> s' \<le> length t \<Longrightarrow> \<forall>a \<in> set_cmd c. tok_ok t a \<Longrightarrow> post t s (f (c, s'))"
  shows "post t s (bindE m f)"
  using assms by (cases m) (auto simp: post_def)

lemma set_add_arg: "set_cmd (add_arg a c) \<subseteq> insert a (set_cmd c)"
  by (induction a c rule: add_arg.induct) auto

lemma parseredirs_post:
  "s \<le> length t \<Longrightarrow> \<forall>a \<in> set_cmd cmd. tok_ok t a \<Longrightarrow> post t s (parseredirs t cmd s)"
proof (induction t cmd s rule: parseredirs.induct)
  case (1 t cmd s)
  obtain s1 more where p: "peek t s [60, 62] = (s1, more)" by fastforce
  obtain tok q0 eq0 s2 where g: "gettoken t s1 = (tok, q0, eq0, s2)" by (metis prod_cases4)
  obtain ret q eq s3 where h: "gettoken t s2 = (ret, q, eq, s3)" by (metis prod_cases4)
  have le: "s \<le> s1" "s1 \<le> length t" "s1 \<le> s2" "s2 \<le> length t" "s2 \<le> s3" "s3 \<le> length t"
    using peek_shape [OF p] gettoken_ge [OF g] gettoken_le [OF g] gettoken_ge [OF h] gettoken_le [OF h]
      "1.prems"(1) by auto
  show ?case
  proof (cases "more \<and> ret = 97")
    case True
    then have ok: "tok_ok t (q, eq)" using gettoken_tok_ok h by blast
    show ?thesis
      using "1.IH" [OF p [symmetric] refl _ g [symmetric] refl refl refl h [symmetric] refl refl refl]
        True le ok "1.prems"
      by (subst parseredirs.simps) (auto simp: p g h intro: post_mono [of t s3 _ s])
  qed (use le "1.prems" in \<open>subst parseredirs.simps, auto simp: p g h\<close>)
qed

lemma parse_args_post:
  "s \<le> length t \<Longrightarrow> \<forall>a \<in> set_cmd ret. tok_ok t a \<Longrightarrow> post t s (parse_args t argc ret s)"
proof (induction t argc ret s rule: parse_args.induct)
  case (1 t argc ret s)
  obtain s1 stop where p: "peek t s [124, 41, 38, 59] = (s1, stop)" by fastforce
  obtain tok q eq s2 where g: "gettoken t s1 = (tok, q, eq, s2)" by (metis prod_cases4)
  have le: "s \<le> s1" "s1 \<le> length t" "s1 \<le> s2" "s2 \<le> length t"
    using peek_shape [OF p] gettoken_ge [OF g] gettoken_le [OF g] "1.prems"(1) by auto
  show ?case
  proof (cases "\<not> stop \<and> tok = 97 \<and> argc + 1 < MAXARGS")
    case True
    then have "\<forall>a \<in> set_cmd (add_arg (q, eq) ret). tok_ok t a"
      using set_add_arg [of "(q, eq)" ret] gettoken_tok_ok g "1.prems"(2) by blast
    then have "post t s2 (parseredirs t (add_arg (q, eq) ret) s2)" using le(4) by (rule parseredirs_post [rotated])
    moreover have "post t s' (parse_args t (argc + 1) c s')"
      if "parseredirs t (add_arg (q, eq) ret) s2 = Inr (c, s')" "s' \<le> length t"
        "\<forall>a \<in> set_cmd c. tok_ok t a" for c s'
      using "1.IH" [OF p [symmetric] refl _ g [symmetric] refl refl] True that by auto
    ultimately have "post t s2 (bindE (parseredirs t (add_arg (q, eq) ret) s2)
        (\<lambda>(ret, s). parse_args t (argc + 1) ret s))"
      by (rule_tac post_bind) (auto intro: post_mono)
    then have "post t s (bindE (parseredirs t (add_arg (q, eq) ret) s2)
        (\<lambda>(ret, s). parse_args t (argc + 1) ret s))"
      by (rule post_mono) (use le in linarith)
    then show ?thesis using True by (subst parse_args.simps) (simp add: p g)
  qed (use le "1.prems" in \<open>subst parse_args.simps, auto simp: p g\<close>)
qed

lemma parse_backs_post:
  "s \<le> length t \<Longrightarrow> \<forall>a \<in> set_cmd cmd. tok_ok t a \<Longrightarrow> post t s (Inr (parse_backs t cmd s))"
proof (induction t cmd s rule: parse_backs.induct)
  case (1 t cmd s)
  obtain s1 more where p: "peek t s [38] = (s1, more)" by fastforce
  obtain tok q eq s2 where g: "gettoken t s1 = (tok, q, eq, s2)" by (metis prod_cases4)
  have le: "s \<le> s1" "s1 \<le> length t" "s1 \<le> s2" "s2 \<le> length t"
    using peek_shape [OF p] gettoken_ge [OF g] gettoken_le [OF g] "1.prems"(1) by auto
  show ?case
  proof (cases more)
    case True
    then show ?thesis
      using "1.IH" [OF p [symmetric] refl _ g [symmetric] refl refl] le "1.prems"
      by (subst parse_backs.simps) (auto simp: p g intro: post_mono [of t s2 _ s])
  qed (use le "1.prems" in \<open>subst parse_backs.simps, auto simp: p\<close>)
qed

text \<open>With four levels of recursion for every character left, the descent never meets its bound.\<close>

definition descent :: "bytes \<Rightarrow> nat \<Rightarrow> bool" where
  "descent t n \<longleftrightarrow> (\<forall>s \<le> length t.
     (4 * (length t - s) + 4 \<le> n \<longrightarrow> post t s (parseline n t s)) \<and>
     (4 * (length t - s) + 3 \<le> n \<longrightarrow> post t s (parsepipe n t s)) \<and>
     (4 * (length t - s) + 2 \<le> n \<longrightarrow> post t s (parseexec n t s)) \<and>
     (4 * (length t - s) + 1 \<le> n \<longrightarrow> post t s (parseblock n t s)))"

lemma descent_line:
  assumes d: "descent t n" and s: "s \<le> length t" and n: "4 * (length t - s) + 4 \<le> Suc n"
  shows "post t s (parseline (Suc n) t s)"
proof -
  have pp: "post t s (parsepipe n t s)" using d [unfolded descent_def, rule_format, of s] s n by linarith
  show "post t s (parseline (Suc n) t s)"
    unfolding parseline.simps
  proof (rule post_bind [OF pp])
    fix c s1 assume c: "s \<le> s1" "s1 \<le> length t" "\<forall>a \<in> set_cmd c. tok_ok t a"
    obtain c2 s2 where b: "parse_backs t c s1 = (c2, s2)" by fastforce
    have b2: "s1 \<le> s2" "s2 \<le> length t" "\<forall>a \<in> set_cmd c2. tok_ok t a"
      using parse_backs_post [OF c(2,3)] b by auto
    obtain s3 semi where p: "peek t s2 [59] = (s3, semi)" by fastforce
    obtain tok q eq s4 where g: "gettoken t s3 = (tok, q, eq, s4)" by (metis prod_cases4)
    have le: "s2 \<le> s3" "s3 \<le> length t" "s3 \<le> s4" "s4 \<le> length t"
      using peek_shape [OF p] gettoken_ge [OF g] gettoken_le [OF g] b2(2) by auto
    have rec: "post t s (bindE (parseline n t s4) (\<lambda>(right, s). Inr (LIST c2 right, s)))" if semi
    proof -
      have "s2 < s4" using peek_gettoken_gt p g that by metis
      then have "post t s4 (parseline n t s4)" using d [unfolded descent_def, rule_format, of s4] n c(1) b2(1) le by linarith
      then have "post t s4 (bindE (parseline n t s4) (\<lambda>(right, s). Inr (LIST c2 right, s)))"
        using b2(3) by (rule_tac post_bind) auto
      then show ?thesis by (rule post_mono) (use c b2 le in linarith)
    qed
    show "post t s (case (c, s1) of (cmd, s) \<Rightarrow>
      let (cmd, s) = parse_backs t cmd s; (s, semi) = peek t s [59] in
      if semi then let (tok, q, eq, s) = gettoken t s
        in bindE (parseline n t s) (\<lambda>(right, s). Inr (LIST cmd right, s))
      else Inr (cmd, s))"
      using rec c b2 le by (simp add: b p g)
  qed
qed

lemma descent_pipe:
  assumes d: "descent t n" and s: "s \<le> length t" and n: "4 * (length t - s) + 3 \<le> Suc n"
  shows "post t s (parsepipe (Suc n) t s)"
proof -
  have pp: "post t s (parseexec n t s)" using d [unfolded descent_def, rule_format, of s] s n by linarith
  show "post t s (parsepipe (Suc n) t s)"
    unfolding parsepipe.simps
  proof (rule post_bind [OF pp])
    fix c s2 assume c: "s \<le> s2" "s2 \<le> length t" "\<forall>a \<in> set_cmd c. tok_ok t a"
    obtain s3 bar where p: "peek t s2 [124] = (s3, bar)" by fastforce
    obtain tok q eq s4 where g: "gettoken t s3 = (tok, q, eq, s4)" by (metis prod_cases4)
    have le: "s2 \<le> s3" "s3 \<le> length t" "s3 \<le> s4" "s4 \<le> length t"
      using peek_shape [OF p] gettoken_ge [OF g] gettoken_le [OF g] c(2) by auto
    have rec: "post t s (bindE (parsepipe n t s4) (\<lambda>(right, s). Inr (PIPE c right, s)))" if bar
    proof -
      have "s2 < s4" using peek_gettoken_gt p g that by metis
      then have "post t s4 (parsepipe n t s4)" using d [unfolded descent_def, rule_format, of s4] n c(1) le by linarith
      then have "post t s4 (bindE (parsepipe n t s4) (\<lambda>(right, s). Inr (PIPE c right, s)))"
        using c(3) by (rule_tac post_bind) auto
      then show ?thesis by (rule post_mono) (use c le in linarith)
    qed
    show "post t s (case (c, s2) of (cmd, s) \<Rightarrow>
      let (s, bar) = peek t s [124] in
      if bar then let (tok, q, eq, s) = gettoken t s
        in bindE (parsepipe n t s) (\<lambda>(right, s). Inr (PIPE cmd right, s))
      else Inr (cmd, s))"
      using rec c le by (simp add: p g)
  qed
qed

lemma descent_exec:
  assumes d: "descent t n" and s: "s \<le> length t" and n: "4 * (length t - s) + 2 \<le> Suc n"
  shows "post t s (parseexec (Suc n) t s)"
proof -
  obtain s1 "open" where p: "peek t s [40] = (s1, open)" by fastforce
  have le: "s \<le> s1" "s1 \<le> length t" using peek_shape [OF p] s by auto
  have b: "post t s (parseblock n t s1)"
    using d [unfolded descent_def, rule_format, of s1] n le by (intro post_mono [of t s1 _ s]) linarith+
  have e: "post t s (bindE (parseredirs t (EXEC []) s1) (\<lambda>(ret, s). parse_args t 0 ret s))"
    using parseredirs_post [OF le(2), of "EXEC []"] le
    by (intro post_mono [of t s1 _ s] post_bind) (auto intro: post_mono parse_args_post)
  show "post t s (parseexec (Suc n) t s)" using b e by (simp add: p)
qed

lemma descent_block:
  assumes d: "descent t n" and s: "s \<le> length t" and n: "4 * (length t - s) + 1 \<le> Suc n"
  shows "post t s (parseblock (Suc n) t s)"
proof -
  obtain s1 "open" where p: "peek t s [40] = (s1, open)" by fastforce
  obtain tok q eq s2 where g: "gettoken t s1 = (tok, q, eq, s2)" by (metis prod_cases4)
  have le: "s \<le> s1" "s1 \<le> length t" "s1 \<le> s2" "s2 \<le> length t"
    using peek_shape [OF p] gettoken_ge [OF g] gettoken_le [OF g] s by auto
  show "post t s (parseblock (Suc n) t s)"
  proof (cases "open")
    case True
    then have "s < s2" using peek_gettoken_gt p g by metis
    then have l: "post t s2 (parseline n t s2)" using d [unfolded descent_def, rule_format, of s2] n le by linarith
    have "post t s2 (bindE (parseline n t s2) (\<lambda>(cmd, s).
      let (s, close) = peek t s [41] in
      if \<not> close then Inl (Panic ''syntax - missing )'')
      else let (tok, q, eq, s) = gettoken t s in parseredirs t cmd s))"
    proof (rule post_bind [OF l])
      fix c s3 assume c: "s2 \<le> s3" "s3 \<le> length t" "\<forall>a \<in> set_cmd c. tok_ok t a"
      obtain s4 close where p': "peek t s3 [41] = (s4, close)" by fastforce
      obtain tok q eq s5 where g': "gettoken t s4 = (tok, q, eq, s5)" by (metis prod_cases4)
      have le': "s3 \<le> s4" "s4 \<le> length t" "s4 \<le> s5" "s5 \<le> length t"
        using peek_shape [OF p'] gettoken_ge [OF g'] gettoken_le [OF g'] c(2) by auto
      have "post t s2 (parseredirs t c s5)"
        using parseredirs_post [OF le'(4) c(3)] by (rule post_mono) (use le' c in linarith)
      then show "post t s2 (case (c, s3) of (cmd, s) \<Rightarrow>
        let (s, close) = peek t s [41] in
        if \<not> close then Inl (Panic ''syntax - missing )'')
        else let (tok, q, eq, s) = gettoken t s in parseredirs t cmd s)"
        by (simp add: p' g')
    qed
    then show ?thesis using True le by (auto simp: p g intro: post_mono)
  qed (simp add: p)
qed

lemma descent_all: "descent t n"
proof (induction n)
  case (Suc n)
  show ?case
    unfolding descent_def
    using descent_line [OF Suc] descent_pipe [OF Suc] descent_exec [OF Suc] descent_block [OF Suc] by blast
qed (simp add: descent_def)

lemma parseline_post: "s \<le> length t \<Longrightarrow> 4 * (length t - s) + 4 \<le> n \<Longrightarrow> post t s (parseline n t s)"
  using descent_all [of t n] by (simp add: descent_def)

section \<open>The words in the terminated buffer\<close>

definition span :: "bytes \<Rightarrow> tok \<Rightarrow> bytes" where
  "span t a = take (snd a - fst a) (drop (fst a) t)"

lemma fold_term_nth:
  "length (fold (\<lambda>(q, eq) b. b[eq := 0]) as b) = length b \<and>
   (i < length b \<longrightarrow> fold (\<lambda>(q, eq) b. b[eq := 0]) as b ! i = (if i \<in> snd ` set as then 0 else b ! i))"
proof (induction as arbitrary: b)
  case (Cons a as)
  then show ?case
    using Cons [of "b[snd a := 0]"] by (cases a) (simp add: nth_list_update del: image_iff)
qed simp

lemma nulterminate_nth:
  "length (nulterminate c b) = length b \<and>
   (i < length b \<longrightarrow> nulterminate c b ! i = (if i \<in> snd ` set_cmd c then 0 else b ! i))"
proof (induction c arbitrary: b)
  case (EXEC as)
  then show ?case using fold_term_nth [of as b i] by simp
next
  case (REDIR c f m fd)
  then show ?case using REDIR [of b] by (cases "i = snd f") (simp_all add: nth_list_update)
qed (simp_all add: image_Un)

lemma parsecmd_Inr:
  assumes "parsecmd t = Inr (c, buf)"
  shows "buf = nulterminate c (t @ [0])" and "\<forall>a \<in> set_cmd c. tok_ok t a"
proof -
  obtain s where "parseline (4 * length t + 4) t 0 = Inr (c, s)" "buf = nulterminate c (t @ [0])"
    using assms by (auto simp: parsecmd_def bindE_Inr_iff Let_def case_prod_beta split: if_splits)
  moreover have "post t 0 (parseline (4 * length t + 4) t 0)" by (rule parseline_post) auto
  ultimately show "buf = nulterminate c (t @ [0])" and "\<forall>a \<in> set_cmd c. tok_ok t a" by simp_all
qed

lemma word_at_span:
  assumes c: "\<forall>a \<in> set_cmd c. tok_ok t a" and a: "a \<in> set_cmd c" and nz: "0 \<notin> set t"
  shows "word_at (nulterminate c (t @ [0])) a = span t a"
proof -
  let ?b = "nulterminate c (t @ [0])"
  have ok: "fst a < snd a" "snd a \<le> length t"
    "\<And>i. fst a \<le> i \<Longrightarrow> i < snd a \<Longrightarrow> wchar (t ! i)"
    using c a by (auto simp: tok_ok_def)
  have keep: "?b ! i = t ! i \<and> t ! i \<noteq> 0" if "fst a \<le> i" "i < snd a" for i
  proof -
    have "i \<notin> snd ` set_cmd c"
      using c ok(2) ok(3) [OF that] that(2) by (force simp: tok_ok_def)
    moreover have "t ! i \<noteq> 0" using that(2) ok(2) nz by (metis nth_mem order_less_le_trans)
    ultimately show ?thesis
      using nulterminate_nth [of c "t @ [0]" i] that ok(2) nz by (auto simp: nth_append)
  qed
  have stop: "?b ! snd a = 0"
    using nulterminate_nth [of c "t @ [0]" "snd a"] a ok(2) by auto
  have len: "length ?b = Suc (length t)" using nulterminate_nth [of c "t @ [0]"] by simp
  have "word_at ?b a = take (snd a - fst a) (drop (fst a) ?b)"
    unfolding word_at_def
    by (rule takeWhile_eq_take_P_nth) (use keep stop ok(1) len in auto)
  also have "\<dots> = span t a"
    unfolding span_def by (rule nth_equalityI) (use keep ok(1,2) len in auto)
  finally show ?thesis .
qed

lemma span_word:
  assumes "tok_ok t a"
  shows "span t a \<noteq> [] \<and> (\<forall>x \<in> set (span t a). wchar x)"
  using assms by (auto simp: span_def tok_ok_def in_set_conv_nth)

text \<open>
  C33. \<open>parsecmd\<close> always comes back: with a command, or by printing a message and leaving; the bound on
  the depth of its recursion is never met.
\<close>

theorem parsecmd_returns: "case parsecmd t of Inr _ \<Rightarrow> True | Inl e \<Rightarrow> \<exists>m. e = Panic m"
proof -
  have "post t 0 (parseline (4 * length t + 4) t 0)" by (rule parseline_post) auto
  then show ?thesis
    by (cases "parseline (4 * length t + 4) t 0") (auto simp: parsecmd_def Let_def post_def split: prod.splits)
qed

text \<open>
  Terminating the words of a command in place damages none of them: every string pointer of the
  command that \<open>parsecmd\<close> returns points, in the terminated buffer, to the word between its two
  pointers in the line, which is not empty and has no white space and no symbol.
\<close>

theorem nulterminate_words:
  assumes "parsecmd t = Inr (c, buf)" and "0 \<notin> set t" and "a \<in> set_cmd c"
  shows "word_at buf a = span t a \<and> span t a \<noteq> [] \<and> (\<forall>x \<in> set (span t a). \<not> is_ws x \<and> \<not> is_sym x)"
  using word_at_span [OF parsecmd_Inr(2) [OF assms(1)] assms(3,2)] span_word [of t a]
    parsecmd_Inr [OF assms(1)] assms(3) by (simp add: wchar_def)

lemma nulterminate_words_witness:
  "word_at [108, 115, 0, 120, 0, 119, 99, 0] (5, 7) = [119, 99 :: u8]"
proof -
  have p: "parsecmd [108, 115, 62, 120, 124, 119, 99]
    = Inr (PIPE (REDIR (EXEC [(0, 2)]) (3, 4) sh_WRONLY_CREATE 1) (EXEC [(5, 7)]), [108, 115, 0, 120, 0, 119, 99, 0])"
    by code_simp
  have "span [108, 115, 62, 120, 124, 119, 99] (5, 7) = [119, 99]" by code_simp
  then show ?thesis using nulterminate_words [OF p, of "(5, 7)"] by simp
qed

end
