(* ===== verification/Xv6_ShSpec.thy ===== *)
theory Xv6_ShSpec
  imports Xv6_Sh
begin

text \<open>
  What the parser of the shell accepts: a printer of commands as shell text, with parentheses where
  the grammar needs them, which the parser inverts.
\<close>

section \<open>Commands as text\<close>

definition word :: "bytes \<Rightarrow> bool" where
  "word w \<longleftrightarrow> w \<noteq> [] \<and> 0 \<notin> set w \<and> (\<forall>x \<in> set w. wchar x)"

definition paren :: "bool \<Rightarrow> bytes \<Rightarrow> bytes" where
  "paren b xs = (if b then 40 # xs @ [41] else xs)"

fun pr_args :: "bytes list \<Rightarrow> bytes" where
  "pr_args [] = []"
| "pr_args [w] = w"
| "pr_args (w # v # ws) = w @ 32 # pr_args (v # ws)"

text \<open>
  The text of a command where the grammar wants a line (0), a pipeline with its \<open>&\<close>s (1), a
  pipeline (2), or a simple command (3).
\<close>

fun pr :: "nat \<Rightarrow> bytes cmd \<Rightarrow> bytes" where
  "pr k (EXEC as) = pr_args as"
| "pr k (REDIR c f m fd) = pr 3 c @ (if fd = 0 then 60 else 62) # f"
| "pr k (PIPE l r) = paren (2 < k) (pr 3 l @ 124 # pr 2 r)"
| "pr k (LIST l r) = paren (0 < k) (pr 1 l @ 59 # pr 0 r)"
| "pr k (BACK c) = paren (1 < k) (pr 1 c @ [38])"

text \<open>The commands that a line can denote: at most nine words, and the modes of \<open>parseredirs\<close>.\<close>

fun wf_cmd :: "bytes cmd \<Rightarrow> bool" where
  "wf_cmd (EXEC as) \<longleftrightarrow> length as < MAXARGS \<and> (\<forall>w \<in> set as. word w)"
| "wf_cmd (REDIR c f m fd) \<longleftrightarrow>
     wf_cmd c \<and> word f \<and> (m, fd) \<in> {(sh_RDONLY, 0), (sh_WRONLY_CREATE, 1)}"
| "wf_cmd (PIPE l r) \<longleftrightarrow> wf_cmd l \<and> wf_cmd r"
| "wf_cmd (LIST l r) \<longleftrightarrow> wf_cmd l \<and> wf_cmd r"
| "wf_cmd (BACK c) \<longleftrightarrow> wf_cmd c"

section \<open>Tokens at a known place\<close>

lemma drop_Cons_nth: "drop s t = c # R \<Longrightarrow> s < length t \<and> t ! s = c \<and> drop (Suc s) t = R"
  by (metis Cons_nth_drop_Suc drop_eq_Nil2 list.inject list.distinct(1) not_less)

lemma drop_append_add: "drop s t = xs @ R \<Longrightarrow> drop (s + length xs) t = R"
  by (metis add.commute append_eq_conv_conj drop_drop)

lemma skip_run:
  "drop s t = xs @ R \<Longrightarrow> \<forall>x \<in> set xs. P x \<Longrightarrow> R = [] \<or> \<not> P (hd R) \<Longrightarrow>
   skip_while P t s = s + length xs"
proof (induction xs arbitrary: s)
  case Nil
  then show ?case by (subst skip_while.simps) (auto simp: hd_drop_conv_nth)
next
  case (Cons x xs)
  then show ?case using drop_Cons_nth [of s t x "xs @ R"] by (subst skip_while.simps) auto
qed

definition nows :: "bytes \<Rightarrow> bool" where
  "nows R \<longleftrightarrow> R = [] \<or> \<not> is_ws (hd R)"

lemma nows_simps [simp]: "nows []" "nows (c # R) \<longleftrightarrow> \<not> is_ws c"
  by (simp_all add: nows_def)

lemma arr_drop: "arr t s = (case drop s t of [] \<Rightarrow> 0 | c # R \<Rightarrow> c)"
  by (auto simp: arr_def hd_drop_conv_nth split: list.split dest: drop_Cons_nth)

lemma skip_nows: "nows (drop s t) \<Longrightarrow> skip_while is_ws t s = s"
  using skip_run [of s t "[]" "drop s t" is_ws] by (simp add: nows_def)

lemma peek_at:
  "nows (drop s t) \<Longrightarrow> peek t s toks = (s, drop s t \<noteq> [] \<and> hd (drop s t) \<noteq> 0 \<and> hd (drop s t) \<in> set toks)"
  by (auto simp: peek_def Let_def skip_nows arr_drop split: list.split)

lemma word_nows: "word w \<Longrightarrow> nows (w @ R)"
  by (cases w) (auto simp: word_def wchar_def)

lemma gettoken_symbol:
  assumes "drop s t = c # R" and "c \<in> {124, 40, 41, 59, 38, 60} \<or> c = 62 \<and> (R = [] \<or> hd R \<noteq> 62)" and "nows R"
  shows "gettoken t s = (c, s, Suc s, Suc s)"
proof -
  have "drop (Suc s) t = R" using drop_Cons_nth [OF assms(1)] by simp
  moreover have "skip_while is_ws t s = s"
    using assms(1,2) by (intro skip_nows) (auto simp: is_ws_iff)
  ultimately show ?thesis
    using assms skip_nows [of "Suc s" t]
    by (auto simp: gettoken_def arr_drop split: list.splits)
qed

lemma gettoken_word:
  assumes "drop s t = w @ R" and "word w" and "R = [] \<or> \<not> wchar (hd R)"
  shows "gettoken t s = (97, s, s + length w, skip_while is_ws t (s + length w))"
proof -
  obtain c v where w: "w = c # v" using assms(2) by (cases w) (auto simp: word_def)
  have c: "c \<noteq> 0" "wchar c" using assms(2) w by (auto simp: word_def)
  have "skip_while is_ws t s = s"
    using assms(1,2) word_nows by (intro skip_nows) simp
  moreover have "skip_while wchar t s = s + length w"
    using assms by (intro skip_run) (auto simp: word_def)
  moreover have "arr t s = c" using assms(1) w by (simp add: arr_drop)
  ultimately show ?thesis
    using c by (auto simp: gettoken_def Let_def wchar_def is_sym_iff)
qed

lemma span_at: "drop s t = w @ R \<Longrightarrow> span t (s, s + length w) = w"
  by (simp add: span_def)

section \<open>Redirections and arguments\<close>

type_synonym 'p redir = "'p \<times> i32 \<times> nat"

definition pr_redirs :: "bytes redir list \<Rightarrow> bytes" where
  "pr_redirs rs = concat (map (\<lambda>(f, m, fd). (if fd = 0 then 60 else 62) # f) rs)"

definition wrap :: "'p cmd \<Rightarrow> 'p redir list \<Rightarrow> 'p cmd" where
  "wrap c rs = foldl (\<lambda>c (f, m, fd). REDIR c f m fd) c rs"

definition wf_redirs :: "bytes redir list \<Rightarrow> bool" where
  "wf_redirs rs \<longleftrightarrow> (\<forall>(f, m, fd) \<in> set rs. word f \<and> (m, fd) \<in> {(sh_RDONLY, 0), (sh_WRONLY_CREATE, 1)})"

lemma redirs_simps [simp]:
  "pr_redirs [] = []" "wf_redirs []"
  "pr_redirs ((f, m, fd) # rs) = (if fd = 0 then 60 else 62) # f @ pr_redirs rs"
  "wf_redirs ((f, m, fd) # rs) \<longleftrightarrow>
     word f \<and> (m, fd) \<in> {(sh_RDONLY, 0), (sh_WRONLY_CREATE, 1)} \<and> wf_redirs rs"
  by (auto simp: pr_redirs_def wf_redirs_def)

lemma wrap_simps [simp]: "wrap c [] = c" "wrap c ((f, m, fd) # rs) = wrap (REDIR c f m fd) rs"
  by (simp_all add: wrap_def)

text \<open>What may follow a simple command.\<close>

definition stop_at :: "u8 set \<Rightarrow> bytes \<Rightarrow> bool" where
  "stop_at S R \<longleftrightarrow> R = [] \<or> hd R \<in> S"

lemma stop_at_simps [simp]: "stop_at S []" "stop_at S (c # R) \<longleftrightarrow> c \<in> S"
  by (simp_all add: stop_at_def)

abbreviation follow3 :: "bytes \<Rightarrow> bool" where "follow3 \<equiv> stop_at {124, 41, 38, 59}"

lemma follow3_end: "follow3 R \<Longrightarrow> nows R \<and> (R = [] \<or> \<not> wchar (hd R)) \<and> (R = [] \<or> hd R \<noteq> 60 \<and> hd R \<noteq> 62)"
  by (auto simp: stop_at_def nows_def is_ws_iff wchar_def is_sym_iff)

lemma redirs_end:
  assumes "follow3 R"
  shows "nows (pr_redirs rs @ R) \<and> (pr_redirs rs @ R = [] \<or> \<not> wchar (hd (pr_redirs rs @ R)))"
proof (cases rs)
  case (Cons r rs)
  then show ?thesis by (cases r) (auto simp: is_ws_iff wchar_def is_sym_iff)
qed (use follow3_end [OF assms] in auto)

lemma parseredirs_none:
  assumes "nows (drop s t)" and "drop s t = [] \<or> hd (drop s t) \<noteq> 60 \<and> hd (drop s t) \<noteq> 62"
  shows "parseredirs t c s = Inr (c, s)"
  using assms by (subst parseredirs.simps) (auto simp: peek_at)

lemma map_cmd_wrap:
  "map_cmd g (wrap c rs) = wrap (map_cmd g c) (map (\<lambda>(f, m, fd). (g f, m, fd)) rs)"
  by (induction rs arbitrary: c) auto

lemma parseredirs_at:
  assumes "drop s t = pr_redirs rs @ R" and "wf_redirs rs" and "follow3 R"
  shows "\<exists>rs'. parseredirs t c s = Inr (wrap c rs', s + length (pr_redirs rs))
    \<and> map (\<lambda>(f, m, fd). (span t f, m, fd)) rs' = rs"
  using assms
proof (induction rs arbitrary: c s)
  case Nil
  then have "parseredirs t c s = Inr (c, s)" using follow3_end by (intro parseredirs_none) auto
  then show ?case by (intro exI [of _ "[]"]) simp
next
  case (Cons r rs)
  obtain f m fd where r: "r = (f, m, fd)" by (cases r)
  let ?x = "if fd = 0 then 60 else 62 :: u8"
  let ?s = "Suc s + length f"
  have d: "drop s t = ?x # f @ pr_redirs rs @ R" and f: "word f"
    and md: "(m, fd) \<in> {(sh_RDONLY, 0), (sh_WRONLY_CREATE, 1)}" and wf: "wf_redirs rs"
    using Cons.prems r by auto
  have d1: "drop (Suc s) t = f @ pr_redirs rs @ R" using drop_Cons_nth [OF d] by simp
  have d2: "drop ?s t = pr_redirs rs @ R" by (rule drop_append_add [OF d1])
  have fne: "f \<noteq> []" "hd f \<noteq> 62" using f by (auto simp: word_def wchar_def is_sym_iff hd_in_set dest!: bspec [of _ _ "hd f"])
  have p: "peek t s [60, 62] = (s, True)"
    using d by (subst peek_at) (auto simp: is_ws_iff)
  have g: "gettoken t s = (?x, s, Suc s, Suc s)"
    by (rule gettoken_symbol [OF d]) (use fne f word_nows in auto)
  have h: "gettoken t (Suc s) = (97, Suc s, ?s, ?s)"
    using gettoken_word [OF d1 f] redirs_end [OF Cons.prems(3), of rs] skip_nows [of ?s t] d2 by auto
  let ?c = "REDIR c (Suc s, ?s) m fd"
  have "parseredirs t c s = parseredirs t ?c ?s"
    using md by (subst parseredirs.simps) (auto simp: p g h)
  moreover obtain rs' where "parseredirs t ?c ?s = Inr (wrap ?c rs', ?s + length (pr_redirs rs))"
    "map (\<lambda>(f, m, fd). (span t f, m, fd)) rs' = rs"
    using Cons.IH [OF d2 wf Cons.prems(3)] by blast
  ultimately show ?case
    using span_at [OF d1] r by (intro exI [of _ "((Suc s, ?s), m, fd) # rs'"]) auto
qed

lemma parse_args_stop:
  assumes "follow3 (drop s t)"
  shows "parse_args t argc ret s = Inr (ret, s)"
proof -
  have n: "nows (drop s t)" using follow3_end [OF assms] by simp
  have "gettoken t s = (0, s, s, s)" if "drop s t = []"
    using that by (simp add: gettoken_def Let_def skip_nows arr_drop)
  then show ?thesis
    using assms n by (subst parse_args.simps) (auto simp: peek_at stop_at_def)
qed

lemma parse_args_at:
  assumes "drop s t = pr_args (w # ws) @ pr_redirs rs @ R" and "follow3 R" and "wf_redirs rs"
    and "\<forall>v \<in> set (w # ws). word v" and "argc + length (w # ws) < MAXARGS"
  shows "\<exists>as rs'. parse_args t argc (EXEC as0) s
      = Inr (wrap (EXEC (as0 @ as)) rs', s + length (pr_args (w # ws)) + length (pr_redirs rs))
    \<and> map (span t) as = w # ws \<and> map (\<lambda>(f, m, fd). (span t f, m, fd)) rs' = rs"
  using assms
proof (induction ws arbitrary: w argc as0 s)
  case Nil
  let ?s = "s + length w"
  have d: "drop s t = w @ pr_redirs rs @ R" and w: "word w" using Nil.prems by auto
  have d2: "drop ?s t = pr_redirs rs @ R" by (rule drop_append_add [OF d])
  have g: "gettoken t s = (97, s, ?s, ?s)"
    using gettoken_word [OF d w] redirs_end [OF Nil.prems(2), of rs] skip_nows [of ?s t] d2 by auto
  have p: "peek t s [124, 41, 38, 59] = (s, False)"
    using d w word_nows [OF w] by (subst peek_at) (cases w; auto simp: word_def wchar_def is_sym_iff)+
  obtain rs' where r: "parseredirs t (EXEC (as0 @ [(s, ?s)])) ?s
      = Inr (wrap (EXEC (as0 @ [(s, ?s)])) rs', ?s + length (pr_redirs rs))"
    "map (\<lambda>(f, m, fd). (span t f, m, fd)) rs' = rs"
    using parseredirs_at [OF d2 Nil.prems(3,2)] by blast
  have d3: "drop (?s + length (pr_redirs rs)) t = R" by (rule drop_append_add [OF d2])
  have "parse_args t argc (EXEC as0) s = Inr (wrap (EXEC (as0 @ [(s, ?s)])) rs', ?s + length (pr_redirs rs))"
    using Nil.prems(5) r(1) parse_args_stop [of "?s + length (pr_redirs rs)" t] Nil.prems(2)
    by (subst parse_args.simps) (simp add: p g d3)
  then show ?case using span_at [OF d] r(2) by (intro exI [of _ "[(s, ?s)]"] exI [of _ rs']) simp
next
  case (Cons v ws)
  let ?s = "Suc (s + length w)"
  have d: "drop s t = w @ 32 # pr_args (v # ws) @ pr_redirs rs @ R" and w: "word w"
    using Cons.prems(1,4) by simp_all
  have d1: "drop (s + length w) t = 32 # pr_args (v # ws) @ pr_redirs rs @ R"
    by (rule drop_append_add [OF d])
  have d2: "drop ?s t = pr_args (v # ws) @ pr_redirs rs @ R" using drop_Cons_nth [OF d1] by simp
  obtain x v' where v: "v = x # v'" "wchar x" using Cons.prems(4) by (cases v) (auto simp: word_def)
  have hd: "\<exists>Z. pr_args (v # ws) = x # Z" using v by (cases ws) auto
  have sk: "skip_while is_ws t (s + length w) = ?s"
    using skip_run [of "s + length w" t "[32]" "pr_args (v # ws) @ pr_redirs rs @ R" is_ws] d1 v(2) hd
    by (auto simp: is_ws_iff wchar_def)
  have g: "gettoken t s = (97, s, s + length w, ?s)"
    using gettoken_word [OF d w] sk by (simp add: wchar_def is_ws_iff)
  have p: "peek t s [124, 41, 38, 59] = (s, False)"
    using d w word_nows [OF w] by (subst peek_at) (cases w; auto simp: word_def wchar_def is_sym_iff)+
  have n: "parseredirs t c ?s = Inr (c, ?s)" for c
    using d2 hd v(2) by (intro parseredirs_none) (auto simp: wchar_def is_sym_iff)
  let ?a = "(s, s + length w)"
  obtain as rs' where r: "parse_args t (argc + 1) (EXEC (as0 @ [?a])) ?s
      = Inr (wrap (EXEC (as0 @ [?a] @ as)) rs', ?s + length (pr_args (v # ws)) + length (pr_redirs rs))"
    "map (span t) as = v # ws" "map (\<lambda>(f, m, fd). (span t f, m, fd)) rs' = rs"
    using Cons.IH [OF d2 Cons.prems(2,3), of "argc + 1" "as0 @ [?a]"] Cons.prems(4,5) by auto
  have "parse_args t argc (EXEC as0) s = parse_args t (argc + 1) (EXEC (as0 @ [?a])) ?s"
    using Cons.prems(5) by (subst parse_args.simps) (simp add: p g n)
  then show ?case using span_at [OF d] r by (intro exI [of _ "?a # as"] exI [of _ rs']) simp
qed

section \<open>The printer is inverted\<close>

lemma nows_pr: "wf_cmd c \<Longrightarrow> nows R \<Longrightarrow> nows (pr k c @ R)"
proof (induction c arbitrary: k R)
  case (EXEC as)
  then show ?case
    by (cases as rule: pr_args.cases) (auto simp: word_nows)
next
  case (REDIR c f m fd)
  then show ?case by (auto simp: is_ws_iff)
next
  case (PIPE l r)
  then show ?case by (auto simp: paren_def is_ws_iff)
next
  case (LIST l r)
  then show ?case by (auto simp: paren_def is_ws_iff)
next
  case (BACK c)
  then show ?case by (auto simp: paren_def is_ws_iff)
qed

text \<open>
  The four levels of the grammar: the text printed at a level is parsed there, up to what may
  follow it. A simple command takes the redirections behind it, a pipeline the \<open>&\<close>s.
\<close>

definition parses3 :: "bytes cmd \<Rightarrow> bool" where
  "parses3 c \<longleftrightarrow> (\<forall>t s rs R n. drop s t = pr 3 c @ pr_redirs rs @ R \<longrightarrow> wf_redirs rs \<longrightarrow> follow3 R \<longrightarrow>
     s \<le> length t \<longrightarrow> 4 * (length t - s) + 2 \<le> n \<longrightarrow>
     (\<exists>k. parseexec n t s = Inr (k, s + length (pr 3 c) + length (pr_redirs rs)) \<and> map_cmd (span t) k = wrap c rs))"

definition parses2 :: "bytes cmd \<Rightarrow> bool" where
  "parses2 c \<longleftrightarrow> (\<forall>t s R n. drop s t = pr 2 c @ R \<longrightarrow> stop_at {41, 38, 59} R \<longrightarrow>
     s \<le> length t \<longrightarrow> 4 * (length t - s) + 3 \<le> n \<longrightarrow>
     (\<exists>k. parsepipe n t s = Inr (k, s + length (pr 2 c)) \<and> map_cmd (span t) k = c))"

definition parses1 :: "bytes cmd \<Rightarrow> bool" where
  "parses1 c \<longleftrightarrow> (\<forall>t s i R n. drop s t = pr 1 c @ replicate i 38 @ R \<longrightarrow> stop_at {41, 59} R \<longrightarrow>
     s \<le> length t \<longrightarrow> 4 * (length t - s) + 3 \<le> n \<longrightarrow>
     (\<exists>k. bindE (parsepipe n t s) (\<lambda>(k, s). Inr (parse_backs t k s)) = Inr (k, s + length (pr 1 c) + i)
        \<and> map_cmd (span t) k = (BACK ^^ i) c))"

definition parses0 :: "bytes cmd \<Rightarrow> bool" where
  "parses0 c \<longleftrightarrow> (\<forall>t s R n. drop s t = pr 0 c @ R \<longrightarrow> stop_at {41} R \<longrightarrow>
     s \<le> length t \<longrightarrow> 4 * (length t - s) + 4 \<le> n \<longrightarrow>
     (\<exists>k. parseline n t s = Inr (k, s + length (pr 0 c)) \<and> map_cmd (span t) k = c))"

lemma stop_at_mono: "stop_at S R \<Longrightarrow> S \<subseteq> S' \<Longrightarrow> stop_at S' R"
  by (auto simp: stop_at_def)

lemma parse_backs_at:
  assumes "drop s t = replicate i 38 @ R" and "stop_at {41, 59} R"
  shows "\<exists>k'. parse_backs t k s = (k', s + i) \<and> map_cmd (span t) k' = (BACK ^^ i) (map_cmd (span t) k)"
  using assms(1)
proof (induction i arbitrary: k s)
  case 0
  then have "peek t s [38] = (s, False)"
    using assms(2) follow3_end [of R] by (subst peek_at) (auto simp: stop_at_def)
  then show ?case by (subst parse_backs.simps) simp
next
  case (Suc i)
  have d: "drop s t = 38 # replicate i 38 @ R" using Suc.prems by simp
  have n: "nows (replicate i 38 @ R)"
    using follow3_end [of R] assms(2) by (cases i) (auto simp: is_ws_iff stop_at_def)
  have p: "peek t s [38] = (s, True)" using d by (subst peek_at) (auto simp: is_ws_iff)
  have g: "gettoken t s = (38, s, Suc s, Suc s)" by (rule gettoken_symbol [OF d]) (use n in auto)
  have "parse_backs t k s = parse_backs t (BACK k) (Suc s)"
    by (subst parse_backs.simps) (simp add: p g)
  then show ?case
    using Suc.IH [of "Suc s" "BACK k"] drop_Cons_nth [OF d] by (auto simp: funpow_swap1)
qed

text \<open>A command printed alike at two levels is parsed at the outer one when it is at the inner one.\<close>

lemma parses2_of_3:
  assumes "parses3 c" and "pr 2 c = pr 3 c"
  shows "parses2 c"
  unfolding parses2_def
proof (intro allI impI)
  fix t s R n assume d: "drop s t = pr 2 c @ R" and R: "stop_at {41, 38, 59} R" and s: "s \<le> length t"
    and n: "4 * (length t - s) + 3 \<le> n"
  obtain m where m: "n = Suc m" "4 * (length t - s) + 2 \<le> m" using n by (cases n) auto
  have R3: "follow3 R" using R by (rule stop_at_mono) auto
  obtain k where k: "parseexec m t s = Inr (k, s + length (pr 3 c))" "map_cmd (span t) k = c"
    using assms(1) [unfolded parses3_def, rule_format, of s t "[]" R m] d R3 s m(2) assms(2) by auto
  have "drop (s + length (pr 3 c)) t = R" using drop_append_add [OF d] assms(2) by simp
  then have "peek t (s + length (pr 3 c)) [124] = (s + length (pr 3 c), False)"
    using follow3_end [OF R3] R by (subst peek_at) (auto simp: stop_at_def)
  then show "\<exists>k. parsepipe n t s = Inr (k, s + length (pr 2 c)) \<and> map_cmd (span t) k = c"
    using k m(1) assms(2) by simp
qed

lemma parses1_of_2:
  assumes "parses2 c" and "pr 1 c = pr 2 c"
  shows "parses1 c"
  unfolding parses1_def
proof (intro allI impI)
  fix t s i R n assume d: "drop s t = pr 1 c @ replicate i 38 @ R" and R: "stop_at {41, 59} R"
    and s: "s \<le> length t" and n: "4 * (length t - s) + 3 \<le> n"
  have "stop_at {41, 38, 59} (replicate i 38 @ R)" using R by (cases i) (auto simp: stop_at_def)
  then obtain k where k: "parsepipe n t s = Inr (k, s + length (pr 2 c))" "map_cmd (span t) k = c"
    using assms(1) [unfolded parses2_def, rule_format, of s t "replicate i 38 @ R" n] d s n assms(2) by auto
  have "drop (s + length (pr 2 c)) t = replicate i 38 @ R" using drop_append_add [OF d] assms(2) by simp
  from parse_backs_at [OF this R, of k] k assms(2)
  show "\<exists>k. bindE (parsepipe n t s) (\<lambda>(k, s). Inr (parse_backs t k s)) = Inr (k, s + length (pr 1 c) + i)
      \<and> map_cmd (span t) k = (BACK ^^ i) c" by auto
qed

text \<open>\<open>parseline\<close> before a \<open>;\<close> or at the end of a line.\<close>

lemma parseline_first:
  assumes "parses1 c" and "drop s t = pr 1 c @ R" and "stop_at {41, 59} R" and "s \<le> length t"
    and "4 * (length t - s) + 4 \<le> Suc n"
  obtains k where "map_cmd (span t) k = c"
    and "parseline (Suc n) t s =
      (if R \<noteq> [] \<and> hd R = 59 then
         let (tok, q, eq, s) = gettoken t (s + length (pr 1 c))
         in bindE (parseline n t s) (\<lambda>(right, s). Inr (LIST k right, s))
       else Inr (k, s + length (pr 1 c)))"
proof -
  obtain k0 s0 k where k: "parsepipe n t s = Inr (k0, s0)" "parse_backs t k0 s0 = (k, s + length (pr 1 c))"
    "map_cmd (span t) k = c"
    using assms(1) [unfolded parses1_def, rule_format, of s t 0 R n] assms(2-5)
    by (auto simp: bindE_Inr_iff)
  have "drop (s + length (pr 1 c)) t = R" by (rule drop_append_add [OF assms(2)])
  then have "peek t (s + length (pr 1 c)) [59] = (s + length (pr 1 c), R \<noteq> [] \<and> hd R = 59)"
    using assms(3) follow3_end [of R] by (subst peek_at) (auto simp: stop_at_def)
  then show ?thesis using that k by simp
qed

lemma parses0_of_1:
  assumes "parses1 c" and "pr 0 c = pr 1 c"
  shows "parses0 c"
  unfolding parses0_def
proof (intro allI impI)
  fix t s R n assume d: "drop s t = pr 0 c @ R" and R: "stop_at {41} R" and s: "s \<le> length t"
    and n: "4 * (length t - s) + 4 \<le> n"
  obtain m where m: "n = Suc m" using n by (cases n) auto
  have R': "stop_at {41, 59} R" using R by (rule stop_at_mono) auto
  have d': "drop s t = pr 1 c @ R" using d assms(2) by simp
  have no: "\<not> (R \<noteq> [] \<and> hd R = 59)" using R by (auto simp: stop_at_def)
  from parseline_first [OF assms(1) d' R' s n [unfolded m]] obtain k where "map_cmd (span t) k = c"
    "parseline (Suc m) t s = Inr (k, s + length (pr 1 c))"
    unfolding if_not_P [OF no] by blast
  then show "\<exists>k. parseline n t s = Inr (k, s + length (pr 0 c)) \<and> map_cmd (span t) k = c"
    using m assms(2) by auto
qed

lemma parses3_paren:
  assumes "parses0 c" and "pr 3 c = 40 # pr 0 c @ [41]" and "wf_cmd c"
  shows "parses3 c"
  unfolding parses3_def
proof (intro allI impI)
  fix t s rs R n assume d: "drop s t = pr 3 c @ pr_redirs rs @ R" and rs: "wf_redirs rs"
    and R: "follow3 R" and n: "4 * (length t - s) + 2 \<le> n"
  let ?Z = "pr_redirs rs @ R"
  have d0: "drop s t = 40 # pr 0 c @ 41 # ?Z" using d assms(2) by simp
  have s: "s < length t" and d1: "drop (Suc s) t = pr 0 c @ 41 # ?Z" using drop_Cons_nth [OF d0] by auto
  obtain m where m: "n = Suc (Suc m)" "4 * (length t - Suc s) + 4 \<le> m"
    using n s by (cases n; cases "n - 1") auto
  have p: "peek t s [40] = (s, True)" using d0 by (subst peek_at) (auto simp: is_ws_iff)
  have g: "gettoken t s = (40, s, Suc s, Suc s)"
    by (rule gettoken_symbol [OF d0]) (use nows_pr [OF assms(3)] in \<open>auto simp: is_ws_iff\<close>)
  obtain k where k: "parseline m t (Suc s) = Inr (k, Suc s + length (pr 0 c))" "map_cmd (span t) k = c"
    using assms(1) [unfolded parses0_def, rule_format, OF d1 _ _ m(2)] s by auto
  let ?e = "Suc (s + length (pr 0 c))"
  have d2: "drop ?e t = 41 # ?Z" using drop_append_add [OF d1] by simp
  have p2: "peek t ?e [41] = (?e, True)" using d2 by (subst peek_at) (auto simp: is_ws_iff)
  have g2: "gettoken t ?e = (41, ?e, Suc ?e, Suc ?e)"
    by (rule gettoken_symbol [OF d2]) (use redirs_end [OF R] in auto)
  have d3: "drop (Suc ?e) t = ?Z" using drop_Cons_nth [OF d2] by simp
  obtain rs' where r: "parseredirs t k (Suc ?e) = Inr (wrap k rs', Suc ?e + length (pr_redirs rs))"
    "map (\<lambda>(f, m, fd). (span t f, m, fd)) rs' = rs"
    using parseredirs_at [OF d3 rs R] by blast
  have "parseexec n t s = Inr (wrap k rs', Suc ?e + length (pr_redirs rs))"
    using k(1) r(1) by (simp add: m p g p2 g2)
  then show "\<exists>k. parseexec n t s = Inr (k, s + length (pr 3 c) + length (pr_redirs rs))
      \<and> map_cmd (span t) k = wrap c rs"
    using k(2) r(2) assms(2) by (intro exI [of _ "wrap k rs'"]) (simp add: map_cmd_wrap)
qed

lemma parses3_exec:
  assumes "wf_cmd (EXEC ws)"
  shows "parses3 (EXEC ws)"
  unfolding parses3_def
proof (intro allI impI)
  fix t s rs R n assume d: "drop s t = pr 3 (EXEC ws) @ pr_redirs rs @ R" and rs: "wf_redirs rs"
    and R: "follow3 R" and n: "4 * (length t - s) + 2 \<le> n"
  obtain m where m: "n = Suc m" using n by (cases n) auto
  show "\<exists>k. parseexec n t s = Inr (k, s + length (pr 3 (EXEC ws)) + length (pr_redirs rs))
      \<and> map_cmd (span t) k = wrap (EXEC ws) rs"
  proof (cases ws)
    case Nil
    then have d0: "drop s t = pr_redirs rs @ R" using d by simp
    have "nows (drop s t)" using redirs_end [OF R, of rs] d0 by simp
    moreover have "drop s t = [] \<or> hd (drop s t) \<noteq> 40"
    proof (cases rs)
      case Nil
      then show ?thesis using d0 R by (auto simp: stop_at_def)
    next
      case (Cons r rs)
      then show ?thesis using d0 by (cases r) auto
    qed
    ultimately have p: "peek t s [40] = (s, False)" by (subst peek_at) auto
    obtain rs' where r: "parseredirs t (EXEC []) s = Inr (wrap (EXEC []) rs', s + length (pr_redirs rs))"
      "map (\<lambda>(f, m, fd). (span t f, m, fd)) rs' = rs"
      using parseredirs_at [OF d0 rs R] by blast
    have "drop (s + length (pr_redirs rs)) t = R" by (rule drop_append_add [OF d0])
    then have "parseexec n t s = Inr (wrap (EXEC []) rs', s + length (pr_redirs rs))"
      using r(1) parse_args_stop R by (simp add: m p)
    then show ?thesis using r(2) Nil by (intro exI [of _ "wrap (EXEC []) rs'"]) (simp add: map_cmd_wrap)
  next
    case (Cons w vs)
    have d0: "drop s t = pr_args (w # vs) @ pr_redirs rs @ R" using d Cons by simp
    obtain x v where x: "w = x # v" "wchar x" using assms Cons by (cases w) (auto simp: word_def)
    then obtain Z where Z: "drop s t = x # Z" using d0 by (cases vs) auto
    have x': "nows (drop s t)" "x \<noteq> 40" "x \<noteq> 60" "x \<noteq> 62"
      using x(2) Z by (auto simp: wchar_def is_sym_iff)
    then have p: "peek t s [40] = (s, False)" using Z by (subst peek_at) auto
    have q: "parseredirs t (EXEC []) s = Inr (EXEC [], s)" using x' Z by (intro parseredirs_none) auto
    obtain as rs' where r: "parse_args t 0 (EXEC ([] @ [])) s
        = Inr (wrap (EXEC ([] @ as)) rs', s + length (pr_args (w # vs)) + length (pr_redirs rs))"
      "map (span t) as = w # vs" "map (\<lambda>(f, m, fd). (span t f, m, fd)) rs' = rs"
      using parse_args_at [OF d0 R rs, of 0 "[]"] assms Cons by auto
    then have "parseexec n t s = Inr (wrap (EXEC as) rs', s + length (pr 3 (EXEC ws)) + length (pr_redirs rs))"
      using Cons by (simp add: m p q)
    then show ?thesis using r Cons by (intro exI [of _ "wrap (EXEC as) rs'"]) (simp add: map_cmd_wrap)
  qed
qed

lemma parses3_redir:
  assumes "parses3 c" and "wf_cmd (REDIR c f m fd)"
  shows "parses3 (REDIR c f m fd)"
  unfolding parses3_def
proof (intro allI impI)
  fix t s rs R n assume d: "drop s t = pr 3 (REDIR c f m fd) @ pr_redirs rs @ R" and rs: "wf_redirs rs"
    and R: "follow3 R" and s: "s \<le> length t" and n: "4 * (length t - s) + 2 \<le> n"
  let ?rs = "(f, m, fd) # rs"
  have "drop s t = pr 3 c @ pr_redirs ?rs @ R" using d by simp
  moreover have "wf_redirs ?rs" using rs assms(2) by simp
  ultimately show "\<exists>k. parseexec n t s = Inr (k, s + length (pr 3 (REDIR c f m fd)) + length (pr_redirs rs))
      \<and> map_cmd (span t) k = wrap (REDIR c f m fd) rs"
    using assms(1) [unfolded parses3_def, rule_format, of s t ?rs R n] R s n by (auto simp: add.assoc)
qed

lemma parses2_pipe:
  assumes "parses3 l" and "parses2 r" and "wf_cmd r"
  shows "parses2 (PIPE l r)"
  unfolding parses2_def
proof (intro allI impI)
  fix t s R n assume d: "drop s t = pr 2 (PIPE l r) @ R" and R: "stop_at {41, 38, 59} R"
    and s: "s \<le> length t" and n: "4 * (length t - s) + 3 \<le> n"
  have d0: "drop s t = pr 3 l @ pr_redirs [] @ 124 # pr 2 r @ R" using d by (simp add: paren_def)
  obtain i where i: "n = Suc i" "4 * (length t - s) + 2 \<le> i" using n by (cases n) auto
  obtain k where k: "parseexec i t s = Inr (k, s + length (pr 3 l))" "map_cmd (span t) k = l"
    using assms(1) [unfolded parses3_def, rule_format, OF d0 _ _ s i(2)] by auto
  let ?e = "s + length (pr 3 l)"
  have d1: "drop ?e t = 124 # pr 2 r @ R" using drop_append_add [OF d0] by simp
  have nows_R: "nows R" using R follow3_end [of R] by (auto simp: stop_at_def)
  have p: "peek t ?e [124] = (?e, True)" using d1 by (subst peek_at) (auto simp: is_ws_iff)
  have g: "gettoken t ?e = (124, ?e, Suc ?e, Suc ?e)"
    by (rule gettoken_symbol [OF d1]) (use nows_pr [OF assms(3) nows_R] in auto)
  have d2: "drop (Suc ?e) t = pr 2 r @ R" and e: "?e < length t" using drop_Cons_nth [OF d1] by auto
  have "4 * (length t - Suc ?e) + 3 \<le> i" using i(2) e by linarith
  then obtain k2 where k2: "parsepipe i t (Suc ?e) = Inr (k2, Suc ?e + length (pr 2 r))" "map_cmd (span t) k2 = r"
    using assms(2) [unfolded parses2_def, rule_format, OF d2 R] e by auto
  then show "\<exists>k. parsepipe n t s = Inr (k, s + length (pr 2 (PIPE l r))) \<and> map_cmd (span t) k = PIPE l r"
    using k by (intro exI [of _ "PIPE k k2"]) (simp add: i p g paren_def)
qed

lemma parses1_back:
  assumes "parses1 c"
  shows "parses1 (BACK c)"
  unfolding parses1_def
proof (intro allI impI)
  fix t s i R n assume d: "drop s t = pr 1 (BACK c) @ replicate i 38 @ R" and R: "stop_at {41, 59} R"
    and s: "s \<le> length t" and n: "4 * (length t - s) + 3 \<le> n"
  have "drop s t = pr 1 c @ replicate (Suc i) 38 @ R" using d by (simp add: paren_def)
  from assms(1) [unfolded parses1_def, rule_format, OF this R s n]
  show "\<exists>k. bindE (parsepipe n t s) (\<lambda>(k, s). Inr (parse_backs t k s)) = Inr (k, s + length (pr 1 (BACK c)) + i)
      \<and> map_cmd (span t) k = (BACK ^^ i) (BACK c)"
    by (auto simp: paren_def funpow_swap1)
qed

lemma parses0_list:
  assumes "parses1 l" and "parses0 r" and "wf_cmd r"
  shows "parses0 (LIST l r)"
  unfolding parses0_def
proof (intro allI impI)
  fix t s R n assume d: "drop s t = pr 0 (LIST l r) @ R" and R: "stop_at {41} R"
    and s: "s \<le> length t" and n: "4 * (length t - s) + 4 \<le> n"
  have d0: "drop s t = pr 1 l @ 59 # pr 0 r @ R" using d by (simp add: paren_def)
  obtain i where i: "n = Suc i" using n by (cases n) auto
  let ?e = "s + length (pr 1 l)"
  obtain k where k: "map_cmd (span t) k = l"
    "parseline (Suc i) t s = (let (tok, q, eq, s) = gettoken t ?e
       in bindE (parseline i t s) (\<lambda>(right, s). Inr (LIST k right, s)))"
    by (rule parseline_first [OF assms(1) d0 _ s n [unfolded i]]) auto
  have d1: "drop ?e t = 59 # pr 0 r @ R" by (rule drop_append_add [OF d0])
  have "nows R" using R follow3_end [of R] by (auto simp: stop_at_def)
  then have g: "gettoken t ?e = (59, ?e, Suc ?e, Suc ?e)"
    by (intro gettoken_symbol [OF d1]) (use nows_pr [OF assms(3)] in auto)
  have d2: "drop (Suc ?e) t = pr 0 r @ R" and e: "?e < length t" using drop_Cons_nth [OF d1] by auto
  have "4 * (length t - Suc ?e) + 4 \<le> i" using n i e by linarith
  then obtain k2 where k2: "parseline i t (Suc ?e) = Inr (k2, Suc ?e + length (pr 0 r))" "map_cmd (span t) k2 = r"
    using assms(2) [unfolded parses0_def, rule_format, OF d2 R] e by auto
  then show "\<exists>k. parseline n t s = Inr (k, s + length (pr 0 (LIST l r))) \<and> map_cmd (span t) k = LIST l r"
    unfolding i k(2) using k(1) by (intro exI [of _ "LIST k k2"]) (simp add: g paren_def del: One_nat_def)
qed

lemma parses_all: "wf_cmd c \<Longrightarrow> parses3 c \<and> parses2 c \<and> parses1 c \<and> parses0 c"
proof (induction c)
  case (EXEC as)
  then have 3: "parses3 (EXEC as)" by (rule parses3_exec)
  moreover have 2: "parses2 (EXEC as)" by (rule parses2_of_3 [OF 3]) simp
  moreover have 1: "parses1 (EXEC as)" by (rule parses1_of_2 [OF 2]) simp
  ultimately show ?case using parses0_of_1 [OF 1] by simp
next
  case (REDIR c f m fd)
  then have 3: "parses3 (REDIR c f m fd)" by (intro parses3_redir) auto
  moreover have 2: "parses2 (REDIR c f m fd)" by (rule parses2_of_3 [OF 3]) simp
  moreover have 1: "parses1 (REDIR c f m fd)" by (rule parses1_of_2 [OF 2]) simp
  ultimately show ?case using parses0_of_1 [OF 1] by simp
next
  case (PIPE l r)
  then have 2: "parses2 (PIPE l r)" by (intro parses2_pipe) auto
  moreover have 1: "parses1 (PIPE l r)" by (rule parses1_of_2 [OF 2]) (simp add: paren_def)
  moreover have 0: "parses0 (PIPE l r)" by (rule parses0_of_1 [OF 1]) (simp add: paren_def)
  ultimately show ?case using parses3_paren [OF 0 _ PIPE.prems] by (simp add: paren_def)
next
  case (LIST l r)
  then have 0: "parses0 (LIST l r)" by (intro parses0_list) auto
  then have 3: "parses3 (LIST l r)" using parses3_paren [OF 0 _ LIST.prems] by (simp add: paren_def)
  moreover have 2: "parses2 (LIST l r)" by (rule parses2_of_3 [OF 3]) (simp add: paren_def)
  ultimately show ?case using 0 parses1_of_2 [OF 2] by (simp add: paren_def)
next
  case (BACK c)
  then have 1: "parses1 (BACK c)" by (intro parses1_back) auto
  moreover have 0: "parses0 (BACK c)" by (rule parses0_of_1 [OF 1]) (simp add: paren_def)
  moreover have 3: "parses3 (BACK c)" using parses3_paren [OF 0 _ BACK.prems] by (simp add: paren_def)
  ultimately show ?case using parses2_of_3 [OF 3] by (simp add: paren_def)
qed

lemma pr_no_nul: "wf_cmd c \<Longrightarrow> 0 \<notin> set (pr k c)"
proof (induction c arbitrary: k)
  case (EXEC as)
  then show ?case by (induction as rule: pr_args.induct) (auto simp: word_def)
qed (auto simp: paren_def word_def)

text \<open>
  C7. The parser of the shell inverts the printer: every command with at most nine words per simple
  command, printed with parentheses where the grammar needs them, is parsed back to itself, its
  words read as C strings in the terminated line buffer.
\<close>

theorem parsecmd_pr:
  assumes "wf_cmd c"
  shows "\<exists>k buf. parsecmd (pr 0 c) = Inr (k, buf) \<and> map_cmd (word_at buf) k = c"
proof -
  let ?t = "pr 0 c"
  obtain k where k: "parseline (4 * length ?t + 4) ?t 0 = Inr (k, length ?t)" "map_cmd (span ?t) k = c"
    using parses_all [OF assms] unfolding parses0_def
    by (elim conjE allE [of _ ?t] allE [of _ 0] allE [of _ "[]"] allE [of _ "4 * length ?t + 4"]) auto
  let ?b = "nulterminate k (?t @ [0])"
  have "peek ?t (length ?t) [] = (length ?t, False)" by (subst peek_at) auto
  then have p: "parsecmd ?t = Inr (k, ?b)" by (simp add: parsecmd_def k(1))
  have "map_cmd (word_at ?b) k = map_cmd (span ?t) k"
    using word_at_span [OF parsecmd_Inr(2) [OF p] _ pr_no_nul [OF assms]] by (intro cmd.map_cong) auto
  then have "map_cmd (word_at ?b) k = c" using k(2) by (rule trans)
  with p show ?thesis by (intro exI conjI)
qed

lemma parsecmd_pr_witness:
  "\<exists>k buf. parsecmd [40, 97, 59, 98, 32, 99, 41, 62, 102, 124, 119, 38] = Inr (k, buf) \<and>
     map_cmd (word_at buf) k =
       BACK (PIPE (REDIR (LIST (EXEC [[97]]) (EXEC [[98], [99]])) [102] sh_WRONLY_CREATE 1) (EXEC [[119]]))"
proof -
  let ?c = "BACK (PIPE (REDIR (LIST (EXEC [[97]]) (EXEC [[98], [99]])) [102] sh_WRONLY_CREATE 1) (EXEC [[119]]))"
  have w: "wf_cmd ?c" by code_simp
  have p: "pr 0 ?c = [40, 97, 59, 98, 32, 99, 41, 62, 102, 124, 119, 38]" by code_simp
  show ?thesis using parsecmd_pr [OF w] unfolding p .
qed

end
