(* ===== verification/Xv6_ShRun.thy ===== *)
theory Xv6_ShRun
  imports Xv6_Sh
begin

text \<open>
  \<open>runcmd\<close> and the main loop of the shell, as the system calls they make and what they do with the
  results; and what descriptors every command of a line is started with.
\<close>

section \<open>System calls\<close>

text \<open>
  A process of the shell: a system call and how it goes on, for each result that the code tells
  apart. \<open>Fork\<close> has its failure, the child and the parent; \<open>Exec\<close> goes on only when it fails.
\<close>

datatype prog =
    Exit
  | Close nat prog
  | Open bytes i32 "int \<Rightarrow> prog"
  | Exec bytes "bytes list" prog
  | Pipe "(nat \<times> nat) option \<Rightarrow> prog"
  | Dup nat prog
  | Fork prog prog prog
  | Wait prog
  | Chdir bytes "int \<Rightarrow> prog"
  | Write nat bytes prog

definition ascii :: "string \<Rightarrow> bytes" where
  "ascii s = map of_char s"

text \<open>\<open>printf(2, fmt, s)\<close> of the shell, whose formats have at most one string argument.\<close>

definition print_err :: "string \<Rightarrow> uarg list \<Rightarrow> prog \<Rightarrow> prog" where
  "print_err fmt as p = (case printf (ascii fmt @ [10]) as of Inr out \<Rightarrow> Write 2 out p | Inl e \<Rightarrow> p)"

definition panic_sh :: "string \<Rightarrow> prog" where
  "panic_sh s = print_err ''%s'' [UStr (Some (ascii s))] Exit"

definition fork1 :: "prog \<Rightarrow> prog \<Rightarrow> prog" where
  "fork1 child parent = Fork (panic_sh ''fork'') child parent"

section \<open>runcmd\<close>

primrec runcmd :: "bytes cmd \<Rightarrow> prog" where
  "runcmd (EXEC argv) =
     (case argv of [] \<Rightarrow> Exit
      | a # as \<Rightarrow> Exec a argv (print_err ''exec %s failed'' [UStr (Some a)] Exit))"
| "runcmd (REDIR c file mode fd) =
     Close fd (Open file mode (\<lambda>r.
       if r < 0 then print_err ''open %s failed'' [UStr (Some file)] Exit else runcmd c))"
| "runcmd (LIST left right) = fork1 (runcmd left) (Wait (runcmd right))"
| "runcmd (PIPE left right) =
     Pipe (\<lambda>p. case p of
       None \<Rightarrow> panic_sh ''pipe''
     | Some (p0, p1) \<Rightarrow>
         fork1 (Close 1 (Dup p1 (Close p0 (Close p1 (runcmd left)))))
           (fork1 (Close 0 (Dup p0 (Close p0 (Close p1 (runcmd right)))))
             (Close p0 (Close p1 (Wait (Wait Exit))))))"
| "runcmd (BACK c) = fork1 (runcmd c) Exit"

section \<open>The main loop\<close>

text \<open>\<open>getcmd\<close>: the line in the cleared buffer of 100 bytes, and the input left.\<close>

definition getcmd :: "bytes \<Rightarrow> bytes \<times> bytes" where
  "getcmd inp = (let (buf, rest) = gets 100 inp in (takeWhile (\<lambda>c. c \<noteq> 0) buf, rest))"

text \<open>What the child does with a line: a line that is not a command ends in \<open>panic\<close>.\<close>

definition run_line :: "bytes \<Rightarrow> prog" where
  "run_line line =
     (case parsecmd line of
        Inr (cmd, buf) \<Rightarrow> runcmd (map_cmd (word_at buf) cmd)
      | Inl (Panic m) \<Rightarrow> panic_sh m
      | Inl e \<Rightarrow> Exit)"

lemma gets_loop_shrinks:
  "gets_loop n inp = (buf, rest) \<Longrightarrow> buf \<noteq> [] \<Longrightarrow> length rest < length inp"
  using gets_loop_split [of n inp buf rest] by (cases buf) auto

function sh_loop :: "bytes \<Rightarrow> prog" where
  "sh_loop inp =
     (let (line, rest) = getcmd inp in
      Write 2 (ascii ''$ '')
        (if line = [] then Exit
         else if take 3 line = ascii ''cd '' then
           let dir = drop 3 (butlast line)
           in Chdir dir (\<lambda>r. if r < 0 then print_err ''cannot cd %s'' [UStr (Some dir)] (sh_loop rest)
                else sh_loop rest)
         else fork1 (run_line line) (Wait (sh_loop rest))))"
  by pat_completeness auto
termination
proof -
  have s: "length rest < length inp" if g: "(line, rest) = getcmd inp" "line \<noteq> []" for line rest inp
  proof -
    obtain b where b: "gets_loop (nat (100 - 1)) inp = (b, rest)" "line = takeWhile (\<lambda>c. c \<noteq> 0) (b @ [0])"
      using g(1) by (auto simp: getcmd_def gets_def split: prod.splits)
    then have "b \<noteq> []" using g(2) by auto
    then show ?thesis by (rule gets_loop_shrinks [OF b(1)])
  qed
  show ?thesis by (relation "measure length") (auto intro: s)
qed

declare sh_loop.simps [simp del]

text \<open>
  The start of \<open>main\<close>: the console is opened until the descriptors 0 to 2 are taken. Each \<open>open\<close> that
  succeeds takes a new descriptor, so \<open>NOFILE\<close> turns are more than the loop can make.
\<close>

primrec open_console :: "nat \<Rightarrow> prog \<Rightarrow> prog" where
  "open_console 0 p = p"
| "open_console (Suc n) p =
     Open (ascii ''console'') 2 (\<lambda>fd. if fd < 0 then p else if fd \<ge> 3 then Close (nat fd) p else open_console n p)"

definition sh_main :: "bytes \<Rightarrow> prog" where
  "sh_main inp = open_console 16 (sh_loop inp)"

section \<open>Descriptors\<close>

text \<open>
  The kernel's view of a process: its descriptor table, of which \<open>open\<close>, \<open>dup\<close> and \<open>pipe\<close> take the
  lowest free entry. Pipes are numbered in the order they are made.
\<close>

datatype fobj = Given nat | OpenFile bytes i32 | ReadEnd nat | WriteEnd nat

type_synonym fdt = "fobj option list"

fun lowest :: "fdt \<Rightarrow> nat option" where
  "lowest [] = None"
| "lowest (x # T) = (if x = None then Some 0 else map_option Suc (lowest T))"

text \<open>
  The programs that a process and its children start, each with its arguments and its descriptors,
  when no call fails but for want of a descriptor.
\<close>

type_synonym started = "(bytes list \<times> fdt) list"

primrec run :: "prog \<Rightarrow> fdt \<Rightarrow> nat \<Rightarrow> started \<times> nat" where
  "run Exit T n = ([], n)"
| "run (Close fd p) T n = run p (T[fd := None]) n"
| "run (Open f m k) T n =
     (case lowest T of None \<Rightarrow> run (k (- 1)) T n
      | Some i \<Rightarrow> run (k (int i)) (T[i := Some (OpenFile f m)]) n)"
| "run (Exec f argv p) T n = ([(argv, T)], n)"
| "run (Pipe k) T n =
     (case lowest T of None \<Rightarrow> run (k None) T n
      | Some i \<Rightarrow>
          (case lowest (T[i := Some (ReadEnd n)]) of None \<Rightarrow> run (k None) T n
           | Some j \<Rightarrow> run (k (Some (i, j))) (T[i := Some (ReadEnd n), j := Some (WriteEnd n)]) (Suc n)))"
| "run (Dup fd p) T n =
     (case lowest T of None \<Rightarrow> run p T n | Some i \<Rightarrow> run p (T[i := T ! fd]) n)"
| "run (Fork e child parent) T n =
     (let (es, n) = run child T n; (es', n) = run parent T n in (es @ es', n))"
| "run (Wait p) T n = run p T n"
| "run (Chdir d k) T n = run (k 0) T n"
| "run (Write fd out p) T n = run p T n"

text \<open>
  What a command means: each program gets the descriptors of the shell but for the redirections and
  the pipes around it, and the end of a pipe at the place it stands for.
\<close>

fun meant :: "bytes cmd \<Rightarrow> fdt \<Rightarrow> nat \<Rightarrow> started \<times> nat" where
  "meant (EXEC argv) T n = (if argv = [] then ([], n) else ([(argv, T)], n))"
| "meant (REDIR c f m fd) T n = meant c (T[fd := Some (OpenFile f m)]) n"
| "meant (PIPE l r) T n =
     (let (es, n1) = meant l (T[1 := Some (WriteEnd n)]) (Suc n);
          (es', n2) = meant r (T[0 := Some (ReadEnd n)]) n1 in (es @ es', n2))"
| "meant (LIST l r) T n =
     (let (es, n1) = meant l T n; (es', n2) = meant r T n1 in (es @ es', n2))"
| "meant (BACK c) T n = meant c T n"

fun fds_ok :: "'p cmd \<Rightarrow> bool" where
  "fds_ok (EXEC as) \<longleftrightarrow> True"
| "fds_ok (REDIR c f m fd) \<longleftrightarrow> (fd = 0 \<or> fd = 1) \<and> fds_ok c"
| "fds_ok (PIPE l r) \<longleftrightarrow> fds_ok l \<and> fds_ok r"
| "fds_ok (LIST l r) \<longleftrightarrow> fds_ok l \<and> fds_ok r"
| "fds_ok (BACK c) \<longleftrightarrow> fds_ok c"

definition roomy :: "fdt \<Rightarrow> bool" where
  "roomy T \<longleftrightarrow> 1 < length T \<and> T ! 0 \<noteq> None \<and> T ! 1 \<noteq> None \<and>
     (\<exists>i j. 1 < i \<and> i < j \<and> j < length T \<and> T ! i = None \<and> T ! j = None)"

lemma lowest_Some: "lowest T = Some i \<Longrightarrow> i < length T \<and> T ! i = None \<and> (\<forall>k < i. T ! k \<noteq> None)"
  by (induction T arbitrary: i) (auto simp: less_Suc_eq_0_disj split: if_splits)

lemma lowest_eq: "i < length T \<Longrightarrow> T ! i = None \<Longrightarrow> \<forall>k < i. T ! k \<noteq> None \<Longrightarrow> lowest T = Some i"
proof (induction T arbitrary: i)
  case (Cons x T)
  show ?case
  proof (cases i)
    case (Suc i')
    then have "x \<noteq> None" using Cons.prems(3) by (metis nth_Cons_0 zero_less_Suc)
    moreover have "lowest T = Some i'" using Cons Suc by (metis Suc_less_eq length_Cons nth_Cons_Suc)
    ultimately show ?thesis using Suc by simp
  qed (use Cons in simp)
qed simp

lemma lowest_exists: "i < length T \<Longrightarrow> T ! i = None \<Longrightarrow> \<exists>k \<le> i. lowest T = Some k"
proof (induction T arbitrary: i)
  case (Cons x T)
  show ?case
  proof (cases "x = None \<or> i = 0")
    case True
    then show ?thesis using Cons.prems by auto
  next
    case False
    then obtain k where "k \<le> i - 1" "lowest T = Some k" using Cons by (cases i) auto
    then show ?thesis using False by (intro exI [of _ "Suc k"]) auto
  qed
qed simp

text \<open>A shell with two spare descriptors gets both ends of a pipe above its standard ones.\<close>

lemma roomy_lowest:
  assumes "roomy T"
  obtains i j where "lowest T = Some i" and "\<And>x. lowest (T[i := Some x]) = Some j"
    and "1 < i" and "1 < j" and "i \<noteq> j" and "i < length T" and "j < length T"
    and "T ! i = None" and "T ! j = None"
proof -
  obtain a b where ab: "a < b" "b < length T" "T ! a = None" "T ! b = None"
    using assms by (auto simp: roomy_def)
  then obtain i where i: "lowest T = Some i" "i \<le> a" using lowest_exists [of a T] by auto
  have low: "i < length T" "T ! i = None" "\<forall>k < i. T ! k \<noteq> None" using lowest_Some [OF i(1)] by auto
  obtain j where j: "lowest (T[i := Some undefined]) = Some j"
    using lowest_exists [of b "T[i := Some undefined]"] ab i(2) by auto
  have up: "j < length T" "T[i := Some undefined] ! j = None" "\<forall>k < j. T[i := Some undefined] ! k \<noteq> None"
    using lowest_Some [OF j] by auto
  then have "i \<noteq> j" "T ! j = None" using low(1) by (auto simp: nth_list_update split: if_splits)
  moreover have "lowest (T[i := Some x]) = Some j" for x
    using up low(1) by (intro lowest_eq) (auto simp: nth_list_update split: if_splits)
  moreover have "1 < k" if "T ! k = None" for k
    using assms that by (cases k; cases "k - 1") (auto simp: roomy_def)
  ultimately show ?thesis using that i(1) low up(1) by blast
qed

lemma roomyD: "roomy T \<Longrightarrow> 0 < length T \<and> 1 < length T \<and> T ! 0 \<noteq> None \<and> T ! 1 \<noteq> None"
  by (auto simp: roomy_def)

lemma roomy_update:
  assumes "roomy T" and "fd = 0 \<or> fd = 1"
  shows "roomy (T[fd := Some x])"
proof -
  obtain i j where "1 < i" "i < j" "j < length T" "T ! i = None" "T ! j = None"
    using assms(1) by (auto simp: roomy_def)
  then have "\<exists>i j. 1 < i \<and> i < j \<and> j < length T \<and> T[fd := Some x] ! i = None \<and> T[fd := Some x] ! j = None"
    using assms(2) by (intro exI [of _ i] exI [of _ j]) auto
  then show ?thesis
    using assms(2) roomyD [OF assms(1)] by (auto simp: roomy_def nth_list_update)
qed

lemma lowest_std:
  assumes "roomy T" and "fd = 0 \<or> fd = 1"
  shows "lowest (T[fd := None]) = Some fd"
  using assms(2) roomyD [OF assms(1)] by (intro lowest_eq) (auto simp: nth_list_update)

text \<open>The descriptors of the child at the writing end, and of the one at the reading end.\<close>

lemma child_ends:
  assumes "roomy T" and "fd = 0 \<or> fd = 1" and "1 < i" and "1 < j" and "i \<noteq> j"
    and "i < length T" and "j < length T" and "T ! i = None" and "T ! j = None" and "e = i \<or> e = j"
  shows "run (Close fd (Dup e (Close i (Close j p)))) (T[i := x, j := y]) n
    = run p (T[fd := if e = i then x else y]) n"
proof -
  let ?T = "T[i := x, j := y]"
  let ?U = "T[fd := if e = i then x else y]"
  have "lowest (?T[fd := None]) = Some fd"
    using assms(2-) roomyD [OF assms(1)] by (intro lowest_eq) (auto simp: nth_list_update)
  then have "run (Close fd (Dup e (Close i (Close j p)))) ?T n
      = run p (?T[fd := None, fd := ?T[fd := None] ! e, i := None, j := None]) n"
    by simp
  also have "?T[fd := None, fd := ?T[fd := None] ! e, i := None, j := None] = ?U"
    using assms(2-) roomyD [OF assms(1)]
    by (intro nth_equalityI) (auto simp: nth_list_update split: if_splits)
  finally show ?thesis .
qed

lemma run_runcmd: "fds_ok c \<Longrightarrow> roomy T \<Longrightarrow> run (runcmd c) T n = meant c T n"
proof (induction c arbitrary: T n)
  case (EXEC as)
  then show ?case by (auto split: list.split)
next
  case (REDIR c f m fd)
  then show ?case using lowest_std [of T fd] roomy_update [of T fd] by auto
next
  case (PIPE l r)
  obtain i j where ij: "lowest T = Some i" "\<And>x. lowest (T[i := Some x]) = Some j"
    "1 < i" "1 < j" "i \<noteq> j" "i < length T" "j < length T" "T ! i = None" "T ! j = None"
    using roomy_lowest [OF PIPE.prems(2)] by metis
  note ends = child_ends [OF PIPE.prems(2) _ ij(3-9)]
  have l: "run (Close 1 (Dup j (Close i (Close j (runcmd l))))) (T[i := x, j := Some y]) m
      = meant l (T[1 := Some y]) m" for x y m
    using ends [of 1 j] ij(5) PIPE.IH(1) PIPE.prems roomy_update by simp
  have r: "run (Close 0 (Dup i (Close i (Close j (runcmd r))))) (T[i := Some x, j := y]) m
      = meant r (T[0 := Some x]) m" for x y m
    using ends [of 0 i] PIPE.IH(2) PIPE.prems roomy_update by simp
  have p: "run (Close i (Close j (Wait (Wait Exit)))) U m = ([], m)" for U m by simp
  show ?case
    using l r ij p by (simp add: fork1_def Let_def split: prod.split del: run.simps(2,6))
next
  case (LIST l r)
  then show ?case by (simp add: fork1_def Let_def split: prod.split)
next
  case (BACK c)
  then show ?case by (simp add: fork1_def split: prod.split)
qed

text \<open>
  C8. The plumbing of the shell: run by a shell that has its standard descriptors and two spare ones,
  \<open>runcmd\<close> starts every program of the command with the descriptors of the shell, except that its
  redirections are in their places and the ends of the pipes beside it are its standard output and
  input; no program keeps any other end of a pipe, so that readers see the end of their input.
\<close>

theorem runcmd_plumbing:
  assumes "fds_ok c" and "roomy T"
  shows "run (runcmd c) T n = meant c T n"
  using assms by (rule run_runcmd)

lemma runcmd_plumbing_witness:
  "run (runcmd (PIPE (EXEC [[97]]) (EXEC [[98]]))) [Some (Given 0), Some (Given 1), Some (Given 2), None, None] 0
   = ([([[97]], [Some (Given 0), Some (WriteEnd 0), Some (Given 2), None, None]),
       ([[98]], [Some (ReadEnd 0), Some (Given 1), Some (Given 2), None, None])], 1)"
proof -
  let ?T = "[Some (Given 0), Some (Given 1), Some (Given 2), None, None]"
  have "roomy ?T"
    unfolding roomy_def by (intro conjI exI [of _ 3] exI [of _ 4]) simp_all
  then show ?thesis using runcmd_plumbing [of "PIPE (EXEC [[97]]) (EXEC [[98]])" ?T 0] by simp
qed

end
