(* ===== verification/Xv6_Mkfs.thy ===== *)
theory Xv6_Mkfs
  imports Xv6_Fs
begin

text \<open>
  \<open>mkfs.c\<close>, the program that builds the disk image: the image file is the list of its sectors. A
  failed \<open>assert\<close> and an \<open>exit(1)\<close> end the run.
\<close>

section \<open>State and layout\<close>

abbreviation FSSIZE :: nat where "FSSIZE \<equiv> 1000"
abbreviation (input) NINODES :: nat where "NINODES \<equiv> 200"
abbreviation nbitmap :: nat where "nbitmap \<equiv> FSSIZE div (BSIZE * 8) + 1"
abbreviation ninodeblocks :: nat where "ninodeblocks \<equiv> NINODES div 8 + 1"
abbreviation nlog :: nat where "nlog \<equiv> LOGSIZE"
abbreviation nmeta :: nat where "nmeta \<equiv> 2 + nlog + ninodeblocks + nbitmap"
abbreviation nblocks :: nat where "nblocks \<equiv> FSSIZE - nmeta"

record mkfs_state =
  img :: "bytes list"
  mk_sb :: superblock
  freeinode :: u32
  freeblock :: u32

text \<open>The bytes of an integer in Intel order, read back by the (Intel) host.\<close>

definition xshort :: "u16 \<Rightarrow> u16" where
  "xshort x = le16 (ucast x) (ucast (drop_bit 8 x))"

definition xint :: "u32 \<Rightarrow> u32" where
  "xint x = le32 (ucast x) (ucast (drop_bit 8 x)) (ucast (drop_bit 16 x)) (ucast (drop_bit 24 x))"

section \<open>Sectors\<close>

text \<open>\<open>lseek\<close> to \<open>sec * BSIZE\<close>, a 32-bit product; a write behind the end of the file leaves a hole of zeros.\<close>

definition seek :: "u32 \<Rightarrow> nat" where
  "seek sec = unat (sec * 512) div BSIZE"

definition wsect :: "u32 \<Rightarrow> bytes \<Rightarrow> mkfs_state \<Rightarrow> mkfs_state" where
  "wsect sec buf m =
     (let k = seek sec; f = img m @ replicate (Suc k - length (img m)) (replicate BSIZE 0)
      in m\<lparr>img := f[k := buf]\<rparr>)"

definition rsect :: "u32 \<Rightarrow> mkfs_state \<Rightarrow> stop + bytes" where
  "rsect sec m = (if seek sec < length (img m) then Inr (img m ! seek sec) else Inl (Panic ''read''))"

section \<open>Inodes\<close>

definition winode :: "u32 \<Rightarrow> dinode \<Rightarrow> mkfs_state \<Rightarrow> stop + mkfs_state" where
  "winode n ip m =
     (let bn = IBLOCK n (mk_sb m) in
      bindE (rsect bn m) (\<lambda>buf. Inr (wsect bn (put_dinode (dinode_off n) ip buf) m)))"

definition rinode :: "u32 \<Rightarrow> mkfs_state \<Rightarrow> stop + dinode" where
  "rinode n m =
     bindE (rsect (IBLOCK n (mk_sb m)) m) (\<lambda>buf. Inr (get_dinode buf (dinode_off n)))"

definition ialloc_m :: "u16 \<Rightarrow> mkfs_state \<Rightarrow> stop + (u32 \<times> mkfs_state)" where
  "ialloc_m type m =
     (let n = freeinode m; m = m\<lparr>freeinode := n + 1\<rparr>;
          din = \<lparr>d_type = xshort type, d_major = 0, d_minor = 0, d_nlink = xshort 1, d_size = xint 0,
            d_addrs = replicate 13 0\<rparr>
      in bindE (winode n din m) (\<lambda>m. Inr (n, m)))"

section \<open>The bitmap\<close>

definition balloc_m :: "int \<Rightarrow> mkfs_state \<Rightarrow> stop + mkfs_state" where
  "balloc_m used m =
     (if \<not> used < int BSIZE * 8 then Inl (Panic ''assert'')
      else Inr (wsect (sb_bmapstart (mk_sb m)) (fold mark_bit [0..<nat used] (replicate BSIZE 0)) m))"

section \<open>File contents\<close>

text \<open>
  The block for byte \<open>off\<close> of a file, allocated when it is missing: the inode with its new addresses.
\<close>

definition file_block :: "u32 \<Rightarrow> dinode \<Rightarrow> mkfs_state \<Rightarrow> stop + (u32 \<times> dinode \<times> mkfs_state)" where
  "file_block fbn din m =
     (if unat fbn < NDIRECT then
        let (din, m) =
          (if xint (d_addrs din ! unat fbn) = 0
           then (din\<lparr>d_addrs := (d_addrs din)[unat fbn := xint (freeblock m)]\<rparr>, m\<lparr>freeblock := freeblock m + 1\<rparr>)
           else (din, m))
        in Inr (xint (d_addrs din ! unat fbn), din, m)
      else
        let (din, m) =
          (if xint (d_addrs din ! NDIRECT) = 0
           then (din\<lparr>d_addrs := (d_addrs din)[NDIRECT := xint (freeblock m)]\<rparr>, m\<lparr>freeblock := freeblock m + 1\<rparr>)
           else (din, m));
          ib = xint (d_addrs din ! NDIRECT); k = 4 * (unat fbn - NDIRECT) in
        bindE (rsect ib m) (\<lambda>ind.
          if get32 ind k = 0 then
            let b = xint (freeblock m); m = wsect ib (put32 k b ind) (m\<lparr>freeblock := freeblock m + 1\<rparr>)
            in Inr (xint b, din, m)
          else Inr (xint (get32 ind k), din, m)))"

lemma room_in_block:
  assumes "unat ((off :: u32) div 512) < unat MAXFILE"
  shows "unat ((off div 512 + 1) * 512 - off) = 512 - unat off mod 512"
    and "unat (off - off div 512 * 512) = unat off mod 512"
proof -
  have q: "unat (off div 512) = unat off div 512" using unat_div_distrib [of off 512] by simp
  have d: "unat off div 512 * 512 + unat off mod 512 = unat off" by simp
  have r: "unat off mod 512 < 512" by simp
  have ar: "o1 \<le> (q1 + 1) * 512" "(q1 + 1) * 512 - o1 = 512 - r1" "q1 * 512 \<le> o1" "o1 - q1 * 512 = r1"
    if "q1 * 512 + r1 = o1" "r1 < 512" for o1 q1 r1 :: nat
    using that by auto
  have a: "unat ((off div 512 + 1) * 512) = (unat off div 512 + 1) * 512"
    using assms unfolding q by (simp add: unat_word_ariths q)
  have b: "unat (off div 512 * 512) = unat off div 512 * 512"
    using assms unfolding q by (simp add: unat_word_ariths q)
  have le1: "off \<le> (off div 512 + 1) * 512"
    unfolding word_le_nat_alt a by (rule ar(1) [OF d r])
  show "unat ((off div 512 + 1) * 512 - off) = 512 - unat off mod 512"
    unfolding unat_sub32 [OF le1] a by (rule ar(2) [OF d r])
  have le2: "off div 512 * 512 \<le> off"
    unfolding word_le_nat_alt b by (rule ar(3) [OF d r])
  show "unat (off - off div 512 * 512) = unat off mod 512"
    unfolding unat_sub32 [OF le2] b by (rule ar(4) [OF d r])
qed

function iappend_loop :: "bytes \<Rightarrow> u32 \<Rightarrow> dinode \<Rightarrow> mkfs_state \<Rightarrow> stop + (u32 \<times> dinode \<times> mkfs_state)" where
  "iappend_loop p off din m =
     (if p = [] then Inr (off, din, m)
      else
        let fbn = off div 512 in
        if \<not> unat fbn < unat MAXFILE then Inl (Panic ''assert'')
        else
          bindE (file_block fbn din m) (\<lambda>(x, din, m).
          let n1 = min (length p) (unat ((fbn + 1) * 512 - off)) in
          bindE (rsect x m) (\<lambda>buf.
          let m = wsect x (overwrite (unat (off - fbn * 512)) (take n1 p) buf) m
          in iappend_loop (drop n1 p) (off + of_nat n1) din m)))"
  by pat_completeness auto

termination
proof (relation "measure (\<lambda>(p, off, din, m). length p)", goal_cases)
  case (2 p off din m fbn x y a b c n1 buf d)
  then have "0 < unat ((off div 512 + 1) * 512 - off)" using room_in_block(1) [of off] by simp
  with 2 show ?case by auto
qed simp

declare iappend_loop.simps [simp del]

definition iappend :: "u32 \<Rightarrow> bytes \<Rightarrow> mkfs_state \<Rightarrow> stop + mkfs_state" where
  "iappend n p m =
     bindE (rinode n m) (\<lambda>din.
     bindE (iappend_loop p (xint (d_size din)) din m) (\<lambda>(off, din, m).
     winode n (din\<lparr>d_size := xint off\<rparr>) m))"

section \<open>The image\<close>

definition mk_superblock :: superblock where
  "mk_superblock =
     \<lparr>sb_size = xint (of_nat FSSIZE), sb_nblocks = xint (of_nat nblocks), sb_ninodes = xint (of_nat NINODES),
      sb_nlog = xint (of_nat nlog), sb_logstart = xint 2, sb_inodestart = xint (of_nat (2 + nlog)),
      sb_bmapstart = xint (of_nat (2 + nlog + ninodeblocks))\<rparr>"

definition sb_bytes :: "superblock \<Rightarrow> bytes" where
  "sb_bytes q =
     put32 0 (sb_size q) (put32 4 (sb_nblocks q) (put32 8 (sb_ninodes q) (put32 12 (sb_nlog q)
       (put32 16 (sb_logstart q) (put32 20 (sb_inodestart q) (put32 24 (sb_bmapstart q)
         (replicate BSIZE 0)))))))"

text \<open>A directory entry; \<open>strncpy\<close> cuts a long name and pads a short one.\<close>

definition dirent_bytes :: "u32 \<Rightarrow> bytes \<Rightarrow> bytes" where
  "dirent_bytes n nm =
     put16 0 (xshort (ucast n)) (0 # 0 # take DIRSIZ nm @ replicate (DIRSIZ - length nm) 0)"

text \<open>The chunks that \<open>read(fd, buf, sizeof(buf))\<close> takes from a file.\<close>

function read_all :: "u32 \<Rightarrow> bytes \<Rightarrow> mkfs_state \<Rightarrow> stop + mkfs_state" where
  "read_all n x m =
     (if x = [] then Inr m else bindE (iappend n (take BSIZE x) m) (read_all n (drop BSIZE x)))"
  by pat_completeness auto
termination by (relation "measure (\<lambda>(n, x, m). length x)") auto

declare read_all.simps [simp del]

definition add_file :: "u32 \<Rightarrow> bytes \<times> bytes \<Rightarrow> mkfs_state \<Rightarrow> stop + mkfs_state" where
  "add_file root f m =
     (if slash \<in> set (fst f) then Inl (Panic ''assert'')
      else
        let nm = (if fst f \<noteq> [] \<and> hd (fst f) = 95 then tl (fst f) else fst f) in
        bindE (ialloc_m T_FILE m) (\<lambda>(n, m).
        bindE (iappend root (dirent_bytes n nm) m) (\<lambda>m.
        read_all n (snd f) m)))"

definition mkfs :: "(bytes \<times> bytes) list \<Rightarrow> stop + mkfs_state" where
  "mkfs files =
     (let m = \<lparr>img = [], mk_sb = mk_superblock, freeinode = 1, freeblock = of_nat nmeta\<rparr>;
          m = fold (\<lambda>i. wsect (of_nat i) (replicate BSIZE 0)) [0..<FSSIZE] m;
          m = wsect 1 (sb_bytes (mk_sb m)) m
      in
      bindE (ialloc_m T_DIR m) (\<lambda>(root, m).
      if root \<noteq> ROOTINO then Inl (Panic ''assert'')
      else
        bindE (iappend root (dirent_bytes root [46]) m) (\<lambda>m.
        bindE (iappend root (dirent_bytes root [46, 46]) m) (\<lambda>m.
        bindE (forE (add_file root) files m) (\<lambda>m.
        bindE (rinode root m) (\<lambda>din.
        bindE (winode root (din\<lparr>d_size := xint ((xint (d_size din) div 512 + 1) * 512)\<rparr>) m) (\<lambda>m.
        balloc_m (sint (freeblock m)) m)))))))"

section \<open>Byte order and bitmap\<close>

lemma xint_id [simp]: "xint x = x"
  using le32_byte_of [of x] by (simp add: xint_def byte_of_def)

lemma xshort_id [simp]: "xshort x = x"
  using le16_byte_of [of x] by (simp add: xshort_def byte_of_def)

text \<open>The bitmap of \<open>balloc\<close> as the kernel reads it: the first \<open>used\<close> blocks are in use, no other.\<close>

lemma bit_set_marked:
  "n \<le> 8 * length d \<Longrightarrow> bit_set (fold mark_bit [0..<n] d) j \<longleftrightarrow> j < n \<or> bit_set d j"
proof (induction n)
  case (Suc n)
  have "length (fold mark_bit [0..<n] d) = length d" by (induction n) auto
  then show ?case using Suc by (auto simp: bit_set_mark_bit)
qed simp

end
