(* ===== verification/Xv6_MkfsSpec.thy ===== *)
theory Xv6_MkfsSpec
  imports Xv6_Mkfs Xv6_FsSpec
begin

text \<open>
  What \<open>iappend\<close> of \<open>mkfs.c\<close> does to the image: the file grows by the bytes appended, and no other
  block in use changes.
\<close>

section \<open>The image\<close>

definition disk_ok :: "mkfs_state \<Rightarrow> bool" where
  "disk_ok m \<longleftrightarrow> mk_sb m = mk_superblock \<and> length (img m) \<le> 8388608 \<and> nmeta \<le> unat (freeblock m)
     \<and> unat (freeblock m) \<le> length (img m) \<and> (\<forall>b \<in> set (img m). length b = BSIZE)
     \<and> (\<forall>j. unat (freeblock m) \<le> j \<longrightarrow> j < length (img m) \<longrightarrow> img m ! j = replicate BSIZE 0)"

lemma seek_eq: "unat sec < 8388608 \<Longrightarrow> seek sec = unat sec"
  by (simp add: seek_def unat_word_ariths)

lemma wsect_in:
  "disk_ok m \<Longrightarrow> unat sec < length (img m) \<Longrightarrow> wsect sec buf m = m\<lparr>img := (img m)[unat sec := buf]\<rparr>"
  by (simp add: wsect_def disk_ok_def seek_eq)

lemma rsect_in: "disk_ok m \<Longrightarrow> unat sec < length (img m) \<Longrightarrow> rsect sec m = Inr (img m ! unat sec)"
  by (simp add: rsect_def disk_ok_def seek_eq)

lemma disk_ok_block: "disk_ok m \<Longrightarrow> j < length (img m) \<Longrightarrow> length (img m ! j) = BSIZE"
  by (simp add: disk_ok_def)

lemma disk_ok_write:
  assumes "disk_ok m" and "j < unat (freeblock m)" and "length b = BSIZE"
  shows "disk_ok (m\<lparr>img := (img m)[j := b]\<rparr>)"
  using assms set_update_subset_insert [of "img m" j b] by (auto simp: disk_ok_def)

lemma disk_ok_alloc:
  assumes "disk_ok m" and "unat (freeblock m) < length (img m)"
  shows "disk_ok (m\<lparr>freeblock := freeblock m + 1\<rparr>)"
    and "unat (freeblock m + 1) = Suc (unat (freeblock m))"
proof -
  show "unat (freeblock m + 1) = Suc (unat (freeblock m))"
    using assms unat_add_of_nat32 [of "freeblock m" 1] by (simp add: disk_ok_def)
  then show "disk_ok (m\<lparr>freeblock := freeblock m + 1\<rparr>)" using assms by (auto simp: disk_ok_def)
qed

section \<open>Files\<close>

text \<open>The address of block \<open>k\<close>, the blocks a file of \<open>n\<close> blocks occupies, and what they hold.\<close>

definition baddr :: "mkfs_state \<Rightarrow> dinode \<Rightarrow> nat \<Rightarrow> u32" where
  "baddr m din k =
     (if k < NDIRECT then d_addrs din ! k
      else get32 (img m ! unat (d_addrs din ! NDIRECT)) (4 * (k - NDIRECT)))"

definition used :: "mkfs_state \<Rightarrow> dinode \<Rightarrow> nat \<Rightarrow> nat list" where
  "used m din n =
     (if NDIRECT < n then [unat (d_addrs din ! NDIRECT)] else []) @ map (\<lambda>k. unat (baddr m din k)) [0..<n]"

definition contents :: "mkfs_state \<Rightarrow> dinode \<Rightarrow> nat \<Rightarrow> bytes" where
  "contents m din n = concat (map (\<lambda>k. img m ! unat (baddr m din k)) [0..<n])"

definition file_ok :: "mkfs_state \<Rightarrow> dinode \<Rightarrow> nat \<Rightarrow> bool" where
  "file_ok m din n \<longleftrightarrow> length (d_addrs din) = 13 \<and> n \<le> 140 \<and> distinct (used m din n)
     \<and> (\<forall>b \<in> set (used m din n). nmeta \<le> b \<and> b < unat (freeblock m))
     \<and> (\<forall>k. n \<le> k \<longrightarrow> k < NDIRECT \<longrightarrow> d_addrs din ! k = 0)
     \<and> (n \<le> NDIRECT \<longrightarrow> d_addrs din ! NDIRECT = 0)
     \<and> (NDIRECT < n \<longrightarrow> (\<forall>k. n \<le> k \<longrightarrow> k < 140 \<longrightarrow> baddr m din k = 0))"

text \<open>How many blocks a file of \<open>n\<close> data blocks takes.\<close>

definition taken :: "nat \<Rightarrow> nat" where
  "taken n = n + (if NDIRECT < n then 1 else 0)"

definition nb :: "nat \<Rightarrow> nat" where
  "nb off = (off + 511) div 512"

lemma baddr_size [simp]: "baddr m (din\<lparr>d_size := z\<rparr>) = baddr m din"
  by (rule ext) (simp add: baddr_def cong: if_cong)

lemma used_Suc: "used m din (Suc n) =
    (if NDIRECT < Suc n then [unat (d_addrs din ! NDIRECT)] else []) @
    map (\<lambda>k. unat (baddr m din k)) [0..<n] @ [unat (baddr m din n)]"
  by (simp add: used_def)

lemma contents_Suc: "contents m din (Suc n) = contents m din n @ img m ! unat (baddr m din n)"
  by (simp add: contents_def)

lemma baddr_used: "k < n \<Longrightarrow> unat (baddr m din k) \<in> set (used m din n)"
  by (auto simp: used_def)

lemma indirect_used: "NDIRECT < n \<Longrightarrow> unat (d_addrs din ! NDIRECT) \<in> set (used m din n)"
  by (simp add: used_def)

lemma file_ok_addr:
  assumes "disk_ok m" and "file_ok m din n" and "b \<in> set (used m din n)"
  shows "nmeta \<le> b \<and> b < unat (freeblock m) \<and> b < length (img m)"
  using assms unfolding file_ok_def disk_ok_def by (meson order_less_le_trans)

lemma length_contents:
  assumes "disk_ok m" and "file_ok m din n"
  shows "length (contents m din n) = 512 * n"
proof -
  have "length (img m ! unat (baddr m din k)) = 512" if "k < n" for k
    using disk_ok_block [OF assms(1)] file_ok_addr [OF assms baddr_used [OF that]] by auto
  then have "map (length \<circ> (\<lambda>k. img m ! unat (baddr m din k))) [0..<n] = replicate n 512"
    by (intro nth_equalityI) auto
  then show ?thesis by (simp add: contents_def length_concat sum_list_replicate)
qed

lemma file_block_old:
  assumes d: "disk_ok m" and f: "file_ok m din n" and k: "k < n"
  shows "file_block (of_nat k) din m = Inr (baddr m din k, din, m)"
proof -
  have n: "n \<le> 140" and a: "nmeta \<le> unat (baddr m din k)"
    using f file_ok_addr [OF d f baddr_used [OF k]] by (auto simp: file_ok_def)
  then have nz: "baddr m din k \<noteq> 0" by (intro notI) simp
  have u: "unat (of_nat k :: u32) = k" using k n by (simp add: unat_of_nat32)
  show ?thesis
  proof (cases "k < NDIRECT")
    case True
    then show ?thesis using nz u by (simp add: file_block_def baddr_def)
  next
    case False
    then have "NDIRECT < n" using k by simp
    then have i: "nmeta \<le> unat (d_addrs din ! NDIRECT)" "unat (d_addrs din ! NDIRECT) < length (img m)"
      using file_ok_addr [OF d f indirect_used] by auto
    then have "d_addrs din ! NDIRECT \<noteq> 0" by (intro notI) simp
    then show ?thesis using nz u False i(2) by (simp add: file_block_def baddr_def rsect_in [OF d])
  qed
qed

section \<open>A new block\<close>

text \<open>
  What it means that the file of inode \<open>din\<close> in \<open>m\<close>, of \<open>n\<close> blocks, has been given block \<open>n\<close> as well:
  the block is fresh, and nothing that was in use has changed but the indirect block of the file.
\<close>

definition grown :: "mkfs_state \<Rightarrow> dinode \<Rightarrow> nat \<Rightarrow> mkfs_state \<Rightarrow> dinode \<Rightarrow> bool" where
  "grown m din n m' din' \<longleftrightarrow>
     disk_ok m' \<and> file_ok m' din' (Suc n) \<and> length (img m') = length (img m)
     \<and> unat (freeblock m') = unat (freeblock m) + taken (Suc n) - taken n
     \<and> din' = din\<lparr>d_addrs := d_addrs din'\<rparr> \<and> freeinode m' = freeinode m
     \<and> img m' ! unat (baddr m' din' n) = replicate BSIZE 0
     \<and> contents m' din' n = contents m din n
     \<and> (\<forall>b \<in> set (used m' din' (Suc n)). b \<in> set (used m din n) \<or> unat (freeblock m) \<le> b)
     \<and> (\<forall>j < unat (freeblock m). j \<notin> set (used m din n) \<longrightarrow> img m' ! j = img m ! j)"

lemma grow_direct:
  assumes d: "disk_ok m" and f: "file_ok m din n" and n: "n < NDIRECT"
    and room: "unat (freeblock m) < length (img m)"
  shows "\<exists>m' din'. file_block (of_nat n) din m = Inr (baddr m' din' n, din', m') \<and> grown m din n m' din'"
proof -
  let ?x = "freeblock m" and ?m = "m\<lparr>freeblock := freeblock m + 1\<rparr>"
  let ?din = "din\<lparr>d_addrs := (d_addrs din)[n := freeblock m]\<rparr>"
  have len: "length (d_addrs din) = 13" and z: "d_addrs din ! n = 0" and l0: "d_addrs din ! NDIRECT = 0"
    using f n by (auto simp: file_ok_def)
  have b: "baddr ?m ?din k = (if k = n then ?x else baddr m din k)" if "k \<le> n" for k
    using that n len by (simp add: baddr_def)
  have bs: "map (\<lambda>k. unat (baddr ?m ?din k)) [0..<n] = map (\<lambda>k. unat (baddr m din k)) [0..<n]"
    using b by simp
  then have us: "used ?m ?din (Suc n) = used m din n @ [unat ?x]"
    using n b [of n] by (simp add: used_Suc used_def)
  have alloc: "unat (freeblock m + 1) = Suc (unat (freeblock m))" "disk_ok ?m"
    using disk_ok_alloc [OF d room] by auto
  have "file_ok ?m ?din (Suc n)"
    unfolding file_ok_def us using f d n len l0 alloc(1)
    by (auto simp: file_ok_def disk_ok_def nth_list_update less_Suc_eq)
  moreover have "contents ?m ?din n = contents m din n"
    unfolding contents_def using b by (intro arg_cong [of _ _ concat] map_cong) auto
  moreover have "img m ! unat ?x = replicate BSIZE 0" using d room by (simp add: disk_ok_def)
  ultimately have "grown m din n ?m ?din"
    using alloc n b [of n] us by (auto simp: grown_def taken_def)
  moreover have "file_block (of_nat n) din m = Inr (baddr ?m ?din n, ?din, ?m)"
    using n z len by (simp add: file_block_def baddr_def unat_of_nat32)
  ultimately show ?thesis by blast
qed

text \<open>A file with an indirect block: the state before block \<open>n\<close> comes into it.\<close>

definition ind_blocks :: "mkfs_state \<Rightarrow> dinode \<Rightarrow> nat \<Rightarrow> nat list" where
  "ind_blocks m din n = unat (d_addrs din ! NDIRECT) # map (\<lambda>k. unat (baddr m din k)) [0..<n]"

definition ind_ok :: "mkfs_state \<Rightarrow> dinode \<Rightarrow> nat \<Rightarrow> bool" where
  "ind_ok m din n \<longleftrightarrow> length (d_addrs din) = 13 \<and> distinct (ind_blocks m din n)
     \<and> (\<forall>b \<in> set (ind_blocks m din n). nmeta \<le> b \<and> b < unat (freeblock m))
     \<and> (\<forall>k. n \<le> k \<longrightarrow> k < 140 \<longrightarrow> baddr m din k = 0)"

lemma get32_put32_block:
  assumes "length ind = BSIZE" and "i < 128" and "j < 128"
  shows "get32 (put32 (4 * i) w ind) (4 * j) = (if i = j then w else get32 ind (4 * j))"
proof (cases "i = j")
  case True
  then show ?thesis using assms by simp
next
  case False
  then have "4 * i + 4 \<le> 4 * j \<or> 4 * j + 4 \<le> 4 * i" by auto
  then show ?thesis using False by (simp add: get32_put32_other)
qed

lemma grow_indirect:
  assumes d: "disk_ok m" and n: "NDIRECT \<le> n" "n < 140" and f: "ind_ok m din n"
    and room: "unat (freeblock m) < length (img m)"
    and m': "m' = m\<lparr>freeblock := freeblock m + 1,
      img := (img m)[unat (d_addrs din ! NDIRECT) := put32 (4 * (n - NDIRECT)) (freeblock m) (img m ! unat (d_addrs din ! NDIRECT))]\<rparr>"
  shows "disk_ok m'" and "file_ok m' din (Suc n)" and "baddr m' din n = freeblock m"
    and "\<And>k. k < n \<Longrightarrow> baddr m' din k = baddr m din k"
    and "contents m' din n = contents m din n"
    and "set (used m' din (Suc n)) = insert (unat (freeblock m)) (set (ind_blocks m din n))"
    and "img m' ! unat (freeblock m) = replicate BSIZE 0"
proof -
  let ?ib = "unat (d_addrs din ! NDIRECT)"
  have len: "length (d_addrs din) = 13"
    and ib: "nmeta \<le> ?ib" "?ib < unat (freeblock m)" "?ib < length (img m)"
    and blk: "\<And>k. k < n \<Longrightarrow> nmeta \<le> unat (baddr m din k) \<and> unat (baddr m din k) < unat (freeblock m) \<and> unat (baddr m din k) \<noteq> ?ib"
    and z: "\<And>k. n \<le> k \<Longrightarrow> k < 140 \<Longrightarrow> baddr m din k = 0"
  proof -
    have "unat (baddr m din k) \<in> set (map (\<lambda>k. unat (baddr m din k)) [0..<n])" if "k < n" for k
      using that by simp
    then show "length (d_addrs din) = 13" "nmeta \<le> ?ib" "?ib < unat (freeblock m)" "?ib < length (img m)"
      "\<And>k. k < n \<Longrightarrow> nmeta \<le> unat (baddr m din k) \<and> unat (baddr m din k) < unat (freeblock m) \<and> unat (baddr m din k) \<noteq> ?ib"
      "\<And>k. n \<le> k \<Longrightarrow> k < 140 \<Longrightarrow> baddr m din k = 0"
      using f room unfolding ind_ok_def ind_blocks_def by (fastforce simp del: set_map)+
  qed
  have bl: "length (img m ! ?ib) = BSIZE" using disk_ok_block [OF d ib(3)] .
  have b: "baddr m' din k = (if k = n then freeblock m else baddr m din k)" if "k < 140" for k
  proof (cases "k < NDIRECT")
    case True
    then show ?thesis using n by (simp add: baddr_def m')
  next
    case False
    then have "n - NDIRECT = k - NDIRECT \<longleftrightarrow> k = n" "k - NDIRECT < 128" "n - NDIRECT < 128"
      using n that by auto
    then show ?thesis
      using False ib(3) get32_put32_block [OF bl, of "n - NDIRECT" "k - NDIRECT"] by (simp add: baddr_def m')
  qed
  show bn: "baddr m' din n = freeblock m" using b [of n] n by simp
  show bk: "baddr m' din k = baddr m din k" if "k < n" for k using b [of k] n that by simp
  have u: "used m' din (Suc n) = ind_blocks m din n @ [unat (freeblock m)]"
    using n bn bk by (simp add: used_Suc ind_blocks_def)
  show "set (used m' din (Suc n)) = insert (unat (freeblock m)) (set (ind_blocks m din n))"
    by (simp add: u)
  have a: "unat (freeblock m') = Suc (unat (freeblock m))" using disk_ok_alloc(2) [OF d room] by (simp add: m')
  show "disk_ok m'"
    using disk_ok_write [OF disk_ok_alloc(1) [OF d room], of ?ib] disk_ok_alloc(2) [OF d room] ib bl
    by (simp add: m')
  have "freeblock m \<noteq> d_addrs din ! NDIRECT" using ib(2) by auto
  then show "img m' ! unat (freeblock m) = replicate BSIZE 0"
    using d room ib(2) by (simp add: m' disk_ok_def)
  have "img m' ! unat (baddr m din k) = img m ! unat (baddr m din k)" if "k < n" for k
    using blk [OF that] ib(3) by (simp add: m' nth_list_update)
  then show "contents m' din n = contents m din n"
    unfolding contents_def using bk by (intro arg_cong [of _ _ concat] map_cong) auto
  show "file_ok m' din (Suc n)"
    unfolding file_ok_def u a using f n len b z ib by (auto simp: ind_ok_def)
qed

lemma get32_zeros: "i + 3 < n \<Longrightarrow> get32 (replicate n 0) i = 0"
  by (simp add: get32_def le32_def)

lemma file_block_indirect:
  assumes "disk_ok m" and "NDIRECT \<le> n" and "n < 140" and "d_addrs din ! NDIRECT \<noteq> 0"
    and "unat (d_addrs din ! NDIRECT) < length (img m)" and "baddr m din n = 0"
    and "unat (d_addrs din ! NDIRECT) < unat (freeblock m)" and "unat (freeblock m) < length (img m)"
  shows "file_block (of_nat n) din m = Inr (freeblock m, din, m\<lparr>freeblock := freeblock m + 1,
      img := (img m)[unat (d_addrs din ! NDIRECT) := put32 (4 * (n - NDIRECT)) (freeblock m) (img m ! unat (d_addrs din ! NDIRECT))]\<rparr>)"
proof -
  have "unat (of_nat n :: u32) = n" using assms(3) by (simp add: unat_of_nat32)
  moreover have "disk_ok (m\<lparr>freeblock := freeblock m + 1\<rparr>)" using disk_ok_alloc [OF assms(1,8)] by simp
  ultimately show ?thesis
    using assms rsect_in [OF assms(1), of "d_addrs din ! NDIRECT"]
      wsect_in [of "m\<lparr>freeblock := freeblock m + 1\<rparr>" "d_addrs din ! NDIRECT"]
    by (simp add: file_block_def baddr_def Let_def)
qed

lemma grow_13:
  assumes d: "disk_ok m" and f: "file_ok m din n" and n: "NDIRECT < n" "n < 140"
    and room: "unat (freeblock m) < length (img m)"
  shows "\<exists>m' din'. file_block (of_nat n) din m = Inr (baddr m' din' n, din', m') \<and> grown m din n m' din'"
proof -
  let ?ib = "unat (d_addrs din ! NDIRECT)"
  define m' where "m' = m\<lparr>freeblock := freeblock m + 1,
    img := (img m)[?ib := put32 (4 * (n - NDIRECT)) (freeblock m) (img m ! ?ib)]\<rparr>"
  have u: "ind_blocks m din n = used m din n" using n by (simp add: used_def ind_blocks_def)
  have io: "ind_ok m din n" unfolding ind_ok_def u using f n by (auto simp: file_ok_def)
  have ib: "nmeta \<le> ?ib" "?ib < unat (freeblock m)" "?ib < length (img m)"
    using file_ok_addr [OF d f indirect_used [OF n(1)]] by auto
  then have nz: "d_addrs din ! NDIRECT \<noteq> 0" by (intro notI) simp
  have z: "baddr m din n = 0" using f n by (simp add: file_ok_def)
  have n': "NDIRECT \<le> n" using n by simp
  note g = grow_indirect [OF d n' n(2) io room m'_def]
  have "grown m din n m' din"
    unfolding grown_def
  proof (intro conjI)
    show "unat (freeblock m') = unat (freeblock m) + taken (Suc n) - taken n"
      using n disk_ok_alloc(2) [OF d room] by (simp add: m'_def taken_def)
    show "\<forall>b \<in> set (used m' din (Suc n)). b \<in> set (used m din n) \<or> unat (freeblock m) \<le> b"
      using g(6) by (simp add: u)
    show "\<forall>j < unat (freeblock m). j \<notin> set (used m din n) \<longrightarrow> img m' ! j = img m ! j"
    proof (intro allI impI)
      fix j assume "j \<notin> set (used m din n)"
      then have "?ib \<noteq> j" using indirect_used [OF n(1), of din m] by auto
      then show "img m' ! j = img m ! j" by (simp add: m'_def)
    qed
  qed (use g in \<open>simp_all add: m'_def\<close>)
  moreover have "file_block (of_nat n) din m = Inr (baddr m' din n, din, m')"
    using file_block_indirect [OF d n' n(2) nz ib(3) z ib(2) room] g(3) by (simp add: m'_def)
  ultimately show ?thesis by blast
qed

lemma grow_12:
  assumes d: "disk_ok m" and f: "file_ok m din n" and n: "n = NDIRECT"
    and room: "Suc (unat (freeblock m)) < length (img m)"
  shows "\<exists>m' din'. file_block (of_nat n) din m = Inr (baddr m' din' n, din', m') \<and> grown m din n m' din'"
proof -
  let ?m = "m\<lparr>freeblock := freeblock m + 1\<rparr>" and ?din = "din\<lparr>d_addrs := (d_addrs din)[NDIRECT := freeblock m]\<rparr>"
  have len: "length (d_addrs din) = 13" and z: "d_addrs din ! NDIRECT = 0" using f n by (auto simp: file_ok_def)
  have a: "unat (freeblock m + 1) = Suc (unat (freeblock m))" "disk_ok ?m"
    using disk_ok_alloc [OF d] room by auto
  have zs: "img m ! unat (freeblock m) = replicate BSIZE 0" using d room by (simp add: disk_ok_def)
  have b: "baddr ?m ?din k = (if k < NDIRECT then baddr m din k else 0)" if "k < 140" for k
    using that len zs by (auto simp: baddr_def get32_zeros)
  have ib: "d_addrs ?din ! NDIRECT = freeblock m" using len by simp
  have bs: "map (\<lambda>k. unat (baddr ?m ?din k)) [0..<n] = used m din n"
    using b n by (auto simp: used_def)
  then have u: "ind_blocks ?m ?din n = unat (freeblock m) # used m din n" using ib by (simp add: ind_blocks_def)
  have io: "ind_ok ?m ?din n"
    unfolding ind_ok_def u using f n b len a(1) d by (auto simp: file_ok_def disk_ok_def)
  define m' where "m' = ?m\<lparr>freeblock := freeblock ?m + 1,
    img := (img ?m)[unat (d_addrs ?din ! NDIRECT) :=
      put32 (4 * (n - NDIRECT)) (freeblock ?m) (img ?m ! unat (d_addrs ?din ! NDIRECT))]\<rparr>"
  have r: "unat (freeblock ?m) < length (img ?m)" using room a by simp
  have n': "NDIRECT \<le> n" "n < 140" using n by auto
  note g = grow_indirect [OF a(2) n' io r m'_def]
  have nz: "d_addrs ?din ! NDIRECT \<noteq> 0" using d ib by (intro notI) (simp add: disk_ok_def)
  have a2: "unat (freeblock m') = Suc (Suc (unat (freeblock m)))"
    using disk_ok_alloc(2) [OF a(2) r] a(1) by (simp add: m'_def)
  have "file_block (of_nat n) din m = file_block (of_nat n) ?din ?m"
    using n z len nz ib by (simp add: file_block_def unat_of_nat32)
  also have "\<dots> = Inr (freeblock ?m, ?din, m')"
    unfolding m'_def using b [of n] n n' a r room ib nz by (intro file_block_indirect) auto
  finally have fb: "file_block (of_nat n) din m = Inr (baddr m' ?din n, ?din, m')" using g(3) by simp
  have c: "contents ?m ?din n = contents m din n"
    unfolding contents_def using b n by (intro arg_cong [of _ _ concat] map_cong) auto
  have "grown m din n m' ?din"
    unfolding grown_def
  proof (intro conjI)
    show "unat (freeblock m') = unat (freeblock m) + taken (Suc n) - taken n"
      using n a2 by (simp add: taken_def)
    show "\<forall>b \<in> set (used m' ?din (Suc n)). b \<in> set (used m din n) \<or> unat (freeblock m) \<le> b"
      using g(6) a(1) by (simp add: u)
    show "\<forall>j < unat (freeblock m). j \<notin> set (used m din n) \<longrightarrow> img m' ! j = img m ! j"
      using ib by (auto simp: m'_def)
    show "contents m' ?din n = contents m din n" using g(5) c by simp
  qed (use g in \<open>simp_all add: m'_def\<close>)
  then show ?thesis using fb by blast
qed

lemma grow_block:
  assumes "disk_ok m" and "file_ok m din n" and "n < 140"
    and "unat (freeblock m) + taken (Suc n) \<le> length (img m) + taken n"
  shows "\<exists>m' din'. file_block (of_nat n) din m = Inr (baddr m' din' n, din', m') \<and> grown m din n m' din'"
proof -
  consider "n < NDIRECT" | "n = NDIRECT" | "NDIRECT < n" by linarith
  then show ?thesis
  proof cases
    case 1
    then show ?thesis using grow_direct assms by (simp add: taken_def)
  next
    case 2
    then show ?thesis using grow_12 assms by (simp add: taken_def)
  next
    case 3
    then show ?thesis using grow_13 assms by (simp add: taken_def)
  qed
qed

section \<open>Writing to a block of a file\<close>

lemma used_inj:
  assumes "file_ok m din n" and "i < n" and "k < n" and "unat (baddr m din i) = unat (baddr m din k)"
  shows "i = k"
proof -
  have "distinct (map (\<lambda>k. unat (baddr m din k)) [0..<n])" using assms(1) by (auto simp: file_ok_def used_def)
  then have "\<forall>i < n. \<forall>j < n. i \<noteq> j \<longrightarrow> unat (baddr m din i) \<noteq> unat (baddr m din j)"
    by (simp add: distinct_conv_nth)
  then show ?thesis using assms(2-4) by metis
qed

lemma write_block:
  assumes d: "disk_ok m" and f: "file_ok m din n" and k: "k < n" and b: "length b = BSIZE"
    and m': "m' = m\<lparr>img := (img m)[unat (baddr m din k) := b]\<rparr>"
  shows "disk_ok m'" and "file_ok m' din n" and "used m' din n = used m din n"
    and "\<And>i. i \<le> k \<Longrightarrow> contents m' din i = contents m din i" and "img m' ! unat (baddr m' din k) = b"
proof -
  let ?x = "unat (baddr m din k)"
  have x: "nmeta \<le> ?x" "?x < unat (freeblock m)" "?x < length (img m)"
    using file_ok_addr [OF d f baddr_used [OF k]] by auto
  have ne: "?x \<noteq> unat (d_addrs din ! NDIRECT)"
  proof (cases "NDIRECT < n")
    case True
    then have "distinct (unat (d_addrs din ! NDIRECT) # map (\<lambda>k. unat (baddr m din k)) [0..<n])"
      using f by (simp add: file_ok_def used_def)
    moreover have "?x \<in> set (map (\<lambda>k. unat (baddr m din k)) [0..<n])" using k by simp
    ultimately show ?thesis by (auto simp del: set_map)
  next
    case False
    then have "d_addrs din ! NDIRECT = 0" using f by (simp add: file_ok_def)
    then show ?thesis using x(1) by simp
  qed
  have bs: "baddr m' din i = baddr m din i" for i
    using ne by (simp add: baddr_def m')
  show u: "used m' din n = used m din n" by (simp add: used_def bs)
  show "disk_ok m'" using disk_ok_write [OF d x(2) b] by (simp add: m')
  show "file_ok m' din n" using f by (simp add: file_ok_def u bs) (simp add: m')
  show "img m' ! unat (baddr m' din k) = b" using x(3) by (simp add: bs) (simp add: m')
  have "img m' ! unat (baddr m din j) = img m ! unat (baddr m din j)" if "j < k" for j
  proof -
    have "?x \<noteq> unat (baddr m din j)" using used_inj [OF f, of k j] that k by auto
    then show ?thesis by (simp add: m')
  qed
  then show "contents m' din i = contents m din i" if "i \<le> k" for i
    unfolding contents_def using that by (intro arg_cong [of _ _ concat] map_cong) (auto simp: bs)
qed

section \<open>Appending\<close>

text \<open>The bytes of a file of size \<open>off\<close>.\<close>

definition file_bytes :: "mkfs_state \<Rightarrow> dinode \<Rightarrow> nat \<Rightarrow> bytes" where
  "file_bytes m din off = take off (contents m din (nb off))"

lemma taken_mono: "i \<le> j \<Longrightarrow> taken i \<le> taken j"
  by (auto simp: taken_def)

lemma nb_step:
  assumes "0 < n1" and "n1 \<le> 512 - off mod 512"
  shows "nb (off + n1) = Suc (off div 512)"
    and "nb off = (if off mod 512 = 0 then off div 512 else Suc (off div 512))"
proof -
  define q r where qr: "q = off div 512" "r = off mod 512"
  have off: "off = 512 * q + r" and r: "r < 512" by (simp_all add: qr)
  have "(off + n1 + 511) div 512 = Suc q" using assms r unfolding qr(2) [symmetric] off by (intro div_nat_eqI) auto
  then show "nb (off + n1) = Suc (off div 512)" by (simp add: nb_def qr(1))
  have "(off + 511) div 512 = (if r = 0 then q else Suc q)"
    using r unfolding off by (intro div_nat_eqI) auto
  then show "nb off = (if off mod 512 = 0 then off div 512 else Suc (off div 512))"
    by (simp add: nb_def qr)
qed

text \<open>One pass of the loop: the block of \<open>off\<close> is there or new, and gets the bytes that fit.\<close>

lemma append_chunk:
  assumes d: "disk_ok m" and f: "file_ok m din (nb off)" and o: "off < 71680"
    and n1: "0 < length p1" "length p1 \<le> 512 - off mod 512"
    and room: "unat (freeblock m) + taken (Suc (off div 512)) \<le> length (img m) + taken (nb off)"
  shows "\<exists>x din' m1 buf m2. file_block (of_nat (off div 512)) din m = Inr (x, din', m1) \<and> rsect x m1 = Inr buf
    \<and> m2 = wsect x (overwrite (off mod 512) p1 buf) m1
    \<and> disk_ok m2 \<and> file_ok m2 din' (Suc (off div 512)) \<and> file_bytes m2 din' (off + length p1) = file_bytes m din off @ p1
    \<and> length (img m2) = length (img m) \<and> din' = din\<lparr>d_addrs := d_addrs din'\<rparr> \<and> freeinode m2 = freeinode m
    \<and> unat (freeblock m2) = unat (freeblock m) + taken (Suc (off div 512)) - taken (nb off)
    \<and> (\<forall>b \<in> set (used m2 din' (Suc (off div 512))). b \<in> set (used m din (nb off)) \<or> unat (freeblock m) \<le> b)
    \<and> (\<forall>j < unat (freeblock m). j \<notin> set (used m din (nb off)) \<longrightarrow> img m2 ! j = img m ! j)"
proof -
  let ?k = "off div 512" and ?r = "off mod 512"
  have k: "?k < 140" using o by simp
  have off: "off = 512 * ?k + ?r" by simp
  obtain din' m1 where g: "file_block (of_nat ?k) din m = Inr (baddr m1 din' ?k, din', m1)"
    "disk_ok m1" "file_ok m1 din' (Suc ?k)" "length (img m1) = length (img m)"
    "din' = din\<lparr>d_addrs := d_addrs din'\<rparr>" "freeinode m1 = freeinode m"
    "unat (freeblock m1) = unat (freeblock m) + taken (Suc ?k) - taken (nb off)"
    "contents m1 din' ?k @ take ?r (img m1 ! unat (baddr m1 din' ?k)) = file_bytes m din off"
    "\<forall>b \<in> set (used m1 din' (Suc ?k)). b \<in> set (used m din (nb off)) \<or> unat (freeblock m) \<le> b"
    "\<forall>j < unat (freeblock m). j \<notin> set (used m din (nb off)) \<longrightarrow> img m1 ! j = img m ! j"
  proof (cases "?r = 0")
    case True
    then have nb: "nb off = ?k" using nb_step(2) [OF n1] by simp
    obtain m' din' where "file_block (of_nat ?k) din m = Inr (baddr m' din' ?k, din', m')" "grown m din ?k m' din'"
      using grow_block [OF d f [unfolded nb] k] room nb by auto
    moreover have "file_bytes m din off = contents m din ?k"
      using length_contents [OF d f] True by (simp add: file_bytes_def nb)
    ultimately show ?thesis using that True nb by (simp add: grown_def)
  next
    case False
    then have nb: "nb off = Suc ?k" using nb_step(2) [OF n1] by simp
    have f': "file_ok m din (Suc ?k)" using f nb by simp
    have lc: "length (contents m din (Suc ?k)) = 512 * Suc ?k" by (rule length_contents [OF d f'])
    have li: "length (img m ! unat (baddr m din ?k)) = 512"
      using disk_ok_block [OF d] file_ok_addr [OF d f' baddr_used, of ?k] by simp
    then have lk: "length (contents m din ?k) = 512 * ?k" using lc by (simp add: contents_Suc)
    have "file_bytes m din off = contents m din ?k @ take ?r (img m ! unat (baddr m din ?k))"
      unfolding file_bytes_def nb contents_Suc by (subst (1) off) (simp add: lk minus_mult_div_eq_mod)
    then show ?thesis
      using that [of m din] file_block_old [OF d f', of ?k] d f' nb by simp
  qed
  let ?x = "baddr m1 din' ?k"
  let ?buf = "img m1 ! unat ?x"
  let ?b = "overwrite ?r p1 ?buf"
  have x: "unat ?x < length (img m1)" using file_ok_addr [OF g(2,3) baddr_used, of ?k] by simp
  have lb: "length ?buf = 512" using disk_ok_block [OF g(2) x] .
  have r: "?r < 512" by simp
  have lo: "length ?b = BSIZE" using lb n1 r by (simp add: overwrite_def)
  define m2 where "m2 = m1\<lparr>img := (img m1)[unat ?x := ?b]\<rparr>"
  have k1: "?k < Suc ?k" by simp
  note w = write_block [OF g(2,3) k1 lo m2_def]
  have w2: "wsect ?x ?b m1 = m2" using wsect_in [OF g(2) x] by (simp add: m2_def)
  have lk: "length (contents m2 din' ?k) = 512 * ?k"
    using length_contents [OF w(1,2)] disk_ok_block [OF w(1)] file_ok_addr [OF w(1,2) baddr_used, of ?k]
    by (simp add: contents_Suc)
  have "file_bytes m2 din' (off + length p1) = take (off + length p1) (contents m2 din' ?k @ ?b)"
    using nb_step(1) [OF n1] w(5) by (simp add: file_bytes_def contents_Suc)
  also have "\<dots> = contents m2 din' ?k @ take (?r + length p1) ?b"
  proof -
    have "off + length p1 - 512 * ?k = ?r + length p1"
      using diff_add_assoc2 [of "512 * ?k" off "length p1"] by (simp add: minus_mult_div_eq_mod)
    then show ?thesis by (simp add: lk)
  qed
  also have "take (?r + length p1) ?b = take ?r ?buf @ p1"
    using lb n1 by (simp add: overwrite_def min_def)
  finally have fb: "file_bytes m2 din' (off + length p1) = file_bytes m din off @ p1"
    using g(8) w(4) [of ?k] by simp
  have fr: "\<forall>j < unat (freeblock m). j \<notin> set (used m din (nb off)) \<longrightarrow> img m2 ! j = img m ! j"
  proof (intro allI impI)
    fix j assume j: "j < unat (freeblock m)" "j \<notin> set (used m din (nb off))"
    then have "unat ?x \<noteq> j" using g(9) baddr_used [of ?k "Suc ?k" m1 din'] by auto
    then show "img m2 ! j = img m ! j" using g(10) j by (simp add: m2_def)
  qed
  show ?thesis
    using g w w2 fb fr rsect_in [OF g(2) x]
    by (intro exI [of _ ?x] exI [of _ din'] exI [of _ m1] exI [of _ ?buf] exI [of _ m2]) (auto simp: m2_def)
qed

lemma iappend_loop_pass:
  assumes "p \<noteq> []" and o: "off < 71680" and fb: "file_block (of_nat (off div 512)) din m = Inr (x, din1, m1)"
    and "rsect x m1 = Inr buf"
  shows "iappend_loop p (of_nat off) din m =
    iappend_loop (drop (min (length p) (512 - off mod 512)) p) (of_nat (off + min (length p) (512 - off mod 512))) din1
      (wsect x (overwrite (off mod 512) (take (min (length p) (512 - off mod 512)) p) buf) m1)"
proof -
  have u: "unat (of_nat off :: u32) = off" using o by (simp add: unat_of_nat32)
  have d: "(of_nat off :: u32) div 512 = of_nat (off div 512)"
    using o by (simp add: word_unat_eq_iff unat_div_distrib u unat_of_nat32)
  have k: "unat ((of_nat off :: u32) div 512) < unat MAXFILE"
    using o unfolding d by (simp add: unat_of_nat32)
  have rm: "unat ((of_nat (off div 512) + 1) * 512 - (of_nat off :: u32)) = 512 - off mod 512"
    "unat ((of_nat off :: u32) - of_nat (off div 512) * 512) = off mod 512"
    using room_in_block [OF k] unfolding d u by auto
  show ?thesis
    using assms(1,4) k fb rm by (subst iappend_loop.simps) (simp add: d Let_def)
qed

lemma iappend_loop_appends:
  assumes "disk_ok m" and "file_ok m din (nb off)" and "off + length p \<le> 71680"
    and "unat (freeblock m) + taken (nb (off + length p)) \<le> length (img m) + taken (nb off)"
  shows "\<exists>din' m'. iappend_loop p (of_nat off) din m = Inr (of_nat (off + length p), din', m')
    \<and> disk_ok m' \<and> file_ok m' din' (nb (off + length p)) \<and> din' = din\<lparr>d_addrs := d_addrs din'\<rparr>
    \<and> freeinode m' = freeinode m \<and> unat (freeblock m) \<le> unat (freeblock m')
    \<and> file_bytes m' din' (off + length p) = file_bytes m din off @ p
    \<and> (\<forall>b \<in> set (used m' din' (nb (off + length p))). b \<in> set (used m din (nb off)) \<or> unat (freeblock m) \<le> b)
    \<and> (\<forall>j < unat (freeblock m). j \<notin> set (used m din (nb off)) \<longrightarrow> img m' ! j = img m ! j)"
  using assms
proof (induction "length p" arbitrary: p off din m rule: less_induct)
  case less
  show ?case
  proof (cases "p = []")
    case True
    then show ?thesis using less.prems by (subst iappend_loop.simps) auto
  next
    case False
    let ?k = "off div 512" and ?n = "min (length p) (512 - off mod 512)"
    let ?p1 = "take ?n p" and ?p2 = "drop ?n p" and ?o = "off + ?n"
    have r: "off mod 512 < 512" by simp
    have n: "0 < ?n" "?n \<le> 512 - off mod 512" "length ?p1 = ?n" "length ?p2 < length p" "?o + length ?p2 = off + length p"
      using False r by auto
    have o: "off < 71680" using less.prems(3) False by (cases p) auto
    have fit: "nb ?o = Suc ?k" "taken (Suc ?k) \<le> taken (nb (off + length p))"
      using nb_step(1) [OF n(1,2)] taken_mono [of "nb ?o" "nb (off + length p)"] n(5)
      by (auto simp: nb_def div_le_mono)
    have room: "unat (freeblock m) + taken (Suc ?k) \<le> length (img m) + taken (nb off)"
      using less.prems(4) fit(2) by linarith
    have p1: "0 < length ?p1" "length ?p1 \<le> 512 - off mod 512" using n by auto
    obtain x din1 m1 buf m2 where c: "file_block (of_nat ?k) din m = Inr (x, din1, m1)" "rsect x m1 = Inr buf"
      "m2 = wsect x (overwrite (off mod 512) ?p1 buf) m1" "disk_ok m2" "file_ok m2 din1 (Suc ?k)"
      "file_bytes m2 din1 (off + length ?p1) = file_bytes m din off @ ?p1" "length (img m2) = length (img m)"
      "din1 = din\<lparr>d_addrs := d_addrs din1\<rparr>" "freeinode m2 = freeinode m"
      "unat (freeblock m2) = unat (freeblock m) + taken (Suc ?k) - taken (nb off)"
      "\<forall>b \<in> set (used m2 din1 (Suc ?k)). b \<in> set (used m din (nb off)) \<or> unat (freeblock m) \<le> b"
      "\<forall>j < unat (freeblock m). j \<notin> set (used m din (nb off)) \<longrightarrow> img m2 ! j = img m ! j"
      using append_chunk [OF less.prems(1,2) o p1 room] by metis
    have grow: "taken (nb off) \<le> taken (Suc ?k)"
      using nb_step(2) [OF n(1,2)] by (auto intro: taken_mono)
    have room2: "unat (freeblock m2) + taken (nb (?o + length ?p2)) \<le> length (img m2) + taken (nb ?o)"
      unfolding c(7,10) n(5) fit(1) using less.prems(4) grow by linarith
    have fok: "file_ok m2 din1 (nb ?o)" unfolding fit(1) by (rule c(5))
    have lim: "?o + length ?p2 \<le> 71680" unfolding n(5) by (rule less.prems(3))
    obtain din' m' where i: "iappend_loop ?p2 (of_nat ?o) din1 m2 = Inr (of_nat (off + length p), din', m')"
      "disk_ok m'" "file_ok m' din' (nb (off + length p))" "din' = din1\<lparr>d_addrs := d_addrs din'\<rparr>"
      "freeinode m' = freeinode m2" "unat (freeblock m2) \<le> unat (freeblock m')"
      "file_bytes m' din' (off + length p) = file_bytes m2 din1 ?o @ ?p2"
      "\<forall>b \<in> set (used m' din' (nb (off + length p))). b \<in> set (used m2 din1 (nb ?o)) \<or> unat (freeblock m2) \<le> b"
      "\<forall>j < unat (freeblock m2). j \<notin> set (used m2 din1 (nb ?o)) \<longrightarrow> img m' ! j = img m2 ! j"
      using less.hyps [OF n(4) c(4) fok lim room2] unfolding n(5) by blast
    have "iappend_loop p (of_nat off) din m = iappend_loop ?p2 (of_nat ?o) din1 m2"
      unfolding c(3) by (rule iappend_loop_pass [OF False o c(1,2)])
    moreover have le: "unat (freeblock m) \<le> unat (freeblock m2)" using c(10) grow by simp
    moreover have "\<forall>j < unat (freeblock m). j \<notin> set (used m din (nb off)) \<longrightarrow> img m' ! j = img m ! j"
    proof (intro allI impI)
      fix j assume j: "j < unat (freeblock m)" "j \<notin> set (used m din (nb off))"
      then have "j \<notin> set (used m2 din1 (nb ?o))" using c(11) unfolding fit(1) by force
      then show "img m' ! j = img m ! j" using i(9) c(12) j le by simp
    qed
    moreover have "\<forall>b \<in> set (used m' din' (nb (off + length p))). b \<in> set (used m din (nb off)) \<or> unat (freeblock m) \<le> b"
      using i(8) c(11) le unfolding fit(1) by fastforce
    moreover have "file_bytes m' din' (off + length p) = file_bytes m din off @ p"
      using i(7) c(6) n(3) by simp
    moreover have "din' = din\<lparr>d_addrs := d_addrs din'\<rparr>" using c(8) i(4) by (metis dinode.surjective dinode.update_convs(6))
    ultimately show ?thesis using i c(9) by auto
  qed
qed

section \<open>The inodes of the image\<close>

definition get_inode :: "mkfs_state \<Rightarrow> u32 \<Rightarrow> dinode" where
  "get_inode m n = get_dinode (img m ! (32 + unat n div 8)) (dinode_off n)"

definition fsize :: "mkfs_state \<Rightarrow> u32 \<Rightarrow> nat" where
  "fsize m n = unat (d_size (get_inode m n))"

definition inode_ok :: "mkfs_state \<Rightarrow> u32 \<Rightarrow> bool" where
  "inode_ok m n \<longleftrightarrow> unat n < NINODES \<and> fsize m n \<le> 71680 \<and> file_ok m (get_inode m n) (nb (fsize m n))"

definition inode_used :: "mkfs_state \<Rightarrow> u32 \<Rightarrow> nat set" where
  "inode_used m n = set (used m (get_inode m n) (nb (fsize m n)))"

definition fdata :: "mkfs_state \<Rightarrow> u32 \<Rightarrow> bytes" where
  "fdata m n = file_bytes m (get_inode m n) (fsize m n)"

text \<open>The files of the inodes \<open>N\<close> are well formed and share no block.\<close>

definition files_ok :: "mkfs_state \<Rightarrow> u32 set \<Rightarrow> bool" where
  "files_ok m N \<longleftrightarrow> disk_ok m \<and> (\<forall>n \<in> N. inode_ok m n)
     \<and> (\<forall>n \<in> N. \<forall>k \<in> N. n \<noteq> k \<longrightarrow> inode_used m n \<inter> inode_used m k = {})"

lemma file_frame:
  assumes "file_ok m din n" and "unat (freeblock m) \<le> unat (freeblock m')"
    and "\<forall>b \<in> set (used m din n). img m' ! b = img m ! b"
  shows "file_ok m' din n" and "used m' din n = used m din n" and "contents m' din n = contents m din n"
proof -
  have b: "baddr m' din k = baddr m din k" if "k < n \<or> NDIRECT < n" for k
    using assms(3) that indirect_used [of n din m] by (cases "k < NDIRECT") (auto simp: baddr_def)
  then show u: "used m' din n = used m din n" by (simp add: used_def)
  show "file_ok m' din n"
    using assms(1,2) b unfolding file_ok_def u by (auto intro: order_less_le_trans)
  show "contents m' din n = contents m din n"
    unfolding contents_def using b assms(3) baddr_used [of _ n m din]
    by (intro arg_cong [of _ _ concat] map_cong) auto
qed

lemma unat_IBLOCK: "unat n < NINODES \<Longrightarrow> unat (IBLOCK n mk_superblock) = 32 + unat n div 8"
proof -
  assume "unat n < NINODES"
  then have "unat (n div 8) + unat (32 :: u32) < 4294967296" by (simp add: unat_div_distrib)
  from unat_add32 [OF this] show ?thesis by (simp add: IBLOCK_def mk_superblock_def unat_div_distrib)
qed

lemma inode_block:
  assumes "disk_ok m" and "unat n < NINODES"
  shows "32 + unat n div 8 < nmeta" and "32 + unat n div 8 < unat (freeblock m)"
    and "32 + unat n div 8 < length (img m)" and "length (img m ! (32 + unat n div 8)) = BSIZE"
proof -
  show l: "32 + unat n div 8 < nmeta" using assms(2) by simp
  show f: "32 + unat n div 8 < unat (freeblock m)"
    using l assms(1) unfolding disk_ok_def by (meson order_less_le_trans)
  show i: "32 + unat n div 8 < length (img m)"
    using f assms(1) unfolding disk_ok_def by (meson order_less_le_trans)
  show "length (img m ! (32 + unat n div 8)) = BSIZE" by (rule disk_ok_block [OF assms(1) i])
qed

lemma rinode_reads:
  assumes "disk_ok m" and "unat n < NINODES"
  shows "rinode n m = Inr (get_inode m n)"
proof -
  have sb: "mk_sb m = mk_superblock" using assms(1) by (simp add: disk_ok_def)
  have "rsect (IBLOCK n mk_superblock) m = Inr (img m ! (32 + unat n div 8))"
    using rsect_in [OF assms(1), of "IBLOCK n mk_superblock"] inode_block(3) [OF assms]
    by (simp only: unat_IBLOCK [OF assms(2)])
  then show ?thesis by (simp add: rinode_def sb get_inode_def)
qed

lemma winode_writes:
  assumes "disk_ok m" and "unat n < NINODES" and "length (d_addrs x) = 13"
  obtains m' where "winode n x m = Inr m'" and "disk_ok m'" and "get_inode m' n = x"
    and "\<And>k. k \<noteq> n \<Longrightarrow> get_inode m' k = get_inode m k" and "freeblock m' = freeblock m"
    and "freeinode m' = freeinode m" and "\<And>j. nmeta \<le> j \<Longrightarrow> img m' ! j = img m ! j"
proof -
  let ?ib = "32 + unat n div 8"
  note ib = inode_block [OF assms(1,2)]
  define m' where "m' = m\<lparr>img := (img m)[?ib := put_dinode (dinode_off n) x (img m ! ?ib)]\<rparr>"
  have sb: "mk_sb m = mk_superblock" using assms(1) by (simp add: disk_ok_def)
  have w: "winode n x m = Inr m'"
    using rsect_in [OF assms(1), of "IBLOCK n mk_superblock"] wsect_in [OF assms(1), of "IBLOCK n mk_superblock"] ib(3)
    by (simp add: winode_def sb m'_def unat_IBLOCK [OF assms(2)])
  have len: "length (put_dinode (dinode_off n) x (img m ! ?ib)) = BSIZE"
    using put_dinode_fields(2) [of "dinode_off n" "img m ! ?ib" x] dinode_off_fits [of n] ib(4) assms(3) by simp
  have d: "disk_ok m'" unfolding m'_def by (rule disk_ok_write [OF assms(1) ib(2) len])
  have g: "get_inode m' n = x" using dinode_apart(1) [OF ib(4) assms(3)] ib(3) by (simp add: get_inode_def m'_def)
  have o: "get_inode m' k = get_inode m k" if "k \<noteq> n" for k
  proof (cases "unat k div 8 = unat n div 8")
    case True
    have "k mod 8 \<noteq> n mod 8"
    proof
      assume "k mod 8 = n mod 8"
      then have "unat k mod 8 = unat n mod 8"
        using unat_mod_pow2 [of 3 k] unat_mod_pow2 [of 3 n] by simp
      then have "unat k = unat n" using True by (metis div_mult_mod_eq)
      then have "k = n" by (simp only: word_unat_eq_iff)
      then show False using that by simp
    qed
    then show ?thesis using dinode_apart(2) [OF ib(4) assms(3)] True ib(3) by (simp add: get_inode_def m'_def)
  next
    case False
    then show ?thesis by (simp add: get_inode_def m'_def)
  qed
  have "img m' ! j = img m ! j" if "nmeta \<le> j" for j using that ib(1) by (simp add: m'_def)
  then show ?thesis using that w d g o by (simp add: m'_def)
qed

lemma iappend_spec:
  assumes f: "files_ok m N" and n: "n \<in> N" and s: "fsize m n + length p \<le> 71680"
    and room: "unat (freeblock m) + taken (nb (fsize m n + length p)) \<le> length (img m) + taken (nb (fsize m n))"
  shows "\<exists>m'. iappend n p m = Inr m' \<and> files_ok m' N \<and> fdata m' n = fdata m n @ p
    \<and> (\<forall>k \<in> N. k \<noteq> n \<longrightarrow> fdata m' k = fdata m k)"
proof -
  let ?din = "get_inode m n" and ?off = "fsize m n"
  let ?e = "?off + length p"
  have d: "disk_ok m" and i: "inode_ok m n" using f n by (auto simp: files_ok_def)
  have nn: "unat n < NINODES" and fok: "file_ok m ?din (nb ?off)" using i by (auto simp: inode_ok_def)
  obtain din' m1 where l: "iappend_loop p (of_nat ?off) ?din m = Inr (of_nat ?e, din', m1)"
    "disk_ok m1" "file_ok m1 din' (nb ?e)" "unat (freeblock m) \<le> unat (freeblock m1)"
    "file_bytes m1 din' ?e = file_bytes m ?din ?off @ p"
    "\<forall>b \<in> set (used m1 din' (nb ?e)). b \<in> set (used m ?din (nb ?off)) \<or> unat (freeblock m) \<le> b"
    "\<forall>j < unat (freeblock m). j \<notin> set (used m ?din (nb ?off)) \<longrightarrow> img m1 ! j = img m ! j"
    using iappend_loop_appends [OF d fok s room] by blast
  let ?x = "din'\<lparr>d_size := of_nat ?e\<rparr>"
  have len: "length (d_addrs ?x) = 13" using l(3) by (simp add: file_ok_def)
  obtain m' where w: "winode n ?x m1 = Inr m'" "disk_ok m'" "get_inode m' n = ?x"
    "\<And>k. k \<noteq> n \<Longrightarrow> get_inode m' k = get_inode m1 k" "freeblock m' = freeblock m1"
    "freeinode m' = freeinode m1" "\<And>j. nmeta \<le> j \<Longrightarrow> img m' ! j = img m1 ! j"
    using winode_writes [OF l(2) nn len] by metis
  have "of_nat ?off = d_size ?din" by (simp add: fsize_def)
  then have ap: "iappend n p m = Inr m'" using l(1) w(1) by (simp add: iappend_def rinode_reads [OF d nn])
  have "unat (of_nat ?e :: u32) = ?e" by (rule unat_of_nat32) (use s in linarith)
  moreover have "fsize m' n = unat (of_nat ?e :: u32)" unfolding fsize_def [of m'] w(3) by simp
  ultimately have e: "fsize m' n = ?e" by simp
  have x: "file_ok m1 ?x (nb ?e)" "used m1 ?x (nb ?e) = used m1 din' (nb ?e)" "contents m1 ?x (nb ?e) = contents m1 din' (nb ?e)"
    using l(3) by (simp_all add: file_ok_def used_def contents_def)
  have high: "\<forall>b \<in> set (used m1 ?x (nb ?e)). img m' ! b = img m1 ! b"
    using file_ok_addr [OF l(2) x(1)] w(7) by blast
  note fr = file_frame [OF x(1) _ high]
  have N1: "inode_ok m' n" using nn s fr(1) w(3,5) e by (simp add: inode_ok_def)
  have D1: "fdata m' n = fdata m n @ p"
    using l(5) fr(3) w(3,5) e x(3) by (simp add: fdata_def file_bytes_def)
  have U1: "\<forall>b \<in> inode_used m' n. b \<in> inode_used m n \<or> unat (freeblock m) \<le> b"
    using l(6) fr(2) w(3,5) e x(2) by (simp add: inode_used_def)
  have other: "inode_ok m' k \<and> inode_used m' k = inode_used m k \<and> fdata m' k = fdata m k"
    if k: "k \<in> N" "k \<noteq> n" for k
  proof -
    have ik: "inode_ok m k" and dis: "inode_used m k \<inter> inode_used m n = {}" using f k n by (auto simp: files_ok_def)
    have kk: "unat k < NINODES" and fk: "file_ok m (get_inode m k) (nb (fsize m k))" using ik by (auto simp: inode_ok_def)
    have bk: "32 + unat k div 8 \<notin> set (used m ?din (nb ?off))"
      using file_ok_addr [OF d fok] inode_block(1) [OF d kk] by force
    have "img m1 ! (32 + unat k div 8) = img m ! (32 + unat k div 8)"
      using l(7) bk inode_block(2) [OF d kk] by blast
    then have g: "get_inode m' k = get_inode m k" using w(4) [OF k(2)] by (simp add: get_inode_def)
    have "img m' ! b = img m ! b" if "b \<in> set (used m (get_inode m k) (nb (fsize m k)))" for b
    proof -
      have "b \<notin> set (used m ?din (nb ?off))" using dis that by (auto simp: inode_used_def)
      then show ?thesis using l(7) w(7) file_ok_addr [OF d fk that] by simp
    qed
    then have blk: "\<forall>b \<in> set (used m (get_inode m k) (nb (fsize m k))). img m' ! b = img m ! b" by blast
    have "unat (freeblock m) \<le> unat (freeblock m')" using l(4) w(5) by simp
    note ff = file_frame [OF fk this blk]
    have s': "fsize m' k = fsize m k" by (simp add: fsize_def g)
    show ?thesis using ff ik by (simp add: inode_ok_def inode_used_def fdata_def file_bytes_def s' g)
  qed
  have low: "\<forall>b \<in> inode_used m k. b < unat (freeblock m)" if "k \<in> N" for k
    using f that file_ok_addr [OF d] by (auto simp: files_ok_def inode_ok_def inode_used_def)
  have dis: "inode_used m' n \<inter> inode_used m' k = {}" if k: "k \<in> N" "k \<noteq> n" for k
  proof -
    have "inode_used m n \<inter> inode_used m k = {}" using f k n by (simp add: files_ok_def)
    then show ?thesis using other [OF k] U1 low [OF k(1)] by fastforce
  qed
  have "files_ok m' N"
    unfolding files_ok_def
  proof (intro conjI ballI impI)
    fix i k assume ik: "i \<in> N" "k \<in> N" "i \<noteq> k"
    show "inode_used m' i \<inter> inode_used m' k = {}"
    proof (cases "i = n \<or> k = n")
      case True
      then show ?thesis using dis ik by blast
    next
      case False
      then show ?thesis using other ik f by (simp add: files_ok_def)
    qed
  qed (use w(2) N1 other in auto)
  then show ?thesis using ap D1 other by blast
qed

text \<open>
  C19. \<open>iappend\<close> makes a file grow by the bytes it is given, through the direct and the indirect blocks,
  when they fit in a file and the disk has the blocks for them; no other file of the image changes,
  and the files still share no block.
\<close>

theorem iappend_appends:
  assumes "files_ok m N" and "n \<in> N" and "fsize m n + length p \<le> 71680"
    and "unat (freeblock m) + taken (nb (fsize m n + length p)) \<le> length (img m) + taken (nb (fsize m n))"
  shows "\<exists>m'. iappend n p m = Inr m' \<and> files_ok m' N \<and> fdata m' n = fdata m n @ p
    \<and> (\<forall>k \<in> N. k \<noteq> n \<longrightarrow> fdata m' k = fdata m k)"
  using assms by (rule iappend_spec)

text \<open>The image with an empty file as inode 1, before any block is allocated.\<close>

definition image0 :: mkfs_state where
  "image0 = \<lparr>img = replicate 100 (replicate BSIZE 0), mk_sb = mk_superblock, freeinode = 2, freeblock = of_nat nmeta\<rparr>"

lemma image0_inode: "get_inode image0 1 =
    \<lparr>d_type = 0, d_major = 0, d_minor = 0, d_nlink = 0, d_size = 0, d_addrs = replicate 13 0\<rparr>"
proof -
  have z: "get16 (replicate BSIZE 0) i = 0" if "i + 1 < BSIZE" for i
    using that by (simp add: get16_def le16_def)
  have "dinode_off 1 = 64" by (simp add: dinode_off_def)
  moreover have "map (\<lambda>k. get32 (replicate BSIZE 0) (64 + 12 + 4 * k)) [0..<13] = replicate 13 (0 :: u32)"
    by (rule nth_equalityI) (simp_all add: get32_zeros del: upt_rec_numeral)
  ultimately show ?thesis
    by (simp add: get_inode_def image0_def get_dinode_def z get32_zeros del: upt_rec_numeral)
qed

lemma image0_ok: "files_ok image0 {1}"
proof -
  have "disk_ok image0" by (simp add: disk_ok_def image0_def)
  moreover have s: "fsize image0 1 = 0" by (simp add: fsize_def image0_inode)
  moreover have "file_ok image0 (get_inode image0 1) 0"
    by (auto simp: file_ok_def image0_inode used_def)
  ultimately show ?thesis by (simp add: files_ok_def inode_ok_def nb_def)
qed

lemma iappend_appends_witness: "\<exists>m'. iappend 1 [104, 105] image0 = Inr m' \<and> fdata m' 1 = [104, 105]"
proof -
  have s: "fsize image0 1 = 0" by (simp add: fsize_def image0_inode)
  have e: "fdata image0 1 = []" by (simp add: fdata_def file_bytes_def s)
  have "unat (freeblock image0) + taken (nb (fsize image0 1 + length [104, 105 :: u8]))
      \<le> length (img image0) + taken (nb (fsize image0 1))"
    unfolding s by (simp add: image0_def nb_def taken_def)
  from iappend_appends [OF image0_ok _ _ this] show ?thesis by (auto simp: s e)
qed

section \<open>The bitmap\<close>

lemma free_bit_first:
  "bi \<le> k \<Longrightarrow> k < bi + n \<Longrightarrow> \<not> bit_set d k \<Longrightarrow> (\<And>i. bi \<le> i \<Longrightarrow> i < k \<Longrightarrow> bit_set d i) \<Longrightarrow>
   free_bit d bi n = Some k"
proof (induction n arbitrary: bi)
  case (Suc n)
  show ?case
  proof (cases "bi = k")
    case False
    then have "bit_set d bi" using Suc.prems by auto
    moreover have "free_bit d (Suc bi) n = Some k" using Suc False by (intro Suc.IH) auto
    ultimately show ?thesis by simp
  qed (use Suc.prems in auto)
qed simp

text \<open>In the bitmap that \<open>balloc\<close> writes, the kernel's search finds the first block that was not used.\<close>

lemma balloc_bitmap:
  assumes "u < 4096"
  shows "free_bit (fold mark_bit [0..<u] (replicate BSIZE 0)) 0 4096 = Some u"
proof (rule free_bit_first)
  have z: "\<not> bit_set (replicate BSIZE 0) j" if "j < 4096" for j
    using that by (simp add: bit_set_def less_mult_imp_div_less)
  show "\<not> bit_set (fold mark_bit [0..<u] (replicate BSIZE 0)) u"
    using assms z by (simp add: bit_set_marked)
  show "bit_set (fold mark_bit [0..<u] (replicate BSIZE 0)) i" if "i < u" for i
    using assms that by (simp add: bit_set_marked)
qed (use assms in auto)

end
