(* ===== verification/Xv6_Fork.thy ===== *)
theory Xv6_Fork
  imports Xv6_File
begin

text \<open>
  The life of a process (\<open>proc.c\<close>): the first process, \<open>fork\<close>, the thread call \<open>clone\<close> with its
  sharing flags, and \<open>exit\<close>.
\<close>

text \<open>\<open>forkfirst\<close> is the static variable of \<open>forkret\<close>.\<close>

record kernel_state = file_state +
  forkfirst :: bool

section \<open>The first process\<close>

definition userinit :: "'a kernel_state_scheme \<Rightarrow> stop + 'a kernel_state_scheme" where
  "userinit s =
     bindE (allocproc s) (\<lambda>(p, s).
     let s = s\<lparr>initproc := p\<rparr> in
     case p of None \<Rightarrow> Inl (Fault ''userinit'')
     | Some i \<Rightarrow>
       bindE (setupkvm s) (\<lambda>(pg, s).
       let s = upd_proc i (pgdir_update (\<lambda>_. pg)) s in
       if pg = 0 then Inl (Panic ''userinit: out of memory?'')
       else
         bindE (inituvm pg (kinitcode s) (of_nat (length (kinitcode s))) s) (\<lambda>s.
         let s = upd_proc i (\<lambda>p. p\<lparr>sz := PGSIZE, tf := (tf p)\<lparr>
                  tf_edi := 0, tf_esi := 0, tf_ebp := 0, tf_oesp := 0, tf_ebx := 0, tf_edx := 0,
                  tf_ecx := 0, tf_eax := 0, tf_gs := 0, tf_fs := 0, tf_trapno := 0, tf_err := 0,
                  tf_cs := 0x1B, tf_ds := 0x23, tf_es := 0x23, tf_ss := 0x23, tf_eflags := 0x200,
                  tf_esp := PGSIZE, tf_eip := 0\<rparr>,
                pname := safestrcpy (pname p) (arr [105, 110, 105, 116, 99, 111, 100, 101, 0]) 16\<rparr>) s in
         bindE (namei [47] s) (\<lambda>(d, s).
         let s = upd_proc i (cwd_update (\<lambda>_. d)) s in
         bindE (acquire L_ptable s) (\<lambda>s.
         release L_ptable (upd_proc i (state_update (\<lambda>_. RUNNABLE)) s))))))"

definition forkret :: "'a kernel_state_scheme \<Rightarrow> stop + 'a kernel_state_scheme" where
  "forkret s =
     bindE (release L_ptable s) (\<lambda>s.
       if forkfirst s then
         bindE (iinit ROOTDEV (s\<lparr>forkfirst := False\<rparr>)) (initlog ROOTDEV)
       else Inr s)"

section \<open>Fork and clone\<close>

text \<open>\<open>np->ofile[i] = filedup(curproc->ofile[i])\<close> for the open descriptors.\<close>

definition dup_fd :: "nat \<Rightarrow> nat \<Rightarrow> nat \<Rightarrow> 'a file_state_scheme \<Rightarrow> stop + 'a file_state_scheme" where
  "dup_fd me np i s =
     (case ofile (procs s ! me) ! i of None \<Rightarrow> Inr s
      | Some f \<Rightarrow> bindE (filedup f s) (\<lambda>s.
          Inr (upd_proc np (ofile_update (\<lambda>fs. fs[i := Some f])) s)))"

text \<open>Giving a half-made process back: \<open>kfree(np->kstack)\<close> and the slot.\<close>

definition drop_embryo :: "nat \<Rightarrow> 'a proc_state_scheme \<Rightarrow> stop + 'a proc_state_scheme" where
  "drop_embryo np s =
     bindE (kfree (kstack (procs s ! np)) s) (\<lambda>s.
     Inr (upd_proc np (\<lambda>p. p\<lparr>kstack := 0, state := UNUSED\<rparr>) s))"

definition start_proc :: "nat \<Rightarrow> 'a proc_state_scheme \<Rightarrow> stop + 'a proc_state_scheme" where
  "start_proc np s =
     bindE (acquire L_ptable s) (\<lambda>s.
     release L_ptable (upd_proc np (state_update (\<lambda>_. RUNNABLE)) s))"

definition fork :: "'a file_state_scheme \<Rightarrow> stop + (i32 \<times> 'a file_state_scheme)" where
  "fork s =
     bindE (myproc s) (\<lambda>me.
     bindE (allocproc s) (\<lambda>(r, s).
     case r of None \<Rightarrow> Inr (- 1, s)
     | Some np \<Rightarrow>
       bindE (copyuvm (pgdir (procs s ! me)) (sz (procs s ! me)) s) (\<lambda>(pg, s).
       let s = upd_proc np (pgdir_update (\<lambda>_. pg)) s in
       if pg = 0 then bindE (drop_embryo np s) (\<lambda>s. Inr (- 1, s))
       else
         let c = procs s ! me;
             s = upd_proc np (\<lambda>p. p\<lparr>sz := sz c, parent := Some me, isthread := 0, tid := pid p,
                   tf := (tf c)\<lparr>tf_eax := 0\<rparr>\<rparr>) s in
         bindE (forE (dup_fd me np) [0..<NOFILE] s) (\<lambda>s.
         bindE (idup (cwd (procs s ! me)) s) (\<lambda>(d, s).
         let s = upd_proc np (\<lambda>p. p\<lparr>cwd := d, pname := safestrcpy (pname p) (arr (pname c)) 16\<rparr>) s;
             r = pid (procs s ! np) in
         bindE (start_proc np s) (\<lambda>s. Inr (r, s)))))))"

definition flag :: "i32 \<Rightarrow> nat \<Rightarrow> i32" where
  "flag w k = (if w AND push_bit k 1 \<noteq> 0 then 1 else 0)"

text \<open>\<open>for(i \<dots>) if(p->share[i] == 0) p->share[i] = q;\<close>\<close>

definition fill_share :: "nat \<Rightarrow> nat option list \<Rightarrow> nat option list" where
  "fill_share q xs = map (\<lambda>x. case x of None \<Rightarrow> Some q | Some _ \<Rightarrow> x) xs"

definition share_fd :: "nat \<Rightarrow> nat \<Rightarrow> nat \<Rightarrow> 'a proc_state_scheme \<Rightarrow> 'a proc_state_scheme" where
  "share_fd me np i s =
     (case ofile (procs s ! me) ! i of None \<Rightarrow> s
      | Some f \<Rightarrow> upd_proc np (ofile_update (\<lambda>fs. fs[i := Some f])) s)"

text \<open>The parent that \<open>clone\<close> gives the new slot; a null parent of the caller is dereferenced.\<close>

definition clone_parent_of :: "bool \<Rightarrow> nat \<Rightarrow> 'a proc_state_scheme \<Rightarrow> stop + nat option" where
  "clone_parent_of par me s =
     (let c = procs s ! me in
      if par then
        (if isthread c = 0 then Inr (parent c)
         else case parent c of None \<Rightarrow> Inl (Fault ''clone: parent'') | Some q \<Rightarrow> Inr (parent (procs s ! q)))
      else Inr (if isthread c = 0 then Some me else parent c))"

definition clone_flags :: "i32 \<Rightarrow> proc \<Rightarrow> proc" where
  "clone_flags w p = p\<lparr>clone_files := flag w 0, clone_fs := flag w 1, clone_vm := flag w 2,
     clone_thread := flag w 3, clone_parent := flag w 4\<rparr>"

definition clone :: "u32 \<Rightarrow> u32 \<Rightarrow> i32 \<Rightarrow> u32 \<Rightarrow> 'a file_state_scheme \<Rightarrow> stop + (i32 \<times> 'a file_state_scheme)" where
  "clone func stack flags arg s =
     bindE (myproc s) (\<lambda>me.
     if sint flags < 0 \<or> sint flags > 31 then Inr (- 1, s)
     else
     bindE (allocproc s) (\<lambda>(r, s).
     case r of None \<Rightarrow> Inr (- 1, s)
     | Some np \<Rightarrow>
       let s = upd_proc np (clone_flags flags) s in
       bindE (clone_parent_of (clone_parent (procs s ! np) = 1) me s) (\<lambda>q.
       let s = upd_proc np (\<lambda>p. p\<lparr>parent := q, threadparent := Some me, tid := pid p,
                 pid := (if clone_thread p = 1 then pid (procs s ! me) else pid p)\<rparr>) s in
       bindE (if clone_vm (procs s ! np) = 1 then Inr (pgdir (procs s ! me), s)
              else copyuvm (pgdir (procs s ! me)) (sz (procs s ! me)) s) (\<lambda>(pg, s).
       let s = upd_proc np (pgdir_update (\<lambda>_. pg)) s in
       if clone_vm (procs s ! np) \<noteq> 1 \<and> pg = 0 then bindE (drop_embryo np s) (\<lambda>s. Inr (- 1, s))
       else
         let c = procs s ! me; sp = stack + PGSIZE;
             s = upd_proc np (\<lambda>p. p\<lparr>sz := sz c, isthread := 1, ustack := stack,
                   tf := (tf c)\<lparr>tf_eax := 0, tf_eip := func, tf_ebp := sp, tf_esp := sp - 8\<rparr>\<rparr>) s in
         bindE (copyout pg (sp - 8)
                  (map (\<lambda>i. byte_of i (0xffffffff :: u32)) [0..<4] @ map (\<lambda>i. byte_of i arg) [0..<4]) s) (\<lambda>(r, s).
         if sint r < 0 then Inr (- 1, s)
         else
           bindE (if clone_files (procs s ! np) = 1 then
                    let s = upd_proc np (ofileshare_update (fill_share me)) s;
                        s = upd_proc me (ofileshare_update (fill_share np)) s
                    in Inr (foldl (\<lambda>s i. share_fd me np i s) s [0..<NOFILE])
                  else forE (dup_fd me np) [0..<NOFILE] s) (\<lambda>s.
           bindE (if clone_fs (procs s ! np) = 1 then
                    let s = upd_proc np (cwdshare_update (fill_share me)) s;
                        s = upd_proc me (cwdshare_update (fill_share np)) s
                    in Inr (cwd (procs s ! me), s)
                  else idup (cwd (procs s ! me)) s) (\<lambda>(d, s).
           let s = upd_proc np (\<lambda>p. p\<lparr>cwd := d,
                     pname := safestrcpy (pname p) (arr (pname (procs s ! me))) 16\<rparr>) s;
               t = tid (procs s ! np) in
           bindE (start_proc np s) (\<lambda>s. Inr (t, s)))))))))"

section \<open>Exit\<close>

text \<open>The inner loop of \<open>exit\<close> over a partner's list: the first entry for the caller is cleared.\<close>

definition clear_first :: "nat \<Rightarrow> nat option list \<Rightarrow> nat option list" where
  "clear_first me xs =
     (case find_slot (\<lambda>x. x = Some me) xs of None \<Rightarrow> xs | Some j \<Rightarrow> xs[j := None])"

definition unshare_ofile :: "nat \<Rightarrow> bool \<times> 'a proc_state_scheme \<Rightarrow> nat \<Rightarrow> bool \<times> 'a proc_state_scheme" where
  "unshare_ofile me = (\<lambda>(sh, s) i.
     case ofileshare (procs s ! me) ! i of None \<Rightarrow> (sh, s)
     | Some p \<Rightarrow>
         let s = upd_proc p (ofileshare_update (clear_first me)) s
         in (True, upd_proc me (ofileshare_update (\<lambda>xs. xs[i := None])) s))"

definition unshare_cwd :: "nat \<Rightarrow> bool \<times> 'a proc_state_scheme \<Rightarrow> nat \<Rightarrow> bool \<times> 'a proc_state_scheme" where
  "unshare_cwd me = (\<lambda>(sh, s) i.
     case cwdshare (procs s ! me) ! i of None \<Rightarrow> (sh, s)
     | Some p \<Rightarrow>
         let s = upd_proc p (cwdshare_update (clear_first me)) s
         in (True, upd_proc me (cwdshare_update (\<lambda>xs. xs[i := None])) s))"

definition close_fd :: "nat \<Rightarrow> bool \<Rightarrow> nat \<Rightarrow> 'a file_state_scheme \<Rightarrow> stop + 'a file_state_scheme" where
  "close_fd me shared fd s =
     (case ofile (procs s ! me) ! fd of None \<Rightarrow> Inr s
      | Some f \<Rightarrow>
          bindE (if shared then Inr s else fileclose f s) (\<lambda>s.
          Inr (upd_proc me (ofile_update (\<lambda>fs. fs[fd := None])) s)))"

definition wake_proc :: "nat option \<Rightarrow> 'a proc_state_scheme \<Rightarrow> 'a proc_state_scheme" where
  "wake_proc q s = (case q of None \<Rightarrow> s | Some i \<Rightarrow> wakeup1 (ChProc i) s)"

definition reparent :: "nat \<Rightarrow> 'a proc_state_scheme \<Rightarrow> nat \<Rightarrow> 'a proc_state_scheme" where
  "reparent me s i =
     (if parent (procs s ! i) = Some me \<and> isthread (procs s ! i) \<noteq> 1 then
        let s = upd_proc i (parent_update (\<lambda>_. initproc s)) s
        in if state (procs s ! i) = ZOMBIE then wake_proc (initproc s) s else s
      else s)"

definition wake_joiner :: "nat \<Rightarrow> bool \<times> 'a proc_state_scheme \<Rightarrow> nat \<Rightarrow> bool \<times> 'a proc_state_scheme" where
  "wake_joiner me = (\<lambda>(found, s) i.
     if joinproc (procs s ! i) = Some me
     then (True, wakeup1 (ChProc i) (upd_proc i (joinproc_update (\<lambda>_. None)) s))
     else (found, s))"

text \<open>What \<open>exit\<close> does to the other processes, with the table locked.\<close>

definition exit_notify :: "nat \<Rightarrow> 'a proc_state_scheme \<Rightarrow> 'a proc_state_scheme" where
  "exit_notify me s =
     (if isthread (procs s ! me) = 0 then
        let s = foldl (reparent me) s [0..<NPROC];
            s = wake_proc (parent (procs s ! me)) s
        in kill_threads me s
      else
        let (joined, s) = foldl (wake_joiner me) (False, s) [0..<NPROC]
        in if joined then s else wake_proc (parent (procs s ! me)) s)"

text \<open>\<open>exit\<close> up to the switch to the scheduler, from which it does not come back.\<close>

definition exit :: "'a file_state_scheme \<Rightarrow> stop + 'a file_state_scheme" where
  "exit s =
     bindE (myproc s) (\<lambda>me.
     if initproc s = Some me then Inl (Panic ''init exiting'')
     else
       let (sharefd, s) = foldl (unshare_ofile me) (False, s) [0..<NPROC];
           (sharecwd, s) = foldl (unshare_cwd me) (False, s) [0..<NPROC] in
       bindE (forE (close_fd me sharefd) [0..<NOFILE] s) (\<lambda>s.
       bindE (if sharecwd then Inr s
              else bindE (begin_op s) (\<lambda>s.
                   case cwd (procs s ! me) of None \<Rightarrow> Inl (Fault ''exit: cwd'')
                   | Some d \<Rightarrow> bindE (iput d s) end_op)) (\<lambda>s.
       let s = upd_proc me (cwd_update (\<lambda>_. None)) s in
       bindE (acquire L_ptable s) (\<lambda>s.
       let s = exit_notify me s in
       sched (upd_proc me (state_update (\<lambda>_. ZOMBIE)) s)))))"

end
