(* ===== verification/Xv6_Syscall.thy ===== *)
theory Xv6_Syscall
  imports Xv6_Fork
begin

text \<open>
  System-call arguments (\<open>syscall.c\<close>), the calls on processes and time (\<open>sysproc.c\<close>) and \<open>exec\<close>
  (\<open>exec.c\<close>). The kernel reads and writes user memory through the page table of the process.
\<close>

section \<open>User memory\<close>

text \<open>The kernel address behind a user address, where its page is mapped.\<close>

definition vaddr :: "memory \<Rightarrow> u32 \<Rightarrow> u32 \<Rightarrow> u32 option" where
  "vaddr m pg va =
     (let e = pte_of m pg (vpage va) in
      if e AND PTE_P \<noteq> 0 then Some (P2V (PTE_ADDR e) + (va AND 0xFFF)) else None)"

definition vload :: "u32 \<Rightarrow> u32 \<Rightarrow> 'a kmem_state_scheme \<Rightarrow> stop + u8" where
  "vload pg va s =
     (case vaddr (mem s) pg va of None \<Rightarrow> Inl (Fault ''page fault'') | Some a \<Rightarrow> Inr (mem s a))"

fun vstore :: "u32 \<Rightarrow> u32 \<Rightarrow> bytes \<Rightarrow> 'a kmem_state_scheme \<Rightarrow> stop + 'a kmem_state_scheme" where
  "vstore pg va [] s = Inr s"
| "vstore pg va (b # bs) s =
     (case vaddr (mem s) pg va of None \<Rightarrow> Inl (Fault ''page fault'')
      | Some a \<Rightarrow> vstore pg (va + 1) bs (s\<lparr>mem := (mem s)(a := b)\<rparr>))"

fun vloads :: "u32 \<Rightarrow> u32 \<Rightarrow> nat \<Rightarrow> 'a kmem_state_scheme \<Rightarrow> stop + bytes" where
  "vloads pg va 0 s = Inr []"
| "vloads pg va (Suc n) s =
     bindE (vload pg va s) (\<lambda>b. bindE (vloads pg (va + 1) n s) (\<lambda>bs. Inr (b # bs)))"

section \<open>Fetching arguments\<close>

text \<open>The C result -1 is \<open>None\<close>.\<close>

definition fetchint :: "u32 \<Rightarrow> 'a proc_state_scheme \<Rightarrow> stop + i32 option" where
  "fetchint addr s =
     bindE (myproc s) (\<lambda>me.
     let p = procs s ! me in
       if addr \<ge> sz p \<or> addr + 4 > sz p then Inr None
       else bindE (vloads (pgdir p) addr 4 s) (\<lambda>bs. Inr (Some (get32 bs 0))))"

text \<open>The scan for the NUL, with \<open>n\<close> bytes left below the end of the process.\<close>

fun str_scan :: "u32 \<Rightarrow> u32 \<Rightarrow> nat \<Rightarrow> 'a kmem_state_scheme \<Rightarrow> stop + bytes option" where
  "str_scan pg va 0 s = Inr None"
| "str_scan pg va (Suc n) s =
     bindE (vload pg va s) (\<lambda>b.
       if b = 0 then Inr (Some [])
       else bindE (str_scan pg (va + 1) n s) (\<lambda>r. Inr (map_option ((#) b) r)))"

definition fetchstr :: "u32 \<Rightarrow> 'a proc_state_scheme \<Rightarrow> stop + bytes option" where
  "fetchstr addr s =
     bindE (myproc s) (\<lambda>me.
     let p = procs s ! me in
       if addr \<ge> sz p then Inr None else str_scan (pgdir p) addr (unat (sz p - addr)) s)"

definition argint :: "nat \<Rightarrow> 'a proc_state_scheme \<Rightarrow> stop + i32 option" where
  "argint n s =
     bindE (myproc s) (\<lambda>me. fetchint (tf_esp (tf (procs s ! me)) + 4 + 4 * of_nat n) s)"

definition argptr :: "nat \<Rightarrow> i32 \<Rightarrow> 'a proc_state_scheme \<Rightarrow> stop + u32 option" where
  "argptr n len s =
     bindE (myproc s) (\<lambda>me.
     bindE (argint n s) (\<lambda>r.
     let p = procs s ! me in
       case r of None \<Rightarrow> Inr None
       | Some i \<Rightarrow>
           if sint len < 0 \<or> i \<ge> sz p \<or> i + len > sz p then Inr None else Inr (Some i)))"

definition argstr :: "nat \<Rightarrow> 'a proc_state_scheme \<Rightarrow> stop + bytes option" where
  "argstr n s = bindE (argint n s) (\<lambda>r. case r of None \<Rightarrow> Inr None | Some a \<Rightarrow> fetchstr a s)"

section \<open>Calls on processes and time\<close>

text \<open>\<open>if(argint(0, &x) < 0) return -1;\<close> and the like.\<close>

definition with_arg :: "stop + 'x option \<Rightarrow> ('x \<Rightarrow> stop + (i32 run \<times> 's)) \<Rightarrow> 's \<Rightarrow> stop + (i32 run \<times> 's)" where
  "with_arg m f s = bindE m (\<lambda>r. case r of None \<Rightarrow> Inr (Done (- 1), s) | Some x \<Rightarrow> f x)"

definition as_done :: "stop + (i32 \<times> 's) \<Rightarrow> stop + (i32 run \<times> 's)" where
  "as_done m = bindE m (\<lambda>(r, s). Inr (Done r, s))"

definition sys_fork :: "'a file_state_scheme \<Rightarrow> stop + (i32 run \<times> 'a file_state_scheme)" where
  "sys_fork s = as_done (fork s)"

definition sys_clone :: "'a file_state_scheme \<Rightarrow> stop + (i32 run \<times> 'a file_state_scheme)" where
  "sys_clone s =
     with_arg (argptr 0 4 s) (\<lambda>f.
     with_arg (argptr 1 4 s) (\<lambda>st.
     with_arg (argint 2 s) (\<lambda>fl.
     with_arg (argptr 3 4 s) (\<lambda>a. as_done (clone f st fl a s)) s) s) s) s"

definition sys_tkill :: "'a proc_state_scheme \<Rightarrow> stop + (i32 run \<times> 'a proc_state_scheme)" where
  "sys_tkill s = with_arg (argint 0 s) (\<lambda>t. as_done (tkill t s)) s"

text \<open>\<open>junk\<close> is the indeterminate local of \<open>join\<close>.\<close>

definition sys_join :: "nat option \<Rightarrow> 'a proc_state_scheme \<Rightarrow> stop + (i32 run \<times> 'a proc_state_scheme)" where
  "sys_join junk s =
     with_arg (argint 0 s) (\<lambda>t. bindE (join t junk s) (\<lambda>((r, _), s). Inr (r, s))) s"

definition sys_gettid :: "'a proc_state_scheme \<Rightarrow> stop + i32" where
  "sys_gettid s = bindE (myproc s) (\<lambda>me. Inr (tid (procs s ! me)))"

definition sys_getppid :: "'a proc_state_scheme \<Rightarrow> stop + i32" where
  "sys_getppid s =
     bindE (myproc s) (\<lambda>me.
       case parent (procs s ! me) of None \<Rightarrow> Inl (Fault ''getppid: null parent'')
       | Some q \<Rightarrow> Inr (pid (procs s ! q)))"

definition sys_getpid :: "'a proc_state_scheme \<Rightarrow> stop + i32" where
  "sys_getpid s = bindE (myproc s) (\<lambda>me. Inr (pid (procs s ! me)))"

definition sys_wait :: "'a proc_state_scheme \<Rightarrow> stop + (i32 run \<times> 'a proc_state_scheme)" where
  "sys_wait s = wait s"

definition sys_kill :: "'a proc_state_scheme \<Rightarrow> stop + (i32 run \<times> 'a proc_state_scheme)" where
  "sys_kill s = with_arg (argint 0 s) (\<lambda>q. as_done (kill q s)) s"

definition sys_sbrk :: "'a proc_state_scheme \<Rightarrow> stop + (i32 run \<times> 'a proc_state_scheme)" where
  "sys_sbrk s =
     with_arg (argint 0 s) (\<lambda>n.
     bindE (myproc s) (\<lambda>me.
     let addr = sz (procs s ! me) in
     bindE (growproc n s) (\<lambda>(r, s). Inr (Done (if sint r < 0 then - 1 else addr), s)))) s"

text \<open>The loop of \<open>sys_sleep\<close>; the comparison is unsigned.\<close>

definition sleep_round :: "u32 \<Rightarrow> i32 \<Rightarrow> 'a proc_state_scheme \<Rightarrow> stop + (i32 run \<times> 'a proc_state_scheme)" where
  "sleep_round ticks0 n s =
     (if ticks s - ticks0 < n then
        bindE (myproc s) (\<lambda>me.
          if killed (procs s ! me) \<noteq> 0 then bindE (release L_tick s) (\<lambda>s. Inr (Done (- 1), s))
          else bindE (sleep_enter ChTicks L_tick s) (\<lambda>s. Inr (Asleep, s)))
      else bindE (release L_tick s) (\<lambda>s. Inr (Done 0, s)))"

definition sys_sleep :: "'a proc_state_scheme \<Rightarrow> stop + (i32 run \<times> 'a proc_state_scheme)" where
  "sys_sleep s =
     with_arg (argint 0 s) (\<lambda>n.
     bindE (acquire L_tick s) (\<lambda>s. sleep_round (ticks s) n s)) s"

definition sys_sleep_resume :: "u32 \<Rightarrow> i32 \<Rightarrow> 'a proc_state_scheme \<Rightarrow> stop + (i32 run \<times> 'a proc_state_scheme)" where
  "sys_sleep_resume ticks0 n s = bindE (sleep_leave L_tick s) (sleep_round ticks0 n)"

definition sys_uptime :: "'a proc_state_scheme \<Rightarrow> stop + (i32 run \<times> 'a proc_state_scheme)" where
  "sys_uptime s =
     bindE (acquire L_tick s) (\<lambda>s.
     let x = ticks s in bindE (release L_tick s) (\<lambda>s. Inr (Done x, s)))"

section \<open>Running a program\<close>

text \<open>Words as they are laid out in memory.\<close>

definition word_bytes :: "u32 \<Rightarrow> bytes" where
  "word_bytes w = map (\<lambda>i. byte_of i w) [0..<4]"

fun load_pages :: "'a fs_state_scheme devsw \<Rightarrow> u32 \<Rightarrow> u32 \<Rightarrow> nat \<Rightarrow> u32 \<Rightarrow> u32 \<Rightarrow> u32 list \<Rightarrow>
    'a fs_state_scheme \<Rightarrow> stop + (i32 \<times> 'a fs_state_scheme)" where
  "load_pages dv pg addr ip off len [] s = Inr (0, s)"
| "load_pages dv pg addr ip off len (i # is) s =
     bindE (walkpgdir pg (addr + i) False s) (\<lambda>(pte, s).
       if pte = 0 then Inl (Panic ''loaduvm: address should exist'')
       else
         let pa = PTE_ADDR (ld32 pte (mem s)); n = (if len - i < PGSIZE then len - i else PGSIZE) in
         bindE (readi dv ip (off + i) n s) (\<lambda>((r, d), s).
         let s = s\<lparr>mem := store_bytes (P2V pa) d (mem s)\<rparr> in
           if r \<noteq> n then Inr (- 1, s) else load_pages dv pg addr ip off len is s))"

definition loaduvm :: "'a fs_state_scheme devsw \<Rightarrow> u32 \<Rightarrow> u32 \<Rightarrow> nat \<Rightarrow> u32 \<Rightarrow> u32 \<Rightarrow>
    'a fs_state_scheme \<Rightarrow> stop + (i32 \<times> 'a fs_state_scheme)" where
  "loaduvm dv pg addr ip off len s =
     (if addr mod PGSIZE \<noteq> 0 then Inl (Panic ''loaduvm: addr must be page aligned'')
      else load_pages dv pg addr ip off len (page_steps 0 len) s)"

text \<open>The loop over the program headers; \<open>None\<close> is the jump to \<open>bad\<close>.\<close>

fun load_segs :: "'a fs_state_scheme devsw \<Rightarrow> nat \<Rightarrow> u32 \<Rightarrow> nat \<Rightarrow> u32 \<Rightarrow> u32 \<Rightarrow>
    'a fs_state_scheme \<Rightarrow> stop + (u32 option \<times> 'a fs_state_scheme)" where
  "load_segs dv ip pg 0 off len s = Inr (Some len, s)"
| "load_segs dv ip pg (Suc n) off len s =
     bindE (readi dv ip off 32 s) (\<lambda>((r, ph), s).
     let vad = get32 ph 8; filesz = get32 ph 16; memsz = get32 ph 20 in
       if r \<noteq> 32 then Inr (None, s)
       else if get32 ph 0 \<noteq> 1 then load_segs dv ip pg n (off + 32) len s
       else if memsz < filesz then Inr (None, s)
       else if vad + memsz < vad then Inr (None, s)
       else
         bindE (allocuvm pg len (vad + memsz) s) (\<lambda>(len, s).
           if len = 0 then Inr (None, s)
           else if vad mod PGSIZE \<noteq> 0 then Inr (None, s)
           else
             bindE (loaduvm dv pg vad ip (get32 ph 4) filesz s) (\<lambda>(r, s).
               if sint r < 0 then Inr (None, s) else load_segs dv ip pg n (off + 32) len s)))"

text \<open>Pushing the argument strings: the stack pointer and the addresses of the strings.\<close>

fun push_args :: "u32 \<Rightarrow> bytes list \<Rightarrow> nat \<Rightarrow> u32 \<Rightarrow> u32 list \<Rightarrow> 'a kmem_state_scheme \<Rightarrow>
    stop + ((u32 \<times> u32 list) option \<times> 'a kmem_state_scheme)" where
  "push_args pg [] argc sp us s = Inr (Some (sp, us), s)"
| "push_args pg (a # as) argc sp us s =
     (if argc \<ge> 32 then Inr (None, s)
      else
        let sp = (sp - (of_nat (length a) + 1)) AND NOT 3 in
        bindE (copyout pg sp (a @ [0]) s) (\<lambda>(r, s).
          if sint r < 0 then Inr (None, s) else push_args pg as (Suc argc) sp (us @ [sp]) s))"

definition last_elem :: "bytes \<Rightarrow> bytes" where
  "last_elem path = rev (takeWhile (\<lambda>c. c \<noteq> slash) (rev path))"

text \<open>The loops at the head of \<open>exec\<close> over the sharing lists.\<close>

definition unshare_all :: "nat \<Rightarrow> 'a proc_state_scheme \<Rightarrow> 'a proc_state_scheme" where
  "unshare_all me s =
     (let s = snd (foldl (unshare_ofile me) (False, s) [0..<NPROC])
      in snd (foldl (unshare_cwd me) (False, s) [0..<NPROC]))"

definition exec_bad :: "u32 \<Rightarrow> nat option \<Rightarrow> 'a fs_state_scheme \<Rightarrow> stop + (i32 \<times> 'a fs_state_scheme)" where
  "exec_bad pg ip s =
     bindE (if pg \<noteq> 0 then freevm pg s else Inr s) (\<lambda>s.
     bindE (case ip of None \<Rightarrow> Inr s | Some i \<Rightarrow> bindE (iunlockput i s) end_op) (\<lambda>s.
     Inr (- 1, s)))"

definition exec :: "'a fs_state_scheme devsw \<Rightarrow> bytes \<Rightarrow> bytes list \<Rightarrow> 'a fs_state_scheme \<Rightarrow>
    stop + (i32 \<times> 'a fs_state_scheme)" where
  "exec dv path argv s =
     bindE (myproc s) (\<lambda>me.
     bindE (begin_op s) (\<lambda>s.
     let s = unshare_all me s in
     bindE (namei path s) (\<lambda>(r, s).
     case r of None \<Rightarrow> bindE (end_op s) (\<lambda>s. Inr (- 1, s))
     | Some ip \<Rightarrow>
       bindE (ilock ip s) (\<lambda>s.
       bindE (readi dv ip 0 52 s) (\<lambda>((r, elf), s).
       if r \<noteq> 52 \<or> get32 elf 0 \<noteq> 0x464C457F then exec_bad 0 (Some ip) s
       else
         bindE (setupkvm s) (\<lambda>(pg, s).
         if pg = 0 then exec_bad 0 (Some ip) s
         else
           bindE (load_segs dv ip pg (unat (get16 elf 44)) (get32 elf 28) 0 s) (\<lambda>(r, s).
           case r of None \<Rightarrow> exec_bad pg (Some ip) s
           | Some len \<Rightarrow>
             bindE (iunlockput ip s) (\<lambda>s.
             bindE (end_op s) (\<lambda>s.
             let len = PGROUNDUP len in
             bindE (allocuvm pg len (len + 2 * PGSIZE) s) (\<lambda>(len, s).
             if len = 0 then exec_bad pg None s
             else
               bindE (clearpteu pg (len - 2 * PGSIZE) s) (\<lambda>s.
               bindE (push_args pg argv 0 len [] s) (\<lambda>(r, s).
               case r of None \<Rightarrow> exec_bad pg None s
               | Some (sp, us) \<Rightarrow>
                 let argc = of_nat (length us);
                     st = [0xffffffff, argc, sp - (argc + 1) * 4] @ us @ [0];
                     sp = sp - (3 + argc + 1) * 4 in
                 bindE (copyout pg sp (concat (map word_bytes st)) s) (\<lambda>(r, s).
                 if sint r < 0 then exec_bad pg None s
                 else
                   let oldpg = pgdir (procs s ! me);
                       s = upd_proc me (\<lambda>p. p\<lparr>pname := safestrcpy (pname p) (arr (last_elem path)) 16,
                             pgdir := pg, sz := len,
                             tf := (tf p)\<lparr>tf_eip := get32 elf 24, tf_esp := sp\<rparr>\<rparr>) s in
                   bindE (switchuvm (Some me) s) (\<lambda>s.
                   bindE (freevm oldpg s) (\<lambda>s. Inr (0, s))))))))))))))))"

end
