(* ===== verification/Xv6_ArgSpec.thy ===== *)
theory Xv6_ArgSpec
  imports Xv6_Syscall Xv6_ProcSpec
begin

text \<open>
  What the argument routines of \<open>syscall.c\<close> promise to the system calls: whatever the user passes,
  an accepted pointer or string lies in the memory of the process.
\<close>

lemma str_scan_Some:
  assumes "str_scan pg va n s = Inr (Some bs)"
  shows "length bs < n \<and> 0 \<notin> set bs \<and> (\<forall>i < length bs. vload pg (va + of_nat i) s = Inr (bs ! i))
    \<and> vload pg (va + of_nat (length bs)) s = Inr 0"
  using assms
proof (induction n arbitrary: va bs)
  case (Suc n)
  obtain b where b: "vload pg va s = Inr b" using Suc.prems by (auto simp: bindE_Inr_iff)
  show ?case
  proof (cases "b = 0")
    case True
    then show ?thesis using Suc.prems b by auto
  next
    case False
    then obtain cs where cs: "str_scan pg (va + 1) n s = Inr (Some cs)" "bs = b # cs"
      using Suc.prems b by (auto simp: bindE_Inr_iff)
    have "vload pg (va + of_nat i) s = Inr (bs ! i)" if "i < length bs" for i
      using Suc.IH [OF cs(1)] cs(2) b that by (cases i) (auto simp: add.assoc)
    then show ?thesis using Suc.IH [OF cs(1)] cs(2) False by (auto simp: add.assoc)
  qed
qed simp

lemma unat_add_le:
  fixes a b c :: u32
  assumes "a < c" and "c \<le> KERNBASE" and "unat b < 2147483648" and "\<not> a + b > c"
  shows "unat a + unat b \<le> unat c"
proof -
  have "unat c \<le> 2147483648" using assms(2) by (simp add: word_le_nat_alt)
  then have "unat a + unat b < 4294967296" using assms(1,3) by (simp add: word_less_nat_alt)
  from unat_add32 [OF this] show ?thesis using assms(4) by (simp add: word_le_nat_alt not_less)
qed

lemma sint_nonneg:
  assumes "0 \<le> sint (w :: i32)"
  shows "nat (sint w) = unat w" and "unat w < 2147483648"
proof -
  have lt: "sint w < 2147483648" using sint_lt [of w] by simp
  have "uint w = sint w" unfolding uint_sint using assms lt by (simp add: take_bit_int_eq_self)
  then show "nat (sint w) = unat w" "unat w < 2147483648" using lt by (simp_all add: unat_eq_nat_uint)
qed

lemma argint_Some:
  assumes "curproc s = Some me" and "sz (procs s ! me) \<le> KERNBASE" and "argint n s = Inr (Some i)"
  shows "unat (tf_esp (tf (procs s ! me)) + 4 + 4 * of_nat n) + 4 \<le> unat (sz (procs s ! me))"
  using assms unat_add_le [of "tf_esp (tf (procs s ! me)) + 4 + 4 * of_nat n" "sz (procs s ! me)" 4]
  by (auto simp: argint_def fetchint_def myproc_def bindE_Inr_iff Let_def not_le split: if_splits)

text \<open>
  C9. Whatever arguments a process passes, the kernel fetches them from below its size, and takes no
  pointer or string that is not wholly there: the bytes from an accepted pointer to its length, and
  the characters of an accepted string up to its NUL, are memory of the process. No sum of an
  address and a length wraps.
\<close>

theorem args_in_process:
  assumes "curproc s = Some me" and "sz (procs s ! me) \<le> KERNBASE"
  shows "(argint n s = Inr (Some i) \<longrightarrow>
      unat (tf_esp (tf (procs s ! me)) + 4 + 4 * of_nat n) + 4 \<le> unat (sz (procs s ! me)))
    \<and> (argptr n len s = Inr (Some p) \<longrightarrow>
      0 \<le> sint len \<and> unat p + nat (sint len) \<le> unat (sz (procs s ! me)))
    \<and> (argstr n s = Inr (Some bs) \<longrightarrow>
      (\<exists>a. argint n s = Inr (Some a) \<and> unat a + length bs < unat (sz (procs s ! me)) \<and> 0 \<notin> set bs
        \<and> (\<forall>k < length bs. vload (pgdir (procs s ! me)) (a + of_nat k) s = Inr (bs ! k))
        \<and> vload (pgdir (procs s ! me)) (a + of_nat (length bs)) s = Inr 0))"
proof (intro conjI impI)
  show "unat (tf_esp (tf (procs s ! me)) + 4 + 4 * of_nat n) + 4 \<le> unat (sz (procs s ! me))"
    if "argint n s = Inr (Some i)"
    using argint_Some [OF assms that] .
next
  assume "argptr n len s = Inr (Some p)"
  then have l: "0 \<le> sint len" "p < sz (procs s ! me)" "\<not> p + len > sz (procs s ! me)"
    using assms(1)
    by (cases "argint n s"; simp add: argptr_def myproc_def Let_def not_le split: option.split_asm if_split_asm)+
  then show "0 \<le> sint len" by simp
  show "unat p + nat (sint len) \<le> unat (sz (procs s ! me))"
    using unat_add_le [OF l(2) assms(2) sint_nonneg(2) [OF l(1)] l(3)] sint_nonneg(1) [OF l(1)] by simp
next
  assume "argstr n s = Inr (Some bs)"
  then obtain a where a: "argint n s = Inr (Some a)" "a < sz (procs s ! me)"
    "str_scan (pgdir (procs s ! me)) a (unat (sz (procs s ! me) - a)) s = Inr (Some bs)"
    using assms(1)
    by (auto simp: argstr_def fetchstr_def myproc_def bindE_Inr_iff Let_def not_le split: option.splits if_splits)
  have "unat (sz (procs s ! me) - a) = unat (sz (procs s ! me)) - unat a"
    using a(2) by (intro unat_sub32) simp
  moreover have "unat a < unat (sz (procs s ! me))" using a(2) by (simp add: word_less_nat_alt)
  ultimately show "\<exists>a. argint n s = Inr (Some a) \<and> unat a + length bs < unat (sz (procs s ! me)) \<and> 0 \<notin> set bs
      \<and> (\<forall>k < length bs. vload (pgdir (procs s ! me)) (a + of_nat k) s = Inr (bs ! k))
      \<and> vload (pgdir (procs s ! me)) (a + of_nat (length bs)) s = Inr 0"
    using a(1) str_scan_Some [OF a(3)] by (intro exI [of _ a]) auto
qed

text \<open>A process all of whose pages are one frame full of 7s: it passes the address 0x07070707.\<close>

definition sevens :: proc_state where
  "sevens = (machine0 [proc0\<lparr>state := RUNNING, pid := 1, pgdir := 0x80002000, sz := 0x10000000\<rparr>] (Some 0))
     \<lparr>mem := (\<lambda>_. 7)\<rparr>"

lemma args_in_process_witness:
  "argptr 0 4 sevens = Inr (Some 0x07070707)
   \<and> unat (0x07070707 :: u32) + nat (sint (4 :: i32)) \<le> unat (sz (procs sevens ! 0))"
proof -
  have v: "vaddr (\<lambda>_. 7) pg va = Some (P2V 0x07070000 + (va AND 0xFFF))" for pg va
    by (simp add: vaddr_def pte_of_def tab_def ld32_def le32_def PTE_ADDR_def Let_def)
  have p: "sz (procs sevens ! 0) = 0x10000000" "tf_esp (tf (procs sevens ! 0)) = 0"
    "mem sevens = (\<lambda>_. 7)" and c: "curproc sevens = Some 0"
    by (simp_all add: sevens_def machine0_def proc0_def tf0_def)
  have "vload pg va sevens = Inr 7" for pg va by (simp add: vload_def v p)
  then have "vloads pg va (Suc (Suc (Suc (Suc 0)))) sevens = Inr [7, 7, 7, 7]" for pg va by simp
  then have l: "vloads pg va 4 sevens = Inr [7, 7, 7, 7]" for pg va by (simp add: numeral_eq_Suc)
  have "argint 0 sevens = Inr (Some 0x07070707)"
    by (simp add: argint_def fetchint_def myproc_def p c l Let_def get32_def le32_def)
  then have "argptr 0 4 sevens = Inr (Some 0x07070707)"
    by (simp add: argptr_def myproc_def p c)
  moreover have "sz (procs sevens ! 0) \<le> KERNBASE" by (simp add: p)
  ultimately show ?thesis using c args_in_process [of sevens 0 0 0 4 "0x07070707" "[]"] by blast
qed

end
