(* ===== verification/Xv6_ForkSpec.thy ===== *)
theory Xv6_ForkSpec
  imports Xv6_Fork Xv6_ProcSpec
begin

text \<open>
  What the calls that make, end and wait for processes keep of the process table: every pointer in a
  slot points into the table it is meant for, and the arrays keep their length. And what \<open>clone\<close>
  records of a thread that shares the files of its caller.
\<close>

section \<open>The types of the slots\<close>

definition ptr_ok :: "nat \<Rightarrow> nat option \<Rightarrow> bool" where
  "ptr_ok n q = (case q of None \<Rightarrow> True | Some i \<Rightarrow> i < n)"

text \<open>
  A slot: its pointers into the file table, the inode cache and the process table, its arrays. Nothing is
  said of \<open>joinproc\<close>: \<open>join\<close> stores an uninitialised variable there, and the kernel only compares it.
\<close>

definition proc_ok :: "proc \<Rightarrow> bool" where
  "proc_ok p \<longleftrightarrow>
     length (ofile p) = NOFILE \<and> list_all (ptr_ok NFILE) (ofile p) \<and> ptr_ok NINODE (cwd p) \<and> length (pname p) = 16
     \<and> ptr_ok NPROC (parent p) \<and> ptr_ok NPROC (threadparent p)
     \<and> length (ofileshare p) = NPROC \<and> list_all (ptr_ok NPROC) (ofileshare p)
     \<and> length (cwdshare p) = NPROC \<and> list_all (ptr_ok NPROC) (cwdshare p)"

definition typed :: "'a proc_state_scheme \<Rightarrow> bool" where
  "typed s \<longleftrightarrow> length (procs s) = NPROC \<and> list_all (proc_ok) (procs s)
     \<and> ptr_ok NPROC (curproc s) \<and> ptr_ok NPROC (initproc s)"

definition file_ok :: "kfile \<Rightarrow> bool" where
  "file_ok x \<longleftrightarrow> (ftype x = FD_INODE \<longrightarrow> fip x < NINODE)"

definition file_typed :: "'a file_state_scheme \<Rightarrow> bool" where
  "file_typed s \<longleftrightarrow> typed s \<and> length (files s) = NFILE \<and> list_all file_ok (files s) \<and> length (inodes s) = NINODE"

lemma ptr_ok_simps [simp]: "ptr_ok n None" "ptr_ok n (Some i) = (i < n)"
  by (simp_all add: ptr_ok_def)

lemma list_all_update: "list_all P xs \<Longrightarrow> P x \<Longrightarrow> list_all P (xs[i := x])"
  by (auto simp: list_all_iff dest!: set_update_subset_insert [THEN subsetD])

lemma list_all_nthD: "list_all P xs \<Longrightarrow> i < length xs \<Longrightarrow> P (xs ! i)"
  by (simp add: list_all_length)

text \<open>Only the pointers and the arrays matter.\<close>

lemma proc_ok_scalar [simp]:
  "proc_ok (sz_update f1 p) = proc_ok p" "proc_ok (pgdir_update f2 p) = proc_ok p"
  "proc_ok (kstack_update f3 p) = proc_ok p" "proc_ok (state_update f4 p) = proc_ok p"
  "proc_ok (pid_update f5 p) = proc_ok p" "proc_ok (tf_update f6 p) = proc_ok p"
  "proc_ok (ctx_update f7 p) = proc_ok p" "proc_ok (chan_update f8 p) = proc_ok p"
  "proc_ok (killed_update f9 p) = proc_ok p" "proc_ok (isthread_update f10 p) = proc_ok p"
  "proc_ok (ustack_update f11 p) = proc_ok p" "proc_ok (tid_update f12 p) = proc_ok p"
  "proc_ok (clone_files_update f13 p) = proc_ok p" "proc_ok (clone_fs_update f14 p) = proc_ok p"
  "proc_ok (clone_parent_update f15 p) = proc_ok p" "proc_ok (clone_vm_update f16 p) = proc_ok p"
  "proc_ok (clone_thread_update f17 p) = proc_ok p" "proc_ok (joinproc_update f18 p) = proc_ok p"
  by (simp_all add: proc_ok_def)

lemma proc_ok_pointer [simp]:
  "proc_ok p \<Longrightarrow> ptr_ok NPROC (g (parent p)) \<Longrightarrow> proc_ok (parent_update g p)"
  "proc_ok p \<Longrightarrow> ptr_ok NPROC (g (threadparent p)) \<Longrightarrow> proc_ok (threadparent_update g p)"
  "proc_ok p \<Longrightarrow> ptr_ok NINODE (g (cwd p)) \<Longrightarrow> proc_ok (cwd_update g p)"
  "proc_ok p \<Longrightarrow> length (h (pname p)) = length (pname p) \<Longrightarrow> proc_ok (pname_update h p)"
  by (simp_all add: proc_ok_def)

lemma typed_slot: "typed s \<Longrightarrow> i < NPROC \<Longrightarrow> proc_ok (procs s ! i)"
  by (simp add: typed_def list_all_length)

lemma typed_upd:
  assumes "typed s" and "i < NPROC \<Longrightarrow> proc_ok (procs s ! i) \<Longrightarrow> proc_ok (f (procs s ! i))"
  shows "typed (upd_proc i f s)"
proof (cases "i < NPROC")
  case True
  then show ?thesis using assms typed_slot [OF assms(1) True]
    by (simp add: typed_def list_all_update upd_proc_def)
next
  case False
  then have "(procs s)[i := f (procs s ! i)] = procs s"
    using assms(1) by (intro list_update_beyond) (simp add: typed_def)
  then have "upd_proc i f s = s" by (simp add: upd_proc_def)
  then show ?thesis using assms(1) by simp
qed

lemma typed_map:
  assumes "typed s" and "\<And>p. proc_ok p \<Longrightarrow> proc_ok (f p)"
  shows "typed (s\<lparr>procs := map f (procs s)\<rparr>)"
  using assms by (simp add: typed_def list_all_length)

lemma typed_simps [simp]:
  "typed (s\<lparr>held := h\<rparr>) = typed s" "typed (s\<lparr>mem := m\<rparr>) = typed s"
  "typed (s\<lparr>nextpid := n\<rparr>) = typed s"
  by (simp_all add: typed_def)

lemma typed_memory: "typed s \<Longrightarrow> only_memory s t \<Longrightarrow> typed t"
  by (simp add: typed_def only_memory_proc_fields)

lemma file_typed_D: "file_typed s \<Longrightarrow> typed s"
  by (simp add: file_typed_def)

lemma upd_proc_files [simp]:
  "files (upd_proc i f s) = files s" "inodes (upd_proc i f s) = inodes s" "initproc (upd_proc i f s) = initproc s"
  by (simp_all add: upd_proc_def)

lemma only_memory_files:
  assumes "only_memory s t"
  shows "files t = files s" and "inodes t = inodes s"
  using assms by (cases s; cases t; simp add: only_memory_def)+

lemma file_typed_memory: "file_typed s \<Longrightarrow> only_memory s t \<Longrightarrow> file_typed t"
  by (auto simp: file_typed_def only_memory_files intro: typed_memory)

lemma file_typed_upd:
  "file_typed s \<Longrightarrow> (i < NPROC \<Longrightarrow> proc_ok (procs s ! i) \<Longrightarrow> proc_ok (f (procs s ! i))) \<Longrightarrow>
    file_typed (upd_proc i f s)"
  by (simp add: file_typed_def typed_upd)

lemma acquire_inv: "(\<And>h. I (s\<lparr>held := h\<rparr>)) \<Longrightarrow> (\<And>t. I t \<Longrightarrow> Q t) \<Longrightarrow> wp (acquire l s) Q"
  by (simp add: acquire_def)

lemma release_inv: "(\<And>h. I (s\<lparr>held := h\<rparr>)) \<Longrightarrow> (\<And>t. I t \<Longrightarrow> Q t) \<Longrightarrow> wp (release l s) Q"
  by (simp add: release_def)

lemma myproc_wp: "(\<And>me. curproc s = Some me \<Longrightarrow> Q me) \<Longrightarrow> wp (myproc s) Q"
  by (simp add: myproc_def wp_option)

lemma typed_me: "typed s \<Longrightarrow> curproc s = Some me \<Longrightarrow> me < NPROC"
  by (simp add: typed_def)

lemma length_safe_copy: "length (safe_copy s i t n) = length s"
  by (induction s i t n rule: safe_copy.induct) (simp_all add: Let_def)

lemma length_safestrcpy [simp]: "length (safestrcpy s t n) = length s"
  by (simp add: safestrcpy_def length_safe_copy)

lemma find_slot_bound: "find_slot P (procs s) = Some i \<Longrightarrow> typed s \<Longrightarrow> i < NPROC"
  by (auto simp: typed_def dest: find_slot_length)

lemma wp_mono: "wp m P \<Longrightarrow> (\<And>x. P x \<Longrightarrow> Q x) \<Longrightarrow> wp m Q"
  by (simp add: wp_def)

section \<open>The calls on the process table\<close>

lemma mark_ok [simp]: "proc_ok (mark_killed p) = proc_ok p"
  by (simp add: mark_killed_def proc_ok_def)

lemma wake_ok [simp]: "proc_ok (wake ch p) = proc_ok p"
  by (simp add: wake_def proc_ok_def)

lemma file_memory_wp:
  assumes "file_typed s"
  shows "(\<And>t. file_typed t \<Longrightarrow> Q t) \<Longrightarrow> wp (kfree v s) Q"
    and "(\<And>t. file_typed t \<Longrightarrow> Q t) \<Longrightarrow> wp (freevm v s) Q"
    and "(\<And>r t. file_typed t \<Longrightarrow> R (r, t)) \<Longrightarrow> wp (kalloc s) R"
    and "(\<And>r t. file_typed t \<Longrightarrow> R (r, t)) \<Longrightarrow> wp (copyuvm pg n s) R"
    and "(\<And>r t. file_typed t \<Longrightarrow> T (r, t)) \<Longrightarrow> wp (copyout pg va bs s) T"
  using file_typed_memory [OF assms]
  by (auto intro!: kfree_wp [OF only_memory_refl] freevm_wp [OF only_memory_refl] kalloc_wp [OF only_memory_refl]
      copyuvm_wp [OF only_memory_refl] copyout_wp [OF only_memory_refl])

lemma file_typed_simps [simp]:
  "file_typed (s\<lparr>held := h\<rparr>) = file_typed s" "file_typed (s\<lparr>mem := m\<rparr>) = file_typed s"
  "file_typed (s\<lparr>nextpid := n\<rparr>) = file_typed s"
  "file_typed (upd_inode i k s) = file_typed s"
  by (simp_all add: file_typed_def typed_def upd_inode_def)

lemma file_typed_upd_file:
  assumes "file_typed s" and "file_ok (files s ! i) \<Longrightarrow> file_ok (g (files s ! i))"
  shows "file_typed (upd_file i g s)"
proof (cases "i < NFILE")
  case True
  then show ?thesis using assms by (auto simp: file_typed_def typed_def upd_file_def list_all_length nth_list_update)
next
  case False
  then have "(files s)[i := g (files s ! i)] = files s"
    using assms(1) by (intro list_update_beyond) (simp add: file_typed_def)
  then show ?thesis using assms(1) by (simp add: upd_file_def)
qed

lemma file_ok_scalar [simp]:
  "file_ok (fref_update f1 x) = file_ok x" "file_ok (foff_update f2 x) = file_ok x"
  "file_ok (readable_update f3 x) = file_ok x" "file_ok (writable_update f4 x) = file_ok x"
  "file_ok (fpipe_update f5 x) = file_ok x"
  by (simp_all add: file_ok_def)

lemma file_typed_map:
  "file_typed s \<Longrightarrow> (\<And>p. proc_ok p \<Longrightarrow> proc_ok (f p)) \<Longrightarrow> file_typed (s\<lparr>procs := map f (procs s)\<rparr>)"
  by (simp add: file_typed_def typed_map)

lemma wakeup1_typed: "file_typed s \<Longrightarrow> file_typed (wakeup1 ch s)"
  by (simp add: wakeup1_def file_typed_map)

lemma kill_threads_typed: "file_typed s \<Longrightarrow> file_typed (kill_threads i s)"
  by (simp add: kill_threads_def file_typed_map)

lemma file_typed_me: "curproc s = Some me \<Longrightarrow> file_typed s \<Longrightarrow> me < NPROC"
  by (blast dest: typed_me file_typed_D)

lemma myproc_typed: "file_typed s \<Longrightarrow> (\<And>me. me < NPROC \<Longrightarrow> Q me) \<Longrightarrow> wp (myproc s) Q"
  by (rule myproc_wp) (blast dest: file_typed_me)

lemmas file_wp = myproc_typed wp_bind wp_if wp_option acquire_inv [where I = "file_typed"]
  release_inv [where I = "file_typed"] file_memory_wp file_typed_upd
  wakeup1_typed kill_threads_typed

lemma file_typed_slot: "find_slot P (procs s) = Some i \<Longrightarrow> file_typed s \<Longrightarrow> i < NPROC"
  by (rule find_slot_bound [OF _ file_typed_D])

lemma file_typed_proc: "file_typed s \<Longrightarrow> i < NPROC \<Longrightarrow> proc_ok (procs s ! i)"
  by (blast dest: typed_slot file_typed_D)

lemma file_typed_ptrs [simp]:
  "file_typed s \<Longrightarrow> i < NPROC \<Longrightarrow> ptr_ok NPROC (parent (procs s ! i))"
  "file_typed s \<Longrightarrow> i < NPROC \<Longrightarrow> ptr_ok NINODE (cwd (procs s ! i))"
  by (auto dest: file_typed_proc simp: proc_ok_def)

lemma file_typed_parent: "parent (procs s ! i) = Some q \<Longrightarrow> file_typed s \<Longrightarrow> i < NPROC \<Longrightarrow> q < NPROC"
  using file_typed_ptrs(1) [of s i] by simp

lemma allocproc_typed:
  "file_typed s \<Longrightarrow> wp (allocproc s) (\<lambda>(r, t). file_typed t \<and> ptr_ok NPROC r)"
  unfolding allocproc_def Let_def
  by (auto intro!: file_wp) (erule (1) file_typed_slot)

lemma reap_child_typed: "file_typed s \<Longrightarrow> wp (reap_child i s) file_typed"
  unfolding reap_child_def Let_def by (auto intro!: file_wp)

lemma reap_thread_typed: "file_typed s \<Longrightarrow> wp (reap_thread i s) file_typed"
  unfolding reap_thread_def Let_def by (auto intro!: file_wp)

lemma wait_scan_typed: "file_typed s \<Longrightarrow> wp (wait_scan me is kids s) (\<lambda>(r, t). file_typed t)"
  by (induction "is" arbitrary: kids s)
    (auto simp: Let_def intro!: file_wp wp_mono [OF reap_child_typed])

lemma join_scan_typed:
  "file_typed s \<Longrightarrow> wp (join_scan me i is kids g s) (\<lambda>(r, t). file_typed t)"
  by (induction "is" arbitrary: kids g s)
    (auto simp: Let_def intro!: file_wp wp_mono [OF reap_thread_typed])

lemma sched_typed: "file_typed s \<Longrightarrow> wp (sched s) file_typed"
  unfolding sched_def by (auto intro!: file_wp)

lemma sleep_enter_typed: "file_typed s \<Longrightarrow> wp (sleep_enter ch lk s) file_typed"
  unfolding sleep_enter_def
  by (auto intro!: file_wp sched_typed)

lemma wait_typed: "file_typed s \<Longrightarrow> wp (wait s) (\<lambda>(r, t). file_typed t)"
  unfolding wait_def wait_round_def
  by (auto intro!: file_wp wp_mono [OF wait_scan_typed] wp_mono [OF sleep_enter_typed])

lemma join_typed:
  "file_typed s \<Longrightarrow> wp (join i g s) (\<lambda>(r, t). file_typed t)"
  unfolding join_def join_round_def Let_def
  by (auto intro!: file_wp wp_mono [OF join_scan_typed] wp_mono [OF sleep_enter_typed])

lemma tkill_typed: "file_typed s \<Longrightarrow> wp (tkill i s) (\<lambda>(r, t). file_typed t)"
  unfolding tkill_def by (auto intro!: file_wp)

lemma kill_typed: "file_typed s \<Longrightarrow> wp (kill i s) (\<lambda>(r, t). file_typed t)"
  unfolding kill_def Let_def by (auto intro!: file_wp)

section \<open>Making processes\<close>

lemma drop_embryo_typed: "file_typed s \<Longrightarrow> wp (drop_embryo np s) file_typed"
  unfolding drop_embryo_def by (auto intro!: file_wp)

lemma start_proc_typed: "file_typed s \<Longrightarrow> wp (start_proc np s) file_typed"
  unfolding start_proc_def by (auto intro!: file_wp)

lemma filedup_typed: "file_typed s \<Longrightarrow> wp (filedup f s) file_typed"
  unfolding filedup_def by (auto intro!: file_wp file_typed_upd_file)

lemma idup_typed:
  "file_typed s \<Longrightarrow> ptr_ok NINODE d \<Longrightarrow> wp (idup d s) (\<lambda>(r, t). file_typed t \<and> ptr_ok NINODE r)"
  unfolding idup_def by (auto intro!: file_wp)

lemma proc_ok_fd:
  "proc_ok p \<Longrightarrow> i < NOFILE \<Longrightarrow> ofile p ! i = Some f \<Longrightarrow> f < NFILE"
  by (metis list_all_nthD proc_ok_def ptr_ok_simps(2))

lemma proc_ok_set_fd: "proc_ok p \<Longrightarrow> f < NFILE \<Longrightarrow> proc_ok (ofile_update (\<lambda>fs. fs[i := Some f]) p)"
  by (simp add: proc_ok_def list_all_update)

lemma file_typed_fd:
  "ofile (procs s ! me) ! i = Some f \<Longrightarrow> file_typed s \<Longrightarrow> me < NPROC \<Longrightarrow> i < NOFILE \<Longrightarrow> f < NFILE"
  by (rule proc_ok_fd [OF file_typed_proc])

lemma dup_fd_typed:
  "file_typed s \<Longrightarrow> me < NPROC \<Longrightarrow> i < NOFILE \<Longrightarrow> wp (dup_fd me np i s) file_typed"
  unfolding dup_fd_def
  by (auto intro!: file_wp wp_mono [OF filedup_typed] proc_ok_set_fd dest: file_typed_fd)

lemma dup_fds_typed:
  "file_typed s \<Longrightarrow> me < NPROC \<Longrightarrow> wp (forE (dup_fd me np) [0..<NOFILE] s) file_typed"
  by (rule wp_forE [where I = file_typed]) (auto intro: dup_fd_typed)

lemma share_fd_typed:
  "file_typed s \<Longrightarrow> me < NPROC \<Longrightarrow> i < NOFILE \<Longrightarrow> file_typed (share_fd me np i s)"
  unfolding share_fd_def
  by (auto split: option.split intro!: file_typed_upd proc_ok_set_fd dest: file_typed_fd)

lemma foldl_inv: "P s \<Longrightarrow> (\<And>x u. x \<in> set xs \<Longrightarrow> P u \<Longrightarrow> P (f u x)) \<Longrightarrow> P (foldl f s xs)"
  by (induction xs arbitrary: s) auto

lemma share_fds_typed:
  "file_typed s \<Longrightarrow> me < NPROC \<Longrightarrow> file_typed (foldl (\<lambda>s i. share_fd me np i s) s [0..<NOFILE])"
  by (rule foldl_inv [where P = file_typed]) (auto intro: share_fd_typed)

lemma proc_ok_share:
  "proc_ok p \<Longrightarrow> q < NPROC \<Longrightarrow> proc_ok (ofileshare_update (fill_share q) p)"
  "proc_ok p \<Longrightarrow> q < NPROC \<Longrightarrow> proc_ok (cwdshare_update (fill_share q) p)"
  by (auto simp: proc_ok_def fill_share_def list_all_length split: option.split)

lemma clone_parent_typed:
  "file_typed s \<Longrightarrow> me < NPROC \<Longrightarrow> wp (clone_parent_of b me s) (ptr_ok NPROC)"
  unfolding clone_parent_of_def Let_def
  by (auto intro!: wp_if wp_option dest: file_typed_parent)

text \<open>Of the values the code names on its way only the states matter here.\<close>

lemma wp_let_state: "file_typed v \<Longrightarrow> (\<And>s. file_typed s \<Longrightarrow> wp (f s) Q) \<Longrightarrow> wp (let s = v in f s) Q"
  by (simp add: Let_def)

lemma wp_let_word: "(\<And>x. wp (f x) Q) \<Longrightarrow> wp (let x = (v :: 'w::len word) in f x) Q"
  by (simp add: Let_def)

lemma wp_let_proc: "(\<And>x. wp (f x) Q) \<Longrightarrow> wp (let x = (v :: proc) in f x) Q"
  by (simp add: Let_def)

lemmas fork_wp = file_wp wp_let_state wp_let_word wp_let_proc wp_mono [OF allocproc_typed]
  wp_mono [OF drop_embryo_typed] wp_mono [OF dup_fds_typed] wp_mono [OF idup_typed]
  wp_mono [OF start_proc_typed] wp_mono [OF clone_parent_typed] share_fds_typed proc_ok_share

declare share_fds_typed [simp]

lemma fork_typed: "file_typed s \<Longrightarrow> wp (fork s) (\<lambda>(r, t). file_typed t)"
  unfolding fork_def by (auto intro!: fork_wp simp del: upd_proc_simps)

lemma clone_flags_ok [simp]: "proc_ok (clone_flags w p) = proc_ok p"
  by (simp add: clone_flags_def)

lemma clone_typed: "file_typed s \<Longrightarrow> wp (clone f st fl a s) (\<lambda>(r, t). file_typed t)"
  unfolding clone_def by (auto intro!: fork_wp simp del: upd_proc_simps)

section \<open>Exit\<close>

lemma file_typed_init [simp]: "file_typed s \<Longrightarrow> ptr_ok NPROC (initproc s)"
  by (simp add: file_typed_def typed_def)

lemma wake_proc_typed: "file_typed s \<Longrightarrow> file_typed (wake_proc q s)"
  by (simp add: wake_proc_def wakeup1_typed split: option.split)

lemma reparent_typed: "file_typed s \<Longrightarrow> file_typed (reparent me s i)"
  by (auto simp: reparent_def Let_def intro!: wake_proc_typed file_typed_upd)

lemma wake_joiner_typed: "file_typed (snd bs) \<Longrightarrow> file_typed (snd (wake_joiner me bs i))"
  by (auto simp: wake_joiner_def proc_ok_def intro!: wakeup1_typed file_typed_upd split: prod.split)

lemma exit_notify_typed:
  assumes "file_typed s" shows "file_typed (exit_notify me s)"
proof -
  have "file_typed (foldl (reparent me) s [0..<NPROC])"
    using assms by (rule foldl_inv) (rule reparent_typed)
  moreover have "file_typed (snd (foldl (wake_joiner me) (False, s) [0..<NPROC]))"
    using assms by (intro foldl_inv [where P = "\<lambda>bs. file_typed (snd bs)"]) (simp_all add: wake_joiner_typed)
  ultimately show ?thesis
    unfolding exit_notify_def Let_def
    by (auto intro!: kill_threads_typed wake_proc_typed split: prod.split simp: split_beta)
qed

section \<open>The table under any sequence of calls\<close>

text \<open>
  What the kernel does to the process table, in any order: the scheduler and the process it runs.
  \<open>exit\<close> stands here with what it does once it has locked the table.
\<close>

inductive pstep :: "'a file_state_scheme \<Rightarrow> 'a file_state_scheme \<Rightarrow> bool" where
  Pfork: "fork s = Inr (r, t) \<Longrightarrow> pstep s t"
| Pclone: "clone f st fl a s = Inr (r, t) \<Longrightarrow> pstep s t"
| Pwait: "wait s = Inr (r, t) \<Longrightarrow> pstep s t"
| Pwait_resume: "wait_resume s = Inr (r, t) \<Longrightarrow> pstep s t"
| Pjoin: "join i g s = Inr (r, t) \<Longrightarrow> pstep s t"
| Pjoin_resume: "join_resume i g s = Inr (r, t) \<Longrightarrow> pstep s t"
| Pkill: "kill i s = Inr (r, t) \<Longrightarrow> pstep s t"
| Ptkill: "tkill i s = Inr (r, t) \<Longrightarrow> pstep s t"
| Pexit: "curproc s = Some me \<Longrightarrow> pstep s (upd_proc me (state_update (\<lambda>_. ZOMBIE)) (exit_notify me s))"
| Pyield: "yield_enter s = Inr t \<Longrightarrow> pstep s t"
| Psleep: "sleep_enter ch lk s = Inr t \<Longrightarrow> pstep s t"
| Pwakeup: "wakeup ch s = Inr t \<Longrightarrow> pstep s t"
| Prun: "i < NPROC \<Longrightarrow> scheduler_enter i s = Inr t \<Longrightarrow> pstep s t"
| Pleave: "pstep s (scheduler_leave s)"

lemma wait_resume_typed: "file_typed s \<Longrightarrow> wp (wait_resume s) (\<lambda>(r, t). file_typed t)"
  unfolding wait_resume_def sleep_leave_def wait_round_def Let_def
  by (auto intro!: file_wp wp_mono [OF wait_scan_typed] wp_mono [OF sleep_enter_typed])

lemma join_resume_typed:
  "file_typed s \<Longrightarrow> wp (join_resume i g s) (\<lambda>(r, t). file_typed t)"
  unfolding join_resume_def sleep_leave_def join_round_def Let_def
  by (auto intro!: file_wp wp_mono [OF join_scan_typed] wp_mono [OF sleep_enter_typed])

lemma yield_typed: "file_typed s \<Longrightarrow> wp (yield_enter s) file_typed"
  unfolding yield_enter_def by (auto intro!: file_wp wp_mono [OF sched_typed])

lemma wakeup_typed: "file_typed s \<Longrightarrow> wp (wakeup ch s) file_typed"
  unfolding wakeup_def by (auto intro!: file_wp)

lemma switch_typed:
  "file_typed s \<Longrightarrow> i < NPROC \<Longrightarrow> wp (scheduler_enter i s) file_typed"
  "file_typed s \<Longrightarrow> file_typed (scheduler_leave s)"
  unfolding scheduler_enter_def scheduler_leave_def switchuvm_def switchkvm_def Let_def
  by (auto simp: panic_unless_def file_typed_def typed_def intro!: file_wp list_all_update dest: list_all_nthD)

lemma pstep_typed: "pstep s t \<Longrightarrow> file_typed s \<Longrightarrow> file_typed t"
proof (induction rule: pstep.induct)
  case (Pexit s me)
  then show ?case by (auto intro!: file_typed_upd exit_notify_typed)
qed (auto dest: wpD [OF fork_typed] wpD [OF clone_typed] wpD [OF wait_typed] wpD [OF wait_resume_typed]
    wpD [OF join_typed] wpD [OF join_resume_typed] wpD [OF kill_typed] wpD [OF tkill_typed]
    wpD [OF yield_typed] wpD [OF sleep_enter_typed] wpD [OF wakeup_typed] wpD [OF switch_typed(1)]
    intro: switch_typed(2))

section \<open>What clone records of a thread that shares\<close>

text \<open>What is followed through \<open>clone\<close>: the list of the caller and the flags of the new slot.\<close>

definition sharing :: "nat \<Rightarrow> nat \<Rightarrow> nat option list \<Rightarrow> procstate \<Rightarrow> i32 \<Rightarrow> 'a file_state_scheme \<Rightarrow> bool" where
  "sharing me np xs st w s \<longleftrightarrow> np < NPROC \<and> me \<noteq> np \<and> length (procs s) = NPROC \<and> curproc s = Some me \<and>
     ofileshare (procs s ! me) = xs \<and> state (procs s ! me) = st \<and> clone_files (procs s ! np) = flag w 0"

lemma sharing_simps [simp]:
  "sharing me np xs st w (s\<lparr>held := h\<rparr>) = sharing me np xs st w s"
  "sharing me np xs st w (upd_file i g s) = sharing me np xs st w s"
  "sharing me np xs st w (upd_inode i k s) = sharing me np xs st w s"
  by (simp_all add: sharing_def upd_file_def upd_inode_def)

lemma sharing_memory:
  "sharing me np xs st w s \<Longrightarrow> only_memory s t \<Longrightarrow> sharing me np xs st w t"
  by (simp add: sharing_def only_memory_proc_fields)

lemma sharing_upd:
  assumes "sharing me np xs st w s" and "\<And>p. clone_files (f p) = clone_files p"
  shows "sharing me np xs st w (upd_proc np f s)"
  using assms by (auto simp: sharing_def)

lemma sharing_memory_wp:
  assumes "sharing me np xs st w s"
  shows "(\<And>t. sharing me np xs st w t \<Longrightarrow> Q t) \<Longrightarrow> wp (kfree v s) Q"
    and "(\<And>r t. sharing me np xs st w t \<Longrightarrow> R (r, t)) \<Longrightarrow> wp (copyuvm pg n s) R"
    and "(\<And>r t. sharing me np xs st w t \<Longrightarrow> T (r, t)) \<Longrightarrow> wp (copyout pg va bs s) T"
  using sharing_memory [OF assms]
  by (auto intro!: kfree_wp [OF only_memory_refl] copyuvm_wp [OF only_memory_refl] copyout_wp [OF only_memory_refl])

lemma dup_fds_sharing:
  assumes "sharing me np xs st w s"
  shows "wp (forE (dup_fd me np) [0..<NOFILE] s) (sharing me np xs st w)"
proof (rule wp_forE [where I = "sharing me np xs st w"])
  fix i u
  assume "sharing me np xs st w u"
  then show "wp (dup_fd me np i u) (sharing me np xs st w)"
    by (auto simp: dup_fd_def filedup_def acquire_def release_def intro!: wp_bind wp_if wp_option sharing_upd)
qed (use assms in auto)

lemma share_fds_sharing:
  assumes "sharing me np xs st w s"
  shows "sharing me np xs st w (foldl (\<lambda>s i. share_fd me np i s) s [0..<NOFILE])"
  using assms
  by (rule foldl_inv) (auto simp: share_fd_def intro!: sharing_upd split: option.split)

lemma idup_sharing: "sharing me np xs st w s \<Longrightarrow> wp (idup d s) (\<lambda>(r, t). sharing me np xs st w t)"
  by (auto simp: idup_def acquire_def release_def intro!: wp_bind wp_if wp_option)

lemma start_proc_sharing:
  "sharing me np xs st w s \<Longrightarrow>
   wp (start_proc np s) (\<lambda>t. sharing me np xs st w t \<and> tid (procs t ! np) = tid (procs s ! np))"
  by (auto simp: start_proc_def acquire_def release_def sharing_def intro!: wp_bind wp_if)

lemma fill_share_idem:
  assumes "None \<notin> set xs" shows "fill_share q xs = xs"
  unfolding fill_share_def
proof (rule map_idI)
  fix x
  assume "x \<in> set xs"
  then show "(case x of None \<Rightarrow> Some q | Some _ \<Rightarrow> x) = x" using assms by (metis (no_types, lifting) option.case_eq_if)
qed

lemma fill_share_full: "None \<notin> set (fill_share q xs)"
  by (auto simp: fill_share_def split: option.splits)

lemma sharing_fill:
  "sharing me np xs st w s \<Longrightarrow> me < NPROC \<Longrightarrow>
   sharing me np (fill_share np xs) st w (upd_proc me (ofileshare_update (fill_share np)) s)"
  by (auto simp: sharing_def)

lemma sharing_cwd:
  "sharing me np xs st w s \<Longrightarrow> me < NPROC \<Longrightarrow>
   sharing me np xs st w (upd_proc me (cwdshare_update (fill_share np)) s)"
  by (auto simp: sharing_def)

lemma sharing_start:
  assumes "curproc s = Some me" and "length (procs s) = NPROC" and "np < NPROC" and "me \<noteq> np"
  shows "sharing me np (ofileshare (procs s ! me)) (state (procs s ! me)) w (upd_proc np (clone_flags w) s)"
  using assms by (auto simp: sharing_def clone_flags_def)

lemma only_memory_slots: "only_memory s t \<Longrightarrow> procs t = procs s \<and> curproc t = curproc s"
  by (simp add: only_memory_proc_fields)

lemma allocproc_slot:
  "wp (allocproc s) (\<lambda>(r, t). \<forall>np. r = Some np \<longrightarrow> np < length (procs s) \<and> state (procs s ! np) = UNUSED
     \<and> length (procs t) = length (procs s) \<and> curproc t = curproc s \<and> (\<forall>j. j \<noteq> np \<longrightarrow> procs t ! j = procs s ! j))"
  unfolding allocproc_def Let_def acquire_def release_def
  by (auto dest!: only_memory_slots find_slot_Some [THEN iffD1]
      intro!: wp_bind wp_if wp_option kalloc_wp [OF only_memory_refl])

text \<open>The run of \<open>clone\<close>, with \<open>xs\<close> the list of the caller before and \<open>ys\<close> after it.\<close>

lemma wp_let_inv: "I v \<Longrightarrow> (\<And>s. I s \<Longrightarrow> wp (f s) Q) \<Longrightarrow> wp (let s = v in f s) Q"
  by (simp add: Let_def)

lemma clone_sharing:
  fixes s :: "'a file_state_scheme"
  assumes "curproc s = Some me" and "length (procs s) = NPROC" and "me < NPROC"
    and "state (procs s ! me) \<noteq> UNUSED"
  defines "xs \<equiv> ofileshare (procs s ! me)" and "st \<equiv> state (procs s ! me)"
  shows "wp (clone f sp w a s) (\<lambda>(r, t). r \<noteq> - 1 \<longrightarrow> (\<exists>np. state (procs s ! np) = UNUSED
    \<and> tid (procs t ! np) = r \<and> sharing me np (if flag w 0 = 1 then fill_share np xs else xs) st w t))"
proof -
  let ?I = "\<lambda>np zs. sharing me np zs st w"
  let ?post = "\<lambda>zs np (r, t). r \<noteq> - 1 \<longrightarrow> tid (procs t ! np) = r \<and> ?I np zs t"
  have tail: "wp (bindE (if clone_fs (procs u ! np) = 1 then
                    let s = upd_proc np (cwdshare_update (fill_share me)) u;
                        s = upd_proc me (cwdshare_update (fill_share np)) s
                    in Inr (cwd (procs s ! me), s)
                  else idup (cwd (procs u ! me)) u) (\<lambda>(d, s).
           let s = upd_proc np (\<lambda>p. p\<lparr>cwd := d,
                     pname := safestrcpy (pname p) (arr (pname (procs s ! me))) 16\<rparr>) s;
               t = tid (procs s ! np) in
           bindE (start_proc np s) (\<lambda>s. Inr (t, s)))) (?post zs np)"
    if "?I np zs u" for np zs and u :: "'a file_state_scheme"
    using that assms(3)
    by (auto simp: Let_def intro!: wp_bind wp_if wp_mono [OF idup_sharing] wp_mono [OF start_proc_sharing]
        sharing_upd sharing_cwd)
  let ?ys = "\<lambda>np. if flag w 0 = 1 then fill_share np xs else xs"
  have share: "wp (if clone_files (procs u ! np) = 1 then
                    let s = upd_proc np (ofileshare_update (fill_share me)) u;
                        s = upd_proc me (ofileshare_update (fill_share np)) s
                    in Inr (foldl (\<lambda>s i. share_fd me np i s) s [0..<NOFILE])
                  else forE (dup_fd me np) [0..<NOFILE] u) (?I np (?ys np))" if "?I np xs u" for np and u :: "'a file_state_scheme"
  proof (cases "flag w 0 = 1")
    case True
    then have "clone_files (procs u ! np) = 1" using that by (simp add: sharing_def)
    then show ?thesis using that True assms(3)
      by (auto simp: Let_def intro!: share_fds_sharing sharing_fill sharing_upd simp del: upd_proc_simps)
  next
    case False
    then have "clone_files (procs u ! np) \<noteq> 1" using that by (simp add: sharing_def)
    then show ?thesis using dup_fds_sharing [OF that] False by simp
  qed
  have drop: "wp (bindE (drop_embryo np v) (\<lambda>s. Inr (- 1, s))) (?post zs np)"
    for v :: "'a file_state_scheme" and zs np
    by (simp add: wp_def bindE_Inr_iff)
  have skip: "wp (clone_parent_of b me v) (\<lambda>_. True)" for b and v :: "'a file_state_scheme"
    by (simp add: wp_def)
  show ?thesis
    unfolding clone_def
    apply (rule wp_bind)
    apply (simp add: myproc_def assms(1) split del: if_split)
    apply (rule wp_if)
     apply simp
    apply (rule wp_bind, rule wp_mono [OF allocproc_slot])
    apply (clarsimp split: option.split)
    subgoal for t np
      apply (rule wp_mono [where P = "?post (?ys np) np"])
       apply (rule wp_let_inv [where I = "?I np xs"])
      subgoal
        using sharing_start [of t me np w] assms unfolding xs_def st_def by auto
      subgoal
      apply (auto intro!: wp_bind wp_mono [OF skip] wp_if wp_let_inv [where I = "?I np xs"] wp_let_word wp_let_proc sharing_memory_wp
        sharing_upd wp_mono [OF share] drop tail simp del: upd_proc_simps)
      done
      subgoal for x by (cases x) auto
      done
    done
qed

text \<open>C25. \<open>clone\<close> with CLONE_FILES writes the new thread into \<^emph>\<open>every\<close> free entry of the list of processes that share the caller's descriptors; the list is then full, so that no later \<open>clone\<close> records its thread there.\<close>

theorem clone_fills_share_list:
  assumes "curproc s = Some me" and "length (procs s) = NPROC" and "me < NPROC"
    and "state (procs s ! me) \<noteq> UNUSED"
    and "clone f sp w a s = Inr (r, t)" and "r \<noteq> - 1" and "flag w 0 = 1"
  shows "(\<exists>np < NPROC. state (procs s ! np) = UNUSED \<and> tid (procs t ! np) = r \<and>
      ofileshare (procs t ! me) =
        map (\<lambda>x. case x of None \<Rightarrow> Some np | Some q \<Rightarrow> Some q) (ofileshare (procs s ! me)))
    \<and> None \<notin> set (ofileshare (procs t ! me))
    \<and> (\<forall>f' sp' w' a' r' u. clone f' sp' w' a' t = Inr (r', u) \<longrightarrow> r' \<noteq> - 1 \<longrightarrow>
         ofileshare (procs u ! me) = ofileshare (procs t ! me))"
proof -
  obtain np where np: "state (procs s ! np) = UNUSED" "tid (procs t ! np) = r"
    and sh: "sharing me np (fill_share np (ofileshare (procs s ! me))) (state (procs s ! me)) w t"
    using wpD [OF clone_sharing [OF assms(1-4)] assms(5)] assms(6,7) by auto
  have t: "curproc t = Some me" "length (procs t) = NPROC" "state (procs t ! me) \<noteq> UNUSED" "np < NPROC"
    and o: "ofileshare (procs t ! me) = fill_share np (ofileshare (procs s ! me))"
    using sh assms(4) by (simp_all add: sharing_def)
  have full: "None \<notin> set (ofileshare (procs t ! me))" by (simp add: o fill_share_full)
  have "ofileshare (procs u ! me) = ofileshare (procs t ! me)"
    if "clone f' sp' w' a' t = Inr (r', u)" "r' \<noteq> - 1" for f' sp' w' a' r' u
    using wpD [OF clone_sharing [OF t(1,2) assms(3) t(3)] that(1)] that(2) fill_share_idem [OF full]
    by (auto simp: sharing_def)
  moreover have "fill_share np xs = map (\<lambda>x. case x of None \<Rightarrow> Some np | Some q \<Rightarrow> Some q) xs" for xs
    by (auto simp: fill_share_def split: option.split)
  ultimately show ?thesis using np t(4) full o by auto
qed

text \<open>
  A machine whose memory is all 7s, so that every page of a process is the frame at 0x07070000; the
  free list starts with the page at 0x80100000.
\<close>

definition machine7 :: file_state where
  "machine7 =
    \<lparr>held = [], mem = (\<lambda>_. 7), freelist = 0x80100000, use_lock = True, kend = 0x80100000,
     kpgdir = 0, kdata = 0x80108000, cr3 = 0,
     procs = proc0\<lparr>state := RUNNING, pid := 1, pgdir := 0x80002000, sz := 4096\<rparr> # replicate 63 proc0,
     nextpid = 10, curproc = Some 0, initproc = Some 0,
     esp0 = 0, ticks = 0, ktrapret = 0, kforkret = 0, kinitcode = [],
     disk = (\<lambda>_ _. []), ide_active = None, ideerr = False, dwrites = [], idequeue = None,
     havedisk1 = False, bufs = [],
     logstart = 2, logsize = 30, outstanding = 0, committing = False, logdev = 1, lh = [],
     sb = sb_of (replicate 512 0), inodes = replicate NINODE \<lparr>idev = 0, inum = 0, iref = 0, ilk = initsleeplock, ivalid = False, itype = 0,
       imajor = 0, iminor = 0, inlink = 0, isize = 0, iaddrs = replicate 13 0\<rparr>,
     files = replicate NFILE \<lparr>ftype = FD_NONE, fref = 0, readable = False, writable = False, fpipe = 0, fip = 0, foff = 0\<rparr>,
     pipes = (\<lambda>q. \<lparr>pdata = [], nread = 0, nwrite = 0, readopen = False, writeopen = False\<rparr>)\<rparr>"

definition around7 :: "memory \<Rightarrow> bool" where
  "around7 m \<longleftrightarrow> (\<forall>x. \<not> in_range 0x80100000 4096 x \<longrightarrow> m x = 7)"

lemma copyout7:
  assumes "around7 (mem s)" and "length buf = 8"
  shows "copyout 0x80002000 4088 buf s = Inr (0, s\<lparr>mem := store_bytes 0x87070FF8 buf (mem s)\<rparr>)"
proof -
  have l: "ld32 0x80002000 (mem s) = 0x07070707" "ld32 0x87070000 (mem s) = 0x07070707"
    using assms(1) by (simp_all add: around7_def ld32_def in_range_def le32_def)
  have "uva2ka 0x80002000 0 s = Inr (0x87070000)"
    by (simp add: uva2ka_def walkpgdir_def Let_def PDX_def PTX_def PTE_ADDR_def l P2V_def)
  then show ?thesis using assms(2)
    by (subst copyout.simps) (auto simp: PGROUNDDOWN_def Let_def copyout.simps [of _ _ "[]"])
qed

lemma allocproc7:
  "\<exists>m. allocproc machine7 = Inr (Some 1, (upd_proc 1 (\<lambda>p. p\<lparr>state := EMBRYO, pid := 10,
      kstack := 0x80100000, ctx := 0x80100F9C\<rparr>) machine7)\<lparr>nextpid := 11, freelist := 0x07070707, mem := m\<rparr>)
    \<and> around7 m"
proof -
  have f: "find_slot (\<lambda>p. state p = UNUSED) (procs machine7) = Some 1"
    by (simp add: find_slot_Some machine7_def proc0_def)
  have l: "ld32 0x80100000 (\<lambda>_. 7) = 0x07070707" by (simp add: ld32_def le32_def)
  have a: "aligned (0x80100000 :: u32)" by (simp add: aligned_unat)
  have eq: "first_frame 0x80100000 0 0 (\<lambda>_. 7) =
      st32 2148536236 0 (memset 2148536220 0 20 (st32 2148536240 0 (\<lambda>_. 7)))"
    by (simp add: first_frame_def slot_def)
  have "around7 (first_frame 0x80100000 0 0 (\<lambda>_. 7))"
    by (simp add: around7_def first_frame_outside a)
  then have "around7 (st32 2148536236 0 (memset 2148536220 0 20 (st32 2148536240 0 (\<lambda>_. 7))))"
    unfolding eq .
  moreover have "allocproc machine7 = Inr (Some 1, (upd_proc 1 (\<lambda>p. p\<lparr>state := EMBRYO, pid := 10,
      kstack := 0x80100000, ctx := 0x80100F9C\<rparr>) machine7)\<lparr>nextpid := 11, freelist := 0x07070707,
      mem := st32 2148536236 0 (memset 2148536220 0 20 (st32 2148536240 0 (\<lambda>_. 7)))\<rparr>)"
    using f l
    by (simp add: allocproc_def acquire_ok release_ok kalloc_eq Let_def machine7_def upd_proc_def)
  ultimately show ?thesis by blast
qed

lemma share_fds_none:
  assumes "\<And>i. i < NOFILE \<Longrightarrow> ofile (procs s ! me) ! i = None"
  shows "foldl (\<lambda>s i. share_fd me np i s) s [0..<NOFILE] = s"
  by (rule foldl_inv [where P = "\<lambda>u. u = s"]) (use assms in \<open>simp_all add: share_fd_def\<close>)

lemma clone7: "\<exists>t. clone 0 0 7 0 machine7 = Inr (10, t)"
proof -
  obtain m where al: "allocproc machine7 = Inr (Some 1, (upd_proc 1 (\<lambda>p. p\<lparr>state := EMBRYO, pid := 10,
      kstack := 0x80100000, ctx := 0x80100F9C\<rparr>) machine7)\<lparr>nextpid := 11, freelist := 0x07070707, mem := m\<rparr>)"
    and m: "around7 m"
    using allocproc7 by auto
  have p: "curproc machine7 = Some 0" "held machine7 = []" "length (procs machine7) = NPROC"
    "procs machine7 ! 0 = proc0\<lparr>state := RUNNING, pid := 1, pgdir := 0x80002000, sz := 4096\<rparr>"
    "procs machine7 ! 1 = proc0"
    by (simp_all add: machine7_def)
  have fl: "flag 7 0 = 1" "flag 7 (Suc 0) = 1" "flag 7 2 = 1" "flag 7 3 = 0" "flag 7 4 = 0"
    by (simp_all add: flag_def)
  have none: "ofile proc0 ! i = None" if "i < NOFILE" for i
    using that by (simp add: proc0_def)
  show ?thesis
    by (simp add: clone_def myproc_def p al clone_flags_def fl clone_parent_of_def Let_def copyout7 m
        upd_proc_def proc0_def share_fds_none none start_proc_def acquire_ok release_ok)
qed

lemma clone_fills_share_list_witness:
  "\<exists>t. clone 0 0 7 0 machine7 = Inr (10, t) \<and> None \<notin> set (ofileshare (procs t ! 0))
    \<and> (\<forall>f sp w a r u. clone f sp w a t = Inr (r, u) \<longrightarrow> r \<noteq> - 1 \<longrightarrow>
         ofileshare (procs u ! 0) = ofileshare (procs t ! 0))"
proof -
  obtain t where t: "clone 0 0 7 0 machine7 = Inr (10, t)" using clone7 by blast
  have "curproc machine7 = Some 0" "length (procs machine7) = NPROC" "state (procs machine7 ! 0) \<noteq> UNUSED"
    "flag 7 0 = 1" by (simp_all add: machine7_def flag_def)
  then show ?thesis using clone_fills_share_list [OF _ _ _ _ t] t by auto
qed

text \<open>Whatever sequence of forks, clones, waits, joins, kills, exits, sleeps, wakeups and scheduling steps the kernel takes, every pointer of the process table stays inside the table it points into and the arrays of a process keep their length.\<close>

theorem process_table_typed:
  assumes "pstep\<^sup>*\<^sup>* s t" and "file_typed s"
  shows "file_typed t"
  using assms by (induction rule: rtranclp_induct) (auto intro: pstep_typed)

lemma machine7_typed: "file_typed machine7"
proof -
  have ps: "procs machine7 = proc0\<lparr>state := RUNNING, pid := 1, pgdir := 0x80002000, sz := 4096\<rparr> # replicate 63 proc0"
    by (simp add: machine7_def)
  have "proc_ok proc0" by (simp add: proc_ok_def proc0_def list_all_length)
  then show ?thesis
    unfolding file_typed_def typed_def ps by (simp add: machine7_def list_all_iff file_ok_def)
qed

lemma process_table_typed_witness:
  "\<exists>t. clone 0 0 7 0 machine7 = Inr (10, t) \<and> file_typed t"
proof -
  obtain t where t: "clone 0 0 7 0 machine7 = Inr (10, t)" using clone7 by blast
  then have "pstep\<^sup>*\<^sup>* machine7 t" by (blast intro: pstep.Pclone)
  from process_table_typed [OF this machine7_typed] t show ?thesis by blast
qed

end
