(* ===== verification/Xv6_Umalloc.thy ===== *)
theory Xv6_Umalloc
  imports Xv6_String "HOL-Library.Monad_Syntax"
begin

text \<open>
  The allocator of user programs (\<open>umalloc.c\<close>): a circular list of free blocks, ordered by address,
  whose headers lie in the memory that is managed; and the thread calls that take their stacks
  from it.
\<close>

text \<open>
  \<open>umem\<close> is the memory of the process, \<open>freep\<close> the static pointer (0 before the first call),
  \<open>hbase\<close> the address the linker gave to \<open>base\<close>, \<open>brk\<close> the size of the process. A \<open>Header\<close> at \<open>p\<close>
  is the two words at \<open>p\<close> (the next block) and \<open>p + 4\<close> (the size in units of 8 bytes); pointer
  arithmetic on \<open>Header *\<close> counts in those units.
\<close>

record heap_state =
  umem :: memory
  freep :: u32
  hbase :: u32
  brk :: u32

text \<open>
  \<open>for(p = freep; !(bp > p && bp < p->s.ptr); p = p->s.ptr) \<dots>\<close>; a walk that never comes to a
  place for the block is \<open>None\<close>.
\<close>

partial_function (option) free_place :: "u32 \<Rightarrow> u32 \<Rightarrow> memory \<Rightarrow> u32 option" where
  "free_place bp p m =
     (let q = ld32 p m in
      if bp > p \<and> bp < q then Some p
      else if p \<ge> q \<and> (bp > p \<or> bp < q) then Some p
      else free_place bp q m)"

text \<open>The rest of \<open>free\<close>: the block \<open>bp\<close> goes in behind \<open>p\<close>, joined to its neighbours.\<close>

definition free_link :: "u32 \<Rightarrow> u32 \<Rightarrow> memory \<Rightarrow> memory" where
  "free_link bp p m =
     (let m = (if bp + 8 * ld32 (bp + 4) m = ld32 p m then
                 let m = st32 (bp + 4) (ld32 (bp + 4) m + ld32 (ld32 p m + 4) m) m
                 in st32 bp (ld32 (ld32 p m) m) m
               else st32 bp (ld32 p m) m)
      in if p + 8 * ld32 (p + 4) m = bp then
           let m = st32 (p + 4) (ld32 (p + 4) m + ld32 (bp + 4) m) m
           in st32 p (ld32 bp m) m
         else st32 p bp m)"

definition free :: "u32 \<Rightarrow> heap_state \<Rightarrow> heap_state option" where
  "free ap s =
     do {
       p \<leftarrow> free_place (ap - 8) (freep s) (umem s);
       Some (s\<lparr>umem := free_link (ap - 8) p (umem s), freep := p\<rparr>)
     }"

text \<open>
  The system call \<open>sbrk\<close>: the old size and \<open>n\<close> bytes more, or -1. \<open>grant\<close> stands for the decision of
  the kernel, which depends on the memory that is left.
\<close>

definition sbrk :: "(u32 \<Rightarrow> u32 \<Rightarrow> bool) \<Rightarrow> u32 \<Rightarrow> heap_state \<Rightarrow> u32 \<times> heap_state" where
  "sbrk grant n s = (if grant (brk s) n then (brk s, s\<lparr>brk := brk s + n\<rparr>) else (0xFFFFFFFF, s))"

definition morecore :: "(u32 \<Rightarrow> u32 \<Rightarrow> bool) \<Rightarrow> u32 \<Rightarrow> heap_state \<Rightarrow> (u32 \<times> heap_state) option" where
  "morecore grant nu s =
     (let nu = (if nu < 4096 then 4096 else nu);
          (p, s) = sbrk grant (nu * 8) s in
      if p = 0xFFFFFFFF then Some (0, s)
      else do {
        s \<leftarrow> free (p + 8) (s\<lparr>umem := st32 (p + 4) nu (umem s)\<rparr>);
        Some (freep s, s)
      })"

partial_function (option) malloc_loop ::
    "(u32 \<Rightarrow> u32 \<Rightarrow> bool) \<Rightarrow> u32 \<Rightarrow> u32 \<Rightarrow> u32 \<Rightarrow> heap_state \<Rightarrow> (u32 \<times> heap_state) option" where
  "malloc_loop grant nunits prevp p s =
     (let m = umem s in
      if ld32 (p + 4) m \<ge> nunits then
        if ld32 (p + 4) m = nunits
        then Some (p + 8, s\<lparr>umem := st32 prevp (ld32 p m) m, freep := prevp\<rparr>)
        else
          let m = st32 (p + 4) (ld32 (p + 4) m - nunits) m;
              p = p + 8 * ld32 (p + 4) m
          in Some (p + 8, s\<lparr>umem := st32 (p + 4) nunits m, freep := prevp\<rparr>)
      else if p = freep s then
        do {
          (p, s) \<leftarrow> morecore grant nunits s;
          if p = 0 then Some (0, s) else malloc_loop grant nunits p (ld32 p (umem s)) s
        }
      else malloc_loop grant nunits p (ld32 p m) s)"

definition units :: "u32 \<Rightarrow> u32" where
  "units nbytes = (nbytes + 8 - 1) div 8 + 1"

definition malloc :: "(u32 \<Rightarrow> u32 \<Rightarrow> bool) \<Rightarrow> u32 \<Rightarrow> heap_state \<Rightarrow> (u32 \<times> heap_state) option" where
  "malloc grant nbytes s =
     (let s = (if freep s = 0
               then s\<lparr>freep := hbase s, umem := st32 (hbase s + 4) 0 (st32 (hbase s) (hbase s) (umem s))\<rparr>
               else s)
      in malloc_loop grant (units nbytes) (freep s) (ld32 (freep s) (umem s)) s)"

section \<open>Threads\<close>

text \<open>
  The system calls \<open>clone\<close> (start, stack, flags and argument to the thread id) and \<open>join\<close> are
  arguments here; their models are those of the kernel.
\<close>

record thread =
  thread_tid :: "32 word"
  thread_stack :: u32

definition pthread_create :: "(u32 \<Rightarrow> u32 \<Rightarrow> u32 \<Rightarrow> u32 \<Rightarrow> 32 word) \<Rightarrow> (u32 \<Rightarrow> u32 \<Rightarrow> bool) \<Rightarrow>
    u32 \<Rightarrow> u32 \<Rightarrow> u32 \<Rightarrow> heap_state \<Rightarrow> (thread \<times> heap_state) option" where
  "pthread_create clone_call grant fcn arg flags s =
     do {
       (stack, s) \<leftarrow> malloc grant 4096 s;
       Some (\<lparr>thread_tid = clone_call fcn stack flags arg, thread_stack = stack\<rparr>, s)
     }"

definition pthread_join :: "(32 word \<Rightarrow> 32 word) \<Rightarrow> thread \<Rightarrow> heap_state \<Rightarrow> (32 word \<times> heap_state) option" where
  "pthread_join join_call t s =
     do {
       s \<leftarrow> free (thread_stack t) s;
       Some (if join_call (thread_tid t) \<noteq> thread_tid t then - 1 else thread_tid t, s)
     }"

end
