(* ===== verification/Xv6_UmallocSpec.thy ===== *)
theory Xv6_UmallocSpec
  imports Xv6_Umalloc
begin

text \<open>
  The allocator of user programs keeps its list: what \<open>free\<close> gives back and what \<open>malloc\<close> hands out,
  as sets of bytes, and that the walks along the circular list come to an end.
\<close>

section \<open>Headers\<close>

text \<open>The two headers at \<open>a\<close> and \<open>b\<close> do not overlap.\<close>

definition clear :: "u32 \<Rightarrow> u32 \<Rightarrow> bool" where
  "clear a b \<longleftrightarrow> unat a + 8 \<le> unat b \<or> unat b + 8 \<le> unat a"

definition hdr :: "u32 \<Rightarrow> bool" where
  "hdr a \<longleftrightarrow> unat a + 8 \<le> 4294967296"

lemma st32_apart:
  assumes "unat x < unat b \<or> unat b + 4 \<le> unat x" and "unat b + 4 \<le> 4294967296"
  shows "st32 b v m x = m x"
proof -
  have "unat (b + of_nat i) = unat b + i" if "i < 4" for i
    using that assms(2) by (intro unat_add_of_nat32) simp
  from this [of 0] this [of 1] this [of 2] this [of 3]
  have "x \<noteq> b" "x \<noteq> b + 1" "x \<noteq> b + 2" "x \<noteq> b + 3" using assms(1) by auto
  then show ?thesis by (simp add: st32_def)
qed

lemma ld32_st32_apart:
  assumes "unat a + 4 \<le> unat b \<or> unat b + 4 \<le> unat a" and "unat a + 4 \<le> 4294967296" and "unat b + 4 \<le> 4294967296"
  shows "ld32 a (st32 b v m) = ld32 a m"
proof -
  have u: "unat (a + of_nat i) = unat a + i" if "i < 4" for i
    using that assms(2) by (intro unat_add_of_nat32) simp
  have "st32 b v m (a + of_nat i) = m (a + of_nat i)" if "i < 4" for i
    using that assms u [OF that] by (intro st32_apart) auto
  from this [of 0] this [of 1] this [of 2] this [of 3] show ?thesis
    by (simp add: ld32_def)
qed

lemma unat_add4: "hdr a \<Longrightarrow> unat (a + 4) = unat a + 4"
  using unat_add_of_nat32 [of a 4] by (simp add: hdr_def)

lemma hdr_frame:
  assumes "clear a b" and "hdr a" and "hdr b"
  shows "ld32 a (st32 b v m) = ld32 a m" and "ld32 a (st32 (b + 4) v m) = ld32 a m"
    and "ld32 (a + 4) (st32 b v m) = ld32 (a + 4) m" and "ld32 (a + 4) (st32 (b + 4) v m) = ld32 (a + 4) m"
  using assms unat_add4 [OF assms(2)] unat_add4 [OF assms(3)]
  by (auto simp: clear_def hdr_def intro!: ld32_st32_apart)

lemma hdr_own:
  assumes "hdr a"
  shows "ld32 a (st32 (a + 4) v m) = ld32 a m" and "ld32 (a + 4) (st32 a v m) = ld32 (a + 4) m"
  using assms unat_add4 [OF assms] by (auto simp: hdr_def intro!: ld32_st32_apart)

lemma clear_sym: "clear a b \<Longrightarrow> clear b a"
  by (auto simp: clear_def)

section \<open>The circular list\<close>

text \<open>The blocks \<open>bs\<close> (address and units) are linked from \<open>p\<close> on, the last one to \<open>q\<close>.\<close>

fun seg :: "memory \<Rightarrow> u32 \<Rightarrow> (u32 \<times> nat) list \<Rightarrow> u32 \<Rightarrow> bool" where
  "seg m p [] q = (p = q)"
| "seg m p ((a, n) # bs) q = (p = a \<and> ld32 (a + 4) m = of_nat n \<and> seg m (ld32 a m) bs q)"

text \<open>They lie one behind the other in the addresses from \<open>l\<close> up to \<open>h\<close>.\<close>

fun spaced :: "nat \<Rightarrow> (u32 \<times> nat) list \<Rightarrow> nat \<Rightarrow> bool" where
  "spaced l [] h = (l \<le> h)"
| "spaced l ((a, n) # bs) h = (l \<le> unat a \<and> 1 \<le> n \<and> spaced (unat a + 8 * n) bs h)"

definition cells :: "(u32 \<times> nat) list \<Rightarrow> nat set" where
  "cells bs = (\<Union>(a, n) \<in> set bs. {unat a..<unat a + 8 * n})"

definition rep :: "heap_state \<Rightarrow> (u32 \<times> nat) list \<Rightarrow> bool" where
  "rep s bs \<longleftrightarrow> seg (umem s) (hbase s) ((hbase s, 0) # bs) (hbase s)
     \<and> spaced (unat (hbase s) + 8) bs (unat (brk s))
     \<and> freep s \<in> insert (hbase s) (fst ` set bs) \<and> hbase s \<noteq> 0"

lemma cells_simps [simp]:
  "cells [] = {}" "cells ((a, n) # bs) = {unat a..<unat a + 8 * n} \<union> cells bs"
  "cells (xs @ ys) = cells xs \<union> cells ys"
  by (auto simp: cells_def)

lemma seg_append: "seg m p (xs @ ys) q \<longleftrightarrow> (\<exists>r. seg m p xs r \<and> seg m r ys q)"
  by (induction m p xs q rule: seg.induct) auto

lemma seg_frame:
  assumes "seg m p bs q"
    and "\<And>a n. (a, n) \<in> set bs \<Longrightarrow> ld32 a m' = ld32 a m \<and> ld32 (a + 4) m' = ld32 (a + 4) m"
  shows "seg m' p bs q"
  using assms
proof (induction bs arbitrary: p)
  case (Cons b bs)
  then show ?case by (cases b) fastforce
qed simp

lemma spaced_le: "spaced l bs h \<Longrightarrow> l \<le> h"
  by (induction l bs h rule: spaced.induct) auto

lemma spaced_mem:
  "spaced l bs h \<Longrightarrow> (a, n) \<in> set bs \<Longrightarrow> l \<le> unat a \<and> unat a + 8 * n \<le> h \<and> 1 \<le> n"
proof (induction bs arbitrary: l)
  case (Cons b bs)
  then show ?case by (cases b) (fastforce dest: spaced_le)
qed simp

lemma spaced_mono: "spaced l bs h \<Longrightarrow> k \<le> l \<Longrightarrow> h \<le> h' \<Longrightarrow> spaced k bs h'"
  by (induction l bs h arbitrary: k rule: spaced.induct) auto

lemma spaced_append: "spaced l (xs @ ys) h \<longleftrightarrow> (\<exists>k. spaced l xs k \<and> spaced k ys h)"
proof (induction xs arbitrary: l)
  case Nil
  show ?case by (auto intro: spaced_mono [OF _ _ order_refl])
next
  case (Cons b xs)
  then show ?case by (cases b) auto
qed

text \<open>A range that touches none of the blocks lies between two of them.\<close>

lemma spaced_split:
  assumes "spaced l bs h" and "l \<le> b" and "b + w \<le> h" and "1 \<le> w" and "{b..<b + w} \<inter> cells bs = {}"
  shows "\<exists>lo hi. bs = lo @ hi \<and> spaced l lo b \<and> spaced (b + w) hi h"
  using assms
proof (induction bs arbitrary: l)
  case Nil
  then show ?case by simp
next
  case (Cons x bs)
  obtain a n where x: "x = (a, n)" by (cases x)
  have s: "l \<le> unat a" "1 \<le> n" "spaced (unat a + 8 * n) bs h" using Cons.prems(1) by (simp_all add: x)
  have dis: "{b..<b + w} \<inter> {unat a..<unat a + 8 * n} = {}" "{b..<b + w} \<inter> cells bs = {}"
    using Cons.prems(5) by (simp_all only: x cells_simps Int_Un_distrib Un_empty)
  show ?case
  proof (cases "b < unat a")
    case True
    then have "b + w \<le> unat a"
    proof -
      have "unat a \<notin> {b..<b + w}" using dis(1) s(2) by (auto simp: disjoint_iff)
      then show ?thesis using True by (meson atLeastLessThan_iff less_imp_le not_le)
    qed
    then have "spaced (b + w) (x # bs) h" using s by (simp add: x)
    then show ?thesis using Cons.prems(2) by (intro exI [of _ "[]"] exI [of _ "x # bs"]) simp
  next
    case False
    have "b \<notin> {unat a..<unat a + 8 * n}" using dis(1) Cons.prems(4) by (auto simp: disjoint_iff)
    then have "unat a + 8 * n \<le> b" using False by auto
    then obtain lo hi where "bs = lo @ hi" "spaced (unat a + 8 * n) lo b" "spaced (b + w) hi h"
      using Cons.IH [OF s(3)] Cons.prems(3,4) dis(2) by auto
    then show ?thesis using s by (intro exI [of _ "x # lo"] exI [of _ hi]) (simp add: x)
  qed
qed

section \<open>The search for a place\<close>

abbreviation ascending :: "(u32 \<times> nat) list \<Rightarrow> bool" where
  "ascending bs \<equiv> sorted_wrt (\<lambda>x y. fst x < fst y) bs"

text \<open>From a block below \<open>bp\<close> the walk stops at the last one below it.\<close>

lemma free_place_below:
  assumes "seg m p lo q" and "lo \<noteq> []" and "ascending lo" and "\<forall>x \<in> set lo. fst x < bp"
    and "bp < q \<or> q \<le> fst (last lo)"
  shows "free_place bp p m = Some (fst (last lo))"
  using assms
proof (induction lo arbitrary: p)
  case (Cons x lo)
  obtain a n where x: "x = (a, n)" by (cases x)
  show ?case
  proof (cases lo)
    case Nil
    then show ?thesis using Cons.prems by (subst free_place.simps) (auto simp: x Let_def)
  next
    case (Cons y lo')
    obtain b k where y: "y = (b, k)" by (cases y)
    have "free_place bp b m = Some (fst (last lo))"
      using Cons.IH [of b] Cons.prems Cons by (auto simp: x y)
    moreover have "ld32 a m = b" "p = a" "a < b" "b < bp" using Cons.prems Cons by (auto simp: x y)
    ultimately show ?thesis using Cons by (subst free_place.simps) (auto simp: Let_def)
  qed
qed simp

text \<open>From a block above \<open>bp\<close> it goes on to the end of the list.\<close>

lemma free_place_above:
  assumes "seg m p hi q" and "ascending hi" and "\<forall>x \<in> set hi. bp < fst x" and "q < bp"
  shows "free_place bp p m = free_place bp q m"
  using assms
proof (induction hi arbitrary: p)
  case (Cons x hi)
  obtain a n where x: "x = (a, n)" by (cases x)
  have p: "p = a" "bp < a" using Cons.prems by (auto simp: x)
  have "free_place bp (ld32 a m) m = free_place bp q m"
    using Cons.IH Cons.prems by (simp add: x)
  moreover have "ld32 a m < bp \<or> a < ld32 a m"
  proof (cases hi)
    case Nil
    then show ?thesis using Cons.prems by (simp add: x)
  next
    case (Cons y hi')
    then show ?thesis using Cons.prems by (cases y) (auto simp: x)
  qed
  ultimately show ?case using p by (subst free_place.simps) (auto simp: Let_def)
qed simp

lemma spaced_ascending: "spaced l bs h \<Longrightarrow> h \<le> 4294967296 \<Longrightarrow> ascending bs"
proof (induction l bs h rule: spaced.induct)
  case (2 l a n bs h)
  then show ?case using spaced_mem [of "unat a + 8 * n" bs h] by (fastforce simp: word_less_nat_alt)
qed simp

lemma block_at: "a \<in> fst ` set bs \<Longrightarrow> \<exists>l1 n l2. bs = l1 @ (a, n) # l2"
  by (metis imageE prod.collapse split_list)

text \<open>The walk of \<open>free\<close> always ends, at the last block below the one that comes back.\<close>

lemma free_place_ends:
  assumes "seg m base ((base, 0) # lo @ hi) base" and "spaced (unat base + 8) lo (unat bp)"
    and "spaced (unat bp + w) hi h" and "1 \<le> w" and "h \<le> 4294967296"
    and "fp \<in> insert base (fst ` set (lo @ hi))"
  shows "free_place bp fp m = Some (fst (last ((base, 0) # lo)))"
proof -
  let ?lo = "(base, 0) # lo"
  have bl: "base < bp" using spaced_le [OF assms(2)] by (simp add: word_less_nat_alt)
  have lo1: "base < a \<and> a < bp" if "(a, n) \<in> set lo" for a n
    using spaced_mem [OF assms(2) that] by (simp add: word_less_nat_alt)
  have "ascending lo" using spaced_ascending [OF assms(2)] unat_lt32 [of bp] by simp
  then have lo: "ascending ?lo" "\<forall>x \<in> set ?lo. fst x < bp" using lo1 bl by auto
  have hi: "ascending hi" "\<forall>x \<in> set hi. bp < fst x"
    using spaced_mem [OF assms(3)] spaced_ascending [OF assms(3,5)] assms(4)
    by (fastforce simp: word_less_nat_alt)+
  obtain r where s: "seg m base ?lo r" "seg m r hi base"
    using assms(1) seg_append [of m base ?lo hi base] by auto
  have r: "bp < r \<or> r \<le> fst (last ?lo)"
  proof (cases hi)
    case Nil
    then have "r = base" using s(2) by simp
    moreover have "base \<le> fst (last ?lo)"
      using lo1 last_in_set [of lo] by (cases "lo = []"; cases "last lo") (auto intro: less_imp_le)
    ultimately show ?thesis by simp
  next
    case (Cons y hi')
    then show ?thesis using s(2) hi(2) by (cases y) simp
  qed
  have below: "free_place bp a m = Some (fst (last ?lo))" if at: "a \<in> fst ` set ?lo" for a
  proof -
    obtain l1 n l2 where l: "?lo = l1 @ (a, n) # l2" using block_at [OF at] by blast
    have "seg m a ((a, n) # l2) r" using s(1) unfolding l seg_append by auto
    moreover have "ascending ((a, n) # l2)" "\<forall>x \<in> set ((a, n) # l2). fst x < bp"
      using lo unfolding l by (simp_all add: sorted_wrt_append)
    moreover have "bp < r \<or> r \<le> fst (last ((a, n) # l2))" using r unfolding l by simp
    ultimately have "free_place bp a m = Some (fst (last ((a, n) # l2)))"
      by (intro free_place_below) simp_all
    then show ?thesis unfolding l by simp
  qed
  show ?thesis
  proof (cases "fp \<in> fst ` set ?lo")
    case False
    then have "fp \<in> fst ` set hi" using assms(6) by (simp add: image_Un)
    then obtain h1 n h2 where h: "hi = h1 @ (fp, n) # h2" using block_at [of fp hi] by blast
    have "seg m fp ((fp, n) # h2) base" using s(2) unfolding h seg_append by auto
    moreover have "base < bp" using lo(2) by simp
    moreover have "ascending ((fp, n) # h2)" "\<forall>x \<in> set ((fp, n) # h2). bp < fst x"
      using hi unfolding h by (simp_all add: sorted_wrt_append)
    ultimately have "free_place bp fp m = free_place bp base m"
      by (intro free_place_above)
    then show ?thesis using below [of base] by simp
  qed (rule below)
qed

section \<open>Putting a block back\<close>

definition join_up :: "u32 \<Rightarrow> u32 \<Rightarrow> memory \<Rightarrow> memory" where
  "join_up bp p m =
     (if bp + 8 * ld32 (bp + 4) m = ld32 p m then
        let m = st32 (bp + 4) (ld32 (bp + 4) m + ld32 (ld32 p m + 4) m) m
        in st32 bp (ld32 (ld32 p m) m) m
      else st32 bp (ld32 p m) m)"

definition join_down :: "u32 \<Rightarrow> u32 \<Rightarrow> memory \<Rightarrow> memory" where
  "join_down bp p m =
     (if p + 8 * ld32 (p + 4) m = bp then
        let m = st32 (p + 4) (ld32 (p + 4) m + ld32 (bp + 4) m) m
        in st32 p (ld32 bp m) m
      else st32 p bp m)"

lemma free_link_steps: "free_link bp p m = join_down bp p (join_up bp p m)"
  by (simp add: free_link_def join_up_def join_down_def Let_def)

text \<open>Only the header at \<open>a\<close> differs.\<close>

definition same_but :: "u32 \<Rightarrow> memory \<Rightarrow> memory \<Rightarrow> bool" where
  "same_but a m m' \<longleftrightarrow> (\<forall>x. unat x < unat a \<or> unat a + 8 \<le> unat x \<longrightarrow> m' x = m x)"

lemma same_but_st32:
  assumes "hdr a"
  shows "same_but a m (st32 a v m)" and "same_but a m (st32 (a + 4) v m)"
  using assms unat_add4 [OF assms] by (auto simp: same_but_def hdr_def intro!: st32_apart)

lemma same_but_trans: "same_but a m m' \<Longrightarrow> same_but a m' m'' \<Longrightarrow> same_but a m m''"
  by (simp add: same_but_def)

lemma same_but_hdr:
  assumes "same_but a m m'" and "clear b a" and "hdr b"
  shows "ld32 b m' = ld32 b m" and "ld32 (b + 4) m' = ld32 (b + 4) m"
proof -
  have "m' (b + of_nat i) = m (b + of_nat i)" if "i < 8" for i
  proof -
    have "unat (b + of_nat i) = unat b + i" using that assms(3) by (intro unat_add_of_nat32) (simp add: hdr_def)
    then show ?thesis using that assms(1,2) by (auto simp: same_but_def clear_def)
  qed
  from this [of 0] this [of 1] this [of 2] this [of 3] this [of 4] this [of 5] this [of 6] this [of 7]
  show "ld32 b m' = ld32 b m" "ld32 (b + 4) m' = ld32 (b + 4) m"
    by (simp_all add: ld32_def add.assoc)
qed

lemma same_but_seg:
  assumes "same_but a m m'" and "seg m p bs q" and "\<And>b n. (b, n) \<in> set bs \<Longrightarrow> clear b a \<and> hdr b"
  shows "seg m' p bs q"
  using assms(2) by (rule seg_frame) (use assms same_but_hdr in blast)

lemma below_clear:
  assumes "spaced l bs h" and "(a, n) \<in> set bs"
  shows "h \<le> unat b \<Longrightarrow> clear a b" and "unat b + 8 \<le> l \<Longrightarrow> clear a b" and "h \<le> 4294967296 \<Longrightarrow> hdr a"
  using spaced_mem [OF assms] by (auto simp: clear_def hdr_def)

lemma unat_end: "unat (a :: u32) + 8 * n < 4294967296 \<Longrightarrow> unat (a + 8 * of_nat n) = unat a + 8 * n"
  using unat_add_of_nat32 [of a "8 * n"] by simp

text \<open>The block that follows immediately is taken in.\<close>

lemma join_up_ok:
  assumes "seg m (ld32 p m) hi base" and "spaced (unat bp + 8 * n) hi h" and "1 \<le> n" and "h < 4294967296"
    and "ld32 (bp + 4) m = of_nat n" and "base < bp" and "clear p bp" and "hdr p"
  shows "\<exists>n' hi'. ld32 (bp + 4) (join_up bp p m) = of_nat n' \<and> n \<le> n'
    \<and> seg (join_up bp p m) (ld32 bp (join_up bp p m)) hi' base
    \<and> spaced (unat bp + 8 * n') hi' h
    \<and> {unat bp..<unat bp + 8 * n'} \<union> cells hi' = {unat bp..<unat bp + 8 * n} \<union> cells hi
    \<and> same_but bp m (join_up bp p m)"
proof (cases "bp + 8 * ld32 (bp + 4) m = ld32 p m")
  case True
  have e: "unat bp + 8 * n < 4294967296" using spaced_le [OF assms(2)] assms(4) by simp
  then have u: "unat (bp + 8 * of_nat n) = unat bp + 8 * n" by (rule unat_end)
  have nx: "ld32 p m = bp + 8 * of_nat n" using True assms(5) by simp
  have hd: "hdr bp" using e assms(3) by (simp add: hdr_def)
  show ?thesis
  proof (cases hi)
    case Nil
    then have "unat base = unat bp + 8 * n" using assms(1) nx u by simp
    then show ?thesis using assms(6) by (simp add: word_less_nat_alt)
  next
    case (Cons y hi')
    obtain c k where y: "y = (c, k)" by (cases y)
    have c: "c = bp + 8 * of_nat n" "ld32 (c + 4) m = of_nat k" "seg m (ld32 c m) hi' base"
      using assms(1) nx by (simp_all add: Cons y)
    have sp: "1 \<le> k" "spaced (unat c + 8 * k) hi' h" using assms(2) by (simp_all add: Cons y)
    have cl: "clear c bp" "hdr c"
      using u c(1) assms(3) sp(1) spaced_le [OF sp(2)] assms(4) by (simp_all add: clear_def hdr_def)
    let ?m1 = "st32 (bp + 4) (of_nat n + of_nat k) m"
    have m1: "join_up bp p m = st32 bp (ld32 (ld32 p ?m1) ?m1) ?m1"
      using True assms(5) nx c(1,2) by (simp add: join_up_def Let_def)
    have "ld32 p ?m1 = ld32 p m" using assms(7,8) hd by (rule hdr_frame(2))
    then have m2: "join_up bp p m = st32 bp (ld32 c m) ?m1"
      using m1 nx c(1) hdr_frame(2) [OF cl hd] by simp
    have sb: "same_but bp m (join_up bp p m)"
      unfolding m2 by (rule same_but_trans [OF same_but_st32(2) [OF hd] same_but_st32(1) [OF hd]])
    have "clear b bp \<and> hdr b" if "(b, w) \<in> set hi'" for b w
      using below_clear(2) [OF sp(2) that, of bp] below_clear(3) [OF sp(2) that] u c(1) assms(3,4) sp(1)
      by simp
    then have sg: "seg (join_up bp p m) (ld32 c m) hi' base" by (rule same_but_seg [OF sb c(3)])
    have "ld32 bp (join_up bp p m) = ld32 c m" "ld32 (bp + 4) (join_up bp p m) = of_nat (n + k)"
      unfolding m2 using hdr_own(2) [OF hd] by simp_all
    moreover have "{unat bp..<unat bp + 8 * (n + k)} \<union> cells hi' = {unat bp..<unat bp + 8 * n} \<union> cells hi"
      unfolding Cons y cells_simps c(1) u by auto
    ultimately show ?thesis using sg sb sp(2) u c(1)
      by (intro exI [of _ "n + k"] exI [of _ hi']) (simp add: algebra_simps)
  qed
next
  case False
  then have m1: "join_up bp p m = st32 bp (ld32 p m) m" by (simp add: join_up_def)
  have hd: "hdr bp" using spaced_le [OF assms(2)] assms(3,4) by (simp add: hdr_def)
  have sb: "same_but bp m (join_up bp p m)" unfolding m1 by (rule same_but_st32(1) [OF hd])
  have "clear b bp \<and> hdr b" if "(b, w) \<in> set hi" for b w
    using below_clear(2) [OF assms(2) that, of bp] below_clear(3) [OF assms(2) that] assms(3,4) by simp
  then have sg: "seg (join_up bp p m) (ld32 p m) hi base" by (rule same_but_seg [OF sb assms(1)])
  have "ld32 bp (join_up bp p m) = ld32 p m" "ld32 (bp + 4) (join_up bp p m) = of_nat n"
    unfolding m1 using hdr_own(2) [OF hd] assms(5) by simp_all
  then show ?thesis using sg sb assms(2) by (intro exI [of _ n] exI [of _ hi]) simp
qed

text \<open>The block \<open>bp\<close> goes in behind \<open>p\<close>, the last of the blocks \<open>lo @ [(p, j)]\<close> below it.\<close>

lemma join_down_ok:
  assumes "seg m base (lo @ [(p, j)]) r" and "ld32 (bp + 4) m = of_nat n" and "seg m (ld32 bp m) hi base"
    and "\<forall>x \<in> set lo \<union> set hi. clear (fst x) p \<and> hdr (fst x)"
    and "hdr p" and "hdr bp" and "clear bp p"
  shows "if p + 8 * of_nat j = bp then seg (join_down bp p m) base (lo @ (p, j + n) # hi) base
    else seg (join_down bp p m) base (lo @ (p, j) # (bp, n) # hi) base"
    and "same_but p m (join_down bp p m)"
proof -
  have lo: "seg m base lo p" and j: "ld32 (p + 4) m = of_nat j" using assms(1) by (auto simp: seg_append)
  show sb: "same_but p m (join_down bp p m)"
    using same_but_st32(1) [OF assms(5)] same_but_trans [OF same_but_st32(2) [OF assms(5)] same_but_st32(1) [OF assms(5)]]
    by (simp add: join_down_def Let_def)
  have "seg (join_down bp p m) base lo p" by (rule same_but_seg [OF sb lo]) (use assms(4) in force)
  moreover have "seg (join_down bp p m) (ld32 bp m) hi base"
    by (rule same_but_seg [OF sb assms(3)]) (use assms(4) in force)
  ultimately have segs: "seg (join_down bp p m) base lo p" "seg (join_down bp p m) (ld32 bp m) hi base" by simp_all
  show "if p + 8 * of_nat j = bp then seg (join_down bp p m) base (lo @ (p, j + n) # hi) base
    else seg (join_down bp p m) base (lo @ (p, j) # (bp, n) # hi) base"
  proof (cases "p + 8 * of_nat j = bp")
    case True
    have "ld32 bp (st32 (p + 4) (of_nat j + of_nat n) m) = ld32 bp m"
      using hdr_frame(2) [OF assms(7,6,5)] .
    then have "join_down bp p m = st32 p (ld32 bp m) (st32 (p + 4) (of_nat j + of_nat n) m)"
      using True j assms(2) by (simp add: join_down_def Let_def)
    then have "ld32 p (join_down bp p m) = ld32 bp m" "ld32 (p + 4) (join_down bp p m) = of_nat (j + n)"
      using hdr_own(2) [OF assms(5)] by simp_all
    then show ?thesis using True segs by (simp add: seg_append)
  next
    case False
    then have "join_down bp p m = st32 p bp m" using j by (simp add: join_down_def)
    then have "ld32 p (join_down bp p m) = bp" "ld32 (p + 4) (join_down bp p m) = of_nat j"
      using hdr_own(2) [OF assms(5)] j by simp_all
    moreover have "ld32 bp (join_down bp p m) = ld32 bp m" "ld32 (bp + 4) (join_down bp p m) = of_nat n"
      using same_but_hdr [OF sb assms(7,6)] assms(2) by simp_all
    ultimately show ?thesis using False segs by (simp add: seg_append)
  qed
qed

lemma free_link_rep:
  assumes sg: "seg m base ((base, 0) # lo @ hi) base" and sl: "spaced (unat base + 8) lo (unat bp)"
    and sh: "spaced (unat bp + 8 * n) hi h" and n: "1 \<le> n" and h: "h < 4294967296"
    and sz: "ld32 (bp + 4) m = of_nat n" and p: "p = fst (last ((base, 0) # lo))"
  shows "\<exists>bs. seg (free_link bp p m) base ((base, 0) # bs) base \<and> spaced (unat base + 8) bs h
    \<and> cells bs = cells (lo @ hi) \<union> {unat bp..<unat bp + 8 * n} \<and> p \<in> insert base (fst ` set bs)
    \<and> (\<exists>m1. same_but bp m m1 \<and> same_but p m1 (free_link bp p m)) \<and> (\<exists>x \<in> set bs. n \<le> snd x)"
proof -
  obtain xs j where xs: "(base, 0) # lo = xs @ [(p, j)]"
    using p by (cases "(base, 0 :: nat) # lo" rule: rev_cases) auto
  have bb: "unat base + 8 \<le> unat bp" using spaced_le [OF sl] .
  have top: "unat bp \<le> 4294967295" using unat_lt32 [of bp] by linarith
  have hb: "hdr bp" using spaced_le [OF sh] n h by (simp add: hdr_def)
  have low: "clear b bp \<and> hdr b \<and> unat b + 8 \<le> unat bp" if "(b, w) \<in> set ((base, 0) # lo)" for b w
    using that bb spaced_mem [OF sl, of b w] top by (auto simp: clear_def hdr_def)
  have cp: "clear p bp" "hdr p" using low [of p j] unfolding xs by auto
  have s0: "seg m base (xs @ [(p, j)]) (ld32 p m)" "seg m (ld32 p m) hi base"
    using sg unfolding append_Cons [symmetric] xs by (auto simp: seg_append)
  have "base < bp" using bb by (simp add: word_less_nat_alt)
  then obtain n' hi' where up: "ld32 (bp + 4) (join_up bp p m) = of_nat n'" "n \<le> n'"
    "seg (join_up bp p m) (ld32 bp (join_up bp p m)) hi' base" "spaced (unat bp + 8 * n') hi' h"
    "{unat bp..<unat bp + 8 * n'} \<union> cells hi' = {unat bp..<unat bp + 8 * n} \<union> cells hi"
    "same_but bp m (join_up bp p m)"
    using join_up_ok [OF s0(2) sh n h sz _ cp] by blast
  have s1: "seg (join_up bp p m) base (xs @ [(p, j)]) (ld32 p m)"
    using s0(1) by (rule same_but_seg [OF up(6)]) (use low in \<open>unfold xs, blast\<close>)
  have apart: "clear b p \<and> hdr b" if "(b, w) \<in> set xs \<or> (b, w) \<in> set hi'" for b w
  proof (cases "(b, w) \<in> set hi'")
    case True
    have "unat p + 8 \<le> unat bp" using low [of p j] unfolding xs by simp
    then show ?thesis using below_clear(2) [OF up(4) True, of p] below_clear(3) [OF up(4) True] h by simp
  next
    case False
    then have b: "(b, w) \<in> set xs" using that by simp
    then obtain lo' where lo': "xs = (base, 0) # lo'" "lo = lo' @ [(p, j)]" using xs by (cases xs) auto
    then obtain k where k: "spaced (unat base + 8) lo' k" "k \<le> unat p" "unat base + 8 \<le> k"
      using sl spaced_le by (fastforce simp: spaced_append)
    show ?thesis
    proof (cases "(b, w) \<in> set lo'")
      case True
      then show ?thesis using below_clear(1) [OF k(1) True] k(2) low [of b w] b unfolding xs by auto
    next
      case False
      then have "b = base" using b lo'(1) by simp
      then show ?thesis using k low [of base 0] by (auto simp: clear_def)
    qed
  qed
  have le: "free_link bp p m = join_down bp p (join_up bp p m)" by (rule free_link_steps)
  have "\<forall>x \<in> set xs \<union> set hi'. clear (fst x) p \<and> hdr (fst x)" using apart by force
  note down = join_down_ok [OF s1 up(1,3) this cp(2) hb clear_sym [OF cp(1)], folded le]
  show ?thesis
  proof (cases "p + 8 * of_nat j = bp")
    case False
    have "(base, 0) # lo @ ys = xs @ (p, j) # ys" for ys
      using arg_cong [OF xs, of "\<lambda>zs. zs @ ys"] by simp
    then have "seg (free_link bp p m) base ((base, 0) # lo @ (bp, n') # hi') base"
      using down(1) unfolding if_not_P [OF False] by (simp only:)
    moreover have "spaced (unat base + 8) (lo @ (bp, n') # hi') h"
      using sl up(2,4) n by (auto simp: spaced_append)
    moreover have "p \<in> insert base (fst ` set (lo @ (bp, n') # hi'))"
    proof -
      have "(p, j) \<in> set ((base, 0) # lo)" unfolding xs by simp
      then have "p = base \<or> (p, j) \<in> set lo" by auto
      then show ?thesis by (auto intro: rev_image_eqI)
    qed
    ultimately show ?thesis using up(2,5,6) down(2) by (intro exI [of _ "lo @ (bp, n') # hi'"]) auto
  next
    case True
    have "xs \<noteq> []" using xs True \<open>base < bp\<close> by auto
    then obtain lo' where lo': "xs = (base, 0) # lo'" "lo = lo' @ [(p, j)]" using xs by (cases xs) auto
    obtain k where k: "spaced (unat base + 8) lo' k" "k \<le> unat p" "1 \<le> j" "unat p + 8 * j \<le> unat bp"
      using sl unfolding lo' spaced_append by auto
    then have "unat p + 8 * j = unat bp" using unat_end [of p j] unat_lt32 [of bp] True by simp
    then have e: "unat bp = unat p + 8 * j" by simp
    have "seg (free_link bp p m) base ((base, 0) # lo' @ (p, j + n') # hi') base"
      using down(1) True lo' by simp
    moreover have "spaced (unat base + 8) (lo' @ (p, j + n') # hi') h"
      using k up(4) e by (auto simp: spaced_append algebra_simps)
    moreover have "cells (lo' @ (p, j + n') # hi') = cells (lo @ hi) \<union> {unat bp..<unat bp + 8 * n}"
    proof -
      have "{unat p..<unat p + 8 * (j + n')} = {unat p..<unat p + 8 * j} \<union> {unat bp..<unat bp + 8 * n'}"
        unfolding e by auto
      then show ?thesis using up(5) unfolding lo' by auto
    qed
    ultimately show ?thesis using up(2,6) down(2) by (intro exI [of _ "lo' @ (p, j + n') # hi'"]) auto
  qed
qed

text \<open>The bytes a call may have changed: the header of \<open>base\<close> and the blocks of the list.\<close>

definition untouched :: "heap_state \<Rightarrow> (u32 \<times> nat) list \<Rightarrow> heap_state \<Rightarrow> bool" where
  "untouched s bs t \<longleftrightarrow>
     (\<forall>x. unat x \<notin> {unat (hbase s)..<unat (hbase s) + 8} \<union> cells bs \<longrightarrow> umem t x = umem s x)"

text \<open>A block of \<open>n\<close> units with its header at \<open>b\<close> that is in use.\<close>

definition in_use :: "heap_state \<Rightarrow> (u32 \<times> nat) list \<Rightarrow> u32 \<Rightarrow> nat \<Rightarrow> bool" where
  "in_use s bs b n \<longleftrightarrow> 1 \<le> n \<and> ld32 (b + 4) (umem s) = of_nat n \<and> unat (hbase s) + 8 \<le> unat b
     \<and> unat b + 8 * n \<le> unat (brk s) \<and> {unat b..<unat b + 8 * n} \<inter> cells bs = {}"

lemma same_but_untouched:
  assumes "same_but a m m'" and "{unat a..<unat a + 8} \<subseteq> A" and "unat x \<notin> A"
  shows "m' x = m x"
proof -
  have "unat x \<notin> {unat a..<unat a + 8}" using assms(2,3) by blast
  then show ?thesis using assms(1) by (auto simp: same_but_def)
qed

lemma header_in:
  assumes "spaced l bs h" and "p \<in> insert base (fst ` set bs)"
  shows "{unat p..<unat p + 8} \<subseteq> {unat base..<unat base + 8} \<union> cells bs"
proof (cases "p = base")
  case False
  then obtain k where "(p, k) \<in> set bs" using assms(2) by auto
  with spaced_mem [OF assms(1) this] show ?thesis by (fastforce simp: cells_def)
qed auto

lemma free_ok:
  assumes "rep s bs" and "in_use s bs bp n"
  shows "\<exists>t bs'. free (bp + 8) s = Some t \<and> rep t bs' \<and> cells bs' = cells bs \<union> {unat bp..<unat bp + 8 * n}
    \<and> brk t = brk s \<and> hbase t = hbase s \<and> untouched s bs' t \<and> (\<exists>x \<in> set bs'. n \<le> snd x)"
proof -
  have r: "seg (umem s) (hbase s) ((hbase s, 0) # bs) (hbase s)" "spaced (unat (hbase s) + 8) bs (unat (brk s))"
    "freep s \<in> insert (hbase s) (fst ` set bs)" "hbase s \<noteq> 0"
    using assms(1) by (simp_all add: rep_def)
  have u: "1 \<le> n" "ld32 (bp + 4) (umem s) = of_nat n" "unat (hbase s) + 8 \<le> unat bp"
    "unat bp + 8 * n \<le> unat (brk s)" "{unat bp..<unat bp + 8 * n} \<inter> cells bs = {}"
    using assms(2) by (simp_all add: in_use_def)
  obtain lo hi where bs: "bs = lo @ hi" and lo: "spaced (unat (hbase s) + 8) lo (unat bp)"
    and hi: "spaced (unat bp + 8 * n) hi (unat (brk s))"
    using spaced_split [OF r(2) u(3,4) _ u(5)] u(1) by auto
  let ?p = "fst (last ((hbase s, 0 :: nat) # lo))"
  have place: "free_place bp (freep s) (umem s) = Some ?p"
    by (rule free_place_ends [OF r(1) [unfolded bs] lo hi]) (use u(1) r(3) bs less_imp_le [OF unat_lt32] in \<open>simp_all\<close>)
  obtain bs' m1 where b': "seg (free_link bp ?p (umem s)) (hbase s) ((hbase s, 0) # bs') (hbase s)"
    "spaced (unat (hbase s) + 8) bs' (unat (brk s))" "cells bs' = cells (lo @ hi) \<union> {unat bp..<unat bp + 8 * n}"
    "?p \<in> insert (hbase s) (fst ` set bs')" "same_but bp (umem s) m1" "same_but ?p m1 (free_link bp ?p (umem s))"
    "\<exists>x \<in> set bs'. n \<le> snd x"
    using free_link_rep [OF r(1) [unfolded bs] lo hi u(1) unat_lt32 u(2) refl] by blast
  let ?t = "s\<lparr>umem := free_link bp ?p (umem s), freep := ?p\<rparr>"
  have "free (bp + 8) s = Some ?t" by (simp add: free_def place)
  moreover have "rep ?t bs'" using b'(1,2,4) r(4) by (simp add: rep_def)
  moreover have "untouched s bs' ?t"
  proof -
    note header_in [OF b'(2,4)]
    then have "free_link bp ?p (umem s) x = m1 x" if "unat x \<notin> {unat (hbase s)..<unat (hbase s) + 8} \<union> cells bs'" for x
      using same_but_untouched [OF b'(6) _ that] by blast
    moreover have "{unat bp..<unat bp + 8} \<subseteq> cells bs'" unfolding b'(3) using u(1) by auto
    then have "m1 x = umem s x" if "unat x \<notin> cells bs'" for x
      using same_but_untouched [OF b'(5) _ that] by blast
    ultimately show ?thesis by (simp add: untouched_def)
  qed
  ultimately show ?thesis using b'(3,7) unfolding bs by (intro exI [of _ ?t] exI [of _ bs']) simp
qed

section \<open>Taking a block\<close>

lemma rep_addr:
  assumes "rep s bs" and "(a, n) \<in> set bs"
  shows "hdr a" and "clear (hbase s) a" and "hdr (hbase s)" and "unat a + 8 * n \<le> unat (brk s)" and "1 \<le> n"
    and "unat (hbase s) + 8 \<le> unat a"
  using spaced_mem [of "unat (hbase s) + 8" bs "unat (brk s)" a n] assms less_imp_le [OF unat_lt32, of "brk s"]
  by (auto simp: rep_def hdr_def clear_def)

text \<open>In the list the block before \<open>a\<close> is the one whose pointer is \<open>a\<close>.\<close>

lemma rep_pred:
  assumes "rep s bs" and "prev \<in> insert (hbase s) (fst ` set bs)" and "ld32 prev (umem s) = a" and "a \<noteq> hbase s"
  shows "\<exists>l1 j n l2. (hbase s, 0) # bs = l1 @ (prev, j) # (a, n) # l2"
proof -
  let ?full = "(hbase s, 0 :: nat) # bs"
  have "prev \<in> fst ` set ?full" using assms(2) by simp
  then obtain l1 j l2 where l: "?full = l1 @ (prev, j) # l2" using block_at [of prev ?full] by blast
  have "seg (umem s) (hbase s) ?full (hbase s)" using assms(1) by (simp add: rep_def)
  then have s2: "seg (umem s) a l2 (hbase s)" unfolding l using assms(3) by (auto simp: seg_append)
  show ?thesis
  proof (cases l2)
    case Nil
    then show ?thesis using s2 assms(4) by simp
  next
    case (Cons y l3)
    obtain b n where y: "y = (b, n)" by (cases y)
    then have "b = a" using s2 Cons by simp
    then show ?thesis using l unfolding Cons y by blast
  qed
qed

text \<open>The blocks that are too small are passed over.\<close>

lemma malloc_skip:
  assumes "seg (umem s) p small q" and "\<And>a n. (a, n) \<in> set small \<Longrightarrow> of_nat n < nu \<and> a \<noteq> freep s"
    and "prev \<in> A" and "fst ` set small \<subseteq> A" and "ld32 prev (umem s) = p"
  shows "\<exists>prev'. malloc_loop g nu prev p s = malloc_loop g nu prev' q s \<and> prev' \<in> A \<and> ld32 prev' (umem s) = q"
  using assms
proof (induction small arbitrary: prev p)
  case (Cons x small)
  obtain a n where x: "x = (a, n)" by (cases x)
  have "malloc_loop g nu prev p s = malloc_loop g nu a (ld32 a (umem s)) s"
  proof -
    have "p = a" "ld32 (a + 4) (umem s) = of_nat n" "\<not> nu \<le> of_nat n" "a \<noteq> freep s"
      using Cons.prems(1) Cons.prems(2) [of a n] by (simp_all add: x not_le)
    then show ?thesis by (subst malloc_loop.simps) (simp add: Let_def)
  qed
  moreover have "\<exists>prev'. malloc_loop g nu a (ld32 a (umem s)) s = malloc_loop g nu prev' q s
      \<and> prev' \<in> A \<and> ld32 prev' (umem s) = q"
    using Cons.prems by (intro Cons.IH) (auto simp: x)
  ultimately show ?case by simp
qed auto

lemma seg_mem: "seg m p bs q \<Longrightarrow> (a, n) \<in> set bs \<Longrightarrow> ld32 (a + 4) m = of_nat n"
  by (induction m p bs q rule: seg.induct) auto

lemma cells_range: "spaced l bs h \<Longrightarrow> cells bs \<subseteq> {l..<h}"
  using spaced_mem by (fastforce simp: cells_def)

text \<open>The blocks before and behind one of the list.\<close>

lemma rep_order:
  assumes "rep s bs" and "(hbase s, 0) # bs = xs @ (a, n) # ys"
  shows "\<forall>x \<in> set xs. unat (fst x) + 8 \<le> unat a" and "\<forall>y \<in> set ys. unat a + 8 \<le> unat (fst y) \<and> unat a + 8 * n \<le> unat (fst y)"
    and "\<forall>x \<in> set (xs @ (a, n) # ys). hdr (fst x)"
proof -
  have sp: "spaced (unat (hbase s) + 8) bs (unat (brk s))" using assms(1) by (simp add: rep_def)
  note m = spaced_mem [OF sp]
  have top: "unat (brk s) \<le> 4294967295" using unat_lt32 [of "brk s"] by linarith
  have "unat (hbase s) + 8 \<le> unat (brk s)" using spaced_le [OF sp] .
  then show "\<forall>x \<in> set (xs @ (a, n) # ys). hdr (fst x)"
    unfolding assms(2) [symmetric] using m top by (fastforce simp: hdr_def)
  show "\<forall>x \<in> set xs. unat (fst x) + 8 \<le> unat a"
  proof (cases xs)
    case (Cons x xs')
    then have b: "x = (hbase s, 0)" "bs = xs' @ (a, n) # ys" using assms(2) by auto
    then obtain k where k: "spaced (unat (hbase s) + 8) xs' k" "k \<le> unat a" using sp by (auto simp: spaced_append)
    have "unat (fst y) + 8 \<le> unat a" if "y \<in> set xs'" for y
      using spaced_mem [OF k(1), of "fst y" "snd y"] that k(2) by simp
    then show ?thesis using spaced_le [OF k(1)] k(2) unfolding Cons b(1) by simp
  qed simp
  show "\<forall>y \<in> set ys. unat a + 8 \<le> unat (fst y) \<and> unat a + 8 * n \<le> unat (fst y)"
  proof
    fix y assume y: "y \<in> set ys"
    show "unat a + 8 \<le> unat (fst y) \<and> unat a + 8 * n \<le> unat (fst y)"
    proof (cases xs)
      case Nil
      then have "a = hbase s" "n = 0" "ys = bs" using assms(2) by auto
      then show ?thesis using m [of "fst y" "snd y"] y by simp
    next
      case (Cons x xs')
      then have "bs = xs' @ (a, n) # ys" using assms(2) by auto
      then have "1 \<le> n" "spaced (unat a + 8 * n) ys (unat (brk s))" using sp by (auto simp: spaced_append)
      then show ?thesis using spaced_mem [of "unat a + 8 * n" ys "unat (brk s)" "fst y" "snd y"] y by simp
    qed
  qed
qed

text \<open>A block that is large enough is taken whole, or loses its tail.\<close>

lemma malloc_takes:
  assumes rep: "rep s bs" and prev: "prev \<in> insert (hbase s) (fst ` set bs)" "ld32 prev (umem s) = a"
    and a: "(a, n0) \<in> set bs" and k: "1 \<le> k" "k \<le> n0"
  shows "\<exists>b t bs'. malloc_loop g (of_nat k) prev a s = Some (b + 8, t) \<and> rep t bs' \<and> in_use t bs' b k
    \<and> cells bs' \<union> {unat b..<unat b + 8 * k} = cells bs \<and> brk t = brk s \<and> hbase t = hbase s \<and> untouched s bs t"
proof -
  note ra = rep_addr [OF rep a]
  let ?m = "umem s"
  have ab: "a \<noteq> hbase s" using ra(2) by (auto simp: clear_def)
  obtain l1 j n l2 where full: "(hbase s, 0) # bs = l1 @ (prev, j) # (a, n) # l2"
    using rep_pred [OF rep prev ab] by auto
  obtain pre where pre: "(hbase s, 0) # pre = l1 @ [(prev, j)]" and bs: "bs = pre @ (a, n) # l2"
    using full by (cases l1) auto
  have sg: "seg ?m (hbase s) ((hbase s, 0) # bs) (hbase s)" and sp: "spaced (unat (hbase s) + 8) bs (unat (brk s))"
    using rep by (simp_all add: rep_def)
  have szs: "ld32 (a + 4) ?m = of_nat n" "seg ?m (hbase s) l1 prev" "ld32 (prev + 4) ?m = of_nat j"
    "seg ?m (ld32 a ?m) l2 (hbase s)"
    using sg unfolding full seg_append by auto
  obtain k0 where k0: "spaced (unat (hbase s) + 8) pre k0" "k0 \<le> unat a" "1 \<le> n" "spaced (unat a + 8 * n) l2 (unat (brk s))"
    using sp unfolding bs spaced_append by auto
  have top: "unat (brk s) \<le> 4294967295" using unat_lt32 [of "brk s"] by linarith
  have nb: "unat a + 8 * n \<le> unat (brk s)" using spaced_le [OF k0(4)] .
  have "(of_nat n0 :: u32) = of_nat n"
    using seg_mem [OF sg, of a n0] a szs(1) by simp
  then have n0: "n0 = n" using of_nat_inj32 [of n0 n] ra(4) nb top by simp
  have f2: "(hbase s, 0) # bs = (l1 @ [(prev, j)]) @ (a, n) # l2" using full by simp
  note ord = rep_order [OF rep f2] and ordp = rep_order [OF rep full]
  have hp: "hdr prev" "unat prev + 8 \<le> unat a" "hdr a" using ord by auto
  have cl: "cells pre \<subseteq> {unat (hbase s) + 8..<k0}" "cells l2 \<subseteq> {unat a + 8 * n..<unat (brk s)}"
    using cells_range [OF k0(1)] cells_range [OF k0(4)] .
  have bb: "unat (hbase s) + 8 \<le> unat a" using spaced_le [OF k0(1)] k0(2) by simp
  have prevset: "prev \<in> insert (hbase s) (fst ` set (pre @ xs))" for xs
  proof -
    have "(prev, j) \<in> set ((hbase s, 0) # pre)" unfolding pre by simp
    then show ?thesis by (auto intro: rev_image_eqI)
  qed
  have full': "(hbase s, 0) # pre @ xs = l1 @ (prev, j) # xs" for xs
    using arg_cong [OF pre, of "\<lambda>zs. zs @ xs"] by simp
  show ?thesis
  proof (cases "k = n")
    case True
    let ?t = "s\<lparr>umem := st32 prev (ld32 a ?m) ?m, freep := prev\<rparr>"
    have sb: "same_but prev ?m (umem ?t)" using same_but_st32(1) [OF hp(1)] by simp
    have "seg (umem ?t) (hbase s) l1 prev"
      by (rule same_but_seg [OF sb szs(2)]) (use ordp(1,3) in \<open>force simp: clear_def\<close>)
    moreover have "seg (umem ?t) (ld32 a ?m) l2 (hbase s)"
      by (rule same_but_seg [OF sb szs(4)]) (use ordp(2,3) in \<open>force simp: clear_def\<close>)
    moreover have "ld32 prev (umem ?t) = ld32 a ?m" "ld32 (prev + 4) (umem ?t) = of_nat j"
      using hdr_own(2) [OF hp(1)] szs(3) by simp_all
    ultimately have "seg (umem ?t) (hbase s) ((hbase s, 0) # pre @ l2) (hbase s)"
      unfolding full' by (simp add: seg_append)
    moreover have "spaced (unat (hbase s) + 8) (pre @ l2) (unat (brk s))"
      using k0 spaced_mono [OF k0(4), of k0] by (auto simp: spaced_append)
    ultimately have r: "rep ?t (pre @ l2)" using rep prevset by (simp add: rep_def)
    have "malloc_loop g (of_nat k) prev a s = Some (a + 8, ?t)"
      using szs(1) True by (subst malloc_loop.simps) (simp add: Let_def)
    moreover have "ld32 (a + 4) (umem ?t) = of_nat k"
      using same_but_hdr(2) [OF sb _ hp(3)] hp(2) szs(1) True by (simp add: clear_def)
    then have "in_use ?t (pre @ l2) a k"
      using k(1) True cl k0(2) bb nb by (fastforce simp: in_use_def)
    moreover have "cells (pre @ l2) \<union> {unat a..<unat a + 8 * k} = cells bs" unfolding bs True by auto
    moreover have "umem ?t x = ?m x" if "unat x \<notin> {unat (hbase s)..<unat (hbase s) + 8} \<union> cells bs" for x
      using same_but_untouched [OF sb header_in [OF sp prev(1)] that] .
    then have "untouched s bs ?t" by (simp add: untouched_def)
    ultimately show ?thesis using r by (intro exI [of _ a] exI [of _ ?t] exI [of _ "pre @ l2"]) simp
  next
    case False
    then have kn: "k < n" using k(2) n0 by simp
    define b where "b = a + 8 * of_nat (n - k)"
    let ?t = "s\<lparr>umem := st32 (b + 4) (of_nat k) (st32 (a + 4) (of_nat (n - k)) ?m), freep := prev\<rparr>"
    have ub: "unat b = unat a + 8 * (n - k)" unfolding b_def using nb top by (intro unat_end) simp
    have hb: "hdr b" using ub nb top kn k(1) by (simp add: hdr_def)
    have w: "(of_nat n :: u32) - of_nat k = of_nat (n - k)" using kn by (simp add: of_nat_diff)
    have sb1: "same_but a ?m (st32 (a + 4) (of_nat (n - k)) ?m)" by (rule same_but_st32(2) [OF hp(3)])
    have sb2: "same_but b (st32 (a + 4) (of_nat (n - k)) ?m) (umem ?t)" using same_but_st32(2) [OF hb] by simp
    have keep: "seg (umem ?t) p xs q" if "seg ?m p xs q" "\<forall>x \<in> set xs. hdr (fst x) \<and>
        (unat (fst x) + 8 \<le> unat a \<or> unat a + 8 * n \<le> unat (fst x))" for p xs q
    proof -
      have "seg (st32 (a + 4) (of_nat (n - k)) ?m) p xs q"
        by (rule same_but_seg [OF sb1 that(1)]) (use that(2) k0(3) in \<open>force simp: clear_def\<close>)
      then show ?thesis
        by (rule same_but_seg [OF sb2]) (use that(2) kn k(1) ub in \<open>force simp: clear_def\<close>)
    qed
    have "seg ?m (hbase s) (l1 @ [(prev, j)]) a" using szs(2,3) prev(2) by (simp add: seg_append)
    then have "seg (umem ?t) (hbase s) (l1 @ [(prev, j)]) a" by (rule keep) (use ord(1,3) in auto)
    moreover have "seg (umem ?t) (ld32 a ?m) l2 (hbase s)" by (rule keep [OF szs(4)]) (use ord(2,3) in auto)
    moreover have ca: "clear a b" using ub kn by (simp add: clear_def)
    then have "ld32 a (umem ?t) = ld32 a ?m" "ld32 (a + 4) (umem ?t) = of_nat (n - k)"
      using hdr_frame(2,4) [OF ca hp(3) hb] hdr_own(1) [OF hp(3)] by simp_all
    ultimately have "seg (umem ?t) (hbase s) ((hbase s, 0) # pre @ (a, n - k) # l2) (hbase s)"
      unfolding full' by (auto simp: seg_append)
    moreover have "spaced (unat (hbase s) + 8) (pre @ (a, n - k) # l2) (unat (brk s))"
      using k0 kn spaced_mono [OF k0(4), of "unat a + 8 * (n - k)"] by (auto simp: spaced_append)
    ultimately have r: "rep ?t (pre @ (a, n - k) # l2)"
      using rep prevset [of "(a, n - k) # l2"] by (simp add: rep_def)
    have "\<not> (of_nat n :: u32) < of_nat k" "(of_nat n :: u32) \<noteq> of_nat k"
      using kn nb top by (simp_all add: word_less_nat_alt unat_of_nat32 of_nat_inj32)
    then have "malloc_loop g (of_nat k) prev a s = Some (b + 8, ?t)"
      using szs(1) w by (subst malloc_loop.simps) (simp add: Let_def b_def not_less)
    moreover have "ld32 (b + 4) (umem ?t) = of_nat k" by simp
    then have "in_use ?t (pre @ (a, n - k) # l2) b k"
      using k(1) kn cl k0(2) bb nb ub by (fastforce simp: in_use_def)
    moreover have "cells (pre @ (a, n - k) # l2) \<union> {unat b..<unat b + 8 * k} = cells bs"
    proof -
      have "{unat a..<unat a + 8 * n} = {unat a..<unat a + 8 * (n - k)} \<union> {unat b..<unat b + 8 * k}"
        unfolding ub using kn by auto
      then show ?thesis unfolding bs by auto
    qed
    moreover have "umem ?t x = ?m x" if "unat x \<notin> {unat (hbase s)..<unat (hbase s) + 8} \<union> cells bs" for x
    proof -
      have "{unat a..<unat a + 8} \<subseteq> cells bs" "{unat b..<unat b + 8} \<subseteq> cells bs"
        unfolding bs using ub kn k(1) by auto
      then show ?thesis using same_but_untouched [OF sb1 _, of "cells bs" x] same_but_untouched [OF sb2 _, of "cells bs" x] that
        by simp
    qed
    then have "untouched s bs ?t" by (simp add: untouched_def)
    ultimately show ?thesis using r by (intro exI [of _ b] exI [of _ ?t] exI [of _ "pre @ (a, n - k) # l2"]) simp
  qed
qed

text \<open>The walk of \<open>malloc\<close> around the list, which starts behind \<open>freep\<close> and ends at it.\<close>

lemma rep_round:
  assumes "rep s bs"
  shows "\<exists>xs f. seg (umem s) (ld32 (freep s) (umem s)) (xs @ [(freep s, f)]) (ld32 (freep s) (umem s))
    \<and> set (xs @ [(freep s, f)]) = set ((hbase s, 0) # bs) \<and> freep s \<notin> fst ` set xs"
proof -
  have r: "seg (umem s) (hbase s) ((hbase s, 0) # bs) (hbase s)" "freep s \<in> fst ` set ((hbase s, 0 :: nat) # bs)"
    using assms by (simp_all add: rep_def)
  obtain l1 f l2 where l: "(hbase s, 0) # bs = l1 @ (freep s, f) # l2" using block_at [OF r(2)] by blast
  have "seg (umem s) (ld32 (freep s) (umem s)) (l2 @ l1 @ [(freep s, f)]) (ld32 (freep s) (umem s))"
    using r(1) unfolding l by (auto simp: seg_append)
  moreover have "set ((l2 @ l1) @ [(freep s, f)]) = set ((hbase s, 0) # bs)" unfolding l by auto
  moreover have "freep s \<notin> fst ` set (l2 @ l1)"
    using rep_order(1,2) [OF assms l] by fastforce
  ultimately show ?thesis by (intro exI [of _ "l2 @ l1"] exI [of _ f]) simp
qed

definition big :: "nat \<Rightarrow> (u32 \<times> nat) list \<Rightarrow> bool" where
  "big k bs \<longleftrightarrow> (\<exists>x \<in> set bs. k \<le> snd x)"

lemma malloc_finds:
  assumes rep: "rep s bs" and k: "1 \<le> k" "8 * k < 4294967296" and big: "big k bs"
  shows "\<exists>b t bs'. malloc_loop g (of_nat k) (freep s) (ld32 (freep s) (umem s)) s = Some (b + 8, t)
    \<and> rep t bs' \<and> in_use t bs' b k \<and> cells bs' \<union> {unat b..<unat b + 8 * k} = cells bs
    \<and> brk t = brk s \<and> hbase t = hbase s \<and> untouched s bs t"
proof -
  let ?A = "insert (hbase s) (fst ` set bs)" and ?p = "ld32 (freep s) (umem s)"
  obtain xs f where x: "seg (umem s) ?p (xs @ [(freep s, f)]) ?p"
    "set (xs @ [(freep s, f)]) = set ((hbase s, 0) # bs)" "freep s \<notin> fst ` set xs"
    using rep_round [OF rep] by blast
  have sz: "n < 536870912" if "(a, n) \<in> set ((hbase s, 0) # bs)" for a n
  proof (cases "(a, n) \<in> set bs")
    case True
    show ?thesis using rep_addr(4) [OF rep True] unat_lt32 [of "brk s"] by linarith
  qed (use that in simp)
  have "\<exists>y \<in> set (xs @ [(freep s, f)]). k \<le> snd y" using big unfolding x(2) by (auto simp: big_def)
  then obtain small y rest where sp: "xs @ [(freep s, f)] = small @ y # rest" "k \<le> snd y"
    "\<forall>z \<in> set small. \<not> k \<le> snd z"
    using split_list_first_prop [of "xs @ [(freep s, f)]" "\<lambda>y. k \<le> snd y"] by blast
  obtain a n where y: "y = (a, n)" by (cases y)
  have an: "(a, n) \<in> set bs"
  proof -
    have "(a, n) \<in> set ((hbase s, 0) # bs)" unfolding x(2) [symmetric] sp(1) y by simp
    then show ?thesis using sp(2) k(1) y by auto
  qed
  have small: "set small \<subseteq> set xs"
    using sp(1) by (cases rest rule: rev_cases) auto
  have seg: "seg (umem s) ?p small a" using x(1) unfolding sp(1) y seg_append by auto
  have fp: "freep s \<in> ?A" using rep by (simp add: rep_def)
  have "\<exists>prev'. malloc_loop g (of_nat k) (freep s) ?p s = malloc_loop g (of_nat k) prev' a s \<and> prev' \<in> ?A \<and> ld32 prev' (umem s) = a"
  proof (rule malloc_skip [OF seg _ fp _ refl])
    fix c w assume c: "(c, w) \<in> set small"
    then have "(c, w) \<in> set ((hbase s, 0) # bs)" using small x(2) by auto
    then have "w < 536870912" by (rule sz)
    moreover have "w < k" using sp(3) c by force
    ultimately have "(of_nat w :: u32) < of_nat k"
      using k(2) by (simp add: word_less_nat_alt unat_of_nat32)
    moreover have "c \<noteq> freep s" using c small x(3) by force
    ultimately show "of_nat w < (of_nat k :: u32) \<and> c \<noteq> freep s" by simp
  next
    have "set small \<subseteq> set ((hbase s, 0) # bs)" using small x(2) by auto
    then show "fst ` set small \<subseteq> ?A" by auto
  qed
  then obtain prev where prev: "malloc_loop g (of_nat k) (freep s) ?p s = malloc_loop g (of_nat k) prev a s"
    "prev \<in> ?A" "ld32 prev (umem s) = a" by blast
  show ?thesis using malloc_takes [OF rep prev(2,3) an k(1)] sp(2) y unfolding prev(1) by simp
qed

text \<open>With no block large enough the walk comes back to \<open>freep\<close> and asks for more.\<close>

lemma malloc_asks:
  assumes rep: "rep s bs" and k: "1 \<le> k" "8 * k < 4294967296" and none: "\<not> big k bs"
  shows "malloc_loop g (of_nat k) (freep s) (ld32 (freep s) (umem s)) s =
    (case morecore g (of_nat k) s of None \<Rightarrow> None
     | Some (p, t) \<Rightarrow> if p = 0 then Some (0, t) else malloc_loop g (of_nat k) p (ld32 p (umem t)) t)"
proof -
  let ?A = "insert (hbase s) (fst ` set bs)" and ?p = "ld32 (freep s) (umem s)"
  obtain xs f where x: "seg (umem s) ?p (xs @ [(freep s, f)]) ?p"
    "set (xs @ [(freep s, f)]) = set ((hbase s, 0) # bs)" "freep s \<notin> fst ` set xs"
    using rep_round [OF rep] by blast
  have sz: "(of_nat n :: u32) < of_nat k" if "(a, n) \<in> set ((hbase s, 0) # bs)" for a n
  proof -
    have "n < k" using that none k(1) by (force simp: big_def)
    then show ?thesis using k(2) by (simp add: word_less_nat_alt unat_of_nat32)
  qed
  have seg: "seg (umem s) ?p xs (freep s)" "ld32 (freep s + 4) (umem s) = of_nat f"
    using x(1) by (auto simp: seg_append)
  have fp: "freep s \<in> ?A" using rep by (simp add: rep_def)
  have "\<exists>prev'. malloc_loop g (of_nat k) (freep s) ?p s = malloc_loop g (of_nat k) prev' (freep s) s
      \<and> prev' \<in> ?A \<and> ld32 prev' (umem s) = freep s"
  proof (rule malloc_skip [OF seg(1) _ fp _ refl])
    fix c w assume c: "(c, w) \<in> set xs"
    then have "(c, w) \<in> set ((hbase s, 0) # bs)" using x(2) by auto
    moreover have "c \<noteq> freep s" using c x(3) by force
    ultimately show "of_nat w < (of_nat k :: u32) \<and> c \<noteq> freep s" using sz by blast
  next
    have "set xs \<subseteq> set ((hbase s, 0) # bs)" using x(2) by auto
    then show "fst ` set xs \<subseteq> ?A" by auto
  qed
  moreover have "(freep s, f) \<in> set ((hbase s, 0) # bs)" using x(2) by auto
  then have "\<not> of_nat k \<le> (of_nat f :: u32)" using sz by (simp add: not_le)
  then have "malloc_loop g (of_nat k) prev' (freep s) s =
    (case morecore g (of_nat k) s of None \<Rightarrow> None
     | Some (p, t) \<Rightarrow> if p = 0 then Some (0, t) else malloc_loop g (of_nat k) p (ld32 p (umem t)) t)" for prev'
    using seg(2) by (subst malloc_loop.simps) (simp add: Let_def split: option.split)
  ultimately show ?thesis by auto
qed

section \<open>Asking the kernel for memory\<close>

lemma rep_more:
  assumes rep: "rep s bs" and w: "unat (brk s) + 8 * w \<le> 0x80000000" and k: "1 \<le> w"
  defines "t \<equiv> s\<lparr>brk := brk s + 8 * of_nat w, umem := st32 (brk s + 4) (of_nat w) (umem s)\<rparr>"
  shows "rep t bs" and "in_use t bs (brk s) w" and "unat (brk t) = unat (brk s) + 8 * w"
    and "same_but (brk s) (umem s) (umem t)"
proof -
  have sp: "spaced (unat (hbase s) + 8) bs (unat (brk s))" and sg: "seg (umem s) (hbase s) ((hbase s, 0) # bs) (hbase s)"
    using rep by (simp_all add: rep_def)
  show u: "unat (brk t) = unat (brk s) + 8 * w"
    using w unfolding t_def by (simp add: unat_end)
  have hb: "hdr (brk s)" using w k by (simp add: hdr_def)
  show sb: "same_but (brk s) (umem s) (umem t)"
    unfolding t_def using same_but_st32(2) [OF hb] by simp
  have "clear (hbase s) (brk s) \<and> hdr (hbase s)"
    using spaced_le [OF sp] w by (simp add: clear_def hdr_def)
  moreover have "clear a (brk s) \<and> hdr a" if "(a, n) \<in> set bs" for a n
    using below_clear(1,3) [OF sp that] w by simp
  ultimately have "seg (umem t) (hbase s) ((hbase s, 0) # bs) (hbase s)"
    by (intro same_but_seg [OF sb sg]) auto
  moreover have "spaced (unat (hbase s) + 8) bs (unat (brk t))"
    using sp u by (auto intro: spaced_mono)
  ultimately show "rep t bs" using rep by (simp add: rep_def t_def)
  have "cells bs \<subseteq> {..<unat (brk s)}" using cells_range [OF sp] by auto
  then show "in_use t bs (brk s) w"
    using k u spaced_le [OF sp] by (auto simp: in_use_def t_def)
qed

lemma rep_freep: "rep s bs \<Longrightarrow> freep s \<noteq> 0"
  using rep_addr(6) [of s bs] by (force simp: rep_def)

lemma morecore_ok:
  assumes rep: "rep s bs" and k: "1 \<le> k" "8 * k < 4294967296"
    and g: "\<And>b n. g b n \<Longrightarrow> unat b + unat n \<le> 0x80000000"
  defines "w \<equiv> max 4096 k"
  shows "if g (brk s) (8 * of_nat w) then
     \<exists>t bs'. morecore g (of_nat k) s = Some (freep t, t) \<and> rep t bs'
       \<and> cells bs' = cells bs \<union> {unat (brk s)..<unat (brk t)} \<and> hbase t = hbase s
       \<and> unat (brk s) \<le> unat (brk t) \<and> big k bs' \<and> untouched s bs' t
     else morecore g (of_nat k) s = Some (0, s)"
proof -
  have wk: "8 * w < 4294967296" "1 \<le> w" "k \<le> w" using k by (auto simp: w_def)
  have nu: "(if (of_nat k :: u32) < 4096 then 4096 else of_nat k) = (of_nat w :: u32)"
    using k by (auto simp: w_def max_def word_less_nat_alt unat_of_nat32)
  show ?thesis
  proof (cases "g (brk s) (8 * of_nat w)")
    case True
    have "unat (8 * of_nat w :: u32) = 8 * w" using wk unat_of_nat32 [of "8 * w"] by simp
    then have top: "unat (brk s) + 8 * w \<le> 0x80000000" using g [OF True] by simp
    then have nm: "brk s \<noteq> 0xFFFFFFFF" by auto
    let ?s1 = "s\<lparr>brk := brk s + 8 * of_nat w, umem := st32 (brk s + 4) (of_nat w) (umem s)\<rparr>"
    note r1 = rep_more [OF rep top wk(2)]
    obtain t bs' where t: "free (brk s + 8) ?s1 = Some t" "rep t bs'"
      "cells bs' = cells bs \<union> {unat (brk s)..<unat (brk s) + 8 * w}" "brk t = brk ?s1" "hbase t = hbase s"
      "untouched ?s1 bs' t" "\<exists>x \<in> set bs'. w \<le> snd x"
      using free_ok [OF r1(1,2)] by auto
    have "morecore g (of_nat k) s = Some (freep t, t)"
      using True nm t(1) by (simp add: morecore_def nu sbrk_def mult.commute)
    moreover have "unat (brk t) = unat (brk s) + 8 * w" using t(4) r1(3) by simp
    moreover have "big k bs'" using t(7) wk(3) unfolding big_def by (meson le_trans)
    moreover have "untouched s bs' t"
    proof -
      have "{unat (brk s)..<unat (brk s) + 8} \<subseteq> cells bs'" unfolding t(3) using wk(2) by auto
      then have "umem ?s1 x = umem s x" if "unat x \<notin> cells bs'" for x
        using same_but_untouched [OF r1(4) _ that] by blast
      then show ?thesis using t(6) by (simp add: untouched_def)
    qed
    ultimately show ?thesis using True t(2,3,5) by (auto intro!: exI [of _ t] exI [of _ bs'])
  next
    case False
    then show ?thesis by (simp add: morecore_def nu sbrk_def mult.commute)
  qed
qed

section \<open>The calls\<close>

text \<open>The list before the first call is empty.\<close>

definition heap_ok :: "heap_state \<Rightarrow> (u32 \<times> nat) list \<Rightarrow> bool" where
  "heap_ok s bs \<longleftrightarrow> rep s bs \<or>
     freep s = 0 \<and> bs = [] \<and> hbase s \<noteq> 0 \<and> unat (hbase s) + 8 \<le> unat (brk s)"

lemma units_bounds:
  assumes "unat nbytes < 0x7FFFFFF0"
  shows "unat nbytes + 8 \<le> 8 * unat (units nbytes)" and "8 * unat (units nbytes) \<le> unat nbytes + 15"
proof -
  have "unat (nbytes + 7) = unat nbytes + 7" using assms unat_add_of_nat32 [of nbytes 7] by simp
  then have d: "unat ((nbytes + 7) div 8) = (unat nbytes + 7) div 8"
    using unat_div_distrib [of "nbytes + 7" 8] by simp
  have "unat ((nbytes + 7) div 8 + 1) = (unat nbytes + 7) div 8 + 1"
    using d assms unat_add_of_nat32 [of "(nbytes + 7) div 8" 1] by simp
  then have u: "unat (units nbytes) = (unat nbytes + 7) div 8 + 1"
    by (simp add: units_def add.commute [of 7])
  show "unat nbytes + 8 \<le> 8 * unat (units nbytes)" "8 * unat (units nbytes) \<le> unat nbytes + 15"
    unfolding u by auto
qed

lemma untouched_in_use:
  assumes "in_use s bs c w" and "\<And>x. unat x \<notin> {unat (hbase s)..<unat (hbase s) + 8} \<union> B \<Longrightarrow> umem t x = umem s x"
    and "{unat c..<unat c + 8 * w} \<inter> B = {}" and "hbase t = hbase s" and "unat (brk s) \<le> unat (brk t)"
    and "cells bs' \<subseteq> B"
  shows "in_use t bs' c w"
proof -
  have u: "1 \<le> w" "ld32 (c + 4) (umem s) = of_nat w" "unat (hbase s) + 8 \<le> unat c" "unat c + 8 * w \<le> unat (brk s)"
    using assms(1) by (simp_all add: in_use_def)
  have hc: "unat c + 8 \<le> 4294967295" using u unat_lt32 [of "brk s"] by linarith
  have "umem t (c + of_nat i) = umem s (c + of_nat i)" if "i < 8" for i
  proof (rule assms(2))
    have "unat (c + of_nat i) = unat c + i" using that hc by (intro unat_add_of_nat32) simp
    then show "unat (c + of_nat i) \<notin> {unat (hbase s)..<unat (hbase s) + 8} \<union> B"
      using that u(1,3) assms(3) by (auto simp: disjoint_iff)
  qed
  from this [of 4] this [of 5] this [of 6] this [of 7]
  have "ld32 (c + 4) (umem t) = ld32 (c + 4) (umem s)" by (simp add: ld32_def add.assoc)
  then show ?thesis using u assms(3-6) by (fastforce simp: in_use_def)
qed

lemma malloc_rep:
  assumes rep: "rep s bs" and k: "1 \<le> k" "8 * k < 4294967296"
    and g: "\<And>b n. g b n \<Longrightarrow> unat b + unat n \<le> 0x80000000"
  shows "\<exists>r t bs'. malloc_loop g (of_nat k) (freep s) (ld32 (freep s) (umem s)) s = Some (r, t) \<and> rep t bs'
    \<and> hbase t = hbase s \<and> unat (brk s) \<le> unat (brk t) \<and>
    (if r = 0 then t = s \<and> bs' = bs \<and> \<not> g (brk s) (8 * of_nat (max 4096 k))
     else in_use t bs' (r - 8) k
       \<and> cells bs' \<union> {unat (r - 8)..<unat (r - 8) + 8 * k} = cells bs \<union> {unat (brk s)..<unat (brk t)}
       \<and> (\<forall>x. unat x \<notin> {unat (hbase s)..<unat (hbase s) + 8} \<union> (cells bs \<union> {unat (brk s)..<unat (brk t)}) \<longrightarrow>
            umem t x = umem s x))"
proof -
  have nz: "b + 8 \<noteq> 0" if "in_use t bs' b k" for b t bs'
  proof -
    have "unat b + 8 \<le> 4294967295" using that k(1) unat_lt32 [of "brk t"] by (simp add: in_use_def del: unat_lt32)
    then have "unat (b + 8) = unat b + 8" using unat_add_of_nat32 [of b 8] by simp
    then show ?thesis by auto
  qed
  show ?thesis
  proof (cases "big k bs")
    case True
    obtain b t bs' where t: "malloc_loop g (of_nat k) (freep s) (ld32 (freep s) (umem s)) s = Some (b + 8, t)"
      "rep t bs'" "in_use t bs' b k" "cells bs' \<union> {unat b..<unat b + 8 * k} = cells bs"
      "brk t = brk s" "hbase t = hbase s" "untouched s bs t"
      using malloc_finds [OF rep k True] by blast
    then show ?thesis using nz [OF t(3)]
      by (intro exI [of _ "b + 8"] exI [of _ t] exI [of _ bs']) (simp add: untouched_def)
  next
    case False
    note asks = malloc_asks [OF rep k False, of g]
    note more = morecore_ok [OF rep k g, of g]
    show ?thesis
    proof (cases "g (brk s) (8 * of_nat (max 4096 k))")
      case False
      then have "morecore g (of_nat k) s = Some (0, s)" using more by simp
      then show ?thesis using asks rep False by (intro exI [of _ 0] exI [of _ s] exI [of _ bs]) simp
    next
      case True
      then obtain u us where u: "morecore g (of_nat k) s = Some (freep u, u)" "rep u us"
        "cells us = cells bs \<union> {unat (brk s)..<unat (brk u)}" "hbase u = hbase s"
        "unat (brk s) \<le> unat (brk u)" "big k us" "untouched s us u"
        using more by auto
      obtain b t bs' where t: "malloc_loop g (of_nat k) (freep u) (ld32 (freep u) (umem u)) u = Some (b + 8, t)"
        "rep t bs'" "in_use t bs' b k" "cells bs' \<union> {unat b..<unat b + 8 * k} = cells us"
        "brk t = brk u" "hbase t = hbase u" "untouched u us t"
        using malloc_finds [OF u(2) k u(6)] by blast
      have "malloc_loop g (of_nat k) (freep s) (ld32 (freep s) (umem s)) s = Some (b + 8, t)"
        using asks u(1) t(1) rep_freep [OF u(2)] by simp
      then show ?thesis using nz [OF t(3)] t u
        by (intro exI [of _ "b + 8"] exI [of _ t] exI [of _ bs']) (simp add: untouched_def)
    qed
  qed
qed

lemma first_call:
  assumes "hbase s \<noteq> 0" and "unat (hbase s) + 8 \<le> unat (brk s)"
  defines "t \<equiv> s\<lparr>freep := hbase s, umem := st32 (hbase s + 4) 0 (st32 (hbase s) (hbase s) (umem s))\<rparr>"
  shows "rep t []" and "same_but (hbase s) (umem s) (umem t)"
proof -
  have h: "hdr (hbase s)" using assms(2) unat_lt32 [of "brk s"] unfolding hdr_def by linarith
  then show "rep t []" using assms(1,2) hdr_own(1) [OF h] by (simp add: rep_def t_def)
  show "same_but (hbase s) (umem s) (umem t)"
    using same_but_trans [OF same_but_st32(1) [OF h] same_but_st32(2) [OF h]] by (simp add: t_def)
qed

lemma malloc_ok:
  assumes ok: "heap_ok s bs" and g: "\<And>b n. g b n \<Longrightarrow> unat b + unat n \<le> 0x80000000"
    and n: "unat nbytes < 0x7FFFFFF0"
  defines "k \<equiv> unat (units nbytes)"
  shows "\<exists>r t bs'. malloc g nbytes s = Some (r, t) \<and> rep t bs' \<and> hbase t = hbase s \<and>
    (if r = 0 then cells bs' = cells bs \<and> brk t = brk s \<and> \<not> g (brk s) (8 * of_nat (max 4096 k))
     else in_use t bs' (r - 8) k
       \<and> cells bs' \<union> {unat (r - 8)..<unat (r - 8) + 8 * k} = cells bs \<union> {unat (brk s)..<unat (brk t)}
       \<and> (\<forall>c w. in_use s bs c w \<longrightarrow> in_use t bs' c w \<and> {unat c..<unat c + 8 * w} \<inter> {unat (r - 8)..<unat (r - 8) + 8 * k} = {}))"
proof -
  have k: "1 \<le> k" "8 * k < 4294967296" using units_bounds [OF n] n unfolding k_def by linarith+
  define s1 where "s1 = (if freep s = 0
     then s\<lparr>freep := hbase s, umem := st32 (hbase s + 4) 0 (st32 (hbase s) (hbase s) (umem s))\<rparr> else s)"
  have s1: "rep s1 bs" "hbase s1 = hbase s" "brk s1 = brk s" "same_but (hbase s) (umem s) (umem s1)"
  proof -
    show "rep s1 bs"
      using ok rep_freep [of s bs] first_call(1) [of s] by (auto simp: heap_ok_def s1_def)
    show "same_but (hbase s) (umem s) (umem s1)"
      using ok rep_freep [of s bs] first_call(2) [of s] by (auto simp: heap_ok_def s1_def same_but_def)
  qed (simp_all add: s1_def)
  have run: "malloc g nbytes s = malloc_loop g (of_nat k) (freep s1) (ld32 (freep s1) (umem s1)) s1"
    by (simp add: malloc_def k_def s1_def)
  obtain r t bs' where t: "malloc g nbytes s = Some (r, t)" "rep t bs'" "hbase t = hbase s"
    "unat (brk s) \<le> unat (brk t)"
    "if r = 0 then t = s1 \<and> bs' = bs \<and> \<not> g (brk s) (8 * of_nat (max 4096 k))
     else in_use t bs' (r - 8) k
       \<and> cells bs' \<union> {unat (r - 8)..<unat (r - 8) + 8 * k} = cells bs \<union> {unat (brk s)..<unat (brk t)}
       \<and> (\<forall>x. unat x \<notin> {unat (hbase s)..<unat (hbase s) + 8} \<union> (cells bs \<union> {unat (brk s)..<unat (brk t)}) \<longrightarrow>
            umem t x = umem s1 x)"
    using malloc_rep [OF s1(1) k g, of g] unfolding run s1(2,3) by blast
  show ?thesis
  proof (cases "r = 0")
    case True
    then show ?thesis using t s1(3) by auto
  next
    case False
    then have t5: "in_use t bs' (r - 8) k"
      "cells bs' \<union> {unat (r - 8)..<unat (r - 8) + 8 * k} = cells bs \<union> {unat (brk s)..<unat (brk t)}"
      and mem: "\<And>x. unat x \<notin> {unat (hbase s)..<unat (hbase s) + 8} \<union> (cells bs \<union> {unat (brk s)..<unat (brk t)}) \<Longrightarrow> umem t x = umem s1 x"
      using t(5) by auto
    have mem0: "umem t x = umem s x"
      if "unat x \<notin> {unat (hbase s)..<unat (hbase s) + 8} \<union> (cells bs \<union> {unat (brk s)..<unat (brk t)})" for x
      using mem [OF that] s1(4) that by (auto simp: same_but_def not_less)
    have "in_use t bs' c w \<and> {unat c..<unat c + 8 * w} \<inter> {unat (r - 8)..<unat (r - 8) + 8 * k} = {}"
      if "in_use s bs c w" for c w
    proof
      have "unat c + 8 * w \<le> unat (brk s)" "{unat c..<unat c + 8 * w} \<inter> cells bs = {}"
        using that by (simp_all add: in_use_def)
      then have d: "{unat c..<unat c + 8 * w} \<inter> (cells bs \<union> {unat (brk s)..<unat (brk t)}) = {}"
        unfolding Int_Un_distrib by auto
      show "in_use t bs' c w"
        by (rule untouched_in_use [OF that mem0 d t(3,4)]) (use t5(2) in auto)
      show "{unat c..<unat c + 8 * w} \<inter> {unat (r - 8)..<unat (r - 8) + 8 * k} = {}"
        using d unfolding t5(2) [symmetric] Int_Un_distrib by simp
    qed
    then show ?thesis using False t(1-3) t5 by auto
  qed
qed

text \<open>C12. \<open>malloc\<close> comes back for every request below 2 GB. It returns 0 only when the kernel refuses the memory it asks for, and then the list holds the same bytes as before; otherwise it returns a block with room for the request that lies in memory that was free or is new, the rest of which is on the list, and that overlaps no block in use.\<close>

theorem malloc_allocates:
  assumes "heap_ok s bs" and "\<And>b n. g b n \<Longrightarrow> unat b + unat n \<le> 0x80000000" and "unat nbytes < 0x7FFFFFF0"
  shows "unat nbytes + 8 \<le> 8 * unat (units nbytes) \<and> 8 * unat (units nbytes) \<le> unat nbytes + 15 \<and>
    (\<exists>r t bs'. malloc g nbytes s = Some (r, t) \<and> rep t bs' \<and> hbase t = hbase s \<and>
      (if r = 0 then cells bs' = cells bs \<and> brk t = brk s \<and> \<not> g (brk s) (8 * of_nat (max 4096 (unat (units nbytes))))
       else in_use t bs' (r - 8) (unat (units nbytes))
         \<and> cells bs' \<union> {unat (r - 8)..<unat (r - 8) + 8 * unat (units nbytes)} = cells bs \<union> {unat (brk s)..<unat (brk t)}
         \<and> (\<forall>c w. in_use s bs c w \<longrightarrow> in_use t bs' c w
              \<and> {unat c..<unat c + 8 * w} \<inter> {unat (r - 8)..<unat (r - 8) + 8 * unat (units nbytes)} = {})))"
  using malloc_ok [OF assms] units_bounds [OF assms(3)] by blast

lemma free_back:
  assumes "rep s bs" and "in_use s bs (ap - 8) n"
  shows "\<exists>t bs'. free ap s = Some t \<and> rep t bs' \<and> brk t = brk s
    \<and> cells bs' = cells bs \<union> {unat (ap - 8)..<unat (ap - 8) + 8 * n}
    \<and> (\<forall>c w. in_use s bs c w \<longrightarrow> {unat c..<unat c + 8 * w} \<inter> {unat (ap - 8)..<unat (ap - 8) + 8 * n} = {} \<longrightarrow>
         in_use t bs' c w)"
proof -
  obtain t bs' where t: "free ap s = Some t" "rep t bs'" "brk t = brk s" "hbase t = hbase s" "untouched s bs' t"
    "cells bs' = cells bs \<union> {unat (ap - 8)..<unat (ap - 8) + 8 * n}"
    using free_ok [OF assms] by auto
  have "in_use t bs' c w" if "in_use s bs c w"
    "{unat c..<unat c + 8 * w} \<inter> {unat (ap - 8)..<unat (ap - 8) + 8 * n} = {}" for c w
  proof (rule untouched_in_use [OF that(1), of "cells bs'"])
    show "umem t x = umem s x" if "unat x \<notin> {unat (hbase s)..<unat (hbase s) + 8} \<union> cells bs'" for x
      using t(5) that by (simp add: untouched_def)
    show "{unat c..<unat c + 8 * w} \<inter> cells bs' = {}"
      using that unfolding t(6) Int_Un_distrib by (simp add: in_use_def)
  qed (use t in simp_all)
  then show ?thesis using t by blast
qed

text \<open>C32. \<open>free\<close> of a block in use finds its place in the circular list, wherever the walk starts, and comes back with the bytes of the block, header and all, on the list; it changes nothing of the other blocks in use.\<close>

theorem free_gives_back:
  assumes "rep s bs" and "in_use s bs (ap - 8) n"
  shows "\<exists>t bs'. free ap s = Some t \<and> rep t bs' \<and> brk t = brk s
    \<and> cells bs' = cells bs \<union> {unat (ap - 8)..<unat (ap - 8) + 8 * n}
    \<and> (\<forall>c w. in_use s bs c w \<longrightarrow> {unat c..<unat c + 8 * w} \<inter> {unat (ap - 8)..<unat (ap - 8) + 8 * n} = {} \<longrightarrow>
         in_use t bs' c w)"
  using assms by (rule free_back)

text \<open>A process of two pages that has not yet allocated anything, in a kernel with memory to spare.\<close>

definition heap0 :: heap_state where
  "heap0 = \<lparr>umem = (\<lambda>_. 0), freep = 0, hbase = 0x1000, brk = 0x2000\<rparr>"

definition roomy_kernel :: "u32 \<Rightarrow> u32 \<Rightarrow> bool" where
  "roomy_kernel b n \<longleftrightarrow> unat b + unat n \<le> 0x80000000"

lemma heap0_ok: "heap_ok heap0 []"
  by (simp add: heap_ok_def heap0_def)

text \<open>The sum in \<open>malloc\<close> wraps: the largest request is served with a bare header.\<close>

lemma units_overflow: "units 0xFFFFFFFF = 1"
  by (simp add: units_def)

lemma units_100: "unat (units 100) = 14"
proof -
  have "units 100 = 14" by (simp add: units_def)
  then show ?thesis by simp
qed

lemma malloc_allocates_witness:
  "\<exists>r t bs. malloc roomy_kernel 100 heap0 = Some (r, t) \<and> r \<noteq> 0 \<and> rep t bs \<and> in_use t bs (r - 8) 14"
proof -
  have g: "roomy_kernel (brk heap0) (8 * of_nat (max 4096 14))"
    by (simp add: roomy_kernel_def heap0_def)
  show ?thesis
    using malloc_allocates [OF heap0_ok, of roomy_kernel 100] g unfolding units_100
    by (auto simp: roomy_kernel_def split: if_splits)
qed

lemma free_gives_back_witness:
  "\<exists>r t u. malloc roomy_kernel 100 heap0 = Some (r, t) \<and> r \<noteq> 0 \<and> free r t = Some u"
proof -
  have g: "roomy_kernel (brk heap0) (8 * of_nat (max 4096 14))"
    by (simp add: roomy_kernel_def heap0_def)
  obtain r t bs where "malloc roomy_kernel 100 heap0 = Some (r, t)" "r \<noteq> 0" "rep t bs" "in_use t bs (r - 8) 14"
    using malloc_ok [OF heap0_ok, of roomy_kernel 100] g unfolding units_100
    by (auto simp: roomy_kernel_def split: if_splits)
  with free_gives_back [of t bs r 14] show ?thesis by blast
qed

end
