(* ===== verification/Xv6_Boot.thy ===== *)
theory Xv6_Boot
  imports Xv6_String "HOL-Library.Monad_Syntax"
begin

text \<open>
  The boot loader (\<open>bootmain.c\<close>): it reads the ELF image of the kernel from the disk, sector by
  sector, into the places the program headers name, and jumps to the entry of the kernel.
\<close>

section \<open>The disk at the I/O ports\<close>

text \<open>
  \<open>ports\<close> holds what was last written to each port; \<open>polls\<close> counts the reads of the status port. The
  drive is not part of the program: \<open>status n\<close> is what the \<open>n\<close>-th read of port 1F7 gives, \<open>data r\<close> the
  bytes that the data port delivers after a command when the registers of the controller hold \<open>r\<close>.
\<close>

record boot_state =
  bmem :: memory
  ports :: "u16 \<Rightarrow> u8"
  polls :: nat

record drive =
  status :: "nat \<Rightarrow> u8"
  data :: "(u16 \<Rightarrow> u8) \<Rightarrow> view"

definition outb :: "u16 \<Rightarrow> u32 \<Rightarrow> boot_state \<Rightarrow> boot_state" where
  "outb port v s = s\<lparr>ports := (ports s)(port := ucast v)\<rparr>"

fun insl :: "view \<Rightarrow> u32 \<Rightarrow> nat \<Rightarrow> memory \<Rightarrow> memory" where
  "insl v a 0 m = m"
| "insl v a (Suc n) m = insl (\<lambda>i. v (i + 4)) (a + 4) n (st32 a (le32 (v 0) (v 1) (v 2) (v 3)) m)"

definition ld16 :: "u32 \<Rightarrow> memory \<Rightarrow> u16" where
  "ld16 a m = le16 (m a) (m (a + 1))"

partial_function (option) waitdisk :: "drive \<Rightarrow> boot_state \<Rightarrow> boot_state option" where
  "waitdisk d s =
     (let v = status d (polls s); s = s\<lparr>polls := polls s + 1\<rparr>
      in if v AND 0xC0 = 0x40 then Some s else waitdisk d s)"

abbreviation SECTSIZE :: u32 where "SECTSIZE \<equiv> 512"

definition readsect :: "drive \<Rightarrow> u32 \<Rightarrow> u32 \<Rightarrow> boot_state \<Rightarrow> boot_state option" where
  "readsect d dst offset s =
     do {
       s \<leftarrow> waitdisk d s;
       let s = outb 0x1F2 1 s;
       let s = outb 0x1F3 offset s;
       let s = outb 0x1F4 (drop_bit 8 offset) s;
       let s = outb 0x1F5 (drop_bit 16 offset) s;
       let s = outb 0x1F6 (drop_bit 24 offset OR 0xE0) s;
       let s = outb 0x1F7 0x20 s;
       s \<leftarrow> waitdisk d s;
       Some (s\<lparr>bmem := insl (data d (ports s)) dst (unat (SECTSIZE div 4)) (bmem s)\<rparr>)
     }"

partial_function (option) readseg_loop ::
  "drive \<Rightarrow> u32 \<Rightarrow> u32 \<Rightarrow> u32 \<Rightarrow> boot_state \<Rightarrow> boot_state option" where
  "readseg_loop d pa epa offset s =
     (if pa < epa
      then Option.bind (readsect d pa offset s) (readseg_loop d (pa + SECTSIZE) epa (offset + 1))
      else Some s)"

definition readseg :: "drive \<Rightarrow> u32 \<Rightarrow> u32 \<Rightarrow> u32 \<Rightarrow> boot_state \<Rightarrow> boot_state option" where
  "readseg d pa count offset s =
     (let epa = pa + count; pa = pa - offset mod SECTSIZE; offset = offset div SECTSIZE + 1
      in readseg_loop d pa epa offset s)"

section \<open>The loader\<close>

abbreviation ELF_MAGIC :: u32 where "ELF_MAGIC \<equiv> 0x464C457F"
abbreviation elf :: u32 where "elf \<equiv> 0x10000"

text \<open>Fields of the headers where they lie in memory: \<open>elfhdr\<close> has 52 bytes, \<open>proghdr\<close> 32.\<close>

definition elf_magic :: "memory \<Rightarrow> u32" where "elf_magic = ld32 elf"
definition elf_entry :: "memory \<Rightarrow> u32" where "elf_entry = ld32 (elf + 24)"
definition elf_phoff :: "memory \<Rightarrow> u32" where "elf_phoff = ld32 (elf + 28)"
definition elf_phnum :: "memory \<Rightarrow> u16" where "elf_phnum = ld16 (elf + 44)"
definition ph_off :: "u32 \<Rightarrow> memory \<Rightarrow> u32" where "ph_off ph = ld32 (ph + 4)"
definition ph_paddr :: "u32 \<Rightarrow> memory \<Rightarrow> u32" where "ph_paddr ph = ld32 (ph + 12)"
definition ph_filesz :: "u32 \<Rightarrow> memory \<Rightarrow> u32" where "ph_filesz ph = ld32 (ph + 16)"
definition ph_memsz :: "u32 \<Rightarrow> memory \<Rightarrow> u32" where "ph_memsz ph = ld32 (ph + 20)"

text \<open>One turn of the loop: the bytes of the segment from the disk, then zeros.\<close>

definition load_segment :: "drive \<Rightarrow> u32 \<Rightarrow> boot_state \<Rightarrow> boot_state option" where
  "load_segment d ph s =
     (let m = bmem s; pa = ph_paddr ph m in
      do {
        s \<leftarrow> readseg d pa (ph_filesz ph m) (ph_off ph m) s;
        let m = bmem s;
        Some (if ph_memsz ph m > ph_filesz ph m
              then s\<lparr>bmem := stosb (pa + ph_filesz ph m) 0 (unat (ph_memsz ph m - ph_filesz ph m)) m\<rparr>
              else s)
      })"

partial_function (option) load_segments :: "drive \<Rightarrow> u32 \<Rightarrow> u32 \<Rightarrow> boot_state \<Rightarrow> boot_state option" where
  "load_segments d ph eph s =
     (if ph < eph then Option.bind (load_segment d ph s) (load_segments d (ph + 32) eph) else Some s)"

text \<open>The entry that is called, or \<open>None\<close> for the return to \<open>bootasm.S\<close>.\<close>

definition bootmain :: "drive \<Rightarrow> boot_state \<Rightarrow> (boot_state \<times> u32 option) option" where
  "bootmain d s =
     do {
       s \<leftarrow> readseg d elf 4096 0 s;
       (if elf_magic (bmem s) \<noteq> ELF_MAGIC then Some (s, None)
        else
          let ph = elf + elf_phoff (bmem s); eph = ph + 32 * ucast (elf_phnum (bmem s))
          in do {
            s \<leftarrow> load_segments d ph eph s;
            Some (s, Some (elf_entry (bmem s)))
          })
     }"

section \<open>Reading from the disk\<close>

text \<open>
  What the loader relies on: the drive becomes ready again and again, and after a command to read
  one sector in LBA mode it delivers the sector with the number in the registers.
\<close>

definition gets_ready :: "drive \<Rightarrow> bool" where
  "gets_ready d \<longleftrightarrow> (\<forall>n. \<exists>k\<ge>n. status d k AND 0xC0 = 0x40)"

definition lba :: "(u16 \<Rightarrow> u8) \<Rightarrow> u32" where
  "lba r = le32 (r 0x1F3) (r 0x1F4) (r 0x1F5) (r 0x1F6 AND 0x0F)"

definition ata_reads :: "drive \<Rightarrow> (nat \<Rightarrow> view) \<Rightarrow> bool" where
  "ata_reads d disk \<longleftrightarrow>
     (\<forall>r. r 0x1F2 = 1 \<longrightarrow> r 0x1F6 AND 0xF0 = 0xE0 \<longrightarrow> r 0x1F7 = 0x20 \<longrightarrow>
        (\<forall>i<512. data d r i = disk (unat (lba r)) i))"

lemma waitdisk_ready:
  assumes "gets_ready d"
  shows "\<exists>n. waitdisk d s = Some (s\<lparr>polls := n\<rparr>)"
proof -
  from assms obtain k where k: "polls s \<le> k" "status d k AND 0xC0 = 0x40"
    unfolding gets_ready_def by blast
  then show ?thesis
  proof (induction "k - polls s" arbitrary: s)
    case 0
    then have "status d (polls s) AND 0xC0 = 0x40" by simp
    then show ?case by (subst waitdisk.simps) (auto simp: Let_def)
  next
    case (Suc j)
    show ?case
    proof (cases "status d (polls s) AND 0xC0 = 0x40")
      case True
      then show ?thesis by (subst waitdisk.simps) (auto simp: Let_def)
    next
      case False
      from Suc.hyps(1) [of "s\<lparr>polls := Suc (polls s)\<rparr>"] Suc.hyps(2) Suc.prems
      show ?thesis using False by (subst waitdisk.simps) (auto simp: Let_def)
    qed
  qed
qed

lemma byte_of_le32:
  "byte_of 0 (le32 a b c d) = a" "byte_of (Suc 0) (le32 a b c d) = b"
  "byte_of 2 (le32 a b c d) = c" "byte_of 3 (le32 a b c d) = d"
  by (rule bit_word_eqI; auto simp: le32_def byte_of_def bit_simps dest: bit_imp_le_length)+

lemma insl_eq:
  "4 * n \<le> 4294967296 \<Longrightarrow>
   insl v a n m = (\<lambda>x. if in_range a (4 * n) x then v (unat (x - a)) else m x)"
proof (induction n arbitrary: v a m)
  case (Suc n)
  have r: "in_range a (4 * Suc n) x \<longleftrightarrow> x = a \<or> x = a + 1 \<or> x = a + 2 \<or> x = a + 3 \<or> in_range (a + 4) (4 * n) x" for x
  proof -
    have "a + 1 + 1 = a + 2" "a + 2 + 1 = a + 3" "a + 3 + 1 = a + 4" by simp_all
    moreover have "4 * Suc n = Suc (Suc (Suc (Suc (4 * n))))" by simp
    ultimately show ?thesis using Suc.prems by (simp only: in_range_Suc)
  qed
  have u: "unat (x - (a + 4)) + 4 = unat (x - a)" if "in_range (a + 4) (4 * n) x" for x
  proof -
    have "unat (x - (a + 4)) < 4 * n" using that by (simp add: in_range_def)
    then have "unat ((x - (a + 4)) + of_nat 4) = unat (x - (a + 4)) + 4"
      using Suc.prems by (intro unat_add_of_nat32) simp
    moreover have "x - (a + 4) + of_nat 4 = x - a" by simp
    ultimately show ?thesis by simp
  qed
  have s: "st32 a (le32 (v 0) (v 1) (v 2) (v 3)) m x =
      (if x = a then v 0 else if x = a + 1 then v 1 else if x = a + 2 then v 2 else if x = a + 3 then v 3 else m x)" for x
    by (simp add: st32_def byte_of_le32 word_neq_add_small)
  show ?case
  proof (rule ext)
    fix x
    show "insl v a (Suc n) m x = (if in_range a (4 * Suc n) x then v (unat (x - a)) else m x)"
    proof (cases "in_range (a + 4) (4 * n) x")
      case True
      then show ?thesis using Suc u [OF True] r [of x] by simp
    next
      case False
      then show ?thesis using Suc r [of x] s [of x] by auto
    qed
  qed
qed (simp add: fun_eq_iff)

text \<open>\<open>n\<close> bytes of \<open>v\<close> from \<open>lo\<close> on; byte \<open>i\<close> of the image of the kernel, which starts at sector 1.\<close>

definition loaded :: "view \<Rightarrow> nat \<Rightarrow> nat \<Rightarrow> memory \<Rightarrow> memory" where
  "loaded v lo n m = (\<lambda>x. if lo \<le> unat x \<and> unat x < lo + n then v (unat x - lo) else m x)"

definition kimg :: "(nat \<Rightarrow> view) \<Rightarrow> view" where
  "kimg disk i = disk (Suc (i div 512)) (i mod 512)"

lemma loaded_0 [simp]: "loaded v lo 0 m = m"
  by (rule ext) (auto simp: loaded_def)

lemma loaded_append:
  "loaded (\<lambda>i. v (n + i)) (lo + n) k (loaded v lo n m) = loaded v lo (n + k) m"
  by (auto simp: loaded_def fun_eq_iff)

lemma loaded_cong: "(\<And>i. i < n \<Longrightarrow> v i = w i) \<Longrightarrow> loaded v lo n m = loaded w lo n m"
  by (auto simp: loaded_def fun_eq_iff)

lemma lba_of_registers:
  assumes "unat offset < 268435456"
  shows "le32 (ucast offset) (ucast (drop_bit 8 offset)) (ucast (drop_bit 16 offset))
           (ucast (drop_bit 24 offset OR 0xE0) AND 0x0F) = offset"
proof -
  have "take_bit 28 offset = offset"
  proof -
    have "unat (take_bit 28 offset) = unat offset"
      using assms by (simp add: unsigned_take_bit_eq take_bit_nat_eq_self)
    then show ?thesis by (metis of_nat_unat_self)
  qed
  then have h: "bit offset n \<Longrightarrow> n < 28" for n by (metis bit_take_bit_iff)
  define c :: u8 where "c = 0x0F"
  define e :: u32 where "e = 0xE0"
  have f: "bit c k = (k < 4)" for k
  proof -
    have "c = mask 4" by (simp add: c_def mask_numeral)
    then show ?thesis by (auto simp: bit_simps)
  qed
  have e: "\<not> bit e k" if "k < 4" for k
    using that by (auto simp: e_def less_Suc_eq numeral_eq_Suc)
  have "le32 (ucast offset) (ucast (drop_bit 8 offset)) (ucast (drop_bit 16 offset))
      (ucast (drop_bit 24 offset OR e) AND c) = offset"
  proof (rule bit_word_eqI)
    fix n assume "n < LENGTH(32)"
    then show "bit (le32 (ucast offset) (ucast (drop_bit 8 offset)) (ucast (drop_bit 16 offset))
        (ucast (drop_bit 24 offset OR e) AND c)) n = bit offset n"
      using h [of n] e [of "n - 24"]
      by (cases "n < 24"; cases "n < 16"; cases "n < 8") (auto simp: le32_def bit_simps f)
  qed
  then show ?thesis by (simp only: c_def e_def)
qed

lemma lba_mode: "ucast (drop_bit 24 offset OR 0xE0 :: u32) AND 0xF0 = (0xE0 :: u8)"
  if "unat offset < 268435456" for offset :: u32
proof -
  have "drop_bit 28 offset = 0"
    using that by (simp add: drop_bit_eq_div unat_div_distrib flip: unat_eq_zero)
  then have "\<not> bit (drop_bit 28 offset) n" for n by simp
  then have h: "\<not> bit offset (28 + n)" for n by (simp add: bit_drop_bit_eq)
  define c :: u8 where "c = 0xF0"
  define e :: u8 where "e = 0xE0"
  define e' :: u32 where "e' = 0xE0"
  have f: "bit c k = (4 \<le> k \<and> k < 8)" for k
  proof -
    have "c = push_bit 4 (mask 4)" by (simp add: c_def mask_numeral push_bit_eq_mult)
    then show ?thesis by (auto simp: bit_simps)
  qed
  have e: "bit e k = bit e' k" if "k < 8" for k
    using that by (auto simp: e_def e'_def less_Suc_eq numeral_eq_Suc)
  have e4: "\<not> bit e k" if "k < 4" for k
    using that by (auto simp: e_def less_Suc_eq numeral_eq_Suc)
  have "ucast (drop_bit 24 offset OR e') AND c = e"
  proof (rule bit_word_eqI)
    fix n assume n: "n < LENGTH(8)"
    show "bit (ucast (drop_bit 24 offset OR e') AND c) n = bit e n"
      using n h [of "n - 4"] e4 [of n] e [of n] by (cases "n < 4") (auto simp: bit_simps f)
  qed
  then show ?thesis by (simp only: c_def e_def e'_def)
qed

lemma readsect_reads:
  assumes "gets_ready d" and "ata_reads d disk" and "unat offset < 268435456"
    and "unat dst + 512 < 4294967296"
  shows "\<exists>s'. readsect d dst offset s = Some s' \<and>
    bmem s' = loaded (disk (unat offset)) (unat dst) 512 (bmem s)"
proof -
  let ?r = "\<lambda>p. (p(0x1F2 := 1, 0x1F3 := ucast offset, 0x1F4 := ucast (drop_bit 8 offset),
     0x1F5 := ucast (drop_bit 16 offset), 0x1F6 := ucast (drop_bit 24 offset OR 0xE0 :: u32), 0x1F7 := 0x20)) :: u16 \<Rightarrow> u8"
  obtain n where n: "waitdisk d s = Some (s\<lparr>polls := n\<rparr>)"
    using waitdisk_ready [OF assms(1)] by blast
  let ?s = "s\<lparr>polls := n, ports := ?r (ports s)\<rparr>"
  obtain k where k: "waitdisk d ?s = Some (?s\<lparr>polls := k\<rparr>)"
    using waitdisk_ready [OF assms(1)] by blast
  have d: "data d (?r (ports s)) i = disk (unat offset) i" if "i < 512" for i
    using assms(2) that lba_of_registers [OF assms(3)] lba_mode [OF assms(3)]
    unfolding ata_reads_def lba_def by (elim allE [where x = "?r (ports s)"]) simp
  have "readsect d dst offset s = Some (?s\<lparr>polls := k, bmem := insl (data d (?r (ports s))) dst 128 (bmem s)\<rparr>)"
    unfolding readsect_def n using k by (simp add: outb_def)
  moreover have "insl (data d (?r (ports s))) dst 128 (bmem s) = loaded (disk (unat offset)) (unat dst) 512 (bmem s)"
  proof -
    have "in_range dst 512 x \<Longrightarrow> unat (x - dst) = unat x - unat dst" for x
      using assms(4) by (simp add: in_range_nowrap unat_sub32 word_le_nat_alt)
    then show ?thesis
      using assms(4) by (auto simp: insl_eq loaded_def in_range_nowrap d fun_eq_iff)
  qed
  ultimately show ?thesis by simp
qed

lemma readseg_loop_reads:
  assumes r: "gets_ready d" "ata_reads d disk"
  shows "unat epa - unat pa \<le> 512 * n \<Longrightarrow> 512 * n < unat epa - unat pa + 512 \<Longrightarrow>
    unat pa + 512 * n < 4294967296 \<Longrightarrow> 0 < unat offset \<Longrightarrow> unat offset + n \<le> 268435456 \<Longrightarrow>
    \<exists>s'. readseg_loop d pa epa offset s = Some s' \<and>
      bmem s' = loaded (\<lambda>i. kimg disk (512 * (unat offset - 1) + i)) (unat pa) (512 * n) (bmem s)"
proof (induction n arbitrary: pa offset s)
  case 0
  then have "\<not> pa < epa" by (simp add: word_less_nat_alt)
  then show ?case by (subst readseg_loop.simps) simp
next
  case (Suc n)
  have lt: "pa < epa" using Suc.prems(2) by (simp add: word_less_nat_alt)
  have p: "unat (pa + SECTSIZE) = unat pa + 512"
    using Suc.prems(3) unat_add_of_nat32 [of pa 512] by simp
  have o: "unat (offset + 1) = unat offset + 1"
    using Suc.prems(5) unat_add_of_nat32 [of offset 1] by simp
  obtain t where t: "readsect d pa offset s = Some t"
      "bmem t = loaded (disk (unat offset)) (unat pa) 512 (bmem s)"
    using readsect_reads [OF r, of offset pa s] Suc.prems by auto
  have a1: "unat epa - unat (pa + SECTSIZE) \<le> 512 * n" using Suc.prems(1) p by simp
  have a2: "512 * n < unat epa - unat (pa + SECTSIZE) + 512" using Suc.prems(2) p by simp
  obtain s' where s': "readseg_loop d (pa + SECTSIZE) epa (offset + 1) t = Some s'"
      "bmem s' = loaded (\<lambda>i. kimg disk (512 * (unat (offset + 1) - 1) + i)) (unat pa + 512) (512 * n) (bmem t)"
    using Suc.IH [OF a1 a2, of "offset + 1" t] Suc.prems p o by auto
  have k: "kimg disk (512 * (unat offset - 1) + i) = disk (unat offset) i" if "i < 512" for i
    using that Suc.prems(4) by (simp add: kimg_def)
  have e: "512 * (unat (offset + 1) - 1) + i = 512 * (unat offset - 1) + (512 + i)" for i
    using Suc.prems(4) o by simp
  have "bmem s' = loaded (\<lambda>i. kimg disk (512 * (unat offset - 1) + (512 + i))) (unat pa + 512) (512 * n)
      (loaded (\<lambda>i. kimg disk (512 * (unat offset - 1) + i)) (unat pa) 512 (bmem s))"
    unfolding s'(2) t(2) e by (subst loaded_cong [OF k [symmetric]]) simp_all
  also have "\<dots> = loaded (\<lambda>i. kimg disk (512 * (unat offset - 1) + i)) (unat pa) (512 * Suc n) (bmem s)"
    by (subst loaded_append [where v = "\<lambda>i. kimg disk (512 * (unat offset - 1) + i)"]) simp
  finally show ?case
    using lt t(1) s'(1) by (subst readseg_loop.simps) simp
qed

text \<open>
  The sectors that \<open>readseg\<close> fills: from \<open>pa\<close> rounded down as its offset is, to the end rounded up.
\<close>

definition seg_lo :: "u32 \<Rightarrow> u32 \<Rightarrow> nat" where
  "seg_lo pa off = unat pa - unat off mod 512"

definition seg_len :: "u32 \<Rightarrow> u32 \<Rightarrow> nat" where
  "seg_len off count = 512 * ((unat off mod 512 + unat count + 511) div 512)"

lemma readseg_reads:
  assumes "gets_ready d" and "ata_reads d disk"
    and "unat off mod 512 \<le> unat pa" and "seg_lo pa off + seg_len off count < 4294967296"
  shows "\<exists>s'. readseg d pa count off s = Some s' \<and>
    bmem s' = loaded (\<lambda>i. kimg disk (unat off - unat off mod 512 + i)) (seg_lo pa off) (seg_len off count) (bmem s)"
proof -
  define n where "n = (unat off mod 512 + unat count + 511) div 512"
  have m: "unat (off mod SECTSIZE) = unat off mod 512" by (simp add: unat_mod)
  have dv: "unat (off div SECTSIZE) = unat off div 512" by (simp add: unat_div)
  have b: "unat off div 512 < 8388608" using unat_lt32 [of off] by (simp add: less_mult_imp_div_less)
  have n: "unat off mod 512 + unat count \<le> 512 * n" "512 * n < unat off mod 512 + unat count + 512"
    using mult_div_mod_eq [of 512 "unat off mod 512 + unat count + 511"]
      mod_less_divisor [of 512 "unat off mod 512 + unat count + 511"]
    unfolding n_def by linarith+
  have l: "seg_len off count = 512 * n" by (simp add: seg_len_def n_def)
  have lo: "unat (pa - off mod SECTSIZE) = seg_lo pa off"
    using assms(3) by (simp add: seg_lo_def m unat_sub32 word_le_nat_alt)
  have epa: "unat (pa + count) = unat pa + unat count"
    using assms(3,4) n(1) l by (intro unat_add32) (simp add: seg_lo_def)
  have gap: "unat (pa + count) - seg_lo pa off = unat off mod 512 + unat count"
    using assms(3) by (simp add: lo epa seg_lo_def)
  have o: "unat (off div SECTSIZE + 1) = unat off div 512 + 1"
    using b dv unat_add_of_nat32 [of "off div SECTSIZE" 1] by simp
  have "n \<le> 8388608" using assms(4) l by simp
  then have "\<exists>s'. readseg_loop d (pa - off mod SECTSIZE) (pa + count) (off div SECTSIZE + 1) s = Some s' \<and>
      bmem s' = loaded (\<lambda>i. kimg disk (512 * (unat (off div SECTSIZE + 1) - 1) + i))
        (unat (pa - off mod SECTSIZE)) (512 * n) (bmem s)"
    using n assms(4) b l by (intro readseg_loop_reads [OF assms(1,2)]) (simp_all add: gap lo o)
  moreover have "512 * (unat (off div SECTSIZE + 1) - 1) = unat off - unat off mod 512"
    by (simp add: o minus_mod_eq_mult_div)
  ultimately show ?thesis by (simp add: readseg_def Let_def lo l)
qed

section \<open>The image of the kernel\<close>

text \<open>The fields of the headers in the image, \<open>k\<close> the number of a program header.\<close>

definition img32 :: "view \<Rightarrow> nat \<Rightarrow> u32" where
  "img32 v i = le32 (v i) (v (i + 1)) (v (i + 2)) (v (i + 3))"

definition k_entry :: "view \<Rightarrow> u32" where "k_entry v = img32 v 24"
definition k_phoff :: "view \<Rightarrow> nat" where "k_phoff v = unat (img32 v 28)"
definition k_phnum :: "view \<Rightarrow> nat" where "k_phnum v = unat (le16 (v 44) (v 45))"
definition k_off :: "view \<Rightarrow> nat \<Rightarrow> u32" where "k_off v k = img32 v (k_phoff v + 32 * k + 4)"
definition k_paddr :: "view \<Rightarrow> nat \<Rightarrow> u32" where "k_paddr v k = img32 v (k_phoff v + 32 * k + 12)"
definition k_filesz :: "view \<Rightarrow> nat \<Rightarrow> u32" where "k_filesz v k = img32 v (k_phoff v + 32 * k + 16)"
definition k_memsz :: "view \<Rightarrow> nat \<Rightarrow> u32" where "k_memsz v k = img32 v (k_phoff v + 32 * k + 20)"

definition k_lo :: "view \<Rightarrow> nat \<Rightarrow> nat" where "k_lo v k = seg_lo (k_paddr v k) (k_off v k)"
definition k_end :: "view \<Rightarrow> nat \<Rightarrow> nat" where
  "k_end v k = unat (k_paddr v k) + max (unat (k_filesz v k)) (unat (k_memsz v k))"
definition k_top :: "view \<Rightarrow> nat \<Rightarrow> nat" where
  "k_top v k = max (k_lo v k + seg_len (k_off v k) (k_filesz v k)) (k_end v k)"

text \<open>
  An image that can be loaded: the program headers are in its first page, the sectors of every
  segment fit below 4 GB and keep clear of the scratch page, and no sector of a segment reaches
  down into a segment before it.
\<close>

definition loadable_segment :: "view \<Rightarrow> nat \<Rightarrow> bool" where
  "loadable_segment v k \<longleftrightarrow>
     unat (k_off v k) mod 512 \<le> unat (k_paddr v k) \<and> k_top v k < 4294967296 \<and>
     (k_top v k \<le> 65536 \<or> 69632 \<le> k_lo v k) \<and> (\<forall>j<k. k_end v j \<le> k_lo v k)"

definition loadable :: "view \<Rightarrow> bool" where
  "loadable v \<longleftrightarrow> img32 v 0 = ELF_MAGIC \<and> k_phoff v + 32 * k_phnum v \<le> 4096 \<and>
     (\<forall>k<k_phnum v. loadable_segment v k)"

definition placed :: "view \<Rightarrow> nat \<Rightarrow> memory \<Rightarrow> bool" where
  "placed v k m \<longleftrightarrow>
     (\<forall>i<unat (k_filesz v k). m (k_paddr v k + of_nat i) = v (unat (k_off v k) + i)) \<and>
     (\<forall>i<unat (k_memsz v k). unat (k_filesz v k) \<le> i \<longrightarrow> m (k_paddr v k + of_nat i) = 0)"

definition header_read :: "view \<Rightarrow> memory \<Rightarrow> bool" where
  "header_read v m \<longleftrightarrow> (\<forall>i<4096. m (elf + of_nat i) = v i)"

lemma header_ld32:
  assumes "header_read v m" and "i + 4 \<le> 4096"
  shows "ld32 (elf + of_nat i) m = img32 v i"
proof -
  have "m (elf + of_nat i + of_nat j) = v (i + j)" if "j < 4" for j
  proof -
    have "i + j < 4096" using assms(2) that by simp
    then have "m (elf + of_nat (i + j)) = v (i + j)" using assms(1) unfolding header_read_def by blast
    then show ?thesis by (simp only: of_nat_add add.assoc)
  qed
  from this [of 0] this [of 1] this [of 2] this [of 3] show ?thesis
    by (simp add: ld32_def img32_def)
qed

lemma header_fields:
  assumes "header_read v m"
  shows "elf_magic m = img32 v 0" "elf_entry m = k_entry v" "elf_phoff m = of_nat (k_phoff v)"
    "unat (elf_phnum m) = k_phnum v"
proof -
  show "elf_magic m = img32 v 0" using header_ld32 [OF assms, of 0] by (simp add: elf_magic_def)
  show "elf_entry m = k_entry v" using header_ld32 [OF assms, of 24] by (simp add: elf_entry_def k_entry_def)
  show "elf_phoff m = of_nat (k_phoff v)" using header_ld32 [OF assms, of 28] by (simp add: elf_phoff_def k_phoff_def)
  have "m (elf + of_nat 44) = v 44" "m (elf + of_nat 45) = v 45"
    using assms unfolding header_read_def by (metis (no_types) numeral_less_iff rel_simps)+
  then show "unat (elf_phnum m) = k_phnum v" by (simp add: elf_phnum_def ld16_def k_phnum_def)
qed

definition ph_at :: "view \<Rightarrow> nat \<Rightarrow> u32" where
  "ph_at v k = elf + of_nat (k_phoff v + 32 * k)"

lemma ph_fields:
  assumes "header_read v m" and "k_phoff v + 32 * Suc k \<le> 4096"
  shows "ph_off (ph_at v k) m = k_off v k" "ph_paddr (ph_at v k) m = k_paddr v k"
    "ph_filesz (ph_at v k) m = k_filesz v k" "ph_memsz (ph_at v k) m = k_memsz v k"
proof -
  have *: "ld32 (ph_at v k + of_nat j) m = img32 v (k_phoff v + 32 * k + j)" if "j + 4 \<le> 32" for j
    using header_ld32 [OF assms(1), of "k_phoff v + 32 * k + j"] assms(2) that
    by (simp add: ph_at_def add.assoc)
  show "ph_off (ph_at v k) m = k_off v k" using * [of 4] by (simp add: ph_off_def k_off_def)
  show "ph_paddr (ph_at v k) m = k_paddr v k" using * [of 12] by (simp add: ph_paddr_def k_paddr_def)
  show "ph_filesz (ph_at v k) m = k_filesz v k" using * [of 16] by (simp add: ph_filesz_def k_filesz_def)
  show "ph_memsz (ph_at v k) m = k_memsz v k" using * [of 20] by (simp add: ph_memsz_def k_memsz_def)
qed

lemma header_read_frame:
  assumes "header_read v m" and "hi \<le> 65536 \<or> 69632 \<le> lo"
    and "\<And>x. unat x < lo \<or> hi \<le> unat x \<Longrightarrow> m' x = m x"
  shows "header_read v m'"
  unfolding header_read_def
proof (intro allI impI)
  fix i :: nat assume i: "i < 4096"
  have "unat (elf + of_nat i) = 65536 + i"
    using i unat_add_of_nat32 [of elf i] by simp
  then have "m' (elf + of_nat i) = m (elf + of_nat i)" using assms(2) i by (intro assms(3)) auto
  then show "m' (elf + of_nat i) = v i" using assms(1) i by (simp add: header_read_def)
qed

lemma placed_frame:
  assumes "placed v j m" and "k_end v j \<le> lo" and "k_end v j < 4294967296"
    and "\<And>x. unat x < lo \<Longrightarrow> m' x = m x"
  shows "placed v j m'"
proof -
  have "m' (k_paddr v j + of_nat i) = m (k_paddr v j + of_nat i)"
    if "i < unat (k_filesz v j) \<or> i < unat (k_memsz v j)" for i
  proof -
    have "unat (k_paddr v j + of_nat i) = unat (k_paddr v j) + i"
      using that assms(3) by (intro unat_add_of_nat32) (auto simp: k_end_def)
    then show ?thesis using that assms(2) by (intro assms(4)) (auto simp: k_end_def)
  qed
  then show ?thesis using assms(1) by (simp add: placed_def)
qed

lemma load_segment_loads:
  assumes d: "gets_ready d" "ata_reads d disk" and v: "v = kimg disk"
    and h: "header_read v (bmem s)" "k_phoff v + 32 * Suc k \<le> 4096" and l: "loadable_segment v k"
  shows "\<exists>s'. load_segment d (ph_at v k) s = Some s' \<and> header_read v (bmem s') \<and> placed v k (bmem s') \<and>
    (\<forall>j<k. placed v j (bmem s) \<longrightarrow> k_end v j < 4294967296 \<longrightarrow> placed v j (bmem s'))"
proof -
  let ?pa = "k_paddr v k" let ?f = "k_filesz v k" let ?n = "k_memsz v k" let ?off = "k_off v k"
  have pa: "unat ?off mod 512 \<le> unat ?pa" and top: "k_top v k < 4294967296"
    and clear: "k_top v k \<le> 65536 \<or> 69632 \<le> k_lo v k" and below: "\<And>j. j < k \<Longrightarrow> k_end v j \<le> k_lo v k"
    using l by (auto simp: loadable_segment_def)
  obtain t where t: "readseg d ?pa ?f ?off s = Some t"
      "bmem t = loaded (\<lambda>i. v (unat ?off - unat ?off mod 512 + i)) (k_lo v k) (seg_len ?off ?f) (bmem s)"
    using readseg_reads [OF d pa, of ?f s] top unfolding v k_lo_def by (auto simp: k_top_def k_lo_def)
  have frame: "bmem t x = bmem s x" if "unat x < k_lo v k \<or> k_top v k \<le> unat x" for x
    using that by (auto simp: t(2) loaded_def k_top_def)
  have ht: "header_read v (bmem t)" by (rule header_read_frame [OF h(1) clear frame])
  define m' where "m' = (if ?n > ?f then stosb (?pa + ?f) 0 (unat (?n - ?f)) (bmem t) else bmem t)"
  have run: "load_segment d (ph_at v k) s = Some (t\<lparr>bmem := m'\<rparr>)"
    unfolding load_segment_def Let_def ph_fields [OF h] using t(1) by (simp add: ph_fields [OF ht h(2)] m'_def)
  have m': "m' x = (if unat ?pa + unat ?f \<le> unat x \<and> unat x < unat ?pa + unat ?n then 0 else bmem t x)" for x
  proof (cases "?f < ?n")
    case True
    then have lt: "unat ?f < unat ?n" by (simp add: word_less_nat_alt)
    have e: "unat (?n - ?f) = unat ?n - unat ?f" using True by (simp add: unat_sub32)
    have b: "unat ?pa + unat ?n < 4294967296" using top unfolding k_top_def k_end_def by linarith
    have a: "unat (?pa + ?f) = unat ?pa + unat ?f" using b lt by (intro unat_add32) simp
    have "in_range (?pa + ?f) (unat (?n - ?f)) x \<longleftrightarrow> unat ?pa + unat ?f \<le> unat x \<and> unat x < unat ?pa + unat ?n"
      using in_range_nowrap [of "?pa + ?f" "unat (?n - ?f)" x] b lt by (simp add: a e)
    then show ?thesis using True stosb_fill [of "unat (?n - ?f)" "?pa + ?f" 0 "bmem t"] b e by (simp add: m'_def)
  qed (auto simp: m'_def word_less_nat_alt)
  have frame': "m' x = bmem s x" if "unat x < k_lo v k \<or> k_top v k \<le> unat x" for x
    using frame [OF that] that by (auto simp: m' k_top_def k_end_def k_lo_def seg_lo_def)
  have addr: "unat (?pa + of_nat i) = unat ?pa + i" if "i < unat ?f \<or> i < unat ?n" for i
    using that top by (intro unat_add_of_nat32) (auto simp: k_top_def k_end_def)
  have "placed v k m'"
    unfolding placed_def
  proof (intro conjI allI impI)
    fix i assume i: "i < unat ?f"
    have "unat ?off mod 512 + unat ?f \<le> seg_len ?off ?f"
      using mult_div_mod_eq [of 512 "unat ?off mod 512 + unat ?f + 511"]
        mod_less_divisor [of 512 "unat ?off mod 512 + unat ?f + 511"] unfolding seg_len_def by linarith
    moreover have "k_lo v k + unat ?off mod 512 = unat ?pa" using pa by (simp add: k_lo_def seg_lo_def)
    ultimately have r: "k_lo v k \<le> unat ?pa + i" "unat ?pa + i < k_lo v k + seg_len ?off ?f"
      "unat ?pa + i - k_lo v k = unat ?off mod 512 + i"
      using i by linarith+
    have "unat ?off - unat ?off mod 512 + (unat ?off mod 512 + i) = unat ?off + i"
      by (simp add: add.assoc [symmetric] del: add.assoc)
    then show "m' (?pa + of_nat i) = v (unat ?off + i)"
      using i r by (simp add: m' t(2) loaded_def addr)
  next
    fix i assume "i < unat ?n" "unat ?f \<le> i"
    then show "m' (?pa + of_nat i) = 0" by (simp add: m' addr)
  qed
  moreover have "header_read v m'" by (rule header_read_frame [OF h(1) clear frame'])
  moreover have "placed v j m'" if "j < k" "placed v j (bmem s)" "k_end v j < 4294967296" for j
    by (rule placed_frame [OF that(2) below [OF that(1)] that(3)]) (simp add: frame')
  ultimately show ?thesis unfolding run by simp
qed

lemma load_segments_loads:
  assumes d: "gets_ready d" "ata_reads d disk" and v: "v = kimg disk"
    and n: "k_phoff v + 32 * n \<le> 4096" and l: "\<forall>k<n. loadable_segment v k"
  shows "header_read v (bmem s) \<Longrightarrow> k + r = n \<Longrightarrow> \<forall>j<k. placed v j (bmem s) \<Longrightarrow>
    \<exists>s'. load_segments d (ph_at v k) (ph_at v n) s = Some s' \<and> header_read v (bmem s') \<and>
      (\<forall>j<n. placed v j (bmem s'))"
proof (induction r arbitrary: k s)
  case 0
  then show ?case by (subst load_segments.simps) simp
next
  case (Suc r)
  have k: "k < n" using Suc.prems(2) by simp
  have u: "unat (ph_at v i) = 65536 + (k_phoff v + 32 * i)" if "i \<le> n" for i
    unfolding ph_at_def using that n by (subst unat_add_of_nat32) auto
  have lt: "ph_at v k < ph_at v n" using k u by (simp add: word_less_nat_alt)
  have nx: "ph_at v k + 32 = ph_at v (Suc k)" by (simp add: ph_at_def algebra_simps)
  have e: "k_end v j < 4294967296" if "j < k" for j
    using l that k unfolding loadable_segment_def by (auto simp: k_top_def)
  obtain t where t: "load_segment d (ph_at v k) s = Some t" "header_read v (bmem t)" "placed v k (bmem t)"
      "\<forall>j<k. placed v j (bmem s) \<longrightarrow> k_end v j < 4294967296 \<longrightarrow> placed v j (bmem t)"
    using load_segment_loads [OF d v Suc.prems(1)] n k l by force
  have "\<forall>j<Suc k. placed v j (bmem t)" using t(3,4) e Suc.prems(3) by (auto simp: less_Suc_eq)
  from Suc.IH [OF t(2) _ this] Suc.prems(2) show ?case
    using lt t(1) by (subst load_segments.simps) (simp add: nx)
qed

text \<open>C16. \<open>bootmain\<close> reads an image that can be loaded into memory and jumps to its entry: the bytes of every segment stand at its physical address, the rest of the segment up to its size in memory is zero, and the loader comes to an end although each sector is waited for.\<close>

theorem bootmain_loads:
  assumes "gets_ready d" and "ata_reads d disk" and "loadable (kimg disk)"
  shows "\<exists>s'. bootmain d s = Some (s', Some (k_entry (kimg disk))) \<and>
    (\<forall>k<k_phnum (kimg disk). placed (kimg disk) k (bmem s'))"
proof -
  define v where "v = kimg disk"
  have l: "img32 v 0 = ELF_MAGIC" "k_phoff v + 32 * k_phnum v \<le> 4096"
      "\<forall>k<k_phnum v. loadable_segment v k"
    using assms(3) by (auto simp: loadable_def v_def)
  obtain t where t: "readseg d elf 4096 0 s = Some t" "bmem t = loaded v 65536 4096 (bmem s)"
    using readseg_reads [OF assms(1,2), of 0 elf 4096 s] by (auto simp: seg_lo_def seg_len_def v_def)
  have h: "header_read v (bmem t)"
    unfolding header_read_def t(2) loaded_def
    using unat_add_of_nat32 [of elf] by simp
  have ph: "elf + elf_phoff (bmem t) = ph_at v 0" "elf + elf_phoff (bmem t) + 32 * ucast (elf_phnum (bmem t)) = ph_at v (k_phnum v)"
  proof -
    show "elf + elf_phoff (bmem t) = ph_at v 0" by (simp add: header_fields(3) [OF h] ph_at_def)
    moreover have "(ucast (elf_phnum (bmem t)) :: u32) = of_nat (k_phnum v)"
      using header_fields(4) [OF h] by (metis of_nat_unat)
    ultimately show "elf + elf_phoff (bmem t) + 32 * ucast (elf_phnum (bmem t)) = ph_at v (k_phnum v)"
      by (simp add: ph_at_def)
  qed
  obtain s' where s': "load_segments d (ph_at v 0) (ph_at v (k_phnum v)) t = Some s'" "header_read v (bmem s')"
      "\<forall>j<k_phnum v. placed v j (bmem s')"
    using load_segments_loads [OF assms(1,2) v_def l(2,3) h, of 0] by auto
  have "bootmain d s = Some (s', Some (k_entry v))"
    unfolding bootmain_def t(1) using s'(1) ph by (simp add: header_fields(1) [OF h] l(1) header_fields(2) [OF s'(2)])
  then show ?thesis using s'(3) by (simp add: v_def)
qed

text \<open>A disk with a small kernel: two segments, the second at an offset inside a sector.\<close>

definition demo_words :: "u32 list" where
  "demo_words =
     [ELF_MAGIC, 0, 0, 0, 0x00030002, 1, 0x10000C, 52, 0, 0, 0x00200034, 2, 0,
      1, 0, 0x80100000, 0x100000, 116, 116, 5, 4,
      1, 52, 0x80101000, 0x101000, 8, 64, 6, 4]"

definition demo_image :: view where
  "demo_image i = (if i < 116 then byte_of (i mod 4) (demo_words ! (i div 4)) else 0)"

definition demo_drive :: drive where
  "demo_drive = \<lparr>status = \<lambda>n. if n mod 3 = 2 then 0x40 else 0x80,
     data = \<lambda>r i. demo_image (512 * (unat (lba r) - 1) + i)\<rparr>"

definition demo_disk :: "nat \<Rightarrow> view" where
  "demo_disk n i = demo_image (512 * (n - 1) + i)"

lemma demo_kimg: "kimg demo_disk = demo_image"
  by (rule ext) (simp add: kimg_def demo_disk_def)

lemma demo_drive_works: "gets_ready demo_drive" "ata_reads demo_drive demo_disk"
proof -
  have "\<exists>k\<ge>n. k mod 3 = 2" for n :: nat by (rule exI [of _ "2 + n * 3"]) (simp only: mod_mult_self1, simp)
  then show "gets_ready demo_drive" by (auto simp: gets_ready_def demo_drive_def)
  show "ata_reads demo_drive demo_disk" by (simp add: ata_reads_def demo_drive_def demo_disk_def)
qed

lemma demo_img32: "j < 29 \<Longrightarrow> img32 demo_image (4 * j) = demo_words ! j"
proof -
  assume j: "j < 29"
  have "(4 * j + i) mod 4 = i \<and> (4 * j + i) div 4 = j" if "i < 4" for i using that by simp
  from this [of 0] this [of 1] this [of 2] this [of 3] j show ?thesis
    unfolding img32_def demo_image_def by (simp del: add_2_eq_Suc' add_Suc_right add: numeral_3_eq_3 [symmetric])
qed

lemma demo_fields:
  "img32 demo_image 0 = ELF_MAGIC" "k_entry demo_image = 0x10000C"
  "k_phoff demo_image = 52" "k_phnum demo_image = 2"
  using demo_img32 [of 0] demo_img32 [of 6] demo_img32 [of 7]
  by (simp_all add: demo_words_def k_entry_def k_phoff_def)
    (simp add: k_phnum_def demo_image_def demo_words_def byte_of_def le16_def drop_bit_eq_div)

lemma demo_segments:
  "k_off demo_image 0 = 0" "k_paddr demo_image 0 = 0x100000" "k_filesz demo_image 0 = 116" "k_memsz demo_image 0 = 116"
  "k_off demo_image (Suc 0) = 52" "k_paddr demo_image (Suc 0) = 0x101000" "k_filesz demo_image (Suc 0) = 8" "k_memsz demo_image (Suc 0) = 64"
  using demo_img32 [of 14] demo_img32 [of 16] demo_img32 [of 17] demo_img32 [of 18]
    demo_img32 [of 22] demo_img32 [of 24] demo_img32 [of 25] demo_img32 [of 26]
  by (simp_all add: k_off_def k_paddr_def k_filesz_def k_memsz_def demo_fields demo_words_def)

lemma demo_loadable: "loadable demo_image"
proof -
  have "loadable_segment demo_image 0"
    by (simp add: loadable_segment_def demo_segments k_top_def k_lo_def k_end_def seg_lo_def seg_len_def)
  moreover have "loadable_segment demo_image (Suc 0)"
    by (simp add: loadable_segment_def demo_segments k_top_def k_lo_def k_end_def seg_lo_def seg_len_def)
  moreover have "k < 2 \<Longrightarrow> k = 0 \<or> k = Suc 0" for k :: nat by linarith
  ultimately show ?thesis by (auto simp: loadable_def demo_fields)
qed

lemma bootmain_loads_witness:
  "\<exists>s'. bootmain demo_drive \<lparr>bmem = \<lambda>_. 0xCC, ports = \<lambda>_. 0, polls = 0\<rparr> = Some (s', Some 0x10000C) \<and>
    (\<forall>k<k_phnum demo_image. placed demo_image k (bmem s'))"
  using bootmain_loads [OF demo_drive_works] demo_loadable by (simp add: demo_kimg demo_fields)

end
