(* ===== verification/Xv6_Mp.thy ===== *)
theory Xv6_Mp
  imports Xv6_Kalloc
begin

text \<open>
  The search for the processors (\<open>mp.c\<close>): the tables that the BIOS leaves in memory, from which
  \<open>mpinit\<close> takes the number of processors, their APIC numbers and the I/O APIC.
\<close>

section \<open>State\<close>

text \<open>
  \<open>apicids\<close> holds \<open>cpus[i].apicid\<close> for the \<open>NCPU\<close> entries of \<open>cpus\<close>, \<open>mp_writes\<close> the bytes written to
  I/O ports, latest last.
\<close>

abbreviation (input) NCPU :: nat where "NCPU \<equiv> 8"

record mp_state =
  mp_mem :: memory
  apicids :: "u8 list"
  ncpu :: nat
  ioapicid :: u8
  lapic :: u32
  mp_writes :: "(u16 \<times> u8) list"

section \<open>Finding the tables\<close>

fun sum_loop :: "memory \<Rightarrow> u32 \<Rightarrow> nat \<Rightarrow> i32 \<Rightarrow> i32" where
  "sum_loop m a 0 acc = acc"
| "sum_loop m a (Suc n) acc = sum_loop m (a + 1) n (acc + ucast (m a))"

definition sum_bytes :: "memory \<Rightarrow> u32 \<Rightarrow> nat \<Rightarrow> u8" where
  "sum_bytes m a len = ucast (sum_loop m a len 0)"

text \<open>\<open>sizeof(struct mp)\<close> is 16, \<open>sizeof(struct mpconf)\<close> 44; the signatures are \<open>_MP_\<close> and \<open>PCMP\<close>.\<close>

definition is_mp :: "memory \<Rightarrow> u32 \<Rightarrow> bool" where
  "is_mp m p \<longleftrightarrow> memcmp (at m p) (arr [95, 77, 80, 95]) 4 = 0 \<and> sum_bytes m p 16 = 0"

function mpsearch1_loop :: "memory \<Rightarrow> u32 \<Rightarrow> nat \<Rightarrow> nat \<Rightarrow> u32" where
  "mpsearch1_loop m addr i len =
     (if i < len then
        let p = addr + of_nat i
        in if is_mp m p then p else mpsearch1_loop m addr (i + 16) len
      else 0)"
  by pat_completeness auto
termination
  by (relation "measure (\<lambda>(m, addr, i, len). len - i)") auto

declare mpsearch1_loop.simps [simp del]

definition mpsearch1 :: "memory \<Rightarrow> u32 \<Rightarrow> nat \<Rightarrow> u32" where
  "mpsearch1 m a len = mpsearch1_loop m (P2V a) 0 len"

definition mpsearch :: "memory \<Rightarrow> u32" where
  "mpsearch m =
     (let bda = P2V 0x400;
          p = push_bit 4 (push_bit 8 (ucast (m (bda + 0x0F))) OR ucast (m (bda + 0x0E))) :: u32;
          mp = (if p \<noteq> 0 then mpsearch1 m p 1024
                else let p = (push_bit 8 (ucast (m (bda + 0x14))) OR ucast (m (bda + 0x13))) * 1024
                     in mpsearch1 m (p - 1024) 1024)
      in if mp \<noteq> 0 then mp else mpsearch1 m 0xF0000 0x10000)"

definition mp_physaddr :: "u32 \<Rightarrow> memory \<Rightarrow> u32" where "mp_physaddr mp = ld32 (mp + 4)"
definition mp_imcrp :: "u32 \<Rightarrow> memory \<Rightarrow> u8" where "mp_imcrp mp m = m (mp + 12)"
definition conf_length :: "u32 \<Rightarrow> memory \<Rightarrow> u16" where "conf_length c m = le16 (m (c + 4)) (m (c + 5))"
definition conf_version :: "u32 \<Rightarrow> memory \<Rightarrow> u8" where "conf_version c m = m (c + 6)"
definition conf_lapicaddr :: "u32 \<Rightarrow> memory \<Rightarrow> u32" where "conf_lapicaddr c = ld32 (c + 36)"

text \<open>The configuration table and the floating pointer through which it was found.\<close>

definition mpconfig :: "memory \<Rightarrow> (u32 \<times> u32) option" where
  "mpconfig m =
     (let mp = mpsearch m in
      if mp = 0 \<or> mp_physaddr mp m = 0 then None
      else
        let conf = P2V (mp_physaddr mp m) in
        if memcmp (at m conf) (arr [80, 67, 77, 80]) 4 \<noteq> 0 then None
        else if conf_version conf m \<noteq> 1 \<and> conf_version conf m \<noteq> 4 then None
        else if sum_bytes m conf (unat (conf_length conf m)) \<noteq> 0 then None
        else Some (conf, mp))"

section \<open>Reading the table\<close>

abbreviation (input) MPPROC :: u8 where "MPPROC \<equiv> 0"
abbreviation (input) MPBUS :: u8 where "MPBUS \<equiv> 1"
abbreviation (input) MPIOAPIC :: u8 where "MPIOAPIC \<equiv> 2"
abbreviation (input) MPIOINTR :: u8 where "MPIOINTR \<equiv> 3"
abbreviation (input) MPLINTR :: u8 where "MPLINTR \<equiv> 4"

text \<open>
  The loop over the entries. The \<open>break\<close> of the default case leaves the \<open>switch\<close> only, so the loop
  goes on with the same \<open>p\<close>.
\<close>

partial_function (option) mp_loop :: "u32 \<Rightarrow> u32 \<Rightarrow> bool \<Rightarrow> mp_state \<Rightarrow> (bool \<times> mp_state) option" where
  "mp_loop p e ismp s =
     (if p < e then
        let t = mp_mem s p in
        if t = MPPROC then
          mp_loop (p + 20) e ismp
            (if ncpu s < NCPU
             then s\<lparr>apicids := (apicids s)[ncpu s := mp_mem s (p + 1)], ncpu := ncpu s + 1\<rparr> else s)
        else if t = MPIOAPIC then mp_loop (p + 8) e ismp (s\<lparr>ioapicid := mp_mem s (p + 1)\<rparr>)
        else if t = MPBUS \<or> t = MPIOINTR \<or> t = MPLINTR then mp_loop (p + 8) e ismp s
        else mp_loop p e False s
      else Some (ismp, s))"

text \<open>\<open>imcr\<close> is what \<open>inb(0x23)\<close> gives.\<close>

definition mpinit :: "u8 \<Rightarrow> mp_state \<Rightarrow> (stop + mp_state) option" where
  "mpinit imcr s =
     (case mpconfig (mp_mem s) of
        None \<Rightarrow> Some (Inl (Panic ''Expect to run on an SMP''))
      | Some (conf, mp) \<Rightarrow>
          let s = s\<lparr>lapic := conf_lapicaddr conf (mp_mem s)\<rparr>
          in Option.bind (mp_loop (conf + 44) (conf + ucast (conf_length conf (mp_mem s))) True s) (\<lambda>(ismp, s).
             if \<not> ismp then Some (Inl (Panic ''Didn't find a suitable machine''))
             else if mp_imcrp mp (mp_mem s) \<noteq> 0
             then Some (Inr (s\<lparr>mp_writes := mp_writes s @ [(0x22, 0x70), (0x23, imcr OR 1)]\<rparr>))
             else Some (Inr s)))"

section \<open>What the search finds\<close>

text \<open>The bytes add up to 0 modulo 256.\<close>

lemma sum_loop_eq: "sum_loop m a n acc = acc + (\<Sum>i<n. ucast (m (a + of_nat i)))"
proof (induction n arbitrary: a acc)
  case (Suc n)
  have "(\<Sum>i<Suc n. ucast (m (a + of_nat i)) :: u32) = ucast (m a) + (\<Sum>i<n. ucast (m (a + 1 + of_nat i)))"
    by (subst sum.lessThan_Suc_shift) (simp add: add.assoc)
  then show ?case by (simp add: Suc add.assoc)
qed simp

lemma ucast_add_u8: "ucast (x + y :: u32) = (ucast x + ucast y :: u8)"
proof -
  have "unat (x + y) mod 256 = (unat x + unat y) mod 256"
    by (simp add: unat_word_ariths mod_mod_cancel)
  then have "unat (ucast (x + y) :: u8) = unat (ucast x + ucast y :: u8)"
    by (simp add: unat_word_ariths unsigned_ucast_eq take_bit_eq_mod mod_simps)
  then show ?thesis by (metis of_nat_unat_self)
qed

lemma ucast_up_down8: "(ucast (ucast (x :: u8) :: u32) :: u8) = x"
  by (rule bit_word_eqI) (auto simp: bit_simps)

lemma sum_bytes_eq: "sum_bytes m a n = (\<Sum>i<n. m (a + of_nat i))"
proof -
  have "ucast (\<Sum>i<n. ucast (m (a + of_nat i)) :: u32) = (\<Sum>i<n. m (a + of_nat i))"
    by (induction n) (simp_all add: ucast_add_u8 ucast_up_down8)
  then show ?thesis by (simp add: sum_bytes_def sum_loop_eq)
qed

lemma mpsearch1_loop_cases:
  "(\<exists>k. i + 16 * k < len \<and> mpsearch1_loop m addr i len = addr + of_nat (i + 16 * k) \<and>
      is_mp m (addr + of_nat (i + 16 * k)) \<and> (\<forall>j<k. \<not> is_mp m (addr + of_nat (i + 16 * j)))) \<or>
   (mpsearch1_loop m addr i len = 0 \<and> (\<forall>j. i + 16 * j < len \<longrightarrow> \<not> is_mp m (addr + of_nat (i + 16 * j))))"
proof (induction m addr i len rule: mpsearch1_loop.induct)
  case (1 m addr i len)
  show ?case
  proof (cases "i < len")
    case False
    then show ?thesis by (simp add: mpsearch1_loop.simps)
  next
    case lt: True
    show ?thesis
    proof (cases "is_mp m (addr + of_nat i)")
      case True
      then show ?thesis using lt
        by (intro disjI1 exI [of _ 0]) (simp add: mpsearch1_loop.simps)
    next
      case False
      then have e: "mpsearch1_loop m addr i len = mpsearch1_loop m addr (i + 16) len"
        using lt by (subst mpsearch1_loop.simps) (simp add: Let_def)
      have sh: "i + 16 + 16 * k = i + 16 * Suc k" for k by simp
      from 1 [OF lt refl False, unfolded sh] show ?thesis
      proof (elim disjE exE conjE)
        fix k
        assume k: "i + 16 * Suc k < len" "mpsearch1_loop m addr (i + 16) len = addr + of_nat (i + 16 * Suc k)"
          "is_mp m (addr + of_nat (i + 16 * Suc k))" "\<forall>j<k. \<not> is_mp m (addr + of_nat (i + 16 * Suc j))"
        have "\<not> is_mp m (addr + of_nat (i + 16 * j))" if "j < Suc k" for j
          using that False k(4) by (cases j) simp_all
        then show ?thesis using k(1,2,3) unfolding e by blast
      next
        assume n: "mpsearch1_loop m addr (i + 16) len = 0"
          "\<forall>j. i + 16 * Suc j < len \<longrightarrow> \<not> is_mp m (addr + of_nat (i + 16 * Suc j))"
        have "\<not> is_mp m (addr + of_nat (i + 16 * j))" if "i + 16 * j < len" for j
          using that False n(2) by (cases j) simp_all
        then show ?thesis using n(1) unfolding e by blast
      qed
    qed
  qed
qed

section \<open>What is read from the table\<close>

datatype mp_entry = Processor u8 | Bus | IoApic u8 | IoInterrupt | LocalInterrupt

fun entry_size :: "mp_entry \<Rightarrow> nat" where
  "entry_size (Processor i) = 20"
| "entry_size e = 8"

fun entry_at :: "memory \<Rightarrow> u32 \<Rightarrow> mp_entry \<Rightarrow> bool" where
  "entry_at m p (Processor i) = (m p = MPPROC \<and> m (p + 1) = i)"
| "entry_at m p Bus = (m p = MPBUS)"
| "entry_at m p (IoApic i) = (m p = MPIOAPIC \<and> m (p + 1) = i)"
| "entry_at m p IoInterrupt = (m p = MPIOINTR)"
| "entry_at m p LocalInterrupt = (m p = MPLINTR)"

fun laid_out :: "memory \<Rightarrow> u32 \<Rightarrow> mp_entry list \<Rightarrow> bool" where
  "laid_out m p [] = True"
| "laid_out m p (x # xs) = (entry_at m p x \<and> laid_out m (p + of_nat (entry_size x)) xs)"

definition total_size :: "mp_entry list \<Rightarrow> nat" where
  "total_size es = sum_list (map entry_size es)"

fun processor_ids :: "mp_entry list \<Rightarrow> u8 list" where
  "processor_ids [] = []"
| "processor_ids (Processor i # es) = i # processor_ids es"
| "processor_ids (e # es) = processor_ids es"

fun last_ioapic :: "u8 \<Rightarrow> mp_entry list \<Rightarrow> u8" where
  "last_ioapic i [] = i"
| "last_ioapic i (IoApic j # es) = last_ioapic j es"
| "last_ioapic i (e # es) = last_ioapic i es"

text \<open>The processors that have been taken, of which the first \<open>NCPU\<close> are kept.\<close>

definition has_cpus :: "u8 list \<Rightarrow> mp_state \<Rightarrow> bool" where
  "has_cpus ids s \<longleftrightarrow> length (apicids s) = NCPU \<and> ncpu s = min NCPU (length ids) \<and>
     take (ncpu s) (apicids s) = take NCPU ids"

lemma has_cpus_upd [simp]:
  "has_cpus ids (s\<lparr>ioapicid := i\<rparr>) = has_cpus ids s" "has_cpus ids (s\<lparr>lapic := a\<rparr>) = has_cpus ids s"
  by (simp_all add: has_cpus_def)

lemma has_cpus_add:
  assumes "has_cpus ids s"
  shows "has_cpus (ids @ [i]) (if ncpu s < NCPU
    then s\<lparr>apicids := (apicids s)[ncpu s := i], ncpu := ncpu s + 1\<rparr> else s)"
proof (cases "length ids < 8")
  case True
  then have "ncpu s = length ids" "length (apicids s) = 8" "take (length ids) (apicids s) = ids"
    using assms by (auto simp: has_cpus_def)
  then show ?thesis using True by (simp add: has_cpus_def take_Suc_conv_app_nth)
qed (use assms in \<open>auto simp: has_cpus_def\<close>)

lemma mp_loop_reads:
  assumes "laid_out (mp_mem s) p es" and "unat p + total_size es = unat e" and "has_cpus ids s"
  shows "\<exists>s'. mp_loop p e ismp s = Some (ismp, s') \<and> has_cpus (ids @ processor_ids es) s' \<and>
    ioapicid s' = last_ioapic (ioapicid s) es \<and>
    mp_mem s' = mp_mem s \<and> lapic s' = lapic s \<and> mp_writes s' = mp_writes s"
  using assms
proof (induction es arbitrary: p s ids)
  case Nil
  then have "\<not> p < e" by (simp add: total_size_def word_less_nat_alt)
  then show ?case using Nil by (subst mp_loop.simps) simp
next
  case (Cons x xs)
  have sz: "unat p + entry_size x + total_size xs = unat e" "0 < entry_size x"
    using Cons.prems(2) by (simp_all add: total_size_def) (cases x; simp)
  then have lt: "p < e" by (simp add: word_less_nat_alt)
  have nx: "unat (p + of_nat (entry_size x)) + total_size xs = unat e"
    using sz unat_lt32 [of e] by (subst unat_add_of_nat32) linarith+
  show ?case
  proof (cases x)
    case (Processor i)
    let ?s = "if ncpu s < NCPU then s\<lparr>apicids := (apicids s)[ncpu s := i], ncpu := ncpu s + 1\<rparr> else s"
    have f: "mp_mem ?s = mp_mem s" "ioapicid ?s = ioapicid s" "lapic ?s = lapic s" "mp_writes ?s = mp_writes s"
      by auto
    have "\<exists>s'. mp_loop (p + 20) e ismp ?s = Some (ismp, s') \<and> has_cpus ((ids @ [i]) @ processor_ids xs) s' \<and>
        ioapicid s' = last_ioapic (ioapicid ?s) xs \<and>
        mp_mem s' = mp_mem ?s \<and> lapic s' = lapic ?s \<and> mp_writes s' = mp_writes ?s"
      using Cons.IH [of ?s "p + 20" "ids @ [i]"] has_cpus_add [OF Cons.prems(3)] Cons.prems(1) nx Processor f
      by simp
    then show ?thesis using lt Cons.prems(1) Processor
      by (subst mp_loop.simps) (cases "ncpu s < NCPU"; simp)
  next
    case (IoApic i)
    then show ?thesis using lt Cons.prems(1,3) nx Cons.IH [of "s\<lparr>ioapicid := i\<rparr>" "p + 8" ids]
      by (subst mp_loop.simps) simp
  qed (use lt Cons.prems nx Cons.IH [of s "p + 8" ids] in \<open>subst mp_loop.simps; simp\<close>)+
qed

text \<open>An entry of a type that is not known is never left.\<close>

lemma mp_loop_unknown:
  assumes "mp_loop p e ismp s = Some r" and "p < e"
  shows "mp_mem s p \<le> 4"
proof (rule ccontr)
  assume "\<not> mp_mem s p \<le> 4"
  then have "mp_mem s p \<notin> {0, 1, 2, 3, 4}" by auto
  moreover have "p < e \<longrightarrow> mp_mem s p \<in> {0, 1, 2, 3, 4}"
    by (rule mp_loop.raw_induct [where P = "\<lambda>p e ismp s r. p < e \<longrightarrow> mp_mem s p \<in> {0, 1, 2, 3, 4}", OF _ assms(1)])
      (auto simp: Let_def split: if_splits, blast+)
  ultimately show False using assms(2) by simp
qed


lemma mp_loop_hangs:
  assumes "laid_out (mp_mem s) p es" and "\<not> mp_mem s (p + of_nat (total_size es)) \<le> 4"
    and "unat p + total_size es < unat e"
  shows "mp_loop p e ismp s = None"
  using assms
proof (induction es arbitrary: p s)
  case Nil
  then show ?case
    using mp_loop_unknown [of p e ismp s] by (cases "mp_loop p e ismp s") (auto simp: total_size_def word_less_nat_alt)
next
  case (Cons x xs)
  have sz: "unat p + entry_size x + total_size xs < unat e"
    using Cons.prems(3) by (simp add: total_size_def)
  then have lt: "p < e" by (simp add: word_less_nat_alt)
  have nx: "unat (p + of_nat (entry_size x)) + total_size xs < unat e"
    using sz unat_lt32 [of e] by (subst unat_add_of_nat32) linarith+
  have pr: "p + of_nat (total_size (x # xs)) = p + of_nat (entry_size x) + of_nat (total_size xs)"
    by (simp add: total_size_def add.assoc)
  have IH: "mp_loop (p + of_nat (entry_size x)) e ismp s' = None" if "mp_mem s' = mp_mem s" for s'
    by (rule Cons.IH) (use Cons.prems(1,2) that nx in \<open>simp_all add: pr\<close>)
  then show ?case using lt Cons.prems(1) IH
    by (subst mp_loop.simps; cases x; cases "ncpu s < NCPU"; simp)
qed

text \<open>A table of well-formed entries behind the header of the configuration.\<close>

definition mp_table :: "memory \<Rightarrow> u32 \<Rightarrow> mp_entry list \<Rightarrow> bool" where
  "mp_table m conf es \<longleftrightarrow> laid_out m (conf + 44) es \<and> 44 + total_size es = unat (conf_length conf m) \<and>
     unat conf + 44 + total_size es < 4294967296"

text \<open>C36. Where the BIOS has left a configuration table, \<open>mpinit\<close> returns and takes from it the numbers of the first eight processors in their order, the number of processors (no more than \<open>NCPU\<close>), the last I/O APIC and the address of the local APIC; it switches the interrupt mode exactly when the floating pointer says that there is an IMCR.\<close>

theorem mpinit_reads_table:
  assumes "mpconfig (mp_mem s) = Some (conf, mp)" and "mp_table (mp_mem s) conf es"
    and "ncpu s = 0" and "length (apicids s) = NCPU"
  shows "\<exists>s'. mpinit imcr s = Some (Inr s') \<and>
    ncpu s' = min NCPU (length (processor_ids es)) \<and> take (ncpu s') (apicids s') = take NCPU (processor_ids es) \<and>
    ioapicid s' = last_ioapic (ioapicid s) es \<and> lapic s' = conf_lapicaddr conf (mp_mem s) \<and>
    mp_mem s' = mp_mem s \<and>
    mp_writes s' = mp_writes s @ (if mp_imcrp mp (mp_mem s) = 0 then [] else [(0x22, 0x70), (0x23, imcr OR 1)])"
proof -
  let ?s = "s\<lparr>lapic := conf_lapicaddr conf (mp_mem s)\<rparr>"
  have t: "laid_out (mp_mem ?s) (conf + 44) es" "44 + total_size es = unat (conf_length conf (mp_mem s))"
      "unat conf + 44 + total_size es < 4294967296"
    using assms(2) by (auto simp: mp_table_def)
  have "unat (conf_length conf (mp_mem s)) < 2 ^ LENGTH(16)" by (rule unsigned_less)
  then have "unat (ucast (conf_length conf (mp_mem s)) :: u32) = 44 + total_size es"
    using t(2) by (simp add: unsigned_ucast_eq take_bit_nat_eq_self)
  then have e: "unat (conf + ucast (conf_length conf (mp_mem s))) = unat conf + (44 + total_size es)"
    using t(3) by (subst unat_add32) simp_all
  have p: "unat (conf + 44) + total_size es = unat (conf + ucast (conf_length conf (mp_mem s)))"
    using t(3) unat_add_of_nat32 [of conf 44] by (simp add: e)
  have "has_cpus [] ?s" using assms(3,4) by (simp add: has_cpus_def)
  from mp_loop_reads [OF t(1) p this, of True] obtain s' where s':
    "mp_loop (conf + 44) (conf + ucast (conf_length conf (mp_mem s))) True ?s = Some (True, s')"
    "has_cpus (processor_ids es) s'" "ioapicid s' = last_ioapic (ioapicid s) es"
    "mp_mem s' = mp_mem s" "lapic s' = conf_lapicaddr conf (mp_mem s)" "mp_writes s' = mp_writes s"
    by auto
  show ?thesis
    unfolding mpinit_def assms(1)
    using s' by (auto simp: has_cpus_def)
qed

text \<open>A machine with two processors: the floating pointer lies at the start of the EBDA.\<close>

definition put_bytes :: "u32 \<Rightarrow> bytes \<Rightarrow> memory \<Rightarrow> memory" where
  "put_bytes a bs m = (\<lambda>x. if unat (x - a) < length bs then bs ! unat (x - a) else m x)"

lemma put_bytes_at: "i < length bs \<Longrightarrow> length bs < 4294967296 \<Longrightarrow> put_bytes a bs m (a + of_nat i) = bs ! i"
  by (simp add: put_bytes_def unat_of_nat32)

lemma sum_bytes_list:
  assumes "\<And>i. i < length bs \<Longrightarrow> m (a + of_nat i) = bs ! i"
  shows "sum_bytes m a (length bs) = sum_list bs"
  using assms by (simp add: sum_bytes_eq sum_list_sum_nth atLeast0LessThan)

definition demo_mp :: bytes where
  "demo_mp = [95, 77, 80, 95, 0, 16, 15, 0, 1, 4, 1, 0, 128, 0, 0, 0]"

definition demo_conf :: bytes where
  "demo_conf = [80, 67, 77, 80, 92, 0, 4, 141] @ replicate 28 0 @ [0, 0, 224, 254, 0, 0, 0, 0] @
     [0, 0] @ replicate 18 0 @ [0, 1] @ replicate 18 0 @ [2, 2, 0, 0, 0, 0, 0, 0]"

definition demo_bios :: memory where
  "demo_bios = put_bytes 0x800F1000 demo_conf (put_bytes 0x8009FC00 demo_mp
     (put_bytes 0x8000040E [0xC0, 0x9F] (\<lambda>_. 0)))"

lemma demo_lengths: "length demo_conf = 92" "length demo_mp = 16"
  by (simp_all add: demo_conf_def demo_mp_def)

lemma demo_sums: "sum_list demo_conf = 0" "sum_list demo_mp = 0"
  by code_simp+

lemma demo_bios_conf: "i < 92 \<Longrightarrow> demo_bios (0x800F1000 + of_nat i) = demo_conf ! i"
  unfolding demo_bios_def by (subst put_bytes_at) (simp_all add: demo_lengths)

lemma demo_bios_mp:
  assumes "i < 16"
  shows "demo_bios (0x8009FC00 + of_nat i) = demo_mp ! i"
proof -
  have "(0x8009FC00 :: u32) + of_nat i - 0x800F1000 = 0xFFFAEC00 + of_nat i"
  proof -
    have "a + x - b = c + x" if "a = c + b" for a b c x :: u32 by (simp add: that)
    moreover have "(0x8009FC00 :: u32) = 0xFFFAEC00 + 0x800F1000" by code_simp
    ultimately show ?thesis by blast
  qed
  moreover have "unat ((0xFFFAEC00 :: u32) + of_nat i) = 0xFFFAEC00 + i"
    using assms by (subst unat_add_of_nat32) simp_all
  ultimately have "unat ((0x8009FC00 :: u32) + of_nat i - 0x800F1000) = 0xFFFAEC00 + i" by (simp only:)
  then have "\<not> unat ((0x8009FC00 :: u32) + of_nat i - 0x800F1000) < length demo_conf"
    unfolding demo_lengths by linarith
  then have "demo_bios (0x8009FC00 + of_nat i) =
      put_bytes 0x8009FC00 demo_mp (put_bytes 0x8000040E [0xC0, 0x9F] (\<lambda>_. 0)) (0x8009FC00 + of_nat i)"
    unfolding demo_bios_def by (subst put_bytes_def) (simp only: if_False)
  then show ?thesis using assms by (simp add: put_bytes_at demo_mp_def)
qed

text \<open>A memory in which these bytes are where \<open>demo_bios\<close> has them.\<close>

definition like_demo :: "memory \<Rightarrow> bool" where
  "like_demo m \<longleftrightarrow> (\<forall>i < 92. m (0x800F1000 + of_nat i) = demo_conf ! i) \<and> (\<forall>i < 16. m (0x8009FC00 + of_nat i) = demo_mp ! i)
     \<and> m 0x8000040E = 0xC0 \<and> m 0x8000040F = 0x9F"

lemma like_demoD:
  assumes "like_demo m"
  shows "i < 92 \<Longrightarrow> m (0x800F1000 + of_nat i) = demo_conf ! i" and "i < 16 \<Longrightarrow> m (0x8009FC00 + of_nat i) = demo_mp ! i"
    and "m 0x8000040E = 0xC0" and "m 0x8000040F = 0x9F"
  using assms by (auto simp: like_demo_def)

lemma demo_bios_like: "like_demo demo_bios"
  unfolding like_demo_def
  by (auto simp: demo_bios_conf demo_bios_mp simp del: of_nat_numeral)
    (simp_all add: demo_bios_def put_bytes_def demo_lengths demo_mp_def)

lemma demo_search:
  assumes "like_demo m"
  shows "mpsearch m = 0x8009FC00"
proof -
  note conf = like_demoD(1) [OF assms] and mp = like_demoD(2) [OF assms]
  have b: "m 0x8000040E = 0xC0" "m 0x8000040F = 0x9F"
    using like_demoD [OF assms] by simp_all
  have "is_mp m 0x8009FC00"
  proof -
    have "sum_bytes m 0x8009FC00 16 = 0"
      using sum_bytes_list [where bs = demo_mp and m = m and a = "0x8009FC00"] mp by (simp add: demo_lengths demo_sums)
    then show ?thesis
      using mp [of 0] mp [of 1] mp [of 2] mp [of 3]
      by (simp add: is_mp_def at_def demo_mp_def numeral_eq_Suc)
  qed
  then have "mpsearch1 m 0x9FC00 1024 = 0x8009FC00"
    by (simp add: mpsearch1_def P2V_def mpsearch1_loop.simps)
  moreover have "push_bit 4 (push_bit 8 0x9F OR 0xC0) = (0x9FC00 :: u32)" by simp
  ultimately show ?thesis by (simp add: mpsearch_def P2V_def b Let_def)
qed

lemma demo_config:
  assumes "like_demo m"
  shows "mpconfig m = Some (0x800F1000, 0x8009FC00)"
proof -
  note conf = like_demoD(1) [OF assms] and mp = like_demoD(2) [OF assms]
  have "mp_physaddr 0x8009FC00 m = 0xF1000"
    using mp [of 4] mp [of 5] mp [of 6] mp [of 7]
    by (simp add: mp_physaddr_def ld32_def demo_mp_def le32_def)
  moreover have "memcmp (at m 0x800F1000) (arr [80, 67, 77, 80]) 4 = 0"
    using conf [of 0] conf [of 1] conf [of 2] conf [of 3]
    by (simp add: at_def demo_conf_def numeral_eq_Suc)
  moreover have "conf_version 0x800F1000 m = 4"
    using conf [of 6] by (simp add: conf_version_def demo_conf_def)
  moreover have l: "unat (conf_length 0x800F1000 m) = 92"
    using conf [of 4] conf [of 5] by (simp add: conf_length_def demo_conf_def le16_def)
  moreover have "sum_bytes m 0x800F1000 92 = 0"
    using sum_bytes_list [where bs = demo_conf and m = m and a = "0x800F1000"] conf
    by (simp add: demo_lengths demo_sums)
  ultimately show ?thesis
    by (simp add: mpconfig_def demo_search [OF assms] P2V_def Let_def)
qed

lemma demo_table:
  assumes "like_demo m"
  shows "mp_table m 0x800F1000 [Processor 0, Processor 1, IoApic 2]" and "conf_lapicaddr 0x800F1000 m = 0xFEE00000"
proof -
  note conf = like_demoD(1) [OF assms] and mp = like_demoD(2) [OF assms]
  have "unat (conf_length 0x800F1000 m) = 92"
    using conf [of 4] conf [of 5] by (simp add: conf_length_def demo_conf_def le16_def)
  then show "mp_table m 0x800F1000 [Processor 0, Processor 1, IoApic 2]"
    using conf [of 44] conf [of 45] conf [of 64] conf [of 65]
      conf [of 84] conf [of 85]
    by (simp add: mp_table_def total_size_def demo_conf_def nth_append)
  show "conf_lapicaddr 0x800F1000 m = 0xFEE00000"
    using conf [of 36] conf [of 37] conf [of 38] conf [of 39]
    by (simp add: conf_lapicaddr_def ld32_def le32_def demo_conf_def nth_append)
qed

lemma mpinit_reads_table_witness:
  "\<exists>s'. mpinit 0 \<lparr>mp_mem = demo_bios, apicids = replicate 8 0, ncpu = 0, ioapicid = 0, lapic = 0, mp_writes = []\<rparr>
     = Some (Inr s') \<and> ncpu s' = 2 \<and> take 2 (apicids s') = [0, 1] \<and> ioapicid s' = 2 \<and>
     mp_writes s' = [(0x22, 0x70), (0x23, 1)]"
proof -
  have i: "mp_imcrp 0x8009FC00 demo_bios \<noteq> 0"
    using demo_bios_mp [of 12] by (simp add: mp_imcrp_def demo_mp_def)
  show ?thesis
    using mpinit_reads_table [of "\<lparr>mp_mem = demo_bios, apicids = replicate 8 0, ncpu = 0, ioapicid = 0, lapic = 0, mp_writes = []\<rparr>"
        "0x800F1000" "0x8009FC00" "[Processor 0, Processor 1, IoApic 2]" 0]
      demo_config [OF demo_bios_like] demo_table(1) [OF demo_bios_like] i by (auto simp: numeral_2_eq_2)
qed

end
