(* ===== verification/Hw5_Spool.thy ===== *)
theory Hw5_Spool
  imports Xv6_Prelude "HOL-Library.Sublist"
begin

text \<open>
  The print spooler of \<open>Practical HW5\<close>: the clients (\<open>client.c\<close>) put lines into a ring of ten slots
  in shared memory, the server (\<open>server.c\<close>) prints them; three semaphores keep them apart. Each step
  below is one access of a process to the shared memory or one operation on a semaphore, so that
  the steps of the processes interleave as the scheduler of the host likes.
\<close>

section \<open>State\<close>

text \<open>
  A client between \<open>fgets\<close> and the end of its turn, a constructor for every place where the next
  step touches what is shared; the line it carries is the one in its array \<open>buf\<close>.
\<close>

datatype client_pc =
    Typing
  | WantSlot bytes
  | WantMutex bytes
  | InCrit bytes
  | Stored
  | Advanced
  | Unlocking
  | Signalling
  | Gone

datatype server_pc = WaitSignal | Printing | Printed | Bumped | Freeing

text \<open>
  \<open>struct shared_memory\<close>, the three semaphores and the program counters; \<open>stored\<close> and \<open>printed\<close> are the
  history of the texts put into the ring and of the output of the server.
\<close>

record spool =
  buffer_count_sem :: nat
  mutex_sem :: nat
  server_signal_sem :: nat
  buf :: "bytes list"
  buffer_index :: nat
  buffer_print_index :: nat
  client :: "nat \<Rightarrow> client_pc"
  server :: server_pc
  stored :: "bytes list"
  printed :: "bytes list"

abbreviation SLOTS :: nat where "SLOTS \<equiv> 10"

text \<open>The server has set up the semaphores; what the ring holds does not matter.\<close>

definition spool_init :: "bytes list \<Rightarrow> spool" where
  "spool_init b = \<lparr>buffer_count_sem = 10, mutex_sem = 1, server_signal_sem = 0, buf = b,
     buffer_index = 0, buffer_print_index = 0, client = (\<lambda>_. Typing), server = WaitSignal,
     stored = [], printed = []\<rparr>"

text \<open>\<open>fgets(buf, 198, stdin)\<close> and the newline taken off; \<open>sprintf(slot, "(%d): %s\n", getpid(), buf)\<close>.\<close>

fun decimal :: "nat \<Rightarrow> bytes" where
  "decimal n = (if n < 10 then [] else decimal (n div 10)) @ [of_nat (48 + n mod 10)]"

declare decimal.simps [simp del]

definition chomp :: "bytes \<Rightarrow> bytes" where
  "chomp l = (if l \<noteq> [] \<and> last l = 10 then butlast l else l)"

definition slot_text :: "nat \<Rightarrow> bytes \<Rightarrow> bytes" where
  "slot_text pid l = [40] @ decimal pid @ [41, 58, 32] @ l @ [10]"

definition client_at :: "nat \<Rightarrow> client_pc \<Rightarrow> spool \<Rightarrow> spool" where
  "client_at i c s = s\<lparr>client := (client s)(i := c)\<rparr>"

section \<open>Steps\<close>

text \<open>
  \<open>pid i\<close> is the process number of client \<open>i\<close>, \<open>n\<close> how many clients there are. A line has no NUL.
\<close>

inductive client_step :: "(nat \<Rightarrow> nat) \<Rightarrow> nat \<Rightarrow> spool \<Rightarrow> spool \<Rightarrow> bool" for pid n where
  read_line: "i < n \<Longrightarrow> client s i = Typing \<Longrightarrow> l \<noteq> [] \<Longrightarrow> 0 \<notin> set l \<Longrightarrow> length l \<le> 197 \<Longrightarrow>
    client_step pid n s (client_at i (WantSlot (chomp l)) s)"
| end_of_input: "i < n \<Longrightarrow> client s i = Typing \<Longrightarrow> client_step pid n s (client_at i Gone s)"
| take_slot: "i < n \<Longrightarrow> client s i = WantSlot l \<Longrightarrow> 0 < buffer_count_sem s \<Longrightarrow>
    client_step pid n s (client_at i (WantMutex l) (s\<lparr>buffer_count_sem := buffer_count_sem s - 1\<rparr>))"
| lock: "i < n \<Longrightarrow> client s i = WantMutex l \<Longrightarrow> 0 < mutex_sem s \<Longrightarrow>
    client_step pid n s (client_at i (InCrit l) (s\<lparr>mutex_sem := mutex_sem s - 1\<rparr>))"
| store: "i < n \<Longrightarrow> client s i = InCrit l \<Longrightarrow>
    client_step pid n s (client_at i Stored
      (s\<lparr>buf := (buf s)[buffer_index s := slot_text (pid i) l], stored := stored s @ [slot_text (pid i) l]\<rparr>))"
| advance: "i < n \<Longrightarrow> client s i = Stored \<Longrightarrow>
    client_step pid n s (client_at i Advanced (s\<lparr>buffer_index := buffer_index s + 1\<rparr>))"
| wrap: "i < n \<Longrightarrow> client s i = Advanced \<Longrightarrow>
    client_step pid n s (client_at i Unlocking
      (if buffer_index s = SLOTS then s\<lparr>buffer_index := 0\<rparr> else s))"
| unlock: "i < n \<Longrightarrow> client s i = Unlocking \<Longrightarrow>
    client_step pid n s (client_at i Signalling (s\<lparr>mutex_sem := mutex_sem s + 1\<rparr>))"
| signal: "i < n \<Longrightarrow> client s i = Signalling \<Longrightarrow>
    client_step pid n s (client_at i Typing (s\<lparr>server_signal_sem := server_signal_sem s + 1\<rparr>))"

inductive server_step :: "spool \<Rightarrow> spool \<Rightarrow> bool" where
  server_wait: "server s = WaitSignal \<Longrightarrow> 0 < server_signal_sem s \<Longrightarrow>
    server_step s (s\<lparr>server_signal_sem := server_signal_sem s - 1, server := Printing\<rparr>)"
| server_print: "server s = Printing \<Longrightarrow>
    server_step s (s\<lparr>printed := printed s @ [buf s ! buffer_print_index s], server := Printed\<rparr>)"
| server_advance: "server s = Printed \<Longrightarrow>
    server_step s (s\<lparr>buffer_print_index := buffer_print_index s + 1, server := Bumped\<rparr>)"
| server_wrap: "server s = Bumped \<Longrightarrow>
    server_step s (if buffer_print_index s = SLOTS then s\<lparr>buffer_print_index := 0, server := Freeing\<rparr>
      else s\<lparr>server := Freeing\<rparr>)"
| server_free: "server s = Freeing \<Longrightarrow>
    server_step s (s\<lparr>buffer_count_sem := buffer_count_sem s + 1, server := WaitSignal\<rparr>)"

text \<open>The processes of the host interleave.\<close>

inductive spool_step :: "(nat \<Rightarrow> nat) \<Rightarrow> nat \<Rightarrow> spool \<Rightarrow> spool \<Rightarrow> bool" for pid n where
  client: "client_step pid n s s' \<Longrightarrow> spool_step pid n s s'"
| server: "server_step s s' \<Longrightarrow> spool_step pid n s s'"

inductive spool_reach :: "(nat \<Rightarrow> nat) \<Rightarrow> nat \<Rightarrow> spool \<Rightarrow> bool" for pid n where
  start: "length b = SLOTS \<Longrightarrow> spool_reach pid n (spool_init b)"
| step: "spool_reach pid n s \<Longrightarrow> spool_step pid n s s' \<Longrightarrow> spool_reach pid n s'"

section \<open>Counting the clients\<close>

text \<open>A client holds a slot, is in the critical section, has stored a text that is not signalled yet.\<close>

fun has_slot :: "client_pc \<Rightarrow> nat" where
  "has_slot Typing = 0" | "has_slot (WantSlot l) = 0" | "has_slot Gone = 0" | "has_slot c = 1"

fun in_crit :: "client_pc \<Rightarrow> nat" where
  "in_crit (InCrit l) = 1" | "in_crit Stored = 1" | "in_crit Advanced = 1" | "in_crit Unlocking = 1" | "in_crit c = 0"

fun pending :: "client_pc \<Rightarrow> nat" where
  "pending Stored = 1" | "pending Advanced = 1" | "pending Unlocking = 1" | "pending Signalling = 1" | "pending c = 0"

definition total :: "nat \<Rightarrow> (client_pc \<Rightarrow> nat) \<Rightarrow> spool \<Rightarrow> nat" where
  "total n f s = (\<Sum>i<n. f (client s i))"

lemma total_client_at:
  assumes "i < n"
  shows "total n f (client_at i c s) + f (client s i) = total n f s + f c"
proof -
  have "total n f (client_at i c s) = f c + (\<Sum>j\<in>{..<n} - {i}. f (client s j))"
    unfolding total_def client_at_def using assms by (subst sum.remove [of _ i]) simp_all
  moreover have "total n f s = f (client s i) + (\<Sum>j\<in>{..<n} - {i}. f (client s j))"
    unfolding total_def using assms by (subst sum.remove [of _ i]) simp_all
  ultimately show ?thesis by simp
qed

lemma total_client: "client s = client t \<Longrightarrow> total n f s = total n f t"
  by (simp add: total_def)

lemma total_ge: "i < n \<Longrightarrow> f (client s i) \<le> total n f s"
  unfolding total_def by (rule member_le_sum) simp_all

lemma total_ge2:
  assumes "i < n" and "j < n" and "i \<noteq> j"
  shows "f (client s i) + f (client s j) \<le> total n f s"
proof -
  have "(\<Sum>k\<in>{i, j}. f (client s k)) \<le> total n f s"
    unfolding total_def using assms by (intro sum_mono2) auto
  then show ?thesis using assms(3) by simp
qed

lemma pending_le_slot: "total n pending s \<le> total n has_slot s"
proof -
  have "pending c \<le> has_slot c" for c by (cases c) simp_all
  then show ?thesis unfolding total_def by (intro sum_mono) simp
qed

lemma pending_lt_slot:
  assumes "i < n" and "pending (client s i) = 0" and "has_slot (client s i) = 1"
  shows "total n pending s < total n has_slot s"
proof -
  have "pending c \<le> has_slot c" for c by (cases c) simp_all
  then show ?thesis unfolding total_def
    by (intro sum_strict_mono_ex1 bexI [of _ i]) (use assms in auto)
qed

section \<open>The invariant\<close>

definition busy :: "spool \<Rightarrow> nat" where
  "busy s = (if server s = WaitSignal then 0 else 1)"

definition printing :: "spool \<Rightarrow> nat" where
  "printing s = (if server s = Printing then 1 else 0)"

definition sems_ok :: "nat \<Rightarrow> spool \<Rightarrow> bool" where
  "sems_ok n s \<longleftrightarrow> mutex_sem s + total n in_crit s = 1 \<and>
     buffer_count_sem s + total n has_slot s + server_signal_sem s + busy s = SLOTS \<and>
     length (stored s) = length (printed s) + total n pending s + server_signal_sem s + printing s"

text \<open>
  An index beside the number of texts that went through it: behind by one between the text and the
  increment (\<open>a\<close>), and perhaps \<open>SLOTS\<close> instead of 0 before the test for the end of the ring (\<open>b\<close>).
\<close>

definition index_for :: "bool \<Rightarrow> bool \<Rightarrow> nat \<Rightarrow> nat \<Rightarrow> bool" where
  "index_for a b idx k \<longleftrightarrow>
     (if a then idx < SLOTS \<and> Suc idx mod SLOTS = k mod SLOTS
      else if b then idx \<le> SLOTS \<and> idx mod SLOTS = k mod SLOTS
      else idx = k mod SLOTS)"

definition some_client :: "nat \<Rightarrow> client_pc \<Rightarrow> spool \<Rightarrow> bool" where
  "some_client n c s \<longleftrightarrow> (\<exists>i<n. client s i = c)"

definition index_ok :: "nat \<Rightarrow> spool \<Rightarrow> bool" where
  "index_ok n s \<longleftrightarrow>
     index_for (some_client n Stored s) (some_client n Advanced s) (buffer_index s) (length (stored s))"

definition print_index_ok :: "spool \<Rightarrow> bool" where
  "print_index_ok s \<longleftrightarrow>
     index_for (server s = Printed) (server s = Bumped) (buffer_print_index s) (length (printed s))"

lemma index_for_simps:
  "index_for False False idx k \<Longrightarrow> index_for True b idx (Suc k)"
  "index_for True b idx k \<Longrightarrow> index_for False True (Suc idx) k"
  "index_for False True idx k \<Longrightarrow> index_for False False (if idx = SLOTS then 0 else idx) k"
  by (auto simp: index_for_def mod_Suc le_less)

definition slots_ok :: "spool \<Rightarrow> bool" where
  "slots_ok s \<longleftrightarrow> length (buf s) = SLOTS \<and> prefix (printed s) (stored s) \<and>
     (\<forall>k. length (printed s) \<le> k \<and> k < length (stored s) \<longrightarrow> buf s ! (k mod SLOTS) = stored s ! k)"

definition spool_ok :: "nat \<Rightarrow> spool \<Rightarrow> bool" where
  "spool_ok n s \<longleftrightarrow> sems_ok n s \<and> index_ok n s \<and> print_index_ok s \<and> slots_ok s"

lemma spool_init_ok: "length b = SLOTS \<Longrightarrow> spool_ok n (spool_init b)"
  by (simp add: spool_ok_def sems_ok_def index_ok_def print_index_ok_def slots_ok_def spool_init_def
      index_for_def some_client_def total_def busy_def printing_def)

lemma only_crit:
  assumes "sems_ok n s" and "i < n" and "j < n" and "j \<noteq> i" and "in_crit (client s i) = 1"
  shows "in_crit (client s j) = 0"
  using total_ge2 [of j n i in_crit s] assms by (simp add: sems_ok_def)

lemma outstanding_le: "sems_ok n s \<Longrightarrow> length (stored s) \<le> length (printed s) + SLOTS"
  using pending_le_slot [of n s] by (auto simp: sems_ok_def busy_def printing_def split: if_splits)

lemma outstanding_less:
  assumes "sems_ok n s" and "i < n" and "client s i = InCrit l"
  shows "length (stored s) < length (printed s) + SLOTS"
  using pending_lt_slot [of i n s] assms by (auto simp: sems_ok_def busy_def printing_def split: if_splits)

lemma mod_slots_inj: "k < m \<Longrightarrow> m < k + SLOTS \<Longrightarrow> k mod SLOTS \<noteq> m mod SLOTS"
  using mod_eq_dvd_iff_nat [of k m SLOTS] by (auto dest: dvd_imp_le)

lemma client_at_simps [simp]:
  "client (client_at i c s) = (client s)(i := c)" "server (client_at i c s) = server s"
  "stored (client_at i c s) = stored s" "printed (client_at i c s) = printed s" "buf (client_at i c s) = buf s"
  "buffer_index (client_at i c s) = buffer_index s" "buffer_print_index (client_at i c s) = buffer_print_index s"
  "mutex_sem (client_at i c s) = mutex_sem s" "buffer_count_sem (client_at i c s) = buffer_count_sem s"
  "server_signal_sem (client_at i c s) = server_signal_sem s"
  by (simp_all add: client_at_def)

text \<open>The semaphores.\<close>

lemma total_upd [simp]:
  "total n f (s\<lparr>mutex_sem := x\<rparr>) = total n f s"
  "total n f (s\<lparr>buffer_count_sem := x\<rparr>) = total n f s"
  "total n f (s\<lparr>server_signal_sem := x\<rparr>) = total n f s"
  "total n f (s\<lparr>buf := y\<rparr>) = total n f s"
  "total n f (s\<lparr>stored := z\<rparr>) = total n f s"
  "total n f (s\<lparr>buffer_index := x\<rparr>) = total n f s"
  "total n f (s\<lparr>buffer_print_index := x\<rparr>) = total n f s"
  "total n f (s\<lparr>server := pc\<rparr>) = total n f s"
  "total n f (s\<lparr>printed := z\<rparr>) = total n f s"
  by (simp_all add: total_def)

lemma sems_ok_client_at:
  assumes "i < n"
  shows "sems_ok n (client_at i c s) \<longleftrightarrow>
    mutex_sem s + total n in_crit s + in_crit c = 1 + in_crit (client s i) \<and>
    buffer_count_sem s + total n has_slot s + has_slot c + server_signal_sem s + busy s = SLOTS + has_slot (client s i) \<and>
    length (stored s) + pending (client s i) =
      length (printed s) + total n pending s + pending c + server_signal_sem s + printing s"
  using total_client_at [OF assms, of in_crit c s] total_client_at [OF assms, of has_slot c s]
    total_client_at [OF assms, of pending c s]
  unfolding sems_ok_def busy_def printing_def client_at_simps by linarith

lemma client_step_sems_ok: "client_step pid n s s' \<Longrightarrow> sems_ok n s \<Longrightarrow> sems_ok n s'"
  by (induction rule: client_step.induct)
    (auto simp: sems_ok_client_at, auto simp: sems_ok_def busy_def printing_def)

lemma server_step_sems_ok: "server_step s s' \<Longrightarrow> sems_ok n s \<Longrightarrow> sems_ok n s'"
  by (induction rule: server_step.induct) (auto simp: sems_ok_def busy_def printing_def)

text \<open>The index of the clients.\<close>

lemma some_client_at:
  assumes "\<forall>j<n. j \<noteq> i \<longrightarrow> client s j \<noteq> d" and "i < n"
  shows "some_client n d (client_at i c s) = (c = d)"
  using assms by (auto simp: some_client_def)

lemma some_client_other:
  assumes "client s i \<noteq> d" and "c \<noteq> d"
  shows "some_client n d (client_at i c s) = some_client n d s"
  using assms by (auto simp: some_client_def)

lemma index_ok_at:
  assumes "sems_ok n s" and "i < n" and "in_crit (client s i) = 1"
  shows "index_ok n s = index_for (client s i = Stored) (client s i = Advanced) (buffer_index s) (length (stored s))"
    and "client t = client s \<Longrightarrow>
      index_ok n (client_at i c t) = index_for (c = Stored) (c = Advanced) (buffer_index t) (length (stored t))"
proof -
  have "client s j \<noteq> Stored \<and> client s j \<noteq> Advanced" if "j < n" "j \<noteq> i" for j
    using only_crit [OF assms(1,2) that assms(3)] by auto
  then have *: "\<forall>j<n. j \<noteq> i \<longrightarrow> client s j \<noteq> Stored" "\<forall>j<n. j \<noteq> i \<longrightarrow> client s j \<noteq> Advanced"
    by auto
  then show "client t = client s \<Longrightarrow>
      index_ok n (client_at i c t) = index_for (c = Stored) (c = Advanced) (buffer_index t) (length (stored t))"
    unfolding index_ok_def using assms(2) by (subst (1 2) some_client_at) simp_all
  have "some_client n d s = (client s i = d)" if "d \<in> {Stored, Advanced}" for d
    using * assms(2) that unfolding some_client_def by auto
  then show "index_ok n s = index_for (client s i = Stored) (client s i = Advanced) (buffer_index s) (length (stored s))"
    unfolding index_ok_def by simp
qed

lemma index_ok_other:
  assumes "client t i \<noteq> Stored" and "client t i \<noteq> Advanced" and "c \<noteq> Stored" and "c \<noteq> Advanced"
  shows "index_ok n (client_at i c t) = index_ok n t"
  unfolding index_ok_def using assms by (simp add: some_client_other)

lemma index_ok_upd [simp]:
  "index_ok n (s\<lparr>mutex_sem := x\<rparr>) = index_ok n s"
  "index_ok n (s\<lparr>server_signal_sem := x\<rparr>) = index_ok n s"
  "index_ok n (s\<lparr>buf := y\<rparr>) = index_ok n s"
  "index_ok n (s\<lparr>server := pc\<rparr>) = index_ok n s"
  "index_ok n (s\<lparr>printed := z\<rparr>) = index_ok n s"
  "index_ok n (s\<lparr>buffer_count_sem := x\<rparr>) = index_ok n s"
  "index_ok n (s\<lparr>buffer_print_index := x\<rparr>) = index_ok n s"
  by (simp_all add: index_ok_def some_client_def)

lemma server_step_index_ok: "server_step s s' \<Longrightarrow> index_ok n s \<Longrightarrow> index_ok n s'"
  by (induction rule: server_step.induct) simp_all

lemma client_step_index_ok: "client_step pid n s s' \<Longrightarrow> sems_ok n s \<Longrightarrow> index_ok n s \<Longrightarrow> index_ok n s'"
proof (induction rule: client_step.induct)
  case (store i s l)
  have "index_for False False (buffer_index s) (length (stored s))"
    using index_ok_at(1) [OF store(3,1)] store(2,4) by simp
  from index_for_simps(1) [OF this] show ?case
    using store(2) by (subst index_ok_at(2) [OF store(3,1)]) simp_all
next
  case (advance i s)
  have "index_for True False (buffer_index s) (length (stored s))"
    using index_ok_at(1) [OF advance(3,1)] advance(2,4) by simp
  from index_for_simps(2) [OF this] show ?case
    using advance(2) by (subst index_ok_at(2) [OF advance(3,1)]) simp_all
next
  case (wrap i s)
  have "index_for False True (buffer_index s) (length (stored s))"
    using index_ok_at(1) [OF wrap(3,1)] wrap(2,4) by simp
  from index_for_simps(3) [OF this] show ?case
    using wrap(2) by (subst index_ok_at(2) [OF wrap(3,1)]) (simp_all split: if_splits)
qed (simp_all add: index_ok_other)

lemma client_step_print_index_ok: "client_step pid n s s' \<Longrightarrow> print_index_ok s \<Longrightarrow> print_index_ok s'"
  by (induction rule: client_step.induct) (simp_all add: print_index_ok_def)

lemma server_step_print_index_ok: "server_step s s' \<Longrightarrow> print_index_ok s \<Longrightarrow> print_index_ok s'"
proof (induction rule: server_step.induct)
  case (server_print s)
  then show ?case using index_for_simps(1) by (simp add: print_index_ok_def)
next
  case (server_advance s)
  then show ?case using index_for_simps(2) by (simp add: print_index_ok_def)
next
  case (server_wrap s)
  then show ?case using index_for_simps(3) [of "buffer_print_index s" "length (printed s)"]
    by (cases "buffer_print_index s = SLOTS") (simp_all add: print_index_ok_def)
qed (simp_all add: print_index_ok_def)

text \<open>The slots.\<close>

lemma client_step_slots_ok:
  "client_step pid n s s' \<Longrightarrow> sems_ok n s \<Longrightarrow> index_ok n s \<Longrightarrow> slots_ok s \<Longrightarrow> slots_ok s'"
proof (induction rule: client_step.induct)
  case (store i s l)
  let ?t = "slot_text (pid i) l"
  have idx: "buffer_index s = length (stored s) mod SLOTS"
    using index_ok_at(1) [OF store(3,1)] store(2,4) by (simp add: index_for_def)
  have lt: "length (stored s) < length (printed s) + SLOTS"
    by (rule outstanding_less [OF store(3,1,2)])
  have "(buf s)[buffer_index s := ?t] ! (k mod SLOTS) = (stored s @ [?t]) ! k"
    if "length (printed s) \<le> k" "k < Suc (length (stored s))" for k
  proof (cases "k = length (stored s)")
    case True
    then show ?thesis using store(5) idx by (simp add: slots_ok_def)
  next
    case False
    then have k: "k < length (stored s)" using that(2) by simp
    then have "k mod SLOTS \<noteq> buffer_index s" unfolding idx using that(1) lt by (intro mod_slots_inj) simp_all
    then show ?thesis using store(5) k that(1) by (simp add: slots_ok_def nth_append)
  qed
  then show ?case using store(5) by (auto simp: slots_ok_def prefix_def)
qed (simp_all add: slots_ok_def split: if_splits)

lemma server_step_slots_ok:
  "server_step s s' \<Longrightarrow> sems_ok n s \<Longrightarrow> print_index_ok s \<Longrightarrow> slots_ok s \<Longrightarrow> slots_ok s'"
proof (induction rule: server_step.induct)
  case (server_print s)
  have lt: "length (printed s) < length (stored s)"
    using server_print(2,1) by (simp add: sems_ok_def printing_def)
  have "buffer_print_index s = length (printed s) mod SLOTS"
    using server_print(1,3) by (simp add: print_index_ok_def index_for_def)
  then have "buf s ! buffer_print_index s = stored s ! length (printed s)"
    using server_print(4) lt by (simp add: slots_ok_def)
  moreover have "printed s = take (length (printed s)) (stored s)"
    using server_print(4) by (auto simp: slots_ok_def prefix_def)
  ultimately have "printed s @ [buf s ! buffer_print_index s] = take (Suc (length (printed s))) (stored s)"
    using lt by (simp add: take_Suc_conv_app_nth)
  then have "prefix (printed s @ [buf s ! buffer_print_index s]) (stored s)"
    by (simp add: take_is_prefix)
  then show ?case using server_print(4) by (simp add: slots_ok_def)
qed (simp_all add: slots_ok_def split: if_splits)

lemma spool_reach_ok: "spool_reach pid n s \<Longrightarrow> spool_ok n s"
proof (induction rule: spool_reach.induct)
  case (start b)
  then show ?case by (rule spool_init_ok)
next
  case (step s s')
  then have ok: "sems_ok n s" "index_ok n s" "print_index_ok s" "slots_ok s" by (simp_all add: spool_ok_def)
  from step(2) show ?case
  proof cases
    case client
    then show ?thesis
      unfolding spool_ok_def using ok client_step_sems_ok client_step_index_ok client_step_print_index_ok client_step_slots_ok
      by blast
  next
    case server
    then show ?thesis
      unfolding spool_ok_def using ok server_step_sems_ok server_step_index_ok server_step_print_index_ok server_step_slots_ok
      by blast
  qed
qed

text \<open>No process is between two steps of its turn.\<close>

definition at_rest :: "nat \<Rightarrow> spool \<Rightarrow> bool" where
  "at_rest n s \<longleftrightarrow> (\<forall>i<n. client s i = Typing \<or> client s i = Gone) \<and> server s = WaitSignal \<and> server_signal_sem s = 0"

text \<open>C14. However the clients and the server interleave, the server prints the texts in the order in which they were put into the ring, none twice and none before it is complete; no text is lost, no more than ten wait at any time, at most one client is in the critical section, and when every process rests all that was stored has been printed.\<close>

theorem spool_in_order:
  assumes "spool_reach pid n s"
  shows "prefix (printed s) (stored s) \<and> length (stored s) \<le> length (printed s) + SLOTS \<and>
    (\<forall>k. length (printed s) \<le> k \<and> k < length (stored s) \<longrightarrow> buf s ! (k mod SLOTS) = stored s ! k) \<and>
    (\<forall>i<n. \<forall>j<n. in_crit (client s i) = 1 \<and> in_crit (client s j) = 1 \<longrightarrow> i = j) \<and>
    (at_rest n s \<longrightarrow> printed s = stored s)"
proof (intro conjI)
  have ok: "sems_ok n s" "slots_ok s" using spool_reach_ok [OF assms] by (simp_all add: spool_ok_def)
  show "prefix (printed s) (stored s)"
    "\<forall>k. length (printed s) \<le> k \<and> k < length (stored s) \<longrightarrow> buf s ! (k mod SLOTS) = stored s ! k"
    using ok(2) by (simp_all add: slots_ok_def)
  show "length (stored s) \<le> length (printed s) + SLOTS" by (rule outstanding_le [OF ok(1)])
  show "\<forall>i<n. \<forall>j<n. in_crit (client s i) = 1 \<and> in_crit (client s j) = 1 \<longrightarrow> i = j"
    using only_crit [OF ok(1)] by fastforce
  show "at_rest n s \<longrightarrow> printed s = stored s"
  proof
    assume q: "at_rest n s"
    then have "total n pending s = 0" by (auto simp: at_rest_def total_def)
    then have "length (stored s) = length (printed s)"
      using q ok(1) by (simp add: sems_ok_def at_rest_def printing_def)
    then show "printed s = stored s" using ok(2) by (auto simp: slots_ok_def prefix_def)
  qed
qed

text \<open>A run: client 0 of two stores its line, client 1 has locked the ring, and the server prints.\<close>

definition demo_spool :: "nat \<Rightarrow> nat \<Rightarrow> nat \<Rightarrow> bytes list \<Rightarrow> nat \<Rightarrow> client_pc \<Rightarrow> client_pc \<Rightarrow> server_pc \<Rightarrow>
    bytes list \<Rightarrow> bytes list \<Rightarrow> spool" where
  "demo_spool c m g b k c0 c1 sv st pr = \<lparr>buffer_count_sem = c, mutex_sem = m, server_signal_sem = g, buf = b,
     buffer_index = k, buffer_print_index = 0, client = (\<lambda>_. Typing)(0 := c0, Suc 0 := c1), server = sv,
     stored = st, printed = pr\<rparr>"

lemma demo_run:
  fixes b :: "bytes list"
  defines "t \<equiv> slot_text 7 [104, 105]"
  assumes b: "length b = SLOTS"
  shows "spool_reach (\<lambda>_. 7) 2 (demo_spool 8 0 0 (b[0 := t]) 1 Typing (InCrit [104]) Printed [t] [t])"
proof -
  let ?R = "spool_reach (\<lambda>_. 7) 2"
  have s: "?R s'" if "?R s" "spool_step (\<lambda>_. 7) 2 s s'" for s s' using that by (rule spool_reach.step)
  have u: "client_at 0 c (demo_spool n m g bs k c0 c1 sv st pr) = demo_spool n m g bs k c c1 sv st pr"
    "client_at 1 c (demo_spool n m g bs k c0 c1 sv st pr) = demo_spool n m g bs k c0 c sv st pr"
    for c n m g bs k c0 c1 sv st pr
    by (auto simp: demo_spool_def client_at_def fun_eq_iff)
  have "?R (demo_spool 10 1 0 b 0 Typing Typing WaitSignal [] [])"
    using spool_reach.start [OF b, of "\<lambda>_. 7" 2] by (simp add: spool_init_def demo_spool_def fun_upd_def cong: if_cong)
  note s [OF this spool_step.client [OF client_step.read_line [of 0 _ _ "[104, 105, 10]"]]]
  then have "?R (demo_spool 10 1 0 b 0 (WantSlot [104, 105]) Typing WaitSignal [] [])"
    unfolding u by (simp add: demo_spool_def chomp_def)
  note s [OF this spool_step.client [OF client_step.read_line [of 1 _ _ "[104, 10]"]], unfolded u]
  then have "?R (demo_spool 10 1 0 b 0 (WantSlot [104, 105]) (WantSlot [104]) WaitSignal [] [])"
    by (simp add: demo_spool_def chomp_def)
  note s [OF this spool_step.client [OF client_step.take_slot [of 0 _ _ "[104, 105]"]]]
  then have "?R (demo_spool 9 1 0 b 0 (WantMutex [104, 105]) (WantSlot [104]) WaitSignal [] [])"
    by (simp add: demo_spool_def client_at_def fun_upd_twist)
  note s [OF this spool_step.client [OF client_step.lock [of 0 _ _ "[104, 105]"]]]
  then have "?R (demo_spool 9 0 0 b 0 (InCrit [104, 105]) (WantSlot [104]) WaitSignal [] [])"
    by (simp add: demo_spool_def client_at_def fun_upd_twist)
  note s [OF this spool_step.client [OF client_step.store [of 0 _ _ "[104, 105]"]]]
  then have "?R (demo_spool 9 0 0 (b[0 := t]) 0 Stored (WantSlot [104]) WaitSignal [t] [])"
    by (simp add: demo_spool_def client_at_def fun_upd_twist t_def)
  note s [OF this spool_step.client [OF client_step.advance [of 0]]]
  then have "?R (demo_spool 9 0 0 (b[0 := t]) 1 Advanced (WantSlot [104]) WaitSignal [t] [])"
    by (simp add: demo_spool_def client_at_def fun_upd_twist)
  note s [OF this spool_step.client [OF client_step.wrap [of 0]]]
  then have "?R (demo_spool 9 0 0 (b[0 := t]) 1 Unlocking (WantSlot [104]) WaitSignal [t] [])"
    by (simp add: demo_spool_def client_at_def fun_upd_twist)
  note s [OF this spool_step.client [OF client_step.unlock [of 0]]]
  then have "?R (demo_spool 9 1 0 (b[0 := t]) 1 Signalling (WantSlot [104]) WaitSignal [t] [])"
    by (simp add: demo_spool_def client_at_def fun_upd_twist)
  note s [OF this spool_step.client [OF client_step.take_slot [of 1 _ _ "[104]"]]]
  then have "?R (demo_spool 8 1 0 (b[0 := t]) 1 Signalling (WantMutex [104]) WaitSignal [t] [])"
    by (simp add: demo_spool_def client_at_def fun_upd_twist)
  note s [OF this spool_step.client [OF client_step.lock [of 1 _ _ "[104]"]]]
  then have "?R (demo_spool 8 0 0 (b[0 := t]) 1 Signalling (InCrit [104]) WaitSignal [t] [])"
    by (simp add: demo_spool_def client_at_def fun_upd_twist)
  note s [OF this spool_step.client [OF client_step.signal [of 0]]]
  then have "?R (demo_spool 8 0 1 (b[0 := t]) 1 Typing (InCrit [104]) WaitSignal [t] [])"
    by (simp add: demo_spool_def client_at_def fun_upd_twist)
  note s [OF this spool_step.server [OF server_step.server_wait]]
  then have "?R (demo_spool 8 0 0 (b[0 := t]) 1 Typing (InCrit [104]) Printing [t] [])"
    by (simp add: demo_spool_def)
  note s [OF this spool_step.server [OF server_step.server_print]]
  then show ?thesis using b by (simp add: demo_spool_def)
qed

lemma spool_in_order_witness:
  "\<exists>s. spool_reach (\<lambda>_. 7) 2 s \<and> printed s = [slot_text 7 [104, 105]] \<and> prefix (printed s) (stored s) \<and>
     in_crit (client s 1) = 1 \<and> in_crit (client s 0) \<noteq> 1"
proof -
  have r: "spool_reach (\<lambda>_. 7) 2 (demo_spool 8 0 0 ((replicate 10 [])[0 := slot_text 7 [104, 105]]) 1 Typing (InCrit [104]) Printed
      [slot_text 7 [104, 105]] [slot_text 7 [104, 105]])"
    by (rule demo_run) simp
  from spool_in_order [OF r] r show ?thesis by (intro exI) (auto simp: demo_spool_def)
qed

end
