(* ===== verification/Hw5_Sort.thy ===== *)
theory Hw5_Sort
  imports Xv6_Prelude "HOL-Library.Multiset"
begin

text \<open>
  The merge sort of \<open>Practical HW5/Q3.c\<close>: numbers are read into an array in shared memory, two child
  processes sort its halves, and the parent merges them.
\<close>

section \<open>Merging\<close>

text \<open>
  The arrays \<open>in\<close> (shared memory) and \<open>out\<close> (private to a process) as functions of the index; the
  indices stay far below the range of \<open>int\<close>. The comparison loop of \<open>merge\<close>, then a loop that copies
  the rest of one half, then the loop that copies back.
\<close>

type_synonym array = "int \<Rightarrow> int"

function merge_while :: "array \<Rightarrow> int \<Rightarrow> int \<Rightarrow> int \<Rightarrow> int \<Rightarrow> int \<Rightarrow> array \<Rightarrow> int \<times> int \<times> int \<times> array" where
  "merge_while inp loc2 loc4 i j ins out =
     (if i \<le> loc2 \<and> j \<le> loc4 then
        if inp i > inp j then merge_while inp loc2 loc4 i (j + 1) (ins + 1) (out(ins := inp j))
        else merge_while inp loc2 loc4 (i + 1) j (ins + 1) (out(ins := inp i))
      else (i, j, ins, out))"
  by pat_completeness auto
termination
  by (relation "measure (\<lambda>(inp, loc2, loc4, i, j, ins, out). nat (loc2 + 1 - i) + nat (loc4 + 1 - j))") auto

function copy_rest :: "array \<Rightarrow> int \<Rightarrow> int \<Rightarrow> int \<Rightarrow> array \<Rightarrow> int \<times> array" where
  "copy_rest inp hi k ins out =
     (if k \<le> hi then copy_rest inp hi (k + 1) (ins + 1) (out(ins := inp k)) else (ins, out))"
  by pat_completeness auto
termination
  by (relation "measure (\<lambda>(inp, hi, k, ins, out). nat (hi + 1 - k))") auto

function copy_back :: "array \<Rightarrow> int \<Rightarrow> int \<Rightarrow> array \<Rightarrow> array" where
  "copy_back out hi i inp = (if i \<le> hi then copy_back out hi (i + 1) (inp(i := out i)) else inp)"
  by pat_completeness auto
termination
  by (relation "measure (\<lambda>(out, hi, i, inp). nat (hi + 1 - i))") auto

declare merge_while.simps [simp del] copy_rest.simps [simp del] copy_back.simps [simp del]

definition merge :: "int \<Rightarrow> int \<Rightarrow> int \<Rightarrow> int \<Rightarrow> array \<times> array \<Rightarrow> array \<times> array" where
  "merge loc1 loc2 loc3 loc4 = (\<lambda>(inp, out).
     let (i, j, ins, out) = merge_while inp loc2 loc4 loc1 loc3 loc1 out;
         (ins, out) = copy_rest inp loc2 i ins out;
         (ins, out) = copy_rest inp loc4 j ins out
     in (copy_back out loc4 loc1 inp, out))"

function sort_in :: "int \<Rightarrow> int \<Rightarrow> array \<times> array \<Rightarrow> array \<times> array" where
  "sort_in loc1 loc2 s =
     (if loc1 \<ge> loc2 then s
      else
        let mid = (loc1 + loc2) div 2
        in merge loc1 mid (mid + 1) loc2 (sort_in (mid + 1) loc2 (sort_in loc1 mid s)))"
  by pat_completeness auto
termination
  by (relation "measure (\<lambda>(loc1, loc2, s). nat (loc2 - loc1))") auto

declare sort_in.simps [simp del]

section \<open>The program\<close>

text \<open>
  \<open>scanf\<close> gives the numbers of the input one by one; at the end of the input it leaves \<open>j\<close> as it is
  (\<open>old\<close>), so that the loop stores the last number again and again. The array has 10000 places.
\<close>

definition MAXNUM :: nat where "MAXNUM = 10000"

function read_loop :: "int \<Rightarrow> int list \<Rightarrow> int list \<Rightarrow> stop + int list" where
  "read_loop old input acc =
     (let j = (case input of [] \<Rightarrow> old | x # _ \<Rightarrow> x) in
      if j = 0 then Inr acc
      else if length acc < MAXNUM then read_loop j (tl input) (acc @ [j])
      else Inl (Fault ''in''))"
  by pat_completeness auto
termination
  by (relation "measure (\<lambda>(old, input, acc). MAXNUM - length acc)") auto

declare read_loop.simps [simp del]

text \<open>\<open>printar(i)\<close>; the array after the input has been read.\<close>

definition printar :: "array \<Rightarrow> int \<Rightarrow> int list" where
  "printar inp i = map inp [0..i]"

definition array_of :: "int list \<Rightarrow> array" where
  "array_of xs k = (if 0 \<le> k \<and> k < int (length xs) then xs ! nat k else 0)"

text \<open>
  \<open>main\<close>: the two printouts. Each child has the \<open>out\<close> that \<open>fork\<close> copied; \<open>first\<close> says which child gets
  at the shared array first (the lemma \<open>sort_in_local\<close> below is why this does not matter). Nothing is
  said of \<open>j\<close> before the first \<open>scanf\<close>, so it is an argument.
\<close>

definition sort_main :: "bool \<Rightarrow> int \<Rightarrow> array \<Rightarrow> int list \<Rightarrow> stop + (int list \<times> int list)" where
  "sort_main first j out input =
     bindE (read_loop j input []) (\<lambda>xs.
       let i = int (length xs) - 1; inp = array_of xs; before = printar inp i in
       if i \<le> 8 then Inr (before, printar (fst (sort_in 0 i (inp, out))) i)
       else
         let mid = i div 2;
             inp = (if first then fst (sort_in (mid + 1) i (fst (sort_in 0 mid (inp, out)), out))
                    else fst (sort_in 0 mid (fst (sort_in (mid + 1) i (inp, out)), out)));
             inp = fst (merge 0 mid (mid + 1) i (inp, out))
         in Inr (before, printar inp i))"

section \<open>Merging is merging of lists\<close>

fun list_merge :: "int list \<Rightarrow> int list \<Rightarrow> int list" where
  "list_merge [] ys = ys"
| "list_merge xs [] = xs"
| "list_merge (x # xs) (y # ys) =
     (if x > y then y # list_merge (x # xs) ys else x # list_merge xs (y # ys))"

lemma mset_list_merge: "mset (list_merge xs ys) = mset xs + mset ys"
  by (induction xs ys rule: list_merge.induct) auto

lemma set_list_merge: "set (list_merge xs ys) = set xs \<union> set ys"
  using mset_list_merge [of xs ys] by (metis set_mset_mset set_mset_union)

lemma length_list_merge: "length (list_merge xs ys) = length xs + length ys"
  using mset_list_merge [of xs ys] by (metis size_mset size_union)

lemma sorted_list_merge: "sorted xs \<Longrightarrow> sorted ys \<Longrightarrow> sorted (list_merge xs ys)"
  by (induction xs ys rule: list_merge.induct) (auto simp: set_list_merge)

lemma list_merge_sort: "list_merge (sort xs) (sort ys) = sort (xs @ ys)"
  by (metis mset_append mset_list_merge mset_sort properties_for_sort sorted_list_merge sorted_sort)

lemma list_merge_Nil2 [simp]: "list_merge xs [] = xs"
  by (cases xs) simp_all

fun write_list :: "int \<Rightarrow> int list \<Rightarrow> array \<Rightarrow> array" where
  "write_list k [] f = f"
| "write_list k (x # xs) f = write_list (k + 1) xs (f(k := x))"

lemma write_list_at:
  "write_list k xs f x = (if k \<le> x \<and> x < k + int (length xs) then xs ! nat (x - k) else f x)"
proof (induction xs arbitrary: k f)
  case (Cons y ys)
  have "nat (x - k) = Suc (nat (x - (k + 1)))" if "k < x" using that by simp
  then show ?case using Cons by (auto simp: nth_Cons')
qed simp

lemma copy_rest_eq:
  "copy_rest inp hi k ins out = (ins + int (length [k..hi]), write_list ins (map inp [k..hi]) out)"
proof (induction inp hi k ins out rule: copy_rest.induct)
  case (1 inp hi k ins out)
  then show ?case by (subst copy_rest.simps) (auto simp: upto_rec1 fun_upd_def)
qed

lemma copy_back_eq: "copy_back out hi i inp = (\<lambda>x. if i \<le> x \<and> x \<le> hi then out x else inp x)"
proof (induction out hi i inp rule: copy_back.induct)
  case (1 out hi i inp)
  then show ?case by (subst copy_back.simps) (auto simp: fun_eq_iff fun_upd_def)
qed

lemma write_list_append: "write_list k (xs @ ys) f = write_list (k + int (length xs)) ys (write_list k xs f)"
  by (induction xs arbitrary: k f) (simp_all add: add.assoc)

lemma merge_while_eq:
  assumes "merge_while inp loc2 loc4 i j ins out = (i', j', ins', out')"
    and "copy_rest inp loc2 i' ins' out' = (ins'', out'')"
  shows "snd (copy_rest inp loc4 j' ins'' out'') =
    write_list ins (list_merge (map inp [i..loc2]) (map inp [j..loc4])) out"
  using assms
proof (induction inp loc2 loc4 i j ins out rule: merge_while.induct)
  case (1 inp loc2 loc4 i j ins out)
  show ?case
  proof (cases "i \<le> loc2 \<and> j \<le> loc4")
    case True
    then have r: "[i..loc2] = i # [i + 1..loc2]" "[j..loc4] = j # [j + 1..loc4]" by (simp_all add: upto_rec1)
    show ?thesis
    proof (cases "inp i > inp j")
      case c: True
      then have "merge_while inp loc2 loc4 i (j + 1) (ins + 1) (out(ins := inp j)) = (i', j', ins', out')"
        using 1(3) True by (subst (asm) merge_while.simps) (simp add: fun_upd_def)
      from 1(1) [OF True c this 1(4)] show ?thesis
        using c unfolding r by (simp add: r fun_upd_def)
    next
      case c: False
      then have "merge_while inp loc2 loc4 (i + 1) j (ins + 1) (out(ins := inp i)) = (i', j', ins', out')"
        using 1(3) True by (subst (asm) merge_while.simps) (simp add: fun_upd_def)
      from 1(2) [OF True c this 1(4)] show ?thesis
        using c unfolding r by (simp add: r fun_upd_def)
    qed
  next
    case False
    then have "i' = i" "j' = j" "ins' = ins" "out' = out"
      using 1(3) by (subst (asm) merge_while.simps; simp)+
    moreover have "[i..loc2] = [] \<or> [j..loc4] = []" using False by auto
    ultimately show ?thesis using 1(4) by (elim disjE) (simp_all add: copy_rest_eq del: length_upto)
  qed
qed

lemma merge_merges:
  assumes "loc1 \<le> loc2 + 1" and "loc2 \<le> loc4"
  shows "map (fst (merge loc1 loc2 (loc2 + 1) loc4 (inp, out))) [loc1..loc4] =
      list_merge (map inp [loc1..loc2]) (map inp [loc2 + 1..loc4])"
    and "x < loc1 \<or> loc4 < x \<Longrightarrow> fst (merge loc1 loc2 (loc2 + 1) loc4 (inp, out)) x = inp x"
proof -
  obtain i j ins o1 where 1: "merge_while inp loc2 loc4 loc1 (loc2 + 1) loc1 out = (i, j, ins, o1)"
    by (metis prod_cases4)
  obtain ins2 o2 where 2: "copy_rest inp loc2 i ins o1 = (ins2, o2)" by (metis surj_pair)
  let ?l = "list_merge (map inp [loc1..loc2]) (map inp [loc2 + 1..loc4])"
  have m: "fst (merge loc1 loc2 (loc2 + 1) loc4 (inp, out)) = copy_back (write_list loc1 ?l out) loc4 loc1 inp"
    using merge_while_eq [OF 1 2] by (simp add: merge_def 1 2 case_prod_unfold)
  have len: "length ?l = nat (loc4 - loc1 + 1)" using assms by (simp add: length_list_merge)
  show "map (fst (merge loc1 loc2 (loc2 + 1) loc4 (inp, out))) [loc1..loc4] = ?l"
  proof (rule nth_equalityI)
    fix k assume "k < length (map (fst (merge loc1 loc2 (loc2 + 1) loc4 (inp, out))) [loc1..loc4])"
    then have k: "int k \<le> loc4 - loc1" by simp
    then show "map (fst (merge loc1 loc2 (loc2 + 1) loc4 (inp, out))) [loc1..loc4] ! k = ?l ! k"
      unfolding m by (simp add: copy_back_eq write_list_at len)
  qed (simp add: len)
  show "x < loc1 \<or> loc4 < x \<Longrightarrow> fst (merge loc1 loc2 (loc2 + 1) loc4 (inp, out)) x = inp x"
    by (auto simp: m copy_back_eq)
qed

section \<open>Sorting\<close>

lemma sort_in_sorts:
  "map (fst (sort_in lo hi (inp, out))) [lo..hi] = sort (map inp [lo..hi]) \<and>
   (\<forall>x. x < lo \<or> hi < x \<longrightarrow> fst (sort_in lo hi (inp, out)) x = inp x)"
proof (induction "nat (hi - lo)" arbitrary: lo hi inp out rule: less_induct)
  case less
  show ?case
  proof (cases "hi \<le> lo")
    case True
    then have "[lo..hi] = [] \<or> [lo..hi] = [lo]" by (cases "hi = lo") auto
    then show ?thesis using True by (subst sort_in.simps, subst sort_in.simps) (auto simp: Let_def)
  next
    case False
    define mid where "mid = (lo + hi) div 2"
    have mid: "lo \<le> mid" "mid < hi" using False by (simp_all add: mid_def)
    obtain i1 o1 where 1: "sort_in lo mid (inp, out) = (i1, o1)" by (metis surj_pair)
    obtain i2 o2 where 2: "sort_in (mid + 1) hi (i1, o1) = (i2, o2)" by (metis surj_pair)
    have s1: "map i1 [lo..mid] = sort (map inp [lo..mid])" "\<And>x. x < lo \<or> mid < x \<Longrightarrow> i1 x = inp x"
      using less [of mid lo inp out] mid 1 by auto
    have s2: "map i2 [mid + 1..hi] = sort (map i1 [mid + 1..hi])" "\<And>x. x < mid + 1 \<or> hi < x \<Longrightarrow> i2 x = i1 x"
      using less [of hi "mid + 1" i1 o1] mid 2 by auto
    have "map i1 [mid + 1..hi] = map inp [mid + 1..hi]" using s1(2) by simp
    moreover have "map i2 [lo..mid] = map i1 [lo..mid]" using s2(2) by simp
    ultimately have e: "list_merge (map i2 [lo..mid]) (map i2 [mid + 1..hi]) = sort (map inp ([lo..mid] @ [mid + 1..hi]))"
      by (simp only: s1(1) s2(1) list_merge_sort map_append)
    have u: "[lo..mid] @ [mid + 1..hi] = [lo..hi]" using mid by (metis upto_split1 less_imp_le upto_split3 add.commute upto_split2)
    have r: "sort_in lo hi (inp, out) = merge lo mid (mid + 1) hi (i2, o2)"
      using False 1 2 by (subst sort_in.simps) (simp add: Let_def mid_def [symmetric])
    show ?thesis unfolding r
      using merge_merges(1) [of lo mid hi i2 o2] merge_merges(2) [where inp = i2 and out = o2 and ?loc1.0 = lo and ?loc2.0 = mid and ?loc4.0 = hi] mid e s1(2) s2(2) by (simp add: u)
  qed
qed

lemmas sort_in_range = sort_in_sorts [THEN conjunct1]
lemmas sort_in_frame = sort_in_sorts [THEN conjunct2, rule_format]

lemma map_upto_eq: "map f [lo..hi] = map g [lo..hi] \<longleftrightarrow> (\<forall>x. lo \<le> x \<and> x \<le> hi \<longrightarrow> f x = g x)" for f g :: array
  by auto

text \<open>
  What a child leaves in its half depends on that half alone: whatever the other child has done to the
  other half meanwhile, and whatever is in \<open>out\<close>.
\<close>

lemma sort_in_local:
  assumes "\<And>x. lo \<le> x \<Longrightarrow> x \<le> hi \<Longrightarrow> inp x = inp' x"
  shows "lo \<le> x \<Longrightarrow> x \<le> hi \<Longrightarrow> fst (sort_in lo hi (inp, out)) x = fst (sort_in lo hi (inp', out')) x"
proof -
  have "map inp [lo..hi] = map inp' [lo..hi]" using assms by simp
  then have "map (fst (sort_in lo hi (inp, out))) [lo..hi] = map (fst (sort_in lo hi (inp', out'))) [lo..hi]"
    by (simp only: sort_in_range)
  then show "lo \<le> x \<Longrightarrow> x \<le> hi \<Longrightarrow> fst (sort_in lo hi (inp, out)) x = fst (sort_in lo hi (inp', out')) x"
    by (simp add: map_upto_eq)
qed

lemma read_loop_reads:
  assumes "0 \<notin> set xs" and "length acc + length xs \<le> MAXNUM"
  shows "read_loop old (xs @ 0 # rest) acc = Inr (acc @ xs)"
  using assms
proof (induction xs arbitrary: old acc)
  case Nil
  then show ?case by (simp add: read_loop.simps)
next
  case (Cons x xs)
  then show ?case by (subst read_loop.simps) simp
qed

lemma map_array_of: "map (array_of xs) [0..int (length xs) - 1] = xs"
  by (rule nth_equalityI) (auto simp: array_of_def)

text \<open>The children, in either order, leave both halves sorted, and the parent's merge sorts the whole.\<close>

lemma both_halves:
  assumes "mid < i"
    and "d = fst (sort_in (mid + 1) i (fst (sort_in 0 mid (inp, out)), out')) \<or>
         d = fst (sort_in 0 mid (fst (sort_in (mid + 1) i (inp, out)), out'))"
  shows "map d [0..mid] = sort (map inp [0..mid])" and "map d [mid + 1..i] = sort (map inp [mid + 1..i])"
proof -
  let ?f = "fst (sort_in 0 mid (inp, out))" let ?g = "fst (sort_in (mid + 1) i (inp, out))"
  have f: "map ?f [mid + 1..i] = map inp [mid + 1..i]" unfolding map_upto_eq using sort_in_frame by simp
  have g: "map ?g [0..mid] = map inp [0..mid]" unfolding map_upto_eq using sort_in_frame by simp
  have fg: "map (fst (sort_in (mid + 1) i (?f, out'))) [0..mid] = map ?f [0..mid]"
    "map (fst (sort_in 0 mid (?g, out'))) [mid + 1..i] = map ?g [mid + 1..i]"
    unfolding map_upto_eq using sort_in_frame by simp_all
  show "map d [0..mid] = sort (map inp [0..mid])"
    using assms(2) by (elim disjE) (simp_all only: fg(1) g sort_in_range)
  show "map d [mid + 1..i] = sort (map inp [mid + 1..i])"
    using assms(2) by (elim disjE) (simp_all only: fg(2) f sort_in_range)
qed

lemma parent_merges:
  assumes "0 \<le> mid" and "mid < i"
    and "map d [0..mid] = sort (map inp [0..mid])" and "map d [mid + 1..i] = sort (map inp [mid + 1..i])"
  shows "map (fst (merge 0 mid (mid + 1) i (d, out))) [0..i] = sort (map inp [0..i])"
proof -
  have "[0..mid] @ [mid + 1..i] = [0..i]"
    using assms(1,2) by (metis upto_split1 less_imp_le upto_split3 add.commute upto_split2)
  then show ?thesis
    using merge_merges(1) [of 0 mid i d out] assms by (simp add: list_merge_sort flip: map_append)
qed

text \<open>C31. For every input of at most 10000 numbers in front of a 0, \<open>Q3.c\<close> prints the numbers as they were read and then the same numbers in order, whichever of the two children gets at the shared array first.\<close>

theorem sort_main_sorts:
  assumes "0 \<notin> set xs" and "length xs \<le> MAXNUM"
  shows "sort_main first j out (xs @ 0 # rest) = Inr (xs, sort xs)"
proof -
  define i where "i = int (length xs) - 1"
  define inp where "inp = array_of xs"
  have rd: "read_loop j (xs @ 0 # rest) [] = Inr xs" using read_loop_reads [of xs "[]"] assms by simp
  have b: "map inp [0..i] = xs" unfolding inp_def i_def by (rule map_array_of)
  show ?thesis
  proof (cases "i \<le> 8")
    case True
    moreover have "length xs \<le> 9" using True by (simp add: i_def)
    ultimately show ?thesis
      using b sort_in_range [of 0 i inp out] rd
      by (simp add: sort_main_def printar_def flip: i_def inp_def)
  next
    case False
    define mid where "mid = i div 2"
    have mid: "0 \<le> mid" "mid < i" using False by (simp_all add: mid_def)
    have fin: "map (fst (merge 0 mid (mid + 1) i (d, out))) [0..i] = sort xs"
      if "d = fst (sort_in (mid + 1) i (fst (sort_in 0 mid (inp, out)), out)) \<or>
         d = fst (sort_in 0 mid (fst (sort_in (mid + 1) i (inp, out)), out))" for d
      using parent_merges [OF mid both_halves [OF mid(2) that]] b by simp
    have "\<not> length xs \<le> 9" using False by (simp add: i_def)
    then show ?thesis
      using False rd b fin [OF disjI1 [OF refl]] fin [OF disjI2 [OF refl]]
      by (simp add: sort_main_def printar_def Let_def flip: i_def inp_def mid_def)
  qed
qed

lemma sort_main_sorts_witness:
  "sort_main True 5 (\<lambda>_. 7) ([3, 1, 4, 1, -5, 9, 2, 6, 5, 3] @ 0 # [8]) =
     Inr ([3, 1, 4, 1, -5, 9, 2, 6, 5, 3], [-5, 1, 1, 2, 3, 3, 4, 5, 6, 9])"
  using sort_main_sorts [of "[3, 1, 4, 1, -5, 9, 2, 6, 5, 3]" True 5 "\<lambda>_. 7" "[8]"] by (simp add: MAXNUM_def)

text \<open>Without a 0 at the end, the loop runs past the array.\<close>

lemma read_loop_overrun:
  assumes "old \<noteq> 0" and "length acc \<le> MAXNUM"
  shows "read_loop old [] acc = Inl (Fault ''in'')"
  using assms
proof (induction "MAXNUM - length acc" arbitrary: acc)
  case 0
  then show ?case by (subst read_loop.simps) simp
next
  case (Suc n)
  then show ?case by (subst read_loop.simps) simp
qed

end
