(* ===== verification/Xv6_Utils.thy ===== *)
theory Xv6_Utils
  imports Xv6_Ulib
begin

text \<open>
  The small user programs: \<open>wc.c\<close>, \<open>cat.c\<close>, \<open>echo.c\<close>, \<open>ls.c\<close>, \<open>kill.c\<close>, \<open>ln.c\<close>, \<open>mkdir.c\<close> and \<open>rm.c\<close>. What
  the system calls give them is an argument: a file that is read is the list of the pieces that
  \<open>read\<close> hands out and whether it ends with 0 rather than with -1.
\<close>

section \<open>Output\<close>

definition codes :: "string \<Rightarrow> bytes" where
  "codes = map of_char"

text \<open>The pieces a program writes, each with its descriptor; \<open>Exited\<close> is an \<open>exit()\<close> inside a function.\<close>

type_synonym written = "(nat \<times> bytes) list"
type_synonym reading = "bytes list \<times> bool"

datatype ended = Returned written | Exited written

definition put :: "nat \<Rightarrow> string \<Rightarrow> uarg list \<Rightarrow> written \<Rightarrow> stop + written" where
  "put fd fmt args out = bindE (printf (codes fmt) args) (\<lambda>b. Inr (out @ [(fd, b)]))"

abbreviation S :: "bytes \<Rightarrow> uarg" where "S x \<equiv> UStr (Some x)"
abbreviation nl :: string where "nl \<equiv> [CHR 0x0A]"

section \<open>wc\<close>

record wc_state =
  wc_l :: u32
  wc_w :: u32
  wc_c :: u32
  wc_inword :: bool

definition wc_space :: bytes where
  "wc_space = [32, 13, 9, 10, 11]"

text \<open>The body of the inner loop, the loops, and the line that is printed.\<close>

definition wc_byte :: "u8 \<Rightarrow> wc_state \<Rightarrow> wc_state" where
  "wc_byte b s =
     (let s = s\<lparr>wc_c := wc_c s + 1\<rparr>;
          s = (if b = 10 then s\<lparr>wc_l := wc_l s + 1\<rparr> else s)
      in if strchr wc_space b \<noteq> None then s\<lparr>wc_inword := False\<rparr>
         else if \<not> wc_inword s then s\<lparr>wc_w := wc_w s + 1, wc_inword := True\<rparr>
         else s)"

definition wc_chunk :: "bytes \<Rightarrow> wc_state \<Rightarrow> wc_state" where
  "wc_chunk = fold wc_byte"

definition wc :: "reading \<Rightarrow> bytes \<Rightarrow> written \<Rightarrow> stop + ended" where
  "wc r name out =
     (let s = fold wc_chunk (fst r) \<lparr>wc_l = 0, wc_w = 0, wc_c = 0, wc_inword = False\<rparr> in
      if \<not> snd r then bindE (put 1 (''wc: read error'' @ nl) [] out) (\<lambda>out. Inr (Exited out))
      else bindE (put 1 (''%d %d %d %s'' @ nl) [UInt (wc_l s), UInt (wc_w s), UInt (wc_c s), S name] out)
             (\<lambda>out. Inr (Returned out)))"

text \<open>The loop over the arguments, which \<open>wc\<close> and \<open>cat\<close> share: \<open>openf\<close> is what opening a file gives.\<close>

fun for_files :: "string \<Rightarrow> (bytes \<Rightarrow> reading option) \<Rightarrow> (reading \<Rightarrow> bytes \<Rightarrow> written \<Rightarrow> stop + ended) \<Rightarrow>
    bytes list \<Rightarrow> written \<Rightarrow> stop + written" where
  "for_files msg openf prog [] out = Inr out"
| "for_files msg openf prog (a # as) out =
     (case openf a of
        None \<Rightarrow> put 1 msg [S a] out
      | Some r \<Rightarrow> bindE (prog r a out) (\<lambda>e. case e of
          Exited out \<Rightarrow> Inr out
        | Returned out \<Rightarrow> for_files msg openf prog as out))"

fun ended_output :: "ended \<Rightarrow> written" where
  "ended_output (Returned out) = out"
| "ended_output (Exited out) = out"

definition wc_main :: "(bytes \<Rightarrow> reading option) \<Rightarrow> reading \<Rightarrow> bytes list \<Rightarrow> stop + written" where
  "wc_main openf stdin args =
     (if args = [] then bindE (wc stdin [] []) (\<lambda>e. Inr (ended_output e))
      else for_files (''wc: cannot open %s'' @ nl) openf wc args [])"

section \<open>cat and echo\<close>

text \<open>\<open>wr b\<close> is what \<open>write(1, b, n)\<close> returns, which is also how many bytes of \<open>b\<close> get out.\<close>

fun cat_loop :: "(bytes \<Rightarrow> i32) \<Rightarrow> bytes list \<Rightarrow> bool \<Rightarrow> written \<Rightarrow> stop + ended" where
  "cat_loop wr [] ok out =
     (if ok then Inr (Returned out)
      else bindE (put 1 (''cat: read error'' @ nl) [] out) (\<lambda>out. Inr (Exited out)))"
| "cat_loop wr (b # bs) ok out =
     (let out = out @ [(1, take (nat (sint (wr b))) b)] in
      if wr b \<noteq> of_nat (length b)
      then bindE (put 1 (''cat: write error'' @ nl) [] out) (\<lambda>out. Inr (Exited out))
      else cat_loop wr bs ok out)"

definition cat :: "(bytes \<Rightarrow> i32) \<Rightarrow> reading \<Rightarrow> written \<Rightarrow> stop + ended" where
  "cat wr r out = cat_loop wr (fst r) (snd r) out"

definition cat_main :: "(bytes \<Rightarrow> i32) \<Rightarrow> (bytes \<Rightarrow> reading option) \<Rightarrow> reading \<Rightarrow> bytes list \<Rightarrow> stop + written" where
  "cat_main wr openf stdin args =
     (if args = [] then bindE (cat wr stdin []) (\<lambda>e. Inr (ended_output e))
      else for_files (''cat: cannot open %s'' @ nl) openf (\<lambda>r _. cat wr r) args [])"

fun echo :: "bytes list \<Rightarrow> written \<Rightarrow> stop + written" where
  "echo [] out = Inr out"
| "echo (a # as) out =
     bindE (put 1 ''%s%s'' [S a, S (if as \<noteq> [] then codes '' '' else codes nl)] out) (echo as)"

section \<open>ls\<close>

abbreviation (input) DIRSIZ :: nat where "DIRSIZ \<equiv> 14"

text \<open>Where the loop of \<open>fmtname\<close> stops, after \<open>p++\<close>: \<open>n\<close> is \<open>p - path + 1\<close>.\<close>

fun name_start :: "bytes \<Rightarrow> nat \<Rightarrow> nat" where
  "name_start path 0 = 0"
| "name_start path (Suc n) = (if (path @ [0]) ! n = 47 then Suc n else name_start path n)"

definition fmtname :: "bytes \<Rightarrow> bytes" where
  "fmtname path =
     (let p = drop (name_start path (Suc (length path))) path
      in if length p \<ge> DIRSIZ then p else p @ replicate (DIRSIZ - length p) 32)"

record ustat =
  st_type :: u16
  st_ino :: u32
  st_size :: u32

text \<open>
  \<open>fstat\<close> and \<open>stat\<close> by path, and the entries of a directory: inode number and 14 bytes of name.
\<close>

record names =
  can_open :: "bytes \<Rightarrow> bool"
  fstat :: "bytes \<Rightarrow> ustat option"
  stat :: "bytes \<Rightarrow> ustat option"
  entries :: "bytes \<Rightarrow> (u16 \<times> bytes) list"

definition put_stat :: "bytes \<Rightarrow> ustat \<Rightarrow> written \<Rightarrow> stop + written" where
  "put_stat path st = put 1 (''%s %d %d %d'' @ nl)
     [S (fmtname path), UInt (scast (st_type st)), UInt (st_ino st), UInt (st_size st)]"

definition ls_entry :: "names \<Rightarrow> bytes \<Rightarrow> u16 \<times> bytes \<Rightarrow> written \<Rightarrow> stop + written" where
  "ls_entry w path de out =
     (if fst de = 0 then Inr out
      else
        let buf = path @ [47] @ cstr (arr (snd de)) DIRSIZ in
        case stat w buf of
          None \<Rightarrow> put 1 (''ls: cannot stat %s'' @ nl) [S buf] out
        | Some st \<Rightarrow> put_stat buf st out)"

definition ls :: "names \<Rightarrow> bytes \<Rightarrow> written \<Rightarrow> stop + written" where
  "ls w path out =
     (if \<not> can_open w path then put 2 (''ls: cannot open %s'' @ nl) [S path] out
      else case fstat w path of
        None \<Rightarrow> put 2 (''ls: cannot stat %s'' @ nl) [S path] out
      | Some st \<Rightarrow>
          if st_type st = 2 then put_stat path st out
          else if st_type st = 1 then
            if length path + 1 + DIRSIZ + 1 > 512 then put 1 (''ls: path too long'' @ nl) [] out
            else forE (ls_entry w path) (entries w path) out
          else Inr out)"

definition ls_main :: "names \<Rightarrow> bytes list \<Rightarrow> stop + written" where
  "ls_main w args = (if args = [] then ls w (codes ''.'') [] else forE (ls w) args [])"

text \<open>
  The library's \<open>stat\<close> (\<open>ulib.c\<close>): \<open>fd\<close> is what \<open>open\<close> returned and \<open>r\<close> what \<open>fstat\<close> says of it; the result
  and whether \<open>close(fd)\<close> is called.
\<close>

definition stat_u :: "i32 \<Rightarrow> (i32 \<Rightarrow> i32 \<times> ustat) \<Rightarrow> ustat \<Rightarrow> i32 \<times> ustat \<times> i32 option" where
  "stat_u fd fstatf st = (if sint fd < 0 then (- 1, st, None) else let (r, st) = fstatf fd in (r, st, Some fd))"

section \<open>Programs that pass their arguments to a system call\<close>

text \<open>The calls that are made and the output; \<open>ok\<close> says which calls succeed.\<close>

definition kill_main :: "bytes list \<Rightarrow> stop + (i32 list \<times> written)" where
  "kill_main args =
     (if args = [] then bindE (put 2 (''usage: kill pid...'' @ nl) [] []) (\<lambda>out. Inr ([], out))
      else Inr (map atoi args, []))"

definition ln_main :: "(bytes \<Rightarrow> bytes \<Rightarrow> bool) \<Rightarrow> bytes list \<Rightarrow> stop + ((bytes \<times> bytes) list \<times> written)" where
  "ln_main ok args =
     (case args of
        [old, new] \<Rightarrow>
          bindE (if ok old new then Inr [] else put 2 (''link %s %s: failed'' @ nl) [S old, S new] [])
            (\<lambda>out. Inr ([(old, new)], out))
      | _ \<Rightarrow> bindE (put 2 (''Usage: ln old new'' @ nl) [] []) (\<lambda>out. Inr ([], out)))"

fun until_failure :: "string \<Rightarrow> (bytes \<Rightarrow> bool) \<Rightarrow> bytes list \<Rightarrow> bytes list \<Rightarrow> stop + (bytes list \<times> written)" where
  "until_failure msg ok [] calls = Inr (calls, [])"
| "until_failure msg ok (a # as) calls =
     (if ok a then until_failure msg ok as (calls @ [a])
      else bindE (put 2 msg [S a] []) (\<lambda>out. Inr (calls @ [a], out)))"

definition mkdir_main :: "(bytes \<Rightarrow> bool) \<Rightarrow> bytes list \<Rightarrow> stop + (bytes list \<times> written)" where
  "mkdir_main ok args =
     (if args = [] then bindE (put 2 (''Usage: mkdir files...'' @ nl) [] []) (\<lambda>out. Inr ([], out))
      else until_failure (''mkdir: %s failed to create'' @ nl) ok args [])"

definition rm_main :: "(bytes \<Rightarrow> bool) \<Rightarrow> bytes list \<Rightarrow> stop + (bytes list \<times> written)" where
  "rm_main ok args =
     (if args = [] then bindE (put 2 (''Usage: rm files...'' @ nl) [] []) (\<lambda>out. Inr ([], out))
      else until_failure (''rm: %s failed to delete'' @ nl) ok args [])"

section \<open>What wc counts\<close>

abbreviation is_space :: "u8 \<Rightarrow> bool" where "is_space b \<equiv> b \<in> set wc_space"

text \<open>The words of a text: the longest pieces without white space.\<close>

function split_words :: "bytes \<Rightarrow> bytes list" where
  "split_words bs =
     (let r = dropWhile is_space bs in
      if r = [] then [] else takeWhile (\<lambda>b. \<not> is_space b) r # split_words (dropWhile (\<lambda>b. \<not> is_space b) r))"
  by pat_completeness auto
termination
proof (relation "measure length")
  fix bs r :: bytes
  assume r: "r = dropWhile is_space bs" "r \<noteq> []"
  then have "\<not> is_space (hd r)" using hd_dropWhile by blast
  then have "length (dropWhile (\<lambda>b. \<not> is_space b) r) < length r"
    using r(2) by (cases r) (simp_all add: length_dropWhile_le le_imp_less_Suc)
  also have "length r \<le> length bs" unfolding r(1) by (rule length_dropWhile_le)
  finally show "(dropWhile (\<lambda>b. \<not> is_space b) r, bs) \<in> measure length" by simp
qed simp

declare split_words.simps [simp del]

text \<open>The number of words that begin in \<open>bs\<close>, when the byte before was in a word or not.\<close>

fun starts :: "bool \<Rightarrow> bytes \<Rightarrow> nat" where
  "starts w [] = 0"
| "starts w (b # bs) = (if is_space b then starts False bs else if w then starts True bs else Suc (starts True bs))"

lemma starts_drop:
  "starts False bs = starts False (dropWhile is_space bs)"
  "starts True bs = starts False (dropWhile (\<lambda>b. \<not> is_space b) bs)"
  by (induction bs) auto

lemma starts_split_words: "starts False bs = length (split_words bs)"
proof (induction bs rule: split_words.induct)
  case (1 bs)
  define r where "r = dropWhile is_space bs"
  show ?case
  proof (cases r)
    case Nil
    then show ?thesis unfolding split_words.simps [of bs] by (simp add: starts_drop(1) [of bs] flip: r_def)
  next
    case (Cons b t)
    then have b: "\<not> is_space b" using hd_dropWhile [of is_space bs] by (simp add: r_def)
    have "starts False bs = Suc (starts True t)" using b Cons starts_drop(1) [of bs] by (simp flip: r_def)
    also have "starts True t = starts False (dropWhile (\<lambda>b. \<not> is_space b) r)"
      using b Cons starts_drop(2) [of t] by simp
    also have "\<dots> = length (split_words (dropWhile (\<lambda>b. \<not> is_space b) r))"
      using 1 [OF r_def] Cons by simp
    finally show ?thesis using Cons unfolding split_words.simps [of bs] by (simp add: Let_def flip: r_def)
  qed
qed

lemma wc_bytes:
  "wc_l (fold wc_byte bs s) = wc_l s + of_nat (length (filter (\<lambda>b. b = 10) bs))"
  "wc_c (fold wc_byte bs s) = wc_c s + of_nat (length bs)"
  "wc_w (fold wc_byte bs s) = wc_w s + of_nat (starts (wc_inword s) bs)"
proof (induction bs arbitrary: s)
  case (Cons b bs)
  {
    case 1
    then show ?case using Cons(1) [of "wc_byte b s"] by (simp add: wc_byte_def Let_def)
  next
    case 2
    then show ?case using Cons(2) [of "wc_byte b s"] by (simp add: wc_byte_def Let_def)
  next
    case 3
    then show ?case using Cons(3) [of "wc_byte b s"] by (simp add: wc_byte_def Let_def)
  }
qed simp_all

lemma wc_chunks: "fold wc_chunk bss s = fold wc_byte (concat bss) s"
  by (induction bss arbitrary: s) (simp_all add: wc_chunk_def)

text \<open>C34. However \<open>read\<close> cuts a file into pieces, \<open>wc\<close> prints the numbers of its newlines, of its words (longest pieces without white space, also those that lie across two pieces) and of its bytes, each modulo the 32 bits of a register, in front of the name.\<close>

theorem wc_counts:
  "wc (bss, True) name out =
     (let bs = concat bss; num = (\<lambda>n. printint_u (of_nat n) 10 True) in
      Inr (Returned (out @ [(1, num (length (filter (\<lambda>b. b = 10) bs)) @ [32] @ num (length (split_words bs)) @ [32] @
        num (length bs) @ [32] @ name @ [10])])))"
proof -
  have f: "codes (''%d %d %d %s'' @ nl) = [37, 100, 32, 37, 100, 32, 37, 100, 32, 37, 115, 10]"
    by (simp add: codes_def of_char_def)
  show ?thesis
    unfolding wc_def put_def f printf_def Let_def
    by (simp add: wc_chunks wc_bytes starts_split_words)
qed

lemma name_start_last:
  assumes "47 \<notin> set name" and "k \<le> Suc (length name)"
  shows "name_start (dir @ [47] @ name) (Suc (length dir + k)) = Suc (length dir)"
  using assms(2)
proof (induction k)
  case (Suc k)
  have "(name @ [0]) ! k \<in> set (name @ [0])" using Suc.prems by (intro nth_mem) simp
  then have "(name @ [0]) ! k \<noteq> 47" using assms(1) by auto
  then have "((dir @ [47] @ name) @ [0]) ! (length dir + Suc k) \<noteq> 47" by (simp only: append_assoc nth_append_length_plus) simp
  then show ?case using Suc by (simp del: append.simps append_assoc)
qed (simp add: nth_append)

text \<open>\<open>fmtname\<close> gives the last element of a path, filled up with blanks to 14 characters.\<close>

lemma fmtname_last:
  assumes "47 \<notin> set name"
  shows "fmtname (dir @ [47] @ name) = name @ replicate (DIRSIZ - length name) 32"
proof -
  have "name_start (dir @ [47] @ name) (Suc (length (dir @ [47] @ name))) = Suc (length dir)"
    using name_start_last [OF assms, of "Suc (length name)" dir] by simp
  then show ?thesis unfolding fmtname_def by simp
qed

text \<open>\<open>echo\<close> writes the arguments with a blank between them and a newline at the end.\<close>

lemma echo_joins:
  "echo (a # as) out = Inr (out @ map (\<lambda>w. (1, w @ [32])) (butlast (a # as)) @ [(1, last (a # as) @ [10])])"
proof (induction as arbitrary: a out)
  case Nil
  then show ?case by (simp add: put_def printf_def codes_def of_char_def)
next
  case (Cons b as)
  have "put 1 ''%s%s'' [S a, S (codes '' '')] out = Inr (out @ [(1, a @ [32])])"
    by (simp add: put_def printf_def codes_def of_char_def)
  then have "echo (a # b # as) out = echo (b # as) (out @ [(1, a @ [32])])"
    by (subst echo.simps) simp
  then show ?case unfolding Cons.IH by simp
qed

end
