(* ===== verification/Xv6_Devices.thy ===== *)
theory Xv6_Devices
  imports Xv6_Prelude "HOL-Library.Monad_Syntax"
begin

text \<open>
  The drivers that only talk to devices: the local APIC and the clock (\<open>lapic.c\<close>), the I/O APIC
  (\<open>ioapic.c\<close>), the old interrupt controller (\<open>picirq.c\<close>) and the serial line (\<open>uart.c\<close>); and the
  first contact of \<open>ide.c\<close> with the disks.
\<close>

section \<open>Devices\<close>

text \<open>
  An access to a port or to a register in memory. A driver is a function of the accesses made so
  far; the devices are the function \<open>w\<close>, which gives for a list of accesses what the last one read.
\<close>

datatype access = OutB u16 u8 | InB u16 | Store u32 u32 | Store16 u32 u16 | Load u32

type_synonym trace = "access list"
type_synonym devices = "trace \<Rightarrow> u32"

definition port_out :: "u16 \<Rightarrow> u32 \<Rightarrow> trace \<Rightarrow> trace" where
  "port_out port v h = h @ [OutB port (ucast v)]"

definition port_in :: "devices \<Rightarrow> u16 \<Rightarrow> trace \<Rightarrow> u32 \<times> trace" where
  "port_in w port h = (let h = h @ [InB port] in (ucast (ucast (w h) :: u8), h))"

definition mmio_load :: "devices \<Rightarrow> u32 \<Rightarrow> trace \<Rightarrow> u32 \<times> trace" where
  "mmio_load w a h = (let h = h @ [Load a] in (w h, h))"

section \<open>Local APIC\<close>

text \<open>The registers, as indices into \<open>lapic[]\<close>; \<open>base\<close> is the pointer \<open>lapic\<close>.\<close>

abbreviation (input) ID :: u32 where "ID \<equiv> 0x0020 div 4"
abbreviation (input) VER :: u32 where "VER \<equiv> 0x0030 div 4"
abbreviation (input) TPR :: u32 where "TPR \<equiv> 0x0080 div 4"
abbreviation (input) EOI :: u32 where "EOI \<equiv> 0x00B0 div 4"
abbreviation (input) SVR :: u32 where "SVR \<equiv> 0x00F0 div 4"
abbreviation (input) ESR :: u32 where "ESR \<equiv> 0x0280 div 4"
abbreviation (input) ICRLO :: u32 where "ICRLO \<equiv> 0x0300 div 4"
abbreviation (input) ICRHI :: u32 where "ICRHI \<equiv> 0x0310 div 4"
abbreviation (input) TIMER :: u32 where "TIMER \<equiv> 0x0320 div 4"
abbreviation (input) PCINT :: u32 where "PCINT \<equiv> 0x0340 div 4"
abbreviation (input) LINT0 :: u32 where "LINT0 \<equiv> 0x0350 div 4"
abbreviation (input) LINT1 :: u32 where "LINT1 \<equiv> 0x0360 div 4"
abbreviation (input) ERROR :: u32 where "ERROR \<equiv> 0x0370 div 4"
abbreviation (input) TICR :: u32 where "TICR \<equiv> 0x0380 div 4"
abbreviation (input) TDCR :: u32 where "TDCR \<equiv> 0x03E0 div 4"
abbreviation (input) T_IRQ0 :: u32 where "T_IRQ0 \<equiv> 32"
abbreviation (input) MASKED :: u32 where "MASKED \<equiv> 0x00010000"
abbreviation (input) DELIVS :: u32 where "DELIVS \<equiv> 0x00001000"
abbreviation (input) INIT :: u32 where "INIT \<equiv> 0x00000500"
abbreviation (input) STARTUP :: u32 where "STARTUP \<equiv> 0x00000600"
abbreviation (input) ASSERT :: u32 where "ASSERT \<equiv> 0x00004000"
abbreviation (input) LEVEL :: u32 where "LEVEL \<equiv> 0x00008000"
abbreviation (input) BCAST :: u32 where "BCAST \<equiv> 0x00080000"

definition lapicw :: "u32 \<Rightarrow> u32 \<Rightarrow> u32 \<Rightarrow> trace \<Rightarrow> trace" where
  "lapicw base i v h = h @ [Store (base + 4 * i) v, Load (base + 4 * ID)]"

partial_function (option) wait_delivery :: "devices \<Rightarrow> u32 \<Rightarrow> trace \<Rightarrow> trace option" where
  "wait_delivery w base h =
     (let (v, h) = mmio_load w (base + 4 * ICRLO) h
      in if v AND DELIVS \<noteq> 0 then wait_delivery w base h else Some h)"

definition lapicinit :: "devices \<Rightarrow> u32 \<Rightarrow> trace \<Rightarrow> trace option" where
  "lapicinit w base h =
     (if base = 0 then Some h
      else
        let h = lapicw base SVR (0x100 OR (T_IRQ0 + 31)) h;
            h = lapicw base TDCR 0xB h;
            h = lapicw base TIMER (0x20000 OR (T_IRQ0 + 0)) h;
            h = lapicw base TICR 10000000 h;
            h = lapicw base LINT0 MASKED h;
            h = lapicw base LINT1 MASKED h;
            (ver, h) = mmio_load w (base + 4 * VER) h;
            h = (if drop_bit 16 ver AND 0xFF \<ge> 4 then lapicw base PCINT MASKED h else h);
            h = lapicw base ERROR (T_IRQ0 + 19) h;
            h = lapicw base ESR 0 h;
            h = lapicw base ESR 0 h;
            h = lapicw base EOI 0 h;
            h = lapicw base ICRHI 0 h;
            h = lapicw base ICRLO (BCAST OR INIT OR LEVEL) h
        in map_option (lapicw base TPR 0) (wait_delivery w base h))"

definition lapicid :: "devices \<Rightarrow> u32 \<Rightarrow> trace \<Rightarrow> u32 \<times> trace" where
  "lapicid w base h =
     (if base = 0 then (0, h) else let (v, h) = mmio_load w (base + 4 * ID) h in (drop_bit 24 v, h))"

definition lapiceoi :: "u32 \<Rightarrow> trace \<Rightarrow> trace" where
  "lapiceoi base h = (if base \<noteq> 0 then lapicw base EOI 0 h else h)"

text \<open>The warm reset vector is the word at physical address 467, mapped at \<open>KERNBASE\<close>.\<close>

definition startup_ipi :: "u32 \<Rightarrow> u8 \<Rightarrow> u32 \<Rightarrow> trace \<Rightarrow> trace" where
  "startup_ipi base apicid addr h =
     lapicw base ICRLO (STARTUP OR drop_bit 12 addr) (lapicw base ICRHI (push_bit 24 (ucast apicid)) h)"

definition lapicstartap :: "u32 \<Rightarrow> u8 \<Rightarrow> u32 \<Rightarrow> trace \<Rightarrow> trace" where
  "lapicstartap base apicid addr h =
     (let h = port_out 0x70 0xF h;
          h = port_out 0x71 0x0A h;
          h = h @ [Store16 (0x80000000 + 0x467) 0];
          h = h @ [Store16 (0x80000000 + 0x469) (ucast (drop_bit 4 addr))];
          h = lapicw base ICRHI (push_bit 24 (ucast apicid)) h;
          h = lapicw base ICRLO (INIT OR LEVEL OR ASSERT) h;
          h = lapicw base ICRLO (INIT OR LEVEL) h;
          h = startup_ipi base apicid addr h
      in startup_ipi base apicid addr h)"

section \<open>I/O APIC and PIC\<close>

abbreviation (input) IOAPIC :: u32 where "IOAPIC \<equiv> 0xFEC00000"
abbreviation (input) REG_TABLE :: u32 where "REG_TABLE \<equiv> 0x10"

definition ioapicread :: "devices \<Rightarrow> u32 \<Rightarrow> trace \<Rightarrow> u32 \<times> trace" where
  "ioapicread w reg h = mmio_load w (IOAPIC + 16) (h @ [Store IOAPIC reg])"

definition ioapicwrite :: "u32 \<Rightarrow> u32 \<Rightarrow> trace \<Rightarrow> trace" where
  "ioapicwrite reg v h = h @ [Store IOAPIC reg, Store (IOAPIC + 16) v]"

definition mask_irq :: "nat \<Rightarrow> trace \<Rightarrow> trace" where
  "mask_irq i h =
     ioapicwrite (REG_TABLE + 2 * of_nat i + 1) 0
       (ioapicwrite (REG_TABLE + 2 * of_nat i) (0x10000 OR (T_IRQ0 + of_nat i)) h)"

text \<open>Whether the message about the id is printed, and the accesses.\<close>

definition ioapicinit :: "devices \<Rightarrow> u8 \<Rightarrow> trace \<Rightarrow> bool \<times> trace" where
  "ioapicinit w ioapicid h =
     (let (v, h) = ioapicread w 1 h; maxintr = drop_bit 16 v AND 0xFF;
          (v, h) = ioapicread w 0 h; i = drop_bit 24 v
      in (i \<noteq> ucast ioapicid, fold mask_irq [0..<unat maxintr + 1] h))"

definition ioapicenable :: "u32 \<Rightarrow> u32 \<Rightarrow> trace \<Rightarrow> trace" where
  "ioapicenable irq cpunum h =
     ioapicwrite (REG_TABLE + 2 * irq + 1) (push_bit 24 cpunum)
       (ioapicwrite (REG_TABLE + 2 * irq) (T_IRQ0 + irq) h)"

definition picinit :: "trace \<Rightarrow> trace" where
  "picinit h = port_out 0xA1 0xFF (port_out 0x21 0xFF h)"

section \<open>Disk\<close>

text \<open>\<open>idewait\<close> with its result, and \<open>ideinit\<close> with \<open>havedisk1\<close>.\<close>

partial_function (option) ide_ready :: "devices \<Rightarrow> trace \<Rightarrow> (u32 \<times> trace) option" where
  "ide_ready w h =
     (let (r, h) = port_in w 0x1F7 h in if r AND (0x80 OR 0x40) \<noteq> 0x40 then ide_ready w h else Some (r, h))"

definition idewait :: "devices \<Rightarrow> bool \<Rightarrow> trace \<Rightarrow> (int \<times> trace) option" where
  "idewait w checkerr h =
     map_option (\<lambda>(r, h). (if checkerr \<and> r AND (0x20 OR 0x01) \<noteq> 0 then - 1 else 0, h)) (ide_ready w h)"

fun disk1_answers :: "devices \<Rightarrow> nat \<Rightarrow> trace \<Rightarrow> bool \<times> trace" where
  "disk1_answers w 0 h = (False, h)"
| "disk1_answers w (Suc n) h =
     (let (r, h) = port_in w 0x1F7 h in if r \<noteq> 0 then (True, h) else disk1_answers w n h)"

definition ideinit :: "devices \<Rightarrow> u32 \<Rightarrow> trace \<Rightarrow> (bool \<times> trace) option" where
  "ideinit w ncpu h =
     do {
       (_, h) \<leftarrow> idewait w False (ioapicenable 14 (ncpu - 1) h);
       let (havedisk1, h) = disk1_answers w 1000 (port_out 0x1F6 (0xE0 OR push_bit 4 1) h);
       Some (havedisk1, port_out 0x1F6 (0xE0 OR push_bit 4 0) h)
     }"

section \<open>Serial line\<close>

abbreviation (input) COM1 :: u16 where "COM1 \<equiv> 0x3F8"

text \<open>\<open>uart\<close> says whether there is a serial line. The wait for the line ends after 128 tests.\<close>

fun uart_wait :: "devices \<Rightarrow> nat \<Rightarrow> trace \<Rightarrow> trace" where
  "uart_wait w 0 h = h"
| "uart_wait w (Suc n) h =
     (let (v, h) = port_in w (COM1 + 5) h in if v AND 0x20 = 0 then uart_wait w n h else h)"

definition uartputc :: "devices \<Rightarrow> bool \<Rightarrow> u32 \<Rightarrow> trace \<Rightarrow> trace" where
  "uartputc w uart c h = (if \<not> uart then h else port_out COM1 c (uart_wait w 128 h))"

definition uartinit :: "devices \<Rightarrow> trace \<Rightarrow> bool \<times> trace" where
  "uartinit w h =
     (let h = port_out (COM1 + 2) 0 h;
          h = port_out (COM1 + 3) 0x80 h;
          h = port_out COM1 (115200 div 9600) h;
          h = port_out (COM1 + 1) 0 h;
          h = port_out (COM1 + 3) 0x03 h;
          h = port_out (COM1 + 4) 0 h;
          h = port_out (COM1 + 1) 0x01 h;
          (v, h) = port_in w (COM1 + 5) h
      in if v = 0xFF then (False, h)
         else
           let (_, h) = port_in w (COM1 + 2) h;
               (_, h) = port_in w COM1 h;
               h = ioapicenable 4 0 h
           in (True, fold (uartputc w True) [120, 118, 54, 46, 46, 46, 10] h))"

text \<open>\<open>None\<close> is the -1 of \<open>uartgetc\<close>; \<open>uartintr\<close> hands \<open>consoleintr\<close> the characters until then.\<close>

definition uartgetc :: "devices \<Rightarrow> bool \<Rightarrow> trace \<Rightarrow> u32 option \<times> trace" where
  "uartgetc w uart h =
     (if \<not> uart then (None, h)
      else
        let (v, h) = port_in w (COM1 + 5) h in
        if v AND 0x01 = 0 then (None, h)
        else let (c, h) = port_in w COM1 h in (Some c, h))"

partial_function (option) uart_input :: "devices \<Rightarrow> bool \<Rightarrow> trace \<Rightarrow> (u32 list \<times> trace) option" where
  "uart_input w uart h =
     (case uartgetc w uart h of
        (None, h) \<Rightarrow> Some ([], h)
      | (Some c, h) \<Rightarrow> Option.bind (uart_input w uart h) (\<lambda>(cs, h). Some (c # cs, h)))"

section \<open>The clock\<close>

record rtcdate =
  second :: u32
  minute :: u32
  hour :: u32
  day :: u32
  month :: u32
  year :: u32

definition cmos_read :: "devices \<Rightarrow> u32 \<Rightarrow> trace \<Rightarrow> u32 \<times> trace" where
  "cmos_read w reg h = port_in w 0x71 (port_out 0x70 reg h)"

definition fill_rtcdate :: "devices \<Rightarrow> trace \<Rightarrow> rtcdate \<times> trace" where
  "fill_rtcdate w h =
     (let (s, h) = cmos_read w 0 h;
          (mi, h) = cmos_read w 2 h;
          (ho, h) = cmos_read w 4 h;
          (d, h) = cmos_read w 7 h;
          (mo, h) = cmos_read w 8 h;
          (y, h) = cmos_read w 9 h
      in (\<lparr>second = s, minute = mi, hour = ho, day = d, month = mo, year = y\<rparr>, h))"

text \<open>The loop that reads the date until two readings agree and no update was under way.\<close>

partial_function (option) cmos_stable :: "devices \<Rightarrow> trace \<Rightarrow> (rtcdate \<times> trace) option" where
  "cmos_stable w h =
     (let (t1, h) = fill_rtcdate w h;
          (sa, h) = cmos_read w 0x0A h
      in if sa AND 0x80 \<noteq> 0 then cmos_stable w h
         else
           let (t2, h) = fill_rtcdate w h
           in if t1 = t2 then Some (t1, h) else cmos_stable w h)"

definition conv_bcd :: "u32 \<Rightarrow> u32" where
  "conv_bcd x = drop_bit 4 x * 10 + (x AND 0xF)"

definition cmostime :: "devices \<Rightarrow> trace \<Rightarrow> (rtcdate \<times> trace) option" where
  "cmostime w h =
     (let (sb, h) = cmos_read w 0x0B h; bcd = (sb AND 4 = 0) in
      do {
        (t1, h) \<leftarrow> cmos_stable w h;
        let t1 = (if bcd
          then \<lparr>second = conv_bcd (second t1), minute = conv_bcd (minute t1), hour = conv_bcd (hour t1),
                day = conv_bcd (day t1), month = conv_bcd (month t1), year = conv_bcd (year t1)\<rparr>
          else t1);
        Some (t1\<lparr>year := year t1 + 2000\<rparr>, h)
      })"

text \<open>
  A clock chip: register \<open>r\<close> holds \<open>reg n r\<close> when \<open>n\<close> accesses have been made. A number below 100 in a
  register, in BCD or in binary.
\<close>

definition is_rtc :: "devices \<Rightarrow> (nat \<Rightarrow> u8 \<Rightarrow> u8) \<Rightarrow> bool" where
  "is_rtc w reg \<longleftrightarrow> (\<forall>h r. w (h @ [OutB 0x70 r, InB 0x71]) = ucast (reg (length h) r))"

definition rtc_byte :: "bool \<Rightarrow> nat \<Rightarrow> u8" where
  "rtc_byte bcd x = of_nat (if bcd then x div 10 * 16 + x mod 10 else x)"

text \<open>
  Time passes between the accesses: at the \<open>k\<close>-th access the chip shows the date \<open>date k\<close>. Within the 26 accesses
  of a turn of the loop the date changes at most once; and at \<open>n\<close> it stays, with no update under way, for
  the time of two turns.
\<close>

definition shows_dates :: "(nat \<Rightarrow> u8 \<Rightarrow> u8) \<Rightarrow> bool \<Rightarrow> (nat \<Rightarrow> u8 \<Rightarrow> nat) \<Rightarrow> bool" where
  "shows_dates reg bcd date \<longleftrightarrow> (\<forall>k. \<forall>r\<in>{0, 2, 4, 7, 8, 9}. date k r < 100 \<and> reg k r = rtc_byte bcd (date k r))"

definition changes_once :: "(nat \<Rightarrow> u8 \<Rightarrow> nat) \<Rightarrow> nat \<Rightarrow> bool" where
  "changes_once date a \<longleftrightarrow>
     (\<exists>c. (\<forall>k. a \<le> k \<and> k < a + 26 \<and> k < c \<longrightarrow> date k = date a) \<and>
          (\<forall>k. a \<le> k \<and> k < a + 26 \<and> c \<le> k \<longrightarrow> date k = date (a + 25)))"

definition left_alone :: "(nat \<Rightarrow> u8 \<Rightarrow> u8) \<Rightarrow> (nat \<Rightarrow> u8 \<Rightarrow> nat) \<Rightarrow> nat \<Rightarrow> bool" where
  "left_alone reg date n \<longleftrightarrow> (\<forall>k. n \<le> k \<and> k < n + 50 \<longrightarrow> date k = date n \<and> reg k 0x0A AND 0x80 = 0)"

lemma ucast_u8_twice: "(ucast (ucast (ucast (x :: u8) :: u32) :: u8) :: u32) = ucast x"
  by (rule bit_word_eqI) (auto simp: bit_simps dest: bit_imp_le_length)

lemma ucast_and_u8: "(ucast (x AND y :: u8) :: u32) = ucast x AND ucast y"
  by (rule bit_word_eqI) (auto simp: bit_simps)

lemma cmos_read_rtc:
  "is_rtc w reg \<Longrightarrow> cmos_read w r h = (ucast (reg (length h) (ucast r)), h @ [OutB 0x70 (ucast r), InB 0x71])"
  by (simp add: cmos_read_def port_out_def port_in_def is_rtc_def ucast_u8_twice Let_def)

lemma cmos_read_length: "length (snd (cmos_read w r h)) = length h + 2"
  by (simp add: cmos_read_def port_out_def port_in_def Let_def)

lemma fill_rtcdate_length: "length (snd (fill_rtcdate w h)) = length h + 12"
proof -
  have l: "cmos_read w r h = (v, h') \<Longrightarrow> length h' = length h + 2" for r h v h'
    using cmos_read_length [of w r h] by simp
  show ?thesis by (auto simp: fill_rtcdate_def split: prod.splits dest!: l)
qed

lemma conv_bcd_byte: "x < 100 \<Longrightarrow> conv_bcd (ucast (rtc_byte True x)) = of_nat x"
proof -
  have "\<forall>x\<in>set [0..<100]. conv_bcd (ucast (rtc_byte True x)) = (of_nat x :: u32)" by code_simp
  then show "x < 100 \<Longrightarrow> conv_bcd (ucast (rtc_byte True x)) = of_nat x" by simp
qed

lemma ucast_rtc_binary: "x < 100 \<Longrightarrow> ucast (rtc_byte False x) = (of_nat x :: u32)"
proof -
  have "\<forall>x\<in>set [0..<100]. ucast (rtc_byte False x) = (of_nat x :: u32)" by code_simp
  then show "x < 100 \<Longrightarrow> ucast (rtc_byte False x) = (of_nat x :: u32)" by simp
qed

text \<open>What a reading of a steady clock gives.\<close>

definition raw_date :: "bool \<Rightarrow> (u8 \<Rightarrow> nat) \<Rightarrow> rtcdate" where
  "raw_date bcd d = \<lparr>second = ucast (rtc_byte bcd (d 0)), minute = ucast (rtc_byte bcd (d 2)),
     hour = ucast (rtc_byte bcd (d 4)), day = ucast (rtc_byte bcd (d 7)),
     month = ucast (rtc_byte bcd (d 8)), year = ucast (rtc_byte bcd (d 9))\<rparr>"

lemma fill_reads:
  assumes "is_rtc w reg" and "shows_dates reg bcd date"
    and "\<And>k. length h \<le> k \<Longrightarrow> k < length h + 11 \<Longrightarrow> date k = d"
  shows "fst (fill_rtcdate w h) = raw_date bcd d"
proof -
  have r: "reg k r = rtc_byte bcd (d r)" if "length h \<le> k" "k < length h + 11" "r \<in> {0, 2, 4, 7, 8, 9}" for k r
    using assms(2) assms(3) [OF that(1,2)] that(3) unfolding shows_dates_def by metis
  show ?thesis
    by (simp add: fill_rtcdate_def cmos_read_rtc [OF assms(1)] raw_date_def r)
qed

text \<open>Two readings that agree are a date that the chip has shown: the change falls into at most one of them.\<close>

lemma two_readings:
  assumes "is_rtc w reg" and "shows_dates reg bcd date" and "changes_once date (length h)"
    and "length h2 = length h + 14" and "fst (fill_rtcdate w h) = t" and "fst (fill_rtcdate w h2) = t"
  shows "\<exists>k. length h \<le> k \<and> k < length h + 26 \<and> t = raw_date bcd (date k)"
proof -
  let ?a = "length h"
  obtain c where c: "\<And>k. ?a \<le> k \<and> k < ?a + 26 \<and> k < c \<Longrightarrow> date k = date ?a"
    "\<And>k. ?a \<le> k \<and> k < ?a + 26 \<and> c \<le> k \<Longrightarrow> date k = date (?a + 25)"
    using assms(3) unfolding changes_once_def by blast
  show ?thesis
  proof (cases "c \<le> ?a + 12")
    case True
    have "fst (fill_rtcdate w h2) = raw_date bcd (date (?a + 25))"
      by (rule fill_reads [OF assms(1,2)], rule c(2)) (use assms(4) True in auto)
    then show ?thesis using assms(6) by (intro exI [of _ "?a + 25"]) simp
  next
    case False
    have "fst (fill_rtcdate w h) = raw_date bcd (date ?a)"
      by (rule fill_reads [OF assms(1,2)], rule c(1)) (use False in auto)
    then show ?thesis using assms(5) by (intro exI [of _ ?a]) simp
  qed
qed

lemma cmos_stable_date:
  assumes "is_rtc w reg" and "shows_dates reg bcd date" and "\<And>a. changes_once date a" and "left_alone reg date n"
    and "length h \<le> n + 25"
  shows "\<exists>h' k. cmos_stable w h = Some (raw_date bcd (date k), h') \<and> length h \<le> k \<and> k < length h' \<and> length h' \<le> n + 51"
  using assms(5)
proof (induction "n + 25 - length h" arbitrary: h rule: less_induct)
  case less
  let ?a = "length h"
  obtain t h1 where 1: "fill_rtcdate w h = (t, h1)" by (metis surj_pair)
  obtain sa h2 where 2: "cmos_read w 0x0A h1 = (sa, h2)" by (metis surj_pair)
  obtain t2 h3 where 3: "fill_rtcdate w h2 = (t2, h3)" by (metis surj_pair)
  have l: "length h1 = ?a + 12" "length h2 = ?a + 14" "length h3 = ?a + 26"
    using fill_rtcdate_length [of w h] 1 cmos_read_length [of w "0x0A" h1] 2 fill_rtcdate_length [of w h2] 3 by simp_all
  have step: "cmos_stable w h =
      (if sa AND 0x80 \<noteq> 0 then cmos_stable w h2 else if t = t2 then Some (t, h3) else cmos_stable w h3)"
    by (subst cmos_stable.simps) (simp add: 1 2 3)
  show ?case
  proof (cases "sa AND 0x80 = 0 \<and> t = t2")
    case True
    then obtain k where k: "?a \<le> k" "k < ?a + 26" "t = raw_date bcd (date k)"
      using two_readings [OF assms(1,2) assms(3) l(2), of t] 1 3 by auto
    moreover have "cmos_stable w h = Some (t, h3)" using step True by simp
    ultimately show ?thesis using l(3) less.prems by auto
  next
    case False
    have "?a < n"
    proof (rule ccontr)
      assume late: "\<not> ?a < n"
      have q: "date k = date n" "reg k 0x0A AND 0x80 = 0" if "?a \<le> k" "k < ?a + 25" for k
      proof -
        have "n \<le> k" "k < n + 50" using that late less.prems by linarith+
        then show "date k = date n" "reg k 0x0A AND 0x80 = 0" using assms(4) unfolding left_alone_def by blast+
      qed
      have "fst (fill_rtcdate w h) = raw_date bcd (date n)" "fst (fill_rtcdate w h2) = raw_date bcd (date n)"
        by (rule fill_reads [OF assms(1,2)], rule q(1); use l(2) in simp)+
      then have "t = raw_date bcd (date n)" "t2 = raw_date bcd (date n)" using 1 3 by simp_all
      moreover have "sa = ucast (reg (?a + 12) 0x0A)"
        using 2 cmos_read_rtc [OF assms(1), of "0x0A" h1] l(1) by simp
      then have "sa AND 0x80 = 0"
        using ucast_and_u8 [of "reg (?a + 12) 0x0A" "0x80"] q(2) [of "?a + 12"] by simp
      ultimately show False using False by simp
    qed
    then have again: "length g \<le> n + 25 \<and> n + 25 - length g < n + 25 - ?a" if "g = h2 \<or> g = h3" for g
      using that l by auto
    have "\<exists>h' k. cmos_stable w g = Some (raw_date bcd (date k), h') \<and> ?a \<le> k \<and> k < length h' \<and> length h' \<le> n + 51"
      if "g = h2 \<or> g = h3" for g
      using less.hyps [of g] again [OF that] that l by fastforce
    then show ?thesis unfolding step using False by auto
  qed
qed

text \<open>The date as \<open>cmostime\<close> gives it.\<close>

definition date_shown :: "(u8 \<Rightarrow> nat) \<Rightarrow> rtcdate" where
  "date_shown d = \<lparr>second = of_nat (d 0), minute = of_nat (d 2), hour = of_nat (d 4),
     day = of_nat (d 7), month = of_nat (d 8), year = of_nat (d 9) + 2000\<rparr>"

lemma conv_raw_date:
  assumes "shows_dates reg bcd date" and "r \<in> {0, 2, 4, 7, 8, 9}"
  shows "(if bcd then conv_bcd (ucast (rtc_byte bcd (date k r))) else ucast (rtc_byte bcd (date k r))) = of_nat (date k r)"
proof -
  have "date k r < 100" using assms unfolding shows_dates_def by blast
  then show ?thesis using conv_bcd_byte [of "date k r"] ucast_rtc_binary [of "date k r"] by (cases bcd) simp_all
qed

text \<open>
  C40. \<open>cmostime\<close> on a running clock whose date changes at most once in the 26 accesses of a turn of its loop: it comes
  to an end when the chip is next left alone for 50 accesses, and what it gives is a date that the chip has shown
  during the call, not a mixture of two, whether the chip counts in BCD or in binary, with 2000 added to the year.
\<close>

theorem cmostime_reads_clock:
  assumes "is_rtc w reg" and "\<And>k. reg k 0x0B AND 4 = (if bcd then 0 else 4)" and "shows_dates reg bcd date"
    and "\<And>a. changes_once date a" and "left_alone reg date n" and "length h \<le> n"
  shows "\<exists>h' k. cmostime w h = Some (date_shown (date k), h') \<and> length h \<le> k \<and> k < length h' \<and> length h' \<le> n + 51"
proof -
  obtain sb h1 where 1: "cmos_read w 0x0B h = (sb, h1)" by (metis surj_pair)
  have sb: "sb = ucast (reg (length h) 0x0B)" "length h1 = length h + 2"
    using 1 cmos_read_rtc [OF assms(1), of "0x0B" h] by auto
  have b: "(sb AND 4 = 0) = bcd"
    using ucast_and_u8 [of "reg (length h) 0x0B" 4] assms(2) [of "length h"] by (auto simp: sb(1) split: if_splits)
  obtain h' k where 2: "cmos_stable w h1 = Some (raw_date bcd (date k), h')" "length h1 \<le> k" "k < length h'" "length h' \<le> n + 51"
    using cmos_stable_date [OF assms(1,3,4,5), of h1] sb(2) assms(6) by auto
  have f: "(if bcd then conv_bcd (ucast (rtc_byte bcd (date k r))) else ucast (rtc_byte bcd (date k r))) = of_nat (date k r)"
    if "r \<in> {0, 2, 4, 7, 8, 9}" for r
    using conv_raw_date [OF assms(3) that] .
  have "cmostime w h = Some (date_shown (date k), h')"
    using f [of 0] f [of 2] f [of 4] f [of 7] f [of 8] f [of 9]
    by (cases bcd) (auto simp: cmostime_def 1 2(1) b raw_date_def date_shown_def)
  then show ?thesis using 2(2-4) sb(2) by auto
qed

text \<open>
  A chip that counts in BCD and goes from 2024-02-29 23:59:59 to 2024-03-01 00:00:00 at the eighth access, in the
  middle of the first reading.
\<close>

definition demo_date :: "nat \<Rightarrow> u8 \<Rightarrow> nat" where
  "demo_date k r =
     (if k < 8 then if r = 0 then 59 else if r = 2 then 59 else if r = 4 then 23 else if r = 7 then 29 else if r = 8 then 2 else 24
      else if r = 7 then 1 else if r = 8 then 3 else if r = 9 then 24 else 0)"

definition demo_reg :: "nat \<Rightarrow> u8 \<Rightarrow> u8" where
  "demo_reg k r = (if r = 0x0A then 0x26 else if r = 0x0B then 0x02 else rtc_byte True (demo_date k r))"

definition demo_clock :: devices where
  "demo_clock h = (case rev h of InB p # OutB q r # t \<Rightarrow> ucast (demo_reg (length t) r) | _ \<Rightarrow> 0)"

lemma cmostime_reads_clock_witness:
  "\<exists>t h'. cmostime demo_clock [] = Some (t, h') \<and>
     t \<in> {\<lparr>second = 59, minute = 59, hour = 23, day = 29, month = 2, year = 2024\<rparr>,
          \<lparr>second = 0, minute = 0, hour = 0, day = 1, month = 3, year = 2024\<rparr>}"
proof -
  have "is_rtc demo_clock demo_reg" by (simp add: is_rtc_def demo_clock_def)
  moreover have "shows_dates demo_reg True demo_date" by (simp add: shows_dates_def demo_reg_def demo_date_def)
  moreover have "changes_once demo_date a" for a
    unfolding changes_once_def by (intro exI [of _ 8]) (simp add: demo_date_def fun_eq_iff)
  moreover have "left_alone demo_reg demo_date 8" by (simp add: left_alone_def demo_reg_def demo_date_def fun_eq_iff)
  moreover have "demo_reg k 0x0B AND 4 = (if True then 0 else 4)" for k by (simp add: demo_reg_def)
  ultimately obtain h' k where "cmostime demo_clock [] = Some (date_shown (demo_date k), h')"
    using cmostime_reads_clock [of demo_clock demo_reg True demo_date 8 "[]"] by auto
  moreover have "date_shown (demo_date k) \<in> {\<lparr>second = 59, minute = 59, hour = 23, day = 29, month = 2, year = 2024\<rparr>,
      \<lparr>second = 0, minute = 0, hour = 0, day = 1, month = 3, year = 2024\<rparr>}"
    by (cases "k < 8") (simp_all add: date_shown_def demo_date_def)
  ultimately show ?thesis by blast
qed

end
