(* ===== verification/Xv6_Gates.thy ===== *)
theory Xv6_Gates
  imports Xv6_Kalloc
begin

text \<open>
  The descriptors that let the processor into the kernel: the segments of \<open>seginit\<close> (\<open>vm.c\<close>) and the
  gates of \<open>tvinit\<close> (\<open>trap.c\<close>), with the formats of \<open>mmu.h\<close>; and the walk along the saved frame
  pointers, \<open>getcallerpcs\<close> (\<open>spinlock.c\<close>).
\<close>

section \<open>Segments\<close>

text \<open>The bit fields, each at its width.\<close>

record segdesc =
  lim_15_0 :: "16 word"
  base_15_0 :: "16 word"
  base_23_16 :: "8 word"
  sd_type :: "4 word"
  sd_s :: "1 word"
  sd_dpl :: "2 word"
  sd_p :: "1 word"
  lim_19_16 :: "4 word"
  avl :: "1 word"
  sd_rsv1 :: "1 word"
  db :: "1 word"
  gran :: "1 word"
  base_31_24 :: "8 word"

definition SEG :: "4 word \<Rightarrow> u32 \<Rightarrow> u32 \<Rightarrow> 2 word \<Rightarrow> segdesc" where
  "SEG ty base lim dpl =
     \<lparr>lim_15_0 = ucast (drop_bit 12 lim AND 0xFFFF), base_15_0 = ucast (base AND 0xFFFF),
      base_23_16 = ucast (drop_bit 16 base AND 0xFF), sd_type = ty, sd_s = 1, sd_dpl = dpl, sd_p = 1,
      lim_19_16 = ucast (drop_bit 28 lim), avl = 0, sd_rsv1 = 0, db = 1, gran = 1,
      base_31_24 = ucast (drop_bit 24 base)\<rparr>"

abbreviation (input) SEG_KCODE :: nat where "SEG_KCODE \<equiv> 1"
abbreviation (input) SEG_KDATA :: nat where "SEG_KDATA \<equiv> 2"
abbreviation (input) SEG_UCODE :: nat where "SEG_UCODE \<equiv> 3"
abbreviation (input) SEG_UDATA :: nat where "SEG_UDATA \<equiv> 4"
abbreviation (input) NSEGS :: nat where "NSEGS \<equiv> 6"
abbreviation (input) DPL_USER :: "2 word" where "DPL_USER \<equiv> 3"

text \<open>The table of one processor; \<open>lgdt\<close> tells the processor where it is.\<close>

definition seginit :: "segdesc list \<Rightarrow> segdesc list" where
  "seginit gdt =
     (let gdt = gdt[SEG_KCODE := SEG (0x8 OR 0x2) 0 0xFFFFFFFF 0];
          gdt = gdt[SEG_KDATA := SEG 0x2 0 0xFFFFFFFF 0];
          gdt = gdt[SEG_UCODE := SEG (0x8 OR 0x2) 0 0xFFFFFFFF DPL_USER]
      in gdt[SEG_UDATA := SEG 0x2 0 0xFFFFFFFF DPL_USER])"

section \<open>Gates\<close>

record gatedesc =
  off_15_0 :: "16 word"
  gate_cs :: "16 word"
  args :: "5 word"
  gate_rsv1 :: "3 word"
  gate_type :: "4 word"
  gate_s :: "1 word"
  gate_dpl :: "2 word"
  gate_p :: "1 word"
  off_31_16 :: "16 word"

definition SETGATE :: "bool \<Rightarrow> u16 \<Rightarrow> u32 \<Rightarrow> 2 word \<Rightarrow> gatedesc" where
  "SETGATE istrap sel off d =
     \<lparr>off_15_0 = ucast (off AND 0xFFFF), gate_cs = sel, args = 0, gate_rsv1 = 0,
      gate_type = (if istrap then 0xF else 0xE), gate_s = 0, gate_dpl = d, gate_p = 1,
      off_31_16 = ucast (drop_bit 16 off)\<rparr>"

abbreviation (input) T_SYSCALL :: nat where "T_SYSCALL \<equiv> 64"

text \<open>\<open>vectors\<close> is the table of entry points that \<open>vectors.pl\<close> generates.\<close>

definition tvinit :: "(nat \<Rightarrow> u32) \<Rightarrow> gatedesc list \<Rightarrow> gatedesc list" where
  "tvinit vectors idt =
     (let idt = fold (\<lambda>i idt. idt[i := SETGATE False (push_bit 3 (of_nat SEG_KCODE)) (vectors i) 0]) [0..<256] idt
      in idt[T_SYSCALL := SETGATE True (push_bit 3 (of_nat SEG_KCODE)) (vectors T_SYSCALL) DPL_USER])"

text \<open>The six bytes that \<open>lidt\<close> and \<open>lgdt\<close> hand to the processor: size and address of the table.\<close>

definition table_operand :: "u32 \<Rightarrow> u32 \<Rightarrow> u16 list" where
  "table_operand a sz = [ucast (sz - 1), ucast a, ucast (drop_bit 16 a)]"

definition idtinit :: "u32 \<Rightarrow> u16 list" where
  "idtinit idt = table_operand idt (256 * 8)"

section \<open>What the processor does with them\<close>

text \<open>The address and limit a segment descriptor stands for, with the limit in pages of 4 KB.\<close>

definition seg_base :: "segdesc \<Rightarrow> u32" where
  "seg_base d = push_bit 24 (ucast (base_31_24 d)) OR push_bit 16 (ucast (base_23_16 d)) OR ucast (base_15_0 d)"

definition seg_limit :: "segdesc \<Rightarrow> u32" where
  "seg_limit d = push_bit 12 (push_bit 16 (ucast (lim_19_16 d)) OR ucast (lim_15_0 d)) OR 0xFFF"

definition gate_offset :: "gatedesc \<Rightarrow> u32" where
  "gate_offset g = push_bit 16 (ucast (off_31_16 g)) OR ucast (off_15_0 g)"

text \<open>
  Entering through gate \<open>n\<close>: \<open>soft\<close> for an \<open>int n\<close> instruction, for which the privilege level \<open>cpl\<close> of
  the program must be no weaker than that of the gate. The result is the ring that is entered, the
  address, and whether further interrupts stay enabled; \<open>None\<close> is a protection fault.
\<close>

definition enter :: "segdesc list \<Rightarrow> gatedesc list \<Rightarrow> bool \<Rightarrow> nat \<Rightarrow> nat \<Rightarrow> (nat \<times> u32 \<times> bool) option" where
  "enter gdt idt soft cpl n =
     (if n < length idt \<and> gate_p (idt ! n) = 1 \<and> (soft \<longrightarrow> cpl \<le> unat (gate_dpl (idt ! n)))
      then
        let g = idt ! n; d = gdt ! (unat (gate_cs g) div 8)
        in if sd_p d = 1 \<and> sd_type d AND 0x8 \<noteq> 0 \<and> gate_offset g \<le> seg_limit d
           then Some (unat (sd_dpl d), seg_base d + gate_offset g, gate_type g = 0xF) else None
      else None)"

lemma gate_offset_SETGATE: "gate_offset (SETGATE t sel off d) = off"
proof (rule bit_word_eqI)
  have m: "(0xFFFF :: u32) = mask 16" by (simp add: mask_numeral)
  fix k assume "k < LENGTH(32)"
  then show "bit (gate_offset (SETGATE t sel off d)) k = bit off k"
    unfolding gate_offset_def SETGATE_def m by (cases "k < 16") (auto simp: bit_simps)
qed

lemma fold_update:
  "n \<le> length xs \<Longrightarrow> fold (\<lambda>i xs. xs[i := f i]) [0..<n] xs = map f [0..<n] @ drop n xs"
proof (induction n)
  case (Suc n)
  then have "drop n xs = xs ! n # drop (Suc n) xs" by (simp add: Cons_nth_drop_Suc)
  then show ?case using Suc by (simp add: list_update_append)
qed simp

lemma tvinit_nth:
  assumes "length idt = 256" and "n < 256"
  shows "length (tvinit vectors idt) = 256"
    and "tvinit vectors idt ! n =
      (if n = T_SYSCALL then SETGATE True 8 (vectors n) DPL_USER else SETGATE False 8 (vectors n) 0)"
  using assms by (simp_all add: tvinit_def fold_update Let_def)

lemma flat_segment: "seg_base (SEG ty 0 0xFFFFFFFF dpl) = 0" "seg_limit (SEG ty 0 0xFFFFFFFF dpl) = 0xFFFFFFFF"
  by (simp_all add: seg_base_def seg_limit_def SEG_def push_bit_eq_mult)

text \<open>C18. After \<open>seginit\<close> and \<open>tvinit\<close> every trap and interrupt enters the kernel in ring 0 at its own vector; with an \<open>int\<close> instruction a user program gets in through the gate of system calls and through no other, and only that gate leaves interrupts enabled.\<close>

theorem gates_guard_kernel:
  assumes "length gdt = NSEGS" and "length idt = 256" and "n < 256"
  shows "enter (seginit gdt) (tvinit vectors idt) False cpl n = Some (0, vectors n, n = T_SYSCALL) \<and>
    enter (seginit gdt) (tvinit vectors idt) True 3 n = (if n = T_SYSCALL then Some (0, vectors n, True) else None)"
proof -
  have g: "seginit gdt ! Suc 0 = SEG 0xA 0 0xFFFFFFFF 0" using assms(1) by (simp add: seginit_def)
  have d: "sd_p (SEG 0xA 0 0xFFFFFFFF 0) = 1" "sd_type (SEG 0xA 0 0xFFFFFFFF 0) = 0xA" "sd_dpl (SEG 0xA 0 0xFFFFFFFF 0) = 0"
    by (simp_all add: SEG_def)
  have t: "gate_cs (SETGATE t 8 off d) = 8" "gate_p (SETGATE t 8 off d) = 1" "gate_dpl (SETGATE t 8 off d) = d"
    "gate_type (SETGATE t 8 off d) = (if t then 0xF else 0xE)" for t off d
    by (simp_all add: SETGATE_def)
  have l: "off \<le> (0xFFFFFFFF :: u32)" for off
  proof -
    have "unat off \<le> 4294967295" using unat_lt32 [of off] by linarith
    then show ?thesis by (simp add: word_le_nat_alt)
  qed
  show ?thesis
    using assms(3) tvinit_nth [OF assms(2,3), of vectors]
    by (cases "n = T_SYSCALL") (simp_all add: enter_def Let_def t gate_offset_SETGATE g d flat_segment l)
qed

lemma gates_guard_kernel_witness:
  "enter (seginit (replicate 6 (SEG 0 0 0 0))) (tvinit (\<lambda>i. 0x80105000 + 8 * of_nat i) (replicate 256 (SETGATE False 0 0 0))) True 3 14 = None \<and>
   enter (seginit (replicate 6 (SEG 0 0 0 0))) (tvinit (\<lambda>i. 0x80105000 + 8 * of_nat i) (replicate 256 (SETGATE False 0 0 0))) True 3 64
     = Some (0, 0x80105200, True)"
  using gates_guard_kernel [of "replicate 6 (SEG 0 0 0 0)" "replicate 256 (SETGATE False 0 0 0)" 14 "\<lambda>i. 0x80105000 + 8 * of_nat i" 3]
    gates_guard_kernel [of "replicate 6 (SEG 0 0 0 0)" "replicate 256 (SETGATE False 0 0 0)" 64 "\<lambda>i. 0x80105000 + 8 * of_nat i" 3]
  by simp

section \<open>The call stack\<close>

text \<open>
  The saved return addresses of up to ten callers, along the chain of frame pointers that starts
  below \<open>v\<close>; the rest of the array is zero.
\<close>

fun callers :: "nat \<Rightarrow> u32 \<Rightarrow> memory \<Rightarrow> u32 list" where
  "callers 0 ebp m = []"
| "callers (Suc n) ebp m =
     (if ebp = 0 \<or> ebp < KERNBASE \<or> ebp = 0xFFFFFFFF then []
      else ld32 (ebp + 4) m # callers n (ld32 ebp m) m)"

definition getcallerpcs :: "u32 \<Rightarrow> memory \<Rightarrow> u32 list" where
  "getcallerpcs v m = (let pcs = callers 10 (v - 8) m in pcs @ replicate (10 - length pcs) 0)"

lemma length_callers: "length (callers n ebp m) \<le> n"
  by (induction n arbitrary: ebp) auto

lemma length_getcallerpcs: "length (getcallerpcs v m) = 10"
  using length_callers [of 10 "v - 8" m] by (simp add: getcallerpcs_def Let_def)

end
