(* ===== verification/Xv6_Sysfile.thy ===== *)
theory Xv6_Sysfile
  imports Xv6_Syscall
begin

text \<open>
  The system calls on files (\<open>sysfile.c\<close>) and the walks by which threads that share their open
  files or their current directory keep each other's tables in step.
\<close>

section \<open>Keeping sharers in step\<close>

text \<open>
  \<open>ofileshareopen\<close>, \<open>ofileshareclose\<close> and \<open>cwdshare\<close> are the same recursion: over the entries of a
  process's list, a partner that already has the new value ends the call, any other is updated and
  visited in turn. The recursion is run here on an explicit stack of calls, each with the indices
  its loop has left. \<open>hit\<close> tests for the new value and \<open>put\<close> stores it.
\<close>

definition todo :: "(proc \<Rightarrow> bool) \<Rightarrow> proc list \<Rightarrow> nat" where
  "todo hit ps = length (filter (\<lambda>p. \<not> hit p) ps)"

lemma todo_update:
  assumes "q < length ps" and "\<not> hit (ps ! q)" and "hit p"
  shows "todo hit (ps[q := p]) < todo hit ps"
proof -
  have ps: "ps = take q ps @ ps ! q # drop (Suc q) ps" using assms(1) by (rule id_take_nth_drop)
  have up: "ps[q := p] = take q ps @ p # drop (Suc q) ps" using assms(1) by (rule upd_conv_take_nth_drop)
  show ?thesis unfolding todo_def up using assms by (subst (3) ps) simp
qed

definition stack_size :: "(nat \<times> nat list) list \<Rightarrow> nat" where
  "stack_size st = sum_list (map (\<lambda>(c, is). Suc (length is)) st)"

lemma stack_size_simps [simp]:
  "stack_size [] = 0"
  "stack_size ((c, is) # st) = Suc (length is + stack_size st)"
  by (simp_all add: stack_size_def)

function share_walk :: "(proc \<Rightarrow> nat option list) \<Rightarrow> (proc \<Rightarrow> bool) \<Rightarrow> (proc \<Rightarrow> proc) \<Rightarrow>
    (nat \<times> nat list) list \<Rightarrow> proc list \<Rightarrow> stop + proc list" where
  "share_walk shr hit put [] ps = Inr ps"
| "share_walk shr hit put ((c, []) # st) ps = share_walk shr hit put st ps"
| "share_walk shr hit put ((c, i # is) # st) ps =
     (case shr (ps ! c) ! i of
        None \<Rightarrow> share_walk shr hit put ((c, is) # st) ps
      | Some q \<Rightarrow>
          if q = c then share_walk shr hit put ((c, is) # st) ps
          else if q \<ge> length ps then Inl (Fault ''proc pointer'')
          else if hit (ps ! q) then share_walk shr hit put st ps
          else if \<not> hit (put (ps ! q)) then Inl (Spins ''share'')
          else share_walk shr hit put ((q, [0..<NPROC]) # (c, is) # st) (ps[q := put (ps ! q)]))"
  by pat_completeness auto
termination
  by (relation "measures [\<lambda>(shr, hit, put, st, ps). todo hit ps, \<lambda>(shr, hit, put, st, ps). stack_size st]")
    (auto simp: todo_update)

definition run_walk :: "(proc \<Rightarrow> nat option list) \<Rightarrow> (proc \<Rightarrow> bool) \<Rightarrow> (proc \<Rightarrow> proc) \<Rightarrow> nat \<Rightarrow>
    'a proc_state_scheme \<Rightarrow> stop + 'a proc_state_scheme" where
  "run_walk shr hit put c s =
     bindE (share_walk shr hit put [(c, [0..<NPROC])] (procs s)) (\<lambda>ps. Inr (s\<lparr>procs := ps\<rparr>))"

definition ofileshareopen :: "nat \<Rightarrow> nat \<Rightarrow> nat \<Rightarrow> 'a proc_state_scheme \<Rightarrow> stop + 'a proc_state_scheme" where
  "ofileshareopen c f fd =
     run_walk ofileshare (\<lambda>p. ofile p ! fd = Some f) (ofile_update (\<lambda>fs. fs[fd := Some f])) c"

definition ofileshareclose :: "nat \<Rightarrow> nat \<Rightarrow> 'a proc_state_scheme \<Rightarrow> stop + 'a proc_state_scheme" where
  "ofileshareclose c fd =
     run_walk ofileshare (\<lambda>p. ofile p ! fd = None) (ofile_update (\<lambda>fs. fs[fd := None])) c"

definition share_cwd :: "nat \<Rightarrow> nat \<Rightarrow> 'a proc_state_scheme \<Rightarrow> stop + 'a proc_state_scheme" where
  "share_cwd c ip = run_walk cwdshare (\<lambda>p. cwd p = Some ip) (cwd_update (\<lambda>_. Some ip)) c"

section \<open>Descriptors\<close>

definition argfd :: "nat \<Rightarrow> 'a proc_state_scheme \<Rightarrow> stop + (nat \<times> nat) option" where
  "argfd n s =
     bindE (myproc s) (\<lambda>me.
     bindE (argint n s) (\<lambda>r.
       case r of None \<Rightarrow> Inr None
       | Some fd \<Rightarrow>
           if sint fd < 0 \<or> sint fd \<ge> int NOFILE then Inr None
           else Inr (map_option (\<lambda>f. (unat fd, f)) (ofile (procs s ! me) ! unat fd))))"

definition fdalloc :: "nat \<Rightarrow> 'a proc_state_scheme \<Rightarrow> stop + (nat option \<times> 'a proc_state_scheme)" where
  "fdalloc f s =
     bindE (myproc s) (\<lambda>me.
       case find_slot (\<lambda>x. x = None) (ofile (procs s ! me)) of
         None \<Rightarrow> Inr (None, s)
       | Some fd \<Rightarrow>
           bindE (ofileshareopen me f fd (upd_proc me (ofile_update (\<lambda>fs. fs[fd := Some f])) s)) (\<lambda>s.
           Inr (Some fd, s)))"

definition sys_dup :: "'a file_state_scheme \<Rightarrow> stop + (i32 run \<times> 'a file_state_scheme)" where
  "sys_dup s =
     with_arg (argfd 0 s) (\<lambda>(_, f).
     bindE (fdalloc f s) (\<lambda>(r, s).
       case r of None \<Rightarrow> Inr (Done (- 1), s)
       | Some fd \<Rightarrow> bindE (filedup f s) (\<lambda>s. Inr (Done (of_nat fd), s)))) s"

text \<open>The bytes read go to the user's buffer; those to be written come from it.\<close>

definition sys_read :: "'a file_state_scheme devsw \<Rightarrow> 'a file_state_scheme \<Rightarrow> stop + (i32 run \<times> 'a file_state_scheme)" where
  "sys_read dv s =
     with_arg (argfd 0 s) (\<lambda>(_, f).
     with_arg (argint 2 s) (\<lambda>n.
     with_arg (argptr 1 n s) (\<lambda>p.
     bindE (myproc s) (\<lambda>me.
     bindE (fileread dv f n s) (\<lambda>((r, d), s).
     bindE (vstore (pgdir (procs s ! me)) p d s) (\<lambda>s. Inr (r, s))))) s) s) s"

definition sys_write :: "'a file_state_scheme devsw \<Rightarrow> 'a file_state_scheme \<Rightarrow> stop + (i32 run \<times> 'a file_state_scheme)" where
  "sys_write dv s =
     with_arg (argfd 0 s) (\<lambda>(_, f).
     with_arg (argint 2 s) (\<lambda>n.
     with_arg (argptr 1 n s) (\<lambda>p.
     bindE (myproc s) (\<lambda>me.
     bindE (vloads (pgdir (procs s ! me)) p (unat n) s) (\<lambda>d.
     bindE (filewrite dv f d s) (\<lambda>((r, _), s). Inr (r, s))))) s) s) s"

definition sys_close :: "'a file_state_scheme \<Rightarrow> stop + (i32 run \<times> 'a file_state_scheme)" where
  "sys_close s =
     with_arg (argfd 0 s) (\<lambda>(fd, f).
     bindE (myproc s) (\<lambda>me.
     bindE (fileclose f (upd_proc me (ofile_update (\<lambda>fs. fs[fd := None])) s)) (\<lambda>s.
     bindE (ofileshareclose me fd s) (\<lambda>s. Inr (Done 0, s))))) s"

text \<open>\<open>struct stat\<close> as the compiler lays it out, in 20 bytes.\<close>

definition stat_bytes :: "stat \<Rightarrow> bytes" where
  "stat_bytes st =
     [byte_of 0 (st_type st), byte_of 1 (st_type st), 0, 0] @ word_bytes (st_dev st) @ word_bytes (st_ino st)
     @ [byte_of 0 (st_nlink st), byte_of 1 (st_nlink st), 0, 0] @ word_bytes (st_size st)"

definition sys_fstat :: "'a file_state_scheme \<Rightarrow> stop + (i32 run \<times> 'a file_state_scheme)" where
  "sys_fstat s =
     with_arg (argfd 0 s) (\<lambda>(_, f).
     with_arg (argptr 1 20 s) (\<lambda>p.
     bindE (myproc s) (\<lambda>me.
     bindE (filestat f s) (\<lambda>(r, s).
       case r of None \<Rightarrow> Inr (Done (- 1), s)
       | Some st \<Rightarrow> bindE (vstore (pgdir (procs s ! me)) p (stat_bytes st) s) (\<lambda>s. Inr (Done 0, s))))) s) s"

section \<open>Links and directories\<close>

text \<open>\<open>end_op(); return r;\<close>\<close>

definition end_with :: "i32 \<Rightarrow> 'a log_state_scheme \<Rightarrow> stop + (i32 run \<times> 'a log_state_scheme)" where
  "end_with r s = bindE (end_op s) (\<lambda>s. Inr (Done r, s))"

definition link_bad :: "nat \<Rightarrow> 'a fs_state_scheme \<Rightarrow> stop + (i32 run \<times> 'a fs_state_scheme)" where
  "link_bad ip s =
     bindE (ilock ip s) (\<lambda>s.
     bindE (iupdate ip (upd_inode ip (\<lambda>x. x\<lparr>inlink := inlink x - 1\<rparr>) s)) (\<lambda>s.
     bindE (iunlockput ip s) (end_with (- 1))))"

definition link_new :: "nat \<Rightarrow> bytes \<Rightarrow> 'a fs_state_scheme \<Rightarrow> stop + (i32 run \<times> 'a fs_state_scheme)" where
  "link_new ip new s =
     bindE (nameiparent new (replicate DIRSIZ 0) s) (\<lambda>((r, nm), s).
       case r of None \<Rightarrow> link_bad ip s
       | Some dp \<Rightarrow>
           bindE (ilock dp s) (\<lambda>s.
           bindE (if idev (inodes s ! dp) \<noteq> idev (inodes s ! ip) then Inr (- 1, s)
                  else dirlink dp nm (inum (inodes s ! ip)) s) (\<lambda>(r, s).
             if sint r < 0 then bindE (iunlockput dp s) (link_bad ip)
             else bindE (iunlockput dp s) (\<lambda>s. bindE (iput ip s) (end_with 0)))))"

definition sys_link :: "'a fs_state_scheme \<Rightarrow> stop + (i32 run \<times> 'a fs_state_scheme)" where
  "sys_link s =
     with_arg (argstr 0 s) (\<lambda>old.
     with_arg (argstr 1 s) (\<lambda>new.
     bindE (begin_op s) (\<lambda>s.
     bindE (namei old s) (\<lambda>(r, s).
       case r of None \<Rightarrow> end_with (- 1) s
       | Some ip \<Rightarrow>
           bindE (ilock ip s) (\<lambda>s.
             if itype (inodes s ! ip) = T_DIR then bindE (iunlockput ip s) (end_with (- 1))
             else
               bindE (iupdate ip (upd_inode ip (\<lambda>x. x\<lparr>inlink := inlink x + 1\<rparr>) s)) (\<lambda>s.
               bindE (iunlock ip s) (link_new ip new)))))) s) s"

fun empty_scan :: "nat \<Rightarrow> nat list \<Rightarrow> 'a fs_state_scheme \<Rightarrow> stop + (bool \<times> 'a fs_state_scheme)" where
  "empty_scan dp [] s = Inr (True, s)"
| "empty_scan dp (off # offs) s =
     bindE (readi (\<lambda>_. None) dp (of_nat off) 16 s) (\<lambda>((r, de), s).
       if r \<noteq> 16 then Inl (Panic ''isdirempty: readi'')
       else if de_inum de \<noteq> 0 then Inr (False, s)
       else empty_scan dp offs s)"

definition isdirempty :: "nat \<Rightarrow> 'a fs_state_scheme \<Rightarrow> stop + (bool \<times> 'a fs_state_scheme)" where
  "isdirempty dp s = empty_scan dp (drop 2 (dir_offs (unat (isize (inodes s ! dp))))) s"

definition unlink_bad :: "nat \<Rightarrow> 'a fs_state_scheme \<Rightarrow> stop + (i32 run \<times> 'a fs_state_scheme)" where
  "unlink_bad dp s = bindE (iunlockput dp s) (end_with (- 1))"

definition unlink_found :: "nat \<Rightarrow> nat \<Rightarrow> u32 \<Rightarrow> 'a fs_state_scheme \<Rightarrow> stop + (i32 run \<times> 'a fs_state_scheme)" where
  "unlink_found dp ip off s =
     bindE (ilock ip s) (\<lambda>s.
       if sint (inlink (inodes s ! ip)) < 1 then Inl (Panic ''unlink: nlink < 1'')
       else
         bindE (if itype (inodes s ! ip) = T_DIR then isdirempty ip s else Inr (True, s)) (\<lambda>(emp, s).
           if itype (inodes s ! ip) = T_DIR \<and> \<not> emp then bindE (iunlockput ip s) (unlink_bad dp)
           else
             bindE (writei (\<lambda>_. None) dp (replicate 16 0) off s) (\<lambda>(r, s).
               if r \<noteq> 16 then Inl (Panic ''unlink: writei'')
               else
                 bindE (if itype (inodes s ! ip) = T_DIR
                        then iupdate dp (upd_inode dp (\<lambda>x. x\<lparr>inlink := inlink x - 1\<rparr>) s) else Inr s) (\<lambda>s.
                 bindE (iunlockput dp s) (\<lambda>s.
                 bindE (iupdate ip (upd_inode ip (\<lambda>x. x\<lparr>inlink := inlink x - 1\<rparr>) s)) (\<lambda>s.
                 bindE (iunlockput ip s) (end_with 0)))))))"

definition sys_unlink :: "'a fs_state_scheme \<Rightarrow> stop + (i32 run \<times> 'a fs_state_scheme)" where
  "sys_unlink s =
     with_arg (argstr 0 s) (\<lambda>path.
     bindE (begin_op s) (\<lambda>s.
     bindE (nameiparent path (replicate DIRSIZ 0) s) (\<lambda>((r, nm), s).
       case r of None \<Rightarrow> end_with (- 1) s
       | Some dp \<Rightarrow>
           bindE (ilock dp s) (\<lambda>s.
             if namecmp nm [46, 0] = 0 \<or> namecmp nm [46, 46, 0] = 0 then unlink_bad dp s
             else
               bindE (dirlookup dp nm s) (\<lambda>(r, s).
                 case r of None \<Rightarrow> unlink_bad dp s | Some (ip, off) \<Rightarrow> unlink_found dp ip off s))))) s"

definition create :: "bytes \<Rightarrow> u16 \<Rightarrow> u16 \<Rightarrow> u16 \<Rightarrow> 'a fs_state_scheme \<Rightarrow> stop + (nat option \<times> 'a fs_state_scheme)" where
  "create path ty maj mnr s =
     bindE (nameiparent path (replicate DIRSIZ 0) s) (\<lambda>((r, nm), s).
     case r of None \<Rightarrow> Inr (None, s)
     | Some dp \<Rightarrow>
       bindE (ilock dp s) (\<lambda>s.
       bindE (dirlookup dp nm s) (\<lambda>(r, s).
       case r of
         Some (ip, _) \<Rightarrow>
           bindE (iunlockput dp s) (\<lambda>s.
           bindE (ilock ip s) (\<lambda>s.
             if ty = T_FILE \<and> itype (inodes s ! ip) = T_FILE then Inr (Some ip, s)
             else bindE (iunlockput ip s) (\<lambda>s. Inr (None, s))))
       | None \<Rightarrow>
           bindE (ialloc (idev (inodes s ! dp)) ty s) (\<lambda>(ip, s).
           bindE (ilock ip s) (\<lambda>s.
           bindE (iupdate ip (upd_inode ip (\<lambda>x. x\<lparr>imajor := maj, iminor := mnr, inlink := 1\<rparr>) s)) (\<lambda>s.
           bindE (if ty = T_DIR then
                    bindE (iupdate dp (upd_inode dp (\<lambda>x. x\<lparr>inlink := inlink x + 1\<rparr>) s)) (\<lambda>s.
                    bindE (dirlink ip [46, 0] (inum (inodes s ! ip)) s) (\<lambda>(r, s).
                      if sint r < 0 then Inl (Panic ''create dots'')
                      else bindE (dirlink ip [46, 46, 0] (inum (inodes s ! dp)) s) (\<lambda>(r, s).
                        if sint r < 0 then Inl (Panic ''create dots'') else Inr s)))
                  else Inr s) (\<lambda>s.
           bindE (dirlink dp nm (inum (inodes s ! ip)) s) (\<lambda>(r, s).
             if sint r < 0 then Inl (Panic ''create: dirlink'')
             else bindE (iunlockput dp s) (\<lambda>s. Inr (Some ip, s))))))))))"

text \<open>The two ways of \<open>sys_open\<close> to its inode, locked; \<open>None\<close> where it returns -1.\<close>

definition open_inode :: "bytes \<Rightarrow> i32 \<Rightarrow> 'a fs_state_scheme \<Rightarrow> stop + (nat option \<times> 'a fs_state_scheme)" where
  "open_inode path omode s =
     (if omode AND 0x200 \<noteq> 0 then create path T_FILE 0 0 s
      else
        bindE (namei path s) (\<lambda>(r, s).
          case r of None \<Rightarrow> Inr (None, s)
          | Some ip \<Rightarrow>
              bindE (ilock ip s) (\<lambda>s.
                if itype (inodes s ! ip) = T_DIR \<and> omode \<noteq> 0
                then bindE (iunlockput ip s) (\<lambda>s. Inr (None, s)) else Inr (Some ip, s))))"

definition sys_open :: "'a file_state_scheme \<Rightarrow> stop + (i32 run \<times> 'a file_state_scheme)" where
  "sys_open s =
     with_arg (argstr 0 s) (\<lambda>path.
     with_arg (argint 1 s) (\<lambda>omode.
     bindE (begin_op s) (\<lambda>s.
     bindE (open_inode path omode s) (\<lambda>(r, s).
       case r of None \<Rightarrow> end_with (- 1) s
       | Some ip \<Rightarrow>
           bindE (filealloc s) (\<lambda>(f, s).
             case f of None \<Rightarrow> bindE (iunlockput ip s) (end_with (- 1))
             | Some f \<Rightarrow>
                 bindE (fdalloc f s) (\<lambda>(fd, s).
                   case fd of
                     None \<Rightarrow> bindE (fileclose f s) (\<lambda>s. bindE (iunlockput ip s) (end_with (- 1)))
                   | Some fd \<Rightarrow>
                       bindE (iunlock ip s) (\<lambda>s.
                       bindE (end_op s) (\<lambda>s.
                       Inr (Done (of_nat fd), upd_file f (\<lambda>x. x\<lparr>ftype := FD_INODE, fip := ip, foff := 0,
                         readable := omode AND 1 = 0, writable := omode AND 1 \<noteq> 0 \<or> omode AND 2 \<noteq> 0\<rparr>) s)))))))) s) s"

definition create_put :: "nat option \<Rightarrow> 'a fs_state_scheme \<Rightarrow> stop + (i32 run \<times> 'a fs_state_scheme)" where
  "create_put r s =
     (case r of None \<Rightarrow> end_with (- 1) s | Some ip \<Rightarrow> bindE (iunlockput ip s) (end_with 0))"

definition sys_mkdir :: "'a fs_state_scheme \<Rightarrow> stop + (i32 run \<times> 'a fs_state_scheme)" where
  "sys_mkdir s =
     bindE (begin_op s) (\<lambda>s.
     bindE (argstr 0 s) (\<lambda>r.
       case r of None \<Rightarrow> end_with (- 1) s
       | Some path \<Rightarrow> bindE (create path T_DIR 0 0 s) (\<lambda>(r, s). create_put r s)))"

definition sys_mknod :: "'a fs_state_scheme \<Rightarrow> stop + (i32 run \<times> 'a fs_state_scheme)" where
  "sys_mknod s =
     bindE (begin_op s) (\<lambda>s.
     bindE (argstr 0 s) (\<lambda>r. case r of None \<Rightarrow> end_with (- 1) s | Some path \<Rightarrow>
     bindE (argint 1 s) (\<lambda>r. case r of None \<Rightarrow> end_with (- 1) s | Some maj \<Rightarrow>
     bindE (argint 2 s) (\<lambda>r. case r of None \<Rightarrow> end_with (- 1) s | Some mnr \<Rightarrow>
     bindE (create path T_DEV (ucast maj) (ucast mnr) s) (\<lambda>(r, s). create_put r s)))))"

definition sys_chdir :: "'a fs_state_scheme \<Rightarrow> stop + (i32 run \<times> 'a fs_state_scheme)" where
  "sys_chdir s =
     bindE (myproc s) (\<lambda>me.
     bindE (begin_op s) (\<lambda>s.
     bindE (argstr 0 s) (\<lambda>r. case r of None \<Rightarrow> end_with (- 1) s | Some path \<Rightarrow>
     bindE (namei path s) (\<lambda>(r, s).
       case r of None \<Rightarrow> end_with (- 1) s
       | Some ip \<Rightarrow>
           bindE (ilock ip s) (\<lambda>s.
             if itype (inodes s ! ip) \<noteq> T_DIR then bindE (iunlockput ip s) (end_with (- 1))
             else
               bindE (iunlock ip s) (\<lambda>s.
               bindE (case cwd (procs s ! me) of None \<Rightarrow> Inl (Fault ''chdir: cwd'') | Some d \<Rightarrow> iput d s) (\<lambda>s.
               bindE (end_op s) (\<lambda>s.
               bindE (share_cwd me ip s) (\<lambda>s.
               Inr (Done 0, upd_proc me (cwd_update (\<lambda>_. Some ip)) s)))))))))) "

section \<open>Exec and pipe\<close>

fun fetch_argv :: "u32 \<Rightarrow> nat \<Rightarrow> nat \<Rightarrow> 'a proc_state_scheme \<Rightarrow> stop + bytes list option" where
  "fetch_argv uargv i 0 s = Inr None"
| "fetch_argv uargv i (Suc n) s =
     bindE (fetchint (uargv + 4 * of_nat i) s) (\<lambda>r.
       case r of None \<Rightarrow> Inr None
       | Some a \<Rightarrow>
           if a = 0 then Inr (Some [])
           else
             bindE (fetchstr a s) (\<lambda>r.
               case r of None \<Rightarrow> Inr None
               | Some x \<Rightarrow>
                   bindE (fetch_argv uargv (Suc i) n s) (\<lambda>r. Inr (map_option ((#) x) r))))"

definition sys_exec :: "'a file_state_scheme devsw \<Rightarrow> 'a file_state_scheme \<Rightarrow> stop + (i32 run \<times> 'a file_state_scheme)" where
  "sys_exec dv s =
     with_arg (argstr 0 s) (\<lambda>path.
     with_arg (argint 1 s) (\<lambda>uargv.
     with_arg (fetch_argv uargv 0 32 s) (\<lambda>argv.
     as_done (exec dv path argv s)) s) s) s"

definition sys_pipe :: "'a file_state_scheme \<Rightarrow> stop + (i32 run \<times> 'a file_state_scheme)" where
  "sys_pipe s =
     with_arg (argptr 0 8 s) (\<lambda>fd.
     bindE (myproc s) (\<lambda>me.
     bindE (pipealloc s) (\<lambda>((r, rf, wf), s).
       if sint r < 0 then Inr (Done (- 1), s)
       else
         let bad = (\<lambda>s. bindE (fileclose rf s) (\<lambda>s. bindE (fileclose wf s) (\<lambda>s. Inr (Done (- 1), s)))) in
         bindE (fdalloc rf s) (\<lambda>(fd0, s).
           case fd0 of None \<Rightarrow> bad s
           | Some fd0 \<Rightarrow>
               bindE (fdalloc wf s) (\<lambda>(fd1, s).
                 case fd1 of None \<Rightarrow> bad (upd_proc me (ofile_update (\<lambda>fs. fs[fd0 := None])) s)
                 | Some fd1 \<Rightarrow>
                     bindE (vstore (pgdir (procs s ! me)) fd
                       (word_bytes (of_nat fd0) @ word_bytes (of_nat fd1)) s) (\<lambda>s. Inr (Done 0, s))))))) s"

definition sys_getcwdinum :: "'a fs_state_scheme \<Rightarrow> stop + (i32 run \<times> 'a fs_state_scheme)" where
  "sys_getcwdinum s = bindE (getcwdinum s) (\<lambda>n. Inr (Done n, s))"

end
