(* ===== verification/Xv6_Console.thy ===== *)
theory Xv6_Console
  imports Xv6_Sysfile
begin

text \<open>
  The console (\<open>console.c\<close>), the keyboard (\<open>kbd.c\<close>, \<open>kbd.h\<close>) and the screen: formatted output, the
  ring of input characters with line editing, and the device functions of the console.
\<close>

section \<open>State\<close>

abbreviation INPUT_BUF :: nat where "INPUT_BUF \<equiv> 128"
abbreviation (input) BACKSPACE :: i32 where "BACKSPACE \<equiv> 0x100"

text \<open>\<open>crt\<close> is the text memory of the screen, \<open>crtpos\<close> the cursor, \<open>uartout\<close> what the serial line sent.\<close>

record cons_state = kernel_state +
  conslocking :: bool
  panicked :: bool
  crt :: "u16 list"
  crtpos :: int
  uartout :: bytes
  inbuf :: bytes
  in_r :: u32
  in_w :: u32
  in_e :: u32

section \<open>Output\<close>

text \<open>The moves of \<open>memmove\<close> and \<open>memset\<close> on the screen, in rows of 80 characters.\<close>

definition scroll_up :: "int \<Rightarrow> u16 list \<Rightarrow> u16 list" where
  "scroll_up pos c =
     (let c = take (23 * 80) (drop 80 c) @ drop (23 * 80) c
      in take (nat pos) c @ replicate (24 * 80 - nat pos) 0 @ drop (24 * 80) c)"

definition cgaputc :: "i32 \<Rightarrow> 'a cons_state_scheme \<Rightarrow> stop + 'a cons_state_scheme" where
  "cgaputc c s =
     (let pos = crtpos s;
          cells = (if c = 10 \<or> c = BACKSPACE then crt s else (crt s)[nat pos := (ucast c AND 0xFF) OR 0x0700]);
          pos = (if c = 10 then pos + (80 - pos mod 80)
                 else if c = BACKSPACE then (if pos > 0 then pos - 1 else pos) else pos + 1)
      in if pos < 0 \<or> pos > 25 * 80 then Inl (Panic ''pos under/overflow'')
         else
           let scroll = pos div 80 \<ge> 24; pos = (if scroll then pos - 80 else pos);
               cells = (if scroll then scroll_up pos cells else cells)
           in Inr (s\<lparr>crtpos := pos, crt := cells[nat pos := 0x0720]\<rparr>))"

definition consputc :: "i32 \<Rightarrow> 'a cons_state_scheme \<Rightarrow> stop + 'a cons_state_scheme" where
  "consputc c s =
     (if panicked s then Inl (Spins ''consputc'')
      else cgaputc c (s\<lparr>uartout := uartout s @ (if c = BACKSPACE then [8, 32, 8] else [ucast c])\<rparr>))"

text \<open>
  \<open>printint\<close>: the digits of a number, lowest first, with \<open>do \<dots> while\<close>; they are put out last first.
\<close>

definition digits :: "nat \<Rightarrow> u8" where
  "digits d = (if d < 10 then of_nat (48 + d) else of_nat (87 + d))"

function digit_loop :: "nat \<Rightarrow> nat \<Rightarrow> bytes" where
  "digit_loop base x =
     digits (x mod base) # (if base < 2 \<or> x div base = 0 then [] else digit_loop base (x div base))"
  by pat_completeness auto
termination by (relation "measure (\<lambda>(base, x). x)") (auto simp: div_greater_zero_iff not_less)

declare digit_loop.simps [simp del]

definition printint :: "i32 \<Rightarrow> nat \<Rightarrow> bool \<Rightarrow> bytes" where
  "printint xx base sign =
     (let neg = sign \<and> sint xx < 0; x = (if neg then - xx else xx);
          buf = digit_loop base (unat x)
      in rev (if neg then buf @ [45] else buf))"

text \<open>
  \<open>cprintf\<close>: the characters of a format with its arguments. Reading an argument that was not
  passed is undefined.
\<close>

datatype carg = ArgInt u32 | ArgStr "bytes option"

fun cformat :: "bytes \<Rightarrow> carg list \<Rightarrow> stop + bytes" where
  "cformat [] as = Inr []"
| "cformat [c] as = Inr (if c = 37 then [] else [c])"
| "cformat (c # d # fmt) as =
     (if c \<noteq> 37 then bindE (cformat (d # fmt) as) (\<lambda>r. Inr (c # r))
      else if d = 100 then
        (case as of ArgInt w # as \<Rightarrow> bindE (cformat fmt as) (\<lambda>r. Inr (printint w 10 True @ r))
         | _ \<Rightarrow> Inl (Fault ''cprintf argument''))
      else if d = 120 \<or> d = 112 then
        (case as of ArgInt w # as \<Rightarrow> bindE (cformat fmt as) (\<lambda>r. Inr (printint w 16 False @ r))
         | _ \<Rightarrow> Inl (Fault ''cprintf argument''))
      else if d = 115 then
        (case as of
           ArgStr None # as \<Rightarrow> bindE (cformat fmt as) (\<lambda>r. Inr ([40, 110, 117, 108, 108, 41] @ r))
         | ArgStr (Some x) # as \<Rightarrow> bindE (cformat fmt as) (\<lambda>r. Inr (x @ r))
         | _ \<Rightarrow> Inl (Fault ''cprintf argument''))
      else if d = 37 then bindE (cformat fmt as) (\<lambda>r. Inr (37 # r))
      else bindE (cformat fmt as) (\<lambda>r. Inr (37 # d # r)))"

definition cprintf :: "bytes \<Rightarrow> carg list \<Rightarrow> 'a cons_state_scheme \<Rightarrow> stop + 'a cons_state_scheme" where
  "cprintf fmt as s =
     (let locking = conslocking s in
      bindE (lock_if locking L_cons s) (\<lambda>s.
      bindE (cformat fmt as) (\<lambda>cs.
      bindE (forE (\<lambda>c. consputc (ucast c)) cs s) (unlock_if locking L_cons))))"

section \<open>Input\<close>

text \<open>Erasing the line: back to the last newline or to the end of the last line handed over.\<close>

function kill_line :: "'a cons_state_scheme \<Rightarrow> stop + 'a cons_state_scheme" where
  "kill_line s =
     (if in_e s \<noteq> in_w s \<and> inbuf s ! (unat (in_e s - 1) mod INPUT_BUF) \<noteq> 10
      then (let u = s\<lparr>in_e := in_e s - 1\<rparr> in
            bindE (consputc BACKSPACE u) (\<lambda>t. kill_line (u\<lparr>crtpos := crtpos t, crt := crt t, uartout := uartout t\<rparr>)))
      else Inr s)"
  by pat_completeness auto
termination
proof (relation "measure (\<lambda>s. unat (in_e s - in_w s))")
  fix s u t :: "'a cons_state_scheme"
  assume h: "in_e s \<noteq> in_w s \<and> inbuf s ! (unat (in_e s - 1) mod INPUT_BUF) \<noteq> 10" "u = s\<lparr>in_e := in_e s - 1\<rparr>"
  have "unat (in_e s - in_w s - 1) < unat (in_e s - in_w s)"
    using h(1) by (intro measure_unat) simp
  then show "(u\<lparr>crtpos := crtpos t, crt := crt t, uartout := uartout t\<rparr>, s) \<in> measure (\<lambda>s. unat (in_e s - in_w s))"
    using h(2) by (simp add: algebra_simps)
qed simp

declare kill_line.simps [simp del]

text \<open>One character of \<open>consoleintr\<close>; the flag asks for the process listing.\<close>

definition cons_char :: "i32 \<Rightarrow> bool \<times> 'a cons_state_scheme \<Rightarrow> stop + (bool \<times> 'a cons_state_scheme)" where
  "cons_char c = (\<lambda>(dump, s).
     if c = 16 then Inr (True, s)
     else if c = 21 then bindE (kill_line s) (\<lambda>s. Inr (dump, s))
     else if c = 8 \<or> c = 0x7F then
       (if in_e s \<noteq> in_w s
        then bindE (consputc BACKSPACE (s\<lparr>in_e := in_e s - 1\<rparr>)) (\<lambda>s. Inr (dump, s))
        else Inr (dump, s))
     else if c \<noteq> 0 \<and> in_e s - in_r s < 128 then
       (let c = (if c = 13 then 10 else c);
            s = s\<lparr>inbuf := (inbuf s)[unat (in_e s) mod INPUT_BUF := ucast c], in_e := in_e s + 1\<rparr> in
        bindE (consputc c s) (\<lambda>s.
          if c = 10 \<or> c = 4 \<or> in_e s = in_r s + 128
          then bindE (wakeup ChInput (s\<lparr>in_w := in_e s\<rparr>)) (\<lambda>s. Inr (dump, s))
          else Inr (dump, s)))
     else Inr (dump, s))"

text \<open>The characters \<open>getc\<close> gives before it returns a negative value are a list.\<close>

definition consoleintr :: "i32 list \<Rightarrow> 'a cons_state_scheme \<Rightarrow> stop + (bool \<times> 'a cons_state_scheme)" where
  "consoleintr cs s =
     bindE (acquire L_cons s) (\<lambda>s.
     bindE (forE cons_char cs (False, s)) (\<lambda>(dump, s).
     bindE (release L_cons s) (\<lambda>s. Inr (dump, s))))"

text \<open>
  \<open>consoleread\<close>, with \<open>k\<close> characters still wanted of \<open>target\<close>; where no line is ready the process
  would sleep.
\<close>

fun consoleread_loop :: "nat \<Rightarrow> nat \<Rightarrow> 'a cons_state_scheme \<Rightarrow> stop + ((bool \<times> bytes) \<times> 'a cons_state_scheme)" where
  "consoleread_loop target 0 s = Inr ((True, []), s)"
| "consoleread_loop target (Suc k) s =
     (if in_r s = in_w s then
        bindE (myproc s) (\<lambda>me.
          if killed (procs s ! me) \<noteq> 0 then Inr ((False, []), s) else Inl (Sleeps ''consoleread''))
      else
        let c = inbuf s ! (unat (in_r s) mod INPUT_BUF); t = s\<lparr>in_r := in_r s + 1\<rparr> in
        if c = 4 then Inr ((True, []), if Suc k < target then s else t)
        else if c = 10 then Inr ((True, [c]), t)
        else bindE (consoleread_loop target k t) (\<lambda>((ok, cs), s). Inr ((ok, c # cs), s)))"

definition consoleread :: "nat \<Rightarrow> u32 \<Rightarrow> 'a cons_state_scheme \<Rightarrow> stop + ((i32 \<times> bytes) \<times> 'a cons_state_scheme)" where
  "consoleread ip n s =
     bindE (iunlock ip s) (\<lambda>s.
     bindE (acquire L_cons s) (\<lambda>s.
     bindE (consoleread_loop (unat n) (nat (sint n)) s) (\<lambda>((ok, cs), s).
     bindE (release L_cons s) (\<lambda>s.
     bindE (ilock ip s) (\<lambda>s.
     Inr ((if ok then of_nat (length cs) else - 1, cs), s))))))"

definition consolewrite :: "nat \<Rightarrow> bytes \<Rightarrow> 'a cons_state_scheme \<Rightarrow> stop + (i32 \<times> 'a cons_state_scheme)" where
  "consolewrite ip buf s =
     bindE (iunlock ip s) (\<lambda>s.
     bindE (acquire L_cons s) (\<lambda>s.
     bindE (forE (\<lambda>c. consputc (ucast c)) buf s) (\<lambda>s.
     bindE (release L_cons s) (\<lambda>s.
     bindE (ilock ip s) (\<lambda>s.
     Inr (of_nat (length buf), s))))))"

text \<open>The device table after \<open>consoleinit\<close>: only the console has functions.\<close>

definition devsw :: "'a cons_state_scheme devsw" where
  "devsw m = (if m = 1 then Some (consoleread, consolewrite) else None)"

definition consoleinit :: "'a cons_state_scheme \<Rightarrow> 'a cons_state_scheme" where
  "consoleinit s = s\<lparr>conslocking := True\<rparr>"

section \<open>The keyboard\<close>

text \<open>A C array with its leading entries and its designated ones; the rest is 0.\<close>

definition table :: "u32 list \<Rightarrow> (nat \<times> u32) list \<Rightarrow> nat \<Rightarrow> u32" where
  "table xs sp i = (case map_of sp i of Some v \<Rightarrow> v | None \<Rightarrow> if i < length xs then xs ! i else 0)"

definition shiftcode :: "nat \<Rightarrow> u32" where
  "shiftcode = table [] [(29, 2), (42, 1), (54, 1), (56, 4), (157, 2), (184, 4)]"

definition togglecode :: "nat \<Rightarrow> u32" where
  "togglecode = table [] [(58, 8), (69, 16), (70, 32)]"

definition normalmap :: "nat \<Rightarrow> u32" where
  "normalmap = table
    [0, 27, 49, 50, 51, 52, 53, 54, 55, 56, 57, 48, 45, 61, 8, 9,
     113, 119, 101, 114, 116, 121, 117, 105, 111, 112, 91, 93, 10, 0, 97, 115,
     100, 102, 103, 104, 106, 107, 108, 59, 39, 96, 0, 92, 122, 120, 99, 118,
     98, 110, 109, 44, 46, 47, 0, 42, 0, 32, 0, 0, 0, 0, 0, 0,
     0, 0, 0, 0, 0, 0, 0, 55, 56, 57, 45, 52, 53, 54, 43, 49,
     50, 51, 48, 46, 0, 0, 0, 0]
    [(156, 10), (181, 47), (200, 226), (208, 227), (201, 230), (209, 231),
     (203, 228), (205, 229), (151, 224), (207, 225), (210, 232), (211, 233)]"

definition shiftmap :: "nat \<Rightarrow> u32" where
  "shiftmap = table
    [0, 27, 33, 64, 35, 36, 37, 94, 38, 42, 40, 41, 95, 43, 8, 9,
     81, 87, 69, 82, 84, 89, 85, 73, 79, 80, 123, 125, 10, 0, 65, 83,
     68, 70, 71, 72, 74, 75, 76, 58, 34, 126, 0, 124, 90, 88, 67, 86,
     66, 78, 77, 60, 62, 63, 0, 42, 0, 32, 0, 0, 0, 0, 0, 0,
     0, 0, 0, 0, 0, 0, 0, 55, 56, 57, 45, 52, 53, 54, 43, 49,
     50, 51, 48, 46, 0, 0, 0, 0]
    [(156, 10), (181, 47), (200, 226), (208, 227), (201, 230), (209, 231),
     (203, 228), (205, 229), (151, 224), (207, 225), (210, 232), (211, 233)]"

definition ctlmap :: "nat \<Rightarrow> u32" where
  "ctlmap = table
    [0, 0, 0, 0, 0, 0, 0, 0, 0, 0, 0, 0, 0, 0, 0, 0,
     17, 23, 5, 18, 20, 25, 21, 9, 15, 16, 0, 0, 13, 0, 1, 19,
     4, 6, 7, 8, 10, 11, 12, 0, 0, 0, 0, 28, 26, 24, 3, 22,
     2, 14, 13, 0, 0, -17, 0, 0]
    [(156, 13), (181, -17), (200, 226), (208, 227), (201, 230), (209, 231),
     (203, 228), (205, 229), (151, 224), (207, 225), (210, 232), (211, 233)]"

text \<open>
  \<open>kbdgetc\<close> with the byte of the data port, if the controller has one, and the static \<open>shift\<close>.
\<close>

definition kbd_char :: "u32 \<Rightarrow> u32 \<Rightarrow> u32" where
  "kbd_char shift data =
     (let k = shift AND 3;
          c = (if k = 0 then normalmap else if k = 1 then shiftmap else ctlmap) (unat data)
      in if shift AND 8 \<noteq> 0 then
           (if 97 \<le> c \<and> c \<le> 122 then c - 32 else if 65 \<le> c \<and> c \<le> 90 then c + 32 else c)
         else c)"

definition kbdgetc :: "u32 option \<Rightarrow> u32 \<Rightarrow> i32 \<times> u32" where
  "kbdgetc port shift =
     (case port of None \<Rightarrow> (- 1, shift)
      | Some data \<Rightarrow>
          if data = 0xE0 then (0, shift OR 64)
          else if data AND 0x80 \<noteq> 0 then
            (let data = (if shift AND 64 \<noteq> 0 then data else data AND 0x7F)
             in (0, shift AND NOT (shiftcode (unat data) OR 64)))
          else
            let esc = shift AND 64 \<noteq> 0;
                data = (if esc then data OR 0x80 else data);
                shift = (if esc then shift AND NOT 64 else shift);
                shift = (shift OR shiftcode (unat data)) XOR togglecode (unat data)
            in (kbd_char shift data, shift))"

end
