(* ===== verification/Xv6_Procdump.thy ===== *)
theory Xv6_Procdump
  imports Xv6_Console Xv6_Gates
begin

text \<open>
  The listing of the processes that the console prints on control-P (\<open>procdump\<close> in \<open>proc.c\<close>), with the
  call stack of each process that sleeps.
\<close>

fun state_name :: "procstate \<Rightarrow> string" where
  "state_name UNUSED = ''unused''"
| "state_name EMBRYO = ''embryo''"
| "state_name SLEEPING = ''sleep ''"
| "state_name RUNNABLE = ''runble''"
| "state_name RUNNING = ''run   ''"
| "state_name ZOMBIE = ''zombie''"

definition code :: "string \<Rightarrow> bytes" where
  "code = map of_char"

text \<open>The frame pointer of a process that is not running is in its saved context, behind \<open>edi\<close>, \<open>esi\<close> and \<open>ebx\<close>.\<close>

definition dump_proc :: "proc \<Rightarrow> 'a cons_state_scheme \<Rightarrow> stop + 'a cons_state_scheme" where
  "dump_proc p s =
     (if state p = UNUSED then Inr s
      else
        bindE (cprintf (code ''%d %s %s'')
          [ArgInt (pid p), ArgStr (Some (code (state_name (state p)))), ArgStr (Some (cstr (arr (pname p)) 16))] s) (\<lambda>s.
        bindE (if state p = SLEEPING
               then forE (\<lambda>pc. cprintf (code '' %p'') [ArgInt pc])
                      (takeWhile (\<lambda>pc. pc \<noteq> 0) (getcallerpcs (ld32 (ctx p + 12) (mem s) + 8) (mem s))) s
               else Inr s)
          (cprintf (code [CHR 0x0A]) [])))"

definition procdump :: "'a cons_state_scheme \<Rightarrow> stop + 'a cons_state_scheme" where
  "procdump s = forE dump_proc (procs s) s"

text \<open>The end of \<open>consoleintr\<close>: the listing is printed after the lock of the console has been released.\<close>

definition console_interrupt :: "i32 list \<Rightarrow> 'a cons_state_scheme \<Rightarrow> stop + 'a cons_state_scheme" where
  "console_interrupt cs s = bindE (consoleintr cs s) (\<lambda>(dump, s). if dump then procdump s else Inr s)"

text \<open>
  \<open>panic\<close> (\<open>console.c\<close>): what it puts on the screen before it stops this processor for good and, through
  \<open>panicked\<close>, every other one that prints. \<open>v\<close> is the address of its argument on the stack.
\<close>

definition panic :: "u32 \<Rightarrow> bytes \<Rightarrow> u32 \<Rightarrow> 'a cons_state_scheme \<Rightarrow> stop + 'a cons_state_scheme" where
  "panic lapicid msg v s =
     bindE (cprintf (code ''lapicid %d: panic: '') [ArgInt lapicid] (s\<lparr>conslocking := False\<rparr>)) (\<lambda>s.
     bindE (cprintf msg [] s) (\<lambda>s.
     bindE (cprintf (code [CHR 0x0A]) [] s) (\<lambda>s.
     bindE (forE (\<lambda>pc. cprintf (code '' %p'') [ArgInt pc]) (getcallerpcs v (mem s)) s) (\<lambda>s.
     Inr (s\<lparr>panicked := True\<rparr>)))))"

end
