(* ===== verification/Xv6_Trap.thy ===== *)
theory Xv6_Trap
  imports Xv6_Procdump
begin

text \<open>
  Dispatch of system calls (\<open>syscall.c\<close>, \<open>syscall.h\<close>) and of traps (\<open>trap.c\<close>, \<open>traps.h\<close>).
\<close>

text \<open>A call that does not change the state.\<close>

definition pure_call :: "stop + i32 \<Rightarrow> 's \<Rightarrow> stop + (i32 run \<times> 's)" where
  "pure_call m s = bindE m (\<lambda>r. Inr (Done r, s))"

definition sys_exit :: "'a file_state_scheme \<Rightarrow> stop + (i32 run \<times> 'a file_state_scheme)" where
  "sys_exit s = bindE (exit s) (\<lambda>s. Inr (Asleep, s))"

text \<open>
  The table \<open>syscalls\<close>; \<open>junk\<close> is the indeterminate local of \<open>join\<close>. There are entries for 1 to 26.
\<close>

definition syscalls :: "nat option \<Rightarrow> int \<Rightarrow>
    ('a cons_state_scheme \<Rightarrow> stop + (i32 run \<times> 'a cons_state_scheme)) option" where
  "syscalls junk n =
     (if n = 1 then Some sys_fork
      else if n = 2 then Some sys_exit
      else if n = 3 then Some sys_wait
      else if n = 4 then Some sys_pipe
      else if n = 5 then Some (sys_read devsw)
      else if n = 6 then Some sys_kill
      else if n = 7 then Some (sys_exec devsw)
      else if n = 8 then Some sys_fstat
      else if n = 9 then Some sys_chdir
      else if n = 10 then Some sys_dup
      else if n = 11 then Some (\<lambda>s. pure_call (sys_getpid s) s)
      else if n = 12 then Some sys_sbrk
      else if n = 13 then Some sys_sleep
      else if n = 14 then Some sys_uptime
      else if n = 15 then Some sys_open
      else if n = 16 then Some (sys_write devsw)
      else if n = 17 then Some sys_mknod
      else if n = 18 then Some sys_unlink
      else if n = 19 then Some sys_link
      else if n = 20 then Some sys_mkdir
      else if n = 21 then Some sys_close
      else if n = 22 then Some sys_clone
      else if n = 23 then Some (sys_join junk)
      else if n = 24 then Some sys_tkill
      else if n = 25 then Some (\<lambda>s. pure_call (sys_gettid s) s)
      else if n = 26 then Some (\<lambda>s. pure_call (sys_getppid s) s)
      else None)"

definition set_eax :: "u32 \<Rightarrow> proc \<Rightarrow> proc" where
  "set_eax r p = p\<lparr>tf := (tf p)\<lparr>tf_eax := r\<rparr>\<rparr>"

text \<open>The result of a call that gave up the processor is stored when it goes on.\<close>

definition unknown_msg :: bytes where
  "unknown_msg = [37, 100, 32, 37, 115, 58, 32, 117, 110, 107, 110, 111, 119, 110, 32, 115, 121, 115, 32, 99,
     97, 108, 108, 32, 37, 100, 10]"

definition syscall :: "nat option \<Rightarrow> 'a cons_state_scheme \<Rightarrow> stop + (unit run \<times> 'a cons_state_scheme)" where
  "syscall junk s =
     bindE (myproc s) (\<lambda>me.
     let num = tf_eax (tf (procs s ! me)) in
       case syscalls junk (sint num) of
         Some f \<Rightarrow>
           bindE (f s) (\<lambda>(r, s).
             case r of Done x \<Rightarrow> Inr (Done (), upd_proc me (set_eax x) s) | Asleep \<Rightarrow> Inr (Asleep, s))
       | None \<Rightarrow>
           bindE (cprintf unknown_msg [ArgInt (pid (procs s ! me)),
             ArgStr (Some (cstr (arr (pname (procs s ! me))) 16)), ArgInt num] s) (\<lambda>s.
           Inr (Done (), upd_proc me (set_eax (- 1)) s)))"

text \<open>What a trap comes with besides its frame: the processor and what the devices have to say.\<close>

record trap_in =
  on_cpu :: nat
  kbd_in :: "i32 list"
  uart_in :: "i32 list"
  cr2 :: u32

definition exit_if_killed :: "bool \<Rightarrow> 'a cons_state_scheme \<Rightarrow> stop + (unit run \<times> 'a cons_state_scheme)" where
  "exit_if_killed user s =
     (case curproc s of None \<Rightarrow> Inr (Done (), s)
      | Some me \<Rightarrow>
          if user \<and> killed (procs s ! me) \<noteq> 0 then bindE (exit s) (\<lambda>s. Inr (Asleep, s))
          else Inr (Done (), s))"

definition timer_tick :: "nat \<Rightarrow> 'a proc_state_scheme \<Rightarrow> stop + 'a proc_state_scheme" where
  "timer_tick cpu s =
     (if cpu = 0 then
        bindE (acquire L_tick s) (\<lambda>s.
        bindE (wakeup ChTicks (s\<lparr>ticks := ticks s + 1\<rparr>)) (release L_tick))
      else Inr s)"

text \<open>The \<open>switch\<close> of \<open>trap\<close>.\<close>

definition trap_dispatch :: "trap_in \<Rightarrow> trapframe \<Rightarrow> 'a cons_state_scheme \<Rightarrow> stop + 'a cons_state_scheme" where
  "trap_dispatch ti f s =
     (let n = tf_trapno f in
      if n = 32 then timer_tick (on_cpu ti) s
      else if n = 46 then ideintr s
      else if n = 47 then Inr s
      else if n = 33 then console_interrupt (kbd_in ti) s
      else if n = 36 then console_interrupt (uart_in ti) s
      else if n = 39 \<or> n = 63 then
        cprintf (code (''cpu%d: spurious interrupt at %x:%x'' @ [CHR 0x0A]))
          [ArgInt (of_nat (on_cpu ti)), ArgInt (ucast (tf_cs f)), ArgInt (tf_eip f)] s
      else
        let in_kernel = bindE (cprintf (code (''unexpected trap %d from cpu %d eip %x (cr2=0x%x)'' @ [CHR 0x0A]))
              [ArgInt n, ArgInt (of_nat (on_cpu ti)), ArgInt (tf_eip f), ArgInt (cr2 ti)] s)
              (\<lambda>s. Inl (Panic ''trap''))
        in case curproc s of
             None \<Rightarrow> in_kernel
           | Some me \<Rightarrow>
               if tf_cs f AND 3 = 0 then in_kernel
               else
                 let p = procs s ! me in
                 bindE (cprintf (code (''pid %d %s: trap %d err %d on cpu %d eip 0x%x addr 0x%x--kill proc'' @ [CHR 0x0A]))
                   [ArgInt (pid p), ArgStr (Some (cstr (arr (pname p)) 16)), ArgInt n, ArgInt (tf_err f),
                    ArgInt (of_nat (on_cpu ti)), ArgInt (tf_eip f), ArgInt (cr2 ti)] s) (\<lambda>s.
                 Inr (upd_proc me (killed_update (\<lambda>_. 1)) s)))"

text \<open>
  \<open>trap\<close>, up to where it returns or gives up the processor; after the timer's \<open>yield\<close> the code goes
  on with \<open>trap_resume\<close>.
\<close>

definition trap_return :: "trapframe \<Rightarrow> 'a cons_state_scheme \<Rightarrow> stop + (unit run \<times> 'a cons_state_scheme)" where
  "trap_return f s =
     (case curproc s of
        Some me \<Rightarrow>
          if state (procs s ! me) = RUNNING \<and> tf_trapno f = 32
          then bindE (yield_enter s) (\<lambda>s. Inr (Asleep, s)) else Inr (Done (), s)
      | None \<Rightarrow> Inr (Done (), s))"

definition trap_resume :: "trapframe \<Rightarrow> 'a cons_state_scheme \<Rightarrow> stop + (unit run \<times> 'a cons_state_scheme)" where
  "trap_resume f s = bindE (yield_leave s) (exit_if_killed (tf_cs f AND 3 = 3))"

definition trap :: "nat option \<Rightarrow> trap_in \<Rightarrow> trapframe \<Rightarrow> 'a cons_state_scheme \<Rightarrow>
    stop + (unit run \<times> 'a cons_state_scheme)" where
  "trap junk ti f s =
     (if tf_trapno f = 64 then
        bindE (myproc s) (\<lambda>me.
          if killed (procs s ! me) \<noteq> 0 then bindE (exit s) (\<lambda>s. Inr (Asleep, s))
          else
            bindE (syscall junk (upd_proc me (tf_update (\<lambda>_. f)) s)) (\<lambda>(r, s).
              case r of Asleep \<Rightarrow> Inr (Asleep, s) | Done _ \<Rightarrow> exit_if_killed True s))
      else
        bindE (trap_dispatch ti f s) (\<lambda>s.
        bindE (exit_if_killed (tf_cs f AND 3 = 3) s) (\<lambda>(r, s).
          case r of Asleep \<Rightarrow> Inr (Asleep, s) | Done _ \<Rightarrow> trap_return f s)))"

end
