(* ===== verification/Xv6_TrapSpec.thy ===== *)
theory Xv6_TrapSpec
  imports Xv6_ForkSpec Xv6_ArgSpec Xv6_Trap
begin

text \<open>
  The kernel as a whole: every trap, whatever system call, interrupt or fault it is, keeps the tables
  of processes, open files and inodes well typed. One rule per routine, from the buffer cache up to
  \<open>trap\<close>, says that it leads from a typed state to a typed state.
\<close>

section \<open>The disk and the log\<close>

text \<open>What the types do not depend on.\<close>

lemma typed_fields [simp]:
  "file_typed (s\<lparr>disk := a1\<rparr>) = file_typed s" "file_typed (s\<lparr>ide_active := a2\<rparr>) = file_typed s"
  "file_typed (s\<lparr>ideerr := a3\<rparr>) = file_typed s" "file_typed (s\<lparr>dwrites := a4\<rparr>) = file_typed s"
  "file_typed (s\<lparr>idequeue := a5\<rparr>) = file_typed s" "file_typed (s\<lparr>bufs := a6\<rparr>) = file_typed s"
  "file_typed (s\<lparr>lh := a7\<rparr>) = file_typed s" "file_typed (s\<lparr>outstanding := a8\<rparr>) = file_typed s"
  "file_typed (s\<lparr>committing := a9\<rparr>) = file_typed s" "file_typed (s\<lparr>logdev := b1\<rparr>) = file_typed s"
  "file_typed (s\<lparr>logstart := b2\<rparr>) = file_typed s" "file_typed (s\<lparr>logsize := b3\<rparr>) = file_typed s"
  "file_typed (s\<lparr>sb := b4\<rparr>) = file_typed s" "file_typed (s\<lparr>ticks := b5\<rparr>) = file_typed s"
  "file_typed (upd_buf b f s) = file_typed s" "file_typed (upd_pipe q g s) = file_typed s"
  "file_typed (s\<lparr>inodes := map h (inodes s)\<rparr>) = file_typed s"
  by (simp_all add: file_typed_def typed_def upd_buf_def upd_pipe_def)

named_theorems typedI \<open>routines lead from typed states to typed states\<close>

lemmas [typedI] = wp_bind wp_if wp_option

lemma acquire_typed [typedI]: "file_typed s \<Longrightarrow> (\<And>t. file_typed t \<Longrightarrow> Q t) \<Longrightarrow> wp (acquire l s) Q"
  by (simp add: acquire_def)

lemma release_typed [typedI]: "file_typed s \<Longrightarrow> (\<And>t. file_typed t \<Longrightarrow> Q t) \<Longrightarrow> wp (release l s) Q"
  by (simp add: release_def)

lemma myproc_typedI [typedI]: "file_typed s \<Longrightarrow> (\<And>me. me < NPROC \<Longrightarrow> Q me) \<Longrightarrow> wp (myproc s) Q"
  by (rule myproc_typed)

lemma wakeup_typedI [typedI]: "file_typed s \<Longrightarrow> (\<And>t. file_typed t \<Longrightarrow> Q t) \<Longrightarrow> wp (wakeup ch s) Q"
  by (rule wp_mono [OF wakeup_typed])

lemma sleep_enter_typedI [typedI]: "file_typed s \<Longrightarrow> (\<And>t. file_typed t \<Longrightarrow> Q t) \<Longrightarrow> wp (sleep_enter ch l s) Q"
  by (rule wp_mono [OF sleep_enter_typed])

lemma sleep_leave_typed [typedI]: "file_typed s \<Longrightarrow> (\<And>t. file_typed t \<Longrightarrow> Q t) \<Longrightarrow> wp (sleep_leave l s) Q"
  unfolding sleep_leave_def Let_def by (auto intro!: typedI simp: file_typed_upd)

lemma forE_typed:
  assumes "file_typed s" and "\<And>x u. x \<in> set xs \<Longrightarrow> file_typed u \<Longrightarrow> wp (f x u) file_typed" and "\<And>t. file_typed t \<Longrightarrow> Q t"
  shows "wp (forE f xs s) Q"
  using assms by (rule wp_forE)

lemma acquiresleep_typed [typedI]:
  "file_typed s \<Longrightarrow> (\<And>r t. file_typed t \<Longrightarrow> Q (r, t)) \<Longrightarrow> wp (acquiresleep l lk s) Q"
  unfolding acquiresleep_def Let_def by (auto intro!: typedI)

lemma releasesleep_typed [typedI]:
  "file_typed s \<Longrightarrow> (\<And>r t. file_typed t \<Longrightarrow> Q (r, t)) \<Longrightarrow> wp (releasesleep l lk s) Q"
  unfolding releasesleep_def Let_def by (auto intro!: typedI)

lemma holdingsleep_typed [typedI]:
  "file_typed s \<Longrightarrow> (\<And>r t. file_typed t \<Longrightarrow> Q (r, t)) \<Longrightarrow> wp (holdingsleep l lk s) Q"
  unfolding holdingsleep_def Let_def by (auto intro!: typedI)

lemma idestart_typed [typedI]: "file_typed s \<Longrightarrow> (\<And>t. file_typed t \<Longrightarrow> Q t) \<Longrightarrow> wp (idestart q s) Q"
  unfolding idestart_def Let_def by (auto intro!: typedI)

lemma ide_complete_typed [simp]: "file_typed (ide_complete s) = file_typed s"
  by (simp add: ide_complete_def split: option.split idecmd.split)

lemma ideintr_typed [typedI]: "file_typed s \<Longrightarrow> (\<And>t. file_typed t \<Longrightarrow> Q t) \<Longrightarrow> wp (ideintr s) Q"
  unfolding ideintr_def Let_def by (auto intro!: typedI)

lemma ide_await_typed [typedI]: "file_typed s \<Longrightarrow> (\<And>t. file_typed t \<Longrightarrow> Q t) \<Longrightarrow> wp (ide_await n b s) Q"
  by (induction n arbitrary: s) (subst ide_await.simps; auto intro!: typedI)+

lemma ide_last_wp [typedI]: "(\<And>r. Q r) \<Longrightarrow> wp (ide_last n b bs) Q"
  by (simp add: wp_def)

lemma iderw_typed [typedI]: "file_typed s \<Longrightarrow> (\<And>t. file_typed t \<Longrightarrow> Q t) \<Longrightarrow> wp (iderw b s) Q"
  unfolding iderw_def Let_def by (auto intro!: typedI)

lemma ring_find_wp [typedI]: "(\<And>r. Q r) \<Longrightarrow> wp (ring_find nx P n b bs) Q"
  by (simp add: wp_def)

lemma lock_buf_typed [typedI]: "file_typed s \<Longrightarrow> (\<And>t. file_typed t \<Longrightarrow> Q t) \<Longrightarrow> wp (lock_buf b s) Q"
  unfolding lock_buf_def by (auto intro!: typedI)

lemma bget_typed [typedI]: "file_typed s \<Longrightarrow> (\<And>r t. file_typed t \<Longrightarrow> Q (r, t)) \<Longrightarrow> wp (bget dev n s) Q"
  unfolding bget_def by (auto intro!: typedI)

lemma bread_typed [typedI]: "file_typed s \<Longrightarrow> (\<And>r t. file_typed t \<Longrightarrow> Q (r, t)) \<Longrightarrow> wp (bread dev n s) Q"
  unfolding bread_def by (auto intro!: typedI)

lemma bwrite_typed [typedI]: "file_typed s \<Longrightarrow> (\<And>t. file_typed t \<Longrightarrow> Q t) \<Longrightarrow> wp (bwrite b s) Q"
  unfolding bwrite_def by (auto intro!: typedI)

lemma brelse_typed [typedI]: "file_typed s \<Longrightarrow> (\<And>t. file_typed t \<Longrightarrow> Q t) \<Longrightarrow> wp (brelse b s) Q"
  unfolding brelse_def Let_def by (auto intro!: typedI)

lemma readsb_typed [typedI]: "file_typed s \<Longrightarrow> (\<And>r t. file_typed t \<Longrightarrow> Q (r, t)) \<Longrightarrow> wp (readsb dev s) Q"
  unfolding readsb_def Let_def by (auto intro!: typedI)

lemma head_of_wp [typedI]: "(\<And>r. Q r) \<Longrightarrow> wp (head_of d) Q"
  by (simp add: wp_def)

lemma head_typed [typedI]:
  "file_typed s \<Longrightarrow> (\<And>t. file_typed t \<Longrightarrow> Q t) \<Longrightarrow> wp (read_head s) Q"
  "file_typed s \<Longrightarrow> (\<And>t. file_typed t \<Longrightarrow> Q t) \<Longrightarrow> wp (write_head s) Q"
  unfolding read_head_def write_head_def by (auto intro!: typedI)

lemma install_trans_typed [typedI]: "file_typed s \<Longrightarrow> (\<And>t. file_typed t \<Longrightarrow> Q t) \<Longrightarrow> wp (install_trans s) Q"
  unfolding install_trans_def install_one_def Let_def by (erule forE_typed) (auto intro!: typedI)

lemma write_log_typed [typedI]: "file_typed s \<Longrightarrow> (\<And>t. file_typed t \<Longrightarrow> Q t) \<Longrightarrow> wp (write_log s) Q"
  unfolding write_log_def log_one_def Let_def by (erule forE_typed) (auto intro!: typedI)

lemma initlog_typed [typedI]: "file_typed s \<Longrightarrow> (\<And>t. file_typed t \<Longrightarrow> Q t) \<Longrightarrow> wp (initlog dev s) Q"
  unfolding initlog_def recover_from_log_def by (auto intro!: typedI)

lemma commit_typed [typedI]: "file_typed s \<Longrightarrow> (\<And>t. file_typed t \<Longrightarrow> Q t) \<Longrightarrow> wp (commit s) Q"
  unfolding commit_def by (auto intro!: typedI)

lemma op_typed [typedI]:
  "file_typed s \<Longrightarrow> (\<And>t. file_typed t \<Longrightarrow> Q t) \<Longrightarrow> wp (begin_op s) Q"
  "file_typed s \<Longrightarrow> (\<And>t. file_typed t \<Longrightarrow> Q t) \<Longrightarrow> wp (end_op s) Q"
  unfolding begin_op_def end_op_def Let_def by (auto intro!: typedI)

lemma log_write_typed [typedI]: "file_typed s \<Longrightarrow> (\<And>t. file_typed t \<Longrightarrow> Q t) \<Longrightarrow> wp (log_write b s) Q"
  unfolding log_write_def Let_def by (auto intro!: typedI)

section \<open>The file system\<close>

lemma bzero_typed [typedI]: "file_typed s \<Longrightarrow> (\<And>t. file_typed t \<Longrightarrow> Q t) \<Longrightarrow> wp (bzero dev b s) Q"
  unfolding bzero_def by (auto intro!: typedI)

lemma balloc_typed [typedI]: "file_typed s \<Longrightarrow> (\<And>r t. file_typed t \<Longrightarrow> Q (r, t)) \<Longrightarrow> wp (balloc dev s) Q"
proof -
  assume s: "file_typed s" and Q: "\<And>r t. file_typed t \<Longrightarrow> Q (r, t)"
  have "wp (balloc_scan dev bs s) Q" if "file_typed s" for bs s
    using that by (induction bs arbitrary: s) (auto intro!: typedI Q)
  then show ?thesis using s by (simp add: balloc_def)
qed

lemma bfree_typed [typedI]: "file_typed s \<Longrightarrow> (\<And>t. file_typed t \<Longrightarrow> Q t) \<Longrightarrow> wp (bfree dev b s) Q"
  unfolding bfree_def Let_def by (auto intro!: typedI)

lemma iinit_typed [typedI]: "file_typed s \<Longrightarrow> (\<And>t. file_typed t \<Longrightarrow> Q t) \<Longrightarrow> wp (iinit dev s) Q"
  unfolding iinit_def Let_def by (auto intro!: typedI)

lemma find_inode: "find_slot P (inodes s) = Some i \<Longrightarrow> file_typed s \<Longrightarrow> i < NINODE"
  by (auto simp: file_typed_def dest: find_slot_length)

lemma find_file: "find_slot P (files s) = Some i \<Longrightarrow> file_typed s \<Longrightarrow> i < NFILE"
  by (auto simp: file_typed_def dest: find_slot_length)

lemma iget_typed [typedI]:
  "file_typed s \<Longrightarrow> (\<And>i t. i < NINODE \<Longrightarrow> file_typed t \<Longrightarrow> Q (i, t)) \<Longrightarrow> wp (iget dev n s) Q"
  unfolding iget_def by (auto intro!: typedI dest: find_inode)

lemma ialloc_typed [typedI]:
  "file_typed s \<Longrightarrow> (\<And>i t. i < NINODE \<Longrightarrow> file_typed t \<Longrightarrow> Q (i, t)) \<Longrightarrow> wp (ialloc dev ty s) Q"
proof -
  assume s: "file_typed s" and Q: "\<And>i t. i < NINODE \<Longrightarrow> file_typed t \<Longrightarrow> Q (i, t)"
  have "wp (ialloc_scan dev ty ns s) Q" if "file_typed s" for ns s
    using that by (induction ns arbitrary: s) (auto simp: Let_def intro!: typedI Q)
  then show ?thesis using s by (simp add: ialloc_def)
qed

lemma iupdate_typed [typedI]: "file_typed s \<Longrightarrow> (\<And>t. file_typed t \<Longrightarrow> Q t) \<Longrightarrow> wp (iupdate i s) Q"
  unfolding iupdate_def Let_def by (auto intro!: typedI)

lemma idup_typedI [typedI]:
  "file_typed s \<Longrightarrow> ptr_ok NINODE d \<Longrightarrow> (\<And>i t. i < NINODE \<Longrightarrow> file_typed t \<Longrightarrow> Q (Some i, t)) \<Longrightarrow> wp (idup d s) Q"
  unfolding idup_def by (auto intro!: typedI)

lemma inode_lock_typed [typedI]:
  "file_typed s \<Longrightarrow> (\<And>t. file_typed t \<Longrightarrow> Q t) \<Longrightarrow> wp (lock_inode i s) Q"
  "file_typed s \<Longrightarrow> (\<And>t. file_typed t \<Longrightarrow> Q t) \<Longrightarrow> wp (unlock_inode i s) Q"
  unfolding lock_inode_def unlock_inode_def by (auto intro!: typedI)

lemma ilock_typed [typedI]:
  "file_typed s \<Longrightarrow> (\<And>t. file_typed t \<Longrightarrow> Q t) \<Longrightarrow> wp (ilock i s) Q"
  "file_typed s \<Longrightarrow> (\<And>t. file_typed t \<Longrightarrow> Q t) \<Longrightarrow> wp (iunlock i s) Q"
  unfolding ilock_def iunlock_def Let_def by (auto intro!: typedI)

lemma bmap_typed [typedI]: "file_typed s \<Longrightarrow> (\<And>r t. file_typed t \<Longrightarrow> Q (r, t)) \<Longrightarrow> wp (bmap i n s) Q"
  unfolding bmap_def Let_def by (auto intro!: typedI)

lemma itrunc_typed [typedI]: "file_typed s \<Longrightarrow> (\<And>t. file_typed t \<Longrightarrow> Q t) \<Longrightarrow> wp (itrunc i s) Q"
  unfolding itrunc_def trunc_direct_def trunc_entry_def Let_def by (auto intro!: typedI forE_typed)

lemma iput_typed [typedI]:
  "file_typed s \<Longrightarrow> (\<And>t. file_typed t \<Longrightarrow> Q t) \<Longrightarrow> wp (iput i s) Q"
  "file_typed s \<Longrightarrow> (\<And>t. file_typed t \<Longrightarrow> Q t) \<Longrightarrow> wp (iunlockput i s) Q"
  unfolding iunlockput_def iput_def Let_def by (auto intro!: typedI)

lemma read_blocks_typed [typedI]:
  "file_typed s \<Longrightarrow> (\<And>r t. file_typed t \<Longrightarrow> Q (r, t)) \<Longrightarrow> wp (read_blocks i off n s) Q"
proof (induction n arbitrary: off s Q rule: less_induct)
  case (less n)
  show ?case
    using less.prems by (subst read_blocks.simps) (auto simp: Let_def intro!: typedI less.IH)
qed

lemma write_blocks_typed [typedI]:
  "file_typed s \<Longrightarrow> (\<And>r t. file_typed t \<Longrightarrow> Q (r, t)) \<Longrightarrow> wp (write_blocks i src off s) Q"
proof (induction "length src" arbitrary: src off s rule: less_induct)
  case less
  show ?case
    using less.prems by (subst write_blocks.simps) (auto simp: Let_def intro!: typedI less.hyps)
qed

text \<open>The functions of the devices keep the types.\<close>

definition devs_typed :: "'a file_state_scheme devsw \<Rightarrow> bool" where
  "devs_typed dv \<longleftrightarrow> (\<forall>m rd wr. dv m = Some (rd, wr) \<longrightarrow>
     (\<forall>i n s. file_typed s \<longrightarrow> wp (rd i n s) (\<lambda>(r, t). file_typed t)) \<and>
     (\<forall>i bs s. file_typed s \<longrightarrow> wp (wr i bs s) (\<lambda>(r, t). file_typed t)))"

lemma no_devs_typed [simp]: "devs_typed (\<lambda>_. None)"
  by (simp add: devs_typed_def)

lemma dev_typed:
  assumes "devs_typed dv" and "file_typed s"
  shows "(\<And>r t. file_typed t \<Longrightarrow> Q (r, t)) \<Longrightarrow> wp a Q \<Longrightarrow>
      wp (case dv m of None \<Rightarrow> a | Some (rd, wr) \<Rightarrow> rd i n s) Q"
    and "(\<And>r t. file_typed t \<Longrightarrow> R (r, t)) \<Longrightarrow> wp b R \<Longrightarrow>
      wp (case dv m of None \<Rightarrow> b | Some (rd, wr) \<Rightarrow> wr i bs s) R"
proof -
  have "wp (rd i n s) (\<lambda>(r, t). file_typed t)" "wp (wr i bs s) (\<lambda>(r, t). file_typed t)"
    if "dv m = Some (rd, wr)" for rd wr
    using that assms by (auto simp: devs_typed_def)
  then show "(\<And>r t. file_typed t \<Longrightarrow> Q (r, t)) \<Longrightarrow> wp a Q \<Longrightarrow>
      wp (case dv m of None \<Rightarrow> a | Some (rd, wr) \<Rightarrow> rd i n s) Q"
    and "(\<And>r t. file_typed t \<Longrightarrow> R (r, t)) \<Longrightarrow> wp b R \<Longrightarrow>
      wp (case dv m of None \<Rightarrow> b | Some (rd, wr) \<Rightarrow> wr i bs s) R"
    by (auto split: option.split elim!: wp_mono)
qed

lemma readi_typed [typedI]:
  assumes "file_typed s" and "devs_typed dv" and Q: "\<And>r d t. file_typed t \<Longrightarrow> Q ((r, d), t)"
  shows "wp (readi dv i off n s) Q"
proof -
  have "wp (case dv m of None \<Rightarrow> Inr ((- 1, []), s) | Some (rd, wr) \<Rightarrow> rd i n s) Q" for m
    using assms by (intro dev_typed(1)) auto
  then show ?thesis using assms(1) unfolding readi_def Let_def by (auto intro!: typedI Q)
qed

lemma writei_typed [typedI]:
  assumes "file_typed s" and "devs_typed dv" and Q: "\<And>r t. file_typed t \<Longrightarrow> Q (r, t)"
  shows "wp (writei dv i src off s) Q"
proof -
  have "wp (case dv m of None \<Rightarrow> Inr (- 1, s) | Some (rd, wr) \<Rightarrow> wr i src s) Q" for m
    using assms by (intro dev_typed(2)) auto
  then show ?thesis using assms(1) unfolding writei_def Let_def by (auto intro!: typedI Q)
qed

lemma dirlookup_typed [typedI]:
  "file_typed s \<Longrightarrow> (\<And>t. file_typed t \<Longrightarrow> Q (None, t)) \<Longrightarrow>
   (\<And>j off t. j < NINODE \<Longrightarrow> file_typed t \<Longrightarrow> Q (Some (j, off), t)) \<Longrightarrow> wp (dirlookup i nm s) Q"
proof -
  assume s: "file_typed s" and Q: "\<And>t. file_typed t \<Longrightarrow> Q (None, t)"
    "\<And>j off t. j < NINODE \<Longrightarrow> file_typed t \<Longrightarrow> Q (Some (j, off), t)"
  have "wp (dir_scan i nm offs s) Q" if "file_typed s" for offs s
    using that by (induction offs arbitrary: s) (auto intro!: typedI Q)
  then show ?thesis using s by (simp add: dirlookup_def)
qed

lemma dir_free_typed [typedI]:
  "file_typed s \<Longrightarrow> (\<And>off d t. file_typed t \<Longrightarrow> Q ((off, d), t)) \<Longrightarrow> wp (dir_free i de e offs s) Q"
  by (induction offs arbitrary: de s) (auto intro!: typedI)

lemma dirlink_typed [typedI]:
  "file_typed s \<Longrightarrow> (\<And>r t. file_typed t \<Longrightarrow> Q (r, t)) \<Longrightarrow> wp (dirlink i nm n s) Q"
  unfolding dirlink_def Let_def by (auto intro!: typedI)

lemma namex_loop_typed:
  "file_typed s \<Longrightarrow> i < NINODE \<Longrightarrow> (\<And>r nm t. ptr_ok NINODE r \<Longrightarrow> file_typed t \<Longrightarrow> Q ((r, nm), t)) \<Longrightarrow>
   wp (namex_loop i path par nm s) Q"
proof (induction "length path" arbitrary: i path nm s rule: less_induct)
  case less
  show ?case
    using less.prems
    by (subst namex_loop.simps) (auto intro!: typedI less.hyps split: option.split dest: skipelem_shorter)
qed

lemma namex_typed [typedI]:
  "file_typed s \<Longrightarrow> (\<And>r nm t. ptr_ok NINODE r \<Longrightarrow> file_typed t \<Longrightarrow> Q ((r, nm), t)) \<Longrightarrow> wp (namex path par nm s) Q"
  unfolding namex_def by (auto intro!: typedI namex_loop_typed)

lemma namei_typed [typedI]:
  "file_typed s \<Longrightarrow> (\<And>r t. ptr_ok NINODE r \<Longrightarrow> file_typed t \<Longrightarrow> Q (r, t)) \<Longrightarrow> wp (namei path s) Q"
  unfolding namei_def by (auto intro!: typedI)

lemma nameiparent_typed [typedI]:
  "file_typed s \<Longrightarrow> (\<And>r nm t. ptr_ok NINODE r \<Longrightarrow> file_typed t \<Longrightarrow> Q ((r, nm), t)) \<Longrightarrow> wp (nameiparent path nm s) Q"
  unfolding nameiparent_def by (rule namex_typed)

section \<open>Open files and pipes\<close>

lemma filealloc_typed [typedI]:
  "file_typed s \<Longrightarrow> (\<And>r t. ptr_ok NFILE r \<Longrightarrow> file_typed t \<Longrightarrow> Q (r, t)) \<Longrightarrow> wp (filealloc s) Q"
  unfolding filealloc_def by (auto intro!: typedI file_typed_upd_file dest: find_file)

lemma filedup_typedI [typedI]: "file_typed s \<Longrightarrow> (\<And>t. file_typed t \<Longrightarrow> Q t) \<Longrightarrow> wp (filedup f s) Q"
  by (rule wp_mono [OF filedup_typed])

lemma kmem_typed [typedI]:
  assumes "file_typed s"
  shows "(\<And>t. file_typed t \<Longrightarrow> Q t) \<Longrightarrow> wp (kfree v s) Q"
    and "(\<And>t. file_typed t \<Longrightarrow> Q t) \<Longrightarrow> wp (freevm v s) Q"
    and "(\<And>r t. file_typed t \<Longrightarrow> R (r, t)) \<Longrightarrow> wp (kalloc s) R"
    and "(\<And>r t. file_typed t \<Longrightarrow> T (r, t)) \<Longrightarrow> wp (copyout pg va bs s) T"
    and "(\<And>r t. file_typed t \<Longrightarrow> R (r, t)) \<Longrightarrow> wp (walkpgdir pg va al s) R"
    and "(\<And>r t. file_typed t \<Longrightarrow> R (r, t)) \<Longrightarrow> wp (setupkvm s) R"
    and "(\<And>r t. file_typed t \<Longrightarrow> R (r, t)) \<Longrightarrow> wp (allocuvm pg old new s) R"
    and "(\<And>r t. file_typed t \<Longrightarrow> R (r, t)) \<Longrightarrow> wp (deallocuvm pg old new s) R"
  using file_typed_memory [OF assms]
  by (auto intro!: kfree_wp [OF only_memory_refl] freevm_wp [OF only_memory_refl] kalloc_wp [OF only_memory_refl]
      copyout_wp [OF only_memory_refl] walkpgdir_wp [OF only_memory_refl] setupkvm_wp [OF only_memory_refl]
      allocuvm_wp [OF only_memory_refl] deallocuvm_wp [OF only_memory_refl])

lemma pipeclose_typed [typedI]: "file_typed s \<Longrightarrow> (\<And>t. file_typed t \<Longrightarrow> Q t) \<Longrightarrow> wp (pipeclose p w s) Q"
  unfolding pipeclose_def by (auto intro!: typedI)

lemma pipewrite_loop_typed [typedI]:
  "file_typed s \<Longrightarrow> (\<And>r bs t. file_typed t \<Longrightarrow> Q ((r, bs), t)) \<Longrightarrow> wp (pipewrite_loop p n bs s) Q"
  by (induction bs arbitrary: s) (auto simp: Let_def intro!: typedI)

lemma piperead_locked_typed [typedI]:
  "file_typed s \<Longrightarrow> (\<And>r bs t. file_typed t \<Longrightarrow> Q ((r, bs), t)) \<Longrightarrow> wp (piperead_locked p n s) Q"
  unfolding piperead_locked_def Let_def by (auto intro!: typedI split: prod.split)

lemma pipe_typed [typedI]:
  "file_typed s \<Longrightarrow> (\<And>r bs t. file_typed t \<Longrightarrow> Q ((r, bs), t)) \<Longrightarrow> wp (pipewrite p bs s) Q"
  "file_typed s \<Longrightarrow> (\<And>r bs t. file_typed t \<Longrightarrow> Q ((r, bs), t)) \<Longrightarrow> wp (piperead p k s) Q"
  "file_typed s \<Longrightarrow> (\<And>r bs t. file_typed t \<Longrightarrow> Q ((r, bs), t)) \<Longrightarrow> wp (pipewrite_resume p n bs s) Q"
  "file_typed s \<Longrightarrow> (\<And>r bs t. file_typed t \<Longrightarrow> Q ((r, bs), t)) \<Longrightarrow> wp (piperead_resume p k s) Q"
  unfolding pipewrite_def piperead_def pipewrite_resume_def piperead_resume_def by (auto intro!: typedI)

lemma wp_fdtype [typedI]:
  "wp a Q \<Longrightarrow> wp b Q \<Longrightarrow> wp c Q \<Longrightarrow> wp (case x of FD_NONE \<Rightarrow> a | FD_PIPE \<Rightarrow> b | FD_INODE \<Rightarrow> c) Q"
  by (cases x) simp_all

lemma file_ok_closed [simp]: "file_ok (x\<lparr>ftype := FD_NONE\<rparr>)" "file_ok (x\<lparr>ftype := FD_PIPE\<rparr>)"
  by (simp_all add: file_ok_def)

lemma fileclose_typed [typedI]: "file_typed s \<Longrightarrow> (\<And>t. file_typed t \<Longrightarrow> Q t) \<Longrightarrow> wp (fileclose f s) Q"
  unfolding fileclose_def Let_def by (auto intro!: typedI file_typed_upd_file)

lemma pipealloc_typed [typedI]:
  "file_typed s \<Longrightarrow> (\<And>r t. file_typed t \<Longrightarrow> Q ((- 1, r), t)) \<Longrightarrow>
   (\<And>f g t. f < NFILE \<Longrightarrow> g < NFILE \<Longrightarrow> file_typed t \<Longrightarrow> Q ((0, f, g), t)) \<Longrightarrow> wp (pipealloc s) Q"
  unfolding pipealloc_def Let_def by (auto intro!: typedI simp: file_typed_upd_file)

lemma filestat_typed [typedI]: "file_typed s \<Longrightarrow> (\<And>r t. file_typed t \<Longrightarrow> Q (r, t)) \<Longrightarrow> wp (filestat f s) Q"
  unfolding filestat_def Let_def by (auto intro!: typedI)

lemma fileread_typed [typedI]:
  "file_typed s \<Longrightarrow> devs_typed dv \<Longrightarrow> (\<And>r d t. file_typed t \<Longrightarrow> Q ((r, d), t)) \<Longrightarrow> wp (fileread dv f n s) Q"
  unfolding fileread_def Let_def by (auto intro!: typedI file_typed_upd_file)

lemma filewrite_loop_typed [typedI]:
  "file_typed s \<Longrightarrow> devs_typed dv \<Longrightarrow> (\<And>r t. file_typed t \<Longrightarrow> Q (r, t)) \<Longrightarrow> wp (filewrite_loop dv f bs s) Q"
proof (induction "length bs" arbitrary: bs s rule: less_induct)
  case less
  show ?case
    using less.prems by (subst filewrite_loop.simps) (auto simp: Let_def intro!: typedI file_typed_upd_file less.hyps)
qed

lemma filewrite_typed [typedI]:
  "file_typed s \<Longrightarrow> devs_typed dv \<Longrightarrow> (\<And>r d t. file_typed t \<Longrightarrow> Q ((r, d), t)) \<Longrightarrow> wp (filewrite dv f bs s) Q"
  unfolding filewrite_def Let_def by (auto intro!: typedI)

section \<open>Exit\<close>

lemma clear_first_typed: "list_all (ptr_ok n) xs \<Longrightarrow> list_all (ptr_ok n) (clear_first me xs)"
  by (auto simp: clear_first_def list_all_update split: option.split)

lemma length_clear_first [simp]: "length (clear_first me xs) = length xs"
  by (simp add: clear_first_def split: option.split)

lemma proc_ok_unshare:
  "proc_ok p \<Longrightarrow> proc_ok (ofileshare_update (clear_first q) p)" "proc_ok p \<Longrightarrow> proc_ok (cwdshare_update (clear_first q) p)"
  "proc_ok p \<Longrightarrow> proc_ok (ofileshare_update (\<lambda>xs. xs[i := None]) p)"
  "proc_ok p \<Longrightarrow> proc_ok (cwdshare_update (\<lambda>xs. xs[i := None]) p)"
  "proc_ok p \<Longrightarrow> proc_ok (ofile_update (\<lambda>xs. xs[i := None]) p)"
  by (simp_all add: proc_ok_def clear_first_typed list_all_update)

lemma unshare_typed:
  "file_typed (snd bs) \<Longrightarrow> file_typed (snd (unshare_ofile me bs i))"
  "file_typed (snd bs) \<Longrightarrow> file_typed (snd (unshare_cwd me bs i))"
  by (auto simp: unshare_ofile_def unshare_cwd_def Let_def split: prod.split option.split
      intro!: file_typed_upd proc_ok_unshare)

lemma unshares_typed:
  "file_typed s \<Longrightarrow> file_typed (snd (foldl (unshare_ofile me) (b, s) is))"
  "file_typed s \<Longrightarrow> file_typed (snd (foldl (unshare_cwd me) (b, s) is))"
  by (rule foldl_inv [where P = "\<lambda>bs. file_typed (snd bs)"]; simp add: unshare_typed)+

lemma close_fd_typed: "file_typed s \<Longrightarrow> wp (close_fd me sh fd s) file_typed"
  unfolding close_fd_def by (auto intro!: typedI file_typed_upd proc_ok_unshare)

lemma sched_typedI [typedI]: "file_typed s \<Longrightarrow> (\<And>t. file_typed t \<Longrightarrow> Q t) \<Longrightarrow> wp (sched s) Q"
  by (rule wp_mono [OF sched_typed])

lemma exit_typed [typedI]: "file_typed s \<Longrightarrow> (\<And>t. file_typed t \<Longrightarrow> Q t) \<Longrightarrow> wp (exit s) Q"
  unfolding exit_def Let_def split_beta
  by (auto intro!: typedI forE_typed close_fd_typed unshares_typed file_typed_upd exit_notify_typed)

lemma typed_kernel_fields [simp]: "file_typed (s\<lparr>forkfirst := b\<rparr>) = file_typed s"
  by (simp add: file_typed_def typed_def)

lemma forkret_typed: "file_typed s \<Longrightarrow> wp (forkret s) file_typed"
  unfolding forkret_def by (auto intro!: typedI)

section \<open>System calls\<close>

lemma args_wp [typedI]:
  "(\<And>r. Q r) \<Longrightarrow> wp (argint n s) Q" "(\<And>r. R r) \<Longrightarrow> wp (argptr n len s) R" "(\<And>r. T r) \<Longrightarrow> wp (argstr n s) T"
  "(\<And>r. U r) \<Longrightarrow> wp (fetch_argv u i k s) U" "(\<And>r. V r) \<Longrightarrow> wp (vloads pg va k s) V" "(\<And>r. W r) \<Longrightarrow> wp (getcwdinum s) W"
  by (simp_all add: wp_def)

lemma argfd_typed [typedI]:
  "file_typed s \<Longrightarrow> Q None \<Longrightarrow> (\<And>fd f. fd < NOFILE \<Longrightarrow> f < NFILE \<Longrightarrow> Q (Some (fd, f))) \<Longrightarrow> wp (argfd n s) Q"
proof -
  assume s: "file_typed s" and Q: "Q None" "\<And>fd f. fd < NOFILE \<Longrightarrow> f < NFILE \<Longrightarrow> Q (Some (fd, f))"
  have "Q (map_option (\<lambda>f. (unat fd, f)) (ofile (procs s ! me) ! unat fd))"
    if "me < NPROC" "0 \<le> sint fd" "sint fd < int NOFILE" for me and fd :: i32
  proof -
    have "unat fd < NOFILE" using that sint_nonneg(1) [of fd] by simp
    then show ?thesis using Q file_typed_fd [OF _ s that(1)] by (cases "ofile (procs s ! me) ! unat fd") auto
  qed
  then show ?thesis unfolding argfd_def by (intro typedI) (simp_all add: s Q(1) not_less not_le)
qed

lemma with_arg_typed [typedI]:
  "wp m (\<lambda>r. case r of None \<Rightarrow> Q (Done (- 1), s) | Some x \<Rightarrow> wp (f x) Q) \<Longrightarrow> wp (with_arg m f s) Q"
  unfolding with_arg_def by (rule wp_bind, erule wp_mono) (simp split: option.splits)

lemma as_done_typed [typedI]: "wp m (\<lambda>(r, t). Q (Done r, t)) \<Longrightarrow> wp (as_done m) Q"
  unfolding as_done_def by (rule wp_bind, erule wp_mono) auto

text \<open>The walks over the sharers.\<close>

lemma share_walk_typed:
  "length ps = NPROC \<Longrightarrow> list_all proc_ok ps \<Longrightarrow> (\<And>p. proc_ok p \<Longrightarrow> proc_ok (put p)) \<Longrightarrow>
   wp (share_walk shr hit put st ps) (\<lambda>qs. length qs = NPROC \<and> list_all proc_ok qs)"
proof (induction shr hit put st ps rule: share_walk.induct)
  case (3 shr hit put c i "is" st ps)
  then show ?case by (auto simp: list_all_update list_all_nthD split: option.split)
qed simp_all

lemma run_walk_typed [typedI]:
  assumes "file_typed s" and "\<And>p. proc_ok p \<Longrightarrow> proc_ok (put p)" and "\<And>t. file_typed t \<Longrightarrow> Q t"
  shows "wp (run_walk shr hit put c s) Q"
  unfolding run_walk_def
proof (rule wp_bind, rule wp_mono [OF share_walk_typed])
  show "length (procs s) = NPROC" "list_all proc_ok (procs s)" using assms(1) by (simp_all add: file_typed_def typed_def)
next
  fix qs assume "length qs = NPROC \<and> list_all proc_ok qs"
  then have "file_typed (s\<lparr>procs := qs\<rparr>)" using assms(1) by (simp add: file_typed_def typed_def)
  then show "wp (Inr (s\<lparr>procs := qs\<rparr>)) Q" by (simp add: assms(3))
qed (rule assms(2))

lemma share_typed [typedI]:
  "file_typed s \<Longrightarrow> f < NFILE \<Longrightarrow> (\<And>t. file_typed t \<Longrightarrow> Q t) \<Longrightarrow> wp (ofileshareopen c f fd s) Q"
  "file_typed s \<Longrightarrow> (\<And>t. file_typed t \<Longrightarrow> Q t) \<Longrightarrow> wp (ofileshareclose c fd s) Q"
  "file_typed s \<Longrightarrow> i < NINODE \<Longrightarrow> (\<And>t. file_typed t \<Longrightarrow> Q t) \<Longrightarrow> wp (share_cwd c i s) Q"
  unfolding ofileshareopen_def ofileshareclose_def share_cwd_def
  by (auto intro!: typedI proc_ok_set_fd proc_ok_unshare)

lemma fdalloc_typed [typedI]:
  "file_typed s \<Longrightarrow> f < NFILE \<Longrightarrow> (\<And>r t. file_typed t \<Longrightarrow> Q (r, t)) \<Longrightarrow> wp (fdalloc f s) Q"
  unfolding fdalloc_def by (auto intro!: typedI file_typed_upd proc_ok_set_fd)

lemma switchuvm_typed [typedI]: "file_typed s \<Longrightarrow> (\<And>t. file_typed t \<Longrightarrow> Q t) \<Longrightarrow> wp (switchuvm p s) Q"
proof -
  assume "file_typed s" and Q: "\<And>t. file_typed t \<Longrightarrow> Q t"
  then have "file_typed (s\<lparr>esp0 := e, cr3 := c\<rparr>)" for e c by (simp add: file_typed_def typed_def)
  then show ?thesis unfolding switchuvm_def Let_def by (auto intro!: typedI Q)
qed

text \<open>The calls of \<open>sysproc.c\<close>.\<close>

lemma growproc_typed [typedI]: "file_typed s \<Longrightarrow> (\<And>r t. file_typed t \<Longrightarrow> Q (r, t)) \<Longrightarrow> wp (growproc n s) Q"
  unfolding growproc_def Let_def by (auto intro!: typedI file_typed_upd)

lemma sys_proc_typed [typedI]:
  assumes "file_typed s" and Q: "\<And>r t. file_typed t \<Longrightarrow> Q (r, t)"
  shows "wp (sys_fork s) Q" and "wp (sys_clone s) Q" and "wp (sys_tkill s) Q" and "wp (sys_join junk s) Q"
    and "wp (sys_wait s) Q" and "wp (sys_kill s) Q" and "wp (sys_sbrk s) Q" and "wp (sys_sleep s) Q" and "wp (sys_uptime s) Q"
  unfolding sys_fork_def sys_clone_def sys_tkill_def sys_join_def sys_wait_def sys_kill_def sys_sbrk_def sys_sleep_def
    sys_uptime_def sleep_round_def Let_def
  using assms by (auto intro!: typedI wp_mono [OF fork_typed] wp_mono [OF clone_typed] wp_mono [OF tkill_typed]
      wp_mono [OF join_typed] wp_mono [OF wait_typed] wp_mono [OF kill_typed] split: option.split)

lemma sys_sleep_resume_typed [typedI]:
  "file_typed s \<Longrightarrow> (\<And>r t. file_typed t \<Longrightarrow> Q (r, t)) \<Longrightarrow> wp (sys_sleep_resume t0 n s) Q"
  unfolding sys_sleep_resume_def sleep_round_def by (auto intro!: typedI)

text \<open>\<open>exec\<close>.\<close>

lemma vstore_typed [typedI]: "file_typed s \<Longrightarrow> (\<And>t. file_typed t \<Longrightarrow> Q t) \<Longrightarrow> wp (vstore pg va bs s) Q"
  by (induction bs arbitrary: va s) (auto intro!: typedI split: option.split)

lemma load_pages_typed [typedI]:
  "file_typed s \<Longrightarrow> devs_typed dv \<Longrightarrow> (\<And>r t. file_typed t \<Longrightarrow> Q (r, t)) \<Longrightarrow> wp (load_pages dv pg a ip off len is s) Q"
  by (induction "is" arbitrary: s) (auto simp: Let_def intro!: typedI)

lemma load_segs_typed [typedI]:
  "file_typed s \<Longrightarrow> devs_typed dv \<Longrightarrow> (\<And>r t. file_typed t \<Longrightarrow> Q (r, t)) \<Longrightarrow> wp (load_segs dv ip pg n off len s) Q"
  by (induction n arbitrary: off len s) (auto simp: Let_def loaduvm_def intro!: typedI)

lemma push_args_typed [typedI]:
  "file_typed s \<Longrightarrow> (\<And>r t. file_typed t \<Longrightarrow> Q (r, t)) \<Longrightarrow> wp (push_args pg as n sp us s) Q"
  by (induction as arbitrary: n sp us s) (auto simp: Let_def intro!: typedI)

lemma clearpteu_typed [typedI]: "file_typed s \<Longrightarrow> (\<And>t. file_typed t \<Longrightarrow> Q t) \<Longrightarrow> wp (clearpteu pg va s) Q"
  unfolding clearpteu_def Let_def by (auto intro!: typedI)

lemma unshare_all_typed: "file_typed s \<Longrightarrow> file_typed (unshare_all me s)"
  unfolding unshare_all_def Let_def by (intro unshares_typed)

lemma exec_bad_typed [typedI]: "file_typed s \<Longrightarrow> (\<And>r t. file_typed t \<Longrightarrow> Q (r, t)) \<Longrightarrow> wp (exec_bad pg ip s) Q"
  unfolding exec_bad_def by (auto intro!: typedI)

lemma exec_typed [typedI]:
  "file_typed s \<Longrightarrow> devs_typed dv \<Longrightarrow> (\<And>r t. file_typed t \<Longrightarrow> Q (r, t)) \<Longrightarrow> wp (exec dv path argv s) Q"
  unfolding exec_def Let_def
  by (auto intro!: typedI unshare_all_typed file_typed_upd)

text \<open>The calls of \<open>sysfile.c\<close>.\<close>

lemma end_with_typed [typedI]: "file_typed s \<Longrightarrow> (\<And>r t. file_typed t \<Longrightarrow> Q (r, t)) \<Longrightarrow> wp (end_with r s) Q"
  unfolding end_with_def by (auto intro!: typedI)

lemma link_typed [typedI]:
  "file_typed s \<Longrightarrow> (\<And>r t. file_typed t \<Longrightarrow> Q (r, t)) \<Longrightarrow> wp (link_bad ip s) Q"
  "file_typed s \<Longrightarrow> (\<And>r t. file_typed t \<Longrightarrow> Q (r, t)) \<Longrightarrow> wp (link_new ip new s) Q"
  "file_typed s \<Longrightarrow> (\<And>r t. file_typed t \<Longrightarrow> Q (r, t)) \<Longrightarrow> wp (unlink_bad ip s) Q"
  unfolding link_new_def link_bad_def unlink_bad_def by (auto intro!: typedI)

lemma isdirempty_typed [typedI]: "file_typed s \<Longrightarrow> (\<And>r t. file_typed t \<Longrightarrow> Q (r, t)) \<Longrightarrow> wp (isdirempty dp s) Q"
proof -
  assume s: "file_typed s" and Q: "\<And>r t. file_typed t \<Longrightarrow> Q (r, t)"
  have "wp (empty_scan dp offs s) Q" if "file_typed s" for offs s
    using that by (induction offs arbitrary: s) (auto intro!: typedI Q)
  then show ?thesis using s by (simp add: isdirempty_def)
qed

lemma unlink_found_typed [typedI]:
  "file_typed s \<Longrightarrow> (\<And>r t. file_typed t \<Longrightarrow> Q (r, t)) \<Longrightarrow> wp (unlink_found dp ip off s) Q"
  unfolding unlink_found_def by (auto intro!: typedI)

lemma create_typed [typedI]:
  "file_typed s \<Longrightarrow> (\<And>r t. ptr_ok NINODE r \<Longrightarrow> file_typed t \<Longrightarrow> Q (r, t)) \<Longrightarrow> wp (create path ty maj mnr s) Q"
  unfolding create_def by (auto intro!: typedI)

lemma open_inode_typed [typedI]:
  "file_typed s \<Longrightarrow> (\<And>r t. ptr_ok NINODE r \<Longrightarrow> file_typed t \<Longrightarrow> Q (r, t)) \<Longrightarrow> wp (open_inode path m s) Q"
  unfolding open_inode_def by (auto intro!: typedI)

lemma create_put_typed [typedI]: "file_typed s \<Longrightarrow> (\<And>r t. file_typed t \<Longrightarrow> Q (r, t)) \<Longrightarrow> wp (create_put ip s) Q"
  unfolding create_put_def by (auto intro!: typedI)

lemma sys_fd_typed [typedI]:
  assumes "file_typed s" and "devs_typed dv" and Q: "\<And>r t. file_typed t \<Longrightarrow> Q (r, t)"
  shows "wp (sys_dup s) Q" and "wp (sys_read dv s) Q" and "wp (sys_write dv s) Q" and "wp (sys_close s) Q"
    and "wp (sys_fstat s) Q"
  unfolding sys_dup_def sys_read_def sys_write_def sys_close_def sys_fstat_def
  using assms by (auto intro!: typedI file_typed_upd proc_ok_unshare split: option.split)

lemma sys_open_typed [typedI]: "file_typed s \<Longrightarrow> (\<And>r t. file_typed t \<Longrightarrow> Q (r, t)) \<Longrightarrow> wp (sys_open s) Q"
  unfolding sys_open_def
  by (auto intro!: typedI split: option.split simp: file_ok_def file_typed_upd_file)

lemma sys_path_typed [typedI]:
  assumes "file_typed s" and Q: "\<And>r t. file_typed t \<Longrightarrow> Q (r, t)"
  shows "wp (sys_link s) Q" and "wp (sys_unlink s) Q" and "wp (sys_mkdir s) Q" and "wp (sys_mknod s) Q" and "wp (sys_chdir s) Q"
  unfolding sys_link_def sys_unlink_def sys_mkdir_def sys_mknod_def sys_chdir_def
  using assms by (auto intro!: typedI simp: file_typed_upd split: option.split)

lemma sys_exec_typed [typedI]:
  "file_typed s \<Longrightarrow> devs_typed dv \<Longrightarrow> (\<And>r t. file_typed t \<Longrightarrow> Q (r, t)) \<Longrightarrow> wp (sys_exec dv s) Q"
  unfolding sys_exec_def by (auto intro!: typedI split: option.split)

lemma sys_pipe_typed [typedI]: "file_typed s \<Longrightarrow> (\<And>r t. file_typed t \<Longrightarrow> Q (r, t)) \<Longrightarrow> wp (sys_pipe s) Q"
  unfolding sys_pipe_def Let_def
  by (auto intro!: typedI file_typed_upd proc_ok_unshare split: option.split)

section \<open>The console\<close>

lemma typed_cons_fields [simp]:
  "file_typed (s\<lparr>conslocking := a1\<rparr>) = file_typed s" "file_typed (s\<lparr>panicked := a2\<rparr>) = file_typed s"
  "file_typed (s\<lparr>crt := a3\<rparr>) = file_typed s" "file_typed (s\<lparr>crtpos := a4\<rparr>) = file_typed s"
  "file_typed (s\<lparr>uartout := a5\<rparr>) = file_typed s" "file_typed (s\<lparr>inbuf := a6\<rparr>) = file_typed s"
  "file_typed (s\<lparr>in_r := a7\<rparr>) = file_typed s" "file_typed (s\<lparr>in_w := a8\<rparr>) = file_typed s"
  "file_typed (s\<lparr>in_e := a9\<rparr>) = file_typed s"
  by (simp_all add: file_typed_def typed_def)

lemma consputc_typed [typedI]: "file_typed s \<Longrightarrow> (\<And>t. file_typed t \<Longrightarrow> Q t) \<Longrightarrow> wp (consputc c s) Q"
  unfolding consputc_def cgaputc_def Let_def by (auto intro!: typedI)

lemma lock_if_typed [typedI]:
  "file_typed s \<Longrightarrow> (\<And>t. file_typed t \<Longrightarrow> Q t) \<Longrightarrow> wp (lock_if b l s) Q"
  "file_typed s \<Longrightarrow> (\<And>t. file_typed t \<Longrightarrow> Q t) \<Longrightarrow> wp (unlock_if b l s) Q"
  unfolding lock_if_def unlock_if_def by (auto intro!: typedI)

lemma cformat_wp [typedI]: "(\<And>r. Q r) \<Longrightarrow> wp (cformat fmt as) Q"
  by (simp add: wp_def)

lemma cprintf_typed [typedI]: "file_typed s \<Longrightarrow> (\<And>t. file_typed t \<Longrightarrow> Q t) \<Longrightarrow> wp (cprintf fmt as s) Q"
  unfolding cprintf_def Let_def by (auto intro!: typedI forE_typed)

lemma kill_line_typed: "file_typed s \<Longrightarrow> wp (kill_line s) file_typed"
proof (induction s rule: kill_line.induct)
  case (1 s)
  let ?u = "s\<lparr>in_e := in_e s - 1\<rparr>"
  show ?case
  proof (cases "in_e s \<noteq> in_w s \<and> inbuf s ! (unat (in_e s - 1) mod INPUT_BUF) \<noteq> 10")
    case True
    show ?thesis
    proof (cases "consputc BACKSPACE ?u")
      case (Inr t)
      have "wp (kill_line (?u\<lparr>crtpos := crtpos t, crt := crt t, uartout := uartout t\<rparr>)) file_typed"
        using 1 by (intro "1.IH" [OF True refl Inr]) simp
      then show ?thesis using True Inr by (subst kill_line.simps) (simp add: Let_def)
    qed (use True in \<open>subst kill_line.simps, simp add: Let_def\<close>)
  qed (subst kill_line.simps, use 1 in auto)
qed

lemma cons_char_typed: "file_typed (snd ds) \<Longrightarrow> wp (cons_char c ds) (\<lambda>ds. file_typed (snd ds))"
  unfolding cons_char_def Let_def
  by (auto intro!: typedI wp_mono [OF kill_line_typed] split: prod.split)

lemma consoleintr_typed [typedI]:
  "file_typed s \<Longrightarrow> (\<And>d t. file_typed t \<Longrightarrow> Q (d, t)) \<Longrightarrow> wp (consoleintr cs s) Q"
  unfolding consoleintr_def
  by (auto intro!: typedI wp_forE [where I = "\<lambda>ds. file_typed (snd ds)"] cons_char_typed)

lemma consoleread_loop_typed [typedI]:
  "file_typed s \<Longrightarrow> (\<And>ok cs t. file_typed t \<Longrightarrow> Q ((ok, cs), t)) \<Longrightarrow> wp (consoleread_loop target k s) Q"
  by (induction k arbitrary: s Q) (auto simp: Let_def intro!: typedI)

lemma console_devs_typed: "devs_typed devsw"
  unfolding devs_typed_def devsw_def consoleread_def consolewrite_def
  by (auto intro!: typedI forE_typed split: if_splits)

lemma procdump_typed [typedI]: "file_typed s \<Longrightarrow> (\<And>t. file_typed t \<Longrightarrow> Q t) \<Longrightarrow> wp (procdump s) Q"
  unfolding procdump_def dump_proc_def by (erule forE_typed) (auto intro!: typedI forE_typed)

lemma console_interrupt_typed [typedI]:
  "file_typed s \<Longrightarrow> (\<And>t. file_typed t \<Longrightarrow> Q t) \<Longrightarrow> wp (console_interrupt cs s) Q"
  unfolding console_interrupt_def by (auto intro!: typedI)

section \<open>Traps\<close>

lemma wp_true: "wp m (\<lambda>x. True)"
  by (simp add: wp_def)

lemma syscalls_typed:
  assumes "syscalls junk n = Some f" and "file_typed s"
  shows "wp (f s) (\<lambda>(r, t). file_typed t)"
  using assms unfolding syscalls_def
  by (auto split: if_splits intro!: typedI console_devs_typed simp: pure_call_def sys_exit_def wp_true)

lemma set_eax_ok [simp]: "proc_ok (set_eax r p) = proc_ok p"
  by (simp add: set_eax_def)

lemma wp_run [typedI]:
  "(\<And>x. r = Done x \<Longrightarrow> wp (f x) Q) \<Longrightarrow> (r = Asleep \<Longrightarrow> wp b Q) \<Longrightarrow> wp (case r of Done x \<Rightarrow> f x | Asleep \<Rightarrow> b) Q"
  by (cases r) simp_all

lemma syscall_typed [typedI]:
  assumes "file_typed s" and Q: "\<And>r t. file_typed t \<Longrightarrow> Q (r, t)"
  shows "wp (syscall junk s) Q"
proof -
  have "wp (f s) (\<lambda>x. wp (case x of (Done x, s) \<Rightarrow> Inr (Done (), upd_proc me (set_eax x) s)
      | (Asleep, s) \<Rightarrow> Inr (Asleep, s)) Q)"
    if "syscalls junk n = Some f" for f n me
    by (rule wp_mono [OF syscalls_typed [OF that assms(1)]])
      (auto intro!: Q simp: file_typed_upd split: run.split)
  then show ?thesis unfolding syscall_def Let_def
    using assms(1) by (auto intro!: typedI Q simp: file_typed_upd)
qed

lemma exit_if_killed_typed [typedI]:
  "file_typed s \<Longrightarrow> (\<And>r t. file_typed t \<Longrightarrow> Q (r, t)) \<Longrightarrow> wp (exit_if_killed user s) Q"
  unfolding exit_if_killed_def by (auto intro!: typedI)

lemma timer_tick_typed [typedI]: "file_typed s \<Longrightarrow> (\<And>t. file_typed t \<Longrightarrow> Q t) \<Longrightarrow> wp (timer_tick cpu s) Q"
  unfolding timer_tick_def by (auto intro!: typedI)

lemma yield_typedI [typedI]:
  "file_typed s \<Longrightarrow> (\<And>t. file_typed t \<Longrightarrow> Q t) \<Longrightarrow> wp (yield_enter s) Q"
  "file_typed s \<Longrightarrow> (\<And>t. file_typed t \<Longrightarrow> Q t) \<Longrightarrow> wp (yield_leave s) Q"
  unfolding yield_leave_def by (auto intro!: typedI wp_mono [OF yield_typed])

lemma trap_dispatch_typed [typedI]:
  "file_typed s \<Longrightarrow> (\<And>t. file_typed t \<Longrightarrow> Q t) \<Longrightarrow> wp (trap_dispatch ti f s) Q"
  unfolding trap_dispatch_def Let_def by (auto intro!: typedI simp: file_typed_upd)

lemma trap_typed [typedI]:
  "file_typed s \<Longrightarrow> (\<And>r t. file_typed t \<Longrightarrow> Q (r, t)) \<Longrightarrow> wp (trap junk ti f s) Q"
  unfolding trap_def trap_return_def by (auto intro!: typedI simp: file_typed_upd)

text \<open>
  What the kernel does once it has started, in any order: a trap of the process that runs, the rest of
  a call that had put its process to sleep, and the switches of the scheduler. The uninitialised variable of
  \<open>join\<close> (\<open>junk\<close> in a trap, \<open>g\<close> when it goes on) is any value, pointer to a slot or not. A call that has to wait
  for the log, for a sleep lock or for input of the console stops the model there: the rest of such a call is not a step.
\<close>

inductive kstep :: "'a cons_state_scheme \<Rightarrow> 'a cons_state_scheme \<Rightarrow> bool" where
  Ktrap: "trap junk ti f s = Inr (r, t) \<Longrightarrow> kstep s t"
| Kresume: "trap_resume f s = Inr (r, t) \<Longrightarrow> kstep s t"
| Kforkret: "forkret s = Inr t \<Longrightarrow> kstep s t"
| Kwait: "wait_resume s = Inr (r, t) \<Longrightarrow> kstep s t"
| Kjoin: "join_resume i g s = Inr (r, t) \<Longrightarrow> kstep s t"
| Ksleep: "sys_sleep_resume t0 n s = Inr (r, t) \<Longrightarrow> kstep s t"
| Kpipewrite: "pipewrite_resume p n bs s = Inr (r, t) \<Longrightarrow> kstep s t"
| Kpiperead: "piperead_resume p k s = Inr (r, t) \<Longrightarrow> kstep s t"
| Krun: "i < NPROC \<Longrightarrow> scheduler_enter i s = Inr t \<Longrightarrow> kstep s t"
| Kleave: "kstep s (scheduler_leave s)"

lemma trap_resume_typed: "file_typed s \<Longrightarrow> wp (trap_resume f s) (\<lambda>(r, t). file_typed t)"
  unfolding trap_resume_def by (auto intro!: typedI)

lemma resume_typed:
  assumes "file_typed s"
  shows "wp (trap junk ti f s) (\<lambda>(r, t). file_typed t)"
    and "wp (sys_sleep_resume t0 n s) (\<lambda>(r, t). file_typed t)"
    and "wp (pipewrite_resume p w bs s) (\<lambda>(r, t). file_typed t)"
    and "wp (piperead_resume p k s) (\<lambda>(r, t). file_typed t)"
  using assms by (auto intro!: typedI)

lemma kstep_typed: "kstep s t \<Longrightarrow> file_typed s \<Longrightarrow> file_typed t"
  by (induction rule: kstep.induct)
    (auto dest: wpD [OF resume_typed(1)] wpD [OF resume_typed(2)] wpD [OF resume_typed(3)] wpD [OF resume_typed(4)]
      wpD [OF trap_resume_typed] wpD [OF forkret_typed] wpD [OF wait_resume_typed] wpD [OF join_resume_typed]
      wpD [OF switch_typed(1)] intro: switch_typed(2))

text \<open>
  C5. Whatever traps a running kernel takes (system calls with any arguments, interrupts, faults), and however its
  processes sleep, go on and are switched, every pointer that it follows from its tables of processes and open files
  stays inside the table it points into, and the arrays of a process keep their length. The pointer \<open>joinproc\<close>, which
  may be indeterminate, is never followed.
\<close>

theorem kernel_typed:
  assumes "kstep\<^sup>*\<^sup>* s t" and "file_typed s"
  shows "file_typed t"
  using assms by (induction rule: rtranclp_induct) (auto intro: kstep_typed)

section \<open>Faults\<close>

text \<open>Printing on the console touches the screen and the serial line only.\<close>

definition same_procs :: "'a cons_state_scheme \<Rightarrow> 'a cons_state_scheme \<Rightarrow> bool" where
  "same_procs s t \<longleftrightarrow> procs t = procs s \<and> curproc t = curproc s"

lemma consputc_procs: "same_procs z s \<Longrightarrow> wp (consputc c s) (same_procs z)"
  unfolding consputc_def cgaputc_def Let_def same_procs_def by (auto intro!: wp_if)

lemma cprintf_procs: "wp (cprintf fmt as s) (same_procs s)"
proof -
  have l: "same_procs s t \<Longrightarrow> wp (lock_if b l t) (same_procs s)" "same_procs s t \<Longrightarrow> wp (unlock_if b l t) (same_procs s)" for b l t
    unfolding lock_if_def unlock_if_def acquire_def release_def by (auto simp: same_procs_def intro!: wp_if)
  show ?thesis
    unfolding cprintf_def Let_def
    by (auto intro!: wp_bind wp_mono [OF l(1)] cformat_wp wp_forE [where I = "same_procs s"] consputc_procs l(2)
        simp: same_procs_def [of s s])
qed

lemma sched_state: "Q s \<Longrightarrow> wp (sched s) Q"
  unfolding sched_def myproc_def by (auto intro!: wp_if wp_bind wp_option)

lemma exit_zombie:
  assumes "file_typed s" and "curproc s = Some me"
  shows "wp (exit s) (\<lambda>t. state (procs t ! me) = ZOMBIE)"
proof -
  have me: "me < NPROC" using assms file_typed_me by blast
  have z: "state (procs (upd_proc me (state_update (\<lambda>_. ZOMBIE)) u) ! me) = ZOMBIE" if "file_typed u" for u :: "'a file_state_scheme"
    using that me by (simp add: upd_proc_def file_typed_def typed_def)
  show ?thesis
    unfolding exit_def Let_def split_beta
    by (rule wp_bind, rule myproc_wp)
      (use assms in \<open>auto intro!: typedI forE_typed close_fd_typed unshares_typed file_typed_upd exit_notify_typed
        sched_state z simp del: upd_proc_simps\<close>)
qed

text \<open>C13. A processor fault or an unknown interrupt does not get past the process it happens in: when \<open>trap\<close> comes back from one, it happened in user mode in a process, and that process has exited and given up the processor; in the kernel, or with no process, the machine stops.\<close>

theorem fault_contained:
  assumes "tf_trapno f \<notin> {32, 33, 36, 39, 46, 47, 63, 64}" and "tf_cs f AND 3 \<in> {0, 3}" and "file_typed s"
    and "trap junk ti f s = Inr (r, t)"
  shows "\<exists>me. curproc s = Some me \<and> tf_cs f AND 3 = 3 \<and> r = Asleep \<and> state (procs t ! me) = ZOMBIE"
proof -
  have n: "tf_trapno f \<noteq> 64" using assms(1) by simp
  obtain u where u: "trap_dispatch ti f s = Inr u"
    and rest: "bindE (exit_if_killed (tf_cs f AND 3 = 3) u) (\<lambda>(r, s).
        case r of Asleep \<Rightarrow> Inr (Asleep, s) | Done _ \<Rightarrow> trap_return f s) = Inr (r, t)"
    using assms(4) n by (auto simp: trap_def bindE_Inr_iff)
  have "wp (trap_dispatch ti f s) file_typed" using assms(3) by (auto intro!: typedI)
  then have typed: "file_typed u" using u by (rule wpD)
  obtain me fmt as v where me: "curproc s = Some me" "tf_cs f AND 3 \<noteq> 0"
    and c: "cprintf fmt as s = Inr v" and uv: "u = upd_proc me (killed_update (\<lambda>_. 1)) v"
    using u assms(1) by (auto simp: trap_dispatch_def Let_def bindE_Inr_iff split: option.splits if_splits)
  have v: "same_procs s v" using wpD [OF cprintf_procs c] .
  have cs: "tf_cs f AND 3 = 3" using me(2) assms(2) by simp
  have cur: "curproc u = Some me" using me(1) v by (simp add: uv same_procs_def upd_proc_def)
  have "me < length (procs v)" using typed cur file_typed_me [OF cur typed] by (simp add: uv upd_proc_def file_typed_def typed_def)
  then have "killed (procs u ! me) \<noteq> 0" by (simp add: uv upd_proc_def)
  then obtain w where w: "exit u = Inr w" and rt: "r = Asleep" "t = w"
    using rest cur cs by (auto simp: exit_if_killed_def bindE_Inr_iff)
  have "state (procs w ! me) = ZOMBIE" using wpD [OF exit_zombie [OF typed cur] w] .
  then show ?thesis using me(1) cs rt by simp
qed

text \<open>Printing with the cursor on the screen returns, and changes what the console shows and nothing else.\<close>

definition printed :: "'a cons_state_scheme \<Rightarrow> 'a cons_state_scheme \<Rightarrow> bool" where
  "printed s t \<longleftrightarrow> (\<exists>c p out. t = s\<lparr>uartout := out, crtpos := p, crt := c\<rparr> \<and> 0 \<le> p \<and> p < 24 * 80)"

lemma consputc_prints:
  assumes "printed z s" and "\<not> panicked z"
  shows "\<exists>t. consputc c s = Inr t \<and> printed z t"
proof -
  obtain cs p out where s: "s = z\<lparr>uartout := out, crtpos := p, crt := cs\<rparr>" and p: "0 \<le> p" "p < 1920"
    using assms(1) by (auto simp: printed_def)
  define q where "q = (if c = 10 then p + (80 - p mod 80) else if c = 0x100 then (if p > 0 then p - 1 else p) else p + 1)"
  have q: "0 \<le> q" "q \<le> 1920" using p by (auto simp: q_def split: if_splits) presburger+
  have r: "0 \<le> (if q div 80 \<ge> 24 then q - 80 else q) \<and> (if q div 80 \<ge> 24 then q - 80 else q) < 1920"
    using q by simp presburger
  have "\<exists>cs' out'. consputc c s = Inr (z\<lparr>uartout := out', crtpos := (if q div 80 \<ge> 24 then q - 80 else q), crt := cs'\<rparr>)"
    using q assms(2) by (auto simp: consputc_def cgaputc_def Let_def s q_def [symmetric])
  then obtain cs' out' where "consputc c s = Inr (z\<lparr>uartout := out', crtpos := (if q div 80 \<ge> 24 then q - 80 else q), crt := cs'\<rparr>)"
    by blast
  then show ?thesis unfolding printed_def using r by (intro exI conjI) (assumption, rule refl, auto)
qed

lemma forE_prints:
  assumes "printed z s" and "\<not> panicked z"
  shows "\<exists>t. forE (\<lambda>c. consputc (ucast c)) cs s = Inr t \<and> printed z t"
  using assms(1)
proof (induction cs arbitrary: s)
  case (Cons c cs)
  then show ?case using consputc_prints [OF Cons.prems assms(2), of "ucast c"] by auto
qed simp

lemma cprintf_prints:
  assumes "\<not> panicked s" and "0 \<le> crtpos s" "crtpos s < 24 * 80" and "L_cons \<notin> set (held s)"
    and "cformat fmt as = Inr cs"
  shows "\<exists>t. cprintf fmt as s = Inr t \<and> printed s t"
proof -
  define u where "u = (if conslocking s then s\<lparr>held := L_cons # held s\<rparr> else s)"
  have "printed u u" using assms(2,3) by (auto simp: printed_def u_def intro!: exI [where x = "crtpos s"] exI [where x = "crt s"] exI [where x = "uartout s"])
  moreover have "\<not> panicked u" using assms(1) by (simp add: u_def)
  ultimately obtain t where t: "forE (\<lambda>c. consputc (ucast c)) cs u = Inr t" "printed u t"
    using forE_prints by blast
  have lock: "lock_if (conslocking s) L_cons s = Inr u" using assms(4) by (simp add: lock_if_def acquire_def u_def)
  obtain c p out where tt: "t = u\<lparr>uartout := out, crtpos := p, crt := c\<rparr>" and p: "0 \<le> p" "p < 24 * 80"
    using t(2) unfolding printed_def by blast
  define v where "v = s\<lparr>uartout := out, crtpos := p, crt := c\<rparr>"
  have v: "unlock_if (conslocking s) L_cons t = Inr v"
    unfolding tt u_def v_def by (cases s) (simp add: unlock_if_def release_def)
  have "printed s v" unfolding printed_def v_def using p by blast
  have "cprintf fmt as s = Inr v"
    unfolding cprintf_def Let_def lock assms(5) by (simp add: t(1) v)
  then show ?thesis using \<open>printed s v\<close> by blast
qed

text \<open>A process that shares nothing and has only its directory open: its first fault.\<close>

definition machine8 :: cons_state where
  "machine8 = \<comment> \<open>init in slot 0, a process that runs in slot 1\<close>
    \<lparr>held = [], mem = (\<lambda>_. 7), freelist = 0x80100000, use_lock = True, kend = 0x80100000,
     kpgdir = 0, kdata = 0x80108000, cr3 = 0,
     procs = proc0\<lparr>state := SLEEPING, pid := 1\<rparr> #
       proc0\<lparr>state := RUNNING, pid := 2, parent := Some 0, pgdir := 0x80002000, sz := 4096, cwd := Some 0\<rparr> #
       replicate 62 proc0,
     nextpid = 3, curproc = Some 1, initproc = Some 0,
     esp0 = 0, ticks = 0, ktrapret = 0, kforkret = 0, kinitcode = [],
     disk = (\<lambda>_ _. []), ide_active = None, ideerr = False, dwrites = [], idequeue = None,
     havedisk1 = False, bufs = [],
     logstart = 2, logsize = 30, outstanding = 0, committing = False, logdev = 1, lh = [],
     sb = sb_of (replicate 512 0),
     inodes = replicate NINODE \<lparr>idev = 0, inum = 0, iref = 2, ilk = initsleeplock, ivalid = False, itype = 0,
       imajor = 0, iminor = 0, inlink = 0, isize = 0, iaddrs = replicate 13 0\<rparr>,
     files = replicate NFILE \<lparr>ftype = FD_NONE, fref = 0, readable = False, writable = False, fpipe = 0, fip = 0, foff = 0\<rparr>,
     pipes = (\<lambda>q. \<lparr>pdata = [], nread = 0, nwrite = 0, readopen = False, writeopen = False\<rparr>),
     forkfirst = False, conslocking = True, panicked = False, crt = replicate 2000 0, crtpos = 0,
     uartout = [], inbuf = replicate 128 0, in_r = 0, in_w = 0, in_e = 0\<rparr>"

lemma machine8_procs:
  "procs machine8 = proc0\<lparr>state := SLEEPING, pid := 1\<rparr> #
     proc0\<lparr>state := RUNNING, pid := 2, parent := Some 0, pgdir := 0x80002000, sz := 4096, cwd := Some 0\<rparr> # replicate 62 proc0"
  by (simp add: machine8_def)

lemma machine8_typed: "file_typed machine8"
proof -
  have "proc_ok proc0" by (simp add: proc_ok_def proc0_def list_all_length)
  then show ?thesis
    unfolding file_typed_def typed_def machine8_procs
    by (simp add: machine8_def list_all_iff file_ok_def proc_ok_def)
qed

lemma unshare_none:
  assumes "\<forall>i < NPROC. ofileshare (procs s ! me) ! i = None" and "\<forall>i < NPROC. cwdshare (procs s ! me) ! i = None"
  shows "foldl (unshare_ofile me) (False, s) [0..<NPROC] = (False, s)"
    and "foldl (unshare_cwd me) (False, s) [0..<NPROC] = (False, s)"
   by (rule foldl_inv [where P = "\<lambda>u. u = (False, s)"]; use assms in \<open>simp add: unshare_ofile_def unshare_cwd_def\<close>)+

lemma close_none:
  assumes "\<forall>i < NOFILE. ofile (procs s ! me) ! i = None"
  shows "forE (close_fd me b) [0..<NOFILE] s = Inr s"
proof -
  have "set xs \<subseteq> {..<NOFILE} \<Longrightarrow> forE (close_fd me b) xs s = Inr s" for xs
    using assms by (induction xs) (auto simp: close_fd_def)
  then show ?thesis by (simp add: atLeast0LessThan)
qed

lemma wakeup_free: "L_ptable \<notin> set (held s) \<Longrightarrow> wakeup ch s = Inr (wakeup1 ch s)"
  by (cases s) (simp add: wakeup_def acquire_def release_def wakeup1_def)

lemma exit_notify_frame:
  "curproc (exit_notify me s) = curproc s \<and> held (exit_notify me s) = held s
    \<and> length (procs (exit_notify me s)) = length (procs s)"
proof -
  have k: "curproc (wake_proc q s) = curproc s \<and> held (wake_proc q s) = held s \<and> length (procs (wake_proc q s)) = length (procs s)"
    for q and s :: "'c proc_state_scheme"
    by (simp add: wake_proc_def wakeup1_def split: option.split)
  have r: "curproc (reparent me s i) = curproc s \<and> held (reparent me s i) = held s \<and> length (procs (reparent me s i)) = length (procs s)"
    for i and s :: "'c proc_state_scheme"
    by (simp add: reparent_def Let_def k upd_proc_def)
  have f: "curproc (foldl (reparent me) s xs) = curproc s \<and> held (foldl (reparent me) s xs) = held s
      \<and> length (procs (foldl (reparent me) s xs)) = length (procs s)" for xs
    by (induction xs arbitrary: s) (simp_all add: r)
  have j: "curproc (snd (foldl (wake_joiner me) (b, s) xs)) = curproc s \<and> held (snd (foldl (wake_joiner me) (b, s) xs)) = held s
      \<and> length (procs (snd (foldl (wake_joiner me) (b, s) xs))) = length (procs s)" for b xs
    by (induction xs arbitrary: b s) (simp_all add: wake_joiner_def wakeup1_def upd_proc_def)
  show ?thesis
    using j [of False "[0..<NPROC]"]
    by (simp add: exit_notify_def Let_def split_beta k f kill_threads_def)
qed

lemma exit_returns:
  assumes "curproc s = Some me" and "initproc s \<noteq> Some me" and "me < length (procs s)" and "held s = []"
    and "\<forall>i < NPROC. ofileshare (procs s ! me) ! i = None" and "\<forall>i < NPROC. cwdshare (procs s ! me) ! i = None"
    and "\<forall>i < NOFILE. ofile (procs s ! me) ! i = None" and "cwd (procs s ! me) = Some d" and "d < length (inodes s)"
    and "\<not> slocked (ilk (inodes s ! d))" and "\<not> ivalid (inodes s ! d)"
    and "outstanding s = 0" and "\<not> committing s" and "lh s = []"
  shows "\<exists>t. exit s = Inr t"
proof -
  have b: "begin_op s = Inr (s\<lparr>outstanding := 1\<rparr>)"
    using assms by (simp add: begin_op_def acquire_def release_def)
  define u where "u = s\<lparr>outstanding := 1\<rparr>"
  have u: "curproc u = Some me" "held u = []" "inodes u = inodes s" "lh u = []" "\<not> committing u" "outstanding u = 1"
    "procs u = procs s" using assms by (simp_all add: u_def)
  have "\<exists>v. iput d u = Inr v \<and> curproc v = Some me \<and> held v = [] \<and> length (procs v) = length (procs s)
      \<and> lh v = [] \<and> \<not> committing v \<and> outstanding v = 1"
    using assms(3,9-11) u
    by (simp add: iput_def lock_inode_def unlock_inode_def acquiresleep_def releasesleep_def acquire_def release_def
        myproc_def Let_def wakeup_free wakeup1_def upd_inode_def)
  then obtain v where v: "iput d u = Inr v" "curproc v = Some me" "held v = []" "length (procs v) = length (procs s)"
      "lh v = []" "\<not> committing v" "outstanding v = 1" by blast
  have "\<exists>w. end_op v = Inr w \<and> curproc w = Some me \<and> held w = [] \<and> length (procs w) = length (procs s)"
    using v by (simp add: end_op_def acquire_def release_def Let_def commit_def wakeup_def wakeup1_def)
  then obtain w where w: "end_op v = Inr w" "curproc w = Some me" "held w = []" "length (procs w) = length (procs s)"
    by blast
  define x where "x = exit_notify me (upd_proc me (cwd_update (\<lambda>_. None)) w\<lparr>held := [L_ptable]\<rparr>)"
  have x: "curproc x = Some me" "held x = [L_ptable]" "length (procs x) = length (procs s)"
    using exit_notify_frame [of me "upd_proc me (cwd_update (\<lambda>_. None)) w\<lparr>held := [L_ptable]\<rparr>"] w
    by (simp_all add: x_def upd_proc_def)
  have "sched (upd_proc me (state_update (\<lambda>_. ZOMBIE)) x) = Inr (upd_proc me (state_update (\<lambda>_. ZOMBIE)) x)"
    using x assms(3) by (simp add: sched_def myproc_def holding_def upd_proc_def)
  then show ?thesis
    using assms(1,2,8) b [folded u_def] v(1) w(1,3) u(7)
    by (simp add: exit_def myproc_def Let_def unshare_none assms(5,6) close_none assms(7) acquire_def upd_proc_def x_def)
qed

definition pagefault :: trapframe where
  "pagefault = tf0\<lparr>tf_trapno := 14, tf_cs := 0x1B\<rparr>"

lemma pagefault_machine8:
  "\<exists>t. trap None \<lparr>on_cpu = 0, kbd_in = [], uart_in = [], cr2 = 8\<rparr> pagefault machine8 = Inr (Asleep, t)"
proof -
  define ti :: trap_in where "ti = \<lparr>on_cpu = 0, kbd_in = [], uart_in = [], cr2 = 8\<rparr>"
  define p where "p = procs machine8 ! 1"
  have c: "\<exists>cs. cformat (code (''pid %d %s: trap %d err %d on cpu %d eip 0x%x addr 0x%x--kill proc'' @ [CHR 0x0A]))
      [ArgInt a, ArgStr (Some b), ArgInt c, ArgInt d, ArgInt e, ArgInt f, ArgInt g] = Inr cs" for a b c d e f g
    by (simp add: code_def)
  have m: "\<not> panicked machine8" "crtpos machine8 = 0" "held machine8 = []" "curproc machine8 = Some 1" by (simp_all add: machine8_def)
  obtain t where t: "printed machine8 t" and d: "trap_dispatch ti pagefault machine8 = Inr (upd_proc 1 (killed_update (\<lambda>_. 1)) t)"
  proof -
    obtain cs where cs: "cformat (code (''pid %d %s: trap %d err %d on cpu %d eip 0x%x addr 0x%x--kill proc'' @ [CHR 0x0A]))
      [ArgInt (pid p), ArgStr (Some (cstr (arr (pname p)) 16)), ArgInt (tf_trapno pagefault), ArgInt (tf_err pagefault),
                    ArgInt (of_nat (on_cpu ti)), ArgInt (tf_eip pagefault), ArgInt (cr2 ti)] = Inr cs" using c by blast
    obtain t where "cprintf (code (''pid %d %s: trap %d err %d on cpu %d eip 0x%x addr 0x%x--kill proc'' @ [CHR 0x0A]))
      [ArgInt (pid p), ArgStr (Some (cstr (arr (pname p)) 16)), ArgInt (tf_trapno pagefault), ArgInt (tf_err pagefault),
                    ArgInt (of_nat (on_cpu ti)), ArgInt (tf_eip pagefault), ArgInt (cr2 ti)] machine8 = Inr t" "printed machine8 t"
      using cprintf_prints [OF m(1) _ _ _ cs] m by auto
    moreover have "tf_trapno pagefault = 14" "tf_cs pagefault AND 3 \<noteq> 0" by (simp_all add: pagefault_def)
    ultimately show thesis using m(4) by (intro that [of t]) (simp_all add: trap_dispatch_def Let_def p_def)
  qed
  define u where "u = upd_proc 1 (killed_update (\<lambda>_. 1)) t"
  have ex: "\<exists>v. exit u = Inr v"
  proof (rule exit_returns [where me = 1 and d = 0])
    have ps: "procs u ! 1 = proc0\<lparr>state := RUNNING, pid := 2, parent := Some 0, pgdir := 0x80002000, sz := 4096, cwd := Some 0, killed := 1\<rparr>"
      "length (procs u) = 64"
      using t by (auto simp: u_def upd_proc_def printed_def machine8_procs)
    show "1 < length (procs u)" "\<forall>i < NPROC. ofileshare (procs u ! 1) ! i = None" "\<forall>i < NPROC. cwdshare (procs u ! 1) ! i = None"
      "\<forall>i < NOFILE. ofile (procs u ! 1) ! i = None" "cwd (procs u ! 1) = Some 0"
      using ps by (simp_all add: proc0_def)
    show "curproc u = Some 1" "initproc u \<noteq> Some 1" "held u = []" "0 < length (inodes u)" "\<not> slocked (ilk (inodes u ! 0))"
      "\<not> ivalid (inodes u ! 0)" "outstanding u = 0" "\<not> committing u" "lh u = []"
      using t by (auto simp: u_def upd_proc_def printed_def machine8_def initsleeplock_def)
  qed
  then obtain v where v: "exit u = Inr v" by blast
  have "curproc u = Some 1" "killed (procs u ! 1) = 1"
    using t by (auto simp: u_def upd_proc_def printed_def machine8_def)
  then have "exit_if_killed True u = Inr (Asleep, v)" using v by (simp add: exit_if_killed_def)
  moreover have "tf_trapno pagefault \<noteq> 64" "tf_cs pagefault AND 3 = 3" by (simp_all add: pagefault_def)
  ultimately show ?thesis using d by (simp add: trap_def u_def ti_def)
qed

lemma fault_contained_witness:
  "\<exists>t. trap None \<lparr>on_cpu = 0, kbd_in = [], uart_in = [], cr2 = 8\<rparr> pagefault machine8 = Inr (Asleep, t)
    \<and> state (procs t ! 1) = ZOMBIE"
proof -
  obtain t where t: "trap None \<lparr>on_cpu = 0, kbd_in = [], uart_in = [], cr2 = 8\<rparr> pagefault machine8 = Inr (Asleep, t)"
    using pagefault_machine8 by blast
  have "tf_trapno pagefault \<notin> {32, 33, 36, 39, 46, 47, 63, 64}" "tf_cs pagefault AND 3 \<in> {0, 3}"
    by (simp_all add: pagefault_def)
  from fault_contained [OF this machine8_typed t] t show ?thesis by (auto simp: machine8_def)
qed

lemma kernel_typed_witness:
  "\<exists>t. trap None \<lparr>on_cpu = 0, kbd_in = [], uart_in = [], cr2 = 8\<rparr> pagefault machine8 = Inr (Asleep, t)
    \<and> file_typed t"
proof -
  obtain t where t: "trap None \<lparr>on_cpu = 0, kbd_in = [], uart_in = [], cr2 = 8\<rparr> pagefault machine8 = Inr (Asleep, t)"
    using pagefault_machine8 by blast
  then have "kstep machine8 t" by (rule kstep.Ktrap)
  then have "kstep\<^sup>*\<^sup>* machine8 t" by (rule r_into_rtranclp)
  from kernel_typed [OF this machine8_typed] t show ?thesis by blast
qed

end
