(* ===== verification/Xv6_Memide.thy ===== *)
theory Xv6_Memide
  imports Xv6_BioSpec
begin

text \<open>
  The driver of a disk in memory (\<open>memide.c\<close>), which can take the place of \<open>ide.c\<close>: the image of the
  file system is linked into the kernel and its blocks are copied. Both drivers are shown to keep the
  contract of the locale \<open>disk_driver\<close>, and to do the same for every list of requests.
\<close>

section \<open>The driver\<close>

text \<open>\<open>fs_img_start\<close> and \<open>fs_img_size\<close> are the linker's symbols \<open>_binary_fs_img_start\<close> and \<open>_size\<close>.\<close>

record memide_state = bio_state +
  memdisk :: u32
  disksize :: i32
  fs_img_start :: u32
  fs_img_size :: u32

definition ideinit_mem :: "'a memide_state_scheme \<Rightarrow> 'a memide_state_scheme" where
  "ideinit_mem s = s\<lparr>memdisk := fs_img_start s, disksize := fs_img_size s div of_nat BSIZE\<rparr>"

definition ideintr_mem :: "'a memide_state_scheme \<Rightarrow> stop + 'a memide_state_scheme" where
  "ideintr_mem s = Inr s"

definition load_bytes :: "u32 \<Rightarrow> nat \<Rightarrow> memory \<Rightarrow> bytes" where
  "load_bytes a n m = map (at m a) [0..<n]"

definition iderw_mem :: "nat \<Rightarrow> 'a memide_state_scheme \<Rightarrow> stop + 'a memide_state_scheme" where
  "iderw_mem b s =
     bindE (holdingsleep (L_buf b) (block (bufs s ! b)) s) (\<lambda>(h, s).
       if \<not> h then Inl (Panic ''iderw: buf not locked'')
       else if bvalid (bufs s ! b) \<and> \<not> bdirty (bufs s ! b) then Inl (Panic ''iderw: nothing to do'')
       else if bdev (bufs s ! b) \<noteq> 1 then Inl (Panic ''iderw: request not for disk 1'')
       else if blockno (bufs s ! b) \<ge> disksize s then Inl (Panic ''iderw: block out of range'')
       else
         let p = memdisk s + blockno (bufs s ! b) * of_nat BSIZE;
             s = (if bdirty (bufs s ! b)
                  then (upd_buf b (bdirty_update (\<lambda>_. False)) s)
                         \<lparr>mem := store_bytes p (bdata (bufs s ! b)) (mem s)\<rparr>
                  else upd_buf b (bdata_update (\<lambda>_. load_bytes p BSIZE (mem s))) s)
         in Inr (upd_buf b (bvalid_update (\<lambda>_. True)) s))"

section \<open>The contract of a disk driver\<close>

text \<open>
  What a request leaves of a buffer: what was dirty is on the disk, what was not valid has been read.
  \<open>blk\<close> gives the contents of the disk.
\<close>

definition served :: "(u32 \<Rightarrow> bytes) \<Rightarrow> bool \<times> bool \<times> u32 \<times> u32 \<times> bytes \<Rightarrow> bool \<times> bool \<times> u32 \<times> u32 \<times> bytes" where
  "served blk x = (case x of (v, d, dev, n, bs) \<Rightarrow> (True, False, dev, n, if d then bs else blk n))"

definition stored :: "bool \<times> bool \<times> u32 \<times> u32 \<times> bytes \<Rightarrow> (u32 \<Rightarrow> bytes) \<Rightarrow> u32 \<Rightarrow> bytes" where
  "stored x blk = (case x of (v, d, dev, n, bs) \<Rightarrow> if d then blk(n := bs) else blk)"

locale disk_driver =
  fixes rw :: "nat \<Rightarrow> 's \<Rightarrow> stop + 's"
    and buf_of :: "'s \<Rightarrow> nat \<Rightarrow> bool \<times> bool \<times> u32 \<times> u32 \<times> bytes"
    and blk :: "'s \<Rightarrow> u32 \<Rightarrow> bytes"
    and request :: "'s \<Rightarrow> nat \<Rightarrow> bool"
  assumes serves: "request s b \<Longrightarrow> \<exists>t. rw b s = Inr t \<and> buf_of t b = served (blk s) (buf_of s b)
      \<and> blk t = stored (buf_of s b) (blk s) \<and> (\<forall>c. c \<noteq> b \<longrightarrow> buf_of t c = buf_of s c)
      \<and> (\<forall>c. c \<noteq> b \<longrightarrow> request s c \<longrightarrow> request t c)"
begin

text \<open>A list of requests for different buffers is served, each on the disk its predecessors left.\<close>

fun disk_after :: "nat list \<Rightarrow> 's \<Rightarrow> u32 \<Rightarrow> bytes" where
  "disk_after [] s = blk s"
| "disk_after (b # bs) s = (case rw b s of Inl _ \<Rightarrow> blk s | Inr t \<Rightarrow> disk_after bs t)"

lemma all_served:
  assumes "distinct bs" and "\<forall>b \<in> set bs. request s b"
  shows "\<exists>t. forE rw bs s = Inr t \<and> blk t = disk_after bs s \<and> (\<forall>c. c \<notin> set bs \<longrightarrow> buf_of t c = buf_of s c)
    \<and> (\<forall>b \<in> set bs. fst (buf_of t b) \<and> \<not> fst (snd (buf_of t b)))"
  using assms
proof (induction bs arbitrary: s)
  case (Cons b bs)
  obtain u where u: "rw b s = Inr u" "buf_of u b = served (blk s) (buf_of s b)"
    "\<forall>c. c \<noteq> b \<longrightarrow> buf_of u c = buf_of s c" "\<forall>c. c \<noteq> b \<longrightarrow> request s c \<longrightarrow> request u c"
    using serves [of s b] Cons.prems(2) by auto
  have "\<forall>c \<in> set bs. request u c" using Cons.prems u(4) by auto
  then obtain t where t: "forE rw bs u = Inr t" "blk t = disk_after bs u"
    "\<forall>c. c \<notin> set bs \<longrightarrow> buf_of t c = buf_of u c" "\<forall>b \<in> set bs. fst (buf_of t b) \<and> \<not> fst (snd (buf_of t b))"
    using Cons.IH [of u] Cons.prems(1) by auto
  moreover have "fst (buf_of t b) \<and> \<not> fst (snd (buf_of t b))"
    using t(3) u(2) Cons.prems(1) by (simp add: served_def split: prod.splits)
  ultimately show ?case using u by auto
qed simp

text \<open>What is written through one buffer is read back through another.\<close>

lemma read_back:
  assumes "request s b" and "request s c" and "b \<noteq> c"
    and "buf_of s b = (v, True, dev, n, bs)" and "buf_of s c = (False, False, dev, n, cs)"
  shows "\<exists>t. forE rw [b, c] s = Inr t \<and> buf_of t c = (True, False, dev, n, bs)"
proof -
  obtain u where u: "rw b s = Inr u" "blk u = stored (buf_of s b) (blk s)" "buf_of u c = buf_of s c" "request u c"
    using serves [OF assms(1)] assms(2,3) by auto
  obtain t where "rw c u = Inr t" "buf_of t c = served (blk u) (buf_of u c)"
    using serves [OF u(4)] by auto
  then show ?thesis using u assms(4,5) by (simp add: served_def stored_def)
qed

end

text \<open>Two drivers on the same disk.\<close>

locale same_disk = one: disk_driver rw1 buf1 blk1 request1 + two: disk_driver rw2 buf2 blk2 request2
  for rw1 :: "nat \<Rightarrow> 's \<Rightarrow> stop + 's" and buf1 blk1 request1
    and rw2 :: "nat \<Rightarrow> 't \<Rightarrow> stop + 't" and buf2 blk2 request2
begin

lemma agree:
  assumes "distinct bs" and "\<forall>b \<in> set bs. request1 s b \<and> request2 t b \<and> buf1 s b = buf2 t b" and "blk1 s = blk2 t"
  shows "\<exists>s' t'. forE rw1 bs s = Inr s' \<and> forE rw2 bs t = Inr t' \<and> blk1 s' = blk2 t'
    \<and> (\<forall>b \<in> set bs. buf1 s' b = buf2 t' b \<and> fst (buf1 s' b) \<and> \<not> fst (snd (buf1 s' b)))
    \<and> (\<forall>c. c \<notin> set bs \<longrightarrow> buf1 s' c = buf1 s c \<and> buf2 t' c = buf2 t c)"
  using assms
proof (induction bs arbitrary: s t)
  case (Cons b bs)
  obtain u where u: "rw1 b s = Inr u" "buf1 u b = served (blk1 s) (buf1 s b)" "blk1 u = stored (buf1 s b) (blk1 s)"
    "\<forall>c. c \<noteq> b \<longrightarrow> buf1 u c = buf1 s c" "\<forall>c. c \<noteq> b \<longrightarrow> request1 s c \<longrightarrow> request1 u c"
    using one.serves [of s b] Cons.prems(2) by auto
  obtain v where v: "rw2 b t = Inr v" "buf2 v b = served (blk2 t) (buf2 t b)" "blk2 v = stored (buf2 t b) (blk2 t)"
    "\<forall>c. c \<noteq> b \<longrightarrow> buf2 v c = buf2 t c" "\<forall>c. c \<noteq> b \<longrightarrow> request2 t c \<longrightarrow> request2 v c"
    using two.serves [of t b] Cons.prems(2) by auto
  have same: "buf1 u b = buf2 v b" "fst (buf1 u b)" "\<not> fst (snd (buf1 u b))"
    using u(2) v(2) Cons.prems(2,3) by (simp_all add: served_def split: prod.splits)
  have "blk1 u = blk2 v" using u(3) v(3) Cons.prems(2,3) by simp
  moreover have "\<forall>c \<in> set bs. request1 u c \<and> request2 v c \<and> buf1 u c = buf2 v c"
    using Cons.prems(1,2) u(4,5) v(4,5) by (metis distinct.simps(2) list.set_intros(2))
  moreover have "distinct bs" using Cons.prems(1) by simp
  ultimately obtain s' t' where "forE rw1 bs u = Inr s'" "forE rw2 bs v = Inr t'" "blk1 s' = blk2 t'"
    "\<forall>b \<in> set bs. buf1 s' b = buf2 t' b \<and> fst (buf1 s' b) \<and> \<not> fst (snd (buf1 s' b))"
    "\<forall>c. c \<notin> set bs \<longrightarrow> buf1 s' c = buf1 u c \<and> buf2 t' c = buf2 v c"
    using Cons.IH [of u v] by blast
  then show ?case using u(1,4) v(1,4) same Cons.prems(1) by auto
qed simp

end

section \<open>The two drivers keep the contract\<close>

text \<open>The blocks of the file system, and a request the driver can serve at once.\<close>

definition ide_image :: "'a bio_state_scheme \<Rightarrow> u32 \<Rightarrow> bytes" where
  "ide_image s n = (if n < FSSIZE then disk s ROOTDEV n else [])"

definition locked_buf :: "'a bio_state_scheme \<Rightarrow> nat \<Rightarrow> bool" where
  "locked_buf s b \<longleftrightarrow> b < length (bufs s) \<and> block (bufs s ! b) = \<lparr>slocked = True, spid = holder s\<rparr>
     \<and> bdev (bufs s ! b) = ROOTDEV \<and> (bdirty (bufs s ! b) \<or> \<not> bvalid (bufs s ! b))
     \<and> length (bdata (bufs s ! b)) = BSIZE"

definition ide_request :: "'a bio_state_scheme \<Rightarrow> nat \<Rightarrow> bool" where
  "ide_request s b \<longleftrightarrow> env_ok s \<and> locked_buf s b \<and> blockno (bufs s ! b) < FSSIZE"

definition mem_image :: "'a memide_state_scheme \<Rightarrow> u32 \<Rightarrow> bytes" where
  "mem_image s n = (if n < disksize s then load_bytes (memdisk s + n * of_nat BSIZE) BSIZE (mem s) else [])"

definition mem_request :: "'a memide_state_scheme \<Rightarrow> nat \<Rightarrow> bool" where
  "mem_request s b \<longleftrightarrow> held s = [] \<and> (\<exists>me. curproc s = Some me \<and> me < length (procs s)) \<and> locked_buf s b
     \<and> blockno (bufs s ! b) < disksize s \<and> unat (memdisk s) + 512 * unat (disksize s) \<le> 4294967296"

lemma locked_other:
  assumes "locked_buf s c" and "c \<noteq> b" and "bufs t = (bufs s)[b := x]" and "holder t = holder s"
  shows "locked_buf t c"
  using assms by (simp add: locked_buf_def)

interpretation ide: disk_driver iderw "\<lambda>s b. seen (bufs s ! b)" ide_image ide_request
proof
  fix s :: "'a bio_state_scheme" and b assume r: "ide_request s b"
  let ?x = "bufs s ! b"
  have env: "env_ok s" and l: "locked_buf s b" and n: "blockno ?x < FSSIZE" using r by (simp_all add: ide_request_def)
  have len: "b < length (bufs s)" and dev: "bdev ?x AND 1 = ROOTDEV" using l by (simp_all add: locked_buf_def)
  obtain t where t: "iderw b s = Inr t" "env_same s t"
    "bufs t = (bufs s)[b := ?x\<lparr>qnext := None,
        bdata := if bdirty ?x then bdata ?x else disk s (bdev ?x AND 1) (blockno ?x), bvalid := True, bdirty := False\<rparr>]"
    "disk t = (if bdirty ?x then (disk s)(bdev ?x AND 1 := (disk s (bdev ?x AND 1))(blockno ?x := bdata ?x)) else disk s)"
    using iderw_done [OF env _ _ n len refl] l by (auto simp: locked_buf_def)
  have "seen (bufs t ! b) = served (ide_image s) (seen ?x)"
    using t(3) len n by (simp add: seen_def served_def ide_image_def dev del: One_nat_def)
  moreover have "ide_image t = stored (seen ?x) (ide_image s)"
    using n by (auto simp: t(4) ide_image_def stored_def seen_def dev fun_eq_iff)
  moreover have "seen (bufs t ! c) = seen (bufs s ! c)" if "c \<noteq> b" for c using that by (simp add: t(3))
  moreover have "ide_request t c" if "c \<noteq> b" "ide_request s c" for c
    using that locked_other [OF _ that(1) t(3) env_same_holder [OF t(2) env]] env_same_env_ok [OF t(2)]
    by (simp add: ide_request_def t(3))
  ultimately show "\<exists>t. iderw b s = Inr t \<and> seen (bufs t ! b) = served (ide_image s) (seen ?x)
      \<and> ide_image t = stored (seen ?x) (ide_image s) \<and> (\<forall>c. c \<noteq> b \<longrightarrow> seen (bufs t ! c) = seen (bufs s ! c))
      \<and> (\<forall>c. c \<noteq> b \<longrightarrow> ide_request s c \<longrightarrow> ide_request t c)"
    using t(1) by blast
qed

text \<open>Stores and loads of whole blocks.\<close>

lemma store_bytes_outside: "\<forall>i < length bs. y \<noteq> a + of_nat i \<Longrightarrow> store_bytes a bs m y = m y"
proof (induction bs arbitrary: a m)
  case (Cons z bs)
  have "y \<noteq> a" using Cons.prems [rule_format, of 0] by simp
  moreover have "\<forall>i < length bs. y \<noteq> a + 1 + of_nat i" using Cons.prems [rule_format, of "Suc _"] by (simp add: add.assoc)
  ultimately show ?case using Cons.IH by simp
qed simp

lemma store_bytes_nth:
  assumes "i < length bs" and "length bs \<le> 4294967296"
  shows "store_bytes a bs m (a + of_nat i) = bs ! i"
  using assms
proof (induction bs arbitrary: a m i)
  case (Cons x bs)
  show ?case
  proof (cases i)
    case 0
    have "a \<noteq> a + 1 + of_nat j" if "j < length bs" for j
    proof -
      have "(of_nat (Suc j) :: u32) \<noteq> of_nat 0" using that Cons.prems by (subst of_nat_inj32) auto
      then show ?thesis by (simp add: add.assoc)
    qed
    then show ?thesis using 0 by (simp add: store_bytes_outside)
  next
    case (Suc j)
    then show ?thesis using Cons.IH [of j "a + 1"] Cons.prems by (simp add: add.assoc)
  qed
qed simp

lemma load_store_bytes: "length bs \<le> 4294967296 \<Longrightarrow> load_bytes a (length bs) (store_bytes a bs m) = bs"
  by (rule nth_equalityI) (simp_all add: load_bytes_def at_def store_bytes_nth)

text \<open>Addresses inside different blocks of the image differ.\<close>

lemma block_byte:
  fixes d n k :: u32
  assumes "unat d + 512 * unat k \<le> 4294967296" and "n < k" and "i < BSIZE"
  shows "unat (d + n * of_nat BSIZE + of_nat i) = unat d + 512 * unat n + i"
proof -
  have n: "unat n < unat k" using assms(2) by (simp add: word_less_nat_alt)
  have "unat (n * of_nat BSIZE) = 512 * unat n" using n assms(1) by (simp add: unat_word_ariths)
  then have "unat (d + n * of_nat BSIZE) = unat d + 512 * unat n" using n assms(1) by (subst unat_add32) auto
  then show ?thesis using n assms by (subst unat_add_of_nat32) auto
qed

lemma load_other_block:
  fixes d n k j :: u32
  assumes "unat d + 512 * unat k \<le> 4294967296" and "n < k" and "j < k" and "n \<noteq> j" and "length bs = BSIZE"
  shows "load_bytes (d + j * of_nat BSIZE) BSIZE (store_bytes (d + n * of_nat BSIZE) bs m)
    = load_bytes (d + j * of_nat BSIZE) BSIZE m"
proof -
  have "d + j * of_nat BSIZE + of_nat i \<noteq> d + n * of_nat BSIZE + of_nat l" if "i < BSIZE" "l < BSIZE" for i l
  proof (rule neq_by_unat)
    have "unat n \<noteq> unat j" using assms(4) by (simp add: word_unat_eq_iff)
    then show "unat (d + j * of_nat BSIZE + of_nat i) \<noteq> unat (d + n * of_nat BSIZE + of_nat l)"
      unfolding block_byte [OF assms(1,3) that(1)] block_byte [OF assms(1,2) that(2)] using that by linarith
  qed
  then show ?thesis using assms(5) by (simp add: load_bytes_def at_def store_bytes_outside)
qed

interpretation mem: disk_driver iderw_mem "\<lambda>s b. seen (bufs s ! b)" mem_image mem_request
proof
  fix s :: "'a memide_state_scheme" and b assume r: "mem_request s b"
  let ?x = "bufs s ! b"
  have l: "locked_buf s b" and n: "blockno ?x < disksize s" and im: "unat (memdisk s) + 512 * unat (disksize s) \<le> 4294967296"
    and hs: "held s = []" using r by (simp_all add: mem_request_def)
  obtain me where me: "curproc s = Some me" "me < length (procs s)" using r by (auto simp: mem_request_def)
  have hold: "holdingsleep (L_buf b) lk s = Inr (slocked lk \<and> spid lk = holder s, s)" for lk
    using hs me by (simp add: holdingsleep_def acquire_def release_def myproc_def holder_def)
  let ?y = "if bdirty ?x then ?x\<lparr>bdirty := False, bvalid := True\<rparr>
     else ?x\<lparr>bdata := load_bytes (memdisk s + blockno ?x * of_nat BSIZE) BSIZE (mem s), bvalid := True\<rparr>"
  let ?m = "if bdirty ?x then store_bytes (memdisk s + blockno ?x * of_nat BSIZE) (bdata ?x) (mem s) else mem s"
  let ?t = "s\<lparr>mem := ?m, bufs := (bufs s)[b := ?y]\<rparr>"
  have t: "iderw_mem b s = Inr ?t"
  proof -
    have c: "slocked (block ?x) \<and> spid (block ?x) = holder s" "\<not> (bvalid ?x \<and> \<not> bdirty ?x)" "\<not> bdev ?x \<noteq> 1"
      "\<not> disksize s \<le> blockno ?x" "b < length (bufs s)"
      using l n by (auto simp: locked_buf_def)
    let ?p = "memdisk s + blockno ?x * of_nat BSIZE"
    have "iderw_mem b s = Inr (upd_buf b (bvalid_update (\<lambda>_. True))
        (if bdirty ?x then (upd_buf b (bdirty_update (\<lambda>_. False)) s)\<lparr>mem := store_bytes ?p (bdata ?x) (mem s)\<rparr>
         else upd_buf b (bdata_update (\<lambda>_. load_bytes ?p BSIZE (mem s))) s))"
      unfolding iderw_mem_def hold bindE.simps prod.case Let_def using c by (simp only: if_False simp_thms)
    also have "\<dots> = Inr ?t"
    proof -
      have "s\<lparr>mem := mem s, bufs := z\<rparr> = s\<lparr>bufs := z\<rparr>" for z by (cases s) simp
      then show ?thesis using c(5) by (cases "bdirty ?x") (simp_all add: upd_buf_def)
    qed
    finally show ?thesis .
  qed
  have seen: "seen (bufs ?t ! b) = served (mem_image s) (seen ?x)"
    using l n by (simp add: seen_def served_def mem_image_def locked_buf_def)
  have "mem_image ?t k = stored (seen ?x) (mem_image s) k" for k
  proof (cases "bdirty ?x")
    case True
    have len: "length (bdata ?x) = BSIZE" using l by (simp add: locked_buf_def)
    show ?thesis
    proof (cases "k = blockno ?x")
      case True
      then show ?thesis using \<open>bdirty ?x\<close> n load_store_bytes [of "bdata ?x"] len
        by (simp add: mem_image_def stored_def seen_def)
    next
      case False
      then show ?thesis using True load_other_block [OF im n _ _ len] by (auto simp: mem_image_def stored_def seen_def)
    qed
  next
    case False
    then show ?thesis by (simp add: mem_image_def stored_def seen_def)
  qed
  then have image: "mem_image ?t = stored (seen ?x) (mem_image s)" by (rule ext)
  have "mem_request ?t c" if "c \<noteq> b" "mem_request s c" for c
  proof -
    have "locked_buf ?t c" using that by (intro locked_other [of s c b ?t ?y]) (simp_all add: mem_request_def holder_def)
    then show ?thesis using that by (simp add: mem_request_def)
  qed
  then show "\<exists>t. iderw_mem b s = Inr t \<and> seen (bufs t ! b) = served (mem_image s) (seen ?x)
      \<and> mem_image t = stored (seen ?x) (mem_image s) \<and> (\<forall>c. c \<noteq> b \<longrightarrow> seen (bufs t ! c) = seen (bufs s ! c))
      \<and> (\<forall>c. c \<noteq> b \<longrightarrow> mem_request s c \<longrightarrow> mem_request t c)"
    using t seen image by (intro exI [of _ ?t] conjI) simp_all
qed

interpretation drivers: same_disk iderw "\<lambda>s b. seen (bufs s ! b)" ide_image ide_request
  iderw_mem "\<lambda>s b. seen (bufs s ! b)" mem_image mem_request
  by unfold_locales

text \<open>C11. A kernel linked with \<open>memide.c\<close> sees the same disk as one linked with \<open>ide.c\<close>: on every list of requests that both can serve, the buffers and the blocks of the file system end up the same.\<close>

theorem drivers_agree:
  assumes "distinct bs" and "\<forall>b \<in> set bs. ide_request s b \<and> mem_request t b \<and> seen (bufs s ! b) = seen (bufs t ! b)"
    and "ide_image s = mem_image t"
  shows "\<exists>s' t'. forE iderw bs s = Inr s' \<and> forE iderw_mem bs t = Inr t' \<and> ide_image s' = mem_image t'
    \<and> (\<forall>b \<in> set bs. seen (bufs s' ! b) = seen (bufs t' ! b) \<and> bvalid (bufs s' ! b) \<and> \<not> bdirty (bufs s' ! b))
    \<and> (\<forall>c. c \<notin> set bs \<longrightarrow> seen (bufs s' ! c) = seen (bufs s ! c) \<and> seen (bufs t' ! c) = seen (bufs t ! c))"
  using drivers.agree [OF assms(1,2,3)] by (auto simp: seen_def)

text \<open>A block of 7s written through one buffer and read through another.\<close>

definition two_requests :: "buf list" where
  "two_requests = (replicate 31 zero_buf)
     [0 := zero_buf\<lparr>bdirty := True, bdev := 1, blockno := 2, block := \<lparr>slocked = True, spid = 1\<rparr>, bdata := replicate 512 7\<rparr>,
      1 := zero_buf\<lparr>bdev := 1, blockno := 2, block := \<lparr>slocked = True, spid = 1\<rparr>\<rparr>]"

definition ide_demo :: bio_state where
  "ide_demo = (boot_bio (\<lambda>_. replicate 512 0) ())\<lparr>bufs := two_requests\<rparr>"

definition memide_demo :: memide_state where
  "memide_demo = ideinit_mem
     ((boot_bio (\<lambda>_. []) \<lparr>memdisk = 0, disksize = 0, fs_img_start = 0x80110000, fs_img_size = 512000\<rparr>)\<lparr>bufs := two_requests\<rparr>)"

lemma drivers_agree_witness:
  "\<exists>s' t'. forE iderw [0, 1] ide_demo = Inr s' \<and> forE iderw_mem [0, 1] memide_demo = Inr t'
    \<and> bvalid (bufs s' ! 1) \<and> seen (bufs s' ! 1) = seen (bufs t' ! 1) \<and> ide_image s' = mem_image t'"
proof -
  have b: "two_requests ! 0 = zero_buf\<lparr>bdirty := True, bdev := 1, blockno := 2, block := \<lparr>slocked = True, spid = 1\<rparr>, bdata := replicate 512 7\<rparr>"
    "two_requests ! 1 = zero_buf\<lparr>bdev := 1, blockno := 2, block := \<lparr>slocked = True, spid = 1\<rparr>\<rparr>"
    "length two_requests = 31"
    by (simp_all add: two_requests_def)
  have env: "held (boot_bio d m) = []" "curproc (boot_bio d m) = Some 0" "procs (boot_bio d m) = [proc0\<lparr>state := RUNNING, pid := 1\<rparr>]"
    "idequeue (boot_bio d m) = None" "\<not> ideerr (boot_bio d m)" "havedisk1 (boot_bio d m)" "mem (boot_bio d m) = (\<lambda>_. 0)"
    "disk (boot_bio d m) = (\<lambda>_. d)" for d m
    by (simp_all add: boot_bio_def binit_def)
  have "bio_state.more (boot_bio d m) = m" for d m by (rule boot_bio(8))
  then have more: "memdisk (boot_bio d \<lparr>memdisk = x, disksize = y, fs_img_start = z, fs_img_size = w\<rparr>) = x"
    "fs_img_start (boot_bio d \<lparr>memdisk = x, disksize = y, fs_img_start = z, fs_img_size = w\<rparr>) = z"
    "fs_img_size (boot_bio d \<lparr>memdisk = x, disksize = y, fs_img_start = z, fs_img_size = w\<rparr>) = w" for d x y z w
    by (simp_all add: boot_bio_def binit_def)
  have req: "\<forall>b \<in> set [0, 1]. ide_request ide_demo b \<and> mem_request memide_demo b \<and> seen (bufs ide_demo ! b) = seen (bufs memide_demo ! b)"
    using b by (simp add: ide_request_def mem_request_def locked_buf_def env_ok_def holder_def ide_demo_def memide_demo_def
        ideinit_mem_def env more zero_buf_def)
  have "load_bytes a 512 (\<lambda>_. 0) = replicate 512 0" for a
    by (simp add: load_bytes_def at_def map_replicate_const)
  then have img: "ide_image ide_demo = mem_image memide_demo"
    by (simp add: fun_eq_iff ide_image_def mem_image_def ide_demo_def memide_demo_def ideinit_mem_def env more)
  show ?thesis using drivers_agree [OF _ req img] by auto
qed

end
