(* ===== verification/Xv6_Main.thy ===== *)
theory Xv6_Main
  imports Xv6_Console Xv6_Mp Xv6_Devices Xv6_Gates Xv6_Procdump
begin

text \<open>
  The start of the kernel (\<open>main.c\<close>, with \<open>mycpu\<close> and \<open>cpuid\<close> of \<open>proc.c\<close>): the initialisers in the order in
  which \<open>main\<close> calls them, the start of the other processors, and the first process.
\<close>

section \<open>The machine\<close>

text \<open>
  The kernel state with what the other drivers keep: the processors (\<open>cpus\<close>, \<open>ncpu\<close>), their descriptor
  tables, and the accesses made to devices. What comes from outside: the answers of the devices to the
  processor with a given APIC id, the images the linker puts into the kernel, and addresses in them.
\<close>

record machine = cons_state +
  acc :: trace
  cpu_ids :: "u8 list"
  n_cpu :: nat
  cpu_started :: "bool list"
  gdts :: "segdesc list list"
  idt_table :: "gatedesc list"
  io_apic_id :: u8
  lapic_base :: u32
  uart_on :: bool
  eflags_if :: bool

record boot_env =
  dev :: "u8 \<Rightarrow> devices"
  vecs :: "nat \<Rightarrow> u32"
  entryother :: bytes
  mpenter_addr :: u32
  entrypgdir_addr :: u32

text \<open>\<open>None\<close> is a wait for a device that never ends.\<close>

definition bindM :: "(stop + 'a) option \<Rightarrow> ('a \<Rightarrow> (stop + 'b) option) \<Rightarrow> (stop + 'b) option" where
  "bindM m f = (case m of None \<Rightarrow> None | Some (Inl e) \<Rightarrow> Some (Inl e) | Some (Inr x) \<Rightarrow> f x)"

lemma bindM_simps [simp]:
  "bindM None f = None" "bindM (Some (Inl e)) f = Some (Inl e)" "bindM (Some (Inr x)) f = f x"
  by (simp_all add: bindM_def)

definition drive :: "trace option \<Rightarrow> 'a machine_scheme \<Rightarrow> (stop + 'a machine_scheme) option" where
  "drive h s = map_option (\<lambda>h. Inr (s\<lparr>acc := h\<rparr>)) h"

section \<open>Which processor this is\<close>

definition mycpu :: "boot_env \<Rightarrow> u8 \<Rightarrow> 'a machine_scheme \<Rightarrow> stop + (nat \<times> 'a machine_scheme)" where
  "mycpu env a s =
     (if eflags_if s then Inl (Panic ''mycpu called with interrupts enabled'')
      else
        let (i, h) = lapicid (dev env a) (lapic_base s) (acc s); s = s\<lparr>acc := h\<rparr> in
        case find_slot (\<lambda>c. ucast c = i) (take (n_cpu s) (cpu_ids s)) of
          Some c \<Rightarrow> Inr (c, s)
        | None \<Rightarrow> Inl (Panic ''unknown apicid''))"

definition cpuid :: "boot_env \<Rightarrow> u8 \<Rightarrow> 'a machine_scheme \<Rightarrow> stop + (nat \<times> 'a machine_scheme)" where
  "cpuid = mycpu"

section \<open>The initialisers on the machine\<close>

definition main_mpinit :: "boot_env \<Rightarrow> u8 \<Rightarrow> 'a machine_scheme \<Rightarrow> (stop + 'a machine_scheme) option" where
  "main_mpinit env a s =
     (let imcr = ucast (dev env a (acc s @ [OutB 0x22 0x70, InB 0x23])) in
      bindM (mpinit imcr \<lparr>mp_mem = mem s, apicids = cpu_ids s, ncpu = n_cpu s, ioapicid = io_apic_id s,
                lapic = lapic_base s, mp_writes = []\<rparr>) (\<lambda>m.
      Some (Inr (s\<lparr>cpu_ids := apicids m, n_cpu := ncpu m, io_apic_id := ioapicid m, lapic_base := lapic m,
        acc := acc s @ (if mp_writes m = [] then [] else [OutB 0x22 0x70, InB 0x23, OutB 0x23 (imcr OR 1)])\<rparr>))))"

definition main_seginit :: "boot_env \<Rightarrow> u8 \<Rightarrow> 'a machine_scheme \<Rightarrow> stop + 'a machine_scheme" where
  "main_seginit env a s =
     bindE (cpuid env a s) (\<lambda>(c, s). Inr (s\<lparr>gdts := (gdts s)[c := seginit (gdts s ! c)]\<rparr>))"

definition main_ioapicinit :: "boot_env \<Rightarrow> u8 \<Rightarrow> 'a machine_scheme \<Rightarrow> stop + 'a machine_scheme" where
  "main_ioapicinit env a s =
     (let (differs, h) = ioapicinit (dev env a) (io_apic_id s) (acc s) in
      bindE (if differs
             then cprintf (code (''ioapicinit: id isn'' @ [CHR 0x27] @ ''t equal to ioapicid; not a MP'' @ [CHR 0x0A])) [] s
             else Inr s) (\<lambda>s.
      Inr (s\<lparr>acc := h\<rparr>)))"

definition main_consoleinit :: "'a machine_scheme \<Rightarrow> 'a machine_scheme" where
  "main_consoleinit s = (let s = consoleinit s in s\<lparr>acc := ioapicenable 1 0 (acc s)\<rparr>)"

definition main_uartinit :: "boot_env \<Rightarrow> u8 \<Rightarrow> 'a machine_scheme \<Rightarrow> 'a machine_scheme" where
  "main_uartinit env a s = (let (u, h) = uartinit (dev env a) (acc s) in s\<lparr>uart_on := u, acc := h\<rparr>)"

definition main_ideinit :: "boot_env \<Rightarrow> u8 \<Rightarrow> 'a machine_scheme \<Rightarrow> (stop + 'a machine_scheme) option" where
  "main_ideinit env a s =
     map_option (\<lambda>(d, h). Inr (s\<lparr>havedisk1 := d, acc := h\<rparr>)) (ideinit (dev env a) (of_nat (n_cpu s)) (acc s))"

section \<open>The processors\<close>

text \<open>\<open>mpmain\<close> up to the scheduler; \<open>cpuid\<close> is called for both numbers of the message.\<close>

definition mpmain :: "boot_env \<Rightarrow> u8 \<Rightarrow> 'a machine_scheme \<Rightarrow> stop + 'a machine_scheme" where
  "mpmain env a s =
     bindE (cpuid env a s) (\<lambda>(c, s).
     bindE (cpuid env a s) (\<lambda>(d, s).
     bindE (cprintf (code (''cpu%d: starting %d'' @ [CHR 0x0A])) [ArgInt (of_nat c), ArgInt (of_nat d)] s) (\<lambda>s.
     bindE (mycpu env a s) (\<lambda>(c, s).
     Inr (s\<lparr>cpu_started := (cpu_started s)[c := True]\<rparr>)))))"

text \<open>What another processor does when it comes out of \<open>entryother.S\<close>. The page table it loads is the one this processor uses.\<close>

definition mpenter :: "boot_env \<Rightarrow> u8 \<Rightarrow> 'a machine_scheme \<Rightarrow> (stop + 'a machine_scheme) option" where
  "mpenter env a s =
     bindM (Some (main_seginit env a (switchkvm s))) (\<lambda>s.
     bindM (drive (lapicinit (dev env a) (lapic_base s) (acc s)) s) (\<lambda>s.
     Some (mpmain env a s)))"

text \<open>
  The body of the loop of \<open>startothers\<close> for \<open>cpus[c]\<close>. The wait for \<open>started\<close> ends when the processor has
  come through \<open>mpenter\<close>, during which this one only reads the flag; afterwards the other processor
  finds no process to run before \<open>userinit\<close>.
\<close>

definition start_cpu :: "boot_env \<Rightarrow> u8 \<Rightarrow> nat \<Rightarrow> 'a machine_scheme \<Rightarrow> (stop + 'a machine_scheme) option" where
  "start_cpu env a c s =
     bindM (Some (mycpu env a s)) (\<lambda>(me, s).
     if c = me then Some (Inr s)
     else
       bindM (Some (kalloc s)) (\<lambda>(stack, s).
       let code = P2V 0x7000;
           s = s\<lparr>mem := st32 (code - 4) (stack + KSTACKSIZE) (mem s)\<rparr>;
           s = s\<lparr>mem := st32 (code - 8) (mpenter_addr env) (mem s)\<rparr>;
           s = s\<lparr>mem := st32 (code - 12) (V2P (entrypgdir_addr env)) (mem s)\<rparr>;
           s = s\<lparr>acc := lapicstartap (lapic_base s) (cpu_ids s ! c) (V2P code) (acc s)\<rparr> in
       bindM (mpenter env (cpu_ids s ! c) s) (\<lambda>s.
       if cpu_started s ! c then Some (Inr s) else None)))"

fun start_cpus :: "boot_env \<Rightarrow> u8 \<Rightarrow> nat list \<Rightarrow> 'a machine_scheme \<Rightarrow> (stop + 'a machine_scheme) option" where
  "start_cpus env a [] s = Some (Inr s)"
| "start_cpus env a (c # cs) s = bindM (start_cpu env a c s) (start_cpus env a cs)"

definition startothers :: "boot_env \<Rightarrow> u8 \<Rightarrow> 'a machine_scheme \<Rightarrow> (stop + 'a machine_scheme) option" where
  "startothers env a s =
     (let s = s\<lparr>mem := store_bytes (P2V 0x7000) (entryother env) (mem s)\<rparr>
      in start_cpus env a [0..<n_cpu s] s)"

text \<open>The page directory with which all processors run until they load the kernel's: two pages of 4 MB.\<close>

definition entrypgdir :: "u32 list" where
  "entrypgdir = (replicate 1024 0)[0 := 0 OR PTE_P OR PTE_W OR 0x80, unat (KERNBASE div 0x400000) := 0 OR PTE_P OR PTE_W OR 0x80]"

section \<open>main\<close>

text \<open>\<open>pinit\<close> and \<open>fileinit\<close> only name locks. \<open>main\<close> up to the scheduler of this processor, whose APIC id is \<open>a\<close>.\<close>

definition early_init :: "'a machine_scheme \<Rightarrow> stop + 'a machine_scheme" where
  "early_init s = bindE (kinit1 (kend s) (P2V (4 * 1024 * 1024)) s) kvmalloc"

definition device_init :: "boot_env \<Rightarrow> u8 \<Rightarrow> 'a machine_scheme \<Rightarrow> (stop + 'a machine_scheme) option" where
  "device_init env a s =
     bindM (main_mpinit env a s) (\<lambda>s.
     bindM (drive (lapicinit (dev env a) (lapic_base s) (acc s)) s) (\<lambda>s.
     bindM (Some (main_seginit env a s)) (\<lambda>s.
     let s = s\<lparr>acc := picinit (acc s)\<rparr> in
     bindM (Some (main_ioapicinit env a s)) (\<lambda>s.
     let s = main_uartinit env a (main_consoleinit s);
         s = s\<lparr>idt_table := tvinit (vecs env) (idt_table s)\<rparr>;
         s = binit s in
     main_ideinit env a s))))"

definition main :: "boot_env \<Rightarrow> u8 \<Rightarrow> 'a machine_scheme \<Rightarrow> (stop + 'a machine_scheme) option" where
  "main env a s =
     bindM (Some (early_init s)) (\<lambda>s.
     bindM (device_init env a s) (\<lambda>s.
     bindM (startothers env a s) (\<lambda>s.
     bindM (Some (kinit2 (P2V (4 * 1024 * 1024)) (P2V PHYSTOP) s)) (\<lambda>s.
     bindM (Some (userinit s)) (\<lambda>s.
     Some (mpmain env a s))))))"

end
