(* ===== verification/Xv6_MapRoom.thy ===== *)
theory Xv6_MapRoom
  imports Xv6_VmFrame
begin

text \<open>
  Building page tables with room to spare: how many pages \<open>mappages\<close> and \<open>setupkvm\<close> take from the
  free list, that they succeed when there are as many, and which memory they write.
\<close>

section \<open>The pages of a page table\<close>

definition owned :: "memory \<Rightarrow> u32 \<Rightarrow> u32 set" where
  "owned m pg = insert pg {t. \<exists>i < 1024. tab m pg i = Some t}"

text \<open>Nothing outside the pages of \<open>A\<close> is written.\<close>

definition untouched :: "u32 set \<Rightarrow> memory \<Rightarrow> memory \<Rightarrow> bool" where
  "untouched A m m' \<longleftrightarrow> (\<forall>x. (\<forall>v \<in> A. \<not> in_range v 4096 x) \<longrightarrow> m' x = m x)"

lemma untouched_refl [simp]: "untouched A m m"
  by (simp add: untouched_def)

lemma untouched_trans: "untouched A m m' \<Longrightarrow> untouched B m' m'' \<Longrightarrow> B \<subseteq> A \<Longrightarrow> untouched A m m''"
  by (fastforce simp: untouched_def)

lemma untouched_mono: "untouched A m m' \<Longrightarrow> A \<subseteq> B \<Longrightarrow> untouched B m m'"
  by (fastforce simp: untouched_def)

text \<open>What a step of building the table \<open>pg\<close> leads to, with the free pages \<open>vs\<close> before and \<open>ws\<close> after it.\<close>

definition builds :: "u32 \<Rightarrow> 'a kmem_state_scheme \<Rightarrow> u32 list \<Rightarrow> 'a kmem_state_scheme \<Rightarrow> u32 list \<Rightarrow> bool" where
  "builds pg s vs t ws \<longleftrightarrow> pt_ok t ws pg \<and> kend t = kend s \<and> held t = held s
     \<and> set ws \<subseteq> set vs \<and> set ws \<union> owned (mem t) pg \<subseteq> set vs \<union> owned (mem s) pg
     \<and> untouched (set vs \<union> owned (mem s) pg) (mem s) (mem t)"

lemma builds_trans: "builds pg s vs t ws \<Longrightarrow> builds pg t ws u xs \<Longrightarrow> builds pg s vs u xs"
  unfolding builds_def by (auto intro: untouched_trans)

lemma builds_refl: "pt_ok s vs pg \<Longrightarrow> builds pg s vs s vs"
  by (simp add: builds_def)

section \<open>One table\<close>

lemma walk_alloc_builds:
  assumes ok: "pt_ok s (v # ws) pg" and no: "tab (mem s) pg (vpage va div 1024) = None"
    and r: "walkpgdir pg va True s = Inr (r, t)"
  shows "builds pg s (v # ws) t ws"
proof -
  let ?d = "vpage va div 1024"
  note d = vpage_bound [of va]
  have "v \<noteq> 0" and f: "freelist s = v" and h: "L_kmem \<notin> set (held s)"
    using pt_okD(1) [OF ok] page_ok_nonzero by (auto simp: kmem_rep_def)
  have m: "mem t = st32 (slot pg ?d) (V2P v OR 7) (memset v 0 PGSIZE (mem s))"
    using r no kalloc_eq [OF h] f \<open>v \<noteq> 0\<close> unfolding tab_def vpage_def
    by (auto simp: walkpgdir_def Let_def slot_PDX split: if_splits)
  have al: "aligned pg" "aligned v" "v \<noteq> pg"
    using pt_okD [OF ok] by (auto simp: kmem_rep_def page_ok_def)
  have out: "untouched {v, pg} (mem s) (mem t)"
    using al(1) d(2) by (simp add: untouched_def m st32_slot_outside memset_fill)
  have "ld32 (slot pg j) (memset v 0 PGSIZE (mem s)) = ld32 (slot pg j) (mem s)" if "j < 1024" for j
    using page_store_frame [OF al(2,1,3), of _ "memset v 0 PGSIZE (mem s)" "mem s"] that al(1)
    by (intro ld32_slot_frame) (auto simp: memset_fill)
  then have tab2: "tab (mem t) pg j = (if j = ?d then Some v else tab (mem s) pg j)" if "j < 1024" for j
    using that d(2) al by (simp add: tab_def m ld32_st32_slot pde_word Let_def)
  obtain u where u: "walkpgdir pg va True s = Inr (slot v (vpage va mod 1024), u)" "pt_ok u ws pg" "kend u = kend s"
      "held u = held s" using walk_alloc [OF ok no] by auto
  then have "u = t" using r by simp
  moreover have "owned (mem t) pg \<subseteq> insert v (owned (mem s) pg)" by (auto simp: owned_def tab2 split: if_splits)
  moreover have "pg \<in> owned (mem s) pg" by (simp add: owned_def)
  ultimately show ?thesis using u untouched_mono [OF out] by (auto simp: builds_def)
qed

lemma set_pte_builds:
  assumes ok: "pt_ok s vs pg" and t: "tab (mem s) pg (p div 1024) = Some t" and p: "p < 1048576"
  shows "builds pg s vs (s\<lparr>mem := st32 (slot t (p mod 1024)) w (mem s)\<rparr>) vs"
    and "i < 1024 \<Longrightarrow> tab (st32 (slot t (p mod 1024)) w (mem s)) pg i = tab (mem s) pg i"
proof -
  let ?m = "st32 (slot t (p mod 1024)) w (mem s)"
  have d: "p div 1024 < 1024" using p by (simp add: div_less_iff_less_mult)
  note t' = pt_ok_tab [OF ok d t]
  have al: "aligned pg" using pt_okD [OF ok] by simp
  have out: "?m x = mem s x" if "\<not> in_range t 4096 x" for x
    using t' that by (intro st32_slot_outside) auto
  show tab': "i < 1024 \<Longrightarrow> tab ?m pg i = tab (mem s) pg i" for i
    using page_store_frame [OF t'(4) al t'(3) _ out] al by (intro tab_frame) auto
  have "t \<in> owned (mem s) pg" using t d by (auto simp: owned_def)
  moreover have "owned ?m pg = owned (mem s) pg" by (simp add: owned_def tab' cong: conj_cong)
  ultimately show "builds pg s vs (s\<lparr>mem := ?m\<rparr>) vs"
    using set_pte(1) [OF ok t p refl] out by (auto simp: builds_def untouched_def)
qed

section \<open>A range of pages\<close>

text \<open>
  The tables that may have to be allocated for the pages \<open>p .. p + n\<close>: one for each directory entry
  they touch, less the first if it is there.
\<close>

definition tables_for :: "memory \<Rightarrow> u32 \<Rightarrow> nat \<Rightarrow> nat \<Rightarrow> nat" where
  "tables_for m pg p n = (p + n) div 1024 - p div 1024 + (if tab m pg (p div 1024) = None then 1 else 0)"

lemma mappages_step_room:
  assumes ok: "pt_ok s vs pg" and new: "pte_of (mem s) pg (vpage a) AND PTE_P = 0"
    and room: "tab (mem s) pg (vpage a div 1024) = None \<longrightarrow> vs \<noteq> []"
  obtains t ws where "\<And>n. mappages_loop pg a n pa perm s =
        (case n of 0 \<Rightarrow> Inr (0, t) | Suc n \<Rightarrow> mappages_loop pg (a + PGSIZE) n (pa + PGSIZE) perm t)"
    and "builds pg s vs t ws" and "tab (mem t) pg (vpage a div 1024) \<noteq> None"
    and "length vs = length ws + (if tab (mem s) pg (vpage a div 1024) = None then 1 else 0)"
    and "\<And>q. q < 1048576 \<Longrightarrow>
            pte_of (mem t) pg q = (if q = vpage a then map_pte pa perm 0 else pte_of (mem s) pg q)"
proof -
  note d = vpage_bound [of a]
  have "\<exists>u t ws. walkpgdir pg a True s = Inr (slot u (vpage a mod 1024), t) \<and> builds pg s vs t ws
      \<and> tab (mem t) pg (vpage a div 1024) = Some u
      \<and> length vs = length ws + (if tab (mem s) pg (vpage a div 1024) = None then 1 else 0)
      \<and> (\<forall>p < 1048576. pte_of (mem t) pg p = pte_of (mem s) pg p)"
  proof (cases "tab (mem s) pg (vpage a div 1024)")
    case None
    then obtain v ws where vs: "vs = v # ws" using room by (cases vs) auto
    from walk_alloc [OF ok [unfolded vs] None] obtain t where
      t: "walkpgdir pg a True s = Inr (slot v (vpage a mod 1024), t)" "tab (mem t) pg (vpage a div 1024) = Some v"
        "\<forall>p < 1048576. pte_of (mem t) pg p = pte_of (mem s) pg p" by blast
    with walk_alloc_builds [OF ok [unfolded vs] None t(1)] None show ?thesis
      by (intro exI [of _ v] exI [of _ t] exI [of _ ws]) (simp add: vs)
  next
    case (Some u)
    then show ?thesis using walk_present [OF Some] builds_refl [OF ok]
      by (intro exI [of _ u] exI [of _ s] exI [of _ vs]) simp
  qed
  then obtain u t ws where w: "walkpgdir pg a True s = Inr (slot u (vpage a mod 1024), t)" "builds pg s vs t ws"
      "tab (mem t) pg (vpage a div 1024) = Some u"
      "length vs = length ws + (if tab (mem s) pg (vpage a div 1024) = None then 1 else 0)"
      "\<forall>p < 1048576. pte_of (mem t) pg p = pte_of (mem s) pg p" by blast
  have okt: "pt_ok t ws pg" using w(2) by (simp add: builds_def)
  let ?m = "st32 (slot u (vpage a mod 1024)) (pa OR perm OR PTE_P) (mem t)"
  have pte: "ld32 (slot u (vpage a mod 1024)) (mem t) AND PTE_P = 0"
    using new w(5) [rule_format, OF d(1)] w(3) by (simp add: pte_of_def)
  have nz: "slot u (vpage a mod 1024) \<noteq> 0"
    using slot_nonzero pt_ok_tab(1) [OF okt d(2) w(3)] d(3) by blast
  note sp = set_pte_builds [OF okt w(3) d(1)]
  show thesis
  proof (rule that [of "t\<lparr>mem := ?m\<rparr>" ws])
    show "mappages_loop pg a n pa perm s =
        (case n of 0 \<Rightarrow> Inr (0, t\<lparr>mem := ?m\<rparr>)
         | Suc n \<Rightarrow> mappages_loop pg (a + PGSIZE) n (pa + PGSIZE) perm (t\<lparr>mem := ?m\<rparr>))" for n
      using w(1) pte nz by (simp add: mappages_loop.simps [of pg a] Let_def)
    show "builds pg s vs (t\<lparr>mem := ?m\<rparr>) ws" by (rule builds_trans [OF w(2) sp(1)])
    show "tab (mem (t\<lparr>mem := ?m\<rparr>)) pg (vpage a div 1024) \<noteq> None" using w(3) by (simp add: sp(2) [OF d(2)])
    show "pte_of (mem (t\<lparr>mem := ?m\<rparr>)) pg q
        = (if q = vpage a then map_pte pa perm 0 else pte_of (mem s) pg q)" if "q < 1048576" for q
      using set_pte(2) [OF okt w(3) d(1) refl that] w(5) that by (simp add: map_pte_0)
  qed (use w(4) in simp)
qed

lemma mappages_loop_room:
  assumes "pt_ok s vs pg" and "vpage a + n < 1048576"
    and "\<And>q. vpage a \<le> q \<Longrightarrow> q \<le> vpage a + n \<Longrightarrow> pte_of (mem s) pg q AND PTE_P = 0"
    and "tables_for (mem s) pg (vpage a) n \<le> length vs"
  shows "\<exists>t ws. mappages_loop pg a n pa perm s = Inr (0, t) \<and> builds pg s vs t ws
    \<and> length vs \<le> length ws + tables_for (mem s) pg (vpage a) n
    \<and> mapped_range (mem s) (mem t) pg (vpage a) (Suc n) pa perm"
  using assms
proof (induction n arbitrary: s vs a pa)
  case 0
  have room: "tab (mem s) pg (vpage a div 1024) = None \<longrightarrow> vs \<noteq> []" using 0(4) by (auto simp: tables_for_def)
  obtain t ws where t: "\<And>n. mappages_loop pg a n pa perm s =
        (case n of 0 \<Rightarrow> Inr (0, t) | Suc n \<Rightarrow> mappages_loop pg (a + PGSIZE) n (pa + PGSIZE) perm t)" "builds pg s vs t ws"
      "tab (mem t) pg (vpage a div 1024) \<noteq> None"
      "length vs = length ws + (if tab (mem s) pg (vpage a div 1024) = None then 1 else 0)"
      "\<And>q. q < 1048576 \<Longrightarrow>
            pte_of (mem t) pg q = (if q = vpage a then map_pte pa perm 0 else pte_of (mem s) pg q)"
    by (rule mappages_step_room [OF 0(1) 0(3) [OF le_refl le_add1] room, of pa perm]) (rule that)
  then show ?case by (intro exI [of _ t] exI [of _ ws]) (auto simp: tables_for_def mapped_range_def)
next
  case (Suc n)
  have room: "tab (mem s) pg (vpage a div 1024) = None \<longrightarrow> vs \<noteq> []" using Suc.prems(4) by (auto simp: tables_for_def)
  obtain t ws where t: "\<And>n. mappages_loop pg a n pa perm s =
        (case n of 0 \<Rightarrow> Inr (0, t) | Suc n \<Rightarrow> mappages_loop pg (a + PGSIZE) n (pa + PGSIZE) perm t)"
      "builds pg s vs t ws" "tab (mem t) pg (vpage a div 1024) \<noteq> None"
      "length vs = length ws + (if tab (mem s) pg (vpage a div 1024) = None then 1 else 0)"
      "\<And>q. q < 1048576 \<Longrightarrow>
            pte_of (mem t) pg q = (if q = vpage a then map_pte pa perm 0 else pte_of (mem s) pg q)"
    by (rule mappages_step_room [OF Suc.prems(1) Suc.prems(3) [OF le_refl le_add1] room, of pa perm]) (rule that)
  have va: "vpage (a + PGSIZE) = Suc (vpage a)" using Suc.prems(2) by (intro vpage_add) simp
  have tf: "tables_for (mem t) pg (Suc (vpage a)) n + (if tab (mem s) pg (vpage a div 1024) = None then 1 else 0)
      \<le> tables_for (mem s) pg (vpage a) (Suc n)"
  proof (cases "Suc (vpage a) div 1024 = vpage a div 1024")
    case True
    then show ?thesis using t(3) by (auto simp: tables_for_def)
  next
    case False
    then have "Suc (vpage a) div 1024 = Suc (vpage a div 1024)" by (simp add: div_Suc split: if_splits)
    moreover have "Suc (vpage a) div 1024 \<le> (Suc (vpage a) + n) div 1024" by (rule div_le_mono) simp
    ultimately show ?thesis by (auto simp: tables_for_def intro: diff_le_mono diff_le_mono2)
  qed
  have "\<exists>u xs. mappages_loop pg (a + PGSIZE) n (pa + PGSIZE) perm t = Inr (0, u) \<and> builds pg t ws u xs
    \<and> length ws \<le> length xs + tables_for (mem t) pg (Suc (vpage a)) n
    \<and> mapped_range (mem t) (mem u) pg (Suc (vpage a)) (Suc n) (pa + PGSIZE) perm"
    using Suc.IH [of t ws "a + PGSIZE" "pa + PGSIZE"] t(2,4,5) Suc.prems(2,3,4) tf
    by (simp add: va builds_def)
  then obtain u xs where u: "mappages_loop pg (a + PGSIZE) n (pa + PGSIZE) perm t = Inr (0, u)" "builds pg t ws u xs"
    "length ws \<le> length xs + tables_for (mem t) pg (Suc (vpage a)) n"
    "mapped_range (mem t) (mem u) pg (Suc (vpage a)) (Suc n) (pa + PGSIZE) perm" by blast
  show ?case
    using t(1) u(1) builds_trans [OF t(2) u(2)] mapped_range_Suc [OF u(4) t(5)] u(3) t(4) tf
    by (intro exI [of _ u] exI [of _ xs]) simp
qed

lemma mappages_room:
  assumes "pt_ok s vs pg" and "0 < sz" and "unat va + unat sz \<le> 4294967296"
    and "\<And>q. vpage va \<le> q \<Longrightarrow> q \<le> vpage (va + sz - 1) \<Longrightarrow> pte_of (mem s) pg q AND PTE_P = 0"
    and "vpage (va + sz - 1) div 1024 - vpage va div 1024 + 1 \<le> length vs"
  shows "\<exists>t ws. mappages pg va sz pa perm s = Inr (0, t) \<and> builds pg s vs t ws
    \<and> length vs \<le> length ws + (vpage (va + sz - 1) div 1024 - vpage va div 1024 + 1)
    \<and> mapped_range (mem s) (mem t) pg (vpage va) (Suc (vpage (va + sz - 1)) - vpage va) pa perm"
proof -
  have z: "0 < unat sz" using assms(2) by (simp add: word_less_nat_alt)
  have "va + sz - 1 = va + (sz - 1)" by simp
  moreover have "unat (sz - 1) = unat sz - 1" using z by (simp add: unat_sub32 word_le_nat_alt)
  ultimately have "unat (va + sz - 1) = unat va + (unat sz - 1)"
    using assms(3) z by (simp only:) (subst unat_add32, auto)
  then have le: "vpage va \<le> vpage (va + sz - 1)" by (simp add: vpage_def div_le_mono)
  then have n: "unat ((PGROUNDDOWN (va + sz - 1) - PGROUNDDOWN va) div PGSIZE) = vpage (va + sz - 1) - vpage va"
    by (rule unat_page_gap)
  have tf: "tables_for (mem s) pg (vpage va) (vpage (va + sz - 1) - vpage va)
      \<le> vpage (va + sz - 1) div 1024 - vpage va div 1024 + 1"
    using div_le_mono [OF le, of 1024] le by (simp add: tables_for_def Suc_diff_le)
  obtain t ws where t: "mappages_loop pg (PGROUNDDOWN va) (vpage (va + sz - 1) - vpage va) pa perm s = Inr (0, t)"
      "builds pg s vs t ws" "length vs \<le> length ws + tables_for (mem s) pg (vpage va) (vpage (va + sz - 1) - vpage va)"
      "mapped_range (mem s) (mem t) pg (vpage va) (Suc (vpage (va + sz - 1) - vpage va)) pa perm"
    using mappages_loop_room [OF assms(1), of "PGROUNDDOWN va" "vpage (va + sz - 1) - vpage va" pa perm]
      assms(4,5) le vpage_bound(1) [of "va + sz - 1"] tf
    by (auto simp: vpage_rounddown)
  then show ?thesis using le tf
    by (intro exI [of _ t] exI [of _ ws]) (simp add: mappages_def n Suc_diff_le)
qed

section \<open>The kernel part\<close>

text \<open>
  What \<open>setupkvm\<close> maps: physical memory from \<open>KERNBASE\<close> on, writable but for the text of the kernel, and
  the devices at their own addresses; nothing for the user.
\<close>

definition kernel_pte :: "u32 \<Rightarrow> nat \<Rightarrow> u32" where
  "kernel_pte data q =
     (let a = of_nat (4096 * q) in
      if 0x80000 \<le> q \<and> q < 0x8E000
      then (a - KERNBASE) OR (if 0x80100 \<le> q \<and> q < vpage data then 0 else PTE_W) OR PTE_P
      else if 0xFE000 \<le> q then a OR PTE_W OR PTE_P else 0)"

lemma map_pte_at: "p \<le> q \<Longrightarrow> map_pte pa perm (q - p) = (of_nat (4096 * q) + (pa - of_nat (4096 * p))) OR perm OR PTE_P"
  by (simp add: map_pte_def right_diff_distrib' of_nat_diff algebra_simps)

lemma fresh_directory:
  assumes "kmem_rep s (v # vs)"
  shows "\<exists>t. kalloc s = Inr (v, t) \<and> t = s\<lparr>freelist := freelist t\<rparr>
    \<and> pt_ok (t\<lparr>mem := memset v 0 PGSIZE (mem t)\<rparr>) vs v
    \<and> (\<forall>i < 1024. tab (memset v 0 PGSIZE (mem t)) v i = None)"
proof -
  have v: "page_ok (kend s) v" "v \<notin> set vs" "v \<noteq> 0" "L_kmem \<notin> set (held s)" "freelist s = v"
    using assms page_ok_nonzero by (auto simp: kmem_rep_def)
  have al: "aligned v" using v(1) by (simp add: page_ok_def)
  obtain t where t: "kalloc s = Inr (v, t)" "kmem_rep t vs" "mem t = mem s" "held t = held s" "kend t = kend s"
    using kalloc_pops [OF assms] by auto
  have tt: "t = s\<lparr>freelist := freelist t\<rparr>" using t(1) kalloc_eq [OF v(4)] v(3,5) by auto
  have none: "tab (memset v 0 PGSIZE (mem t)) v i = None" if "i < 1024" for i
    using ld32_zeroed [OF al that] by (simp add: tab_def)
  have "kmem_rep (t\<lparr>mem := memset v 0 PGSIZE (mem t)\<rparr>) vs"
    by (rule kmem_rep_frame [OF t(2) al v(2)]) (simp add: memset_fill)
  then have "pt_ok (t\<lparr>mem := memset v 0 PGSIZE (mem t)\<rparr>) vs v"
    using v none t(5) by (simp add: pt_ok_def)
  then show ?thesis using t(1) tt none by blast
qed

lemma kmap_ranges:
  assumes "aligned data" and "0x80100000 < data" and "data < 0x80400000"
  shows "vpage data * 4096 = unat data" and "0x80100 < vpage data" and "vpage data < 0x80400"
    and "vpage (data - 1) = vpage data - 1" and "vpage (KERNBASE + EXTMEM + (V2P data - EXTMEM) - 1) = vpage data - 1"
    and "vpage (data + (PHYSTOP - V2P data) - 1) = 0x8DFFF"
proof -
  have u: "unat data mod 4096 = 0" using assms(1) by (simp add: aligned_unat)
  have b: "0x80100000 < unat data" "unat data < 0x80400000" using assms(2,3) by (simp_all add: word_less_nat_alt)
  show v: "vpage data * 4096 = unat data" using u by (simp add: vpage_def mult.commute minus_mod_eq_mult_div [symmetric])
  show "0x80100 < vpage data" "vpage data < 0x80400" using v b by linarith+
  have "unat (data - 1) = unat data - 1" using b by (simp add: unat_sub32 word_le_nat_alt)
  then show d: "vpage (data - 1) = vpage data - 1"
    using v b by (simp add: vpage_def)
  have "KERNBASE + EXTMEM + (V2P data - EXTMEM) - 1 = data - 1" by (simp add: V2P_def)
  then show "vpage (KERNBASE + EXTMEM + (V2P data - EXTMEM) - 1) = vpage data - 1" using d by simp
  have "data + (PHYSTOP - V2P data) - 1 = 0x8DFFFFFF" by (simp add: V2P_def)
  then show "vpage (data + (PHYSTOP - V2P data) - 1) = 0x8DFFF" by (simp add: vpage_def)
qed

lemma builds_pt: "builds pg s vs t ws \<Longrightarrow> pt_ok t ws pg"
  by (simp add: builds_def)

lemma map_kernel:
  assumes ok: "pt_ok s vs pg" and none: "\<And>q. q < 1048576 \<Longrightarrow> pte_of (mem s) pg q = 0"
    and d: "aligned data" "0x80100000 < data" "data < 0x80400000" and room: "66 \<le> length vs"
  shows "\<exists>t ws. map_entries pg (kmap data) s = Inr (pg, t) \<and> builds pg s vs t ws \<and> length vs \<le> length ws + 66
    \<and> (\<forall>q < 1048576. pte_of (mem t) pg q = kernel_pte data q)"
proof -
  note k = kmap_ranges [OF d]
  have ud: "unat data < 0x80400000" "0x80100000 < unat data" using d by (simp_all add: word_less_nat_alt)
  have V: "unat (V2P data) = unat data - 0x80000000" using ud by (simp add: V2P_def unat_sub32 word_le_nat_alt)
  have len2: "0 < V2P data - EXTMEM" "unat (V2P data - EXTMEM) = unat data - 0x80100000"
    using V ud by (simp_all add: word_less_nat_alt unat_sub32 word_le_nat_alt)
  have len3: "0 < PHYSTOP - V2P data" "unat (PHYSTOP - V2P data) = 0x8E000000 - unat data"
    using V ud by (simp_all add: word_less_nat_alt unat_sub32 word_le_nat_alt)
  have vd: "vpage data div 1024 = 512" "(vpage data - 1) div 1024 = 512"
    using k(2,3) by (auto intro!: div_nat_eqI)
  have v1: "vpage KERNBASE = 0x80000" "vpage (KERNBASE + EXTMEM - 1) = 0x800FF" "vpage (KERNBASE + EXTMEM) = 0x80100"
    "vpage DEVSPACE = 0xFE000" "vpage (DEVSPACE + (0 - DEVSPACE) - 1) = 0xFFFFF"
    by (simp_all add: vpage_def unsigned_minus_1_eq_mask mask_eq_exp_minus_1)
  obtain t1 w1 where 1: "mappages pg KERNBASE EXTMEM 0 PTE_W s = Inr (0, t1)" "builds pg s vs t1 w1"
      "length vs \<le> length w1 + 1" "mapped_range (mem s) (mem t1) pg 0x80000 0x100 0 PTE_W"
    using mappages_room [OF ok, of EXTMEM KERNBASE 0 PTE_W, unfolded v1] none room by auto
  have p1: "pte_of (mem t1) pg q = (if 0x80000 \<le> q \<and> q < 0x80100 then map_pte 0 PTE_W (q - 0x80000) else 0)"
    if "q < 1048576" for q using 1(4) that none by (simp add: mapped_range_def)
  obtain t2 w2 where 2: "mappages pg (KERNBASE + EXTMEM) (V2P data - EXTMEM) EXTMEM 0 t1 = Inr (0, t2)" "builds pg t1 w1 t2 w2"
      "length w1 \<le> length w2 + 1" "mapped_range (mem t1) (mem t2) pg 0x80100 (vpage data - 0x80100) EXTMEM 0"
    using mappages_room [OF builds_pt [OF 1(2)], of "V2P data - EXTMEM" "KERNBASE + EXTMEM" EXTMEM 0, unfolded k(5) v1(3) vd(2)]
      len2 ud k(2,3) p1 room 1(3) by auto
  have p2: "pte_of (mem t2) pg q = (if 0x80100 \<le> q \<and> q < vpage data then map_pte EXTMEM 0 (q - 0x80100)
      else if 0x80000 \<le> q \<and> q < 0x80100 then map_pte 0 PTE_W (q - 0x80000) else 0)"
    if "q < 1048576" for q using 2(4) that p1 k(2) by (simp add: mapped_range_def)
  obtain t3 w3 where 3: "mappages pg data (PHYSTOP - V2P data) (V2P data) PTE_W t2 = Inr (0, t3)" "builds pg t2 w2 t3 w3"
      "length w2 \<le> length w3 + 56" "mapped_range (mem t2) (mem t3) pg (vpage data) (0x8E000 - vpage data) (V2P data) PTE_W"
    using mappages_room [OF builds_pt [OF 2(2)], of "PHYSTOP - V2P data" data "V2P data" PTE_W, unfolded k(6) vd(1)]
      len3 ud k(2,3) p2 room 1(3) 2(3) by auto
  have p3: "pte_of (mem t3) pg q = (if vpage data \<le> q \<and> q < 0x8E000 then map_pte (V2P data) PTE_W (q - vpage data)
      else if 0x80100 \<le> q \<and> q < vpage data then map_pte EXTMEM 0 (q - 0x80100)
      else if 0x80000 \<le> q \<and> q < 0x80100 then map_pte 0 PTE_W (q - 0x80000) else 0)"
    if "q < 1048576" for q using 3(4) that p2 k(2,3) by (simp add: mapped_range_def)
  obtain t4 w4 where 4: "mappages pg DEVSPACE (0 - DEVSPACE) DEVSPACE PTE_W t3 = Inr (0, t4)" "builds pg t3 w3 t4 w4"
      "length w3 \<le> length w4 + 8" "mapped_range (mem t3) (mem t4) pg 0xFE000 0x2000 DEVSPACE PTE_W"
    using mappages_room [OF builds_pt [OF 3(2)], of "0 - DEVSPACE" DEVSPACE DEVSPACE PTE_W, unfolded v1]
      p3 room 1(3) 2(3) 3(3) k(2,3) by (auto simp: word_less_nat_alt)
  have p4: "pte_of (mem t4) pg q = kernel_pte data q" if q: "q < 1048576" for q
  proof -
    have pd: "of_nat (4096 * vpage data) = data" using arg_cong [OF k(1), of "of_nat :: nat \<Rightarrow> u32"] by (simp add: mult.commute del: of_nat_mult)
    have "pte_of (mem t4) pg q = (if 0xFE000 \<le> q then map_pte DEVSPACE PTE_W (q - 0xFE000) else pte_of (mem t3) pg q)"
      using 4(4) q by (simp add: mapped_range_def)
    then show ?thesis using k(2,3)
      unfolding p3 [OF q] kernel_pte_def Let_def
      by (auto simp: map_pte_at pd V2P_def not_le simp del: of_nat_mult)
  qed
  have "builds pg s vs t4 w4" using 1(2) 2(2) 3(2) 4(2) builds_trans by blast
  then show ?thesis using 1(1,3) 2(1,3) 3(1,3) 4(1,3) p4
    by (intro exI [of _ t4] exI [of _ w4]) (simp add: kmap_def V2P_def)
qed

lemma setupkvm_room:
  assumes rep: "kmem_rep s (v # vs)" and d: "aligned (kdata s)" "0x80100000 < kdata s" "kdata s < 0x80400000"
    and room: "66 \<le> length vs"
  shows "\<exists>t ws. setupkvm s = Inr (v, t) \<and> pt_ok t ws v \<and> held t = held s \<and> only_memory s t \<and> v \<noteq> 0
    \<and> length vs \<le> length ws + 66 \<and> set ws \<union> owned (mem t) v \<subseteq> insert v (set vs)
    \<and> untouched (insert v (set vs)) (mem s) (mem t)
    \<and> (\<forall>q < 1048576. pte_of (mem t) v q = kernel_pte (kdata s) q)"
proof -
  obtain u where u: "kalloc s = Inr (v, u)" "u = s\<lparr>freelist := freelist u\<rparr>"
      "pt_ok (u\<lparr>mem := memset v 0 PGSIZE (mem u)\<rparr>) vs v"
      "\<forall>i < 1024. tab (memset v 0 PGSIZE (mem u)) v i = None"
    using fresh_directory [OF rep] by blast
  define z where "z = u\<lparr>mem := memset v 0 PGSIZE (mem u)\<rparr>"
  have z: "pt_ok z vs v" "mem z = memset v 0 PGSIZE (mem s)" "kdata z = kdata s" "held z = held s"
    using u(3) by (simp_all add: z_def, (subst u(2), simp)+)
  have ku: "kdata u = kdata s" by (subst u(2)) simp
  have none: "pte_of (mem z) v q = 0" if "q < 1048576" for q
  proof -
    have "q div 1024 < 1024" using that by (simp add: div_less_iff_less_mult)
    then show ?thesis using u(4) by (simp add: pte_of_def z_def)
  qed
  have ow: "owned (mem z) v = {v}" using u(4) by (auto simp: owned_def z_def)
  have out: "untouched {v} (mem s) (mem z)" by (simp add: untouched_def z(2) memset_fill)
  obtain t ws where t: "map_entries v (kmap (kdata s)) z = Inr (v, t)" "builds v z vs t ws" "length vs \<le> length ws + 66"
      "\<forall>q < 1048576. pte_of (mem t) v q = kernel_pte (kdata s) q"
    using map_kernel [OF z(1) none d room] by blast
  have nz: "v \<noteq> 0" using page_ok_nonzero pt_okD(2) [OF z(1)] by blast
  have "setupkvm s = Inr (v, t)"
    using u(1) t(1) nz by (simp add: setupkvm_def Let_def z_def [symmetric] ku P2V_def)
  moreover have "wp (setupkvm s) (\<lambda>(r, t). only_memory s t)" by (auto intro!: wpI)
  ultimately have "only_memory s t" by (auto simp: wp_def)
  with \<open>setupkvm s = Inr (v, t)\<close> t(2,3,4) z(4) nz ow untouched_trans [OF untouched_mono [OF out, of "insert v (set vs)"], of "set vs \<union> owned (mem z) v" "mem t"]
  show ?thesis by (intro exI [of _ t] exI [of _ ws]) (auto simp: builds_def)
qed

text \<open>A page table whose pages are not written stays as it is.\<close>

lemma table_kept:
  assumes "untouched A m m'" and "owned m pg \<inter> A = {}" and "\<forall>v \<in> A \<union> owned m pg. aligned v"
  shows "q < 1048576 \<Longrightarrow> pte_of m' pg q = pte_of m pg q" and "owned m' pg = owned m pg"
proof -
  have out: "m' x = m x" if "t \<in> owned m pg" "in_range t 4096 x" for t x
  proof -
    have "\<not> in_range v 4096 x" if "v \<in> A" for v
    proof
      assume "in_range v 4096 x"
      moreover have "aligned v" "aligned t" "v \<noteq> t" using assms(2,3) that \<open>t \<in> owned m pg\<close> by auto
      ultimately show False using \<open>in_range t 4096 x\<close> by (metis aligned_unat in_page_iff div_mult_mod_eq add_0_right word_unat_eq_iff)
    qed
    then show ?thesis using assms(1) by (simp add: untouched_def)
  qed
  have al: "aligned pg" "pg \<in> owned m pg" using assms(3) by (auto simp: owned_def)
  have tab: "tab m' pg i = tab m pg i" if "i < 1024" for i
    using tab_frame [OF al(1) that] out [OF al(2)] by blast
  then show "owned m' pg = owned m pg" by (simp add: owned_def cong: conj_cong)
  show "pte_of m' pg q = pte_of m pg q" if "q < 1048576"
  proof -
    have i: "q div 1024 < 1024" using that by (simp add: div_less_iff_less_mult)
    show ?thesis
    proof (cases "tab m pg (q div 1024)")
      case (Some t)
      then have "t \<in> owned m pg" using i by (auto simp: owned_def)
      then have "ld32 (slot t (q mod 1024)) m' = ld32 (slot t (q mod 1024)) m"
        using out assms(3) by (intro ld32_slot_frame) auto
      then show ?thesis using Some by (simp add: pte_of_def tab [OF i])
    qed (simp add: pte_of_def tab [OF i])
  qed
qed

end
