(* ===== verification/Xv6_MainSpec.thy ===== *)
theory Xv6_MainSpec
  imports Xv6_Main Xv6_MapRoom Xv6_TrapSpec Xv6_Memide
begin

text \<open>
  What the start of the kernel leads to: \<open>main\<close> comes through on a machine with a table of processors, and
  hands over a kernel page table, a free list, a buffer cache and a first process as the other theories
  assume them.
\<close>

section \<open>Memory that stays\<close>

lemma kmem_rep_kept:
  assumes "kmem_rep s vs" and "untouched A (mem s) m'" and "A \<inter> set vs = {}" and "\<forall>v \<in> A. aligned v"
  shows "kmem_rep (s\<lparr>mem := m'\<rparr>) vs"
proof -
  have "m' (v + of_nat i) = mem s (v + of_nat i)" if v: "v \<in> set vs" and i: "i < 4" for v i
  proof -
    have "aligned v" using assms(1) v by (auto simp: kmem_rep_def page_ok_def)
    then have "\<not> in_range u 4096 (v + of_nat i)" if "u \<in> A" for u
      using that assms(3,4) v i by (intro pages_disjoint) auto
    then show ?thesis using assms(2) by (auto simp: untouched_def)
  qed
  then have "flist m' (freelist s) vs = flist (mem s) (freelist s) vs" by (intro flist_frame)
  then show ?thesis using assms(1) by (simp add: kmem_rep_def)
qed

lemma owned_ok: "pt_ok s vs pg \<Longrightarrow> v \<in> owned (mem s) pg \<Longrightarrow> page_ok (kend s) v \<and> v \<notin> set vs"
  by (auto simp: owned_def dest: pt_okD pt_ok_tab)

lemma pages_aligned: "kmem_rep s vs \<Longrightarrow> v \<in> set vs \<Longrightarrow> aligned v"
  by (auto simp: kmem_rep_def page_ok_def)

lemma pt_ok_kept:
  assumes "pt_ok s vs pg" and "untouched A (mem s) m'" and "A \<inter> (set vs \<union> owned (mem s) pg) = {}" and "\<forall>v \<in> A. aligned v"
  shows "pt_ok (s\<lparr>mem := m'\<rparr>) vs pg" and "q < 1048576 \<Longrightarrow> pte_of m' pg q = pte_of (mem s) pg q"
    and "owned m' pg = owned (mem s) pg"
proof -
  have o: "\<forall>v \<in> A \<union> owned (mem s) pg. aligned v" using assms(4) owned_ok [OF assms(1)] by (auto simp: page_ok_def)
  have d: "owned (mem s) pg \<inter> A = {}" using assms(3) by blast
  show "q < 1048576 \<Longrightarrow> pte_of m' pg q = pte_of (mem s) pg q" "owned m' pg = owned (mem s) pg"
    using table_kept [OF assms(2) d o] by blast+
  have "m' x = mem s x" if "in_range pg 4096 x" for x
  proof -
    have "pg \<in> owned (mem s) pg" by (simp add: owned_def)
    then have "aligned pg" "pg \<notin> A" using o d by auto
    then have "\<not> in_range v 4096 x" if "v \<in> A" for v
      using that \<open>in_range pg 4096 x\<close> o
      by (metis UnI1 aligned_unat in_page_iff div_mult_mod_eq add_0_right word_unat_eq_iff)
    then show ?thesis using assms(2) by (auto simp: untouched_def)
  qed
  then have "tab m' pg i = tab (mem s) pg i" if "i < 1024" for i
    using tab_frame [OF pt_okD(4) [OF assms(1)] that] by blast
  moreover have "kmem_rep (s\<lparr>mem := m'\<rparr>) vs"
    using assms by (intro kmem_rep_kept [OF pt_okD(1)]) auto
  ultimately show "pt_ok (s\<lparr>mem := m'\<rparr>) vs pg" using assms(1) by (simp add: pt_ok_def)
qed

text \<open>The pages below the end of the kernel.\<close>

definition low :: "u32 \<Rightarrow> u32 set" where
  "low k = {p. aligned p \<and> p < k}"

lemma low_untouched:
  assumes "\<And>x. k \<le> x \<Longrightarrow> m' x = m x"
  shows "untouched (low k) m m'"
  unfolding untouched_def
proof (intro allI impI)
  fix x assume h: "\<forall>v \<in> low k. \<not> in_range v 4096 x"
  show "m' x = m x"
  proof (cases "k \<le> x")
    case False
    have u: "unat (PGROUNDDOWN x) = unat x - unat x mod 4096" by (rule unat_PGROUNDDOWN)
    then have "PGROUNDDOWN x \<le> x" by (simp add: word_le_nat_alt)
    then have "PGROUNDDOWN x \<in> low k" using False PGROUNDDOWN_aligned by (auto simp: low_def)
    moreover have "in_range (PGROUNDDOWN x) 4096 x"
      using u \<open>PGROUNDDOWN x \<le> x\<close> by (simp add: in_range_def unat_sub32 word_le_nat_alt)
    ultimately show ?thesis using h by blast
  qed (use assms in auto)
qed

lemma page_not_low: "page_ok k v \<Longrightarrow> v \<notin> low k"
  by (auto simp: page_ok_def low_def)

lemma high_same:
  assumes "untouched A m m'" and "\<forall>v \<in> A. page_ok k v" and "x < k"
  shows "m' x = m x"
proof -
  have "\<not> in_range v 4096 x" if "v \<in> A" for v
  proof
    have v: "k \<le> v" "V2P v < PHYSTOP" using assms(2) that by (auto simp: page_ok_def)
    have "x < v" using v(1) assms(3) by simp
    assume "in_range v 4096 x"
    then have "unat (x - v) < 4096" by (simp add: in_range_def)
    moreover have "unat v < 0x8E000000" using V2P_bound(3) [OF v(2)] by (simp add: word_less_nat_alt)
    ultimately show False using \<open>x < v\<close> by (auto simp: unat_sub_if' word_less_nat_alt split: if_splits)
  qed
  then show ?thesis using assms(1) by (auto simp: untouched_def)
qed

section \<open>The allocator\<close>

lemma free_loop_frame:
  assumes "free_loop p vend s = Inr t" and "aligned p" and "L_kmem \<notin> set (held s)"
  shows "only_memory s t \<and> untouched (pages_between p vend) (mem s) (mem t)"
  using assms
proof (induction p vend s rule: free_loop.induct)
  case (1 p vend s)
  show ?case
  proof (cases "p + PGSIZE \<le> vend")
    case True
    then obtain u where u: "kfree p s = Inr u" "free_loop (p + PGSIZE) vend u = Inr t"
      using 1(2) by (subst (asm) free_loop.simps) (auto simp: bindE_Inr_iff)
    have g: "page_ok (kend s) p" "unat (p + PGSIZE) = unat p + 4096"
      using kfree_guard [OF u(1)] V2P_bound(1) by (auto simp: page_ok_def aligned_def)
    have le: "unat p + 4096 \<le> unat vend" using True g(2) by (simp add: word_le_nat_alt)
    have al: "aligned (p + PGSIZE)" using 1(3) by (simp only: aligned_unat g(2)) simp
    have h: "held u = held s" using kfree_eq [OF g(1) 1(4)] u(1) by auto
    have "only_memory s u" using wpD [OF kfree_wp [OF only_memory_refl] u(1)] by blast
    moreover have "untouched {p} (mem s) (mem u)"
      using kfree_mem_outside [OF g(1) 1(4) u(1)] by (simp add: untouched_def)
    moreover have "only_memory u t \<and> untouched (pages_between (p + PGSIZE) vend) (mem u) (mem t)"
      using 1(1) [OF True u(1) u(2) al] h 1(4) by simp
    ultimately show ?thesis
      using only_memory_trans untouched_trans [OF untouched_mono, of "{p}" "mem s" "mem u"
        "pages_between p vend" "pages_between (p + PGSIZE) vend" "mem t"]
      by (auto simp: pages_between_step [OF 1(3) le])
  next
    case False
    then show ?thesis using 1(2) by (simp add: free_loop.simps [of p])
  qed
qed

lemma many_pages:
  fixes k a b :: u32
  assumes "unat k \<le> unat a" and "unat a mod 4096 = 0" and "unat a + 4096 * n \<le> unat b"
  shows "n \<le> card (pages_between k b)"
proof -
  have b: "unat (a + of_nat (4096 * i)) = unat a + 4096 * i" if "i < n" for i
  proof -
    have le: "unat a + 4096 * i < 4294967296" using that assms(3) unat_lt32 [of b] by linarith
    then have "unat (of_nat (4096 * i) :: u32) = 4096 * i" by (intro unat_of_nat32) simp
    then show ?thesis using le unat_add32 [of a "of_nat (4096 * i)"] by (simp del: of_nat_mult)
  qed
  have "inj_on (\<lambda>i. a + of_nat (4096 * i)) {..<n}"
    by (rule inj_onI) (metis b lessThan_iff add_left_cancel mult_left_cancel zero_neq_numeral)
  moreover have "(\<lambda>i. a + of_nat (4096 * i)) ` {..<n} \<subseteq> pages_between k b"
  proof clarify
    fix i assume i: "i < n"
    then have "4096 * Suc i \<le> 4096 * n" by (intro mult_le_mono2) simp
    then show "a + of_nat (4096 * i) \<in> pages_between k b"
      using assms b [OF i] by (simp add: pages_between_def aligned_unat del: of_nat_mult)
  qed
  ultimately show ?thesis using card_mono [of "pages_between k b" "(\<lambda>i. a + of_nat (4096 * i)) ` {..<n}"]
    by (simp add: card_image)
qed

lemma only_memory_eq:
  assumes "only_memory s t" and "held t = held s"
  shows "t = s\<lparr>mem := mem t, freelist := freelist t\<rparr>"
  using assms by (cases s; cases t) (simp add: only_memory_def)

lemma finite_pages [simp]: "finite (pages_between a b)"
  by simp

text \<open>\<open>kinit1\<close> and \<open>kvmalloc\<close>: with 256 pages between the end of the kernel and 4 MB there is room for the kernel's page table.\<close>

definition kernel_image :: "'a vm_state_scheme \<Rightarrow> bool" where
  "kernel_image s \<longleftrightarrow> 0x80100000 < kdata s \<and> aligned (kdata s) \<and> kdata s \<le> kend s \<and> kend s \<le> 0x80300000"

abbreviation early_pages :: "u32 \<Rightarrow> u32 set" where
  "early_pages k \<equiv> pages_between k 0x80400000"

lemma between_ok: "KERNBASE \<le> k \<Longrightarrow> b \<le> 0x8E000000 \<Longrightarrow> v \<in> pages_between k b \<Longrightarrow> page_ok k v"
proof -
  assume h: "KERNBASE \<le> k" "b \<le> 0x8E000000" "v \<in> pages_between k b"
  then have u: "unat k \<le> unat v" "unat v < 0x8E000000" "0x80000000 \<le> unat k" "aligned v"
    by (auto simp: pages_between_def word_le_nat_alt)
  then have "unat (V2P v) = unat v - 0x80000000" by (simp add: V2P_def unat_sub32 word_le_nat_alt)
  then show ?thesis using u by (simp add: page_ok_def word_le_nat_alt word_less_nat_alt)
qed

text \<open>The free pages \<open>vs\<close> and the pages of the kernel's page table, which maps what it should, are apart and lie in \<open>P\<close>.\<close>

definition kernel_memory :: "'a vm_state_scheme \<Rightarrow> u32 list \<Rightarrow> u32 set \<Rightarrow> bool" where
  "kernel_memory s vs P \<longleftrightarrow> kernel_image s \<and> pt_ok s vs (kpgdir s) \<and> set vs \<union> owned (mem s) (kpgdir s) \<subseteq> P
     \<and> (\<forall>q < 1048576. pte_of (mem s) (kpgdir s) q = kernel_pte (kdata s) q)"

lemma early_init_ok:
  assumes img: "kernel_image s" and "freelist s = 0" and "held s = []"
  shows "\<exists>t vs. early_init s = Inr t
    \<and> t = s\<lparr>mem := mem t, freelist := freelist t, use_lock := False, kpgdir := kpgdir t, cr3 := V2P (kpgdir t)\<rparr>
    \<and> kernel_memory t vs (early_pages (kend s)) \<and> 189 \<le> length vs \<and> (\<forall>x < kend s. mem t x = mem s x)"
proof -
  let ?s = "s\<lparr>use_lock := False\<rparr>"
  have k: "0x80100000 < unat (kend s)" "unat (kend s) \<le> 0x80300000" "0x80100000 < kdata s" "kdata s < 0x80400000" "aligned (kdata s)"
    using img unfolding kernel_image_def by (auto simp: word_le_nat_alt word_less_nat_alt)
  have kb: "KERNBASE \<le> kend s" using k(1) by (simp add: word_le_nat_alt)
  have rep: "kmem_rep ?s []" using assms(2,3) by (simp add: kmem_rep_def)
  have e: "P2V 4194304 = 0x80400000" by (simp add: P2V_def)
  obtain u ps where u: "freerange (kend s) 0x80400000 ?s = Inr u" "kmem_rep u ps" "set ps = early_pages (kend s)" "held u = held s"
    using freerange_frees [OF rep, of "kend s" "0x80400000"] k(1,2) kb by (auto simp: word_le_nat_alt)
  have fr: "only_memory ?s u \<and> untouched (pages_between (PGROUNDUP (kend s)) 0x80400000) (mem ?s) (mem u)"
    using free_loop_frame [of "PGROUNDUP (kend s)" "0x80400000" ?s u] u(1) assms(3) PGROUNDUP_aligned by (simp add: freerange_def)
  have "pages_between (PGROUNDUP (kend s)) 0x80400000 \<subseteq> early_pages (kend s)"
    using unat_PGROUNDUP [of "kend s"] k(2) by (auto simp: pages_between_def)
  then have out: "untouched (early_pages (kend s)) (mem s) (mem u)" using fr untouched_mono by fastforce
  have ueq: "u = ?s\<lparr>mem := mem u, freelist := freelist u\<rparr>" using only_memory_eq [of ?s u] fr u(4) by simp
  have "256 \<le> card (set ps)"
    unfolding u(3) using many_pages [of "kend s" "0x80300000" 256 "0x80400000"] k(2) by simp
  moreover have "distinct ps" using u(2) by (simp add: kmem_rep_def)
  ultimately have len: "256 \<le> length ps" by (simp add: distinct_card)
  then obtain v vs where ps: "ps = v # vs" by (cases ps) auto
  have ku: "kdata u = kdata s" "kend u = kend s" using arg_cong [OF ueq, of kdata] arg_cong [OF ueq, of kend] by simp_all
  obtain t ws where t: "setupkvm u = Inr (v, t)" "pt_ok t ws v" "held t = held u" "only_memory u t"
      "length vs \<le> length ws + 66" "set ws \<union> owned (mem t) v \<subseteq> insert v (set vs)"
      "untouched (insert v (set vs)) (mem u) (mem t)" "\<forall>q < 1048576. pte_of (mem t) v q = kernel_pte (kdata u) q"
    using setupkvm_room [OF u(2) [unfolded ps]] k len ps ku by auto
  have teq: "t = u\<lparr>mem := mem t, freelist := freelist t\<rparr>" by (rule only_memory_eq [OF t(4,3)])
  have kt: "kdata t = kdata s" "kend t = kend s" using arg_cong [OF teq, of kdata] arg_cong [OF teq, of kend] ku by simp_all
  define r where "r = switchkvm (t\<lparr>kpgdir := v\<rparr>)"
  have run: "early_init s = Inr r"
    using u(1) t(1) by (simp add: early_init_def kinit1_def kvmalloc_def e r_def)
  have req: "r = s\<lparr>mem := mem r, freelist := freelist r, use_lock := False, kpgdir := kpgdir r, cr3 := V2P (kpgdir r)\<rparr>"
    unfolding r_def switchkvm_def by (subst teq, subst ueq) (cases s, simp)
  have "pt_ok r ws v" using t(2) by (simp add: r_def switchkvm_def pt_ok_def kmem_rep_def)
  then have km: "kernel_memory r ws (early_pages (kend s))"
    using t(6,8) img u(3) ps kt ku
    by (auto simp: kernel_memory_def kernel_image_def r_def switchkvm_def)
  have "mem r x = mem s x" if "x < kend s" for x
  proof -
    have "mem u x = mem s x"
      by (rule high_same [OF out _ that]) (use between_ok [OF kb, of "0x80400000"] in auto)
    moreover have "mem t x = mem u x"
      by (rule high_same [OF t(7) _ that]) (use u(3) ps between_ok [OF kb, of "0x80400000"] in auto)
    ultimately show ?thesis by (simp add: r_def switchkvm_def)
  qed
  then show ?thesis using run req km t(5) len ps by (intro exI [of _ r] exI [of _ ws]) simp
qed

section \<open>The devices\<close>

text \<open>
  What the devices have to do for \<open>main\<close> to come through: the local APIC at \<open>base\<close> tells every processor its
  id and gets its messages delivered, and the disk becomes ready.
\<close>

definition answering :: "devices \<Rightarrow> u32 \<Rightarrow> u8 \<Rightarrow> bool" where
  "answering w base a \<longleftrightarrow> (\<forall>h. w (h @ [Load (base + 32)]) = push_bit 24 (ucast a)
     \<and> w (h @ [Load (base + 768)]) AND 0x1000 = 0 \<and> (ucast (ucast (w (h @ [InB 0x1F7])) :: u8) :: u32) AND 0xC0 = 0x40)"

lemma lapicinit_returns: "answering w base a \<Longrightarrow> \<exists>h'. lapicinit w base h = Some h'"
proof -
  assume a: "answering w base a"
  have "wait_delivery w base h = Some (h @ [Load (base + 768)])" for h
    using a by (subst wait_delivery.simps) (simp add: mmio_load_def Let_def answering_def)
  then show ?thesis by (simp add: lapicinit_def Let_def split_beta)
qed

lemma ideinit_returns: "answering w base a \<Longrightarrow> \<exists>d h'. ideinit w n h = Some (d, h')"
proof -
  assume a: "answering w base a"
  have "\<exists>x. ide_ready w h = Some x" for h
    using a by (subst ide_ready.simps) (simp add: port_in_def Let_def answering_def)
  then obtain x where "ide_ready w (ioapicenable 14 (n - 1) h) = Some x" by blast
  then show ?thesis by (cases x) (simp add: ideinit_def idewait_def split_beta Let_def)
qed

lemma drop_id: "drop_bit 24 (push_bit 24 (ucast (a :: u8)) :: u32) = ucast a"
  by (rule bit_word_eqI) (auto simp: bit_simps dest: bit_imp_le_length)

lemma ucast_u8_inj: "(ucast (a :: u8) :: u32) = ucast b \<longleftrightarrow> a = b"
  by simp

text \<open>The processors of the machine, found by \<open>mpinit\<close>.\<close>

definition has_processors :: "boot_env \<Rightarrow> u8 list \<Rightarrow> 'a machine_scheme \<Rightarrow> bool" where
  "has_processors env ids s \<longleftrightarrow> \<not> eflags_if s \<and> lapic_base s \<noteq> 0 \<and> distinct ids \<and> take (length ids) (cpu_ids s) = ids
     \<and> n_cpu s = length ids \<and> (\<forall>a \<in> set ids. answering (dev env a) (lapic_base s) a)"

lemma mycpu_ok:
  assumes "has_processors env ids s" and "c < length ids"
  shows "mycpu env (ids ! c) s = Inr (c, s\<lparr>acc := acc s @ [Load (lapic_base s + 32)]\<rparr>)"
proof -
  have "find_slot (\<lambda>x. (ucast x :: u32) = ucast (ids ! c)) ids = Some c"
    unfolding find_slot_Some ucast_u8_inj
    using assms by (auto simp: has_processors_def nth_eq_iff_index_eq)
  moreover have "take (length ids) (cpu_ids s) = ids" using assms(1) unfolding has_processors_def by metis
  moreover have "answering (dev env (ids ! c)) (lapic_base s) (ids ! c)" using assms by (simp add: has_processors_def)
  ultimately show ?thesis using assms(1)
    by (simp add: mycpu_def lapicid_def mmio_load_def Let_def has_processors_def answering_def drop_id)
qed

text \<open>The table that the BIOS leaves, which the memory the kernel hands out does not touch.\<close>

definition bios_table :: "memory \<Rightarrow> u32 \<Rightarrow> u32 \<Rightarrow> mp_entry list \<Rightarrow> bool" where
  "bios_table m k base es \<longleftrightarrow> (\<forall>m'. (\<forall>x < k. m' x = m x) \<longrightarrow> (\<exists>conf mp.
     mpconfig m' = Some (conf, mp) \<and> mp_table m' conf es \<and> conf_lapicaddr conf m' = base))"

text \<open>The screen and the console as they are when the kernel starts.\<close>

definition blank_console :: "'a cons_state_scheme \<Rightarrow> bool" where
  "blank_console s \<longleftrightarrow> \<not> panicked s \<and> 0 \<le> crtpos s \<and> crtpos s < 24 * 80 \<and> held s = []"

lemma cprintf_blank:
  assumes "blank_console s" and "cformat fmt as = Inr cs"
  shows "\<exists>c p out. cprintf fmt as s = Inr (s\<lparr>uartout := out, crtpos := p, crt := c\<rparr>) \<and> 0 \<le> p \<and> p < 24 * 80"
proof -
  obtain t where t: "cprintf fmt as s = Inr t" "printed s t"
    using cprintf_prints [of s, OF _ _ _ _ assms(2)] assms(1) by (auto simp: blank_console_def)
  then show ?thesis unfolding printed_def by blast
qed

lemma ioapicinit_message: "\<exists>cs. cformat (code (''ioapicinit: id isn'' @ [CHR 0x27] @ ''t equal to ioapicid; not a MP'' @ [CHR 0x0A])) [] = Inr cs"
  by (simp add: code_def)

lemma main_ioapicinit_ok:
  assumes "blank_console s"
  shows "\<exists>c p out h. main_ioapicinit env a s = Inr (s\<lparr>uartout := out, crtpos := p, crt := c, acc := h\<rparr>) \<and> 0 \<le> p \<and> p < 24 * 80"
proof -
  obtain d h where io: "ioapicinit (dev env a) (io_apic_id s) (acc s) = (d, h)" by fastforce
  obtain cs where cs: "cformat (code (''ioapicinit: id isn'' @ [CHR 0x27] @ ''t equal to ioapicid; not a MP'' @ [CHR 0x0A])) [] = Inr cs"
    using ioapicinit_message by blast
  show ?thesis
  proof (cases d)
    case True
    obtain c p out where c: "cprintf (code (''ioapicinit: id isn'' @ [CHR 0x27] @ ''t equal to ioapicid; not a MP'' @ [CHR 0x0A])) [] s
        = Inr (s\<lparr>uartout := out, crtpos := p, crt := c\<rparr>)" "0 \<le> p" "p < 24 * 80"
      using cprintf_blank [OF assms cs] by blast
    have "main_ioapicinit env a s = Inr (s\<lparr>uartout := out, crtpos := p, crt := c, acc := h\<rparr>)"
      unfolding main_ioapicinit_def io Let_def using True c(1) by simp
    then show ?thesis using c(2,3) by blast
  next
    case False
    have "s\<lparr>acc := h\<rparr> = s\<lparr>uartout := uartout s, crtpos := crtpos s, crt := crt s, acc := h\<rparr>" by simp
    then have "main_ioapicinit env a s = Inr (s\<lparr>uartout := uartout s, crtpos := crtpos s, crt := crt s, acc := h\<rparr>)"
      using False io by (simp add: main_ioapicinit_def)
    moreover have "0 \<le> crtpos s" "crtpos s < 24 * 80" using assms by (simp_all add: blank_console_def)
    ultimately show ?thesis by blast
  qed
qed

lemma main_mpinit_ok:
  assumes "bios_table (mem s) k base es" and "n_cpu s = 0" and "length (cpu_ids s) = NCPU" and "length (processor_ids es) \<le> NCPU"
  shows "\<exists>i cs h. main_mpinit env a s = Some (Inr (s\<lparr>cpu_ids := cs, n_cpu := length (processor_ids es), io_apic_id := i,
      lapic_base := base, acc := h\<rparr>)) \<and> take (length (processor_ids es)) cs = processor_ids es"
proof -
  obtain conf mp where t: "mpconfig (mem s) = Some (conf, mp)" "mp_table (mem s) conf es" "conf_lapicaddr conf (mem s) = base"
    using assms(1) unfolding bios_table_def by blast
  let ?m = "\<lparr>mp_mem = mem s, apicids = cpu_ids s, ncpu = n_cpu s, ioapicid = io_apic_id s, lapic = lapic_base s, mp_writes = []\<rparr>"
  let ?b = "ucast (dev env a (acc s @ [OutB 0x22 0x70, InB 0x23]))"
  obtain m where m: "mpinit ?b ?m = Some (Inr m)" "ncpu m = min NCPU (length (processor_ids es))"
      "take (ncpu m) (apicids m) = take NCPU (processor_ids es)" "lapic m = base"
    using mpinit_reads_table [of ?m conf mp es ?b] t assms(2,3) by auto
  then show ?thesis using assms(4) unfolding main_mpinit_def Let_def
    by (intro exI [of _ "ioapicid m"] exI [of _ "apicids m"] exI) simp
qed

text \<open>What the initialisers of the devices leave as it is, and what they set.\<close>

definition same_kernel :: "'a machine_scheme \<Rightarrow> 'a machine_scheme \<Rightarrow> bool" where
  "same_kernel s t \<longleftrightarrow> held t = held s \<and> kend t = kend s \<and> kdata t = kdata s \<and> kpgdir t = kpgdir s
     \<and> procs t = procs s \<and> nextpid t = nextpid s \<and> curproc t = curproc s \<and> initproc t = initproc s
     \<and> kinitcode t = kinitcode s \<and> ktrapret t = ktrapret s \<and> kforkret t = kforkret s
     \<and> inodes t = inodes s \<and> files t = files s \<and> panicked t = panicked s \<and> (blank_console s \<longrightarrow> blank_console t)"

lemma same_kernel_trans: "same_kernel s t \<Longrightarrow> same_kernel t u \<Longrightarrow> same_kernel s u"
  by (simp add: same_kernel_def)

lemma device_init_ok:
  fixes s :: "'a machine_scheme"
  assumes bios: "bios_table (mem s) k base es" and ids: "ids = processor_ids es" "distinct ids" "length ids \<le> NCPU" "me < length ids"
    and cpus: "n_cpu s = 0" "length (cpu_ids s) = NCPU" "length (gdts s) = NCPU"
    and dev: "base \<noteq> 0" "\<not> eflags_if s" "\<forall>a \<in> set ids. answering (dev env a) base a" and con: "blank_console s"
  shows "\<exists>t. device_init env (ids ! me) s = Some (Inr t) \<and> same_kernel s t \<and> has_processors env ids t
    \<and> mem t = mem s \<and> freelist t = freelist s \<and> use_lock t = use_lock s \<and> bufs t = bufs (binit s)
    \<and> idt_table t = tvinit (vecs env) (idt_table s) \<and> gdts t = (gdts s)[me := seginit (gdts s ! me)]
    \<and> cpu_started t = cpu_started s \<and> lapic_base t = base"
proof -
  let ?a = "ids ! me"
  obtain i cs h1 where 1: "main_mpinit env ?a s = Some (Inr (s\<lparr>cpu_ids := cs, n_cpu := length ids, io_apic_id := i,
      lapic_base := base, acc := h1\<rparr>))" "take (length ids) cs = ids"
    using main_mpinit_ok [OF bios cpus(1,2), of env ?a] ids by auto
  define s1 where "s1 = s\<lparr>cpu_ids := cs, n_cpu := length ids, io_apic_id := i, lapic_base := base, acc := h1\<rparr>"
  have ans: "answering (dev env ?a) base ?a" using dev(3) ids(4) by simp
  obtain h2 where 2: "lapicinit (dev env ?a) base h1 = Some h2" using lapicinit_returns [OF ans] by blast
  define s2 where "s2 = s1\<lparr>acc := h2\<rparr>"
  have hp: "has_processors env ids s2"
    using dev ids 1(2) by (simp add: has_processors_def s2_def s1_def)
  have 3: "main_seginit env ?a s2 = Inr (s2\<lparr>acc := h2 @ [Load (base + 32)], gdts := (gdts s)[me := seginit (gdts s ! me)]\<rparr>)"
    using mycpu_ok [OF hp ids(4)] by (simp add: main_seginit_def cpuid_def s2_def s1_def)
  define s4 where "s4 = s2\<lparr>gdts := (gdts s)[me := seginit (gdts s ! me)], acc := picinit (h2 @ [Load (base + 32)])\<rparr>"
  have "blank_console s4" using con by (simp add: s4_def s2_def s1_def blank_console_def)
  then obtain c p out h5 where 5: "main_ioapicinit env ?a s4 = Inr (s4\<lparr>uartout := out, crtpos := p, crt := c, acc := h5\<rparr>)"
      "0 \<le> p" "p < 24 * 80" using main_ioapicinit_ok by blast
  define s5 where "s5 = s4\<lparr>uartout := out, crtpos := p, crt := c, acc := h5\<rparr>"
  define s6 where "s6 = binit ((main_uartinit env ?a (main_consoleinit s5))
      \<lparr>idt_table := tvinit (vecs env) (idt_table (main_uartinit env ?a (main_consoleinit s5)))\<rparr>)"
  obtain u h6 where u: "uartinit (dev env ?a) (acc (main_consoleinit s5)) = (u, h6)" by fastforce
  have s6: "s6 = s5\<lparr>conslocking := True, uart_on := u, acc := h6, idt_table := tvinit (vecs env) (idt_table s), bufs := bufs (binit s)\<rparr>"
    using u by (simp add: s6_def main_uartinit_def main_consoleinit_def consoleinit_def binit_def Let_def s5_def s4_def s2_def s1_def)
  obtain d h7 where 7: "ideinit (dev env ?a) (of_nat (n_cpu s6)) (acc s6) = Some (d, h7)"
    using ideinit_returns [OF ans] by blast
  define t where "t = s6\<lparr>havedisk1 := d, acc := h7\<rparr>"
  have f1: "lapic_base s1 = base" "acc s1 = h1" by (simp_all add: s1_def)
  have run: "device_init env ?a s = Some (Inr t)"
    unfolding device_init_def 1(1) s1_def [symmetric] bindM_simps drive_def f1
    using 2 3 5(1) 7
    by (simp add: s1_def [symmetric] s2_def [symmetric] s4_def [symmetric] s5_def [symmetric] s6_def [symmetric] main_ideinit_def t_def Let_def)
  show ?thesis
    using run con 5(2,3) hp
    by (intro exI [of _ t]) (simp add: t_def s6 s5_def s4_def s2_def s1_def same_kernel_def blank_console_def has_processors_def)
qed

section \<open>The other processors\<close>

text \<open>What holds of the machine from the end of the initialisers on, with the free pages \<open>vs\<close> out of \<open>P\<close>.\<close>

definition machine_ok :: "boot_env \<Rightarrow> u8 list \<Rightarrow> 'a machine_scheme \<Rightarrow> 'a machine_scheme \<Rightarrow> u32 list \<Rightarrow> u32 set \<Rightarrow> bool" where
  "machine_ok env ids s t vs P \<longleftrightarrow> same_kernel s t \<and> has_processors env ids t \<and> kernel_memory t vs P \<and> blank_console t
     \<and> lapic_base t = lapic_base s \<and> bufs t = bufs s \<and> idt_table t = idt_table s \<and> use_lock t = use_lock s
     \<and> length (gdts t) = NCPU \<and> length (cpu_started t) = NCPU
     \<and> (\<forall>c < NCPU. (gdts t ! c = gdts s ! c \<or> gdts t ! c = seginit (gdts s ! c)) \<and> (cpu_started s ! c \<longrightarrow> cpu_started t ! c))"

lemma seginit_twice: "seginit (seginit g) = seginit g"
  by (simp add: seginit_def Let_def list_update_swap)

lemma machine_ok_trans: "machine_ok env ids s t vs P \<Longrightarrow> machine_ok env ids t u ws P \<Longrightarrow> machine_ok env ids s u ws P"
  unfolding machine_ok_def by (auto intro: same_kernel_trans simp: seginit_twice) (metis seginit_twice)+

lemma pt_ok_kalloc:
  assumes "pt_ok s (v # ws) pg"
  shows "\<exists>t. kalloc s = Inr (v, t) \<and> t = s\<lparr>freelist := freelist t\<rparr> \<and> pt_ok t ws pg"
proof -
  note r = pt_okD(1) [OF assms]
  have v: "v \<noteq> 0" "freelist s = v" "L_kmem \<notin> set (held s)" using r page_ok_nonzero by (auto simp: kmem_rep_def)
  obtain t where t: "kalloc s = Inr (v, t)" "kmem_rep t ws" using kalloc_pops [OF r] by auto
  have tt: "t = s\<lparr>freelist := freelist t\<rparr>" using t(1) kalloc_eq [OF v(3)] v by auto
  have "mem t = mem s" "kend t = kend s" using arg_cong [OF tt, of mem] arg_cong [OF tt, of kend] by simp_all
  then have "pt_ok t ws pg" using assms t(2) by (simp add: pt_ok_def)
  then show ?thesis using t(1) tt by blast
qed

lemma kernel_memory_kalloc:
  assumes "kernel_memory s (v # ws) P"
  shows "\<exists>t. kalloc s = Inr (v, t) \<and> t = s\<lparr>freelist := freelist t\<rparr> \<and> kernel_memory t ws P"
proof -
  obtain t where t: "kalloc s = Inr (v, t)" "t = s\<lparr>freelist := freelist t\<rparr>" "pt_ok t ws (kpgdir s)"
    using pt_ok_kalloc [of s v ws "kpgdir s"] assms by (auto simp only: kernel_memory_def)
  have f: "mem t = mem s" "kend t = kend s" "kdata t = kdata s" "kpgdir t = kpgdir s"
    using arg_cong [OF t(2), of mem] arg_cong [OF t(2), of kend] arg_cong [OF t(2), of kdata] arg_cong [OF t(2), of kpgdir] by simp_all
  have "kernel_memory t ws P" using assms t(3) by (simp add: kernel_memory_def kernel_image_def f)
  then show ?thesis using t by blast
qed

lemma kernel_memory_kept:
  assumes "kernel_memory s vs P" and "untouched A (mem s) m'" and "\<forall>v \<in> A. aligned v"
    and "A \<inter> (set vs \<union> owned (mem s) (kpgdir s)) = {}"
  shows "kernel_memory (s\<lparr>mem := m'\<rparr>) vs P"
  using assms pt_ok_kept [OF _ assms(2) assms(4) assms(3)] unfolding kernel_memory_def kernel_image_def by simp

lemma kernel_memory_low:
  assumes "kernel_memory s vs P" and "\<And>x. kend s \<le> x \<Longrightarrow> m' x = mem s x"
  shows "kernel_memory (s\<lparr>mem := m'\<rparr>) vs P"
proof (rule kernel_memory_kept [OF assms(1) low_untouched [OF assms(2)]])
  have ok: "pt_ok s vs (kpgdir s)" using assms(1) by (simp add: kernel_memory_def)
  then have "v \<notin> low (kend s)" if "v \<in> set vs \<union> owned (mem s) (kpgdir s)" for v
    using that owned_ok [OF ok] pt_okD(1) [OF ok] page_not_low by (auto simp: kmem_rep_def)
  then show "low (kend s) \<inter> (set vs \<union> owned (mem s) (kpgdir s)) = {}" by blast
qed (auto simp: low_def)

lemma start_message: "\<exists>cs. cformat (code (''cpu%d: starting %d'' @ [CHR 0x0A])) [ArgInt c, ArgInt d] = Inr cs"
  by (simp add: code_def)

lemma mpmain_ok:
  assumes "has_processors env ids s" and "c < length ids" and "blank_console s"
  shows "\<exists>h out p cr. mpmain env (ids ! c) s = Inr (s\<lparr>acc := h, uartout := out, crtpos := p, crt := cr,
      cpu_started := (cpu_started s)[c := True]\<rparr>) \<and> 0 \<le> p \<and> p < 24 * 80"
proof -
  let ?l = "Load (lapic_base s + 32)"
  define s1 where "s1 = s\<lparr>acc := acc s @ [?l]\<rparr>"
  define s2 where "s2 = s\<lparr>acc := acc s @ [?l, ?l]\<rparr>"
  have hp: "has_processors env ids s1" "has_processors env ids s2" "blank_console s2"
    using assms by (simp_all add: has_processors_def s1_def s2_def blank_console_def)
  have 1: "cpuid env (ids ! c) s = Inr (c, s1)" "cpuid env (ids ! c) s1 = Inr (c, s2)"
    using mycpu_ok [OF assms(1,2)] mycpu_ok [OF hp(1) assms(2)] by (simp_all add: cpuid_def s1_def s2_def)
  obtain cs where cs: "cformat (code (''cpu%d: starting %d'' @ [CHR 0x0A])) [ArgInt (of_nat c), ArgInt (of_nat c)] = Inr cs"
    using start_message by blast
  obtain cr p out where 2: "cprintf (code (''cpu%d: starting %d'' @ [CHR 0x0A])) [ArgInt (of_nat c), ArgInt (of_nat c)] s2
      = Inr (s2\<lparr>uartout := out, crtpos := p, crt := cr\<rparr>)" "0 \<le> p" "p < 24 * 80"
    using cprintf_blank [OF hp(3) cs] by blast
  define s3 where "s3 = s2\<lparr>uartout := out, crtpos := p, crt := cr\<rparr>"
  have "has_processors env ids s3" using hp(2) by (simp add: has_processors_def s3_def)
  from mycpu_ok [OF this assms(2)]
  have 3: "mycpu env (ids ! c) s3 = Inr (c, s3\<lparr>acc := acc s3 @ [?l]\<rparr>)" by (simp add: s3_def s2_def)
  have "mpmain env (ids ! c) s = Inr (s\<lparr>acc := acc s @ [?l, ?l, ?l], uartout := out, crtpos := p, crt := cr,
      cpu_started := (cpu_started s)[c := True]\<rparr>)"
    unfolding mpmain_def using 1 2(1) 3 by (simp add: s3_def [symmetric]) (simp add: s3_def s2_def)
  then show ?thesis using 2(2,3) by blast
qed

lemma st32_low: "a < 0x80100000 - 4 \<Longrightarrow> 0x80100000 \<le> x \<Longrightarrow> st32 a w m x = m x"
proof -
  assume h: "a < 0x80100000 - 4" "0x80100000 \<le> x"
  have n: "x \<noteq> a + of_nat i" if "i < 4" for i
  proof
    assume "x = a + of_nat i"
    moreover have "unat (a + of_nat i) = unat a + i"
      using h(1) that by (subst unat_add32) (auto simp: unat_of_nat32 word_less_nat_alt)
    ultimately show False using h that by (simp add: word_le_nat_alt word_less_nat_alt)
  qed
  show ?thesis using n [of 0] n [of 1] n [of 2] n [of 3] by (simp add: st32_def)
qed

lemma mpenter_ok:
  fixes s :: "'a machine_scheme"
  assumes "has_processors env ids s" and "c < length ids" and "length ids \<le> NCPU" and "kernel_memory s vs P" and "blank_console s"
    and "length (gdts s) = NCPU" "length (cpu_started s) = NCPU"
  shows "\<exists>t. mpenter env (ids ! c) s = Some (Inr t) \<and> machine_ok env ids s t vs P \<and> cpu_started t ! c
    \<and> gdts t ! c = seginit (gdts s ! c)"
proof -
  let ?l = "Load (lapic_base s + 32)"
  define s1 where "s1 = s\<lparr>cr3 := V2P (kpgdir s)\<rparr>"
  have hp: "has_processors env ids s1" using assms(1) by (simp add: has_processors_def s1_def)
  define s2 where "s2 = s1\<lparr>acc := acc s @ [?l], gdts := (gdts s)[c := seginit (gdts s ! c)]\<rparr>"
  have 2: "main_seginit env (ids ! c) (switchkvm s) = Inr s2"
    using mycpu_ok [OF hp assms(2)] by (simp add: main_seginit_def cpuid_def s1_def s2_def switchkvm_def)
  have ans: "answering (dev env (ids ! c)) (lapic_base s) (ids ! c)" using assms(1,2) by (simp add: has_processors_def)
  obtain h where 3: "lapicinit (dev env (ids ! c)) (lapic_base s) (acc s @ [?l]) = Some h"
    using lapicinit_returns [OF ans] by blast
  define s3 where "s3 = s2\<lparr>acc := h\<rparr>"
  have hp3: "has_processors env ids s3" "blank_console s3"
    using assms(1,5) by (simp_all add: has_processors_def blank_console_def s3_def s2_def s1_def)
  obtain h' out p cr where 4: "mpmain env (ids ! c) s3 = Inr (s3\<lparr>acc := h', uartout := out, crtpos := p, crt := cr,
      cpu_started := (cpu_started s3)[c := True]\<rparr>)" "0 \<le> p" "p < 24 * 80"
    using mpmain_ok [OF hp3(1) assms(2) hp3(2)] by blast
  define t where "t = s3\<lparr>acc := h', uartout := out, crtpos := p, crt := cr, cpu_started := (cpu_started s3)[c := True]\<rparr>"
  have "lapic_base s2 = lapic_base s" "acc s2 = acc s @ [?l]" by (simp_all add: s2_def s1_def)
  then have run: "mpenter env (ids ! c) s = Some (Inr t)"
    unfolding mpenter_def using 2 3 4(1) by (simp add: drive_def s3_def [symmetric] t_def)
  have km: "kernel_memory t vs P"
    using assms(4) by (simp add: kernel_memory_def kernel_image_def pt_ok_def kmem_rep_def t_def s3_def s2_def s1_def)
  have "machine_ok env ids s t vs P"
    using km assms hp3 4(2,3)
    by (auto simp: machine_ok_def same_kernel_def has_processors_def blank_console_def t_def s3_def s2_def s1_def nth_list_update)
  then show ?thesis using run assms by (auto simp: t_def s3_def s2_def s1_def)
qed

lemma start_cpu_ok:
  fixes s :: "'a machine_scheme"
  assumes "has_processors env ids s" and "c < length ids" "me < length ids" and "length ids \<le> NCPU" and "kernel_memory s vs P"
    and "blank_console s" and "length (gdts s) = NCPU" "length (cpu_started s) = NCPU" and "vs \<noteq> []"
  shows "\<exists>t ws. start_cpu env (ids ! me) c s = Some (Inr t) \<and> machine_ok env ids s t ws P \<and> length vs \<le> Suc (length ws)
    \<and> (c \<noteq> me \<longrightarrow> cpu_started t ! c \<and> gdts t ! c = seginit (gdts s ! c))"
proof -
  let ?l = "Load (lapic_base s + 32)"
  define s1 where "s1 = s\<lparr>acc := acc s @ [?l]\<rparr>"
  have 1: "mycpu env (ids ! me) s = Inr (me, s1)" using mycpu_ok [OF assms(1,3)] by (simp add: s1_def)
  have k1: "kernel_memory s1 vs P"
    using assms(5) by (simp add: kernel_memory_def kernel_image_def pt_ok_def kmem_rep_def s1_def)
  show ?thesis
  proof (cases "c = me")
    case True
    have "machine_ok env ids s s1 vs P"
      using k1 assms by (simp add: machine_ok_def same_kernel_def has_processors_def blank_console_def s1_def)
    then show ?thesis using 1 True by (intro exI [of _ s1] exI [of _ vs]) (simp add: start_cpu_def)
  next
    case False
    obtain v ws where vs: "vs = v # ws" using assms(9) by (cases vs) auto
    obtain s2 where s2: "kalloc s1 = Inr (v, s2)" "s2 = s1\<lparr>freelist := freelist s2\<rparr>" "kernel_memory s2 ws P"
      using kernel_memory_kalloc k1 vs by blast
    define f where "f = freelist s2"
    define m where "m = st32 0x80006FF4 (V2P (entrypgdir_addr env)) (st32 0x80006FF8 (mpenter_addr env)
        (st32 0x80006FFC (v + KSTACKSIZE) (mem s)))"
    define s3 where "s3 = s1\<lparr>freelist := f, mem := m, acc := lapicstartap (lapic_base s) (ids ! c) 0x7000 (acc s @ [?l])\<rparr>"
    have kend: "0x80100000 \<le> kend s" using assms(5) by (auto simp: kernel_memory_def kernel_image_def)
    have "kernel_memory (s2\<lparr>mem := m\<rparr>) ws P"
    proof (rule kernel_memory_low [OF s2(3)])
      fix x assume "kend s2 \<le> x"
      moreover have "kend s2 = kend s" by (subst s2(2)) (simp add: s1_def)
      ultimately have "0x80100000 \<le> x" using kend by simp
      moreover have "mem s2 = mem s" by (subst s2(2)) (simp add: s1_def)
      ultimately show "m x = mem s2 x" by (simp add: m_def st32_low)
    qed
    then have k3: "kernel_memory s3 ws P"
      unfolding s2(2) [folded f_def] by (simp add: kernel_memory_def kernel_image_def pt_ok_def kmem_rep_def s3_def)
    have ids: "cpu_ids s ! c = ids ! c" using assms(1,2) by (metis has_processors_def nth_take)
    have mem2: "s2 = s1\<lparr>freelist := f\<rparr>" using s2(2) by (simp add: f_def)
    have hp3: "has_processors env ids s3" "blank_console s3" "length (gdts s3) = NCPU" "length (cpu_started s3) = NCPU"
      using assms by (simp_all add: has_processors_def blank_console_def s3_def s1_def)
    obtain t where t: "mpenter env (ids ! c) s3 = Some (Inr t)" "machine_ok env ids s3 t ws P" "cpu_started t ! c"
        "gdts t ! c = seginit (gdts s3 ! c)"
      using mpenter_ok [OF hp3(1) assms(2,4) k3 hp3(2-4)] by blast
    have run: "start_cpu env (ids ! me) c s = Some (Inr t)"
      using 1 s2(1) False t(1,3) ids
      by (simp add: start_cpu_def Let_def mem2 P2V_def V2P_def s1_def [symmetric])
         (simp add: s3_def s1_def m_def V2P_def)
    have "machine_ok env ids s t ws P"
      using t(2) assms by (simp add: machine_ok_def same_kernel_def s3_def s1_def blank_console_def)
    then show ?thesis using run t(3,4) vs by (intro exI [of _ t] exI [of _ ws]) (simp add: s3_def s1_def)
  qed
qed

lemma machine_ok_step: "machine_ok env ids s t vs P \<Longrightarrow> machine_ok env ids t u ws P \<Longrightarrow>
    c < NCPU \<Longrightarrow> gdts t ! c = seginit (gdts s ! c) \<Longrightarrow> gdts u ! c = seginit (gdts s ! c)"
  unfolding machine_ok_def by (metis seginit_twice)

lemma start_cpus_ok:
  fixes s :: "'a machine_scheme"
  assumes "has_processors env ids s" and "me < length ids" and "length ids \<le> NCPU" and "kernel_memory s vs P"
    and "blank_console s" and "length (gdts s) = NCPU" "length (cpu_started s) = NCPU" and "set cs \<subseteq> {..<length ids}"
    and "length cs \<le> length vs"
  shows "\<exists>t ws. start_cpus env (ids ! me) cs s = Some (Inr t) \<and> machine_ok env ids s t ws P \<and> length vs \<le> length cs + length ws
    \<and> (\<forall>c \<in> set cs - {me}. cpu_started t ! c \<and> gdts t ! c = seginit (gdts s ! c))"
  using assms
proof (induction cs arbitrary: s vs)
  case Nil
  then have "machine_ok env ids s s vs P" by (simp add: machine_ok_def same_kernel_def)
  then show ?case by (intro exI [of _ s] exI [of _ vs]) simp
next
  case (Cons c cs)
  have c: "c < length ids" "vs \<noteq> []" using Cons.prems(8,9) by auto
  obtain t ws where t: "start_cpu env (ids ! me) c s = Some (Inr t)" "machine_ok env ids s t ws P" "length vs \<le> Suc (length ws)"
      "c \<noteq> me \<longrightarrow> cpu_started t ! c \<and> gdts t ! c = seginit (gdts s ! c)"
    using start_cpu_ok [OF Cons.prems(1) c(1) Cons.prems(2-7) c(2)] by blast
  have p: "has_processors env ids t" "kernel_memory t ws P" "blank_console t" "length (gdts t) = NCPU" "length (cpu_started t) = NCPU"
    using t(2) by (simp_all add: machine_ok_def)
  obtain u xs where u: "start_cpus env (ids ! me) cs t = Some (Inr u)" "machine_ok env ids t u xs P" "length ws \<le> length cs + length xs"
      "\<forall>c \<in> set cs - {me}. cpu_started u ! c \<and> gdts u ! c = seginit (gdts t ! c)"
    using Cons.IH [OF p(1) Cons.prems(2,3) p(2-5)] Cons.prems(8,9) t(3) by auto
  have "cpu_started u ! d \<and> gdts u ! d = seginit (gdts s ! d)" if d: "d \<in> set (c # cs) - {me}" for d
  proof -
    have dn: "d < NCPU" using d Cons.prems(3,8) by auto
    show ?thesis
    proof (cases "d \<in> set cs")
      case True
      then have "gdts u ! d = seginit (gdts t ! d)" "cpu_started u ! d" using u(4) d by auto
      moreover have "gdts t ! d = gdts s ! d \<or> gdts t ! d = seginit (gdts s ! d)" using t(2) dn by (auto simp: machine_ok_def)
      ultimately show ?thesis by (auto simp: seginit_twice)
    next
      case False
      then have "d = c" "c \<noteq> me" using d by auto
      then show ?thesis using t(4) machine_ok_step [OF t(2) u(2) dn] u(2) dn by (auto simp: machine_ok_def)
    qed
  qed
  then show ?case using t(1,3) u(1,3) machine_ok_trans [OF t(2) u(2)]
    by (intro exI [of _ u] exI [of _ xs]) simp
qed

lemma store_low:
  assumes "length bs \<le> 4096" and "0x80100000 \<le> x"
  shows "store_bytes 0x80007000 bs m x = m x"
proof (rule store_bytes_outside, intro allI impI)
  fix i assume i: "i < length bs"
  then have "unat (0x80007000 + of_nat i :: u32) = 0x80007000 + i"
    using assms(1) by (subst unat_add32) (auto simp: unat_of_nat32)
  then show "x \<noteq> 0x80007000 + of_nat i" using assms i by (auto simp: word_le_nat_alt)
qed

lemma startothers_ok:
  fixes s :: "'a machine_scheme"
  assumes "has_processors env ids s" and "me < length ids" and "length ids \<le> NCPU" and "kernel_memory s vs P"
    and "blank_console s" and "length (gdts s) = NCPU" "length (cpu_started s) = NCPU" and "NCPU \<le> length vs"
    and "length (entryother env) \<le> 4096"
  shows "\<exists>t ws. startothers env (ids ! me) s = Some (Inr t) \<and> machine_ok env ids s t ws P \<and> length vs \<le> NCPU + length ws
    \<and> (\<forall>c < length ids. c \<noteq> me \<longrightarrow> cpu_started t ! c \<and> gdts t ! c = seginit (gdts s ! c))"
proof -
  define s1 where "s1 = s\<lparr>mem := store_bytes (P2V 0x7000) (entryother env) (mem s)\<rparr>"
  have "0x80100000 \<le> kend s" using assms(4) by (auto simp: kernel_memory_def kernel_image_def)
  then have k1: "kernel_memory s1 vs P"
    unfolding s1_def using assms(9) by (intro kernel_memory_low [OF assms(4)]) (simp add: P2V_def store_low)
  have p: "has_processors env ids s1" "blank_console s1" "length (gdts s1) = NCPU" "length (cpu_started s1) = NCPU"
    using assms by (simp_all add: s1_def has_processors_def blank_console_def)
  have sub: "set [0..<length ids] \<subseteq> {..<length ids}" by auto
  obtain t ws where t: "start_cpus env (ids ! me) [0..<length ids] s1 = Some (Inr t)" "machine_ok env ids s1 t ws P"
      "length vs \<le> length [0..<length ids] + length ws"
      "\<forall>c \<in> set [0..<length ids] - {me}. cpu_started t ! c \<and> gdts t ! c = seginit (gdts s1 ! c)"
    using start_cpus_ok [OF p(1) assms(2,3) k1 p(2-4) sub] assms(3,8) by auto
  have "startothers env (ids ! me) s = Some (Inr t)"
    using t(1) assms(1) by (simp add: startothers_def s1_def [symmetric]) (simp add: s1_def has_processors_def)
  moreover have "machine_ok env ids s t ws P"
    using t(2) assms(5) by (simp add: machine_ok_def same_kernel_def s1_def blank_console_def)
  ultimately show ?thesis using t(3,4) assms(3) by (intro exI [of _ t] exI [of _ ws]) (auto simp: s1_def)
qed

section \<open>The rest of the memory\<close>

abbreviation late_pages :: "u32 set" where
  "late_pages \<equiv> pages_between 0x80400000 0x8E000000"

lemma kinit2_ok:
  fixes s :: "'a machine_scheme"
  assumes km: "kernel_memory s vs (early_pages (kend s))" and "held s = []"
  shows "\<exists>t ws. kinit2 (P2V (4 * 1024 * 1024)) (P2V PHYSTOP) s = Inr t
    \<and> t = s\<lparr>mem := mem t, freelist := freelist t, use_lock := True\<rparr>
    \<and> kernel_memory t (ws @ vs) (early_pages (kend s) \<union> late_pages) \<and> set ws = late_pages"
proof -
  have e: "P2V 4194304 = 0x80400000" "P2V 0xE000000 = 0x8E000000" by (simp_all add: P2V_def)
  have k: "KERNBASE \<le> kend s" "kend s \<le> 0x80300000"
    using km unfolding kernel_memory_def kernel_image_def word_le_nat_alt word_less_nat_alt by auto
  have ok: "pt_ok s vs (kpgdir s)" using km by (simp add: kernel_memory_def)
  have ep: "set vs \<union> owned (mem s) (kpgdir s) \<subseteq> early_pages (kend s)" using km by (simp add: kernel_memory_def)
  have dis: "early_pages (kend s) \<inter> late_pages = {}" by (auto simp: pages_between_def)
  have vd: "set vs \<inter> late_pages = {}" using ep dis by blast
  have ke: "kend s \<le> 0x80400000" using k(2) by (auto simp: word_le_nat_alt)
  obtain u ws where u: "freerange 0x80400000 0x8E000000 s = Inr u" "kmem_rep u (ws @ vs)" "set ws = late_pages" "held u = held s"
    using freerange_frees [OF pt_okD(1) [OF ok] _ ke _ _ vd] by auto
  have fr: "only_memory s u \<and> untouched late_pages (mem s) (mem u)"
    using free_loop_frame [of "PGROUNDUP 0x80400000" "0x8E000000" s u] u(1) assms(2)
    by (simp add: freerange_def PGROUNDUP_def aligned_unat)
  have ueq: "u = s\<lparr>mem := mem u, freelist := freelist u\<rparr>" using only_memory_eq [of s u] fr u(4) by simp
  have al: "\<forall>v \<in> late_pages. aligned v" by (simp add: pages_between_def)
  have f: "kend u = kend s" "kdata u = kdata s" "kpgdir u = kpgdir s"
    using arg_cong [OF ueq, of kend] arg_cong [OF ueq, of kdata] arg_cong [OF ueq, of kpgdir] by simp_all
  have apart: "late_pages \<inter> (set vs \<union> owned (mem s) (kpgdir s)) = {}" using ep dis by blast
  note kept = pt_ok_kept [OF ok conjunct2 [OF fr] apart al]
  have pt: "pt_ok u (ws @ vs) (kpgdir s)"
  proof -
    have o: "t \<notin> set ws" if "t \<in> owned (mem s) (kpgdir s)" for t using that ep dis u(3) by blast
    have "tab (mem u) (kpgdir s) i = Some t \<Longrightarrow> i < 1024 \<Longrightarrow> t \<in> owned (mem s) (kpgdir s)" for i t
      using kept(3) by (auto simp: owned_def)
    moreover have "kpgdir s \<in> owned (mem s) (kpgdir s)" by (simp add: owned_def)
    ultimately show ?thesis using kept(1) u(2) o unfolding pt_ok_def by (auto simp: f(1))
  qed
  define t where "t = u\<lparr>use_lock := True\<rparr>"
  have "pt_ok t (ws @ vs) (kpgdir s)" using pt by (simp add: t_def pt_ok_def kmem_rep_def)
  then have km': "kernel_memory t (ws @ vs) (early_pages (kend s) \<union> late_pages)"
    using km kept ep u(3) by (auto simp: kernel_memory_def kernel_image_def t_def f)
  have "t = s\<lparr>mem := mem t, freelist := freelist t, use_lock := True\<rparr>"
    unfolding t_def by (subst ueq) (cases s, simp)
  moreover have "kinit2 (P2V (4 * 1024 * 1024)) (P2V PHYSTOP) s = Inr t"
    using u(1) by (simp add: kinit2_def e t_def)
  ultimately show ?thesis using km' u(3) by blast
qed

section \<open>The first process\<close>

lemma pt_ok_frame:
  assumes ok: "pt_ok s vs pg" and out: "untouched A (mem s) (mem t)" and dis: "A \<inter> owned (mem s) pg = {}" and al: "\<forall>v \<in> A. aligned v"
    and t: "kmem_rep t ws" "kend t = kend s" "set ws \<inter> owned (mem s) pg = {}"
  shows "pt_ok t ws pg" and "q < 1048576 \<Longrightarrow> pte_of (mem t) pg q = pte_of (mem s) pg q" and "owned (mem t) pg = owned (mem s) pg"
proof -
  have o: "\<forall>v \<in> A \<union> owned (mem s) pg. aligned v" using al owned_ok [OF ok] by (auto simp: page_ok_def)
  have d: "owned (mem s) pg \<inter> A = {}" using dis by blast
  show "q < 1048576 \<Longrightarrow> pte_of (mem t) pg q = pte_of (mem s) pg q" "owned (mem t) pg = owned (mem s) pg"
    using table_kept [OF out d o] by blast+
  have p: "pg \<in> owned (mem s) pg" "aligned pg" "pg \<notin> A" using o d by (auto simp: owned_def)
  have "mem t x = mem s x" if "in_range pg 4096 x" for x
  proof -
    have "\<not> in_range v 4096 x" if "v \<in> A" for v
      using that \<open>in_range pg 4096 x\<close> p al
      by (metis aligned_unat in_page_iff div_mult_mod_eq add_0_right word_unat_eq_iff)
    then show ?thesis using out by (auto simp: untouched_def)
  qed
  then have "tab (mem t) pg i = tab (mem s) pg i" if "i < 1024" for i
    using tab_frame [OF p(2) that] by blast
  moreover have "u \<in> owned (mem s) pg" if "tab (mem s) pg i = Some u" "i < 1024" for i u using that by (auto simp: owned_def)
  ultimately show "pt_ok t ws pg" using ok t p(1) unfolding pt_ok_def by (auto 0 3)
qed

lemma kernel_memory_shrinks:
  assumes "kernel_memory s vs P" and "untouched (set vs) (mem s) (mem t)" and "kmem_rep t ws" and "set ws \<subseteq> set vs"
    and "kend t = kend s" "kdata t = kdata s" "kpgdir t = kpgdir s"
  shows "kernel_memory t ws P"
proof -
  have ok: "pt_ok s vs (kpgdir s)" using assms(1) by (simp add: kernel_memory_def)
  have d: "set vs \<inter> owned (mem s) (kpgdir s) = {}" using owned_ok [OF ok] by blast
  have al: "\<forall>v \<in> set vs. aligned v" using pages_aligned [OF pt_okD(1) [OF ok]] by blast
  have "set ws \<inter> owned (mem s) (kpgdir s) = {}" using d assms(4) by blast
  from pt_ok_frame [OF ok assms(2) d al assms(3,5) this] show ?thesis
    using assms by (auto simp: kernel_memory_def kernel_image_def)
qed

lemma allocproc_first:
  assumes "kmem_rep s (v # vs)" and "held s = []" and "find_slot (\<lambda>p. state p = UNUSED) (procs s) = Some i"
  shows "\<exists>t. allocproc s = Inr (Some i, t) \<and> kmem_rep t vs \<and> untouched {v} (mem s) (mem t)
    \<and> t = s\<lparr>mem := mem t, freelist := freelist t, nextpid := nextpid s + 1,
         procs := (procs s)[i := (procs s ! i)\<lparr>state := EMBRYO, pid := nextpid s, kstack := v, ctx := v + 3996\<rparr>]\<rparr>"
proof -
  have v: "page_ok (kend s) v" "v \<notin> set vs" "v \<noteq> 0" "freelist s = v" "flist (mem s) (ld32 v (mem s)) vs"
    using assms(1) page_ok_nonzero by (auto simp: kmem_rep_def)
  have al: "aligned v" using v(1) by (simp add: page_ok_def)
  have i: "i < length (procs s)" using assms(3) by (simp add: find_slot_Some)
  define t where "t = s\<lparr>mem := first_frame v (ktrapret s) (kforkret s) (mem s), freelist := ld32 v (mem s), nextpid := nextpid s + 1,
         procs := (procs s)[i := (procs s ! i)\<lparr>state := EMBRYO, pid := nextpid s, kstack := v, ctx := v + 3996\<rparr>]\<rparr>"
  have slots: "slot v 1003 = v + 4012" "slot v 1004 = v + 4016" by (simp_all add: slot_def)
  have "allocproc s = Inr (Some i, t)"
    using assms(2,3) v(3,4) i
    by (cases s) (simp add: allocproc_def acquire_ok release_ok kalloc_eq Let_def upd_proc_def t_def first_frame_def slots
        add.commute [of _ v])
  moreover have "kmem_rep (s\<lparr>freelist := ld32 v (mem s)\<rparr>) vs"
    using assms(1,2) v(5) by (simp add: kmem_rep_def)
  then have "kmem_rep ((s\<lparr>freelist := ld32 v (mem s)\<rparr>)\<lparr>mem := first_frame v (ktrapret s) (kforkret s) (mem s)\<rparr>) vs"
    by (rule kmem_rep_frame [OF _ al v(2)]) (simp add: first_frame_outside [OF al])
  then have "kmem_rep t vs" by (simp add: kmem_rep_def t_def)
  moreover have "untouched {v} (mem s) (mem t)" by (simp add: untouched_def t_def first_frame_outside [OF al])
  ultimately show ?thesis by (intro exI [of _ t]) (simp add: t_def)
qed

lemma inituvm_ok:
  fixes s :: "'a kmem_state_scheme"
  assumes ok: "pt_ok s (v # vs) pg" and free: "pte_of (mem s) pg 0 AND PTE_P = 0" and vs: "vs \<noteq> []" and len: "length bs < 4096"
  shows "\<exists>t ws. inituvm pg bs (of_nat (length bs)) s = Inr t \<and> t = s\<lparr>mem := mem t, freelist := freelist t\<rparr>
    \<and> pt_ok t ws pg \<and> length vs \<le> length ws + 1 \<and> set ws \<subseteq> set vs
    \<and> untouched (insert v (set vs \<union> owned (mem s) pg)) (mem s) (mem t)
    \<and> (\<forall>q < 1048576. pte_of (mem t) pg q = (if q = 0 then V2P v OR 7 else pte_of (mem s) pg q))
    \<and> (\<forall>i < length bs. mem t (v + of_nat i) = bs ! i)"
proof -
  obtain u where u: "kalloc s = Inr (v, u)" "u = s\<lparr>freelist := freelist u\<rparr>" "pt_ok u vs pg"
    using pt_ok_kalloc [OF ok] by blast
  have fu: "mem u = mem s" "held u = held s" using arg_cong [OF u(2), of mem] arg_cong [OF u(2), of held] by simp_all
  have v: "aligned v" "v \<notin> set vs" "v \<notin> owned (mem s) pg"
    using pt_okD(1) [OF ok] owned_ok [OF ok] by (auto simp: kmem_rep_def page_ok_def)
  define z where "z = u\<lparr>mem := memset v 0 PGSIZE (mem u)\<rparr>"
  have oz: "untouched {v} (mem u) (memset v 0 PGSIZE (mem u))" by (simp add: untouched_def memset_fill)
  have az: "{v} \<inter> (set vs \<union> owned (mem u) pg) = {}" "\<forall>x \<in> {v}. aligned x" using v by (auto simp: fu)
  note kz = pt_ok_kept [OF u(3) oz az]
  have z: "pt_ok z vs pg" "mem z = memset v 0 PGSIZE (mem s)" using kz(1) by (simp_all add: z_def fu)
  have vp: "vpage 0 = 0" "vpage (0 + PGSIZE - 1) = 0" by (simp_all add: vpage_def)
  obtain w ws where w: "mappages pg 0 PGSIZE (V2P v) (PTE_W OR PTE_U) z = Inr (0, w)" "builds pg z vs w ws"
      "length vs \<le> length ws + 1" "mapped_range (mem z) (mem w) pg 0 1 (V2P v) (PTE_W OR PTE_U)"
    using mappages_room [OF z(1), of PGSIZE 0 "V2P v" "PTE_W OR PTE_U", unfolded vp] free kz(2) vs
    by (cases vs) (auto simp: z(2) fu)
  have wp: "only_memory s w"
  proof -
    have "wp (mappages pg 0 PGSIZE (V2P v) (PTE_W OR PTE_U) z) (\<lambda>(r, t). only_memory z t)" by (auto intro!: wpI)
    then have "only_memory z w" using w(1) by (auto simp: wp_def)
    moreover have "only_memory s z" unfolding z_def by (subst u(2)) simp
    ultimately show ?thesis by (rule only_memory_trans [rotated])
  qed
  define t where "t = w\<lparr>mem := store_bytes v bs (mem w)\<rparr>"
  have small: "unat (of_nat (length bs) :: u32) = length bs" using len by (intro unat_of_nat32) simp
  have "\<not> PGSIZE \<le> of_nat (length bs)" using small len by (simp add: word_le_nat_alt)
  then have run: "inituvm pg bs (of_nat (length bs)) s = Inr t"
    using u(1) w(1) small by (simp add: inituvm_def z_def [symmetric] t_def)
  have hw: "held w = held s" using w(2) by (simp add: builds_def z_def fu)
  have ot: "untouched {v} (mem w) (store_bytes v bs (mem w))"
  proof -
    have "store_bytes v bs (mem w) x = mem w x" if x: "\<not> in_range v 4096 x" for x
    proof (rule store_bytes_outside, intro allI impI notI)
      fix i assume "i < length bs" "x = v + of_nat i"
      then show False using x len by (simp add: in_range_def unat_of_nat32)
    qed
    then show ?thesis by (simp add: untouched_def)
  qed
  have ow: "owned (mem w) pg \<union> set ws \<subseteq> set vs \<union> owned (mem s) pg"
    using w(2) kz(3) by (auto simp: builds_def z_def fu)
  have aw: "{v} \<inter> (set ws \<union> owned (mem w) pg) = {}" using ow v by blast
  note kt = pt_ok_kept [OF builds_pt [OF w(2)] ot aw az(2)]
  have ws: "set ws \<subseteq> set vs" using w(2) by (simp add: builds_def)
  have "untouched (insert v (set vs \<union> owned (mem s) pg)) (mem s) (mem t)"
  proof -
    have "untouched {v} (mem s) (mem z)" using oz by (simp add: z_def fu)
    moreover have "untouched (set vs \<union> owned (mem s) pg) (mem z) (mem w)" using w(2) kz(3) by (simp add: builds_def z_def fu)
    moreover have "untouched {v} (mem w) (mem t)" using ot by (simp add: t_def)
    ultimately show ?thesis unfolding untouched_def by (metis insertCI insertE singletonD)
  qed
  moreover have "pte_of (mem t) pg q = (if q = 0 then V2P v OR 7 else pte_of (mem s) pg q)" if q: "q < 1048576" for q
    using kt(2) [OF q] w(4) q kz(2) [OF q] by (auto simp: t_def mapped_range_def map_pte_0 z(2) fu or.assoc)
  moreover have "t = s\<lparr>mem := mem t, freelist := freelist t\<rparr>"
    using only_memory_eq [OF wp hw] by (simp add: t_def) (cases s; cases w, simp)
  moreover have "mem t (v + of_nat i) = bs ! i" if "i < length bs" for i
    using store_bytes_nth [of i bs v "mem w"] that len by (simp add: t_def)
  ultimately show ?thesis using run kt(1) w(3) ws by (intro exI [of _ t] exI [of _ ws]) (simp add: t_def)
qed

lemma namei_root:
  assumes "held s = []" and "inodes s \<noteq> []" and "\<forall>ip \<in> set (inodes s). iref ip = 0"
  shows "namei [47] s = Inr (Some 0, s\<lparr>inodes := (inodes s)[0 := (inodes s ! 0)\<lparr>idev := 1, inum := 1, iref := 1, ivalid := False\<rparr>]\<rparr>)"
proof -
  have none: "find_slot (\<lambda>ip. iref ip > 0 \<and> idev ip = 1 \<and> inum ip = 1) (inodes s) = None"
    using assms(3) by (cases "find_slot (\<lambda>ip. iref ip > 0 \<and> idev ip = 1 \<and> inum ip = 1) (inodes s)") (auto simp: find_slot_Some)
  have some: "find_slot (\<lambda>ip. iref ip = 0) (inodes s) = Some 0"
    using assms(2,3) by (simp add: find_slot_Some)
  have "skipelem [47] nm = None" for nm by (simp add: skipelem_def)
  then show ?thesis
    using assms(1) none some
    by (cases s) (simp add: namei_def namex_def iget_def acquire_def release_def upd_inode_def namex_loop.simps)
qed

definition first_process :: "proc \<Rightarrow> i32 \<Rightarrow> u32 \<Rightarrow> bool" where
  "first_process p n pg \<longleftrightarrow> state p = RUNNABLE \<and> pid p = n \<and> pgdir p = pg \<and> sz p = PGSIZE \<and> cwd p = Some 0
     \<and> tf_eip (tf p) = 0 \<and> tf_esp (tf p) = PGSIZE \<and> tf_cs (tf p) = 0x1B \<and> tf_eflags (tf p) = 0x200"

lemma kernel_pte_user: "kernel_pte data 0 = 0"
  by (simp add: kernel_pte_def)

lemma kernel_memory_upd [simp]:
  "kernel_memory (s\<lparr>procs := p\<rparr>) vs P = kernel_memory s vs P" "kernel_memory (s\<lparr>initproc := i\<rparr>) vs P = kernel_memory s vs P"
  "kernel_memory (s\<lparr>nextpid := n\<rparr>) vs P = kernel_memory s vs P"
  by (simp_all add: kernel_memory_def kernel_image_def pt_ok_def kmem_rep_def)

lemma userinit_ok:
  fixes s :: "'a kernel_state_scheme"
  assumes km: "kernel_memory s vs P" and room: "80 \<le> length vs" and h: "held s = []"
    and p: "find_slot (\<lambda>p. state p = UNUSED) (procs s) = Some 0" and len: "length (kinitcode s) < 4096"
    and ino: "inodes s \<noteq> []" "\<forall>ip \<in> set (inodes s). iref ip = 0"
  shows "\<exists>t ws pg page. userinit s = Inr t \<and> kernel_memory t ws P \<and> pt_ok t ws pg \<and> first_process (procs t ! 0) (nextpid s) pg
    \<and> (\<forall>q < 1048576. pte_of (mem t) pg q = (if q = 0 then V2P page OR 7 else kernel_pte (kdata s) q))
    \<and> (\<forall>i < length (kinitcode s). mem t (page + of_nat i) = kinitcode s ! i)
    \<and> t = s\<lparr>mem := mem t, freelist := freelist t, nextpid := nextpid s + 1, initproc := Some 0,
          inodes := inodes t, procs := procs t\<rparr>
    \<and> map joinproc (procs t) = map joinproc (procs s)"
proof -
  have ok: "pt_ok s vs (kpgdir s)" and img: "aligned (kdata s)" "0x80100000 < kdata s" "kdata s < 0x80400000"
    using km unfolding kernel_memory_def kernel_image_def word_le_nat_alt word_less_nat_alt by auto
  obtain v1 vs1 where vs: "vs = v1 # vs1" using room by (cases vs) auto
  obtain s1 where s1: "allocproc s = Inr (Some 0, s1)" "kmem_rep s1 vs1" "untouched {v1} (mem s) (mem s1)"
     "s1 = s\<lparr>mem := mem s1, freelist := freelist s1, nextpid := nextpid s + 1,
         procs := (procs s)[0 := (procs s ! 0)\<lparr>state := EMBRYO, pid := nextpid s, kstack := v1, ctx := v1 + 3996\<rparr>]\<rparr>"
    using allocproc_first [OF pt_okD(1) [OF ok, unfolded vs] h p] by blast
  define m1 f1 where "m1 = mem s1" and "f1 = freelist s1"
  define p1 where "p1 = (procs s)[0 := (procs s ! 0)\<lparr>state := EMBRYO, pid := nextpid s, kstack := v1, ctx := v1 + 3996\<rparr>]"
  have e1: "s1 = s\<lparr>mem := m1, freelist := f1, nextpid := nextpid s + 1, procs := p1\<rparr>" using s1(4) by (simp add: m1_def f1_def p1_def)
  have km1: "kernel_memory s1 vs1 P"
    by (rule kernel_memory_shrinks [OF km untouched_mono [OF s1(3)] s1(2)]) (auto simp: vs e1)
  define s2 where "s2 = s1\<lparr>initproc := Some 0\<rparr>"
  obtain pg vs2 where vs1: "vs1 = pg # vs2" using room vs by (cases vs1) auto
  have rep2: "kmem_rep s2 (pg # vs2)" using s1(2) by (simp add: s2_def kmem_rep_def vs1)
  obtain s3 ws3 where s3: "setupkvm s2 = Inr (pg, s3)" "pt_ok s3 ws3 pg" "held s3 = held s2" "only_memory s2 s3" "pg \<noteq> 0"
      "length vs2 \<le> length ws3 + 66" "set ws3 \<union> owned (mem s3) pg \<subseteq> insert pg (set vs2)"
      "untouched (insert pg (set vs2)) (mem s2) (mem s3)" "\<forall>q < 1048576. pte_of (mem s3) pg q = kernel_pte (kdata s2) q"
    using setupkvm_room [OF rep2] img room vs vs1 by (auto simp: s2_def e1)
  have e3: "s3 = s2\<lparr>mem := mem s3, freelist := freelist s3\<rparr>" by (rule only_memory_eq [OF s3(4,3)])
  define m3 f3 where "m3 = mem s3" and "f3 = freelist s3"
  have e3': "s3 = s2\<lparr>mem := m3, freelist := f3\<rparr>" using e3 by (simp add: m3_def f3_def)
  obtain v4 vs4 where ws3: "ws3 = v4 # vs4" using s3(6) room vs vs1 by (cases ws3) auto
  define s4 where "s4 = upd_proc 0 (pgdir_update (\<lambda>_. pg)) s3"
  have e4: "s4 = s3\<lparr>procs := procs s4\<rparr>" by (simp add: s4_def upd_proc_def)
  have ok4: "pt_ok s4 (v4 # vs4) pg" using s3(2) by (simp add: ws3 s4_def upd_proc_def pt_ok_def kmem_rep_def)
  have mem4: "mem s4 = mem s3" "kinitcode s4 = kinitcode s" by (simp_all add: s4_def upd_proc_def e3' s2_def e1)
  have "vs4 \<noteq> []" using s3(6) room vs vs1 ws3 by auto
  from inituvm_ok [OF ok4 _ this len]
  obtain s5 ws5 where s5: "inituvm pg (kinitcode s) (of_nat (length (kinitcode s))) s4 = Inr s5"
      "s5 = s4\<lparr>mem := mem s5, freelist := freelist s5\<rparr>" "pt_ok s5 ws5 pg" "set ws5 \<subseteq> set vs4"
      "untouched (insert v4 (set vs4 \<union> owned (mem s3) pg)) (mem s3) (mem s5)"
      "\<forall>q < 1048576. pte_of (mem s5) pg q = (if q = 0 then V2P v4 OR 7 else pte_of (mem s3) pg q)"
      "\<forall>i < length (kinitcode s). mem s5 (v4 + of_nat i) = kinitcode s ! i"
    using s3(9) by (auto simp: mem4 kernel_pte_user)
  define m5 f5 where "m5 = mem s5" and "f5 = freelist s5"
  have e5: "s5 = s4\<lparr>mem := m5, freelist := f5\<rparr>" using s5(2) by (simp add: m5_def f5_def)
  have km5: "kernel_memory s5 ws5 P"
  proof (rule kernel_memory_shrinks)
    show "kernel_memory s2 vs1 P" using km1 by (simp add: s2_def)
    have sub: "insert v4 (set vs4 \<union> owned (mem s3) pg) \<subseteq> set vs1" using s3(7) by (auto simp: vs1 ws3)
    have "untouched (set vs1) (mem s2) (mem s3)" using s3(8) by (simp add: vs1)
    then show "untouched (set vs1) (mem s2) (mem s5)" by (rule untouched_trans [OF _ s5(5) sub])
    have "pg \<notin> set ws3" using pt_okD(3) [OF s3(2)] .
    then show "set ws5 \<subseteq> set vs1" using s3(7) s5(4) by (auto simp: vs1 ws3)
  qed (use pt_okD(1) [OF s5(3)] in \<open>auto simp: e5 s4_def upd_proc_def e3'\<close>)
  define F :: "proc \<Rightarrow> proc" where "F = (\<lambda>p. p\<lparr>sz := PGSIZE, tf := (tf p)\<lparr>
                  tf_edi := 0, tf_esi := 0, tf_ebp := 0, tf_oesp := 0, tf_ebx := 0, tf_edx := 0,
                  tf_ecx := 0, tf_eax := 0, tf_gs := 0, tf_fs := 0, tf_trapno := 0, tf_err := 0,
                  tf_cs := 0x1B, tf_ds := 0x23, tf_es := 0x23, tf_ss := 0x23, tf_eflags := 0x200,
                  tf_esp := PGSIZE, tf_eip := 0\<rparr>,
                pname := safestrcpy (pname p) (arr [105, 110, 105, 116, 99, 111, 100, 101, 0]) 16\<rparr>)"
  define s6 where "s6 = upd_proc 0 F s5"
  have i6: "inodes s6 = inodes s" "held s6 = []" using h by (simp_all add: s6_def upd_proc_def e5 s4_def e3' s2_def e1)
  define s7 where "s7 = s6\<lparr>inodes := (inodes s)[0 := (inodes s ! 0)\<lparr>idev := 1, inum := 1, iref := 1, ivalid := False\<rparr>]\<rparr>"
  have n7: "namei [47] s6 = Inr (Some 0, s7)" using namei_root [of s6] ino i6 by (simp add: s7_def)
  define t where "t = upd_proc 0 (state_update (\<lambda>_. RUNNABLE)) (upd_proc 0 (cwd_update (\<lambda>_. Some 0)) s7)"
  have h7: "held s7 = []" using i6 by (simp add: s7_def)
  have rel: "bindE (acquire L_ptable u) (\<lambda>s. release L_ptable (upd_proc 0 g s)) = Inr (upd_proc 0 g u)"
    if "held u = []" for g and u :: "'a kernel_state_scheme"
    using that by (cases u) (simp add: acquire_def release_def upd_proc_def)
  have "userinit s = Inr t"
    unfolding userinit_def Let_def
    using s1(1) s3(1,5) s5(1) n7 h7 rel
    by (simp add: s2_def [symmetric] s4_def [symmetric] mem4(2) F_def [symmetric] s6_def [symmetric] t_def)
  moreover have mt: "mem t = mem s5" "freelist t = freelist s5" by (simp_all add: t_def upd_proc_def s7_def s6_def)
  moreover have kt: "kernel_memory t ws5 P" "pt_ok t ws5 pg"
    using km5 s5(3) by (simp_all add: t_def upd_proc_def s7_def s6_def kernel_memory_def kernel_image_def pt_ok_def kmem_rep_def)
  moreover have np: "procs s \<noteq> []" using p by (auto simp: find_slot_Some)
  then have "first_process (procs t ! 0) (nextpid s) pg"
    by (simp add: first_process_def t_def upd_proc_def s7_def s6_def e5 s4_def e3' s2_def e1 p1_def F_def)
  moreover have "map joinproc (procs t) = map joinproc (procs s)"
    using np by (simp add: t_def upd_proc_def s7_def s6_def e5 s4_def e3' s2_def e1 p1_def F_def map_update nth_list_update)
      (simp add: list_update_same_conv)
  moreover have "t = s\<lparr>mem := mem t, freelist := freelist t, nextpid := nextpid s + 1, initproc := Some 0, inodes := inodes t, procs := procs t\<rparr>"
    by (simp add: t_def upd_proc_def s7_def s6_def e5 s4_def e3' s2_def e1)
  moreover have "pte_of (mem t) pg q = (if q = 0 then V2P v4 OR 7 else kernel_pte (kdata s) q)" if "q < 1048576" for q
    using s5(6) s3(9) that by (simp add: mt s2_def e1)
  ultimately show ?thesis using s5(7) by (intro exI [of _ t] exI [of _ ws5] exI [of _ pg] exI [of _ v4]) simp
qed

lemma memory_typed [typedI]:
  assumes "file_typed s"
  shows "(\<And>r t. file_typed t \<Longrightarrow> Q (r, t)) \<Longrightarrow> wp (setupkvm s) Q"
    and "(\<And>t. file_typed t \<Longrightarrow> R t) \<Longrightarrow> wp (inituvm pg bs n s) R"
  using assms by (auto intro!: wpI intro: file_typed_memory)

lemma userinit_typed: "file_typed s \<Longrightarrow> wp (userinit s) file_typed"
  unfolding userinit_def Let_def
  by (rule wp_bind, erule wp_mono [OF allocproc_typed]) (auto intro!: typedI simp: file_typed_upd, simp add: file_typed_def typed_def)

section \<open>main\<close>

text \<open>
  A machine on which \<open>main\<close> can start: the loader has put the kernel below 3 MB with its other variables
  zero, the BIOS has described at most \<open>NCPU\<close> processors, of which number \<open>me\<close> runs, and the devices answer.
\<close>

definition bootable :: "boot_env \<Rightarrow> u8 list \<Rightarrow> nat \<Rightarrow> 'a machine_scheme \<Rightarrow> bool" where
  "bootable env ids me s \<longleftrightarrow> kernel_image s \<and> freelist s = 0 \<and> blank_console s \<and> \<not> eflags_if s
     \<and> (\<exists>base es. base \<noteq> 0 \<and> ids = processor_ids es \<and> bios_table (mem s) (kend s) base es
          \<and> (\<forall>a \<in> set ids. answering (dev env a) base a))
     \<and> distinct ids \<and> length ids \<le> NCPU \<and> me < length ids
     \<and> n_cpu s = 0 \<and> length (cpu_ids s) = NCPU \<and> length (gdts s) = NCPU \<and> length (cpu_started s) = NCPU
     \<and> length (entryother env) \<le> 4096 \<and> length (kinitcode s) < 4096
     \<and> file_typed s \<and> (\<forall>p \<in> set (procs s). state p = UNUSED) \<and> (\<forall>ip \<in> set (inodes s). iref ip = 0)
     \<and> length (bufs s) = 31 \<and> (\<forall>b < NBUF. bdev (bufs s ! b) = 0 \<and> brefcnt (bufs s ! b) = 0 \<and> \<not> bdirty (bufs s ! b))"

lemma bufs_binit: "bufs s = bufs t \<Longrightarrow> bufs (binit s) = bufs (binit t)"
  by (simp add: binit_def Let_def)

lemma ring_after_binit:
  assumes "length (bufs s) = 31" and "\<forall>b < NBUF. bdev (bufs s ! b) = 0 \<and> brefcnt (bufs s ! b) = 0 \<and> \<not> bdirty (bufs s ! b)"
  shows "ring_ok (bufs (binit s)) (rev [0..<NBUF])"
proof -
  let ?s = "s\<lparr>held := [], curproc := Some 0, procs := [proc0], idequeue := None, ideerr := False, havedisk1 := True\<rparr>"
  have "ring_ok (bufs (binit ?s)) (rev [0..<NBUF])"
    using assms by (intro binit_cinv(2)) (simp_all add: env_ok_def)
  then show ?thesis using bufs_binit [of ?s s] by simp
qed

text \<open>C3. \<open>main\<close> comes through on every machine with at most \<open>NCPU\<close> processors whose kernel ends below 3 MB: it does not panic or wait for ever, every processor has started with its own segments, the interrupt table and the ring of buffers are set up, the kernel's page table maps physical memory and the devices as \<open>kmap\<close> says, and the one runnable process has pid \<open>nextpid\<close>, the kernel's mappings and, at address 0, a page of its own that holds the initial program; the free pages, the two page tables and the pointers of all tables are well formed, with \<open>joinproc\<close> left as it was.\<close>

theorem main_boots:
  assumes "bootable env ids me s"
  shows "\<exists>t vs pg page. main env (ids ! me) s = Some (Inr t)
    \<and> (\<forall>c < length ids. cpu_started t ! c \<and> gdts t ! c = seginit (gdts s ! c)) \<and> idt_table t = tvinit (vecs env) (idt_table s)
    \<and> use_lock t \<and> held t = [] \<and> ring_ok (bufs t) (rev [0..<NBUF]) \<and> file_typed t \<and> map joinproc (procs t) = map joinproc (procs s)
    \<and> pt_ok t vs (kpgdir t) \<and> (\<forall>q < 1048576. pte_of (mem t) (kpgdir t) q = kernel_pte (kdata s) q)
    \<and> initproc t = Some 0 \<and> first_process (procs t ! 0) (nextpid s) pg \<and> pt_ok t vs pg
    \<and> (\<forall>q < 1048576. pte_of (mem t) pg q = (if q = 0 then V2P page OR 7 else kernel_pte (kdata s) q))
    \<and> (\<forall>i < length (kinitcode s). mem t (page + of_nat i) = kinitcode s ! i)"
proof -
  have a: "kernel_image s" "freelist s = 0" "blank_console s" "\<not> eflags_if s" "distinct ids" "length ids \<le> NCPU" "me < length ids"
    "n_cpu s = 0" "length (cpu_ids s) = NCPU" "length (gdts s) = NCPU" "length (cpu_started s) = NCPU"
    "length (entryother env) \<le> 4096" "length (kinitcode s) < 4096" "file_typed s" "length (bufs s) = 31"
    using assms by (simp_all add: bootable_def)
  obtain base es where es: "base \<noteq> 0" "ids = processor_ids es" "bios_table (mem s) (kend s) base es" "\<forall>a \<in> set ids. answering (dev env a) base a"
    using assms by (auto simp: bootable_def)
  have h: "held s = []" using a(3) by (simp add: blank_console_def)
  obtain s1 vs1 where s1: "early_init s = Inr s1" "s1 = s\<lparr>mem := mem s1, freelist := freelist s1, use_lock := False, kpgdir := kpgdir s1, cr3 := V2P (kpgdir s1)\<rparr>"
      "kernel_memory s1 vs1 (early_pages (kend s))" "189 \<le> length vs1" "\<forall>x < kend s. mem s1 x = mem s x"
    using early_init_ok [OF a(1,2) h] by blast
  define m1 f1 k1 where "m1 = mem s1" and "f1 = freelist s1" and "k1 = kpgdir s1"
  have e1: "s1 = s\<lparr>mem := m1, freelist := f1, use_lock := False, kpgdir := k1, cr3 := V2P k1\<rparr>" using s1(2) by (simp add: m1_def f1_def k1_def)
  have bios1: "bios_table (mem s1) (kend s) base es"
    using es(3) s1(5) unfolding bios_table_def by simp
  have con1: "blank_console s1" using a(3) by (simp add: blank_console_def e1)
  have d1: "n_cpu s1 = 0" "length (cpu_ids s1) = NCPU" "length (gdts s1) = NCPU" "\<not> eflags_if s1" using a by (simp_all add: e1)
  obtain s2 where s2: "device_init env (ids ! me) s1 = Some (Inr s2)" "same_kernel s1 s2" "has_processors env ids s2"
     "mem s2 = mem s1" "freelist s2 = freelist s1" "use_lock s2 = use_lock s1" "bufs s2 = bufs (binit s1)"
     "idt_table s2 = tvinit (vecs env) (idt_table s1)" "gdts s2 = (gdts s1)[me := seginit (gdts s1 ! me)]"
     "cpu_started s2 = cpu_started s1" "lapic_base s2 = base"
    using device_init_ok [OF bios1 es(2) a(5-7) d1(1-3) es(1) d1(4) es(4) con1] by blast
  have km2: "kernel_memory s2 vs1 (early_pages (kend s))"
    using s1(3) s2(2,4,5) by (simp add: kernel_memory_def kernel_image_def pt_ok_def kmem_rep_def same_kernel_def)
  have con2: "blank_console s2" using s2(2) con1 by (simp add: same_kernel_def)
  have l2: "length (gdts s2) = NCPU" "length (cpu_started s2) = NCPU" using a by (simp_all add: s2(9,10) e1)
  have room: "NCPU \<le> length vs1" using s1(4) by simp
  obtain s3 vs3 where s3: "startothers env (ids ! me) s2 = Some (Inr s3)" "machine_ok env ids s2 s3 vs3 (early_pages (kend s))"
      "length vs1 \<le> NCPU + length vs3" "\<forall>c < length ids. c \<noteq> me \<longrightarrow> cpu_started s3 ! c \<and> gdts s3 ! c = seginit (gdts s2 ! c)"
    using startothers_ok [OF s2(3) a(7,6) km2 con2 l2 room a(12)] by blast
  have k3: "kend s3 = kend s" "held s3 = []" "kernel_memory s3 vs3 (early_pages (kend s3))"
    using s3(2) s2(2) h by (simp_all add: machine_ok_def same_kernel_def e1)
  obtain s4 ws4 where s4: "kinit2 (P2V (4 * 1024 * 1024)) (P2V PHYSTOP) s3 = Inr s4"
      "s4 = s3\<lparr>mem := mem s4, freelist := freelist s4, use_lock := True\<rparr>"
      "kernel_memory s4 (ws4 @ vs3) (early_pages (kend s3) \<union> late_pages)"
    using kinit2_ok [OF k3(3,2)] by blast
  define m4 f4 where "m4 = mem s4" and "f4 = freelist s4"
  have e4: "s4 = s3\<lparr>mem := m4, freelist := f4, use_lock := True\<rparr>" using s4(2) by (simp add: m4_def f4_def)
  have f3: "procs s3 = procs s" "inodes s3 = inodes s" "files s3 = files s" "kinitcode s3 = kinitcode s" "nextpid s3 = nextpid s" "kdata s3 = kdata s"
      "curproc s3 = curproc s" "initproc s3 = initproc s"
    using s3(2) s2(2) by (simp_all add: machine_ok_def same_kernel_def e1)
  have ps: "find_slot (\<lambda>p. state p = UNUSED) (procs s4) = Some 0" "inodes s4 \<noteq> []" "\<forall>ip \<in> set (inodes s4). iref ip = 0"
    using assms a(14) by (auto simp: bootable_def e4 f3 find_slot_Some file_typed_def typed_def)
  have len4: "80 \<le> length (ws4 @ vs3)" "held s4 = []" "length (kinitcode s4) < 4096"
    using s1(4) s3(3) k3(2) a(13) by (simp_all add: e4 f3)
  obtain s5 ws5 pg page where s5: "userinit s4 = Inr s5" "kernel_memory s5 ws5 (early_pages (kend s3) \<union> late_pages)" "pt_ok s5 ws5 pg"
      "first_process (procs s5 ! 0) (nextpid s4) pg"
      "\<forall>q < 1048576. pte_of (mem s5) pg q = (if q = 0 then V2P page OR 7 else kernel_pte (kdata s4) q)"
      "\<forall>i < length (kinitcode s4). mem s5 (page + of_nat i) = kinitcode s4 ! i"
      "s5 = s4\<lparr>mem := mem s5, freelist := freelist s5, nextpid := nextpid s4 + 1, initproc := Some 0, inodes := inodes s5, procs := procs s5\<rparr>"
      "map joinproc (procs s5) = map joinproc (procs s4)"
    using userinit_ok [OF s4(3) len4(1,2) ps(1) len4(3) ps(2,3)] by blast
  have typed5: "file_typed s5"
  proof -
    have "file_typed s4" using a(14) by (simp add: file_typed_def typed_def e4 f3)
    then show ?thesis using userinit_typed s5(1) by (blast dest: wpD)
  qed
  define m5 f5 i5 p5 where "m5 = mem s5" and "f5 = freelist s5" and "i5 = inodes s5" and "p5 = procs s5"
  have e5: "s5 = s4\<lparr>mem := m5, freelist := f5, nextpid := nextpid s4 + 1, initproc := Some 0, inodes := i5, procs := p5\<rparr>"
    using s5(7) by (simp add: m5_def f5_def i5_def p5_def)
  have hp3: "has_processors env ids s3" "blank_console s3" using s3(2) by (simp_all add: machine_ok_def)
  then have hp5: "has_processors env ids s5" "blank_console s5"
    by (simp_all add: has_processors_def blank_console_def e5 e4)
  obtain h out p cr where mp: "mpmain env (ids ! me) s5 = Inr (s5\<lparr>acc := h, uartout := out, crtpos := p, crt := cr,
      cpu_started := (cpu_started s5)[me := True]\<rparr>)" using mpmain_ok [OF hp5(1) a(7) hp5(2)] by blast
  define t where "t = s5\<lparr>acc := h, uartout := out, crtpos := p, crt := cr, cpu_started := (cpu_started s5)[me := True]\<rparr>"
  have "main env (ids ! me) s = Some (Inr t)"
    by (simp add: main_def s1(1) s2(1) s3(1) s4(1) [simplified] s5(1) mp t_def)
  moreover have "cpu_started t ! c \<and> gdts t ! c = seginit (gdts s ! c)" if c: "c < length ids" for c
  proof -
    have n: "c < NCPU" using c a(6) by simp
    have l3: "length (cpu_started s3) = NCPU" "gdts s3 ! c = gdts s2 ! c \<or> gdts s3 ! c = seginit (gdts s2 ! c)"
      using s3(2) n by (auto simp: machine_ok_def)
    show ?thesis
      using s3(4) c l3 n a(10) by (cases "c = me") (auto simp: t_def e5 e4 s2(9) e1 seginit_twice)
  qed
  moreover have "idt_table t = tvinit (vecs env) (idt_table s)" "use_lock t" "held t = []" "initproc t = Some 0"
    using s3(2) k3(2) s2(8) by (simp_all add: t_def e5 e4 machine_ok_def e1)
  moreover have "ring_ok (bufs t) (rev [0..<NBUF])"
  proof -
    have "bufs t = bufs (binit s)"
      using s3(2) s2(7) bufs_binit [of s1 s] by (simp add: t_def e5 e4 machine_ok_def e1)
    then show ?thesis using ring_after_binit [of s] assms by (simp add: bootable_def)
  qed
  moreover have "file_typed t" using typed5 by (simp add: t_def file_typed_def typed_def)
  moreover have "map joinproc (procs t) = map joinproc (procs s)" using s5(8) by (simp add: t_def e4 f3)
  moreover have "pt_ok t ws5 (kpgdir t)" "pt_ok t ws5 pg" "\<forall>q < 1048576. pte_of (mem t) (kpgdir t) q = kernel_pte (kdata s) q"
    using s5(2,3) by (simp_all add: t_def kernel_memory_def pt_ok_def kmem_rep_def) (simp add: e5 e4 f3)
  moreover have "first_process (procs t ! 0) (nextpid s) pg" using s5(4) by (simp add: t_def e4 f3)
  moreover have "\<forall>q < 1048576. pte_of (mem t) pg q = (if q = 0 then V2P page OR 7 else kernel_pte (kdata s) q)"
      "\<forall>i < length (kinitcode s). mem t (page + of_nat i) = kinitcode s ! i"
    using s5(5,6) by (simp_all add: t_def e4 f3)
  ultimately show ?thesis by (intro exI [of _ t] exI [of _ ws5] exI [of _ pg] exI [of _ page]) simp
qed

text \<open>A machine with two processors, started on the second.\<close>

definition boot_dev :: "u8 \<Rightarrow> devices" where
  "boot_dev a h = (if h = [] then 0 else case last h of
      Load x \<Rightarrow> if x = 0xFEE00020 then push_bit 24 (ucast a) else 0 | InB x \<Rightarrow> 0x40 | _ \<Rightarrow> 0)"

definition boot_env0 :: boot_env where
  "boot_env0 = \<lparr>dev = boot_dev, vecs = (\<lambda>i. 0x80106000 + of_nat i), entryother = replicate 100 7, mpenter_addr = 0x80103000,
     entrypgdir_addr = 0x80109000\<rparr>"

definition boot0 :: machine where
  "boot0 =
    \<lparr>held = [], mem = demo_bios, freelist = 0, use_lock = False, kend = 0x80200000,
     kpgdir = 0, kdata = 0x80108000, cr3 = 0,
     procs = replicate NPROC proc0, nextpid = 1, curproc = None, initproc = None,
     esp0 = 0, ticks = 0, ktrapret = 0x80105000, kforkret = 0x80104000, kinitcode = replicate 44 9,
     disk = (\<lambda>_ _. []), ide_active = None, ideerr = False, dwrites = [], idequeue = None,
     havedisk1 = False, bufs = replicate 31 zero_buf,
     logstart = 0, logsize = 0, outstanding = 0, committing = False, logdev = 0, lh = [],
     sb = sb_of (replicate 512 0),
     inodes = replicate NINODE \<lparr>idev = 0, inum = 0, iref = 0, ilk = initsleeplock, ivalid = False, itype = 0,
       imajor = 0, iminor = 0, inlink = 0, isize = 0, iaddrs = replicate 13 0\<rparr>,
     files = replicate NFILE \<lparr>ftype = FD_NONE, fref = 0, readable = False, writable = False, fpipe = 0, fip = 0, foff = 0\<rparr>,
     pipes = (\<lambda>q. \<lparr>pdata = [], nread = 0, nwrite = 0, readopen = False, writeopen = False\<rparr>),
     forkfirst = True, conslocking = False, panicked = False, crt = replicate 2000 0, crtpos = 0,
     uartout = [], inbuf = replicate 128 0, in_r = 0, in_w = 0, in_e = 0,
     acc = [], cpu_ids = replicate NCPU 0, n_cpu = 0, cpu_started = replicate NCPU False,
     gdts = replicate NCPU (replicate NSEGS (SEG 0 0 0 0)), idt_table = replicate 256 (SETGATE False 0 0 0),
     io_apic_id = 0, lapic_base = 0, uart_on = False, eflags_if = False\<rparr>"

lemma boot0_bios: "bios_table demo_bios 0x80200000 0xFEE00000 [Processor 0, Processor 1, IoApic 2]"
  unfolding bios_table_def
proof (intro allI impI)
  fix m' assume m': "\<forall>x < 0x80200000. m' x = demo_bios x"
  have low: "(a :: u32) + of_nat i < 0x80200000" if "unat a + i < 0x80200000" for a i
  proof -
    have "unat (of_nat i :: u32) = i" using that by (intro unat_of_nat32) simp
    then show ?thesis using that unat_add32 [of a "of_nat i"] by (simp add: word_less_nat_alt)
  qed
  have "like_demo m'"
    unfolding like_demo_def
    using m' low [of "0x800F1000"] low [of "0x8009FC00"] demo_bios_like [unfolded like_demo_def] by simp
  then show "\<exists>conf mp. mpconfig m' = Some (conf, mp) \<and> mp_table m' conf [Processor 0, Processor 1, IoApic 2] \<and> conf_lapicaddr conf m' = 0xFEE00000"
    using demo_config demo_table by blast
qed

lemma boot0_bootable: "bootable boot_env0 [0, 1] 1 boot0"
proof -
  have "answering (boot_dev a) 0xFEE00000 a" for a by (simp add: answering_def boot_dev_def)
  then have dev: "\<exists>base es. base \<noteq> 0 \<and> [0, 1] = processor_ids es \<and> bios_table (mem boot0) (kend boot0) base es
          \<and> (\<forall>a \<in> set [0, 1]. answering (dev boot_env0 a) base a)"
    using boot0_bios by (intro exI [of _ "0xFEE00000"] exI [of _ "[Processor 0, Processor 1, IoApic 2]"])
      (simp add: boot0_def boot_env0_def)
  have "proc_ok proc0" by (simp add: proc_ok_def proc0_def list_all_length)
  then have typed: "file_typed boot0"
    unfolding file_typed_def typed_def by (simp add: boot0_def list_all_iff file_ok_def)
  have "kernel_image boot0" by (simp add: kernel_image_def boot0_def aligned_unat)
  moreover have "blank_console boot0" by (simp add: blank_console_def boot0_def)
  ultimately show ?thesis
    unfolding bootable_def using dev typed by (simp add: boot0_def boot_env0_def zero_buf_def proc0_def)
qed

lemma main_boots_witness:
  "\<exists>t pg page. main boot_env0 1 boot0 = Some (Inr t) \<and> cpu_started t ! 0 \<and> first_process (procs t ! 0) 1 pg
    \<and> pte_of (mem t) pg 0 = V2P page OR 7 \<and> mem t page = 9"
proof -
  obtain t vs pg page where t: "main boot_env0 ([0, 1] ! 1) boot0 = Some (Inr t)"
      "\<forall>c < length [0, 1 :: u8]. cpu_started t ! c \<and> gdts t ! c = seginit (gdts boot0 ! c)"
      "first_process (procs t ! 0) (nextpid boot0) pg"
      "\<forall>q < 1048576. pte_of (mem t) pg q = (if q = 0 then V2P page OR 7 else kernel_pte (kdata boot0) q)"
      "\<forall>i < length (kinitcode boot0). mem t (page + of_nat i) = kinitcode boot0 ! i"
    using main_boots [OF boot0_bootable] by blast
  have n: "nextpid boot0 = 1" "kinitcode boot0 = replicate 44 9" by (simp_all add: boot0_def)
  have "mem t page = 9" using t(5) [rule_format, of 0] by (simp add: n)
  moreover have "cpu_started t ! 0" "pte_of (mem t) pg 0 = V2P page OR 7"
    using t(2) [rule_format, of 0] t(4) [rule_format, of 0] by simp_all
  ultimately show ?thesis using t(1,3) by (auto simp: n)
qed

end
