(* ===== verification/Hw5_Tree.thy ===== *)
theory Hw5_Tree
  imports Xv6_Prelude "HOL-Library.Multiset"
begin

text \<open>
  The tree of processes of \<open>Practical HW5/Q2.c\<close>: 800 numbers pass through one pipe that fifteen processes
  share. A process of depth 0, 1 or 2 writes its share of the numbers, forks two children, waits for them,
  reads its share back and sorts it; a process of depth 3 reads, sorts and writes back. Nothing says
  which numbers a process gets back: its reads may take what another branch of the tree wrote. The theory
  holds the reading of the file, one definition for the next system call of a process, runs of the
  tree under every schedule, and the proof that the parent ends with the sorted input. The messages on the
  terminal and the failure of \<open>pipe\<close> or \<open>fork\<close> are left out; a write fits the buffer of the pipe (3200 bytes at
  most), and so never waits.
\<close>

section \<open>Reading the file\<close>

text \<open>
  \<open>fscanf("%d")\<close> of the C library on the rest of the file: skip white space; at the end of the file set
  its end mark and leave the number; else take a sign and digits, and set the mark when these reach the end.
  Without digits nothing is stored.
\<close>

definition blank :: "char \<Rightarrow> bool" where
  "blank c \<longleftrightarrow> c \<in> set [CHR '' '', CHR 0x09, CHR 0x0A, CHR 0x0B, CHR 0x0C, CHR 0x0D]"

definition digit :: "char \<Rightarrow> bool" where
  "digit c \<longleftrightarrow> 48 \<le> (of_char c :: nat) \<and> (of_char c :: nat) \<le> 57"

definition decimal_value :: "string \<Rightarrow> i32" where
  "decimal_value ds = foldl (\<lambda>v c. 10 * v + (of_char c - 48)) 0 ds"

definition scan_int :: "string \<Rightarrow> i32 \<Rightarrow> string \<times> bool \<times> i32" where
  "scan_int inp number =
     (let rest = dropWhile blank inp;
          (neg, body) = (case rest of c # cs \<Rightarrow> if c = CHR ''-'' then (True, cs)
                                              else if c = CHR ''+'' then (False, cs) else (False, rest)
                         | [] \<Rightarrow> (False, []));
          ds = takeWhile digit body; left = dropWhile digit body
      in if ds = [] then (left, left = [], number)
         else (left, left = [], if neg then - decimal_value ds else decimal_value ds))"

text \<open>The array on the stack has room for 800 numbers; a store behind it is the value \<open>None\<close>.\<close>

definition NUMBERS :: nat where
  "NUMBERS = 800"

definition store :: "i32 list \<Rightarrow> nat \<Rightarrow> i32 \<Rightarrow> i32 list option" where
  "store num i v = (if i < length num then Some (num[i := v]) else None)"

lemma store_Some: "store num i v = Some num' \<Longrightarrow> i < length num \<and> length num' = length num"
  by (auto simp: store_def split: if_splits)

text \<open>Each turn of the loop stores at the next index, so the loop ends at the end of the array if not before.\<close>

function file_loop :: "string \<Rightarrow> bool \<Rightarrow> i32 \<Rightarrow> nat \<Rightarrow> i32 list \<Rightarrow> i32 list option" where
  "file_loop inp eof number cnt num =
     (if eof then Some num
      else
        (let (inp, eof, number) = scan_int inp number
         in case store num cnt number of
              None \<Rightarrow> None
            | Some num \<Rightarrow> file_loop inp eof number (cnt + 1) num))"
  by pat_completeness auto
termination
  by (relation "measure (\<lambda>(inp, eof, number, cnt, num). length num - cnt)") (auto dest: store_Some)

declare file_loop.simps [simp del]

text \<open>\<open>number\<close> and \<open>num\<close> have arbitrary first contents.\<close>

definition read_file :: "string \<Rightarrow> i32 \<Rightarrow> i32 list \<Rightarrow> i32 list option" where
  "read_file inp number num =
     (let (inp, eof, number) = scan_int inp number
      in case store num 0 number of
           None \<Rightarrow> None
         | Some num \<Rightarrow> file_loop inp eof number 1 num)"

text \<open>
  A file whose last number is followed by a line end: the mark is not yet set after the last number, the
  loop turns once more, and the last number is stored again. With 800 numbers that store is behind the array.
\<close>

lemma scan_line: "scan_int (CHR 0x0A # CHR ''7'' # CHR 0x0A # inp) number = (CHR 0x0A # inp, False, 7)"
  by (simp add: scan_int_def blank_def digit_def decimal_value_def)

lemma scan_end: "scan_int [CHR 0x0A] number = ([], True, number)"
  by (simp add: scan_int_def blank_def)

lemma newline_stores_twice:
  "read_file [CHR ''7'', CHR 0x0A] 0 (replicate 3 0) = Some [7, 7, 0]"
  "read_file [CHR ''7''] 0 (replicate 3 0) = Some [7, 0, 0]"
  by (simp_all add: read_file_def file_loop.simps scan_int_def blank_def digit_def decimal_value_def store_def numeral_3_eq_3)

lemma lines_overrun:
  assumes "length num = cnt + m"
  shows "file_loop (CHR 0x0A # concat (replicate m [CHR ''7'', CHR 0x0A])) False number cnt num = None"
  using assms
proof (induction m arbitrary: number cnt num)
  case 0
  then show ?case by (simp add: file_loop.simps scan_end store_def)
next
  case (Suc m)
  then show ?case by (subst file_loop.simps) (simp add: scan_line store_def)
qed

lemma eight_hundred_lines_overrun:
  "read_file (concat (replicate NUMBERS [CHR ''7'', CHR 0x0A])) number (replicate NUMBERS 0) = None"
proof -
  define m where "m = NUMBERS - 1"
  have m: "NUMBERS = Suc m" by (simp add: m_def NUMBERS_def)
  have "scan_int (CHR ''7'' # CHR 0x0A # inp) number = (CHR 0x0A # inp, False, 7)" for inp
    by (simp add: scan_int_def blank_def digit_def decimal_value_def)
  then show ?thesis
    by (simp add: read_file_def m store_def lines_overrun)
qed

section \<open>One process\<close>

text \<open>\<open>compare\<close> subtracts in \<open>int\<close>; on the machine the difference wraps.\<close>

definition compare :: "i32 \<Rightarrow> i32 \<Rightarrow> i32" where
  "compare num_1 num_2 = num_1 - num_2"

type_synonym qsort = "(i32 \<Rightarrow> i32 \<Rightarrow> i32) \<Rightarrow> i32 list \<Rightarrow> i32 list"

text \<open>
  Where a process is: its first read (below the parent), its first write, the two forks (with the \<open>i\<close> of the
  loop), the two calls of \<open>wait\<close> (with the number still to make), the read after them, and sorting with what follows
  (the last write, or the output file in the parent). A process is its place, its copy of the array, and its
  children not yet waited for. Each place is before one system call, or before the output file as a whole.
\<close>

datatype place = Read1 | Write1 | Forking nat | Waiting nat | Read2 | Merging | Exited

datatype ptree = Proc (place: place) (numbers: "i32 list") (kids: "ptree list")

definition share :: "nat \<Rightarrow> nat" where
  "share k = NUMBERS div 2 ^ k"

text \<open>\<open>read\<close> takes what there is, up to the size asked for; on an empty pipe it waits, since some process always holds
  the end for writing open (every process holds both ends).\<close>

definition read_pipe :: "nat \<Rightarrow> i32 list \<Rightarrow> i32 list \<Rightarrow> (i32 list \<times> i32 list) option" where
  "read_pipe n pipe num =
     (if pipe = [] then None else Some (drop n pipe, take n pipe @ drop (min n (length pipe)) num))"

definition sort_front :: "qsort \<Rightarrow> nat \<Rightarrow> i32 list \<Rightarrow> i32 list" where
  "sort_front qs n num = qs compare (take n num) @ drop n num"

fun reap :: "ptree list \<Rightarrow> ptree list option" where
  "reap [] = None"
| "reap (c # cs) = (if place c = Exited then Some cs else map_option ((#) c) (reap cs))"

text \<open>The next system call of a process of depth \<open>k\<close>; \<open>None\<close> while it has to wait or when it has ended.\<close>

fun tree_call :: "qsort \<Rightarrow> nat \<Rightarrow> i32 list \<Rightarrow> ptree \<Rightarrow> (i32 list \<times> ptree) option" where
  "tree_call qs k pipe (Proc Read1 num ks) =
     map_option (\<lambda>(pipe, num). (pipe, Proc (if k = 3 then Merging else Write1) num ks)) (read_pipe (share k) pipe num)"
| "tree_call qs k pipe (Proc Write1 num ks) = Some (pipe @ take (share k) num, Proc (Forking 1) num ks)"
| "tree_call qs k pipe (Proc (Forking i) num ks) =
     Some (pipe, Proc (if i < 2 then Forking (i + 1) else Waiting 2) num (ks @ [Proc Read1 num []]))"
| "tree_call qs k pipe (Proc (Waiting j) num ks) =
     (let after = (if j < 2 then Read2 else Waiting (j - 1))
      in if ks = [] then Some (pipe, Proc after num ks)
         else map_option (\<lambda>ks. (pipe, Proc after num ks)) (reap ks))"
| "tree_call qs k pipe (Proc Read2 num ks) =
     map_option (\<lambda>(pipe, num). (pipe, Proc Merging num ks)) (read_pipe (share k) pipe num)"
| "tree_call qs k pipe (Proc Merging num ks) =
     (let num = sort_front qs (share k) num
      in Some (if k = 0 then pipe else pipe @ take (share k) num, Proc Exited num ks))"
| "tree_call qs k pipe (Proc Exited num ks) = None"

section \<open>The tree under a schedule\<close>

text \<open>
  A schedule is a list of processes, each named by the way to it from the parent: the one that makes its next
  system call. A schedule may name only processes that can go on.
\<close>

fun tree_move :: "qsort \<Rightarrow> nat \<Rightarrow> nat list \<Rightarrow> i32 list \<Rightarrow> ptree \<Rightarrow> (i32 list \<times> ptree) option" where
  "tree_move qs k [] pipe t = tree_call qs k pipe t"
| "tree_move qs k (i # way) pipe (Proc pc num ks) =
     (if i < length ks
      then map_option (\<lambda>(pipe, c). (pipe, Proc pc num (ks[i := c]))) (tree_move qs (k + 1) way pipe (ks ! i))
      else None)"

fun tree_run :: "qsort \<Rightarrow> nat list list \<Rightarrow> i32 list \<times> ptree \<Rightarrow> (i32 list \<times> ptree) option" where
  "tree_run qs [] s = Some s"
| "tree_run qs (way # ways) (pipe, t) = Option.bind (tree_move qs 0 way pipe t) (tree_run qs ways)"

definition tree_start :: "i32 list \<Rightarrow> i32 list \<times> ptree" where
  "tree_start num = ([], Proc Write1 num [])"

definition out_dat :: "ptree \<Rightarrow> i32 list option" where
  "out_dat t = (if place t = Exited then Some (take NUMBERS (numbers t)) else None)"

section \<open>What the tree keeps\<close>

text \<open>
  The numbers in the pipe that a process and those below it will still read (\<open>claims\<close>), the numbers they hold
  and will still write (\<open>holds\<close>), their calls still to come (\<open>calls_left\<close>), and the shape of the tree.
\<close>

function calls_of :: "nat \<Rightarrow> nat" where
  "calls_of k = (if k < 3 then 8 + 2 * calls_of (k + 1) else 2)"
  by pat_completeness auto
termination
  by (relation "measure (\<lambda>k. 3 - k)") auto

declare calls_of.simps [simp del]

fun claims :: "nat \<Rightarrow> ptree \<Rightarrow> nat" where
  "claims k (Proc pc num ks) =
     (case pc of
        Read1 \<Rightarrow> share k
      | Read2 \<Rightarrow> share k
      | Exited \<Rightarrow> if k = 0 then 0 else share k
      | Forking i \<Rightarrow> (2 - length ks) * share (k + 1) + (\<Sum>c\<leftarrow>ks. claims (k + 1) c)
      | Waiting j \<Rightarrow> (2 - length ks) * share (k + 1) + (\<Sum>c\<leftarrow>ks. claims (k + 1) c)
      | _ \<Rightarrow> 0)"

fun holds :: "nat \<Rightarrow> ptree \<Rightarrow> i32 multiset" where
  "holds k (Proc pc num ks) =
     (case pc of
        Write1 \<Rightarrow> mset (take (share k) num)
      | Merging \<Rightarrow> mset (take (share k) num)
      | Exited \<Rightarrow> if k = 0 then mset (take (share k) num) else {#}
      | _ \<Rightarrow> \<Sum>c\<leftarrow>ks. holds (k + 1) c)"

fun calls_left :: "nat \<Rightarrow> ptree \<Rightarrow> nat" where
  "calls_left k (Proc pc num ks) =
     (case pc of
        Read1 \<Rightarrow> calls_of k
      | Write1 \<Rightarrow> calls_of k - 1
      | Forking i \<Rightarrow> 4 + (3 - i) * (calls_of (k + 1) + 1) + (\<Sum>c\<leftarrow>ks. calls_left (k + 1) c)
      | Waiting j \<Rightarrow> 2 + j + (\<Sum>c\<leftarrow>ks. calls_left (k + 1) c)
      | Read2 \<Rightarrow> 2
      | Merging \<Rightarrow> 1
      | Exited \<Rightarrow> 0)"

fun shaped :: "nat \<Rightarrow> ptree \<Rightarrow> bool" where
  "shaped k (Proc pc num ks) \<longleftrightarrow>
     k \<le> 3 \<and> length num = NUMBERS \<and> list_all (shaped (k + 1)) ks \<and>
     (case pc of
        Read1 \<Rightarrow> 0 < k \<and> ks = []
      | Write1 \<Rightarrow> k < 3 \<and> ks = []
      | Forking i \<Rightarrow> k < 3 \<and> 1 \<le> i \<and> i \<le> 2 \<and> length ks = i - 1
      | Waiting j \<Rightarrow> k < 3 \<and> 1 \<le> j \<and> j \<le> 2 \<and> length ks = j
      | Read2 \<Rightarrow> k < 3 \<and> ks = []
      | _ \<Rightarrow> ks = [])"

lemma calls_of_levels:
  "calls_of 3 = 2" "calls_of 2 = 12" "calls_of (Suc (Suc 0)) = 12" "calls_of 1 = 32" "calls_of (Suc 0) = 32" "calls_of 0 = 72"
  by (simp_all add: calls_of.simps)

lemma calls_of_Suc: "k < 3 \<Longrightarrow> calls_of k = 8 + 2 * calls_of (Suc k)"
  by (simp add: calls_of.simps [of k])

lemma share_le [simp]: "share k \<le> NUMBERS"
  by (simp add: share_def)

lemma share_pos: "k \<le> 3 \<Longrightarrow> 0 < share k"
proof -
  assume "k \<le> 3"
  then have "(2::nat) ^ k \<le> 2 ^ 3" by (intro power_increasing) auto
  then show "0 < share k" by (simp add: share_def NUMBERS_def div_greater_zero_iff)
qed

lemma share_0 [simp]: "share 0 = NUMBERS"
  by (simp add: share_def)

lemma share_Suc: "k < 3 \<Longrightarrow> share k = 2 * share (Suc k)"
proof -
  assume "k < 3"
  then have "k = 0 \<or> k = 1 \<or> k = 2" by auto
  then show "share k = 2 * share (Suc k)" by (auto simp: share_def NUMBERS_def)
qed

lemma sum_list_replaced:
  fixes f :: "'a \<Rightarrow> 'b::comm_monoid_add"
  shows "i < length xs \<Longrightarrow> (\<Sum>x\<leftarrow>xs[i := y]. f x) + f (xs ! i) = (\<Sum>x\<leftarrow>xs. f x) + f y"
  by (induction xs arbitrary: i) (auto simp: ac_simps split: nat.splits)

lemma reap_Some:
  assumes "reap ks = Some ks'"
  shows "\<exists>as c bs. ks = as @ c # bs \<and> ks' = as @ bs \<and> place c = Exited"
  using assms
proof (induction ks arbitrary: ks')
  case (Cons c cs)
  show ?case
  proof (cases "place c = Exited")
    case True
    then have "c # cs = [] @ c # cs \<and> ks' = [] @ cs" using Cons.prems by simp
    then show ?thesis using True by blast
  next
    case False
    then obtain cs' where cs': "reap cs = Some cs'" "ks' = c # cs'" using Cons.prems by auto
    then obtain as d bs where "cs = as @ d # bs" "cs' = as @ bs" "place d = Exited" using Cons.IH by blast
    then have "c # cs = (c # as) @ d # bs \<and> ks' = (c # as) @ bs" using cs' by simp
    then show ?thesis using \<open>place d = Exited\<close> by blast
  qed
qed simp

lemma reap_found: "c \<in> set ks \<Longrightarrow> place c = Exited \<Longrightarrow> \<exists>ks'. reap ks = Some ks'"
  by (induction ks) auto

text \<open>A read of a process whose claims are in the pipe is never short.\<close>

lemma read_pipe_full:
  assumes "n \<le> length pipe" and "0 < n"
  shows "read_pipe n pipe num = Some (drop n pipe, take n pipe @ drop n num)"
  using assms by (auto simp: read_pipe_def min_absorb1)

definition kept :: "nat \<Rightarrow> i32 list \<times> ptree \<Rightarrow> i32 list \<times> ptree \<Rightarrow> bool" where
  "kept k = (\<lambda>(pipe, t) (pipe', t').
     shaped k t' \<and> calls_left k t = Suc (calls_left k t') \<and>
     length pipe' + claims k t = length pipe + claims k t' \<and> mset pipe' + holds k t' = mset pipe + holds k t)"

text \<open>A child stands for its share of the claims and numbers of its parent.\<close>

lemma sum_list_member:
  fixes f :: "'a \<Rightarrow> nat"
  shows "c \<in> set xs \<Longrightarrow> f c \<le> (\<Sum>x\<leftarrow>xs. f x)"
  by (induction xs) auto

lemma sum_list_member_mset:
  fixes f :: "'a \<Rightarrow> 'b multiset"
  shows "c \<in> set xs \<Longrightarrow> set_mset (f c) \<subseteq> set_mset (\<Sum>x\<leftarrow>xs. f x)"
  by (induction xs) auto

lemma child_in:
  assumes "shaped k (Proc pc num ks)" and "c \<in> set ks"
  shows "shaped (Suc k) c \<and> claims (Suc k) c \<le> claims k (Proc pc num ks) \<and>
    set_mset (holds (Suc k) c) \<subseteq> set_mset (holds k (Proc pc num ks))"
  using assms sum_list_member [of c ks "claims (Suc k)"] sum_list_member_mset [of c ks "holds (Suc k)"]
  by (auto simp: list_all_iff split: place.splits)

lemma replaced_child:
  assumes t: "shaped k (Proc pc num ks)" and i: "i < length ks" and c: "kept (Suc k) (pipe, ks ! i) (pipe', c)"
  shows "kept k (pipe, Proc pc num ks) (pipe', Proc pc num (ks[i := c]))"
proof -
  have sh: "list_all (shaped (Suc k)) (ks[i := c])"
    using t c set_update_subset_insert [of ks i c] by (auto simp: kept_def list_all_iff)
  have cl: "(\<Sum>x\<leftarrow>ks[i := c]. claims (Suc k) x) + claims (Suc k) (ks ! i) = (\<Sum>x\<leftarrow>ks. claims (Suc k) x) + claims (Suc k) c"
    and left: "(\<Sum>x\<leftarrow>ks[i := c]. calls_left (Suc k) x) + calls_left (Suc k) (ks ! i) =
      (\<Sum>x\<leftarrow>ks. calls_left (Suc k) x) + calls_left (Suc k) c"
    and ho: "(\<Sum>x\<leftarrow>ks[i := c]. holds (Suc k) x) + holds (Suc k) (ks ! i) = (\<Sum>x\<leftarrow>ks. holds (Suc k) x) + holds (Suc k) c"
    by (rule sum_list_replaced [OF i])+
  have "mset pipe' + (\<Sum>x\<leftarrow>ks[i := c]. holds (Suc k) x) + holds (Suc k) (ks ! i) =
      mset pipe + (\<Sum>x\<leftarrow>ks. holds (Suc k) x) + holds (Suc k) (ks ! i)"
    using c ho by (simp add: kept_def ac_simps)
  then have ms: "mset pipe' + (\<Sum>x\<leftarrow>ks[i := c]. holds (Suc k) x) = mset pipe + (\<Sum>x\<leftarrow>ks. holds (Suc k) x)"
    by simp
  show ?thesis
    using t i c sh cl left ms by (auto simp: kept_def split: place.splits)
qed

lemma child_exited:
  assumes "shaped (Suc k) c" and "place c = Exited"
  shows "claims (Suc k) c = share (Suc k)" "holds (Suc k) c = {#}" "calls_left (Suc k) c = 0"
  using assms by (cases c; simp)+

text \<open>The documented behaviour of \<open>qsort\<close>: with a comparison that orders the elements, it sorts them.\<close>

definition orders :: "(i32 \<Rightarrow> i32 \<Rightarrow> i32) \<Rightarrow> i32 set \<Rightarrow> bool" where
  "orders cmp A \<longleftrightarrow>
     (\<forall>a\<in>A. \<forall>b\<in>A. 0 <s cmp a b \<longleftrightarrow> cmp b a <s 0) \<and>
     (\<forall>a\<in>A. \<forall>b\<in>A. \<forall>c\<in>A. cmp a b \<le>s 0 \<and> cmp b c \<le>s 0 \<longrightarrow> cmp a c \<le>s 0)"

definition qsort_works :: "qsort \<Rightarrow> bool" where
  "qsort_works qs \<longleftrightarrow>
     (\<forall>cmp xs. orders cmp (set xs) \<longrightarrow> mset (qs cmp xs) = mset xs \<and> sorted_wrt (\<lambda>a b. cmp a b \<le>s 0) (qs cmp xs))"

text \<open>Two numbers of at most 30 bits have a difference that does not wrap; with larger ones the order is lost.\<close>

definition small :: "i32 \<Rightarrow> bool" where
  "small a \<longleftrightarrow> - (2 ^ 30) \<le> sint a \<and> sint a < 2 ^ 30"

lemma sint_compare: "small a \<Longrightarrow> small b \<Longrightarrow> sint (compare a b) = sint a - sint b"
  unfolding compare_def small_def sint_word_ariths
  by (rule signed_take_bit_int_eq_self) auto

lemma compare_wraps: "0 <s compare (- 2) 0x7FFFFFFF"
  by (simp add: compare_def word_sless_alt)

lemma compare_orders: "\<forall>a\<in>A. small a \<Longrightarrow> orders compare A"
  unfolding orders_def word_sle_eq word_sless_alt by (simp add: sint_compare)

lemma sort_front_ok:
  assumes "qsort_works qs" and "\<forall>a\<in>set (take n num). small a"
  shows "mset (take n (sort_front qs n num)) = mset (take n num)" "length (sort_front qs n num) = length num"
    "sorted_wrt (\<lambda>a b. sint a \<le> sint b) (take n (sort_front qs n num))"
proof -
  have q: "mset (qs compare (take n num)) = mset (take n num)"
    "sorted_wrt (\<lambda>a b. compare a b \<le>s 0) (qs compare (take n num))"
    using assms compare_orders unfolding qsort_works_def by blast+
  then have len: "length (qs compare (take n num)) = min n (length num)"
    by (metis length_take min.commute size_mset)
  then have front: "take n (sort_front qs n num) = qs compare (take n num)"
    by (cases "n \<le> length num") (auto simp: sort_front_def)
  show "mset (take n (sort_front qs n num)) = mset (take n num)" by (simp add: front q)
  show "length (sort_front qs n num) = length num" using len by (simp add: sort_front_def)
  have "set (qs compare (take n num)) = set (take n num)" using q(1) by (metis set_mset_mset)
  then show "sorted_wrt (\<lambda>a b. sint a \<le> sint b) (take n (sort_front qs n num))"
    using q(2) assms(2) unfolding front
    by (elim sorted_wrt_mono_rel [rotated]) (auto simp: word_sle_eq sint_compare)
qed

definition sorted_out :: "ptree \<Rightarrow> bool" where
  "sorted_out t \<longleftrightarrow> (place t = Exited \<longrightarrow> sorted_wrt (\<lambda>a b. sint a \<le> sint b) (take NUMBERS (numbers t)))"

lemma sorted_out_running [simp]: "pc \<noteq> Exited \<Longrightarrow> sorted_out (Proc pc num ks)"
  by (simp add: sorted_out_def)

lemma read_kept:
  assumes "shaped k (Proc pc num ks)" and "pc = Read1 \<or> pc = Read2" and "share k \<le> length pipe"
    and "read_pipe (share k) pipe num = Some (pipe', num')"
  shows "length num' = NUMBERS" "length pipe' + share k = length pipe" "mset pipe' + mset (take (share k) num') = mset pipe"
proof -
  have "k \<le> 3" "length num = NUMBERS" using assms(1) by auto
  then have e: "pipe' = drop (share k) pipe" "num' = take (share k) pipe @ drop (share k) num"
    using assms(3,4) read_pipe_full [OF assms(3) share_pos] by auto
  then show "length num' = NUMBERS" "length pipe' + share k = length pipe"
    using assms(3) \<open>length num = NUMBERS\<close> by (auto simp: min_absorb2)
  have "mset pipe' + mset (take (share k) num') = mset (drop (share k) pipe) + mset (take (share k) pipe)"
    using assms(3) by (simp add: e)
  also have "\<dots> = mset pipe" by (metis append_take_drop_id mset_append union_commute)
  finally show "mset pipe' + mset (take (share k) num') = mset pipe" .
qed

lemma call_kept:
  assumes qs: "qsort_works qs" and t: "shaped k t" and pipe: "claims k t \<le> length pipe"
    and small: "\<forall>x\<in>#holds k t. small x" and call: "tree_call qs k pipe t = Some (pipe', t')"
  shows "kept k (pipe, t) (pipe', t') \<and> (k = 0 \<longrightarrow> sorted_out t')"
proof (cases t)
  case (Proc pc num ks)
  show ?thesis
  proof (cases pc)
    case Read1
    then obtain num' where n: "read_pipe (share k) pipe num = Some (pipe', num')"
      and t': "t' = Proc (if k = 3 then Merging else Write1) num' ks"
      using call Proc by auto
    note r = read_kept [OF t [unfolded Proc] disjI1 [OF Read1] _ n]
    show ?thesis
      using t pipe Read1 Proc t' r by (auto simp: kept_def calls_of_levels calls_of_Suc)
  next
    case Write1
    then have "k < 3" using t Proc by simp
    then have "share (Suc k) * 2 \<le> NUMBERS" using share_le [of k] by (simp add: share_Suc)
    then show ?thesis
      using t call Proc Write1 by (auto simp: kept_def share_Suc calls_of_Suc ac_simps)
  next
    case (Forking i)
    then have "i = 1 \<or> i = 2" "k < 3" using t Proc by auto
    then show ?thesis
      using t call Proc Forking share_pos [of "Suc k"] by (elim disjE) (auto simp: kept_def length_Suc_conv)
  next
    case (Waiting j)
    then have j: "k < 3" "j = 1 \<or> j = 2" "length ks = j" using t Proc by auto
    then obtain ks' where ks': "reap ks = Some ks'"
      and t': "t' = Proc (if j < 2 then Read2 else Waiting (j - 1)) num ks'" "pipe' = pipe"
      using call Proc Waiting by (auto simp: Let_def split: if_splits)
    from reap_Some [OF ks'] obtain as c bs where ks: "ks = as @ c # bs" "ks' = as @ bs" and c: "place c = Exited"
      by blast
    have "shaped (Suc k) c" using t Proc ks by simp
    note gone = child_exited [OF this c]
    have more: "length as + length bs = j - 1" using j(3) ks by simp
    show ?thesis
      using j(2)
    proof
      assume "j = 1"
      then show ?thesis using t Proc Waiting t' ks gone more by (auto simp: kept_def share_Suc)
    next
      assume "j = 2"
      then show ?thesis using t Proc Waiting t' ks gone more by (auto simp: kept_def)
    qed
  next
    case Read2
    then obtain num' where n: "read_pipe (share k) pipe num = Some (pipe', num')" and t': "t' = Proc Merging num' ks"
      using call Proc by auto
    note r = read_kept [OF t [unfolded Proc] disjI2 [OF Read2] _ n]
    show ?thesis
      using t pipe Read2 Proc t' r by (auto simp: kept_def)
  next
    case Merging
    have f: "mset (take (share k) (sort_front qs (share k) num)) = mset (take (share k) num)"
      "length (sort_front qs (share k) num) = length num"
      "sorted_wrt (\<lambda>a b. sint a \<le> sint b) (take (share k) (sort_front qs (share k) num))"
      using sort_front_ok [OF qs, of "share k" num] small Proc Merging by auto
    show ?thesis
      using t call Proc Merging f by (auto simp: kept_def sorted_out_def Let_def split: if_splits)
  next
    case Exited
    then show ?thesis using call Proc by simp
  qed
qed

lemma move_kept:
  assumes "qsort_works qs" and "shaped k t" and "claims k t \<le> length pipe" and "\<forall>x\<in>#holds k t. small x"
    and "tree_move qs k way pipe t = Some (pipe', t')"
  shows "kept k (pipe, t) (pipe', t') \<and> (k = 0 \<longrightarrow> sorted_out t \<longrightarrow> sorted_out t')"
  using assms(2-)
proof (induction way arbitrary: k pipe t pipe' t')
  case Nil
  then show ?case using call_kept [OF assms(1) Nil(1-3)] by simp
next
  case (Cons i way)
  obtain pc num ks where t: "t = Proc pc num ks" by (cases t)
  obtain c where i: "i < length ks" and c: "tree_move qs (Suc k) way pipe (ks ! i) = Some (pipe', c)"
    and t': "t' = Proc pc num (ks[i := c])"
    using Cons.prems(4) t by (auto split: if_splits)
  have child: "shaped (Suc k) (ks ! i)" "claims (Suc k) (ks ! i) \<le> claims k t" "set_mset (holds (Suc k) (ks ! i)) \<subseteq> set_mset (holds k t)"
    using child_in [of k pc num ks "ks ! i"] Cons.prems(1) i t by auto
  have "kept (Suc k) (pipe, ks ! i) (pipe', c)"
    using Cons.IH [OF child(1) _ _ c] child(2,3) Cons.prems(2,3) by auto
  then show ?case
    using replaced_child Cons.prems(1) i t t' by (auto simp: sorted_out_def)
qed

text \<open>Some process can go on until the parent has ended: nobody waits for ever.\<close>

lemma some_move:
  assumes "shaped k t" and "claims k t \<le> length pipe" and "place t \<noteq> Exited"
  shows "\<exists>way s. tree_move qs k way pipe t = Some s"
  using assms
proof (induction t arbitrary: k)
  case (Proc pc num ks)
  let ?t = "Proc pc num ks"
  have own: "\<exists>way s. tree_move qs k way pipe ?t = Some s" if some: "tree_call qs k pipe ?t \<noteq> None"
  proof -
    obtain s where "tree_call qs k pipe ?t = Some s" using some by blast
    then have "tree_move qs k [] pipe ?t = Some s" by simp
    then show ?thesis by blast
  qed
  have read: "\<exists>x. read_pipe (share k) pipe num = Some x" if "share k \<le> length pipe"
    using that share_pos [of k] Proc.prems(1) by (auto simp: read_pipe_def)
  show ?case
  proof (cases pc)
    case (Waiting j)
    show ?thesis
    proof (cases "\<exists>c\<in>set ks. place c = Exited")
      case True
      then obtain ks' where "reap ks = Some ks'" using reap_found by blast
      then show ?thesis using Waiting by (intro own) auto
    next
      case False
      show ?thesis
      proof (cases ks)
        case Nil
        then show ?thesis using Waiting by (intro own) auto
      next
        case (Cons c cs)
        have "shaped (Suc k) c" "claims (Suc k) c \<le> length pipe"
          using child_in [of k pc num ks c] Proc.prems Cons by auto
        then obtain way pipe' c' where "tree_move qs (Suc k) way pipe c = Some (pipe', c')"
          using Proc.IH [of c "Suc k"] False Cons by fastforce
        then have "tree_move qs k (0 # way) pipe ?t = Some (pipe', Proc pc num (ks[0 := c']))"
          using Cons by simp
        then show ?thesis by blast
      qed
    qed
    next
    case Exited
    then show ?thesis using Proc.prems by simp
  qed (use read Proc.prems in \<open>intro own; auto simp: Let_def split: if_splits\<close>)+
qed

section \<open>The whole run\<close>

definition tree_ok :: "i32 list \<Rightarrow> nat \<Rightarrow> i32 list \<times> ptree \<Rightarrow> bool" where
  "tree_ok input n = (\<lambda>(pipe, t).
     shaped 0 t \<and> length pipe = claims 0 t \<and> mset pipe + holds 0 t = mset input \<and> n + calls_left 0 t = 71 \<and> sorted_out t)"

lemma start_ok: "length input = NUMBERS \<Longrightarrow> tree_ok input 0 (tree_start input)"
  by (simp add: tree_ok_def tree_start_def calls_of_levels)

lemma tree_ok_move:
  assumes "qsort_works qs" and "\<forall>x\<in>set input. small x" and ok: "tree_ok input n (pipe, t)"
    and move: "tree_move qs 0 way pipe t = Some (pipe', t')"
  shows "tree_ok input (Suc n) (pipe', t')"
proof -
  have "set_mset (holds 0 t) \<subseteq> set input"
    using ok by (metis (mono_tags, lifting) case_prod_conv mset_subset_eq_add_right set_mset_mono set_mset_mset tree_ok_def)
  then have "kept 0 (pipe, t) (pipe', t') \<and> (sorted_out t \<longrightarrow> sorted_out t')"
    using move_kept [OF assms(1) _ _ _ move] ok assms(2) by (auto simp: tree_ok_def)
  then show ?thesis
    using ok by (auto simp: tree_ok_def kept_def)
qed

lemma tree_ok_run:
  assumes "qsort_works qs" and "\<forall>x\<in>set input. small x" and "tree_ok input n s" and "tree_run qs ways s = Some s'"
  shows "tree_ok input (n + length ways) s'"
  using assms(3,4)
proof (induction ways arbitrary: n s)
  case (Cons way ways)
  obtain pipe t where s: "s = (pipe, t)" by (cases s)
  obtain pipe' t' where m: "tree_move qs 0 way pipe t = Some (pipe', t')"
    and r: "tree_run qs ways (pipe', t') = Some s'"
    using Cons.prems(2) s by (auto simp: bind_eq_Some_conv)
  show ?case
    using Cons.IH [OF tree_ok_move [OF assms(1,2) Cons.prems(1) [unfolded s] m] r] by simp
qed simp

lemma exited_done: "shaped 0 t \<Longrightarrow> place t = Exited \<longleftrightarrow> calls_left 0 t = 0"
  by (cases t) (auto simp: calls_of_levels split: place.splits)

lemma out_sorted:
  assumes "tree_ok input n (pipe, t)" and "place t = Exited"
  shows "\<exists>out. out_dat t = Some out \<and> mset out = mset input \<and> sorted_wrt (\<lambda>a b. sint a \<le> sint b) out"
  using assms by (cases t) (auto simp: tree_ok_def out_dat_def sorted_out_def)

text \<open>
  C10. Under every schedule, with 800 numbers of at most 30 bits and a \<open>qsort\<close> that keeps its contract, the tree makes at
  most 71 calls: \<open>read\<close>, \<open>write\<close>, \<open>fork\<close> and \<open>wait\<close>, and as the last the output file of the parent. As long as
  it has made fewer, some process can make its next one (no process waits for ever); after 71 the parent has written
  the input in ascending order, although reads take whatever numbers come first in the pipe.
\<close>

theorem tree_sorts:
  assumes "qsort_works qs" and "length input = NUMBERS" and "\<forall>x\<in>set input. small x"
    and "tree_run qs ways (tree_start input) = Some (pipe, t)"
  shows "length ways \<le> 71 \<and>
    (if length ways < 71
     then \<exists>way s. tree_move qs 0 way pipe t = Some s
     else \<exists>out. out_dat t = Some out \<and> mset out = mset input \<and> sorted_wrt (\<lambda>a b. sint a \<le> sint b) out)"
proof -
  have ok: "tree_ok input (length ways) (pipe, t)"
    using tree_ok_run [OF assms(1,3) start_ok [OF assms(2)] assms(4)] by simp
  then have left: "length ways + calls_left 0 t = 71" and t: "shaped 0 t" "claims 0 t \<le> length pipe"
    by (auto simp: tree_ok_def)
  then show ?thesis
    using some_move [OF t] out_sorted [OF ok] exited_done [OF t(1)] by auto
qed

text \<open>A sort that keeps the contract: insertion, for any comparison.\<close>

primrec insert_by :: "(i32 \<Rightarrow> i32 \<Rightarrow> i32) \<Rightarrow> i32 \<Rightarrow> i32 list \<Rightarrow> i32 list" where
  "insert_by cmp x [] = [x]"
| "insert_by cmp x (y # ys) = (if cmp x y \<le>s 0 then x # y # ys else y # insert_by cmp x ys)"

definition insertion_sort :: qsort where
  "insertion_sort cmp xs = foldr (insert_by cmp) xs []"

lemma mset_insert_by [simp]: "mset (insert_by cmp x ys) = add_mset x (mset ys)"
  by (induction ys) auto

lemma set_insert_by [simp]: "set (insert_by cmp x ys) = insert x (set ys)"
  by (induction ys) auto

lemma orders_subset: "orders cmp B \<Longrightarrow> A \<subseteq> B \<Longrightarrow> orders cmp A"
  unfolding orders_def by (meson subsetD)

lemma orders_total:
  assumes "orders cmp A" and "x \<in> A" and "y \<in> A" and "\<not> cmp x y \<le>s 0"
  shows "cmp y x \<le>s 0"
proof -
  have "0 <s cmp x y \<longleftrightarrow> cmp y x <s 0" using assms(1-3) unfolding orders_def by blast
  then show ?thesis using assms(4) by (simp add: word_sle_eq word_sless_alt)
qed

lemma orders_trans:
  "orders cmp A \<Longrightarrow> x \<in> A \<Longrightarrow> y \<in> A \<Longrightarrow> z \<in> A \<Longrightarrow> cmp x y \<le>s 0 \<Longrightarrow> cmp y z \<le>s 0 \<Longrightarrow> cmp x z \<le>s 0"
  unfolding orders_def by blast

lemma insert_by_sorted:
  assumes "orders cmp (insert x (set ys))" and "sorted_wrt (\<lambda>a b. cmp a b \<le>s 0) ys"
  shows "sorted_wrt (\<lambda>a b. cmp a b \<le>s 0) (insert_by cmp x ys)"
  using assms
proof (induction ys)
  case (Cons y ys)
  have o: "orders cmp (insert x (set ys))" using orders_subset [OF Cons.prems(1)] by auto
  have turn: "cmp y x \<le>s 0" if "\<not> cmp x y \<le>s 0"
    using orders_total [OF Cons.prems(1)] that by simp
  have trans: "cmp x z \<le>s 0" if "cmp x y \<le>s 0" "z \<in> set ys" for z
    using orders_trans [OF Cons.prems(1), of x y z] Cons.prems(2) that by simp
  show ?case
    using Cons.IH [OF o] Cons.prems(2) turn trans by auto
qed simp

lemma insertion_sort_works: "qsort_works insertion_sort"
proof -
  have "mset (insertion_sort cmp xs) = mset xs \<and> sorted_wrt (\<lambda>a b. cmp a b \<le>s 0) (insertion_sort cmp xs)"
    if "orders cmp (set xs)" for cmp xs
    using that
  proof (induction xs)
    case Nil
    then show ?case by (simp add: insertion_sort_def)
  next
    case (Cons x xs)
    have o: "orders cmp (set xs)" using orders_subset [OF Cons.prems] by auto
    then have IH: "mset (insertion_sort cmp xs) = mset xs" "sorted_wrt (\<lambda>a b. cmp a b \<le>s 0) (insertion_sort cmp xs)"
      using Cons.IH by auto
    have "insert x (set (insertion_sort cmp xs)) = set (x # xs)" using IH(1) by (metis list.simps(15) set_mset_mset)
    then show ?case
      using IH insert_by_sorted [of cmp x "insertion_sort cmp xs"] Cons.prems
      by (simp add: insertion_sort_def)
  qed
  then show ?thesis by (auto simp: qsort_works_def)
qed

theorem tree_sorts_witness:
  "\<exists>way s. tree_move insertion_sort 0 way (replicate 400 7) (Proc (Forking 2) (replicate 800 7) [Proc Write1 (replicate 800 7) []])
     = Some s"
proof -
  have "tree_run insertion_sort [[], [], [0]] (tree_start (replicate NUMBERS 7)) =
      Some (replicate 400 7, Proc (Forking 2) (replicate 800 7) [Proc Write1 (replicate 800 7) []])"
    by (simp add: tree_start_def share_def NUMBERS_def read_pipe_def flip: replicate_add)
  moreover have "small 7" by (simp add: small_def)
  ultimately show ?thesis
    using tree_sorts [OF insertion_sort_works, of "replicate NUMBERS 7" "[[], [], [0]]"] by simp
qed

end
