(* ===== verification/Hw_Sums.thy ===== *)
theory Hw_Sums
  imports Complex_Main Xv6_Prelude "HOL-Library.Sublist"
begin

text \<open>
  Two exercises that add numbers: \<open>Practical HW1/1/1.c\<close> prints the greatest sum of a segment of its input, and
  \<open>Practical HW4/pi.c\<close> shares the terms of Leibniz' series for pi among threads.
\<close>

section \<open>The greatest sum of a segment\<close>

text \<open>The second loop of \<open>main\<close>, in the width of \<open>int\<close>, and what is printed after it.\<close>

fun segment_loop :: "i32 list \<Rightarrow> i32 \<Rightarrow> i32 \<Rightarrow> i32" where
  "segment_loop [] now mn = mn"
| "segment_loop (a # nums) now mn =
     (let now = now + a;
          now = (if now <s 0 then 0 else now);
          mn = (if mn <s now then now else mn)
      in segment_loop nums now mn)"

definition max_segment :: "i32 list \<Rightarrow> i32" where
  "max_segment nums = (let mn = segment_loop nums 0 (- 1000) in if 0 \<le>s mn then mn else 0)"

fun best_front :: "int list \<Rightarrow> int" where
  "best_front [] = 0"
| "best_front (x # xs) = max 0 (x + best_front xs)"

fun best_segment :: "int list \<Rightarrow> int" where
  "best_segment [] = 0"
| "best_segment (x # xs) = max (best_front (x # xs)) (best_segment xs)"

lemma best_front_le: "0 \<le> best_front xs" "best_front xs \<le> best_segment xs"
  by (induction xs) auto

lemma prefix_sum_le: "prefix p xs \<Longrightarrow> sum_list p \<le> best_front xs"
  by (induction xs arbitrary: p) (fastforce simp: prefix_Cons max_def)+

lemma best_front_prefix: "\<exists>p. prefix p xs \<and> sum_list p = best_front xs"
proof (induction xs)
  case (Cons x xs)
  then obtain p where p: "prefix p xs" "sum_list p = best_front xs" by blast
  show ?case
    using p by (cases "0 \<le> x + best_front xs") (auto intro: exI [of _ "x # p"] exI [of _ "[]"] simp: max_def)
qed simp

lemma segment_sum_le: "sublist p xs \<Longrightarrow> sum_list p \<le> best_segment xs"
proof (induction xs)
  case (Cons x xs)
  then show ?case using prefix_sum_le [of p "x # xs"] by (auto simp: sublist_Cons_right le_max_iff_disj)
qed simp

lemma best_segment_sublist: "\<exists>p. sublist p xs \<and> sum_list p = best_segment xs"
proof (induction xs)
  case (Cons x xs)
  then obtain p where p: "sublist p xs" "sum_list p = best_segment xs" by blast
  obtain q where q: "prefix q (x # xs)" "sum_list q = best_front (x # xs)" using best_front_prefix by blast
  show ?case
  proof (cases "best_front (x # xs) \<le> best_segment xs")
    case True
    then have "sublist p (x # xs) \<and> sum_list p = best_segment (x # xs)" using p by (simp add: sublist_Cons_right max_absorb2)
    then show ?thesis by blast
  next
    case False
    then have "sublist q (x # xs) \<and> sum_list q = best_segment (x # xs)" using q False by (auto simp: sublist_Cons_right)
    then show ?thesis by blast
  qed
qed simp

lemma max_step:
  assumes "0 \<le> f" and "f \<le> s" and "0 \<le> w" and "w \<le> m \<or> w = 0"
  shows "max (max m (max 0 (w + a))) (max (max 0 (w + a) + f) s) = max m (max (w + max 0 (a + f)) (max (max 0 (a + f)) (s::int)))"
  using assms by (cases "0 \<le> w + a"; cases "0 \<le> a + f"; simp add: max_def; linarith)

lemma segment_loop_best:
  assumes "\<forall>a\<in>set nums. \<bar>sint a\<bar> \<le> 1000000" and "0 \<le> sint now" and "sint now + 1000000 * int (length nums) \<le> 1000000000"
    and "sint now \<le> sint mn \<or> (now = 0 \<and> nums \<noteq> [] \<and> sint mn < 0)"
  shows "sint (segment_loop nums now mn) = max (sint mn) (max (sint now + best_front (map sint nums)) (best_segment (map sint nums)))"
  using assms
proof (induction nums arbitrary: now mn)
  case (Cons a nums)
  let ?sum = "now + a"
  have a: "\<bar>sint a\<bar> \<le> 1000000" using Cons.prems(1) by simp
  have sum: "sint ?sum = sint now + sint a"
    unfolding sint_word_ariths using a Cons.prems(2,3) by (intro signed_take_bit_int_eq_self) auto
  define now' where "now' = (if ?sum <s 0 then 0 else ?sum)"
  define mn' where "mn' = (if mn <s now' then now' else mn)"
  have n: "sint now' = max 0 (sint now + sint a)"
    by (auto simp: now'_def word_sless_alt sum)
  have m: "sint mn' = max (sint mn) (sint now')"
    by (auto simp: mn'_def word_sless_alt)
  have IH: "sint (segment_loop nums now' mn') =
      max (sint mn') (max (sint now' + best_front (map sint nums)) (best_segment (map sint nums)))"
    using Cons.prems a by (intro Cons.IH) (auto simp: n m)
  have e: "segment_loop (a # nums) now mn = segment_loop nums now' mn'"
    by (simp add: now'_def mn'_def Let_def)
  have w: "sint now \<le> sint mn \<or> sint now = 0" using Cons.prems(4) by auto
  show ?case
    using max_step [OF best_front_le [of "map sint nums"] Cons.prems(2) w, of "sint a"]
    by (simp only: e IH n m list.map best_front.simps best_segment.simps)
qed auto

text \<open>Up to a thousand numbers (the room of the array) of at most a million, so that no sum leaves \<open>int\<close>.\<close>

theorem max_segment_is_max:
  assumes "length nums \<le> 1000" and "\<forall>a\<in>set nums. \<bar>sint a\<bar> \<le> 1000000"
  shows "sint (max_segment nums) = Max {sum_list s | s. sublist s (map sint nums)}"
proof -
  let ?xs = "map sint nums"
  have max: "Max {sum_list s | s. sublist s ?xs} = best_segment ?xs"
  proof (rule Max_eqI)
    show "finite {sum_list s |s. sublist s ?xs}" by (auto simp: setcompr_eq_image simp flip: set_sublists_eq)
  qed (use segment_sum_le best_segment_sublist [of ?xs] in \<open>auto, metis\<close>)
  show ?thesis
  proof (cases nums)
    case Nil
    then show ?thesis using max by (simp add: max_segment_def word_sle_eq)
  next
    case (Cons a as)
    have "sint (segment_loop nums 0 (- 1000)) = max (- 1000) (max (best_front ?xs) (best_segment ?xs))"
      using segment_loop_best [of nums 0 "- 1000"] assms Cons by simp
    then have "sint (segment_loop nums 0 (- 1000)) = best_segment ?xs"
      using best_front_le [of ?xs] by simp
    then show ?thesis
      using best_front_le [of ?xs] max by (simp add: max_segment_def word_sle_eq)
  qed
qed

section \<open>Terms of a series shared among threads\<close>

text \<open>
  \<open>thSets\<close> without the handle of the thread, over the type \<open>'d\<close> of the floating point numbers. Addition, the quotient
  of a sign and a term, and zero are arguments of the definitions: the code only relies on them being \<open>double\<close>'s.
\<close>

type_synonym u64 = "64 word"

record 'd thSets =
  thNum :: nat
  iniTerm :: u64
  endTerm :: u64
  localRes :: 'd

definition set_up :: "'d \<Rightarrow> nat \<Rightarrow> u64 \<Rightarrow> 'd thSets list" where
  "set_up zero maxThrds maxTerms =
     (let termsInc = maxTerms div of_nat maxThrds
      in map (\<lambda>n. \<lparr>thNum = n + 1, iniTerm = termsInc * of_nat n + 1,
                    endTerm = (if n = maxThrds - 1 then maxTerms else termsInc * (of_nat n + 1)), localRes = zero\<rparr>)
         [0..<maxThrds])"

text \<open>The loop of a thread; it would not end with the greatest number as last term.\<close>

partial_function (option) working_loop ::
    "('d \<Rightarrow> 'd \<Rightarrow> 'd) \<Rightarrow> (int \<Rightarrow> u64 \<Rightarrow> 'd) \<Rightarrow> u64 \<Rightarrow> u64 \<Rightarrow> 'd \<Rightarrow> 'd option" where
  "working_loop add_d div_d endTrm n res =
     (if n \<le> endTrm then
        working_loop add_d div_d endTrm (n + 1) (add_d res (div_d (if n mod 2 \<noteq> 0 then 1 else - 1) (n * 2 - 1)))
      else Some res)"

definition workingThread ::
    "('d \<Rightarrow> 'd \<Rightarrow> 'd) \<Rightarrow> (int \<Rightarrow> u64 \<Rightarrow> 'd) \<Rightarrow> 'd \<Rightarrow> 'd thSets \<Rightarrow> 'd thSets option" where
  "workingThread add_d div_d zero sets =
     map_option (\<lambda>r. sets\<lparr>localRes := r\<rparr>) (working_loop add_d div_d (endTerm sets) (iniTerm sets) zero)"

fun join_all :: "('d thSets \<Rightarrow> 'd thSets option) \<Rightarrow> 'd thSets list \<Rightarrow> 'd thSets list option" where
  "join_all worker [] = Some []"
| "join_all worker (g # gs) =
     (case worker g of None \<Rightarrow> None | Some g \<Rightarrow> map_option ((#) g) (join_all worker gs))"

text \<open>The threads share nothing but the array, in which each has an element of its own: their order is of no importance.\<close>

definition pi_main :: "('d \<Rightarrow> 'd \<Rightarrow> 'd) \<Rightarrow> (int \<Rightarrow> u64 \<Rightarrow> 'd) \<Rightarrow> 'd \<Rightarrow> nat \<Rightarrow> u64 \<Rightarrow> 'd option" where
  "pi_main add_d div_d zero maxThrds maxTerms =
     map_option (foldl (\<lambda>r g. add_d r (localRes g)) zero) (join_all (workingThread add_d div_d zero) (set_up zero maxThrds maxTerms))"

text \<open>The terms a thread adds, in its order.\<close>

definition leibniz :: "(int \<Rightarrow> u64 \<Rightarrow> 'd) \<Rightarrow> nat \<Rightarrow> 'd" where
  "leibniz div_d i = div_d (if odd i then 1 else - 1) (of_nat (2 * i - 1))"

definition terms :: "nat \<Rightarrow> nat \<Rightarrow> nat list" where
  "terms i e = [i..<e + 1]"

lemma terms_rec: "terms i e = (if i \<le> e then i # terms (i + 1) e else [])"
  by (simp add: terms_def upt_conv_Cons del: upt_Suc)

lemma unat64: "x < 2 ^ 64 \<Longrightarrow> unat (of_nat x :: u64) = x"
  by (simp add: unat_of_nat)

lemma upt_join: "i \<le> j \<Longrightarrow> j \<le> k \<Longrightarrow> [i..<j] @ [j..<k] = [i..<k]"
  using upt_add_eq_append [of i j "k - j"] by simp

lemma odd_word: "of_nat i mod 2 \<noteq> (0 :: u64) \<longleftrightarrow> odd i"
  by (simp add: mod_2_eq_odd)

lemma working_loop_adds:
  assumes "e < 2 ^ 64 - 1" and "0 < i" and "i \<le> e + 1"
  shows "working_loop add_d div_d (of_nat e) (of_nat i) r = Some (foldl (\<lambda>r j. add_d r (leibniz div_d j)) r (terms i e))"
  using assms
proof (induction "e + 1 - i" arbitrary: i r)
  case 0
  then show ?case
    by (subst working_loop.simps, subst terms_rec) (simp add: word_le_nat_alt unat64 del: of_nat_Suc of_nat_add)
next
  case (Suc m)
  then have le: "(of_nat i :: u64) \<le> of_nat e" and up: "terms i e = i # terms (i + 1) e"
    by (simp_all add: word_le_nat_alt unat64 terms_rec [of i])
  have "working_loop add_d div_d (of_nat e) (of_nat (i + 1)) r' =
      Some (foldl (\<lambda>r j. add_d r (leibniz div_d j)) r' (terms (i + 1) e))" for r'
    using Suc by (intro Suc.hyps(1)) auto
  moreover have "div_d (if of_nat i mod 2 \<noteq> (0 :: u64) then 1 else - 1) (of_nat i * 2 - 1) = leibniz div_d i"
    using Suc.prems(2) by (simp add: leibniz_def of_nat_diff mod_2_eq_odd ac_simps)
  then have "working_loop add_d div_d (of_nat e) (of_nat i) r =
      working_loop add_d div_d (of_nat e) (of_nat (i + 1)) (add_d r (leibniz div_d i))"
    by (subst working_loop.simps) (simp only: le if_True of_nat_add of_nat_1)
  ultimately show ?case
    by (simp only: up foldl.simps)
qed

definition pieces :: "nat \<Rightarrow> nat \<Rightarrow> (nat \<times> nat) list" where
  "pieces m t = map (\<lambda>n. (t div m * n + 1, if n = m - 1 then t else t div m * (n + 1))) [0..<m]"

lemma pieces_cover: "0 < m \<Longrightarrow> concat (map (\<lambda>(i, e). terms i e) (pieces m t)) = terms 1 t"
proof -
  assume m: "0 < m"
  let ?c = "t div m"
  have front: "concat (map (\<lambda>n. terms (?c * n + 1) (?c * (n + 1))) [0..<k]) = terms 1 (?c * k)" for k
  proof (induction k)
    case (Suc k)
    have "terms 1 (?c * k) @ terms (?c * k + 1) (?c * (k + 1)) = terms 1 (?c * (k + 1))"
      unfolding terms_def by (rule upt_join) auto
    then show ?case using Suc by simp
  qed (simp add: terms_def)
  obtain k where k: "m = Suc k" using m gr0_implies_Suc by blast
  have "?c * k \<le> ?c * m" by (simp add: k)
  also have "\<dots> \<le> t" by simp
  finally have "terms 1 (?c * k) @ terms (?c * k + 1) t = terms 1 t"
    unfolding terms_def by (intro upt_join) auto
  moreover have "map (\<lambda>(i, e). terms i e) (pieces m t) =
      map (\<lambda>n. terms (?c * n + 1) (?c * (n + 1))) [0..<k] @ [terms (?c * k + 1) t]"
    by (simp add: pieces_def k)
  ultimately show ?thesis using front by simp
qed

lemma pieces_bounds:
  assumes "(i, e) \<in> set (pieces m t)"
  shows "0 < i" "i \<le> e + 1" "e \<le> t"
proof -
  obtain n where n: "n < m" "i = t div m * n + 1" "e = (if n = m - 1 then t else t div m * (n + 1))"
    using assms by (auto simp: pieces_def)
  have "t div m * (n + 1) \<le> t div m * m" using n(1) by (intro mult_le_mono2) auto
  also have "\<dots> \<le> t" by simp
  finally have "t div m * (n + 1) \<le> t" .
  then show "0 < i" "i \<le> e + 1" "e \<le> t" using n by auto
qed

lemma set_up_pieces:
  assumes "0 < m" and "m < 2 ^ 31" and "t < 2 ^ 63"
  shows "map (\<lambda>g. (unat (iniTerm g), unat (endTerm g))) (set_up zero m (of_nat t)) = pieces m t"
proof -
  have "(of_nat t :: u64) div of_nat m = of_nat (t div m)"
    using assms by (simp add: word_unat_eq_iff unat_div_distrib unat64 div_le_dividend [THEN le_less_trans])
  then have "map (\<lambda>g. (unat (iniTerm g), unat (endTerm g))) (set_up zero m (of_nat t)) =
      map (\<lambda>(i, e). (unat (of_nat i :: u64), unat (of_nat e :: u64))) (pieces m t)"
    by (simp add: set_up_def pieces_def Let_def comp_def distrib_right ac_simps)
  also have "\<dots> = pieces m t"
  proof (rule map_idI, clarify)
    fix i e
    assume "(i, e) \<in> set (pieces m t)"
    from pieces_bounds [OF this] assms(3)
    show "unat (of_nat i :: u64) = i \<and> unat (of_nat e :: u64) = e" by (simp add: unat64)
  qed
  finally show ?thesis .
qed

lemma join_all_map:
  assumes "\<forall>g\<in>set gs. worker g = Some (f g)"
  shows "join_all worker gs = Some (map f gs)"
  using assms by (induction gs) auto

lemma part_lengths: "k < m - 1 \<Longrightarrow> length (terms (fst (pieces m t ! k)) (snd (pieces m t ! k))) = t div m"
  by (simp add: pieces_def terms_def)

text \<open>
  C28. Whatever addition is (\<open>double\<close> rounds): the threads share the numbers of the terms, each has a run of them, no
  term is left out or added twice, and the result is that of adding each part from zero and then the parts in
  order. There must be a thread, and twice the number of a term must fit its type.
\<close>

theorem pi_main_adds_each_term_once:
  assumes "0 < m" and "m < 2 ^ 31" and "t < 2 ^ 63"
  shows "\<exists>parts. length parts = m \<and> concat parts = [1..<t + 1] \<and> (\<forall>k < m - 1. length (parts ! k) = t div m)
    \<and> pi_main add_d div_d zero m (of_nat t) =
        Some (foldl (\<lambda>r js. add_d r (foldl (\<lambda>r j. add_d r (leibniz div_d j)) zero js)) zero parts)"
proof -
  let ?step = "\<lambda>r j. add_d r (leibniz div_d j)"
  let ?terms = "\<lambda>g. terms (unat (iniTerm g)) (unat (endTerm g))"
  let ?f = "\<lambda>g. g\<lparr>localRes := foldl ?step zero (?terms g)\<rparr>"
  let ?parts = "map (\<lambda>(i, e). terms i e) (pieces m t)"
  have each: "workingThread add_d div_d zero g = Some (?f g)" if "g \<in> set (set_up zero m (of_nat t))" for g
  proof -
    have "(unat (iniTerm g), unat (endTerm g)) \<in> set (pieces m t)"
      using that unfolding set_up_pieces [OF assms, of zero, symmetric] by simp
    note b = pieces_bounds [OF this]
    have "unat (endTerm g) < 2 ^ 64 - 1" using b(3) assms(3) by simp
    from working_loop_adds [OF this b(1,2), of add_d div_d zero]
    show ?thesis by (simp add: workingThread_def)
  qed
  have parts: "map ?terms (set_up zero m (of_nat t)) = ?parts"
    unfolding set_up_pieces [OF assms, of zero, symmetric] by (simp add: comp_def)
  have "foldl (\<lambda>r g. add_d r (localRes g)) r (map ?f gs) =
      foldl (\<lambda>r js. add_d r (foldl ?step zero js)) r (map ?terms gs)" for gs r
    by (induction gs arbitrary: r) simp_all
  then have "pi_main add_d div_d zero m (of_nat t) = Some (foldl (\<lambda>r js. add_d r (foldl ?step zero js)) zero ?parts)"
    unfolding pi_main_def parts [symmetric] using join_all_map [of _ _ ?f, OF ballI [OF each]] by simp
  moreover have "length ?parts = m" "concat ?parts = [1..<t + 1]"
    using pieces_cover [OF assms(1), of t] by (simp_all add: pieces_def terms_def)
  moreover have "length (?parts ! k) = t div m" if "k < m - 1" for k
    using part_lengths [OF that] that by (simp add: pieces_def)
  ultimately show ?thesis by blast
qed

theorem max_segment_witness: "sint (max_segment [3, - 5, 4, - 1, 2]) = Max {sum_list s | s. sublist s [3, - 5, 4, - 1, 2]}"
  using max_segment_is_max [of "[3, - 5, 4, - 1, 2]"] by simp

theorem pi_main_witness:
  "\<exists>a b c. a @ b @ c = [1..<8] \<and> length a = 2 \<and> length b = 2
    \<and> pi_main (\<lambda>x y. 10 * x + y) (\<lambda>s d. s * int (unat d)) 0 3 7 =
        Some (foldl (\<lambda>r js. 10 * r + foldl (\<lambda>r j. 10 * r + leibniz (\<lambda>s d. s * int (unat d)) j) 0 js) 0 [a, b, c])"
proof -
  obtain parts where p: "length parts = 3" "concat parts = [1..<8]" "\<forall>k < 2. length (parts ! k) = 2"
    "pi_main (\<lambda>x y. 10 * x + y) (\<lambda>s d. s * int (unat d)) 0 3 7 =
        Some (foldl (\<lambda>r js. 10 * r + foldl (\<lambda>r j. 10 * r + leibniz (\<lambda>s d. s * int (unat d)) j) 0 js) 0 parts)"
    using pi_main_adds_each_term_once [of 3 7 "\<lambda>x y. 10 * x + y" "\<lambda>s d. s * int (unat d)" 0] by auto
  obtain a b c where abc: "parts = [a, b, c]" using p(1) by (auto simp: eval_nat_numeral length_Suc_conv)
  have "length a = 2" "length b = 2" using p(3) [rule_format, of 0] p(3) [rule_format, of 1] by (simp_all add: abc)
  then show ?thesis using p(2,4) unfolding abc by (intro exI [of _ a] exI [of _ b] exI [of _ c]) simp
qed

end
